(* ===== verification/Prelude.thy ===== *)
theory Prelude
  imports Main "HOL-Library.Word"
begin

unbundle bit_operations_syntax

text \<open>
  Shared vocabulary of the development.

  \<^item> The fixed-width types of \<open>arm11_48/src/defns.h\<close> (\<open>bit_t\<close>, \<open>nibble_t\<close> and \<open>byte_t\<close> are
    all \<open>unsigned char\<close>, \<open>word_t\<close> is \<open>uint32_t\<close>).
  \<^item> \<open>c_error\<close>: the ways a C function of this repository stops without returning a value,
    either because it says so (a failed \<open>assert\<close>/\<open>ASSERT\<close>, \<open>PANIC\<close>, \<open>exit\<close>) or because the
    C standard gives it no meaning (an access outside an object, a shift by at least the width).
    A fallible function returns \<open>c_error + 'a\<close>, and \<open>bindE\<close> chains such calls.
  \<^item> Checked byte access and little endian words, used by the emulator, the assembler and
    the file system.
  \<^item> Lemmas on lists and words that several components share, and the collections they go into.
\<close>

section \<open>Collections\<close>

named_theorems arm_defs \<open>definitions of the decoder fields of the emulator\<close>
named_theorems frame_simps \<open>what an operation leaves unchanged\<close>
named_theorems word_masks \<open>numeral masks as \<open>mask n\<close>\<close>

section \<open>Fixed-width types\<close>

type_synonym bit_t = "8 word"
type_synonym nibble_t = "8 word"
type_synonym byte_t = "8 word"
type_synonym word_t = "32 word"

section \<open>Outcomes of a C function\<close>

datatype c_error =
    OutOfBounds         \<comment> \<open>an access outside the object it is made through\<close>
  | AssertFailed        \<comment> \<open>\<open>assert\<close> of the C library, \<open>ASSERT\<close> of Pintos\<close>
  | UndefinedShift      \<comment> \<open>a shift by at least the width of the promoted left operand\<close>
  | NullDereference     \<comment> \<open>a null pointer is followed\<close>
  | Indeterminate       \<comment> \<open>an uninitialised object is read\<close>
  | DivisionByZero
  | SignedOverflow      \<comment> \<open>signed arithmetic whose result does not fit\<close>
  | KernelPanic         \<comment> \<open>\<open>PANIC\<close> of Pintos\<close>
  | NoFuel              \<comment> \<open>not an outcome of the code: the fuel of a bounded loop ran out\<close>
  | ExitFailure         \<comment> \<open>\<open>exit (EXIT_FAILURE)\<close>\<close>

fun bindE :: "'e + 'a \<Rightarrow> ('a \<Rightarrow> 'e + 'b) \<Rightarrow> 'e + 'b" where
  "bindE (Inl e) f = Inl e"
| "bindE (Inr x) f = f x"

lemma bindE_cong [fundef_cong]:
  "m = m' \<Longrightarrow> (\<And>x. m' = Inr x \<Longrightarrow> f x = g x) \<Longrightarrow> bindE m f = bindE m' g"
  by (cases m) auto

lemma bindE_eq_Inr [simp]: "bindE m f = Inr y \<longleftrightarrow> (\<exists>x. m = Inr x \<and> f x = Inr y)"
  by (cases m) auto

lemma bindE_eq_Inl:
  "bindE m f = Inl e \<longleftrightarrow> m = Inl e \<or> (\<exists>x. m = Inr x \<and> f x = Inl e)"
  by (cases m) auto

lemma bindE_assoc: "bindE (bindE m f) g = bindE m (\<lambda>x. bindE (f x) g)"
  by (cases m) auto

lemma bindE_Inr_right [simp]: "bindE m Inr = m"
  by (cases m) auto

definition guardE :: "'e \<Rightarrow> bool \<Rightarrow> 'e + unit" where
  "guardE e p = (if p then Inr () else Inl e)"

lemma guardE_eq_Inr [simp]: "guardE e p = Inr u \<longleftrightarrow> p"
  by (auto simp: guardE_def)

lemma guardE_True [simp]: "guardE e True = Inr ()"
  by (simp add: guardE_def)

lemma guardE_False [simp]: "guardE e False = Inl e"
  by (simp add: guardE_def)

definition ok :: "'e + 'a \<Rightarrow> bool" where
  "ok r = (case r of Inl _ \<Rightarrow> False | Inr _ \<Rightarrow> True)"

lemma ok_simps [simp]: "ok (Inl e) = False" "ok (Inr x) = True"
  by (simp_all add: ok_def)

lemma ok_iff: "ok r \<longleftrightarrow> (\<exists>x. r = Inr x)"
  by (cases r) auto

section \<open>Checked access\<close>

definition rd :: "'a list \<Rightarrow> nat \<Rightarrow> c_error + 'a" where
  "rd m i = (if i < length m then Inr (m ! i) else Inl OutOfBounds)"

definition wr :: "'a list \<Rightarrow> nat \<Rightarrow> 'a \<Rightarrow> c_error + 'a list" where
  "wr m i x = (if i < length m then Inr (m[i := x]) else Inl OutOfBounds)"

lemma rd_in [simp]: "i < length m \<Longrightarrow> rd m i = Inr (m ! i)"
  by (simp add: rd_def)

lemma rd_out: "\<not> i < length m \<Longrightarrow> rd m i = Inl OutOfBounds"
  by (simp add: rd_def)

lemma rd_eq_Inr: "rd m i = Inr x \<longleftrightarrow> i < length m \<and> x = m ! i"
  by (auto simp: rd_def)

lemma wr_in [simp]: "i < length m \<Longrightarrow> wr m i x = Inr (m[i := x])"
  by (simp add: wr_def)

lemma wr_out: "\<not> i < length m \<Longrightarrow> wr m i x = Inl OutOfBounds"
  by (simp add: wr_def)

lemma wr_eq_Inr: "wr m i x = Inr m' \<longleftrightarrow> i < length m \<and> m' = m[i := x]"
  by (auto simp: wr_def)

section \<open>Masks and bytes\<close>

lemma masks_word32 [word_masks]:
  "(255 :: 32 word) = mask 8" "(15 :: 32 word) = mask 4" "(7 :: 32 word) = mask 3"
  "(1 :: 32 word) = mask 1"
  by (simp_all add: mask_eq_exp_minus_1)

lemma masks_word8 [word_masks]:
  "(255 :: 8 word) = mask 8" "(15 :: 8 word) = mask 4" "(7 :: 8 word) = mask 3"
  "(1 :: 8 word) = mask 1" "(3 :: 8 word) = mask 2"
  by (simp_all add: mask_eq_exp_minus_1)

lemma unat_and_mask_less: "n < LENGTH('a) \<Longrightarrow> unat (w AND mask n :: 'a::len word) < 2 ^ n"
  by (simp add: unsigned_take_bit_eq flip: take_bit_eq_mask)

lemma unat_nibble_less: "unat (b AND 15 :: byte_t) < 16"
  using unat_and_mask_less [of 4 b] by (simp add: word_masks(6))

lemma unat_high_nibble_less: "unat (drop_bit 4 b :: byte_t) < 16"
proof -
  have "unat b < 256" using unsigned_less [of b, where ?'a = nat] by simp
  then show ?thesis by (simp only: unat_drop_bit_eq) (simp add: drop_bit_eq_div)
qed

text \<open>The four bytes of a word, least significant first, and back.\<close>

definition word_bytes :: "word_t \<Rightarrow> byte_t list" where
  "word_bytes w = [ucast w, ucast (drop_bit 8 w), ucast (drop_bit 16 w), ucast (drop_bit 24 w)]"

definition bytes_word :: "byte_t \<Rightarrow> byte_t \<Rightarrow> byte_t \<Rightarrow> byte_t \<Rightarrow> word_t" where
  "bytes_word b0 b1 b2 b3 =
     ucast b0 OR push_bit 8 (ucast b1) OR push_bit 16 (ucast b2) OR push_bit 24 (ucast b3)"

lemma length_word_bytes [simp]: "length (word_bytes w) = 4"
  by (simp add: word_bytes_def)

lemma bit_bytes_word:
  "bit (bytes_word b0 b1 b2 b3) n \<longleftrightarrow>
     (if n < 8 then bit b0 n else if n < 16 then bit b1 (n - 8)
      else if n < 24 then bit b2 (n - 16) else bit b3 (n - 24) \<and> n < 32)"
  by (auto simp: bytes_word_def bit_simps dest: bit_imp_le_length)

lemma bytes_word_word_bytes [simp]:
  "bytes_word (ucast w) (ucast (drop_bit 8 w)) (ucast (drop_bit 16 w)) (ucast (drop_bit 24 w)) = w"
proof (rule bit_word_eqI)
  fix n assume "n < LENGTH(32)"
  then show "bit (bytes_word (ucast w) (ucast (drop_bit 8 w)) (ucast (drop_bit 16 w))
      (ucast (drop_bit 24 w))) n = bit w n"
    by (auto simp: bit_bytes_word bit_simps)
qed

lemma word_bytes_bytes_word [simp]: "word_bytes (bytes_word b0 b1 b2 b3) = [b0, b1, b2, b3]"
proof -
  have "ucast (bytes_word b0 b1 b2 b3) = b0"
    by (rule bit_word_eqI) (simp add: bit_bytes_word bit_simps)
  moreover have "ucast (drop_bit 8 (bytes_word b0 b1 b2 b3)) = b1"
    by (rule bit_word_eqI) (simp add: bit_bytes_word bit_simps)
  moreover have "ucast (drop_bit 16 (bytes_word b0 b1 b2 b3)) = b2"
    by (rule bit_word_eqI) (simp add: bit_bytes_word bit_simps)
  moreover have "ucast (drop_bit 24 (bytes_word b0 b1 b2 b3)) = b3"
    by (rule bit_word_eqI) (simp add: bit_bytes_word bit_simps)
  ultimately show ?thesis by (simp add: word_bytes_def)
qed

section \<open>Byte loops\<close>

text \<open>
  The loops with which the emulator stores and loads a word in little endian: \<open>for (i = 0; i < 4;
  i++) { m[a + i] = w; w >>= 8; }\<close> and \<open>for (i = 3; i >= 0; i--) { w = w << 8; w |= m[a + i]; }\<close>.
  The index \<open>a + i\<close> is computed in 32 bits and wraps around.
\<close>

fun store_loop :: "byte_t list \<Rightarrow> word_t \<Rightarrow> nat \<Rightarrow> word_t \<Rightarrow> c_error + byte_t list" where
  "store_loop m a 0 w = Inr m"
| "store_loop m a (Suc k) w =
     bindE (wr m (unat a) (ucast w)) (\<lambda>m'. store_loop m' (a + 1) k (drop_bit 8 w))"

fun load_loop :: "byte_t list \<Rightarrow> word_t \<Rightarrow> nat \<Rightarrow> word_t \<Rightarrow> c_error + word_t" where
  "load_loop m a 0 w = Inr w"
| "load_loop m a (Suc i) w =
     bindE (rd m (unat (a + of_nat i))) (\<lambda>b. load_loop m a i (push_bit 8 w OR ucast b))"

lemma unat_add_small:
  assumes "unat (a :: word_t) + k < 2 ^ 32"
  shows "unat (a + of_nat k) = unat a + k"
proof -
  have "unat (of_nat k :: word_t) = k"
    using assms by (simp add: unat_of_nat take_bit_nat_eq_self)
  then show ?thesis using assms by (simp add: unat_add_lem [THEN iffD1])
qed

definition put_bytes :: "'a list \<Rightarrow> nat \<Rightarrow> 'a list \<Rightarrow> 'a list" where
  "put_bytes m i bs = take i m @ bs @ drop (i + length bs) m"

lemma length_put_bytes [simp]: "i + length bs \<le> length m \<Longrightarrow> length (put_bytes m i bs) = length m"
  by (simp add: put_bytes_def)

lemma nth_put_bytes:
  "i + length bs \<le> length m \<Longrightarrow> j < length m \<Longrightarrow>
   put_bytes m i bs ! j = (if i \<le> j \<and> j < i + length bs then bs ! (j - i) else m ! j)"
  by (auto simp: put_bytes_def nth_append min_def)

lemma put_bytes_Cons:
  "i < length m \<Longrightarrow> put_bytes (m[i := b]) (Suc i) bs = put_bytes m i (b # bs)"
  by (simp add: put_bytes_def take_Suc_conv_app_nth)

lemma put_bytes_Nil [simp]: "put_bytes m i [] = m"
  by (simp add: put_bytes_def)

lemma four_Suc: "(4 :: nat) = Suc (Suc (Suc (Suc 0)))"
  by simp

lemma store_loop_ok:
  assumes "unat a + 4 \<le> length m" "length m < 2 ^ 32"
  shows "store_loop m a 4 w = Inr (put_bytes m (unat a) (word_bytes w))"
proof -
  have u: "unat (a + of_nat k) = unat a + k" if "k < 4" for k
    using assms that by (intro unat_add_small) simp
  have "unat (a + 1) = unat a + 1" "unat (a + 2) = unat a + 2" "unat (a + 3) = unat a + 3"
    using u [of 1] u [of 2] u [of 3] by simp_all
  then show ?thesis
    using assms unfolding four_Suc store_loop.simps
    by (simp add: word_bytes_def add.assoc numeral_3_eq_3 flip: put_bytes_Cons)
qed

lemma load_word_eq:
  "push_bit 8 (push_bit 8 (push_bit 8 (push_bit 8 junk OR ucast b3) OR ucast b2) OR ucast b1)
     OR ucast b0 = bytes_word b0 b1 b2 b3"
  by (rule bit_word_eqI) (auto simp: bit_bytes_word bit_simps dest: bit_imp_le_length)

lemma load_loop_ok:
  assumes "unat a + 4 \<le> length m" "length m < 2 ^ 32"
  shows "load_loop m a 4 junk =
    Inr (bytes_word (m ! unat a) (m ! (unat a + 1)) (m ! (unat a + 2)) (m ! (unat a + 3)))"
proof -
  have u: "unat (a + of_nat k) = unat a + k" if "k < 4" for k
    using assms that by (intro unat_add_small) simp
  have "unat (a + 1) = unat a + 1" "unat (a + 2) = unat a + 2" "unat (a + 3) = unat a + 3"
    using u [of 1] u [of 2] u [of 3] by simp_all
  then have "load_loop m a 4 junk =
      Inr (push_bit 8 (push_bit 8 (push_bit 8 (push_bit 8 junk OR ucast (m ! (unat a + 3)))
        OR ucast (m ! (unat a + 2))) OR ucast (m ! (unat a + 1))) OR ucast (m ! unat a))"
    using assms unfolding four_Suc load_loop.simps by simp
  then show ?thesis by (simp only: load_word_eq)
qed

lemma load_store_word:
  assumes "unat a + 4 \<le> length m" "length m < 2 ^ 32"
  shows "load_loop (put_bytes m (unat a) (word_bytes w)) a 4 junk = Inr w"
  using assms by (simp add: load_loop_ok nth_put_bytes) (simp add: word_bytes_def)

lemma store_loop_length: "store_loop m a k w = Inr m' \<Longrightarrow> length m' = length m"
  by (induction k arbitrary: m a w) (auto simp: wr_eq_Inr)

lemma store_loop_out:
  assumes "0 < k" "length m < unat a + k" "length m < 2 ^ 32 - 1"
  shows "store_loop m a k w = Inl OutOfBounds"
  using assms
proof (induction k arbitrary: m a w)
  case (Suc k)
  show ?case
  proof (cases "unat a < length m")
    case True
    then have "unat (a + 1) = unat a + 1"
      using Suc.prems(3) unat_add_small [of a 1] by simp
    with True Suc.prems have "store_loop (m[unat a := ucast w]) (a + 1) k (drop_bit 8 w) = Inl OutOfBounds"
      by (intro Suc.IH) auto
    with True show ?thesis by simp
  qed (simp add: wr_out)
qed simp

lemma unat_drop_bit_1_less: "w \<noteq> 0 \<Longrightarrow> unat (drop_bit 1 w :: word_t) < unat w"
proof -
  assume "w \<noteq> 0"
  then have "unat w div 2 < unat w" by (simp add: word_unat_eq_iff)
  then show ?thesis by (simp only: unat_drop_bit_eq) (simp add: drop_bit_eq_div)
qed

lemma sint_small: "unat (a :: word_t) < 2 ^ 31 \<Longrightarrow> sint a = int (unat a)"
proof -
  assume a: "unat a < 2 ^ 31"
  have u: "uint a = int (unat a)" by simp
  have "signed_take_bit 31 (int k) = int k" if "k < 2 ^ 31" for k
    using that by (intro signed_take_bit_int_eq_self) simp_all
  from this [OF a] show ?thesis unfolding sint_uint u by simp
qed

section \<open>Lists\<close>

lemma find_append:
  "find P (xs @ ys) = (case find P xs of None \<Rightarrow> find P ys | Some x \<Rightarrow> Some x)"
  by (induction xs) auto

end
