(* ===== verification/Arm_Common.thy ===== *)
theory Arm_Common
  imports Prelude
begin

unbundle bit_operations_syntax

text \<open>
  The helpers of the ARM11 emulator: \<open>emulator/common_functions/common.c\<close> (nibbles and the
  barrel shifter) and \<open>emulator/cond/cond.c\<close> (condition codes), with the state the
  instruction modules share: the 17 registers, the 64 KiB of memory, the 44 bytes of GPIO
  memory, and the lines printed while instructions execute.
\<close>

section \<open>The machine\<close>

datatype message =
    GPIO_accessed nat nat      \<comment> \<open>\<open>One GPIO pin from a to b has been accessed\<close>\<close>
  | Out_of_bounds_access word_t
  | Pin_off
  | Pin_on

record machine =
  registers :: "word_t list"
  memory :: "byte_t list"
  gpio_memory :: "byte_t list"
  printed :: "message list"

definition PC :: nat where "PC = 15"
definition CPSR :: nat where "CPSR = 16"
definition memorySize :: nat where "memorySize = 65536"
definition GPIO_memory_size :: nat where "GPIO_memory_size = 44"

definition machine_wf :: "machine \<Rightarrow> bool" where
  "machine_wf m \<longleftrightarrow> length (registers m) = 17 \<and> length (memory m) = memorySize \<and>
     length (gpio_memory m) = GPIO_memory_size"

lemma machine_wfD [dest]:
  "machine_wf m \<Longrightarrow> length (registers m) = 17"
  "machine_wf m \<Longrightarrow> length (memory m) = 65536"
  "machine_wf m \<Longrightarrow> length (gpio_memory m) = 44"
  by (simp_all add: machine_wf_def memorySize_def GPIO_memory_size_def)

section \<open>Nibbles and the shifter\<close>

definition get_First_Nibble :: "byte_t \<Rightarrow> byte_t" where
  "get_First_Nibble b = drop_bit 4 b"

definition get_Second_Nibble :: "byte_t \<Rightarrow> byte_t" where
  "get_Second_Nibble b = b AND 15"

lemma get_First_Nibble_less [simp]: "unat (get_First_Nibble b) < 16"
  by (simp add: get_First_Nibble_def unat_high_nibble_less)

lemma get_Second_Nibble_less [simp]: "unat (get_Second_Nibble b) < 16"
  by (simp add: get_Second_Nibble_def unat_nibble_less)

text \<open>
  \<open>shifter\<close> returns the shifted word and, through its pointer argument, the carry. A shift
  amount of 0 leaves the carry alone. Amounts come from a byte, so they can be 32 and more
  (a register-specified shift): the C shifts are then undefined. \<open>1 << 31\<close> on \<open>int\<close>, the
  divisor of the arithmetic shift by 31, is the bit pattern \<open>0x80000000\<close> (gcc's promise),
  which the division reads as unsigned.
\<close>

definition shifter :: "byte_t \<Rightarrow> byte_t \<Rightarrow> word_t \<Rightarrow> bit_t \<Rightarrow> c_error + (word_t \<times> bit_t)" where
  "shifter shiftType shiftAmount w carry =
    (let n = unat shiftAmount in
     if n = 0 then Inr (w, carry)
     else if shiftType = 0 then
       (if n < 32 then Inr (push_bit n w, ucast (drop_bit 31 (push_bit (n - 1) w) AND 1))
        else Inl UndefinedShift)
     else if shiftType = 1 then
       (if n < 32 then Inr (drop_bit n w, ucast (drop_bit (n - 1) w AND 1))
        else Inl UndefinedShift)
     else if shiftType = 2 then
       (if n < 32 then Inr (w div push_bit n 1, ucast (drop_bit (n - 1) w AND 1))
        else Inl UndefinedShift)
     else if shiftType = 3 then
       (if n < 32 then Inr (drop_bit n w OR push_bit (32 - n) w,
                            ucast (drop_bit (n - 1) w AND 1))
        else Inl UndefinedShift)
     else Inr (- 1, carry))"

lemma word_div_push_bit_1: "n < 32 \<Longrightarrow> (w :: word_t) div push_bit n 1 = drop_bit n w"
  by (simp add: drop_bit_eq_div push_bit_of_1)

lemma or_rotate: "0 < n \<Longrightarrow> n < 32 \<Longrightarrow> drop_bit n w OR push_bit (32 - n) w = word_rotr n (w :: word_t)"
proof (rule bit_word_eqI)
  fix i assume n: "0 < n" "n < 32" and i: "i < LENGTH(32)"
  then have "(i + n) mod 32 = (if i + n < 32 then i + n else i + n - 32)"
    by (auto simp: le_mod_geq)
  with n i show "bit (drop_bit n w OR push_bit (32 - n) w) i = bit (word_rotr n w) i"
    by (auto simp: bit_simps add.commute dest: bit_imp_le_length)
qed

text \<open>The carry is bit \<open>n - 1\<close> for the right shifts and bit \<open>32 - n\<close> for the left one.\<close>

definition carry_bit :: "word_t \<Rightarrow> nat \<Rightarrow> bit_t" where
  "carry_bit w i = of_bool (bit w i)"

lemma ucast_and_1: "ucast ((w :: word_t) AND 1) = (of_bool (bit w 0) :: byte_t)"
  by (simp add: and_one_eq mod_2_eq_odd bit_0)

lemma carry_right: "ucast (drop_bit i (w :: word_t) AND 1) = carry_bit w i"
  by (simp only: ucast_and_1) (simp add: carry_bit_def bit_simps)

lemma carry_left: "0 < n \<Longrightarrow> n < 32 \<Longrightarrow>
    ucast (drop_bit 31 (push_bit (n - 1) (w :: word_t)) AND 1) = carry_bit w (32 - n)"
  by (simp only: ucast_and_1) (auto simp: carry_bit_def bit_simps)

lemma shifter_total:
  assumes "unat n < 32"
  shows "\<exists>v c. shifter t n w carry = Inr (v, c)"
  using assms by (auto simp: shifter_def Let_def)

lemma shifter_undefined:
  assumes "32 \<le> unat n" "t \<in> {0, 1, 2, 3}"
  shows "shifter t n w carry = Inl UndefinedShift"
  using assms by (auto simp: shifter_def Let_def)

lemma shifter_zero [simp]: "shifter t 0 w carry = Inr (w, carry)"
  by (simp add: shifter_def)

lemma shifter_lsl: "0 < unat n \<Longrightarrow> unat n < 32 \<Longrightarrow>
    shifter 0 n w carry = Inr (push_bit (unat n) w, carry_bit w (32 - unat n))"
  by (simp add: shifter_def Let_def carry_left del: One_nat_def)

lemma shifter_lsr: "0 < unat n \<Longrightarrow> unat n < 32 \<Longrightarrow>
    shifter 1 n w carry = Inr (drop_bit (unat n) w, carry_bit w (unat n - 1))"
  by (simp add: shifter_def Let_def carry_right)

lemma shifter_asr: "0 < unat n \<Longrightarrow> unat n < 32 \<Longrightarrow>
    shifter 2 n w carry = Inr (drop_bit (unat n) w, carry_bit w (unat n - 1))"
  by (simp add: shifter_def Let_def carry_right word_div_push_bit_1 del: push_bit_of_1)

lemma shifter_ror: "0 < unat n \<Longrightarrow> unat n < 32 \<Longrightarrow>
    shifter 3 n w carry = Inr (word_rotr (unat n) w, carry_bit w (unat n - 1))"
  by (simp add: shifter_def Let_def carry_right or_rotate)

section \<open>Condition codes\<close>

definition getCond :: "byte_t \<Rightarrow> byte_t" where
  "getCond c = drop_bit 4 c"

definition get_NZCV :: "word_t \<Rightarrow> byte_t" where
  "get_NZCV cpsr = ucast (drop_bit 28 cpsr)"

definition z_set :: "byte_t \<Rightarrow> byte_t" where
  "z_set nzcv = nzcv AND push_bit 2 1"

definition n_equal_v :: "byte_t \<Rightarrow> byte_t" where
  "n_equal_v nzcv = of_bool (nzcv AND 1 = drop_bit 3 nzcv AND 1)"

definition checkCond :: "byte_t \<Rightarrow> word_t \<Rightarrow> byte_t" where
  "checkCond b cpsr =
    (let NZCV = get_NZCV cpsr; c = getCond b in
     if c = 14 then 1
     else if c = 0 then z_set NZCV
     else if c = 1 then of_bool (z_set NZCV = 0)
     else if c = 10 then n_equal_v NZCV
     else if c = 11 then of_bool (n_equal_v NZCV = 0)
     else if c = 12 then of_bool (z_set NZCV = 0 \<and> n_equal_v NZCV \<noteq> 0)
     else if c = 13 then of_bool (z_set NZCV \<noteq> 0 \<or> n_equal_v NZCV = 0)
     else 0)"

text \<open>The contract, over the flags: bit 31 of the CPSR is N, 30 is Z, 28 is V.\<close>

fun cond_holds :: "nat \<Rightarrow> bool \<Rightarrow> bool \<Rightarrow> bool \<Rightarrow> bool" where
  "cond_holds c n z v =
    (if c = 14 then True else if c = 0 then z else if c = 1 then \<not> z
     else if c = 10 then n = v else if c = 11 then n \<noteq> v
     else if c = 12 then \<not> z \<and> n = v else if c = 13 then z \<or> n \<noteq> v else False)"

lemma z_set_iff: "z_set (get_NZCV cpsr) \<noteq> 0 \<longleftrightarrow> bit cpsr 30"
proof -
  have "z_set nzcv \<noteq> 0 \<longleftrightarrow> bit nzcv 2" for nzcv :: byte_t
    unfolding z_set_def push_bit_of_1 by (simp only: and_exp_eq_0_iff_not_bit) simp
  then show ?thesis by (simp add: get_NZCV_def bit_simps)
qed

lemma n_equal_v_iff: "n_equal_v (get_NZCV cpsr) \<noteq> 0 \<longleftrightarrow> bit cpsr 31 = bit cpsr 28"
proof -
  have "nzcv AND 1 = drop_bit 3 nzcv AND 1 \<longleftrightarrow> bit nzcv 0 = bit nzcv 3" for nzcv :: byte_t
    by (simp add: and_one_eq mod_2_eq_odd bit_iff_odd_drop_bit)
  then show ?thesis by (simp only: n_equal_v_def) (auto simp: get_NZCV_def bit_simps)
qed

lemma checkCond_iff_cond_holds:
  "checkCond b cpsr \<noteq> 0 \<longleftrightarrow>
     cond_holds (unat (getCond b)) (bit cpsr 31) (bit cpsr 30) (bit cpsr 28)"
proof -
  have "c = n \<longleftrightarrow> unat c = unat n" for c n :: byte_t
    by (simp add: word_unat_eq_iff)
  note unats = this [of "getCond b"]
  show ?thesis
    using z_set_iff [of cpsr] n_equal_v_iff [of cpsr]
    by (simp add: checkCond_def Let_def unats)
qed

end
