(* ===== verification/Arm_Data.thy ===== *)
theory Arm_Data
  imports Arm_Common
begin

unbundle bit_operations_syntax

text \<open>
  The data processing, multiply and branch instructions of the emulator:
  \<open>emulator/data_processing/data_processing.c\<close>, \<open>emulator/multiply/multiply.c\<close> and
  \<open>emulator/branch/branch.c\<close>. An instruction is the list of its four bytes, most
  significant first, as \<open>main\<close> passes it; the registers are the list of 17 words.
  The static helpers that several C files call by the same name carry a suffix here.
\<close>

section \<open>Data processing\<close>

subsection \<open>Fields of the instruction\<close>

definition get_immediate_operand :: "byte_t \<Rightarrow> bit_t" where
  "get_immediate_operand firstByte = drop_bit 1 (firstByte AND 2)"

definition get_OpCode :: "byte_t \<Rightarrow> byte_t \<Rightarrow> nibble_t" where
  "get_OpCode firstByte secondByte = push_bit 3 (firstByte AND 1) OR drop_bit 5 secondByte"

definition get_Rn :: "byte_t \<Rightarrow> nibble_t" where
  "get_Rn secondByte = secondByte AND 15"

definition get_Rd :: "byte_t \<Rightarrow> nibble_t" where
  "get_Rd thirdByte = drop_bit 4 thirdByte"

definition get_S :: "byte_t \<Rightarrow> nibble_t" where
  "get_S secondByte = get_First_Nibble secondByte AND 1"

lemmas dp_fields [arm_defs] =
  get_immediate_operand_def get_OpCode_def get_Rn_def get_Rd_def get_S_def

lemma get_Rn_less [simp]: "unat (get_Rn b) < 16" "unat (get_Rn b) < 17"
  using unat_nibble_less [of b] by (simp_all add: get_Rn_def)

lemma get_Rd_less [simp]: "unat (get_Rd b) < 16" "unat (get_Rd b) < 17"
  using unat_high_nibble_less [of b] by (simp_all add: get_Rd_def)

subsection \<open>The second operand\<close>

text \<open>
  A register-specified shift passes \<open>registers[Rs]\<close> as a \<open>byte_t\<close>: the word is cut to its
  low byte.
\<close>

definition shifted_register :: "byte_t \<Rightarrow> byte_t \<Rightarrow> word_t list \<Rightarrow> bit_t \<Rightarrow> c_error + (word_t \<times> bit_t)" where
  "shifted_register thirdByte fourthByte regs carry =
    (let Rm = fourthByte AND 15;
         shift = push_bit 4 (thirdByte AND 15) OR drop_bit 4 fourthByte;
         shiftType = drop_bit 1 (shift AND 6);
         wordToShift = regs ! unat Rm in
     if shift AND 1 = 0 then shifter shiftType (drop_bit 3 shift) wordToShift carry
     else shifter shiftType (ucast (regs ! unat (get_Second_Nibble thirdByte))) wordToShift carry)"

definition rotated_immediate :: "byte_t \<Rightarrow> byte_t \<Rightarrow> bit_t \<Rightarrow> c_error + (word_t \<times> bit_t)" where
  "rotated_immediate thirdByte fourthByte carry =
    (let rotation = push_bit 1 (thirdByte AND 15) in shifter 3 rotation (ucast fourthByte) carry)"

definition get_Operand2 :: "byte_t \<Rightarrow> byte_t \<Rightarrow> bit_t \<Rightarrow> word_t list \<Rightarrow> bit_t \<Rightarrow>
    c_error + (word_t \<times> bit_t)" where
  "get_Operand2 thirdByte fourthByte immediate_operand regs carry =
    (if immediate_operand \<noteq> 0 then rotated_immediate thirdByte fourthByte carry
     else shifted_register thirdByte fourthByte regs carry)"

subsection \<open>Flags and the instruction itself\<close>

definition set_CPSR :: "word_t \<Rightarrow> word_t \<Rightarrow> bit_t \<Rightarrow> bit_t \<Rightarrow> word_t" where
  "set_CPSR result cpsr logical_op carry =
    (let c1 = (cpsr AND 0x7fffffff) OR push_bit 31 (drop_bit 30 result AND 1);
         c2 = (if result = 0 then c1 OR 0x40000000 else c1 AND 0xbfffffff);
         c3 = c2 AND 0xdfffffff
     in c3 OR push_bit 29 (ucast carry))"

text \<open>
  The \<open>switch\<close> of \<open>execute_data_processing\<close>: the registers after it, \<open>result\<close>,
  \<open>logical_op\<close> and \<open>carry\<close>. The comparisons read \<open>registers[Rn]\<close> after \<open>registers[Rd]\<close> has
  been written, as the code does.
\<close>

definition dp_switch :: "nibble_t \<Rightarrow> nat \<Rightarrow> nat \<Rightarrow> word_t \<Rightarrow> bit_t \<Rightarrow> word_t list \<Rightarrow>
    word_t list \<times> word_t \<times> bit_t \<times> bit_t" where
  "dp_switch opCode Rn Rd operand2 carry regs =
    (if opCode = 0 then
       let r = regs[Rd := regs ! Rn AND operand2] in (r, r ! Rd, 1, carry)
     else if opCode = 1 then
       let r = regs[Rd := regs ! Rn XOR operand2] in (r, r ! Rd, 1, carry)
     else if opCode = 2 then
       let r = regs[Rd := regs ! Rn - operand2] in
         (r, r ! Rd, 0, if operand2 > r ! Rn then 0 else 1)
     else if opCode = 3 then
       let r = regs[Rd := operand2 - regs ! Rn] in
         (r, r ! Rd, 0, if operand2 > r ! Rn then 0 else 1)
     else if opCode = 4 then
       let r = regs[Rd := regs ! Rn + operand2] in
         (r, r ! Rd, 0, if drop_bit 31 (r ! Rn + operand2) \<noteq> 0 then 1 else 0)
     else if opCode = 8 then (regs, regs ! Rn AND operand2, 1, carry)
     else if opCode = 9 then (regs, regs ! Rn XOR operand2, 1, carry)
     else if opCode = 10 then
       (regs, regs ! Rn - operand2, 0, if operand2 > regs ! Rn then 0 else 1)
     else if opCode = 12 then
       let r = regs[Rd := regs ! Rn OR operand2] in (r, r ! Rd, 1, carry)
     else if opCode = 13 then
       let r = regs[Rd := operand2] in (r, r ! Rd, 1, carry)
     else (regs, 0, 0, carry))"

definition execute_data_processing :: "byte_t list \<Rightarrow> word_t list \<Rightarrow> c_error + word_t list" where
  "execute_data_processing firstByte regs =
    bindE (get_Operand2 (firstByte ! 2) (firstByte ! 3)
             (get_immediate_operand (firstByte ! 0)) regs 0)
      (\<lambda>(operand2, carry).
        let Rn = unat (get_Rn (firstByte ! 1)); Rd = unat (get_Rd (firstByte ! 2));
            opCode = get_OpCode (firstByte ! 0) (firstByte ! 1);
            (r, result, logical_op, carry') = dp_switch opCode Rn Rd operand2 carry regs
        in Inr (if get_S (firstByte ! 1) \<noteq> 0
                then r[CPSR := set_CPSR result (r ! CPSR) logical_op carry'] else r))"

subsection \<open>What the instruction computes\<close>

text \<open>The architecture's reading of an opcode: is the destination written, and with what.\<close>

fun alu :: "nat \<Rightarrow> word_t \<Rightarrow> word_t \<Rightarrow> word_t" where
  "alu opc a b =
    (if opc = 0 \<or> opc = 8 then a AND b else if opc = 1 \<or> opc = 9 then a XOR b
     else if opc = 2 \<or> opc = 10 then a - b else if opc = 3 then b - a
     else if opc = 4 then a + b else if opc = 12 then a OR b
     else if opc = 13 then b else 0)"

fun writes_Rd :: "nat \<Rightarrow> bool" where
  "writes_Rd opc = (opc \<in> {0, 1, 2, 3, 4, 12, 13})"

lemma unat_eq_numeral8:
  "(x :: 8 word) = 0 \<longleftrightarrow> unat x = 0" "x = 1 \<longleftrightarrow> unat x = 1"
  "(x :: 8 word) = numeral k \<longleftrightarrow> unat x = unat (numeral k :: 8 word)"
  by (simp_all add: word_unat_eq_iff)

lemma dp_switch_registers:
  assumes "Rd < length regs"
  shows "fst (dp_switch opc Rn Rd op2 c regs) =
    (if writes_Rd (unat opc) then regs[Rd := alu (unat opc) (regs ! Rn) op2] else regs)"
  by (simp add: dp_switch_def Let_def unat_eq_numeral8)

lemma dp_switch_result:
  assumes "Rd < length regs"
  shows "fst (snd (dp_switch opc Rn Rd op2 c regs)) = alu (unat opc) (regs ! Rn) op2"
  using assms by (simp add: dp_switch_def Let_def unat_eq_numeral8)

lemma dp_switch_length [simp]: "length (fst (dp_switch opc Rn Rd op2 c regs)) = length regs"
  by (simp add: dp_switch_def Let_def)

lemma execute_data_processing_eq:
  assumes "length regs = 17"
    and "get_Operand2 (w ! 2) (w ! 3) (get_immediate_operand (w ! 0)) regs 0 = Inr (op2, c)"
  shows "\<exists>r. execute_data_processing w regs = Inr r \<and> length r = 17 \<and>
    (\<forall>i < 16. r ! i =
       (if writes_Rd (unat (get_OpCode (w ! 0) (w ! 1))) \<and> i = unat (get_Rd (w ! 2))
        then alu (unat (get_OpCode (w ! 0) (w ! 1))) (regs ! unat (get_Rn (w ! 1))) op2
        else regs ! i))"
proof -
  let ?s = "dp_switch (get_OpCode (w ! 0) (w ! 1)) (unat (get_Rn (w ! 1)))
              (unat (get_Rd (w ! 2))) op2 c regs"
  obtain r result lop c' where s: "?s = (r, result, lop, c')" by (cases ?s) auto
  have r: "r = (if writes_Rd (unat (get_OpCode (w ! 0) (w ! 1)))
      then regs[unat (get_Rd (w ! 2)) := alu (unat (get_OpCode (w ! 0) (w ! 1)))
                 (regs ! unat (get_Rn (w ! 1))) op2] else regs)"
    using dp_switch_registers [of "unat (get_Rd (w ! 2))" regs] s assms(1) by (metis fst_conv get_Rd_less(2))
  have "length r = 17" using dp_switch_length s assms(1) by (metis fst_conv)
  moreover have "execute_data_processing w regs =
      Inr (if get_S (w ! 1) \<noteq> 0 then r[CPSR := set_CPSR result (r ! CPSR) lop c'] else r)"
    using assms(2) s by (simp add: execute_data_processing_def)
  ultimately show ?thesis
    using assms(1) by (auto simp: r CPSR_def nth_list_update simp del: writes_Rd.simps alu.simps)
qed

lemma execute_data_processing_length:
  assumes "execute_data_processing w regs = Inr r" "length regs = 17"
  shows "length r = 17"
proof -
  obtain op2 c where "get_Operand2 (w ! 2) (w ! 3) (get_immediate_operand (w ! 0)) regs 0 = Inr (op2, c)"
    using assms(1) by (auto simp: execute_data_processing_def)
  from execute_data_processing_eq [OF assms(2) this] assms(1) show ?thesis by auto
qed

text \<open>The flags: N is bit 30 of the result, Z and C as the architecture says, V untouched.\<close>

lemma cpsr_masks [word_masks]:
  "(0x7fffffff :: word_t) = NOT (push_bit 31 1)" "(0xbfffffff :: word_t) = NOT (push_bit 30 1)"
  "(0xdfffffff :: word_t) = NOT (push_bit 29 1)" "(0x40000000 :: word_t) = push_bit 30 1"
  by simp_all

lemma bit_push_bit_1: "bit (push_bit m 1 :: word_t) n \<longleftrightarrow> n = m \<and> m < 32"
  by (auto simp: bit_simps)

lemma bit_set_CPSR:
  assumes "n < 32"
  shows "bit (set_CPSR result cpsr lop (of_bool b)) n \<longleftrightarrow>
    (if n = 31 then bit result 30 else if n = 30 then result = 0 else if n = 29 then b
     else bit cpsr n)"
proof -
  have top: "drop_bit 30 result AND 1 = of_bool (bit result 30)"
    by (simp add: and_one_eq mod_2_eq_odd bit_iff_odd_drop_bit)
  have one: "bit (push_bit k (of_bool q) :: word_t) n \<longleftrightarrow> q \<and> n = k" if "k < 32" for k q
    using that assms by (cases q) (auto simp: bit_push_bit_1 simp del: push_bit_of_1)
  show ?thesis
    using assms
    by (auto simp: set_CPSR_def Let_def top cpsr_masks bit_or_iff bit_and_iff bit_not_iff
        bit_push_bit_1 one simp del: push_bit_of_1)
qed

section \<open>Multiply\<close>

definition get_Rn_multiply :: "byte_t \<Rightarrow> nibble_t" where
  "get_Rn_multiply thirdByte = get_First_Nibble thirdByte"

definition get_Rd_multiply :: "byte_t \<Rightarrow> nibble_t" where
  "get_Rd_multiply secondByte = get_Second_Nibble secondByte"

definition get_Rs :: "byte_t \<Rightarrow> nibble_t" where
  "get_Rs thirdByte = get_Second_Nibble thirdByte"

definition get_Rm :: "byte_t \<Rightarrow> nibble_t" where
  "get_Rm fourthByte = get_Second_Nibble fourthByte"

definition get_A :: "byte_t \<Rightarrow> bit_t" where
  "get_A secondByte = drop_bit 1 (get_First_Nibble secondByte)"

definition get_S_multiply :: "byte_t \<Rightarrow> bit_t" where
  "get_S_multiply secondByte = get_First_Nibble secondByte AND 1"

definition set_CPSR_multiply :: "word_t \<Rightarrow> word_t \<Rightarrow> word_t" where
  "set_CPSR_multiply result cpsr =
    (let c = (cpsr AND 0x7fffffff) OR push_bit 31 (drop_bit 31 result)
     in if result = 0 then c OR 0x40000000 else c)"

definition execute_multiply :: "byte_t list \<Rightarrow> word_t list \<Rightarrow> word_t list" where
  "execute_multiply firstByte regs =
    (let Rd = unat (get_Rd_multiply (firstByte ! 1));
         Rs = unat (get_Rs (firstByte ! 2));
         Rm = unat (get_Rm (firstByte ! 3));
         r = (if get_A (firstByte ! 1) \<noteq> 0
              then let Rn = unat (get_Rn_multiply (firstByte ! 2))
                   in regs[Rd := regs ! Rm * regs ! Rs + regs ! Rn]
              else regs[Rd := regs ! Rm * regs ! Rs])
     in if get_S_multiply (firstByte ! 1) \<noteq> 0
        then r[CPSR := set_CPSR_multiply (r ! Rd) (r ! CPSR)] else r)"

lemmas mul_fields [arm_defs] =
  get_Rn_multiply_def get_Rd_multiply_def get_Rs_def get_Rm_def get_A_def get_S_multiply_def

lemma get_Rd_multiply_less [simp]: "unat (get_Rd_multiply b) < 16"
  by (simp add: get_Rd_multiply_def)

lemma execute_multiply_length [simp]: "length (execute_multiply w regs) = length regs"
  by (simp add: execute_multiply_def Let_def)

lemma execute_multiply_nth:
  assumes "length regs = 17" "i < 16"
  shows "execute_multiply w regs ! i =
    (if i = unat (get_Rd_multiply (w ! 1))
     then regs ! unat (get_Rm (w ! 3)) * regs ! unat (get_Rs (w ! 2)) +
          (if get_A (w ! 1) \<noteq> 0 then regs ! unat (get_Rn_multiply (w ! 2)) else 0)
     else regs ! i)"
  using assms get_Rd_multiply_less [of "w ! 1"]
  by (auto simp: execute_multiply_def Let_def CPSR_def nth_list_update simp del: get_Rd_multiply_less)

lemma bit_set_CPSR_multiply:
  assumes "n < 32"
  shows "bit (set_CPSR_multiply result cpsr) n \<longleftrightarrow>
    (if n = 31 then bit result 31 else if n = 30 then result = 0 \<or> bit cpsr 30 else bit cpsr n)"
  using assms
  by (auto simp: set_CPSR_multiply_def Let_def cpsr_masks bit_or_iff bit_and_iff bit_not_iff
      bit_push_bit_1 bit_push_bit_iff bit_drop_bit_eq simp del: push_bit_of_1)

section \<open>Branch\<close>

definition get_offset_branch :: "byte_t list \<Rightarrow> word_t" where
  "get_offset_branch firstByte =
    (push_bit 16 (ucast (firstByte ! 1)) OR push_bit 8 (ucast (firstByte ! 2)))
      OR ucast (firstByte ! 3)"

definition get_sign_extended_offset :: "word_t \<Rightarrow> word_t" where
  "get_sign_extended_offset offset =
    (if drop_bit 25 offset = 1 then 0xfc000000 OR offset else offset)"

definition execute_branch :: "byte_t list \<Rightarrow> word_t list \<Rightarrow> word_t list" where
  "execute_branch firstByte regs =
    (let offset = push_bit 2 (get_offset_branch firstByte);
         extended_offset = get_sign_extended_offset offset
     in regs[PC := regs ! PC + extended_offset])"

lemma execute_branch_length [simp]: "length (execute_branch w regs) = length regs"
  by (simp add: execute_branch_def Let_def)

text \<open>
  The contract: the displacement is the 24-bit field read in two's complement, times four.
\<close>

definition branch_field :: "byte_t list \<Rightarrow> 24 word" where
  "branch_field w = ucast (get_offset_branch w)"

lemma get_offset_branch_eq: "get_offset_branch w = bytes_word (w ! 3) (w ! 2) (w ! 1) 0"
  by (rule bit_word_eqI) (auto simp: get_offset_branch_def bit_bytes_word bit_simps
      dest: bit_imp_le_length)

lemma bit_get_offset_branch: "bit (get_offset_branch w) n \<longleftrightarrow> bit (branch_field w) n"
  by (auto simp: branch_field_def get_offset_branch_eq bit_bytes_word bit_simps)

lemma drop_bit_25_eq_1:
  assumes "\<And>n. 26 \<le> n \<Longrightarrow> \<not> bit x n"
  shows "drop_bit 25 (x :: word_t) = 1 \<longleftrightarrow> bit x 25"
proof
  assume "drop_bit 25 x = 1"
  then have "bit (drop_bit 25 x) 0" by simp
  then show "bit x 25" by (simp add: bit_simps)
next
  assume "bit x 25"
  show "drop_bit 25 x = 1"
    by (rule bit_word_eqI) (use \<open>bit x 25\<close> assms in \<open>auto simp: bit_simps bit_1_iff intro: ccontr\<close>)
qed

lemma sign_extension:
  "get_sign_extended_offset (push_bit 2 (get_offset_branch w)) = push_bit 2 (scast (branch_field w))"
proof (rule bit_word_eqI)
  fix n assume n: "n < LENGTH(32)"
  let ?x = "push_bit 2 (get_offset_branch w)"
  have hi: "\<not> bit ?x n" if "26 \<le> n" for n
    using that by (auto simp: bit_push_bit_iff bit_get_offset_branch dest: bit_imp_le_length)
  have top: "bit ?x 25 \<longleftrightarrow> bit (branch_field w) 23"
    by (simp add: bit_push_bit_iff bit_get_offset_branch)
  have fill: "(0xfc000000 :: word_t) = NOT (mask 26)"
    by (simp add: mask_eq_exp_minus_1)
  consider "n < 25" | "n = 25" | "26 \<le> n" by linarith
  then show "bit (get_sign_extended_offset ?x) n = bit (push_bit 2 (scast (branch_field w) :: word_t)) n"
    using n hi [of n] drop_bit_25_eq_1 [of ?x, OF hi] top
    by cases
      (auto simp: get_sign_extended_offset_def fill bit_or_iff bit_not_iff bit_mask_iff
        bit_push_bit_iff bit_get_offset_branch bit_signed_iff min_def)
qed

lemma execute_branch_PC:
  assumes "length regs = 17"
  shows "execute_branch w regs =
    regs[PC := regs ! PC + push_bit 2 (scast (branch_field w))]"
  using assms by (simp add: execute_branch_def Let_def sign_extension)

end
