(* ===== verification/Arm_Memory.thy ===== *)
theory Arm_Memory
  imports Arm_Data
begin

unbundle bit_operations_syntax

text \<open>
  Everything of the emulator that touches memory: the GPIO module
  (\<open>emulator/gpio/gpio.c\<close>) and the single data transfer instruction
  (\<open>emulator/single_data_transfer/single_data_transfer.c\<close>). Reads and writes go through the
  checked loops of the prelude, so an access outside the 65536 bytes of memory or the 44 bytes
  of GPIO memory is the error \<open>OutOfBounds\<close>.
\<close>

section \<open>GPIO\<close>

definition GPIO_20_29_shifted :: word_t where "GPIO_20_29_shifted = 0x8"
definition GPIO_10_19_shifted :: word_t where "GPIO_10_19_shifted = 0x4"
definition GPIO_00_09_shifted :: word_t where "GPIO_00_09_shifted = 0x0"
definition GPIO_clearing_shifted :: word_t where "GPIO_clearing_shifted = 0x28"
definition GPIO_setting_shifted :: word_t where "GPIO_setting_shifted = 0x1c"
definition GPIO_20_29 :: word_t where "GPIO_20_29 = 0x20200008"
definition GPIO_10_19 :: word_t where "GPIO_10_19 = 0x20200004"
definition GPIO_00_09 :: word_t where "GPIO_00_09 = 0x20200000"
definition GPIO_clearing :: word_t where "GPIO_clearing = 0x20200028"
definition GPIO_setting :: word_t where "GPIO_setting = 0x2020001c"

lemmas gpio_addresses = GPIO_20_29_shifted_def GPIO_10_19_shifted_def GPIO_00_09_shifted_def
  GPIO_clearing_shifted_def GPIO_setting_shifted_def GPIO_20_29_def GPIO_10_19_def GPIO_00_09_def
  GPIO_clearing_def GPIO_setting_def

definition is_GPIO_address :: "word_t \<Rightarrow> bool" where
  "is_GPIO_address Rn = (Rn = GPIO_00_09 \<or> Rn = GPIO_10_19 \<or> Rn = GPIO_20_29)"

text \<open>Called only on the three addresses; for any other, \<open>range\<close> would be printed uninitialised.\<close>

definition print_GPIO_access_message :: "word_t \<Rightarrow> message list \<Rightarrow> c_error + message list" where
  "print_GPIO_access_message Rn out =
    (if Rn = GPIO_00_09 then Inr (out @ [GPIO_accessed 0 9])
     else if Rn = GPIO_10_19 then Inr (out @ [GPIO_accessed 10 19])
     else if Rn = GPIO_20_29 then Inr (out @ [GPIO_accessed 20 29])
     else Inl Indeterminate)"

datatype pin_function = Input | Output | Invalid_pin_function

definition from_binary_to_pin_function :: "nibble_t \<Rightarrow> pin_function" where
  "from_binary_to_pin_function code =
    (if code = 0 then Input else if code = 1 then Output else Invalid_pin_function)"

definition write_to_GPIO_memory_at :: "word_t \<Rightarrow> word_t \<Rightarrow> byte_t list \<Rightarrow> c_error + byte_t list" where
  "write_to_GPIO_memory_at address w mem = store_loop mem address 4 w"

text \<open>\<open>junk\<close> is the indeterminate start value of the local \<open>word\<close>.\<close>

definition read_from_GPIO_memory_at :: "word_t \<Rightarrow> word_t \<Rightarrow> byte_t list \<Rightarrow> c_error + word_t" where
  "read_from_GPIO_memory_at junk address mem = load_loop mem address 4 junk"

definition initialise_GPIO_pins :: "byte_t list \<Rightarrow> c_error + byte_t list" where
  "initialise_GPIO_pins mem =
    bindE (write_to_GPIO_memory_at GPIO_00_09_shifted GPIO_00_09 mem) (\<lambda>mem.
    bindE (write_to_GPIO_memory_at GPIO_10_19_shifted GPIO_10_19 mem) (\<lambda>mem.
      write_to_GPIO_memory_at GPIO_20_29_shifted GPIO_20_29 mem))"

text \<open>
  \<open>pin_number\<close> is an \<open>int\<close>: -1 for the word 0, up to 31. For -1 the mask is shifted by a
  negative amount; for 30 and 31 no branch sets \<open>pin_address\<close>.
\<close>

definition get_pin_function :: "word_t \<Rightarrow> int \<Rightarrow> byte_t list \<Rightarrow> c_error + pin_function" where
  "get_pin_function junk pin_number mem =
    (if pin_number < 0 then Inl UndefinedShift
     else
       let pin_offset = nat (3 * (pin_number mod 10));
           msk = push_bit pin_offset 7
       in bindE (if pin_number \<le> 9 then Inr GPIO_00_09_shifted
                 else if pin_number \<le> 19 then Inr GPIO_10_19_shifted
                 else if pin_number \<le> 29 then Inr GPIO_20_29_shifted
                 else Inl Indeterminate) (\<lambda>pin_address.
          bindE (read_from_GPIO_memory_at junk pin_address mem) (\<lambda>pin_range.
            Inr (from_binary_to_pin_function (ucast (drop_bit pin_offset (pin_range AND msk)))))))"

definition set_pin_function :: "word_t \<Rightarrow> word_t \<Rightarrow> word_t \<Rightarrow> byte_t list \<Rightarrow> c_error + byte_t list" where
  "set_pin_function junk location value mem =
    (let location' = location - 0x20200000 in
     bindE (read_from_GPIO_memory_at junk location' mem) (\<lambda>past_value.
       write_to_GPIO_memory_at location' (past_value OR value) mem))"

function get_pin_number_loop :: "word_t \<Rightarrow> int \<Rightarrow> int" where
  "get_pin_number_loop shifted_pin counter =
    (if shifted_pin = 0 then counter
     else get_pin_number_loop (drop_bit 1 shifted_pin) (counter + 1))"
  by pat_completeness auto
termination
  by (relation "measure (\<lambda>(w, _). unat w)") (simp_all only: in_measure split unat_drop_bit_1_less wf_measure not_False_eq_True)

declare get_pin_number_loop.simps [simp del]

definition get_pin_number :: "word_t \<Rightarrow> int" where
  "get_pin_number shifted_pin = get_pin_number_loop shifted_pin (- 1)"

definition clear_pin :: "word_t \<Rightarrow> word_t \<Rightarrow> byte_t list \<Rightarrow> message list \<Rightarrow>
    c_error + (byte_t list \<times> message list)" where
  "clear_pin junk shifted_pin mem out =
    bindE (get_pin_function junk (get_pin_number shifted_pin) mem) (\<lambda>f.
    bindE (guardE AssertFailed (f = Output)) (\<lambda>_.
    bindE (write_to_GPIO_memory_at GPIO_clearing_shifted shifted_pin mem) (\<lambda>mem'.
      Inr (mem', out @ [Pin_off]))))"

definition set_pin :: "word_t \<Rightarrow> word_t \<Rightarrow> byte_t list \<Rightarrow> message list \<Rightarrow>
    c_error + (byte_t list \<times> message list)" where
  "set_pin junk shifted_pin mem out =
    bindE (get_pin_function junk (get_pin_number shifted_pin) mem) (\<lambda>f.
    bindE (guardE AssertFailed (f = Output)) (\<lambda>_.
    bindE (write_to_GPIO_memory_at GPIO_setting_shifted shifted_pin mem) (\<lambda>mem'.
      Inr (mem', out @ [Pin_on]))))"

section \<open>Single data transfer\<close>

definition immediate_operand_sdt :: "byte_t \<Rightarrow> byte_t" where
  "immediate_operand_sdt firstByte = drop_bit 1 (firstByte AND 2)"

definition get_pre_post_indexing_bit :: "byte_t \<Rightarrow> byte_t" where
  "get_pre_post_indexing_bit firstByte = firstByte AND 1"

definition get_up_bit :: "byte_t \<Rightarrow> byte_t" where
  "get_up_bit secondByte = secondByte AND 0x80"

definition get_load_store_bit :: "byte_t \<Rightarrow> byte_t" where
  "get_load_store_bit secondByte = secondByte AND 0x10"

definition get_Rn_sdt :: "byte_t \<Rightarrow> byte_t" where
  "get_Rn_sdt secondByte = secondByte AND 15"

definition get_Rd_sdt :: "byte_t \<Rightarrow> byte_t" where
  "get_Rd_sdt thirdByte = drop_bit 4 thirdByte"

lemmas sdt_fields [arm_defs] = immediate_operand_sdt_def get_pre_post_indexing_bit_def
  get_up_bit_def get_load_store_bit_def get_Rn_sdt_def get_Rd_sdt_def

lemma sdt_registers_less [simp]:
  "unat (get_Rn_sdt b) < 16" "unat (get_Rd_sdt b) < 16"
  by (simp_all add: get_Rn_sdt_def get_Rd_sdt_def unat_nibble_less unat_high_nibble_less)

definition get_offset_sdt :: "byte_t \<Rightarrow> byte_t \<Rightarrow> byte_t \<Rightarrow> word_t list \<Rightarrow> c_error + word_t" where
  "get_offset_sdt thirdByte fourthByte immediate_offset regs =
    bindE (if immediate_offset = 0 then rotated_immediate thirdByte fourthByte 0
           else shifted_register thirdByte fourthByte regs 0) (\<lambda>(w, carry). Inr w)"

definition apply_offset :: "byte_t \<Rightarrow> byte_t list \<Rightarrow> word_t list \<Rightarrow> c_error + word_t" where
  "apply_offset Rn firstByte regs =
    bindE (get_offset_sdt (firstByte ! 2) (firstByte ! 3)
             (immediate_operand_sdt (firstByte ! 0)) regs) (\<lambda>off.
      Inr (if get_up_bit (firstByte ! 1) \<noteq> 0 then regs ! unat Rn + off
           else regs ! unat Rn - off))"

definition load :: "word_t \<Rightarrow> byte_t \<Rightarrow> machine \<Rightarrow> c_error + machine" where
  "load Rn Rd m =
    (if is_GPIO_address Rn then
       bindE (print_GPIO_access_message Rn (printed m)) (\<lambda>out.
         Inr (m\<lparr>printed := out, registers := (registers m)[unat Rd := Rn]\<rparr>))
     else if 65536 < Rn then Inr (m\<lparr>printed := printed m @ [Out_of_bounds_access Rn]\<rparr>)
     else bindE (load_loop (memory m) Rn 4 0) (\<lambda>loadWord.
       Inr (m\<lparr>registers := (registers m)[unat Rd := loadWord]\<rparr>)))"

definition store :: "word_t \<Rightarrow> word_t \<Rightarrow> byte_t \<Rightarrow> machine \<Rightarrow> c_error + machine" where
  "store junk Rn Rd m =
    (let v = registers m ! unat Rd in
     if is_GPIO_address Rn then
       bindE (print_GPIO_access_message Rn (printed m)) (\<lambda>out.
       bindE (set_pin_function junk Rn v (gpio_memory m)) (\<lambda>g.
         Inr (m\<lparr>printed := out, gpio_memory := g\<rparr>)))
     else if Rn = GPIO_clearing then
       bindE (clear_pin junk v (gpio_memory m) (printed m)) (\<lambda>(g, out).
         Inr (m\<lparr>printed := out, gpio_memory := g\<rparr>))
     else if Rn = GPIO_setting then
       bindE (set_pin junk v (gpio_memory m) (printed m)) (\<lambda>(g, out).
         Inr (m\<lparr>printed := out, gpio_memory := g\<rparr>))
     else bindE (store_loop (memory m) Rn 4 v) (\<lambda>mem. Inr (m\<lparr>memory := mem\<rparr>)))"

definition transfer :: "word_t \<Rightarrow> byte_t list \<Rightarrow> word_t \<Rightarrow> machine \<Rightarrow> c_error + machine" where
  "transfer junk firstByte Rn m =
    (if get_load_store_bit (firstByte ! 1) \<noteq> 0 then load Rn (get_Rd_sdt (firstByte ! 2)) m
     else store junk Rn (get_Rd_sdt (firstByte ! 2)) m)"

definition execute_pre_indexing :: "word_t \<Rightarrow> byte_t list \<Rightarrow> machine \<Rightarrow> c_error + machine" where
  "execute_pre_indexing junk firstByte m =
    bindE (apply_offset (get_Rn_sdt (firstByte ! 1)) firstByte (registers m)) (\<lambda>Rn.
      transfer junk firstByte Rn m)"

definition execute_post_indexing :: "word_t \<Rightarrow> byte_t list \<Rightarrow> machine \<Rightarrow> c_error + machine" where
  "execute_post_indexing junk firstByte m =
    (let Rn_register = get_Rn_sdt (firstByte ! 1) in
     bindE (transfer junk firstByte (registers m ! unat Rn_register) m) (\<lambda>m'.
     bindE (apply_offset Rn_register firstByte (registers m')) (\<lambda>v.
       Inr (m'\<lparr>registers := (registers m')[unat Rn_register := v]\<rparr>))))"

definition execute_single_data_transfer :: "word_t \<Rightarrow> byte_t list \<Rightarrow> machine \<Rightarrow> c_error + machine" where
  "execute_single_data_transfer junk firstByte m =
    (if get_pre_post_indexing_bit (firstByte ! 0) \<noteq> 0
     then execute_pre_indexing junk firstByte m
     else execute_post_indexing junk firstByte m)"

section \<open>GPIO: facts\<close>

lemma read_from_GPIO_memory_at_ok:
  "unat a + 4 \<le> length mem \<Longrightarrow> length mem = 44 \<Longrightarrow>
   read_from_GPIO_memory_at junk a mem =
     Inr (bytes_word (mem ! unat a) (mem ! (unat a + 1)) (mem ! (unat a + 2)) (mem ! (unat a + 3)))"
  by (simp add: read_from_GPIO_memory_at_def load_loop_ok)

lemma write_to_GPIO_memory_at_ok:
  "unat a + 4 \<le> length mem \<Longrightarrow> length mem = 44 \<Longrightarrow>
   write_to_GPIO_memory_at a w mem = Inr (put_bytes mem (unat a) (word_bytes w))"
  by (simp add: write_to_GPIO_memory_at_def store_loop_ok)

lemma write_to_GPIO_memory_at_length:
  "write_to_GPIO_memory_at a w mem = Inr mem' \<Longrightarrow> length mem' = length mem"
  by (simp add: write_to_GPIO_memory_at_def store_loop_length)

lemma initialise_GPIO_pins_ok:
  assumes "length mem = 44"
  shows "initialise_GPIO_pins mem =
    Inr (put_bytes (put_bytes (put_bytes mem 0 (word_bytes GPIO_00_09)) 4 (word_bytes GPIO_10_19))
           8 (word_bytes GPIO_20_29))"
  using assms
  by (simp add: initialise_GPIO_pins_def write_to_GPIO_memory_at_ok GPIO_00_09_shifted_def
      GPIO_10_19_shifted_def GPIO_20_29_shifted_def)

text \<open>The highest set bit, by halving.\<close>

lemma get_pin_number_loop_spec:
  "w \<noteq> 0 \<Longrightarrow> \<exists>n. get_pin_number_loop w c = c + 1 + int n \<and> 2 ^ n \<le> unat w \<and> unat w < 2 ^ (n + 1)"
proof (induction w c rule: get_pin_number_loop.induct)
  case (1 w c)
  let ?w = "drop_bit 1 w"
  have half: "unat ?w = unat w div 2"
    by (simp only: unat_drop_bit_eq) (simp add: drop_bit_eq_div)
  show ?case
  proof (cases "?w = 0")
    case True
    with half have "unat w < 2" by simp
    moreover have "0 < unat w" using "1.prems" by (simp add: word_unat_eq_iff)
    ultimately have "unat w = 1" by simp
    then show ?thesis
      using True "1.prems" by (intro exI [of _ 0]) (simp add: get_pin_number_loop.simps)
  next
    case False
    with "1.IH" "1.prems" obtain n where
      "get_pin_number_loop ?w (c + 1) = c + 1 + 1 + int n" "2 ^ n \<le> unat ?w" "unat ?w < 2 ^ (n + 1)"
      by blast
    then show ?thesis
      using "1.prems" half
      by (intro exI [of _ "Suc n"]) (auto simp: get_pin_number_loop.simps [of w c])
  qed
qed

lemma get_pin_number_highest:
  assumes "w \<noteq> 0"
  obtains n where "get_pin_number w = int n" "2 ^ n \<le> unat w" "unat w < 2 ^ (n + 1)"
  using get_pin_number_loop_spec [OF assms, of "- 1"] by (auto simp: get_pin_number_def)

lemma get_pin_number_0 [simp]: "get_pin_number 0 = - 1"
  by (simp add: get_pin_number_def get_pin_number_loop.simps)

text \<open>The assertions of \<open>clear_pin\<close> and \<open>set_pin\<close> guard the write.\<close>

lemma clear_pin_Inr:
  "clear_pin junk w mem out = Inr (mem', out') \<longleftrightarrow>
     get_pin_function junk (get_pin_number w) mem = Inr Output \<and>
     write_to_GPIO_memory_at GPIO_clearing_shifted w mem = Inr mem' \<and> out' = out @ [Pin_off]"
  by (auto simp: clear_pin_def)

lemma set_pin_Inr:
  "set_pin junk w mem out = Inr (mem', out') \<longleftrightarrow>
     get_pin_function junk (get_pin_number w) mem = Inr Output \<and>
     write_to_GPIO_memory_at GPIO_setting_shifted w mem = Inr mem' \<and> out' = out @ [Pin_on]"
  by (auto simp: set_pin_def)

lemma set_pin_function_length:
  "set_pin_function junk a v mem = Inr mem' \<Longrightarrow> length mem' = length mem"
  by (auto simp: set_pin_function_def Let_def dest: write_to_GPIO_memory_at_length)

section \<open>Loads and stores: facts\<close>

lemma load_word:
  assumes "machine_wf m" "\<not> is_GPIO_address a" "unat a + 4 \<le> 65536"
  shows "load a Rd m = Inr (m\<lparr>registers := (registers m)[unat Rd :=
    bytes_word (memory m ! unat a) (memory m ! (unat a + 1)) (memory m ! (unat a + 2))
      (memory m ! (unat a + 3))]\<rparr>)"
proof -
  have "\<not> 65536 < a" using assms(3) by (simp add: word_less_nat_alt)
  then show ?thesis using assms by (auto simp: load_def load_loop_ok)
qed

lemma load_rejected:
  assumes "\<not> is_GPIO_address a" "65536 < unat a"
  shows "load a Rd m = Inr (m\<lparr>printed := printed m @ [Out_of_bounds_access a]\<rparr>)"
  using assms by (simp add: load_def word_less_nat_alt)

lemma load_overrun:
  assumes "machine_wf m" "65533 \<le> unat a" "unat a \<le> 65536"
  shows "load a Rd m = Inl OutOfBounds"
proof -
  have "\<not> 65536 < a" using assms(3) by (simp add: word_less_nat_alt)
  moreover have "\<not> is_GPIO_address a"
    using assms(3) by (auto simp: is_GPIO_address_def gpio_addresses)
  moreover have "unat (a + 3) = unat a + 3"
    using unat_add_small [of a 3] assms(3) by simp
  then have "load_loop (memory m) a 4 0 = Inl OutOfBounds"
    using assms unfolding four_Suc load_loop.simps by (simp add: rd_out machine_wfD)
  ultimately show ?thesis by (simp add: load_def)
qed

definition ordinary_address :: "word_t \<Rightarrow> bool" where
  "ordinary_address a \<longleftrightarrow> \<not> is_GPIO_address a \<and> a \<noteq> GPIO_clearing \<and> a \<noteq> GPIO_setting"

lemma small_address_ordinary: "unat a \<le> 65536 \<Longrightarrow> ordinary_address a"
  by (auto simp: ordinary_address_def is_GPIO_address_def gpio_addresses)

lemma store_word:
  assumes "machine_wf m" "unat a + 4 \<le> 65536"
  shows "store junk a Rd m =
    Inr (m\<lparr>memory := put_bytes (memory m) (unat a) (word_bytes (registers m ! unat Rd))\<rparr>)"
  using assms small_address_ordinary [of a]
  by (auto simp: store_def Let_def ordinary_address_def store_loop_ok)

lemma store_overrun:
  assumes "machine_wf m" "ordinary_address a" "65532 < unat a"
  shows "store junk a Rd m = Inl OutOfBounds"
  using assms
  by (auto simp: store_def Let_def ordinary_address_def store_loop_out machine_wfD)

lemma machine_wf_updates:
  "machine_wf m \<Longrightarrow> machine_wf (m\<lparr>printed := p\<rparr>)"
  "machine_wf m \<Longrightarrow> machine_wf (m\<lparr>registers := (registers m)[i := v]\<rparr>)"
  by (simp_all add: machine_wf_def)

lemma load_wf: "load a Rd m = Inr m' \<Longrightarrow> machine_wf m \<Longrightarrow> machine_wf m'"
  by (auto simp: load_def machine_wf_def split: if_splits)

lemma store_wf: "store junk a Rd m = Inr m' \<Longrightarrow> machine_wf m \<Longrightarrow> machine_wf m'"
  by (auto simp: store_def machine_wf_def Let_def clear_pin_Inr set_pin_Inr split: if_splits
      dest: set_pin_function_length write_to_GPIO_memory_at_length store_loop_length)

lemma transfer_wf: "transfer junk w a m = Inr m' \<Longrightarrow> machine_wf m \<Longrightarrow> machine_wf m'"
  by (auto simp: transfer_def split: if_splits dest: load_wf store_wf)

lemma execute_single_data_transfer_wf:
  "execute_single_data_transfer junk w m = Inr m' \<Longrightarrow> machine_wf m \<Longrightarrow> machine_wf m'"
  by (auto simp: execute_single_data_transfer_def execute_pre_indexing_def
      execute_post_indexing_def Let_def split: if_splits
      dest!: transfer_wf intro!: machine_wf_updates)

end
