(* ===== verification/Arm_Emulate.thy ===== *)
theory Arm_Emulate
  imports Arm_Memory
begin

unbundle bit_operations_syntax

text \<open>
  The emulator's driver, \<open>arm11_48/src/emulate.c\<close>: decoding, dispatch, and the main loop with its
  three stage pipeline. \<open>fetched_Instruction\<close> is a pointer into the 64 KiB of memory; the model
  keeps it as the offset from \<open>memory\<close>, an \<open>int\<close> because the code computes it through one.

  The loop body declares \<open>bool isBranch\<close> without a value and sets it only when the condition
  of the instruction holds. The model takes that indeterminate value as an argument, \<open>junk\<close>, and
  the step relation \<open>emu_step\<close> allows either. \<open>seed\<close> is the start value of the uninitialised
  local of \<open>read_from_GPIO_memory_at\<close>, which no result depends on.
\<close>

section \<open>Decoding and dispatch\<close>

datatype instruction = Data_processing | Multiply | Single_data_transfer | Branch

definition decode :: "byte_t list \<Rightarrow> instruction" where
  "decode w =
    (let code = drop_bit 2 (w ! 0) AND 3 in
     if code = 1 then Single_data_transfer
     else if code = 2 then Branch
     else if w ! 0 AND 3 = 0 \<and> drop_bit 6 (w ! 1) = 0 \<and> drop_bit 4 (w ! 3) = 9 then Multiply
     else Data_processing)"

definition execute :: "word_t \<Rightarrow> byte_t list \<Rightarrow> machine \<Rightarrow> c_error + machine" where
  "execute seed w m =
    (case decode w of
       Data_processing \<Rightarrow> bindE (execute_data_processing w (registers m)) (\<lambda>r. Inr (m\<lparr>registers := r\<rparr>))
     | Multiply \<Rightarrow> Inr (m\<lparr>registers := execute_multiply w (registers m)\<rparr>)
     | Single_data_transfer \<Rightarrow> execute_single_data_transfer seed w m
     | Branch \<Rightarrow> Inr (m\<lparr>registers := execute_branch w (registers m)\<rparr>))"

section \<open>The pipeline\<close>

record emulator =
  mach :: machine
  fetched_Instruction :: int
  decoded_Instruction :: "byte_t list"

definition rd_ptr :: "byte_t list \<Rightarrow> int \<Rightarrow> c_error + byte_t" where
  "rd_ptr mem p = (if 0 \<le> p then rd mem (nat p) else Inl OutOfBounds)"

definition reverse_instruction :: "byte_t list \<Rightarrow> int \<Rightarrow> c_error + byte_t list" where
  "reverse_instruction mem fetched =
    bindE (rd_ptr mem (fetched + 3)) (\<lambda>d0.
    bindE (rd_ptr mem (fetched + 2)) (\<lambda>d1.
    bindE (rd_ptr mem (fetched + 1)) (\<lambda>d2.
    bindE (rd_ptr mem fetched) (\<lambda>d3. Inr [d0, d1, d2, d3]))))"

definition halted :: "emulator \<Rightarrow> bool" where
  "halted s = (\<forall>b \<in> set (decoded_Instruction s). b = 0)"

definition bump_PC :: "machine \<Rightarrow> machine" where
  "bump_PC m = m\<lparr>registers := (registers m)[PC := registers m ! PC + 4]\<rparr>"

text \<open>One pass of the \<open>while\<close> loop of \<open>main\<close>.\<close>

definition execute_stage :: "word_t \<Rightarrow> bool \<Rightarrow> emulator \<Rightarrow> c_error + (machine \<times> bool)" where
  "execute_stage seed junk s =
    (if checkCond (decoded_Instruction s ! 0) (registers (mach s) ! CPSR) \<noteq> 0
     then bindE (execute seed (decoded_Instruction s) (mach s))
            (\<lambda>m. Inr (m, decode (decoded_Instruction s) = Branch))
     else Inr (mach s, junk))"

definition loop_body :: "word_t \<Rightarrow> bool \<Rightarrow> emulator \<Rightarrow> c_error + emulator" where
  "loop_body seed junk s =
    bindE (execute_stage seed junk s) (\<lambda>(m, isBranch).
      if \<not> isBranch then
        bindE (reverse_instruction (memory m) (fetched_Instruction s)) (\<lambda>dec.
          Inr \<lparr>mach = bump_PC m, fetched_Instruction = sint (registers m ! PC),
               decoded_Instruction = dec\<rparr>)
      else
        bindE (reverse_instruction (memory m) (sint (registers m ! PC))) (\<lambda>dec.
          Inr \<lparr>mach = bump_PC (bump_PC m),
               fetched_Instruction = sint (registers (bump_PC m) ! PC),
               decoded_Instruction = dec\<rparr>))"

text \<open>The state when the loop is first tested, and the loop: \<open>None\<close> is "fuel ran out".\<close>

definition start_emulator :: "byte_t list \<Rightarrow> byte_t list \<Rightarrow> c_error + emulator" where
  "start_emulator mem gpio0 =
    bindE (initialise_GPIO_pins gpio0) (\<lambda>gpio.
      let m = \<lparr>registers = replicate 17 0, memory = mem, gpio_memory = gpio, printed = []\<rparr>;
          m1 = bump_PC m
      in bindE (reverse_instruction mem 0) (\<lambda>dec.
           Inr \<lparr>mach = bump_PC m1, fetched_Instruction = sint (registers m1 ! PC),
                decoded_Instruction = dec\<rparr>))"

fun run_emulator :: "nat \<Rightarrow> word_t \<Rightarrow> (nat \<Rightarrow> bool) \<Rightarrow> emulator \<Rightarrow> (c_error + emulator) option" where
  "run_emulator 0 seed junk s = (if halted s then Some (Inr s) else None)"
| "run_emulator (Suc fuel) seed junk s =
     (if halted s then Some (Inr s)
      else case loop_body seed (junk 0) s of
        Inl e \<Rightarrow> Some (Inl e)
      | Inr s' \<Rightarrow> run_emulator fuel seed (\<lambda>i. junk (Suc i)) s')"

inductive emu_step :: "emulator \<Rightarrow> emulator \<Rightarrow> bool" where
  step: "\<not> halted s \<Longrightarrow> loop_body seed junk s = Inr s' \<Longrightarrow> emu_step s s'"

inductive emu_reachable :: "byte_t list \<Rightarrow> emulator \<Rightarrow> bool" for mem where
  start: "length mem = memorySize \<Longrightarrow> length gpio0 = GPIO_memory_size \<Longrightarrow>
     start_emulator mem gpio0 = Inr s \<Longrightarrow> emu_reachable mem s"
| again: "emu_reachable mem s \<Longrightarrow> emu_step s s' \<Longrightarrow> emu_reachable mem s'"

inductive_cases emu_stepE [elim!]: "emu_step s s'"

text \<open>
  \<open>parse_file\<close> copies the bytes of the program file to memory and counts the words; \<open>main\<close> then
  runs the loop and prints the registers and the words of memory that are not zero, as the
  emulator's final state and \<open>nonzero_words\<close> give them. \<open>mem0\<close> and \<open>gpio0\<close> are what \<open>malloc\<close> returned.
\<close>

fun parse_file :: "byte_t list \<Rightarrow> nat \<Rightarrow> byte_t list \<Rightarrow> nat \<Rightarrow> c_error + (byte_t list \<times> nat)" where
  "parse_file fileArray i [] num = Inr (fileArray, num)"
| "parse_file fileArray i (c # cs) num =
     bindE (wr fileArray i c) (\<lambda>m. parse_file m (i + 1) cs (if i mod 4 = 0 then num + 1 else num))"

definition nonzero_words :: "byte_t list \<Rightarrow> (nat \<times> byte_t list) list" where
  "nonzero_words mem =
    filter (\<lambda>(_, bs). \<exists>b \<in> set bs. b \<noteq> 0)
      (map (\<lambda>i. (i * 4, [mem ! (i * 4), mem ! (i * 4 + 1), mem ! (i * 4 + 2), mem ! (i * 4 + 3)]))
         [0 ..< memorySize div 4])"

definition emulate :: "nat \<Rightarrow> word_t \<Rightarrow> (nat \<Rightarrow> bool) \<Rightarrow> byte_t list \<Rightarrow> byte_t list \<Rightarrow> byte_t list \<Rightarrow>
    (c_error + emulator) option" where
  "emulate fuel seed junk mem0 gpio0 program =
    (case bindE (parse_file mem0 0 program 0) (\<lambda>(mem, _). start_emulator mem gpio0) of
       Inl e \<Rightarrow> Some (Inl e)
     | Inr s \<Rightarrow> run_emulator fuel seed junk s)"

lemma parse_file_ok:
  "i + length cs \<le> length m \<Longrightarrow>
   \<exists>n. parse_file m i cs num = Inr (put_bytes m i cs, n)"
proof (induction cs arbitrary: m i num)
  case (Cons c cs)
  then show ?case
    using put_bytes_Cons [of i m c cs] Cons.IH [of "Suc i" "m[i := c]"] by simp
qed simp

lemma parse_file_overflow:
  "length m < i + length cs \<Longrightarrow> i \<le> length m \<Longrightarrow> parse_file m i cs num = Inl OutOfBounds"
proof (induction cs arbitrary: m i num)
  case (Cons c cs)
  then show ?case by (cases "i < length m") (auto simp: wr_out)
qed simp

section \<open>Invariants of the loop\<close>

lemma execute_wf: "execute seed w m = Inr m' \<Longrightarrow> machine_wf m \<Longrightarrow> machine_wf m'"
  by (auto simp: execute_def machine_wf_def split: instruction.splits
      dest: execute_data_processing_length execute_single_data_transfer_wf [unfolded machine_wf_def])

lemma bump_PC_wf [simp]: "machine_wf (bump_PC m) = machine_wf m"
  by (simp add: bump_PC_def machine_wf_def)

lemma bump_PC_PC [simp]: "machine_wf m \<Longrightarrow> registers (bump_PC m) ! PC = registers m ! PC + 4"
  by (simp add: bump_PC_def PC_def machine_wf_def)

lemma reverse_instruction_length:
  "reverse_instruction mem p = Inr dec \<Longrightarrow> length dec = 4"
  by (auto simp: reverse_instruction_def)

lemma reverse_instruction_ok:
  "p + 4 \<le> length mem \<Longrightarrow> reverse_instruction mem (int p) =
     Inr [mem ! (p + 3), mem ! (p + 2), mem ! (p + 1), mem ! p]"
  by (simp add: reverse_instruction_def rd_ptr_def nat_add_distrib)

text \<open>
  The pipeline invariant: the sizes, a four byte decoded instruction, and the fetched
  instruction one word behind the PC.
\<close>

definition emulator_inv :: "emulator \<Rightarrow> bool" where
  "emulator_inv s \<longleftrightarrow> machine_wf (mach s) \<and> length (decoded_Instruction s) = 4 \<and>
     fetched_Instruction s = sint (registers (mach s) ! PC - 4)"

lemma emulator_inv_start:
  assumes "length mem = memorySize" "length gpio0 = GPIO_memory_size"
    and "start_emulator mem gpio0 = Inr s"
  shows "emulator_inv s"
proof -
  obtain g dec where g: "initialise_GPIO_pins gpio0 = Inr g" and
    dec: "reverse_instruction mem 0 = Inr dec"
    using assms(3) by (auto simp: start_emulator_def Let_def)
  have "length g = 44"
    using g assms(2) by (auto simp: initialise_GPIO_pins_def GPIO_memory_size_def
        dest!: write_to_GPIO_memory_at_length)
  moreover have "length dec = 4" by (rule reverse_instruction_length [OF dec])
  ultimately show ?thesis
    using assms(1,3) g dec
    by (auto simp: start_emulator_def Let_def emulator_inv_def machine_wf_def bump_PC_def PC_def
        memorySize_def GPIO_memory_size_def)
qed

lemma execute_stage_wf:
  "execute_stage seed junk s = Inr (m, b) \<Longrightarrow> machine_wf (mach s) \<Longrightarrow> machine_wf m"
  by (auto simp: execute_stage_def split: if_splits dest: execute_wf)

lemma emulator_inv_body:
  assumes "loop_body seed junk s = Inr s'" "emulator_inv s"
  shows "emulator_inv s'"
proof -
  obtain m b where st: "execute_stage seed junk s = Inr (m, b)"
    using assms(1) by (auto simp: loop_body_def)
  then have "machine_wf m"
    using assms(2) by (auto simp: emulator_inv_def dest: execute_stage_wf)
  then show ?thesis
    using assms(1) st
    by (auto simp: loop_body_def emulator_inv_def add.commute split: if_splits
          dest: reverse_instruction_length)
qed

lemma emulator_inv_reachable: "emu_reachable mem s \<Longrightarrow> emulator_inv s"
  by (induction rule: emu_reachable.induct) (auto intro: emulator_inv_start emulator_inv_body)

lemma run_emulator_inv:
  "run_emulator fuel seed junk s = Some (Inr s') \<Longrightarrow> emulator_inv s \<Longrightarrow> emulator_inv s' \<and> halted s'"
  by (induction fuel seed junk s rule: run_emulator.induct)
    (auto split: if_splits sum.splits dest: emulator_inv_body)

lemma run_emulator_mono:
  "run_emulator fuel seed junk s = Some r \<Longrightarrow> run_emulator (fuel + k) seed junk s = Some r"
proof (induction fuel seed junk s rule: run_emulator.induct)
  case (1 seed junk s)
  then show ?case by (cases k) (auto split: if_splits)
qed (auto split: if_splits sum.splits)

section \<open>Where control goes\<close>

text \<open>
  \<open>at s a\<close>: the decoded instruction of \<open>s\<close> is the word in memory at address \<open>a\<close>, and the pipeline
  is full: the PC is two words ahead.
\<close>

definition instr_at :: "byte_t list \<Rightarrow> word_t \<Rightarrow> byte_t list" where
  "instr_at mem a = [mem ! (unat a + 3), mem ! (unat a + 2), mem ! (unat a + 1), mem ! unat a]"

definition at_address :: "emulator \<Rightarrow> word_t \<Rightarrow> bool" where
  "at_address s a \<longleftrightarrow> emulator_inv s \<and> unat a + 4 \<le> 65536 \<and> registers (mach s) ! PC = a + 8 \<and>
     decoded_Instruction s = instr_at (memory (mach s)) a"

lemma at_addressD:
  assumes "at_address s a"
  shows "machine_wf (mach s)" "registers (mach s) ! PC = a + 8"
    "decoded_Instruction s = instr_at (memory (mach s)) a"
    "fetched_Instruction s = sint (a + 4)" "unat a + 4 \<le> 65536"
  using assms by (auto simp: at_address_def emulator_inv_def add.commute)

lemma reverse_instruction_at:
  assumes "machine_wf m" "unat a + 4 \<le> 65536"
  shows "reverse_instruction (memory m) (sint a) = Inr (instr_at (memory m) a)"
proof -
  have "sint a = int (unat a)" using assms(2) by (intro sint_small) simp
  then show ?thesis
    using assms reverse_instruction_ok [of "unat a" "memory m"] by (auto simp: instr_at_def)
qed

lemma at_address_bump:
  assumes "machine_wf m" "unat a + 4 \<le> 65536" "registers m ! PC = a + 4"
  shows "at_address \<lparr>mach = bump_PC m, fetched_Instruction = sint (registers m ! PC),
      decoded_Instruction = instr_at (memory m) a\<rparr> a"
  using assms
  by (simp add: at_address_def emulator_inv_def instr_at_def add.commute) (simp add: bump_PC_def)

lemma loop_body_sequential:
  assumes "at_address s a" "execute_stage seed junk s = Inr (m, False)"
    and "registers m ! PC = a + 8" "unat (a + 4) + 4 \<le> 65536"
  shows "\<exists>s'. loop_body seed junk s = Inr s' \<and> at_address s' (a + 4) \<and> mach s' = bump_PC m"
proof -
  have wf: "machine_wf m"
    using execute_stage_wf [OF assms(2)] at_addressD(1) [OF assms(1)] by simp
  have "reverse_instruction (memory m) (fetched_Instruction s) = Inr (instr_at (memory m) (a + 4))"
    using reverse_instruction_at [OF wf assms(4)] at_addressD(4) [OF assms(1)] by simp
  then show ?thesis
    using assms(2,3) at_address_bump [OF wf assms(4)] by (simp add: loop_body_def add.assoc)
qed

lemma loop_body_flush:
  assumes "execute_stage seed junk s = Inr (m, True)" "machine_wf m"
    and "registers m ! PC = t" "unat t + 4 \<le> 65536"
  shows "\<exists>s'. loop_body seed junk s = Inr s' \<and> at_address s' t \<and> mach s' = bump_PC (bump_PC m)"
proof -
  have "reverse_instruction (memory m) (sint (registers m ! PC)) = Inr (instr_at (memory m) t)"
    using reverse_instruction_at [OF assms(2,4)] assms(3) by simp
  then show ?thesis
    using assms at_address_bump [of "bump_PC m" t]
    by (simp add: loop_body_def) (simp add: bump_PC_def)
qed

lemma execute_stage_false:
  "checkCond (decoded_Instruction s ! 0) (registers (mach s) ! CPSR) = 0 \<Longrightarrow>
   execute_stage seed junk s = Inr (mach s, junk)"
  by (simp add: execute_stage_def)

lemma execute_stage_branch:
  assumes "checkCond (decoded_Instruction s ! 0) (registers (mach s) ! CPSR) \<noteq> 0"
    and "decode (decoded_Instruction s) = Branch"
  shows "execute_stage seed junk s =
    Inr ((mach s)\<lparr>registers := execute_branch (decoded_Instruction s) (registers (mach s))\<rparr>, True)"
  using assms by (simp add: execute_stage_def execute_def)

text \<open>A taken branch continues at its target: the address of the branch, plus 8, plus the field.\<close>

lemma branch_taken:
  assumes "at_address s a"
    and "checkCond (decoded_Instruction s ! 0) (registers (mach s) ! CPSR) \<noteq> 0"
    and "decode (decoded_Instruction s) = Branch"
    and "t = a + 8 + push_bit 2 (scast (branch_field (decoded_Instruction s)))"
    and "unat t + 4 \<le> 65536"
  shows "\<exists>s'. loop_body seed junk s = Inr s' \<and> at_address s' t"
proof -
  let ?m = "(mach s)\<lparr>registers := execute_branch (decoded_Instruction s) (registers (mach s))\<rparr>"
  note wf = at_addressD(1) [OF assms(1)]
  have "machine_wf ?m" using wf by (simp add: machine_wf_def)
  moreover have "registers ?m ! PC = t"
    using assms(4) wf at_addressD(2) [OF assms(1)]
    by (simp add: execute_branch_PC machine_wfD PC_def)
  ultimately show ?thesis
    using loop_body_flush [OF execute_stage_branch [OF assms(2,3)] _ _ assms(5)] by blast
qed

end
