(* ===== verification/Arm_Properties.thy ===== *)
theory Arm_Properties
  imports Arm_Emulate
begin

unbundle bit_operations_syntax

text \<open>
  The properties of the ARM11 emulator, over the definitions of \<open>Arm_Common\<close>, \<open>Arm_Data\<close>,
  \<open>Arm_Memory\<close> and \<open>Arm_Emulate\<close>, each with a concrete instance of its hypotheses.
\<close>

section \<open>Conditions, shifts and flags\<close>

text \<open>The condition check of \<open>cond.c\<close> is the architecture's condition table over N, Z and V,
  for the eight codes it implements; all other codes never hold.\<close>

theorem checkCond_correct:
  "checkCond b cpsr \<noteq> 0 \<longleftrightarrow>
     cond_holds (unat (drop_bit 4 b)) (bit cpsr 31) (bit cpsr 30) (bit cpsr 28)"
  using checkCond_iff_cond_holds by (simp add: getCond_def)

lemma drop_bit_not_arithmetic:
  assumes "bit (w :: word_t) 31" "0 < n"
  shows "drop_bit n w \<noteq> signed_drop_bit n w"
proof
  assume eq: "drop_bit n w = signed_drop_bit n w"
  have "32 - n \<le> 31" using assms(2) by simp
  then have "bit (signed_drop_bit n w) 31" using assms(1) by (simp add: bit_signed_drop_bit_iff)
  moreover have "\<not> bit (drop_bit n w) 31"
    using assms(2) by (auto simp: bit_drop_bit_eq dest: bit_imp_le_length)
  ultimately show False by (simp add: eq)
qed

text \<open>C40: for amounts 1 to 31 the shifter's LSL, LSR and ROR are the architecture's, carry
  included, but its ASR is LSR, and so not the arithmetic shift of any word with bit 31 set.\<close>

theorem shifter_correct:
  assumes "0 < unat n" "unat n < 32"
  shows "shifter 0 n w c = Inr (push_bit (unat n) w, of_bool (bit w (32 - unat n))) \<and>
    shifter 1 n w c = Inr (drop_bit (unat n) w, of_bool (bit w (unat n - 1))) \<and>
    shifter 2 n w c = shifter 1 n w c \<and>
    (bit w 31 \<longrightarrow> shifter 2 n w c \<noteq> Inr (signed_drop_bit (unat n) w, of_bool (bit w (unat n - 1)))) \<and>
    shifter 3 n w c = Inr (word_rotr (unat n) w, of_bool (bit w (unat n - 1)))"
  using assms drop_bit_not_arithmetic [of w "unat n"]
  by (simp add: shifter_lsl shifter_lsr shifter_asr shifter_ror carry_bit_def)

theorem shifter_correct_witness:
  "shifter 0 4 0x80000008 0 = Inr (0x80, 0)"
proof -
  have "shifter 0 4 0x80000008 0 = Inr (push_bit 4 0x80000008, of_bool (bit (0x80000008 :: word_t) 28))"
    using shifter_correct [of 4 "0x80000008" 0] by simp
  moreover have "\<not> bit (0x80000008 :: word_t) 28" by simp
  ultimately show ?thesis by simp
qed

text \<open>C1: a data processing instruction whose second operand is defined writes the destination, for
  the seven opcodes that have one, with the opcode's function of its operands, and no other of
  the sixteen general registers.\<close>

theorem data_processing_registers:
  assumes "length regs = 17"
    and "get_Operand2 (w ! 2) (w ! 3) (get_immediate_operand (w ! 0)) regs 0 = Inr (op2, c)"
  shows "\<exists>r. execute_data_processing w regs = Inr r \<and> length r = 17 \<and>
    (\<forall>i < 16. r ! i =
       (if writes_Rd (unat (get_OpCode (w ! 0) (w ! 1))) \<and> i = unat (get_Rd (w ! 2))
        then alu (unat (get_OpCode (w ! 0) (w ! 1))) (regs ! unat (get_Rn (w ! 1))) op2
        else regs ! i))"
  by (rule execute_data_processing_eq [OF assms])

text \<open>\<open>add r1, r2, #5\<close>, with 7 in \<open>r2\<close>.\<close>

theorem data_processing_registers_witness:
  "\<exists>r. execute_data_processing [0xe2, 0x82, 0x10, 0x05] ((replicate 17 0)[2 := 7]) = Inr r \<and>
     r ! 1 = 12 \<and> r ! 2 = 7"
proof -
  let ?w = "[0xe2, 0x82, 0x10, 0x05] :: byte_t list" and ?r = "(replicate 17 0)[2 := 7] :: word_t list"
  have "get_Operand2 (?w ! 2) (?w ! 3) (get_immediate_operand (?w ! 0)) ?r 0 = Inr (5, 0)"
    by code_simp
  from data_processing_registers [OF _ this] obtain r where
    "execute_data_processing ?w ?r = Inr r"
    and r: "\<forall>i < 16. r ! i =
      (if writes_Rd (unat (get_OpCode (?w ! 0) (?w ! 1))) \<and> i = unat (get_Rd (?w ! 2))
       then alu (unat (get_OpCode (?w ! 0) (?w ! 1))) (?r ! unat (get_Rn (?w ! 1))) 5 else ?r ! i)"
    by auto
  moreover have "unat (get_OpCode (?w ! 0) (?w ! 1)) = 4" "unat (get_Rd (?w ! 2)) = 1"
    "unat (get_Rn (?w ! 1)) = 2" by code_simp+
  ultimately show ?thesis by (auto intro!: exI [of _ r])
qed

text \<open>The shifter's carry is a flag: what the CPSR receives is 0 or 1.\<close>

lemma ucast_and_1_flag: "ucast ((x :: word_t) AND 1) \<in> {0, 1 :: byte_t}"
  by (simp add: ucast_and_1)

lemma shifter_carry_flag:
  "shifter t n w k = Inr (v, c) \<Longrightarrow> k \<in> {0, 1} \<Longrightarrow> c \<in> {0, 1}"
  using ucast_and_1_flag by (auto simp: shifter_def Let_def split: if_splits)

lemma get_Operand2_carry_flag: "get_Operand2 b2 b3 i regs 0 = Inr (op2, c) \<Longrightarrow> c \<in> {0, 1}"
  by (auto simp: get_Operand2_def rotated_immediate_def shifted_register_def Let_def
      split: if_splits dest!: shifter_carry_flag)

lemma dp_switch_carry:
  assumes "Rd < length regs" "Rn < length regs"
  shows "snd (snd (snd (dp_switch opc Rn Rd op2 c regs))) =
    (let n' = (if writes_Rd (unat opc) \<and> Rn = Rd then alu (unat opc) (regs ! Rn) op2 else regs ! Rn) in
     if unat opc \<in> {2, 3, 10} then of_bool (op2 \<le> n')
     else if unat opc = 4 then of_bool (drop_bit 31 (n' + op2) \<noteq> 0) else c)"
proof (cases "opc \<in> {2, 3, 4, 10}")
  case True
  then show ?thesis using assms
    by (elim insertE emptyE) (auto simp: dp_switch_def Let_def not_less not_le nth_list_update)
next
  case False
  then show ?thesis by (simp add: dp_switch_def Let_def unat_eq_numeral8)
qed

lemma drop_bit_31: "drop_bit 31 (x :: word_t) \<noteq> 0 \<longleftrightarrow> bit x 31"
proof -
  have "bit (drop_bit 31 x) n \<longleftrightarrow> n = 0 \<and> bit x 31" for n
    by (cases n) (auto simp: bit_drop_bit_eq dest: bit_imp_le_length)
  then show ?thesis by (metis bit_0_eq bit_eqI bot_apply bot_bool_def)
qed

lemma execute_data_processing_CPSR:
  assumes "length regs = 17" "get_S (w ! 1) \<noteq> 0"
    and "get_Operand2 (w ! 2) (w ! 3) (get_immediate_operand (w ! 0)) regs 0 = Inr (op2, c)"
    and "execute_data_processing w regs = Inr r"
  shows "\<exists>lop. r ! CPSR = set_CPSR (alu (unat (get_OpCode (w ! 0) (w ! 1))) (regs ! unat (get_Rn (w ! 1))) op2)
    (regs ! CPSR) lop (snd (snd (snd (dp_switch (get_OpCode (w ! 0) (w ! 1)) (unat (get_Rn (w ! 1)))
       (unat (get_Rd (w ! 2))) op2 c regs))))"
proof -
  let ?s = "dp_switch (get_OpCode (w ! 0) (w ! 1)) (unat (get_Rn (w ! 1)))
              (unat (get_Rd (w ! 2))) op2 c regs"
  obtain q result lop c' where s: "?s = (q, result, lop, c')" by (cases ?s) auto
  have rd: "unat (get_Rd (w ! 2)) < length regs" using assms(1) by simp
  have "q ! CPSR = regs ! CPSR"
    using dp_switch_registers [OF rd, of "get_OpCode (w ! 0) (w ! 1)" "unat (get_Rn (w ! 1))" op2 c] s
      get_Rd_less(1) [of "w ! 2"] by (auto simp: CPSR_def simp del: get_Rd_less)
  moreover have "length q = 17" using dp_switch_length s assms(1) by (metis fst_conv)
  moreover have "result = alu (unat (get_OpCode (w ! 0) (w ! 1))) (regs ! unat (get_Rn (w ! 1))) op2"
    using dp_switch_result [OF rd, of "get_OpCode (w ! 0) (w ! 1)" "unat (get_Rn (w ! 1))" op2 c] s
    by simp
  ultimately show ?thesis
    using assms s by (auto simp: execute_data_processing_def CPSR_def simp del: alu.simps)
qed

text \<open>The flags after a data processing instruction with the S bit. Z says whether the result is 0
  and V is untouched, as they should; but N is bit 30 of the result; the carry of a subtraction
  or comparison is read off \<open>Rn\<close> after \<open>Rd\<close> was written, with the operands of \<open>rsb\<close> not turned
  round; and the carry of an addition is bit 31 of \<open>Rn\<close> plus the operand, not the carry out.\<close>

theorem data_processing_flags:
  assumes "length regs = 17" "get_S (w ! 1) \<noteq> 0"
    and "get_Operand2 (w ! 2) (w ! 3) (get_immediate_operand (w ! 0)) regs 0 = Inr (op2, c)"
    and "execute_data_processing w regs = Inr r"
    and "opc = unat (get_OpCode (w ! 0) (w ! 1))" "n = unat (get_Rn (w ! 1))" "d = unat (get_Rd (w ! 2))"
    and "res = alu opc (regs ! n) op2"
    and "n' = (if writes_Rd opc \<and> n = d then res else regs ! n)"
  shows "bit (r ! CPSR) 31 = bit res 30 \<and> bit (r ! CPSR) 30 = (res = 0) \<and>
    bit (r ! CPSR) 29 = (if opc \<in> {2, 3, 10} then op2 \<le> n'
      else if opc = 4 then bit (n' + op2) 31 else c \<noteq> 0) \<and>
    (\<forall>i < 29. bit (r ! CPSR) i = bit (regs ! CPSR) i)"
proof -
  let ?s = "dp_switch (get_OpCode (w ! 0) (w ! 1)) n d op2 c regs"
  have lt: "n < length regs" "d < length regs" using assms by simp_all
  define k where "k = (if opc \<in> {2, 3, 10} then op2 \<le> n' else if opc = 4 then bit (n' + op2) 31 else c \<noteq> 0)"
  have "c \<in> {0, 1}" by (rule get_Operand2_carry_flag [OF assms(3)])
  then have "snd (snd (snd ?s)) = of_bool k"
    using dp_switch_carry [OF lt(2,1), of "get_OpCode (w ! 0) (w ! 1)" op2 c] assms(5-9)
    by (auto simp: k_def Let_def drop_bit_31 simp del: alu.simps writes_Rd.simps)
  then obtain lop where "r ! CPSR = set_CPSR res (regs ! CPSR) lop (of_bool k)"
    using execute_data_processing_CPSR [OF assms(1-4)] assms(5-8) by auto
  then show ?thesis
    unfolding k_def [symmetric] by (simp add: bit_set_CPSR)
qed

text \<open>\<open>subs r1, r1, #2\<close> with 3 in \<open>r1\<close>: no borrow, yet the carry says there is one.\<close>

theorem data_processing_flags_witness:
  "\<exists>r. execute_data_processing [0xe2, 0x51, 0x10, 0x02] ((replicate 17 0)[1 := 3]) = Inr r \<and>
     r ! 1 = 1 \<and> \<not> bit (r ! CPSR) 29 \<and> \<not> bit (r ! CPSR) 30"
proof -
  let ?w = "[0xe2, 0x51, 0x10, 0x02] :: byte_t list" and ?r = "(replicate 17 0)[1 := 3] :: word_t list"
  have op2: "get_Operand2 (?w ! 2) (?w ! 3) (get_immediate_operand (?w ! 0)) ?r 0 = Inr (2, 0)"
    by code_simp
  have f: "unat (get_OpCode (?w ! 0) (?w ! 1)) = 2" "unat (get_Rd (?w ! 2)) = 1"
    "unat (get_Rn (?w ! 1)) = 1" "get_S (?w ! 1) \<noteq> 0" by code_simp+
  obtain r where r: "execute_data_processing ?w ?r = Inr r" "r ! 1 = 1"
    using execute_data_processing_eq [OF _ op2] f by auto
  have "bit (r ! CPSR) 30 = (1 = (0 :: word_t)) \<and> bit (r ! CPSR) 29 = ((2 :: word_t) \<le> 1)"
    using data_processing_flags [OF _ f(4) op2 r(1) refl refl refl refl refl] f(1-3) by simp
  moreover have "\<not> (2 :: word_t) \<le> 1" by code_simp
  ultimately show ?thesis using r by auto
qed

text \<open>Multiply and multiply-accumulate write \<open>Rd\<close> with the product modulo \<open>2 ^ 32\<close> and change no
  other general register; with the S bit N is the result's sign, but Z is only ever set.\<close>

theorem multiply_registers:
  assumes "length regs = 17" "d = unat (get_Rd_multiply (w ! 1))"
    and "p = regs ! unat (get_Rm (w ! 3)) * regs ! unat (get_Rs (w ! 2)) +
           (if get_A (w ! 1) \<noteq> 0 then regs ! unat (get_Rn_multiply (w ! 2)) else 0)"
  shows "(\<forall>i < 16. execute_multiply w regs ! i = (if i = d then p else regs ! i)) \<and>
    (get_S_multiply (w ! 1) \<noteq> 0 \<longrightarrow>
       bit (execute_multiply w regs ! CPSR) 31 = bit p 31 \<and>
       bit (execute_multiply w regs ! CPSR) 30 = (p = 0 \<or> bit (regs ! CPSR) 30))"
proof -
  have "execute_multiply w regs ! CPSR = set_CPSR_multiply p (regs ! CPSR)"
    if "get_S_multiply (w ! 1) \<noteq> 0"
    using that assms get_Rd_multiply_less [of "w ! 1"]
    by (auto simp: execute_multiply_def Let_def CPSR_def nth_list_update simp del: get_Rd_multiply_less)
  then show ?thesis
    using execute_multiply_nth [OF assms(1)] assms(2,3) by (auto simp: bit_set_CPSR_multiply)
qed

text \<open>\<open>muls r1, r2, r3\<close> of 3 and 5 with Z already set.\<close>

theorem multiply_registers_witness:
  "let regs = (replicate 17 0)[2 := 3, 3 := 5, 16 := 0x40000000];
       r = execute_multiply [0xe0, 0x11, 0x03, 0x92] regs
   in r ! 1 = 15 \<and> r ! 2 = 3 \<and> bit (r ! CPSR) 30"
proof -
  let ?w = "[0xe0, 0x11, 0x03, 0x92] :: byte_t list"
  let ?r = "(replicate 17 0)[2 := 3, 3 := 5, 16 := 0x40000000] :: word_t list"
  have f: "unat (get_Rd_multiply (?w ! 1)) = 1" "unat (get_Rm (?w ! 3)) = 2" "unat (get_Rs (?w ! 2)) = 3"
    "get_A (?w ! 1) = 0" "get_S_multiply (?w ! 1) \<noteq> 0" by code_simp+
  have "bit (?r ! CPSR) 30" by (simp add: CPSR_def)
  then show ?thesis
    using multiply_registers [of ?r _ ?w, OF _ refl refl] f by (simp add: Let_def)
qed

section \<open>Memory\<close>

text \<open>C34: a word stored at an address inside the memory is what a load from there returns, and the
  store changes exactly the four bytes at the address.\<close>

theorem store_then_load:
  assumes "machine_wf m" "unat a + 4 \<le> 65536"
  shows "\<exists>m1 m2. store seed a Rs m = Inr m1 \<and> load a Rd m1 = Inr m2 \<and>
    registers m2 = (registers m)[unat Rd := registers m ! unat Rs] \<and>
    (\<forall>i < 65536. i < unat a \<or> unat a + 4 \<le> i \<longrightarrow> memory m2 ! i = memory m ! i) \<and>
    gpio_memory m2 = gpio_memory m \<and> printed m2 = printed m"
proof -
  let ?v = "registers m ! unat Rs"
  let ?m1 = "m\<lparr>memory := put_bytes (memory m) (unat a) (word_bytes ?v)\<rparr>"
  have len: "length (memory m) = 65536" using assms(1) by auto
  have "store seed a Rs m = Inr ?m1" by (rule store_word [OF assms])
  moreover have "machine_wf ?m1" using assms len by (simp add: machine_wf_def)
  moreover have "\<not> is_GPIO_address a"
    using small_address_ordinary [of a] assms(2) by (simp add: ordinary_address_def)
  moreover have "load_loop (memory ?m1) a 4 0 = Inr ?v"
    using load_store_word [of a "memory m" ?v 0] assms(2) len by simp
  moreover have "\<not> 65536 < a" using assms(2) by (simp add: word_less_nat_alt)
  ultimately have "load a Rd ?m1 = Inr (?m1\<lparr>registers := (registers m)[unat Rd := ?v]\<rparr>)"
    by (simp add: load_def)
  then show ?thesis
    using \<open>store seed a Rs m = Inr ?m1\<close> assms(2) len
    by (auto simp: nth_put_bytes)
qed

definition blank_machine :: machine where
  "blank_machine = \<lparr>registers = replicate 17 0, memory = replicate 65536 0,
     gpio_memory = replicate 44 0, printed = []\<rparr>"

lemma blank_machine_wf [simp]: "machine_wf blank_machine"
  by (simp add: machine_wf_def blank_machine_def memorySize_def GPIO_memory_size_def)

theorem store_then_load_witness:
  "\<exists>m1 m2. store 0 0x100 1 (blank_machine\<lparr>registers := (replicate 17 0)[1 := 77]\<rparr>) = Inr m1 \<and>
     load 0x100 2 m1 = Inr m2 \<and> registers m2 ! 2 = 77"
proof -
  have "machine_wf (blank_machine\<lparr>registers := (replicate 17 0)[1 := 77]\<rparr>)"
    by (simp add: machine_wf_def blank_machine_def memorySize_def GPIO_memory_size_def)
  from store_then_load [OF this, of "0x100" 0 1 2] show ?thesis by auto
qed

text \<open>The bounds check of \<open>load\<close> does not cover the word it reads. Outside the GPIO addresses a
  load up to 65532 is defined; above 65536 it prints the out-of-bounds message and changes
  nothing else; the four addresses 65533 to 65536 pass the check and read past the array.\<close>

theorem load_bounds:
  assumes "machine_wf m" "\<not> is_GPIO_address a"
  shows "(ok (load a Rd m) \<longleftrightarrow> unat a \<le> 65532 \<or> 65536 < unat a) \<and>
    (65536 < unat a \<longrightarrow> load a Rd m = Inr (m\<lparr>printed := printed m @ [Out_of_bounds_access a]\<rparr>)) \<and>
    (65532 < unat a \<and> unat a \<le> 65536 \<longrightarrow> load a Rd m = Inl OutOfBounds)"
proof -
  consider "unat a \<le> 65532" | "65533 \<le> unat a" "unat a \<le> 65536" | "65536 < unat a" by linarith
  then show ?thesis
  proof cases
    case 1
    then show ?thesis using load_word [OF assms, of Rd] by simp
  next
    case 2
    then show ?thesis using load_overrun [OF assms(1) 2, of Rd] by simp
  next
    case 3
    then show ?thesis using load_rejected [OF assms(2) 3, of Rd m] by simp
  qed
qed

theorem load_bounds_witness: "load 65535 0 blank_machine = Inl OutOfBounds"
proof -
  have "\<not> is_GPIO_address 65535" by (simp add: is_GPIO_address_def gpio_addresses)
  from load_bounds [OF blank_machine_wf this, of 0] show ?thesis by simp
qed

text \<open>\<open>store\<close> has no bounds check: at an address that is not one of the GPIO module's it is
  defined exactly when the word fits, and writes outside the array otherwise.\<close>

theorem store_bounds:
  assumes "machine_wf m" "ordinary_address a"
  shows "store seed a Rd m =
    (if unat a \<le> 65532
     then Inr (m\<lparr>memory := put_bytes (memory m) (unat a) (word_bytes (registers m ! unat Rd))\<rparr>)
     else Inl OutOfBounds)"
  using store_word [OF assms(1), of a seed Rd] store_overrun [OF assms, of seed Rd] by simp

theorem store_bounds_witness: "store 0 0x10000 3 blank_machine = Inl OutOfBounds"
proof -
  have "ordinary_address 0x10000" by (simp add: ordinary_address_def is_GPIO_address_def gpio_addresses)
  from store_bounds [OF blank_machine_wf this, of 0 3] show ?thesis by simp
qed

text \<open>The three bits of GPIO memory that say what pin \<open>n\<close> is used for.\<close>

definition pin_code :: "byte_t list \<Rightarrow> nat \<Rightarrow> word_t" where
  "pin_code g n =
    (let a = 4 * (n div 10)
     in drop_bit (3 * (n mod 10)) (bytes_word (g ! a) (g ! (a + 1)) (g ! (a + 2)) (g ! (a + 3))) AND 7)"

lemma drop_bit_mask: "drop_bit k (w AND push_bit k x) = drop_bit k w AND (x :: word_t)"
  if "\<And>i. bit x i \<Longrightarrow> i + k < 32"
proof (rule bit_word_eqI)
  fix i
  show "bit (drop_bit k (w AND push_bit k x)) i = bit (drop_bit k w AND x) i"
    using that [of i] by (auto simp: bit_drop_bit_eq bit_and_iff bit_push_bit_iff add.commute)
qed

lemma bit_7: "bit (7 :: word_t) i \<longleftrightarrow> i < 3"
  unfolding masks_word32(3) by (simp only: bit_mask_iff) auto

lemma ucast_code:
  "ucast (w AND 7 :: word_t) = (1 :: byte_t) \<longleftrightarrow> w AND 7 = 1"
proof -
  define c where "c = w AND 7"
  have "n < 3" if "bit c n" for n using that by (simp only: c_def bit_and_iff bit_7)
  then have "n < 8" if "bit c n" for n using that by fastforce
  then have "c = ucast (ucast c :: byte_t)"
    by (intro bit_word_eqI) (auto simp: bit_unsigned_iff)
  then show ?thesis unfolding c_def [symmetric] by (metis unsigned_1)
qed

lemma get_pin_function_Output:
  assumes "n < 30" "length g = 44"
  shows "\<exists>f. get_pin_function junk (int n) g = Inr f \<and> (f = Output \<longleftrightarrow> pin_code g n = 1)"
proof -
  let ?a = "4 * (n div 10)" and ?k = "3 * (n mod 10)"
  let ?W = "bytes_word (g ! ?a) (g ! (?a + 1)) (g ! (?a + 2)) (g ! (?a + 3))"
  have "3 * (int n mod 10) = int ?k" by (simp add: zmod_int)
  then have k: "nat (3 * (int n mod 10)) = ?k" by simp
  let ?addr = "if int n \<le> 9 then Inr GPIO_00_09_shifted
                 else if int n \<le> 19 then Inr GPIO_10_19_shifted
                 else if int n \<le> 29 then Inr GPIO_20_29_shifted
                 else Inl Indeterminate :: c_error + word_t"
  have "\<exists>w. ?addr = Inr w \<and> unat w = ?a"
    using assms(1) by (cases "n < 10"; cases "n < 20") (auto simp: gpio_addresses div_eq_dividend_iff)
  then obtain w where w: "?addr = Inr w" "unat w = ?a" by blast
  have "read_from_GPIO_memory_at junk w g = Inr ?W"
    using assms w(2) by (simp add: read_from_GPIO_memory_at_ok)
  then have "get_pin_function junk (int n) g =
      Inr (from_binary_to_pin_function (ucast (drop_bit ?k (?W AND push_bit ?k 7))))"
    using w(1) by (simp only: get_pin_function_def Let_def k bindE.simps) simp
  moreover have "i + ?k < 32" if "bit (7 :: word_t) i" for i
    using that mod_less_divisor [of 10 n] unfolding bit_7 by linarith
  then have "drop_bit ?k (?W AND push_bit ?k 7) = pin_code g n"
    unfolding pin_code_def Let_def by (rule drop_bit_mask)
  moreover have "pin_code g n = drop_bit ?k ?W AND 7" by (simp add: pin_code_def Let_def)
  ultimately show ?thesis
    using ucast_code [of "drop_bit ?k ?W"] by (auto simp: from_binary_to_pin_function_def)
qed

text \<open>A store to the set register (or the clear register) of the GPIO writes the word into the
  four bytes of that register and prints the message when the pin of the word's highest set bit
  is configured as an output, and fails its assertion otherwise.\<close>

theorem gpio_pins:
  assumes "machine_wf m" "v = registers m ! unat Rd" "2 ^ n \<le> unat v" "unat v < 2 ^ (n + 1)" "n < 30"
  shows "store seed GPIO_setting Rd m =
      (if pin_code (gpio_memory m) n = 1
       then Inr (m\<lparr>gpio_memory := put_bytes (gpio_memory m) 28 (word_bytes v),
                   printed := printed m @ [Pin_on]\<rparr>)
       else Inl AssertFailed) \<and>
    store seed GPIO_clearing Rd m =
      (if pin_code (gpio_memory m) n = 1
       then Inr (m\<lparr>gpio_memory := put_bytes (gpio_memory m) 40 (word_bytes v),
                   printed := printed m @ [Pin_off]\<rparr>)
       else Inl AssertFailed)"
proof -
  have "v \<noteq> 0"
  proof
    assume "v = 0"
    then have "unat v = 0" by simp
    with assms(3) show False by simp
  qed
  then obtain k where k: "get_pin_number v = int k" "2 ^ k \<le> unat v" "unat v < 2 ^ (k + 1)"
    by (rule get_pin_number_highest)
  have "k = n"
  proof (rule ccontr)
    assume "k \<noteq> n"
    then have "k + 1 \<le> n \<or> n + 1 \<le> k" by linarith
    then have "(2 :: nat) ^ (k + 1) \<le> 2 ^ n \<or> (2 :: nat) ^ (n + 1) \<le> 2 ^ k"
      using power_increasing [of "k + 1" n "2 :: nat"] power_increasing [of "n + 1" k "2 :: nat"]
      by auto
    then show False using k(2,3) assms(3,4) by linarith
  qed
  have len: "length (gpio_memory m) = 44" using assms(1) by auto
  obtain f where "get_pin_function seed (int n) (gpio_memory m) = Inr f"
    "f = Output \<longleftrightarrow> pin_code (gpio_memory m) n = 1"
    using get_pin_function_Output [OF assms(5) len] by blast
  then show ?thesis
    using k(1) \<open>k = n\<close> assms(2) len
    by (auto simp: store_def Let_def set_pin_def clear_pin_def is_GPIO_address_def gpio_addresses
        write_to_GPIO_memory_at_ok)
qed

text \<open>Pin 1 as an output: the code 1 in bits 3 to 5 of the first word.\<close>

theorem gpio_pins_witness:
  "store 0 GPIO_setting 1 (blank_machine\<lparr>registers := (replicate 17 0)[1 := 2],
       gpio_memory := (replicate 44 0)[0 := 8]\<rparr>) =
     Inr (blank_machine\<lparr>registers := (replicate 17 0)[1 := 2],
       gpio_memory := (replicate 44 0)[0 := 8, 28 := 2], printed := [Pin_on]\<rparr>)"
proof -
  let ?m = "blank_machine\<lparr>registers := (replicate 17 0)[1 := 2], gpio_memory := (replicate 44 0)[0 := 8]\<rparr>"
  have wf: "machine_wf ?m"
    by (simp add: machine_wf_def blank_machine_def memorySize_def GPIO_memory_size_def)
  have "pin_code ((replicate 44 0)[0 := 8]) 1 = 1" by code_simp
  then have "pin_code (gpio_memory ?m) 1 = 1" by simp
  moreover have "put_bytes ((replicate 44 0)[0 := 8]) 28 (word_bytes 2) =
      (replicate 44 0)[0 := 8, 28 := (2 :: byte_t)]"
    by code_simp
  ultimately show ?thesis
    using gpio_pins [OF wf, of 2 1 1 0] by (simp add: blank_machine_def)
qed

section \<open>Control\<close>

text \<open>C33: in every state the emulator can reach, the registers, the memory and the GPIO memory keep
  their sizes, the decoded instruction is four bytes, and the fetched instruction is the word
  before the one the PC points to.\<close>

theorem pipeline_invariant:
  assumes "emu_reachable mem s"
  shows "machine_wf (mach s) \<and> length (decoded_Instruction s) = 4 \<and>
    fetched_Instruction s = sint (registers (mach s) ! PC - 4)"
  using emulator_inv_reachable [OF assms] by (simp add: emulator_inv_def)

theorem pipeline_invariant_witness:
  "\<exists>s. emu_reachable (replicate 65536 0) s \<and> fetched_Instruction s = sint (registers (mach s) ! PC - 4)"
proof -
  have "\<exists>s. start_emulator (replicate 65536 0) (replicate 44 0) = Inr s"
    using reverse_instruction_ok [of 0 "replicate 65536 0"]
    by (simp add: start_emulator_def initialise_GPIO_pins_ok Let_def)
  then obtain s where "start_emulator (replicate 65536 0) (replicate 44 0) = Inr s" by blast
  then have s: "emu_reachable (replicate 65536 0) s"
    by (rule emu_reachable.start [rotated 2]) (simp_all add: memorySize_def GPIO_memory_size_def)
  with pipeline_invariant [OF s] show ?thesis by blast
qed

text \<open>What a conditional instruction whose condition fails does depends on the value the
  uninitialised \<open>isBranch\<close> happens to have. If it is false, execution continues at the next
  instruction; if it is true, the pipeline is flushed to the PC and the next instruction is
  skipped.\<close>

theorem failed_condition:
  assumes "at_address s a" "unat a + 12 \<le> 65536"
    and "checkCond (decoded_Instruction s ! 0) (registers (mach s) ! CPSR) = 0"
  shows "(\<exists>s'. loop_body seed False s = Inr s' \<and> at_address s' (a + 4)) \<and>
    (\<exists>s'. loop_body seed True s = Inr s' \<and> at_address s' (a + 8))"
proof -
  have u: "unat (a + 4) = unat a + 4" "unat (a + 8) = unat a + 8"
    using assms(2) unat_add_small [of a 4] unat_add_small [of a 8] by simp_all
  note at = at_addressD [OF assms(1)] and ex = execute_stage_false [OF assms(3)]
  have "\<exists>s'. loop_body seed False s = Inr s' \<and> at_address s' (a + 4)"
    using loop_body_sequential [OF assms(1) ex at(2)] u(1) assms(2) by auto
  moreover have "\<exists>s'. loop_body seed True s = Inr s' \<and> at_address s' (a + 8)"
    using loop_body_flush [OF ex at(1,2)] u(2) assms(2) by auto
  ultimately show ?thesis ..
qed

text \<open>A machine holding \<open>beq\<close> (condition 0, Z clear) at address 0, in its loop's first state.\<close>

definition beq_emulator :: emulator where
  "beq_emulator = \<lparr>mach = blank_machine\<lparr>registers := (replicate 17 0)[15 := 8],
       memory := (replicate 65536 0)[3 := 0x0a]\<rparr>,
     fetched_Instruction = 4, decoded_Instruction = [0x0a, 0, 0, 0]\<rparr>"

lemma beq_emulator_at: "at_address beq_emulator 0"
  by (simp add: at_address_def emulator_inv_def machine_wf_def beq_emulator_def blank_machine_def
      memorySize_def GPIO_memory_size_def PC_def instr_at_def)

theorem failed_condition_witness:
  "(\<exists>s'. loop_body 0 False beq_emulator = Inr s' \<and> at_address s' 4) \<and>
   (\<exists>s'. loop_body 0 True beq_emulator = Inr s' \<and> at_address s' 8)"
proof -
  have "checkCond (decoded_Instruction beq_emulator ! 0) (registers (mach beq_emulator) ! CPSR) = 0"
    by (simp add: beq_emulator_def CPSR_def) code_simp
  from failed_condition [OF beq_emulator_at _ this, of 0] show ?thesis by simp
qed

text \<open>A branch whose condition holds continues at its address plus 8 plus its 24-bit field in
  two's complement times four, with the pipeline refilled from there.\<close>

theorem taken_branch:
  assumes "at_address s a" "decode (decoded_Instruction s) = Branch"
    and "checkCond (decoded_Instruction s ! 0) (registers (mach s) ! CPSR) \<noteq> 0"
    and "t = a + 8 + push_bit 2 (scast (branch_field (decoded_Instruction s)))" "unat t + 4 \<le> 65536"
  shows "\<exists>s'. loop_body seed junk s = Inr s' \<and> at_address s' t"
  using branch_taken [OF assms(1,3,2,4,5)] .

text \<open>The same machine with Z set takes the branch, to address 8.\<close>

definition beq_emulator_z :: emulator where
  "beq_emulator_z = beq_emulator\<lparr>mach := (mach beq_emulator)\<lparr>registers :=
      (registers (mach beq_emulator))[16 := 0x40000000]\<rparr>\<rparr>"

lemma beq_emulator_z_facts:
  "at_address beq_emulator_z 0" "decoded_Instruction beq_emulator_z = [0x0a, 0, 0, 0]"
  "checkCond 0x0a (registers (mach beq_emulator_z) ! CPSR) \<noteq> 0"
proof -
  show "at_address beq_emulator_z 0"
    using beq_emulator_at
    by (auto simp: at_address_def emulator_inv_def machine_wf_def PC_def beq_emulator_z_def)
  show "decoded_Instruction beq_emulator_z = [0x0a, 0, 0, 0]"
    by (simp add: beq_emulator_def beq_emulator_z_def)
  have "checkCond 0x0a 0x40000000 \<noteq> 0" by code_simp
  then show "checkCond 0x0a (registers (mach beq_emulator_z) ! CPSR) \<noteq> 0"
    by (simp add: beq_emulator_z_def beq_emulator_def CPSR_def)
qed

theorem taken_branch_witness:
  "\<exists>s'. loop_body 0 False beq_emulator_z = Inr s' \<and> at_address s' 8"
proof -
  have "decode [0x0a, 0, 0, 0] = Branch" "branch_field [0x0a, 0, 0, 0] = 0" by code_simp+
  then show ?thesis
    using taken_branch [OF beq_emulator_z_facts(1), of 8 0 False] beq_emulator_z_facts by simp
qed

text \<open>The fuel of the main loop is only a bound: a run that ends, ends in a halted state that
  keeps the invariant, and with any more fuel it ends the same way.\<close>

theorem run_emulator_stable:
  assumes "emulator_inv s" "run_emulator fuel seed junk s = Some (Inr s')"
  shows "halted s' \<and> emulator_inv s' \<and> run_emulator (fuel + k) seed junk s = Some (Inr s')"
  using run_emulator_inv [OF assms(2,1)] run_emulator_mono [OF assms(2)] by blast

theorem run_emulator_stable_witness:
  "halted (beq_emulator\<lparr>decoded_Instruction := [0, 0, 0, 0]\<rparr>) \<and>
   run_emulator (0 + 5) 0 (\<lambda>_. False) (beq_emulator\<lparr>decoded_Instruction := [0, 0, 0, 0]\<rparr>) =
     Some (Inr (beq_emulator\<lparr>decoded_Instruction := [0, 0, 0, 0]\<rparr>))"
proof -
  let ?s = "beq_emulator\<lparr>decoded_Instruction := [0, 0, 0, 0]\<rparr>"
  have "emulator_inv ?s"
    using beq_emulator_at by (auto simp: at_address_def emulator_inv_def)
  moreover have "run_emulator 0 0 (\<lambda>_. False) ?s = Some (Inr ?s)" by (simp add: halted_def)
  ultimately show ?thesis using run_emulator_stable [of ?s 0 0 "\<lambda>_. False" ?s 5] by blast
qed

end
