(* ===== verification/Asm_Defs.thy ===== *)
theory Asm_Defs
  imports Arm_Data "HOL-Library.Char_ord"
begin

unbundle bit_operations_syntax

text \<open>
  What the two passes of the assembler share: \<open>assembler_defs.c\<close> (register and mnemonic names,
  output of an instruction word) and the C library functions on strings the assembler calls.
  A C string is the list of its characters without the terminating NUL. The output file is the
  list of bytes written so far, so an encoder returns the bytes it appends.
\<close>

section \<open>The C library on strings\<close>

definition is_space :: "char \<Rightarrow> bool" where
  "is_space c = (c = CHR '' '' \<or> (9 \<le> (of_char c :: nat) \<and> (of_char c :: nat) \<le> 13))"

definition digit_value :: "char \<Rightarrow> nat option" where
  "digit_value c =
    (let n = of_char c in
     if 48 \<le> n \<and> n \<le> 57 then Some (n - 48)
     else if 97 \<le> n \<and> n \<le> 122 then Some (n - 87)
     else if 65 \<le> n \<and> n \<le> 90 then Some (n - 55) else None)"

fun digits :: "nat \<Rightarrow> string \<Rightarrow> int \<Rightarrow> int" where
  "digits base [] acc = acc"
| "digits base (c # cs) acc =
     (case digit_value c of
        None \<Rightarrow> acc
      | Some d \<Rightarrow> if d < base then digits base cs (acc * int base + int d) else acc)"

fun hex_prefix :: "string \<Rightarrow> bool" where
  "hex_prefix (z # x # d # _) =
     (z = CHR ''0'' \<and> (x = CHR ''x'' \<or> x = CHR ''X'') \<and>
      (case digit_value d of None \<Rightarrow> False | Some v \<Rightarrow> v < 16))"
| "hex_prefix _ = False"

definition magnitude :: "nat \<Rightarrow> string \<Rightarrow> int" where
  "magnitude base s =
    (if (base = 0 \<or> base = 16) \<and> hex_prefix s then digits 16 (drop 2 s) 0
     else if base = 0 then digits (if take 1 s = ''0'' then 8 else 10) s 0
     else digits base s 0)"

definition clamp_long :: "int \<Rightarrow> int" where
  "clamp_long n = max (- (2 ^ 63)) (min (2 ^ 63 - 1) n)"

text \<open>\<open>strtol (s, NULL, base)\<close>, with the 64-bit \<open>long\<close> of the platform, and \<open>atoi\<close>.\<close>

definition strtol :: "string \<Rightarrow> nat \<Rightarrow> int" where
  "strtol s base =
    (let t = dropWhile is_space s in
     clamp_long
       (if take 1 t = ''-'' then - magnitude base (drop 1 t)
        else if take 1 t = ''+'' then magnitude base (drop 1 t)
        else magnitude base t))"

definition atoi :: "string \<Rightarrow> int" where
  "atoi s = sint (word_of_int (strtol s 10) :: word_t)"

text \<open>\<open>strtoul (s, NULL, 16)\<close>: clamped at \<open>ULONG_MAX\<close>, a minus sign negates modulo \<open>2 ^ 64\<close>.\<close>

definition strtoul16 :: "string \<Rightarrow> int" where
  "strtoul16 s =
    (let t = dropWhile is_space s; lim = (\<lambda>n. min (2 ^ 64 - 1) n) in
     if take 1 t = ''-'' then (- lim (magnitude 16 (drop 1 t))) mod 2 ^ 64
     else if take 1 t = ''+'' then lim (magnitude 16 (drop 1 t))
     else lim (magnitude 16 t))"

text \<open>\<open>strtok\<close> called until it returns NULL: the maximal runs of non-delimiters.\<close>

function tokens :: "string \<Rightarrow> string \<Rightarrow> string list" where
  "tokens delims s =
    (let t = dropWhile (\<lambda>c. c \<in> set delims) s in
     if t = [] then []
     else takeWhile (\<lambda>c. c \<notin> set delims) t # tokens delims (dropWhile (\<lambda>c. c \<notin> set delims) t))"
  by pat_completeness auto
termination
proof (relation "measure (\<lambda>(_, s). length s)", simp, goal_cases)
  case (1 delims s t)
  then obtain c cs where t: "t = c # cs" "c \<notin> set delims"
    by (metis dropWhile_eq_Cons_conv neq_Nil_conv)
  have "length t \<le> length s" using 1 by (simp add: length_dropWhile_le)
  moreover have "length (dropWhile (\<lambda>c. c \<notin> set delims) cs) \<le> length cs"
    by (rule length_dropWhile_le)
  ultimately show ?case using t by simp
qed

declare tokens.simps [simp del]

section \<open>Registers and mnemonics\<close>

record instruction_t =
  mnemonic_of :: string
  operand_fields :: "string option list"   \<comment> \<open>the four \<open>char *\<close>, \<open>None\<close> for NULL\<close>

definition operand :: "instruction_t \<Rightarrow> nat \<Rightarrow> c_error + string" where
  "operand inst i =
    bindE (rd (operand_fields inst) i) (\<lambda>f. case f of None \<Rightarrow> Inl NullDereference | Some s \<Rightarrow> Inr s)"

datatype mnemonic =
    M_AND | M_EOR | M_SUB | M_RSB | M_ADD | M_TST | M_TEQ | M_CMP | M_ORR | M_MOV
  | M_MUL | M_MLA | M_LDR | M_STR | M_BEQ | M_BNE | M_BGE | M_BLT | M_BGT | M_BLE | M_B
  | M_LSL | M_ANDEQ

text \<open>The enumerators' values: given for the data processing opcodes, counting on after \<open>MOV\<close>.\<close>

fun mnemonic_code :: "mnemonic \<Rightarrow> nat" where
  "mnemonic_code M_AND = 0" | "mnemonic_code M_EOR = 1" | "mnemonic_code M_SUB = 2"
| "mnemonic_code M_RSB = 3" | "mnemonic_code M_ADD = 4" | "mnemonic_code M_TST = 8"
| "mnemonic_code M_TEQ = 9" | "mnemonic_code M_CMP = 10" | "mnemonic_code M_ORR = 12"
| "mnemonic_code M_MOV = 13" | "mnemonic_code M_MUL = 14" | "mnemonic_code M_MLA = 15"
| "mnemonic_code M_LDR = 16" | "mnemonic_code M_STR = 17" | "mnemonic_code M_BEQ = 18"
| "mnemonic_code M_BNE = 19" | "mnemonic_code M_BGE = 20" | "mnemonic_code M_BLT = 21"
| "mnemonic_code M_BGT = 22" | "mnemonic_code M_BLE = 23" | "mnemonic_code M_B = 24"
| "mnemonic_code M_LSL = 25" | "mnemonic_code M_ANDEQ = 26"

definition get_Register :: "string \<Rightarrow> c_error + byte_t" where
  "get_Register s =
    (if take 1 s = ''r'' then Inr (word_of_int (strtol (drop 1 s) 10)) else Inl AssertFailed)"

definition get_Mnemonic :: "string \<Rightarrow> c_error + mnemonic" where
  "get_Mnemonic m =
    (if m = ''add'' then Inr M_ADD else if m = ''sub'' then Inr M_SUB
     else if m = ''rsb'' then Inr M_RSB else if m = ''and'' then Inr M_AND
     else if m = ''eor'' then Inr M_EOR else if m = ''orr'' then Inr M_ORR
     else if m = ''mov'' then Inr M_MOV else if m = ''tst'' then Inr M_TST
     else if m = ''teq'' then Inr M_TEQ else if m = ''cmp'' then Inr M_CMP
     else if m = ''mul'' then Inr M_MUL else if m = ''mla'' then Inr M_MLA
     else if m = ''ldr'' then Inr M_LDR else if m = ''str'' then Inr M_STR
     else if m = ''beq'' then Inr M_BEQ else if m = ''bne'' then Inr M_BNE
     else if m = ''bge'' then Inr M_BGE else if m = ''bgt'' then Inr M_BGT
     else if m = ''ble'' then Inr M_BLE else if m = ''blt'' then Inr M_BLT
     else if m = ''b'' then Inr M_B else if m = ''lsl'' then Inr M_LSL
     else if m = ''andeq'' then Inr M_ANDEQ else Inl ExitFailure)"

definition write_to_file :: "byte_t \<Rightarrow> byte_t \<Rightarrow> byte_t \<Rightarrow> byte_t \<Rightarrow> byte_t list" where
  "write_to_file firstByte secondByte thirdByte fourthByte =
     [fourthByte, thirdByte, secondByte, firstByte]"

text \<open>\<open>get_Nth_byte\<close> and \<open>write_word\<close>, which two modules define alike.\<close>

definition get_Nth_byte :: "nat \<Rightarrow> word_t \<Rightarrow> byte_t" where
  "get_Nth_byte n w = ucast (drop_bit ((4 - n) * 8) w)"

definition write_word :: "word_t \<Rightarrow> byte_t list" where
  "write_word w = [get_Nth_byte 4 w, get_Nth_byte 3 w, get_Nth_byte 2 w, get_Nth_byte 1 w]"

lemma write_word_eq: "write_word w = word_bytes w"
  by (simp add: write_word_def get_Nth_byte_def word_bytes_def)

section \<open>Register names\<close>

definition register_names :: "string list" where
  "register_names = [''r0'', ''r1'', ''r2'', ''r3'', ''r4'', ''r5'', ''r6'', ''r7'', ''r8'', ''r9'',
     ''r10'', ''r11'', ''r12'', ''r13'', ''r14'', ''r15'']"

lemmas strtol_eval = strtol_def magnitude_def clamp_long_def digit_value_def is_space_def Let_def

lemma get_Register_names:
  "\<forall>i \<in> {..<16}. get_Register (register_names ! i) = Inr (of_nat i)"
  by code_simp

end
