(* ===== verification/Asm_Encode.thy ===== *)
theory Asm_Encode
  imports Asm_Defs Arm_Emulate
begin

unbundle bit_operations_syntax

text \<open>
  The instruction encoders of the assembler: \<open>assembler/data_processing/data_processing.c\<close>,
  \<open>assembler/multiply/multiply.c\<close>, \<open>assembler/special/special.c\<close>,
  \<open>assembler/branch/branch.c\<close> with \<open>assembler/symbol_table/symbol_table.c\<close>. Each encoder returns
  the bytes it writes to the output file. The lemmas relate them to the emulator's decoders:
  what the assembler encodes, \<open>emulate.c\<close> reads back.
\<close>

section \<open>Data processing\<close>

text \<open>The loop of \<open>int_to_operand2\<close>: \<open>- 1\<close> after its message, \<open>exit\<close> when 16 rotations fail.\<close>

function int_to_operand2_loop :: "nat \<Rightarrow> word_t \<Rightarrow> word_t \<Rightarrow> c_error + word_t" where
  "int_to_operand2_loop i cur immediate =
    (if i < 16 then
       if drop_bit 8 immediate \<noteq> 0 then Inr (- 1)
       else if cur = 0 then Inr (immediate OR push_bit 8 (of_nat i))
       else int_to_operand2_loop (Suc i) (push_bit 2 cur) (push_bit 2 immediate OR drop_bit 30 cur)
     else Inl ExitFailure)"
  by pat_completeness auto
termination by (relation "measure (\<lambda>(i, _). 16 - i)") auto

declare int_to_operand2_loop.simps [simp del]

definition int_to_operand2 :: "word_t \<Rightarrow> c_error + word_t" where
  "int_to_operand2 val = int_to_operand2_loop 0 (val AND NOT 255) (val AND 255)"

definition get_shift :: "string \<Rightarrow> byte_t" where
  "get_shift op2 =
    (if op2 = ''lsl'' then 1 else if op2 = ''lsr'' then 2 else if op2 = ''asr'' then 3
     else if op2 = ''ror'' then 4 else 0)"

text \<open>
  The scan for the last operand: it stops at NULL, or at a field that is neither a register nor
  an immediate (a shift), whose predecessor is \<open>Rm\<close>. The loop tests \<open>operand_fields[i]\<close> before
  \<open>i < 4\<close>, so four fields make it read past the array.
\<close>

function operand2_scan :: "string option list \<Rightarrow> nat \<Rightarrow> string \<Rightarrow> c_error + (string \<times> byte_t)" where
  "operand2_scan flds i op2 =
    (if i < length flds then
       case flds ! i of
         None \<Rightarrow> Inr (op2, 0)
       | Some s \<Rightarrow>
           if take 1 s \<noteq> ''r'' \<and> take 1 s \<noteq> ''#'' then
             (case flds ! (i - 1) of
                None \<Rightarrow> Inl NullDereference
              | Some p \<Rightarrow> bindE (get_Register p) (\<lambda>Rm. Inr (s, Rm)))
           else operand2_scan flds (Suc i) s
     else Inl OutOfBounds)"
  by pat_completeness auto
termination by (relation "measure (\<lambda>(flds, i, _). length flds - i)") auto

declare operand2_scan.simps [simp del]

text \<open>\<open>strtok (op2, " ")\<close> also cuts \<open>op2\<close> behind its first token: what \<open>op2\<close> still points to is the
  leading spaces and this token.\<close>

definition get_Operand2_asm :: "instruction_t \<Rightarrow> c_error + word_t" where
  "get_Operand2_asm inst =
    bindE (operand inst 0) (\<lambda>op0.
    bindE (operand2_scan (operand_fields inst) 1 op0) (\<lambda>(op2, Rm).
      case tokens '' '' op2 of
        [] \<Rightarrow> Inl NullDereference
      | shift # rest \<Rightarrow>
          let shift_type = get_shift shift in
          if take 1 op2 = ''#'' then
            bindE (int_to_operand2 (word_of_int (strtol (drop 1 shift) 0))) (\<lambda>v.
              Inr (push_bit 12 1 OR v))
          else if shift_type \<noteq> 0 then
            (case rest of
               [] \<Rightarrow> Inl NullDereference
             | amount # _ \<Rightarrow>
                 if take 1 amount = ''r'' then
                   bindE (get_Register amount) (\<lambda>Rs.
                     Inr (push_bit 8 (ucast Rs) OR push_bit 5 (ucast (shift_type - 1)) OR
                          push_bit 4 1 OR ucast Rm))
                 else Inr (push_bit 7 (word_of_int (strtol (drop 1 amount) 0)) OR
                           push_bit 5 (ucast (shift_type - 1)) OR ucast Rm))
          else bindE (get_Register (takeWhile (\<lambda>c. c = CHR '' '') op2 @ shift)) (\<lambda>r. Inr (ucast r))))"

definition write_instruction :: "byte_t \<Rightarrow> byte_t \<Rightarrow> byte_t \<Rightarrow> byte_t \<Rightarrow> byte_t \<Rightarrow> word_t \<Rightarrow> byte_t list" where
  "write_instruction I opCode S Rn Rd operand2 =
    write_to_file (0xe0 OR push_bit 1 I OR drop_bit 3 opCode)
      (push_bit 5 opCode OR push_bit 4 S OR Rn)
      (push_bit 4 Rd OR ucast (drop_bit 8 operand2 AND 15))
      (ucast operand2)"

definition mov_instruction :: "instruction_t \<Rightarrow> byte_t \<Rightarrow> c_error + byte_t list" where
  "mov_instruction inst opCode =
    bindE (bindE (operand inst 0) get_Register) (\<lambda>Rd.
    bindE (get_Operand2_asm inst) (\<lambda>operand2.
      Inr (write_instruction (ucast (drop_bit 12 operand2)) opCode 0 0 Rd operand2)))"

definition compute_instruction :: "instruction_t \<Rightarrow> byte_t \<Rightarrow> c_error + byte_t list" where
  "compute_instruction inst opCode =
    bindE (bindE (operand inst 0) get_Register) (\<lambda>Rd.
    bindE (bindE (operand inst 1) get_Register) (\<lambda>Rn.
    bindE (get_Operand2_asm inst) (\<lambda>operand2.
      Inr (write_instruction (ucast (drop_bit 12 operand2)) opCode 0 Rn Rd operand2))))"

definition cpsr_instruction :: "instruction_t \<Rightarrow> byte_t \<Rightarrow> c_error + byte_t list" where
  "cpsr_instruction inst opCode =
    bindE (bindE (operand inst 0) get_Register) (\<lambda>Rn.
    bindE (get_Operand2_asm inst) (\<lambda>operand2.
      Inr (write_instruction (ucast (drop_bit 12 operand2)) opCode 1 Rn 0 operand2)))"

definition assemble_data_processing :: "instruction_t \<Rightarrow> c_error + byte_t list" where
  "assemble_data_processing inst =
    bindE (get_Mnemonic (mnemonic_of inst)) (\<lambda>mn.
      let m = of_nat (mnemonic_code mn) in
      if mn = M_MOV then mov_instruction inst m
      else if mn = M_TST \<or> mn = M_TEQ \<or> mn = M_CMP then cpsr_instruction inst m
      else compute_instruction inst m)"

section \<open>Multiply and \<open>andeq\<close>\<close>

definition assemble_multiply :: "instruction_t \<Rightarrow> c_error + byte_t list" where
  "assemble_multiply inst =
    bindE (bindE (operand inst 0) get_Register) (\<lambda>Rd.
    bindE (bindE (operand inst 1) get_Register) (\<lambda>Rm.
    bindE (bindE (operand inst 2) get_Register) (\<lambda>Rs.
      let fourthByte = 0x90 OR Rm in
      if mnemonic_of inst = ''mla'' then
        bindE (bindE (operand inst 3) get_Register) (\<lambda>Rn.
          Inr (write_to_file 0xe0 (Rd OR 0x20) (Rs OR push_bit 4 Rn) fourthByte))
      else Inr (write_to_file 0xe0 Rd Rs fourthByte))))"

definition assemble_andeq :: "byte_t list" where
  "assemble_andeq = write_to_file 0 0 0 0"

section \<open>The symbol table\<close>

text \<open>
  The singly linked list after the dummy \<open>head\<close>, in order. \<open>add_entry\<close> copies a label without
  its terminating NUL; what the buffer reads as is the label followed by whatever \<open>malloc\<close> left
  behind it, the argument \<open>tail\<close> (empty when the block is followed by a zero byte). The dummy
  comes from \<open>malloc\<close> and its \<open>next\<close> is never set: \<open>head_next\<close> is the list that the stale pointer
  leads to, empty when the block happens to be zeroed.
\<close>

record symbol_table_t =
  size :: nat
  entries :: "(string \<times> int) list"

definition symbol_table_init :: "(string \<times> int) list \<Rightarrow> symbol_table_t" where
  "symbol_table_init head_next = \<lparr>size = 0, entries = head_next\<rparr>"

definition add_entry :: "string \<Rightarrow> symbol_table_t \<Rightarrow> string \<Rightarrow> int \<Rightarrow> bool \<times> symbol_table_t" where
  "add_entry tail table label address =
    (let label_str = label @ tail in
     if \<exists>e \<in> set (entries table). take (length label_str) (fst e) = label_str
     then (False, table)
     else (True, \<lparr>size = size table + 1, entries = entries table @ [(label_str, address)]\<rparr>))"

definition get_address :: "symbol_table_t \<Rightarrow> string \<Rightarrow> c_error + int" where
  "get_address table label =
    (if size table = 0 then Inl ExitFailure
     else case find (\<lambda>e. fst e = label) (entries table) of
       None \<Rightarrow> Inl ExitFailure
     | Some e \<Rightarrow> Inr (snd e))"

section \<open>Branch\<close>

definition get_branch_instruction_template :: word_t where
  "get_branch_instruction_template = push_bit 25 5"

text \<open>The character after the end of the mnemonic is its NUL.\<close>

definition get_cond :: "string \<Rightarrow> c_error + nibble_t" where
  "get_cond mn =
    (if take 1 mn \<noteq> ''b'' then Inl AssertFailed
     else if length mn = 1 then Inr 14
     else
       let first_letter = mn ! 1;
           second_letter = (if 2 < length mn then mn ! 2 else CHR 0x00)
       in if first_letter = CHR ''e'' then Inr 0
          else if first_letter = CHR ''n'' then Inr 1
          else if first_letter = CHR ''g'' then
            (if second_letter = CHR ''e'' then Inr 10 else Inr 12)
          else if first_letter = CHR ''l'' then
            (if second_letter = CHR ''e'' then Inr 13 else Inr 11)
          else Inr 14)"

definition set_cond :: "word_t \<Rightarrow> nibble_t \<Rightarrow> word_t" where
  "set_cond instr cond = instr OR push_bit 28 (ucast cond)"

definition compute_offset :: "int \<Rightarrow> word_t" where
  "compute_offset offset =
    (if 0 \<le> offset then word_of_int (offset div 4)
     else drop_bit 2 (push_bit 25 1 OR word_of_int (offset + 2 ^ 25)))"

definition set_offset_branch :: "word_t \<Rightarrow> word_t \<Rightarrow> word_t" where
  "set_offset_branch instr offset = instr OR offset"

definition assemble_branch :: "instruction_t \<Rightarrow> symbol_table_t \<Rightarrow> int \<Rightarrow> c_error + byte_t list" where
  "assemble_branch inst table current_address =
    bindE (operand inst 0) (\<lambda>label.
    bindE (get_cond (mnemonic_of inst)) (\<lambda>cond.
    bindE (get_address table label) (\<lambda>destination_address.
      let binary_instruction = set_cond get_branch_instruction_template cond;
          offset_32_bits = destination_address - current_address - 8;
          offset_24_bits = compute_offset offset_32_bits
      in Inr (write_word (set_offset_branch binary_instruction offset_24_bits)))))"

section \<open>Immediate operands, there and back\<close>

lemma word_rotl_2_small:
  assumes "drop_bit 8 imm = 0"
  shows "word_rotl 2 (cur OR imm) = push_bit 2 cur OR (push_bit 2 imm OR drop_bit 30 (cur :: word_t))"
proof (rule bit_word_eqI)
  fix n assume n: "n < LENGTH(32)"
  have imm: "\<not> bit imm k" if "8 \<le> k" for k
  proof -
    have "\<not> bit (drop_bit 8 imm) (k - 8)" using assms by simp
    then show ?thesis using that by (simp add: bit_simps)
  qed
  consider "n < 2" | "2 \<le> n" by linarith
  then show "bit (word_rotl 2 (cur OR imm)) n =
      bit (push_bit 2 cur OR (push_bit 2 imm OR drop_bit 30 cur)) n"
  proof cases
    case 1
    then have "(n + 30) mod 32 = n + 30" by simp
    with 1 n imm show ?thesis by (auto simp: bit_simps word_rotl_eq_word_rotr add.commute)
  next
    case 2
    then have "(n + 30) mod 32 = n - 2" using n by (simp add: le_mod_geq)
    moreover have "\<not> bit cur (30 + n)" using 2 by (auto dest: bit_imp_le_length)
    ultimately show ?thesis using 2 n by (auto simp: bit_simps word_rotl_eq_word_rotr add.commute)
  qed
qed

lemma word_rotr_0' [simp]: "word_rotr 0 (w :: word_t) = w"
  by (rule bit_word_eqI) (simp add: bit_word_rotr_iff)

lemma word_rotl_0' [simp]: "word_rotl 0 (w :: word_t) = w"
  using word_rot_rl [of 0 w] by simp

lemma word_rotl_add: "word_rotl (m + n) (w :: word_t) = word_rotl m (word_rotl n w)"
proof -
  have "word_rotr (m + n) (word_rotl m (word_rotl n w)) = w"
    by (simp add: add.commute [of m] flip: word_rotr_word_rotr_eq)
  then show ?thesis by (metis word_rot_rl)
qed

lemma int_to_operand2_loop_rot:
  assumes "int_to_operand2_loop i cur imm = Inr r" "r \<noteq> - 1" "cur OR imm = word_rotl (2 * i) v"
  shows "\<exists>j b. j < 16 \<and> drop_bit 8 b = 0 \<and> r = b OR push_bit 8 (of_nat j) \<and> word_rotl (2 * j) v = b"
  using assms
proof (induction i cur imm rule: int_to_operand2_loop.induct)
  case (1 i cur imm)
  have i: "i < 16" and imm: "drop_bit 8 imm = 0"
    using "1.prems"(1,2) by (auto simp: int_to_operand2_loop.simps [of i] split: if_splits)
  show ?case
  proof (cases "cur = 0")
    case True
    then show ?thesis using "1.prems" i imm
      by (intro exI [of _ i] exI [of _ imm]) (simp add: int_to_operand2_loop.simps [of i])
  next
    case False
    have "word_rotl (2 * Suc i) v = word_rotl 2 (word_rotl (2 * i) v)"
      using word_rotl_add [of 2 "2 * i" v] by simp
    also have "\<dots> = push_bit 2 cur OR (push_bit 2 imm OR drop_bit 30 cur)"
      using word_rotl_2_small [OF imm] "1.prems"(3) by metis
    finally show ?thesis
      using "1.IH" i imm False "1.prems" by (simp add: int_to_operand2_loop.simps [of i])
  qed
qed

lemma int_to_operand2_rot:
  assumes "int_to_operand2 v = Inr r" "r \<noteq> - 1"
  obtains j b where "j < 16" "drop_bit 8 b = 0" "r = b OR push_bit 8 (of_nat j)"
    "v = word_rotr (2 * j) b"
proof -
  have "(v AND NOT 255) OR (v AND 255) = v"
    by (rule bit_word_eqI) (auto simp: bit_simps)
  then obtain j b where "j < 16" "drop_bit 8 b = 0" "r = b OR push_bit 8 (of_nat j)"
    "word_rotl (2 * j) v = b"
    using int_to_operand2_loop_rot [of 0 "v AND NOT 255" "v AND 255" r v] assms
    unfolding int_to_operand2_def by auto
  then show thesis using that by (metis word_rot_lr word_rot_rl)
qed

lemma rotated_immediate_rot:
  assumes "j < 16" "x AND 15 = of_nat j"
  shows "\<exists>c'. rotated_immediate x b c = Inr (word_rotr (2 * j) (ucast b), c')"
proof -
  have r: "unat (push_bit 1 (of_nat j :: byte_t)) = 2 * j"
    using assms(1) by (simp add: unat_of_nat take_bit_nat_eq_self unat_word_ariths)
  show ?thesis
  proof (cases "j = 0")
    case True
    then show ?thesis using assms by (simp add: rotated_immediate_def)
  next
    case False
    then show ?thesis
      using assms r shifter_ror [of "push_bit 1 (of_nat j)"]
      by (simp add: rotated_immediate_def Let_def)
  qed
qed

section \<open>Instruction fields, there and back\<close>

lemma byte_eqI:
  assumes "\<And>n. n \<in> {0, 1, 2, 3, 4, 5, 6, 7} \<Longrightarrow> bit (x :: byte_t) n = bit y n"
  shows "x = y"
proof (rule bit_word_eqI)
  fix n assume "n < LENGTH(8)"
  then have "n \<in> {0, 1, 2, 3, 4, 5, 6, 7}" by auto
  then show "bit x n = bit y n" by (rule assms)
qed

lemma small_bits:
  assumes "unat (x :: byte_t) < 2 ^ k" "k \<le> n"
  shows "\<not> bit x n"
proof -
  have "take_bit k x = x"
    using assms(1) by (simp add: word_unat_eq_iff unsigned_take_bit_eq take_bit_nat_eq_self)
  then have "bit x n = bit (take_bit k x) n" by simp
  then show ?thesis using assms(2) by (simp add: bit_take_bit_iff)
qed

lemma byte_high_bits: "\<not> bit (x :: byte_t) 8" "\<not> bit x 9"
    "\<not> bit x 10" "\<not> bit x 11" "\<not> bit x 12" "\<not> bit x 13" "\<not> bit x 14"
  by (auto dest: bit_imp_le_length)

lemma bit_times_2: "bit (x * 2 :: byte_t) n \<longleftrightarrow> 0 < n \<and> n < 8 \<and> bit x (n - 1)"
  using bit_double_iff [of x n] by (auto simp: mult.commute)

lemma nibble_bits:
  "unat (x :: byte_t) < 16 \<Longrightarrow> \<not> bit x 4" "unat x < 16 \<Longrightarrow> \<not> bit x 5"
  "unat x < 16 \<Longrightarrow> \<not> bit x 6" "unat x < 16 \<Longrightarrow> \<not> bit x 7"
  using small_bits [of x 4] by auto

lemma flag_bits:
  assumes "unat (x :: byte_t) < 2"
  shows "\<not> bit x (Suc 0)" "\<not> bit x (Suc (Suc 0))" "\<not> bit x 2" "\<not> bit x 3" "\<not> bit x 4" "\<not> bit x 5" "\<not> bit x 6" "\<not> bit x 7"
  using assms small_bits [of x 1] by auto

text \<open>What the emulator reads out of an instruction that \<open>write_instruction\<close> wrote.\<close>

lemma write_instruction_decodes:
  assumes "unat I < 2" "unat opc < 16" "unat S < 2" "unat Rn < 16" "unat Rd < 16"
    and "write_instruction I opc S Rn Rd operand2 = [b3, b2, b1, b0]"
  shows "getCond b0 = 14" "get_immediate_operand b0 = I" "get_OpCode b0 b1 = opc" "get_S b1 = S"
    "get_Rn b1 = Rn" "get_Rd b2 = Rd" "b2 AND 15 = ucast (drop_bit 8 operand2 AND 15)"
    "b3 = ucast operand2" "drop_bit 2 b0 AND 3 = 0" "I = 1 \<Longrightarrow> b0 AND 3 \<noteq> 0"
proof -
  note bits = flag_bits [OF assms(1)] nibble_bits [OF assms(2)] flag_bits [OF assms(3)]
    nibble_bits [OF assms(4)] nibble_bits [OF assms(5)]
  have b: "b0 = 0xe0 OR push_bit 1 I OR drop_bit 3 opc" "b1 = push_bit 5 opc OR push_bit 4 S OR Rn"
    "b2 = push_bit 4 Rd OR ucast (drop_bit 8 operand2 AND 15)" "b3 = ucast operand2"
    using assms(6) by (simp_all add: write_instruction_def write_to_file_def)
  show "getCond b0 = 14"
    by (rule byte_eqI) (auto simp: b bits bit_times_2 byte_high_bits getCond_def bit_simps)
  show "get_immediate_operand b0 = I"
    by (rule byte_eqI) (auto simp: b bits bit_times_2 byte_high_bits get_immediate_operand_def bit_simps)
  show "get_OpCode b0 b1 = opc"
    by (rule byte_eqI) (auto simp: b bits bit_times_2 byte_high_bits get_OpCode_def bit_simps)
  show "get_S b1 = S"
    by (rule byte_eqI) (auto simp: b bits bit_times_2 byte_high_bits get_S_def get_First_Nibble_def bit_simps)
  show "get_Rn b1 = Rn"
    by (rule byte_eqI) (auto simp: b bits bit_times_2 byte_high_bits get_Rn_def bit_simps)
  show "get_Rd b2 = Rd"
    by (rule byte_eqI) (auto simp: b bits bit_times_2 byte_high_bits get_Rd_def bit_simps)
  show "b2 AND 15 = ucast (drop_bit 8 operand2 AND 15)"
    by (rule byte_eqI) (auto simp: b bits bit_times_2 byte_high_bits bit_simps)
  show "b3 = ucast operand2" using b by simp
  show "drop_bit 2 b0 AND 3 = 0"
    by (rule byte_eqI) (auto simp: b bits bit_times_2 byte_high_bits bit_simps)
  show "b0 AND 3 \<noteq> 0" if "I = 1"
  proof -
    have "bit (b0 AND 3) 1" using that by (simp add: b bit_times_2 bit_simps)
    then show ?thesis by auto
  qed
qed

section \<open>Branch offsets, there and back\<close>

text \<open>\<open>offset_fits\<close>: the displacement is representable in 26 bits and word aligned.\<close>

definition offset_fits :: "int \<Rightarrow> bool" where
  "offset_fits off \<longleftrightarrow> - (2 ^ 25) \<le> off \<and> off < 2 ^ 25 \<and> off mod 4 = 0"

lemma offset_fits_bits:
  assumes "offset_fits off"
  shows "25 \<le> n \<Longrightarrow> bit off n \<longleftrightarrow> off < 0" and "n < 2 \<Longrightarrow> \<not> bit off n"
proof -
  have "signed_take_bit 25 off = off"
    using assms by (intro signed_take_bit_int_eq_self) (simp_all add: offset_fits_def)
  then have stb: "bit off n = bit (signed_take_bit 25 off) n" for n by simp
  have hi: "bit off n \<longleftrightarrow> bit off 25" if "25 \<le> n" for n
    using that by (subst stb) (simp add: bit_signed_take_bit_iff min_def)
  have "off < 0 \<longleftrightarrow> bit off 25"
    using \<open>signed_take_bit 25 off = off\<close> signed_take_bit_negative_iff [of 25 off] by simp
  then show "25 \<le> n \<Longrightarrow> bit off n \<longleftrightarrow> off < 0" using hi by blast
  have "take_bit 2 off = 0" using assms by (simp add: offset_fits_def take_bit_eq_mod)
  then have "\<not> bit (take_bit 2 off) n" by simp
  then show "n < 2 \<Longrightarrow> \<not> bit off n" by (simp only: bit_take_bit_iff) simp
qed

lemma bit_compute_offset:
  assumes "offset_fits off" "n < 32"
  shows "bit (compute_offset off) n \<longleftrightarrow> n < 24 \<and> bit off (n + 2)"
proof (cases "0 \<le> off")
  case True
  have "off div 4 = drop_bit 2 off" by (simp add: drop_bit_eq_div)
  then have "bit (compute_offset off) n \<longleftrightarrow> bit off (n + 2)"
    using True assms(2) by (simp add: compute_offset_def bit_word_of_int_iff bit_drop_bit_eq add.commute)
  then show ?thesis
    using True offset_fits_bits(1) [OF assms(1), of "n + 2"] by (cases "n < 24") auto
next
  case False
  then have neg: "off < 0" by simp
  define k where "k = off + 2 ^ 25"
  have k: "0 \<le> k" "k < 2 ^ 25" using assms(1) neg by (auto simp: offset_fits_def k_def)
  have tk: "take_bit 25 k = k" using k by (simp add: take_bit_int_eq_self)
  have "take_bit 25 k = take_bit 25 off"
    unfolding k_def by (simp only: take_bit_eq_mod) simp
  then have kb: "bit k m \<longleftrightarrow> m < 25 \<and> bit off m" for m
    using tk by (metis bit_take_bit_iff)
  have "compute_offset off = drop_bit 2 (push_bit 25 1 OR word_of_int k)"
    using False by (simp only: compute_offset_def k_def if_False)
  then have "bit (compute_offset off) n \<longleftrightarrow> n + 2 < 32 \<and> (n + 2 = 25 \<or> bit k (n + 2))"
    by (auto simp: bit_drop_bit_eq bit_or_iff bit_push_bit_1 bit_word_of_int_iff add.commute
        simp del: push_bit_of_1)
  then show ?thesis
    using kb [of "n + 2"] offset_fits_bits(1) [OF assms(1), of "n + 2"] neg assms(2)
    by (cases "n = 23") auto
qed

lemma write_word_bytes: "write_word w = [b3, b2, b1, b0] \<Longrightarrow> bytes_word b3 b2 b1 b0 = w"
  by (auto simp: write_word_eq word_bytes_def)

lemma branch_word_fields:
  assumes "offset_fits off" "unat cond < 16"
    and "write_word (set_offset_branch (set_cond get_branch_instruction_template cond)
           (compute_offset off)) = [b3, b2, b1, b0]"
  shows "push_bit 2 (scast (branch_field [b0, b1, b2, b3])) = (word_of_int off :: word_t)"
    and "decode [b0, b1, b2, b3] = Branch" and "getCond b0 = cond"
proof -
  let ?w = "set_offset_branch (set_cond get_branch_instruction_template cond) (compute_offset off)"
  have bytes: "bytes_word b3 b2 b1 b0 = ?w"
    by (rule write_word_bytes [OF assms(3)])
  have template: "get_branch_instruction_template = push_bit 25 1 OR push_bit 27 1"
    by (simp add: get_branch_instruction_template_def)
  have w: "bit ?w n \<longleftrightarrow> (if n < 24 then bit off (n + 2) else if n < 28 then n = 25 \<or> n = 27
      else bit cond (n - 28))" if "n < 32" for n
    using that bit_compute_offset [OF assms(1) that]
    by (auto simp: set_offset_branch_def set_cond_def template bit_or_iff bit_push_bit_1
        bit_push_bit_iff [of _ "ucast _"] bit_unsigned_iff simp del: push_bit_of_1)
  have field: "bit (branch_field [b0, b1, b2, b3]) n \<longleftrightarrow> n < 24 \<and> bit off (n + 2)" for n
  proof -
    have "bit (branch_field [b0, b1, b2, b3]) n \<longleftrightarrow> n < 24 \<and> bit (bytes_word b3 b2 b1 b0) n"
      by (auto simp: branch_field_def get_offset_branch_eq bit_bytes_word bit_simps)
    then show ?thesis using w [of n] by (auto simp: bytes)
  qed
  show "push_bit 2 (scast (branch_field [b0, b1, b2, b3])) = (word_of_int off :: word_t)"
  proof (rule bit_word_eqI)
    fix n assume n: "n < LENGTH(32)"
    have ss: "Suc (Suc (n - 2)) = n" if "2 \<le> n" using that by simp
    show "bit (push_bit 2 (scast (branch_field [b0, b1, b2, b3])) :: word_t) n =
        bit (word_of_int off :: word_t) n"
      using n offset_fits_bits [OF assms(1)]
      by (cases "n < 2"; cases "n \<le> 25")
        (auto simp: bit_push_bit_iff bit_signed_iff field bit_word_of_int_iff min_def not_less ss)
  qed
  have top: "bit b0 n \<longleftrightarrow> (if n < 4 then n = 1 \<or> n = 3 else bit cond (n - 4))" if "n < 8" for n
  proof -
    have "bit b0 n = bit (bytes_word b3 b2 b1 b0) (n + 24)"
      using that by (simp add: bit_bytes_word)
    then show ?thesis using w [of "n + 24"] that by (auto simp: bytes)
  qed
  have "drop_bit 2 b0 AND 3 = 2"
    by (rule byte_eqI) (auto simp: bit_simps top byte_high_bits)
  then show "decode [b0, b1, b2, b3] = Branch"
    by (simp add: decode_def)
  show "getCond b0 = cond"
    by (rule byte_eqI)
      (auto simp: getCond_def bit_simps top byte_high_bits nibble_bits [OF assms(2)])
qed

end
