(* ===== verification/Asm_Main.thy ===== *)
theory Asm_Main
  imports Asm_Encode
begin

unbundle bit_operations_syntax

text \<open>
  The rest of the assembler: \<open>assembler/single_data_transfer/single_data_transfer.c\<close> and the two
  passes of \<open>assemble.c\<close>. What the C standard leaves open but the output depends on is the record
  \<open>c_env\<close>: the characters found after a buffer that was never terminated (\<open>label_tail\<close> after a
  copied label or address, \<open>digit_tail\<close> after the local \<open>register_digit\<close>), the entries that the
  \<open>next\<close> of the symbol table's head leads to, which is never set (\<open>head_next\<close>), and how many bytes
  \<open>malloc\<close> really makes usable. The state of the second pass is the output file, the memory for
  constants appended at its end, and the counter \<open>num_appended\<close>, which the code never
  initialises: its start value is an argument.
\<close>

record c_env =
  label_tail :: string
  digit_tail :: string
  usable :: "nat \<Rightarrow> nat"
  head_next :: "(string \<times> int) list"

record asm_state =
  out_file :: "byte_t list"
  appended_memory :: "byte_t list"
  num_appended :: int

section \<open>Single data transfer\<close>

definition get_sdt_instruction_template :: word_t where
  "get_sdt_instruction_template = push_bit 26 1"

definition is_ldr_instruction :: "string \<Rightarrow> bool" where
  "is_ldr_instruction mn = (mn = ''ldr'')"

definition set_Nth_bit :: "nat \<Rightarrow> word_t \<Rightarrow> word_t" where
  "set_Nth_bit n w = w OR push_bit n 1"

definition set_cond_sdt :: "word_t \<Rightarrow> word_t" where "set_cond_sdt w = w OR push_bit 28 14"
definition set_Rd :: "byte_t \<Rightarrow> word_t \<Rightarrow> word_t" where "set_Rd r w = w OR push_bit 12 (ucast r)"
definition set_Rn :: "int \<Rightarrow> word_t \<Rightarrow> word_t" where "set_Rn r w = w OR push_bit 16 (word_of_int r)"
definition set_offset_sdt :: "int \<Rightarrow> word_t \<Rightarrow> word_t" where
  "set_offset_sdt off w = w OR word_of_int \<bar>off\<bar>"
definition set_I_bit :: "word_t \<Rightarrow> word_t" where "set_I_bit w = set_Nth_bit 25 w"
definition set_P_bit :: "word_t \<Rightarrow> word_t" where "set_P_bit w = set_Nth_bit 24 w"
definition set_U_bit :: "word_t \<Rightarrow> word_t" where "set_U_bit w = set_Nth_bit 23 w"
definition set_L_bit :: "word_t \<Rightarrow> word_t" where "set_L_bit w = set_Nth_bit 20 w"

lemmas sdt_setters = set_Nth_bit_def set_cond_sdt_def set_Rd_def set_Rn_def set_offset_sdt_def
  set_I_bit_def set_P_bit_def set_U_bit_def set_L_bit_def get_sdt_instruction_template_def

definition is_pre_indexing_address :: "string \<Rightarrow> bool" where
  "is_pre_indexing_address address =
    (address \<noteq> [] \<and> hd address = CHR ''['' \<and> last address = CHR '']'')"

definition is_zero_offset :: "string \<Rightarrow> bool" where
  "is_zero_offset address = (length address = 4 \<or> length address = 5)"

definition is_digit :: "char \<Rightarrow> bool" where
  "is_digit ch = (CHR ''0'' \<le> ch \<and> ch \<le> CHR ''9'')"

text \<open>Scanning for an \<open>r\<close> that is not there runs off the string.\<close>

definition parse_base_register_number :: "c_env \<Rightarrow> string \<Rightarrow> c_error + int" where
  "parse_base_register_number env address =
    (case dropWhile (\<lambda>c. c \<noteq> CHR ''r'') address of
       [] \<Rightarrow> Inl OutOfBounds
     | _ # [] \<Rightarrow> Inl OutOfBounds
     | _ # d # rest \<Rightarrow>
         if rest = [] \<or> \<not> is_digit (hd rest) then Inr (atoi (d # digit_tail env))
         else Inr (atoi (d # hd rest # digit_tail env)))"

definition is_offset_by_expression :: "string \<Rightarrow> bool" where
  "is_offset_by_expression address = (CHR ''#'' \<in> set address)"

definition parse_offset_by_expression :: "string \<Rightarrow> c_error + int" where
  "parse_offset_by_expression address =
    bindE (guardE AssertFailed (is_offset_by_expression address)) (\<lambda>_.
      Inr (atoi (takeWhile (\<lambda>c. is_digit c \<or> c = CHR ''-'')
        (drop 1 (dropWhile (\<lambda>c. c \<noteq> CHR ''#'') address)))))"

definition parse_argument :: "string \<Rightarrow> c_error + word_t" where
  "parse_argument address =
    (if take 1 address \<noteq> ''='' then Inl AssertFailed
     else if length address = 1 then Inl Indeterminate
     else if take 1 (drop 2 address) = ''x'' then Inr (word_of_int (strtoul16 (drop 1 address)))
     else Inr (word_of_int (atoi (drop 1 address))))"

definition get_address_sdt :: "c_env \<Rightarrow> instruction_t \<Rightarrow> c_error + string" where
  "get_address_sdt env inst =
    (let field = (\<lambda>i. case operand_fields inst ! i of None \<Rightarrow> [] | Some s \<Rightarrow> s);
         address = field 1 @ field 2 @ field 3
     in if length (operand_fields inst) < 4 \<or> usable env 20 < length address + 1
        then Inl OutOfBounds else Inr address)"

definition write_to_appended_memory :: "word_t \<Rightarrow> byte_t list \<Rightarrow> c_error + byte_t list" where
  "write_to_appended_memory w mem =
    bindE (wr mem 0 (get_Nth_byte 4 w)) (\<lambda>mem. bindE (wr mem 1 (get_Nth_byte 3 w)) (\<lambda>mem.
    bindE (wr mem 2 (get_Nth_byte 2 w)) (\<lambda>mem. wr mem 3 (get_Nth_byte 1 w))))"

definition emit :: "asm_state \<Rightarrow> byte_t list \<Rightarrow> asm_state" where
  "emit st bs = st\<lparr>out_file := out_file st @ bs\<rparr>"

text \<open>The large constant: a PC-relative load of the word that the first pass's end will hold.\<close>

definition sdt_constant :: "c_env \<Rightarrow> instruction_t \<Rightarrow> string \<Rightarrow> word_t \<Rightarrow> int \<Rightarrow> int \<Rightarrow>
    asm_state \<Rightarrow> c_error + asm_state" where
  "sdt_constant env inst address result current_address end_address st =
    bindE (parse_argument address) (\<lambda>argument.
      if argument \<le> 0xff then
        let altered_address = CHR ''#'' # drop 1 address @ label_tail env
        in bindE (assemble_data_processing
                    \<lparr>mnemonic_of = ''mov'',
                     operand_fields = (operand_fields inst)[1 := Some altered_address]\<rparr>)
             (\<lambda>bs. Inr (emit st bs))
      else
        let w = set_offset_sdt (end_address - current_address - 4)
                  (set_Rn 15 (set_U_bit (set_P_bit result)))
        in bindE (write_to_appended_memory argument (appended_memory st)) (\<lambda>mem.
             Inr ((emit st (write_word w))\<lparr>appended_memory := mem,
                  num_appended := num_appended st + 1\<rparr>)))"

definition sdt_indexed :: "c_env \<Rightarrow> string \<Rightarrow> word_t \<Rightarrow> c_error + word_t" where
  "sdt_indexed env address result =
    bindE (parse_base_register_number env address) (\<lambda>Rn.
      let r1 = set_Rn Rn result;
          r2 = (if is_pre_indexing_address address then set_P_bit r1 else r1)
      in if is_zero_offset address then Inr (set_U_bit r2)
         else if is_offset_by_expression address then
           bindE (parse_offset_by_expression address) (\<lambda>offset.
             Inr (set_offset_sdt offset (if offset > 0 then set_U_bit r2 else r2)))
         else Inr (set_I_bit r2))"

definition assemble_single_data_transfer :: "c_env \<Rightarrow> instruction_t \<Rightarrow> int \<Rightarrow> int \<Rightarrow>
    asm_state \<Rightarrow> c_error + asm_state" where
  "assemble_single_data_transfer env inst current_address end_address st =
    bindE (bindE (operand inst 0) get_Register) (\<lambda>Rd.
    bindE (get_address_sdt env inst) (\<lambda>address.
      let result = set_Rd Rd (set_cond_sdt get_sdt_instruction_template);
          ldr = is_ldr_instruction (mnemonic_of inst);
          result' = (if ldr then set_L_bit result else result)
      in if ldr \<and> take 1 address = ''=''
         then sdt_constant env inst address result' current_address end_address st
         else bindE (sdt_indexed env address result') (\<lambda>w. Inr (emit st (write_word w)))))"

section \<open>First pass\<close>

definition MAX_LINE_LENGTH :: nat where "MAX_LINE_LENGTH = 512"
definition MAX_NUM_INSTRUCTIONS :: nat where "MAX_NUM_INSTRUCTIONS = 16384"

text \<open>\<open>fgets (line, 512, file)\<close>: up to 511 characters, ending after a newline.\<close>

definition fgets :: "string \<Rightarrow> string \<times> string" where
  "fgets s =
    (let body = takeWhile (\<lambda>c. c \<noteq> CHR 0x0A) s;
         n = min (length body + 1) (MAX_LINE_LENGTH - 1)
     in (take n s, drop n s))"

fun operand_tokens :: "string list \<Rightarrow> c_error + string list" where
  "operand_tokens [] = Inr []"
| "operand_tokens (t # ts) =
     (if get_shift t \<noteq> 0 then
        (case ts of
           [] \<Rightarrow> Inl NullDereference
         | u # us \<Rightarrow> bindE (operand_tokens us) (\<lambda>r. Inr ((t @ '' '' @ u) # r)))
      else bindE (operand_tokens ts) (\<lambda>r. Inr (t # r)))"

text \<open>An instruction, two pointers of 8 bytes, is put into a block of the size of one pointer.\<close>

definition parse_instruction :: "c_env \<Rightarrow> string \<Rightarrow> c_error + instruction_t" where
  "parse_instruction env line =
    (case tokens '' ,\<newline>'' line of
       [] \<Rightarrow> Inl NullDereference
     | mn # ts \<Rightarrow> bindE (operand_tokens ts) (\<lambda>ops.
         if 4 < length ops \<or> usable env 8 < 16 then Inl OutOfBounds
         else Inr \<lparr>mnemonic_of = mn,
                   operand_fields = map Some ops @ replicate (4 - length ops) None\<rparr>))"

definition parse_line :: "c_env \<Rightarrow> string \<Rightarrow> int \<Rightarrow> symbol_table_t \<Rightarrow> instruction_t list \<Rightarrow>
    c_error + (symbol_table_t \<times> instruction_t list)" where
  "parse_line env line address table insts =
    (if CHR '':'' \<in> set line then
       (case tokens '':'' line of
          [] \<Rightarrow> Inl NullDereference
        | label # _ \<Rightarrow> Inr (snd (add_entry (label_tail env) table label address), insts))
     else bindE (parse_instruction env line) (\<lambda>inst.
       if MAX_NUM_INSTRUCTIONS \<le> length insts then Inl OutOfBounds
       else Inr (table, insts @ [inst])))"

function parse_first :: "c_env \<Rightarrow> string \<Rightarrow> int \<Rightarrow> symbol_table_t \<Rightarrow> instruction_t list \<Rightarrow>
    c_error + (symbol_table_t \<times> instruction_t list)" where
  "parse_first env file address table insts =
    (if file = [] then Inr (table, insts)
     else bindE (parse_line env (fst (fgets file)) address table insts) (\<lambda>(table', insts').
       parse_first env (snd (fgets file)) (address + 4) table' insts'))"
  by pat_completeness auto
termination
  by (relation "measure (\<lambda>(_, file, _). length file)")
    (auto simp: fgets_def Let_def MAX_LINE_LENGTH_def)

declare parse_first.simps [simp del]

section \<open>Second pass\<close>

definition get_end_address :: "nat \<Rightarrow> int \<Rightarrow> int" where
  "get_end_address num_instructions n_appended = 4 * (int num_instructions + n_appended - 1)"

definition assemble_lsl :: "c_env \<Rightarrow> instruction_t \<Rightarrow> c_error + byte_t list" where
  "assemble_lsl env inst =
    bindE (operand inst 1) (\<lambda>amount.
      if usable env 5 < 5 + length amount then Inl OutOfBounds
      else assemble_data_processing
        \<lparr>mnemonic_of = ''mov'',
         operand_fields = [operand_fields inst ! 0, operand_fields inst ! 0,
                           Some (''lsl '' @ amount), None]\<rparr>)"

definition assemble_instruction :: "c_env \<Rightarrow> symbol_table_t \<Rightarrow> nat \<Rightarrow> instruction_t \<Rightarrow> int \<Rightarrow>
    asm_state \<Rightarrow> c_error + asm_state" where
  "assemble_instruction env table num_instructions inst address st =
    bindE (get_Mnemonic (mnemonic_of inst)) (\<lambda>m.
      if m \<in> {M_ADD, M_SUB, M_RSB, M_AND, M_EOR, M_ORR, M_MOV, M_TST, M_TEQ, M_CMP} then
        bindE (assemble_data_processing inst) (\<lambda>bs. Inr (emit st bs))
      else if m = M_MUL \<or> m = M_MLA then
        bindE (assemble_multiply inst) (\<lambda>bs. Inr (emit st bs))
      else if m = M_LDR \<or> m = M_STR then
        assemble_single_data_transfer env inst address
          (get_end_address num_instructions (num_appended st)) st
      else if m = M_LSL then bindE (assemble_lsl env inst) (\<lambda>bs. Inr (emit st bs))
      else if m = M_ANDEQ then Inr (emit st assemble_andeq)
      else bindE (assemble_branch inst table address) (\<lambda>bs. Inr (emit st bs)))"

fun assemble_all :: "c_env \<Rightarrow> symbol_table_t \<Rightarrow> nat \<Rightarrow> instruction_t list \<Rightarrow> int \<Rightarrow> asm_state \<Rightarrow>
    c_error + asm_state" where
  "assemble_all env table n [] address st = Inr st"
| "assemble_all env table n (inst # insts) address st =
     bindE (assemble_instruction env table n inst address st) (\<lambda>st'.
       assemble_all env table n insts (address + 4) st')"

text \<open>
  The loop that appends the constants: it stops at a word whose first byte is 0. The loop over the
  instructions of \<open>main\<close> looks for a NULL after the last one, which a full array does not hold.
\<close>

function emit_appended :: "byte_t list \<Rightarrow> nat \<Rightarrow> c_error + byte_t list" where
  "emit_appended mem p =
    (if p < length mem then
       if mem ! p = 0 then Inr []
       else if p + 3 < length mem then
         bindE (emit_appended mem (p + 4)) (\<lambda>bs.
           Inr ([mem ! p, mem ! (p + 1), mem ! (p + 2), mem ! (p + 3)] @ bs))
       else Inl OutOfBounds
     else Inl OutOfBounds)"
  by pat_completeness auto
termination by (relation "measure (\<lambda>(mem, p). length mem - p)") auto

declare emit_appended.simps [simp del]

definition assemble :: "c_env \<Rightarrow> byte_t list \<Rightarrow> int \<Rightarrow> string \<Rightarrow> c_error + byte_t list" where
  "assemble env appended0 num_appended0 source =
    bindE (parse_first env source 0 (symbol_table_init (head_next env)) []) (\<lambda>(table, insts).
    bindE (assemble_all env table (length insts) insts 0
             \<lparr>out_file = [], appended_memory = appended0, num_appended = num_appended0\<rparr>) (\<lambda>st.
    bindE (guardE OutOfBounds (length insts < MAX_NUM_INSTRUCTIONS)) (\<lambda>_.
    bindE (emit_appended (appended_memory st) 0) (\<lambda>bs. Inr (out_file st @ bs)))))"

section \<open>The symbol table as a map from labels to addresses\<close>

text \<open>
  What the assembler needs of its table: a label that was entered is found with its address,
  entering another label does not disturb it, a refused label changes nothing.
\<close>

locale label_table =
  fixes add :: "'t \<Rightarrow> string \<Rightarrow> int \<Rightarrow> bool \<times> 't"
    and get :: "'t \<Rightarrow> string \<Rightarrow> c_error + int"
    and inv :: "'t \<Rightarrow> bool"
  assumes inv_add: "inv t \<Longrightarrow> inv (snd (add t l a))"
    and get_added: "inv t \<Longrightarrow> fst (add t l a) \<Longrightarrow> get (snd (add t l a)) l = Inr a"
    and get_kept: "inv t \<Longrightarrow> get t k = Inr b \<Longrightarrow> get (snd (add t l a)) k = Inr b"
    and refused: "\<not> fst (add t l a) \<Longrightarrow> snd (add t l a) = t"
begin

fun add_labels :: "'t \<Rightarrow> (string \<times> int) list \<Rightarrow> 't" where
  "add_labels t [] = t"
| "add_labels t ((l, a) # ls) = add_labels (snd (add t l a)) ls"

lemma inv_add_labels: "inv t \<Longrightarrow> inv (add_labels t ls)"
  by (induction t ls rule: add_labels.induct) (auto intro: inv_add)

lemma get_add_labels: "inv t \<Longrightarrow> get t k = Inr b \<Longrightarrow> get (add_labels t ls) k = Inr b"
  by (induction t ls rule: add_labels.induct) (auto intro: inv_add get_kept)

lemma first_definition_wins:
  assumes "inv t" "fst (add t l a)"
  shows "get (add_labels t ((l, a) # ls)) l = Inr a"
  using assms by (simp add: get_add_labels inv_add get_added)

end

definition symbol_table_inv :: "symbol_table_t \<Rightarrow> bool" where
  "symbol_table_inv t \<longleftrightarrow> size t = length (entries t)"

lemma add_entry_accepted:
  "fst (add_entry [] t l a) \<longleftrightarrow> (\<forall>e \<in> set (entries t). take (length l) (fst e) \<noteq> l)"
  by (auto simp: add_entry_def Let_def)

lemma get_address_append:
  assumes "symbol_table_inv t" "get_address t k = Inr b"
  shows "get_address \<lparr>size = n + 1, entries = entries t @ es\<rparr> k = Inr b"
  using assms by (auto simp: get_address_def find_append split: if_splits option.splits)

lemma find_None_fst: "(\<forall>e \<in> set es. fst e \<noteq> l) \<Longrightarrow> find (\<lambda>e. fst e = l) es = None"
  by (auto simp: find_None_iff)

interpretation symtab: label_table "add_entry []" get_address symbol_table_inv
proof (unfold_locales, goal_cases)
  case (1 t l a)
  then show ?case by (auto simp: add_entry_def symbol_table_inv_def Let_def)
next
  case (2 t l a)
  then have "find (\<lambda>e. fst e = l) (entries t) = None"
    by (intro find_None_fst) (auto simp: add_entry_accepted)
  with 2 show ?case by (auto simp: add_entry_def get_address_def find_append Let_def split: if_splits)
next
  case (3 t k b l a)
  then show ?case by (auto simp: add_entry_def Let_def get_address_append [simplified])
next
  case (4 t l a)
  then show ?case by (auto simp: add_entry_def Let_def split: if_splits)
qed

section \<open>Single data transfer, there and back\<close>

text \<open>The word that the encoder builds from its fields, with \<open>off\<close> below 4096.\<close>

definition sdt_word :: "byte_t \<Rightarrow> nat \<Rightarrow> bool \<Rightarrow> bool \<Rightarrow> bool \<Rightarrow> int \<Rightarrow> word_t" where
  "sdt_word Rd Rn L P U off =
    (let r = set_Rd Rd (set_cond_sdt get_sdt_instruction_template);
         r = (if L then set_L_bit r else r);
         r = set_Rn (int Rn) r;
         r = (if P then set_P_bit r else r);
         r = (if U then set_U_bit r else r)
     in set_offset_sdt off r)"

lemma bit_14_28: "bit (push_bit 28 14 :: word_t) n \<longleftrightarrow> n = 29 \<or> n = 30 \<or> n = 31"
proof -
  have "(push_bit 28 14 :: word_t) = push_bit 29 1 OR push_bit 30 1 OR push_bit 31 1" by simp
  then show ?thesis by (simp only: bit_or_iff bit_push_bit_1) auto
qed

lemma bit_small_word:
  assumes "unat (x :: byte_t) < 16"
  shows "bit (push_bit k (ucast x :: word_t)) n \<longleftrightarrow> k \<le> n \<and> n < k + 4 \<and> n < 32 \<and> bit x (n - k)"
  using small_bits [of x 4 "n - k"] assms
  by (cases "n < k + 4") (auto simp: bit_push_bit_iff bit_unsigned_iff dest: bit_imp_le_length)

lemma bit_sdt_word:
  assumes "unat Rd < 16" "unat Rn < 16" "\<bar>off\<bar> < 4096" "n < 32"
  shows "bit (sdt_word Rd (unat Rn) L P U off) n \<longleftrightarrow>
    (if n < 12 then bit \<bar>off\<bar> n else if n < 16 then bit Rd (n - 12)
     else if n < 20 then bit (Rn :: byte_t) (n - 16) else if n = 20 then L else if n = 23 then U
     else if n = 24 then P else n = 26 \<or> 29 \<le> n)"
proof -
  have rn: "(word_of_int (int (unat Rn)) :: word_t) = ucast Rn" by simp
  have "take_bit 12 \<bar>off\<bar> = \<bar>off\<bar>" using assms(3) by (simp add: take_bit_int_eq_self)
  then have ob: "bit \<bar>off\<bar> n \<longleftrightarrow> n < 12 \<and> bit \<bar>off\<bar> n" by (metis bit_take_bit_iff)
  have ow: "bit (word_of_int \<bar>off\<bar> :: word_t) n \<longleftrightarrow> n < 12 \<and> bit \<bar>off\<bar> n"
    using ob assms(4) by (simp add: bit_word_of_int_iff)
  show ?thesis
    using assms(4)
    by (auto simp: sdt_word_def Let_def sdt_setters rn bit_or_iff bit_push_bit_1 bit_14_28
        bit_small_word [OF assms(1)] bit_small_word [OF assms(2)] ow
        simp del: push_bit_of_1 push_bit_numeral of_int_of_nat_eq)
qed

lemma sdt_word_bytes:
  assumes "unat Rd < 16" "unat (Rn :: byte_t) < 16" "\<bar>off\<bar> < 4096"
    and "write_word (sdt_word Rd (unat Rn) L P U off) = [b3, b2, b1, b0]"
  shows "bit b0 n \<longleftrightarrow> n < 8 \<and> (n = 0 \<and> P \<or> n = 2 \<or> 5 \<le> n)"
    and "bit b1 n \<longleftrightarrow> n < 4 \<and> bit Rn n \<or> n = 4 \<and> L \<or> n = 7 \<and> U"
    and "bit b2 n \<longleftrightarrow> n < 4 \<and> bit \<bar>off\<bar> (n + 8) \<or> 4 \<le> n \<and> n < 8 \<and> bit Rd (n - 4)"
    and "bit b3 n \<longleftrightarrow> n < 8 \<and> bit \<bar>off\<bar> n"
proof -
  have bytes: "bytes_word b3 b2 b1 b0 = sdt_word Rd (unat Rn) L P U off"
    by (rule write_word_bytes [OF assms(4)])
  note w = bit_sdt_word [OF assms(1,2,3), of _ L P U, folded bytes, unfolded bit_bytes_word]
  show "bit b0 n \<longleftrightarrow> n < 8 \<and> (n = 0 \<and> P \<or> n = 2 \<or> 5 \<le> n)"
    using w [of "n + 24"] by (cases "n < 8") (auto dest: bit_imp_le_length)
  show "bit b1 n \<longleftrightarrow> n < 4 \<and> bit Rn n \<or> n = 4 \<and> L \<or> n = 7 \<and> U"
    using w [of "n + 16"] by (cases "n < 8") (auto dest: bit_imp_le_length split: if_splits)
  show "bit b2 n \<longleftrightarrow> n < 4 \<and> bit \<bar>off\<bar> (n + 8) \<or> 4 \<le> n \<and> n < 8 \<and> bit Rd (n - 4)"
    using w [of "n + 8"] by (cases "n < 8") (auto dest: bit_imp_le_length)
  show "bit b3 n \<longleftrightarrow> n < 8 \<and> bit \<bar>off\<bar> n"
    using w [of n] by (cases "n < 8") (auto dest: bit_imp_le_length)
qed

lemma sdt_word_decodes:
  assumes "unat Rd < 16" "unat (Rn :: byte_t) < 16" "\<bar>off\<bar> < 4096"
    and "write_word (sdt_word Rd (unat Rn) L P U off) = [b3, b2, b1, b0]"
  shows "decode [b0, b1, b2, b3] = Single_data_transfer" "getCond b0 = 14"
    "immediate_operand_sdt b0 = 0" "get_pre_post_indexing_bit b0 \<noteq> 0 \<longleftrightarrow> P"
    "get_up_bit b1 \<noteq> 0 \<longleftrightarrow> U" "get_load_store_bit b1 \<noteq> 0 \<longleftrightarrow> L"
    "get_Rn_sdt b1 = Rn" "get_Rd_sdt b2 = Rd"
    "b2 AND 15 = of_int (\<bar>off\<bar> div 256)" "b3 = of_int \<bar>off\<bar>"
proof -
  note bits = sdt_word_bytes [OF assms]
  have "drop_bit 2 b0 AND 3 = 1"
    by (rule byte_eqI) (auto simp: bits bit_simps)
  then show "decode [b0, b1, b2, b3] = Single_data_transfer" by (simp add: decode_def)
  show "getCond b0 = 14"
    by (rule byte_eqI) (auto simp: getCond_def bits bit_simps)
  show "immediate_operand_sdt b0 = 0"
    by (rule byte_eqI) (auto simp: immediate_operand_sdt_def bits bit_simps)
  have flag: "b AND 2 ^ k = 0 \<longleftrightarrow> \<not> bit b k" for b :: byte_t and k
    by (simp only: and_exp_eq_0_iff_not_bit)
  show "get_pre_post_indexing_bit b0 \<noteq> 0 \<longleftrightarrow> P"
    using flag [of b0 0] bits(1) [of 0] by (simp add: get_pre_post_indexing_bit_def)
  show "get_up_bit b1 \<noteq> 0 \<longleftrightarrow> U"
    using flag [of b1 7] bits(2) [of 7] by (simp add: get_up_bit_def)
  show "get_load_store_bit b1 \<noteq> 0 \<longleftrightarrow> L"
    using flag [of b1 4] bits(2) [of 4] by (simp add: get_load_store_bit_def)
  show "get_Rn_sdt b1 = Rn"
    by (rule byte_eqI) (auto simp: get_Rn_sdt_def bits bit_simps nibble_bits [OF assms(2)])
  show "get_Rd_sdt b2 = Rd"
    by (rule byte_eqI) (auto simp: get_Rd_sdt_def bits bit_simps nibble_bits [OF assms(1)])
  have hi: "\<bar>off\<bar> div 256 = drop_bit 8 \<bar>off\<bar>" by (simp add: drop_bit_eq_div)
  have "take_bit 12 \<bar>off\<bar> = \<bar>off\<bar>" using assms(3) by (simp add: take_bit_int_eq_self)
  then have "bit \<bar>off\<bar> n \<longleftrightarrow> n < 12 \<and> bit \<bar>off\<bar> n" for n by (metis bit_take_bit_iff)
  then have ob: "\<not> bit \<bar>off\<bar> n" if "12 \<le> n" for n using that by (meson not_less)
  show "b2 AND 15 = of_int (\<bar>off\<bar> div 256)"
    by (rule byte_eqI) (auto simp: hi bits bit_word_of_int_iff bit_drop_bit_eq ob bit_simps)
  show "b3 = of_int \<bar>off\<bar>"
    by (rule byte_eqI) (auto simp: bits bit_word_of_int_iff)
qed

text \<open>
  The emulator reads the 12-bit offset as a rotated immediate: right below 256, wrong above.
\<close>

lemma emulator_offset:
  assumes "x AND 15 = of_int (off div 256)" "0 \<le> off" "off < 4096"
  shows "get_offset_sdt x (of_int off) 0 regs =
    Inr (word_rotr (2 * nat (off div 256)) (word_of_int (off mod 256)))"
proof -
  have j: "nat (off div 256) < 16" using assms by auto
  have x: "x AND 15 = of_nat (nat (off div 256))" using assms by (simp add: of_nat_nat)
  have "take_bit 8 off = off mod 256" by (simp add: take_bit_eq_mod)
  then have u: "(ucast (of_int off :: byte_t) :: word_t) = word_of_int (off mod 256)"
    by (simp add: unsigned_of_int)
  show ?thesis
    using rotated_immediate_rot [OF j x, of "of_int off" 0] u
    by (auto simp: get_offset_sdt_def)
qed

end
