(* ===== verification/Asm_Operand2.thy ===== *)
theory Asm_Operand2
  imports Asm_Encode Arm_Properties
begin

unbundle bit_operations_syntax

text \<open>
  The second operand of a data processing instruction, from its source text to its execution: the
  forms \<open>operand2_source\<close> of the source with their values, the words that \<open>get_Operand2\<close> of the
  assembler encodes them in, what such a word denotes to \<open>get_Operand2\<close> of the emulator, and the
  fields of the instruction around it.
\<close>

section \<open>Register names and tokens\<close>

lemma getReg: "i < 16 \<Longrightarrow> get_Register (register_names ! i) = Inr (of_nat i)"
  using get_Register_names by simp

lemma register_names_r: "i < 16 \<Longrightarrow> take 1 (register_names ! i) = ''r''"
proof -
  have "\<forall>i \<in> {..<16}. take 1 (register_names ! i) = ''r''" by code_simp
  then show "i < 16 \<Longrightarrow> take 1 (register_names ! i) = ''r''" by simp
qed

lemma unat_of_nat_nibble: "i < 16 \<Longrightarrow> unat (of_nat i :: byte_t) = i"
  by (simp add: unat_of_nat take_bit_nat_eq_self)

lemma tokens_one:
  assumes "s \<noteq> []" "\<forall>c \<in> set s. c \<notin> set delims"
  shows "tokens delims s = [s]"
proof -
  have "takeWhile (\<lambda>c. c \<notin> set delims) s = s" "dropWhile (\<lambda>c. c \<notin> set delims) s = []"
    "tokens delims [] = []"
    using assms(2) by (simp_all add: takeWhile_eq_all_conv dropWhile_eq_Nil_conv tokens.simps)
  moreover have "dropWhile (\<lambda>c. c \<in> set delims) s = s"
    using assms by (cases s) auto
  ultimately show ?thesis
    using assms(1) by (simp only: tokens.simps [of delims s] Let_def if_False) 
qed

section \<open>What an encoded operand denotes\<close>

lemma operand2_bits:
  assumes "drop_bit 8 b = 0" "j < 16" "x = push_bit 12 1 OR (b OR push_bit 8 (of_nat j))"
  shows "ucast (drop_bit 12 x :: word_t) = (1 :: byte_t)"
    "ucast (drop_bit 8 x AND 15 :: word_t) = (of_nat j :: byte_t)"
    "ucast (x :: word_t) = (ucast b :: byte_t)" "ucast (ucast b :: byte_t) = b"
proof -
  have b: "\<not> bit b n" if "8 \<le> n" for n
  proof -
    have "\<not> bit (drop_bit 8 b) (n - 8)" using assms(1) by simp
    then show ?thesis using that by (simp add: bit_drop_bit_eq)
  qed
  have "take_bit 4 j = j" using assms(2) by (simp add: take_bit_nat_eq_self)
  then have j: "n < 4" if "bit j n" for n using that by (metis bit_take_bit_iff)
  have x: "bit x n \<longleftrightarrow> n = 12 \<or> n < 8 \<and> bit b n \<or> 8 \<le> n \<and> n < 12 \<and> bit j (n - 8)" if "n < 32" for n
    using that b [of n] j [of "n - 8"] unfolding assms(3)
    by (auto simp: bit_or_iff bit_push_bit_1 bit_push_bit_iff [of _ "of_nat j"] bit_of_nat_iff
        simp del: push_bit_of_1)
  have fifteen: "bit (15 :: byte_t) n \<longleftrightarrow> n < 4" "bit (15 :: word_t) n \<longleftrightarrow> n < 4" for n
    unfolding masks_word8(2) masks_word32(2) by (simp_all only: bit_mask_iff) auto
  show "ucast (drop_bit 12 x) = (1 :: byte_t)"
  proof (rule bit_word_eqI)
    fix n assume "n < LENGTH(8)"
    then show "bit (ucast (drop_bit 12 x) :: byte_t) n = bit (1 :: byte_t) n"
      using x [of "12 + n"] by (cases "n = 0") (auto simp: bit_1_iff bit_unsigned_iff bit_drop_bit_eq)
  qed
  show "ucast (drop_bit 8 x AND 15) = (of_nat j :: byte_t)"
  proof (rule bit_word_eqI)
    fix n assume "n < LENGTH(8)"
    moreover have "bit (ucast (drop_bit 8 x AND 15) :: byte_t) n \<longleftrightarrow> n < 8 \<and> bit x (8 + n) \<and> n < 4"
      by (simp only: bit_unsigned_iff bit_and_iff bit_drop_bit_eq o_apply fifteen) auto
    ultimately show "bit (ucast (drop_bit 8 x AND 15) :: byte_t) n = bit (of_nat j :: byte_t) n"
      using x [of "8 + n"] j [of n] by (auto simp only: bit_of_nat_iff) auto
  qed
  show "ucast x = (ucast b :: byte_t)"
  proof (rule bit_word_eqI)
    fix n assume "n < LENGTH(8)"
    then show "bit (ucast x :: byte_t) n = bit (ucast b :: byte_t) n"
      using x [of n] by (simp add: bit_unsigned_iff)
  qed
  show "ucast (ucast b :: byte_t) = b"
    by (rule bit_word_eqI) (use b in \<open>auto simp: bit_unsigned_iff not_less [symmetric]\<close>)
qed

lemma get_Operand2_asm_immediate:
  assumes "operand inst 0 = Inr op0"
    and "operand2_scan (operand_fields inst) 1 op0 = Inr (CHR ''#'' # s, Rm)" "CHR '' '' \<notin> set s"
    and "int_to_operand2 (word_of_int (strtol s 0)) = Inr r"
  shows "get_Operand2_asm inst = Inr (push_bit 12 1 OR r)"
proof -
  have "tokens '' '' (CHR ''#'' # s) = [CHR ''#'' # s]" using assms(3) by (intro tokens_one) auto
  then show ?thesis using assms by (simp add: get_Operand2_asm_def)
qed

lemma tokens_two:
  assumes "a \<noteq> []" "\<forall>c \<in> set a. c \<notin> set delims" "d \<in> set delims" "b \<noteq> []" "\<forall>c \<in> set b. c \<notin> set delims"
  shows "tokens delims (a @ d # b) = [a, b]"
proof -
  have tw: "takeWhile (\<lambda>c. c \<notin> set delims) (a @ d # b) = a" "dropWhile (\<lambda>c. c \<notin> set delims) (a @ d # b) = d # b"
    using assms(2,3) by (simp_all add: takeWhile_append dropWhile_append)
  have dw: "dropWhile (\<lambda>c. c \<in> set delims) (a @ d # b) = a @ d # b"
    using assms(1,2) by (cases a) auto
  have "tokens delims (d # b) = tokens delims b"
    using assms(3) by (simp add: tokens.simps [of delims "d # b"] tokens.simps [of delims b])
  then show ?thesis
    using assms(1) tokens_one [OF assms(4,5)]
    by (subst tokens.simps) (simp only: Let_def dw tw, simp)
qed

text \<open>What a second operand word means to the emulator.\<close>

definition denotes :: "word_t \<Rightarrow> word_t list \<Rightarrow> word_t \<Rightarrow> bool" where
  "denotes w regs v \<longleftrightarrow> unat (ucast (drop_bit 12 w) :: byte_t) < 2 \<and>
    (ucast (drop_bit 12 w) = (0 :: byte_t) \<longrightarrow> drop_bit 4 (ucast w :: byte_t) \<noteq> 9) \<and>
    (\<forall>b2. b2 AND 15 = ucast (drop_bit 8 w AND 15) \<longrightarrow>
      (\<exists>c. get_Operand2 b2 (ucast w) (ucast (drop_bit 12 w)) regs 0 = Inr (v, c)))"

lemma denotes_immediate:
  assumes "int_to_operand2 v = Inr r" "r \<noteq> - 1"
  shows "denotes (push_bit 12 1 OR r) regs v"
proof -
  obtain j b where jb: "j < 16" "drop_bit 8 b = 0" "r = b OR push_bit 8 (of_nat j)" "v = word_rotr (2 * j) b"
    using int_to_operand2_rot [OF assms] by blast
  note bits = operand2_bits [OF jb(2,1) refl, folded jb(3)]
  show ?thesis
    unfolding denotes_def bits(1-3) using rotated_immediate_rot [OF jb(1), of _ "ucast b" 0] bits(4) jb(4)
    by (simp add: get_Operand2_def)
qed

lemma five_bits: "unat (x :: byte_t) < 32 \<Longrightarrow> \<not> bit x 5" "unat x < 32 \<Longrightarrow> \<not> bit x 6" "unat x < 32 \<Longrightarrow> \<not> bit x 7"
  using small_bits [of x 5] by auto

lemma two_bits: "unat (x :: byte_t) < 3 \<Longrightarrow> \<not> bit x 2" "unat x < 3 \<Longrightarrow> \<not> bit x 3" "unat x < 3 \<Longrightarrow> \<not> bit x 4"
    "unat x < 3 \<Longrightarrow> \<not> bit x 5" "unat x < 3 \<Longrightarrow> \<not> bit x 6" "unat x < 3 \<Longrightarrow> \<not> bit x 7"
  using small_bits [of x 2] by auto

lemma shift_constant_fields:
  assumes "unat (k :: byte_t) < 32" "unat (t :: byte_t) < 3" "unat (m :: byte_t) < 16"
    and "w = push_bit 7 (ucast k) OR push_bit 5 (ucast t) OR (ucast m :: word_t)"
    and "b2 AND 15 = ucast (drop_bit 8 w AND 15)"
  shows "ucast (drop_bit 12 w) = (0 :: byte_t)" "ucast w AND 15 = m"
    "(push_bit 4 (b2 AND 15) OR drop_bit 4 (ucast w)) AND 1 = (0 :: byte_t)"
    "drop_bit 1 ((push_bit 4 (b2 AND 15) OR drop_bit 4 (ucast w)) AND 6) = t"
    "drop_bit 3 (push_bit 4 (b2 AND 15) OR drop_bit 4 (ucast w)) = k"
    "drop_bit 4 (ucast w) \<noteq> (9 :: byte_t)"
proof -
  note bits = five_bits [OF assms(1)] two_bits [OF assms(2)] nibble_bits [OF assms(3)] byte_high_bits
  have w: "bit w n \<longleftrightarrow> n < 32 \<and> (7 \<le> n \<and> bit k (n - 7) \<or> 5 \<le> n \<and> bit t (n - 5) \<or> bit m n)" for n
    unfolding assms(4) by (auto simp: bit_or_iff bit_push_bit_iff bit_unsigned_iff dest: bit_imp_le_length)
  show "ucast (drop_bit 12 w) = (0 :: byte_t)"
    by (rule byte_eqI) (auto simp: w bits bit_unsigned_iff bit_drop_bit_eq dest: bit_imp_le_length)
  show "ucast w AND 15 = m"
    by (rule byte_eqI) (auto simp: w bits bit_simps)
  show "(push_bit 4 (b2 AND 15) OR drop_bit 4 (ucast w)) AND 1 = (0 :: byte_t)"
    unfolding assms(5) by (rule byte_eqI) (auto simp: w bits bit_simps)
  show "drop_bit 1 ((push_bit 4 (b2 AND 15) OR drop_bit 4 (ucast w)) AND 6) = t"
    unfolding assms(5) by (rule byte_eqI) (auto simp: w bits bit_simps)
  show "drop_bit 3 (push_bit 4 (b2 AND 15) OR drop_bit 4 (ucast w)) = k"
    unfolding assms(5) by (rule byte_eqI) (auto simp: w bits bit_simps numeral_2_eq_2 [symmetric] numeral_3_eq_3 [symmetric])
  show "drop_bit 4 (ucast w) \<noteq> (9 :: byte_t)"
  proof
    assume "drop_bit 4 (ucast w) = (9 :: byte_t)"
    then have "bit (drop_bit 4 (ucast w) :: byte_t) 0 = bit (9 :: byte_t) 0" by simp
    then show False by (simp add: w bits bit_simps)
  qed
qed

lemma denotes_shift_constant:
  assumes "unat (k :: byte_t) < 32" "unat (t :: byte_t) < 3" "unat (m :: byte_t) < 16"
    and "shifter t k (regs ! unat m) 0 = Inr (v, c)"
  shows "denotes (push_bit 7 (ucast k) OR push_bit 5 (ucast t) OR ucast m) regs v"
proof -
  let ?w = "push_bit 7 (ucast k) OR push_bit 5 (ucast t) OR (ucast m :: word_t)"
  note f = shift_constant_fields [OF assms(1-3) refl]
  obtain b2 :: byte_t where "b2 AND 15 = ucast (drop_bit 8 ?w AND 15)"
  proof
    show "ucast (drop_bit 8 ?w AND 15) AND 15 = (ucast (drop_bit 8 ?w AND 15) :: byte_t)"
      by (rule byte_eqI) (auto simp: bit_simps)
  qed
  note z = f(1,6) [OF this]
  show ?thesis
    unfolding denotes_def z(1) using z(2) f(2-5) assms(4)
    by (auto simp: get_Operand2_def shifted_register_def Let_def)
qed

lemma shift_register_fields:
  assumes "unat (r :: byte_t) < 16" "unat (t :: byte_t) < 3" "unat (m :: byte_t) < 16"
    and "w = push_bit 8 (ucast r) OR push_bit 5 (ucast t) OR push_bit 4 1 OR (ucast m :: word_t)"
    and "b2 AND 15 = ucast (drop_bit 8 w AND 15)"
  shows "ucast (drop_bit 12 w) = (0 :: byte_t)" "ucast w AND 15 = m" "get_Second_Nibble b2 = r"
    "(push_bit 4 (b2 AND 15) OR drop_bit 4 (ucast w)) AND 1 = (1 :: byte_t)"
    "drop_bit 1 ((push_bit 4 (b2 AND 15) OR drop_bit 4 (ucast w)) AND 6) = t"
    "drop_bit 4 (ucast w) \<noteq> (9 :: byte_t)"
proof -
  note bits = nibble_bits [OF assms(1)] two_bits [OF assms(2)] nibble_bits [OF assms(3)] byte_high_bits
  have w: "bit w n \<longleftrightarrow> n < 32 \<and> (8 \<le> n \<and> bit r (n - 8) \<or> 5 \<le> n \<and> bit t (n - 5) \<or> n = 4 \<or> bit m n)" for n
    unfolding assms(4)
    by (auto simp: bit_or_iff bit_push_bit_iff [of _ "ucast _"] bit_push_bit_1 bit_unsigned_iff
        simp del: push_bit_of_1 dest: bit_imp_le_length)
  show "ucast (drop_bit 12 w) = (0 :: byte_t)"
    by (rule byte_eqI) (auto simp: w bits bit_unsigned_iff bit_drop_bit_eq dest: bit_imp_le_length)
  show "ucast w AND 15 = m"
    by (rule byte_eqI) (auto simp: w bits bit_simps)
  show "get_Second_Nibble b2 = r"
    unfolding get_Second_Nibble_def assms(5) by (rule byte_eqI) (auto simp: w bits bit_simps numeral_2_eq_2 [symmetric] numeral_3_eq_3 [symmetric])
  show "(push_bit 4 (b2 AND 15) OR drop_bit 4 (ucast w)) AND 1 = (1 :: byte_t)"
    unfolding assms(5) by (rule byte_eqI) (auto simp: w bits bit_simps)
  show "drop_bit 1 ((push_bit 4 (b2 AND 15) OR drop_bit 4 (ucast w)) AND 6) = t"
    unfolding assms(5) by (rule byte_eqI) (auto simp: w bits bit_simps)
  show "drop_bit 4 (ucast w) \<noteq> (9 :: byte_t)"
  proof
    assume "drop_bit 4 (ucast w) = (9 :: byte_t)"
    then have "bit (drop_bit 4 (ucast w) :: byte_t) 3 = bit (9 :: byte_t) 3" by simp
    then show False by (simp add: w bits bit_simps)
  qed
qed

lemma denotes_shift_register:
  assumes "unat (r :: byte_t) < 16" "unat (t :: byte_t) < 3" "unat (m :: byte_t) < 16"
    and "shifter t (ucast (regs ! unat r)) (regs ! unat m) 0 = Inr (v, c)"
  shows "denotes (push_bit 8 (ucast r) OR push_bit 5 (ucast t) OR push_bit 4 1 OR ucast m) regs v"
proof -
  let ?w = "push_bit 8 (ucast r) OR push_bit 5 (ucast t) OR push_bit 4 1 OR (ucast m :: word_t)"
  note f = shift_register_fields [OF assms(1-3) refl]
  obtain b2 :: byte_t where "b2 AND 15 = ucast (drop_bit 8 ?w AND 15)"
  proof
    show "ucast (drop_bit 8 ?w AND 15) AND 15 = (ucast (drop_bit 8 ?w AND 15) :: byte_t)"
      by (rule byte_eqI) (auto simp: bit_simps)
  qed
  note z = f(1,6) [OF this]
  show ?thesis
    unfolding denotes_def z(1) using z(2) f(2-5) assms(4)
    by (auto simp: get_Operand2_def shifted_register_def Let_def simp del: push_bit_of_1)
qed

section \<open>The operands of the source\<close>

text \<open>The second operand as it is written in the source: \<open>#s\<close>, \<open>rm\<close>, \<open>rm, lsl #s\<close> and
  \<open>rm, lsl rs\<close>, with \<open>lsl\<close>, \<open>lsr\<close> or \<open>asr\<close> for the shift.\<close>

datatype operand2_source =
    Immediate string
  | Register nat
  | Shift_Constant nat nat string
  | Shift_Register nat nat nat

definition shift_names :: "string list" where
  "shift_names = [''lsl'', ''lsr'', ''asr'']"

fun operand2_fields :: "operand2_source \<Rightarrow> string list" where
  "operand2_fields (Immediate s) = [CHR ''#'' # s]"
| "operand2_fields (Register m) = [register_names ! m]"
| "operand2_fields (Shift_Constant k m s) = [register_names ! m, shift_names ! k @ CHR '' '' # CHR ''#'' # s]"
| "operand2_fields (Shift_Register k m r) = [register_names ! m, shift_names ! k @ CHR '' '' # register_names ! r]"

text \<open>The value it has; \<open>asr\<close> is executed as \<open>lsr\<close>.\<close>

definition shift_value :: "nat \<Rightarrow> nat \<Rightarrow> word_t \<Rightarrow> word_t" where
  "shift_value k n w = (if k = 0 then push_bit n w else drop_bit n w)"

fun operand2_value :: "operand2_source \<Rightarrow> word_t list \<Rightarrow> word_t" where
  "operand2_value (Immediate s) regs = word_of_int (strtol s 0)"
| "operand2_value (Register m) regs = regs ! m"
| "operand2_value (Shift_Constant k m s) regs = shift_value k (nat (strtol s 0)) (regs ! m)"
| "operand2_value (Shift_Register k m r) regs = shift_value k (unat (regs ! r) mod 256) (regs ! m)"

fun operand2_accepted :: "operand2_source \<Rightarrow> word_t list \<Rightarrow> bool" where
  "operand2_accepted (Immediate s) regs \<longleftrightarrow> CHR '' '' \<notin> set s \<and>
     (case int_to_operand2 (word_of_int (strtol s 0)) of Inl e \<Rightarrow> False | Inr r \<Rightarrow> r \<noteq> - 1)"
| "operand2_accepted (Register m) regs \<longleftrightarrow> m < 16"
| "operand2_accepted (Shift_Constant k m s) regs \<longleftrightarrow>
     k < 3 \<and> m < 16 \<and> CHR '' '' \<notin> set s \<and> 0 \<le> strtol s 0 \<and> strtol s 0 < 32"
| "operand2_accepted (Shift_Register k m r) regs \<longleftrightarrow> k < 3 \<and> m < 16 \<and> r < 16 \<and> unat (regs ! r) mod 256 < 32"

definition dp_mnemonics :: "mnemonic list" where
  "dp_mnemonics = [M_AND, M_EOR, M_SUB, M_RSB, M_ADD, M_TST, M_TEQ, M_CMP, M_ORR, M_MOV]"

text \<open>The operands of an instruction with destination \<open>d\<close> and first operand \<open>n\<close>.\<close>

definition dp_operands :: "mnemonic \<Rightarrow> nat \<Rightarrow> nat \<Rightarrow> operand2_source \<Rightarrow> string option list" where
  "dp_operands m d n src =
    (let fs = (if m = M_MOV then [register_names ! d]
               else if m \<in> {M_TST, M_TEQ, M_CMP} then [register_names ! n]
               else [register_names ! d, register_names ! n]) @ operand2_fields src
     in map Some fs @ replicate (4 - length fs) None)"

lemma register_names_tokens:
  assumes "i < 16"
  shows "register_names ! i \<noteq> []" "\<forall>c \<in> set (register_names ! i). c \<notin> set '' ''"
    "get_shift (register_names ! i) = 0" "takeWhile (\<lambda>c. c = CHR '' '') (register_names ! i) = []"
proof -
  have "\<forall>i \<in> {..<16}. register_names ! i \<noteq> [] \<and> (\<forall>c \<in> set (register_names ! i). c \<notin> set '' '') \<and>
      get_shift (register_names ! i) = 0 \<and> takeWhile (\<lambda>c. c = CHR '' '') (register_names ! i) = []" by code_simp
  then show "register_names ! i \<noteq> []" "\<forall>c \<in> set (register_names ! i). c \<notin> set '' ''"
    "get_shift (register_names ! i) = 0" "takeWhile (\<lambda>c. c = CHR '' '') (register_names ! i) = []"
    using assms by blast+
qed

lemma shift_names_tokens:
  assumes "k < 3"
  shows "shift_names ! k \<noteq> []" "\<forall>c \<in> set (shift_names ! k). c \<notin> set '' ''"
    "get_shift (shift_names ! k) = of_nat k + 1" "take 1 (shift_names ! k @ x) \<notin> {''r'', ''#''}"
proof -
  have k: "k = 0 \<or> k = 1 \<or> k = 2" using assms by auto
  show "shift_names ! k \<noteq> []" "\<forall>c \<in> set (shift_names ! k). c \<notin> set '' ''"
    "get_shift (shift_names ! k) = of_nat k + 1" "take 1 (shift_names ! k @ x) \<notin> {''r'', ''#''}"
    using k by (auto simp: shift_names_def get_shift_def)
qed

text \<open>The scan finds the operand, and the register in front of a shift.\<close>

lemma operand2_scan_found:
  assumes "operand2_accepted src regs" "d < 16" "n < 16"
  shows "operand2_scan (dp_operands m d n src) 1 op0 =
    Inr (List.last (operand2_fields src),
      case src of Shift_Constant k r s \<Rightarrow> of_nat r | Shift_Register k r s \<Rightarrow> of_nat r | _ \<Rightarrow> 0)"
proof -
  note r = register_names_r [OF assms(2)] register_names_r [OF assms(3)]
  note u = operand2_scan.simps [of _ "Suc 0"] operand2_scan.simps [of _ "Suc (Suc 0)"]
    operand2_scan.simps [of _ "Suc (Suc (Suc 0))"] dp_operands_def numeral_2_eq_2 numeral_3_eq_3
  show ?thesis
  proof (cases src)
    case (Immediate s)
    then show ?thesis using r by (simp add: u)
  next
    case (Register x)
    then show ?thesis using r register_names_r [of x] assms(1) by (simp add: u)
  next
    case (Shift_Constant k x s)
    then show ?thesis
      using r register_names_r [of x] getReg [of x] shift_names_tokens(4) [of k] assms(1) by (simp add: u)
  next
    case (Shift_Register k x s)
    then show ?thesis
      using r register_names_r [of x] getReg [of x] shift_names_tokens(4) [of k] assms(1) by (simp add: u)
  qed
qed

lemma of_nat_small: "k < 256 \<Longrightarrow> unat (of_nat k :: byte_t) = k"
  by (simp add: unat_of_nat take_bit_nat_eq_self)

lemma shifter_value:
  assumes "k < 3" "unat a < 32"
  shows "\<exists>c. shifter (of_nat k) a w 0 = Inr (shift_value k (unat a) w, c)"
proof (cases "unat a = 0")
  case True
  then show ?thesis by (simp add: shifter_def shift_value_def)
next
  case False
  moreover have "k = 0 \<or> k = 1 \<or> k = 2" using assms(1) by auto
  ultimately show ?thesis
    using assms(2) shifter_lsl [of a w 0] shifter_lsr [of a w 0] shifter_asr [of a w 0]
    by (auto simp: shift_value_def)
qed

lemma operand2_denotes:
  assumes "operand inst 0 = Inr op0" "operand_fields inst = dp_operands m d n src"
    and "operand2_accepted src regs" "d < 16" "n < 16"
  shows "\<exists>w. get_Operand2_asm inst = Inr w \<and> denotes w regs (operand2_value src regs)"
proof (cases src)
  case (Immediate s)
  obtain r where r: "int_to_operand2 (word_of_int (strtol s 0)) = Inr r" "r \<noteq> - 1" "CHR '' '' \<notin> set s"
    using assms(3) Immediate by (auto split: sum.splits)
  have "get_Operand2_asm inst = Inr (push_bit 12 1 OR r)"
    using get_Operand2_asm_immediate [OF assms(1) _ r(3,1)] operand2_scan_found [OF assms(3-5)] assms(2) Immediate
    by simp
  then show ?thesis using denotes_immediate [OF r(1,2)] Immediate by auto
next
  case (Register x)
  then have x: "x < 16" using assms(3) by simp
  note t = register_names_tokens [OF x]
  have "get_Operand2_asm inst = Inr (ucast (of_nat x :: byte_t))"
    using assms(1,2) operand2_scan_found [OF assms(3-5), of m op0] Register tokens_one [OF t(1,2)] t(3,4)
      register_names_r [OF x] getReg [OF x]
    by (simp add: get_Operand2_asm_def)
  moreover have "denotes (ucast (of_nat x :: byte_t)) regs (regs ! x)"
    using denotes_shift_constant [of 0 0 "of_nat x" regs "regs ! x" 0] x of_nat_small [of x] by simp
  ultimately show ?thesis using Register by auto
next
  case (Shift_Constant k x s)
  then have k: "k < 3" "x < 16" "CHR '' '' \<notin> set s" "0 \<le> strtol s 0" "strtol s 0 < 32" using assms(3) by simp_all
  let ?k = "of_nat (nat (strtol s 0)) :: byte_t" and ?t = "of_nat k :: byte_t" and ?m = "of_nat x :: byte_t"
  note t = shift_names_tokens [OF k(1)]
  have tok: "tokens '' '' (shift_names ! k @ CHR '' '' # CHR ''#'' # s) = [shift_names ! k, CHR ''#'' # s]"
    using k(3) by (intro tokens_two t(1,2)) auto
  have u: "unat ?k = nat (strtol s 0)" "unat ?t = k" "unat ?m = x" using k by (intro of_nat_small; simp)+
  have w: "word_of_int (strtol s 0) = (ucast ?k :: word_t)"
    using k(4,5) u(1) by (simp add: word_uint_eq_iff uint_word_of_int take_bit_int_eq_self unsigned_ucast_eq)
  have "?t + 1 \<noteq> 0" using k(1) by (simp add: word_unat_eq_iff u(2) unat_word_ariths)
  then have "get_Operand2_asm inst = Inr (push_bit 7 (ucast ?k) OR push_bit 5 (ucast ?t) OR ucast ?m)"
    using assms(1,2) operand2_scan_found [OF assms(3-5), of m op0] Shift_Constant tok t(3) t(4) w
    by (simp add: get_Operand2_asm_def)
  moreover obtain c where "shifter ?t ?k (regs ! x) 0 = Inr (shift_value k (nat (strtol s 0)) (regs ! x), c)"
    using shifter_value [OF k(1), of ?k "regs ! x"] u(1) k(4,5) by (auto simp: nat_less_iff)
  ultimately show ?thesis
    using denotes_shift_constant [of ?k ?t ?m regs] u k Shift_Constant by auto
next
  case (Shift_Register k x y)
  then have k: "k < 3" "x < 16" "y < 16" "unat (regs ! y) mod 256 < 32" using assms(3) by simp_all
  let ?t = "of_nat k :: byte_t" and ?m = "of_nat x :: byte_t" and ?r = "of_nat y :: byte_t"
  note t = shift_names_tokens [OF k(1)]
  have tok: "tokens '' '' (shift_names ! k @ CHR '' '' # register_names ! y) = [shift_names ! k, register_names ! y]"
    by (intro tokens_two t(1,2) register_names_tokens(1,2) k(3)) simp
  have u: "unat ?t = k" "unat ?m = x" "unat ?r = y" using k of_nat_small by simp_all
  have "?t + 1 \<noteq> 0" using k(1) by (simp add: word_unat_eq_iff u unat_word_ariths)
  then have "get_Operand2_asm inst =
      Inr (push_bit 8 (ucast ?r) OR push_bit 5 (ucast ?t) OR push_bit 4 1 OR ucast ?m)"
    using assms(1,2) operand2_scan_found [OF assms(3-5), of m op0] Shift_Register tok t(3) t(4)
      register_names_r [OF k(3)] getReg [OF k(3)]
    by (simp add: get_Operand2_asm_def del: push_bit_of_1)
  moreover have l: "unat (ucast (regs ! y) :: byte_t) = unat (regs ! y) mod 256"
    by (simp add: unsigned_ucast_eq take_bit_eq_mod)
  obtain c where "shifter ?t (ucast (regs ! y)) (regs ! x) 0 =
      Inr (shift_value k (unat (regs ! y) mod 256) (regs ! x), c)"
    using shifter_value [OF k(1), of "ucast (regs ! y)"] l k(4) by auto
  ultimately show ?thesis
    using denotes_shift_register [of ?r ?t ?m regs] u k Shift_Register by auto
qed

section \<open>The encoded instruction\<close>

lemma execute_data_processing_unflagged:
  assumes "length regs = 17" "get_S (w ! 1) = 0"
    and "get_Operand2 (w ! 2) (w ! 3) (get_immediate_operand (w ! 0)) regs 0 = Inr (op2, c)"
    and "execute_data_processing w regs = Inr r"
  shows "r ! 16 = regs ! 16"
proof -
  let ?s = "dp_switch (get_OpCode (w ! 0) (w ! 1)) (unat (get_Rn (w ! 1)))
              (unat (get_Rd (w ! 2))) op2 c regs"
  obtain q result lop c' where s: "?s = (q, result, lop, c')" by (cases ?s) auto
  have rd: "unat (get_Rd (w ! 2)) < length regs" "unat (get_Rd (w ! 2)) \<noteq> 16"
    using assms(1) get_Rd_less(1) [of "w ! 2"] by (simp_all del: get_Rd_less(1))
  have "r = q" using assms(2-4) s by (simp add: execute_data_processing_def)
  then show ?thesis
    using dp_switch_registers [OF rd(1), of "get_OpCode (w ! 0) (w ! 1)" "unat (get_Rn (w ! 1))" op2 c] s rd(2)
    by (auto simp del: alu.simps writes_Rd.simps)
qed

text \<open>Whatever the four fields are, the emulator reads them back.\<close>

lemma encoded_fields:
  assumes "denotes w regs v" "unat opc < 16" "unat S < 2" "unat Rn < 16" "unat Rd < 16"
    and "write_instruction (ucast (drop_bit 12 w)) opc S Rn Rd w = [b3, b2, b1, b0]"
  shows "\<exists>c. get_Operand2 b2 b3 (get_immediate_operand b0) regs 0 = Inr (v, c)"
    "decode [b0, b1, b2, b3] = Data_processing" "getCond b0 = 14" "get_OpCode b0 b1 = opc"
    "get_S b1 = S" "get_Rn b1 = Rn" "get_Rd b2 = Rd"
proof -
  let ?I = "ucast (drop_bit 12 w) :: byte_t"
  have I: "unat ?I < 2" "?I = 0 \<longrightarrow> drop_bit 4 (ucast w :: byte_t) \<noteq> 9" using assms(1) by (simp_all add: denotes_def)
  note dec = write_instruction_decodes [OF I(1) assms(2-6)]
  show "\<exists>c. get_Operand2 b2 b3 (get_immediate_operand b0) regs 0 = Inr (v, c)"
    using assms(1) dec(2,7,8) by (simp add: denotes_def)
  have "?I = 0 \<or> ?I = 1" using I(1) by (auto simp: word_unat_eq_iff)
  then show "decode [b0, b1, b2, b3] = Data_processing"
    using I(2) dec(8-10) by (auto simp: decode_def)
  show "getCond b0 = 14" "get_OpCode b0 b1 = opc" "get_S b1 = S" "get_Rn b1 = Rn" "get_Rd b2 = Rd"
    using dec(1,3-6) by simp_all
qed

text \<open>The fields that each kind of instruction is written with.\<close>

lemma assemble_fields:
  assumes "get_Mnemonic mn = Inr m" "m \<in> set dp_mnemonics" "d < 16" "n < 16" "operand2_accepted src regs"
  obtains w S Rn Rd where "denotes w regs (operand2_value src regs)" "unat S < 2" "unat Rn < 16" "unat Rd < 16"
    and "assemble_data_processing \<lparr>mnemonic_of = mn, operand_fields = dp_operands m d n src\<rparr> =
      Inr (write_instruction (ucast (drop_bit 12 w)) (of_nat (mnemonic_code m)) S Rn Rd w)"
    and "m \<noteq> M_MOV \<Longrightarrow> unat Rn = n" "writes_Rd (mnemonic_code m) \<Longrightarrow> unat Rd = d"
    and "S \<noteq> 0 \<longleftrightarrow> \<not> writes_Rd (mnemonic_code m)"
proof -
  let ?inst = "\<lparr>mnemonic_of = mn, operand_fields = dp_operands m d n src\<rparr>"
  let ?d = "of_nat d :: byte_t" and ?n = "of_nat n :: byte_t"
  have fld: "operand ?inst 0 = Inr (register_names ! (if m \<in> {M_TST, M_TEQ, M_CMP} then n else d))"
    "m \<notin> {M_MOV, M_TST, M_TEQ, M_CMP} \<Longrightarrow> operand ?inst 1 = Inr (register_names ! n)"
    by (auto simp: operand_def dp_operands_def)
  obtain w where w: "get_Operand2_asm ?inst = Inr w" "denotes w regs (operand2_value src regs)"
    using operand2_denotes [OF fld(1) _ assms(5,3,4)] by auto
  note r = getReg [OF assms(3)] getReg [OF assms(4)]
  have u: "unat ?d = d" "unat ?n = n" using unat_of_nat_nibble assms(3,4) by simp_all
  consider "m = M_MOV" | "m \<in> {M_TST, M_TEQ, M_CMP}" | "m \<in> {M_AND, M_EOR, M_SUB, M_RSB, M_ADD, M_ORR}"
    using assms(2) by (auto simp: dp_mnemonics_def)
  then show ?thesis
  proof cases
    case 1
    then show ?thesis
      using assms(1,3) fld w r u
      by (intro that [of w 0 0 ?d]) (auto simp: assemble_data_processing_def mov_instruction_def)
  next
    case 2
    then show ?thesis
      using assms(1,4) fld w r u
      by (intro that [of w 1 ?n 0]) (auto simp: assemble_data_processing_def cpsr_instruction_def)
  next
    case 3
    then show ?thesis
      using assms(1,3,4) fld w r u
      by (intro that [of w 0 ?n ?d]) (auto simp: assemble_data_processing_def compute_instruction_def)
  qed
qed

text \<open>An operand shifted by \<open>ror\<close> starts with an \<open>r\<close> and is taken for a register by the scan: the
  register in front of it is lost for \<open>r0\<close>, and with three operands the scan runs off the array.\<close>

lemma ror_operand:
  assumes "n < 16" "m < 16"
  shows "operand2_scan [Some dst, Some (register_names ! m), Some (''ror '' @ s), None] 1 op0 = Inr (''ror '' @ s, 0)"
    "operand2_scan [Some dst, Some (register_names ! n), Some (register_names ! m), Some (''ror '' @ s)] 1 op0 =
      Inl OutOfBounds"
  using register_names_r [OF assms(1)] register_names_r [OF assms(2)]
  by (simp_all add: operand2_scan.simps [of _ "Suc 0"] operand2_scan.simps [of _ "Suc (Suc 0)"]
      operand2_scan.simps [of _ "Suc (Suc (Suc 0))"] operand2_scan.simps [of _ "Suc (Suc (Suc (Suc 0)))"]
      numeral_2_eq_2 numeral_3_eq_3)

end
