(* ===== verification/Asm_Properties.thy ===== *)
theory Asm_Properties
  imports Asm_Main Asm_Operand2
begin

unbundle bit_operations_syntax

text \<open>
  The properties of the assembler, most of them round trips through the emulator: the bytes an
  encoder of \<open>Asm_Encode\<close> or \<open>Asm_Main\<close> writes are executed by the definitions of \<open>Arm_Data\<close>,
  \<open>Arm_Memory\<close> and \<open>Arm_Emulate\<close> with the meaning of the assembly source.
\<close>

section \<open>Data processing, there and back\<close>

text \<open>C19: any of the ten data processing mnemonics, with register names and a second operand that is an
  immediate \<open>int_to_operand2\<close> accepts, a register, or a register shifted by \<open>lsl\<close>, \<open>lsr\<close> or \<open>asr\<close>
  by less than 32, by a constant or by the low byte of a register, is assembled to four bytes that
  the emulator decodes as an unconditional data processing instruction. Executing them writes the
  opcode's function of the first register and the operand's value to the destination, and no
  other of the 17 registers, the flags included; \<open>tst\<close>, \<open>teq\<close> and \<open>cmp\<close> write none of the sixteen
  general registers, set Z as they should and N from bit 30 of the result. The value of an operand
  shifted by \<open>asr\<close> is the one of \<open>lsr\<close>, as the emulator shifts in zeros.\<close>

theorem assembled_data_processing:
  assumes "get_Mnemonic mn = Inr m" "m \<in> set dp_mnemonics" "d < 16" "n < 16"
    and "operand2_accepted src regs" "length regs = 17"
    and "res = alu (mnemonic_code m) (regs ! n) (operand2_value src regs)"
  shows "\<exists>b0 b1 b2 b3 regs'.
    assemble_data_processing \<lparr>mnemonic_of = mn, operand_fields = dp_operands m d n src\<rparr> = Inr [b3, b2, b1, b0] \<and>
    decode [b0, b1, b2, b3] = Data_processing \<and> getCond b0 = 14 \<and>
    execute_data_processing [b0, b1, b2, b3] regs = Inr regs' \<and>
    (if m \<in> {M_TST, M_TEQ, M_CMP}
     then (\<forall>i < 16. regs' ! i = regs ! i) \<and> bit (regs' ! CPSR) 31 = bit res 30 \<and>
       bit (regs' ! CPSR) 30 = (res = 0) \<and> (\<forall>i < 29. bit (regs' ! CPSR) i = bit (regs ! CPSR) i)
     else (\<forall>i < 17. regs' ! i = (if i = d then res else regs ! i)))"
proof -
  let ?inst = "\<lparr>mnemonic_of = mn, operand_fields = dp_operands m d n src\<rparr>"
  obtain w S Rn Rd where f: "denotes w regs (operand2_value src regs)" "unat S < 2" "unat Rn < 16" "unat Rd < 16"
    and asm: "assemble_data_processing ?inst =
      Inr (write_instruction (ucast (drop_bit 12 w)) (of_nat (mnemonic_code m)) S Rn Rd w)"
    and RS: "m \<noteq> M_MOV \<Longrightarrow> unat Rn = n" "writes_Rd (mnemonic_code m) \<Longrightarrow> unat Rd = d"
      "S \<noteq> 0 \<longleftrightarrow> \<not> writes_Rd (mnemonic_code m)"
    using assemble_fields [OF assms(1-5)] by blast
  let ?opc = "of_nat (mnemonic_code m) :: byte_t"
  have opc: "unat ?opc = mnemonic_code m" "unat ?opc < 16"
    and wr: "writes_Rd (mnemonic_code m) \<longleftrightarrow> m \<notin> {M_TST, M_TEQ, M_CMP}"
    using assms(2) by (auto simp: dp_mnemonics_def)
  obtain b3 b2 b1 b0 where b: "write_instruction (ucast (drop_bit 12 w)) ?opc S Rn Rd w = [b3, b2, b1, b0]"
    by (simp add: write_instruction_def write_to_file_def)
  note rt = encoded_fields [OF f(1) opc(2) f(2-4) b]
  let ?w = "[b0, b1, b2, b3]"
  obtain c where c: "get_Operand2 (?w ! 2) (?w ! 3) (get_immediate_operand (?w ! 0)) regs 0 =
      Inr (operand2_value src regs, c)"
    using rt(1) by auto
  have res: "alu (unat (get_OpCode (?w ! 0) (?w ! 1))) (regs ! unat (get_Rn (?w ! 1))) (operand2_value src regs) = res"
    using rt(4,6) RS(1) opc(1) assms(7) by (cases "m = M_MOV") auto
  obtain regs' where ex: "execute_data_processing ?w regs = Inr regs'" "length regs' = 17"
    and r: "\<forall>i < 16. regs' ! i = (if m \<notin> {M_TST, M_TEQ, M_CMP} \<and> i = d then res else regs ! i)"
    using execute_data_processing_eq [OF assms(6) c] unfolding res
    using rt(4,7) RS(2) opc(1) wr by (auto simp del: writes_Rd.simps)
  have "bit (regs' ! CPSR) 31 = bit res 30 \<and> bit (regs' ! CPSR) 30 = (res = 0) \<and>
      (\<forall>i < 29. bit (regs' ! CPSR) i = bit (regs ! CPSR) i)" if "S \<noteq> 0"
    using data_processing_flags [OF assms(6) _ c ex(1) refl refl refl res [symmetric] refl] rt(5) that by simp
  moreover have "regs' ! 16 = regs ! 16" if "S = 0"
    using execute_data_processing_unflagged [OF assms(6) _ c ex(1)] rt(5) that by simp
  ultimately have "if m \<in> {M_TST, M_TEQ, M_CMP}
     then (\<forall>i < 16. regs' ! i = regs ! i) \<and> bit (regs' ! CPSR) 31 = bit res 30 \<and>
       bit (regs' ! CPSR) 30 = (res = 0) \<and> (\<forall>i < 29. bit (regs' ! CPSR) i = bit (regs ! CPSR) i)
     else (\<forall>i < 17. regs' ! i = (if i = d then res else regs ! i))"
    using r RS(3) wr assms(3) by (auto simp: less_Suc_eq [of _ 16, simplified])
  then show ?thesis using asm b rt(2,3) ex(1) by auto
qed

text \<open>\<open>add r1, r2, r3, lsl #2\<close> with 5 in \<open>r2\<close> and 7 in \<open>r3\<close>, and \<open>cmp r2, #5\<close>.\<close>

theorem assembled_data_processing_witness:
  "(\<exists>b0 b1 b2 b3 regs'. assemble_data_processing \<lparr>mnemonic_of = ''add'',
      operand_fields = [Some ''r1'', Some ''r2'', Some ''r3'', Some ''lsl #2'']\<rparr> = Inr [b3, b2, b1, b0] \<and>
    execute_data_processing [b0, b1, b2, b3] ((replicate 17 0)[2 := 5, 3 := 7]) = Inr regs' \<and> regs' ! 1 = 33) \<and>
   (\<exists>b0 b1 b2 b3 regs'. assemble_data_processing \<lparr>mnemonic_of = ''cmp'',
      operand_fields = [Some ''r2'', Some ''#5'', None, None]\<rparr> = Inr [b3, b2, b1, b0] \<and>
    execute_data_processing [b0, b1, b2, b3] ((replicate 17 0)[2 := 5, 3 := 7]) = Inr regs' \<and> bit (regs' ! CPSR) 30)"
proof
  let ?regs = "(replicate 17 0)[2 := 5, 3 := 7] :: word_t list"
  let ?s = "Shift_Constant 0 3 ''2''" and ?i = "Immediate ''5''"
  have h: "get_Mnemonic ''add'' = Inr M_ADD" "M_ADD \<in> set dp_mnemonics" "operand2_accepted ?s ?regs"
    "alu (mnemonic_code M_ADD) (?regs ! 2) (operand2_value ?s ?regs) = 33" by code_simp+
  have f: "dp_operands M_ADD 1 2 ?s = [Some ''r1'', Some ''r2'', Some ''r3'', Some ''lsl #2'']" by code_simp
  from assembled_data_processing [OF h(1,2) _ _ h(3) _ h(4) [symmetric], of 1]
  show "\<exists>b0 b1 b2 b3 regs'. assemble_data_processing \<lparr>mnemonic_of = ''add'',
      operand_fields = [Some ''r1'', Some ''r2'', Some ''r3'', Some ''lsl #2'']\<rparr> = Inr [b3, b2, b1, b0] \<and>
    execute_data_processing [b0, b1, b2, b3] ?regs = Inr regs' \<and> regs' ! 1 = 33"
    unfolding f by fastforce
  have h: "get_Mnemonic ''cmp'' = Inr M_CMP" "M_CMP \<in> set dp_mnemonics" "operand2_accepted ?i ?regs"
    "alu (mnemonic_code M_CMP) (?regs ! 2) (operand2_value ?i ?regs) = 0" by code_simp+
  have f: "dp_operands M_CMP 1 2 ?i = [Some ''r2'', Some ''#5'', None, None]" by code_simp
  from assembled_data_processing [OF h(1,2) _ _ h(3) _ h(4) [symmetric], of 1]
  show "\<exists>b0 b1 b2 b3 regs'. assemble_data_processing \<lparr>mnemonic_of = ''cmp'',
      operand_fields = [Some ''r2'', Some ''#5'', None, None]\<rparr> = Inr [b3, b2, b1, b0] \<and>
    execute_data_processing [b0, b1, b2, b3] ?regs = Inr regs' \<and> bit (regs' ! CPSR) 30"
    unfolding f by fastforce
qed

section \<open>Immediate operands that are refused\<close>

text \<open>A constant above 255 whose bit 6 or 7 is set is always refused, as the first step of the
  search shifts that bit out of the byte it tests. Many such constants are encodable.\<close>

theorem refused_immediates:
  assumes "255 < unat v" "bit v 6 \<or> bit v 7"
  shows "int_to_operand2 v = Inr (- 1)"
proof -
  have m8: "(255 :: word_t) = mask 8" by (simp add: mask_eq_exp_minus_1)
  have low: "drop_bit 8 (v AND 255) = 0"
    unfolding m8 by (rule bit_word_eqI) (auto simp: bit_drop_bit_eq bit_and_iff bit_mask_iff)
  have high: "v AND NOT 255 \<noteq> 0"
  proof
    assume z: "v AND NOT 255 = 0"
    have "v = v AND 255"
      using z unfolding m8
      by (intro bit_word_eqI) (metis (no_types) bit_and_iff bit_not_iff bot_word_def bit_0_eq bot_apply bot_bool_def impossible_bit)
    then have "unat v < 2 ^ 8" using unat_and_mask_less [of 8 v] unfolding m8 by simp
    with assms(1) show False by simp
  qed
  let ?imm = "push_bit 2 (v AND 255) OR drop_bit 30 (v AND NOT 255)"
  have "bit ?imm 8 \<or> bit ?imm 9"
    using assms(2) unfolding m8 by (auto simp: bit_or_iff bit_push_bit_iff bit_and_iff bit_mask_iff)
  moreover have "drop_bit 8 y \<noteq> 0" if "bit y 8 \<or> bit y 9" for y :: word_t
  proof -
    have "bit (drop_bit 8 y) 0 \<or> bit (drop_bit 8 y) 1" using that by (auto simp: bit_drop_bit_eq)
    then show ?thesis by auto
  qed
  ultimately have imm: "drop_bit 8 ?imm \<noteq> 0" by blast
  show ?thesis
    using low high imm
    by (simp add: int_to_operand2_def int_to_operand2_loop.simps [of 0]
        int_to_operand2_loop.simps [of "Suc 0"])
qed

text \<open>\<open>0x3f0\<close> is \<open>0x3f\<close> rotated right by 28.\<close>

theorem refused_immediates_witness:
  "int_to_operand2 0x3f0 = Inr (- 1) \<and> word_rotr 28 0x3f = (0x3f0 :: word_t)"
proof
  show "int_to_operand2 0x3f0 = Inr (- 1)" by (rule refused_immediates) simp_all
  show "word_rotr 28 0x3f = (0x3f0 :: word_t)" by code_simp
qed

section \<open>Branches, there and back\<close>



section \<open>Loads and stores, there and back\<close>

text \<open>C39: a pre-indexed \<open>ldr\<close> or \<open>str\<close> with an immediate offset. The emulator decodes the
  registers and the direction the assembler wrote. An offset of magnitude below 256 is added to
  the base register; one from 256 to 4095 is not: the assembler writes a plain 12-bit offset and
  the emulator reads a rotated 8-bit one.\<close>

theorem assembled_transfer:
  assumes "parse_base_register_number env address = Inr (int (unat Rn))" "unat (Rn :: byte_t) < 16" "unat Rd < 16"
    and "is_pre_indexing_address address" "\<not> is_zero_offset address"
    and "is_offset_by_expression address" "parse_offset_by_expression address = Inr off"
    and "off \<noteq> 0" "\<bar>off\<bar> < 4096"
    and "template = set_Rd Rd (set_cond_sdt get_sdt_instruction_template)"
    and "sdt_indexed env address (if L then set_L_bit template else template) = Inr w"
    and "write_word w = [b3, b2, b1, b0]"
  shows "decode [b0, b1, b2, b3] = Single_data_transfer \<and> getCond b0 = 14 \<and>
    get_pre_post_indexing_bit b0 \<noteq> 0 \<and> get_Rd_sdt b2 = Rd \<and> (get_load_store_bit b1 \<noteq> 0 \<longleftrightarrow> L) \<and>
    (\<bar>off\<bar> < 256 \<longrightarrow> apply_offset (get_Rn_sdt b1) [b0, b1, b2, b3] regs =
       Inr (regs ! unat Rn + word_of_int off)) \<and>
    (256 \<le> \<bar>off\<bar> \<longrightarrow> apply_offset (get_Rn_sdt b1) [b0, b1, b2, b3] regs =
       Inr (let x = word_rotr (2 * nat (\<bar>off\<bar> div 256)) (word_of_int (\<bar>off\<bar> mod 256))
            in if 0 < off then regs ! unat Rn + x else regs ! unat Rn - x))"
proof -
  have "w = sdt_word Rd (unat Rn) L True (0 < off) off"
    using assms(1,4-7,10,11) by (auto simp: sdt_indexed_def sdt_word_def Let_def)
  then have "write_word (sdt_word Rd (unat Rn) L True (0 < off) off) = [b3, b2, b1, b0]"
    using assms(12) by simp
  note d = sdt_word_decodes [OF assms(3,2,9) this]
  have off: "get_offset_sdt b2 b3 0 regs =
      Inr (word_rotr (2 * nat (\<bar>off\<bar> div 256)) (word_of_int (\<bar>off\<bar> mod 256)))"
    using emulator_offset [of b2 "\<bar>off\<bar>" regs] d(9,10) assms(9) by simp
  have ap: "apply_offset (get_Rn_sdt b1) [b0, b1, b2, b3] regs =
      Inr (let x = word_rotr (2 * nat (\<bar>off\<bar> div 256)) (word_of_int (\<bar>off\<bar> mod 256))
           in if 0 < off then regs ! unat Rn + x else regs ! unat Rn - x)"
    using d(3,5,7) off by (simp add: apply_offset_def Let_def)
  moreover have "(let x = word_rotr (2 * nat (\<bar>off\<bar> div 256)) (word_of_int (\<bar>off\<bar> mod 256))
       in if 0 < off then regs ! unat Rn + x else regs ! unat Rn - x) = regs ! unat Rn + word_of_int off"
    if "\<bar>off\<bar> < 256"
  proof -
    have "\<bar>off\<bar> div 256 = 0" "\<bar>off\<bar> mod 256 = \<bar>off\<bar>" using that by auto
    then show ?thesis by (simp add: Let_def)
  qed
  ultimately show ?thesis using d(1,2,4,6,8) by simp
qed

text \<open>\<open>ldr r0, [r1, #8]\<close> and a buffer followed by a zero byte.\<close>

definition plain_env :: c_env where
  "plain_env = \<lparr>label_tail = [], digit_tail = [], usable = max 16, head_next = []\<rparr>"

theorem assembled_transfer_witness:
  "sdt_indexed plain_env ''[r1#8]'' (set_L_bit (set_Rd 0 (set_cond_sdt get_sdt_instruction_template))) =
     Inr 0xe5910008 \<and>
   apply_offset 1 [0xe5, 0x91, 0, 8] ((replicate 17 0)[1 := 0x20]) = Inr 0x28"
proof -
  have h: "parse_base_register_number plain_env ''[r1#8]'' = Inr (int (unat (1 :: byte_t)))"
    "unat (1 :: byte_t) < 16" "unat (0 :: byte_t) < 16"
    "is_pre_indexing_address ''[r1#8]''" "\<not> is_zero_offset ''[r1#8]''"
    "is_offset_by_expression ''[r1#8]''" "parse_offset_by_expression ''[r1#8]'' = Inr 8"
    "(8 :: int) \<noteq> 0" "\<bar>8 :: int\<bar> < 4096"
    by code_simp+
  have w: "sdt_indexed plain_env ''[r1#8]'' (if True then set_L_bit (set_Rd 0 (set_cond_sdt get_sdt_instruction_template))
      else set_Rd 0 (set_cond_sdt get_sdt_instruction_template)) = Inr 0xe5910008"
    "write_word 0xe5910008 = [8, 0, 0x91, 0xe5]" "get_Rn_sdt 0x91 = 1" by code_simp+
  from assembled_transfer [OF h refl w(1,2), of "(replicate 17 0)[1 := 0x20]"] w(1,3) show ?thesis
    by simp
qed

section \<open>Labels\<close>

text \<open>A label that the symbol table accepts is found with its address, also after any further
  labels are entered, and an entry that is refused changes nothing.\<close>

theorem symbol_table_lookup:
  assumes "symbol_table_inv t" "fst (add_entry [] t l a)"
  shows "get_address (symtab.add_labels (snd (add_entry [] t l a)) ls) l = Inr a \<and>
    (\<forall>k b. get_address t k = Inr b \<longrightarrow> get_address (snd (add_entry [] t l a)) k = Inr b) \<and>
    (\<forall>k b. \<not> fst (add_entry [] t k b) \<longrightarrow> snd (add_entry [] t k b) = t)"
  using symtab.first_definition_wins [OF assms] symtab.get_kept [OF assms(1)] symtab.refused
  by auto

theorem symbol_table_lookup_witness:
  "get_address (symtab.add_labels (snd (add_entry [] (symbol_table_init []) ''loop'' 8))
     [(''end'', 20), (''loop'', 24)]) ''loop'' = Inr 8"
proof -
  have "symbol_table_inv (symbol_table_init [])" "fst (add_entry [] (symbol_table_init []) ''loop'' 8)"
    by (simp_all add: symbol_table_inv_def symbol_table_init_def add_entry_def)
  from symbol_table_lookup [OF this] show ?thesis by blast
qed

text \<open>The duplicate check of \<open>add_entry\<close> compares only as many characters as the new label
  has: a label that is a proper prefix of one already entered is refused, and, unless it was
  entered before, a branch to it then exits with an error.\<close>

theorem prefix_label_refused:
  assumes "(k, a) \<in> set (entries t)" "take (length l) k = l" "l \<notin> fst ` set (entries t)"
  shows "add_entry [] t l b = (False, t) \<and> get_address (snd (add_entry [] t l b)) l = Inl ExitFailure"
proof -
  have "add_entry [] t l b = (False, t)" using assms(1,2) by (force simp: add_entry_def)
  moreover have "find (\<lambda>e. fst e = l) (entries t) = None"
    using assms(3) by (intro find_None_fst) auto
  ultimately show ?thesis by (simp add: get_address_def)
qed

theorem prefix_label_refused_witness:
  "get_address (snd (add_entry [] \<lparr>size = 1, entries = [(''loop2'', 4)]\<rparr> ''loop'' 16)) ''loop'' =
     Inl ExitFailure"
  by (rule prefix_label_refused [THEN conjunct2, of "''loop2''" 4]) simp_all

section \<open>Appended constants\<close>

text \<open>The word a large constant is appended as reaches the output only when its low byte is
  not zero: the loop that copies the appended memory takes a zero byte for its end.\<close>

theorem appended_constant:
  assumes "write_to_appended_memory v mem = Inr mem'" "4 < length mem" "mem ! 4 = 0"
  shows "emit_appended mem' 0 = Inr (if ucast v = (0 :: byte_t) then [] else word_bytes v)"
proof -
  have b: "get_Nth_byte 4 v = ucast v" "get_Nth_byte 3 v = ucast (drop_bit 8 v)"
    "get_Nth_byte 2 v = ucast (drop_bit 16 v)" "get_Nth_byte 1 v = ucast (drop_bit 24 v)"
    by (simp_all add: get_Nth_byte_def)
  have m: "mem' = mem[0 := ucast v, 1 := ucast (drop_bit 8 v), 2 := ucast (drop_bit 16 v),
      3 := ucast (drop_bit 24 v)]"
    using assms(1) by (auto simp: write_to_appended_memory_def wr_eq_Inr b simp del: One_nat_def)
  have "emit_appended mem' 4 = Inr []"
    using assms(2,3) by (simp add: emit_appended.simps [of _ 4] m)
  moreover have "mem \<noteq> []" using assms(2) by auto
  ultimately show ?thesis
    using assms(2) by (simp add: emit_appended.simps [of _ 0] m word_bytes_def numeral_2_eq_2)
qed

theorem appended_constant_witness:
  "\<exists>mem'. write_to_appended_memory 0x20200000 (replicate 8 0) = Inr mem' \<and> emit_appended mem' 0 = Inr []"
proof -
  obtain mem' where m: "write_to_appended_memory 0x20200000 (replicate 8 0) = Inr mem'"
    by (simp add: write_to_appended_memory_def)
  have "(ucast (0x20200000 :: word_t) :: byte_t) = 0" by code_simp
  with appended_constant [OF m] m show ?thesis by simp
qed

end
