(* ===== verification/Pintos_List.thy ===== *)
theory Pintos_List
  imports Prelude
begin

text \<open>
  The doubly linked lists of Pintos, \<open>src/lib/kernel/list.c\<close>, at the level of pointers. A pointer
  is a number and NULL is 0; the heap is the two link fields of every \<open>struct list_elem\<close>; a
  \<open>struct list\<close> is the addresses of its two header elements. Loops over links take fuel, because
  on a malformed heap they need not end; every theorem gives the fuel that is enough.

  \<open>dll h L xs\<close> is the representation relation: in heap \<open>h\<close>, the list \<open>L\<close> holds exactly the
  elements \<open>xs\<close> in this order. Each operation refines the obvious operation on \<open>xs\<close>.
\<close>

type_synonym ptr = nat

record links =
  nxt :: "ptr \<Rightarrow> ptr"
  prv :: "ptr \<Rightarrow> ptr"

record plist =
  lhead :: ptr
  ltail :: ptr

definition set_nxt :: "ptr \<Rightarrow> ptr \<Rightarrow> links \<Rightarrow> links" where
  "set_nxt p q h = h\<lparr>nxt := (nxt h)(p := q)\<rparr>"

definition set_prv :: "ptr \<Rightarrow> ptr \<Rightarrow> links \<Rightarrow> links" where
  "set_prv p q h = h\<lparr>prv := (prv h)(p := q)\<rparr>"

lemma set_links_simps [simp]:
  "nxt (set_nxt p q h) = (nxt h)(p := q)" "prv (set_nxt p q h) = prv h"
  "prv (set_prv p q h) = (prv h)(p := q)" "nxt (set_prv p q h) = nxt h"
  by (simp_all add: set_nxt_def set_prv_def)

section \<open>Operations\<close>

definition is_head :: "links \<Rightarrow> ptr \<Rightarrow> bool" where
  "is_head h e = (e \<noteq> 0 \<and> prv h e = 0 \<and> nxt h e \<noteq> 0)"

definition is_interior :: "links \<Rightarrow> ptr \<Rightarrow> bool" where
  "is_interior h e = (e \<noteq> 0 \<and> prv h e \<noteq> 0 \<and> nxt h e \<noteq> 0)"

definition is_tail :: "links \<Rightarrow> ptr \<Rightarrow> bool" where
  "is_tail h e = (e \<noteq> 0 \<and> prv h e \<noteq> 0 \<and> nxt h e = 0)"

definition list_init :: "plist \<Rightarrow> links \<Rightarrow> links" where
  "list_init L h = set_nxt (ltail L) 0 (set_prv (ltail L) (lhead L)
     (set_nxt (lhead L) (ltail L) (set_prv (lhead L) 0 h)))"

definition list_begin :: "links \<Rightarrow> plist \<Rightarrow> ptr" where "list_begin h L = nxt h (lhead L)"
definition list_end :: "plist \<Rightarrow> ptr" where "list_end L = ltail L"
definition list_rbegin :: "links \<Rightarrow> plist \<Rightarrow> ptr" where "list_rbegin h L = prv h (ltail L)"
definition list_rend :: "plist \<Rightarrow> ptr" where "list_rend L = lhead L"
definition list_head :: "plist \<Rightarrow> ptr" where "list_head L = lhead L"
definition list_tail :: "plist \<Rightarrow> ptr" where "list_tail L = ltail L"

definition list_next :: "links \<Rightarrow> ptr \<Rightarrow> c_error + ptr" where
  "list_next h e = bindE (guardE AssertFailed (is_head h e \<or> is_interior h e)) (\<lambda>_. Inr (nxt h e))"

definition list_prev :: "links \<Rightarrow> ptr \<Rightarrow> c_error + ptr" where
  "list_prev h e = bindE (guardE AssertFailed (is_interior h e \<or> is_tail h e)) (\<lambda>_. Inr (prv h e))"

definition list_insert :: "ptr \<Rightarrow> ptr \<Rightarrow> links \<Rightarrow> c_error + links" where
  "list_insert before elem h =
    bindE (guardE AssertFailed (is_interior h before \<or> is_tail h before)) (\<lambda>_.
    bindE (guardE AssertFailed (elem \<noteq> 0)) (\<lambda>_.
      let h1 = set_prv elem (prv h before) h;
          h2 = set_nxt elem before h1;
          h3 = set_nxt (prv h2 before) elem h2
      in Inr (set_prv before elem h3)))"

definition list_splice :: "ptr \<Rightarrow> ptr \<Rightarrow> ptr \<Rightarrow> links \<Rightarrow> c_error + links" where
  "list_splice before first last0 h =
    bindE (guardE AssertFailed (is_interior h before \<or> is_tail h before)) (\<lambda>_.
    if first = last0 then Inr h
    else bindE (list_prev h last0) (\<lambda>last.
      bindE (guardE AssertFailed (is_interior h first)) (\<lambda>_.
      bindE (guardE AssertFailed (is_interior h last)) (\<lambda>_.
        let h1 = set_nxt (prv h first) (nxt h last) h;
            h2 = set_prv (nxt h1 last) (prv h1 first) h1;
            h3 = set_prv first (prv h2 before) h2;
            h4 = set_nxt last before h3;
            h5 = set_nxt (prv h4 before) first h4
        in Inr (set_prv before last h5)))))"

definition list_push_front :: "plist \<Rightarrow> ptr \<Rightarrow> links \<Rightarrow> c_error + links" where
  "list_push_front L elem h = list_insert (list_begin h L) elem h"

definition list_push_back :: "plist \<Rightarrow> ptr \<Rightarrow> links \<Rightarrow> c_error + links" where
  "list_push_back L elem h = list_insert (list_end L) elem h"

definition list_remove :: "ptr \<Rightarrow> links \<Rightarrow> c_error + (ptr \<times> links)" where
  "list_remove elem h =
    bindE (guardE AssertFailed (is_interior h elem)) (\<lambda>_.
      let h1 = set_nxt (prv h elem) (nxt h elem) h;
          h2 = set_prv (nxt h1 elem) (prv h1 elem) h1
      in Inr (nxt h2 elem, h2))"

definition list_empty :: "links \<Rightarrow> plist \<Rightarrow> bool" where
  "list_empty h L = (list_begin h L = list_end L)"

definition list_front :: "links \<Rightarrow> plist \<Rightarrow> c_error + ptr" where
  "list_front h L = bindE (guardE AssertFailed (\<not> list_empty h L)) (\<lambda>_. Inr (nxt h (lhead L)))"

definition list_back :: "links \<Rightarrow> plist \<Rightarrow> c_error + ptr" where
  "list_back h L = bindE (guardE AssertFailed (\<not> list_empty h L)) (\<lambda>_. Inr (prv h (ltail L)))"

definition list_pop_front :: "plist \<Rightarrow> links \<Rightarrow> c_error + (ptr \<times> links)" where
  "list_pop_front L h =
    bindE (list_front h L) (\<lambda>front. bindE (list_remove front h) (\<lambda>(_, h'). Inr (front, h')))"

definition list_pop_back :: "plist \<Rightarrow> links \<Rightarrow> c_error + (ptr \<times> links)" where
  "list_pop_back L h =
    bindE (list_back h L) (\<lambda>back. bindE (list_remove back h) (\<lambda>(_, h'). Inr (back, h')))"

fun size_loop :: "nat \<Rightarrow> links \<Rightarrow> plist \<Rightarrow> ptr \<Rightarrow> nat \<Rightarrow> c_error + nat" where
  "size_loop 0 h L e cnt = Inl NoFuel"
| "size_loop (Suc fuel) h L e cnt =
     (if e = list_end L then Inr cnt
      else bindE (list_next h e) (\<lambda>e'. size_loop fuel h L e' (cnt + 1)))"

definition list_size :: "nat \<Rightarrow> links \<Rightarrow> plist \<Rightarrow> c_error + nat" where
  "list_size fuel h L = size_loop fuel h L (list_begin h L) 0"

text \<open>\<open>swap (&e->prev, &e->next)\<close>; then the two header links, and the links at both ends.\<close>

definition swap_links :: "ptr \<Rightarrow> links \<Rightarrow> links" where
  "swap_links e h = set_nxt e (prv h e) (set_prv e (nxt h e) h)"

fun reverse_loop :: "nat \<Rightarrow> plist \<Rightarrow> ptr \<Rightarrow> links \<Rightarrow> c_error + links" where
  "reverse_loop 0 L e h = Inl NoFuel"
| "reverse_loop (Suc fuel) L e h =
     (if e = list_end L then Inr h
      else if e = 0 then Inl NullDereference
      else let h' = swap_links e h in reverse_loop fuel L (prv h' e) h')"

definition list_reverse :: "nat \<Rightarrow> plist \<Rightarrow> links \<Rightarrow> c_error + links" where
  "list_reverse fuel L h =
    (if list_empty h L then Inr h
     else bindE (reverse_loop fuel L (list_begin h L) h) (\<lambda>h1.
       let first = nxt h1 (lhead L); last = prv h1 (ltail L);
           h2 = set_prv (ltail L) first (set_nxt (lhead L) last h1);
           a = nxt h2 (lhead L); b = prv h2 (ltail L)
       in if a = 0 \<or> b = 0 then Inl NullDereference
          else Inr (set_nxt b (prv h2 a) (set_prv a (nxt h2 b) h2))))"

section \<open>The representation relation\<close>

fun linked :: "links \<Rightarrow> ptr list \<Rightarrow> bool" where
  "linked h [] = True"
| "linked h [p] = True"
| "linked h (p # q # ps) = (nxt h p = q \<and> prv h q = p \<and> linked h (q # ps))"

definition dll :: "links \<Rightarrow> plist \<Rightarrow> ptr list \<Rightarrow> bool" where
  "dll h L xs \<longleftrightarrow> distinct (lhead L # xs @ [ltail L]) \<and> 0 \<notin> set (lhead L # xs @ [ltail L]) \<and>
     prv h (lhead L) = 0 \<and> nxt h (ltail L) = 0 \<and> linked h (lhead L # xs @ [ltail L])"

lemma linked_append:
  "linked h (ps @ q # qs) \<longleftrightarrow> linked h (ps @ [q]) \<and> linked h (q # qs)"
  by (induction ps rule: linked.induct) (cases qs; auto)+

lemma linked_snoc2: "linked h (ps @ [p, q]) \<longleftrightarrow> linked h (ps @ [p]) \<and> nxt h p = q \<and> prv h q = p"
  using linked_append [of h ps p "[q]"] by auto

lemma linked_middle:
  "linked h (ps @ p # q # qs) \<longleftrightarrow>
     linked h (ps @ [p]) \<and> nxt h p = q \<and> prv h q = p \<and> linked h (q # qs)"
  using linked_append [of h ps p "q # qs"] by auto

text \<open>Frame rules: updates of the last \<open>nxt\<close> and the first \<open>prv\<close> of a chain do not matter.\<close>

lemma linked_set_nxt_out: "p \<notin> set ps \<Longrightarrow> linked (set_nxt p q h) (ps @ [r]) = linked h (ps @ [r])"
  by (induction ps rule: linked.induct) auto

lemma linked_set_prv_out: "p \<notin> set ps \<Longrightarrow> linked (set_prv p q h) (r # ps) = linked h (r # ps)"
  by (induction ps arbitrary: r) auto

lemma linked_set_nxt: "p \<notin> set ps \<Longrightarrow> linked (set_nxt p q h) ps = linked h ps"
  by (induction ps rule: linked.induct) auto

lemma linked_set_prv: "p \<notin> set ps \<Longrightarrow> linked (set_prv p q h) ps = linked h ps"
  by (induction ps rule: linked.induct) auto

lemmas linked_frame = linked_set_nxt_out linked_set_prv_out linked_set_nxt linked_set_prv

lemma linked_nth:
  "linked h ps \<longleftrightarrow> (\<forall>i. Suc i < length ps \<longrightarrow> nxt h (ps ! i) = ps ! Suc i \<and> prv h (ps ! Suc i) = ps ! i)"
proof (induction ps rule: linked.induct)
  case (3 h p q ps)
  then show ?case by (auto simp: nth_Cons' less_Suc_eq_0_disj split: if_splits)
qed simp_all

section \<open>Pointer surgery on one chain\<close>

text \<open>\<open>chain h ps\<close>: a linked sequence of distinct, non-null nodes.\<close>

definition chain :: "links \<Rightarrow> ptr list \<Rightarrow> bool" where
  "chain h ps \<longleftrightarrow> linked h ps \<and> distinct ps \<and> 0 \<notin> set ps"

lemma dll_chain:
  "dll h L xs \<longleftrightarrow> chain h (lhead L # xs @ [ltail L]) \<and> prv h (lhead L) = 0 \<and> nxt h (ltail L) = 0"
  by (auto simp: dll_def chain_def)

lemma linked_cong:
  assumes "\<forall>x \<in> set ps. nxt h' x = nxt h x \<and> prv h' x = prv h x"
  shows "linked h' ps = linked h ps"
  using assms by (induction ps rule: linked.induct) auto

lemma dll_frame:
  assumes "dll h L xs"
    and "\<forall>x \<in> set (lhead L # xs @ [ltail L]). nxt h' x = nxt h x \<and> prv h' x = prv h x"
  shows "dll h' L xs"
  using assms linked_cong [OF assms(2)] by (auto simp: dll_def)

lemma insert_chain:
  assumes "chain h (as @ p # b # rs)" "e \<notin> set (as @ p # b # rs)" "e \<noteq> 0"
  shows "\<exists>h'. list_insert b e h = Inr h' \<and> chain h' (as @ p # e # b # rs) \<and>
    (\<forall>x. x \<noteq> p \<and> x \<noteq> e \<longrightarrow> nxt h' x = nxt h x) \<and> (\<forall>x. x \<noteq> e \<and> x \<noteq> b \<longrightarrow> prv h' x = prv h x)"
proof -
  have c: "nxt h p = b" "prv h b = p" "linked h (as @ [p])" "linked h (b # rs)"
    using assms(1) by (auto simp: chain_def linked_middle)
  let ?h = "set_prv b e (set_nxt p e (set_nxt e b (set_prv e p h)))"
  have "list_insert b e h = Inr ?h"
    using assms c by (auto simp: list_insert_def chain_def is_interior_def is_tail_def Let_def)
  moreover have "chain ?h (as @ p # e # b # rs)"
    using assms c by (auto simp: chain_def linked_middle linked_frame)
  ultimately show ?thesis using assms by auto
qed

lemma remove_chain:
  assumes "chain h (as @ p # e # b # rs)"
  shows "\<exists>h'. list_remove e h = Inr (b, h') \<and> chain h' (as @ p # b # rs) \<and>
    (\<forall>x. x \<noteq> p \<longrightarrow> nxt h' x = nxt h x) \<and> (\<forall>x. x \<noteq> b \<longrightarrow> prv h' x = prv h x)"
proof -
  have c: "nxt h p = e" "prv h e = p" "nxt h e = b" "prv h b = e"
    "linked h (as @ [p])" "linked h (b # rs)"
    using assms by (auto simp: chain_def linked_middle)
  let ?h = "set_prv b p (set_nxt p b h)"
  have "list_remove e h = Inr (b, ?h)"
    using assms c by (auto simp: list_remove_def chain_def is_interior_def Let_def)
  moreover have "chain ?h (as @ p # b # rs)"
    using assms c by (auto simp: chain_def linked_middle linked_frame)
  ultimately show ?thesis by auto
qed

lemma linked_join:
  "ps \<noteq> [] \<Longrightarrow> qs \<noteq> [] \<Longrightarrow> linked h (ps @ qs) \<longleftrightarrow>
     linked h ps \<and> nxt h (last ps) = hd qs \<and> prv h (hd qs) = last ps \<and> linked h qs"
  by (cases ps rule: rev_exhaust; cases qs) (auto simp: linked_middle)

text \<open>Moving the block \<open>fs\<close> forward within its own list, in front of \<open>a\<close>.\<close>

lemma splice_chain:
  assumes "chain h (as @ p # ms @ q # fs @ b # rs)" "fs \<noteq> []" "a = hd (ms @ [q])"
  shows "\<exists>h'. list_splice a (hd fs) b h = Inr h' \<and> chain h' (as @ p # fs @ ms @ q # b # rs) \<and>
    (\<forall>x. x \<noteq> p \<and> x \<noteq> q \<and> x \<noteq> last fs \<longrightarrow> nxt h' x = nxt h x) \<and>
    (\<forall>x. x \<noteq> hd fs \<and> x \<noteq> a \<and> x \<noteq> b \<longrightarrow> prv h' x = prv h x)"
proof -
  obtain ws l where l: "fs = ws @ [l]" using assms(2) by (cases fs rule: rev_exhaust) auto
  obtain f us where f: "fs = f # us" using assms(2) by (cases fs) auto
  obtain ns where a: "ms @ [q] = a # ns" using assms(3) by (cases ms) auto
  have l1: "linked h (as @ p # (ms @ [q]) @ fs @ b # rs)" and d: "distinct (as @ p # ms @ q # fs @ b # rs)"
    and z: "0 \<notin> set (as @ p # ms @ q # fs @ b # rs)"
    using assms(1) by (auto simp: chain_def)
  have pa: "linked h (as @ [p])" "nxt h p = a" "prv h a = p" "linked h ((ms @ [q]) @ fs @ b # rs)"
    using l1 unfolding a by (simp_all add: linked_middle)
  have qf: "linked h (ms @ [q])" "nxt h q = f" "prv h f = q" "linked h (fs @ b # rs)"
    using pa(4) unfolding f by (simp_all add: linked_middle)
  have lb: "linked h fs" "nxt h l = b" "prv h b = l" "linked h (b # rs)"
    using qf(4) unfolding l by (simp_all add: linked_middle)
  let ?h = "set_prv a l (set_nxt p f (set_nxt l a (set_prv f p (set_prv b q (set_nxt q b h)))))"
  have mem: "a \<in> set (ms @ [q])" unfolding a by simp
  have mem2: "f \<in> set fs" unfolding f by simp
  have mem3: "l \<in> set fs" unfolding l by simp
  have neq: "f \<noteq> b" "a \<noteq> f" "a \<noteq> b" "p \<noteq> l" "p \<noteq> q" "l \<noteq> q" "p \<noteq> a" "l \<noteq> a" "q \<noteq> f"
    "p \<noteq> b" "q \<noteq> b" "l \<noteq> b"
    using d mem mem2 mem3 by auto
  have nf: "nxt h f \<in> set (fs @ [b])" using qf(4) f by (cases us) auto
  have pl: "prv h l \<in> set (q # fs)"
  proof (cases ws rule: rev_exhaust)
    case Nil
    then have "f = l" using l f by simp
    then show ?thesis using qf(3) by simp
  next
    case (snoc vs v)
    then show ?thesis using lb(1) l by (simp add: linked_snoc2)
  qed
  have "x \<noteq> 0" if "x \<in> set (as @ p # (ms @ [q]) @ fs @ b # rs)" for x
    using that z by (metis append.assoc append_Cons append_Nil)
  then have nz: "nxt h f \<noteq> 0" "prv h l \<noteq> 0" "p \<noteq> 0" "a \<noteq> 0" "q \<noteq> 0" "f \<noteq> 0" "l \<noteq> 0" "b \<noteq> 0"
    using nf pl mem mem2 mem3 unfolding set_append set_simps by blast+
  have eq: "list_splice a f b h = Inr ?h"
    using nz neq pa(2,3) qf(2,3) lb(2,3)
    by (auto simp: list_splice_def list_prev_def is_interior_def is_tail_def Let_def fun_upd_def)
  have out: "f \<notin> set (as @ [p])" "l \<notin> set (as @ [p])" "q \<notin> set (as @ [p])" "a \<notin> set (as @ [p])"
    "b \<notin> set (as @ [p])" "p \<notin> set as" "p \<notin> set fs" "q \<notin> set fs" "a \<notin> set fs" "b \<notin> set fs"
    "p \<notin> set (ms @ [q])" "l \<notin> set (ms @ [q])" "f \<notin> set (ms @ [q])" "b \<notin> set (ms @ [q])"
    "q \<notin> set ms" "p \<notin> set (b # rs)" "q \<notin> set (b # rs)" "l \<notin> set (b # rs)"
    "f \<notin> set (b # rs)" "a \<notin> set (b # rs)" "b \<notin> set rs"
    using d mem mem2 mem3 by auto
  have wl: "l \<notin> set ws" "f \<notin> set us" "a \<notin> set ns"
  proof -
    have df: "distinct fs" "distinct (ms @ [q])" using d by auto
    show "l \<notin> set ws" using df(1) [unfolded l] by simp
    show "f \<notin> set us" using df(1) [unfolded f] by simp
    show "a \<notin> set ns" using df(2) [unfolded a] by simp
  qed
  have fr: "linked (set_nxt l r g) fs = linked g fs" "linked (set_prv f r g) fs = linked g fs"
    "linked (set_nxt q r g) (ms @ [q]) = linked g (ms @ [q])"
    "linked (set_prv a r g) (ms @ [q]) = linked g (ms @ [q])" for r g
    using linked_set_nxt_out [OF wl(1), of r g l] linked_set_prv_out [OF wl(2), of r g f]
      linked_set_nxt_out [OF out(15), of r g q] linked_set_prv_out [OF wl(3), of r g a]
    by (simp_all only: l [symmetric] f [symmetric] a [symmetric])
  have "linked ?h (as @ [p])"
    using pa(1) out by (simp add: linked_frame)
  moreover have "linked ?h fs"
    using lb(1) out fr by (simp add: linked_set_nxt linked_set_prv)
  moreover have "linked ?h (ms @ [q])"
    using qf(1) out neq fr by (simp add: linked_set_nxt linked_set_prv del: linked.simps)
  moreover have "linked ?h (b # rs)"
    using lb(4) out neq by (simp add: linked_frame del: linked.simps)
  moreover define g where "g = ?h"
  ultimately have parts: "linked g (as @ [p])" "linked g fs" "linked g (ms @ [q])" "linked g (b # rs)"
    by simp_all
  have g: "nxt g p = f" "prv g f = p" "nxt g l = a" "prv g a = l" "nxt g q = b" "prv g b = q"
    using neq by (simp_all add: g_def)
  have "hd fs = f" unfolding f by simp
  moreover have "last fs = l" unfolding l by simp
  ultimately have ends: "hd fs = f" "last fs = l" "hd (ms @ q # xs) = a" "ms @ q # xs \<noteq> []" for xs
    using assms(3) by (simp_all add: hd_append)
  have "linked g ((ms @ [q]) @ b # rs)"
    using parts(3,4) g by (subst linked_join) simp_all
  then have "linked g (fs @ (ms @ [q]) @ b # rs)"
    using parts(2) g ends assms(2) by (subst linked_join) simp_all
  then have "linked g ((as @ [p]) @ fs @ (ms @ [q]) @ b # rs)"
    using parts(1) g ends assms(2) by (subst linked_join) simp_all
  moreover have "distinct (as @ p # fs @ ms @ q # b # rs)" "0 \<notin> set (as @ p # fs @ ms @ q # b # rs)"
    using d z by auto
  ultimately have "chain g (as @ p # fs @ ms @ q # b # rs)" by (simp add: chain_def)
  moreover have "nxt g x = nxt h x" if "x \<noteq> p" "x \<noteq> q" "x \<noteq> l" for x
    using that by (simp add: g_def)
  moreover have "prv g x = prv h x" if "x \<noteq> f" "x \<noteq> a" "x \<noteq> b" for x
    using that by (simp add: g_def)
  ultimately show ?thesis
    using eq ends(1,2) unfolding g_def [symmetric] by (intro exI [of _ g]) simp
qed

section \<open>Refinement of the list operations\<close>

lemma list_init_dll:
  assumes "lhead L \<noteq> ltail L" "lhead L \<noteq> 0" "ltail L \<noteq> 0"
  shows "dll (list_init L h) L []"
  using assms by (simp add: dll_def list_init_def)

lemma dll_begin: "dll h L xs \<Longrightarrow> list_begin h L = hd (xs @ [ltail L])"
  by (cases xs) (auto simp: dll_def list_begin_def)

lemma dll_rbegin:
  assumes "dll h L xs"
  shows "list_rbegin h L = last (lhead L # xs)"
proof (cases xs rule: rev_exhaust)
  case Nil
  then show ?thesis using assms by (simp add: dll_def list_rbegin_def)
next
  case (snoc ys y)
  then show ?thesis
    using assms linked_snoc2 [of h "lhead L # ys" y "ltail L"] by (simp add: dll_def list_rbegin_def)
qed

lemma dll_empty:
  assumes "dll h L xs"
  shows "list_empty h L \<longleftrightarrow> xs = []"
  using assms by (cases xs) (simp_all add: list_empty_def dll_begin [OF assms] list_end_def, auto simp: dll_def)

lemma dll_split:
  assumes "dll h L (xs @ ys)"
  obtains as p b rs where "lhead L # xs = as @ [p]" "ys @ [ltail L] = b # rs"
    "chain h (as @ p # b # rs)"
proof -
  obtain as p where p: "lhead L # xs = as @ [p]" by (metis append_butlast_last_id list.distinct(1))
  obtain b rs where b: "ys @ [ltail L] = b # rs" by (cases ys) auto
  have "chain h (as @ p # b # rs)"
    using assms p b by (metis append.assoc append_Cons append_Nil dll_chain)
  with p b show thesis by (rule that)
qed

lemma dll_next:
  assumes "dll h L (xs @ x # ys)"
  shows "list_next h x = Inr (hd (ys @ [ltail L]))"
proof -
  obtain as p b rs where s: "lhead L # xs = as @ [p]" "(x # ys) @ [ltail L] = b # rs"
    "chain h (as @ p # b # rs)"
    using dll_split [OF assms] .
  obtain r rs' where r: "ys @ [ltail L] = r # rs'" by (cases ys) auto
  have "chain h (as @ p # x # r # rs')" using s r by simp
  then have "prv h x = p" "nxt h x = r" "p \<noteq> 0" "x \<noteq> 0" "r \<noteq> 0"
    by (auto simp: chain_def linked_middle)
  then show ?thesis by (simp add: r list_next_def is_interior_def)
qed

lemma dll_next_head: "dll h L xs \<Longrightarrow> list_next h (lhead L) = Inr (hd (xs @ [ltail L]))"
  by (cases xs) (auto simp: dll_def list_next_def is_head_def)

lemma dll_prev:
  assumes "dll h L (xs @ ys)"
  shows "list_prev h (hd (ys @ [ltail L])) = Inr (last (lhead L # xs))"
proof -
  obtain as p b rs where s: "lhead L # xs = as @ [p]" "ys @ [ltail L] = b # rs"
    "chain h (as @ p # b # rs)"
    using dll_split [OF assms] .
  then have "prv h b = p" "p \<noteq> 0" "b \<noteq> 0" by (auto simp: chain_def linked_middle)
  then show ?thesis
    by (auto simp: s list_prev_def is_interior_def is_tail_def)
qed

lemma list_insert_dll:
  assumes "dll h L (xs @ ys)" "e \<notin> set (lhead L # (xs @ ys) @ [ltail L])" "e \<noteq> 0"
    and "b = hd (ys @ [ltail L])"
  shows "\<exists>h'. list_insert b e h = Inr h' \<and> dll h' L (xs @ e # ys) \<and>
    (\<forall>x. x \<notin> set (lhead L # (xs @ ys) @ [ltail L]) \<longrightarrow> x \<noteq> e \<longrightarrow>
       nxt h' x = nxt h x \<and> prv h' x = prv h x)"
proof -
  obtain as p b' rs where s: "lhead L # xs = as @ [p]" "ys @ [ltail L] = b' # rs"
    "chain h (as @ p # b' # rs)"
    using dll_split [OF assms(1)] .
  have b: "b' = b" using s(2) assms(4) by simp
  have all: "lhead L # (xs @ ys) @ [ltail L] = as @ p # b # rs"
    using s(1,2) b by (metis append.assoc append_Cons append_Nil)
  obtain h' where h': "list_insert b e h = Inr h'" "chain h' (as @ p # e # b # rs)"
    "\<forall>x. x \<noteq> p \<and> x \<noteq> e \<longrightarrow> nxt h' x = nxt h x" "\<forall>x. x \<noteq> e \<and> x \<noteq> b \<longrightarrow> prv h' x = prv h x"
    using insert_chain [OF s(3) [unfolded b]] assms(2,3) unfolding all by blast
  have c: "chain h' (lhead L # (xs @ e # ys) @ [ltail L])"
    using h'(2) s(1,2) b by (metis append.assoc append_Cons append_Nil)
  have m: "p \<in> set (lhead L # xs)" "b \<in> set (ys @ [ltail L])" using s b by auto
  have "lhead L \<noteq> b" "ltail L \<noteq> p" "lhead L \<noteq> e" "ltail L \<noteq> e"
    using c m assms(2) by (auto simp: chain_def)
  then have "dll h' L (xs @ e # ys)"
    using c h'(3,4) assms(1) by (auto simp: dll_chain)
  moreover have "p \<in> set (as @ p # b # rs)" "b \<in> set (as @ p # b # rs)" by auto
  ultimately show ?thesis using h' unfolding all by metis
qed

lemma list_push_front_dll:
  assumes "dll h L xs" "e \<notin> set (lhead L # xs @ [ltail L])" "e \<noteq> 0"
  shows "\<exists>h'. list_push_front L e h = Inr h' \<and> dll h' L (e # xs)"
  using list_insert_dll [of h L "[]" xs e] assms dll_begin [OF assms(1)]
  by (auto simp: list_push_front_def)

lemma list_push_back_dll:
  assumes "dll h L xs" "e \<notin> set (lhead L # xs @ [ltail L])" "e \<noteq> 0"
  shows "\<exists>h'. list_push_back L e h = Inr h' \<and> dll h' L (xs @ [e])"
  using list_insert_dll [of h L xs "[]" e] assms by (auto simp: list_push_back_def list_end_def)

lemma list_remove_dll:
  assumes "dll h L (xs @ e # ys)"
  shows "\<exists>h'. list_remove e h = Inr (hd (ys @ [ltail L]), h') \<and> dll h' L (xs @ ys) \<and>
    (\<forall>x. x \<notin> set (lhead L # (xs @ ys) @ [ltail L]) \<longrightarrow> nxt h' x = nxt h x \<and> prv h' x = prv h x)"
proof -
  obtain as p b0 rs0 where s: "lhead L # xs = as @ [p]" "(e # ys) @ [ltail L] = b0 # rs0"
    "chain h (as @ p # b0 # rs0)"
    using dll_split [OF assms] .
  obtain b rs where b: "ys @ [ltail L] = b # rs" by (cases ys) auto
  have c: "chain h (as @ p # e # b # rs)" using s b by simp
  obtain h' where h': "list_remove e h = Inr (b, h')" "chain h' (as @ p # b # rs)"
    "\<forall>x. x \<noteq> p \<longrightarrow> nxt h' x = nxt h x" "\<forall>x. x \<noteq> b \<longrightarrow> prv h' x = prv h x"
    using remove_chain [OF c] by blast
  have all: "lhead L # (xs @ ys) @ [ltail L] = as @ p # b # rs"
    using s(1) b by (metis append.assoc append_Cons append_Nil)
  have m: "p \<in> set (lhead L # xs)" unfolding s(1) by simp
  have m2: "b \<in> set (ys @ [ltail L])" unfolding b by simp
  have "lhead L \<noteq> b" "ltail L \<noteq> p"
    using m2 h'(2) m unfolding all [symmetric] by (auto simp: chain_def)
  then have "dll h' L (xs @ ys)"
    using h'(2-4) assms unfolding all [symmetric] by (auto simp: dll_chain)
  then show ?thesis using h' unfolding all b by auto
qed

lemma list_pop_front_dll:
  assumes "dll h L (x # xs)"
  shows "\<exists>h'. list_pop_front L h = Inr (x, h') \<and> dll h' L xs"
proof -
  have "nxt h (lhead L) = x" using dll_begin [OF assms] by (simp add: list_begin_def)
  then show ?thesis
    using list_remove_dll [of h L "[]" x xs] assms dll_empty [OF assms]
    by (auto simp: list_pop_front_def list_front_def)
qed

lemma list_pop_back_dll:
  assumes "dll h L (xs @ [x])"
  shows "\<exists>h'. list_pop_back L h = Inr (x, h') \<and> dll h' L xs"
proof -
  have "prv h (ltail L) = x" using dll_rbegin [OF assms] by (simp add: list_rbegin_def)
  then show ?thesis
    using list_remove_dll [of h L xs x "[]"] assms dll_empty [OF assms]
    by (auto simp: list_pop_back_def list_back_def)
qed

lemma size_loop_dll:
  assumes "dll h L (xs @ ys)" "length ys < fuel"
  shows "size_loop fuel h L (hd (ys @ [ltail L])) cnt = Inr (cnt + length ys)"
  using assms
proof (induction fuel arbitrary: xs ys cnt)
  case (Suc fuel)
  show ?case
  proof (cases ys)
    case Nil
    then show ?thesis by (simp add: list_end_def)
  next
    case (Cons y zs)
    then have "y \<noteq> list_end L" using Suc.prems by (auto simp: dll_def list_end_def)
    moreover have "list_next h y = Inr (hd (zs @ [ltail L]))"
      using dll_next Suc.prems(1) Cons by blast
    ultimately show ?thesis
      using Suc.IH [of "xs @ [y]" zs] Suc.prems Cons by simp
  qed
qed simp

lemma list_size_dll:
  assumes "dll h L xs" "length xs < fuel"
  shows "list_size fuel h L = Inr (length xs)"
  using size_loop_dll [of h L "[]" xs fuel 0] assms by (simp add: list_size_def dll_begin [OF assms(1)])

text \<open>The nodes a list owns, and heaps that agree outside them.\<close>

definition nodes :: "plist \<Rightarrow> ptr list \<Rightarrow> ptr set" where
  "nodes L xs = insert (lhead L) (insert (ltail L) (set xs))"

definition untouched :: "ptr set \<Rightarrow> links \<Rightarrow> links \<Rightarrow> bool" where
  "untouched S h h' \<longleftrightarrow> (\<forall>x. x \<notin> S \<longrightarrow> nxt h' x = nxt h x \<and> prv h' x = prv h x)"

lemma untouched_refl [simp]: "untouched S h h"
  by (simp add: untouched_def)

lemma untouched_trans: "untouched S h h' \<Longrightarrow> untouched S h' h'' \<Longrightarrow> untouched S h h''"
  by (simp add: untouched_def)

lemma nodes_simps [simp]:
  "nodes L (xs @ ys) = nodes L xs \<union> nodes L ys" "nodes L (x # xs) = insert x (nodes L xs)"
  by (auto simp: nodes_def)

lemma dll_untouched: "dll h L xs \<Longrightarrow> untouched S h h' \<Longrightarrow> nodes L xs \<inter> S = {} \<Longrightarrow> dll h' L xs"
  by (rule dll_frame) (auto simp: untouched_def nodes_def)

end
