(* ===== verification/Pintos_Sort.thy ===== *)
theory Pintos_Sort
  imports Pintos_List "HOL-Library.Multiset"
begin

text \<open>
  The rest of \<open>src/lib/kernel/list.c\<close>: reversal, the natural merge sort \<open>list_sort\<close>, and the
  operations that take an order. \<open>lt\<close> is the caller's \<open>list_less_func\<close> with its \<open>aux\<close>, a
  function of two elements; what the algorithms need of it is the locale \<open>list_less\<close>. The loops
  take fuel; the same bound serves every loop of one call.
\<close>

section \<open>Operations\<close>

fun is_sorted_loop :: "nat \<Rightarrow> (ptr \<Rightarrow> ptr \<Rightarrow> bool) \<Rightarrow> links \<Rightarrow> ptr \<Rightarrow> ptr \<Rightarrow> c_error + bool" where
  "is_sorted_loop 0 lt h a b = Inl NoFuel"
| "is_sorted_loop (Suc fuel) lt h a b =
     bindE (list_next h a) (\<lambda>a'.
       if a' = b then Inr True
       else bindE (list_prev h a') (\<lambda>p.
         if lt a' p then Inr False else is_sorted_loop fuel lt h a' b))"

definition is_sorted :: "nat \<Rightarrow> (ptr \<Rightarrow> ptr \<Rightarrow> bool) \<Rightarrow> links \<Rightarrow> ptr \<Rightarrow> ptr \<Rightarrow> c_error + bool" where
  "is_sorted fuel lt h a b = (if a \<noteq> b then is_sorted_loop fuel lt h a b else Inr True)"

fun run_loop :: "nat \<Rightarrow> (ptr \<Rightarrow> ptr \<Rightarrow> bool) \<Rightarrow> links \<Rightarrow> ptr \<Rightarrow> ptr \<Rightarrow> c_error + ptr" where
  "run_loop 0 lt h a b = Inl NoFuel"
| "run_loop (Suc fuel) lt h a b =
     bindE (list_next h a) (\<lambda>a'.
       if a' = b then Inr a'
       else bindE (list_prev h a') (\<lambda>p.
         if lt a' p then Inr a' else run_loop fuel lt h a' b))"

definition find_end_of_run :: "nat \<Rightarrow> (ptr \<Rightarrow> ptr \<Rightarrow> bool) \<Rightarrow> links \<Rightarrow> ptr \<Rightarrow> ptr \<Rightarrow> c_error + ptr" where
  "find_end_of_run fuel lt h a b =
    bindE (guardE AssertFailed (a \<noteq> 0)) (\<lambda>_. bindE (guardE AssertFailed (b \<noteq> 0)) (\<lambda>_.
    bindE (guardE AssertFailed (a \<noteq> b)) (\<lambda>_. run_loop fuel lt h a b)))"

fun merge_loop :: "nat \<Rightarrow> (ptr \<Rightarrow> ptr \<Rightarrow> bool) \<Rightarrow> ptr \<Rightarrow> ptr \<Rightarrow> ptr \<Rightarrow> links \<Rightarrow> c_error + links" where
  "merge_loop 0 lt a0 a1b0 b1 h = Inl NoFuel"
| "merge_loop (Suc fuel) lt a0 a1b0 b1 h =
     (if a0 \<noteq> a1b0 \<and> a1b0 \<noteq> b1 then
        if \<not> lt a1b0 a0 then
          bindE (list_next h a0) (\<lambda>a0'. merge_loop fuel lt a0' a1b0 b1 h)
        else
          bindE (list_next h a1b0) (\<lambda>m. bindE (list_prev h m) (\<lambda>p.
          bindE (list_splice a0 p m h) (\<lambda>h'. merge_loop fuel lt a0 m b1 h')))
      else Inr h)"

definition inplace_merge :: "nat \<Rightarrow> (ptr \<Rightarrow> ptr \<Rightarrow> bool) \<Rightarrow> ptr \<Rightarrow> ptr \<Rightarrow> ptr \<Rightarrow> links \<Rightarrow>
    c_error + links" where
  "inplace_merge fuel lt a0 a1b0 b1 h =
    bindE (guardE AssertFailed (a0 \<noteq> 0 \<and> a1b0 \<noteq> 0 \<and> b1 \<noteq> 0)) (\<lambda>_.
    bindE (bindE (is_sorted fuel lt h a0 a1b0) (guardE AssertFailed)) (\<lambda>_.
    bindE (bindE (is_sorted fuel lt h a1b0 b1) (guardE AssertFailed)) (\<lambda>_.
      merge_loop fuel lt a0 a1b0 b1 h)))"

text \<open>One pass of the \<open>do\<close> loop of \<open>list_sort\<close>, and the loop.\<close>

fun pass_loop :: "nat \<Rightarrow> nat \<Rightarrow> (ptr \<Rightarrow> ptr \<Rightarrow> bool) \<Rightarrow> plist \<Rightarrow> ptr \<Rightarrow> nat \<Rightarrow> links \<Rightarrow>
    c_error + (links \<times> nat)" where
  "pass_loop 0 fuel lt L a0 cnt h = Inl NoFuel"
| "pass_loop (Suc k) fuel lt L a0 cnt h =
     (if a0 = list_end L then Inr (h, cnt)
      else bindE (find_end_of_run fuel lt h a0 (list_end L)) (\<lambda>a1b0.
        if a1b0 = list_end L then Inr (h, cnt + 1)
        else bindE (find_end_of_run fuel lt h a1b0 (list_end L)) (\<lambda>b1.
             bindE (inplace_merge fuel lt a0 a1b0 b1 h) (\<lambda>h'.
               pass_loop k fuel lt L b1 (cnt + 1) h'))))"

fun sort_loop :: "nat \<Rightarrow> nat \<Rightarrow> (ptr \<Rightarrow> ptr \<Rightarrow> bool) \<Rightarrow> plist \<Rightarrow> links \<Rightarrow> c_error + links" where
  "sort_loop 0 fuel lt L h = Inl NoFuel"
| "sort_loop (Suc k) fuel lt L h =
     bindE (pass_loop fuel fuel lt L (list_begin h L) 0 h) (\<lambda>(h', output_run_cnt).
       if output_run_cnt > 1 then sort_loop k fuel lt L h' else Inr h')"

definition list_sort :: "nat \<Rightarrow> (ptr \<Rightarrow> ptr \<Rightarrow> bool) \<Rightarrow> plist \<Rightarrow> links \<Rightarrow> c_error + links" where
  "list_sort fuel lt L h =
    bindE (sort_loop fuel fuel lt L h) (\<lambda>h'.
    bindE (bindE (is_sorted fuel lt h' (list_begin h' L) (list_end L)) (guardE AssertFailed)) (\<lambda>_.
      Inr h'))"

fun insert_loop :: "nat \<Rightarrow> (ptr \<Rightarrow> ptr \<Rightarrow> bool) \<Rightarrow> plist \<Rightarrow> ptr \<Rightarrow> links \<Rightarrow> ptr \<Rightarrow> c_error + ptr" where
  "insert_loop 0 lt L elem h e = Inl NoFuel"
| "insert_loop (Suc fuel) lt L elem h e =
     (if e = list_end L then Inr e
      else if lt elem e then Inr e
      else bindE (list_next h e) (\<lambda>e'. insert_loop fuel lt L elem h e'))"

definition list_insert_ordered :: "nat \<Rightarrow> (ptr \<Rightarrow> ptr \<Rightarrow> bool) \<Rightarrow> plist \<Rightarrow> ptr \<Rightarrow> links \<Rightarrow>
    c_error + links" where
  "list_insert_ordered fuel lt L elem h =
    bindE (guardE AssertFailed (elem \<noteq> 0)) (\<lambda>_.
    bindE (insert_loop fuel lt L elem h (list_begin h L)) (\<lambda>e. list_insert e elem h))"

text \<open>\<open>duplicates\<close> is \<open>None\<close> for NULL.\<close>

fun unique_loop :: "nat \<Rightarrow> (ptr \<Rightarrow> ptr \<Rightarrow> bool) \<Rightarrow> plist \<Rightarrow> plist option \<Rightarrow> ptr \<Rightarrow> links \<Rightarrow>
    c_error + links" where
  "unique_loop 0 lt L duplicates elem h = Inl NoFuel"
| "unique_loop (Suc fuel) lt L duplicates elem h =
     bindE (list_next h elem) (\<lambda>nx.
       if nx = list_end L then Inr h
       else if \<not> lt elem nx \<and> \<not> lt nx elem then
         bindE (list_remove nx h) (\<lambda>(_, h1).
         bindE (case duplicates of None \<Rightarrow> Inr h1 | Some D \<Rightarrow> list_push_back D nx h1) (\<lambda>h2.
           unique_loop fuel lt L duplicates elem h2))
       else unique_loop fuel lt L duplicates nx h)"

definition list_unique :: "nat \<Rightarrow> (ptr \<Rightarrow> ptr \<Rightarrow> bool) \<Rightarrow> plist \<Rightarrow> plist option \<Rightarrow> links \<Rightarrow>
    c_error + links" where
  "list_unique fuel lt L duplicates h =
    (if list_empty h L then Inr h
     else unique_loop fuel lt L duplicates (list_begin h L) h)"

text \<open>\<open>list_max\<close> and \<open>list_min\<close> are the same loop with the test turned round.\<close>

fun extremum_loop :: "nat \<Rightarrow> (ptr \<Rightarrow> ptr \<Rightarrow> bool) \<Rightarrow> plist \<Rightarrow> links \<Rightarrow> ptr \<Rightarrow> ptr \<Rightarrow> c_error + ptr" where
  "extremum_loop 0 better L h best e = Inl NoFuel"
| "extremum_loop (Suc fuel) better L h best e =
     (if e = list_end L then Inr best
      else bindE (list_next h e) (\<lambda>e'.
        extremum_loop fuel better L h (if better best e then e else best) e'))"

definition list_max :: "nat \<Rightarrow> (ptr \<Rightarrow> ptr \<Rightarrow> bool) \<Rightarrow> links \<Rightarrow> plist \<Rightarrow> c_error + ptr" where
  "list_max fuel lt h L =
    (let mx = list_begin h L in
     if mx \<noteq> list_end L then bindE (list_next h mx) (extremum_loop fuel (\<lambda>m e. lt m e) L h mx)
     else Inr mx)"

definition list_min :: "nat \<Rightarrow> (ptr \<Rightarrow> ptr \<Rightarrow> bool) \<Rightarrow> links \<Rightarrow> plist \<Rightarrow> c_error + ptr" where
  "list_min fuel lt h L =
    (let mn = list_begin h L in
     if mn \<noteq> list_end L then bindE (list_next h mn) (extremum_loop fuel (\<lambda>m e. lt e m) L h mn)
     else Inr mn)"

section \<open>The algorithms on lists\<close>

fun run_of :: "('a \<Rightarrow> 'a \<Rightarrow> bool) \<Rightarrow> 'a \<Rightarrow> 'a list \<Rightarrow> 'a list \<times> 'a list" where
  "run_of lt x [] = ([x], [])"
| "run_of lt x (y # ys) =
     (if lt y x then ([x], y # ys) else (let (r, rest) = run_of lt y ys in (x # r, rest)))"

fun merge :: "('a \<Rightarrow> 'a \<Rightarrow> bool) \<Rightarrow> 'a list \<Rightarrow> 'a list \<Rightarrow> 'a list" where
  "merge lt [] bs = bs"
| "merge lt as [] = as"
| "merge lt (a # as) (b # bs) =
     (if lt b a then b # merge lt (a # as) bs else a # merge lt as (b # bs))"

lemma run_of_append: "fst (run_of lt x xs) @ snd (run_of lt x xs) = x # xs"
  by (induction lt x xs rule: run_of.induct) (auto simp: case_prod_beta)

lemma run_of_hd: "\<exists>r. fst (run_of lt x xs) = x # r"
  by (cases xs) (auto simp: case_prod_beta)

lemma run_of_length: "length (snd (run_of lt x xs)) \<le> length xs"
  using arg_cong [OF run_of_append, of length lt x xs] run_of_hd [of lt x xs] by auto

fun pass :: "('a \<Rightarrow> 'a \<Rightarrow> bool) \<Rightarrow> nat \<Rightarrow> 'a list \<Rightarrow> 'a list \<times> nat" where
  "pass lt 0 xs = (xs, 0)"
| "pass lt (Suc k) [] = ([], 0)"
| "pass lt (Suc k) (x # xs) =
     (let (r1, rest) = run_of lt x xs in
      case rest of [] \<Rightarrow> (r1, 1)
      | y # ys \<Rightarrow> let (r2, rest2) = run_of lt y ys; (out, n) = pass lt k rest2
                 in (merge lt r1 r2 @ out, n + 1))"

fun runs :: "('a \<Rightarrow> 'a \<Rightarrow> bool) \<Rightarrow> 'a list \<Rightarrow> nat" where
  "runs lt [] = 0"
| "runs lt [x] = 1"
| "runs lt (x # y # ys) = (if lt y x then 1 else 0) + runs lt (y # ys)"

text \<open>\<open>ordered\<close>: no element is lt than the one before it.\<close>

fun ordered :: "('a \<Rightarrow> 'a \<Rightarrow> bool) \<Rightarrow> 'a list \<Rightarrow> bool" where
  "ordered lt (x # y # ys) = (\<not> lt y x \<and> ordered lt (y # ys))"
| "ordered lt _ = True"

lemma ordered_runs: "ordered lt xs \<longleftrightarrow> runs lt xs \<le> 1"
proof (induction lt xs rule: runs.induct)
  case (3 lt x y ys)
  have "0 < runs lt (y # ys)" by (induction ys arbitrary: y) auto
  with 3 show ?case by auto
qed auto

lemma run_of_ordered: "ordered lt (fst (run_of lt x xs))"
proof (induction lt x xs rule: run_of.induct)
  case (2 lt x y ys)
  then show ?case using run_of_hd [of lt y ys] by (auto simp: case_prod_beta)
qed simp

lemma run_of_boundary:
  "snd (run_of lt x xs) = z # zs \<Longrightarrow> lt z (last (fst (run_of lt x xs)))"
proof (induction lt x xs rule: run_of.induct)
  case (2 lt x y ys)
  then show ?case using run_of_hd [of lt y ys] by (auto simp: case_prod_beta split: if_splits)
qed simp

lemma runs_append_ordered:
  assumes "ordered lt (r @ [l])" "lt z l"
  shows "runs lt (r @ l # z # zs) = 1 + runs lt (z # zs)"
  using assms by (induction r rule: induct_list012) auto

lemma runs_append_le: "runs lt (xs @ ys) \<le> runs lt xs + runs lt ys"
proof (induction lt xs rule: runs.induct)
  case (2 lt x)
  then show ?case by (cases ys) auto
qed auto

lemma run_of_runs: "runs lt (x # xs) = 1 + runs lt (snd (run_of lt x xs))"
proof (cases "snd (run_of lt x xs)")
  case Nil
  then have "fst (run_of lt x xs) = x # xs" using run_of_append [of lt x xs] by simp
  then have "runs lt (x # xs) \<le> 1" using run_of_ordered [of lt x xs] by (simp add: ordered_runs)
  moreover have "0 < runs lt (x # xs)" by (induction xs arbitrary: x) auto
  ultimately show ?thesis using Nil by simp
next
  case (Cons z zs)
  obtain r l where r: "fst (run_of lt x xs) = r @ [l]"
    using run_of_hd [of lt x xs] by (metis append_butlast_last_id list.distinct(1))
  then have "x # xs = r @ l # z # zs" using run_of_append [of lt x xs] Cons by simp
  moreover have "ordered lt (r @ [l])" using run_of_ordered [of lt x xs] r by simp
  moreover have "lt z l" using run_of_boundary [OF Cons] r by simp
  ultimately show ?thesis using runs_append_ordered Cons by metis
qed

lemma mset_merge [simp]: "mset (merge lt as bs) = mset as + mset bs"
  by (induction lt as bs rule: merge.induct) auto

lemma set_merge [simp]: "set (merge lt as bs) = set as \<union> set bs"
  by (induction lt as bs rule: merge.induct) auto

text \<open>The two ways a pass goes on, and what it then leaves.\<close>

lemma pass_last: "run_of lt x xs = (r, []) \<Longrightarrow> pass lt (Suc k) (x # xs) = (x # xs, 1)"
  using run_of_append [of lt x xs] by simp

lemma pass_pair: "run_of lt x xs = (r1, y # ys) \<Longrightarrow> run_of lt y ys = (r2, rest) \<Longrightarrow>
    pass lt (Suc k) (x # xs) = (merge lt r1 r2 @ fst (pass lt k rest), snd (pass lt k rest) + 1)"
  by (simp add: case_prod_beta)

lemma run_pair:
  assumes "run_of lt x xs = (r1, y # ys)" "run_of lt y ys = (r2, rest)"
  shows "x # xs = r1 @ r2 @ rest" "ordered lt r1" "ordered lt r2"
    "runs lt (x # xs) = 2 + runs lt rest" "length rest < length xs" "r1 \<noteq> []" "r2 \<noteq> []"
proof -
  show "x # xs = r1 @ r2 @ rest"
    using run_of_append [of lt x xs] run_of_append [of lt y ys] assms by simp
  show "ordered lt r1" "ordered lt r2"
    using run_of_ordered [of lt x xs] run_of_ordered [of lt y ys] assms by simp_all
  show "runs lt (x # xs) = 2 + runs lt rest"
    using run_of_runs [of lt x xs] run_of_runs [of lt y ys] assms by simp
  show "length rest < length xs"
    using run_of_length [of lt x xs] run_of_length [of lt y ys] assms by simp
  show "r1 \<noteq> []" "r2 \<noteq> []"
    using run_of_hd [of lt x xs] run_of_hd [of lt y ys] assms by auto
qed

lemma pass_induct [consumes 1, case_names Nil last pair]:
  assumes "length xs < k"
    and "\<And>k. P (Suc k) []"
    and "\<And>k x xs r. run_of lt x xs = (r, []) \<Longrightarrow> P (Suc k) (x # xs)"
    and "\<And>k x xs r1 y ys r2 rest. run_of lt x xs = (r1, y # ys) \<Longrightarrow> run_of lt y ys = (r2, rest) \<Longrightarrow>
      P k rest \<Longrightarrow> P (Suc k) (x # xs)"
  shows "P k xs"
  using assms(1)
proof (induction k arbitrary: xs)
  case (Suc k)
  show ?case
  proof (cases xs)
    case Nil
    then show ?thesis by (simp add: assms(2))
  next
    case (Cons x xs')
    obtain r1 rest1 where r1: "run_of lt x xs' = (r1, rest1)" by fastforce
    show ?thesis
    proof (cases rest1)
      case Nil
      then show ?thesis using r1 Cons assms(3) by simp
    next
      case [simp]: (Cons y ys)
      obtain r2 rest where r2: "run_of lt y ys = (r2, rest)" by fastforce
      have "length rest < k" using run_pair(5) [OF r1 [simplified] r2] Suc.prems \<open>xs = x # xs'\<close> by simp
      then show ?thesis
        using assms(4) [OF r1 [simplified] r2] Suc.IH \<open>xs = x # xs'\<close> by simp
    qed
  qed
qed simp

lemma mset_pass: "length xs < k \<Longrightarrow> mset (fst (pass lt k xs)) = mset xs"
proof (induction k xs rule: pass_induct [of _ _ _ lt])
  case (pair k x xs r1 y ys r2 rest)
  then show ?case
    unfolding pass_pair [OF pair(1,2)] using arg_cong [OF run_pair(1) [OF pair(1,2)], of mset] by simp
qed (auto simp: pass_last simp del: pass.simps(3))

lemma runs_le_length: "runs lt xs \<le> length xs"
  by (induction lt xs rule: runs.induct) auto

section \<open>Reversal\<close>

text \<open>After the loop of \<open>list_reverse\<close> the links of the elements it passed are swapped.\<close>

definition swapped :: "ptr set \<Rightarrow> links \<Rightarrow> links \<Rightarrow> bool" where
  "swapped S h h' \<longleftrightarrow> (\<forall>x. nxt h' x = (if x \<in> S then prv h x else nxt h x) \<and>
                         prv h' x = (if x \<in> S then nxt h x else prv h x))"

lemma reverse_loop_swaps:
  assumes "\<forall>i < length xs. nxt h (xs ! i) = (xs @ [ltail L]) ! Suc i"
    and "distinct (xs @ [ltail L])" "0 \<notin> set xs" "length xs < fuel"
  shows "\<exists>h'. reverse_loop fuel L (hd (xs @ [ltail L])) h = Inr h' \<and> swapped (set xs) h h'"
  using assms
proof (induction fuel arbitrary: xs h)
  case (Suc fuel)
  show ?case
  proof (cases xs)
    case Nil
    then show ?thesis by (simp add: list_end_def swapped_def)
  next
    case (Cons x ys)
    let ?h = "swap_links x h"
    have nx: "nxt h x = hd (ys @ [ltail L])" using Suc.prems(1) Cons by (cases ys) auto
    have "\<forall>i < length ys. nxt ?h (ys ! i) = (ys @ [ltail L]) ! Suc i"
    proof (intro allI impI)
      fix i assume i: "i < length ys"
      then have "ys ! i \<noteq> x" using Suc.prems(2) Cons by auto
      then show "nxt ?h (ys ! i) = (ys @ [ltail L]) ! Suc i"
        using Suc.prems(1) [rule_format, of "Suc i"] i Cons by (simp add: swap_links_def)
    qed
    then obtain h' where h': "reverse_loop fuel L (hd (ys @ [ltail L])) ?h = Inr h'"
      "swapped (set ys) ?h h'"
      using Suc.IH [of ys ?h] Suc.prems Cons by auto
    have "swapped (set xs) h h'"
      using h'(2) Suc.prems(2) Cons by (auto simp: swapped_def swap_links_def)
    moreover have "x \<noteq> list_end L" "x \<noteq> 0" using Suc.prems(2,3) Cons by (auto simp: list_end_def)
    ultimately show ?thesis
      using h'(1) nx Cons by (simp add: Let_def swap_links_def)
  qed
qed simp

lemma linked_rev:
  "linked h ps \<Longrightarrow> linked \<lparr>nxt = prv h, prv = nxt h\<rparr> (rev ps)"
proof (induction h ps rule: linked.induct)
  case (3 h p q ps)
  then show ?case by (simp add: linked_snoc2)
qed simp_all

lemma list_reverse_dll:
  assumes "dll h L xs" "length xs < fuel"
  shows "\<exists>h'. list_reverse fuel L h = Inr h' \<and> dll h' L (rev xs)"
proof (cases xs rule: rev_exhaust)
  case Nil
  then show ?thesis using assms by (simp add: list_reverse_def dll_empty [OF assms(1)])
next
  case (snoc us l)
  then obtain f vs where f: "xs = f # vs" by (metis append_is_Nil_conv list.distinct(1) list.exhaust)
  have lk: "linked h (lhead L # xs @ [ltail L])" and d: "distinct (lhead L # xs @ [ltail L])"
    and z: "0 \<notin> set (lhead L # xs @ [ltail L])" and e: "prv h (lhead L) = 0" "nxt h (ltail L) = 0"
    using assms(1) by (auto simp: dll_def)
  have inner: "linked h xs" "nxt h (lhead L) = f" "prv h f = lhead L" "nxt h l = ltail L"
    "prv h (ltail L) = l"
  proof -
    have ends: "xs \<noteq> []" "hd xs = f" "last xs = l" unfolding snoc by simp_all (simp add: f [unfolded snoc])
    then show "linked h xs" "nxt h (lhead L) = f" "prv h f = lhead L" "nxt h l = ltail L"
      "prv h (ltail L) = l"
      using lk linked_join [of "[lhead L]" "xs @ [ltail L]" h] linked_join [of xs "[ltail L]" h]
      by simp_all
  qed
  have "\<forall>i < length xs. nxt h (xs ! i) = (xs @ [ltail L]) ! Suc i"
    using lk [unfolded linked_nth, rule_format, of "Suc i" for i] by (auto simp: nth_append)
  moreover have "distinct (xs @ [ltail L])" "0 \<notin> set xs" using d z by auto
  ultimately obtain h1 where h1: "reverse_loop fuel L f h = Inr h1" "swapped (set xs) h h1"
    using reverse_loop_swaps [of xs h L fuel] assms(2) f by auto
  have mem: "f \<in> set xs" "l \<in> set xs" unfolding f by (simp, simp add: f [symmetric] snoc)
  then have out: "lhead L \<notin> set xs" "ltail L \<notin> set xs" "lhead L \<noteq> ltail L" "f \<in> set xs" "l \<in> set xs"
    "lhead L \<noteq> f" "lhead L \<noteq> l" "ltail L \<noteq> f" "ltail L \<noteq> l"
    using d by auto
  have "0 \<notin> set xs" using z by simp
  then have nz: "f \<noteq> 0" "l \<noteq> 0" using mem by metis+
  define h' where "h' = set_nxt f (ltail L) (set_prv l (lhead L)
     (set_prv (ltail L) f (set_nxt (lhead L) l h1)))"
  have s: "nxt h1 x = (if x \<in> set xs then prv h x else nxt h x)"
    "prv h1 x = (if x \<in> set xs then nxt h x else prv h x)" for x
    using h1(2) by (simp_all add: swapped_def)
  have run: "list_reverse fuel L h = Inr h'"
    using h1(1) out nz inner f dll_empty [OF assms(1)]
    by (simp add: list_reverse_def list_begin_def Let_def s h'_def)
  have rev: "rev xs = rev vs @ [f]" "rev xs = l # rev us"
    unfolding f by (simp, simp add: f [symmetric] snoc)
  have "linked h' (rev xs)"
  proof -
    let ?m = "\<lparr>nxt = prv h, prv = nxt h\<rparr>"
    have dx: "distinct xs" using d by simp
    have "f \<notin> set (rev vs)" using dx unfolding f by simp
    moreover have "l \<notin> set (rev us)" using dx unfolding snoc by simp
    ultimately have "linked (set_nxt f (ltail L) (set_prv l (lhead L) ?m)) (rev xs) = linked ?m (rev xs)"
      using linked_set_nxt_out [of f "rev vs" "ltail L" _ f] linked_set_prv_out [of l "rev us" "lhead L" ?m l]
      by (simp only: rev(1) [symmetric] rev(2) [symmetric] simp_thms)
    moreover have "linked h' (rev xs) = linked (set_nxt f (ltail L) (set_prv l (lhead L) ?m)) (rev xs)"
      using out by (intro linked_cong) (auto simp: h'_def s)
    ultimately show ?thesis using linked_rev [OF inner(1)] by simp
  qed
  moreover have ends: "hd (rev xs) = l" "last (rev xs) = f" "rev xs \<noteq> []"
    by (simp only: rev(2) list.sel, simp only: rev(1) last_snoc, simp add: rev(2) del: rev_is_Nil_conv)
  ultimately have "linked h' (lhead L # rev xs @ [ltail L])"
    using linked_join [of "[lhead L]" "rev xs @ [ltail L]" h'] linked_join [of "rev xs" "[ltail L]" h']
      out ends by (simp add: h'_def del: rev.simps)
  moreover have "prv h' (lhead L) = 0" "nxt h' (ltail L) = 0"
    using out e by (auto simp: h'_def s)
  ultimately show ?thesis using run d z by (auto simp: dll_def)
qed

section \<open>What the order must satisfy\<close>

text \<open>
  A strict weak order, the contract of \<open>list_less_func\<close>. \<open>leq x y\<close> is "not less than"; elements
  neither of which is less are equivalent.
\<close>

locale list_less =
  fixes lt :: "'a \<Rightarrow> 'a \<Rightarrow> bool"
  assumes asym: "lt x y \<Longrightarrow> \<not> lt y x"
    and weak: "lt x z \<Longrightarrow> lt x y \<or> lt y z"
begin

definition equivalent :: "'a \<Rightarrow> 'a \<Rightarrow> bool" where
  "equivalent x y \<longleftrightarrow> \<not> lt x y \<and> \<not> lt y x"

lemma irrefl: "\<not> lt x x"
  using asym by blast

lemma leq_trans: "\<not> lt y x \<Longrightarrow> \<not> lt z y \<Longrightarrow> \<not> lt z x"
  using weak by blast

lemma ordered_Cons: "ordered lt (x # xs) \<longleftrightarrow> (\<forall>y \<in> set xs. \<not> lt y x) \<and> ordered lt xs"
proof (induction xs arbitrary: x)
  case (Cons y ys)
  then show ?case using leq_trans by auto
qed simp

lemma ordered_append: "ordered lt (xs @ ys) \<longleftrightarrow>
    ordered lt xs \<and> ordered lt ys \<and> (\<forall>x \<in> set xs. \<forall>y \<in> set ys. \<not> lt y x)"
  by (induction xs) (auto simp: ordered_Cons)

lemma ordered_iff_sorted_wrt: "ordered lt xs \<longleftrightarrow> sorted_wrt (\<lambda>x y. \<not> lt y x) xs"
  by (induction xs) (auto simp: ordered_Cons)

lemma ordered_merge: "ordered lt as \<Longrightarrow> ordered lt bs \<Longrightarrow> ordered lt (merge lt as bs)"
proof (induction lt\<equiv>lt as bs rule: merge.induct)
  case (3 a as b bs)
  have "\<not> lt y b" if "lt b a" "\<not> lt y a" for y using that weak [of y b a] asym [of b a] by auto
  moreover have "\<not> lt y a" if "\<not> lt b a" "\<not> lt y b" for y using leq_trans [OF that] .
  ultimately show ?case using 3 asym [of b a] by (auto simp: ordered_Cons)
qed auto

lemma runs_pass: "length xs < k \<Longrightarrow>
    runs lt (fst (pass lt k xs)) \<le> snd (pass lt k xs) \<and>
    snd (pass lt k xs) = (runs lt xs + 1) div 2"
proof (induction k xs rule: pass_induct [of _ _ _ lt])
  case (last k x xs r)
  then show ?case
    using run_of_runs [of lt x xs] by (simp add: pass_last del: pass.simps(3))
next
  case (pair k x xs r1 y ys r2 rest)
  have "runs lt (merge lt r1 r2) \<le> 1"
    using run_pair(2,3) [OF pair(1,2)] ordered_merge by (simp add: ordered_runs)
  then show ?case
    using runs_append_le [of lt "merge lt r1 r2" "fst (pass lt k rest)"] pair
      run_pair(4) [OF pair(1,2)]
    by (simp only: pass_pair) simp
qed simp

text \<open>Stability: equivalent elements keep their order.\<close>

lemma filter_merge:
  assumes "ordered lt as" "ordered lt bs"
  shows "filter (equivalent e) (merge lt as bs) = filter (equivalent e) (as @ bs)"
  using assms
proof (induction lt\<equiv>lt as bs rule: merge.induct)
  case (3 a as b bs)
  have "lt e c" if "equivalent e b" "lt b a" "\<not> lt c a" for c
    using that weak unfolding equivalent_def by blast
  then have "filter (equivalent e) (a # as) = []" if "equivalent e b" "lt b a"
    using that 3 irrefl by (auto simp: filter_empty_conv equivalent_def ordered_Cons)
  then show ?case using 3 by (auto simp: ordered_Cons)
qed auto

lemma filter_pass: "length xs < k \<Longrightarrow>
    filter (equivalent e) (fst (pass lt k xs)) = filter (equivalent e) xs"
proof (induction k xs rule: pass_induct [of _ _ _ lt])
  case (pair k x xs r1 y ys r2 rest)
  then show ?case
    unfolding pass_pair [OF pair(1,2)]
    using arg_cong [OF run_pair(1) [OF pair(1,2)], of "filter (equivalent e)"]
      filter_merge [OF run_pair(2,3) [OF pair(1,2)]] by simp
qed (auto simp: pass_last simp del: pass.simps(3))

end

section \<open>Refinement of the sort\<close>

lemma list_splice_dll:
  assumes "dll h L (ps @ ms @ fs @ qs)" "ms \<noteq> []" "fs \<noteq> []"
  shows "\<exists>h'. list_splice (hd ms) (hd fs) (hd (qs @ [ltail L])) h = Inr h' \<and>
    dll h' L (ps @ fs @ ms @ qs) \<and> untouched (nodes L (ps @ ms @ fs @ qs)) h h'"
proof -
  obtain as p where p: "lhead L # ps = as @ [p]" by (metis append_butlast_last_id list.distinct(1))
  obtain ns q where q: "ms = ns @ [q]" using assms(2) by (cases ms rule: rev_exhaust) auto
  obtain b rs where b: "qs @ [ltail L] = b # rs" by (cases qs) auto
  have all: "lhead L # (ps @ ms @ fs @ qs) @ [ltail L] = as @ p # ns @ q # fs @ b # rs"
    using p q b by (metis append.assoc append_Cons append_Nil)
  have all': "lhead L # (ps @ fs @ ms @ qs) @ [ltail L] = as @ p # fs @ ns @ q # b # rs"
    using p q b by (metis append.assoc append_Cons append_Nil)
  have "chain h (as @ p # ns @ q # fs @ b # rs)" using assms(1) all by (simp add: dll_chain)
  from splice_chain [OF this assms(3) refl] obtain h' where
    h': "list_splice (hd ms) (hd fs) b h = Inr h'" "chain h' (as @ p # fs @ ns @ q # b # rs)"
    "\<forall>x. x \<noteq> p \<and> x \<noteq> q \<and> x \<noteq> last fs \<longrightarrow> nxt h' x = nxt h x"
    "\<forall>x. x \<noteq> hd fs \<and> x \<noteq> hd ms \<and> x \<noteq> b \<longrightarrow> prv h' x = prv h x"
    unfolding q by blast
  have m: "p \<in> set (lhead L # ps)" "q \<in> set ms" "last fs \<in> set fs" "hd fs \<in> set fs"
    "b \<in> set (qs @ [ltail L])" and m': "hd ms \<in> set ms"
    using p q b assms(3) hd_in_set [OF assms(2)] by auto
  have d: "distinct (lhead L # (ps @ fs @ ms @ qs) @ [ltail L])"
    using assms(1) by (auto simp: dll_def)
  have "lhead L \<notin> set (ps @ fs @ ms @ qs @ [ltail L])" "ltail L \<notin> set (lhead L # ps @ fs @ ms @ qs)"
    using d by auto
  then have "lhead L \<noteq> hd fs" "lhead L \<noteq> hd ms" "lhead L \<noteq> b" "ltail L \<noteq> p" "ltail L \<noteq> q"
    "ltail L \<noteq> last fs"
    using m m' by (auto simp del: last_in_set)
  then have "dll h' L (ps @ fs @ ms @ qs)"
    using assms(1) h'(2-4) unfolding dll_chain all' by simp
  moreover have "untouched (nodes L (ps @ ms @ fs @ qs)) h h'"
    unfolding untouched_def
  proof (intro allI impI)
    fix x assume "x \<notin> nodes L (ps @ ms @ fs @ qs)"
    then have "x \<noteq> p" "x \<noteq> q" "x \<noteq> last fs" "x \<noteq> hd fs" "x \<noteq> hd ms" "x \<noteq> b"
      using m m' by (auto simp: nodes_def)
    then show "nxt h' x = nxt h x \<and> prv h' x = prv h x" using h'(3,4) by simp
  qed
  ultimately show ?thesis using h'(1) b by auto
qed

text \<open>The pointers that delimit a segment of a list.\<close>

abbreviation at :: "plist \<Rightarrow> ptr list \<Rightarrow> ptr" where
  "at L xs \<equiv> hd (xs @ [ltail L])"

lemma at_neq: "dll h L (ps @ as @ qs) \<Longrightarrow> as \<noteq> [] \<Longrightarrow> at L (as @ qs) \<noteq> at L qs"
  by (cases as; cases qs) (auto simp: dll_def)

lemma at_nonzero: "dll h L (ps @ qs) \<Longrightarrow> at L qs \<noteq> 0"
  by (cases qs) (auto simp: dll_def)

lemma dll_prev_Cons: "dll h L (ps @ a # as) \<Longrightarrow> list_prev h (at L as) = Inr a"
  using dll_prev [of h L "ps @ [a]" as] by simp

lemma is_sorted_loop_dll:
  assumes "dll h L (ps @ a # as @ qs)" "length as < fuel"
  shows "is_sorted_loop fuel lt h a (at L qs) = Inr (ordered lt (a # as))"
  using assms
proof (induction fuel arbitrary: ps a as)
  case (Suc fuel)
  note nx = dll_next [OF Suc.prems(1)]
  show ?case
  proof (cases as)
    case Nil
    then show ?thesis using nx by simp
  next
    case (Cons y ys)
    have "list_prev h y = Inr a" using dll_prev_Cons [OF Suc.prems(1)] Cons by simp
    moreover have "y \<noteq> at L qs" using at_neq [of h L "ps @ [a]" as qs] Suc.prems(1) Cons by simp
    ultimately show ?thesis using nx Suc.IH [of "ps @ [a]" y ys] Suc.prems Cons by simp
  qed
qed simp

lemma is_sorted_dll:
  assumes "dll h L (ps @ as @ qs)" "length as < fuel"
  shows "is_sorted fuel lt h (at L (as @ qs)) (at L qs) = Inr (ordered lt as)"
  using assms is_sorted_loop_dll [of h L ps _ _ qs fuel lt] at_neq [OF assms(1)]
  by (cases as) (auto simp: is_sorted_def)

lemma run_loop_dll:
  assumes "dll h L (ps @ a # as)" "length as < fuel"
  shows "run_loop fuel lt h a (ltail L) = Inr (at L (snd (run_of lt a as)))"
  using assms
proof (induction fuel arbitrary: ps a as)
  case (Suc fuel)
  note nx = dll_next [OF Suc.prems(1)]
  show ?case
  proof (cases as)
    case Nil
    then show ?thesis using nx by simp
  next
    case (Cons y ys)
    have "list_prev h y = Inr a" using dll_prev_Cons [OF Suc.prems(1)] Cons by simp
    moreover have "y \<noteq> ltail L" using Suc.prems(1) Cons by (auto simp: dll_def)
    ultimately show ?thesis
      using nx Suc.IH [of "ps @ [a]" y ys] Suc.prems Cons by (simp add: case_prod_beta)
  qed
qed simp

lemma find_end_of_run_dll:
  assumes "dll h L (ps @ a # as)" "length as < fuel"
  shows "find_end_of_run fuel lt h a (list_end L) = Inr (at L (snd (run_of lt a as)))"
proof -
  have "a \<noteq> 0" "ltail L \<noteq> 0" "a \<noteq> ltail L" using assms(1) by (auto simp: dll_def)
  then show ?thesis
    using run_loop_dll [OF assms] by (simp add: find_end_of_run_def list_end_def)
qed

lemma merge_loop_dll:
  assumes "dll h L (ps @ as @ bs @ qs)" "length as + length bs < fuel"
  shows "\<exists>h'. merge_loop fuel lt (at L (as @ bs @ qs)) (at L (bs @ qs)) (at L qs) h = Inr h' \<and>
    dll h' L (ps @ merge lt as bs @ qs) \<and> untouched (nodes L (ps @ as @ bs @ qs)) h h'"
  using assms
proof (induction fuel arbitrary: ps as bs h)
  case (Suc fuel)
  show ?case
  proof (cases "as = [] \<or> bs = []")
    case True
    then show ?thesis using Suc.prems(1) by (cases as) auto
  next
    case False
    then obtain a as' b bs' where [simp]: "as = a # as'" "bs = b # bs'"
      by (meson neq_Nil_conv)
    have neq: "a \<noteq> b" "b \<noteq> at L qs"
      using at_neq [of h L ps as "bs @ qs"] at_neq [of h L "ps @ as" bs qs] Suc.prems(1) by simp_all
    show ?thesis
    proof (cases "lt b a")
      case True
      have n: "list_next h b = Inr (at L (bs' @ qs))" "list_prev h (at L (bs' @ qs)) = Inr b"
        using dll_next [of h L "ps @ as" b "bs' @ qs"] dll_prev_Cons [of h L "ps @ as" b "bs' @ qs"]
          Suc.prems(1) by simp_all
      obtain h1 where h1: "list_splice a b (at L (bs' @ qs)) h = Inr h1"
        "dll h1 L (ps @ b # a # as' @ bs' @ qs)" "untouched (nodes L (ps @ as @ bs @ qs)) h h1"
        using list_splice_dll [of h L ps as "[b]" "bs' @ qs"] Suc.prems(1) by auto
      obtain h' where "merge_loop fuel lt a (at L (bs' @ qs)) (at L qs) h1 = Inr h'"
        "dll h' L (ps @ b # merge lt as bs' @ qs)" "untouched (nodes L (ps @ as @ bs @ qs)) h1 h'"
        using Suc.IH [of h1 "ps @ [b]" as bs'] h1(2) Suc.prems(2)
        by (auto simp: insert_commute)
      then show ?thesis
        using True neq n h1 by (auto intro: untouched_trans)
    next
      case False
      have "list_next h a = Inr (at L (as' @ bs @ qs))"
        using dll_next [of h L ps a "as' @ bs @ qs"] Suc.prems(1) by simp
      then show ?thesis
        using Suc.IH [of h "ps @ [a]" as' bs] Suc.prems neq False by auto
    qed
  qed
qed simp

lemma inplace_merge_dll:
  assumes "dll h L (ps @ as @ bs @ qs)" "ordered lt as" "ordered lt bs"
    and "length as + length bs < fuel"
  shows "\<exists>h'. inplace_merge fuel lt (at L (as @ bs @ qs)) (at L (bs @ qs)) (at L qs) h = Inr h' \<and>
    dll h' L (ps @ merge lt as bs @ qs) \<and> untouched (nodes L (ps @ as @ bs @ qs)) h h'"
proof -
  have "at L (as @ bs @ qs) \<noteq> 0" "at L (bs @ qs) \<noteq> 0" "at L qs \<noteq> 0"
    using at_nonzero [of h L ps "as @ bs @ qs"] at_nonzero [of h L "ps @ as" "bs @ qs"]
      at_nonzero [of h L "ps @ as @ bs" qs] assms(1) by simp_all
  then show ?thesis
    using is_sorted_dll [of h L ps as "bs @ qs" fuel lt] is_sorted_dll [of h L "ps @ as" bs qs fuel lt]
      merge_loop_dll [OF assms(1,4), of lt] assms
    by (simp add: inplace_merge_def)
qed

lemma pass_loop_dll:
  assumes "length xs < k" "dll h L (ps @ xs)" "length xs < fuel"
  shows "\<exists>h'. pass_loop k fuel lt L (at L xs) cnt h = Inr (h', cnt + snd (pass lt k xs)) \<and>
    dll h' L (ps @ fst (pass lt k xs)) \<and> untouched (nodes L (ps @ xs)) h h'"
  using assms
proof (induction k xs arbitrary: ps h cnt rule: pass_induct [of _ _ _ lt])
  case (Nil k)
  then show ?case by (simp add: list_end_def)
next
  case (last k x xs r)
  have "x \<noteq> list_end L" using last.prems by (auto simp: dll_def list_end_def)
  moreover have "find_end_of_run fuel lt h x (list_end L) = Inr (list_end L)"
    using find_end_of_run_dll [of h L ps x xs fuel lt] last by (simp add: list_end_def)
  ultimately show ?case using last by (simp add: pass_last del: pass.simps(3))
next
  case (pair k x xs r1 y ys r2 rest)
  note eq = run_pair(1) [OF pair(1,2)] and facts = run_pair(2-7) [OF pair(1,2)]
  have y: "y # ys = r2 @ rest" using run_of_append [of lt y ys] pair(2) by simp
  have x: "x \<noteq> list_end L" using pair.prems by (auto simp: dll_def list_end_def)
  have d: "dll h L (ps @ r1 @ r2 @ rest)" using pair.prems(1) eq by simp
  have "y \<noteq> list_end L"
    using d y [symmetric] by (auto simp: dll_def list_end_def)
  moreover have "find_end_of_run fuel lt h x (list_end L) = Inr y"
    using find_end_of_run_dll [of h L ps x xs fuel lt] pair by simp
  moreover have "length ys < fuel"
    using pair.prems(2) arg_cong [OF eq, of length] arg_cong [OF y, of length] by simp
  then have "find_end_of_run fuel lt h y (list_end L) = Inr (at L rest)"
    using find_end_of_run_dll [of h L "ps @ r1" y ys fuel lt] pair(2) d y by simp
  moreover have len: "length r1 + length r2 < fuel" "length rest < fuel"
    using arg_cong [OF eq, of length] pair.prems(2) by auto
  moreover have "at L (r1 @ r2 @ rest) = x" by (simp only: eq [symmetric]) simp
  moreover have "at L (r2 @ rest) = y" by (simp only: y [symmetric]) simp
  moreover obtain h1 where h1:
    "inplace_merge fuel lt (at L (r1 @ r2 @ rest)) (at L (r2 @ rest)) (at L rest) h = Inr h1"
    "dll h1 L (ps @ merge lt r1 r2 @ rest)" "untouched (nodes L (ps @ x # xs)) h h1"
    using inplace_merge_dll [OF d facts(1,2) len(1)] eq by auto
  moreover obtain h' where
    "pass_loop k fuel lt L (at L rest) (cnt + 1) h1 = Inr (h', cnt + 1 + snd (pass lt k rest))"
    "dll h' L (ps @ merge lt r1 r2 @ fst (pass lt k rest))"
    "untouched (nodes L ((ps @ merge lt r1 r2) @ rest)) h1 h'"
    using pair(3) [of h1 "ps @ merge lt r1 r2" "cnt + 1"] h1(2) len(2) by auto
  moreover have "nodes L ((ps @ merge lt r1 r2) @ rest) = nodes L (ps @ x # xs)"
    using arg_cong [OF eq, of set] by (auto simp: nodes_def)
  ultimately show ?case
    using x unfolding pass_pair [OF pair(1,2)] by (auto intro: untouched_trans)
qed

text \<open>
  Orders on elements: the outcome of \<open>list_sort\<close>, with the number of passes at most one per run.
\<close>

locale element_order = list_less lt for lt :: "ptr \<Rightarrow> ptr \<Rightarrow> bool"
begin

definition stably_sorts :: "ptr list \<Rightarrow> ptr list \<Rightarrow> bool" where
  "stably_sorts xs ys \<longleftrightarrow> ordered lt ys \<and> mset ys = mset xs \<and>
     (\<forall>e. filter (equivalent e) ys = filter (equivalent e) xs)"

lemma sort_loop_dll:
  assumes "dll h L xs" "length xs < fuel" "runs lt xs < k"
  shows "\<exists>h' ys. sort_loop k fuel lt L h = Inr h' \<and> dll h' L ys \<and> stably_sorts xs ys \<and>
    untouched (nodes L xs) h h'"
  using assms
proof (induction k arbitrary: h xs)
  case (Suc k)
  let ?ys = "fst (pass lt fuel xs)" and ?n = "snd (pass lt fuel xs)"
  obtain h1 where h1: "pass_loop fuel fuel lt L (list_begin h L) 0 h = Inr (h1, ?n)"
    "dll h1 L ?ys" "untouched (nodes L xs) h h1"
    using pass_loop_dll [of xs fuel h L "[]" fuel lt 0] Suc.prems dll_begin [OF Suc.prems(1)] by auto
  note m = mset_pass [OF Suc.prems(2), of lt]
  note f = filter_pass [OF Suc.prems(2)]
  have len: "length ?ys < fuel" using mset_eq_length [OF m] Suc.prems(2) by simp
  have nodes: "nodes L ?ys = nodes L xs" using mset_eq_setD [OF m] by (simp add: nodes_def)
  note runs = runs_pass [OF Suc.prems(2)]
  show ?case
  proof (cases "?n > 1")
    case True
    then have "runs lt ?ys < k" using runs Suc.prems(3) by auto
    then show ?thesis
      using Suc.IH [OF h1(2) len] h1 True m f nodes
      by (auto simp: stably_sorts_def intro: untouched_trans)
  next
    case False
    then have "ordered lt ?ys" using runs by (auto simp: ordered_runs)
    then show ?thesis using h1 False m f by (auto simp: stably_sorts_def)
  qed
qed simp

lemma list_sort_dll:
  assumes "dll h L xs" "length xs < fuel"
  shows "\<exists>h' ys. list_sort fuel lt L h = Inr h' \<and> dll h' L ys \<and> stably_sorts xs ys \<and>
    untouched (nodes L xs) h h'"
proof -
  have "runs lt xs < fuel" using runs_le_length [of lt xs] assms(2) by simp
  from sort_loop_dll [OF assms this] obtain h' ys where
    h': "sort_loop fuel fuel lt L h = Inr h'" "dll h' L ys" "stably_sorts xs ys"
    "untouched (nodes L xs) h h'" by blast
  have len: "length ys < fuel" using h'(3) assms(2) mset_eq_length by (fastforce simp: stably_sorts_def)
  have "is_sorted fuel lt h' (list_begin h' L) (list_end L) = Inr True"
    using is_sorted_dll [of h' L "[]" ys "[]" fuel lt] h'(2,3) len dll_begin [OF h'(2)]
    by (simp add: stably_sorts_def list_end_def)
  then show ?thesis using h' by (auto simp: list_sort_def)
qed

end

section \<open>Refinement of the other ordered operations\<close>

fun insort_by :: "('a \<Rightarrow> 'a \<Rightarrow> bool) \<Rightarrow> 'a \<Rightarrow> 'a list \<Rightarrow> 'a list" where
  "insort_by lt e [] = [e]"
| "insort_by lt e (x # xs) = (if lt e x then e # x # xs else x # insort_by lt e xs)"

lemma insert_loop_dll:
  assumes "dll h L (ps @ xs)" "length xs < fuel"
  shows "\<exists>as bs. xs = as @ bs \<and> insort_by lt e xs = as @ e # bs \<and>
    insert_loop fuel lt L e h (at L xs) = Inr (at L bs)"
  using assms
proof (induction fuel arbitrary: ps xs)
  case (Suc fuel)
  show ?case
  proof (cases xs)
    case Nil
    then show ?thesis by (simp add: list_end_def)
  next
    case (Cons x xs')
    have x: "x \<noteq> list_end L" using Suc.prems Cons by (auto simp: dll_def list_end_def)
    have nx: "list_next h x = Inr (at L xs')" using dll_next Suc.prems(1) Cons by blast
    show ?thesis
    proof (cases "lt e x")
      case True
      then show ?thesis using Cons x by (intro exI [of _ "[]"] exI [of _ xs]) simp
    next
      case False
      obtain as bs where "xs' = as @ bs" "insort_by lt e xs' = as @ e # bs"
        "insert_loop fuel lt L e h (at L xs') = Inr (at L bs)"
        using Suc.IH [of "ps @ [x]" xs'] Suc.prems Cons by auto
      then show ?thesis
        using False Cons x nx by (intro exI [of _ "x # as"] exI [of _ bs]) simp
    qed
  qed
qed simp

lemma list_insert_ordered_dll:
  assumes "dll h L xs" "e \<notin> nodes L xs" "e \<noteq> 0" "length xs < fuel"
  shows "\<exists>h'. list_insert_ordered fuel lt L e h = Inr h' \<and> dll h' L (insort_by lt e xs)"
proof -
  obtain as bs where s: "xs = as @ bs" "insort_by lt e xs = as @ e # bs"
    "insert_loop fuel lt L e h (at L xs) = Inr (at L bs)"
    using insert_loop_dll [of h L "[]" xs fuel lt e] assms by auto
  then show ?thesis
    using list_insert_dll [of h L as bs e "at L bs"] assms dll_begin [OF assms(1)]
    by (auto simp: list_insert_ordered_def nodes_def)
qed

lemma extremum_loop_dll:
  assumes "dll h L (ps @ xs)" "length xs < fuel"
  shows "extremum_loop fuel better L h m (at L xs) =
    Inr (foldl (\<lambda>b e. if better b e then e else b) m xs)"
  using assms
proof (induction fuel arbitrary: ps xs m)
  case (Suc fuel)
  show ?case
  proof (cases xs)
    case (Cons x xs')
    have "x \<noteq> list_end L" using Suc.prems Cons by (auto simp: dll_def list_end_def)
    moreover have "list_next h x = Inr (at L xs')" using dll_next Suc.prems(1) Cons by blast
    ultimately show ?thesis
      using Suc.IH [of "ps @ [x]" xs'] Suc.prems Cons by simp
  qed (simp add: list_end_def)
qed simp

lemma extremum_dll:
  assumes "dll h L (x # xs)" "length xs < fuel"
  shows "list_begin h L = x" "x \<noteq> list_end L" "bindE (list_next h x) (extremum_loop fuel better L h x) =
    Inr (foldl (\<lambda>b e. if better b e then e else b) x xs)"
proof -
  show "list_begin h L = x" using dll_begin [OF assms(1)] by simp
  show "x \<noteq> list_end L" using assms by (auto simp: dll_def list_end_def)
  show "bindE (list_next h x) (extremum_loop fuel better L h x) =
      Inr (foldl (\<lambda>b e. if better b e then e else b) x xs)"
    using dll_next [of h L "[]" x xs] extremum_loop_dll [of h L "[x]" xs fuel better x] assms by simp
qed

fun unique_by :: "('a \<Rightarrow> 'a \<Rightarrow> bool) \<Rightarrow> 'a \<Rightarrow> 'a list \<Rightarrow> 'a list \<times> 'a list" where
  "unique_by lt x [] = ([x], [])"
| "unique_by lt x (y # ys) =
     (if \<not> lt x y \<and> \<not> lt y x then let (u, d) = unique_by lt x ys in (u, y # d)
      else let (u, d) = unique_by lt y ys in (x # u, d))"

lemma unique_by_hd: "\<exists>u. fst (unique_by lt x xs) = x # u"
  by (induction lt x xs rule: unique_by.induct) (auto simp: case_prod_beta)

lemma unique_by_mset: "mset (fst (unique_by lt x xs)) + mset (snd (unique_by lt x xs)) = mset (x # xs)"
  by (induction lt x xs rule: unique_by.induct) (auto simp: case_prod_beta)

text \<open>The duplicates' list, when there is one, is a list of its own.\<close>

definition dups_ok :: "links \<Rightarrow> plist \<Rightarrow> ptr list \<Rightarrow> plist option \<Rightarrow> ptr list \<Rightarrow> bool" where
  "dups_ok h L xs duplicates ds \<longleftrightarrow>
    (case duplicates of None \<Rightarrow> True | Some D \<Rightarrow> dll h D ds \<and> nodes D ds \<inter> nodes L xs = {})"

lemma list_remove_untouched:
  assumes "dll h L (xs @ e # ys)"
  shows "\<exists>h'. list_remove e h = Inr (at L ys, h') \<and> dll h' L (xs @ ys) \<and>
    untouched (nodes L (xs @ ys)) h h'"
  using list_remove_dll [OF assms] by (fastforce simp: untouched_def nodes_def)

lemma list_push_back_untouched:
  assumes "dll h L xs" "e \<notin> nodes L xs" "e \<noteq> 0"
  shows "\<exists>h'. list_push_back L e h = Inr h' \<and> dll h' L (xs @ [e]) \<and>
    untouched (nodes L (xs @ [e])) h h'"
  using list_insert_dll [of h L xs "[]" e "ltail L"] assms
  by (auto simp: untouched_def nodes_def list_push_back_def list_end_def)

lemma unique_step_dll:
  assumes "dll h L (ps @ x # y # ys)" "dups_ok h L (ps @ x # y # ys) duplicates ds"
  shows "\<exists>h1 h2. list_remove y h = Inr (at L ys, h1) \<and>
    (case duplicates of None \<Rightarrow> Inr h1 | Some D \<Rightarrow> list_push_back D y h1) = Inr h2 \<and>
    dll h2 L (ps @ x # ys) \<and> dups_ok h2 L (ps @ x # ys) duplicates (ds @ [y])"
proof -
  obtain h1 where h1: "list_remove y h = Inr (at L ys, h1)" "dll h1 L (ps @ x # ys)"
    "untouched (nodes L (ps @ x # ys)) h h1"
    using list_remove_untouched [of h L "ps @ [x]" y ys] assms(1) by auto
  have y: "y \<notin> nodes L (ps @ x # ys)" "y \<noteq> 0" using assms(1) by (auto simp: dll_def nodes_def)
  show ?thesis
  proof (cases duplicates)
    case None
    then show ?thesis using h1 by (simp add: dups_ok_def)
  next
    case (Some D)
    then have D: "dll h D ds" "nodes D ds \<inter> nodes L (ps @ x # y # ys) = {}"
      using assms(2) by (simp_all add: dups_ok_def)
    then have "dll h1 D ds" using dll_untouched [OF _ h1(3)] by auto
    moreover have "y \<notin> nodes D ds" using D(2) by auto
    ultimately obtain h2 where h2: "list_push_back D y h1 = Inr h2" "dll h2 D (ds @ [y])"
      "untouched (nodes D (ds @ [y])) h1 h2"
      using list_push_back_untouched y(2) by blast
    have disj: "nodes D (ds @ [y]) \<inter> nodes L (ps @ x # ys) = {}"
      using D(2) y(1) by (auto simp: nodes_def)
    then have "dll h2 L (ps @ x # ys)" using dll_untouched [OF h1(2) h2(3)] by auto
    then show ?thesis using h1(1) h2 disj Some by (simp add: dups_ok_def)
  qed
qed

lemma unique_loop_dll:
  assumes "dll h L (ps @ x # xs)" "dups_ok h L (ps @ x # xs) duplicates ds" "length xs < fuel"
  shows "\<exists>h'. unique_loop fuel lt L duplicates x h = Inr h' \<and>
    dll h' L (ps @ fst (unique_by lt x xs)) \<and>
    dups_ok h' L (ps @ fst (unique_by lt x xs)) duplicates (ds @ snd (unique_by lt x xs))"
  using assms
proof (induction fuel arbitrary: h ps x xs ds)
  case (Suc fuel)
  note nx = dll_next [OF Suc.prems(1)]
  show ?case
  proof (cases xs)
    case Nil
    then show ?thesis using nx Suc.prems by (simp add: list_end_def)
  next
    case [simp]: (Cons y ys)
    have y: "y \<noteq> list_end L" using Suc.prems(1) by (auto simp: dll_def list_end_def)
    show ?thesis
    proof (cases "\<not> lt x y \<and> \<not> lt y x")
      case True
      obtain h1 h2 where "list_remove y h = Inr (at L ys, h1)"
        "(case duplicates of None \<Rightarrow> Inr h1 | Some D \<Rightarrow> list_push_back D y h1) = Inr h2"
        "dll h2 L (ps @ x # ys)" "dups_ok h2 L (ps @ x # ys) duplicates (ds @ [y])"
        using unique_step_dll Suc.prems(1,2) by (simp del: append_assoc) blast
      then show ?thesis
        using Suc.IH [of h2 ps x ys "ds @ [y]"] Suc.prems(3) True nx y
        by (auto simp: case_prod_beta)
    next
      case False
      then show ?thesis
        using Suc.IH [of h "ps @ [x]" y ys ds] Suc.prems nx y by (auto simp: case_prod_beta)
    qed
  qed
qed simp

section \<open>What the ordered operations promise\<close>

lemma set_insort_by [simp]: "set (insort_by lt e xs) = insert e (set xs)"
  by (induction xs) auto

lemma mset_insort_by: "mset (insort_by lt e xs) = add_mset e (mset xs)"
  by (induction xs) auto

lemma set_unique_by: "set (fst (unique_by lt x xs)) \<subseteq> set (x # xs)"
  by (induction lt x xs rule: unique_by.induct) (auto simp: case_prod_beta)

context list_less
begin

lemma less_leq_trans: "lt x y \<Longrightarrow> \<not> lt z y \<Longrightarrow> lt x z"
  using weak by blast

lemma less_trans: "lt x y \<Longrightarrow> lt y z \<Longrightarrow> lt x z"
  using weak [of x y z] asym [of y z] by blast

lemma ordered_insort: "ordered lt xs \<Longrightarrow> ordered lt (insort_by lt e xs)"
proof (induction xs)
  case (Cons x xs)
  have "\<not> lt y e" if "lt e x" "\<not> lt y x" for y
    using leq_trans [of x e y] asym [OF that(1)] that(2) by blast
  then show ?case using Cons asym [of e x] by (auto simp: ordered_Cons)
qed simp

lemma insort_last: "ordered lt xs \<Longrightarrow>
    filter (equivalent e) (insort_by lt e xs) = filter (equivalent e) xs @ [e]"
proof (induction xs)
  case (Cons x xs)
  have e: "equivalent e e" by (simp add: irrefl equivalent_def)
  have none: "filter (equivalent e) (x # xs) = []" if "lt e x"
    using that Cons.prems less_leq_trans [OF that]
    by (auto simp: filter_empty_conv ordered_Cons equivalent_def)
  show ?case
  proof (cases "lt e x")
    case True
    then show ?thesis using none e by (simp del: filter.simps(2)) simp
  next
    case False
    then show ?thesis using Cons by (simp add: ordered_Cons)
  qed
qed (simp add: irrefl equivalent_def)

lemma first_best:
  "\<exists>as bs. x # xs = as @ foldl (\<lambda>b e. if lt b e then e else b) x xs # bs \<and>
     (\<forall>y \<in> set as. lt y (foldl (\<lambda>b e. if lt b e then e else b) x xs)) \<and>
     (\<forall>y \<in> set bs. \<not> lt (foldl (\<lambda>b e. if lt b e then e else b) x xs) y)"
proof (induction xs rule: rev_induct)
  case (snoc y ys)
  define m where "m = foldl (\<lambda>b e. if lt b e then e else b) x ys"
  obtain as bs where s: "x # ys = as @ m # bs" "\<forall>z \<in> set as. lt z m" "\<forall>z \<in> set bs. \<not> lt m z"
    using snoc unfolding m_def by blast
  have xs: "x # ys @ [y] = as @ m # bs @ [y]" using s(1) by simp
  show ?case
  proof (cases "lt m y")
    case True
    have "lt z y" if "z \<in> set (as @ m # bs)" for z
      using that s(2,3) True less_trans [of z m y] weak [OF True, of z] by auto
    then show ?thesis
      using True xs by (intro exI [of _ "as @ m # bs"] exI [of _ "[]"]) (simp add: m_def)
  next
    case False
    then show ?thesis
      using s xs by (intro exI [of _ as] exI [of _ "bs @ [y]"]) (auto simp flip: m_def)
  qed
qed (auto intro: exI [of _ "[]"])

text \<open>With no two neighbours equivalent, an ordered list is strictly increasing.\<close>

lemma unique_strict: "ordered lt (x # xs) \<Longrightarrow> sorted_wrt lt (fst (unique_by lt x xs))"
proof (induction lt\<equiv>lt x xs rule: unique_by.induct)
  case (2 x y ys)
  have "lt x z" if "lt x y" "z \<in> set (y # ys)" for z
    using that 2(3) less_leq_trans [of x y z] by (auto simp: ordered_Cons)
  moreover have "ordered lt (x # ys)"
    using 2(3) by (auto simp: ordered_Cons simp del: ordered.simps(1))
  ultimately show ?case
    using 2 set_unique_by [of lt y ys] by (auto simp: case_prod_beta ordered_Cons)
qed simp

end

text \<open>Turned round, the order is one again: what holds of the maximum holds of the minimum.\<close>

sublocale list_less \<subseteq> dual: list_less "\<lambda>x y. lt y x"
  using asym weak by unfold_locales blast+

section \<open>Comparison by a key\<close>

text \<open>
  The comparison functions of the repository read a number next to the list element and compare:
  \<open>value_less\<close> of \<open>tests/internal/list.c\<close>. \<open>val\<close> is that field, for every element.
\<close>

definition value_less :: "(ptr \<Rightarrow> int) \<Rightarrow> ptr \<Rightarrow> ptr \<Rightarrow> bool" where
  "value_less val a b = (val a < val b)"

interpretation by_value: element_order "value_less val" for val
  by unfold_locales (auto simp: value_less_def)

end
