(* ===== verification/Pintos_List_Properties.thy ===== *)
theory Pintos_List_Properties
  imports Pintos_Sort
begin

text \<open>
  The properties of \<open>src/lib/kernel/list.c\<close>: each operation, run on the links of a heap that
  represents a list, returns, and leaves a heap that represents the list it promises. The
  instances are over a heap with the elements 3, 4 and 5 between the headers 1 and 2.
\<close>

definition sample_list :: plist where
  "sample_list = \<lparr>lhead = 1, ltail = 2\<rparr>"

definition sample_heap :: links where
  "sample_heap = \<lparr>nxt = (\<lambda>_. 0)(1 := 3, 3 := 4, 4 := 5, 5 := 2),
                  prv = (\<lambda>_. 0)(3 := 1, 4 := 3, 5 := 4, 2 := 5)\<rparr>"

lemma sample_dll: "dll sample_heap sample_list [3, 4, 5]"
  by (simp add: dll_def sample_heap_def sample_list_def)

text \<open>Inserting an element before a position of a list and removing it again gives back the
  list; in between the element is at that position, and no link outside the list's nodes and the
  element itself has changed.\<close>

theorem list_insert_remove:
  assumes "dll h L (xs @ ys)" "e \<notin> nodes L (xs @ ys)" "e \<noteq> 0" "b = hd (ys @ [ltail L])"
  shows "\<exists>h1 h2. list_insert b e h = Inr h1 \<and> dll h1 L (xs @ e # ys) \<and>
    untouched (insert e (nodes L (xs @ ys))) h h1 \<and>
    list_remove e h1 = Inr (b, h2) \<and> dll h2 L (xs @ ys)"
proof -
  obtain h1 where h1: "list_insert b e h = Inr h1" "dll h1 L (xs @ e # ys)"
    "untouched (insert e (nodes L (xs @ ys))) h h1"
    using list_insert_dll [OF assms(1) _ assms(3,4)] assms(2)
    by (fastforce simp: untouched_def nodes_def)
  then show ?thesis using list_remove_untouched [OF h1(2)] assms(4) by auto
qed

theorem list_insert_remove_witness:
  "\<exists>h1 h2. list_insert 4 9 sample_heap = Inr h1 \<and> dll h1 sample_list [3, 9, 4, 5] \<and>
     list_remove 9 h1 = Inr (4, h2) \<and> dll h2 sample_list [3, 4, 5]"
  using list_insert_remove [of sample_heap sample_list "[3]" "[4, 5]" 9 4] sample_dll
  by (auto simp: nodes_def sample_list_def)

text \<open>The list is a double-ended queue. Pushing at either end puts the element there, popping at
  either end returns and removes the element there, and the size is the number of elements.\<close>

theorem list_deque:
  assumes "dll h L xs" "e \<notin> nodes L xs" "e \<noteq> 0" "length xs < fuel"
  shows "list_size fuel h L = Inr (length xs) \<and>
    (\<exists>h1. list_push_front L e h = Inr h1 \<and> dll h1 L (e # xs) \<and>
      (\<exists>h2. list_pop_front L h1 = Inr (e, h2) \<and> dll h2 L xs) \<and>
      (\<exists>h3. list_pop_back L h1 = Inr (last (e # xs), h3) \<and> dll h3 L (butlast (e # xs)))) \<and>
    (\<exists>h1. list_push_back L e h = Inr h1 \<and> dll h1 L (xs @ [e]) \<and>
      (\<exists>h2. list_pop_back L h1 = Inr (e, h2) \<and> dll h2 L xs) \<and>
      (\<exists>h3. list_pop_front L h1 = Inr (hd (xs @ [e]), h3) \<and> dll h3 L (tl (xs @ [e]))))"
proof -
  obtain h1 where f: "list_push_front L e h = Inr h1" "dll h1 L (e # xs)"
    using list_push_front_dll [OF assms(1)] assms(2,3) by (auto simp: nodes_def)
  then have "dll h1 L (butlast (e # xs) @ [last (e # xs)])"
    by (metis append_butlast_last_id list.distinct(1))
  note fs = f list_pop_front_dll [OF f(2)] list_pop_back_dll [OF this]
  obtain h1' where b: "list_push_back L e h = Inr h1'" "dll h1' L (xs @ [e])"
    using list_push_back_dll [OF assms(1)] assms(2,3) by (auto simp: nodes_def)
  then have "dll h1' L (hd (xs @ [e]) # tl (xs @ [e]))" by simp
  note bs = b list_pop_back_dll [OF b(2)] list_pop_front_dll [OF this]
  show ?thesis using list_size_dll [OF assms(1,4)] fs bs by blast
qed

theorem list_deque_witness:
  "list_size 4 sample_heap sample_list = Inr 3 \<and>
   (\<exists>h1 h2. list_push_back sample_list 9 sample_heap = Inr h1 \<and>
     list_pop_front sample_list h1 = Inr (3, h2) \<and> dll h2 sample_list [4, 5, 9])"
  using list_deque [OF sample_dll, of 9 4] by (auto simp: nodes_def sample_list_def)

text \<open>\<open>list_reverse\<close> reverses the list in place.\<close>

theorem list_reverse_correct:
  assumes "dll h L xs" "length xs < fuel"
  shows "\<exists>h'. list_reverse fuel L h = Inr h' \<and> dll h' L (rev xs)"
  by (rule list_reverse_dll [OF assms])

theorem list_reverse_correct_witness:
  "\<exists>h'. list_reverse 4 sample_list sample_heap = Inr h' \<and> dll h' sample_list [5, 4, 3]"
  using list_reverse_correct [OF sample_dll, of 4] by simp

text \<open>C4: \<open>list_sort\<close> returns, within one pass per run of the input, a permutation of the list that
  is sorted by the key and in which elements with equal keys keep their order; no link outside
  the list's nodes changes, and none of its assertions fails.\<close>

theorem list_sort_correct:
  assumes "dll h L xs" "length xs < fuel"
  shows "\<exists>h' ys. list_sort fuel (value_less val) L h = Inr h' \<and> dll h' L ys \<and>
    sorted (map val ys) \<and> mset ys = mset xs \<and>
    (\<forall>k. filter (\<lambda>e. val e = k) ys = filter (\<lambda>e. val e = k) xs) \<and> untouched (nodes L xs) h h'"
proof -
  obtain h' ys where h': "list_sort fuel (value_less val) L h = Inr h'" "dll h' L ys"
    "by_value.stably_sorts val xs ys" "untouched (nodes L xs) h h'"
    using by_value.list_sort_dll [OF assms] by blast
  have "sorted (map val ys)"
    using h'(3) by (simp add: by_value.stably_sorts_def by_value.ordered_iff_sorted_wrt
        value_less_def sorted_map not_less)
  moreover have "filter (\<lambda>e. val e = k) ys = filter (\<lambda>e. val e = k) xs" for k
  proof (cases "\<exists>e \<in> set xs. val e = k")
    case True
    then obtain e where "val e = k" by blast
    then have "by_value.equivalent val e = (\<lambda>e'. val e' = k)"
      by (auto simp: by_value.equivalent_def value_less_def)
    then show ?thesis using h'(3) unfolding by_value.stably_sorts_def by metis
  next
    case False
    then have "\<forall>e \<in> set ys. val e \<noteq> k"
      using h'(3) mset_eq_setD [of ys xs] by (auto simp: by_value.stably_sorts_def)
    with False show ?thesis by (simp add: filter_empty_conv)
  qed
  ultimately show ?thesis using h' by (auto simp: by_value.stably_sorts_def)
qed

theorem list_sort_correct_witness:
  "\<exists>h' ys. list_sort 4 (value_less (\<lambda>e. - int e)) sample_list sample_heap = Inr h' \<and>
     dll h' sample_list ys \<and> sorted (map (\<lambda>e. - int e) ys) \<and> mset ys = {#3, 4, 5#}"
  using list_sort_correct [OF sample_dll, of 4 "\<lambda>e. - int e"] by fastforce

text \<open>\<open>list_insert_ordered\<close> inserts the element into a sorted list so that it stays sorted, behind
  the elements with the same key.\<close>

theorem list_insert_ordered_correct:
  assumes "dll h L xs" "e \<notin> nodes L xs" "e \<noteq> 0" "length xs < fuel" "sorted (map val xs)"
  shows "\<exists>h' ys. list_insert_ordered fuel (value_less val) L e h = Inr h' \<and> dll h' L ys \<and>
    sorted (map val ys) \<and> mset ys = add_mset e (mset xs) \<and>
    filter (\<lambda>x. val x = val e) ys = filter (\<lambda>x. val x = val e) xs @ [e]"
proof -
  let ?ys = "insort_by (value_less val) e xs"
  have o: "ordered (value_less val) zs \<longleftrightarrow> sorted (map val zs)" for zs
    by (simp add: by_value.ordered_iff_sorted_wrt value_less_def sorted_map not_less)
  have eq: "by_value.equivalent val e = (\<lambda>x. val x = val e)"
    by (auto simp: by_value.equivalent_def value_less_def)
  have "sorted (map val ?ys)"
    "filter (\<lambda>x. val x = val e) ?ys = filter (\<lambda>x. val x = val e) xs @ [e]"
    using by_value.ordered_insort [of val xs e] by_value.insort_last [of val xs e] assms(5)
    unfolding o eq by blast+
  moreover obtain h' where "list_insert_ordered fuel (value_less val) L e h = Inr h'" "dll h' L ?ys"
    using list_insert_ordered_dll [OF assms(1-4), of "value_less val"] by blast
  ultimately show ?thesis
    using mset_insort_by [of "value_less val" e xs] by (intro exI [of _ h'] exI [of _ ?ys] conjI)
qed

theorem list_insert_ordered_correct_witness:
  "\<exists>h' ys. list_insert_ordered 4 (value_less (\<lambda>e. int e div 2)) sample_list 9 sample_heap = Inr h' \<and>
     dll h' sample_list ys \<and> sorted (map (\<lambda>e. int e div 2) ys) \<and> mset ys = {#9, 3, 4, 5#}"
proof -
  have "9 \<notin> nodes sample_list [3, 4, 5]" "sorted (map (\<lambda>e. int e div 2) [3, 4, 5])"
    by (simp_all add: nodes_def sample_list_def)
  from list_insert_ordered_correct [OF sample_dll this(1) _ _ this(2), of 4] show ?thesis by fastforce
qed

text \<open>\<open>list_unique\<close> on a sorted list leaves exactly one element of each key, in strictly
  increasing order, and appends the others to the list of duplicates.\<close>

theorem list_unique_correct:
  assumes "dll h L (x # xs)" "dll h D ds" "nodes D ds \<inter> nodes L (x # xs) = {}" "length xs < fuel"
    and "sorted (map val (x # xs))"
  shows "\<exists>h' us vs. list_unique fuel (value_less val) L (Some D) h = Inr h' \<and> dll h' L us \<and>
    dll h' D (ds @ vs) \<and> sorted_wrt (\<lambda>a b. val a < val b) us \<and> mset us + mset vs = mset (x # xs)"
proof -
  let ?u = "unique_by (value_less val) x xs"
  have "dups_ok h L ([] @ x # xs) (Some D) ds" using assms(2,3) by (simp add: dups_ok_def)
  from unique_loop_dll [OF _ this assms(4), of "value_less val"] assms(1) obtain h' where
    "unique_loop fuel (value_less val) L (Some D) x h = Inr h'" "dll h' L (fst ?u)"
    "dups_ok h' L (fst ?u) (Some D) (ds @ snd ?u)"
    by auto
  moreover have "list_begin h L = x" "\<not> list_empty h L"
    using dll_begin [OF assms(1)] dll_empty [OF assms(1)] by simp_all
  moreover have "sorted_wrt (value_less val) zs = sorted_wrt (\<lambda>a b. val a < val b) zs" for zs
    by (simp add: value_less_def [abs_def])
  moreover have "sorted_wrt (value_less val) (fst ?u)"
    using assms(5) by (intro by_value.unique_strict)
      (simp add: by_value.ordered_iff_sorted_wrt value_less_def sorted_map not_less)
  ultimately show ?thesis
    using unique_by_mset [of "value_less val" x xs]
    by (auto simp: list_unique_def dups_ok_def)
qed

theorem list_unique_correct_witness:
  "\<exists>h' us vs. list_unique 3 (value_less (\<lambda>e. int e div 2)) sample_list (Some \<lparr>lhead = 6, ltail = 7\<rparr>)
      (list_init \<lparr>lhead = 6, ltail = 7\<rparr> sample_heap) = Inr h' \<and> dll h' sample_list us \<and>
    dll h' \<lparr>lhead = 6, ltail = 7\<rparr> vs \<and> mset us + mset vs = {#3, 4, 5#}"
proof -
  let ?D = "\<lparr>lhead = 6, ltail = 7\<rparr>"
  have "dll (list_init ?D sample_heap) sample_list (3 # [4, 5])"
    by (rule dll_frame [OF sample_dll]) (auto simp: list_init_def sample_list_def)
  moreover have "dll (list_init ?D sample_heap) ?D []" by (rule list_init_dll) simp_all
  moreover have "nodes ?D [] \<inter> nodes sample_list (3 # [4, 5]) = {}"
    by (simp add: nodes_def sample_list_def)
  moreover have "sorted (map (\<lambda>e. int e div 2) (3 # [4, 5]))" by simp
  ultimately show ?thesis
    using list_unique_correct [of _ sample_list 3 "[4, 5]" ?D "[]" 3 "\<lambda>e. int e div 2"] by fastforce
qed

text \<open>\<open>list_max\<close> and \<open>list_min\<close> return the first element with the largest, or smallest, key; for
  an empty list both return its tail.\<close>

theorem list_max_min_correct:
  assumes "dll h L xs" "length xs < fuel"
  shows "(xs = [] \<longrightarrow> list_max fuel (value_less val) h L = Inr (list_end L) \<and>
                       list_min fuel (value_less val) h L = Inr (list_end L)) \<and>
    (xs \<noteq> [] \<longrightarrow> (\<exists>m as bs. list_max fuel (value_less val) h L = Inr m \<and> xs = as @ m # bs \<and>
       (\<forall>y \<in> set as. val y < val m) \<and> (\<forall>y \<in> set bs. val y \<le> val m))) \<and>
    (xs \<noteq> [] \<longrightarrow> (\<exists>m as bs. list_min fuel (value_less val) h L = Inr m \<and> xs = as @ m # bs \<and>
       (\<forall>y \<in> set as. val m < val y) \<and> (\<forall>y \<in> set bs. val m \<le> val y)))"
proof (cases xs)
  case Nil
  then show ?thesis
    using dll_begin [OF assms(1)] by (simp add: list_max_def list_min_def list_end_def Let_def)
next
  case (Cons x zs)
  note d = extremum_dll [of h L x zs fuel]
  have len: "length zs < fuel" using assms(2) Cons by simp
  have "list_max fuel (value_less val) h L =
      Inr (foldl (\<lambda>b e. if value_less val b e then e else b) x zs)"
    "list_min fuel (value_less val) h L =
      Inr (foldl (\<lambda>b e. if value_less val e b then e else b) x zs)"
    using d [OF assms(1) [unfolded Cons] len] by (simp_all add: list_max_def list_min_def)
  moreover note by_value.first_best [of x zs val] by_value.dual.first_best [of x zs val]
  ultimately show ?thesis
    using Cons by (auto simp: value_less_def not_less)
qed

theorem list_max_min_correct_witness:
  "\<exists>m. list_max 4 (value_less (\<lambda>e. int e div 2)) sample_heap sample_list = Inr m \<and> m \<in> {3, 4, 5}"
  using list_max_min_correct [OF sample_dll, of 4 "\<lambda>e. int e div 2"]
  by (auto simp: Cons_eq_append_conv)

end
