(* ===== verification/Pintos_Bitmap.thy ===== *)
theory Pintos_Bitmap
  imports Prelude
begin

unbundle bit_operations_syntax

text \<open>
  The bitmaps of Pintos, \<open>src/lib/kernel/bitmap.c\<close>. A bitmap is its number of bits and the array
  of 32-bit elements; \<open>size_t\<close> is a number below \<open>2 ^ 32\<close>, and the sums the code forms of two of
  them wrap around (\<open>add32\<close>). \<open>bmap b\<close> is the list of booleans a bitmap stands for, and every
  operation refines the obvious one on it. What \<open>malloc\<close> and the file functions return are
  arguments. \<open>bitmap_destroy\<close> frees memory and \<open>bitmap_dump\<close> prints: neither is modelled.
\<close>

section \<open>State and operations\<close>

record bitmap =
  bit_cnt :: nat
  bits :: "word_t list"

definition SIZE_MAX :: nat where "SIZE_MAX = 2 ^ 32 - 1"
definition BITMAP_ERROR :: nat where "BITMAP_ERROR = SIZE_MAX"
definition ELEM_BITS :: nat where "ELEM_BITS = 32"

definition add32 :: "nat \<Rightarrow> nat \<Rightarrow> nat" where
  "add32 a b = (a + b) mod 2 ^ 32"

definition DIV_ROUND_UP :: "nat \<Rightarrow> nat \<Rightarrow> nat" where
  "DIV_ROUND_UP x step = add32 x (step - 1) div step"

definition elem_idx :: "nat \<Rightarrow> nat" where
  "elem_idx bit_idx = bit_idx div ELEM_BITS"

definition bit_mask :: "nat \<Rightarrow> word_t" where
  "bit_mask bit_idx = push_bit (bit_idx mod ELEM_BITS) 1"

definition elem_cnt :: "nat \<Rightarrow> nat" where
  "elem_cnt n = DIV_ROUND_UP n ELEM_BITS"

definition byte_cnt :: "nat \<Rightarrow> nat" where
  "byte_cnt n = 4 * elem_cnt n"

definition last_mask :: "bitmap \<Rightarrow> word_t" where
  "last_mask b =
    (let last_bits = bit_cnt b mod ELEM_BITS in if last_bits \<noteq> 0 then push_bit last_bits 1 - 1 else - 1)"

definition bitmap_size :: "bitmap \<Rightarrow> nat" where
  "bitmap_size b = bit_cnt b"

definition bitmap_mark :: "bitmap \<Rightarrow> nat \<Rightarrow> c_error + bitmap" where
  "bitmap_mark b bit_idx =
    bindE (rd (bits b) (elem_idx bit_idx)) (\<lambda>e.
      Inr (b\<lparr>bits := (bits b)[elem_idx bit_idx := e OR bit_mask bit_idx]\<rparr>))"

definition bitmap_reset :: "bitmap \<Rightarrow> nat \<Rightarrow> c_error + bitmap" where
  "bitmap_reset b bit_idx =
    bindE (rd (bits b) (elem_idx bit_idx)) (\<lambda>e.
      Inr (b\<lparr>bits := (bits b)[elem_idx bit_idx := e AND NOT (bit_mask bit_idx)]\<rparr>))"

definition bitmap_flip :: "bitmap \<Rightarrow> nat \<Rightarrow> c_error + bitmap" where
  "bitmap_flip b bit_idx =
    bindE (rd (bits b) (elem_idx bit_idx)) (\<lambda>e.
      Inr (b\<lparr>bits := (bits b)[elem_idx bit_idx := e XOR bit_mask bit_idx]\<rparr>))"

definition bitmap_set :: "bitmap \<Rightarrow> nat \<Rightarrow> bool \<Rightarrow> c_error + bitmap" where
  "bitmap_set b idx v =
    bindE (guardE AssertFailed (idx < bit_cnt b)) (\<lambda>_.
      if v then bitmap_mark b idx else bitmap_reset b idx)"

definition bitmap_test :: "bitmap \<Rightarrow> nat \<Rightarrow> c_error + bool" where
  "bitmap_test b idx =
    bindE (guardE AssertFailed (idx < bit_cnt b)) (\<lambda>_.
    bindE (rd (bits b) (elem_idx idx)) (\<lambda>e. Inr (e AND bit_mask idx \<noteq> 0)))"

text \<open>The loops \<open>for (i = 0; i < cnt; i++)\<close>, with the number of steps left as first argument.\<close>

fun set_loop :: "nat \<Rightarrow> bitmap \<Rightarrow> nat \<Rightarrow> nat \<Rightarrow> bool \<Rightarrow> c_error + bitmap" where
  "set_loop 0 b start i v = Inr b"
| "set_loop (Suc k) b start i v =
     bindE (bitmap_set b (add32 start i) v) (\<lambda>b'. set_loop k b' start (i + 1) v)"

fun count_loop :: "nat \<Rightarrow> bitmap \<Rightarrow> nat \<Rightarrow> nat \<Rightarrow> bool \<Rightarrow> nat \<Rightarrow> c_error + nat" where
  "count_loop 0 b start i v value_cnt = Inr value_cnt"
| "count_loop (Suc k) b start i v value_cnt =
     bindE (bitmap_test b (add32 start i)) (\<lambda>t.
       count_loop k b start (i + 1) v (if t = v then value_cnt + 1 else value_cnt))"

fun contains_loop :: "nat \<Rightarrow> bitmap \<Rightarrow> nat \<Rightarrow> nat \<Rightarrow> bool \<Rightarrow> c_error + bool" where
  "contains_loop 0 b start i v = Inr False"
| "contains_loop (Suc k) b start i v =
     bindE (bitmap_test b (add32 start i)) (\<lambda>t.
       if t = v then Inr True else contains_loop k b start (i + 1) v)"

definition range_ok :: "bitmap \<Rightarrow> nat \<Rightarrow> nat \<Rightarrow> c_error + unit" where
  "range_ok b start cnt =
    bindE (guardE AssertFailed (start \<le> bit_cnt b)) (\<lambda>_.
      guardE AssertFailed (add32 start cnt \<le> bit_cnt b))"

definition bitmap_set_multiple :: "bitmap \<Rightarrow> nat \<Rightarrow> nat \<Rightarrow> bool \<Rightarrow> c_error + bitmap" where
  "bitmap_set_multiple b start cnt v =
    bindE (range_ok b start cnt) (\<lambda>_. set_loop cnt b start 0 v)"

definition bitmap_set_all :: "bitmap \<Rightarrow> bool \<Rightarrow> c_error + bitmap" where
  "bitmap_set_all b v = bitmap_set_multiple b 0 (bitmap_size b) v"

definition bitmap_count :: "bitmap \<Rightarrow> nat \<Rightarrow> nat \<Rightarrow> bool \<Rightarrow> c_error + nat" where
  "bitmap_count b start cnt v =
    bindE (range_ok b start cnt) (\<lambda>_. count_loop cnt b start 0 v 0)"

definition bitmap_contains :: "bitmap \<Rightarrow> nat \<Rightarrow> nat \<Rightarrow> bool \<Rightarrow> c_error + bool" where
  "bitmap_contains b start cnt v =
    bindE (range_ok b start cnt) (\<lambda>_. contains_loop cnt b start 0 v)"

definition bitmap_any :: "bitmap \<Rightarrow> nat \<Rightarrow> nat \<Rightarrow> c_error + bool" where
  "bitmap_any b start cnt = bitmap_contains b start cnt True"

definition bitmap_none :: "bitmap \<Rightarrow> nat \<Rightarrow> nat \<Rightarrow> c_error + bool" where
  "bitmap_none b start cnt = bindE (bitmap_contains b start cnt True) (\<lambda>r. Inr (\<not> r))"

definition bitmap_all :: "bitmap \<Rightarrow> nat \<Rightarrow> nat \<Rightarrow> c_error + bool" where
  "bitmap_all b start cnt = bindE (bitmap_contains b start cnt False) (\<lambda>r. Inr (\<not> r))"

function scan_loop :: "bitmap \<Rightarrow> nat \<Rightarrow> nat \<Rightarrow> nat \<Rightarrow> bool \<Rightarrow> c_error + nat" where
  "scan_loop b i last0 cnt v =
    (if i \<le> last0 then
       bindE (bitmap_contains b i cnt (\<not> v)) (\<lambda>r.
         if \<not> r then Inr i else scan_loop b (i + 1) last0 cnt v)
     else Inr BITMAP_ERROR)"
  by pat_completeness auto
termination by (relation "measure (\<lambda>(_, i, last0, _). Suc last0 - i)") auto

declare scan_loop.simps [simp del]

definition bitmap_scan :: "bitmap \<Rightarrow> nat \<Rightarrow> nat \<Rightarrow> bool \<Rightarrow> c_error + nat" where
  "bitmap_scan b start cnt v =
    bindE (guardE AssertFailed (start \<le> bit_cnt b)) (\<lambda>_.
      if cnt \<le> bit_cnt b then scan_loop b start (bit_cnt b - cnt) cnt v else Inr BITMAP_ERROR)"

definition bitmap_scan_and_flip :: "bitmap \<Rightarrow> nat \<Rightarrow> nat \<Rightarrow> bool \<Rightarrow> c_error + (nat \<times> bitmap)" where
  "bitmap_scan_and_flip b start cnt v =
    bindE (bitmap_scan b start cnt v) (\<lambda>idx.
      if idx \<noteq> BITMAP_ERROR then bindE (bitmap_set_multiple b idx cnt (\<not> v)) (\<lambda>b'. Inr (idx, b'))
      else Inr (idx, b))"

text \<open>
  Creation. \<open>m\<close> says whether the first \<open>malloc\<close> succeeds, \<open>mb n\<close> is the block the second returns
  for \<open>n\<close> bytes, as elements. \<open>block\<close> is the preallocated storage as words, its first two the
  header.
\<close>

definition bitmap_create :: "bool \<Rightarrow> (nat \<Rightarrow> word_t list option) \<Rightarrow> nat \<Rightarrow> c_error + bitmap option" where
  "bitmap_create m mb n =
    (if \<not> m then Inr None
     else case mb (byte_cnt n) of
       Some ws \<Rightarrow> bindE (bitmap_set_all \<lparr>bit_cnt = n, bits = ws\<rparr> False) (\<lambda>b. Inr (Some b))
     | None \<Rightarrow> if n = 0 then bindE (bitmap_set_all \<lparr>bit_cnt = n, bits = []\<rparr> False) (\<lambda>b. Inr (Some b))
                else Inr None)"

definition bitmap_buf_size :: "nat \<Rightarrow> nat" where
  "bitmap_buf_size n = add32 8 (byte_cnt n)"

definition bitmap_create_in_buf :: "nat \<Rightarrow> word_t list \<Rightarrow> nat \<Rightarrow> c_error + bitmap" where
  "bitmap_create_in_buf n block block_size =
    bindE (guardE AssertFailed (bitmap_buf_size n \<le> block_size)) (\<lambda>_.
      bitmap_set_all \<lparr>bit_cnt = n, bits = drop 2 block\<rparr> False)"

text \<open>Files: \<open>data\<close> is what \<open>file_read_at\<close> reads at offset 0, at most the size asked for.\<close>

definition bitmap_file_size :: "bitmap \<Rightarrow> nat" where
  "bitmap_file_size b = byte_cnt (bit_cnt b)"

definition image :: "word_t list \<Rightarrow> byte_t list" where
  "image ws = concat (map word_bytes ws)"

fun words_of :: "byte_t list \<Rightarrow> word_t list" where
  "words_of (b0 # b1 # b2 # b3 # bs) = bytes_word b0 b1 b2 b3 # words_of bs"
| "words_of _ = []"

definition bitmap_read :: "bitmap \<Rightarrow> byte_t list \<Rightarrow> c_error + (bool \<times> bitmap)" where
  "bitmap_read b file =
    (if bit_cnt b > 0 then
       let sz = byte_cnt (bit_cnt b);
           got = take sz file;
           ws = words_of (put_bytes (image (bits b)) 0 got);
           k = elem_cnt (bit_cnt b) - 1
       in bindE (rd ws k) (\<lambda>e.
            Inr (length got = sz, b\<lparr>bits := ws[k := e AND last_mask b]\<rparr>))
     else Inr (True, b))"

definition bitmap_write :: "bitmap \<Rightarrow> byte_t list" where
  "bitmap_write b = take (byte_cnt (bit_cnt b)) (image (bits b))"

section \<open>What a bitmap stands for\<close>

definition bmap :: "bitmap \<Rightarrow> bool list" where
  "bmap b = map (\<lambda>i. bit (bits b ! (i div 32)) (i mod 32)) [0 ..< bit_cnt b]"

definition bitmap_wf :: "bitmap \<Rightarrow> bool" where
  "bitmap_wf b \<longleftrightarrow> (bit_cnt b + 31) div 32 \<le> length (bits b) \<and> bit_cnt b + 31 < 2 ^ 32"

lemma length_bmap [simp]: "length (bmap b) = bit_cnt b"
  by (simp add: bmap_def)

lemma add32_small [simp]: "a + b < 2 ^ 32 \<Longrightarrow> add32 a b = a + b"
  by (simp add: add32_def)

lemma bitmap_wf_index:
  assumes "bitmap_wf b" "i < bit_cnt b"
  shows "elem_idx i < length (bits b)"
proof -
  have "i div 32 < (bit_cnt b + 31) div 32"
    using assms(2) by (simp add: div_less_iff_less_mult)
  then show ?thesis using assms(1) by (simp add: bitmap_wf_def elem_idx_def ELEM_BITS_def)
qed

lemma bit_bit_mask: "bit (bit_mask i) n \<longleftrightarrow> n = i mod 32"
  by (auto simp: bit_mask_def ELEM_BITS_def bit_push_bit_iff bit_1_iff simp del: push_bit_of_1)

text \<open>An update of one element that changes one bit is an update of the list.\<close>

lemma bmap_update:
  assumes "bitmap_wf b" "i < bit_cnt b"
    and "\<And>n. n < 32 \<Longrightarrow> bit e n = (if n = i mod 32 then v else bit (bits b ! (i div 32)) n)"
  shows "bmap (b\<lparr>bits := (bits b)[elem_idx i := e]\<rparr>) = (bmap b)[i := v]"
proof (rule nth_equalityI)
  fix j assume "j < length (bmap (b\<lparr>bits := (bits b)[elem_idx i := e]\<rparr>))"
  then have j: "j < bit_cnt b" by (simp add: bmap_def)
  have e: "elem_idx i = i div 32" by (simp add: elem_idx_def ELEM_BITS_def)
  have l: "i div 32 < length (bits b)" using bitmap_wf_index [OF assms(1,2)] e by simp
  have "j = i \<longleftrightarrow> j div 32 = i div 32 \<and> j mod 32 = i mod 32"
    by (metis div_mult_mod_eq)
  then show "bmap (b\<lparr>bits := (bits b)[elem_idx i := e]\<rparr>) ! j = (bmap b)[i := v] ! j"
    using j l assms(2,3) by (auto simp: bmap_def e nth_list_update)
qed (simp add: bmap_def)

lemma bitmap_wf_bits: "bitmap_wf b \<Longrightarrow> bitmap_wf (b\<lparr>bits := (bits b)[k := e]\<rparr>)"
  by (simp add: bitmap_wf_def)

lemma bitmap_set_bmap:
  assumes "bitmap_wf b" "i < bit_cnt b"
  shows "\<exists>b'. bitmap_set b i v = Inr b' \<and> bitmap_wf b' \<and> bmap b' = (bmap b)[i := v] \<and>
    bit_cnt b' = bit_cnt b"
proof -
  have l: "elem_idx i < length (bits b)" by (rule bitmap_wf_index [OF assms])
  have e: "elem_idx i = i div 32" by (simp add: elem_idx_def ELEM_BITS_def)
  let ?old = "bits b ! elem_idx i"
  let ?e = "if v then ?old OR bit_mask i else ?old AND NOT (bit_mask i)"
  have "bitmap_set b i v = Inr (b\<lparr>bits := (bits b)[elem_idx i := ?e]\<rparr>)"
    using assms(2) l by (simp add: bitmap_set_def bitmap_mark_def bitmap_reset_def)
  moreover have "bmap (b\<lparr>bits := (bits b)[elem_idx i := ?e]\<rparr>) = (bmap b)[i := v]"
    by (rule bmap_update [OF assms])
      (auto simp: bit_or_iff bit_and_iff bit_not_iff bit_bit_mask e)
  ultimately show ?thesis using bitmap_wf_bits [OF assms(1)] by simp
qed

lemma bitmap_flip_bmap:
  assumes "bitmap_wf b" "i < bit_cnt b"
  shows "\<exists>b'. bitmap_flip b i = Inr b' \<and> bitmap_wf b' \<and> bmap b' = (bmap b)[i := \<not> bmap b ! i] \<and>
    bit_cnt b' = bit_cnt b"
proof -
  have l: "elem_idx i < length (bits b)" by (rule bitmap_wf_index [OF assms])
  have e: "elem_idx i = i div 32" by (simp add: elem_idx_def ELEM_BITS_def)
  have "bmap (b\<lparr>bits := (bits b)[elem_idx i := bits b ! elem_idx i XOR bit_mask i]\<rparr>) =
      (bmap b)[i := \<not> bmap b ! i]"
    by (rule bmap_update [OF assms])
      (use assms(2) in \<open>auto simp: bit_xor_iff bit_bit_mask e bmap_def\<close>)
  then show ?thesis using bitmap_wf_bits [OF assms(1)] l by (simp add: bitmap_flip_def)
qed

lemma bitmap_test_bmap:
  assumes "bitmap_wf b" "i < bit_cnt b"
  shows "bitmap_test b i = Inr (bmap b ! i)"
proof -
  have l: "elem_idx i < length (bits b)" by (rule bitmap_wf_index [OF assms])
  have "w AND bit_mask i \<noteq> 0 \<longleftrightarrow> bit w (i mod 32)" for w :: word_t
    unfolding bit_mask_def push_bit_of_1 by (simp only: and_exp_eq_0_iff_not_bit ELEM_BITS_def) simp
  then show ?thesis
    using assms(2) l by (simp add: bitmap_test_def bmap_def elem_idx_def ELEM_BITS_def)
qed

section \<open>Ranges\<close>

text \<open>\<open>window xs i n\<close>: the \<open>n\<close> bits from \<open>i\<close>; \<open>free_at xs n v i\<close>: they exist and are all \<open>v\<close>.\<close>

definition window :: "'a list \<Rightarrow> nat \<Rightarrow> nat \<Rightarrow> 'a list" where
  "window xs i n = take n (drop i xs)"

definition free_at :: "bool list \<Rightarrow> nat \<Rightarrow> bool \<Rightarrow> nat \<Rightarrow> bool" where
  "free_at xs n v i \<longleftrightarrow> i + n \<le> length xs \<and> (\<forall>j < n. xs ! (i + j) = v)"

lemma window_Suc: "i < length xs \<Longrightarrow> window xs i (Suc n) = xs ! i # window xs (Suc i) n"
  by (simp add: window_def flip: Cons_nth_drop_Suc)

lemma window_0 [simp]: "window xs i 0 = []"
  by (simp add: window_def)

lemma free_at_window: "i + n \<le> length xs \<Longrightarrow> free_at xs n v i \<longleftrightarrow> (\<not> v) \<notin> set (window xs i n)"
  by (auto simp: free_at_def window_def in_set_conv_nth)

lemma bitmap_wf_small: "bitmap_wf b \<Longrightarrow> bit_cnt b + 31 < 2 ^ 32"
  by (simp add: bitmap_wf_def)

lemma range_ok_iff:
  assumes "bitmap_wf b" "start + cnt \<le> bit_cnt b"
  shows "range_ok b start cnt = Inr ()"
  using assms bitmap_wf_small [OF assms(1)] by (simp add: range_ok_def)

lemma set_loop_bmap:
  assumes "bitmap_wf b" "start + i + k \<le> bit_cnt b"
  shows "\<exists>b'. set_loop k b start i v = Inr b' \<and> bitmap_wf b' \<and> bit_cnt b' = bit_cnt b \<and>
    bmap b' = put_bytes (bmap b) (start + i) (replicate k v)"
  using assms
proof (induction k arbitrary: b i)
  case (Suc k)
  have a: "add32 start i = start + i" using Suc.prems bitmap_wf_small [OF Suc.prems(1)] by simp
  obtain b1 where b1: "bitmap_set b (start + i) v = Inr b1" "bitmap_wf b1"
    "bmap b1 = (bmap b)[start + i := v]" "bit_cnt b1 = bit_cnt b"
    using bitmap_set_bmap [OF Suc.prems(1), of "start + i" v] Suc.prems(2) by auto
  have "put_bytes (bmap b1) (Suc (start + i)) (replicate k v) =
      put_bytes (bmap b) (start + i) (replicate (Suc k) v)"
    using Suc.prems(2) b1(3) by (simp add: put_bytes_Cons)
  then show ?case
    using Suc.IH [OF b1(2), of "i + 1"] Suc.prems(2) a b1(1,4) by simp
qed simp

lemma bitmap_set_multiple_bmap:
  assumes "bitmap_wf b" "start + cnt \<le> bit_cnt b"
  shows "\<exists>b'. bitmap_set_multiple b start cnt v = Inr b' \<and> bitmap_wf b' \<and> bit_cnt b' = bit_cnt b \<and>
    bmap b' = put_bytes (bmap b) start (replicate cnt v)"
  using set_loop_bmap [of b start 0 cnt v] range_ok_iff [OF assms] assms
  by (simp add: bitmap_set_multiple_def)

lemma count_loop_bmap:
  assumes "bitmap_wf b" "start + i + k \<le> bit_cnt b"
  shows "count_loop k b start i v n = Inr (n + count_list (window (bmap b) (start + i) k) v)"
  using assms
proof (induction k arbitrary: i n)
  case (Suc k)
  have "add32 start i = start + i" using Suc.prems bitmap_wf_small [OF Suc.prems(1)] by simp
  moreover have "bitmap_test b (start + i) = Inr (bmap b ! (start + i))"
    using Suc.prems by (intro bitmap_test_bmap) auto
  ultimately show ?case
    using Suc.IH [of "i + 1"] Suc.prems by (simp add: window_Suc)
qed simp

lemma bitmap_count_bmap:
  assumes "bitmap_wf b" "start + cnt \<le> bit_cnt b"
  shows "bitmap_count b start cnt v = Inr (count_list (window (bmap b) start cnt) v)"
  using count_loop_bmap [of b start 0 cnt v 0] range_ok_iff [OF assms] assms
  by (simp add: bitmap_count_def)

lemma contains_loop_bmap:
  assumes "bitmap_wf b" "start + i + k \<le> bit_cnt b"
  shows "contains_loop k b start i v = Inr (v \<in> set (window (bmap b) (start + i) k))"
  using assms
proof (induction k arbitrary: i)
  case (Suc k)
  have "add32 start i = start + i" using Suc.prems bitmap_wf_small [OF Suc.prems(1)] by simp
  moreover have "bitmap_test b (start + i) = Inr (bmap b ! (start + i))"
    using Suc.prems by (intro bitmap_test_bmap) auto
  ultimately show ?case
    using Suc.IH [of "i + 1"] Suc.prems by (auto simp add: window_Suc)
qed simp

lemma bitmap_contains_bmap:
  assumes "bitmap_wf b" "start + cnt \<le> bit_cnt b"
  shows "bitmap_contains b start cnt v = Inr (v \<in> set (window (bmap b) start cnt))"
  using contains_loop_bmap [of b start 0 cnt v] range_ok_iff [OF assms] assms
  by (simp add: bitmap_contains_def)

lemma bitmap_all_bmap:
  assumes "bitmap_wf b" "start + cnt \<le> bit_cnt b"
  shows "bitmap_all b start cnt = Inr (free_at (bmap b) cnt True start)"
  using bitmap_contains_bmap [OF assms] assms(2) by (simp add: bitmap_all_def free_at_window)

lemma scan_loop_bmap:
  assumes "bitmap_wf b" "last0 + cnt \<le> bit_cnt b"
  shows "\<exists>r. scan_loop b i last0 cnt v = Inr r \<and>
    (if \<exists>j. i \<le> j \<and> j \<le> last0 \<and> free_at (bmap b) cnt v j
     then r = (LEAST j. i \<le> j \<and> j \<le> last0 \<and> free_at (bmap b) cnt v j)
     else r = BITMAP_ERROR)"
  using assms
proof (induction b i last0 cnt v rule: scan_loop.induct)
  case (1 b i last0 cnt v)
  show ?case
  proof (cases "i \<le> last0")
    case False
    then have "\<not> (\<exists>j. i \<le> j \<and> j \<le> last0 \<and> free_at (bmap b) cnt v j)" by auto
    then show ?thesis using False by (simp only: scan_loop.simps [of b i] if_False) simp
  next
    case True
    have c: "bitmap_contains b i cnt (\<not> v) = Inr (\<not> free_at (bmap b) cnt v i)"
      using bitmap_contains_bmap [of b i cnt "\<not> v"] "1.prems" True by (simp add: free_at_window)
    show ?thesis
    proof (cases "free_at (bmap b) cnt v i")
      case f: True
      then have "(LEAST j. i \<le> j \<and> j \<le> last0 \<and> free_at (bmap b) cnt v j) = i"
        using True by (intro Least_equality) auto
      then show ?thesis using True f c by (auto simp: scan_loop.simps [of b i])
    next
      case f: False
      have eq: "(i \<le> j \<and> j \<le> last0 \<and> free_at (bmap b) cnt v j) \<longleftrightarrow>
          (i + 1 \<le> j \<and> j \<le> last0 \<and> free_at (bmap b) cnt v j)" for j
        using f by (cases "j = i") auto
      show ?thesis
        unfolding eq using "1.IH" [OF True c] "1.prems" True f c by (simp add: scan_loop.simps [of b i])
    qed
  qed
qed

lemma bitmap_scan_bmap:
  assumes "bitmap_wf b" "start \<le> bit_cnt b"
  shows "\<exists>r. bitmap_scan b start cnt v = Inr r \<and>
    (if \<exists>j \<ge> start. free_at (bmap b) cnt v j
     then r = (LEAST j. start \<le> j \<and> free_at (bmap b) cnt v j) else r = BITMAP_ERROR)"
proof (cases "cnt \<le> bit_cnt b")
  case True
  have eq: "(start \<le> j \<and> j \<le> bit_cnt b - cnt \<and> free_at (bmap b) cnt v j) \<longleftrightarrow>
      (start \<le> j \<and> free_at (bmap b) cnt v j)" for j
    by (auto simp: free_at_def)
  have "bitmap_scan b start cnt v = scan_loop b start (bit_cnt b - cnt) cnt v"
    using True assms(2) by (simp add: bitmap_scan_def)
  then show ?thesis
    using scan_loop_bmap [OF assms(1), of "bit_cnt b - cnt" cnt start v] True unfolding eq by simp
next
  case False
  then have "\<not> free_at (bmap b) cnt v j" for j by (simp add: free_at_def)
  then show ?thesis using False assms(2) by (simp add: bitmap_scan_def)
qed

lemma bitmap_scan_and_flip_bmap:
  assumes "bitmap_wf b" "start \<le> bit_cnt b"
  shows "\<exists>r b'. bitmap_scan_and_flip b start cnt v = Inr (r, b') \<and> bitmap_wf b' \<and> bit_cnt b' = bit_cnt b \<and>
    (if \<exists>j \<ge> start. free_at (bmap b) cnt v j
     then r = (LEAST j. start \<le> j \<and> free_at (bmap b) cnt v j) \<and> r \<noteq> BITMAP_ERROR \<and>
          bmap b' = put_bytes (bmap b) r (replicate cnt (\<not> v))
     else r = BITMAP_ERROR \<and> b' = b)"
proof -
  obtain r where r: "bitmap_scan b start cnt v = Inr r"
    "if \<exists>j \<ge> start. free_at (bmap b) cnt v j
     then r = (LEAST j. start \<le> j \<and> free_at (bmap b) cnt v j) else r = BITMAP_ERROR"
    using bitmap_scan_bmap [OF assms] by blast
  show ?thesis
  proof (cases "\<exists>j \<ge> start. free_at (bmap b) cnt v j")
    case True
    then have "start \<le> r \<and> free_at (bmap b) cnt v r"
      using r(2) LeastI_ex [of "\<lambda>j. start \<le> j \<and> free_at (bmap b) cnt v j"] by simp
    then have f: "r + cnt \<le> bit_cnt b" by (simp add: free_at_def)
    then have "r \<noteq> BITMAP_ERROR"
      using bitmap_wf_small [OF assms(1)] by (simp add: BITMAP_ERROR_def SIZE_MAX_def)
    then show ?thesis
      using bitmap_set_multiple_bmap [OF assms(1) f, of "\<not> v"] r True
      by (auto simp: bitmap_scan_and_flip_def)
  next
    case False
    then show ?thesis using r assms(1) by (simp add: bitmap_scan_and_flip_def)
  qed
qed

section \<open>Creation and files\<close>

lemma elem_cnt_eq: "n + 31 < 2 ^ 32 \<Longrightarrow> elem_cnt n = (n + 31) div 32"
  by (simp add: elem_cnt_def DIV_ROUND_UP_def ELEM_BITS_def)

lemma bitmap_set_all_bmap:
  assumes "bitmap_wf b"
  shows "\<exists>b'. bitmap_set_all b v = Inr b' \<and> bitmap_wf b' \<and> bmap b' = replicate (bit_cnt b) v \<and>
    bit_cnt b' = bit_cnt b"
  using bitmap_set_multiple_bmap [OF assms, of 0 "bit_cnt b" v]
  by (auto simp: bitmap_set_all_def bitmap_size_def put_bytes_def)

lemma bitmap_create_bmap:
  assumes "n + 31 < 2 ^ 32" "mb (byte_cnt n) = Some ws" "length ws = elem_cnt n"
  shows "\<exists>b. bitmap_create True mb n = Inr (Some b) \<and> bitmap_wf b \<and> bmap b = replicate n False"
  using bitmap_set_all_bmap [of "\<lparr>bit_cnt = n, bits = ws\<rparr>" False] assms
  by (auto simp: bitmap_create_def bitmap_wf_def elem_cnt_eq)

lemma bitmap_create_in_buf_bmap:
  assumes "n + 31 < 2 ^ 32" "bitmap_buf_size n \<le> block_size" "elem_cnt n + 2 \<le> length block"
  shows "\<exists>b. bitmap_create_in_buf n block block_size = Inr b \<and> bitmap_wf b \<and> bmap b = replicate n False"
proof -
  have "bitmap_wf \<lparr>bit_cnt = n, bits = drop 2 block\<rparr>"
    using assms(1,3) by (simp add: bitmap_wf_def elem_cnt_eq)
  from bitmap_set_all_bmap [OF this, of False] show ?thesis
    using assms(2) by (auto simp: bitmap_create_in_buf_def)
qed

lemma image_Cons [simp]: "image (w # ws) = word_bytes w @ image ws" "image [] = []"
  by (simp_all add: image_def)

lemma length_image [simp]: "length (image ws) = 4 * length ws"
  by (induction ws) simp_all

lemma words_of_image [simp]: "words_of (image ws) = ws"
  by (induction ws) (simp_all add: word_bytes_def)

lemma last_mask_bits:
  assumes "0 < bit_cnt b" "n < 32"
  shows "bit (last_mask b) n \<longleftrightarrow> n < (if bit_cnt b mod 32 = 0 then 32 else bit_cnt b mod 32)"
proof -
  have "push_bit k 1 - 1 = (mask k :: word_t)" for k
    by (simp add: mask_eq_exp_minus_1 push_bit_of_1)
  then show ?thesis
    using assms by (auto simp: last_mask_def ELEM_BITS_def Let_def bit_mask_iff simp del: push_bit_of_1)
qed

lemma last_elem_bits:
  assumes "i < (n :: nat)" "i div 32 = (n + 31) div 32 - 1"
  shows "i mod 32 < (if n mod 32 = 0 then 32 else n mod 32)"
proof (cases "n mod 32 = 0")
  case False
  have n: "n = 32 * (n div 32) + n mod 32" by simp
  then have "n + 31 = (n mod 32 + 31) + 32 * (n div 32)" by linarith
  then have "(n + 31) div 32 = ((n mod 32 + 31) + 32 * (n div 32)) div 32" by (rule arg_cong)
  also have "\<dots> = n div 32 + (n mod 32 + 31) div 32" by (rule div_mult_self2) simp
  finally have "(n + 31) div 32 = n div 32 + (n mod 32 + 31) div 32" .
  moreover have "(n mod 32 + 31) div 32 = 1"
    using False mod_less_divisor [of 32 n] by (intro div_nat_eqI) auto
  ultimately have "i div 32 = n div 32" using assms(2) by simp
  moreover have "i = 32 * (i div 32) + i mod 32" by simp
  ultimately have "i mod 32 < n mod 32" using assms(1) n by linarith
  then show ?thesis using False by simp
qed simp

text \<open>Writing a bitmap and reading it back gives the same bits, and zeroes the spare ones.\<close>

lemma bitmap_read_write:
  assumes "bitmap_wf b" "length (bits b) = elem_cnt (bit_cnt b)"
    and "bit_cnt b' = bit_cnt b" "length (bits b') = length (bits b)"
  shows "\<exists>b''. bitmap_read b' (bitmap_write b @ rest) = Inr (True, b'') \<and> bitmap_wf b'' \<and> bmap b'' = bmap b \<and>
    length (bits b'') = length (bits b) \<and> bit_cnt b'' = bit_cnt b"
proof (cases "bit_cnt b = 0")
  case True
  then have "bitmap_wf b'" using assms by (simp add: bitmap_wf_def)
  then show ?thesis using True assms by (simp add: bitmap_read_def bmap_def)
next
  case False
  let ?n = "bit_cnt b" and ?k = "elem_cnt (bit_cnt b) - 1"
  have ec: "elem_cnt ?n = (?n + 31) div 32" using bitmap_wf_small [OF assms(1)] by (rule elem_cnt_eq)
  then have pos: "0 < elem_cnt ?n" using False by (simp add: div_greater_zero_iff)
  have len: "4 * elem_cnt ?n = length (image (bits b))" using assms(2) by simp
  have w: "bitmap_write b = image (bits b)" using len by (simp add: bitmap_write_def byte_cnt_def)
  have "put_bytes (image (bits b')) 0 (image (bits b)) = image (bits b)"
    using assms(4) by (simp add: put_bytes_def)
  then have r: "bitmap_read b' (bitmap_write b @ rest) =
      Inr (True, b'\<lparr>bits := (bits b)[?k := bits b ! ?k AND last_mask b']\<rparr>)"
    using False assms(2,3) pos by (simp add: bitmap_read_def w byte_cnt_def Let_def)
  let ?b = "b'\<lparr>bits := (bits b)[?k := bits b ! ?k AND last_mask b']\<rparr>"
  have "bmap ?b = bmap b"
  proof (rule nth_equalityI)
    fix i assume "i < length (bmap ?b)"
    then have i: "i < ?n" using assms(3) by simp
    have lm: "bit (last_mask b') (i mod 32)" if "i div 32 = ?k"
      using last_elem_bits [OF i] that last_mask_bits [of b' "i mod 32"] assms(3) False ec
      by (auto split: if_splits)
    have "i div 32 < length (bits b)"
      using bitmap_wf_index [OF assms(1) i] by (simp add: elem_idx_def ELEM_BITS_def)
    then show "bmap ?b ! i = bmap b ! i"
      using i lm assms(3) by (cases "i div 32 = ?k") (simp_all add: bmap_def bit_and_iff)
  qed (use assms(3) in simp)
  moreover have "bitmap_wf ?b" using assms(1,3) by (simp add: bitmap_wf_def)
  ultimately show ?thesis using r assms(3) by auto
qed

section \<open>The allocator interface\<close>

text \<open>
  What the page allocator and the free map of the file system need of a bitmap: to take the
  first run of free entries, to give it back, and to check that it is taken.
\<close>

locale range_allocator =
  fixes view :: "'b \<Rightarrow> bool list"
    and inv :: "'b \<Rightarrow> bool"
    and take_range :: "'b \<Rightarrow> nat \<Rightarrow> c_error + (nat \<times> 'b)"
    and give_range :: "'b \<Rightarrow> nat \<Rightarrow> nat \<Rightarrow> c_error + 'b"
    and taken :: "'b \<Rightarrow> nat \<Rightarrow> nat \<Rightarrow> c_error + bool"
    and none :: nat
  assumes take_ok: "inv b \<Longrightarrow> \<exists>i b'. take_range b n = Inr (i, b') \<and> inv b' \<and>
      (if \<exists>j. free_at (view b) n False j
       then i \<noteq> none \<and> free_at (view b) n False i \<and> view b' = put_bytes (view b) i (replicate n True)
       else i = none \<and> b' = b)"
    and give_ok: "inv b \<Longrightarrow> i + n \<le> length (view b) \<Longrightarrow> \<exists>b'. give_range b i n = Inr b' \<and> inv b' \<and>
      view b' = put_bytes (view b) i (replicate n False)"
    and taken_ok: "inv b \<Longrightarrow> i + n \<le> length (view b) \<Longrightarrow> taken b i n = Inr (free_at (view b) n True i)"
begin

lemma taken_after_take:
  assumes "inv b" "take_range b n = Inr (i, b')" "i \<noteq> none"
  shows "inv b'" "free_at (view b) n False i" "view b' = put_bytes (view b) i (replicate n True)"
    "taken b' i n = Inr True"
proof -
  show inv: "inv b'" and free: "free_at (view b) n False i"
    and view: "view b' = put_bytes (view b) i (replicate n True)"
    using take_ok [OF assms(1), of n] assms(2,3) by (auto split: if_splits)
  have "i + n \<le> length (view b)" using free by (simp add: free_at_def)
  then show "taken b' i n = Inr True"
    using taken_ok [OF inv, of i n] by (auto simp: view free_at_def nth_put_bytes)
qed

lemma take_then_give:
  assumes "inv b" "take_range b n = Inr (i, b')" "i \<noteq> none"
  shows "\<exists>b''. give_range b' i n = Inr b'' \<and> inv b'' \<and> view b'' = view b"
proof -
  note t = taken_after_take [OF assms]
  have len: "i + n \<le> length (view b)" using t(2) by (simp add: free_at_def)
  have "put_bytes (put_bytes (view b) i (replicate n True)) i (replicate n False) = view b"
  proof (rule nth_equalityI)
    fix j assume "j < length (put_bytes (put_bytes (view b) i (replicate n True)) i (replicate n False))"
    then have "j < length (view b)" using len by simp
    moreover have "view b ! j = False" if "i \<le> j" "j < i + n"
      using that t(2) by (auto simp: free_at_def dest: spec [of _ "j - i"])
    ultimately show "put_bytes (put_bytes (view b) i (replicate n True)) i (replicate n False) ! j = view b ! j"
      using len by (auto simp: nth_put_bytes)
  qed (use len in simp)
  then show ?thesis using give_ok [OF t(1), of i n] len t(3) by auto
qed

lemma takes_disjoint:
  assumes "inv b" "take_range b n = Inr (i, b1)" "i \<noteq> none" "take_range b1 m = Inr (j, b2)" "j \<noteq> none"
  shows "{i ..< i + n} \<inter> {j ..< j + m} = {}"
proof -
  note t = taken_after_take [OF assms(1-3)]
  note u = taken_after_take [OF t(1) assms(4,5)]
  have len: "i + n \<le> length (view b)" using t(2) by (simp add: free_at_def)
  have "view b1 ! k" if "k \<in> {i ..< i + n}" for k
    using that len t(3) by (auto simp: nth_put_bytes)
  moreover have "\<not> view b1 ! k" if "k \<in> {j ..< j + m}" for k
    using that u(2) by (auto simp: free_at_def dest: spec [of _ "k - j"])
  ultimately show ?thesis by blast
qed

end

interpretation bitmap: range_allocator bmap bitmap_wf "\<lambda>b n. bitmap_scan_and_flip b 0 n False"
  "\<lambda>b i n. bitmap_set_multiple b i n False" bitmap_all BITMAP_ERROR
proof (unfold_locales, goal_cases)
  case (1 b n)
  have "free_at (bmap b) n False (LEAST j. 0 \<le> j \<and> free_at (bmap b) n False j)"
    if "\<exists>j. free_at (bmap b) n False j"
    using LeastI_ex [of "free_at (bmap b) n False"] that by simp
  moreover obtain r b' where "bitmap_scan_and_flip b 0 n False = Inr (r, b')" "bitmap_wf b'"
    "if \<exists>j \<ge> 0. free_at (bmap b) n False j
     then r = (LEAST j. 0 \<le> j \<and> free_at (bmap b) n False j) \<and> r \<noteq> BITMAP_ERROR \<and>
          bmap b' = put_bytes (bmap b) r (replicate n (\<not> False))
     else r = BITMAP_ERROR \<and> b' = b"
    using bitmap_scan_and_flip_bmap [OF 1, of 0 n False] by blast
  ultimately show ?case
    by (intro exI [of _ r] exI [of _ b']) (cases "\<exists>j. free_at (bmap b) n False j", simp_all)
next
  case (2 b i n)
  then show ?case using bitmap_set_multiple_bmap [of b i n False] by auto
next
  case (3 b i n)
  then show ?case by (simp add: bitmap_all_bmap)
qed

end
