(* ===== verification/Pintos_Pages.thy ===== *)
theory Pintos_Pages
  imports Pintos_Bitmap
begin

unbundle bit_operations_syntax

text \<open>
  The two clients of the bitmap that hand out ranges: the page allocator \<open>threads/palloc.c\<close> (with
  the address arithmetic of \<open>threads/vaddr.h\<close>) and the free map of the file system,
  \<open>filesys/free-map.c\<close>. Addresses are 32-bit words. The pool's lock is not modelled: each
  operation is one step. For the free map, what the file layer answers (is the file open, did
  the write succeed, what is then in the file) is an argument.
\<close>

section \<open>Virtual addresses\<close>

definition PGBITS :: nat where "PGBITS = 12"
definition PGSIZE :: nat where "PGSIZE = 4096"
definition PGMASK :: word_t where "PGMASK = 4095"
definition PHYS_BASE :: word_t where "PHYS_BASE = 0xc0000000"

definition pg_ofs :: "word_t \<Rightarrow> word_t" where "pg_ofs va = va AND PGMASK"
definition pg_no :: "word_t \<Rightarrow> word_t" where "pg_no va = drop_bit PGBITS va"
definition pg_round_up :: "word_t \<Rightarrow> word_t" where
  "pg_round_up va = (va + of_nat PGSIZE - 1) AND NOT PGMASK"
definition pg_round_down :: "word_t \<Rightarrow> word_t" where "pg_round_down va = va AND NOT PGMASK"
definition is_user_vaddr :: "word_t \<Rightarrow> bool" where "is_user_vaddr va = (va < PHYS_BASE)"
definition is_kernel_vaddr :: "word_t \<Rightarrow> bool" where "is_kernel_vaddr va = (PHYS_BASE \<le> va)"

definition ptov :: "word_t \<Rightarrow> c_error + word_t" where
  "ptov paddr = bindE (guardE AssertFailed (paddr < PHYS_BASE)) (\<lambda>_. Inr (paddr + PHYS_BASE))"

definition vtop :: "word_t \<Rightarrow> c_error + word_t" where
  "vtop va = bindE (guardE AssertFailed (is_kernel_vaddr va)) (\<lambda>_. Inr (va - PHYS_BASE))"

section \<open>The page allocator\<close>

record pool =
  used_map :: bitmap
  base :: word_t

record palloc_state =
  kernel_pool :: pool
  user_pool :: pool
  pmem :: "word_t \<Rightarrow> byte_t"

definition PAL_ASSERT :: word_t where "PAL_ASSERT = 1"
definition PAL_ZERO :: word_t where "PAL_ZERO = 2"
definition PAL_USER :: word_t where "PAL_USER = 4"

fun memset_pages :: "(word_t \<Rightarrow> byte_t) \<Rightarrow> word_t \<Rightarrow> byte_t \<Rightarrow> nat \<Rightarrow> word_t \<Rightarrow> byte_t" where
  "memset_pages m p v 0 = m"
| "memset_pages m p v (Suc k) = memset_pages (m(p := v)) (p + 1) v k"

definition page_from_pool :: "pool \<Rightarrow> word_t \<Rightarrow> bool" where
  "page_from_pool p page =
    (let page_no = pg_no page; start_page = pg_no (base p);
         end_page = start_page + of_nat (bitmap_size (used_map p))
     in start_page \<le> page_no \<and> page_no < end_page)"

definition pool_of :: "word_t \<Rightarrow> palloc_state \<Rightarrow> pool" where
  "pool_of flags st = (if flags AND PAL_USER \<noteq> 0 then user_pool st else kernel_pool st)"

definition set_pool :: "word_t \<Rightarrow> pool \<Rightarrow> palloc_state \<Rightarrow> palloc_state" where
  "set_pool flags p st =
    (if flags AND PAL_USER \<noteq> 0 then st\<lparr>user_pool := p\<rparr> else st\<lparr>kernel_pool := p\<rparr>)"

definition palloc_get_multiple :: "word_t \<Rightarrow> nat \<Rightarrow> palloc_state \<Rightarrow> c_error + (word_t \<times> palloc_state)" where
  "palloc_get_multiple flags page_cnt st =
    (if page_cnt = 0 then Inr (0, st)
     else
       let p = pool_of flags st in
       bindE (bitmap_scan_and_flip (used_map p) 0 page_cnt False) (\<lambda>(page_idx, b).
         let st' = set_pool flags (p\<lparr>used_map := b\<rparr>) st;
             pages = (if page_idx \<noteq> BITMAP_ERROR then base p + of_nat (PGSIZE * page_idx) else 0)
         in if pages \<noteq> 0 then
              Inr (pages, if flags AND PAL_ZERO \<noteq> 0
                          then st'\<lparr>pmem := memset_pages (pmem st') pages 0 (PGSIZE * page_cnt)\<rparr> else st')
            else if flags AND PAL_ASSERT \<noteq> 0 then Inl KernelPanic else Inr (pages, st')))"

definition palloc_get_page :: "word_t \<Rightarrow> palloc_state \<Rightarrow> c_error + (word_t \<times> palloc_state)" where
  "palloc_get_page flags st = palloc_get_multiple flags 1 st"

definition palloc_free_multiple :: "word_t \<Rightarrow> nat \<Rightarrow> palloc_state \<Rightarrow> c_error + palloc_state" where
  "palloc_free_multiple pages page_cnt st =
    bindE (guardE AssertFailed (pg_ofs pages = 0)) (\<lambda>_.
    if pages = 0 \<or> page_cnt = 0 then Inr st
    else bindE (if page_from_pool (kernel_pool st) pages then Inr 0
                else if page_from_pool (user_pool st) pages then Inr PAL_USER
                else Inl KernelPanic) (\<lambda>which.
      let p = pool_of which st;
          page_idx = unat (pg_no pages - pg_no (base p));
          st1 = st\<lparr>pmem := memset_pages (pmem st) pages 0xcc (PGSIZE * page_cnt)\<rparr>
      in bindE (bitmap_all (used_map p) page_idx page_cnt) (\<lambda>a.
         bindE (guardE AssertFailed a) (\<lambda>_.
         bindE (bitmap_set_multiple (used_map p) page_idx page_cnt False) (\<lambda>b.
           Inr (set_pool which (p\<lparr>used_map := b\<rparr>) st1))))))"

definition palloc_free_page :: "word_t \<Rightarrow> palloc_state \<Rightarrow> c_error + palloc_state" where
  "palloc_free_page page st = palloc_free_multiple page 1 st"

text \<open>\<open>block\<close>: the words in the pages at the base of the pool, which become the bitmap's storage.\<close>

definition init_pool :: "word_t \<Rightarrow> nat \<Rightarrow> word_t list \<Rightarrow> c_error + pool" where
  "init_pool base0 page_cnt block =
    (let bm_pages = DIV_ROUND_UP (bitmap_buf_size page_cnt) PGSIZE in
     if page_cnt < bm_pages then Inl KernelPanic
     else bindE (bitmap_create_in_buf (page_cnt - bm_pages) block (bm_pages * PGSIZE)) (\<lambda>b.
       Inr \<lparr>used_map = b, base = base0 + of_nat (bm_pages * PGSIZE)\<rparr>))"

definition palloc_init :: "nat \<Rightarrow> nat \<Rightarrow> word_t list \<Rightarrow> word_t list \<Rightarrow> (word_t \<Rightarrow> byte_t) \<Rightarrow>
    c_error + palloc_state" where
  "palloc_init init_ram_pages user_page_limit block1 block2 mem =
    bindE (ptov (1024 * 1024)) (\<lambda>free_start.
    bindE (ptov (of_nat (init_ram_pages * PGSIZE))) (\<lambda>free_end.
      let free_pages = unat (free_end - free_start) div PGSIZE;
          user_pages = min (free_pages div 2) user_page_limit;
          kernel_pages = free_pages - user_pages
      in bindE (init_pool free_start kernel_pages block1) (\<lambda>kp.
         bindE (init_pool (free_start + of_nat (kernel_pages * PGSIZE)) user_pages block2) (\<lambda>up.
           Inr \<lparr>kernel_pool = kp, user_pool = up, pmem = mem\<rparr>))))"

section \<open>Facts about pages\<close>

lemma pg_ofs_mod: "pg_ofs w = 0 \<longleftrightarrow> unat w mod 4096 = 0"
proof -
  have "PGMASK = mask 12" by (simp add: PGMASK_def mask_eq_exp_minus_1)
  then have t: "pg_ofs w = take_bit 12 w" by (simp only: pg_ofs_def take_bit_eq_mask)
  have "unat (pg_ofs w) = take_bit 12 (unat w)" unfolding t by (rule unsigned_take_bit_eq)
  then show ?thesis by (simp add: word_unat_eq_iff take_bit_eq_mod)
qed

lemma unat_pg_no: "unat (pg_no w) = unat w div 4096"
  by (simp only: pg_no_def PGBITS_def unat_drop_bit_eq) (simp add: drop_bit_eq_div)

lemma unat_add_nat:
  assumes "unat (w :: word_t) + k < 2 ^ 32"
  shows "unat (w + of_nat k) = unat w + k"
  by (rule unat_add_small [OF assms])

definition pool_wf :: "pool \<Rightarrow> bool" where
  "pool_wf p \<longleftrightarrow> bitmap_wf (used_map p) \<and> unat (base p) mod 4096 = 0 \<and> 0 < unat (base p) \<and>
     unat (base p) + 4096 * bit_cnt (used_map p) < 2 ^ 32"

definition page_at :: "pool \<Rightarrow> nat \<Rightarrow> word_t" where
  "page_at p i = base p + of_nat (PGSIZE * i)"

lemma page_at:
  assumes "pool_wf p" "i < bit_cnt (used_map p)"
  shows "unat (page_at p i) = unat (base p) + 4096 * i" "pg_ofs (page_at p i) = 0" "page_at p i \<noteq> 0"
    "unat (pg_no (page_at p i)) = unat (base p) div 4096 + i"
    "unat (pg_no (page_at p i) - pg_no (base p)) = i"
proof -
  have lt: "unat (base p) + 4096 * i < 2 ^ 32" using assms by (auto simp: pool_wf_def)
  show u: "unat (page_at p i) = unat (base p) + 4096 * i"
    unfolding page_at_def PGSIZE_def by (rule unat_add_nat [OF lt])
  show "pg_ofs (page_at p i) = 0" using assms(1) by (simp add: pg_ofs_mod u pool_wf_def)
  have "unat (page_at p i) \<noteq> 0" using assms(1) u by (simp add: pool_wf_def)
  then show "page_at p i \<noteq> 0" by auto
  show n: "unat (pg_no (page_at p i)) = unat (base p) div 4096 + i"
    by (simp add: unat_pg_no u)
  then have "pg_no (base p) \<le> pg_no (page_at p i)" by (simp add: word_le_nat_alt unat_pg_no)
  then show "unat (pg_no (page_at p i) - pg_no (base p)) = i"
    using n by (simp add: unat_sub unat_pg_no)
qed

lemma page_from_pool_iff:
  assumes "pool_wf p"
  shows "page_from_pool p w \<longleftrightarrow>
    unat (base p) div 4096 \<le> unat w div 4096 \<and>
    unat w div 4096 < unat (base p) div 4096 + bit_cnt (used_map p)"
proof -
  have "unat (pg_no (base p)) + bit_cnt (used_map p) < 2 ^ 32"
    using assms by (auto simp: pool_wf_def unat_pg_no)
  then have "unat (pg_no (base p) + of_nat (bit_cnt (used_map p))) =
      unat (base p) div 4096 + bit_cnt (used_map p)"
    using unat_add_nat unat_pg_no by simp
  then show ?thesis
    by (simp add: page_from_pool_def Let_def bitmap_size_def word_le_nat_alt word_less_nat_alt unat_pg_no)
qed

text \<open>Both pools are well formed and do not overlap.\<close>

definition pools_wf :: "palloc_state \<Rightarrow> bool" where
  "pools_wf st \<longleftrightarrow> pool_wf (kernel_pool st) \<and> pool_wf (user_pool st) \<and>
     (unat (base (kernel_pool st)) + 4096 * bit_cnt (used_map (kernel_pool st)) \<le> unat (base (user_pool st)) \<or>
      unat (base (user_pool st)) + 4096 * bit_cnt (used_map (user_pool st)) \<le> unat (base (kernel_pool st)))"

lemma pool_of_wf: "pools_wf st \<Longrightarrow> pool_wf (pool_of flags st)"
  by (simp add: pools_wf_def pool_of_def)

lemma pool_of_set_pool [simp]: "pool_of f (set_pool f p st) = p" "pool_of f (st\<lparr>pmem := m\<rparr>) = pool_of f st"
  "set_pool f p (set_pool f q st) = set_pool f p st" "pmem (set_pool f p st) = pmem st"
  by (simp_all add: pool_of_def set_pool_def)

lemma set_pool_wf:
  "pools_wf st \<Longrightarrow> bitmap_wf b \<Longrightarrow> bit_cnt b = bit_cnt (used_map (pool_of f st)) \<Longrightarrow>
   pools_wf (set_pool f ((pool_of f st)\<lparr>used_map := b\<rparr>) st)"
  by (auto simp: pools_wf_def pool_wf_def set_pool_def pool_of_def)

lemma pools_wf_pmem [simp]: "pools_wf (st\<lparr>pmem := m\<rparr>) = pools_wf st"
  by (simp add: pools_wf_def)

section \<open>What the page allocator promises\<close>

lemma memset_pages_other:
  "(\<And>i. i < k \<Longrightarrow> a \<noteq> p + of_nat i) \<Longrightarrow> memset_pages m p v k a = m a"
proof (induction k arbitrary: m p)
  case (Suc k)
  have "a \<noteq> p + 1 + of_nat i" if "i < k" for i
    using Suc.prems [of "Suc i"] that by (simp add: algebra_simps)
  then have "memset_pages (m(p := v)) (p + 1) v k a = (m(p := v)) a" by (rule Suc.IH)
  moreover have "a \<noteq> p" using Suc.prems [of 0] by simp
  ultimately show ?case by simp
qed simp

lemma memset_pages_in:
  "i < k \<Longrightarrow> memset_pages m p v k (p + of_nat i) = v"
proof (induction k arbitrary: m p i)
  case (Suc k)
  show ?case
  proof (cases i)
    case 0
    show ?thesis
    proof (cases "\<exists>j < k. p = p + 1 + of_nat j")
      case True
      then obtain j where j: "j < k" "p = p + 1 + of_nat j" by blast
      have "memset_pages (m(p := v)) (p + 1) v k (p + 1 + of_nat j) = v"
        by (rule Suc.IH [OF j(1)])
      then show ?thesis using 0 unfolding j(2) [symmetric] by simp
    next
      case False
      then have "memset_pages (m(p := v)) (p + 1) v k p = (m(p := v)) p"
        by (intro memset_pages_other) auto
      then show ?thesis using 0 by simp
    qed
  next
    case (Suc j)
    then have "j < k" "p + of_nat i = p + 1 + of_nat j" using Suc.prems by simp_all
    moreover have "memset_pages (m(p := v)) (p + 1) v k (p + 1 + of_nat j) = v"
      by (rule Suc.IH) fact
    ultimately show ?thesis by (simp only: memset_pages.simps)
  qed
qed simp

text \<open>A page group that is handed out: its indices were free, its first page is aligned.\<close>

lemma palloc_get_cases:
  assumes "pools_wf st" "0 < n" "palloc_get_multiple flags n st = Inr (pages, st')"
  defines "p \<equiv> pool_of flags st" and "p' \<equiv> pool_of flags st'"
  shows "pools_wf st' \<and> base p' = base p \<and> bit_cnt (used_map p') = bit_cnt (used_map p) \<and>
    (pages = 0 \<longrightarrow> used_map p' = used_map p \<and> \<not> (\<exists>i. free_at (bmap (used_map p)) n False i)) \<and>
    (pages \<noteq> 0 \<longrightarrow> (\<exists>i b. bitmap_scan_and_flip (used_map p) 0 n False = Inr (i, b) \<and> i \<noteq> BITMAP_ERROR \<and>
       i + n \<le> bit_cnt (used_map p) \<and> pages = page_at p i \<and> used_map p' = b \<and>
       st' = set_pool flags (p\<lparr>used_map := b\<rparr>) st\<lparr>pmem := pmem st'\<rparr> \<and>
       (flags AND PAL_ZERO \<noteq> 0 \<longrightarrow> pmem st' = memset_pages (pmem st) pages 0 (PGSIZE * n)) \<and>
       (flags AND PAL_ZERO = 0 \<longrightarrow> pmem st' = pmem st)))"
proof -
  have wf: "bitmap_wf (used_map p)" "pool_wf p"
    using pool_of_wf [OF assms(1), of flags] by (auto simp: p_def pool_wf_def)
  obtain i b where s: "bitmap_scan_and_flip (used_map p) 0 n False = Inr (i, b)" "bitmap_wf b"
    "bit_cnt b = bit_cnt (used_map p)"
    "if \<exists>j. free_at (bmap (used_map p)) n False j
     then i \<noteq> BITMAP_ERROR \<and> free_at (bmap (used_map p)) n False i
     else i = BITMAP_ERROR \<and> b = used_map p"
    using bitmap.take_ok [OF wf(1), of n] bitmap_scan_and_flip_bmap [OF wf(1), of 0 n False]
    by (fastforce split: if_splits)
  let ?st = "set_pool flags (p\<lparr>used_map := b\<rparr>) st"
  have wf': "pools_wf ?st" using set_pool_wf [OF assms(1) s(2)] s(3) by (simp add: p_def)
  show ?thesis
  proof (cases "i = BITMAP_ERROR")
    case True
    then show ?thesis
      using assms(2,3) s wf' unfolding palloc_get_multiple_def p_def [symmetric] p'_def
      by (auto split: if_splits)
  next
    case False
    then have f: "free_at (bmap (used_map p)) n False i" using s(4) by (auto split: if_splits)
    then have len: "i + n \<le> bit_cnt (used_map p)" by (simp add: free_at_def)
    then have nz: "page_at p i \<noteq> 0" using page_at(3) [OF wf(2)] assms(2) by simp
    then have "pages = page_at p i" "st' = (if flags AND PAL_ZERO \<noteq> 0
        then ?st\<lparr>pmem := memset_pages (pmem st) pages 0 (PGSIZE * n)\<rparr> else ?st)"
      using assms(2,3) s(1) False unfolding palloc_get_multiple_def p_def [symmetric] page_at_def
      by (auto simp: Let_def)
    then show ?thesis
      using s(1) False len nz wf' s(3) unfolding p'_def by auto
  qed
qed

lemma which_pool:
  assumes "pools_wf st" "i < bit_cnt (used_map (pool_of flags st))"
  defines "w \<equiv> page_at (pool_of flags st) i"
  defines "which \<equiv> if flags AND PAL_USER \<noteq> 0 then PAL_USER else 0"
  shows "(if page_from_pool (kernel_pool st) w then Inr 0
          else if page_from_pool (user_pool st) w then Inr PAL_USER else Inl KernelPanic) = Inr which"
    "pool_of which st = pool_of flags st" "set_pool which = set_pool flags"
proof -
  have k: "pool_wf (kernel_pool st)" and u: "pool_wf (user_pool st)" using assms(1) by (simp_all add: pools_wf_def)
  have p: "pool_wf (pool_of flags st)" by (rule pool_of_wf [OF assms(1)])
  have w: "unat w = unat (base (pool_of flags st)) + 4096 * i"
    unfolding w_def by (rule page_at(1) [OF p assms(2)])
  have al: "unat (base (kernel_pool st)) mod 4096 = 0" "unat (base (user_pool st)) mod 4096 = 0"
    using k u by (simp_all add: pool_wf_def)
  show "pool_of which st = pool_of flags st" "set_pool which = set_pool flags"
    by (auto simp: which_def pool_of_def set_pool_def PAL_USER_def fun_eq_iff)
  show "(if page_from_pool (kernel_pool st) w then Inr 0
          else if page_from_pool (user_pool st) w then Inr PAL_USER else Inl KernelPanic) = Inr which"
  proof (cases "flags AND PAL_USER \<noteq> 0")
    case False
    then have "page_from_pool (kernel_pool st) w"
      using w assms(2) al by (auto simp: page_from_pool_iff [OF k] pool_of_def)
    then show ?thesis using False by (simp add: which_def)
  next
    case True
    then have "page_from_pool (user_pool st) w"
      using w assms(2) al by (auto simp: page_from_pool_iff [OF u] pool_of_def)
    moreover have "\<not> page_from_pool (kernel_pool st) w"
    proof -
      have "unat w div 4096 = unat (base (user_pool st)) div 4096 + i" using w True by (simp add: pool_of_def)
      moreover have "i < bit_cnt (used_map (user_pool st))" using assms(2) True by (simp add: pool_of_def)
      moreover have "unat (base (kernel_pool st)) div 4096 + bit_cnt (used_map (kernel_pool st)) \<le> unat (base (user_pool st)) div 4096 \<or>
          unat (base (user_pool st)) div 4096 + bit_cnt (used_map (user_pool st)) \<le> unat (base (kernel_pool st)) div 4096"
        using assms(1) div_le_mono [of "unat (base (kernel_pool st)) + 4096 * bit_cnt (used_map (kernel_pool st))" "unat (base (user_pool st))" 4096]
          div_le_mono [of "unat (base (user_pool st)) + 4096 * bit_cnt (used_map (user_pool st))" "unat (base (kernel_pool st))" 4096]
        by (auto simp: pools_wf_def)
      ultimately show ?thesis unfolding page_from_pool_iff [OF k] by linarith
    qed
    ultimately show ?thesis using True by (simp add: which_def)
  qed
qed

text \<open>Freeing a taken range gives it back and poisons its pages.\<close>

lemma palloc_free_taken:
  assumes "pools_wf st" "0 < n" "i + n \<le> bit_cnt (used_map (pool_of flags st))"
    and "free_at (bmap (used_map (pool_of flags st))) n True i"
  shows "\<exists>b. bitmap_set_multiple (used_map (pool_of flags st)) i n False = Inr b \<and>
    palloc_free_multiple (page_at (pool_of flags st) i) n st =
      Inr (set_pool flags ((pool_of flags st)\<lparr>used_map := b\<rparr>)
             (st\<lparr>pmem := memset_pages (pmem st) (page_at (pool_of flags st) i) 0xcc (PGSIZE * n)\<rparr>))"
proof -
  let ?p = "pool_of flags st"
  have lt: "i < bit_cnt (used_map ?p)" using assms(2,3) by simp
  note w = which_pool [OF assms(1) lt]
  have wf: "pool_wf ?p" by (rule pool_of_wf [OF assms(1)])
  then have bwf: "bitmap_wf (used_map ?p)" by (simp add: pool_wf_def)
  note pg = page_at [OF wf lt]
  obtain b where "bitmap_set_multiple (used_map ?p) i n False = Inr b"
    using bitmap_set_multiple_bmap [OF bwf assms(3)] by blast
  moreover have "bitmap_all (used_map ?p) i n = Inr True"
    using bitmap_all_bmap [OF bwf assms(3)] assms(4) by simp
  ultimately show ?thesis
    using pg assms(2) by (simp add: palloc_free_multiple_def Let_def w)
qed

lemma palloc_get_free:
  assumes "pools_wf st" "0 < n" "palloc_get_multiple flags n st = Inr (pages, st')" "pages \<noteq> 0"
  shows "pg_ofs pages = 0"
    "flags AND PAL_ZERO \<noteq> 0 \<Longrightarrow> \<forall>k < PGSIZE * n. pmem st' (pages + of_nat k) = 0"
    "\<exists>st''. palloc_free_multiple pages n st' = Inr st'' \<and> pools_wf st'' \<and>
       bmap (used_map (pool_of flags st'')) = bmap (used_map (pool_of flags st))"
proof -
  let ?p = "pool_of flags st"
  note c = palloc_get_cases [OF assms(1-3)]
  obtain i b where i: "bitmap_scan_and_flip (used_map ?p) 0 n False = Inr (i, b)" "i \<noteq> BITMAP_ERROR"
    "i + n \<le> bit_cnt (used_map ?p)" "pages = page_at ?p i" "used_map (pool_of flags st') = b"
    using c assms(4) by blast
  have pwf: "pool_wf ?p" by (rule pool_of_wf [OF assms(1)])
  then have wf: "bitmap_wf (used_map ?p)" by (simp add: pool_wf_def)
  show "pg_ofs pages = 0" using page_at(2) [OF pwf, of i] i(3,4) assms(2) by simp
  show "\<forall>k < PGSIZE * n. pmem st' (pages + of_nat k) = 0" if "flags AND PAL_ZERO \<noteq> 0"
    using c assms(4) that memset_pages_in by auto
  note t = bitmap.taken_after_take [OF wf i(1,2)]
  have eq: "base (pool_of flags st') = base ?p" "pools_wf st'" "bit_cnt b = bit_cnt (used_map ?p)"
    using c i(5) by auto
  have at: "page_at (pool_of flags st') i = pages" using eq(1) i(4) by (simp add: page_at_def)
  have "free_at (bmap b) n True i"
    using t(4) bitmap_all_bmap [OF t(1), of i n] i(3) eq(3) by simp
  then obtain b2 where b2: "bitmap_set_multiple b i n False = Inr b2"
    "palloc_free_multiple pages n st' = Inr (set_pool flags ((pool_of flags st')\<lparr>used_map := b2\<rparr>)
       (st'\<lparr>pmem := memset_pages (pmem st') pages 0xcc (PGSIZE * n)\<rparr>))"
    using palloc_free_taken [OF eq(2) assms(2), of i flags] i(3,5) eq(3) at by auto
  obtain b3 where b3: "bitmap_set_multiple b i n False = Inr b3" "bitmap_wf b3" "bmap b3 = bmap (used_map ?p)"
    using bitmap.take_then_give [OF wf i(1,2)] by blast
  have "bit_cnt b3 = bit_cnt (used_map ?p)" using arg_cong [OF b3(3), of length] by simp
  then have "pools_wf (set_pool flags ((pool_of flags st')\<lparr>used_map := b3\<rparr>)
       (st'\<lparr>pmem := memset_pages (pmem st') pages 0xcc (PGSIZE * n)\<rparr>))"
    using set_pool_wf [of "st'\<lparr>pmem := memset_pages (pmem st') pages 0xcc (PGSIZE * n)\<rparr>" b3 flags]
      eq(2,3) b3(2) i(5) by simp
  then show "\<exists>st''. palloc_free_multiple pages n st' = Inr st'' \<and> pools_wf st'' \<and>
       bmap (used_map (pool_of flags st'')) = bmap (used_map ?p)"
    using b2 b3 by auto
qed

section \<open>Setting up the pools\<close>

lemma init_pool_ok:
  assumes "8 + 4 * ((n + 31) div 32) + 4095 < 2 ^ 32" "n + 31 < 2 ^ 32"
    and "bm = (8 + 4 * ((n + 31) div 32) + 4095) div 4096" "bm < n" "1024 * bm \<le> length block"
    and "unat w mod 4096 = 0" "unat w + 4096 * n < 2 ^ 32" "0 < unat w"
  shows "\<exists>p. init_pool w n block = Inr p \<and> pool_wf p \<and> bit_cnt (used_map p) = n - bm \<and>
    unat (base p) = unat w + 4096 * bm \<and> bmap (used_map p) = replicate (n - bm) False"
proof -
  have ec: "elem_cnt n = (n + 31) div 32" by (rule elem_cnt_eq [OF assms(2)])
  have buf: "bitmap_buf_size n = 8 + 4 * ((n + 31) div 32)"
    using assms(1) by (simp add: bitmap_buf_size_def byte_cnt_def ec)
  have bm: "DIV_ROUND_UP (bitmap_buf_size n) PGSIZE = bm"
    using assms(1,3) by (simp add: buf DIV_ROUND_UP_def PGSIZE_def)
  let ?m = "n - bm"
  have m: "?m + 31 < 2 ^ 32" using assms(2) by simp
  have ecm: "elem_cnt ?m = (?m + 31) div 32" by (rule elem_cnt_eq [OF m])
  have le: "(?m + 31) div 32 \<le> (n + 31) div 32" by (intro div_le_mono) simp
  have cover: "8 + 4 * ((n + 31) div 32) \<le> 4096 * bm"
    unfolding assms(3) using mod_less_divisor [of 4096 "8 + 4 * ((n + 31) div 32) + 4095"]
      minus_mod_eq_mult_div [of "8 + 4 * ((n + 31) div 32) + 4095" 4096] by linarith
  have "bitmap_buf_size ?m = 8 + 4 * ((?m + 31) div 32)"
    using le assms(1) by (simp add: bitmap_buf_size_def byte_cnt_def ecm)
  then have "bitmap_buf_size ?m \<le> bm * PGSIZE" using le cover by (simp add: PGSIZE_def)
  moreover have "elem_cnt ?m + 2 \<le> length block"
    using le cover assms(5) unfolding ecm by linarith
  ultimately obtain b where b: "bitmap_create_in_buf ?m block (bm * PGSIZE) = Inr b" "bitmap_wf b"
    "bmap b = replicate ?m False"
    using bitmap_create_in_buf_bmap [OF m] by blast
  have cnt: "bit_cnt b = ?m" using arg_cong [OF b(3), of length] by simp
  have "unat w + 4096 * bm < 2 ^ 32" using assms(4,7) by simp
  then have u: "unat (w + of_nat (bm * PGSIZE)) = unat w + 4096 * bm"
    using unat_add_nat [of w "bm * PGSIZE"] by (simp add: PGSIZE_def mult.commute)
  have "init_pool w n block = Inr \<lparr>used_map = b, base = w + of_nat (bm * PGSIZE)\<rparr>"
    using assms(4) b(1) by (simp add: init_pool_def bm Let_def)
  moreover have "pool_wf \<lparr>used_map = b, base = w + of_nat (bm * PGSIZE)\<rparr>"
    using b(2) cnt assms(4,6-8) u by (auto simp: pool_wf_def algebra_simps)
  ultimately show ?thesis using b(3) cnt u by simp
qed

lemma bitmap_pages:
  assumes "2 \<le> n" "n < 2 ^ 18"
  shows "(8 + 4 * ((n + 31) div 32) + 4095) div 4096 < (n :: nat)"
    "(8 + 4 * ((n + 31) div 32) + 4095) div 4096 \<le> 9"
proof -
  have "(n + 31) div 32 \<le> (2 ^ 18 + 31) div 32" using assms(2) by (intro div_le_mono) simp
  then have "8 + 4 * ((n + 31) div 32) + 4095 \<le> 36871" by simp
  then have "(8 + 4 * ((n + 31) div 32) + 4095) div 4096 \<le> 36871 div 4096" by (rule div_le_mono)
  then show "(8 + 4 * ((n + 31) div 32) + 4095) div 4096 \<le> 9" by simp
  have "32 * ((n + 31) div 32) \<le> n + 31" by simp
  then have "8 + 4 * ((n + 31) div 32) + 4095 < 4096 * n" using assms(1) by linarith
  then show "(8 + 4 * ((n + 31) div 32) + 4095) div 4096 < n"
    by (simp add: div_less_iff_less_mult mult.commute)
qed

lemma palloc_init_ok:
  assumes "256 + 4 \<le> R" "R < 2 ^ 18" "2 \<le> limit" "9216 \<le> length block1" "9216 \<le> length block2"
  shows "\<exists>st. palloc_init R limit block1 block2 mem = Inr st \<and> pools_wf st \<and>
    True \<notin> set (bmap (used_map (kernel_pool st))) \<and> True \<notin> set (bmap (used_map (user_pool st)))"
proof -
  let ?start = "0xc0100000 :: word_t"
  define user where "user = min ((R - 256) div 2) limit"
  define kernel where "kernel = R - 256 - user"
  have user: "2 \<le> user" "user < 2 ^ 18" and kernel: "2 \<le> kernel" "kernel < 2 ^ 18"
    using assms(1-3) by (auto simp: user_def kernel_def min_def)
  have ofR: "unat (of_nat (R * 4096) :: word_t) = R * 4096"
    using unat_add_nat [of 0 "R * 4096"] assms(2) by simp
  have "of_nat (R * 4096) < (0xc0000000 :: word_t)"
    using assms(2) ofR by (simp add: word_less_nat_alt)
  then have ends: "ptov (1024 * 1024) = Inr ?start"
    "ptov (of_nat (R * PGSIZE)) = Inr (of_nat (R * 4096) + 0xc0000000)"
    by (simp_all add: ptov_def PHYS_BASE_def PGSIZE_def)
  have "of_nat (R * 4096) + 0xc0000000 - ?start = of_nat (R * 4096) - (0x100000 :: word_t)" by simp
  moreover have "unat (of_nat (R * 4096) - (0x100000 :: word_t)) = R * 4096 - 0x100000"
    using ofR assms(1) by (simp add: unat_sub word_le_nat_alt)
  ultimately have free: "unat (of_nat (R * 4096) + 0xc0000000 - ?start) div PGSIZE = R - 256"
    by (simp add: PGSIZE_def)
  note bk = bitmap_pages [OF kernel] and bu = bitmap_pages [OF user]
  have "user \<le> R - 256" unfolding user_def using div_le_dividend [of "R - 256" 2] by linarith
  then have total: "kernel + user = R - 256" unfolding kernel_def by (rule le_add_diff_inverse2)
  have un: "unat ?start = 0xc0100000" by simp
  obtain kp where kp: "init_pool ?start kernel block1 = Inr kp" "pool_wf kp"
    "unat (base kp) + 4096 * bit_cnt (used_map kp) = unat ?start + 4096 * kernel"
    "\<exists>k. bmap (used_map kp) = replicate k False"
  proof -
    let ?bm = "(8 + 4 * ((kernel + 31) div 32) + 4095) div 4096"
    have f: "8 + 4 * ((kernel + 31) div 32) + 4095 < 2 ^ 32" "kernel + 31 < 2 ^ 32"
      using kernel(2) by auto
    have g: "1024 * ?bm \<le> length block1" using bk(2) assms(4) by linarith
    have h: "unat ?start mod 4096 = 0" "unat ?start + 4096 * kernel < 2 ^ 32" "0 < unat ?start"
      using assms(1,2) un total by simp_all
    obtain p where p: "init_pool ?start kernel block1 = Inr p" "pool_wf p"
      "bit_cnt (used_map p) = kernel - ?bm" "unat (base p) = unat ?start + 4096 * ?bm"
      "bmap (used_map p) = replicate (kernel - ?bm) False"
      using init_pool_ok [OF f refl bk(1) g h] by blast
    have "unat (base p) + 4096 * bit_cnt (used_map p) = unat ?start + 4096 * kernel"
      using p(3,4) bk(1) by linarith
    with p(1,2,5) show thesis using that by blast
  qed
  have ofk: "unat (?start + of_nat (kernel * PGSIZE)) = unat ?start + 4096 * kernel"
  proof -
    have "unat ?start + kernel * PGSIZE < 2 ^ 32" unfolding PGSIZE_def using assms(1,2) un total by simp
    from unat_add_nat [OF this] show ?thesis by (simp add: PGSIZE_def mult.commute)
  qed
  obtain up where up: "init_pool (?start + of_nat (kernel * PGSIZE)) user block2 = Inr up" "pool_wf up"
    "unat ?start + 4096 * kernel \<le> unat (base up)" "\<exists>k. bmap (used_map up) = replicate k False"
  proof -
    let ?bm = "(8 + 4 * ((user + 31) div 32) + 4095) div 4096"
    let ?w = "?start + of_nat (kernel * PGSIZE)"
    have f: "8 + 4 * ((user + 31) div 32) + 4095 < 2 ^ 32" "user + 31 < 2 ^ 32"
      using user(2) by auto
    have g: "1024 * ?bm \<le> length block2" using bu(2) assms(5) by linarith
    have h: "unat ?w mod 4096 = 0" "unat ?w + 4096 * user < 2 ^ 32" "0 < unat ?w"
      unfolding ofk using assms(1,2) un total by simp_all
    obtain p where p: "init_pool ?w user block2 = Inr p" "pool_wf p"
      "unat (base p) = unat ?w + 4096 * ?bm" "bmap (used_map p) = replicate (user - ?bm) False"
      using init_pool_ok [OF f refl bu(1) g h] by blast
    have "unat ?start + 4096 * kernel \<le> unat (base p)" using p(3) ofk by linarith
    with p(1,2,4) show thesis using that by blast
  qed
  have "palloc_init R limit block1 block2 mem = Inr \<lparr>kernel_pool = kp, user_pool = up, pmem = mem\<rparr>"
    by (simp only: palloc_init_def ends bindE.simps Let_def free user_def [symmetric]
        kernel_def [symmetric] kp(1) up(1))
  moreover have "pools_wf \<lparr>kernel_pool = kp, user_pool = up, pmem = mem\<rparr>"
    using kp(2,3) up(2,3) by (simp add: pools_wf_def)
  ultimately show ?thesis using kp(4) up(4) by auto
qed

section \<open>The free map\<close>

text \<open>
  \<open>free_map_file\<close> is \<open>None\<close> while the pointer is NULL, and otherwise what the file holds.
  \<open>bitmap_write\<close> goes through \<open>wr\<close>, a function from the old contents and the bytes to write to the
  success flag and the new contents.
\<close>

type_synonym file_write = "byte_t list \<Rightarrow> byte_t list \<Rightarrow> bool \<times> byte_t list"

record free_map_state =
  free_map :: bitmap
  free_map_file :: "byte_t list option"

definition FREE_MAP_SECTOR :: nat where "FREE_MAP_SECTOR = 0"
definition ROOT_DIR_SECTOR :: nat where "ROOT_DIR_SECTOR = 1"

definition free_map_init :: "bool \<Rightarrow> (nat \<Rightarrow> word_t list option) \<Rightarrow> nat \<Rightarrow> c_error + free_map_state" where
  "free_map_init m mb device_size =
    bindE (bitmap_create m mb device_size) (\<lambda>fm.
      case fm of None \<Rightarrow> Inl KernelPanic
      | Some b \<Rightarrow> bindE (bitmap_mark b FREE_MAP_SECTOR) (\<lambda>b. bindE (bitmap_mark b ROOT_DIR_SECTOR) (\<lambda>b.
          Inr \<lparr>free_map = b, free_map_file = None\<rparr>)))"

definition free_map_allocate :: "file_write \<Rightarrow> nat \<Rightarrow> free_map_state \<Rightarrow>
    c_error + (nat option \<times> free_map_state)" where
  "free_map_allocate write cnt st =
    bindE (bitmap_scan_and_flip (free_map st) 0 cnt False) (\<lambda>(sector, b).
      if sector = BITMAP_ERROR then Inr (None, st\<lparr>free_map := b\<rparr>)
      else case free_map_file st of
        None \<Rightarrow> Inr (Some sector, st\<lparr>free_map := b\<rparr>)
      | Some contents \<Rightarrow>
          let (ok, contents') = write contents (bitmap_write b) in
          if ok then Inr (Some sector, \<lparr>free_map = b, free_map_file = Some contents'\<rparr>)
          else bindE (bitmap_set_multiple b sector cnt False) (\<lambda>b'.
                 Inr (None, \<lparr>free_map = b', free_map_file = Some contents'\<rparr>)))"

text \<open>\<open>free_map_release\<close> writes without testing that the file is open.\<close>

definition free_map_release :: "file_write \<Rightarrow> nat \<Rightarrow> nat \<Rightarrow> free_map_state \<Rightarrow> c_error + free_map_state" where
  "free_map_release write sector cnt st =
    bindE (bitmap_all (free_map st) sector cnt) (\<lambda>a.
    bindE (guardE AssertFailed a) (\<lambda>_.
    bindE (bitmap_set_multiple (free_map st) sector cnt False) (\<lambda>b.
      case free_map_file st of
        None \<Rightarrow> Inl NullDereference
      | Some contents \<Rightarrow> Inr \<lparr>free_map = b, free_map_file = Some (snd (write contents (bitmap_write b)))\<rparr>)))"

text \<open>\<open>opened\<close> is what opening the file's inode gives, \<open>None\<close> for NULL.\<close>

definition free_map_open :: "byte_t list option \<Rightarrow> free_map_state \<Rightarrow> c_error + free_map_state" where
  "free_map_open opened st =
    (case opened of None \<Rightarrow> Inl KernelPanic
     | Some contents \<Rightarrow> bindE (bitmap_read (free_map st) contents) (\<lambda>(success, b).
         if success then Inr \<lparr>free_map = b, free_map_file = Some contents\<rparr> else Inl KernelPanic))"

definition free_map_create :: "bool \<Rightarrow> byte_t list option \<Rightarrow> file_write \<Rightarrow> free_map_state \<Rightarrow>
    c_error + free_map_state" where
  "free_map_create inode_created opened write st =
    (if \<not> inode_created then Inl KernelPanic
     else case opened of None \<Rightarrow> Inl KernelPanic
     | Some contents \<Rightarrow>
         let (ok, contents') = write contents (bitmap_write (free_map st)) in
         if ok then Inr \<lparr>free_map = free_map st, free_map_file = Some contents'\<rparr> else Inl KernelPanic)"

lemma free_map_allocate_outcome:
  assumes "bitmap_wf (free_map st)"
  shows "\<exists>r st'. free_map_allocate write cnt st = Inr (r, st') \<and> bitmap_wf (free_map st') \<and>
    (case r of
       None \<Rightarrow> bmap (free_map st') = bmap (free_map st)
     | Some sector \<Rightarrow> free_at (bmap (free_map st)) cnt False sector \<and>
         bmap (free_map st') = put_bytes (bmap (free_map st)) sector (replicate cnt True))"
proof -
  obtain i b where t: "bitmap_scan_and_flip (free_map st) 0 cnt False = Inr (i, b)"
    using bitmap.take_ok [OF assms, of cnt] by blast
  show ?thesis
  proof (cases "i = BITMAP_ERROR")
    case True
    then have "b = free_map st" using bitmap.take_ok [OF assms, of cnt] t by (auto split: if_splits)
    then show ?thesis using t True assms by (simp add: free_map_allocate_def)
  next
    case False
    note f = bitmap.taken_after_take [OF assms t False] and g = bitmap.take_then_give [OF assms t False]
    show ?thesis
    proof (cases "free_map_file st")
      case None
      then show ?thesis using t f False by (simp add: free_map_allocate_def)
    next
      case (Some contents)
      obtain ok contents' where "write contents (bitmap_write b) = (ok, contents')" by fastforce
      then show ?thesis
        using t f g False Some by (cases ok) (auto simp: free_map_allocate_def)
    qed
  qed
qed

lemma free_map_allocate_release:
  assumes "bitmap_wf (free_map st)" "free_map_file st = Some contents"
    and "free_map_allocate write cnt st = Inr (Some sector, st')"
  shows "\<exists>st''. free_map_release write' sector cnt st' = Inr st'' \<and> bitmap_wf (free_map st'') \<and>
    bmap (free_map st'') = bmap (free_map st)"
proof -
  obtain b contents' where t: "bitmap_scan_and_flip (free_map st) 0 cnt False = Inr (sector, b)"
    "sector \<noteq> BITMAP_ERROR" "st' = \<lparr>free_map = b, free_map_file = Some contents'\<rparr>"
    using assms(2,3) by (auto simp: free_map_allocate_def split: if_splits prod.splits)
  note f = bitmap.taken_after_take [OF assms(1) t(1,2)]
  then show ?thesis
    using bitmap.take_then_give [OF assms(1) t(1,2)] t(3) by (auto simp: free_map_release_def)
qed

end
