(* ===== verification/Pintos_Arith.thy ===== *)
theory Pintos_Arith
  imports Prelude "HOL-Library.Signed_Division"
begin

unbundle bit_operations_syntax

text \<open>
  64-bit division on a 32-bit machine, \<open>src/lib/arithmetic.c\<close>: the routines with which Pintos
  replaces those of libgcc. \<open>divl\<close> is the x86 instruction, which traps (\<open>DivisionByZero\<close>, the
  processor's divide error) when the divisor is 0 or the quotient does not fit in 32 bits; the
  theorems show that the callers never let that happen except for a zero divisor.
\<close>

section \<open>The routines\<close>

definition divl :: "64 word \<Rightarrow> 32 word \<Rightarrow> c_error + 32 word" where
  "divl n d =
    (if d \<noteq> 0 \<and> unat n div unat d < 2 ^ 32 then Inr (of_nat (unat n div unat d))
     else Inl DivisionByZero)"

text \<open>One \<open>if\<close> of \<open>nlz\<close>.\<close>

definition nlz_step :: "nat \<Rightarrow> 32 word \<Rightarrow> nat \<times> 32 word \<Rightarrow> nat \<times> 32 word" where
  "nlz_step k bound = (\<lambda>(n, x). if x \<le> bound then (n + k, push_bit k x) else (n, x))"

definition nlz :: "32 word \<Rightarrow> nat" where
  "nlz x0 =
    (let (n, x) = nlz_step 2 0x3fffffff (nlz_step 4 0x0fffffff
                    (nlz_step 8 0x00ffffff (nlz_step 16 0x0000ffff (0, x0))))
     in if x \<le> 0x7fffffff then n + 1 else n)"

definition udiv64 :: "64 word \<Rightarrow> 64 word \<Rightarrow> c_error + 64 word" where
  "udiv64 n d =
    (if drop_bit 32 d = 0 then
       let b = push_bit 32 1;
           n1 = ucast (drop_bit 32 n) :: 32 word; n0 = ucast n :: 32 word; d0 = ucast d :: 32 word
       in if d0 = 0 then Inl DivisionByZero
          else bindE (divl (b * ucast (n1 mod d0) + ucast n0) d0) (\<lambda>q.
                 Inr (ucast q + b * ucast (n1 div d0)))
     else if n < d then Inr 0
     else
       let d1 = ucast (drop_bit 32 d) :: 32 word; s = nlz d1
       in bindE (divl (drop_bit 1 n) (ucast (drop_bit 32 (push_bit s d)))) (\<lambda>q1.
            let q = ucast (drop_bit (31 - s) q1) :: 64 word
            in Inr (if n - (q - 1) * d < d then q - 1 else q)))"

definition umod64 :: "64 word \<Rightarrow> 64 word \<Rightarrow> c_error + 32 word" where
  "umod64 n d = bindE (udiv64 n d) (\<lambda>q. Inr (ucast (n - d * q)))"

text \<open>Signed values are the same words, read with \<open>sint\<close>. The negation of a quotient of \<open>2 ^ 63\<close> overflows
  its \<open>int64_t\<close>; it wraps around here, as on the machine, where the C standard leaves it undefined.\<close>

definition abs64 :: "64 word \<Rightarrow> 64 word" where
  "abs64 n = (if 0 \<le> sint n then n else - n)"

definition sdiv64 :: "64 word \<Rightarrow> 64 word \<Rightarrow> c_error + 64 word" where
  "sdiv64 n d =
    bindE (udiv64 (abs64 n) (abs64 d)) (\<lambda>q_abs.
      Inr (if (sint n < 0) = (sint d < 0) then q_abs else - q_abs))"

definition smod64 :: "64 word \<Rightarrow> 64 word \<Rightarrow> c_error + 32 word" where
  "smod64 n d = bindE (sdiv64 n d) (\<lambda>q. Inr (ucast (n - d * q)))"

definition divdi3 :: "64 word \<Rightarrow> 64 word \<Rightarrow> c_error + 64 word" where
  "divdi3 n d = sdiv64 n d"

definition moddi3 :: "64 word \<Rightarrow> 64 word \<Rightarrow> c_error + 64 word" where
  "moddi3 n d = bindE (smod64 n d) (\<lambda>r. Inr (scast r))"

definition udivdi3 :: "64 word \<Rightarrow> 64 word \<Rightarrow> c_error + 64 word" where
  "udivdi3 n d = udiv64 n d"

definition umoddi3 :: "64 word \<Rightarrow> 64 word \<Rightarrow> c_error + 64 word" where
  "umoddi3 n d = bindE (umod64 n d) (\<lambda>r. Inr (ucast r))"

section \<open>Leading zeros\<close>

lemma unat_push:
  assumes "unat x * 2 ^ k < 2 ^ LENGTH('a)"
  shows "unat (push_bit k (x :: 'a :: len word)) = unat x * 2 ^ k"
proof -
  have "unat (push_bit k x) = take_bit LENGTH('a) (push_bit k (unat x))"
    by (simp only: unsigned_push_bit_eq)
  also have "push_bit k (unat x) = unat x * 2 ^ k" by (rule push_bit_eq_mult)
  finally show ?thesis using assms by (simp only: take_bit_nat_eq_self)
qed

lemma unat_ucast_fits:
  assumes "unat (x :: 'a :: len word) < 2 ^ LENGTH('b)"
  shows "unat (ucast x :: 'b :: len word) = unat x"
  using assms by (simp only: unsigned_ucast_eq take_bit_nat_eq_self)

lemma unat_of_nat_fits:
  assumes "x < 2 ^ LENGTH('a)"
  shows "unat (of_nat x :: 'a :: len word) = x"
  using assms by (simp add: unat_of_nat)

lemma unat_less_64: "unat (n :: 64 word) < 2 ^ 64"
  using unsigned_less [of n, where ?'a = nat] by simp

lemma unat_less_32: "unat (n :: 32 word) < 2 ^ 32"
  using unsigned_less [of n, where ?'a = nat] by simp

lemma nlz_step_inv:
  assumes "nlz_step k bound (n, x) = (n', x')" "unat x = X * 2 ^ n" "unat bound = 2 ^ (32 - k) - 1"
    and "2 ^ (32 - 2 * k) \<le> unat x" "2 * k \<le> 32" "0 < k"
  shows "unat x' = X * 2 ^ n' \<and> 2 ^ (32 - k) \<le> unat x' \<and> n' \<le> n + k"
proof (cases "x \<le> bound")
  case True
  then have "unat x \<le> 2 ^ (32 - k) - 1" using assms(3) by (simp add: word_le_nat_alt)
  moreover have "(0 :: nat) < 2 ^ (32 - k)" by simp
  ultimately have lt: "unat x < 2 ^ (32 - k)" by linarith
  have p: "(2 :: nat) ^ (32 - k) * 2 ^ k = 2 ^ 32"
    using assms(5) by (simp flip: power_add)
  have "unat x * 2 ^ k < 2 ^ (32 - k) * 2 ^ k" using lt by simp
  then have "unat x * 2 ^ k < 2 ^ 32" by (simp only: p)
  then have "unat (push_bit k x) = unat x * 2 ^ k"
    by (intro unat_push) simp
  moreover have "2 ^ (32 - 2 * k) * 2 ^ k \<le> unat x * 2 ^ k" using assms(4) by simp
  then have "2 ^ (32 - k) \<le> unat x * 2 ^ k" using assms(5) by (simp flip: power_add)
  ultimately show ?thesis
    using assms(1,2) True by (auto simp: nlz_step_def power_add)
next
  case False
  then have "2 ^ (32 - k) \<le> unat x" using assms(3) by (simp add: word_le_nat_alt)
  then show ?thesis using assms(1,2) False by (auto simp: nlz_step_def)
qed

lemma nlz_normalises:
  assumes "x \<noteq> 0"
  shows "2 ^ 31 \<le> unat x * 2 ^ nlz x" "unat x * 2 ^ nlz x < 2 ^ 32" "nlz x \<le> 31"
proof -
  obtain n1 x1 where s1: "nlz_step 16 0x0000ffff (0, x) = (n1, x1)" by fastforce
  obtain n2 x2 where s2: "nlz_step 8 0x00ffffff (n1, x1) = (n2, x2)" by fastforce
  obtain n3 x3 where s3: "nlz_step 4 0x0fffffff (n2, x2) = (n3, x3)" by fastforce
  obtain n4 x4 where s4: "nlz_step 2 0x3fffffff (n3, x3) = (n4, x4)" by fastforce
  have "0 < unat x" using assms by (simp add: word_unat_eq_iff)
  then have i1: "unat x1 = unat x * 2 ^ n1" "2 ^ 16 \<le> unat x1" "n1 \<le> 16"
    using nlz_step_inv [OF s1, of "unat x"] by auto
  have i2: "unat x2 = unat x * 2 ^ n2" "2 ^ 24 \<le> unat x2" "n2 \<le> 24"
    using nlz_step_inv [OF s2 i1(1)] i1 by auto
  have i3: "unat x3 = unat x * 2 ^ n3" "2 ^ 28 \<le> unat x3" "n3 \<le> 28"
    using nlz_step_inv [OF s3 i2(1)] i2 by auto
  have i4: "unat x4 = unat x * 2 ^ n4" "2 ^ 30 \<le> unat x4" "n4 \<le> 30"
    using nlz_step_inv [OF s4 i3(1)] i3 by auto
  have n: "nlz x = (if x4 \<le> 0x7fffffff then n4 + 1 else n4)"
    by (simp add: nlz_def s1 s2 s3 s4)
  have "unat x4 < 2 ^ 32" using unsigned_less [of x4, where ?'a = nat] by simp
  moreover have b: "x4 \<le> 0x7fffffff \<longleftrightarrow> unat x4 \<le> 2147483647" by (simp add: word_le_nat_alt)
  ultimately show "2 ^ 31 \<le> unat x * 2 ^ nlz x" "unat x * 2 ^ nlz x < 2 ^ 32" "nlz x \<le> 31"
    using i4 b by (auto simp: n algebra_simps)
qed

section \<open>Unsigned division\<close>

lemma unat_high: "unat (ucast (drop_bit 32 (n :: 64 word)) :: 32 word) = unat n div 2 ^ 32"
proof -
  have "unat n div 2 ^ 32 < 2 ^ 32"
    using unat_less_64 [of n] by (simp add: div_less_iff_less_mult)
  moreover have e: "unat (drop_bit 32 n) = unat n div 2 ^ 32"
    by (simp only: unat_drop_bit_eq) (simp add: drop_bit_eq_div)
  ultimately show ?thesis by (subst unat_ucast_fits) simp_all
qed

lemma unat_low: "unat (ucast (n :: 64 word) :: 32 word) = unat n mod 2 ^ 32"
  by (simp add: unsigned_ucast_eq take_bit_eq_mod)

lemma unat_ucast_up: "unat (ucast (x :: 32 word) :: 64 word) = unat x"
  using unat_less_32 [of x] by (intro unat_ucast_fits) simp

lemma ucast_as_of_nat: "(ucast (x :: 32 word) :: 64 word) = of_nat (unat x)"
  by (rule of_nat_unat [symmetric])

text \<open>The case of a divisor below \<open>2 ^ 32\<close>: long division by one digit.\<close>

lemma long_division:
  assumes "0 < (d :: nat)" "n1 = n div b" "n0 = n mod b" "0 < b"
  shows "(b * (n1 mod d) + n0) div d + b * (n1 div d) = n div d" "(b * (n1 mod d) + n0) div d < b"
proof -
  define r where "r = b * (n1 mod d) + n0"
  have "n = b * n1 + n0" using assms(2,3) by simp
  moreover have "n1 = d * (n1 div d) + n1 mod d" by simp
  then have "b * n1 = b * (d * (n1 div d) + n1 mod d)" by (rule arg_cong)
  ultimately have "n = b * (d * (n1 div d) + n1 mod d) + n0" by (simp only:)
  then have "n = r + (b * (n1 div d)) * d" by (simp only: r_def distrib_left ac_simps)
  then have "n div d = b * (n1 div d) + r div d"
    using assms(1) div_mult_self1 [of d r "b * (n1 div d)"] by (simp only: ac_simps)
  then show "(b * (n1 mod d) + n0) div d + b * (n1 div d) = n div d" by (simp only: r_def ac_simps)
  have "n0 < b" using assms(3,4) by simp
  moreover have "n1 mod d \<le> d - 1" using mod_less_divisor [OF assms(1), of n1] by linarith
  then have "b * (n1 mod d) \<le> b * (d - 1)" by (rule mult_le_mono2)
  moreover have "b * (d - 1) + b = b * d" using assms(1) by (cases d) simp_all
  ultimately have "b * (n1 mod d) + n0 < b * d" by linarith
  then show "(b * (n1 mod d) + n0) div d < b" using assms(1) by (simp add: div_less_iff_less_mult)
qed

text \<open>\<open>udiv64\<close> with a divisor below \<open>2 ^ 32\<close>; the sum and the product in the dividend of
  \<open>divl\<close> do not wrap.\<close>

lemma divl_fits:
  assumes "0 < unat d" "unat n div unat d < 2 ^ 32"
  shows "divl n d = Inr (of_nat (unat n div unat d))"
  using assms by (auto simp: divl_def)

lemma udiv64_small:
  assumes "d \<noteq> 0" "drop_bit 32 d = 0"
  shows "udiv64 n d = Inr (n div d)"
proof -
  define n1 n0 d0 where "n1 = (ucast (drop_bit 32 n) :: 32 word)"
    and "n0 = (ucast n :: 32 word)" and "d0 = (ucast d :: 32 word)"
  define N D B where "N = unat n" and "D = unat d" and "B = (2 ^ 32 :: nat)"
  define X where "X = B * (unat n1 mod D) + unat n0"
  have B: "0 < B" by (simp add: B_def)
  have "unat (ucast (drop_bit 32 d) :: 32 word) = 0" by (simp add: assms(2))
  then have "D div B = 0" by (simp only: unat_high D_def B_def)
  then have DB: "D < B" using B by (simp add: div_eq_0_iff)
  then have d0: "unat d0 = D" using unat_low [of d, folded B_def] by (simp only: d0_def D_def mod_less)
  have pos: "0 < D" using assms(1) unsigned_eq_0_iff [of d, where ?'a = nat] by (simp only: D_def neq0_conv [symmetric] simp_thms)
  then have nz: "d0 \<noteq> 0" using d0 by auto
  have N1: "unat n1 = N div B" by (simp only: n1_def N_def unat_high B_def)
  have N0: "unat n0 = N mod B" by (simp only: n0_def N_def unat_low B_def)
  note ld = long_division [OF pos N1 N0 B, folded X_def]
  have "B * (unat n1 mod D) + unat n0 \<le> B * unat n1 + unat n0" by simp
  then have "X \<le> N" by (simp only: X_def N1 N0 mult_div_mod_eq)
  then have X: "X < 2 ^ 64" using unat_less_64 [of n] by (simp only: N_def)
  have m: "ucast (n1 mod d0) = (of_nat (unat n1 mod D) :: 64 word)"
    "ucast (n1 div d0) = (of_nat (unat n1 div D) :: 64 word)"
    by (simp_all only: ucast_as_of_nat unat_mod_distrib unat_div_distrib d0)
  have b: "push_bit 32 1 = (of_nat B :: 64 word)" by (simp add: B_def)
  have "push_bit 32 1 * ucast (n1 mod d0) + ucast n0 = (of_nat X :: 64 word)"
    by (simp only: m b X_def of_nat_add of_nat_mult) (simp only: ucast_as_of_nat)
  then have num: "unat (push_bit 32 1 * ucast (n1 mod d0) + ucast n0 :: 64 word) = X"
    using X by (simp only:) (rule unat_of_nat_fits, simp)
  have q: "divl (push_bit 32 1 * ucast (n1 mod d0) + ucast n0) d0 = Inr (of_nat (X div D))"
    using divl_fits [of d0 "push_bit 32 1 * ucast (n1 mod d0) + ucast n0"] pos ld(2)
    by (simp only: num d0 B_def)
  have "unat (of_nat (X div D) :: 32 word) = X div D"
    using ld(2) by (intro unat_of_nat_fits) (simp add: B_def)
  then have "ucast (of_nat (X div D) :: 32 word) = (of_nat (X div D) :: 64 word)"
    by (simp only: ucast_as_of_nat)
  then have "ucast (of_nat (X div D) :: 32 word) + push_bit 32 1 * ucast (n1 div d0) =
      (of_nat (N div D) :: 64 word)"
    by (simp only: m b ld(1) [symmetric] of_nat_add of_nat_mult)
  also have "\<dots> = n div d"
    by (simp only: N_def D_def unat_div_distrib [symmetric] of_nat_unat ucast_id)
  finally show ?thesis
    by (simp only: udiv64_def Let_def q n1_def [symmetric] n0_def [symmetric] d0_def [symmetric]
        assms(2) nz if_True if_False bindE.simps simp_thms)
qed

text \<open>The estimate behind the other case: dividing by the divisor with its low bits cleared is at
  most one too large.\<close>

lemma quotient_estimate:
  assumes "(N :: nat) < 2 ^ 64" "2 ^ (31 + k) \<le> D div 2 ^ k * 2 ^ k" "1 \<le> k" "k \<le> 32"
  shows "N div D \<le> N div (D div 2 ^ k * 2 ^ k)" "N div (D div 2 ^ k * 2 ^ k) \<le> N div D + 1"
proof -
  define D' Q R where "D' = D div 2 ^ k * 2 ^ k" and "Q = N div D" and "R = D mod 2 ^ k"
  have D: "D = D' + R" by (simp only: D'_def R_def div_mult_mod_eq)
  have "(0 :: nat) < 2 ^ (31 + k)" by simp
  then have pos: "0 < D'" using assms(2) by (simp only: D'_def)
  then show "N div D \<le> N div (D div 2 ^ k * 2 ^ k)"
    unfolding D'_def [symmetric] by (intro div_le_mono2) (simp_all add: D)
  have "R < 2 ^ k" by (simp add: R_def)
  then have R: "R \<le> 2 ^ k - 1" by simp
  have "Q * 2 ^ (31 + k) \<le> Q * D'" using assms(2) by (simp add: D'_def)
  also have "\<dots> \<le> Q * D" by (simp add: D)
  also have "\<dots> \<le> N" by (simp add: Q_def)
  also have "\<dots> < 2 ^ 64" by (rule assms(1))
  also have "(2 :: nat) ^ 64 = 2 ^ (33 - k) * 2 ^ (31 + k)"
    using assms(4) by (simp flip: power_add)
  finally have "Q + 1 \<le> 2 ^ (33 - k)" by simp
  then have "(Q + 1) * R \<le> 2 ^ (33 - k) * (2 ^ k - 1)" using R by (rule mult_le_mono)
  also have "\<dots> \<le> 2 ^ (31 + k)"
  proof (cases "k = 1")
    case False
    then have "(2 :: nat) ^ 33 \<le> 2 ^ (31 + k)" using assms(3) by (intro power_increasing) auto
    moreover have "(2 :: nat) ^ (33 - k) * (2 ^ k - 1) \<le> 2 ^ (33 - k) * 2 ^ k" by simp
    moreover have "(2 :: nat) ^ (33 - k) * 2 ^ k = 2 ^ 33" using assms(4) by (simp flip: power_add)
    ultimately show ?thesis by linarith
  qed simp
  also have "\<dots> \<le> D'" using assms(2) by (simp only: D'_def)
  finally have "(Q + 1) * D \<le> (Q + 1) * D' + D'" by (simp only: D distrib_left add_le_mono)
  moreover have "N < (Q + 1) * D"
    using dividend_less_times_div [of D N] pos D by (simp add: Q_def algebra_simps)
  ultimately have "N < (Q + 2) * D'" by (simp add: algebra_simps)
  then have "N div D' < Q + 2" using pos by (simp add: div_less_iff_less_mult)
  then show "N div (D div 2 ^ k * 2 ^ k) \<le> N div D + 1" by (simp only: D'_def [symmetric] Q_def [symmetric])
qed

lemma unat_shifted_divisor:
  assumes "s \<le> 31" "unat d div 2 ^ 32 * 2 ^ s < 2 ^ 32"
  shows "unat (ucast (drop_bit 32 (push_bit s (d :: 64 word))) :: 32 word) = unat d div 2 ^ (32 - s)"
proof -
  define D where "D = unat d"
  have p: "(2 :: nat) ^ 32 = 2 ^ (32 - s) * 2 ^ s" using assms(1) by (simp flip: power_add)
  have "D div 2 ^ 32 < 2 ^ (32 - s)" using assms(2) by (simp only: D_def p mult_less_cancel2)
  then have "D < 2 ^ (32 - s) * 2 ^ 32" by (simp only: div_less_iff_less_mult zero_less_power zero_less_numeral)
  then have "D * 2 ^ s < 2 ^ (32 - s) * 2 ^ 32 * 2 ^ s" by simp
  also have "(2 :: nat) ^ (32 - s) * 2 ^ 32 * 2 ^ s = 2 ^ 64" using assms(1) by (simp flip: power_add)
  finally have "unat (push_bit s d) = D * 2 ^ s" by (simp only: D_def) (rule unat_push, simp)
  moreover have "D * 2 ^ s div 2 ^ 32 = D div 2 ^ (32 - s)" by (simp only: p) simp
  ultimately show ?thesis by (simp only: unat_high D_def)
qed

text \<open>The last step of \<open>udiv64\<close>, which takes 1 off an estimate that is too large.\<close>

lemma quotient_correction:
  assumes "unat (d :: 64 word) \<le> unat n" "0 < unat d"
    "unat n div unat d \<le> q" "q \<le> unat n div unat d + 1"
  shows "(if n - (of_nat q - 1) * d < d then of_nat q - 1 else of_nat q) = n div d"
proof -
  define N D where "N = unat n" and "D = unat d"
  define Q R where "Q = N div D" and "R = N mod D"
  have "1 \<le> Q" using assms(1,2) by (simp add: Q_def N_def D_def Suc_le_eq div_greater_zero_iff)
  then have q: "1 \<le> q" using assms(3) by (simp only: Q_def N_def D_def)
  have N: "N = Q * D + R" by (simp only: Q_def R_def div_mult_mod_eq)
  have R: "R < D" using assms(2) by (simp add: R_def D_def)
  have p: "(q - 1) * D \<le> Q * D"
    using assms(4) by (intro mult_le_mono1) (simp add: Q_def N_def D_def)
  then have le: "(q - 1) * D \<le> N" using N by linarith
  have pred: "of_nat q - 1 = (of_nat (q - 1) :: 64 word)" using q by (simp add: of_nat_diff)
  have n: "n = of_nat N" and d: "d = of_nat D" by (simp_all add: N_def D_def)
  have "n - (of_nat q - 1) * d = of_nat (N - (q - 1) * D)"
    using le by (simp only: pred n d of_nat_diff of_nat_mult)
  moreover have "N - (q - 1) * D < 2 ^ LENGTH(64)"
    using unat_less_64 [of n] by (simp add: N_def)
  ultimately have rest: "unat (n - (of_nat q - 1) * d) = N - (q - 1) * D"
    by (simp only: unat_of_nat_fits)
  have Qw: "of_nat Q = n div d"
    by (simp only: Q_def N_def D_def unat_div_distrib [symmetric]) simp
  consider "q = Q" | "q = Q + 1" using assms(3,4) by (fastforce simp: Q_def N_def D_def)
  then show ?thesis
  proof cases
    case 1
    then have "Q = q - 1 + 1" using q by simp
    then have "Q * D = (q - 1 + 1) * D" by (rule arg_cong)
    then have "Q * D = (q - 1) * D + D" by (simp only: add_mult_distrib mult_1)
    then have "\<not> n - (of_nat q - 1) * d < d"
      using N by (simp add: word_less_nat_alt rest D_def [symmetric])
    then show ?thesis using Qw 1 by simp
  next
    case 2
    then have "N - (q - 1) * D = R" using N by simp
    then have "n - (of_nat q - 1) * d < d"
      using R by (simp only: word_less_nat_alt rest D_def [symmetric])
    then show ?thesis using Qw 2 by simp
  qed
qed

lemma udiv64_large:
  assumes "drop_bit 32 d \<noteq> 0" "d \<le> n"
  shows "udiv64 n d = Inr (n div d)"
proof -
  define d1 where "d1 = (ucast (drop_bit 32 d) :: 32 word)"
  define s where "s = nlz d1"
  define v where "v = (ucast (drop_bit 32 (push_bit s d)) :: 32 word)"
  define N D k V where "N = unat n" and "D = unat d" and "k = 32 - s" and "V = D div 2 ^ k"
  have N: "N < 2 ^ 64" using unat_less_64 [of n] by (simp only: N_def)
  have le: "D \<le> N" using assms(2) by (simp only: D_def N_def word_le_nat_alt)
  have d1: "unat d1 = D div 2 ^ 32" by (simp only: d1_def D_def unat_high)
  have "unat (drop_bit 32 d) = D div 2 ^ 32"
    by (simp only: unat_drop_bit_eq D_def) (simp add: drop_bit_eq_div)
  then have "d1 \<noteq> 0" using assms(1) d1 by (metis unat_0 unat_eq_zero)
  note nz = nlz_normalises [OF this, folded s_def, unfolded d1]
  have v: "unat v = V"
    using unat_shifted_divisor [OF nz(3)] nz(2) by (simp only: v_def V_def D_def k_def)
  have k: "1 \<le> k" "k \<le> 32" "s + k = 32" using nz(3) by (auto simp: k_def)
  have "D div 2 ^ 32 * 2 ^ s * 2 ^ k = D div 2 ^ 32 * 2 ^ 32"
    by (simp only: mult.assoc power_add [symmetric] k(3))
  also have "\<dots> \<le> D" by simp
  finally have "D div 2 ^ 32 * 2 ^ s \<le> V"
    by (simp only: V_def less_eq_div_iff_mult_less_eq zero_less_power zero_less_numeral)
  then have V: "2 ^ 31 \<le> V" using nz(1) by (rule order_trans [rotated])
  then have pos: "0 < V" by (rule less_le_trans [rotated]) simp
  have half: "unat (drop_bit 1 n) = N div 2"
    by (simp only: unat_drop_bit_eq N_def) (simp add: drop_bit_eq_div)
  have "N div 2 < 2 ^ 32 * 2 ^ 31" using N by simp
  also have "\<dots> \<le> 2 ^ 32 * V" using V by (rule mult_le_mono2)
  finally have fits: "N div 2 div V < 2 ^ 32" using pos by (simp only: div_less_iff_less_mult)
  define q1 where "q1 = (of_nat (N div 2 div V) :: 32 word)"
  have q1: "divl (drop_bit 1 n) v = Inr q1"
    using divl_fits [of v "drop_bit 1 n"] pos fits by (simp only: half v q1_def)
  have uq1: "unat q1 = N div 2 div V"
    using fits by (simp only: q1_def) (rule unat_of_nat_fits, simp)
  have "unat (drop_bit (31 - s) q1) = N div 2 div V div 2 ^ (31 - s)"
    by (simp only: unat_drop_bit_eq uq1) (simp add: drop_bit_eq_div)
  also have "\<dots> = N div (V * (2 * 2 ^ (31 - s)))"
    by (simp only: div_mult2_eq [symmetric] ac_simps)
  also have "(2 :: nat) * 2 ^ (31 - s) = 2 ^ k"
    using nz(3) by (simp add: k_def flip: power_Suc Suc_diff_le)
  finally have q: "ucast (drop_bit (31 - s) q1) = (of_nat (N div (V * 2 ^ k)) :: 64 word)"
    by (simp only: ucast_as_of_nat)
  have est: "2 ^ (31 + k) \<le> D div 2 ^ k * 2 ^ k"
    using V by (simp only: V_def [symmetric] power_add mult_le_mono1)
  note est = quotient_estimate [OF N est k(1,2), folded V_def]
  have "0 < D" using pos by (cases D) (simp_all add: V_def)
  note corr = quotient_correction [OF le [unfolded D_def N_def] this [unfolded D_def]
      est [unfolded D_def N_def], folded N_def]
  have "\<not> n < d" using assms(2) by simp
  then show ?thesis
    by (simp only: udiv64_def Let_def assms(1) if_False d1_def [symmetric] s_def [symmetric]
        v_def [symmetric] q1 bindE.simps q corr)
qed

lemma udiv64_less: "\<lbrakk>drop_bit 32 d \<noteq> 0; n < d\<rbrakk> \<Longrightarrow> udiv64 n d = Inr (n div d)"
  by (simp add: udiv64_def Let_def word_unat_eq_iff unat_div_distrib word_less_nat_alt)

lemma udiv64_eq: "udiv64 n d = (if d = 0 then Inl DivisionByZero else Inr (n div d))"
proof (cases "d = 0")
  case True
  then show ?thesis by (simp add: udiv64_def Let_def)
next
  case False
  then show ?thesis
    using udiv64_small [of d n] udiv64_large [of d n] udiv64_less [of d n] by (metis not_less)
qed

lemma umod64_eq: "umod64 n d = (if d = 0 then Inl DivisionByZero else Inr (ucast (n mod d)))"
  by (simp add: umod64_def udiv64_eq minus_mult_div_eq_mod)

section \<open>Signed division\<close>

lemma abs64_eq: "abs64 n = word_of_int \<bar>sint n\<bar>"
  by (simp add: abs64_def abs_if)

lemma uint_abs64: "uint (abs64 n) = \<bar>sint n\<bar>"
proof -
  have "- (2 ^ 63) \<le> sint n" "sint n < 2 ^ 63"
    using sint_greater_eq [of n] sint_less [of n] by simp_all
  then have "\<bar>sint n\<bar> < 2 ^ LENGTH(64)" by (simp add: abs_if)
  then show ?thesis
    unfolding abs64_eq by (simp only: uint_word_of_int) (intro mod_pos_pos_trivial abs_ge_zero)
qed

lemma abs64_zero: "abs64 d = 0 \<longleftrightarrow> d = 0"
  by (simp add: abs64_def)

lemma sdiv64_eq:
  "sdiv64 n d = (if d = 0 then Inl DivisionByZero else Inr (word_of_int (sint n sdiv sint d)))"
proof (cases "d = 0")
  case False
  define Q where "Q = \<bar>sint n\<bar> div \<bar>sint d\<bar>"
  have q: "abs64 n div abs64 d = word_of_int Q"
    by (simp only: word_div_def uint_abs64 Q_def)
  have "sint d \<noteq> 0" using False by (metis signed_eq_0_iff)
  have "word_of_int (sint n sdiv sint d) =
      (if (sint n < 0) = (sint d < 0) then word_of_int Q else - word_of_int Q :: 64 word)"
  proof (cases "sint n = 0")
    case True
    then have "Q = 0" "sint n sdiv sint d = 0" by (simp_all add: Q_def)
    then show ?thesis by (simp only: word_of_int_0) simp
  next
    case nz: False
    then have "sint n sdiv sint d = (if (sint n < 0) = (sint d < 0) then Q else - Q)"
      using \<open>sint d \<noteq> 0\<close> by (simp add: signed_divide_int_def Q_def sgn_if)
    then show ?thesis by (simp add: word_of_int_minus)
  qed
  then show ?thesis using False by (simp add: sdiv64_def udiv64_eq abs64_zero q)
qed (simp add: sdiv64_def udiv64_eq abs64_zero)

lemma smod64_eq:
  "smod64 n d = (if d = 0 then Inl DivisionByZero else Inr (word_of_int (sint n smod sint d)))"
proof (cases "d = 0")
  case False
  have "n - d * word_of_int (sint n sdiv sint d) =
      word_of_int (sint n - sint d * (sint n sdiv sint d))"
    by simp
  also have "\<dots> = (word_of_int (sint n smod sint d) :: 64 word)"
    by (simp only: minus_mult_sdiv_eq_smod)
  finally have "ucast (n - d * word_of_int (sint n sdiv sint d)) =
      (word_of_int (sint n smod sint d) :: 32 word)"
    by (simp only:) (rule bit_word_eqI, auto simp: bit_simps)
  then show ?thesis using False by (simp add: smod64_def sdiv64_eq)
qed (simp add: smod64_def sdiv64_eq)

section \<open>Properties\<close>

text \<open>C22: the 64-bit division routines that the compiler calls return exactly the unsigned
  quotient and the signed quotient rounded towards zero, for every pair of operands, and the
  processor's divide error is raised for a zero divisor and for nothing else: neither \<open>divl\<close> of the
  long division nor that of the estimate overflows, and the last step repairs the estimate.\<close>

theorem division_routines:
  "udivdi3 n d = (if d = 0 then Inl DivisionByZero else Inr (n div d)) \<and>
   divdi3 n d = (if d = 0 then Inl DivisionByZero
                 else Inr (word_of_int (sint n sdiv sint d)))"
  by (simp add: udivdi3_def divdi3_def udiv64_eq sdiv64_eq)

text \<open>The remainder routines return the low 32 bits of the remainder, because the helpers
  \<open>umod64\<close> and \<open>smod64\<close> are declared with 32-bit results: the unsigned one is right exactly when the
  remainder is below \<open>2 ^ 32\<close>; the signed one returns the low 32 bits read with their sign.\<close>

theorem remainder_routines:
  assumes "d \<noteq> 0"
  shows "umoddi3 n d = Inr (take_bit 32 (n mod d)) \<and>
    (umoddi3 n d = Inr (n mod d) \<longleftrightarrow> uint (n mod d) < 2 ^ 32) \<and>
    moddi3 n d = Inr (word_of_int (signed_take_bit 31 (sint n smod sint d)))"
proof -
  have "ucast (ucast (n mod d) :: 32 word) = (take_bit 32 (n mod d) :: 64 word)"
    by (rule bit_word_eqI) (auto simp: bit_simps)
  then have u: "umoddi3 n d = Inr (take_bit 32 (n mod d))"
    using assms by (simp add: umoddi3_def umod64_eq)
  have "scast (word_of_int k :: 32 word) = (word_of_int (signed_take_bit 31 k) :: 64 word)" for k
    by (rule bit_word_eqI) (auto simp: bit_simps min_def)
  then have "moddi3 n d = Inr (word_of_int (signed_take_bit 31 (sint n smod sint d)))"
    using assms by (simp add: moddi3_def smod64_eq)
  moreover have "take_bit 32 (n mod d) = n mod d \<longleftrightarrow> uint (n mod d) < 2 ^ 32"
    by (simp add: word_uint_eq_iff unsigned_take_bit_eq take_bit_int_eq_self_iff)
  ultimately show ?thesis using u by simp
qed

lemma remainder_routines_witness:
  "umoddi3 0x100000005 0x200000000 = Inr 5 \<and> (0x100000005 :: 64 word) mod 0x200000000 = 0x100000005"
proof
  have "umoddi3 0x100000005 0x200000000 = Inr (take_bit 32 (0x100000005 mod 0x200000000))"
    using remainder_routines [of "0x200000000" "0x100000005"] by simp
  also have "take_bit 32 (0x100000005 mod 0x200000000 :: 64 word) = 5" by simp
  finally show "umoddi3 0x100000005 0x200000000 = Inr 5" .
qed simp

end
