(* ===== verification/Pintos_Kernel_Properties.thy ===== *)
theory Pintos_Kernel_Properties
  imports Pintos_Pages Pintos_Arith
begin

text \<open>
  The properties of the bitmap and of the two allocators built on it. The instances use a bitmap
  of five bits, of which the bits 0, 1 and 4 are set, and a kernel pool of five pages with this
  bitmap next to a user pool of two free pages.
\<close>

definition sample_bitmap :: bitmap where
  "sample_bitmap = \<lparr>bit_cnt = 5, bits = [19]\<rparr>"

lemma sample_bitmap: "bitmap_wf sample_bitmap" "bit_cnt sample_bitmap = 5"
  "bmap sample_bitmap = [True, True, False, False, True]"
  by (simp_all add: sample_bitmap_def bitmap_wf_def bmap_def upt_rec bit_numeral_rec)

text \<open>C31: \<open>bitmap_scan_and_flip\<close> is first fit. Either it returns the lowest index at or after
  \<open>start\<close> where \<open>cnt\<close> bits in a row have the value \<open>v\<close>, and exactly these bits are inverted, or
  there is none, it returns \<open>BITMAP_ERROR\<close>, and the bitmap is unchanged. It never fails an
  assertion and never reads outside the bitmap's storage.\<close>

theorem bitmap_first_fit:
  assumes "bitmap_wf b" "start \<le> bit_cnt b"
  shows "\<exists>r b'. bitmap_scan_and_flip b start cnt v = Inr (r, b') \<and> bitmap_wf b' \<and>
    bit_cnt b' = bit_cnt b \<and>
    (if r = BITMAP_ERROR then b' = b \<and> (\<forall>j \<ge> start. \<not> free_at (bmap b) cnt v j)
     else start \<le> r \<and> free_at (bmap b) cnt v r \<and>
       (\<forall>j. start \<le> j \<and> j < r \<longrightarrow> \<not> free_at (bmap b) cnt v j) \<and>
       (\<forall>i < bit_cnt b. bmap b' ! i = (if r \<le> i \<and> i < r + cnt then \<not> v else bmap b ! i)))"
proof -
  obtain r b' where s: "bitmap_scan_and_flip b start cnt v = Inr (r, b')" "bitmap_wf b'"
    "bit_cnt b' = bit_cnt b" "if \<exists>j \<ge> start. free_at (bmap b) cnt v j
     then r = (LEAST j. start \<le> j \<and> free_at (bmap b) cnt v j) \<and> r \<noteq> BITMAP_ERROR \<and>
          bmap b' = put_bytes (bmap b) r (replicate cnt (\<not> v))
     else r = BITMAP_ERROR \<and> b' = b"
    using bitmap_scan_and_flip_bmap [OF assms] by blast
  show ?thesis
  proof (cases "\<exists>j \<ge> start. free_at (bmap b) cnt v j")
    case True
    note s4 = s(4) [unfolded if_P [OF True]]
    then have r: "r = (LEAST j. start \<le> j \<and> free_at (bmap b) cnt v j)" by (rule conjunct1)
    have at: "start \<le> r \<and> free_at (bmap b) cnt v r"
      unfolding r by (rule LeastI_ex [OF True])
    moreover have "\<forall>j. start \<le> j \<and> j < r \<longrightarrow> \<not> free_at (bmap b) cnt v j"
      unfolding r using not_less_Least [of _ "\<lambda>j. start \<le> j \<and> free_at (bmap b) cnt v j"] by blast
    moreover have "\<forall>i < bit_cnt b. bmap b' ! i = (if r \<le> i \<and> i < r + cnt then \<not> v else bmap b ! i)"
    proof -
      have "r + cnt \<le> bit_cnt b" using at by (simp add: free_at_def)
      moreover have "bmap b' = put_bytes (bmap b) r (replicate cnt (\<not> v))" using s4 by blast
      ultimately show ?thesis by (auto simp: nth_put_bytes)
    qed
    moreover have "r \<noteq> BITMAP_ERROR" using s4 by blast
    ultimately show ?thesis using s(1-3) by (intro exI [of _ r] exI [of _ b']) simp
  next
    case False
    then have "r = BITMAP_ERROR" "b' = b" using s(4) by (simp_all only: if_False)
    then show ?thesis using s(1,2) False by (intro exI [of _ r] exI [of _ b']) simp
  qed
qed

lemma bitmap_first_fit_witness:
  "\<exists>b'. bitmap_scan_and_flip sample_bitmap 0 2 False = Inr (2, b') \<and> bmap b' ! 2 \<and> bmap b' ! 3"
proof -
  obtain r b' where s: "bitmap_scan_and_flip sample_bitmap 0 2 False = Inr (r, b')"
    "if r = BITMAP_ERROR then b' = sample_bitmap \<and> (\<forall>j \<ge> 0. \<not> free_at (bmap sample_bitmap) 2 False j)
     else 0 \<le> r \<and> free_at (bmap sample_bitmap) 2 False r \<and>
       (\<forall>j. 0 \<le> j \<and> j < r \<longrightarrow> \<not> free_at (bmap sample_bitmap) 2 False j) \<and>
       (\<forall>i < 5. bmap b' ! i = (if r \<le> i \<and> i < r + 2 then \<not> False else bmap sample_bitmap ! i))"
    using bitmap_first_fit [of sample_bitmap 0 2 False] unfolding sample_bitmap(2)
    using sample_bitmap(1) by blast
  have f: "free_at (bmap sample_bitmap) 2 False j \<longleftrightarrow> j = 2" for j
  proof -
    have "free_at (bmap sample_bitmap) 2 False j \<longleftrightarrow>
        j \<le> 3 \<and> \<not> bmap sample_bitmap ! j \<and> \<not> bmap sample_bitmap ! Suc j"
      by (auto simp: free_at_def sample_bitmap(3) less_2_cases_iff)
    moreover have "j \<le> 3 \<longleftrightarrow> j = 0 \<or> j = 1 \<or> j = 2 \<or> j = 3" by linarith
    ultimately show ?thesis by (auto simp: sample_bitmap(3))
  qed
  then have "\<not> (\<forall>j \<ge> 0. \<not> free_at (bmap sample_bitmap) 2 False j)" by simp
  then have "r \<noteq> BITMAP_ERROR" using s(2) by argo
  then have "r = 2" "\<forall>i < 5. bmap b' ! i = (if r \<le> i \<and> i < r + 2 then \<not> False else bmap sample_bitmap ! i)"
    using s(2) f by simp_all
  then show ?thesis using s(1) by (intro exI [of _ b']) simp
qed

text \<open>The range operations read and write the bits they name: after \<open>bitmap_set_multiple\<close> the
  range has the value everywhere and the other bits are as before, \<open>bitmap_count\<close> returns the number of
  bits of a range with a value, and \<open>bitmap_contains\<close> and \<open>bitmap_all\<close> answer for every bit.\<close>

theorem bitmap_ranges:
  assumes "bitmap_wf b" "start + cnt \<le> bit_cnt b"
  shows "bitmap_count b start cnt v = Inr (card {i. start \<le> i \<and> i < start + cnt \<and> bmap b ! i = v}) \<and>
    bitmap_contains b start cnt v = Inr (\<exists>i. start \<le> i \<and> i < start + cnt \<and> bmap b ! i = v) \<and>
    bitmap_all b start cnt = Inr (\<forall>i. start \<le> i \<and> i < start + cnt \<longrightarrow> bmap b ! i) \<and>
    (\<exists>b'. bitmap_set_multiple b start cnt v = Inr b' \<and> bitmap_wf b' \<and> bit_cnt b' = bit_cnt b \<and>
      (\<forall>i < bit_cnt b. bmap b' ! i = (if start \<le> i \<and> i < start + cnt then v else bmap b ! i)))"
proof -
  have w: "window (bmap b) start cnt = map (\<lambda>i. bmap b ! i) [start ..< start + cnt]"
    using assms(2) by (intro nth_equalityI) (simp_all add: window_def)
  have "count_list (map f [start ..< start + k]) v = card {i. start \<le> i \<and> i < start + k \<and> f i = v}"
    for f :: "nat \<Rightarrow> bool" and k
  proof (induction k)
    case (Suc k)
    have "{i. start \<le> i \<and> i < start + Suc k \<and> f i = v} =
        (if f (start + k) = v then {start + k} else {}) \<union> {i. start \<le> i \<and> i < start + k \<and> f i = v}"
      by (auto simp: less_Suc_eq)
    then show ?case using Suc by (simp add: card_insert_disjoint)
  qed simp
  then have "bitmap_count b start cnt v = Inr (card {i. start \<le> i \<and> i < start + cnt \<and> bmap b ! i = v})"
    using bitmap_count_bmap [OF assms] by (simp add: w)
  moreover have "bitmap_contains b start cnt v = Inr (\<exists>i. start \<le> i \<and> i < start + cnt \<and> bmap b ! i = v)"
    using bitmap_contains_bmap [OF assms] by (auto simp: w image_iff Bex_def)
  moreover have "free_at (bmap b) cnt True start \<longleftrightarrow> (\<forall>i. start \<le> i \<and> i < start + cnt \<longrightarrow> bmap b ! i)"
    using assms(2) by (auto simp: free_at_def dest: spec [of _ "_ - start"]) (metis le_add_diff_inverse less_diff_conv2 add.commute)
  moreover obtain b' where "bitmap_set_multiple b start cnt v = Inr b'" "bitmap_wf b'"
    "bit_cnt b' = bit_cnt b" "bmap b' = put_bytes (bmap b) start (replicate cnt v)"
    using bitmap_set_multiple_bmap [OF assms] by blast
  ultimately show ?thesis
    using assms(2) bitmap_all_bmap [OF assms] by (auto simp: nth_put_bytes)
qed

lemma bitmap_ranges_witness: "bitmap_count sample_bitmap 1 3 False = Inr 2"
proof -
  have "{i. 1 \<le> i \<and> i < 1 + (3 :: nat) \<and> bmap sample_bitmap ! i = False} = {2, 3}"
    by (auto simp: sample_bitmap nth_Cons' split: if_splits)
  then show ?thesis
    using bitmap_ranges [of sample_bitmap 1 3 False] sample_bitmap by simp
qed

text \<open>Writing a bitmap to a file and reading it back, into any bitmap of the same size, gives
  the same bits, whatever follows in the file.\<close>

theorem bitmap_file_roundtrip:
  assumes "bitmap_wf b" "length (bits b) = elem_cnt (bit_cnt b)"
    and "bit_cnt b' = bit_cnt b" "length (bits b') = length (bits b)"
  shows "\<exists>b''. bitmap_read b' (bitmap_write b @ rest) = Inr (True, b'') \<and> bitmap_wf b'' \<and>
    bmap b'' = bmap b"
  using bitmap_read_write [OF assms] by blast

lemma bitmap_file_roundtrip_witness:
  "\<exists>b''. bitmap_read \<lparr>bit_cnt = 5, bits = [7]\<rparr> (bitmap_write sample_bitmap @ [1, 2]) = Inr (True, b'') \<and>
     bmap b'' = [True, True, False, False, True]"
  using bitmap_file_roundtrip [of sample_bitmap "\<lparr>bit_cnt = 5, bits = [7]\<rparr>" "[1, 2]"] sample_bitmap
  by (auto simp: sample_bitmap_def elem_cnt_def DIV_ROUND_UP_def add32_def ELEM_BITS_def)

section \<open>The page allocator\<close>

text \<open>\<open>palloc_init\<close>, with RAM between 1 MB + 4 pages and 1 GB and a limit of at least two user
  pages, makes two disjoint, page-aligned pools in kernel memory, all pages of which are free. The
  storage for the bitmaps (\<open>block1\<close> and \<open>block2\<close>, the memory at the base of each pool) fits.\<close>

theorem palloc_init_establishes:
  assumes "260 \<le> ram_pages" "ram_pages < 2 ^ 18" "2 \<le> limit"
    and "9216 \<le> length block1" "9216 \<le> length block2"
  shows "\<exists>st. palloc_init ram_pages limit block1 block2 mem = Inr st \<and> pools_wf st \<and>
    True \<notin> set (bmap (used_map (kernel_pool st))) \<and> True \<notin> set (bmap (used_map (user_pool st)))"
  by (rule palloc_init_ok) (use assms in simp_all)

lemma palloc_init_establishes_witness:
  "\<exists>st. palloc_init 1024 100 (replicate 9216 0) (replicate 9216 0) (\<lambda>_. 0) = Inr st \<and> pools_wf st"
  using palloc_init_establishes [of 1024 100 "replicate 9216 0" "replicate 9216 0" "\<lambda>_. 0"]
  by (simp only: length_replicate) auto

text \<open>C32: pages that \<open>palloc_get_multiple\<close> hands out are aligned, are zeroed when \<open>PAL_ZERO\<close> asks for
  it, and can be given back: \<open>palloc_free_multiple\<close> finds their pool, passes its assertions, keeps the
  pools well formed and leaves the pool with the used map from before. A null result means that no
  run of free pages is long enough.\<close>

theorem palloc_get_then_free:
  assumes "pools_wf st" "0 < n" "palloc_get_multiple flags n st = Inr (pages, st')"
  shows "pools_wf st' \<and>
    (if pages = 0 then \<not> (\<exists>i. free_at (bmap (used_map (pool_of flags st))) n False i)
     else pg_ofs pages = 0 \<and>
       (flags AND PAL_ZERO \<noteq> 0 \<longrightarrow> (\<forall>k < PGSIZE * n. pmem st' (pages + of_nat k) = 0)) \<and>
       (\<exists>st''. palloc_free_multiple pages n st' = Inr st'' \<and> pools_wf st'' \<and>
          bmap (used_map (pool_of flags st'')) = bmap (used_map (pool_of flags st))))"
proof (cases "pages = 0")
  case True
  then show ?thesis using palloc_get_cases [OF assms] by simp
next
  case False
  then show ?thesis using palloc_get_cases [OF assms] palloc_get_free [OF assms False] by simp
qed

definition sample_pools :: palloc_state where
  "sample_pools = \<lparr>kernel_pool = \<lparr>used_map = sample_bitmap, base = 0xc0101000\<rparr>,
     user_pool = \<lparr>used_map = \<lparr>bit_cnt = 2, bits = [0]\<rparr>, base = 0xc0200000\<rparr>, pmem = (\<lambda>_. 0xff)\<rparr>"

lemma sample_pools_wf: "pools_wf sample_pools"
  by (simp add: sample_pools_def pools_wf_def pool_wf_def sample_bitmap_def bitmap_wf_def)

lemma scan_and_flip_at:
  assumes "bitmap_wf b" "free_at (bmap b) n False k" "\<forall>j < k. \<not> free_at (bmap b) n False j"
  shows "\<exists>b'. bitmap_scan_and_flip b 0 n False = Inr (k, b') \<and> bitmap_wf b' \<and> k \<noteq> BITMAP_ERROR \<and>
    bmap b' = put_bytes (bmap b) k (replicate n True)"
proof -
  have ex: "\<exists>j \<ge> 0. free_at (bmap b) n False j" using assms(2) by blast
  have "(LEAST j. 0 \<le> j \<and> free_at (bmap b) n False j) = k"
    using assms(2,3) by (intro Least_equality) (auto simp: not_less [symmetric])
  then show ?thesis
    using bitmap_scan_and_flip_bmap [OF assms(1), of 0 n False] unfolding if_P [OF ex] by auto
qed

lemma free_at_eval: "free_at xs n False i \<longleftrightarrow> i + n \<le> length xs \<and> True \<notin> set (take n (drop i xs))"
  by (auto simp: free_at_def in_set_conv_nth)

lemma sample_scan:
  "\<exists>b'. bitmap_scan_and_flip sample_bitmap 0 2 False = Inr (2, b')"
  "\<exists>b'. bitmap_scan_and_flip sample_bitmap 0 1 False = Inr (2, b') \<and> bitmap_wf b' \<and>
     bmap b' = [True, True, True, False, True]"
  using scan_and_flip_at [of sample_bitmap 2 2] scan_and_flip_at [of sample_bitmap 1 2]
  by (auto simp: sample_bitmap free_at_eval less_2_cases_iff put_bytes_def all_conj_distrib)

lemmas get_defs = palloc_get_multiple_def pool_of_def set_pool_def BITMAP_ERROR_def SIZE_MAX_def
  PGSIZE_def PAL_USER_def PAL_ZERO_def

lemma sample_pools_get:
  "\<exists>st'. palloc_get_multiple 0 2 sample_pools = Inr (0xc0103000, st')"
proof -
  obtain b' where "bitmap_scan_and_flip sample_bitmap 0 2 False = Inr (2, b')"
    using sample_scan(1) by blast
  then show ?thesis by (simp add: sample_pools_def get_defs)
qed

lemma palloc_get_then_free_witness:
  "\<exists>st' st''. palloc_get_multiple 0 2 sample_pools = Inr (0xc0103000, st') \<and>
     palloc_free_multiple 0xc0103000 2 st' = Inr st'' \<and>
     bmap (used_map (kernel_pool st'')) = [True, True, False, False, True]"
proof -
  obtain st' where g: "palloc_get_multiple 0 2 sample_pools = Inr (0xc0103000, st')"
    using sample_pools_get by blast
  have "pool_of 0 st = kernel_pool st" for st by (simp add: pool_of_def)
  then show ?thesis
    using palloc_get_then_free [OF sample_pools_wf _ g] g
    by (auto simp: sample_pools_def sample_bitmap)
qed

text \<open>Two page groups that are live at the same time do not overlap: the groups of two successive
  calls of \<open>palloc_get_multiple\<close> on the same pool have no byte in common.\<close>

theorem palloc_groups_disjoint:
  assumes "pools_wf st" "0 < n" "palloc_get_multiple flags n st = Inr (p, st1)" "p \<noteq> 0"
    and "0 < m" "palloc_get_multiple flags m st1 = Inr (q, st2)" "q \<noteq> 0"
  shows "{unat p ..< unat p + PGSIZE * n} \<inter> {unat q ..< unat q + PGSIZE * m} = {}"
proof -
  let ?P = "pool_of flags st" and ?Q = "pool_of flags st1"
  note c = palloc_get_cases [OF assms(1-3)]
  then have wf1: "pools_wf st1" and b: "base ?Q = base ?P" by blast+
  note d = palloc_get_cases [OF wf1 assms(5,6)]
  obtain i b1 where i: "bitmap_scan_and_flip (used_map ?P) 0 n False = Inr (i, b1)" "i \<noteq> BITMAP_ERROR"
    "i + n \<le> bit_cnt (used_map ?P)" "p = page_at ?P i" "used_map ?Q = b1"
    using c assms(4) by blast
  obtain j b2 where j: "bitmap_scan_and_flip (used_map ?Q) 0 m False = Inr (j, b2)" "j \<noteq> BITMAP_ERROR"
    "j + m \<le> bit_cnt (used_map ?Q)" "q = page_at ?Q j"
    using d assms(7) by blast
  have P: "pool_wf ?P" and Q: "pool_wf ?Q" using pool_of_wf assms(1) wf1 by blast+
  have "unat p = unat (base ?P) + 4096 * i" using page_at(1) [OF P, of i] i(3,4) assms(2) by simp
  moreover have "unat q = unat (base ?P) + 4096 * j"
    using page_at(1) [OF Q, of j] j(3,4) assms(5) b by simp
  moreover have "{i ..< i + n} \<inter> {j ..< j + m} = {}"
    using bitmap.takes_disjoint [OF _ i(1,2) j(1,2) [unfolded i(5)]] P by (simp add: pool_wf_def)
  then have "i + n \<le> j \<or> j + m \<le> i" using assms(2,5) by (auto simp: disjoint_iff)
  ultimately show ?thesis by (auto simp: PGSIZE_def)
qed

lemma palloc_groups_disjoint_witness:
  "\<exists>st1 q st2. palloc_get_multiple 0 1 sample_pools = Inr (0xc0103000, st1) \<and>
     palloc_get_multiple 0 1 st1 = Inr (q, st2) \<and> q \<noteq> 0 \<and>
     {unat (0xc0103000 :: word_t) ..< unat (0xc0103000 :: word_t) + PGSIZE * 1} \<inter>
       {unat q ..< unat q + PGSIZE * 1} = {}"
proof -
  obtain st1 where 1: "palloc_get_multiple 0 1 sample_pools = Inr (0xc0103000, st1)"
    "bitmap_wf (used_map (kernel_pool st1))" "base (kernel_pool st1) = 0xc0101000"
    "bmap (used_map (kernel_pool st1)) = [True, True, True, False, True]"
  proof -
    obtain b' where "bitmap_scan_and_flip sample_bitmap 0 1 False = Inr (2, b')" "bitmap_wf b'"
      "bmap b' = [True, True, True, False, True]"
      using sample_scan(2) by blast
    then show thesis using that by (simp add: get_defs sample_pools_def)
  qed
  obtain b2 where "bitmap_scan_and_flip (used_map (kernel_pool st1)) 0 1 False = Inr (3, b2)"
    using scan_and_flip_at [OF 1(2), of 1 3]
    by (auto simp: 1(4) free_at_eval numeral_3_eq_3 less_Suc_eq)
  then obtain st2 where 2: "palloc_get_multiple 0 1 st1 = Inr (0xc0104000, st2)"
    using 1(3) by (simp add: get_defs)
  show ?thesis
    using palloc_groups_disjoint [OF sample_pools_wf _ 1(1) _ _ 2] 1(1) 2 by auto
qed

section \<open>The free map\<close>

text \<open>\<open>free_map_allocate\<close> either finds a run of free sectors and marks exactly these, or leaves the
  map as it was, also when writing the free map's file fails after the sectors were taken.\<close>

theorem free_map_allocate_all_or_nothing:
  assumes "bitmap_wf (free_map st)"
  shows "\<exists>r st'. free_map_allocate write cnt st = Inr (r, st') \<and> bitmap_wf (free_map st') \<and>
    (case r of
       None \<Rightarrow> bmap (free_map st') = bmap (free_map st)
     | Some sector \<Rightarrow> free_at (bmap (free_map st)) cnt False sector \<and>
         bmap (free_map st') = put_bytes (bmap (free_map st)) sector (replicate cnt True))"
  by (rule free_map_allocate_outcome [OF assms])

lemma free_map_allocate_all_or_nothing_witness:
  "\<exists>r st'. free_map_allocate (\<lambda>old new. (False, old)) 2 \<lparr>free_map = sample_bitmap, free_map_file = Some []\<rparr>
      = Inr (r, st')"
  using free_map_allocate_all_or_nothing [of "\<lparr>free_map = sample_bitmap, free_map_file = Some []\<rparr>"
      "\<lambda>old new. (False, old)" 2] sample_bitmap by auto

text \<open>Sectors that were allocated while the free map's file is open can be released, which gives
  back the map from before, whatever the two writes answer.\<close>

theorem free_map_roundtrip:
  assumes "bitmap_wf (free_map st)" "free_map_file st = Some contents"
    and "free_map_allocate write cnt st = Inr (Some sector, st')"
  shows "\<exists>st''. free_map_release write' sector cnt st' = Inr st'' \<and> bitmap_wf (free_map st'') \<and>
    bmap (free_map st'') = bmap (free_map st)"
  by (rule free_map_allocate_release [OF assms])

lemma free_map_roundtrip_witness:
  "\<exists>st' st''. free_map_allocate (\<lambda>old new. (True, new)) 2 \<lparr>free_map = sample_bitmap, free_map_file = Some []\<rparr>
      = Inr (Some 2, st') \<and> free_map_release (\<lambda>old new. (False, old)) 2 2 st' = Inr st'' \<and>
     bmap (free_map st'') = [True, True, False, False, True]"
proof -
  let ?st = "\<lparr>free_map = sample_bitmap, free_map_file = Some []\<rparr>"
  obtain st' where a: "free_map_allocate (\<lambda>old new. (True, new)) 2 ?st = Inr (Some 2, st')"
  proof -
    obtain b' where "bitmap_scan_and_flip sample_bitmap 0 2 False = Inr (2, b')"
      using sample_scan(1) by blast
    then show thesis using that by (simp add: free_map_allocate_def BITMAP_ERROR_def SIZE_MAX_def)
  qed
  show ?thesis
    using free_map_roundtrip [OF _ _ a, of "[]" "\<lambda>old new. (False, old)"] a sample_bitmap by auto
qed

end
