(* ===== verification/Pintos_String.thy ===== *)
theory Pintos_String
  imports Prelude "HOL-Library.Sublist"
begin

text \<open>
  The string library of Pintos, \<open>src/lib/string.c\<close>. A memory is the list of its bytes, an address an
  index into it, and address 0 the null pointer; an access at address 0 or past the end is an error.
  A function that returns a pointer returns its address, 0 for NULL. Sizes and lengths are natural
  numbers: within a memory of less than \<open>2 ^ 32\<close> bytes they do not wrap, and the one sum that could
  (in \<open>strlcat\<close>) is written with its modulus. \<open>unsigned char\<close> comparisons are those of the bytes.
\<close>

section \<open>Memory\<close>

type_synonym mem = "byte_t list"

definition ld :: "mem \<Rightarrow> nat \<Rightarrow> c_error + byte_t" where
  "ld m p = (if p = 0 then Inl NullDereference else rd m p)"

definition st :: "mem \<Rightarrow> nat \<Rightarrow> byte_t \<Rightarrow> c_error + mem" where
  "st m p b = (if p = 0 then Inl NullDereference else wr m p b)"

lemma ld_eq_Inr: "ld m p = Inr b \<longleftrightarrow> p \<noteq> 0 \<and> p < length m \<and> b = m ! p"
  by (auto simp: ld_def rd_eq_Inr)

lemma ld_in [simp]: "\<lbrakk>0 < p; p < length m\<rbrakk> \<Longrightarrow> ld m p = Inr (m ! p)"
  by (simp add: ld_def)

lemma st_in [simp]: "\<lbrakk>0 < p; p < length m\<rbrakk> \<Longrightarrow> st m p b = Inr (m[p := b])"
  by (simp add: st_def)

text \<open>A pointer handed to a function that touches \<open>size\<close> bytes may be null only for none.\<close>

definition nonnull :: "nat \<Rightarrow> nat \<Rightarrow> c_error + unit" where
  "nonnull p sz = guardE AssertFailed (p \<noteq> 0 \<or> sz = 0)"

lemma nonnull_ok [simp]: "nonnull p sz = Inr u \<longleftrightarrow> p \<noteq> 0 \<or> sz = 0" "0 < p \<Longrightarrow> nonnull p sz = Inr ()"
  by (auto simp: nonnull_def guardE_def)

section \<open>Blocks\<close>

fun memcpy_loop :: "nat \<Rightarrow> mem \<Rightarrow> nat \<Rightarrow> nat \<Rightarrow> c_error + mem" where
  "memcpy_loop 0 m dst src = Inr m"
| "memcpy_loop (Suc sz) m dst src =
    bindE (ld m src) (\<lambda>b. bindE (st m dst b) (\<lambda>m. memcpy_loop sz m (dst + 1) (src + 1)))"

definition memcpy :: "nat \<Rightarrow> nat \<Rightarrow> nat \<Rightarrow> mem \<Rightarrow> c_error + (nat \<times> mem)" where
  "memcpy dst src sz m =
    bindE (nonnull dst sz) (\<lambda>_. bindE (nonnull src sz) (\<lambda>_.
    bindE (memcpy_loop sz m dst src) (\<lambda>m. Inr (dst, m))))"

text \<open>The second loop of \<open>memmove\<close>, with the pointers past the ends.\<close>

fun memmove_down :: "nat \<Rightarrow> mem \<Rightarrow> nat \<Rightarrow> nat \<Rightarrow> c_error + mem" where
  "memmove_down 0 m dst src = Inr m"
| "memmove_down (Suc sz) m dst src =
    bindE (ld m (src - 1)) (\<lambda>b. bindE (st m (dst - 1) b) (\<lambda>m. memmove_down sz m (dst - 1) (src - 1)))"

text \<open>\<open>memmove\<close> returns its variable \<open>dst\<close>, not the argument: after the first loop it has moved.\<close>

definition memmove :: "nat \<Rightarrow> nat \<Rightarrow> nat \<Rightarrow> mem \<Rightarrow> c_error + (nat \<times> mem)" where
  "memmove dst src sz m =
    bindE (nonnull dst sz) (\<lambda>_. bindE (nonnull src sz) (\<lambda>_.
    if dst < src then bindE (memcpy_loop sz m dst src) (\<lambda>m. Inr (dst + sz, m))
    else bindE (memmove_down sz m (dst + sz) (src + sz)) (\<lambda>m. Inr (dst, m))))"

fun memcmp_loop :: "nat \<Rightarrow> mem \<Rightarrow> nat \<Rightarrow> nat \<Rightarrow> c_error + int" where
  "memcmp_loop 0 m a b = Inr 0"
| "memcmp_loop (Suc sz) m a b =
    bindE (ld m a) (\<lambda>x. bindE (ld m b) (\<lambda>y.
      if x \<noteq> y then Inr (if x > y then 1 else - 1) else memcmp_loop sz m (a + 1) (b + 1)))"

definition memcmp :: "nat \<Rightarrow> nat \<Rightarrow> nat \<Rightarrow> mem \<Rightarrow> c_error + int" where
  "memcmp a b sz m =
    bindE (nonnull a sz) (\<lambda>_. bindE (nonnull b sz) (\<lambda>_. memcmp_loop sz m a b))"

fun memchr_loop :: "nat \<Rightarrow> mem \<Rightarrow> nat \<Rightarrow> byte_t \<Rightarrow> c_error + nat" where
  "memchr_loop 0 m block ch = Inr 0"
| "memchr_loop (Suc sz) m block ch =
    bindE (ld m block) (\<lambda>b. if b = ch then Inr block else memchr_loop sz m (block + 1) ch)"

definition memchr :: "nat \<Rightarrow> int \<Rightarrow> nat \<Rightarrow> mem \<Rightarrow> c_error + nat" where
  "memchr block ch sz m =
    bindE (nonnull block sz) (\<lambda>_. memchr_loop sz m block (word_of_int ch))"

fun memset_loop :: "nat \<Rightarrow> mem \<Rightarrow> nat \<Rightarrow> byte_t \<Rightarrow> c_error + mem" where
  "memset_loop 0 m dst v = Inr m"
| "memset_loop (Suc sz) m dst v = bindE (st m dst v) (\<lambda>m. memset_loop sz m (dst + 1) v)"

definition memset :: "nat \<Rightarrow> int \<Rightarrow> nat \<Rightarrow> mem \<Rightarrow> c_error + (nat \<times> mem)" where
  "memset dst v sz m =
    bindE (nonnull dst sz) (\<lambda>_. bindE (memset_loop sz m dst (word_of_int v)) (\<lambda>m. Inr (dst, m)))"

section \<open>Strings\<close>

text \<open>The loops over a string end at the latest at the end of the memory.\<close>

function strlen_loop :: "mem \<Rightarrow> nat \<Rightarrow> c_error + nat" where
  "strlen_loop m p = bindE (ld m p) (\<lambda>c. if c \<noteq> 0 then strlen_loop m (p + 1) else Inr p)"
  by pat_completeness auto
termination by (relation "measure (\<lambda>(m, p). length m - p)") (auto simp: ld_eq_Inr)

definition strlen :: "nat \<Rightarrow> mem \<Rightarrow> c_error + nat" where
  "strlen string m =
    bindE (guardE AssertFailed (string \<noteq> 0)) (\<lambda>_. bindE (strlen_loop m string) (\<lambda>p. Inr (p - string)))"

function strcmp_loop :: "mem \<Rightarrow> nat \<Rightarrow> nat \<Rightarrow> c_error + int" where
  "strcmp_loop m a b =
    bindE (ld m a) (\<lambda>x.
      if x \<noteq> 0 then bindE (ld m b) (\<lambda>y.
        if x = y then strcmp_loop m (a + 1) (b + 1)
        else Inr (if x < y then - 1 else if x > y then 1 else 0))
      else bindE (ld m b) (\<lambda>y. Inr (if x < y then - 1 else if x > y then 1 else 0)))"
  by pat_completeness auto
termination by (relation "measure (\<lambda>(m, a, b). length m - a)") (auto simp: ld_eq_Inr)

definition strcmp :: "nat \<Rightarrow> nat \<Rightarrow> mem \<Rightarrow> c_error + int" where
  "strcmp a b m =
    bindE (guardE AssertFailed (a \<noteq> 0)) (\<lambda>_. bindE (guardE AssertFailed (b \<noteq> 0)) (\<lambda>_. strcmp_loop m a b))"

function strchr_loop :: "mem \<Rightarrow> nat \<Rightarrow> byte_t \<Rightarrow> c_error + nat" where
  "strchr_loop m string c =
    bindE (ld m string) (\<lambda>x.
      if x = c then Inr string else if x = 0 then Inr 0 else strchr_loop m (string + 1) c)"
  by pat_completeness auto
termination by (relation "measure (\<lambda>(m, s, c). length m - s)") (auto simp: ld_eq_Inr)

definition strchr :: "nat \<Rightarrow> int \<Rightarrow> mem \<Rightarrow> c_error + nat" where
  "strchr string c m =
    bindE (guardE AssertFailed (string \<noteq> 0)) (\<lambda>_. strchr_loop m string (word_of_int c))"

function strcspn_loop :: "mem \<Rightarrow> nat \<Rightarrow> nat \<Rightarrow> nat \<Rightarrow> c_error + nat" where
  "strcspn_loop m string stop len =
    bindE (ld m (string + len)) (\<lambda>c.
      if c \<noteq> 0 then bindE (strchr stop (uint c) m) (\<lambda>p.
        if p \<noteq> 0 then Inr len else strcspn_loop m string stop (len + 1))
      else Inr len)"
  by pat_completeness auto
termination by (relation "measure (\<lambda>(m, s, t, l). length m - (s + l))") (auto simp: ld_eq_Inr)

definition strcspn :: "nat \<Rightarrow> nat \<Rightarrow> mem \<Rightarrow> c_error + nat" where
  "strcspn string stop m = strcspn_loop m string stop 0"

function strpbrk :: "nat \<Rightarrow> nat \<Rightarrow> mem \<Rightarrow> c_error + nat" where
  "strpbrk string stop m =
    bindE (ld m string) (\<lambda>c.
      if c \<noteq> 0 then bindE (strchr stop (uint c) m) (\<lambda>p.
        if p \<noteq> 0 then Inr string else strpbrk (string + 1) stop m)
      else Inr 0)"
  by pat_completeness auto
termination by (relation "measure (\<lambda>(s, t, m). length m - s)") (auto simp: ld_eq_Inr)

function strrchr_loop :: "mem \<Rightarrow> nat \<Rightarrow> byte_t \<Rightarrow> nat \<Rightarrow> c_error + nat" where
  "strrchr_loop m string c p =
    bindE (ld m string) (\<lambda>x.
      if x \<noteq> 0 then strrchr_loop m (string + 1) c (if x = c then string else p) else Inr p)"
  by pat_completeness auto
termination by (relation "measure (\<lambda>(m, s, c, p). length m - s)") (auto simp: ld_eq_Inr)

definition strrchr :: "nat \<Rightarrow> int \<Rightarrow> mem \<Rightarrow> c_error + nat" where
  "strrchr string c m = strrchr_loop m string (word_of_int c) 0"

function strspn_loop :: "mem \<Rightarrow> nat \<Rightarrow> nat \<Rightarrow> nat \<Rightarrow> c_error + nat" where
  "strspn_loop m string skip len =
    bindE (ld m (string + len)) (\<lambda>c.
      if c \<noteq> 0 then bindE (strchr skip (uint c) m) (\<lambda>p.
        if p = 0 then Inr len else strspn_loop m string skip (len + 1))
      else Inr len)"
  by pat_completeness auto
termination by (relation "measure (\<lambda>(m, s, t, l). length m - (s + l))") (auto simp: ld_eq_Inr)

definition strspn :: "nat \<Rightarrow> nat \<Rightarrow> mem \<Rightarrow> c_error + nat" where
  "strspn string skip m = strspn_loop m string skip 0"

fun strstr_loop :: "nat \<Rightarrow> nat \<Rightarrow> mem \<Rightarrow> nat \<Rightarrow> nat \<Rightarrow> nat \<Rightarrow> c_error + nat" where
  "strstr_loop 0 i m haystack needle needle_len = Inr 0"
| "strstr_loop (Suc k) i m haystack needle needle_len =
    bindE (memcmp (haystack + i) needle needle_len m) (\<lambda>r.
      if r = 0 then Inr (haystack + i) else strstr_loop k (i + 1) m haystack needle needle_len)"

definition strstr :: "nat \<Rightarrow> nat \<Rightarrow> mem \<Rightarrow> c_error + nat" where
  "strstr haystack needle m =
    bindE (strlen haystack m) (\<lambda>haystack_len. bindE (strlen needle m) (\<lambda>needle_len.
      if haystack_len \<ge> needle_len
      then strstr_loop (haystack_len - needle_len + 1) 0 m haystack needle needle_len
      else Inr 0))"

function strnlen_loop :: "mem \<Rightarrow> nat \<Rightarrow> nat \<Rightarrow> nat \<Rightarrow> c_error + nat" where
  "strnlen_loop m string maxlen len =
    bindE (ld m (string + len)) (\<lambda>c.
      if c \<noteq> 0 \<and> len < maxlen then strnlen_loop m string maxlen (len + 1) else Inr len)"
  by pat_completeness auto
termination by (relation "measure (\<lambda>(m, s, k, l). k - l)") auto

definition strnlen :: "nat \<Rightarrow> nat \<Rightarrow> mem \<Rightarrow> c_error + nat" where
  "strnlen string maxlen m = strnlen_loop m string maxlen 0"

definition strlcpy :: "nat \<Rightarrow> nat \<Rightarrow> nat \<Rightarrow> mem \<Rightarrow> c_error + (nat \<times> mem)" where
  "strlcpy dst src sz m =
    bindE (guardE AssertFailed (dst \<noteq> 0)) (\<lambda>_. bindE (guardE AssertFailed (src \<noteq> 0)) (\<lambda>_.
    bindE (strlen src m) (\<lambda>src_len.
      if sz > 0 then
        let dst_len = (if src_len < sz - 1 then src_len else sz - 1)
        in bindE (memcpy dst src dst_len m) (\<lambda>(_, m). bindE (st m (dst + dst_len) 0) (\<lambda>m. Inr (src_len, m)))
      else Inr (src_len, m))))"

definition strlcat :: "nat \<Rightarrow> nat \<Rightarrow> nat \<Rightarrow> mem \<Rightarrow> c_error + (nat \<times> mem)" where
  "strlcat dst src sz m =
    bindE (guardE AssertFailed (dst \<noteq> 0)) (\<lambda>_. bindE (guardE AssertFailed (src \<noteq> 0)) (\<lambda>_.
    bindE (strlen src m) (\<lambda>src_len. bindE (strlen dst m) (\<lambda>dst_len.
    bindE (if sz > 0 \<and> dst_len < sz then
             let copy_cnt = (if src_len < sz - dst_len - 1 then src_len else sz - dst_len - 1)
             in bindE (memcpy (dst + dst_len) src copy_cnt m) (\<lambda>(_, m). st m (dst + dst_len + copy_cnt) 0)
           else Inr m) (\<lambda>m. Inr ((src_len + dst_len) mod 2 ^ 32, m))))))"

text \<open>\<open>strtok_r\<close>: \<open>saved\<close> is the value of \<open>*save_ptr\<close>; the result has the token, the new value and
  the memory.\<close>

function skip_delims :: "mem \<Rightarrow> nat \<Rightarrow> nat \<Rightarrow> c_error + (nat \<times> bool)" where
  "skip_delims m delims s =
    bindE (ld m s) (\<lambda>c. bindE (strchr delims (uint c) m) (\<lambda>p.
      if p \<noteq> 0 then (if c = 0 then Inr (s, True) else skip_delims m delims (s + 1)) else Inr (s, False)))"
  by pat_completeness auto
termination by (relation "measure (\<lambda>(m, d, s). length m - s)") (auto simp: ld_eq_Inr)

function skip_token :: "mem \<Rightarrow> nat \<Rightarrow> nat \<Rightarrow> c_error + nat" where
  "skip_token m delims s =
    bindE (ld m s) (\<lambda>c. bindE (strchr delims (uint c) m) (\<lambda>p.
      if p = 0 then skip_token m delims (s + 1) else Inr s))"
  by pat_completeness auto
termination by (relation "measure (\<lambda>(m, d, s). length m - s)") (auto simp: ld_eq_Inr)

definition strtok_r :: "nat \<Rightarrow> nat \<Rightarrow> nat \<Rightarrow> mem \<Rightarrow> c_error + (nat \<times> nat \<times> mem)" where
  "strtok_r s0 delims saved m =
    bindE (guardE AssertFailed (delims \<noteq> 0)) (\<lambda>_.
    let s = (if s0 = 0 then saved else s0) in
    bindE (guardE AssertFailed (s \<noteq> 0)) (\<lambda>_.
    bindE (skip_delims m delims s) (\<lambda>(s, at_end).
      if at_end then Inr (0, s, m)
      else bindE (skip_token m delims s) (\<lambda>e. bindE (ld m e) (\<lambda>c.
        if c \<noteq> 0 then bindE (st m e 0) (\<lambda>m. Inr (s, e + 1, m)) else Inr (s, e, m))))))"

declare strlen_loop.simps [simp del] strcmp_loop.simps [simp del] strchr_loop.simps [simp del]
  strcspn_loop.simps [simp del] strpbrk.simps [simp del] strrchr_loop.simps [simp del]
  strspn_loop.simps [simp del] strnlen_loop.simps [simp del] skip_delims.simps [simp del]
  skip_token.simps [simp del]

section \<open>Copying\<close>

lemma put_bytes_snoc:
  "i + length bs < length m \<Longrightarrow> put_bytes (m[i + length bs := b]) i bs = put_bytes m i (bs @ [b])"
  by (rule nth_equalityI) (auto simp: put_bytes_def nth_append nth_list_update min_def)

lemma take_drop_Suc: "s < length m \<Longrightarrow> take (Suc n) (drop s m) = m ! s # take n (drop (Suc s) m)"
  by (simp flip: Cons_nth_drop_Suc)

lemma take_drop_snoc: "s + n < length m \<Longrightarrow> take (Suc n) (drop s m) = take n (drop s m) @ [m ! (s + n)]"
  by (simp add: take_Suc_conv_app_nth)

lemma take_drop_update:
  "i < s \<or> s + n \<le> i \<Longrightarrow> take n (drop s (m[i := b])) = take n (drop s m)"
  by (auto simp: drop_update_cancel drop_update_swap take_update_cancel)

text \<open>Copying upwards is right when the destination is not inside the source, above its start.\<close>

lemma memcpy_loop_bytes:
  assumes "0 < s" "0 < d" "s + n \<le> length m" "d + n \<le> length m" "d \<le> s \<or> s + n \<le> d"
  shows "memcpy_loop n m d s = Inr (put_bytes m d (take n (drop s m)))"
  using assms
proof (induction n arbitrary: m d s)
  case (Suc n)
  have "take n (drop (Suc s) (m[d := m ! s])) = take n (drop (Suc s) m)"
    using Suc.prems(5) by (intro take_drop_update) auto
  then show ?case
    using Suc.prems Suc.IH [of "Suc s" "Suc d" "m[d := m ! s]"]
    by (auto simp: take_drop_Suc put_bytes_Cons)
qed simp

text \<open>Copying downwards is right when the destination does not start below the source.\<close>

lemma memmove_down_bytes:
  assumes "0 < s" "0 < d" "s + n \<le> length m" "d + n \<le> length m" "s \<le> d"
  shows "memmove_down n m (d + n) (s + n) = Inr (put_bytes m d (take n (drop s m)))"
  using assms
proof (induction n arbitrary: m)
  case (Suc n)
  let ?m = "m[d + n := m ! (s + n)]"
  have "length (take n (drop s m)) = n" using Suc.prems(3) by simp
  then have "put_bytes ?m d (take n (drop s m)) = put_bytes m d (take (Suc n) (drop s m))"
    using put_bytes_snoc [of d "take n (drop s m)" m] Suc.prems(3,4) by (simp add: take_drop_snoc)
  moreover have "take n (drop s ?m) = take n (drop s m)"
    using Suc.prems(5) by (intro take_drop_update) simp
  ultimately show ?case using Suc.prems Suc.IH [of ?m] by simp
qed simp

lemma memcpy_bytes:
  assumes "0 < s" "0 < d" "s + n \<le> length m" "d + n \<le> length m" "d \<le> s \<or> s + n \<le> d"
  shows "memcpy d s n m = Inr (d, put_bytes m d (take n (drop s m)))"
  using assms memcpy_loop_bytes [OF assms] by (simp add: memcpy_def)

lemma memmove_bytes:
  assumes "0 < s" "0 < d" "s + n \<le> length m" "d + n \<le> length m"
  shows "memmove d s n m = Inr (if d < s then d + n else d, put_bytes m d (take n (drop s m)))"
  using assms memcpy_loop_bytes [OF assms] memmove_down_bytes [OF assms]
  by (simp add: memmove_def)

lemma memset_loop_bytes:
  assumes "0 < d" "d + n \<le> length m"
  shows "memset_loop n m d v = Inr (put_bytes m d (replicate n v))"
  using assms
  by (induction n arbitrary: m d) (simp_all add: put_bytes_Cons)

lemma memset_bytes:
  assumes "0 < d" "d + n \<le> length m"
  shows "memset d v n m = Inr (d, put_bytes m d (replicate n (word_of_int v)))"
  using assms by (simp add: memset_def memset_loop_bytes)

section \<open>Comparing\<close>

text \<open>The sign of a lexicographic comparison of two byte lists.\<close>

fun cmp_bytes :: "byte_t list \<Rightarrow> byte_t list \<Rightarrow> int" where
  "cmp_bytes (x # xs) (y # ys) = (if x = y then cmp_bytes xs ys else if x < y then - 1 else 1)"
| "cmp_bytes [] [] = 0"
| "cmp_bytes [] ys = - 1"
| "cmp_bytes xs [] = 1"

lemma cmp_bytes_eq_0 [simp]: "cmp_bytes xs ys = 0 \<longleftrightarrow> xs = ys"
  by (induction xs ys rule: cmp_bytes.induct) auto

lemma memcmp_loop_bytes:
  assumes "0 < a" "0 < b" "a + n \<le> length m" "b + n \<le> length m"
  shows "memcmp_loop n m a b = Inr (cmp_bytes (take n (drop a m)) (take n (drop b m)))"
  using assms
  by (induction n arbitrary: a b) (auto simp: take_drop_Suc not_less)

lemma memcmp_bytes:
  assumes "0 < a" "0 < b" "a + n \<le> length m" "b + n \<le> length m"
  shows "memcmp a b n m = Inr (cmp_bytes (take n (drop a m)) (take n (drop b m)))"
  using assms by (simp add: memcmp_def memcmp_loop_bytes)

lemma memchr_loop_bytes:
  assumes "0 < p" "p + n \<le> length m"
  shows "memchr_loop n m p c = Inr (if c \<in> set (take n (drop p m))
    then p + length (takeWhile (\<lambda>x. x \<noteq> c) (take n (drop p m))) else 0)"
  using assms
  by (induction n arbitrary: p) (simp_all add: take_drop_Suc)

section \<open>Null-terminated strings\<close>

text \<open>\<open>cstr m p s\<close>: at address \<open>p\<close> stands the string \<open>s\<close> and its terminator.\<close>

fun cstr :: "mem \<Rightarrow> nat \<Rightarrow> byte_t list \<Rightarrow> bool" where
  "cstr m p [] \<longleftrightarrow> 0 < p \<and> p < length m \<and> m ! p = 0"
| "cstr m p (c # s) \<longleftrightarrow> 0 < p \<and> p < length m \<and> m ! p = c \<and> c \<noteq> 0 \<and> cstr m (Suc p) s"

lemma cstr_pos: "cstr m p s \<Longrightarrow> 0 < p"
  by (cases s) auto

lemma cstr_bounds: "cstr m p s \<Longrightarrow> p + length s < length m"
  by (induction s arbitrary: p) fastforce+

lemma cstr_take: "cstr m p s \<Longrightarrow> take (length s) (drop p m) = s"
  by (induction s arbitrary: p) (auto simp: take_drop_Suc)

lemma cstr_nonzero: "cstr m p s \<Longrightarrow> 0 \<notin> set s"
  by (induction s arbitrary: p) auto

lemma cstr_end: "cstr m p s \<Longrightarrow> m ! (p + length s) = 0"
  by (induction s arbitrary: p) fastforce+

lemma cstr_nth: "cstr m p s \<Longrightarrow> i < length s \<Longrightarrow> m ! (p + i) = s ! i"
proof (induction s arbitrary: p i)
  case (Cons c s)
  then show ?case by (cases i) (use Cons.IH [of "Suc p"] in auto)
qed simp

lemma cstrI:
  assumes "0 < p" "p + length s < length m" "take (length s) (drop p m) = s" "0 \<notin> set s" "m ! (p + length s) = 0"
  shows "cstr m p s"
  using assms
  by (induction s arbitrary: p) (auto simp: take_drop_Suc)

lemma cstr_drop: "cstr m p (s @ s') \<Longrightarrow> cstr m (p + length s) s'"
  by (induction s arbitrary: p) fastforce+

lemma strlen_loop_cstr: "cstr m p s \<Longrightarrow> strlen_loop m p = Inr (p + length s)"
proof (induction s arbitrary: p)
  case (Cons c s)
  then show ?case by (simp add: strlen_loop.simps [of m p])
qed (simp add: strlen_loop.simps)

lemma strlen_cstr: "cstr m p s \<Longrightarrow> strlen p m = Inr (length s)"
  using cstr_pos by (simp add: strlen_def strlen_loop_cstr)

lemma strcmp_loop_cstr: "cstr m a s \<Longrightarrow> cstr m b s' \<Longrightarrow> strcmp_loop m a b = Inr (cmp_bytes s s')"
proof (induction s arbitrary: a b s')
  case Nil
  then show ?case by (cases s') (auto simp: strcmp_loop.simps [of m a b] word_neq_0_conv)
next
  case (Cons c s)
  then show ?case
    by (cases s') (auto simp: strcmp_loop.simps [of m a b] word_neq_0_conv)
qed

lemma strcmp_cstr: "cstr m a s \<Longrightarrow> cstr m b s' \<Longrightarrow> strcmp a b m = Inr (cmp_bytes s s')"
  using cstr_pos by (simp add: strcmp_def strcmp_loop_cstr)

lemma strchr_loop_cstr:
  "cstr m p s \<Longrightarrow> strchr_loop m p c =
    Inr (if c = 0 \<or> c \<in> set s then p + length (takeWhile (\<lambda>x. x \<noteq> c) s) else 0)"
proof (induction s arbitrary: p)
  case (Cons x s)
  then show ?case by (auto simp: strchr_loop.simps [of m p])
qed (simp add: strchr_loop.simps)

lemma strchr_cstr:
  "cstr m p s \<Longrightarrow> strchr p c m =
    Inr (if word_of_int c \<in> insert 0 (set s) then p + length (takeWhile (\<lambda>x. x \<noteq> word_of_int c) s) else 0)"
  using cstr_pos [of m p s] by (simp add: strchr_def strchr_loop_cstr)

text \<open>What the other functions ask of \<open>strchr\<close>: is a byte the terminator or in the set?\<close>

lemma strchr_member:
  assumes "cstr m t stop"
  shows "\<exists>p. strchr t (uint c) m = Inr p \<and> (p \<noteq> 0 \<longleftrightarrow> c \<in> insert 0 (set stop))"
  using strchr_cstr [OF assms, of "uint c"] cstr_pos [OF assms] by auto

lemma strcspn_loop_cstr:
  assumes "cstr m t stop"
  shows "cstr m (p + k) s \<Longrightarrow> strcspn_loop m p t k = Inr (k + length (takeWhile (\<lambda>x. x \<notin> set stop) s))"
proof (induction s arbitrary: k)
  case (Cons c s)
  then show ?case
    using strchr_member [OF assms, of c] Cons.IH [of "k + 1"]
    by (auto simp: strcspn_loop.simps [of m p t k])
qed (simp add: strcspn_loop.simps)

lemma strcspn_cstr:
  "cstr m t stop \<Longrightarrow> cstr m p s \<Longrightarrow> strcspn p t m = Inr (length (takeWhile (\<lambda>x. x \<notin> set stop) s))"
  using strcspn_loop_cstr [of m t stop p 0 s] by (simp add: strcspn_def)

lemma strspn_loop_cstr:
  assumes "cstr m t skip"
  shows "cstr m (p + k) s \<Longrightarrow> strspn_loop m p t k = Inr (k + length (takeWhile (\<lambda>x. x \<in> set skip) s))"
proof (induction s arbitrary: k)
  case (Cons c s)
  then show ?case
    using strchr_member [OF assms, of c] Cons.IH [of "k + 1"]
    by (auto simp: strspn_loop.simps [of m p t k])
qed (simp add: strspn_loop.simps)

lemma strspn_cstr:
  "cstr m t skip \<Longrightarrow> cstr m p s \<Longrightarrow> strspn p t m = Inr (length (takeWhile (\<lambda>x. x \<in> set skip) s))"
  using strspn_loop_cstr [of m t skip p 0 s] by (simp add: strspn_def)

lemma strpbrk_cstr:
  assumes "cstr m t stop"
  shows "cstr m p s \<Longrightarrow> strpbrk p t m = Inr (if set s \<inter> set stop = {} then 0
    else p + length (takeWhile (\<lambda>x. x \<notin> set stop) s))"
proof (induction s arbitrary: p)
  case (Cons c s)
  then show ?case
    using strchr_member [OF assms, of c] Cons.IH [of "p + 1"]
    by (auto simp: strpbrk.simps [of p t m])
qed (simp add: strpbrk.simps)

lemma strrchr_loop_cstr:
  "cstr m p s \<Longrightarrow> strrchr_loop m p c q =
    Inr (if c \<in> set s then p + length s - 1 - length (takeWhile (\<lambda>x. x \<noteq> c) (rev s)) else q)"
proof (induction s arbitrary: p q)
  case (Cons x s)
  have "c \<in> set s \<Longrightarrow> takeWhile (\<lambda>x. x \<noteq> c) (rev s @ [x]) = takeWhile (\<lambda>x. x \<noteq> c) (rev s)"
    by (simp add: takeWhile_append1)
  moreover have "c \<notin> set s \<Longrightarrow> takeWhile (\<lambda>x. x \<noteq> c) (rev s @ [c]) = rev s"
    by (subst takeWhile_append2) auto
  moreover have "length (takeWhile (\<lambda>x. x \<noteq> c) (rev s)) \<le> length s"
    by (metis length_rev length_takeWhile_le)
  ultimately show ?case
    using Cons by (auto simp: strrchr_loop.simps [of m p])
qed (simp add: strrchr_loop.simps)

lemma strrchr_cstr:
  "cstr m p s \<Longrightarrow> strrchr p c m = Inr (if word_of_int c \<in> set s
    then p + length s - 1 - length (takeWhile (\<lambda>x. x \<noteq> word_of_int c) (rev s)) else 0)"
  by (simp add: strrchr_def strrchr_loop_cstr)

text \<open>\<open>strnlen\<close> reads the byte at \<open>maxlen\<close> before it compares: it is defined on every string that
  ends, and on an unterminated block only when there is one more byte to read.\<close>

lemma strnlen_loop_block:
  assumes "0 < p" "0 \<notin> set (take n (drop p m))" "p + n \<le> length m" "k \<le> n"
  shows "strnlen_loop m p n k = (if p + n < length m then Inr n else Inl OutOfBounds)"
  using assms(4)
proof (induction "n - k" arbitrary: k)
  case 0
  then have "k = n" by simp
  then show ?case unfolding \<open>k = n\<close> using assms(1) by (auto simp: strnlen_loop.simps [of m p n n] ld_def rd_out)
next
  case (Suc j)
  then have k: "k < n" by simp
  then have "m ! (p + k) \<in> set (take n (drop p m))"
    using assms(3) by (auto simp: in_set_conv_nth intro!: exI [of _ k])
  then have "m ! (p + k) \<noteq> 0" using assms(2) by metis
  then show ?case
    using Suc.hyps(1) [of "Suc k"] Suc.hyps(2) k assms(1,3) by (simp add: strnlen_loop.simps [of m p n k])
qed

lemma cstr_from: "cstr m p s \<Longrightarrow> i \<le> length s \<Longrightarrow> cstr m (p + i) (drop i s)"
  using cstr_drop [of m p "take i s" "drop i s"] by (simp add: min_absorb2)

section \<open>Searching\<close>

lemma strstr_loop_cstr:
  assumes "cstr m h s" "cstr m n t" "length t \<le> length s"
  shows "i + k = length s - length t + 1 \<Longrightarrow> \<exists>r. strstr_loop k i m h n (length t) = Inr r \<and>
    (if r = 0 then \<forall>j. i \<le> j \<and> j < i + k \<longrightarrow> \<not> prefix t (drop j s)
     else \<exists>j. r = h + j \<and> i \<le> j \<and> prefix t (drop j s) \<and> (\<forall>l. i \<le> l \<and> l < j \<longrightarrow> \<not> prefix t (drop l s)))"
proof (induction k arbitrary: i)
  case (Suc k)
  then have i: "i + length t \<le> length s" using assms(3) by simp
  have h: "0 < h" "0 < n" "h + length s < length m" "n + length t < length m"
    using cstr_pos cstr_bounds assms by blast+
  have "take (length t) (drop (h + i) m) = take (length t) (take (length s - i) (drop (h + i) m))"
    using i by (simp add: min_def)
  also have "take (length s - i) (drop (h + i) m) = drop i s"
    using cstr_take [OF cstr_from [OF assms(1), of i]] i by simp
  finally have memcmp: "memcmp (h + i) n (length t) m = Inr (cmp_bytes (take (length t) (drop i s)) t)"
    using memcmp_bytes [of "h + i" n "length t" m] h i cstr_take [OF assms(2)] by simp
  have same: "take (length t) (drop i s) = t \<longleftrightarrow> prefix t (drop i s)"
    by (metis append_eq_conv_conj append_take_drop_id prefix_def)
  show ?case
  proof (cases "prefix t (drop i s)")
    case False
    then obtain r where "strstr_loop k (i + 1) m h n (length t) = Inr r"
      "if r = 0 then \<forall>j. i + 1 \<le> j \<and> j < i + 1 + k \<longrightarrow> \<not> prefix t (drop j s)
       else \<exists>j. r = h + j \<and> i + 1 \<le> j \<and> prefix t (drop j s) \<and> (\<forall>l. i + 1 \<le> l \<and> l < j \<longrightarrow> \<not> prefix t (drop l s))"
      using Suc.IH [of "i + 1"] Suc.prems by auto
    moreover have "i \<le> j \<and> j < i + Suc k \<longleftrightarrow> j = i \<or> i + 1 \<le> j \<and> j < i + 1 + k" for j by auto
    moreover have "i \<le> j \<and> j < l \<longleftrightarrow> i < l \<and> j = i \<or> i + 1 \<le> j \<and> j < l" for j l by auto
    ultimately show ?thesis
      using False memcmp same by (intro exI [of _ r]) (auto split: if_splits)
  next
    case True
    then show ?thesis using h memcmp same by (intro exI [of _ "h + i"]) auto
  qed
qed auto

lemma strstr_cstr:
  assumes "cstr m h s" "cstr m n t"
  shows "\<exists>r. strstr h n m = Inr r \<and>
    (if r = 0 then \<not> sublist t s
     else \<exists>j. r = h + j \<and> j \<le> length s \<and> prefix t (drop j s) \<and> (\<forall>l < j. \<not> prefix t (drop l s)))"
proof (cases "length t \<le> length s")
  case True
  obtain r where r: "strstr_loop (length s - length t + 1) 0 m h n (length t) = Inr r"
    "if r = 0 then \<forall>j. 0 \<le> j \<and> j < 0 + (length s - length t + 1) \<longrightarrow> \<not> prefix t (drop j s)
     else \<exists>j. r = h + j \<and> 0 \<le> j \<and> prefix t (drop j s) \<and> (\<forall>l. 0 \<le> l \<and> l < j \<longrightarrow> \<not> prefix t (drop l s))"
    using strstr_loop_cstr [OF assms True, of 0 "length s - length t + 1"] by auto
  have short: "j < length s - length t + 1" if "prefix t (drop j s)" "j \<le> length s" for j
    using prefix_length_le [OF that(1)] that(2) by simp
  have "strstr h n m = Inr r"
    using True r(1) by (simp add: strstr_def strlen_cstr [OF assms(1)] strlen_cstr [OF assms(2)])
  moreover have "\<not> sublist t s" if "r = 0"
  proof
    assume "sublist t s"
    then obtain u v where "s = u @ t @ v" by (auto simp: sublist_def)
    then have "prefix t (drop (length u) s)" "length u \<le> length s" by simp_all
    then show False using short r(2) that by auto
  qed
  moreover have "j \<le> length s" if "prefix t (drop j s)" "\<forall>l < j. \<not> prefix t (drop l s)" for j
  proof (rule ccontr)
    assume "\<not> j \<le> length s"
    then have "t = []" "length s < j" using that(1) by simp_all
    then show False using that(2) by auto
  qed
  ultimately show ?thesis using r(2) by (cases "r = 0") auto
next
  case False
  then have "\<not> sublist t s" using sublist_length_le by blast
  then show ?thesis
    using False by (simp add: strstr_def strlen_cstr [OF assms(1)] strlen_cstr [OF assms(2)])
qed

section \<open>Bounded copies\<close>

lemma put_bytes_snoc_update:
  "d + length bs < length m \<Longrightarrow> put_bytes m d (bs @ [b]) = (put_bytes m d bs)[d + length bs := b]"
  by (rule nth_equalityI) (auto simp: nth_put_bytes nth_append nth_list_update)

lemma cstr_put_bytes:
  assumes "0 < d" "d + length s < length m" "0 \<notin> set s"
  shows "cstr (put_bytes m d (s @ [0])) d s"
  using assms by (intro cstrI) (auto simp: put_bytes_def nth_append min_def)

lemma strlcpy_bytes:
  assumes "cstr m src s" "0 < d" "0 < n" "d + n \<le> length m"
    and "d + n \<le> src \<or> src + length s < d"
  shows "strlcpy d src n m = Inr (length s, put_bytes m d (take (n - 1) s @ [0]))"
proof -
  define k where "k = min (length s) (n - 1)"
  have b: "0 < src" "src + length s < length m" using cstr_pos [OF assms(1)] cstr_bounds [OF assms(1)] by blast+
  have "memcpy d src k m = Inr (d, put_bytes m d (take k (drop src m)))"
    by (rule memcpy_bytes) (use b assms(2-5) in \<open>auto simp: k_def\<close>)
  moreover have "take k (drop src m) = take (n - 1) s"
    using arg_cong [OF cstr_take [OF assms(1)], of "take k"] by (simp add: k_def min_def split: if_splits)
  moreover have "k = length (take (n - 1) s)" by (simp add: k_def)
  moreover have "put_bytes (m) d (take (n - 1) s @ [0]) = (put_bytes m d (take (n - 1) s))[d + k := 0]"
  proof -
    have "length (take (n - 1) s) = k" "d + k < length m" using assms(3,4) by (auto simp: k_def)
    then show ?thesis using put_bytes_snoc_update [of d "take (n - 1) s" m 0] by (simp only:)
  qed
  moreover have "(if length s < n - 1 then length s else n - 1) = k" by (auto simp: k_def)
  moreover have "d + k < length m" using assms(3,4) by (auto simp: k_def)
  ultimately show ?thesis
    using assms(2,3) b unfolding strlcpy_def
    by (simp add: strlen_cstr [OF assms(1)] Let_def)
qed

section \<open>Tokens\<close>

lemma skip_delims_cstr:
  assumes "cstr m t delims"
  shows "cstr m p s \<Longrightarrow> skip_delims m t p =
    Inr (p + length (takeWhile (\<lambda>x. x \<in> set delims) s), dropWhile (\<lambda>x. x \<in> set delims) s = [])"
proof (induction s arbitrary: p)
  case Nil
  then show ?case using strchr_member [OF assms, of 0] by (auto simp: skip_delims.simps [of m t p])
next
  case (Cons c s)
  then show ?case
    using strchr_member [OF assms, of c] by (auto simp: skip_delims.simps [of m t p])
qed

lemma skip_token_cstr:
  assumes "cstr m t delims"
  shows "cstr m p s \<Longrightarrow> skip_token m t p = Inr (p + length (takeWhile (\<lambda>x. x \<notin> set delims) s))"
proof (induction s arbitrary: p)
  case Nil
  obtain q where "strchr t (uint (0 :: byte_t)) m = Inr q" "q \<noteq> 0"
    using strchr_member [OF assms, of 0] by blast
  then show ?case using Nil by (simp add: skip_token.simps [of m t p])
next
  case (Cons c s)
  obtain q where "strchr t (uint c) m = Inr q" "q \<noteq> 0 \<longleftrightarrow> c \<in> insert 0 (set delims)"
    using strchr_member [OF assms, of c] by blast
  then show ?case
    using Cons.prems Cons.IH [of "Suc p"] by (cases "q = 0") (simp_all add: skip_token.simps [of m t p])
qed

lemma cstr_update_below: "cstr m p s \<Longrightarrow> i < p \<Longrightarrow> cstr (m[i := b]) p s"
  by (induction s arbitrary: p) auto

lemma cstr_cut:
  "cstr m p (s @ c # s') \<Longrightarrow> cstr (m[p + length s := 0]) p s"
proof (induction s arbitrary: p)
  case (Cons x s)
  then have c: "cstr m (Suc p) (s @ c # s')" by simp
  have "cstr (m[Suc p + length s := 0]) (Suc p) s" by (rule Cons.IH [OF c])
  then show ?case using Cons.prems cstr_bounds [OF c] by auto
qed auto

lemma strtok_r_cstr:
  assumes "cstr m (if s0 = 0 then saved else s0) s" "cstr m t delims"
    and "p = (if s0 = 0 then saved else s0)" "0 < saved \<or> 0 < s0"
    and "skipped = takeWhile (\<lambda>x. x \<in> set delims) s" "rest = dropWhile (\<lambda>x. x \<in> set delims) s"
    and "tok = takeWhile (\<lambda>x. x \<notin> set delims) rest"
  shows "if rest = [] then strtok_r s0 t saved m = Inr (0, p + length s, m)
    else \<exists>saved' m'. strtok_r s0 t saved m = Inr (p + length skipped, saved', m') \<and> tok \<noteq> [] \<and>
      cstr m' (p + length skipped) tok \<and> cstr m' saved' (drop (length tok + 1) rest) \<and>
      (\<forall>i. i < p + length skipped \<or> p + length s < i \<longrightarrow> m' ! i = m ! i) \<and> length m' = length m"
proof (cases "rest = []")
  case True
  then have "skipped = s" using assms(5,6) by (metis append_Nil2 takeWhile_dropWhile_id)
  then have "skip_delims m t p = Inr (p + length s, True)"
    using skip_delims_cstr [OF assms(2,1)] True by (simp only: assms(3) assms(5) [symmetric] assms(6) [symmetric] simp_thms)
  then show ?thesis
    using True cstr_pos [OF assms(2)] cstr_pos [OF assms(1)] assms(3)
    by (simp add: strtok_r_def Let_def)
next
  case False
  let ?q = "p + length skipped" and ?e = "p + length skipped + length tok"
  have s: "s = skipped @ rest" using assms(5,6) by simp
  have q: "cstr m ?q rest" using cstr_drop [of m p skipped rest] assms(1,3) s by simp
  have tokne: "tok \<noteq> []"
  proof -
    have "hd rest \<notin> set delims"
      using False hd_dropWhile [of "\<lambda>x. x \<in> set delims" s] by (simp only: assms(6)) blast
    then show ?thesis using False by (cases rest) (simp_all add: assms(7))
  qed
  have d: "skip_delims m t p = Inr (?q, False)" "skip_token m t ?q = Inr ?e"
    using skip_delims_cstr [OF assms(2,1)] skip_token_cstr [OF assms(2) q] False assms(3,5-7) by simp_all
  have pos: "0 < p" "0 < t" using cstr_pos assms(1-3) by metis+
  show ?thesis
  proof (cases "tok = rest")
    case True
    have "ld m ?e = Inr 0"
      using cstr_end [OF q] cstr_bounds [OF q] pos True by (simp add: ld_def)
    then have "strtok_r s0 t saved m = Inr (?q, ?e, m)"
      using d pos assms(3) by (simp add: strtok_r_def Let_def split: if_splits)
    moreover have "cstr m ?e []"
      using cstr_drop [of m ?q rest "[]"] q True by simp
    ultimately show ?thesis using False tokne q True by auto
  next
    case ne: False
    define rest' where "rest' = dropWhile (\<lambda>x. x \<notin> set delims) rest"
    have rest: "rest = tok @ rest'" by (simp add: assms(7) rest'_def)
    then obtain c r where r: "rest' = c # r" using ne by (cases rest') auto
    have q': "cstr m ?q (tok @ c # r)" using q rest r by simp
    have e: "m ! ?e = c" "c \<noteq> 0" "?e < length m" "cstr m (?e + 1) r"
      using cstr_drop [OF q'] by auto
    then have "strtok_r s0 t saved m = Inr (?q, ?e + 1, m[?e := 0])"
      using d pos assms(3) by (simp add: strtok_r_def Let_def split: if_splits)
    moreover have "cstr (m[?e := 0]) ?q tok" by (rule cstr_cut [OF q'])
    moreover have "cstr (m[?e := 0]) (?e + 1) (drop (length tok + 1) rest)"
      using cstr_update_below [OF e(4)] rest r by simp
    moreover have "?e \<le> p + length s" using s rest by simp
    ultimately show ?thesis using False tokne by auto
  qed
qed

section \<open>Properties\<close>

text \<open>C35: \<open>memmove\<close> copies overlapping blocks: afterwards the destination holds the bytes that the
  source held before, and nothing else has changed. But the pointer it returns is the destination
  only when it copied downwards; when the destination is below the source it is the end of the
  destination block, as the code returns the variable that the loop has moved.\<close>

theorem memmove_overlapping:
  assumes "0 < src" "0 < dst" "src + n \<le> length m" "dst + n \<le> length m"
  shows "\<exists>m'. memmove dst src n m = Inr (if dst < src then dst + n else dst, m') \<and> length m' = length m \<and>
    (\<forall>i < length m. m' ! i = (if dst \<le> i \<and> i < dst + n then m ! (src + (i - dst)) else m ! i))"
  using memmove_bytes [OF assms] assms by (auto simp: nth_put_bytes)

lemma memmove_overlapping_witness:
  "\<exists>m'. memmove 1 2 3 [0, 10, 20, 30, 40] = Inr (4, m') \<and> m' ! 1 = 20 \<and> m' ! 4 = 40"
  using memmove_overlapping [of 2 1 3 "[0, 10, 20, 30, 40]"] by auto

text \<open>\<open>strstr\<close> returns the address of the first occurrence of the needle, and NULL exactly when
  the needle is not a substring.\<close>

theorem strstr_first:
  assumes "cstr m h s" "cstr m n t"
  shows "\<exists>r. strstr h n m = Inr r \<and>
    (if r = 0 then \<not> sublist t s
     else \<exists>j. r = h + j \<and> j \<le> length s \<and> prefix t (drop j s) \<and> (\<forall>l < j. \<not> prefix t (drop l s)))"
  by (rule strstr_cstr [OF assms])

lemma strstr_first_witness:
  "\<exists>r. strstr 1 5 [0, 65, 66, 66, 0, 66, 0] = Inr r \<and> r \<noteq> 0"
proof -
  have "cstr [0, 65, 66, 66, 0, 66, 0] 1 [65, 66, 66]" "cstr [0, 65, 66, 66, 0, 66, 0] 5 [66]"
    by simp_all
  then obtain r where "strstr 1 5 [0, 65, 66, 66, 0, 66, 0] = Inr r"
    "if r = 0 then \<not> sublist [66 :: byte_t] [65, 66, 66] else True"
    using strstr_first by (metis (full_types))
  then show ?thesis by (auto simp: sublist_code split: if_splits)
qed

text \<open>One call of \<open>strtok_r\<close>, at the start of a string or at the saved position, on the string \<open>s\<close>
  there. If only delimiters are left it returns NULL and saves the position of the terminator.
  Otherwise it returns the first maximal run of other characters as a string of its own, saves a
  position at which the rest of the string after one more delimiter stands, and changes
  nothing outside the string.\<close>

theorem strtok_r_token:
  assumes "cstr m p s" "cstr m t delims" "p = (if s0 = 0 then saved else s0)"
    and "rest = dropWhile (\<lambda>x. x \<in> set delims) s" "tok = takeWhile (\<lambda>x. x \<notin> set delims) rest"
  shows "if rest = [] then strtok_r s0 t saved m = Inr (0, p + length s, m)
    else \<exists>token saved' m'. strtok_r s0 t saved m = Inr (token, saved', m') \<and> token \<noteq> 0 \<and> tok \<noteq> [] \<and>
      cstr m' token tok \<and> cstr m' saved' (drop (length tok + 1) rest) \<and>
      (\<forall>i. i < p \<or> p + length s < i \<longrightarrow> m' ! i = m ! i) \<and> length m' = length m"
proof -
  have "0 < saved \<or> 0 < s0" using cstr_pos [OF assms(1)] assms(3) by (auto split: if_splits)
  from strtok_r_cstr [OF assms(1) [unfolded assms(3)] assms(2,3) this refl assms(4,5)]
  show ?thesis using cstr_pos [OF assms(1)] by (cases "rest = []") fastforce+
qed

lemma strtok_r_token_witness:
  "\<exists>token saved' m'. strtok_r 1 6 0 [0, 32, 65, 32, 66, 0, 32, 0] = Inr (token, saved', m') \<and>
     cstr m' token [65] \<and> cstr m' saved' [66]"
proof -
  have c: "cstr [0, 32, 65, 32, 66, 0, 32, 0] 1 [32, 65, 32, 66]" "cstr [0, 32, 65, 32, 66, 0, 32, 0] 6 [32]"
    by simp_all
  have r: "dropWhile (\<lambda>x. x \<in> set [32]) [32, 65, 32, 66 :: byte_t] = [65, 32, 66]"
    "takeWhile (\<lambda>x. x \<notin> set [32]) [65, 32, 66 :: byte_t] = [65]" by simp_all
  from strtok_r_token [OF c, of 1 0 "[65, 32, 66]" "[65]", unfolded r] show ?thesis
    by (simp only: list.distinct if_False) fastforce
qed

end
