(* ===== verification/Pintos_Stdlib.thy ===== *)
theory Pintos_Stdlib
  imports Pintos_String "HOL-Library.Multiset"
begin

text \<open>
  The standard library of Pintos, \<open>src/lib/stdlib.c\<close>: \<open>atoi\<close>, heap sort and binary search, over
  the byte memory of \<open>Pintos_String\<close>. The comparison function of the caller, with its \<open>aux\<close>, is a
  function of the memory and two addresses; what the algorithms need of it is the locale
  \<open>comparison\<close>, which is interpreted on \<open>memcmp\<close>. Indexes and sizes are natural numbers: the array
  lies inside a memory of fewer than \<open>2 ^ 31\<close> bytes, so the indexes \<open>2 * i + 1\<close> do not wrap.
\<close>

section \<open>Numbers\<close>

definition isspace :: "byte_t \<Rightarrow> bool" where
  "isspace c = (c = 32 \<or> c = 12 \<or> c = 10 \<or> c = 13 \<or> c = 9 \<or> c = 11)"

definition isdigit :: "byte_t \<Rightarrow> bool" where
  "isdigit c = (48 \<le> c \<and> c \<le> 57)"

definition int32 :: "int \<Rightarrow> c_error + int" where
  "int32 n = bindE (guardE SignedOverflow (- (2 ^ 31) \<le> n \<and> n < 2 ^ 31)) (\<lambda>_. Inr n)"

function skip_space :: "mem \<Rightarrow> nat \<Rightarrow> c_error + nat" where
  "skip_space m s = bindE (ld m s) (\<lambda>c. if isspace c then skip_space m (s + 1) else Inr s)"
  by pat_completeness auto
termination by (relation "measure (\<lambda>(m, s). length m - s)") (auto simp: ld_eq_Inr)

function digits_loop :: "mem \<Rightarrow> nat \<Rightarrow> int \<Rightarrow> c_error + int" where
  "digits_loop m s v =
    bindE (ld m s) (\<lambda>c.
      if isdigit c then bindE (int32 (v * 10)) (\<lambda>t. bindE (int32 (t - (uint c - 48))) (\<lambda>v. digits_loop m (s + 1) v))
      else Inr v)"
  by pat_completeness auto
termination by (relation "measure (\<lambda>(m, s, v). length m - s)") (auto simp: ld_eq_Inr)

definition atoi_pintos :: "nat \<Rightarrow> mem \<Rightarrow> c_error + int" where
  "atoi_pintos s m =
    bindE (guardE AssertFailed (s \<noteq> 0)) (\<lambda>_.
    bindE (skip_space m s) (\<lambda>s. bindE (ld m s) (\<lambda>c.
    let negative = (c = 45); s = (if c = 43 \<or> c = 45 then s + 1 else s)
    in bindE (digits_loop m s 0) (\<lambda>v. if \<not> negative then int32 (- v) else Inr v))))"

section \<open>Sorting and searching\<close>

type_synonym compare = "mem \<Rightarrow> nat \<Rightarrow> nat \<Rightarrow> c_error + int"

fun swap_loop :: "nat \<Rightarrow> mem \<Rightarrow> nat \<Rightarrow> nat \<Rightarrow> c_error + mem" where
  "swap_loop 0 m a b = Inr m"
| "swap_loop (Suc n) m a b =
    bindE (ld m a) (\<lambda>t. bindE (ld m b) (\<lambda>u. bindE (st m a u) (\<lambda>m. bindE (st m b t) (\<lambda>m.
      swap_loop n m (a + 1) (b + 1)))))"

definition do_swap :: "nat \<Rightarrow> nat \<Rightarrow> nat \<Rightarrow> nat \<Rightarrow> mem \<Rightarrow> c_error + mem" where
  "do_swap array a_idx b_idx sz m =
    swap_loop sz m (array + (a_idx - 1) * sz) (array + (b_idx - 1) * sz)"

definition do_compare :: "nat \<Rightarrow> nat \<Rightarrow> nat \<Rightarrow> nat \<Rightarrow> compare \<Rightarrow> mem \<Rightarrow> c_error + int" where
  "do_compare array a_idx b_idx sz compare m =
    compare m (array + (a_idx - 1) * sz) (array + (b_idx - 1) * sz)"

text \<open>The choice of \<open>max\<close> in one round of \<open>heapify\<close>.\<close>

definition max_child :: "nat \<Rightarrow> nat \<Rightarrow> nat \<Rightarrow> nat \<Rightarrow> compare \<Rightarrow> mem \<Rightarrow> c_error + nat" where
  "max_child array i cnt sz compare m =
    (let left = 2 * i; right = 2 * i + 1 in
     bindE (if left \<le> cnt
            then bindE (do_compare array left i sz compare m) (\<lambda>r. Inr (if r > 0 then left else i))
            else Inr i) (\<lambda>mx.
     if right \<le> cnt
     then bindE (do_compare array right mx sz compare m) (\<lambda>r. Inr (if r > 0 then right else mx))
     else Inr mx))"

lemma max_child_range:
  "max_child array i cnt sz compare m = Inr mx \<Longrightarrow> mx = i \<or> (i < mx \<or> i = 0 \<and> mx = 1) \<and> mx \<le> cnt"
  by (auto simp: max_child_def Let_def split: if_splits)

function heapify :: "nat \<Rightarrow> nat \<Rightarrow> nat \<Rightarrow> nat \<Rightarrow> compare \<Rightarrow> mem \<Rightarrow> c_error + mem" where
  "heapify array i cnt sz compare m =
    bindE (max_child array i cnt sz compare m) (\<lambda>mx.
      if mx = i then Inr m
      else bindE (do_swap array i mx sz m) (\<lambda>m. heapify array mx cnt sz compare m))"
  by pat_completeness auto
termination
  by (relation "measure (\<lambda>(array, i, cnt, sz, compare, m). cnt - i)") (auto dest: max_child_range)

declare skip_space.simps [simp del] digits_loop.simps [simp del] heapify.simps [simp del]

fun build_loop :: "nat \<Rightarrow> nat \<Rightarrow> nat \<Rightarrow> nat \<Rightarrow> compare \<Rightarrow> mem \<Rightarrow> c_error + mem" where
  "build_loop 0 array cnt sz compare m = Inr m"
| "build_loop (Suc i) array cnt sz compare m =
    bindE (heapify array (Suc i) cnt sz compare m) (\<lambda>m. build_loop i array cnt sz compare m)"

fun sort_down :: "nat \<Rightarrow> nat \<Rightarrow> nat \<Rightarrow> compare \<Rightarrow> mem \<Rightarrow> c_error + mem" where
  "sort_down (Suc (Suc i)) array sz compare m =
    bindE (do_swap array 1 (i + 2) sz m) (\<lambda>m.
    bindE (heapify array 1 (i + 1) sz compare m) (\<lambda>m. sort_down (i + 1) array sz compare m))"
| "sort_down _ array sz compare m = Inr m"

definition heap_sort :: "nat \<Rightarrow> nat \<Rightarrow> nat \<Rightarrow> compare \<Rightarrow> mem \<Rightarrow> c_error + mem" where
  "heap_sort array cnt sz compare m =
    bindE (nonnull array cnt) (\<lambda>_. bindE (guardE AssertFailed (0 < sz)) (\<lambda>_.
    bindE (build_loop (cnt div 2) array cnt sz compare m) (\<lambda>m. sort_down cnt array sz compare m)))"

definition qsort :: "nat \<Rightarrow> nat \<Rightarrow> nat \<Rightarrow> compare \<Rightarrow> mem \<Rightarrow> c_error + mem" where
  "qsort array cnt sz compare m = heap_sort array cnt sz compare m"

lemma middle_less:
  assumes "first < (last0 :: nat)" "sz \<noteq> 0"
  shows "(last0 - first) div sz div 2 * sz < last0 - first"
proof -
  have "(last0 - first) div sz div 2 * sz * 2 \<le> (last0 - first) div sz * sz"
    by (simp add: mult.commute mult.left_commute)
  also have "\<dots> \<le> last0 - first" by simp
  finally show ?thesis using assms(1) by linarith
qed

text \<open>\<open>last\<close> is \<open>last0\<close>; for a size of 0 the loop is not entered.\<close>

function search_loop :: "nat \<Rightarrow> nat \<Rightarrow> nat \<Rightarrow> nat \<Rightarrow> compare \<Rightarrow> mem \<Rightarrow> c_error + nat" where
  "search_loop key first last0 sz compare m =
    (if first < last0 then
       bindE (guardE DivisionByZero (sz \<noteq> 0)) (\<lambda>_.
       let range = (last0 - first) div sz; middle = first + (range div 2) * sz
       in bindE (compare m key middle) (\<lambda>cmp.
            if cmp < 0 then search_loop key first middle sz compare m
            else if cmp > 0 then search_loop key (middle + sz) last0 sz compare m
            else Inr middle))
     else Inr 0)"
  by pat_completeness auto
termination
  by (relation "measure (\<lambda>(key, first, last0, sz, compare, m). last0 - first)")
    (use middle_less in \<open>auto simp: diff_less_mono\<close>)

declare search_loop.simps [simp del]

definition binary_search :: "nat \<Rightarrow> nat \<Rightarrow> nat \<Rightarrow> nat \<Rightarrow> compare \<Rightarrow> mem \<Rightarrow> c_error + nat" where
  "binary_search key array cnt sz compare m =
    search_loop key array (array + sz * cnt) sz compare m"

definition bsearch :: "nat \<Rightarrow> nat \<Rightarrow> nat \<Rightarrow> nat \<Rightarrow> compare \<Rightarrow> mem \<Rightarrow> c_error + nat" where
  "bsearch key array cnt sz compare m = binary_search key array cnt sz compare m"

section \<open>The array as a list of elements\<close>

definition elems :: "mem \<Rightarrow> nat \<Rightarrow> nat \<Rightarrow> nat \<Rightarrow> byte_t list list" where
  "elems m array sz cnt = map (\<lambda>i. take sz (drop (array + i * sz) m)) [0 ..< cnt]"

lemma length_elems [simp]: "length (elems m array sz cnt) = cnt"
  by (simp add: elems_def)

text \<open>The element with a 1-based index, and an exchange of two of them.\<close>

definition at1 :: "'a list \<Rightarrow> nat \<Rightarrow> 'a" where
  "at1 xs i = xs ! (i - 1)"

definition swap1 :: "'a list \<Rightarrow> nat \<Rightarrow> nat \<Rightarrow> 'a list" where
  "swap1 xs i j = xs[i - 1 := at1 xs j, j - 1 := at1 xs i]"

lemma length_swap1 [simp]: "length (swap1 xs i j) = length xs"
  by (simp add: swap1_def)

lemma at1_swap1:
  assumes "1 \<le> i" "i \<le> length xs" "1 \<le> j" "j \<le> length xs" "1 \<le> c"
  shows "at1 (swap1 xs i j) c = (if c = j then at1 xs i else if c = i then at1 xs j else at1 xs c)"
proof -
  have "c - 1 = i - 1 \<longleftrightarrow> c = i" "c - 1 = j - 1 \<longleftrightarrow> c = j" using assms by auto
  then show ?thesis using assms by (auto simp: at1_def swap1_def nth_list_update)
qed

lemma mset_swap1:
  assumes "1 \<le> i" "i \<le> length xs" "1 \<le> j" "j \<le> length xs"
  shows "mset (swap1 xs i j) = mset xs"
  using assms by (simp add: swap1_def at1_def mset_swap)

text \<open>What an operation on a block leaves alone.\<close>

definition frame :: "nat \<Rightarrow> nat \<Rightarrow> mem \<Rightarrow> mem \<Rightarrow> bool" where
  "frame a n m m' \<longleftrightarrow> length m' = length m \<and> (\<forall>i < length m. i < a \<or> a + n \<le> i \<longrightarrow> m' ! i = m ! i)"

lemma frame_refl [simp]: "frame a n m m"
  by (simp add: frame_def)

lemma frame_trans: "frame a n m1 m2 \<Longrightarrow> frame a n m2 m3 \<Longrightarrow> frame a n m1 m3"
  by (simp add: frame_def)

lemma swap_loop_bytes:
  assumes "0 < a" "0 < b" "a + n \<le> length m" "b + n \<le> length m" "a + n \<le> b \<or> b + n \<le> a"
  shows "\<exists>m'. swap_loop n m a b = Inr m' \<and> length m' = length m \<and>
    (\<forall>i < length m. m' ! i = (if a \<le> i \<and> i < a + n then m ! (b + (i - a))
       else if b \<le> i \<and> i < b + n then m ! (a + (i - b)) else m ! i))"
  using assms
proof (induction n arbitrary: a b m)
  case (Suc n)
  define u where "u = m[a := m ! b, b := m ! a]"
  have len: "length u = length m" by (simp add: u_def)
  have u: "u ! i = (if i = b then m ! a else if i = a then m ! b else m ! i)" if "i < length m" for i
    using that by (simp add: u_def nth_list_update)
  have "\<exists>m'. swap_loop n u (a + 1) (b + 1) = Inr m' \<and> length m' = length u \<and>
    (\<forall>i < length u. m' ! i = (if a + 1 \<le> i \<and> i < a + 1 + n then u ! (b + 1 + (i - (a + 1)))
       else if b + 1 \<le> i \<and> i < b + 1 + n then u ! (a + 1 + (i - (b + 1))) else u ! i))"
    by (rule Suc.IH) (use Suc.prems len in auto)
  then obtain m' where m': "swap_loop n u (a + 1) (b + 1) = Inr m'" "length m' = length m"
    "\<And>i. i < length m \<Longrightarrow> m' ! i = (if a + 1 \<le> i \<and> i < a + 1 + n then u ! (b + 1 + (i - (a + 1)))
       else if b + 1 \<le> i \<and> i < b + 1 + n then u ! (a + 1 + (i - (b + 1))) else u ! i)"
    unfolding len by blast
  have "swap_loop (Suc n) m a b = Inr m'" using m'(1) Suc.prems by (simp add: u_def)
  moreover have "m' ! i = (if a \<le> i \<and> i < a + Suc n then m ! (b + (i - a))
       else if b \<le> i \<and> i < b + Suc n then m ! (a + (i - b)) else m ! i)" if "i < length m" for i
  proof -
    consider "i = a" | "i = b" | "a < i \<and> i < a + Suc n" | "b < i \<and> i < b + Suc n"
      | "i < a \<or> a + Suc n \<le> i" "i < b \<or> b + Suc n \<le> i" by linarith
    then show ?thesis
    proof cases
      case 1
      then show ?thesis using m'(3) [OF that] u [OF that] Suc.prems(5) by auto
    next
      case 2
      then show ?thesis using m'(3) [OF that] u [OF that] Suc.prems(5) by auto
    next
      case 3
      then have s: "b + 1 + (i - (a + 1)) = b + (i - a)" "b + (i - a) \<noteq> a" "b + (i - a) \<noteq> b"
        "b + (i - a) < length m" using Suc.prems(4,5) by auto
      then show ?thesis using m'(3) [OF that] u [OF s(4)] 3 by simp
    next
      case 4
      then have s: "a + 1 + (i - (b + 1)) = a + (i - b)" "a + (i - b) \<noteq> a" "a + (i - b) \<noteq> b"
        "a + (i - b) < length m" "\<not> (a \<le> i \<and> i < a + Suc n)" using Suc.prems(3,5) by auto
      then have "m' ! i = u ! (a + (i - b))" using m'(3) [OF that] 4 by auto
      then show ?thesis using u [OF s(4)] s 4 by auto
    next
      case 5
      then show ?thesis using m'(3) [OF that] u [OF that] by auto
    qed
  qed
  ultimately show ?case using m'(2) by blast
qed auto

lemma blocks_apart: "i < j \<Longrightarrow> a + i * sz + sz \<le> a + j * (sz :: nat)"
proof -
  assume "i < j"
  then have "(i + 1) * sz \<le> j * sz" by (intro mult_le_mono1) simp
  then show ?thesis by simp
qed

lemma block_inside: "i < cnt \<Longrightarrow> a + cnt * sz \<le> (n :: nat) \<Longrightarrow> a + i * sz + sz \<le> n"
  using blocks_apart [of i cnt a sz] by linarith

lemma block_nth:
  "a + i * sz + sz \<le> length m \<Longrightarrow> k < sz \<Longrightarrow> take sz (drop (a + i * sz) m) ! k = m ! (a + i * sz + k)"
  by simp

lemma do_swap_elems:
  assumes "1 \<le> i" "i \<le> cnt" "1 \<le> j" "j \<le> cnt" "i \<noteq> j" "0 < array" "array + cnt * sz \<le> length m"
  shows "\<exists>m'. do_swap array i j sz m = Inr m' \<and> frame array (cnt * sz) m m' \<and>
    elems m' array sz cnt = swap1 (elems m array sz cnt) i j"
proof -
  let ?a = "array + (i - 1) * sz" and ?b = "array + (j - 1) * sz"
  have in0: "?a + sz \<le> array + cnt * sz" "?b + sz \<le> array + cnt * sz"
    using block_inside [of "i - 1" cnt array sz, OF _ order_refl]
      block_inside [of "j - 1" cnt array sz, OF _ order_refl] assms(1-4) by simp_all
  have apart: "?a + sz \<le> ?b \<or> ?b + sz \<le> ?a"
    using assms(1,3,5) blocks_apart [of "i - 1" "j - 1" array sz] blocks_apart [of "j - 1" "i - 1" array sz]
    by linarith
  have ab: "0 < ?a" "0 < ?b" "?a + sz \<le> length m" "?b + sz \<le> length m" using in0 assms(6,7) by linarith+
  obtain m' where m': "swap_loop sz m ?a ?b = Inr m'" "length m' = length m"
    "\<forall>l < length m. m' ! l = (if ?a \<le> l \<and> l < ?a + sz then m ! (?b + (l - ?a))
       else if ?b \<le> l \<and> l < ?b + sz then m ! (?a + (l - ?b)) else m ! l)"
    using swap_loop_bytes [OF ab apart] by blast
  have "frame array (cnt * sz) m m'"
    unfolding frame_def
  proof (intro conjI allI impI)
    fix l assume "l < length m" "l < array \<or> array + cnt * sz \<le> l"
    then have "l < length m" "\<not> (?a \<le> l \<and> l < ?a + sz)" "\<not> (?b \<le> l \<and> l < ?b + sz)"
      using in0 by auto
    then show "m' ! l = m ! l" using m'(3) by (simp only: if_False)
  qed (rule m'(2))
  moreover have "elems m' array sz cnt = swap1 (elems m array sz cnt) i j"
  proof (rule nth_equalityI)
    fix c assume "c < length (elems m' array sz cnt)"
    then have c: "c < cnt" by simp
    let ?c = "array + c * sz"
    have in1: "?c + sz \<le> length m" using block_inside [OF c] assms(7) by blast
    define d where "d = (if c = i - 1 then j - 1 else if c = j - 1 then i - 1 else c)"
    have "take sz (drop ?c m') = take sz (drop (array + d * sz) m)"
    proof (rule nth_equalityI)
      fix k assume "k < length (take sz (drop ?c m'))"
      then have k: "k < sz" by simp
      then have l: "?c + k < length m" using in1 by simp
      have off: "?a \<le> ?c + k \<and> ?c + k < ?a + sz \<longleftrightarrow> c = i - 1"
        using blocks_apart [of c "i - 1" array sz] blocks_apart [of "i - 1" c array sz] k
        by (cases c "i - 1" rule: linorder_cases) auto
      have "?b \<le> ?c + k \<and> ?c + k < ?b + sz \<longleftrightarrow> c = j - 1"
        using blocks_apart [of c "j - 1" array sz] blocks_apart [of "j - 1" c array sz] k
        by (cases c "j - 1" rule: linorder_cases) auto
      moreover have "i - 1 \<noteq> j - 1" using assms(1,3,5) by auto
      moreover have "m' ! (?c + k) = (if ?a \<le> ?c + k \<and> ?c + k < ?a + sz then m ! (?b + (?c + k - ?a))
          else if ?b \<le> ?c + k \<and> ?c + k < ?b + sz then m ! (?a + (?c + k - ?b)) else m ! (?c + k))"
        using m'(3) l by blast
      ultimately have "m' ! (?c + k) = m ! (array + d * sz + k)"
        unfolding off by (cases "c = i - 1"; cases "c = j - 1") (simp_all add: d_def)
      moreover have "array + d * sz + sz \<le> length m"
        using in1 ab(3,4) by (simp add: d_def)
      ultimately show "take sz (drop ?c m') ! k = take sz (drop (array + d * sz) m) ! k"
        using k in1 m'(2) by simp
    qed (use in1 ab m'(2) in \<open>simp add: d_def\<close>)
    moreover have "d < cnt" using c assms(1-4) by (auto simp: d_def)
    ultimately show "elems m' array sz cnt ! c = swap1 (elems m array sz cnt) i j ! c"
      using c assms(1-5) by (auto simp: elems_def swap1_def at1_def d_def nth_list_update)
  qed simp
  ultimately show ?thesis using m'(1) by (auto simp: do_swap_def)
qed

section \<open>What a comparison function must satisfy\<close>

text \<open>
  \<open>compare\<close> reads the two elements and returns the strcmp-type result of an order \<open>cmp\<close> on them,
  which is total and transitive.
\<close>

locale comparison =
  fixes compare :: compare
    and cmp :: "byte_t list \<Rightarrow> byte_t list \<Rightarrow> int"
    and sz :: nat
  assumes compare_ok: "\<lbrakk>0 < a; 0 < b; a + sz \<le> length m; b + sz \<le> length m\<rbrakk> \<Longrightarrow>
      compare m a b = Inr (cmp (take sz (drop a m)) (take sz (drop b m)))"
    and sz_pos: "0 < sz"
    and cmp_flip: "0 < cmp x y \<longleftrightarrow> cmp y x < 0"
    and cmp_trans: "cmp x y \<le> 0 \<Longrightarrow> cmp y z \<le> 0 \<Longrightarrow> cmp x z \<le> 0"
begin

definition le :: "byte_t list \<Rightarrow> byte_t list \<Rightarrow> bool" where
  "le x y \<longleftrightarrow> cmp x y \<le> 0"

lemma le_refl [simp]: "le x x"
  using cmp_flip [of x x] unfolding le_def by (metis less_asym not_less)

lemma le_total: "\<not> le x y \<Longrightarrow> le y x"
  using cmp_flip [of x y] by (simp add: le_def)

lemma le_trans [trans]: "le x y \<Longrightarrow> le y z \<Longrightarrow> le x z"
  using cmp_trans by (simp add: le_def)

text \<open>\<open>heap_from k n xs\<close>: among the first \<open>n\<close> elements no child of an element from \<open>k\<close> on is greater
  than its parent. \<open>heap_but\<close>: except for the children of \<open>i\<close>, which are not greater than the parent
  of \<open>i\<close>.\<close>

definition heap_from :: "nat \<Rightarrow> nat \<Rightarrow> byte_t list list \<Rightarrow> bool" where
  "heap_from k n xs \<longleftrightarrow> (\<forall>c. 2 \<le> c \<and> c \<le> n \<and> k \<le> c div 2 \<longrightarrow> le (at1 xs c) (at1 xs (c div 2)))"

definition heap_but :: "nat \<Rightarrow> nat \<Rightarrow> nat \<Rightarrow> byte_t list list \<Rightarrow> bool" where
  "heap_but k n i xs \<longleftrightarrow>
    (\<forall>c. 2 \<le> c \<and> c \<le> n \<and> k \<le> c div 2 \<and> c div 2 \<noteq> i \<longrightarrow> le (at1 xs c) (at1 xs (c div 2))) \<and>
    (k \<le> i div 2 \<longrightarrow> (\<forall>c. c \<le> n \<and> c div 2 = i \<longrightarrow> le (at1 xs c) (at1 xs (i div 2))))"

lemma heap_but_done:
  assumes "heap_but k n i xs" "1 \<le> i" "\<And>c. c \<le> n \<Longrightarrow> c div 2 = i \<Longrightarrow> le (at1 xs c) (at1 xs i)"
  shows "heap_from k n xs"
  unfolding heap_from_def
proof (intro allI impI)
  fix c assume "2 \<le> c \<and> c \<le> n \<and> k \<le> c div 2"
  then show "le (at1 xs c) (at1 xs (c div 2))"
    using assms by (cases "c div 2 = i") (auto simp: heap_but_def)
qed

lemma heap_but_swap:
  assumes "heap_but k n i xs" "1 \<le> k" "k \<le> i" "mx div 2 = i" "mx \<le> n" "n \<le> length xs"
    and "\<And>c. c \<le> n \<Longrightarrow> c div 2 = i \<Longrightarrow> le (at1 xs c) (at1 xs mx)" "le (at1 xs i) (at1 xs mx)"
  shows "heap_but k n mx (swap1 xs i mx)"
proof -
  have mx: "i < mx" "1 \<le> i" using assms(2-4) by auto
  have sw: "at1 (swap1 xs i mx) c = (if c = mx then at1 xs i else if c = i then at1 xs mx else at1 xs c)"
    if "1 \<le> c" for c
    using mx assms(5,6) that by (intro at1_swap1) auto
  have h: "le (at1 xs c) (at1 xs (c div 2))" if "2 \<le> c" "c \<le> n" "k \<le> c div 2" "c div 2 \<noteq> i" for c
    using assms(1) that by (simp add: heap_but_def)
  have g: "le (at1 xs c) (at1 xs (i div 2))" if "k \<le> i div 2" "c \<le> n" "c div 2 = i" for c
    using assms(1) that by (simp add: heap_but_def)
  have "le (at1 (swap1 xs i mx) c) (at1 (swap1 xs i mx) (c div 2))"
    if c: "2 \<le> c" "c \<le> n" "k \<le> c div 2" "c div 2 \<noteq> mx" for c
  proof -
    have p: "1 \<le> c div 2" "c div 2 < c" using c by auto
    consider "c = i" | "c div 2 = i" "c = mx" | "c div 2 = i" "c \<noteq> mx" | "c \<noteq> i" "c div 2 \<noteq> i" by blast
    then show ?thesis
    proof cases
      case 1
      then show ?thesis using c p g [of mx] mx assms(4,5) by (simp add: sw)
    next
      case 2
      then show ?thesis using mx c assms(8) by (simp add: sw)
    next
      case 3
      then show ?thesis using mx c p assms(7) [of c] by (simp add: sw)
    next
      case 4
      then show ?thesis using c p h [of c] assms(4) by (auto simp: sw)
    qed
  qed
  moreover have "le (at1 (swap1 xs i mx) c) (at1 (swap1 xs i mx) (mx div 2))"
    if c: "c \<le> n" "c div 2 = mx" for c
  proof -
    have "1 \<le> c" "c \<noteq> mx" "c \<noteq> i" "2 \<le> c" using c mx by auto
    then show ?thesis using h [of c] c mx assms(3,4) by (simp add: sw)
  qed
  ultimately show ?thesis by (simp add: heap_but_def)
qed

text \<open>The root of a heap is a maximum.\<close>

lemma heap_root:
  assumes "heap_from 1 n xs" "1 \<le> c" "c \<le> n"
  shows "le (at1 xs c) (at1 xs 1)"
  using assms(2,3)
proof (induction c rule: less_induct)
  case (less c)
  show ?case
  proof (cases "c = 1")
    case False
    then have c: "2 \<le> c" "1 \<le> c div 2" "c div 2 < c" using less.prems by auto
    then have "le (at1 xs c) (at1 xs (c div 2))" using assms(1) less.prems by (simp add: heap_from_def)
    also have "le (at1 xs (c div 2)) (at1 xs 1)" using less c by simp
    finally show ?thesis .
  qed simp
qed

section \<open>Heap sort\<close>

lemma do_compare_elems:
  assumes "1 \<le> i" "i \<le> cnt" "1 \<le> j" "j \<le> cnt" "0 < array" "array + cnt * sz \<le> length m"
  shows "do_compare array i j sz compare m =
    Inr (cmp (at1 (elems m array sz cnt) i) (at1 (elems m array sz cnt) j))"
proof -
  have "array + (i - 1) * sz + sz \<le> length m" "array + (j - 1) * sz + sz \<le> length m"
    using block_inside [of "i - 1" cnt array sz "length m"]
      block_inside [of "j - 1" cnt array sz "length m"] assms by simp_all
  moreover have "i - 1 < cnt" "j - 1 < cnt" using assms(1-4) by auto
  ultimately show ?thesis
    using assms(5) by (simp add: do_compare_def compare_ok elems_def at1_def)
qed

lemma max_child_elems:
  assumes "1 \<le> i" "i \<le> n" "n \<le> cnt" "0 < array" "array + cnt * sz \<le> length m"
  defines "xs \<equiv> elems m array sz cnt"
  shows "\<exists>mx. max_child array i n sz compare m = Inr mx \<and> (mx = i \<or> mx div 2 = i \<and> mx \<le> n) \<and>
    le (at1 xs i) (at1 xs mx) \<and> (\<forall>c. c \<le> n \<and> c div 2 = i \<longrightarrow> le (at1 xs c) (at1 xs mx))"
proof -
  have dc: "do_compare array j k sz compare m = Inr (cmp (at1 xs j) (at1 xs k))"
    if "1 \<le> j" "j \<le> n" "1 \<le> k" "k \<le> n" for j k
    unfolding xs_def using that assms by (intro do_compare_elems) auto
  have gt: "0 < cmp x y \<longleftrightarrow> \<not> le x y" for x y by (auto simp: le_def)
  define m1 where "m1 = (if 2 * i \<le> n \<and> \<not> le (at1 xs (2 * i)) (at1 xs i) then 2 * i else i)"
  define m2 where "m2 = (if 2 * i + 1 \<le> n \<and> \<not> le (at1 xs (2 * i + 1)) (at1 xs m1) then 2 * i + 1 else m1)"
  have m1: "1 \<le> m1" "m1 \<le> n" using assms(1,2) by (auto simp: m1_def)
  have "max_child array i n sz compare m = Inr m2"
    unfolding max_child_def Let_def
    using dc [of "2 * i" i] dc [of "2 * i + 1" m1] m1 assms(1,2)
    by (auto simp: m1_def m2_def gt split: if_splits)
  moreover have "m2 = i \<or> m2 div 2 = i \<and> m2 \<le> n" by (auto simp: m1_def m2_def)
  moreover have l1: "le (at1 xs i) (at1 xs m1)" "2 * i \<le> n \<longrightarrow> le (at1 xs (2 * i)) (at1 xs m1)"
    using le_total by (auto simp: m1_def)
  have l2: "le (at1 xs m1) (at1 xs m2)" "2 * i + 1 \<le> n \<longrightarrow> le (at1 xs (2 * i + 1)) (at1 xs m2)"
    using le_total by (auto simp: m2_def)
  have "le (at1 xs i) (at1 xs m2)" using le_trans l1(1) l2(1) by blast
  moreover have "le (at1 xs c) (at1 xs m2)" if "c \<le> n" "c div 2 = i" for c
  proof -
    have "c = 2 * i \<or> c = 2 * i + 1" using that(2) by auto
    then show ?thesis using that(1) l1(2) l2 le_trans by blast
  qed
  ultimately show ?thesis by blast
qed

lemma heapify_heap:
  assumes "1 \<le> k" "k \<le> i" "i \<le> n" "n \<le> cnt" "0 < array" "array + cnt * sz \<le> length m"
    and "heap_but k n i (elems m array sz cnt)"
  shows "\<exists>m'. heapify array i n sz compare m = Inr m' \<and> frame array (cnt * sz) m m' \<and>
    heap_from k n (elems m' array sz cnt) \<and> mset (elems m' array sz cnt) = mset (elems m array sz cnt) \<and>
    (\<forall>c. n < c \<and> c \<le> cnt \<longrightarrow> at1 (elems m' array sz cnt) c = at1 (elems m array sz cnt) c)"
  using assms(2,3,6,7)
proof (induction "n - i" arbitrary: i m rule: less_induct)
  case less
  let ?xs = "elems m array sz cnt"
  obtain mx where mx: "max_child array i n sz compare m = Inr mx" "mx = i \<or> mx div 2 = i \<and> mx \<le> n"
    "le (at1 ?xs i) (at1 ?xs mx)" "\<forall>c. c \<le> n \<and> c div 2 = i \<longrightarrow> le (at1 ?xs c) (at1 ?xs mx)"
    using max_child_elems [of i n cnt array m] less.prems assms(1,4,5) by auto
  show ?case
  proof (cases "mx = i")
    case True
    then have "heap_from k n ?xs"
      using heap_but_done [OF less.prems(4)] mx(4) less.prems(1) assms(1) by auto
    then show ?thesis using mx(1) True by (simp add: heapify.simps [of array i])
  next
    case False
    then have m: "mx div 2 = i" "mx \<le> n" "i < mx" using mx(2) less.prems(1) assms(1) by auto
    obtain m1 where m1: "do_swap array i mx sz m = Inr m1" "frame array (cnt * sz) m m1"
      "elems m1 array sz cnt = swap1 ?xs i mx"
      using do_swap_elems [of i cnt mx array sz m] m less.prems assms(1,4,5) by auto
    have len: "length m1 = length m" using m1(2) by (simp add: frame_def)
    have lt: "n - mx < n - i" and km: "k \<le> mx" using m less.prems(1) by linarith+
    have "heap_but k n mx (elems m1 array sz cnt)"
      unfolding m1(3) using heap_but_swap [OF less.prems(4) assms(1)] less.prems(1) m mx(3,4) assms(4) by simp
    then obtain m' where m': "heapify array mx n sz compare m1 = Inr m'" "frame array (cnt * sz) m1 m'"
      "heap_from k n (elems m' array sz cnt)" "mset (elems m' array sz cnt) = mset (elems m1 array sz cnt)"
      "\<forall>c. n < c \<and> c \<le> cnt \<longrightarrow> at1 (elems m' array sz cnt) c = at1 (elems m1 array sz cnt) c"
      using less.hyps [OF lt km m(2) less.prems(3) [folded len]] by blast
    have "mset (swap1 ?xs i mx) = mset ?xs"
      using m less.prems(1) assms(1,4) by (intro mset_swap1) auto
    moreover have "at1 (swap1 ?xs i mx) c = at1 ?xs c" if "n < c" "c \<le> cnt" for c
      using that m less.prems(1) assms(1,4) by (subst at1_swap1) auto
    moreover have "heapify array i n sz compare m = Inr m'"
      using m'(1) m1(1) mx(1) False by (subst heapify.simps) simp
    moreover have "frame array (cnt * sz) m m'" by (rule frame_trans [OF m1(2) m'(2)])
    ultimately show ?thesis using m'(3-5) unfolding m1(3) by auto
  qed
qed

lemma build_loop_heap:
  assumes "2 * i \<le> cnt" "0 < array" "array + cnt * sz \<le> length m"
    and "heap_from (i + 1) cnt (elems m array sz cnt)"
  shows "\<exists>m'. build_loop i array cnt sz compare m = Inr m' \<and> frame array (cnt * sz) m m' \<and>
    heap_from 1 cnt (elems m' array sz cnt) \<and> mset (elems m' array sz cnt) = mset (elems m array sz cnt)"
  using assms(1,3,4)
proof (induction i arbitrary: m)
  case (Suc i)
  have "heap_but (i + 1) cnt (i + 1) (elems m array sz cnt)"
    using Suc.prems(3) by (auto simp: heap_from_def heap_but_def)
  then obtain m1 where m1: "heapify array (Suc i) cnt sz compare m = Inr m1" "frame array (cnt * sz) m m1"
    "heap_from (i + 1) cnt (elems m1 array sz cnt)" "mset (elems m1 array sz cnt) = mset (elems m array sz cnt)"
    using heapify_heap [of "i + 1" "i + 1" cnt cnt array m] Suc.prems assms(2) by auto
  have "length m1 = length m" using m1(2) by (simp add: frame_def)
  then show ?case
    using Suc.IH [of m1] Suc.prems m1 by (auto simp del: One_nat_def intro: frame_trans)
qed simp

text \<open>The elements after \<open>n\<close> are in place.\<close>

definition in_place :: "nat \<Rightarrow> byte_t list list \<Rightarrow> bool" where
  "in_place n xs \<longleftrightarrow>
    (\<forall>a b. 1 \<le> a \<and> a < b \<and> n < b \<and> b \<le> length xs \<longrightarrow> le (at1 xs a) (at1 xs b))"

lemma in_place_sorted: "in_place n xs \<Longrightarrow> n \<le> 1 \<Longrightarrow> sorted_wrt le xs"
  unfolding sorted_wrt_iff_nth_less
proof (intro allI impI)
  fix i j assume "in_place n xs" "n \<le> 1" "i < j" "j < length xs"
  then have "le (at1 xs (i + 1)) (at1 xs (j + 1))" unfolding in_place_def by simp
  then show "le (xs ! i) (xs ! j)" by (simp add: at1_def)
qed

text \<open>Rearranging the first \<open>n\<close> elements keeps the others in place.\<close>

lemma in_place_perm:
  assumes "in_place n xs" "mset ys = mset xs" "n \<le> length xs"
    and "\<And>c. n < c \<Longrightarrow> c \<le> length xs \<Longrightarrow> at1 ys c = at1 xs c"
  shows "in_place n ys"
proof -
  have len: "length ys = length xs" using assms(2) by (metis size_mset)
  have "drop n ys = drop n xs"
  proof (rule nth_equalityI)
    fix j assume "j < length (drop n ys)"
    then show "drop n ys ! j = drop n xs ! j"
      using assms(4) [of "n + j + 1"] len by (simp add: at1_def)
  qed (simp add: len)
  then have "mset (take n ys) = mset (take n xs)"
    using assms(2) by (metis append_take_drop_id mset_append add_right_cancel)
  then have set: "set (take n ys) = set (take n xs)" by (rule mset_eq_setD)
  have "le (at1 ys a) (at1 ys b)" if ab: "1 \<le> a" "a < b" "n < b" "b \<le> length xs" for a b
  proof (cases "a \<le> n")
    case True
    then have "at1 ys a \<in> set (take n ys)"
      using ab assms(3) len by (auto simp: at1_def in_set_conv_nth intro!: exI [of _ "a - 1"])
    then have "at1 ys a \<in> set (take n xs)" by (simp only: set)
    then obtain j where "j < n" "at1 ys a = at1 xs (j + 1)"
      using assms(3) by (auto simp: in_set_conv_nth at1_def)
    then show ?thesis using assms(1,4) ab by (auto simp: in_place_def)
  next
    case False
    then show ?thesis using assms(1,4) ab by (auto simp: in_place_def)
  qed
  then show ?thesis by (simp add: in_place_def len)
qed

lemma sort_down_sorts:
  assumes "n \<le> cnt" "0 < array" "array + cnt * sz \<le> length m"
    and "heap_from 1 n (elems m array sz cnt)" "in_place n (elems m array sz cnt)"
  shows "\<exists>m'. sort_down n array sz compare m = Inr m' \<and> frame array (cnt * sz) m m' \<and>
    sorted_wrt le (elems m' array sz cnt) \<and> mset (elems m' array sz cnt) = mset (elems m array sz cnt)"
  using assms(1,3-)
proof (induction n arbitrary: m)
  case (Suc n)
  show ?case
  proof (cases n)
    case 0
    then show ?thesis using in_place_sorted [of 1] Suc.prems(4) by simp
  next
    case (Suc i)
    let ?xs = "elems m array sz cnt" and ?n = "Suc n"
    have n: "2 \<le> ?n" "?n \<le> cnt" using Suc Suc.prems(1) by simp_all
    obtain m1 where m1: "do_swap array 1 ?n sz m = Inr m1" "frame array (cnt * sz) m m1"
      "elems m1 array sz cnt = swap1 ?xs 1 ?n"
      using do_swap_elems [of 1 cnt ?n array sz m] n assms(2) Suc.prems(2) by auto
    define ys where "ys = swap1 ?xs 1 ?n"
    note m1 = m1 [folded ys_def]
    have ylen: "length ys = cnt" by (simp add: ys_def)
    have len: "length m1 = length m" using m1(2) by (simp add: frame_def)
    have sw: "at1 ys c = (if c = ?n then at1 ?xs 1 else if c = 1 then at1 ?xs ?n else at1 ?xs c)"
      if "1 \<le> c" for c
      unfolding ys_def using n that by (intro at1_swap1) auto
    have top: "le (at1 ?xs c) (at1 ?xs 1)" if "1 \<le> c" "c \<le> ?n" for c
      using heap_root [OF Suc.prems(3)] that by blast
    have place: "in_place n ys"
      unfolding in_place_def
    proof (intro allI impI)
      fix a b assume ab: "1 \<le> a \<and> a < b \<and> n < b \<and> b \<le> length ys"
      show "le (at1 ys a) (at1 ys b)"
      proof (cases "b = ?n")
        case True
        then show ?thesis using ab top n by (auto simp: sw)
      next
        case False
        then have b: "le (at1 ?xs c) (at1 ?xs b)" if "1 \<le> c" "c < b" for c
          using Suc.prems(4) ab that \<open>b \<noteq> ?n\<close> by (auto simp: in_place_def ylen)
        have "?n < b" using False ab by simp
        then show ?thesis using ab n b [of a] b [of 1] b [of ?n] by (auto simp: sw)
      qed
    qed
    have "heap_but 1 n 1 (elems m1 array sz cnt)"
      unfolding m1(3) heap_but_def using Suc.prems(3) n by (auto simp: sw heap_from_def)
    then obtain m2 where m2: "heapify array 1 n sz compare m1 = Inr m2" "frame array (cnt * sz) m1 m2"
      "heap_from 1 n (elems m2 array sz cnt)" "mset (elems m2 array sz cnt) = mset (elems m1 array sz cnt)"
      "\<forall>c. n < c \<and> c \<le> cnt \<longrightarrow> at1 (elems m2 array sz cnt) c = at1 (elems m1 array sz cnt) c"
      using heapify_heap [of 1 1 n cnt array m1] n assms(2) Suc.prems(2) len by auto
    have place2: "in_place n (elems m2 array sz cnt)"
      by (rule in_place_perm [OF place]) (use m2(4,5) m1(3) n in auto)
    have "length m2 = length m" using m2(2) len by (simp add: frame_def)
    then obtain m3 where m3: "sort_down n array sz compare m2 = Inr m3" "frame array (cnt * sz) m2 m3"
      "sorted_wrt le (elems m3 array sz cnt)" "mset (elems m3 array sz cnt) = mset (elems m2 array sz cnt)"
      using Suc.IH [of m2] n Suc.prems(2) m2(3) place2 by auto
    have "mset ys = mset ?xs" unfolding ys_def using n by (intro mset_swap1) auto
    then have "mset (elems m3 array sz cnt) = mset ?xs" using m3(4) m2(4) m1(3) by simp
    moreover have "frame array (cnt * sz) m m3" using m1(2) m2(2) m3(2) frame_trans by blast
    moreover have "sort_down ?n array sz compare m = Inr m3"
      using m1(1) m2(1) m3(1) \<open>n = Suc i\<close> by simp
    ultimately show ?thesis using m3(3) by blast
  qed
next
  case 0
  then show ?case using in_place_sorted [of 0] by simp
qed

lemma heap_sort_sorts:
  assumes "0 < array" "array + cnt * sz \<le> length m"
  shows "\<exists>m'. heap_sort array cnt sz compare m = Inr m' \<and> frame array (cnt * sz) m m' \<and>
    sorted_wrt (\<lambda>x y. cmp x y \<le> 0) (elems m' array sz cnt) \<and>
    mset (elems m' array sz cnt) = mset (elems m array sz cnt)"
proof -
  have "heap_from (cnt div 2 + 1) cnt (elems m array sz cnt)"
    by (auto simp: heap_from_def)
  then obtain m1 where m1: "build_loop (cnt div 2) array cnt sz compare m = Inr m1"
    "frame array (cnt * sz) m m1" "heap_from 1 cnt (elems m1 array sz cnt)"
    "mset (elems m1 array sz cnt) = mset (elems m array sz cnt)"
    using build_loop_heap [of "cnt div 2" cnt array m] assms by auto
  have "length m1 = length m" using m1(2) by (simp add: frame_def)
  moreover have "in_place cnt (elems m1 array sz cnt)" by (auto simp: in_place_def)
  ultimately obtain m2 where m2: "sort_down cnt array sz compare m1 = Inr m2"
    "frame array (cnt * sz) m1 m2" "sorted_wrt le (elems m2 array sz cnt)"
    "mset (elems m2 array sz cnt) = mset (elems m1 array sz cnt)"
    using sort_down_sorts [of cnt cnt array m1] m1(3) assms by auto
  have "heap_sort array cnt sz compare m = Inr m2"
    using m1(1) m2(1) assms(1) sz_pos by (simp add: heap_sort_def)
  moreover have "le = (\<lambda>x y. cmp x y \<le> 0)" by (simp add: fun_eq_iff le_def)
  moreover have "frame array (cnt * sz) m m2" by (rule frame_trans [OF m1(2) m2(2)])
  ultimately show ?thesis using m1(4) m2(3,4) by (intro exI [of _ m2]) simp
qed

section \<open>Binary search\<close>

lemma search_loop_finds:
  assumes "0 < array" "array + cnt * sz \<le> length m" "0 < key" "key + sz \<le> length m"
    and "sorted_wrt le (elems m array sz cnt)" "kb = take sz (drop key m)"
    and "lo \<le> hi" "hi \<le> cnt"
    and "\<And>i. i < lo \<Longrightarrow> 0 < cmp kb (elems m array sz cnt ! i)"
    and "\<And>i. hi \<le> i \<Longrightarrow> i < cnt \<Longrightarrow> cmp kb (elems m array sz cnt ! i) < 0"
  shows "\<exists>r. search_loop key (array + lo * sz) (array + hi * sz) sz compare m = Inr r \<and>
    (if r = 0 then \<forall>i < cnt. cmp kb (elems m array sz cnt ! i) \<noteq> 0
     else \<exists>i < cnt. r = array + i * sz \<and> cmp kb (elems m array sz cnt ! i) = 0)"
  using assms(7-)
proof (induction "hi - lo" arbitrary: lo hi rule: less_induct)
  case less
  let ?xs = "elems m array sz cnt"
  show ?case
  proof (cases "lo < hi")
    case False
    then have "cmp kb (?xs ! i) \<noteq> 0" if "i < cnt" for i
      using less.prems(3,4) [of i] that by (cases "i < lo") auto
    then show ?thesis using False sz_pos by (auto simp: search_loop.simps [of key])
  next
    case True
    define mid where "mid = lo + (hi - lo) div 2"
    have mid: "lo \<le> mid" "mid < hi" "mid < cnt" using True less.prems(2) by (auto simp: mid_def)
    have lt: "lo * sz < hi * sz" using True sz_pos by simp
    have "(array + hi * sz - (array + lo * sz)) div sz = hi - lo"
      using sz_pos by (simp flip: diff_mult_distrib)
    then have middle: "array + lo * sz + (array + hi * sz - (array + lo * sz)) div sz div 2 * sz = array + mid * sz"
      by (simp add: mid_def add_mult_distrib)
    have "array + mid * sz + sz \<le> length m" using block_inside [OF mid(3) assms(2)] .
    then have c: "compare m key (array + mid * sz) = Inr (cmp kb (?xs ! mid))"
      using assms(1,3,4) mid(3) by (simp add: compare_ok elems_def assms(6))
    have step: "search_loop key (array + lo * sz) (array + hi * sz) sz compare m =
      (if cmp kb (?xs ! mid) < 0 then search_loop key (array + lo * sz) (array + mid * sz) sz compare m
       else if cmp kb (?xs ! mid) > 0 then search_loop key (array + mid * sz + sz) (array + hi * sz) sz compare m
       else Inr (array + mid * sz))"
      using lt sz_pos by (subst search_loop.simps) (simp only: middle c Let_def, simp)
    have sorted: "le (?xs ! i) (?xs ! j)" if "i < j" "j < cnt" for i j
      using assms(5) that by (simp add: sorted_wrt_iff_nth_less)
    consider "cmp kb (?xs ! mid) < 0" | "0 < cmp kb (?xs ! mid)" | "cmp kb (?xs ! mid) = 0" by linarith
    then show ?thesis
    proof cases
      case 1
      have "cmp kb (?xs ! i) < 0" if "mid \<le> i" "i < cnt" for i
      proof (rule ccontr)
        assume "\<not> cmp kb (?xs ! i) < 0"
        then have "le (?xs ! i) kb" using cmp_flip [of "?xs ! i" kb] by (simp add: le_def)
        moreover have "le (?xs ! mid) (?xs ! i)" using sorted [of mid i] that by (cases "mid = i") auto
        ultimately have "le (?xs ! mid) kb" by (rule le_trans [rotated])
        then show False using 1 cmp_flip [of "?xs ! mid" kb] by (simp add: le_def)
      qed
      then show ?thesis
        using less.hyps [of mid lo] less.prems mid 1 unfolding step by simp
    next
      case 2
      have "0 < cmp kb (?xs ! i)" if "i < mid + 1" for i
      proof (rule ccontr)
        assume "\<not> 0 < cmp kb (?xs ! i)"
        then have "le kb (?xs ! i)" by (simp add: le_def)
        also have "le (?xs ! i) (?xs ! mid)" using sorted [of i mid] that mid(3) by (cases "mid = i") auto
        finally show False using 2 by (simp add: le_def)
      qed
      then have "\<exists>r. search_loop key (array + (mid + 1) * sz) (array + hi * sz) sz compare m = Inr r \<and>
          (if r = 0 then \<forall>i < cnt. cmp kb (?xs ! i) \<noteq> 0
           else \<exists>i < cnt. r = array + i * sz \<and> cmp kb (?xs ! i) = 0)"
        by (intro less.hyps) (use less.prems mid in auto)
      moreover have "array + mid * sz + sz = array + (mid + 1) * sz" by simp
      ultimately show ?thesis using 2 less_not_sym [OF 2] unfolding step by (simp only: if_True if_False)
    next
      case 3
      then show ?thesis using mid(3) assms(1) unfolding step by auto
    qed
  qed
qed

lemma binary_search_finds:
  assumes "0 < array" "array + cnt * sz \<le> length m" "0 < key" "key + sz \<le> length m"
    and "sorted_wrt (\<lambda>x y. cmp x y \<le> 0) (elems m array sz cnt)"
  shows "\<exists>r. binary_search key array cnt sz compare m = Inr r \<and>
    (if r = 0 then \<forall>i < cnt. cmp (take sz (drop key m)) (elems m array sz cnt ! i) \<noteq> 0
     else \<exists>i < cnt. r = array + i * sz \<and> cmp (take sz (drop key m)) (elems m array sz cnt ! i) = 0)"
proof -
  have "le = (\<lambda>x y. cmp x y \<le> 0)" by (simp add: fun_eq_iff le_def)
  then show ?thesis
    using search_loop_finds [OF assms(1-4) _ refl, of 0 cnt] assms(5)
    by (simp add: binary_search_def mult.commute [of sz])
qed

end

text \<open>The order of \<open>memcmp\<close> on blocks of \<open>sz\<close> bytes.\<close>

lemma cmp_bytes_flip: "0 < cmp_bytes x y \<longleftrightarrow> cmp_bytes y x < 0"
  by (induction x y rule: cmp_bytes.induct) auto

lemma cmp_bytes_trans: "cmp_bytes x y \<le> 0 \<Longrightarrow> cmp_bytes y z \<le> 0 \<Longrightarrow> cmp_bytes x z \<le> 0"
proof (induction x z arbitrary: y rule: cmp_bytes.induct)
  case (1 a xs c zs)
  then show ?case by (cases y) (auto split: if_splits)
next
  case (4 a xs)
  then show ?case by (cases y) (auto split: if_splits)
qed auto

interpretation by_memcmp: comparison "\<lambda>m a b. memcmp a b (Suc k) m" cmp_bytes "Suc k" for k
  by unfold_locales (auto simp: memcmp_bytes cmp_bytes_flip dest: cmp_bytes_trans)

section \<open>Decimal numbers\<close>

definition decimal :: "int \<Rightarrow> byte_t list \<Rightarrow> int" where
  "decimal v ds = foldl (\<lambda>v c. v * 10 + (uint c - 48)) v ds"

lemma decimal_Cons [simp]: "decimal v (c # ds) = decimal (v * 10 + (uint c - 48)) ds" "decimal v [] = v"
  by (simp_all add: decimal_def)

lemma isdigit_uint: "isdigit c \<Longrightarrow> 0 \<le> uint c - 48 \<and> uint c - 48 \<le> 9"
  by (simp add: isdigit_def word_le_def)

lemma decimal_ge: "list_all isdigit ds \<Longrightarrow> 0 \<le> v \<Longrightarrow> v \<le> decimal v ds"
proof (induction ds arbitrary: v)
  case (Cons c ds)
  then have "0 \<le> uint c - 48" "v * 10 + (uint c - 48) \<le> decimal v (c # ds)"
    using isdigit_uint [of c] by auto
  then show ?case using Cons.prems(2) by linarith
qed simp

text \<open>The loop computes the negated number, and overflows exactly when that does not fit.\<close>

lemma digits_loop_decimal:
  assumes "list_all isdigit ds" "rest = [] \<or> \<not> isdigit (hd rest)" "0 \<le> v" "v \<le> 2 ^ 31"
    and "cstr m p (ds @ rest)"
  shows "digits_loop m p (- v) =
    (if decimal v ds \<le> 2 ^ 31 then Inr (- decimal v ds) else Inl SignedOverflow)"
  using assms
proof (induction ds arbitrary: v p)
  case Nil
  have "\<exists>c. ld m p = Inr c \<and> \<not> isdigit c"
    using Nil.prems by (cases rest) (auto simp: isdigit_def)
  then show ?case using Nil.prems(4) by (auto simp: digits_loop.simps [of m p])
next
  case (Cons c ds)
  define w where "w = v * 10 + (uint c - 48)"
  have c: "isdigit c" "0 \<le> uint c - 48" "ld m p = Inr c" "cstr m (p + 1) (ds @ rest)"
    using Cons.prems isdigit_uint [of c] by auto
  have w: "v * 10 \<le> w" "0 \<le> w" "w \<le> decimal w ds"
    using c(2) Cons.prems(1,3) decimal_ge [of ds w] by (simp_all add: w_def)
  have "bindE (int32 (- v * 10)) (\<lambda>t. bindE (int32 (t - (uint c - 48))) f) =
      (if w \<le> 2 ^ 31 then f (- w) else Inl SignedOverflow)" for f :: "int \<Rightarrow> c_error + int"
  proof -
    have "- (v * 10) - (uint c - 48) = - w" by (simp add: w_def)
    then show ?thesis using w(1,2) Cons.prems(3) by (auto simp: int32_def guardE_def)
  qed
  then have "digits_loop m p (- v) = (if w \<le> 2 ^ 31 then digits_loop m (p + 1) (- w) else Inl SignedOverflow)"
    by (subst digits_loop.simps) (simp only: c(1,3) bindE.simps if_True)
  then show ?case
    using Cons.IH [OF _ Cons.prems(2) w(2) _ c(4)] Cons.prems(1) w(3) by (auto simp flip: w_def)
qed

lemma skip_space_cstr:
  "\<lbrakk>cstr m p (ws @ s); list_all isspace ws; s \<noteq> []; \<not> isspace (hd s)\<rbrakk> \<Longrightarrow>
    skip_space m p = Inr (p + length ws)"
proof (induction ws arbitrary: p)
  case Nil
  then show ?case by (cases s) (auto simp: skip_space.simps [of m p])
next
  case (Cons w ws)
  then show ?case by (auto simp: skip_space.simps [of m p])
qed

lemma atoi_decimal:
  assumes "cstr m p (ws @ sign @ ds @ rest)" "list_all isspace ws" "sign \<in> {[], [43], [45]}"
    and "list_all isdigit ds" "ds \<noteq> []" "rest = [] \<or> \<not> isdigit (hd rest)"
  shows "atoi_pintos p m =
    (let n = decimal 0 ds in
     if sign = [45] then if n \<le> 2 ^ 31 then Inr (- n) else Inl SignedOverflow
     else if n < 2 ^ 31 then Inr n else Inl SignedOverflow)"
proof -
  let ?n = "decimal 0 ds" and ?q = "p + length ws"
  have d: "isdigit (hd ds)" using assms(4,5) by (cases ds) auto
  have nosp: "\<not> isspace (hd (sign @ ds @ rest))"
    using assms(3,5) d by (auto simp: isspace_def isdigit_def hd_append)
  have sk: "skip_space m p = Inr ?q"
    using skip_space_cstr [of m p ws "sign @ ds @ rest"] assms(1,2,5) nosp by simp
  have q: "cstr m ?q (sign @ ds @ rest)" using cstr_drop assms(1) by blast
  have ds: "cstr m (?q + length sign) (ds @ rest)" using cstr_drop [OF q] by simp
  have hd: "ld m ?q = Inr (hd (sign @ ds @ rest))"
    using q assms(3,5) by (cases sign; cases ds) auto
  have dig: "digits_loop m (?q + length sign) 0 = (if ?n \<le> 2 ^ 31 then Inr (- ?n) else Inl SignedOverflow)"
    using digits_loop_decimal [OF assms(4,6) _ _ ds, of 0] by simp
  have "0 \<le> ?n" using decimal_ge [OF assms(4), of 0] by simp
  moreover have "hd ds \<noteq> 43" "hd ds \<noteq> 45" using d by (auto simp: isdigit_def)
  moreover have "0 < p" using cstr_pos assms(1) by blast
  ultimately show ?thesis
    using sk hd dig assms(3,5) by (auto simp: atoi_pintos_def Let_def int32_def guardE_def hd_append)
qed

section \<open>Properties\<close>

text \<open>C17: \<open>sort\<close>, a heap sort over an array of elements of \<open>sz\<close> bytes, with any comparison function
  that returns the sign of a total order on the elements it is given: it returns, leaves the array
  sorted and a permutation of what it was, and writes nowhere else.\<close>

theorem heap_sort_correct:
  assumes "comparison compare cmp sz" "0 < array" "array + cnt * sz \<le> length m"
  shows "\<exists>m'. heap_sort array cnt sz compare m = Inr m' \<and>
    sorted_wrt (\<lambda>x y. cmp x y \<le> 0) (elems m' array sz cnt) \<and>
    mset (elems m' array sz cnt) = mset (elems m array sz cnt) \<and>
    length m' = length m \<and>
    (\<forall>i < length m. i < array \<or> array + cnt * sz \<le> i \<longrightarrow> m' ! i = m ! i)"
  using comparison.heap_sort_sorts [OF assms] by (auto simp: frame_def)

lemma heap_sort_correct_witness:
  "\<exists>m'. heap_sort 1 3 1 (\<lambda>m a b. memcmp a b (Suc 0) m) [0, 3, 1, 2, 9] = Inr m' \<and>
     sorted_wrt (\<lambda>x y. cmp_bytes x y \<le> 0) (elems m' 1 1 3) \<and> m' ! 4 = 9"
  using heap_sort_correct [OF by_memcmp.comparison_axioms [of 0], of 1 3 "[0, 3, 1, 2, 9]"] by auto

text \<open>\<open>binary_search\<close> in a sorted array returns the address of an element that compares equal to the
  key, and NULL exactly when there is none.\<close>

theorem binary_search_correct:
  assumes "comparison compare cmp sz" "0 < array" "array + cnt * sz \<le> length m"
    and "0 < key" "key + sz \<le> length m" "sorted_wrt (\<lambda>x y. cmp x y \<le> 0) (elems m array sz cnt)"
  shows "\<exists>r. binary_search key array cnt sz compare m = Inr r \<and>
    (if r = 0 then \<forall>i < cnt. cmp (take sz (drop key m)) (elems m array sz cnt ! i) \<noteq> 0
     else \<exists>i < cnt. r = array + i * sz \<and> cmp (take sz (drop key m)) (elems m array sz cnt ! i) = 0)"
  by (rule comparison.binary_search_finds [OF assms])

lemma binary_search_correct_witness:
  "\<exists>r. binary_search 4 1 3 1 (\<lambda>m a b. memcmp a b (Suc 0) m) [0, 1, 5, 7, 5] = Inr r \<and> r \<noteq> 0"
proof -
  have e: "elems [0, 1, 5, 7, 5] 1 (Suc 0) 3 = [[1], [5], [7 :: byte_t]]"
    by (simp add: elems_def upt_rec)
  have "cmp_bytes [5] ([[1], [5], [7]] ! 1) = 0" by simp
  then show ?thesis
    using binary_search_correct [OF by_memcmp.comparison_axioms [of 0], of 1 3 "[0, 1, 5, 7, 5]" 4]
    unfolding e by (auto simp: word_less_def split: if_splits dest: spec [of _ 1])
qed

text \<open>\<open>atoi\<close> on white space, an optional sign and a run of digits returns the number they denote
  when it is an \<open>int\<close>, the least one included, and overflows, which C leaves undefined, when it is not.\<close>

theorem atoi_correct:
  assumes "cstr m p (ws @ sign @ ds @ rest)" "list_all isspace ws" "sign \<in> {[], [43], [45]}"
    and "list_all isdigit ds" "ds \<noteq> []" "rest = [] \<or> \<not> isdigit (hd rest)"
  shows "atoi_pintos p m =
    (let n = decimal 0 ds in
     if sign = [45] then if n \<le> 2 ^ 31 then Inr (- n) else Inl SignedOverflow
     else if n < 2 ^ 31 then Inr n else Inl SignedOverflow)"
  by (rule atoi_decimal [OF assms])

lemma atoi_correct_witness: "atoi_pintos 1 [0, 32, 45, 52, 50, 120, 0] = Inr (- 42)"
  using atoi_correct [of "[0, 32, 45, 52, 50, 120, 0]" 1 "[32]" "[45]" "[52, 50]" "[120]"]
  by (simp add: isspace_def isdigit_def)

end
