(* ===== verification/Pintos_Random.thy ===== *)
theory Pintos_Random
  imports Prelude "HOL-Library.Multiset"
begin

text \<open>
  The pseudo-random number generator of Pintos, \<open>src/lib/random.c\<close>, RC4. The state is the record
  \<open>rc4\<close>: the array \<open>s\<close>, the two indexes and the flag \<open>inited\<close>. The array has 256 bytes and is
  indexed by bytes, so no access leaves it; that it keeps its length and stays a permutation is the
  invariant \<open>rc4_wf\<close>.
\<close>

record rc4 =
  sbox :: "byte_t list"
  s_i :: byte_t
  s_j :: byte_t
  inited :: bool

definition swap_byte :: "byte_t list \<Rightarrow> nat \<Rightarrow> nat \<Rightarrow> byte_t list" where
  "swap_byte s a b = s[a := s ! b, b := s ! a]"

text \<open>The bytes of the seed, lowest first.\<close>

definition seed_bytes :: "word_t \<Rightarrow> byte_t list" where
  "seed_bytes seed = word_bytes seed"

fun key_loop :: "nat \<Rightarrow> nat \<Rightarrow> byte_t \<Rightarrow> byte_t list \<Rightarrow> byte_t list \<Rightarrow> byte_t list" where
  "key_loop 0 i j seedp s = s"
| "key_loop (Suc n) i j seedp s =
    (let j = j + (s ! i + seedp ! (i mod 4))
     in key_loop n (i + 1) j seedp (swap_byte s i (unat j)))"

definition random_init :: "word_t \<Rightarrow> rc4" where
  "random_init seed =
    \<lparr>sbox = key_loop 256 0 0 (seed_bytes seed) (map of_nat [0 ..< 256]),
     s_i = 0, s_j = 0, inited = True\<rparr>"

definition random_byte :: "rc4 \<Rightarrow> byte_t \<times> rc4" where
  "random_byte r =
    (let i = s_i r + 1;
         j = s_j r + sbox r ! unat i;
         s = swap_byte (sbox r) (unat i) (unat j);
         s_k = s ! unat i + s ! unat j
     in (s ! unat s_k, r\<lparr>sbox := s, s_i := i, s_j := j\<rparr>))"

fun bytes_loop :: "nat \<Rightarrow> rc4 \<Rightarrow> byte_t list \<times> rc4" where
  "bytes_loop 0 r = ([], r)"
| "bytes_loop (Suc n) r =
    (let (b, r) = random_byte r; (bs, r) = bytes_loop n r in (b # bs, r))"

definition random_bytes :: "nat \<Rightarrow> rc4 \<Rightarrow> byte_t list \<times> rc4" where
  "random_bytes n r = bytes_loop n (if \<not> inited r then random_init 0 else r)"

definition random_ulong :: "rc4 \<Rightarrow> word_t \<times> rc4" where
  "random_ulong r =
    (let (bs, r) = random_bytes 4 r in (bytes_word (bs ! 0) (bs ! 1) (bs ! 2) (bs ! 3), r))"

section \<open>The array stays a permutation\<close>

definition permutation :: "byte_t list \<Rightarrow> bool" where
  "permutation s \<longleftrightarrow> mset s = mset (map of_nat [0 ..< 256])"

definition rc4_wf :: "rc4 \<Rightarrow> bool" where
  "rc4_wf r \<longleftrightarrow> inited r \<and> permutation (sbox r)"

lemma permutation_length: "permutation s \<Longrightarrow> length s = 256"
  unfolding permutation_def by (drule arg_cong [of _ _ size]) simp

lemma unat_byte_less: "unat (b :: byte_t) < 256"
  using unsigned_less [of b, where ?'a = nat] by simp

lemma permutation_swap:
  "permutation s \<Longrightarrow> a < 256 \<Longrightarrow> b < 256 \<Longrightarrow> permutation (swap_byte s a b)"
  using permutation_length [of s] by (simp add: permutation_def swap_byte_def mset_swap)

lemma permutation_key_loop:
  "\<lbrakk>permutation s; i + n \<le> 256\<rbrakk> \<Longrightarrow> permutation (key_loop n i j seedp s)"
  by (induction n arbitrary: i j s) (simp_all add: Let_def permutation_swap unat_byte_less)

lemma random_init_wf: "rc4_wf (random_init seed)"
  unfolding rc4_wf_def random_init_def
  using permutation_key_loop [of "map of_nat [0 ..< 256]" 0 256 0 "seed_bytes seed"]
  by (simp add: permutation_def)

lemma random_byte_wf: "rc4_wf r \<Longrightarrow> rc4_wf (snd (random_byte r))"
  by (simp add: rc4_wf_def random_byte_def Let_def permutation_swap unat_byte_less)

lemma bytes_loop_wf: "rc4_wf r \<Longrightarrow> rc4_wf (snd (bytes_loop n r)) \<and> length (fst (bytes_loop n r)) = n"
proof (induction n arbitrary: r)
  case (Suc n)
  then show ?case using random_byte_wf [of r] by (simp add: split_beta)
qed simp

lemma random_bytes_wf:
  "rc4_wf r \<or> \<not> inited r \<Longrightarrow> rc4_wf (snd (random_bytes n r)) \<and> length (fst (random_bytes n r)) = n"
  using bytes_loop_wf random_init_wf by (auto simp: random_bytes_def rc4_wf_def)

section \<open>One stream\<close>

lemma bytes_loop_add:
  "bytes_loop (n + k) r =
    (let (bs, r) = bytes_loop n r; (cs, r) = bytes_loop k r in (bs @ cs, r))"
  by (induction n arbitrary: r) (simp_all add: split_beta Let_def)

lemma random_bytes_add:
  assumes "rc4_wf r"
  shows "random_bytes (n + k) r =
    (let (bs, r) = random_bytes n r; (cs, r) = random_bytes k r in (bs @ cs, r))"
proof -
  have "rc4_wf (snd (bytes_loop n r))" using bytes_loop_wf [OF assms] by blast
  then show ?thesis
    using assms by (simp add: random_bytes_def rc4_wf_def split_beta Let_def bytes_loop_add)
qed

text \<open>From any seed the generator's array is a permutation of the 256 bytes, and every request
  keeps it one, so no byte is ever lost from the generator; a request returns as many bytes as
  asked for; and the bytes are one stream: two requests in a row return what one request of both
  sizes returns, and leave the same state.\<close>

theorem random_stream:
  assumes "rc4_wf r"
  shows "rc4_wf (random_init seed) \<and> rc4_wf (snd (random_bytes n r)) \<and>
    length (fst (random_bytes n r)) = n \<and>
    random_bytes (n + k) r =
      (let (bs, r) = random_bytes n r; (cs, r) = random_bytes k r in (bs @ cs, r))"
  using random_bytes_wf [of r n] random_init_wf random_bytes_add [OF assms] assms by blast

lemma random_stream_witness:
  "random_bytes (1 + 2) (random_init 7) =
    (let (bs, r) = random_bytes 1 (random_init 7); (cs, r) = random_bytes 2 r in (bs @ cs, r))"
  using random_stream [OF random_init_wf, where seed = 0 and n = 1 and k = 2] by blast

end
