(* ===== verification/Pintos_Hash.thy ===== *)
theory Pintos_Hash
  imports Pintos_List Pintos_String "HOL-Library.Multiset"
begin

unbundle bit_operations_syntax

text \<open>
  The hash table of Pintos, \<open>src/lib/kernel/hash.c\<close>: an array of the linked lists of \<open>Pintos_List\<close>, over
  the same heap of links. A hash element starts with its list element, so both have the same
  address. The hash and comparison functions, with their \<open>aux\<close>, are fields, as in the code.
  \<open>malloc\<close> is a parameter: the array of lists it returns for a number of buckets, \<open>None\<close> for NULL.
  A destructor or an action of the caller is an event: the functions that call one return the list
  of elements they call it on. Counts of elements and buckets are natural numbers, as they count
  objects in memory.
\<close>

section \<open>The table\<close>

record hash =
  elem_count :: nat
  bucket_cnt :: nat
  buckets :: "plist list"
  hash_fn :: "ptr \<Rightarrow> word_t"
  less_fn :: "ptr \<Rightarrow> ptr \<Rightarrow> bool"

record hash_iterator =
  ibucket :: nat
  ielem :: ptr

definition find_bucket :: "hash \<Rightarrow> ptr \<Rightarrow> c_error + plist" where
  "find_bucket t e = rd (buckets t) (unat (hash_fn t e) AND (bucket_cnt t - 1))"

fun find_loop :: "nat \<Rightarrow> links \<Rightarrow> hash \<Rightarrow> plist \<Rightarrow> ptr \<Rightarrow> ptr \<Rightarrow> c_error + ptr" where
  "find_loop 0 h t bucket e i = Inl NoFuel"
| "find_loop (Suc fuel) h t bucket e i =
    (if i = list_end bucket then Inr 0
     else if \<not> less_fn t i e \<and> \<not> less_fn t e i then Inr i
     else bindE (list_next h i) (\<lambda>i. find_loop fuel h t bucket e i))"

definition find_elem :: "nat \<Rightarrow> hash \<Rightarrow> plist \<Rightarrow> ptr \<Rightarrow> links \<Rightarrow> c_error + ptr" where
  "find_elem fuel t bucket e h = find_loop fuel h t bucket e (list_begin h bucket)"

definition turn_off_least_1bit :: "nat \<Rightarrow> nat" where
  "turn_off_least_1bit x = x AND (x - 1)"

definition is_power_of_2 :: "nat \<Rightarrow> bool" where
  "is_power_of_2 x = (x \<noteq> 0 \<and> turn_off_least_1bit x = 0)"

definition MIN_ELEMS_PER_BUCKET :: nat where "MIN_ELEMS_PER_BUCKET = 1"
definition BEST_ELEMS_PER_BUCKET :: nat where "BEST_ELEMS_PER_BUCKET = 2"
definition MAX_ELEMS_PER_BUCKET :: nat where "MAX_ELEMS_PER_BUCKET = 4"

lemma turn_off_less: "0 < n \<Longrightarrow> turn_off_least_1bit n < n"
proof -
  assume "0 < n"
  have "n AND (n - 1) \<le> n - 1"
  proof -
    have "int (n AND (n - 1)) \<le> int (n - 1)"
      unfolding of_nat_and_eq by (intro AND_upper2) simp
    then show ?thesis by simp
  qed
  then show ?thesis using \<open>0 < n\<close> by (simp add: turn_off_least_1bit_def)
qed

text \<open>For 0, which \<open>rehash\<close> never passes, the loop of the code does not end.\<close>

function pow2_loop :: "nat \<Rightarrow> c_error + nat" where
  "pow2_loop n =
    (if is_power_of_2 n then Inr n else if n = 0 then Inl NoFuel else pow2_loop (turn_off_least_1bit n))"
  by pat_completeness auto
termination by (relation "measure id") (auto simp: turn_off_less)

declare pow2_loop.simps [simp del]

fun init_buckets :: "plist list \<Rightarrow> links \<Rightarrow> links" where
  "init_buckets [] h = h"
| "init_buckets (L # Ls) h = init_buckets Ls (list_init L h)"

fun move_bucket :: "nat \<Rightarrow> hash \<Rightarrow> plist \<Rightarrow> ptr \<Rightarrow> links \<Rightarrow> c_error + links" where
  "move_bucket 0 t old_bucket elem h = Inl NoFuel"
| "move_bucket (Suc fuel) t old_bucket elem h =
    (if elem = list_end old_bucket then Inr h
     else bindE (find_bucket t elem) (\<lambda>new_bucket.
          bindE (list_next h elem) (\<lambda>next.
          bindE (list_remove elem h) (\<lambda>(_, h).
          bindE (list_push_front new_bucket elem h) (\<lambda>h.
            move_bucket fuel t old_bucket next h)))))"

fun move_buckets :: "nat \<Rightarrow> hash \<Rightarrow> plist list \<Rightarrow> links \<Rightarrow> c_error + links" where
  "move_buckets fuel t [] h = Inr h"
| "move_buckets fuel t (old_bucket # Ls) h =
    bindE (move_bucket fuel t old_bucket (list_begin h old_bucket) h) (\<lambda>h. move_buckets fuel t Ls h)"

type_synonym bucket_malloc = "nat \<Rightarrow> plist list option"

definition rehash :: "nat \<Rightarrow> bucket_malloc \<Rightarrow> hash \<Rightarrow> links \<Rightarrow> c_error + (hash \<times> links)" where
  "rehash fuel mb t h =
    (let n = elem_count t div BEST_ELEMS_PER_BUCKET; n = (if n < 4 then 4 else n) in
     bindE (pow2_loop n) (\<lambda>n.
       if n = bucket_cnt t then Inr (t, h)
       else case mb n of
         None \<Rightarrow> Inr (t, h)
       | Some new_buckets \<Rightarrow>
           let h = init_buckets new_buckets h; t' = t\<lparr>buckets := new_buckets, bucket_cnt := n\<rparr>
           in bindE (move_buckets fuel t' (buckets t) h) (\<lambda>h. Inr (t', h))))"

definition insert_elem :: "hash \<Rightarrow> plist \<Rightarrow> ptr \<Rightarrow> links \<Rightarrow> c_error + (hash \<times> links)" where
  "insert_elem t bucket e h =
    bindE (list_push_front bucket e h) (\<lambda>h. Inr (t\<lparr>elem_count := elem_count t + 1\<rparr>, h))"

definition remove_elem :: "hash \<Rightarrow> ptr \<Rightarrow> links \<Rightarrow> c_error + (hash \<times> links)" where
  "remove_elem t e h =
    bindE (list_remove e h) (\<lambda>(_, h). Inr (t\<lparr>elem_count := elem_count t - 1\<rparr>, h))"

definition hash_insert :: "nat \<Rightarrow> bucket_malloc \<Rightarrow> hash \<Rightarrow> ptr \<Rightarrow> links \<Rightarrow> c_error + (ptr \<times> hash \<times> links)" where
  "hash_insert fuel mb t new h =
    bindE (find_bucket t new) (\<lambda>bucket.
    bindE (find_elem fuel t bucket new h) (\<lambda>old.
    bindE (if old = 0 then insert_elem t bucket new h else Inr (t, h)) (\<lambda>(t, h).
    bindE (rehash fuel mb t h) (\<lambda>(t, h). Inr (old, t, h)))))"

definition hash_replace :: "nat \<Rightarrow> bucket_malloc \<Rightarrow> hash \<Rightarrow> ptr \<Rightarrow> links \<Rightarrow> c_error + (ptr \<times> hash \<times> links)" where
  "hash_replace fuel mb t new h =
    bindE (find_bucket t new) (\<lambda>bucket.
    bindE (find_elem fuel t bucket new h) (\<lambda>old.
    bindE (if old \<noteq> 0 then remove_elem t old h else Inr (t, h)) (\<lambda>(t, h).
    bindE (insert_elem t bucket new h) (\<lambda>(t, h).
    bindE (rehash fuel mb t h) (\<lambda>(t, h). Inr (old, t, h))))))"

definition hash_find :: "nat \<Rightarrow> hash \<Rightarrow> ptr \<Rightarrow> links \<Rightarrow> c_error + ptr" where
  "hash_find fuel t e h = bindE (find_bucket t e) (\<lambda>bucket. find_elem fuel t bucket e h)"

definition hash_delete :: "nat \<Rightarrow> bucket_malloc \<Rightarrow> hash \<Rightarrow> ptr \<Rightarrow> links \<Rightarrow> c_error + (ptr \<times> hash \<times> links)" where
  "hash_delete fuel mb t e h =
    bindE (find_bucket t e) (\<lambda>bucket.
    bindE (find_elem fuel t bucket e h) (\<lambda>found.
      if found \<noteq> 0
      then bindE (remove_elem t found h) (\<lambda>(t, h).
           bindE (rehash fuel mb t h) (\<lambda>(t, h). Inr (found, t, h)))
      else Inr (found, t, h)))"

section \<open>Life cycle and iteration\<close>

fun drain_loop :: "nat \<Rightarrow> plist \<Rightarrow> links \<Rightarrow> c_error + (ptr list \<times> links)" where
  "drain_loop 0 bucket h = Inl NoFuel"
| "drain_loop (Suc fuel) bucket h =
    (if list_empty h bucket then Inr ([], h)
     else bindE (list_pop_front bucket h) (\<lambda>(e, h).
          bindE (drain_loop fuel bucket h) (\<lambda>(es, h). Inr (e # es, h))))"

fun clear_loop :: "nat \<Rightarrow> bool \<Rightarrow> plist list \<Rightarrow> links \<Rightarrow> c_error + (ptr list \<times> links)" where
  "clear_loop fuel destructor [] h = Inr ([], h)"
| "clear_loop fuel destructor (bucket # Ls) h =
    bindE (if destructor then drain_loop fuel bucket h else Inr ([], h)) (\<lambda>(es, h).
    bindE (clear_loop fuel destructor Ls (list_init bucket h)) (\<lambda>(es', h). Inr (es @ es', h)))"

definition hash_clear :: "nat \<Rightarrow> bool \<Rightarrow> hash \<Rightarrow> links \<Rightarrow> c_error + (ptr list \<times> hash \<times> links)" where
  "hash_clear fuel destructor t h =
    bindE (clear_loop fuel destructor (buckets t) h) (\<lambda>(es, h). Inr (es, t\<lparr>elem_count := 0\<rparr>, h))"

definition hash_destroy :: "nat \<Rightarrow> bool \<Rightarrow> hash \<Rightarrow> links \<Rightarrow> c_error + (ptr list \<times> hash \<times> links)" where
  "hash_destroy fuel destructor t h =
    (if destructor then hash_clear fuel destructor t h else Inr ([], t, h))"

definition hash_init :: "nat \<Rightarrow> bucket_malloc \<Rightarrow> (ptr \<Rightarrow> word_t) \<Rightarrow> (ptr \<Rightarrow> ptr \<Rightarrow> bool) \<Rightarrow> links \<Rightarrow>
    c_error + (hash \<times> links) option" where
  "hash_init fuel mb hf lf h =
    (case mb 4 of
       Some Ls \<Rightarrow>
         bindE (hash_clear fuel False
             \<lparr>elem_count = 0, bucket_cnt = 4, buckets = Ls, hash_fn = hf, less_fn = lf\<rparr> h) (\<lambda>(_, t, h).
           Inr (Some (t, h)))
     | None \<Rightarrow> Inr None)"

fun apply_loop :: "nat \<Rightarrow> plist \<Rightarrow> ptr \<Rightarrow> links \<Rightarrow> c_error + ptr list" where
  "apply_loop 0 bucket elem h = Inl NoFuel"
| "apply_loop (Suc fuel) bucket elem h =
    (if elem = list_end bucket then Inr []
     else bindE (list_next h elem) (\<lambda>next. bindE (apply_loop fuel bucket next h) (\<lambda>es. Inr (elem # es))))"

fun apply_buckets :: "nat \<Rightarrow> plist list \<Rightarrow> links \<Rightarrow> c_error + ptr list" where
  "apply_buckets fuel [] h = Inr []"
| "apply_buckets fuel (bucket # Ls) h =
    bindE (apply_loop fuel bucket (list_begin h bucket) h) (\<lambda>es.
    bindE (apply_buckets fuel Ls h) (\<lambda>es'. Inr (es @ es')))"

definition hash_apply :: "nat \<Rightarrow> hash \<Rightarrow> links \<Rightarrow> c_error + ptr list" where
  "hash_apply fuel t h = apply_buckets fuel (buckets t) h"

definition hash_first :: "hash \<Rightarrow> c_error + hash_iterator" where
  "hash_first t = bindE (rd (buckets t) 0) (\<lambda>L. Inr \<lparr>ibucket = 0, ielem = list_head L\<rparr>)"

function next_bucket :: "hash \<Rightarrow> links \<Rightarrow> nat \<Rightarrow> ptr \<Rightarrow> c_error + hash_iterator" where
  "next_bucket t h b e =
    bindE (rd (buckets t) b) (\<lambda>L.
      if e = list_end L then
        (if b + 1 \<ge> bucket_cnt t then Inr \<lparr>ibucket = b + 1, ielem = 0\<rparr>
         else bindE (rd (buckets t) (b + 1)) (\<lambda>L. next_bucket t h (b + 1) (list_begin h L)))
      else Inr \<lparr>ibucket = b, ielem = e\<rparr>)"
  by pat_completeness auto
termination by (relation "measure (\<lambda>(t, h, b, e). bucket_cnt t - b)") auto

declare next_bucket.simps [simp del]

definition hash_next :: "hash \<Rightarrow> links \<Rightarrow> hash_iterator \<Rightarrow> c_error + hash_iterator" where
  "hash_next t h i = bindE (list_next h (ielem i)) (\<lambda>e. next_bucket t h (ibucket i) e)"

definition hash_cur :: "hash_iterator \<Rightarrow> ptr" where "hash_cur i = ielem i"
definition hash_size :: "hash \<Rightarrow> nat" where "hash_size t = elem_count t"
definition hash_empty :: "hash \<Rightarrow> bool" where "hash_empty t = (elem_count t = 0)"

section \<open>Hash functions\<close>

definition FNV_32_PRIME :: word_t where "FNV_32_PRIME = 16777619"
definition FNV_32_BASIS :: word_t where "FNV_32_BASIS = 2166136261"

definition fnv_step :: "word_t \<Rightarrow> byte_t \<Rightarrow> word_t" where
  "fnv_step hash b = (hash * FNV_32_PRIME) XOR ucast b"

fun hash_bytes_loop :: "nat \<Rightarrow> mem \<Rightarrow> nat \<Rightarrow> word_t \<Rightarrow> c_error + word_t" where
  "hash_bytes_loop 0 m buf hash = Inr hash"
| "hash_bytes_loop (Suc n) m buf hash = bindE (ld m buf) (\<lambda>b. hash_bytes_loop n m (buf + 1) (fnv_step hash b))"

definition hash_bytes :: "nat \<Rightarrow> nat \<Rightarrow> mem \<Rightarrow> c_error + word_t" where
  "hash_bytes buf n m = bindE (guardE AssertFailed (buf \<noteq> 0)) (\<lambda>_. hash_bytes_loop n m buf FNV_32_BASIS)"

function hash_string_loop :: "mem \<Rightarrow> nat \<Rightarrow> word_t \<Rightarrow> c_error + word_t" where
  "hash_string_loop m s hash =
    bindE (ld m s) (\<lambda>c. if c \<noteq> 0 then hash_string_loop m (s + 1) (fnv_step hash c) else Inr hash)"
  by pat_completeness auto
termination by (relation "measure (\<lambda>(m, s, h). length m - s)") (auto simp: ld_eq_Inr)

declare hash_string_loop.simps [simp del]

definition hash_string :: "nat \<Rightarrow> mem \<Rightarrow> c_error + word_t" where
  "hash_string s m = bindE (guardE AssertFailed (s \<noteq> 0)) (\<lambda>_. hash_string_loop m s FNV_32_BASIS)"

text \<open>\<open>hash_int\<close> hashes the four bytes of its argument.\<close>

definition hash_int :: "int \<Rightarrow> word_t" where
  "hash_int i = foldl fnv_step FNV_32_BASIS (word_bytes (word_of_int i))"

lemma hash_bytes_fold:
  "\<lbrakk>0 < buf; buf + n \<le> length m\<rbrakk> \<Longrightarrow>
    hash_bytes_loop n m buf hash = Inr (foldl fnv_step hash (take n (drop buf m)))"
  by (induction n arbitrary: buf hash) (simp_all add: take_drop_Suc)

lemma hash_string_fold:
  "cstr m s cs \<Longrightarrow> hash_string_loop m s hash = Inr (foldl fnv_step hash cs)"
proof (induction cs arbitrary: s hash)
  case (Cons c cs)
  then show ?case by (simp add: hash_string_loop.simps [of m s])
qed (simp add: hash_string_loop.simps)

text \<open>All three agree on the same bytes.\<close>

lemma hash_functions_agree:
  assumes "cstr m s cs"
  shows "hash_string s m = hash_bytes s (length cs) m"
  using cstr_bounds [OF assms] cstr_pos [OF assms] hash_string_fold [OF assms] cstr_take [OF assms]
  by (simp add: hash_string_def hash_bytes_def hash_bytes_fold)

section \<open>Bucket counts are powers of two\<close>

lemma and_high_bit:
  assumes "2 ^ k < (n :: nat)" "n < 2 ^ Suc k"
  shows "2 ^ k \<le> n AND (n - 1)"
proof -
  have d: "x div 2 ^ k = 1" if "2 ^ k \<le> x" "x < 2 ^ Suc k" for x :: nat
  proof -
    have "1 \<le> x div 2 ^ k" using div_le_mono [OF that(1), of "2 ^ k"] by simp
    moreover have "x div 2 ^ k < 2" using that(2) by (simp add: div_less_iff_less_mult)
    ultimately show ?thesis by linarith
  qed
  have "bit n k" "bit (n - 1) k" using d [of n] d [of "n - 1"] assms by (simp_all add: bit_iff_odd)
  then have "bit (n AND (n - 1)) k" by (simp add: bit_and_iff)
  then have "odd ((n AND (n - 1)) div 2 ^ k)" by (simp add: bit_iff_odd)
  then have "(n AND (n - 1)) div 2 ^ k \<noteq> 0" by (intro notI) simp
  then show ?thesis by (metis div_less not_less)
qed

lemma power_of_2 [simp]: "is_power_of_2 (2 ^ k)"
proof -
  have "(2 :: nat) ^ k - 1 = mask k" by (simp add: mask_eq_exp_minus_1)
  then show ?thesis
    by (simp add: is_power_of_2_def turn_off_least_1bit_def take_bit_eq_mod flip: take_bit_eq_mask)
qed

text \<open>The loop of \<open>rehash\<close> finds the greatest power of two that is not greater than its argument.\<close>

lemma pow2_loop_power:
  "2 ^ k \<le> n \<Longrightarrow> n < 2 ^ Suc k \<Longrightarrow> pow2_loop n = Inr (2 ^ k)"
proof (induction n rule: less_induct)
  case (less n)
  show ?case
  proof (cases "n = 2 ^ k")
    case True
    then show ?thesis by (simp add: pow2_loop.simps [of "2 ^ k"])
  next
    case False
    then have k: "2 ^ k < n" using less.prems(1) by simp
    have "2 ^ k \<le> turn_off_least_1bit n"
      using and_high_bit [OF k less.prems(2)] by (simp add: turn_off_least_1bit_def)
    moreover have "0 < n" using k by simp
    moreover from this have "turn_off_least_1bit n < n" by (rule turn_off_less)
    moreover have "(0 :: nat) < 2 ^ k" by simp
    ultimately have "pow2_loop (turn_off_least_1bit n) = Inr (2 ^ k)" "\<not> is_power_of_2 n" "n \<noteq> 0"
      using less.IH less.prems(2) by (auto simp: is_power_of_2_def)
    then show ?thesis by (simp add: pow2_loop.simps [of n])
  qed
qed

lemma pow2_loop_ok: "0 < n \<Longrightarrow> \<exists>k. pow2_loop n = Inr (2 ^ k) \<and> 2 ^ k \<le> n"
proof -
  assume "0 < n"
  then obtain k where "2 ^ k \<le> n" "n < 2 ^ Suc k" using ex_power_ivl1 [of 2 n] by auto
  then show ?thesis using pow2_loop_power by blast
qed

section \<open>Several lists in one heap\<close>

definition tables :: "links \<Rightarrow> plist list \<Rightarrow> ptr list list \<Rightarrow> bool" where
  "tables h Ls xss \<longleftrightarrow> length xss = length Ls \<and> (\<forall>i < length Ls. dll h (Ls ! i) (xss ! i)) \<and>
     (\<forall>i < length Ls. \<forall>j < length Ls. i \<noteq> j \<longrightarrow> nodes (Ls ! i) (xss ! i) \<inter> nodes (Ls ! j) (xss ! j) = {})"

definition all_nodes :: "plist list \<Rightarrow> ptr list list \<Rightarrow> ptr set" where
  "all_nodes Ls xss = (\<Union>i < length Ls. nodes (Ls ! i) (xss ! i))"

lemma all_nodesI: "i < length Ls \<Longrightarrow> e \<in> nodes (Ls ! i) (xss ! i) \<Longrightarrow> e \<in> all_nodes Ls xss"
  by (auto simp: all_nodes_def)

lemma tables_update:
  assumes "tables h Ls xss" "i < length Ls" "dll h' (Ls ! i) xs"
    and "untouched S h h'" "S \<inter> (all_nodes Ls xss - nodes (Ls ! i) (xss ! i)) = {}"
    and "nodes (Ls ! i) xs \<inter> (all_nodes Ls xss - nodes (Ls ! i) (xss ! i)) = {}"
  shows "tables h' Ls (xss[i := xs])"
proof -
  have other: "nodes (Ls ! j) (xss ! j) \<subseteq> all_nodes Ls xss - nodes (Ls ! i) (xss ! i)"
    if "j < length Ls" "j \<noteq> i" for j
    using assms(1,2) that by (fastforce simp: tables_def all_nodes_def)
  have "dll h' (Ls ! j) (xss[i := xs] ! j)" if j: "j < length Ls" for j
  proof (cases "j = i")
    case False
    have "nodes (Ls ! j) (xss ! j) \<inter> S = {}" using other [OF j False] assms(5) by blast
    moreover have "dll h (Ls ! j) (xss ! j)" using assms(1) j by (simp add: tables_def)
    ultimately show ?thesis using dll_untouched [OF _ assms(4)] False by auto
  qed (use assms(1-3) in \<open>simp add: tables_def\<close>)
  moreover have "nodes (Ls ! j) (xss[i := xs] ! j) \<inter> nodes (Ls ! k) (xss[i := xs] ! k) = {}"
    if jk: "j < length Ls" "k < length Ls" "j \<noteq> k" for j k
  proof -
    consider "j = i" "k \<noteq> i" | "k = i" "j \<noteq> i" | "j \<noteq> i" "k \<noteq> i" using jk(3) by auto
    then show ?thesis
    proof cases
      case 1
      then show ?thesis using other [OF jk(2)] assms(1,2,6) by (auto simp: tables_def)
    next
      case 2
      then show ?thesis using other [OF jk(1)] assms(1,2,6) by (auto simp: tables_def)
    next
      case 3
      then show ?thesis using assms(1) jk by (auto simp: tables_def)
    qed
  qed
  ultimately show ?thesis using assms(1) by (simp add: tables_def)
qed

lemma tables_remove:
  assumes "tables h Ls xss" "i < length Ls" "xss ! i = as @ e # bs"
  shows "\<exists>h'. list_remove e h = Inr (hd (bs @ [ltail (Ls ! i)]), h') \<and> tables h' Ls (xss[i := as @ bs])"
proof -
  have "dll h (Ls ! i) (as @ e # bs)" using assms by (auto simp: tables_def)
  then obtain h' where h': "list_remove e h = Inr (hd (bs @ [ltail (Ls ! i)]), h')" "dll h' (Ls ! i) (as @ bs)"
    "untouched (nodes (Ls ! i) (as @ bs)) h h'"
    using list_remove_dll [of h "Ls ! i" as e bs] by (fastforce simp: untouched_def nodes_def)
  have "tables h' Ls (xss[i := as @ bs])"
    by (rule tables_update [OF assms(1,2) h'(2,3)]) (use assms(3) in \<open>auto simp: nodes_def\<close>)
  then show ?thesis using h'(1) by blast
qed

lemma tables_push:
  assumes "tables h Ls xss" "i < length Ls" "e \<notin> all_nodes Ls xss" "e \<noteq> 0"
  shows "\<exists>h'. list_push_front (Ls ! i) e h = Inr h' \<and> tables h' Ls (xss[i := e # xss ! i])"
proof -
  have d: "dll h (Ls ! i) (xss ! i)" using assms(1,2) by (simp add: tables_def)
  have e: "e \<notin> nodes (Ls ! i) (xss ! i)" using assms(2,3) all_nodesI by blast
  obtain h' where h': "list_push_front (Ls ! i) e h = Inr h'" "dll h' (Ls ! i) (e # xss ! i)"
    "untouched (insert e (nodes (Ls ! i) (xss ! i))) h h'"
    using list_insert_dll [of h "Ls ! i" "[]" "xss ! i" e] d e assms(4) dll_begin [OF d]
    by (fastforce simp: list_push_front_def untouched_def nodes_def)
  have "tables h' Ls (xss[i := e # xss ! i])"
    by (rule tables_update [OF assms(1,2) h'(2,3)]) (use assms(3) in \<open>auto simp: nodes_def\<close>)
  then show ?thesis using h'(1) by blast
qed

lemma tables_next:
  assumes "tables h Ls xss" "i < length Ls" "xss ! i = as @ e # bs"
  shows "list_next h e = Inr (hd (bs @ [ltail (Ls ! i)]))" "e \<noteq> ltail (Ls ! i)" "e \<noteq> 0"
    "e \<in> all_nodes Ls xss"
proof -
  have d: "dll h (Ls ! i) (as @ e # bs)" using assms by (auto simp: tables_def)
  show "list_next h e = Inr (hd (bs @ [ltail (Ls ! i)]))" using dll_next d by blast
  show "e \<noteq> ltail (Ls ! i)" "e \<noteq> 0" using d by (auto simp: dll_def)
  show "e \<in> all_nodes Ls xss" using assms(2,3) by (auto simp: all_nodes_def nodes_def intro!: bexI [of _ i])
qed

lemma tables_begin:
  "tables h Ls xss \<Longrightarrow> i < length Ls \<Longrightarrow> list_begin h (Ls ! i) = hd (xss ! i @ [ltail (Ls ! i)])"
  by (auto simp: tables_def intro: dll_begin)

text \<open>Moving the first element of one list to the front of another.\<close>

lemma tables_move:
  assumes "tables h Ls xss" "i < length Ls" "j < length Ls" "i \<noteq> j" "xss ! i = e # bs"
  shows "\<exists>r h1 h2. list_remove e h = Inr (r, h1) \<and> list_push_front (Ls ! j) e h1 = Inr h2 \<and>
    tables h2 Ls (xss[i := bs, j := e # xss ! j])"
proof -
  have len: "length xss = length Ls" using assms(1) by (simp add: tables_def)
  obtain r h1 where h1: "list_remove e h = Inr (r, h1)" "tables h1 Ls (xss[i := bs])"
    using tables_remove [OF assms(1,2), of "[]" e bs] assms(5) by auto
  have d: "dll h (Ls ! i) (e # bs)" using assms(1,2,5) by (auto simp: tables_def)
  then have e: "e \<notin> nodes (Ls ! i) bs" "e \<noteq> 0" by (auto simp: dll_def nodes_def)
  have "e \<notin> nodes (Ls ! k) (xss ! k)" if "k < length Ls" "k \<noteq> i" for k
    using assms(1,2,5) that by (fastforce simp: tables_def)
  with e(1) have "e \<notin> all_nodes Ls (xss[i := bs])"
    using assms(2) len by (auto simp: all_nodes_def nth_list_update split: if_splits)
  then obtain h2 where "list_push_front (Ls ! j) e h1 = Inr h2" "tables h2 Ls (xss[i := bs, j := e # xss ! j])"
    using tables_push [OF h1(2) assms(3) _ e(2)] assms(4) by auto
  then show ?thesis using h1(1) by blast
qed

section \<open>Rehashing\<close>

text \<open>The lists a table has after \<open>es\<close> were pushed, in this order, to their buckets.\<close>

fun spread :: "(ptr \<Rightarrow> nat) \<Rightarrow> ptr list \<Rightarrow> ptr list list \<Rightarrow> ptr list list" where
  "spread idx [] yss = yss"
| "spread idx (e # es) yss = spread idx es (yss[idx e := e # yss ! idx e])"

lemma length_spread [simp]: "length (spread idx es yss) = length yss"
  by (induction es arbitrary: yss) auto

lemma spread_append: "spread idx (xs @ ys) yss = spread idx ys (spread idx xs yss)"
  by (induction xs arbitrary: yss) auto

lemma concat_update:
  "i < length yss \<Longrightarrow> mset (concat (yss[i := e # yss ! i])) = add_mset e (mset (concat yss))"
proof (induction yss arbitrary: i)
  case (Cons ys yss)
  then show ?case by (cases i) auto
qed simp

lemma mset_spread:
  "\<forall>e \<in> set es. idx e < length yss \<Longrightarrow> mset (concat (spread idx es yss)) = mset es + mset (concat yss)"
  by (induction es arbitrary: yss) (auto simp: concat_update)

lemma spread_slot:
  "e \<in> set (spread idx es yss ! j) \<Longrightarrow> j < length yss \<Longrightarrow> e \<in> set (yss ! j) \<or> idx e = j"
proof (induction es arbitrary: yss)
  case (Cons x es)
  then have "e \<in> set (yss[idx x := x # yss ! idx x] ! j) \<or> idx e = j" by simp
  then show ?case
    using Cons.prems(2) by (cases "idx x < length yss") (auto simp: nth_list_update split: if_splits)
qed simp

definition slot :: "hash \<Rightarrow> ptr \<Rightarrow> nat" where
  "slot t e = unat (hash_fn t e) AND (bucket_cnt t - 1)"

definition shape :: "hash \<Rightarrow> bool" where
  "shape t \<longleftrightarrow> bucket_cnt t = length (buckets t) \<and> (\<exists>k. bucket_cnt t = 2 ^ k)"

lemma slot_less:
  assumes "shape t"
  shows "slot t e < length (buckets t)"
proof -
  obtain k where k: "bucket_cnt t = 2 ^ k" "length (buckets t) = 2 ^ k"
    using assms unfolding shape_def by metis
  have "(2 :: nat) ^ k - 1 = mask k" by (simp add: mask_eq_exp_minus_1)
  then show ?thesis using k by (simp add: slot_def take_bit_eq_mod flip: take_bit_eq_mask)
qed

lemma find_bucket_slot: "shape t \<Longrightarrow> find_bucket t e = Inr (buckets t ! slot t e)"
  using slot_less [of t e] by (simp add: find_bucket_def slot_def)

lemma move_bucket_spread:
  assumes "shape t" "new = buckets t" "i < length old" "length oss = length old"
  shows "\<lbrakk>tables h (old @ new) (oss @ yss); oss ! i = es; length es < fuel\<rbrakk> \<Longrightarrow>
    \<exists>h'. move_bucket fuel t (old ! i) (hd (es @ [ltail (old ! i)])) h = Inr h' \<and>
      tables h' (old @ new) (oss[i := []] @ spread (slot t) es yss)"
  using assms(4)
proof (induction fuel arbitrary: h oss yss es)
  case (Suc fuel)
  have len: "length yss = length new" using Suc.prems(1,4) by (simp add: tables_def)
  show ?case
  proof (cases es)
    case Nil
    then have "oss[i := []] = oss" using Suc.prems(2) by (simp add: list_update_same_conv assms(3) Suc.prems(4))
    then show ?thesis using Nil Suc.prems(1) by (simp add: list_end_def)
  next
    case (Cons e bs)
    let ?j = "length old + slot t e"
    have i: "i < length (old @ new)" "(old @ new) ! i = old ! i" "(oss @ yss) ! i = e # bs"
      using assms(3) Suc.prems(2,4) Cons by (simp_all add: nth_append)
    have s: "slot t e < length new" using slot_less [OF assms(1)] assms(2) by simp
    have j: "?j < length (old @ new)" "(old @ new) ! ?j = new ! slot t e" "i \<noteq> ?j"
      "(oss @ yss) ! ?j = yss ! slot t e"
      using s assms(3) Suc.prems(4) by (simp_all add: nth_append)
    obtain r h1 h2 where m: "list_remove e h = Inr (r, h1)" "list_push_front (new ! slot t e) e h1 = Inr h2"
      "tables h2 (old @ new) ((oss @ yss)[i := bs, ?j := e # yss ! slot t e])"
      using tables_move [OF Suc.prems(1) i(1) j(1,3) i(3)] j(2,4) by auto
    have upd: "(oss @ yss)[i := bs, ?j := e # yss ! slot t e] =
        oss[i := bs] @ yss[slot t e := e # yss ! slot t e]"
      using assms(3) Suc.prems(4) by (simp add: list_update_append)
    note n = tables_next [OF Suc.prems(1) i(1), of "[]" e bs, unfolded i(2,3), simplified]
    have "\<exists>h'. move_bucket fuel t (old ! i) (hd (bs @ [ltail (old ! i)])) h2 = Inr h' \<and>
        tables h' (old @ new) (oss[i := bs, i := []] @ spread (slot t) bs (yss[slot t e := e # yss ! slot t e]))"
      by (rule Suc.IH) (use m(3) upd Suc.prems Cons assms(3) in auto)
    then obtain h' where "move_bucket fuel t (old ! i) (hd (bs @ [ltail (old ! i)])) h2 = Inr h'"
      "tables h' (old @ new) (oss[i := []] @ spread (slot t) es yss)"
      using Cons by auto
    moreover have "move_bucket (Suc fuel) t (old ! i) (hd (es @ [ltail (old ! i)])) h =
        move_bucket fuel t (old ! i) (hd (bs @ [ltail (old ! i)])) h2"
      using n(1,2) m(1,2) find_bucket_slot [OF assms(1)] assms(2) by (simp add: Cons list_end_def)
    ultimately show ?thesis by auto
  qed
qed simp

lemma move_buckets_spread:
  assumes "shape t" "new = buckets t" "k \<le> length old"
    and "tables h (old @ new) (oss @ yss)" "length oss = length old"
    and "\<forall>i < k. oss ! i = []" "\<forall>xs \<in> set oss. length xs < fuel"
  shows "\<exists>h'. move_buckets fuel t (drop k old) h = Inr h' \<and>
    tables h' (old @ new) (replicate (length old) [] @ spread (slot t) (concat (drop k oss)) yss)"
  using assms(3-)
proof (induction "length old - k" arbitrary: k h oss yss)
  case 0
  then have "oss = replicate (length old) []" by (intro nth_equalityI) auto
  then show ?case using 0 by simp
next
  case (Suc d)
  then have k: "k < length old" by simp
  have "oss ! k \<in> set oss" using k Suc.prems(3) by simp
  then have "length (oss ! k) < fuel" using Suc.prems(5) by blast
  then obtain h1 where h1: "move_bucket fuel t (old ! k) (hd (oss ! k @ [ltail (old ! k)])) h = Inr h1"
    "tables h1 (old @ new) (oss[k := []] @ spread (slot t) (oss ! k) yss)"
    using move_bucket_spread [OF assms(1,2) k Suc.prems(3,2) refl] by blast
  have "\<forall>xs \<in> set (oss[k := []]). length xs < fuel"
    using Suc.prems(5) \<open>length (oss ! k) < fuel\<close> by (fastforce dest: set_update_subset_insert [THEN subsetD])
  moreover have "\<forall>i < Suc k. oss[k := []] ! i = []"
    using Suc.prems(3,4) k by (auto simp: nth_list_update less_Suc_eq)
  moreover have "d = length old - Suc k" using Suc.hyps(2) k by simp
  ultimately have "\<exists>h'. move_buckets fuel t (drop (Suc k) old) h1 = Inr h' \<and>
    tables h' (old @ new) (replicate (length old) [] @
       spread (slot t) (concat (drop (Suc k) (oss[k := []]))) (spread (slot t) (oss ! k) yss))"
    by (intro Suc.hyps(1)) (use h1(2) Suc.prems(3) k in simp_all)
  then obtain h' where h': "move_buckets fuel t (drop (Suc k) old) h1 = Inr h'"
    "tables h' (old @ new) (replicate (length old) [] @
       spread (slot t) (concat (drop (Suc k) oss)) (spread (slot t) (oss ! k) yss))"
    by auto
  have "list_begin h (old ! k) = hd (oss ! k @ [ltail (old ! k)])"
    using tables_begin [OF Suc.prems(2), of k] k Suc.prems(3) by (simp add: nth_append)
  moreover have "drop k old = old ! k # drop (Suc k) old" "drop k oss = oss ! k # drop (Suc k) oss"
    using k Suc.prems(3) by (simp_all add: Cons_nth_drop_Suc)
  ultimately show ?case using h1(1) h' by (simp add: spread_append)
qed

text \<open>Fresh storage for list headers.\<close>

fun fresh_lists :: "ptr set \<Rightarrow> plist list \<Rightarrow> bool" where
  "fresh_lists S [] \<longleftrightarrow> True"
| "fresh_lists S (L # Ls) \<longleftrightarrow> lhead L \<noteq> ltail L \<and> lhead L \<noteq> 0 \<and> ltail L \<noteq> 0 \<and>
     lhead L \<notin> S \<and> ltail L \<notin> S \<and> fresh_lists (insert (lhead L) (insert (ltail L) S)) Ls"

lemma tables_snoc:
  assumes "tables h Ls xss" "lhead L \<noteq> ltail L" "lhead L \<noteq> 0" "ltail L \<noteq> 0"
    and "lhead L \<notin> all_nodes Ls xss" "ltail L \<notin> all_nodes Ls xss"
  shows "tables (list_init L h) (Ls @ [L]) (xss @ [[]])"
    "all_nodes (Ls @ [L]) (xss @ [[]]) = insert (lhead L) (insert (ltail L) (all_nodes Ls xss))"
proof -
  have len: "length xss = length Ls" using assms(1) by (simp add: tables_def)
  have fr: "lhead L \<notin> nodes (Ls ! i) (xss ! i)" "ltail L \<notin> nodes (Ls ! i) (xss ! i)" if "i < length Ls" for i
    using assms(5,6) that by (auto simp: all_nodes_def)
  have "untouched {lhead L, ltail L} h (list_init L h)" by (auto simp: untouched_def list_init_def)
  then have "dll (list_init L h) (Ls ! i) (xss ! i)" if "i < length Ls" for i
    using dll_untouched [of h "Ls ! i" "xss ! i"] fr [OF that] assms(1) that by (auto simp: tables_def)
  moreover have "nodes L [] = {lhead L, ltail L}" by (auto simp: nodes_def)
  ultimately show "tables (list_init L h) (Ls @ [L]) (xss @ [[]])"
    using assms(1) len fr list_init_dll [OF assms(2-4)]
    by (auto simp: tables_def nth_append less_Suc_eq)
  show "all_nodes (Ls @ [L]) (xss @ [[]]) = insert (lhead L) (insert (ltail L) (all_nodes Ls xss))"
    using len by (auto simp: all_nodes_def nth_append less_Suc_eq nodes_def split: if_splits)
qed

lemma init_buckets_tables:
  "\<lbrakk>tables h Ls xss; fresh_lists (all_nodes Ls xss) new\<rbrakk> \<Longrightarrow>
    tables (init_buckets new h) (Ls @ new) (xss @ replicate (length new) [])"
proof (induction new arbitrary: h Ls xss)
  case (Cons L new)
  then have "tables (list_init L h) (Ls @ [L]) (xss @ [[]])"
    "fresh_lists (all_nodes (Ls @ [L]) (xss @ [[]])) new"
    using tables_snoc [OF Cons.prems(1), of L] by simp_all
  from Cons.IH [OF this] show ?case by simp
qed simp

lemma tables_suffix:
  assumes "tables h (Ls @ Ms) (xss @ yss)" "length xss = length Ls"
  shows "tables h Ms yss"
proof -
  have e: "(xss @ yss) ! (length Ls + k) = yss ! k" for k by (simp add: nth_append assms(2))
  have "dll h (Ms ! i) (yss ! i)" if "i < length Ms" for i
    using assms(1) that e [of i] unfolding tables_def
    by (metis length_append nat_add_left_cancel_less nth_append_length_plus)
  moreover have "nodes (Ms ! i) (yss ! i) \<inter> nodes (Ms ! j) (yss ! j) = {}"
    if "i < length Ms" "j < length Ms" "i \<noteq> j" for i j
    using assms(1) that e [of i] e [of j] unfolding tables_def
    by (metis add_left_cancel length_append nat_add_left_cancel_less nth_append_length_plus)
  ultimately show ?thesis using assms by (simp add: tables_def)
qed

text \<open>The addresses a table uses: its elements and the ends of its lists.\<close>

definition footprint :: "hash \<Rightarrow> ptr set \<Rightarrow> ptr set" where
  "footprint t S = S \<union> lhead ` set (buckets t) \<union> ltail ` set (buckets t)"

lemma all_nodes_footprint:
  assumes "length xss = length (buckets t)"
  shows "all_nodes (buckets t) xss = footprint t (set (concat xss))"
proof -
  have i: "f ` set zs = (\<lambda>i. f (zs ! i)) ` {..<length zs}" for f :: "'x \<Rightarrow> 'y" and zs
    by (auto simp: set_conv_nth)
  have "(\<Union>i < length xss. set (xss ! i)) = set (concat xss)" using i [of set xss] by simp
  moreover have "lhead ` set Ls = (\<Union>i < length Ls. {lhead (Ls ! i)})"
    "ltail ` set Ls = (\<Union>i < length Ls. {ltail (Ls ! i)})" for Ls :: "plist list"
    using i [of lhead Ls] i [of ltail Ls] by auto
  ultimately show ?thesis unfolding all_nodes_def footprint_def nodes_def using assms by auto
qed

text \<open>The table as the set of its elements.\<close>

definition placed :: "hash \<Rightarrow> ptr list list \<Rightarrow> bool" where
  "placed t xss \<longleftrightarrow> (\<forall>i < length xss. \<forall>e \<in> set (xss ! i). slot t e = i)"

definition hash_lists :: "links \<Rightarrow> hash \<Rightarrow> ptr list list \<Rightarrow> bool" where
  "hash_lists h t xss \<longleftrightarrow> shape t \<and> tables h (buckets t) xss \<and> elem_count t = length (concat xss) \<and> placed t xss"

definition mallocs :: "bucket_malloc \<Rightarrow> ptr set \<Rightarrow> bool" where
  "mallocs mb S \<longleftrightarrow> (\<forall>n Ls. mb n = Some Ls \<longrightarrow> length Ls = n \<and> fresh_lists S Ls)"

lemma bucket_fits: "xs \<in> set xss \<Longrightarrow> length xs \<le> length (concat xss)"
  by (auto simp: length_concat intro: member_le_sum_list)

lemma rehash_lists:
  assumes "hash_lists h t xss" "elem_count t < fuel" "mallocs mb (footprint t (set (concat xss)))"
  shows "\<exists>t' h' xss'. rehash fuel mb t h = Inr (t', h') \<and> hash_lists h' t' xss' \<and>
    mset (concat xss') = mset (concat xss) \<and> hash_fn t' = hash_fn t \<and> less_fn t' = less_fn t"
proof -
  let ?n = "if elem_count t div 2 < 4 then 4 else elem_count t div 2"
  have T: "shape t" "tables h (buckets t) xss" "elem_count t = length (concat xss)" "placed t xss"
    using assms(1) by (simp_all add: hash_lists_def)
  have len: "length xss = length (buckets t)" using T(2) by (simp add: tables_def)
  have "0 < ?n" by simp
  from pow2_loop_ok [OF this] obtain k where k: "pow2_loop ?n = Inr (2 ^ k)" by blast
  note rehash = rehash_def [of fuel mb t h, unfolded Let_def BEST_ELEMS_PER_BUCKET_def, unfolded k, simplified]
  consider "2 ^ k = bucket_cnt t \<or> mb (2 ^ k) = None" | Ls where "2 ^ k \<noteq> bucket_cnt t" "mb (2 ^ k) = Some Ls"
    by auto
  then show ?thesis
  proof cases
    case 1
    then show ?thesis using rehash assms(1) by auto
  next
    case (2 Ls)
    define t' where "t' = t\<lparr>buckets := Ls, bucket_cnt := 2 ^ k\<rparr>"
    have L: "length Ls = 2 ^ k" "fresh_lists (all_nodes (buckets t) xss) Ls"
      using 2(2) assms(3) all_nodes_footprint [OF len] by (auto simp: mallocs_def)
    have t': "shape t'" "buckets t' = Ls" "bucket_cnt t' = 2 ^ k" using L(1) by (auto simp: t'_def shape_def)
    have small: "\<forall>xs \<in> set xss. length xs < fuel"
      using assms(2) T(3) by (auto dest!: bucket_fits)
    let ?yss = "spread (slot t') (concat xss) (replicate (length Ls) [])"
    obtain h' where h': "move_buckets fuel t' (buckets t) (init_buckets Ls h) = Inr h'"
      "tables h' (buckets t @ Ls) (replicate (length (buckets t)) [] @ ?yss)"
      using move_buckets_spread [OF t'(1) t'(2) [symmetric], of 0 "buckets t" "init_buckets Ls h" xss
          "replicate (length Ls) []" fuel] init_buckets_tables [OF T(2) L(2)] len small by auto
    have in_range: "\<forall>e \<in> set (concat xss). slot t' e < length (replicate (length Ls) ([] :: ptr list))"
      using slot_less [OF t'(1)] t'(2) by simp
    have ms: "mset (concat ?yss) = mset (concat xss)" using mset_spread [OF in_range] by simp
    have "hash_lists h' t' ?yss"
      unfolding hash_lists_def
    proof (intro conjI)
      show "tables h' (buckets t') ?yss" using tables_suffix [OF h'(2)] t'(2) by simp
      show "elem_count t' = length (concat ?yss)"
        using T(3) mset_eq_length [OF ms] by (simp add: t'_def)
      show "placed t' ?yss" unfolding placed_def by (auto dest: spread_slot)
    qed (rule t'(1))
    moreover have "rehash fuel mb t h = Inr (t', h')"
      using rehash 2 h'(1) by (simp add: t'_def)
    ultimately show ?thesis using ms by (auto simp: t'_def)
  qed
qed

section \<open>Finding an element\<close>

text \<open>
  What the code relies on in a comparison function and a hash function: neither being less is an
  equivalence, and equal elements have the same hash. The lemmas of the interface say what a search
  of the one bucket it looks at finds.
\<close>

definition same :: "(ptr \<Rightarrow> ptr \<Rightarrow> bool) \<Rightarrow> ptr \<Rightarrow> ptr \<Rightarrow> bool" where
  "same lf a b \<longleftrightarrow> \<not> lf a b \<and> \<not> lf b a"

locale hash_contract =
  fixes hf :: "ptr \<Rightarrow> word_t" and lf :: "ptr \<Rightarrow> ptr \<Rightarrow> bool"
  assumes irreflexive: "\<not> lf a a"
    and same_trans: "\<lbrakk>same lf a b; same lf b c\<rbrakk> \<Longrightarrow> same lf a c"
    and same_hash: "same lf a b \<Longrightarrow> hf a = hf b"
begin

lemma same_refl: "same lf a a"
  by (simp add: same_def irreflexive)

lemma same_sym: "same lf a b \<longleftrightarrow> same lf b a"
  by (auto simp: same_def)

lemma same_slot:
  assumes "hash_fn t = hf" "same lf a b"
  shows "slot t a = slot t b"
  using same_hash [OF assms(2)] by (simp add: slot_def assms(1))

end

text \<open>The functions of a table whose elements carry an integer, hashed with \<open>hash_int\<close>.\<close>

interpretation int_keys: hash_contract "\<lambda>e. hash_int (val e)" "\<lambda>a b. val a < val b" for val :: "ptr \<Rightarrow> int"
  by unfold_locales (auto simp: same_def)

lemma find_loop_finds:
  assumes "tables h Ls xss" "i < length Ls" "length bs < fuel" "xss ! i = as @ bs"
  shows "find_loop fuel h t (Ls ! i) e (hd (bs @ [ltail (Ls ! i)])) =
    Inr (case List.find (\<lambda>x. same (less_fn t) x e) bs of Some x \<Rightarrow> x | None \<Rightarrow> 0)"
  using assms(3,4)
proof (induction fuel arbitrary: as bs)
  case (Suc fuel)
  show ?case
  proof (cases bs)
    case (Cons x bs')
    note n = tables_next [OF assms(1,2), of as x bs'] Suc.prems(2) Cons
    show ?thesis
    proof (cases "same (less_fn t) x e")
      case False
      have "find_loop fuel h t (Ls ! i) e (hd (bs' @ [ltail (Ls ! i)])) =
          Inr (case List.find (\<lambda>x. same (less_fn t) x e) bs' of Some x \<Rightarrow> x | None \<Rightarrow> 0)"
        by (rule Suc.IH [of _ "as @ [x]"]) (use Suc.prems Cons in simp_all)
      moreover have "\<not> (\<not> less_fn t x e \<and> \<not> less_fn t e x)" using False by (simp add: same_def)
      ultimately show ?thesis using False n by (auto simp: list_end_def)
    qed (use n in \<open>auto simp: list_end_def same_def\<close>)
  qed (simp add: list_end_def)
qed simp

lemma find_elem_lists:
  assumes "hash_lists h t xss" "elem_count t < fuel"
  shows "find_elem fuel t (buckets t ! slot t e) e h =
    Inr (case List.find (\<lambda>x. same (less_fn t) x e) (xss ! slot t e) of Some x \<Rightarrow> x | None \<Rightarrow> 0)"
proof -
  have T: "shape t" "tables h (buckets t) xss" "elem_count t = length (concat xss)"
    using assms(1) by (simp_all add: hash_lists_def)
  note s = slot_less [OF T(1), of e]
  have "xss ! slot t e \<in> set xss" using s T(2) by (simp add: tables_def)
  then have "length (xss ! slot t e) \<le> length (concat xss)" by (rule bucket_fits)
  then show ?thesis
    using find_loop_finds [OF T(2) s, of "xss ! slot t e" fuel "[]"] tables_begin [OF T(2) s] assms(2) T(3)
    by (simp add: find_elem_def)
qed

text \<open>The table as a set: distinct elements, no two of them equal under the comparison.\<close>

definition hash_rep :: "links \<Rightarrow> hash \<Rightarrow> ptr set \<Rightarrow> bool" where
  "hash_rep h t S \<longleftrightarrow> (\<exists>xss. hash_lists h t xss \<and> S = set (concat xss)) \<and>
     card S = elem_count t \<and> (\<forall>a \<in> S. \<forall>b \<in> S. a \<noteq> b \<longrightarrow> \<not> same (less_fn t) a b)"

text \<open>What a search answers: the element equal to \<open>e\<close>, or NULL when there is none.\<close>

definition found :: "hash \<Rightarrow> ptr set \<Rightarrow> ptr \<Rightarrow> ptr \<Rightarrow> bool" where
  "found t S e r \<longleftrightarrow> (if \<exists>x \<in> S. same (less_fn t) x e then r \<in> S \<and> same (less_fn t) r e else r = 0)"

lemma hash_rep_nonnull: "hash_rep h t S \<Longrightarrow> 0 \<notin> S"
  by (fastforce simp: hash_rep_def hash_lists_def tables_def dll_def in_set_conv_nth)

lemma hash_rep_distinct: "hash_lists h t xss \<Longrightarrow> card (set (concat xss)) = elem_count t \<longleftrightarrow> distinct (concat xss)"
  using card_distinct [of "concat xss"] distinct_card [of "concat xss"] by (auto simp: hash_lists_def)

lemma mem_concat: "e \<in> set (concat xss) \<longleftrightarrow> (\<exists>i < length xss. e \<in> set (xss ! i))"
  by (metis UN_iff in_set_conv_nth set_concat)

context hash_contract begin

lemma find_found:
  assumes "hash_rep h t S" "hash_fn t = hf" "less_fn t = lf" "elem_count t < fuel"
  shows "\<exists>r. find_elem fuel t (buckets t ! slot t e) e h = Inr r \<and> found t S e r"
proof -
  obtain xss where x: "hash_lists h t xss" "S = set (concat xss)" using assms(1) by (auto simp: hash_rep_def)
  have T: "shape t" "length xss = length (buckets t)" "placed t xss"
    using x(1) by (auto simp: hash_lists_def tables_def)
  note s = slot_less [OF T(1), of e]
  have sub: "set (xss ! slot t e) \<subseteq> S" using s T(2) by (auto simp: x(2) mem_concat simp del: set_concat)
  have all: "y \<in> set (xss ! slot t e)" if y: "y \<in> S" "same lf y e" for y
  proof -
    from y(1) obtain i where "i < length xss" "y \<in> set (xss ! i)" by (auto simp: x(2) mem_concat simp del: set_concat)
    moreover from this have "slot t y = i" using T(3) by (auto simp: placed_def)
    ultimately show ?thesis using same_slot [OF assms(2) y(2)] by simp
  qed
  show ?thesis
  proof (cases "List.find (\<lambda>y. same lf y e) (xss ! slot t e)")
    case None
    then have "\<not> (\<exists>y \<in> S. same lf y e)" using all by (auto simp: find_None_iff)
    then show ?thesis using find_elem_lists [OF x(1) assms(4), of e] None assms(3) by (auto simp: found_def)
  next
    case (Some r)
    then have "r \<in> S" "same lf r e" using sub by (auto simp: find_Some_iff)
    then show ?thesis using find_elem_lists [OF x(1) assms(4), of e] Some assms(3) by (auto simp: found_def)
  qed
qed

end

lemma footprint_update [simp]:
  "footprint (t\<lparr>elem_count := n\<rparr>) S = footprint t S"
  "footprint t (insert e S) = insert e (footprint t S)"
  by (simp_all add: footprint_def)

lemma slot_count [simp]: "slot (t\<lparr>elem_count := n\<rparr>) e = slot t e" "shape (t\<lparr>elem_count := n\<rparr>) = shape t"
  by (simp_all add: slot_def shape_def)

lemma hash_rep_shape: "hash_rep h t S \<Longrightarrow> shape t"
  by (auto simp: hash_rep_def hash_lists_def)

lemma insert_elem_rep:
  assumes "hash_rep h t S" "new \<notin> footprint t S" "new \<noteq> 0"
    and "\<forall>x \<in> S. \<not> same (less_fn t) x new"
  shows "\<exists>h'. insert_elem t (buckets t ! slot t new) new h = Inr (t\<lparr>elem_count := elem_count t + 1\<rparr>, h') \<and>
    hash_rep h' (t\<lparr>elem_count := elem_count t + 1\<rparr>) (insert new S)"
proof -
  obtain xss where x: "hash_lists h t xss" "S = set (concat xss)" "card S = elem_count t"
    using assms(1) by (auto simp: hash_rep_def)
  have T: "shape t" "tables h (buckets t) xss" "elem_count t = length (concat xss)" "placed t xss"
    using x(1) by (auto simp: hash_lists_def)
  have len: "length xss = length (buckets t)" using T(2) by (simp add: tables_def)
  note s = slot_less [OF T(1), of new]
  have "new \<notin> all_nodes (buckets t) xss" using all_nodes_footprint [OF len] assms(2) x(2) by simp
  from tables_push [OF T(2) s this assms(3)] obtain h' where
    h': "list_push_front (buckets t ! slot t new) new h = Inr h'"
      "tables h' (buckets t) (xss[slot t new := new # xss ! slot t new])"
    by blast
  let ?t = "t\<lparr>elem_count := elem_count t + 1\<rparr>" and ?xss = "xss[slot t new := new # xss ! slot t new]"
  have ms: "mset (concat ?xss) = add_mset new (mset (concat xss))" using s len by (intro concat_update) simp
  have st: "set (concat ?xss) = insert new S" using arg_cong [OF ms, of set_mset] by (simp add: x(2))
  have "length (concat ?xss) = elem_count t + 1" using arg_cong [OF ms, of size] T(3) by simp
  moreover have "placed ?t ?xss"
    using T(4) s len by (auto simp: placed_def nth_list_update)
  ultimately have l: "hash_lists h' ?t ?xss" using T(1) h'(2) by (simp add: hash_lists_def)
  have "new \<notin> S" "finite S" using assms(2) x(2) by (auto simp: footprint_def)
  then have "card (insert new S) = elem_count ?t" using x(3) by simp
  moreover have "\<forall>a \<in> insert new S. \<forall>b \<in> insert new S. a \<noteq> b \<longrightarrow> \<not> same (less_fn t) a b"
    using assms(1,4) by (auto simp: hash_rep_def same_def)
  ultimately have "hash_rep h' ?t (insert new S)" using l st unfolding hash_rep_def by auto
  then show ?thesis using h'(1) by (simp add: insert_elem_def)
qed

lemma remove_elem_rep:
  assumes "hash_rep h t S" "e \<in> S"
  shows "\<exists>h'. remove_elem t e h = Inr (t\<lparr>elem_count := elem_count t - 1\<rparr>, h') \<and>
    hash_rep h' (t\<lparr>elem_count := elem_count t - 1\<rparr>) (S - {e})"
proof -
  obtain xss where x: "hash_lists h t xss" "S = set (concat xss)" "card S = elem_count t"
    using assms(1) by (auto simp: hash_rep_def)
  have T: "shape t" "tables h (buckets t) xss" "elem_count t = length (concat xss)" "placed t xss"
    using x(1) by (auto simp: hash_lists_def)
  have len: "length xss = length (buckets t)" using T(2) by (simp add: tables_def)
  from assms(2) obtain i where i: "i < length xss" "e \<in> set (xss ! i)" by (auto simp: x(2) mem_concat simp del: set_concat)
  then obtain as bs where ab: "xss ! i = as @ e # bs" by (meson split_list)
  obtain r h' where h': "list_remove e h = Inr (r, h')" "tables h' (buckets t) (xss[i := as @ bs])"
    using tables_remove [OF T(2) _ ab] i(1) len by auto
  let ?t = "t\<lparr>elem_count := elem_count t - 1\<rparr>" and ?xss = "xss[i := as @ bs]"
  have "xss = take i xss @ (as @ e # bs) # drop (Suc i) xss" using i(1) ab by (metis id_take_nth_drop)
  then have "mset (concat xss) = mset (concat (take i xss @ (as @ e # bs) # drop (Suc i) xss))" by simp
  moreover have "?xss = take i xss @ (as @ bs) # drop (Suc i) xss" using i(1) by (simp add: upd_conv_take_nth_drop)
  ultimately have ms: "mset (concat xss) = add_mset e (mset (concat ?xss))" by simp
  have d: "distinct (concat xss)" using hash_rep_distinct [OF x(1)] x(2,3) by simp
  then have "e \<notin> set (concat ?xss)"
    using mset_eq_imp_distinct_iff [of "concat xss" "e # concat ?xss"] ms by simp
  then have st: "set (concat ?xss) = S - {e}"
    using arg_cong [OF ms, of set_mset] by (auto simp: x(2))
  have "length (concat ?xss) = elem_count t - 1" using arg_cong [OF ms, of size] T(3) by simp
  moreover have "placed ?t ?xss"
    using T(4) i(1) ab by (auto simp: placed_def nth_list_update)
  ultimately have l: "hash_lists h' ?t ?xss" using T(1) h'(2) by (simp add: hash_lists_def)
  have "card (S - {e}) = elem_count ?t" using x(2,3) assms(2) by (simp add: card_Diff_singleton)
  moreover have "\<exists>xss. hash_lists h' ?t xss \<and> S - {e} = set (concat xss)" using l st by metis
  moreover have "\<forall>a \<in> S. \<forall>b \<in> S. a \<noteq> b \<longrightarrow> \<not> same (less_fn t) a b"
    using assms(1) by (simp add: hash_rep_def)
  ultimately have "hash_rep h' ?t (S - {e})" by (simp add: hash_rep_def)
  then show ?thesis using h'(1) by (simp add: remove_elem_def)
qed

lemma rehash_rep:
  assumes "hash_rep h t S" "elem_count t < fuel" "mallocs mb (footprint t S)"
  shows "\<exists>t' h'. rehash fuel mb t h = Inr (t', h') \<and> hash_rep h' t' S \<and> hash_fn t' = hash_fn t \<and> less_fn t' = less_fn t"
proof -
  obtain xss where x: "hash_lists h t xss" "S = set (concat xss)" "card S = elem_count t"
    using assms(1) by (auto simp: hash_rep_def)
  obtain t' h' xss' where r: "rehash fuel mb t h = Inr (t', h')" "hash_lists h' t' xss'"
    "mset (concat xss') = mset (concat xss)" "hash_fn t' = hash_fn t" "less_fn t' = less_fn t"
    using rehash_lists [OF x(1) assms(2), of mb] assms(3) x(2) by auto
  have "set (concat xss') = S" using mset_eq_setD [OF r(3)] x(2) by simp
  moreover have "elem_count t' = elem_count t"
    using r(2) x(1) mset_eq_length [OF r(3)] by (simp add: hash_lists_def)
  ultimately have "hash_rep h' t' S" using r x(3) assms(1) unfolding hash_rep_def by auto
  then show ?thesis using r(1,4,5) by blast
qed

lemma fresh_lists_mono: "fresh_lists S Ls \<Longrightarrow> S' \<subseteq> S \<Longrightarrow> fresh_lists S' Ls"
proof (induction Ls arbitrary: S S')
  case (Cons L Ls)
  then show ?case using Cons.IH [of "insert (lhead L) (insert (ltail L) S)" "insert (lhead L) (insert (ltail L) S')"]
    by auto
qed simp

lemma mallocs_mono: "mallocs mb S \<Longrightarrow> S' \<subseteq> S \<Longrightarrow> mallocs mb S'"
  by (auto simp: mallocs_def intro: fresh_lists_mono)

context hash_contract begin

lemma find_rep:
  assumes "hash_rep h t S" "hash_fn t = hf" "less_fn t = lf" "elem_count t < fuel"
  shows "\<exists>r. hash_find fuel t e h = Inr r \<and> found t S e r"
  using find_found [OF assms] find_bucket_slot [OF hash_rep_shape [OF assms(1)]]
  by (simp add: hash_find_def)

lemma insert_rep:
  assumes "hash_rep h t S" "hash_fn t = hf" "less_fn t = lf" "elem_count t + 1 < fuel"
    and "new \<notin> footprint t S" "new \<noteq> 0" "mallocs mb (insert new (footprint t S))"
  shows "\<exists>r t' h'. hash_insert fuel mb t new h = Inr (r, t', h') \<and> found t S new r \<and>
    hash_rep h' t' (if r = 0 then insert new S else S) \<and> hash_fn t' = hf \<and> less_fn t' = lf"
proof -
  note b = find_bucket_slot [OF hash_rep_shape [OF assms(1)], of new]
  obtain r where r: "find_elem fuel t (buckets t ! slot t new) new h = Inr r" "found t S new r"
    using find_found [OF assms(1-3), of fuel new] assms(4) by auto
  show ?thesis
  proof (cases "r = 0")
    case True
    have "\<forall>x \<in> S. \<not> same (less_fn t) x new"
      using r(2) True hash_rep_nonnull [OF assms(1)] by (auto simp: found_def split: if_splits)
    from insert_elem_rep [OF assms(1,5,6) this] obtain h1 where
      h1: "insert_elem t (buckets t ! slot t new) new h = Inr (t\<lparr>elem_count := elem_count t + 1\<rparr>, h1)"
        "hash_rep h1 (t\<lparr>elem_count := elem_count t + 1\<rparr>) (insert new S)" by blast
    obtain t' h' where "rehash fuel mb (t\<lparr>elem_count := elem_count t + 1\<rparr>) h1 = Inr (t', h')"
      "hash_rep h' t' (insert new S)" "hash_fn t' = hf" "less_fn t' = lf"
      using rehash_rep [OF h1(2), of fuel mb] assms(2-4,7) by auto
    then show ?thesis using b r h1(1) True by (simp add: hash_insert_def)
  next
    case False
    obtain t' h' where "rehash fuel mb t h = Inr (t', h')"
      "hash_rep h' t' S" "hash_fn t' = hf" "less_fn t' = lf"
      using rehash_rep [OF assms(1), of fuel mb] assms(2-4) mallocs_mono [OF assms(7)] by auto
    then show ?thesis using b r False by (simp add: hash_insert_def)
  qed
qed

lemma delete_rep:
  assumes "hash_rep h t S" "hash_fn t = hf" "less_fn t = lf" "elem_count t < fuel" "mallocs mb (footprint t S)"
  shows "\<exists>r t' h'. hash_delete fuel mb t e h = Inr (r, t', h') \<and> found t S e r \<and>
    hash_rep h' t' (S - {r}) \<and> hash_fn t' = hf \<and> less_fn t' = lf"
proof -
  note b = find_bucket_slot [OF hash_rep_shape [OF assms(1)], of e]
  obtain r where r: "find_elem fuel t (buckets t ! slot t e) e h = Inr r" "found t S e r"
    using find_found [OF assms(1-4)] by auto
  show ?thesis
  proof (cases "r = 0")
    case True
    then show ?thesis using b r assms(1-3) hash_rep_nonnull [OF assms(1)] by (simp add: hash_delete_def)
  next
    case False
    then have "r \<in> S" using r(2) by (auto simp: found_def split: if_splits)
    from remove_elem_rep [OF assms(1) this] obtain h1 where
      h1: "remove_elem t r h = Inr (t\<lparr>elem_count := elem_count t - 1\<rparr>, h1)"
        "hash_rep h1 (t\<lparr>elem_count := elem_count t - 1\<rparr>) (S - {r})" by blast
    have "mallocs mb (footprint t (S - {r}))"
      by (rule mallocs_mono [OF assms(5)]) (auto simp: footprint_def)
    moreover have "elem_count (t\<lparr>elem_count := elem_count t - 1\<rparr>) < fuel" using assms(4) by simp
    ultimately obtain t' h' where "rehash fuel mb (t\<lparr>elem_count := elem_count t - 1\<rparr>) h1 = Inr (t', h')"
      "hash_rep h' t' (S - {r})" "hash_fn t' = hf" "less_fn t' = lf"
      using rehash_rep [OF h1(2), of fuel mb] assms(2,3) by auto
    then show ?thesis using b r h1(1) False by (simp add: hash_delete_def)
  qed
qed

lemma replace_rep:
  assumes "hash_rep h t S" "hash_fn t = hf" "less_fn t = lf" "elem_count t + 1 < fuel"
    and "new \<notin> footprint t S" "new \<noteq> 0" "mallocs mb (insert new (footprint t S))"
  shows "\<exists>r t' h'. hash_replace fuel mb t new h = Inr (r, t', h') \<and> found t S new r \<and>
    hash_rep h' t' (insert new (S - {r})) \<and> hash_fn t' = hf \<and> less_fn t' = lf"
proof -
  note b = find_bucket_slot [OF hash_rep_shape [OF assms(1)], of new]
  obtain r where r: "find_elem fuel t (buckets t ! slot t new) new h = Inr r" "found t S new r"
    using find_found [OF assms(1-3), of fuel new] assms(4) by auto
  define n where "n = (if r = 0 then elem_count t else elem_count t - 1)"
  let ?t = "t\<lparr>elem_count := n\<rparr>"
  have "\<exists>h1. (if r \<noteq> 0 then remove_elem t r h else Inr (t, h)) = Inr (?t, h1) \<and> hash_rep h1 ?t (S - {r})"
  proof (cases "r = 0")
    case True
    then show ?thesis using assms(1) hash_rep_nonnull [OF assms(1)] by (simp add: n_def)
  next
    case False
    then have "r \<in> S" using r(2) by (auto simp: found_def split: if_splits)
    from remove_elem_rep [OF assms(1) this] show ?thesis using False by (simp add: n_def)
  qed
  then obtain h1 where h1: "(if r \<noteq> 0 then remove_elem t r h else Inr (t, h)) = Inr (?t, h1)"
    "hash_rep h1 ?t (S - {r})" by blast
  have none: "\<forall>x \<in> S - {r}. \<not> same (less_fn ?t) x new"
  proof (intro ballI notI)
    fix x assume x: "x \<in> S - {r}" "same (less_fn ?t) x new"
    then have "r \<in> S" "same lf r new" using r(2) assms(3) by (auto simp: found_def split: if_splits)
    then have "same lf x r" using x(2) same_trans [of x new r] same_sym assms(3) by auto
    then show False using assms(1,3) x(1) \<open>r \<in> S\<close> by (auto simp: hash_rep_def)
  qed
  have "new \<notin> footprint ?t (S - {r})" using assms(5) by (auto simp: footprint_def)
  from insert_elem_rep [OF h1(2) this assms(6) none] obtain h2 where
    h2: "insert_elem ?t (buckets t ! slot t new) new h1 = Inr (t\<lparr>elem_count := n + 1\<rparr>, h2)"
      "hash_rep h2 (t\<lparr>elem_count := n + 1\<rparr>) (insert new (S - {r}))" by auto
  have "mallocs mb (footprint (t\<lparr>elem_count := n + 1\<rparr>) (insert new (S - {r})))"
    by (rule mallocs_mono [OF assms(7)]) (auto simp: footprint_def)
  moreover have "elem_count (t\<lparr>elem_count := n + 1\<rparr>) < fuel"
    using assms(4) unfolding n_def by (cases "elem_count t") auto
  ultimately obtain t' h' where "rehash fuel mb (t\<lparr>elem_count := n + 1\<rparr>) h2 = Inr (t', h')"
    "hash_rep h' t' (insert new (S - {r}))" "hash_fn t' = hf" "less_fn t' = lf"
    using rehash_rep [OF h2(2), of fuel mb] assms(2,3) by auto
  then show ?thesis using b r h1(1) h2(1) by (simp add: hash_replace_def)
qed

end

section \<open>Initialising and visiting a table\<close>

lemma clear_loop_tables:
  "\<lbrakk>tables h Ls xss; fresh_lists (all_nodes Ls xss) new\<rbrakk> \<Longrightarrow>
    \<exists>h'. clear_loop fuel False new h = Inr ([], h') \<and>
      tables h' (Ls @ new) (xss @ replicate (length new) [])"
proof (induction new arbitrary: h Ls xss)
  case (Cons L new)
  then have "tables (list_init L h) (Ls @ [L]) (xss @ [[]])"
    "fresh_lists (all_nodes (Ls @ [L]) (xss @ [[]])) new"
    using tables_snoc [OF Cons.prems(1), of L] by simp_all
  from Cons.IH [OF this] show ?case by auto
qed simp

lemma hash_init_rep:
  fixes hf :: "ptr \<Rightarrow> word_t" and lf :: "ptr \<Rightarrow> ptr \<Rightarrow> bool"
  assumes "mb 4 = Some Ls" "length Ls = 4" "fresh_lists {} Ls"
  defines "t \<equiv> \<lparr>elem_count = 0, bucket_cnt = 4, buckets = Ls, hash_fn = hf, less_fn = lf\<rparr>"
  shows "\<exists>h'. hash_init fuel mb hf lf h = Inr (Some (t, h')) \<and> hash_rep h' t {}"
proof -
  have "tables h [] []" "all_nodes [] [] = {}" by (auto simp: tables_def all_nodes_def)
  then obtain h' where h': "clear_loop fuel False Ls h = Inr ([], h')" "tables h' Ls (replicate 4 [])"
    using clear_loop_tables [of h "[]" "[]" Ls] assms(2,3) by auto
  have "shape t" unfolding shape_def using assms(2) by (auto simp: t_def intro: exI [of _ 2])
  moreover have "set (concat (replicate 4 ([] :: ptr list))) = {}" by simp
  moreover have "placed t (replicate 4 [])" by (simp add: placed_def)
  ultimately have "hash_lists h' t (replicate 4 [])" using h'(2) by (simp add: hash_lists_def t_def)
  then have "hash_rep h' t {}" by (auto simp: hash_rep_def t_def)
  then show ?thesis using h'(1) assms(1) by (simp add: hash_init_def hash_clear_def t_def)
qed

lemma apply_loop_elems:
  assumes "tables h Ls xss" "i < length Ls"
  shows "\<lbrakk>xss ! i = as @ bs; length bs < fuel\<rbrakk> \<Longrightarrow> apply_loop fuel (Ls ! i) (hd (bs @ [ltail (Ls ! i)])) h = Inr bs"
proof (induction fuel arbitrary: as bs)
  case (Suc fuel)
  show ?case
  proof (cases bs)
    case (Cons x bs')
    have "apply_loop fuel (Ls ! i) (hd (bs' @ [ltail (Ls ! i)])) h = Inr bs'"
      by (rule Suc.IH [of "as @ [x]"]) (use Suc.prems Cons in simp_all)
    then show ?thesis using tables_next [OF assms, of as x bs'] Suc.prems(1) Cons by (simp add: list_end_def)
  qed (simp add: list_end_def)
qed simp

lemma apply_buckets_elems:
  assumes "tables h Ls xss" "\<forall>xs \<in> set xss. length xs < fuel"
  shows "k \<le> length Ls \<Longrightarrow> apply_buckets fuel (drop k Ls) h = Inr (concat (drop k xss))"
proof (induction "length Ls - k" arbitrary: k)
  case 0
  then show ?case using assms(1) by (simp add: tables_def)
next
  case (Suc d)
  then have k: "k < length Ls" "k < length xss" using assms(1) by (simp_all add: tables_def)
  have "length (xss ! k) < fuel" using assms(2) k(2) by simp
  from apply_loop_elems [OF assms(1) k(1), of "[]" "xss ! k", OF _ this]
  have "apply_loop fuel (Ls ! k) (list_begin h (Ls ! k)) h = Inr (xss ! k)"
    using tables_begin [OF assms(1) k(1)] by simp
  moreover have "apply_buckets fuel (drop (Suc k) Ls) h = Inr (concat (drop (Suc k) xss))"
    using Suc k by simp
  moreover have "drop k Ls = Ls ! k # drop (Suc k) Ls" "drop k xss = xss ! k # drop (Suc k) xss"
    using k by (simp_all add: Cons_nth_drop_Suc)
  ultimately show ?case by simp
qed

lemma hash_lists_apply:
  assumes "hash_lists h t xss" "elem_count t < fuel"
  shows "hash_apply fuel t h = Inr (concat xss)"
proof -
  have T: "tables h (buckets t) xss" "elem_count t = length (concat xss)"
    using assms(1) by (simp_all add: hash_lists_def)
  have "\<forall>xs \<in> set xss. length xs < fuel" using assms(2) T(2) by (auto dest!: bucket_fits)
  from apply_buckets_elems [OF T(1) this, of 0] show ?thesis by (simp add: hash_apply_def)
qed

section \<open>The iterator\<close>

text \<open>
  The elements still to come after the iterator's position: the rest of its bucket and the buckets
  behind it. \<open>hash_next\<close> steps to the first of them and answers NULL after the last.
\<close>

lemma next_bucket_first:
  assumes "shape t" "tables h (buckets t) xss"
  shows "\<lbrakk>b < bucket_cnt t; xss ! b = as @ bs\<rbrakk> \<Longrightarrow>
    \<exists>i. next_bucket t h b (hd (bs @ [ltail (buckets t ! b)])) = Inr i \<and>
      (case bs @ concat (drop (Suc b) xss) of
         [] \<Rightarrow> ielem i = 0
       | e # rest \<Rightarrow> ielem i = e \<and> ibucket i < bucket_cnt t \<and>
           (\<exists>as' bs'. xss ! ibucket i = as' @ e # bs' \<and> rest = bs' @ concat (drop (Suc (ibucket i)) xss)))"
proof (induction "bucket_cnt t - b" arbitrary: b as bs)
  case (Suc d)
  have len: "length (buckets t) = bucket_cnt t" "length xss = bucket_cnt t"
    using assms by (simp_all add: shape_def tables_def)
  have b: "b < length (buckets t)" using Suc.prems(1) len by simp
  note step = next_bucket.simps [of t h b "hd (bs @ [ltail (buckets t ! b)])"]
  show ?case
  proof (cases bs)
    case (Cons e bs')
    have "e \<noteq> ltail (buckets t ! b)" using tables_next(2) [OF assms(2) b] Suc.prems(2) Cons by blast
    then show ?thesis using step b Cons Suc.prems by (auto simp: rd_def list_end_def)
  next
    case Nil
    show ?thesis
    proof (cases "Suc b < bucket_cnt t")
      case False
      then show ?thesis using step b Nil len by (simp add: rd_def list_end_def)
    next
      case True
      have "drop (Suc b) xss = xss ! Suc b # drop (Suc (Suc b)) xss"
        using True len by (simp add: Cons_nth_drop_Suc)
      then show ?thesis
        using Suc.hyps(1) [of "Suc b" "[]" "xss ! Suc b"] Suc.hyps(2) True step b Nil len
          tables_begin [OF assms(2), of "Suc b"]
        by (simp add: rd_def list_end_def)
    qed
  qed
qed simp

text \<open>The loop the comment of \<open>hash_first\<close> gives: \<open>while (hash_next (\&i)) ... hash_cur (\&i) ...\<close>.\<close>

fun visit :: "nat \<Rightarrow> hash \<Rightarrow> links \<Rightarrow> hash_iterator \<Rightarrow> c_error + ptr list" where
  "visit 0 t h i = Inl NoFuel"
| "visit (Suc fuel) t h i =
    bindE (hash_next t h i) (\<lambda>i.
      if hash_cur i = 0 then Inr []
      else bindE (visit fuel t h i) (\<lambda>es. Inr (hash_cur i # es)))"

lemma visit_rest:
  assumes "shape t" "tables h (buckets t) xss"
  shows "\<lbrakk>b < bucket_cnt t; xss ! b = as @ bs; ibucket i = b;
      list_next h (ielem i) = Inr (hd (bs @ [ltail (buckets t ! b)]));
      length (bs @ concat (drop (Suc b) xss)) < fuel\<rbrakk> \<Longrightarrow>
    visit fuel t h i = Inr (bs @ concat (drop (Suc b) xss))"
proof (induction fuel arbitrary: b as bs i)
  case (Suc fuel)
  obtain i' where i': "hash_next t h i = Inr i'"
    "case bs @ concat (drop (Suc b) xss) of
       [] \<Rightarrow> ielem i' = 0
     | e # rest \<Rightarrow> ielem i' = e \<and> ibucket i' < bucket_cnt t \<and>
         (\<exists>as' bs'. xss ! ibucket i' = as' @ e # bs' \<and> rest = bs' @ concat (drop (Suc (ibucket i')) xss))"
    using next_bucket_first [OF assms Suc.prems(1,2)] Suc.prems(3,4) by (auto simp: hash_next_def)
  show ?case
  proof (cases "bs @ concat (drop (Suc b) xss)")
    case Nil
    then show ?thesis using i'(1) i'(2) [unfolded Nil] unfolding Nil by (simp add: hash_cur_def)
  next
    case (Cons e rest)
    then obtain as' bs' where e: "ielem i' = e" "ibucket i' < bucket_cnt t"
      "xss ! ibucket i' = as' @ e # bs'" "rest = bs' @ concat (drop (Suc (ibucket i')) xss)"
      using i'(2) by auto
    have b: "ibucket i' < length (buckets t)" using e(2) assms(1) by (simp add: shape_def)
    note n = tables_next [OF assms(2) b e(3)]
    have "visit fuel t h i' = Inr rest"
      unfolding e(4)
      by (rule Suc.IH [of _ "as' @ [e]"]) (use e n Suc.prems(5) Cons in simp_all)
    then show ?thesis unfolding Cons using i'(1) e(1) n(3) by (simp add: hash_cur_def)
  qed
qed simp

section \<open>What the table promises\<close>

text \<open>C15: On a table that holds the set S of elements, with functions that keep the contract of a
  comparison and a hash, each of the four operations returns, and its result is the one of the abstract set:
  \<open>hash_find\<close> answers the element of S equal to its argument, NULL when there is none; \<open>hash_insert\<close>
  adds a new element only when none is equal to it and else answers that one; \<open>hash_replace\<close> puts
  the new element in the place of the one it answers; \<open>hash_delete\<close> removes the one it answers. Each
  leaves a table again, whether or not it was rehashed and whether or not memory was found for it.\<close>

theorem hash_table_refines_set:
  assumes "hash_contract (hash_fn t) (less_fn t)" "hash_rep h t S" "elem_count t + 1 < fuel"
    and "new \<notin> footprint t S" "new \<noteq> 0" "mallocs mb (insert new (footprint t S))"
  shows "(\<exists>r. hash_find fuel t e h = Inr r \<and> found t S e r) \<and>
    (\<exists>r t' h'. hash_insert fuel mb t new h = Inr (r, t', h') \<and> found t S new r \<and>
       hash_rep h' t' (if r = 0 then insert new S else S)) \<and>
    (\<exists>r t' h'. hash_replace fuel mb t new h = Inr (r, t', h') \<and> found t S new r \<and>
       hash_rep h' t' (insert new (S - {r}))) \<and>
    (\<exists>r t' h'. hash_delete fuel mb t e h = Inr (r, t', h') \<and> found t S e r \<and> hash_rep h' t' (S - {r}))"
proof (intro conjI)
  have "mallocs mb (footprint t S)" by (rule mallocs_mono [OF assms(6)]) auto
  then show "\<exists>r t' h'. hash_delete fuel mb t e h = Inr (r, t', h') \<and> found t S e r \<and> hash_rep h' t' (S - {r})"
    using hash_contract.delete_rep [OF assms(1,2) refl refl] assms(3) by (metis add_lessD1)
  show "\<exists>r. hash_find fuel t e h = Inr r \<and> found t S e r"
    using hash_contract.find_rep [OF assms(1,2) refl refl] assms(3) by simp
qed (use hash_contract.insert_rep [OF assms(1,2) refl refl assms(3-6)]
    hash_contract.replace_rep [OF assms(1,2) refl refl assms(3-6)] in blast)+

text \<open>\<open>hash_first\<close> and \<open>hash_next\<close> visit every element of the table exactly once, in the order in
  which \<open>hash_apply\<close> calls its action on them.\<close>

theorem hash_iterator_complete:
  assumes "hash_rep h t S" "elem_count t < fuel"
  shows "\<exists>es. bindE (hash_first t) (visit fuel t h) = Inr es \<and> hash_apply fuel t h = Inr es \<and>
    set es = S \<and> distinct es"
proof -
  obtain xss where x: "hash_lists h t xss" "S = set (concat xss)" "card S = elem_count t"
    using assms(1) by (auto simp: hash_rep_def)
  have T: "shape t" "tables h (buckets t) xss" "elem_count t = length (concat xss)"
    using x(1) by (simp_all add: hash_lists_def)
  have b: "0 < bucket_cnt t" "0 < length (buckets t)" using T(1) by (auto simp: shape_def)
  have d: "dll h (buckets t ! 0) (xss ! 0)" using T(2) b by (simp add: tables_def)
  have xs: "concat xss = xss ! 0 @ concat (drop (Suc 0) xss)"
    using T(2) b(2) by (cases xss) (simp_all add: tables_def)
  have "visit fuel t h \<lparr>ibucket = 0, ielem = list_head (buckets t ! 0)\<rparr> =
      Inr (xss ! 0 @ concat (drop (Suc 0) xss))"
    by (rule visit_rest [OF T(1,2) b(1), of "[]"])
      (use dll_next_head [OF d] assms(2) T(3) xs in \<open>simp_all add: list_head_def\<close>)
  then have "bindE (hash_first t) (visit fuel t h) = Inr (concat xss)"
    using b(2) xs by (simp add: hash_first_def)
  moreover have "distinct (concat xss)" using hash_rep_distinct [OF x(1)] x(2,3) by simp
  moreover have "hash_apply fuel t h = Inr (concat xss)" using hash_lists_apply [OF x(1) assms(2)] .
  ultimately show ?thesis using x(2) by blast
qed

text \<open>A table with one element, 10, whose elements are their own keys, and one that has a bucket array.\<close>

definition example_lists :: "plist list" where
  "example_lists = [\<lparr>lhead = 1, ltail = 2\<rparr>, \<lparr>lhead = 3, ltail = 4\<rparr>, \<lparr>lhead = 5, ltail = 6\<rparr>, \<lparr>lhead = 7, ltail = 8\<rparr>]"

definition example_table :: hash where
  "example_table = \<lparr>elem_count = 1, bucket_cnt = 4, buckets = example_lists,
     hash_fn = (\<lambda>e. hash_int (int e)), less_fn = (\<lambda>a b. int a < int b)\<rparr>"

lemma example_rep: "\<exists>h. hash_rep h example_table {10}"
proof -
  let ?t = "\<lparr>elem_count = 0, bucket_cnt = 4, buckets = example_lists,
     hash_fn = (\<lambda>e. hash_int (int e)), less_fn = (\<lambda>a b. int a < int b)\<rparr>"
  have "length example_lists = 4" "fresh_lists {} example_lists" by (simp_all add: example_lists_def)
  from hash_init_rep [of "\<lambda>_. Some example_lists", OF refl this] obtain h where "hash_rep h ?t {}" by blast
  then show ?thesis
    using insert_elem_rep [of h ?t "{}" 10]
    by (auto simp: example_table_def footprint_def example_lists_def)
qed

theorem hash_table_refines_set_witness:
  "\<exists>h. hash_rep h example_table {10} \<and>
    (\<exists>t' h'. hash_delete 5 (\<lambda>_. None) example_table 10 h = Inr (10, t', h') \<and> hash_rep h' t' {}) \<and>
    (\<exists>t' h'. hash_insert 5 (\<lambda>_. None) example_table 11 h = Inr (0, t', h') \<and> hash_rep h' t' {10, 11})"
proof -
  obtain h where h: "hash_rep h example_table {10}" using example_rep by blast
  have c: "hash_contract (hash_fn example_table) (less_fn example_table)"
    using int_keys.hash_contract_axioms [of int] by (simp add: example_table_def)
  have f: "11 \<notin> footprint example_table {10}"
    by (simp add: footprint_def example_table_def example_lists_def)
  have n: "elem_count example_table + 1 < 5" by (simp add: example_table_def)
  have m: "mallocs (\<lambda>_. None) S" for S by (simp add: mallocs_def)
  note ops = hash_table_refines_set [OF c h n f _ m, of 10, simplified]
  have i: "found example_table {10} 10 r \<Longrightarrow> r = 10" "found example_table {10} 11 r \<Longrightarrow> r = 0" for r
    by (simp_all add: found_def example_table_def same_def)
  obtain r t' h' where "hash_delete 5 (\<lambda>_. None) example_table 10 h = Inr (r, t', h')"
    "found example_table {10} 10 r" "hash_rep h' t' ({10} - {r})"
    using ops by blast
  moreover obtain q t'' h'' where "hash_insert 5 (\<lambda>_. None) example_table 11 h = Inr (q, t'', h'')"
    "found example_table {10} 11 q" "hash_rep h'' t'' (if q = 0 then {11, 10} else {10})"
    using ops by blast
  ultimately show ?thesis using h i by (auto simp: insert_commute [of 10 11])
qed

theorem hash_iterator_complete_witness:
  "\<exists>h. hash_rep h example_table {10} \<and> bindE (hash_first example_table) (visit 5 example_table h) = Inr [10]"
proof -
  obtain h where h: "hash_rep h example_table {10}" using example_rep by blast
  have "elem_count example_table < 5" by (simp add: example_table_def)
  from hash_iterator_complete [OF h this] obtain es where
    es: "bindE (hash_first example_table) (visit 5 example_table h) = Inr es" "set es = {10}" "distinct es"
    by blast
  have "length es = 1" using distinct_card [OF es(3)] es(2) by simp
  then have "es = [10]" using es(2) by (cases es) auto
  then show ?thesis using h es(1) by auto
qed

end
