(* ===== verification/Pintos_Threads.thy ===== *)
theory Pintos_Threads
  imports Pintos_Sort
begin

text \<open>
  Threads, semaphores, locks, condition variables and the sleeping threads of Pintos:
  \<open>src/threads/thread.c\<close>, \<open>synch.c\<close>, the parts of \<open>interrupt.c\<close> they use, and \<open>devices/timer.c\<close>.

  A thread is the address of its page. What a thread has still to do inside the kernel, its stack, is
  a list of operations \<open>op\<close>: the statements that remain of the functions it is in, cut where the code
  can be preempted (interrupts on) or gives the processor away (\<open>thread_block\<close>, \<open>thread_yield\<close>).
  Between two cuts the code runs alone, as there is one processor. \<open>exec\<close> runs one operation, and
  \<open>kstep\<close> is a step of the kernel: an operation of the running thread, a new call by a thread that has
  none left, or a timer interrupt. Lists of threads are the lists that \<open>Pintos_List\<close> shows \<open>list.c\<close> to
  implement; \<open>elem\<close> links a thread into one of them at a time, which is part of the invariant.
\<close>

section \<open>State\<close>

datatype thread_status = THREAD_RUNNING | THREAD_READY | THREAD_BLOCKED | THREAD_DYING

record thread =
  tid :: int
  status :: thread_status
  name :: "byte_t list"
  stack :: nat
  priority :: int
  magic :: word_t

definition THREAD_MAGIC :: word_t where "THREAD_MAGIC = 0xcd6abf4b"
definition PRI_MIN :: int where "PRI_MIN = 0"
definition PRI_DEFAULT :: int where "PRI_DEFAULT = 31"
definition PRI_MAX :: int where "PRI_MAX = 63"
definition TID_ERROR :: int where "TID_ERROR = -1"
definition TIME_SLICE :: word_t where "TIME_SLICE = 4"

text \<open>
  The semaphores, by the object they are in: those of client code, the one inside a lock, the one a
  waiting thread has on its stack in \<open>cond_wait\<close> or in \<open>timer_sleep\<close>, that of the list of sleeping
  threads, and that of \<open>thread_start\<close>.
\<close>

datatype lock_id = Tid_Lock | Lock nat
datatype sema_id = Sema nat | Lock_Sema lock_id | Waiter ptr | Sleep_Sema ptr | Sleeping_List_Sema | Idle_Started

record semaphore =
  count :: word_t
  waiters :: "ptr list"

text \<open>The thread functions: the idle loop, or a client that calls the operations below.\<close>

datatype thread_func = Idle_Func | Client

datatype call =
    Sema_Down sema_id
  | Sema_Try_Down sema_id
  | Sema_Up sema_id
  | Lock_Acquire lock_id
  | Lock_Try_Acquire lock_id
  | Lock_Release lock_id
  | Cond_Wait nat lock_id
  | Cond_Signal nat lock_id
  | Cond_Broadcast nat lock_id
  | Thread_Yield
  | Thread_Exit
  | Thread_Create ptr "byte_t list" int thread_func
  | Thread_Set_Priority int
  | Timer_Sleep int

datatype op =
    Call call
  | Set_Level bool
  | Iret
  | Down_Loop sema_id
  | Set_Holder lock_id
  | Try_Holder lock_id
  | Unlock lock_id
  | Assign_Tid
  | Create_Frames ptr thread_func
  | Unblock ptr
  | Idle
  | Idle_Loop
  | Sti_Hlt
  | Sleep_Insert int
  | Sleep_Return int

text \<open>What the properties speak of: the history of lock ownership and of returns from \<open>timer_sleep\<close>.\<close>

datatype event = Acquired ptr lock_id | Released ptr lock_id | Slept ptr int int

record kernel =
  threads :: "ptr \<Rightarrow> thread"
  ready_list :: "ptr list"
  all_list :: "ptr list"
  idle_thread :: ptr
  initial_thread :: ptr
  cur :: ptr
  next_tid :: int
  thread_ticks :: word_t
  idle_ticks :: int
  kernel_ticks :: int
  intr_on :: bool
  in_external_intr :: bool
  yield_on_return :: bool
  semas :: "sema_id \<Rightarrow> semaphore"
  holder :: "lock_id \<Rightarrow> ptr"
  conds :: "nat \<Rightarrow> sema_id list"
  ticks :: int
  sleepers :: "ptr list"
  wake_at :: "ptr \<Rightarrow> int"
  code :: "ptr \<Rightarrow> op list"
  ret :: "ptr \<Rightarrow> int"
  freed :: "ptr list"
  trace :: "event list"

definition set_thread :: "ptr \<Rightarrow> (thread \<Rightarrow> thread) \<Rightarrow> kernel \<Rightarrow> kernel" where
  "set_thread t f k = k\<lparr>threads := (threads k)(t := f (threads k t))\<rparr>"

definition set_count :: "sema_id \<Rightarrow> word_t \<Rightarrow> kernel \<Rightarrow> kernel" where
  "set_count s v k = k\<lparr>semas := (semas k)(s := (semas k s)\<lparr>count := v\<rparr>)\<rparr>"

definition set_waiters :: "sema_id \<Rightarrow> ptr list \<Rightarrow> kernel \<Rightarrow> kernel" where
  "set_waiters s ws k = k\<lparr>semas := (semas k)(s := (semas k s)\<lparr>waiters := ws\<rparr>)\<rparr>"

text \<open>Statements that remain for the running thread are put before those it has already.\<close>

definition push :: "op list \<Rightarrow> kernel \<Rightarrow> kernel" where
  "push ps k = k\<lparr>code := (code k)(cur k := ps @ code k (cur k))\<rparr>"

definition return :: "int \<Rightarrow> kernel \<Rightarrow> kernel" where
  "return r k = k\<lparr>ret := (ret k)(cur k := r)\<rparr>"

definition log :: "event \<Rightarrow> kernel \<Rightarrow> kernel" where
  "log e k = k\<lparr>trace := trace k @ [e]\<rparr>"

section \<open>Interrupts\<close>

definition intr_get_level :: "kernel \<Rightarrow> bool" where "intr_get_level k = intr_on k"
definition intr_context :: "kernel \<Rightarrow> bool" where "intr_context k = in_external_intr k"

definition intr_disable :: "kernel \<Rightarrow> kernel" where "intr_disable k = k\<lparr>intr_on := False\<rparr>"

definition intr_enable :: "kernel \<Rightarrow> c_error + kernel" where
  "intr_enable k = bindE (guardE AssertFailed (\<not> intr_context k)) (\<lambda>_. Inr (k\<lparr>intr_on := True\<rparr>))"

definition intr_set_level :: "bool \<Rightarrow> kernel \<Rightarrow> c_error + kernel" where
  "intr_set_level level k = (if level then intr_enable k else Inr (intr_disable k))"

definition intr_yield_on_return :: "kernel \<Rightarrow> c_error + kernel" where
  "intr_yield_on_return k =
    bindE (guardE AssertFailed (intr_context k)) (\<lambda>_. Inr (k\<lparr>yield_on_return := True\<rparr>))"

section \<open>Scheduling\<close>

definition is_thread :: "kernel \<Rightarrow> ptr \<Rightarrow> bool" where
  "is_thread k t = (t \<noteq> 0 \<and> magic (threads k t) = THREAD_MAGIC)"

definition thread_current :: "kernel \<Rightarrow> c_error + ptr" where
  "thread_current k =
    bindE (guardE AssertFailed (is_thread k (cur k))) (\<lambda>_.
    bindE (guardE AssertFailed (status (threads k (cur k)) = THREAD_RUNNING)) (\<lambda>_. Inr (cur k)))"

definition next_thread_to_run :: "kernel \<Rightarrow> ptr \<times> kernel" where
  "next_thread_to_run k =
    (case ready_list k of
       [] \<Rightarrow> (idle_thread k, k)
     | t # ts \<Rightarrow> (t, k\<lparr>ready_list := ts\<rparr>))"

text \<open>\<open>palloc_free_page\<close> fills the page with the byte 0xcc; the page is then no longer a thread. This is
  the kernel built without USERPROG, where \<open>process_activate\<close> is not called here.\<close>

definition thread_schedule_tail :: "ptr \<Rightarrow> kernel \<Rightarrow> c_error + kernel" where
  "thread_schedule_tail prev k =
    bindE (guardE AssertFailed (\<not> intr_get_level k)) (\<lambda>_.
      let k = (set_thread (cur k) (status_update (\<lambda>_. THREAD_RUNNING)) k)\<lparr>thread_ticks := 0\<rparr>
      in if prev \<noteq> 0 \<and> status (threads k prev) = THREAD_DYING \<and> prev \<noteq> initial_thread k then
           bindE (guardE AssertFailed (prev \<noteq> cur k)) (\<lambda>_.
             Inr ((set_thread prev (magic_update (\<lambda>_. 0xcccccccc)) k)\<lparr>freed := freed k @ [prev]\<rparr>))
         else Inr k)"

definition schedule :: "kernel \<Rightarrow> c_error + kernel" where
  "schedule k =
    (let c = cur k; (nxt, k) = next_thread_to_run k in
     bindE (guardE AssertFailed (\<not> intr_get_level k)) (\<lambda>_.
     bindE (guardE AssertFailed (status (threads k c) \<noteq> THREAD_RUNNING)) (\<lambda>_.
     bindE (guardE AssertFailed (is_thread k nxt)) (\<lambda>_.
       thread_schedule_tail (if c \<noteq> nxt then c else 0) (k\<lparr>cur := nxt\<rparr>)))))"

definition thread_block :: "kernel \<Rightarrow> c_error + kernel" where
  "thread_block k =
    bindE (guardE AssertFailed (\<not> intr_context k)) (\<lambda>_.
    bindE (guardE AssertFailed (\<not> intr_get_level k)) (\<lambda>_.
    bindE (thread_current k) (\<lambda>t.
      schedule (set_thread t (status_update (\<lambda>_. THREAD_BLOCKED)) k))))"

definition thread_unblock :: "ptr \<Rightarrow> kernel \<Rightarrow> c_error + kernel" where
  "thread_unblock t k =
    bindE (guardE AssertFailed (is_thread k t)) (\<lambda>_.
      let old_level = intr_get_level k; k = intr_disable k in
      bindE (guardE AssertFailed (status (threads k t) = THREAD_BLOCKED)) (\<lambda>_.
        intr_set_level old_level
          (set_thread t (status_update (\<lambda>_. THREAD_READY)) (k\<lparr>ready_list := ready_list k @ [t]\<rparr>))))"

definition thread_yield :: "kernel \<Rightarrow> c_error + kernel" where
  "thread_yield k =
    bindE (thread_current k) (\<lambda>c.
    bindE (guardE AssertFailed (\<not> intr_context k)) (\<lambda>_.
      let old_level = intr_get_level k; k = intr_disable k;
          k = (if c \<noteq> idle_thread k then k\<lparr>ready_list := ready_list k @ [c]\<rparr> else k);
          k = set_thread c (status_update (\<lambda>_. THREAD_READY)) k
      in schedule (push [Set_Level old_level] k)))"

definition thread_exit :: "kernel \<Rightarrow> c_error + kernel" where
  "thread_exit k =
    bindE (guardE AssertFailed (\<not> intr_context k)) (\<lambda>_.
      let k = intr_disable k in
      bindE (thread_current k) (\<lambda>c.
        schedule (set_thread c (status_update (\<lambda>_. THREAD_DYING)) (k\<lparr>all_list := remove1 c (all_list k)\<rparr>))))"

definition thread_tick :: "kernel \<Rightarrow> c_error + kernel" where
  "thread_tick k =
    bindE (thread_current k) (\<lambda>t.
      let k = (if t = idle_thread k then k\<lparr>idle_ticks := idle_ticks k + 1\<rparr>
               else k\<lparr>kernel_ticks := kernel_ticks k + 1\<rparr>);
          k = k\<lparr>thread_ticks := thread_ticks k + 1\<rparr>
      in if thread_ticks k \<ge> TIME_SLICE then intr_yield_on_return k else Inr k)"

definition thread_set_priority :: "int \<Rightarrow> kernel \<Rightarrow> c_error + kernel" where
  "thread_set_priority p k =
    bindE (thread_current k) (\<lambda>t. Inr (set_thread t (priority_update (\<lambda>_. p)) k))"

definition thread_get_priority :: "kernel \<Rightarrow> c_error + int" where
  "thread_get_priority k = bindE (thread_current k) (\<lambda>t. Inr (priority (threads k t)))"

definition thread_tid :: "kernel \<Rightarrow> c_error + int" where
  "thread_tid k = bindE (thread_current k) (\<lambda>t. Inr (tid (threads k t)))"

definition thread_name :: "kernel \<Rightarrow> c_error + byte_t list" where
  "thread_name k = bindE (thread_current k) (\<lambda>t. Inr (name (threads k t)))"

definition thread_foreach :: "(ptr \<Rightarrow> kernel \<Rightarrow> kernel) \<Rightarrow> kernel \<Rightarrow> c_error + kernel" where
  "thread_foreach func k =
    bindE (guardE AssertFailed (\<not> intr_get_level k)) (\<lambda>_. Inr (fold func (all_list k) k))"

text \<open>The four functions for the scheduler with feedback queues are not implemented.\<close>

definition thread_set_nice :: "int \<Rightarrow> kernel \<Rightarrow> kernel" where "thread_set_nice nice k = k"
definition thread_get_nice :: "kernel \<Rightarrow> int" where "thread_get_nice k = 0"
definition thread_get_load_avg :: "kernel \<Rightarrow> int" where "thread_get_load_avg k = 0"
definition thread_get_recent_cpu :: "kernel \<Rightarrow> int" where "thread_get_recent_cpu k = 0"

definition threads_ready :: "kernel \<Rightarrow> nat" where
  "threads_ready k = length (ready_list k)"

section \<open>Semaphores\<close>

definition sema_init :: "sema_id \<Rightarrow> word_t \<Rightarrow> kernel \<Rightarrow> kernel" where
  "sema_init s v k = set_waiters s [] (set_count s v k)"

text \<open>The loop of \<open>sema_down\<close>: a thread that blocks tests the value again when it runs again.\<close>

definition down_loop :: "sema_id \<Rightarrow> kernel \<Rightarrow> c_error + kernel" where
  "down_loop s k =
    (if count (semas k s) = 0 then
       bindE (thread_current k) (\<lambda>t.
         thread_block (push [Down_Loop s] (set_waiters s (waiters (semas k s) @ [t]) k)))
     else Inr (set_count s (count (semas k s) - 1) k))"

definition sema_down :: "sema_id \<Rightarrow> kernel \<Rightarrow> c_error + kernel" where
  "sema_down s k =
    bindE (guardE AssertFailed (\<not> intr_context k)) (\<lambda>_.
      Inr (push [Down_Loop s, Set_Level (intr_get_level k)] (intr_disable k)))"

definition sema_try_down :: "sema_id \<Rightarrow> kernel \<Rightarrow> c_error + (bool \<times> kernel)" where
  "sema_try_down s k =
    (let old_level = intr_get_level k; k = intr_disable k;
         (success, k) = (if count (semas k s) > 0
           then (True, set_count s (count (semas k s) - 1) k) else (False, k))
     in bindE (intr_set_level old_level k) (\<lambda>k. Inr (success, k)))"

definition sema_up :: "sema_id \<Rightarrow> kernel \<Rightarrow> c_error + kernel" where
  "sema_up s k =
    (let old_level = intr_get_level k; k = intr_disable k in
     bindE (case waiters (semas k s) of
              [] \<Rightarrow> Inr k
            | t # ts \<Rightarrow> thread_unblock t (set_waiters s ts k)) (\<lambda>k.
       intr_set_level old_level (set_count s (count (semas k s) + 1) k)))"

section \<open>Locks and condition variables\<close>

definition lock_held_by_current_thread :: "lock_id \<Rightarrow> kernel \<Rightarrow> c_error + bool" where
  "lock_held_by_current_thread l k = bindE (thread_current k) (\<lambda>t. Inr (holder k l = t))"

definition lock_init :: "lock_id \<Rightarrow> kernel \<Rightarrow> kernel" where
  "lock_init l k = sema_init (Lock_Sema l) 1 (k\<lparr>holder := (holder k)(l := 0)\<rparr>)"

definition set_holder :: "lock_id \<Rightarrow> kernel \<Rightarrow> c_error + kernel" where
  "set_holder l k =
    bindE (thread_current k) (\<lambda>t. Inr (log (Acquired t l) (k\<lparr>holder := (holder k)(l := t)\<rparr>)))"

definition lock_acquire :: "lock_id \<Rightarrow> kernel \<Rightarrow> c_error + kernel" where
  "lock_acquire l k =
    bindE (guardE AssertFailed (\<not> intr_context k)) (\<lambda>_.
    bindE (lock_held_by_current_thread l k) (\<lambda>held.
    bindE (guardE AssertFailed (\<not> held)) (\<lambda>_.
      Inr (push [Call (Sema_Down (Lock_Sema l)), Set_Holder l] k))))"

definition lock_try_acquire :: "lock_id \<Rightarrow> kernel \<Rightarrow> c_error + kernel" where
  "lock_try_acquire l k =
    bindE (lock_held_by_current_thread l k) (\<lambda>held.
    bindE (guardE AssertFailed (\<not> held)) (\<lambda>_. Inr (push [Try_Holder l] k)))"

definition try_holder :: "lock_id \<Rightarrow> kernel \<Rightarrow> c_error + kernel" where
  "try_holder l k =
    bindE (sema_try_down (Lock_Sema l) k) (\<lambda>(success, k).
      Inr (return (of_bool success) (if success then push [Set_Holder l] k else k)))"

definition lock_release :: "lock_id \<Rightarrow> kernel \<Rightarrow> c_error + kernel" where
  "lock_release l k =
    bindE (lock_held_by_current_thread l k) (\<lambda>held.
    bindE (guardE AssertFailed held) (\<lambda>_.
      Inr (push [Unlock l] (log (Released (cur k) l) (k\<lparr>holder := (holder k)(l := 0)\<rparr>)))))"

definition cond_init :: "nat \<Rightarrow> kernel \<Rightarrow> kernel" where
  "cond_init c k = k\<lparr>conds := (conds k)(c := [])\<rparr>"

text \<open>The assertion, the initialisation of the waiter's semaphore and its insertion are one operation:
  the semaphore is on the stack of the caller, and the list of the condition is only touched by the
  holder of the lock, so nothing another thread does in between can be told apart from it.\<close>

definition cond_wait :: "nat \<Rightarrow> lock_id \<Rightarrow> kernel \<Rightarrow> c_error + kernel" where
  "cond_wait c l k =
    bindE (guardE AssertFailed (\<not> intr_context k)) (\<lambda>_.
    bindE (lock_held_by_current_thread l k) (\<lambda>held.
    bindE (guardE AssertFailed held) (\<lambda>_.
      let waiter = Waiter (cur k); k = sema_init waiter 0 k;
          k = k\<lparr>conds := (conds k)(c := conds k c @ [waiter])\<rparr>
      in Inr (push [Call (Lock_Release l), Call (Sema_Down waiter), Call (Lock_Acquire l)] k))))"

definition cond_signal :: "nat \<Rightarrow> lock_id \<Rightarrow> kernel \<Rightarrow> c_error + kernel" where
  "cond_signal c l k =
    bindE (guardE AssertFailed (\<not> intr_context k)) (\<lambda>_.
    bindE (lock_held_by_current_thread l k) (\<lambda>held.
    bindE (guardE AssertFailed held) (\<lambda>_.
      case conds k c of
        [] \<Rightarrow> Inr k
      | w # ws \<Rightarrow> Inr (push [Call (Sema_Up w)] (k\<lparr>conds := (conds k)(c := ws)\<rparr>)))))"

definition cond_broadcast :: "nat \<Rightarrow> lock_id \<Rightarrow> kernel \<Rightarrow> c_error + kernel" where
  "cond_broadcast c l k =
    (if conds k c = [] then Inr k
     else Inr (push [Call (Cond_Signal c l), Call (Cond_Broadcast c l)] k))"

section \<open>Creating threads\<close>

text \<open>\<open>init_thread\<close> clears the thread structure; the name is cut to fifteen characters.\<close>

definition init_thread :: "ptr \<Rightarrow> byte_t list \<Rightarrow> int \<Rightarrow> kernel \<Rightarrow> c_error + kernel" where
  "init_thread t nm prio k =
    bindE (guardE AssertFailed (t \<noteq> 0)) (\<lambda>_.
    bindE (guardE AssertFailed (PRI_MIN \<le> prio \<and> prio \<le> PRI_MAX)) (\<lambda>_.
      Inr (k\<lparr>threads := (threads k)(t := \<lparr>tid = 0, status = THREAD_BLOCKED, name = take 15 nm,
               stack = t + 4096, priority = prio, magic = THREAD_MAGIC\<rparr>),
             all_list := all_list k @ [t]\<rparr>)))"

definition alloc_frame :: "ptr \<Rightarrow> nat \<Rightarrow> kernel \<Rightarrow> c_error + kernel" where
  "alloc_frame t sz k =
    bindE (guardE AssertFailed (is_thread k t)) (\<lambda>_.
    bindE (guardE AssertFailed (sz mod 4 = 0)) (\<lambda>_.
      Inr (set_thread t (stack_update (\<lambda>s. s - sz)) k)))"

text \<open>What a new thread runs: \<open>kernel_thread\<close> enables interrupts and calls the thread's function.\<close>

definition kernel_thread :: "thread_func \<Rightarrow> op list" where
  "kernel_thread f = Set_Level True # (case f of Idle_Func \<Rightarrow> [Idle, Idle_Loop] | Client \<Rightarrow> [])"

text \<open>\<open>thread_create\<close>, whose first argument is the page that \<open>palloc_get_page\<close> returned.\<close>

definition thread_create :: "ptr \<Rightarrow> byte_t list \<Rightarrow> int \<Rightarrow> thread_func \<Rightarrow> kernel \<Rightarrow> c_error + kernel" where
  "thread_create t nm prio f k =
    (if t = 0 then Inr (return TID_ERROR k)
     else bindE (init_thread t nm prio k) (\<lambda>k.
       Inr (push [Call (Lock_Acquire Tid_Lock), Assign_Tid, Call (Lock_Release Tid_Lock),
                  Create_Frames t f, Unblock t] (k\<lparr>code := (code k)(t := [])\<rparr>))))"

definition assign_tid :: "kernel \<Rightarrow> c_error + kernel" where
  "assign_tid k =
    bindE (guardE SignedOverflow (next_tid k < 2 ^ 31 - 1)) (\<lambda>_.
      Inr (return (next_tid k) (k\<lparr>next_tid := next_tid k + 1\<rparr>)))"

definition create_frames :: "ptr \<Rightarrow> thread_func \<Rightarrow> kernel \<Rightarrow> c_error + kernel" where
  "create_frames t f k =
    (let k = set_thread t (tid_update (\<lambda>_. ret k (cur k))) k in
     bindE (alloc_frame t 12 k) (\<lambda>k.
     bindE (alloc_frame t 4 k) (\<lambda>k.
     bindE (alloc_frame t 28 k) (\<lambda>k.
       Inr (k\<lparr>code := (code k)(t := kernel_thread f)\<rparr>)))))"

text \<open>The idle thread.\<close>

definition idle :: "kernel \<Rightarrow> c_error + kernel" where
  "idle k = bindE (thread_current k) (\<lambda>t. Inr (push [Call (Sema_Up Idle_Started)] (k\<lparr>idle_thread := t\<rparr>)))"

definition idle_loop :: "kernel \<Rightarrow> c_error + kernel" where
  "idle_loop k = thread_block (push [Sti_Hlt, Idle_Loop] (intr_disable k))"

section \<open>Sleeping\<close>

definition timer_ticks :: "kernel \<Rightarrow> int" where "timer_ticks k = ticks k"
definition timer_elapsed :: "int \<Rightarrow> kernel \<Rightarrow> int" where "timer_elapsed since k = timer_ticks k - since"

definition has_less_sleep_time :: "kernel \<Rightarrow> ptr \<Rightarrow> ptr \<Rightarrow> bool" where
  "has_less_sleep_time k a b = (wake_at k a < wake_at k b)"

definition timer_sleep :: "int \<Rightarrow> kernel \<Rightarrow> c_error + kernel" where
  "timer_sleep n k =
    (if n < 0 then Inr k
     else let start = timer_ticks k in
       bindE (guardE AssertFailed (intr_get_level k)) (\<lambda>_.
       bindE (guardE SignedOverflow (start + n < 2 ^ 63)) (\<lambda>_.
         Inr (push [Call (Sema_Down Sleeping_List_Sema), Sleep_Insert (start + n),
           Call (Sema_Up Sleeping_List_Sema), Call (Sema_Down (Sleep_Sema (cur k))), Sleep_Return (start + n)] k))))"

definition sleep_insert :: "int \<Rightarrow> kernel \<Rightarrow> kernel" where
  "sleep_insert e k =
    (let k = (sema_init (Sleep_Sema (cur k)) 0 k)\<lparr>wake_at := (wake_at k)(cur k := e)\<rparr>
     in k\<lparr>sleepers := insort_by (has_less_sleep_time k) (cur k) (sleepers k)\<rparr>)"

fun wake_loop :: "ptr list \<Rightarrow> kernel \<Rightarrow> c_error + kernel" where
  "wake_loop [] k = Inr k"
| "wake_loop (e # es) k =
    (if wake_at k e \<le> timer_ticks k then
       bindE (sema_up (Sleep_Sema e) k) (\<lambda>k. wake_loop es (k\<lparr>sleepers := remove1 e (sleepers k)\<rparr>))
     else Inr k)"

definition try_to_wake_up_threads :: "kernel \<Rightarrow> c_error + kernel" where
  "try_to_wake_up_threads k =
    bindE (sema_try_down Sleeping_List_Sema k) (\<lambda>(ok, k).
      if ok then bindE (wake_loop (sleepers k) k) (sema_up Sleeping_List_Sema) else Inr k)"

text \<open>The \<open>int64_t\<close> that counts the ticks is an unbounded integer here.\<close>

definition timer_interrupt :: "kernel \<Rightarrow> c_error + kernel" where
  "timer_interrupt k =
    bindE (try_to_wake_up_threads (k\<lparr>ticks := ticks k + 1\<rparr>)) thread_tick"

text \<open>
  \<open>intr_handler\<close> on a timer interrupt. The processor enters it with interrupts off and its return
  turns them on again.
\<close>

definition intr_handler :: "kernel \<Rightarrow> c_error + kernel" where
  "intr_handler k =
    (let k = push [Iret] (k\<lparr>intr_on := False\<rparr>) in
     bindE (guardE AssertFailed (\<not> intr_get_level k)) (\<lambda>_.
     bindE (guardE AssertFailed (\<not> intr_context k)) (\<lambda>_.
     bindE (timer_interrupt (k\<lparr>in_external_intr := True, yield_on_return := False\<rparr>)) (\<lambda>k.
     bindE (guardE AssertFailed (\<not> intr_get_level k)) (\<lambda>_.
     bindE (guardE AssertFailed (intr_context k)) (\<lambda>_.
       let k = k\<lparr>in_external_intr := False\<rparr>
       in if yield_on_return k then thread_yield k else Inr k))))))"

section \<open>Steps\<close>

fun exec_call :: "call \<Rightarrow> kernel \<Rightarrow> c_error + kernel" where
  "exec_call (Sema_Down s) k = sema_down s k"
| "exec_call (Sema_Try_Down s) k = bindE (sema_try_down s k) (\<lambda>(r, k). Inr (return (of_bool r) k))"
| "exec_call (Sema_Up s) k = sema_up s k"
| "exec_call (Lock_Acquire l) k = lock_acquire l k"
| "exec_call (Lock_Try_Acquire l) k = lock_try_acquire l k"
| "exec_call (Lock_Release l) k = lock_release l k"
| "exec_call (Cond_Wait c l) k = cond_wait c l k"
| "exec_call (Cond_Signal c l) k = cond_signal c l k"
| "exec_call (Cond_Broadcast c l) k = cond_broadcast c l k"
| "exec_call Thread_Yield k = thread_yield k"
| "exec_call Thread_Exit k = thread_exit k"
| "exec_call (Thread_Create t nm prio f) k = thread_create t nm prio f k"
| "exec_call (Thread_Set_Priority p) k = thread_set_priority p k"
| "exec_call (Timer_Sleep n) k = timer_sleep n k"

fun exec :: "op \<Rightarrow> kernel \<Rightarrow> c_error + kernel" where
  "exec (Call c) k = exec_call c k"
| "exec (Set_Level level) k = intr_set_level level k"
| "exec Iret k = Inr (k\<lparr>intr_on := True\<rparr>)"
| "exec (Down_Loop s) k = down_loop s k"
| "exec (Set_Holder l) k = set_holder l k"
| "exec (Try_Holder l) k = try_holder l k"
| "exec (Unlock l) k = sema_up (Lock_Sema l) k"
| "exec Assign_Tid k = assign_tid k"
| "exec (Create_Frames t f) k = create_frames t f k"
| "exec (Unblock t) k = thread_unblock t k"
| "exec Idle k = idle k"
| "exec Idle_Loop k = idle_loop k"
| "exec Sti_Hlt k = Inr (k\<lparr>intr_on := True\<rparr>)"
| "exec (Sleep_Insert e) k = Inr (sleep_insert e k)"
| "exec (Sleep_Return e) k = Inr (log (Slept (cur k) e (ticks k)) k)"

text \<open>The calls a client may make: on its own objects, and with a free page for a new thread.\<close>

fun client_call :: "kernel \<Rightarrow> call \<Rightarrow> bool" where
  "client_call k (Sema_Down s) = (\<exists>n. s = Sema n)"
| "client_call k (Sema_Try_Down s) = (\<exists>n. s = Sema n)"
| "client_call k (Sema_Up s) = (\<exists>n. s = Sema n)"
| "client_call k (Lock_Acquire l) = (\<exists>n. l = Lock n)"
| "client_call k (Lock_Try_Acquire l) = (\<exists>n. l = Lock n)"
| "client_call k (Lock_Release l) = (\<exists>n. l = Lock n)"
| "client_call k (Cond_Wait c l) = (\<exists>n. l = Lock n)"
| "client_call k (Cond_Signal c l) = (\<exists>n. l = Lock n)"
| "client_call k (Cond_Broadcast c l) = (\<exists>n. l = Lock n)"
| "client_call k (Thread_Create t nm prio f) = (f = Client \<and> (t = 0 \<or> t \<notin> set (all_list k)))"
| "client_call k _ = True"

definition step_op :: "kernel \<Rightarrow> c_error + kernel" where
  "step_op k =
    (case code k (cur k) of
       [] \<Rightarrow> Inr k
     | p # ps \<Rightarrow> exec p (k\<lparr>code := (code k)(cur k := ps)\<rparr>))"

inductive kstep :: "kernel \<Rightarrow> kernel \<Rightarrow> bool" where
  run: "code k (cur k) \<noteq> [] \<Longrightarrow> step_op k = Inr k' \<Longrightarrow> kstep k k'"
| call: "code k (cur k) = [] \<Longrightarrow> client_call k c \<Longrightarrow> exec_call c k = Inr k' \<Longrightarrow> kstep k k'"
| tick: "intr_on k \<Longrightarrow> intr_handler k = Inr k' \<Longrightarrow> kstep k k'"

inductive_cases kstepE: "kstep k k'"

section \<open>Starting up\<close>

text \<open>\<open>thread_init\<close>: the running code becomes the thread \<open>m\<close>, named "main".\<close>

definition thread_init :: "ptr \<Rightarrow> kernel \<Rightarrow> c_error + kernel" where
  "thread_init m k =
    bindE (guardE AssertFailed (\<not> intr_get_level k)) (\<lambda>_.
      let k = (lock_init Tid_Lock k)\<lparr>ready_list := [], all_list := [], initial_thread := m, cur := m\<rparr> in
      bindE (init_thread m [0x6d, 0x61, 0x69, 0x6e] PRI_DEFAULT k) (\<lambda>k.
        Inr (push [Call (Lock_Acquire Tid_Lock), Assign_Tid, Call (Lock_Release Tid_Lock)]
          (set_thread m (status_update (\<lambda>_. THREAD_RUNNING)) (k\<lparr>code := (code k)(m := [])\<rparr>)))))"

definition timer_init :: "kernel \<Rightarrow> kernel" where
  "timer_init k = sema_init Sleeping_List_Sema 1 (k\<lparr>sleepers := []\<rparr>)"

text \<open>\<open>thread_start\<close>, up to the point where interrupts are on.\<close>

definition thread_start :: "ptr \<Rightarrow> kernel \<Rightarrow> c_error + kernel" where
  "thread_start i k =
    bindE (thread_create i [0x69, 0x64, 0x6c, 0x65] PRI_MIN Idle_Func (sema_init Idle_Started 0 k)) (\<lambda>k.
      Inr (k\<lparr>code := (code k)(cur k := code k (cur k) @ [Set_Level True, Call (Sema_Down Idle_Started)])\<rparr>))"

text \<open>
  The kernel at the first instruction: static data is zero, and the clients' objects are initialised
  by \<open>sema_init\<close>, \<open>lock_init\<close> and \<open>cond_init\<close>, with any values for the semaphores. \<open>booted\<close> is the
  state in which \<open>thread_start\<close> turns interrupts on.
\<close>

definition kernel0 :: "(nat \<Rightarrow> word_t) \<Rightarrow> kernel" where
  "kernel0 v = \<lparr>threads = (\<lambda>_. \<lparr>tid = 0, status = THREAD_RUNNING, name = [], stack = 0, priority = 0, magic = 0\<rparr>),
     ready_list = [], all_list = [], idle_thread = 0, initial_thread = 0, cur = 0, next_tid = 1,
     thread_ticks = 0, idle_ticks = 0, kernel_ticks = 0,
     intr_on = False, in_external_intr = False, yield_on_return = False,
     semas = (\<lambda>s. case s of Sema n \<Rightarrow> \<lparr>count = v n, waiters = []\<rparr>
                | Lock_Sema l \<Rightarrow> \<lparr>count = 1, waiters = []\<rparr> | _ \<Rightarrow> \<lparr>count = 0, waiters = []\<rparr>),
     holder = (\<lambda>_. 0), conds = (\<lambda>_. []), ticks = 0, sleepers = [], wake_at = (\<lambda>_. 0),
     code = (\<lambda>_. []), ret = (\<lambda>_. 0), freed = [], trace = []\<rparr>"

fun run_ops :: "nat \<Rightarrow> kernel \<Rightarrow> c_error + kernel" where
  "run_ops 0 k = Inr k"
| "run_ops (Suc n) k = bindE (step_op k) (run_ops n)"

definition booted :: "(nat \<Rightarrow> word_t) \<Rightarrow> ptr \<Rightarrow> ptr \<Rightarrow> c_error + kernel" where
  "booted v m i =
    bindE (thread_init m (kernel0 v)) (\<lambda>k. bindE (run_ops 8 k) (\<lambda>k.
    bindE (thread_start i (timer_init k)) (run_ops 10)))"

definition reachable :: "(nat \<Rightarrow> word_t) \<Rightarrow> ptr \<Rightarrow> ptr \<Rightarrow> kernel \<Rightarrow> bool" where
  "reachable v m i k \<longleftrightarrow> (\<exists>k0. booted v m i = Inr k0 \<and> kstep\<^sup>*\<^sup>* k0 k)"

section \<open>What the primitives do\<close>

lemmas kernel_defs = set_thread_def set_count_def set_waiters_def push_def return_def log_def intr_get_level_def
  intr_context_def intr_disable_def timer_ticks_def

lemma thread_current_Inr [simp]:
  "thread_current k = Inr t \<longleftrightarrow> t = cur k \<and> is_thread k t \<and> status (threads k t) = THREAD_RUNNING"
  by (auto simp: thread_current_def)

text \<open>Scheduling changes who runs, and nothing of what the threads have to do or wait for.\<close>

definition chosen :: "kernel \<Rightarrow> ptr" where
  "chosen k = (if ready_list k = [] then idle_thread k else hd (ready_list k))"

definition dies :: "kernel \<Rightarrow> bool" where
  "dies k \<longleftrightarrow> cur k \<noteq> 0 \<and> cur k \<noteq> chosen k \<and> status (threads k (cur k)) = THREAD_DYING \<and> cur k \<noteq> initial_thread k"

lemma next_thread_eq: "next_thread_to_run k = (chosen k, k\<lparr>ready_list := tl (ready_list k)\<rparr>)"
  by (cases k) (simp add: next_thread_to_run_def chosen_def split: list.split)

definition switched :: "kernel \<Rightarrow> kernel" where
  "switched k = (let t = chosen k; ths = (threads k)(t := (threads k t)\<lparr>status := THREAD_RUNNING\<rparr>) in
     k\<lparr>ready_list := tl (ready_list k), cur := t, thread_ticks := 0,
       threads := (if dies k then ths(cur k := (threads k (cur k))\<lparr>magic := 0xcccccccc\<rparr>) else ths),
       freed := (if dies k then freed k @ [cur k] else freed k)\<rparr>)"

lemma schedule_Inr_iff:
  "schedule k = Inr k' \<longleftrightarrow> \<not> intr_on k \<and> status (threads k (cur k)) \<noteq> THREAD_RUNNING \<and>
    is_thread k (chosen k) \<and> k' = switched k"
proof (cases "cur k = chosen k")
  case True
  then show ?thesis
    by (auto simp: schedule_def next_thread_eq thread_schedule_tail_def kernel_defs is_thread_def
        switched_def dies_def Let_def)
next
  case False
  show ?thesis
  proof (cases "dies k")
    case True
    then show ?thesis using False
      by (auto simp: schedule_def next_thread_eq thread_schedule_tail_def kernel_defs is_thread_def
        switched_def dies_def Let_def)
  next
    case nd: False
    then show ?thesis using False
      by (auto simp: schedule_def next_thread_eq thread_schedule_tail_def kernel_defs is_thread_def
        switched_def dies_def Let_def)
  qed
qed

end
