(* ===== verification/Pintos_Threads_Inv.thy ===== *)
theory Pintos_Threads_Inv
  imports Pintos_Threads
begin

text \<open>
  The invariants of the threads of \<open>Pintos_Threads\<close>, each shown to hold after start-up and to be
  kept by every step: the scheduler's (who is running, ready or waiting, and in which list), the
  locks' (one thread at a time between acquiring and releasing), the semaphores' (no wake-up is lost)
  and the sleeping threads' (nobody is woken early).
\<close>

section \<open>Results of the primitives\<close>

definition ready_thread :: "ptr \<Rightarrow> kernel \<Rightarrow> kernel" where
  "ready_thread t k = k\<lparr>threads := (threads k)(t := (threads k t)\<lparr>status := THREAD_READY\<rparr>),
     ready_list := ready_list k @ [t]\<rparr>"

definition blocked_thread :: "kernel \<Rightarrow> kernel" where
  "blocked_thread k = k\<lparr>threads := (threads k)(cur k := (threads k (cur k))\<lparr>status := THREAD_BLOCKED\<rparr>)\<rparr>"

lemma intr_set_level_Inr: "intr_set_level b k = Inr k' \<longleftrightarrow> (b \<longrightarrow> \<not> in_external_intr k) \<and> k' = k\<lparr>intr_on := b\<rparr>"
  by (auto simp: intr_set_level_def intr_enable_def kernel_defs)

lemma kernel_same_level [simp]: "k\<lparr>intr_on := intr_on k\<rparr> = k"
  by (cases k) simp

lemma thread_unblock_Inr: "thread_unblock t k = Inr k' \<longleftrightarrow>
    is_thread k t \<and> status (threads k t) = THREAD_BLOCKED \<and> (intr_on k \<longrightarrow> \<not> in_external_intr k) \<and>
    k' = ready_thread t k"
proof -
  have "ready_thread t k = (ready_thread t k)\<lparr>intr_on := intr_on k\<rparr>" by (cases k) (simp add: ready_thread_def)
  then show ?thesis
    by (auto simp: thread_unblock_def Let_def intr_set_level_Inr kernel_defs ready_thread_def)
qed

lemma thread_block_Inr: "thread_block k = Inr k' \<longleftrightarrow> \<not> in_external_intr k \<and> \<not> intr_on k \<and>
    is_thread k (cur k) \<and> status (threads k (cur k)) = THREAD_RUNNING \<and>
    is_thread k (chosen k) \<and> k' = switched (blocked_thread k)"
  by (auto simp: thread_block_def schedule_Inr_iff kernel_defs blocked_thread_def is_thread_def chosen_def
      split: if_splits)

lemma sema_try_down_Inr: "sema_try_down s k = Inr (r, k') \<longleftrightarrow> (intr_on k \<longrightarrow> \<not> in_external_intr k) \<and>
    r = (count (semas k s) \<noteq> 0) \<and> k' = (if r then set_count s (count (semas k s) - 1) k else k)"
proof -
  have "set_count s v k = (set_count s v k)\<lparr>intr_on := intr_on k\<rparr>" for v by (cases k) (simp add: set_count_def)
  then show ?thesis
    by (auto simp: sema_try_down_def Let_def intr_set_level_Inr kernel_defs set_count_def word_neq_0_conv
        split: if_splits)
qed

definition woken :: "sema_id \<Rightarrow> kernel \<Rightarrow> kernel" where
  "woken s k = (case waiters (semas k s) of [] \<Rightarrow> k | t # ts \<Rightarrow> ready_thread t (set_waiters s ts k))"

lemma sema_up_Inr: "sema_up s k = Inr k' \<longleftrightarrow> (intr_on k \<longrightarrow> \<not> in_external_intr k) \<and>
    (\<forall>t \<in> set (take 1 (waiters (semas k s))). is_thread k t \<and> status (threads k t) = THREAD_BLOCKED) \<and>
    k' = set_count s (count (semas k s) + 1) (woken s k)"
proof (cases "waiters (semas k s)")
  case Nil
  have "set_count s v k = (set_count s v k)\<lparr>intr_on := intr_on k\<rparr>" for v by (cases k) (simp add: set_count_def)
  then show ?thesis using Nil
    by (auto simp: sema_up_def Let_def intr_set_level_Inr kernel_defs set_count_def woken_def)
next
  case (Cons t ts)
  have "set_count s v (woken s k) = (set_count s v (woken s k))\<lparr>intr_on := intr_on k\<rparr>" for v
    using Cons by (cases k) (simp add: set_count_def woken_def ready_thread_def set_waiters_def)
  then show ?thesis using Cons
    by (auto simp: sema_up_def Let_def intr_set_level_Inr thread_unblock_Inr kernel_defs set_count_def woken_def
        ready_thread_def set_waiters_def is_thread_def)
qed

definition waiting :: "sema_id \<Rightarrow> kernel \<Rightarrow> kernel" where
  "waiting s k = push [Down_Loop s] (set_waiters s (waiters (semas k s) @ [cur k]) k)"

lemma down_loop_Inr: "down_loop s k = Inr k' \<longleftrightarrow>
    (if count (semas k s) = 0
     then \<not> in_external_intr k \<and> \<not> intr_on k \<and> is_thread k (cur k) \<and>
       status (threads k (cur k)) = THREAD_RUNNING \<and> is_thread k (chosen k) \<and>
       k' = switched (blocked_thread (waiting s k))
     else k' = set_count s (count (semas k s) - 1) k)"
proof -
  have w: "in_external_intr (waiting s k) = in_external_intr k" "intr_on (waiting s k) = intr_on k"
    "threads (waiting s k) = threads k" "cur (waiting s k) = cur k" "chosen (waiting s k) = chosen k"
    by (simp_all add: waiting_def push_def set_waiters_def chosen_def)
  show ?thesis
    by (auto simp: down_loop_def w thread_block_Inr is_thread_def simp flip: waiting_def)
qed

section \<open>The scheduler\<close>

abbreviation st :: "kernel \<Rightarrow> ptr \<Rightarrow> thread_status" where
  "st k t \<equiv> status (threads k t)"

text \<open>
  \<open>i\<close> is the page of the idle thread. While \<open>r\<close> holds, the current thread is marked as running; it is
  not between the moment it gives up the processor and the end of \<open>schedule\<close>.
\<close>

definition sched :: "ptr \<Rightarrow> bool \<Rightarrow> kernel \<Rightarrow> bool" where
  "sched i r k \<longleftrightarrow> distinct (all_list k) \<and> 0 \<notin> set (all_list k) \<and> i \<in> set (all_list k) \<and>
     (r \<longrightarrow> cur k \<in> set (all_list k)) \<and>
     (\<forall>t \<in> set (all_list k). magic (threads k t) = THREAD_MAGIC \<and> st k t \<noteq> THREAD_DYING \<and>
        (st k t = THREAD_RUNNING \<longleftrightarrow> r \<and> t = cur k)) \<and>
     distinct (ready_list k) \<and>
     (\<forall>t. t \<in> set (ready_list k) \<longleftrightarrow> t \<in> set (all_list k) \<and> st k t = THREAD_READY \<and> t \<noteq> idle_thread k) \<and>
     (idle_thread k = i \<or> idle_thread k = 0 \<and> st k i \<noteq> THREAD_BLOCKED)"

lemma sched_same:
  "\<lbrakk>sched i r k; all_list k' = all_list k; cur k' = cur k; ready_list k' = ready_list k;
    idle_thread k' = idle_thread k;
    \<And>t. st k' t = st k t \<and> magic (threads k' t) = magic (threads k t)\<rbrakk> \<Longrightarrow> sched i r k'"
  by (simp add: sched_def)

lemma schedD:
  assumes "sched i r k"
  shows "distinct (all_list k)" "0 \<notin> set (all_list k)" "i \<in> set (all_list k)" "i \<noteq> 0"
    "r \<Longrightarrow> cur k \<in> set (all_list k)" "distinct (ready_list k)"
    "t \<in> set (all_list k) \<Longrightarrow> magic (threads k t) = THREAD_MAGIC"
    "t \<in> set (all_list k) \<Longrightarrow> st k t \<noteq> THREAD_DYING"
    "t \<in> set (all_list k) \<Longrightarrow> st k t = THREAD_RUNNING \<longleftrightarrow> r \<and> t = cur k"
    "t \<in> set (ready_list k) \<longleftrightarrow> t \<in> set (all_list k) \<and> st k t = THREAD_READY \<and> t \<noteq> idle_thread k"
    "idle_thread k = i \<or> idle_thread k = 0 \<and> st k i \<noteq> THREAD_BLOCKED"
  using assms unfolding sched_def by metis+

text \<open>There is always a thread to run.\<close>

lemma idle_or_ready:
  assumes "sched i False k" "ready_list k = []"
  shows "idle_thread k = i"
proof (rule ccontr)
  assume "idle_thread k \<noteq> i"
  then have "idle_thread k = 0" "st k i \<noteq> THREAD_BLOCKED" using schedD(11) [OF assms(1)] by auto
  moreover have "st k i \<noteq> THREAD_DYING" "st k i \<noteq> THREAD_RUNNING" "i \<noteq> 0"
    using schedD(3,4) [OF assms(1)] schedD(8,9) [OF assms(1), of i] by auto
  ultimately have "i \<in> set (ready_list k)"
    using schedD(3) [OF assms(1)] schedD(10) [OF assms(1), of i] by (metis thread_status.exhaust)
  then show False using assms(2) by simp
qed

lemma chosen_in:
  assumes "sched i False k"
  shows "chosen k \<in> set (all_list k)" "is_thread k (chosen k)"
    "st k (chosen k) = THREAD_READY \<or> chosen k = i"
proof -
  have c: "chosen k \<in> set (ready_list k) \<or> chosen k = i"
    using idle_or_ready [OF assms] by (cases "ready_list k") (auto simp: chosen_def)
  show "chosen k \<in> set (all_list k)" "st k (chosen k) = THREAD_READY \<or> chosen k = i"
    using c schedD(10) [OF assms, of "chosen k"] schedD(3) [OF assms] by auto
  moreover from this have "chosen k \<noteq> 0" using schedD(2) [OF assms] by metis
  ultimately show "is_thread k (chosen k)" using schedD(7) [OF assms] by (simp add: is_thread_def)
qed

lemma switched_fields [simp]:
  "cur (switched k) = chosen k" "all_list (switched k) = all_list k" "code (switched k) = code k"
  "semas (switched k) = semas k" "holder (switched k) = holder k" "conds (switched k) = conds k"
  "ready_list (switched k) = tl (ready_list k)" "idle_thread (switched k) = idle_thread k"
  "intr_on (switched k) = intr_on k" "in_external_intr (switched k) = in_external_intr k"
  "sleepers (switched k) = sleepers k" "wake_at (switched k) = wake_at k" "ticks (switched k) = ticks k"
  "trace (switched k) = trace k" "initial_thread (switched k) = initial_thread k"
  "thread_ticks (switched k) = 0" "next_tid (switched k) = next_tid k"
  by (simp_all add: switched_def Let_def)

lemma switched_st:
  "(dies k \<Longrightarrow> t \<noteq> cur k) \<Longrightarrow> st (switched k) t = (if t = chosen k then THREAD_RUNNING else st k t)"
  "(dies k \<Longrightarrow> t \<noteq> cur k) \<Longrightarrow> magic (threads (switched k) t) = magic (threads k t)"
  by (auto simp: switched_def Let_def)

lemma sched_switched:
  assumes "sched i False k"
  shows "sched i True (switched k)"
proof -
  note c = chosen_in [OF assms]
  have nd: "t \<noteq> cur k" if "t \<in> set (all_list k)" "dies k" for t
    using schedD(8) [OF assms that(1)] that(2) by (auto simp: dies_def)
  have s: "st (switched k) t = (if t = chosen k then THREAD_RUNNING else st k t)"
    "magic (threads (switched k) t) = magic (threads k t)" if "t \<in> set (all_list k)" for t
    using switched_st nd [OF that] by auto
  have tl: "t \<in> set (tl (ready_list k)) \<longleftrightarrow> t \<in> set (ready_list k) \<and> t \<noteq> chosen k"
    if "t \<noteq> idle_thread k" for t
    using schedD(6) [OF assms] that by (cases "ready_list k") (auto simp: chosen_def)
  have idle: "idle_thread k \<notin> set (tl (ready_list k))"
    using schedD(10) [OF assms, of "idle_thread k"] by (cases "ready_list k") auto
  have ready: "t \<in> set (tl (ready_list k)) \<longleftrightarrow>
      t \<in> set (all_list k) \<and> st (switched k) t = THREAD_READY \<and> t \<noteq> idle_thread k" for t
  proof (cases "t = idle_thread k")
    case False
    then show ?thesis using tl [OF False] schedD(10) [OF assms, of t] s(1) [of t] c(1)
      by (auto split: if_splits)
  qed (use idle in simp)
  have "idle_thread k = i \<or> idle_thread k = 0 \<and> st (switched k) i \<noteq> THREAD_BLOCKED"
    using schedD(11) [OF assms] s(1) [OF schedD(3) [OF assms]] by auto
  moreover have "\<forall>t \<in> set (all_list k). magic (threads (switched k) t) = THREAD_MAGIC \<and>
      st (switched k) t \<noteq> THREAD_DYING \<and> (st (switched k) t = THREAD_RUNNING \<longleftrightarrow> t = chosen k)"
    using s schedD(7-9) [OF assms] by simp
  ultimately show ?thesis
    unfolding sched_def switched_fields
    using schedD(1-3) [OF assms] c(1) ready distinct_tl [OF schedD(6) [OF assms]] by simp
qed

text \<open>The ways to give up the processor, and to become ready.\<close>

lemma schedI:
  assumes "distinct (all_list k)" "0 \<notin> set (all_list k)" "i \<in> set (all_list k)"
    "r \<Longrightarrow> cur k \<in> set (all_list k)" "distinct (ready_list k)"
    "\<And>t. t \<in> set (all_list k) \<Longrightarrow> magic (threads k t) = THREAD_MAGIC \<and> st k t \<noteq> THREAD_DYING \<and>
       (st k t = THREAD_RUNNING \<longleftrightarrow> r \<and> t = cur k)"
    "\<And>t. t \<in> set (ready_list k) \<longleftrightarrow> t \<in> set (all_list k) \<and> st k t = THREAD_READY \<and> t \<noteq> idle_thread k"
    "idle_thread k = i \<or> idle_thread k = 0 \<and> st k i \<noteq> THREAD_BLOCKED"
  shows "sched i r k"
  using assms unfolding sched_def by (intro conjI allI ballI impI) blast+

lemma sched_cur:
  assumes "sched i True k"
  shows "cur k \<in> set (all_list k)" "st k (cur k) = THREAD_RUNNING" "cur k \<notin> set (ready_list k)"
    "is_thread k (cur k)"
  using schedD(5) [OF assms] schedD(9,7) [OF assms, of "cur k"] schedD(10) [OF assms, of "cur k"]
    schedD(2) [OF assms]
  by (auto simp: is_thread_def intro: ccontr)

text \<open>A new status for the current thread.\<close>

lemma sched_give_up:
  assumes "sched i True k" "s \<noteq> THREAD_RUNNING" "s \<noteq> THREAD_DYING" "cur k = i \<and> s = THREAD_BLOCKED \<longrightarrow> idle_thread k = i"
  shows "sched i False (k\<lparr>threads := (threads k)(cur k := (threads k (cur k))\<lparr>status := s\<rparr>),
    ready_list := (if s = THREAD_READY \<and> cur k \<noteq> idle_thread k then ready_list k @ [cur k] else ready_list k)\<rparr>)"
  using sched_cur [OF assms(1)] schedD [OF assms(1)] assms(2-4)
  by (intro schedI) auto

lemma sched_blocked:
  assumes "sched i True k" "cur k = i \<longrightarrow> idle_thread k = i"
  shows "sched i False (blocked_thread k)"
  using sched_give_up [OF assms(1), of THREAD_BLOCKED] assms(2) by (simp add: blocked_thread_def)

lemma sched_exiting:
  assumes "sched i True k" "cur k \<noteq> i"
  shows "sched i False (k\<lparr>threads := (threads k)(cur k := (threads k (cur k))\<lparr>status := THREAD_DYING\<rparr>),
    all_list := remove1 (cur k) (all_list k)\<rparr>)"
proof -
  have "set (remove1 (cur k) (all_list k)) = set (all_list k) - {cur k}"
    using schedD(1) [OF assms(1)] by simp
  then show ?thesis
    using sched_cur [OF assms(1)] schedD [OF assms(1)] assms(2)
    by (intro schedI) (auto simp: distinct_remove1)
qed

lemma sched_ready:
  assumes "sched i r k" "t \<in> set (all_list k)" "st k t = THREAD_BLOCKED" "t \<noteq> i"
  shows "sched i r (ready_thread t k)"
proof -
  have "t \<notin> set (ready_list k)" using schedD(10) [OF assms(1)] assms(3) by simp
  moreover have "t \<noteq> idle_thread k" using schedD(11) [OF assms(1)] assms(2,4) schedD(2) [OF assms(1)] by metis
  moreover have "r \<longrightarrow> t \<noteq> cur k" using schedD(9) [OF assms(1,2)] assms(3) by auto
  ultimately show ?thesis
    using schedD [OF assms(1)] assms(2-4) by (intro schedI) (auto simp: ready_thread_def)
qed

lemma sched_create:
  assumes "sched i r k" "t \<notin> set (all_list k)" "t \<noteq> 0" "st k' t = THREAD_BLOCKED"
    "magic (threads k' t) = THREAD_MAGIC" "all_list k' = all_list k @ [t]" "cur k' = cur k"
    "ready_list k' = ready_list k" "idle_thread k' = idle_thread k" "\<And>u. u \<noteq> t \<Longrightarrow> threads k' u = threads k u"
  shows "sched i r k'"
proof -
  have n: "t \<notin> set (ready_list k)" "t \<noteq> i" "r \<longrightarrow> t \<noteq> cur k"
    using schedD(3,5,10) [OF assms(1)] assms(2) by auto
  show ?thesis
  proof (rule schedI)
    fix u
    show "u \<in> set (ready_list k') \<longleftrightarrow> u \<in> set (all_list k') \<and> st k' u = THREAD_READY \<and> u \<noteq> idle_thread k'"
      using schedD(10) [OF assms(1), of u] assms(4,6,8,9,10) n(1) by (cases "u = t") auto
    assume "u \<in> set (all_list k')"
    then show "magic (threads k' u) = THREAD_MAGIC \<and> st k' u \<noteq> THREAD_DYING \<and>
       (st k' u = THREAD_RUNNING \<longleftrightarrow> r \<and> u = cur k')"
      using schedD(7-9) [OF assms(1), of u] assms(4-7,10) n by (cases "u = t") auto
  qed (use schedD [OF assms(1)] assms n in auto)
qed

section \<open>What threads have still to do, and where they wait\<close>

text \<open>The operations that remain for a client inside a kernel function, and for the idle thread.\<close>

fun internal :: "op \<Rightarrow> bool" where
  "internal (Call (Sema_Down s)) = True"
| "internal (Call (Sema_Up s)) = ((\<exists>t. s = Waiter t) \<or> s = Sleeping_List_Sema)"
| "internal (Call (Lock_Acquire l)) = True"
| "internal (Call (Lock_Release l)) = True"
| "internal (Call (Cond_Signal c l)) = True"
| "internal (Call (Cond_Broadcast c l)) = True"
| "internal (Call _) = False"
| "internal Idle = False"
| "internal Idle_Loop = False"
| "internal Sti_Hlt = False"
| "internal _ = True"

definition idle_ops :: "op set" where
  "idle_ops = range Set_Level \<union> {Iret, Sti_Hlt, Call (Sema_Up Idle_Started)}"

definition down_loops :: "op set" where "down_loops = range Down_Loop"

definition code_ok :: "ptr \<Rightarrow> kernel \<Rightarrow> bool" where
  "code_ok i k \<longleftrightarrow>
     (\<forall>t \<in> set (all_list k). t \<noteq> i \<longrightarrow>
        Ball (set (code k t)) internal \<and> set (tl (code k t)) \<inter> down_loops = {}) \<and>
     (\<exists>qs. code k i = qs @ (if idle_thread k = 0 then [Idle, Idle_Loop] else [Idle_Loop]) \<and> set qs \<subseteq> idle_ops) \<and>
     (\<forall>c. set (conds k c) \<subseteq> range Waiter) \<and>
     (\<forall>s ps. code k (cur k) = Down_Loop s # ps \<longrightarrow> \<not> intr_on k)"

definition waits_ok :: "ptr \<Rightarrow> kernel \<Rightarrow> bool" where
  "waits_ok i k \<longleftrightarrow> (\<forall>s. distinct (waiters (semas k s)) \<and>
     (\<forall>t \<in> set (waiters (semas k s)). t \<in> set (all_list k) \<and> t \<noteq> i \<and> st k t = THREAD_BLOCKED \<and>
        (\<exists>ps. code k t = Down_Loop s # ps)))"

text \<open>A thread under construction: its creator has still to unblock it, as the last thing it does.\<close>

definition creates :: "kernel \<Rightarrow> ptr \<Rightarrow> ptr \<Rightarrow> bool" where
  "creates k u t \<longleftrightarrow> u \<in> set (all_list k) \<and> code k u \<noteq> [] \<and> last (code k u) = Unblock t"

definition creating_ok :: "ptr \<Rightarrow> kernel \<Rightarrow> bool" where
  "creating_ok i k \<longleftrightarrow>
     (\<forall>u \<in> set (all_list k). set (butlast (code k u)) \<inter> range Unblock = {} \<and>
        (\<forall>t f. Create_Frames t f \<in> set (code k u) \<longrightarrow> creates k u t \<and> f = Client)) \<and>
     (\<forall>u t. creates k u t \<longrightarrow> t \<in> set (all_list k) \<and> t \<noteq> i \<and> st k t = THREAD_BLOCKED \<and>
        (code k t = [] \<or> code k t = [Set_Level True]) \<and> (\<forall>v. creates k v t \<longrightarrow> v = u))"

definition inv :: "ptr \<Rightarrow> kernel \<Rightarrow> bool" where
  "inv i k \<longleftrightarrow> sched i True k \<and> code_ok i k \<and> waits_ok i k \<and> creating_ok i k"

lemma waits_okD:
  assumes "waits_ok i k" "t \<in> set (waiters (semas k s))"
  shows "t \<in> set (all_list k)" "t \<noteq> i" "st k t = THREAD_BLOCKED" "\<exists>ps. code k t = Down_Loop s # ps"
    "distinct (waiters (semas k s))" "t \<in> set (waiters (semas k s')) \<Longrightarrow> s' = s"
proof -
  have *: "t \<in> set (all_list k) \<and> t \<noteq> i \<and> st k t = THREAD_BLOCKED \<and> (\<exists>ps. code k t = Down_Loop s # ps)"
    if "t \<in> set (waiters (semas k s))" for s
    using assms(1) that unfolding waits_ok_def by blast
  show "s' = s" if "t \<in> set (waiters (semas k s'))" using * [OF that] * [OF assms(2)] by auto
qed (use assms in \<open>unfold waits_ok_def, blast+\<close>)

lemma creating_okD:
  assumes "creating_ok i k" "creates k u t"
  shows "t \<in> set (all_list k)" "t \<noteq> i" "st k t = THREAD_BLOCKED" "code k t = [] \<or> code k t = [Set_Level True]"
    "creates k v t \<Longrightarrow> v = u"
  using assms unfolding creating_ok_def by blast+

lemma creating_ok_frames:
  assumes "creating_ok i k" "u \<in> set (all_list k)"
  shows "set (butlast (code k u)) \<inter> range Unblock = {}"
    "Create_Frames t f \<in> set (code k u) \<Longrightarrow> creates k u t \<and> f = Client"
  using assms unfolding creating_ok_def by blast+

lemma creating_okI:
  assumes "\<And>u. u \<in> set (all_list k) \<Longrightarrow> set (butlast (code k u)) \<inter> range Unblock = {}"
    "\<And>u t f. u \<in> set (all_list k) \<Longrightarrow> Create_Frames t f \<in> set (code k u) \<Longrightarrow> creates k u t \<and> f = Client"
    "\<And>u t. creates k u t \<Longrightarrow> t \<in> set (all_list k) \<and> t \<noteq> i \<and> st k t = THREAD_BLOCKED \<and>
       (code k t = [] \<or> code k t = [Set_Level True])"
    "\<And>u v t. creates k u t \<Longrightarrow> creates k v t \<Longrightarrow> v = u"
  shows "creating_ok i k"
proof -
  have "\<forall>u \<in> set (all_list k). set (butlast (code k u)) \<inter> range Unblock = {} \<and>
      (\<forall>t f. Create_Frames t f \<in> set (code k u) \<longrightarrow> creates k u t \<and> f = Client)"
    using assms(1,2) by simp
  moreover have "t \<in> set (all_list k) \<and> t \<noteq> i \<and> st k t = THREAD_BLOCKED \<and>
      (code k t = [] \<or> code k t = [Set_Level True]) \<and> (\<forall>v. creates k v t \<longrightarrow> v = u)"
    if "creates k u t" for u t
    using assms(3) [OF that] assms(4) [OF that] by simp
  ultimately show ?thesis unfolding creating_ok_def by simp
qed

lemma waits_shrink:
  assumes "waits_ok i k" "\<And>s. distinct (waiters (semas k' s))"
    "\<And>s t. t \<in> set (waiters (semas k' s)) \<Longrightarrow> t \<in> set (waiters (semas k s)) \<and>
       t \<in> set (all_list k') \<and> st k' t = THREAD_BLOCKED \<and> code k' t = code k t"
  shows "waits_ok i k'"
  using assms by (fastforce simp: waits_ok_def)

text \<open>
  An operation that changes neither the scheduler's state nor who waits, and puts \<open>qs\<close> before what the
  running thread has to do.
\<close>

definition same_sched :: "kernel \<Rightarrow> kernel \<Rightarrow> bool" where
  "same_sched k k' \<longleftrightarrow> all_list k' = all_list k \<and> cur k' = cur k \<and> ready_list k' = ready_list k \<and>
     idle_thread k' = idle_thread k \<and>
     (\<forall>t. st k' t = st k t \<and> magic (threads k' t) = magic (threads k t)) \<and>
     (\<forall>s. set (waiters (semas k' s)) \<subseteq> set (waiters (semas k s)) \<and>
        (distinct (waiters (semas k s)) \<longrightarrow> distinct (waiters (semas k' s)))) \<and>
     (\<forall>c. set (conds k' c) \<subseteq> set (conds k c) \<union> range Waiter)"

definition pushable :: "ptr \<Rightarrow> kernel \<Rightarrow> op list \<Rightarrow> bool" where
  "pushable i k' qs \<longleftrightarrow> (if cur k' = i then set qs \<subseteq> idle_ops else Ball (set qs) internal) \<and>
     set qs \<inter> range Unblock = {} \<and> (\<forall>t f. Create_Frames t f \<notin> set qs) \<and>
     set (tl qs) \<inter> down_loops = {} \<and> (\<forall>s. qs \<noteq> [] \<and> hd qs = Down_Loop s \<longrightarrow> \<not> intr_on k')"

lemma inv_local:
  assumes "inv i k" "same_sched k k'" "code k' = (code k)(cur k := qs @ code k (cur k))" "pushable i k' qs"
    "set (code k (cur k)) \<inter> down_loops = {} \<or> qs = [] \<and> (intr_on k' \<longrightarrow> intr_on k)"
  shows "inv i k'"
proof -
  have S: "sched i True k" and C: "code_ok i k" and W: "waits_ok i k" and N: "creating_ok i k"
    using assms(1) by (simp_all add: inv_def)
  have same: "all_list k' = all_list k" "cur k' = cur k" "ready_list k' = ready_list k"
    "idle_thread k' = idle_thread k" "\<And>t. st k' t = st k t"
    and mag: "\<And>t. magic (threads k' t) = magic (threads k t)"
    and ws: "\<And>s. set (waiters (semas k' s)) \<subseteq> set (waiters (semas k s))"
      "\<And>s. distinct (waiters (semas k s)) \<Longrightarrow> distinct (waiters (semas k' s))"
    and cs: "\<And>c. set (conds k' c) \<subseteq> set (conds k c) \<union> range Waiter"
    using assms(2) by (simp_all add: same_sched_def)
  note c = sched_cur [OF S]
  have "sched i True k'" by (rule sched_same [OF S]) (simp_all add: same mag)
  moreover have "code_ok i k'"
  proof -
    have "Ball (set (code k' t)) internal \<and> set (tl (code k' t)) \<inter> down_loops = {}"
      if t: "t \<in> set (all_list k')" "t \<noteq> i" for t
    proof -
      have "Ball (set (code k t)) internal" "set (tl (code k t)) \<inter> down_loops = {}"
        using C same t by (auto simp: code_ok_def)
      moreover have "set (tl (qs @ code k (cur k))) \<inter> down_loops = {}" if "cur k \<noteq> i"
      proof -
        have "set (tl ps) \<subseteq> set ps" for ps :: "op list" by (cases ps) auto
        moreover have "set (tl (code k (cur k))) \<inter> down_loops = {}"
          using C c(1) that by (simp add: code_ok_def)
        ultimately show ?thesis using assms(4,5) by (cases qs) (auto simp: pushable_def)
      qed
      ultimately show ?thesis using assms(3,4) t(2) same by (auto simp: pushable_def)
    qed
    moreover have "\<exists>qs. code k' i = qs @ (if idle_thread k' = 0 then [Idle, Idle_Loop] else [Idle_Loop]) \<and> set qs \<subseteq> idle_ops"
    proof -
      obtain rs where rs: "code k i = rs @ (if idle_thread k = 0 then [Idle, Idle_Loop] else [Idle_Loop])" "set rs \<subseteq> idle_ops"
        using C unfolding code_ok_def by blast
      have "code k' i = (if cur k = i then qs @ rs else rs) @ (if idle_thread k' = 0 then [Idle, Idle_Loop] else [Idle_Loop])"
        using rs(1) assms(3) same by (cases "cur k = i") auto
      moreover have "set (if cur k = i then qs @ rs else rs) \<subseteq> idle_ops"
        using rs(2) assms(4) same by (auto simp: pushable_def)
      ultimately show ?thesis by blast
    qed
    moreover have "set (conds k' c) \<subseteq> range Waiter" for c
    proof -
      have "set (conds k c) \<subseteq> range Waiter" using C by (simp add: code_ok_def)
      moreover have "set (conds k' c) \<subseteq> set (conds k c) \<union> range Waiter" by (rule cs)
      ultimately show ?thesis by blast
    qed
    moreover have "\<not> intr_on k'" if "code k' (cur k') = Down_Loop s # ps" for s ps
    proof (cases qs)
      case Nil
      then show ?thesis using that assms(3,5) same C by (auto simp: down_loops_def code_ok_def)
    qed (use that assms(3,4) same in \<open>auto simp: pushable_def\<close>)
    ultimately show ?thesis unfolding code_ok_def by (intro conjI) blast+
  qed
  moreover have "waits_ok i k'"
  proof (rule waits_shrink [OF W])
    fix s show "distinct (waiters (semas k' s))" using W ws(2) by (simp add: waits_ok_def)
    fix t assume "t \<in> set (waiters (semas k' s))"
    then have t: "t \<in> set (waiters (semas k s))" using ws(1) by blast
    note t' = waits_okD [OF W t]
    have "t \<noteq> cur k" using t'(3) c(2) by auto
    then show "t \<in> set (waiters (semas k s)) \<and> t \<in> set (all_list k') \<and> st k' t = THREAD_BLOCKED \<and> code k' t = code k t"
      using t t'(1,3) same assms(3) by simp
  qed
  moreover have "creating_ok i k'"
  proof -
    have cr: "creates k' u t \<longleftrightarrow> creates k u t" for u t
    proof (cases "u = cur k \<and> code k u = []")
      case True
      have "last qs \<noteq> Unblock t" if "qs \<noteq> []"
        using last_in_set [OF that] assms(4) by (auto simp: pushable_def)
      then show ?thesis using True assms(3) same by (auto simp: creates_def)
    next
      case False
      then show ?thesis using assms(3) same by (auto simp: creates_def)
    qed
    have "code k' t = code k t" if "st k t = THREAD_BLOCKED" for t
      using that c(2) assms(3) by (cases "t = cur k") auto
    moreover have "set (butlast (code k' u)) \<inter> range Unblock = {}" if "u \<in> set (all_list k)" for u
    proof -
      have "set (butlast (code k u)) \<inter> range Unblock = {}" using N that unfolding creating_ok_def by blast
      moreover have "set (butlast qs) \<inter> range Unblock = {}" "set qs \<inter> range Unblock = {}"
        using assms(4) in_set_butlastD [of _ qs] by (auto simp: pushable_def)
      ultimately show ?thesis using assms(3) by (cases "u = cur k") (simp_all add: butlast_append Int_Un_distrib2)
    qed
    moreover have "Create_Frames t f \<in> set (code k' u) \<longleftrightarrow> Create_Frames t f \<in> set (code k u)" for t f u
      using assms(3,4) by (auto simp: pushable_def)
    ultimately show ?thesis
      using N same unfolding creating_ok_def cr by simp
  qed
  ultimately show ?thesis by (simp add: inv_def)
qed

lemma inv_ready_thread:
  assumes "inv i k" "t \<in> set (all_list k)" "t \<noteq> i" "st k t = THREAD_BLOCKED"
    "\<And>s. t \<notin> set (waiters (semas k s))" "\<And>u. \<not> creates k u t"
  shows "inv i (ready_thread t k)"
proof -
  have S: "sched i True k" and C: "code_ok i k" and W: "waits_ok i k" and N: "creating_ok i k"
    using assms(1) by (simp_all add: inv_def)
  have "code_ok i (ready_thread t k)" using C by (simp add: code_ok_def ready_thread_def)
  moreover have "waits_ok i (ready_thread t k)"
  proof (rule waits_shrink [OF W])
    fix s show "distinct (waiters (semas (ready_thread t k) s))"
      using W by (simp add: waits_ok_def ready_thread_def)
    fix u assume "u \<in> set (waiters (semas (ready_thread t k) s))"
    then have u: "u \<in> set (waiters (semas k s))" by (simp add: ready_thread_def)
    then have "u \<noteq> t" using assms(5) by auto
    then show "u \<in> set (waiters (semas k s)) \<and> u \<in> set (all_list (ready_thread t k)) \<and>
        st (ready_thread t k) u = THREAD_BLOCKED \<and> code (ready_thread t k) u = code k u"
      using u waits_okD(1,3) [OF W u] by (simp add: ready_thread_def)
  qed
  moreover have "creating_ok i (ready_thread t k)"
  proof -
    have cr: "creates (ready_thread t k) = creates k" by (simp add: creates_def ready_thread_def fun_eq_iff)
    show ?thesis
      using N assms(6) unfolding creating_ok_def cr by (simp add: ready_thread_def)
  qed
  ultimately show ?thesis using sched_ready [OF S assms(2,4,3)] by (simp add: inv_def)
qed

text \<open>The operations of semaphores that do not wait.\<close>

lemma inv_same:
  assumes "inv i k" "same_sched k k'" "code k' = code k" "intr_on k' \<longrightarrow> intr_on k"
  shows "inv i k'"
  by (rule inv_local [OF assms(1,2), of "[]"]) (use assms(3,4) in \<open>simp_all add: pushable_def\<close>)

lemma same_sched_count [simp]: "same_sched k (set_count s v k)"
  by (simp add: same_sched_def set_count_def)

lemma same_sched_waiters:
  "set ws \<subseteq> set (waiters (semas k s)) \<Longrightarrow> (distinct (waiters (semas k s)) \<Longrightarrow> distinct ws) \<Longrightarrow>
    same_sched k (set_waiters s ws k)"
  by (simp add: same_sched_def set_waiters_def)

lemma inv_set_count: "inv i k \<Longrightarrow> inv i (set_count s v k)"
  by (rule inv_same) (auto simp: set_count_def same_sched_def)

lemma creates_code: "inv i k \<Longrightarrow> creates k u t \<Longrightarrow> code k t = [] \<or> code k t = [Set_Level True]"
  unfolding inv_def creating_ok_def by blast

lemma inv_woken:
  assumes "inv i k"
  shows "inv i (woken s k)"
proof (cases "waiters (semas k s)")
  case (Cons t ts)
  let ?k = "set_waiters s ts k"
  have W: "waits_ok i k" using assms by (simp add: inv_def)
  have t: "t \<in> set (waiters (semas k s))" using Cons by simp
  note t' = waits_okD [OF W t]
  have "inv i ?k"
    by (rule inv_same [OF assms same_sched_waiters]) (use Cons in \<open>auto simp: set_waiters_def\<close>)
  moreover have "t \<notin> set (waiters (semas ?k s'))" for s'
  proof (cases "s' = s")
    case True
    then show ?thesis using t'(5) Cons by (simp add: set_waiters_def)
  next
    case False
    then have "t \<notin> set (waiters (semas k s'))" using t'(6) by blast
    then show ?thesis using False by (simp add: set_waiters_def)
  qed
  moreover have "\<not> creates ?k u t" for u
  proof
    assume "creates ?k u t"
    then have "creates k u t" by (simp add: set_waiters_def creates_def)
    from creates_code [OF assms this] show False using t'(4) by auto
  qed
  ultimately have "inv i (ready_thread t ?k)"
    using t'(1-3) by (intro inv_ready_thread) (simp_all add: set_waiters_def)
  then show ?thesis using Cons by (simp add: woken_def)
qed (use assms in \<open>simp add: woken_def\<close>)

lemma inv_sema_up: "inv i k \<Longrightarrow> sema_up s k = Inr k' \<Longrightarrow> inv i k'"
  using inv_set_count [OF inv_woken] by (auto simp: sema_up_Inr)

lemma inv_sema_try_down: "inv i k \<Longrightarrow> sema_try_down s k = Inr (r, k') \<Longrightarrow> inv i k'"
  using inv_set_count by (auto simp: sema_try_down_Inr split: if_splits)

section \<open>Giving up the processor\<close>

lemma inv_switched:
  assumes S: "sched i False k" and "\<not> intr_on k" and C: "code_ok i k" and W: "waits_ok i k" and N: "creating_ok i k"
  shows "inv i (switched k)"
proof -
  have keep: "st (switched k) t = THREAD_BLOCKED" if "t \<in> set (all_list k)" "t \<noteq> i" "st k t = THREAD_BLOCKED" for t
  proof -
    have "t \<noteq> chosen k" using chosen_in(3) [OF S] that by auto
    moreover have "dies k \<Longrightarrow> t \<noteq> cur k" using that(3) by (auto simp: dies_def)
    ultimately show ?thesis using switched_st(1) that(3) by simp
  qed
  have "code_ok i (switched k)" using C assms(2) by (simp add: code_ok_def)
  moreover have "waits_ok i (switched k)"
  proof (rule waits_shrink [OF W])
    fix s show "distinct (waiters (semas (switched k) s))" using W by (simp add: waits_ok_def)
    fix t assume "t \<in> set (waiters (semas (switched k) s))"
    then have t: "t \<in> set (waiters (semas k s))" by simp
    then show "t \<in> set (waiters (semas k s)) \<and> t \<in> set (all_list (switched k)) \<and>
        st (switched k) t = THREAD_BLOCKED \<and> code (switched k) t = code k t"
      using waits_okD(1-3) [OF W t] keep by simp
  qed
  moreover have "creating_ok i (switched k)"
  proof -
    have cr: "creates (switched k) = creates k" by (simp add: creates_def fun_eq_iff)
    show ?thesis using N keep unfolding creating_ok_def cr by simp
  qed
  ultimately show ?thesis using sched_switched [OF S] by (simp add: inv_def)
qed

lemma code_ok_same:
  "\<lbrakk>code_ok i k; all_list k' = all_list k; code k' = code k; idle_thread k' = idle_thread k; conds k' = conds k;
    cur k' = cur k; intr_on k' = intr_on k\<rbrakk> \<Longrightarrow> code_ok i k'"
  by (simp add: code_ok_def)

lemma creating_ok_same:
  assumes "creating_ok i k" "all_list k' = all_list k" "code k' = code k"
    "\<And>t. st k t = THREAD_BLOCKED \<Longrightarrow> st k' t = THREAD_BLOCKED"
  shows "creating_ok i k'"
proof -
  have cr: "creates k' = creates k" using assms(2,3) by (simp add: creates_def fun_eq_iff)
  show ?thesis using assms unfolding creating_ok_def cr by simp
qed

definition yielding :: "kernel \<Rightarrow> kernel" where
  "yielding k = k\<lparr>threads := (threads k)(cur k := (threads k (cur k))\<lparr>status := THREAD_READY\<rparr>),
    ready_list := (if cur k = idle_thread k then ready_list k else ready_list k @ [cur k])\<rparr>"

lemma inv_yielding:
  assumes "inv i k" "\<not> intr_on k"
  shows "inv i (switched (yielding k))"
proof (rule inv_switched)
  have S: "sched i True k" and C: "code_ok i k" and W: "waits_ok i k" and N: "creating_ok i k"
    using assms(1) by (simp_all add: inv_def)
  note c = sched_cur [OF S]
  show "sched i False (yielding k)"
    using sched_give_up [OF S, of THREAD_READY] by (cases "cur k = idle_thread k") (simp_all add: yielding_def)
  show "code_ok i (yielding k)" by (rule code_ok_same [OF C]) (simp_all add: yielding_def)
  show "creating_ok i (yielding k)" by (rule creating_ok_same [OF N]) (use c(2) in \<open>auto simp: yielding_def\<close>)
  show "waits_ok i (yielding k)"
  proof (rule waits_shrink [OF W])
    fix s show "distinct (waiters (semas (yielding k) s))" using W by (simp add: waits_ok_def yielding_def)
    fix t assume "t \<in> set (waiters (semas (yielding k) s))"
    then have t: "t \<in> set (waiters (semas k s))" by (simp add: yielding_def)
    then show "t \<in> set (waiters (semas k s)) \<and> t \<in> set (all_list (yielding k)) \<and>
        st (yielding k) t = THREAD_BLOCKED \<and> code (yielding k) t = code k t"
      using waits_okD(1-3) [OF W t] c(2) by (auto simp: yielding_def)
  qed
qed (use assms(2) in \<open>simp add: yielding_def\<close>)

lemma thread_yield_Inr: "thread_yield k = Inr k' \<longleftrightarrow> is_thread k (cur k) \<and> st k (cur k) = THREAD_RUNNING \<and>
    \<not> in_external_intr k \<and> is_thread k (chosen (yielding k)) \<and>
    k' = switched (yielding (push [Set_Level (intr_on k)] (k\<lparr>intr_on := False\<rparr>)))"
proof -
  let ?k = "yielding (push [Set_Level (intr_on k)] (k\<lparr>intr_on := False\<rparr>))"
  have "thread_yield k = bindE (thread_current k) (\<lambda>c. bindE (guardE AssertFailed (\<not> in_external_intr k)) (\<lambda>_. schedule ?k))"
    by (cases k) (auto simp: thread_yield_def thread_current_def Let_def kernel_defs yielding_def guardE_def)
  moreover have "st ?k (cur ?k) = THREAD_READY" "\<not> intr_on ?k" "chosen ?k = chosen (yielding k)"
    "is_thread ?k t \<longleftrightarrow> is_thread k t" for t
    by (simp_all add: yielding_def push_def chosen_def is_thread_def)
  ultimately show ?thesis by (auto simp: schedule_Inr_iff)
qed

lemma inv_thread_yield:
  assumes "inv i k" "set (code k (cur k)) \<inter> down_loops = {}" "thread_yield k = Inr k'"
  shows "inv i k'"
proof -
  have "inv i (push [Set_Level (intr_on k)] (k\<lparr>intr_on := False\<rparr>))"
    by (rule inv_local [OF assms(1), of _ "[Set_Level (intr_on k)]"])
      (use assms(2) in \<open>auto simp: push_def same_sched_def pushable_def idle_ops_def\<close>)
  then show ?thesis using assms(3) inv_yielding by (auto simp: thread_yield_Inr push_def)
qed

text \<open>Waiting for a semaphore.\<close>

lemma inv_blocked_waiting:
  assumes "inv i k" "\<not> intr_on k" "cur k \<noteq> i" "set (code k (cur k)) \<inter> down_loops = {}"
  shows "inv i (switched (blocked_thread (waiting s k)))"
proof (rule inv_switched)
  let ?k = "blocked_thread (waiting s k)"
  have S: "sched i True k" and W: "waits_ok i k" using assms(1) by (simp_all add: inv_def)
  note c = sched_cur [OF S]
  have "inv i (push [Down_Loop s] k)"
    by (rule inv_local [OF assms(1), of _ "[Down_Loop s]"])
      (use assms(2-4) in \<open>auto simp: push_def same_sched_def pushable_def\<close>)
  then have S': "sched i True (push [Down_Loop s] k)" and C: "code_ok i (push [Down_Loop s] k)"
    and N: "creating_ok i (push [Down_Loop s] k)"
    by (simp_all add: inv_def)
  show "sched i False ?k"
    by (rule sched_blocked [OF sched_same [OF S']])
      (use assms(3) in \<open>simp_all add: waiting_def push_def set_waiters_def\<close>)
  show "code_ok i ?k"
    by (rule code_ok_same [OF C]) (simp_all add: waiting_def blocked_thread_def push_def set_waiters_def)
  show "creating_ok i ?k"
    by (rule creating_ok_same [OF N]) (use c(2) in \<open>auto simp: waiting_def blocked_thread_def push_def set_waiters_def\<close>)
  have nw: "cur k \<notin> set (waiters (semas k s'))" for s' using waits_okD(3) [OF W] c(2) by auto
  show "waits_ok i ?k"
    unfolding waits_ok_def
  proof (intro allI conjI ballI)
    fix s'
    have "distinct (waiters (semas k s'))" using W by (simp add: waits_ok_def)
    then show "distinct (waiters (semas ?k s'))"
      using nw [of s] by (cases "s' = s") (simp_all add: waiting_def blocked_thread_def push_def set_waiters_def)
    fix t assume t: "t \<in> set (waiters (semas ?k s'))"
    consider "t = cur k" "s' = s" | "t \<noteq> cur k" "t \<in> set (waiters (semas k s'))"
      using t nw by (fastforce simp: waiting_def blocked_thread_def push_def set_waiters_def split: if_splits)
    then show "t \<in> set (all_list ?k)" "t \<noteq> i" "st ?k t = THREAD_BLOCKED" "\<exists>ps. code ?k t = Down_Loop s' # ps"
      using waits_okD(1-4) [OF W] c(1) assms(3)
      by (cases; force simp: waiting_def blocked_thread_def push_def set_waiters_def)+
  qed
qed (use assms(2) in \<open>simp add: waiting_def blocked_thread_def push_def set_waiters_def\<close>)

section \<open>Steps keep the invariant\<close>

lemma idle_code:
  assumes "code_ok i k"
  obtains qs where "code k i = qs @ (if idle_thread k = 0 then [Idle, Idle_Loop] else [Idle_Loop])" "set qs \<subseteq> idle_ops"
  using assms unfolding code_ok_def by blast

lemma idle_ops_no_loop: "set qs \<subseteq> idle_ops \<Longrightarrow> set qs \<inter> down_loops = {} \<and> set qs \<inter> range Unblock = {}"
  by (auto simp: idle_ops_def down_loops_def)

definition popped :: "kernel \<Rightarrow> kernel" where
  "popped k = k\<lparr>code := (code k)(cur k := tl (code k (cur k)))\<rparr>"

lemma popped_fields [simp]:
  "cur (popped k) = cur k" "all_list (popped k) = all_list k" "threads (popped k) = threads k"
  "ready_list (popped k) = ready_list k" "idle_thread (popped k) = idle_thread k" "semas (popped k) = semas k"
  "holder (popped k) = holder k" "conds (popped k) = conds k" "intr_on (popped k) = intr_on k"
  "in_external_intr (popped k) = in_external_intr k" "sleepers (popped k) = sleepers k"
  "wake_at (popped k) = wake_at k" "ticks (popped k) = ticks k" "trace (popped k) = trace k"
  "code (popped k) = (code k)(cur k := tl (code k (cur k)))"
  by (simp_all add: popped_def)

lemma no_loop_after:
  assumes "inv i k"
  shows "set (tl (code k (cur k))) \<inter> down_loops = {}"
proof (cases "cur k = i")
  case True
  have C: "code_ok i k" using assms by (simp add: inv_def)
  obtain qs where q: "code k i = qs @ (if idle_thread k = 0 then [Idle, Idle_Loop] else [Idle_Loop])" "set qs \<subseteq> idle_ops"
    using idle_code [OF C] .
  have "set (code k i) \<inter> down_loops = {}"
    using q(1) idle_ops_no_loop [OF q(2)] by (auto simp: down_loops_def)
  moreover have "set (tl (code k i)) \<subseteq> set (code k i)" by (cases "code k i") auto
  ultimately show ?thesis using True by blast
next
  case False
  then show ?thesis using assms sched_cur(1) [of i k] by (simp add: inv_def code_ok_def)
qed

lemma creates_popped: "creates (popped k) u t \<Longrightarrow> creates k u t"
  by (cases "code k (cur k)") (auto simp: creates_def split: if_splits)

lemma inv_popped:
  assumes "inv i k" "cur k = i \<longrightarrow> hd (code k i) \<in> idle_ops"
  shows "inv i (popped k)"
proof -
  have S: "sched i True k" and C: "code_ok i k" and W: "waits_ok i k" and N: "creating_ok i k"
    using assms(1) by (simp_all add: inv_def)
  note c = sched_cur [OF S]
  note nl = no_loop_after [OF assms(1)]
  have "sched i True (popped k)" by (rule sched_same [OF S]) simp_all
  moreover have "code_ok i (popped k)"
  proof -
    have tl: "set (tl ps) \<subseteq> set ps" for ps :: "op list" by (cases ps) auto
    have "Ball (set (code (popped k) t)) internal \<and> set (tl (code (popped k) t)) \<inter> down_loops = {}"
      if "t \<in> set (all_list (popped k))" "t \<noteq> i" for t
      using C that nl tl unfolding code_ok_def by (cases "t = cur k") (auto, blast+)
    moreover have "\<exists>qs. code (popped k) i =
        qs @ (if idle_thread (popped k) = 0 then [Idle, Idle_Loop] else [Idle_Loop]) \<and> set qs \<subseteq> idle_ops"
    proof -
      obtain qs where q: "code k i = qs @ (if idle_thread k = 0 then [Idle, Idle_Loop] else [Idle_Loop])" "set qs \<subseteq> idle_ops"
        using idle_code [OF C] .
      show ?thesis
      proof (cases "cur k = i")
        case True
        then have "qs \<noteq> []" using assms(2) q(1) by (auto simp: idle_ops_def split: if_splits)
        then show ?thesis using q True tl [of qs] by (auto intro!: exI [of _ "tl qs"])
      next
        case False
        then show ?thesis using q by auto
      qed
    qed
    moreover have "\<not> intr_on (popped k)" if "code (popped k) (cur (popped k)) = Down_Loop s # ps" for s ps
      using that nl by (auto simp: down_loops_def)
    ultimately show ?thesis using C unfolding code_ok_def by (intro conjI) (blast | simp)+
  qed
  moreover have "waits_ok i (popped k)"
  proof (rule waits_shrink [OF W])
    fix s show "distinct (waiters (semas (popped k) s))" using W by (simp add: waits_ok_def)
    fix t assume "t \<in> set (waiters (semas (popped k) s))"
    then have t: "t \<in> set (waiters (semas k s))" by simp
    then show "t \<in> set (waiters (semas k s)) \<and> t \<in> set (all_list (popped k)) \<and>
        st (popped k) t = THREAD_BLOCKED \<and> code (popped k) t = code k t"
      using waits_okD(1,3) [OF W t] c(2) by auto
  qed
  moreover have "creating_ok i (popped k)"
  proof -
    have bl: "set (butlast (tl ps)) \<subseteq> set (butlast ps)" for ps :: "op list"
      by (cases ps) (auto dest: in_set_butlastD)
    have n1: "set (butlast (code (popped k) u)) \<inter> range Unblock = {}" if "u \<in> set (all_list k)" for u
    proof -
      have "set (butlast (code k u)) \<inter> range Unblock = {}" using N that unfolding creating_ok_def by blast
      then show ?thesis using bl [of "code k u"] by auto
    qed
    have n2: "creates (popped k) u t \<and> f = Client"
      if "u \<in> set (all_list k)" "Create_Frames t f \<in> set (code (popped k) u)" for u t f
    proof -
      have "Create_Frames t f \<in> set (code k u)"
        using that(2) by (cases "code k u") (auto split: if_splits)
      then have "creates k u t" "f = Client" using N that(1) unfolding creating_ok_def by blast+
      then show ?thesis
        using that(2) by (cases "code k (cur k)") (auto simp: creates_def split: if_splits)
    qed
    have same: "code (popped k) t = code k t" if "st k t = THREAD_BLOCKED" for t
      using that c(2) by auto
    have n3: "t \<in> set (all_list k) \<and> t \<noteq> i \<and> st k t = THREAD_BLOCKED \<and>
       (code k t = [] \<or> code k t = [Set_Level True])" if "creates (popped k) u t" for u t
      using creating_okD(1-4) [OF N creates_popped [OF that]] same by simp
    have n4: "v = u" if "creates (popped k) u t" "creates (popped k) v t" for u v t
      using creating_okD(5) [OF N creates_popped [OF that(1)] creates_popped [OF that(2)]] .
    show ?thesis
    proof (rule creating_okI, unfold popped_fields(2,3))
      show "set (butlast (code (popped k) u)) \<inter> range Unblock = {}" if "u \<in> set (all_list k)" for u
        using n1 [OF that] .
      show "creates (popped k) u t \<and> f = Client"
        if "u \<in> set (all_list k)" "Create_Frames t f \<in> set (code (popped k) u)" for u t f
        using n2 [OF that] .
      show "t \<in> set (all_list k) \<and> t \<noteq> i \<and> st k t = THREAD_BLOCKED \<and>
         (code (popped k) t = [] \<or> code (popped k) t = [Set_Level True])" if "creates (popped k) u t" for u t
        using n3 [OF that] same by simp
      show "v = u" if "creates (popped k) u t" "creates (popped k) v t" for u v t
        using n4 [OF that] .
    qed
  qed
  ultimately show ?thesis by (simp add: inv_def)
qed

end
