(* ===== verification/Pintos_Threads_Step.thy ===== *)
theory Pintos_Threads_Step
  imports Pintos_Threads_Inv
begin

text \<open>
  Every step of the kernel keeps the scheduler's invariant \<open>inv\<close> of \<open>Pintos_Threads_Inv\<close>: operation by
  operation, then for the calls, the timer interrupt and the start-up.
\<close>

section \<open>Operations that only push or record\<close>

lemma inv_pushed:
  assumes "inv i k" "set (code k (cur k)) \<inter> down_loops = {}" "same_sched k k1" "code k1 = code k"
    "pushable i k1 qs"
  shows "inv i (push qs k1)"
  by (rule inv_local [OF assms(1), of _ qs])
    (use assms(2-5) in \<open>auto simp: push_def same_sched_def pushable_def\<close>)

lemma same_sched_refl [simp]: "same_sched k k"
  by (simp add: same_sched_def)

lemma same_sched_simps [simp]:
  "same_sched k (k\<lparr>intr_on := b\<rparr>)" "same_sched k (k\<lparr>in_external_intr := b\<rparr>)" "same_sched k (k\<lparr>yield_on_return := b\<rparr>)"
  "same_sched k (k\<lparr>holder := hs\<rparr>)"
  "same_sched k (k\<lparr>ticks := n\<rparr>)" "same_sched k (k\<lparr>next_tid := m\<rparr>)" "same_sched k (k\<lparr>sleepers := ts\<rparr>)"
  "same_sched k (log e k)" "same_sched k (return r k)"
  by (simp_all add: same_sched_def log_def return_def)

lemma same_sched_trans: "same_sched k k' \<Longrightarrow> same_sched k' k'' \<Longrightarrow> same_sched k k''"
  by (simp add: same_sched_def) blast

lemma same_sched_init: "same_sched k (sema_init s v k)"
  by (simp add: sema_init_def same_sched_def set_count_def set_waiters_def)

lemma inv_level:
  assumes "inv i k" "set (code k (cur k)) \<inter> down_loops = {}"
  shows "inv i (k\<lparr>intr_on := b\<rparr>)"
  by (rule inv_local [OF assms(1), of _ "[]"]) (use assms(2) in \<open>simp_all add: pushable_def\<close>)

lemmas exec_simps = sema_down_def lock_acquire_def lock_try_acquire_def lock_release_def
  lock_held_by_current_thread_def cond_wait_def cond_signal_def cond_broadcast_def set_holder_def
  timer_sleep_def intr_context_def intr_get_level_def intr_disable_def

text \<open>The calls that only push what remains to be done.\<close>

fun pushing :: "call \<Rightarrow> bool" where
  "pushing (Sema_Down s) = True"
| "pushing (Lock_Acquire l) = True"
| "pushing (Lock_Try_Acquire l) = True"
| "pushing (Lock_Release l) = True"
| "pushing (Cond_Wait c l) = True"
| "pushing (Cond_Signal c l) = True"
| "pushing (Cond_Broadcast c l) = True"
| "pushing (Timer_Sleep n) = True"
| "pushing _ = False"

text \<open>What they push, and what they change before.\<close>

fun pushed_ops :: "call \<Rightarrow> kernel \<Rightarrow> op list" where
  "pushed_ops (Sema_Down s) k = [Down_Loop s, Set_Level (intr_on k)]"
| "pushed_ops (Lock_Acquire l) k = [Call (Sema_Down (Lock_Sema l)), Set_Holder l]"
| "pushed_ops (Lock_Try_Acquire l) k = [Try_Holder l]"
| "pushed_ops (Lock_Release l) k = [Unlock l]"
| "pushed_ops (Cond_Wait c l) k =
    [Call (Lock_Release l), Call (Sema_Down (Waiter (cur k))), Call (Lock_Acquire l)]"
| "pushed_ops (Cond_Signal c l) k = (case conds k c of [] \<Rightarrow> [] | w # ws \<Rightarrow> [Call (Sema_Up w)])"
| "pushed_ops (Cond_Broadcast c l) k =
    (if conds k c = [] then [] else [Call (Cond_Signal c l), Call (Cond_Broadcast c l)])"
| "pushed_ops (Timer_Sleep n) k =
    (if n < 0 then [] else [Call (Sema_Down Sleeping_List_Sema), Sleep_Insert (ticks k + n),
       Call (Sema_Up Sleeping_List_Sema), Call (Sema_Down (Sleep_Sema (cur k))), Sleep_Return (ticks k + n)])"
| "pushed_ops _ k = []"

fun pushed_state :: "call \<Rightarrow> kernel \<Rightarrow> kernel" where
  "pushed_state (Sema_Down s) k = k\<lparr>intr_on := False\<rparr>"
| "pushed_state (Lock_Release l) k = log (Released (cur k) l) (k\<lparr>holder := (holder k)(l := 0)\<rparr>)"
| "pushed_state (Cond_Wait c l) k =
    (sema_init (Waiter (cur k)) 0 k)\<lparr>conds := (conds k)(c := conds k c @ [Waiter (cur k)])\<rparr>"
| "pushed_state (Cond_Signal c l) k = (if conds k c = [] then k else k\<lparr>conds := (conds k)(c := tl (conds k c))\<rparr>)"
| "pushed_state _ k = k"

lemma push_Nil [simp]: "push [] k = k"
  by (simp add: push_def)

lemma sema_init_conds [simp]: "conds (sema_init s v k) = conds k" "cur (sema_init s v k) = cur k"
  by (simp_all add: sema_init_def set_count_def set_waiters_def)

lemma pushing_exec:
  assumes "pushing c" "exec_call c k = Inr k'"
  shows "k' = push (pushed_ops c k) (pushed_state c k)"
    "c = Lock_Release l \<Longrightarrow> holder k l = cur k \<and> cur k \<noteq> 0"
proof -
  show "k' = push (pushed_ops c k) (pushed_state c k)"
  proof (cases c)
    case (Cond_Signal n l)
    then show ?thesis using assms(2) by (cases "conds k n") (auto simp: exec_simps)
  next
    case (Timer_Sleep n)
    then show ?thesis using assms(2) by (cases "n < 0") (auto simp: exec_simps Let_def timer_ticks_def)
  next
    case (Cond_Wait n l)
    then show ?thesis using assms(2) by (auto simp: exec_simps Let_def)
  qed (use assms in \<open>auto simp: exec_simps\<close>)
  show "c = Lock_Release l \<Longrightarrow> holder k l = cur k \<and> cur k \<noteq> 0"
    using assms(2) by (auto simp: exec_simps is_thread_def)
qed

lemma pushing_call:
  assumes "pushing c" "\<forall>c. set (conds k c) \<subseteq> range Waiter" "cur k \<noteq> i"
  shows "same_sched k (pushed_state c k)" "code (pushed_state c k) = code k"
    "cur (pushed_state c k) = cur k" "pushable i (pushed_state c k) (pushed_ops c k)"
proof -
  show "same_sched k (pushed_state c k)"
  proof (cases c)
    case (Cond_Signal n l)
    have "set (tl (conds k n)) \<subseteq> set (conds k n)" by (cases "conds k n") auto
    then show ?thesis using Cond_Signal by (auto simp: same_sched_def)
  qed (auto simp: same_sched_def log_def sema_init_def set_count_def set_waiters_def)
  show "code (pushed_state c k) = code k" "cur (pushed_state c k) = cur k"
    by (cases c; simp add: log_def sema_init_def set_count_def set_waiters_def)+
  show "pushable i (pushed_state c k) (pushed_ops c k)"
  proof (cases c)
    case (Cond_Signal n l)
    have "set (conds k n) \<subseteq> range Waiter" using assms(2) by simp
    then show ?thesis
      using Cond_Signal assms(3) by (cases "conds k n") (auto simp: pushable_def down_loops_def)
  qed (use assms(1,3) in \<open>auto simp: pushable_def down_loops_def log_def sema_init_def set_count_def set_waiters_def\<close>)
qed

section \<open>Operations that change who runs or exists\<close>

lemma inv_down_loop:
  assumes "inv i k" "set (code k (cur k)) \<inter> down_loops = {}" "cur k \<noteq> i" "down_loop s k = Inr k'"
  shows "inv i k'"
  using assms(4) inv_blocked_waiting [OF assms(1) _ assms(3,2)] inv_set_count [OF assms(1)]
  by (auto simp: down_loop_Inr split: if_splits)

lemma inv_unblock:
  assumes "inv i k" "thread_unblock t k = Inr k'" "t \<in> set (all_list k)" "t \<noteq> i"
    "\<And>u. \<not> creates k u t" "code k t = [] \<or> code k t = [Set_Level True]"
  shows "inv i k'"
proof -
  have u: "st k t = THREAD_BLOCKED" "k' = ready_thread t k" using assms(2) by (simp_all add: thread_unblock_Inr)
  have "waits_ok i k" using assms(1) by (simp add: inv_def)
  then have "t \<notin> set (waiters (semas k s))" for s using waits_okD(4) [of i k t s] assms(6) by auto
  then show ?thesis using inv_ready_thread [OF assms(1,3,4) u(1)] assms(5) u(2) by simp
qed

definition exiting :: "kernel \<Rightarrow> kernel" where
  "exiting k = k\<lparr>threads := (threads k)(cur k := (threads k (cur k))\<lparr>status := THREAD_DYING\<rparr>),
    all_list := remove1 (cur k) (all_list k)\<rparr>"

lemma thread_exit_Inr: "thread_exit k = Inr k' \<longleftrightarrow> \<not> in_external_intr k \<and> is_thread k (cur k) \<and>
    st k (cur k) = THREAD_RUNNING \<and> is_thread k (chosen k) \<and> k' = switched (exiting (k\<lparr>intr_on := False\<rparr>))"
proof -
  let ?k = "exiting (k\<lparr>intr_on := False\<rparr>)"
  have "thread_exit k = bindE (guardE AssertFailed (\<not> in_external_intr k)) (\<lambda>_.
      bindE (thread_current k) (\<lambda>_. schedule ?k))"
    by (cases k) (auto simp: thread_exit_def thread_current_def Let_def kernel_defs exiting_def guardE_def is_thread_def)
  moreover have "st ?k (cur ?k) = THREAD_DYING" "\<not> intr_on ?k" "chosen ?k = chosen k"
    "is_thread ?k t \<longleftrightarrow> is_thread k t" for t
    by (simp_all add: exiting_def chosen_def is_thread_def)
  ultimately show ?thesis by (auto simp: schedule_Inr_iff)
qed

lemma inv_exit:
  assumes "inv i k" "code k (cur k) = []" "cur k \<noteq> i" "thread_exit k = Inr k'"
  shows "inv i k'"
proof -
  let ?k = "exiting (k\<lparr>intr_on := False\<rparr>)"
  have S: "sched i True k" and C: "code_ok i k" and W: "waits_ok i k" and N: "creating_ok i k"
    using assms(1) by (simp_all add: inv_def)
  note c = sched_cur [OF S]
  have a: "set (all_list ?k) = set (all_list k) - {cur k}" using schedD(1) [OF S] by (simp add: exiting_def)
  have "inv i (switched ?k)"
  proof (rule inv_switched)
    have "sched i True (k\<lparr>intr_on := False\<rparr>)" by (rule sched_same [OF S]) simp_all
    from sched_exiting [OF this] show "sched i False ?k" using assms(3) by (simp add: exiting_def)
    show "code_ok i ?k"
      unfolding code_ok_def a using C [unfolded code_ok_def] assms(2) by (auto simp: exiting_def)
    show "waits_ok i ?k"
    proof (rule waits_shrink [OF W])
      fix s show "distinct (waiters (semas ?k s))" using W by (simp add: waits_ok_def exiting_def)
      fix t assume "t \<in> set (waiters (semas ?k s))"
      then have t: "t \<in> set (waiters (semas k s))" by (simp add: exiting_def)
      moreover have "t \<noteq> cur k" using waits_okD(3) [OF W t] c(2) by auto
      ultimately show "t \<in> set (waiters (semas k s)) \<and> t \<in> set (all_list ?k) \<and> st ?k t = THREAD_BLOCKED \<and> code ?k t = code k t"
        using waits_okD(1,3) [OF W t] a by (simp add: exiting_def)
    qed
    have cr: "creates ?k u t \<longleftrightarrow> creates k u t" for u t
      unfolding creates_def a using assms(2) by (auto simp: exiting_def)
    have keep: "t \<in> set (all_list ?k) \<and> st ?k t = THREAD_BLOCKED" if "t \<in> set (all_list k)" "st k t = THREAD_BLOCKED" for t
      unfolding a using that c(2) by (auto simp: exiting_def)
    show "creating_ok i ?k"
    proof (rule creating_okI, unfold cr a)
      show "v = u" if "creates k u t" "creates k v t" for u v t using creating_okD(5) [OF N that] .
      show "t \<in> set (all_list k) - {cur k} \<and> t \<noteq> i \<and> st ?k t = THREAD_BLOCKED \<and>
          (code ?k t = [] \<or> code ?k t = [Set_Level True])" if "creates k u t" for u t
        using creating_okD(1-4) [OF N that] keep [of t] a by (simp add: exiting_def)
    qed (use creating_ok_frames [OF N] in \<open>auto simp: exiting_def\<close>)
  qed (simp add: exiting_def)
  then show ?thesis using assms(4) by (simp add: thread_exit_Inr)
qed

text \<open>Creating a thread: it is first blocked and has nothing to do.\<close>

lemma inv_create:
  assumes "inv i k" "code k (cur k) = []" "cur k \<noteq> i" "t = 0 \<or> t \<notin> set (all_list k)"
    "thread_create t nm prio Client k = Inr k'"
  shows "inv i k'"
proof (cases "t = 0")
  case True
  then have "k' = return TID_ERROR k" using assms(5) by (simp add: thread_create_def)
  then show ?thesis using inv_same [OF assms(1), of k'] by (simp add: return_def same_sched_def)
next
  case False
  have S: "sched i True k" and C: "code_ok i k" and W: "waits_ok i k" and N: "creating_ok i k"
    using assms(1) by (simp_all add: inv_def)
  note c = sched_cur [OF S]
  have t: "t \<notin> set (all_list k)" "t \<noteq> cur k" "t \<noteq> i" using assms(4) False c(1) schedD(3) [OF S] by auto
  let ?qs = "[Call (Lock_Acquire Tid_Lock), Assign_Tid, Call (Lock_Release Tid_Lock), Create_Frames t Client, Unblock t]"
  have k': "k' = k\<lparr>threads := (threads k)(t := \<lparr>tid = 0, status = THREAD_BLOCKED, name = take 15 nm,
       stack = t + 4096, priority = prio, magic = THREAD_MAGIC\<rparr>), all_list := all_list k @ [t],
       code := (code k)(t := [], cur k := ?qs)\<rparr>"
    using assms(2,5) False t(2) by (auto simp: thread_create_def init_thread_def push_def)
  have "sched i True k'"
    by (rule sched_create [OF S t(1) False]) (use k' in simp_all)
  moreover have "code_ok i k'"
  proof -
    have "\<exists>qs. code k i = qs @ (if idle_thread k = 0 then [Idle, Idle_Loop] else [Idle_Loop]) \<and> set qs \<subseteq> idle_ops"
      using idle_code [OF C] by blast
    then have "\<exists>qs. code k' i = qs @ (if idle_thread k' = 0 then [Idle, Idle_Loop] else [Idle_Loop]) \<and> set qs \<subseteq> idle_ops"
      using t assms(3) k' by simp
    then show ?thesis
      using C t assms(3) unfolding code_ok_def k' by (auto simp: down_loops_def)
  qed
  moreover have "waits_ok i k'"
  proof (rule waits_shrink [OF W])
    fix s show "distinct (waiters (semas k' s))" using W by (simp add: waits_ok_def k')
    fix u assume "u \<in> set (waiters (semas k' s))"
    then have u: "u \<in> set (waiters (semas k s))" by (simp add: k')
    have "u \<noteq> cur k" "u \<noteq> t" using waits_okD(1,3) [OF W u] c(2) t(1) by auto
    then show "u \<in> set (waiters (semas k s)) \<and> u \<in> set (all_list k') \<and> st k' u = THREAD_BLOCKED \<and> code k' u = code k u"
      using u waits_okD(1,3) [OF W u] by (simp add: k')
  qed
  moreover have "creating_ok i k'"
  proof -
    have cr: "creates k' u x \<longleftrightarrow> u = cur k \<and> x = t \<or> creates k u x" for u x
      using c(1) assms(2) t by (auto simp: creates_def k')
    have old: "x \<noteq> t \<and> x \<noteq> cur k" if "creates k u x" for u x
      using creating_okD(1,3) [OF N that] t(1) c(2) by auto
    show ?thesis
    proof (rule creating_okI, unfold cr)
      fix u assume u: "u \<in> set (all_list k')"
      show "set (butlast (code k' u)) \<inter> range Unblock = {}"
        using creating_ok_frames(1) [OF N, of u] u by (auto simp: k')
      fix x f assume "Create_Frames x f \<in> set (code k' u)"
      then show "(u = cur k \<and> x = t \<or> creates k u x) \<and> f = Client"
        using creating_ok_frames(2) [OF N, of u x f] u by (auto simp: k' split: if_splits)
    next
      fix u x assume "u = cur k \<and> x = t \<or> creates k u x"
      then show "x \<in> set (all_list k') \<and> x \<noteq> i \<and> st k' x = THREAD_BLOCKED \<and> (code k' x = [] \<or> code k' x = [Set_Level True])"
        using creating_okD(1-4) [OF N, of u x] old [of u x] t by (auto simp: k')
    next
      fix u v x assume "u = cur k \<and> x = t \<or> creates k u x" "v = cur k \<and> x = t \<or> creates k v x"
      then show "v = u" using creating_okD(5) [OF N, of u x v] old by blast
    qed
  qed
  ultimately show ?thesis by (simp add: inv_def)
qed

lemma create_frames_Inr: "create_frames t f k = Inr k' \<longleftrightarrow> is_thread k t \<and>
    k' = k\<lparr>threads := (threads k)(t := (threads k t)\<lparr>tid := ret k (cur k), stack := stack (threads k t) - 12 - 4 - 28\<rparr>),
       code := (code k)(t := kernel_thread f)\<rparr>"
  by (cases "threads k t") (auto simp: create_frames_def alloc_frame_def kernel_defs is_thread_def Let_def)

lemma inv_create_frames:
  assumes "inv i k" "creates k (cur k) t" "create_frames t Client k = Inr k'"
  shows "inv i k'"
proof -
  have S: "sched i True k" and C: "code_ok i k" and W: "waits_ok i k" and N: "creating_ok i k"
    using assms(1) by (simp_all add: inv_def)
  note c = sched_cur [OF S]
  note t = creating_okD [OF N assms(2)]
  have k': "k' = k\<lparr>threads := (threads k)(t := (threads k t)\<lparr>tid := ret k (cur k), stack := stack (threads k t) - 12 - 4 - 28\<rparr>),
       code := (code k)(t := [Set_Level True])\<rparr>"
    using assms(3) by (simp add: create_frames_Inr kernel_thread_def)
  have tc: "t \<noteq> cur k" using t(3) c(2) by auto
  have "sched i True k'" by (rule sched_same [OF S]) (simp_all add: k')
  moreover have "code_ok i k'"
    unfolding code_ok_def using C [unfolded code_ok_def] t(2) tc by (auto simp: k')
  moreover have "waits_ok i k'"
  proof (rule waits_shrink [OF W])
    fix s show "distinct (waiters (semas k' s))" using W by (simp add: waits_ok_def k')
    fix u assume "u \<in> set (waiters (semas k' s))"
    then have u: "u \<in> set (waiters (semas k s))" by (simp add: k')
    then have "u \<noteq> t" using waits_okD(4) [OF W u] t(4) by auto
    then show "u \<in> set (waiters (semas k s)) \<and> u \<in> set (all_list k') \<and> st k' u = THREAD_BLOCKED \<and> code k' u = code k u"
      using u waits_okD(1,3) [OF W u] by (simp add: k')
  qed
  moreover have "creating_ok i k'"
  proof -
    have nt: "\<not> creates k t x" for x using t(4) by (auto simp: creates_def)
    have cr: "creates k' u x \<longleftrightarrow> creates k u x" for u x
      using nt [of x] by (auto simp: creates_def k')
    show ?thesis
    proof (rule creating_okI, unfold cr)
      fix u assume u: "u \<in> set (all_list k')"
      show "set (butlast (code k' u)) \<inter> range Unblock = {}"
        using creating_ok_frames(1) [OF N, of u] u by (auto simp: k')
      fix x f assume "Create_Frames x f \<in> set (code k' u)"
      then show "creates k u x \<and> f = Client"
        using creating_ok_frames(2) [OF N, of u x f] u by (auto simp: k' split: if_splits)
    next
      fix u x assume "creates k u x"
      then show "x \<in> set (all_list k') \<and> x \<noteq> i \<and> st k' x = THREAD_BLOCKED \<and> (code k' x = [] \<or> code k' x = [Set_Level True])"
        using creating_okD(1-4) [OF N, of u x] by (auto simp: k')
    next
      fix u v x assume "creates k u x" "creates k v x"
      then show "v = u" using creating_okD(5) [OF N, of u x v] by blast
    qed
  qed
  ultimately show ?thesis by (simp add: inv_def)
qed

text \<open>The idle thread: it makes itself known, and then blocks whenever it runs.\<close>

lemma idle_runs:
  assumes "inv i k" "cur k = i" "hd (code k i) \<notin> idle_ops" "code k i \<noteq> []"
  shows "code k i = (if idle_thread k = 0 then [Idle, Idle_Loop] else [Idle_Loop])"
    "hd (code k i) = Idle \<longleftrightarrow> idle_thread k = 0"
proof -
  have C: "code_ok i k" using assms(1) by (simp add: inv_def)
  obtain qs where q: "code k i = qs @ (if idle_thread k = 0 then [Idle, Idle_Loop] else [Idle_Loop])" "set qs \<subseteq> idle_ops"
    using idle_code [OF C] .
  have "qs = []" using q assms(3) by (cases qs) auto
  then show "code k i = (if idle_thread k = 0 then [Idle, Idle_Loop] else [Idle_Loop])"
    "hd (code k i) = Idle \<longleftrightarrow> idle_thread k = 0" using q(1) by simp_all
qed

lemma inv_idle:
  assumes "inv i k" "cur k = i" "code k i = [Idle, Idle_Loop]" "idle_thread k = 0" "idle (popped k) = Inr k'"
  shows "inv i k'"
proof -
  have S: "sched i True k" and C: "code_ok i k" and W: "waits_ok i k" and N: "creating_ok i k"
    using assms(1) by (simp_all add: inv_def)
  note c = sched_cur [OF S]
  have k': "k' = k\<lparr>code := (code k)(i := [Call (Sema_Up Idle_Started), Idle_Loop]), idle_thread := i\<rparr>"
    using assms(2,3,5) by (auto simp: idle_def push_def popped_def)
  have i: "i \<noteq> 0" using schedD(4) [OF S] .
  have "sched i True k'"
  proof (rule schedI)
    fix t
    have "t \<in> set (ready_list k) \<longleftrightarrow> t \<in> set (all_list k) \<and> st k t = THREAD_READY \<and> t \<noteq> i"
      using schedD(10) [OF S, of t] schedD(2) [OF S] assms(2,4) c(2) by auto
    then show "t \<in> set (ready_list k') \<longleftrightarrow> t \<in> set (all_list k') \<and> st k' t = THREAD_READY \<and> t \<noteq> idle_thread k'"
      by (simp add: k')
  qed (use schedD(1-9) [OF S] in \<open>simp_all add: k'\<close>)
  moreover have "code_ok i k'"
  proof -
    have "\<exists>qs. [Call (Sema_Up Idle_Started), Idle_Loop] = qs @ [Idle_Loop] \<and> set qs \<subseteq> idle_ops"
      by (intro exI [of _ "[Call (Sema_Up Idle_Started)]"]) (simp add: idle_ops_def)
    then show ?thesis using C [unfolded code_ok_def] assms(2) i unfolding code_ok_def by (simp add: k')
  qed
  moreover have "waits_ok i k'"
  proof (rule waits_shrink [OF W])
    fix s show "distinct (waiters (semas k' s))" using W by (simp add: waits_ok_def k')
    fix u assume "u \<in> set (waiters (semas k' s))"
    then have u: "u \<in> set (waiters (semas k s))" by (simp add: k')
    then show "u \<in> set (waiters (semas k s)) \<and> u \<in> set (all_list k') \<and> st k' u = THREAD_BLOCKED \<and> code k' u = code k u"
      using waits_okD(1-3) [OF W u] by (simp add: k')
  qed
  moreover have "creating_ok i k'"
  proof -
    have cr: "creates k' u x \<longleftrightarrow> creates k u x" for u x using assms(3) by (auto simp: creates_def k')
    show ?thesis
    proof (rule creating_okI, unfold cr)
      fix u assume u: "u \<in> set (all_list k')"
      show "set (butlast (code k' u)) \<inter> range Unblock = {}"
        using creating_ok_frames(1) [OF N, of u] u by (auto simp: k')
      fix x f assume "Create_Frames x f \<in> set (code k' u)"
      then show "creates k u x \<and> f = Client"
        using creating_ok_frames(2) [OF N, of u x f] u by (auto simp: k' split: if_splits)
    next
      fix u x assume "creates k u x"
      then show "x \<in> set (all_list k') \<and> x \<noteq> i \<and> st k' x = THREAD_BLOCKED \<and> (code k' x = [] \<or> code k' x = [Set_Level True])"
        using creating_okD(1-4) [OF N, of u x] by (auto simp: k')
    next
      fix u v x assume "creates k u x" "creates k v x"
      then show "v = u" using creating_okD(5) [OF N, of u x v] by blast
    qed
  qed
  ultimately show ?thesis by (simp add: inv_def)
qed

lemma inv_idle_loop:
  assumes "inv i k" "cur k = i" "code k i = [Idle_Loop]" "idle_thread k = i" "idle_loop (popped k) = Inr k'"
  shows "inv i k'"
proof -
  let ?k = "push [Sti_Hlt] (k\<lparr>intr_on := False\<rparr>)"
  have "inv i ?k"
    by (rule inv_pushed [OF assms(1)]) (use assms(2,3) in \<open>auto simp: down_loops_def pushable_def idle_ops_def\<close>)
  then have S: "sched i True ?k" and C: "code_ok i ?k" and W: "waits_ok i ?k" and N: "creating_ok i ?k"
    by (simp_all add: inv_def)
  note c = sched_cur [OF S]
  have e: "push [Sti_Hlt, Idle_Loop] (intr_disable (popped k)) = ?k"
    using assms(2,3) by (cases k) (simp add: push_def popped_def intr_disable_def)
  have "inv i (switched (blocked_thread ?k))"
  proof (rule inv_switched)
    show "sched i False (blocked_thread ?k)"
      by (rule sched_blocked [OF S]) (simp add: push_def assms(4))
    show "code_ok i (blocked_thread ?k)" by (rule code_ok_same [OF C]) (simp_all add: blocked_thread_def)
    show "creating_ok i (blocked_thread ?k)" by (rule creating_ok_same [OF N]) (simp_all add: blocked_thread_def)
    show "waits_ok i (blocked_thread ?k)"
    proof (rule waits_shrink [OF W])
      fix s show "distinct (waiters (semas (blocked_thread ?k) s))" using W by (simp add: waits_ok_def blocked_thread_def)
      fix u assume "u \<in> set (waiters (semas (blocked_thread ?k) s))"
      then have u: "u \<in> set (waiters (semas ?k s))" by (simp add: blocked_thread_def)
      then show "u \<in> set (waiters (semas ?k s)) \<and> u \<in> set (all_list (blocked_thread ?k)) \<and>
          st (blocked_thread ?k) u = THREAD_BLOCKED \<and> code (blocked_thread ?k) u = code ?k u"
        using waits_okD(1-3) [OF W u] by (simp add: blocked_thread_def)
    qed
  qed (simp add: push_def blocked_thread_def)
  then show ?thesis using assms(5) by (simp add: idle_loop_def e thread_block_Inr)
qed

section \<open>The steps\<close>

text \<open>What is known when an operation of a client runs, after it was taken from what remains.\<close>

definition enabled :: "ptr \<Rightarrow> kernel \<Rightarrow> op \<Rightarrow> bool" where
  "enabled i k p \<longleftrightarrow> (case p of
       Call c \<Rightarrow> internal p \<or> client_call k c \<and> code k (cur k) = []
     | Create_Frames t f \<Rightarrow> creates k (cur k) t \<and> f = Client
     | Unblock t \<Rightarrow> t \<in> set (all_list k) \<and> t \<noteq> i \<and> (\<forall>u. \<not> creates k u t) \<and> (code k t = [] \<or> code k t = [Set_Level True])
     | _ \<Rightarrow> internal p)"

lemma inv_exec_call:
  assumes "inv i k" "set (code k (cur k)) \<inter> down_loops = {}" "cur k \<noteq> i" "enabled i k (Call c)" "exec_call c k = Inr k'"
  shows "inv i k'"
proof (cases "pushing c")
  case True
  have "\<forall>c. set (conds k c) \<subseteq> range Waiter" using assms(1) by (simp add: inv_def code_ok_def)
  note c = pushing_call [OF True this assms(3)]
  show ?thesis
    unfolding pushing_exec(1) [OF True assms(5)] by (rule inv_pushed [OF assms(1,2) c(1,2,4)])
next
  case False
  show ?thesis
  proof (cases c)
    case (Sema_Try_Down s)
    then obtain r k1 where "sema_try_down s k = Inr (r, k1)" "k' = return (of_bool r) k1"
      using assms(5) by (auto split: if_splits)
    then show ?thesis
      using inv_same [OF inv_sema_try_down [OF assms(1)], of s r k1 k'] by (simp add: return_def same_sched_def)
  next
    case (Sema_Up s)
    then show ?thesis using inv_sema_up [OF assms(1)] assms(5) by simp
  next
    case Thread_Yield
    then show ?thesis using inv_thread_yield [OF assms(1,2)] assms(5) by simp
  next
    case Thread_Exit
    then have "code k (cur k) = []" using assms(4) by (simp add: enabled_def)
    then show ?thesis using inv_exit [OF assms(1) _ assms(3)] assms(5) Thread_Exit by simp
  next
    case (Thread_Create t nm prio f)
    then have "code k (cur k) = []" "f = Client" "t = 0 \<or> t \<notin> set (all_list k)" using assms(4) by (auto simp: enabled_def)
    then show ?thesis using inv_create [OF assms(1) _ assms(3)] assms(5) Thread_Create by simp
  next
    case (Thread_Set_Priority p)
    then have k': "k' = set_thread (cur k) (priority_update (\<lambda>_. p)) k"
      using assms(5) by (auto simp: thread_set_priority_def)
    show ?thesis by (rule inv_same [OF assms(1)]) (auto simp: k' set_thread_def same_sched_def)
  qed (use False in simp_all)
qed

lemma inv_exec:
  assumes "inv i k" "set (code k (cur k)) \<inter> down_loops = {}" "cur k \<noteq> i" "enabled i k p" "exec p k = Inr k'"
  shows "inv i k'"
proof (cases p)
  case (Call c)
  then show ?thesis using inv_exec_call assms by simp
next
  case (Set_Level b)
  then show ?thesis using inv_level [OF assms(1,2)] assms(5) by (simp add: intr_set_level_Inr)
next
  case Iret
  then show ?thesis using inv_level [OF assms(1,2)] assms(5) by auto
next
  case Sti_Hlt
  then show ?thesis using inv_level [OF assms(1,2)] assms(5) by auto
next
  case (Down_Loop s)
  then show ?thesis using inv_down_loop [OF assms(1-3)] assms(5) by simp
next
  case (Set_Holder l)
  then have k': "k' = log (Acquired (cur k) l) (k\<lparr>holder := (holder k)(l := cur k)\<rparr>)"
    using assms(5) by (auto simp: set_holder_def)
  show ?thesis by (rule inv_same [OF assms(1)]) (auto simp: k' log_def same_sched_def)
next
  case (Try_Holder l)
  then obtain r k1 where r: "sema_try_down (Lock_Sema l) k = Inr (r, k1)"
    "k' = return (of_bool r) (if r then push [Set_Holder l] k1 else k1)"
    using assms(5) by (auto simp: try_holder_def)
  have k1: "inv i k1" using inv_sema_try_down [OF assms(1) r(1)] .
  have same: "cur k1 = cur k" "code k1 = code k"
    using r(1) by (auto simp: sema_try_down_Inr set_count_def split: if_splits)
  have "inv i (push [Set_Holder l] k1)"
    by (rule inv_pushed [OF k1]) (use assms(2,3) same in \<open>auto simp: pushable_def\<close>)
  then have "inv i (if r then push [Set_Holder l] k1 else k1)" using k1 by simp
  then show ?thesis
    by (rule inv_same) (auto simp: r(2) return_def same_sched_def)
next
  case (Unlock l)
  then show ?thesis using inv_sema_up [OF assms(1)] assms(5) by simp
next
  case Assign_Tid
  then have k': "k' = return (next_tid k) (k\<lparr>next_tid := next_tid k + 1\<rparr>)"
    using assms(5) by (simp add: assign_tid_def)
  show ?thesis by (rule inv_same [OF assms(1)]) (auto simp: k' return_def same_sched_def)
next
  case (Create_Frames t f)
  then show ?thesis using inv_create_frames [OF assms(1)] assms(4,5) by (auto simp: enabled_def)
next
  case (Unblock t)
  then show ?thesis using inv_unblock [OF assms(1)] assms(4,5) by (auto simp: enabled_def)
next
  case (Sleep_Insert e)
  have "same_sched k (sleep_insert e k)" "code (sleep_insert e k) = code k" "intr_on (sleep_insert e k) = intr_on k"
    by (auto simp: sleep_insert_def Let_def same_sched_def sema_init_def set_count_def set_waiters_def)
  then show ?thesis using inv_same [OF assms(1)] assms(5) Sleep_Insert by auto
next
  case (Sleep_Return e)
  then have k': "k' = log (Slept (cur k) e (ticks k)) k" using assms(5) by simp
  show ?thesis by (rule inv_same [OF assms(1)]) (auto simp: k' log_def same_sched_def)
qed (use assms(4) in \<open>simp_all add: enabled_def\<close>)

text \<open>An operation of a thread is enabled when its turn comes.\<close>

lemma enabled_next:
  assumes "inv i k" "cur k \<noteq> i" "code k (cur k) \<noteq> []"
  shows "enabled i (popped k) (hd (code k (cur k)))"
proof -
  have C: "code_ok i k" and N: "creating_ok i k" and S: "sched i True k" using assms(1) by (simp_all add: inv_def)
  note c = sched_cur [OF S]
  obtain p ps where p: "code k (cur k) = p # ps" using assms(3) by (cases "code k (cur k)") auto
  have int: "internal p" using C c(1) assms(2) p by (auto simp: code_ok_def)
  show ?thesis
  proof (cases p)
    case (Create_Frames t f)
    then have "creates k (cur k) t" "f = Client" using creating_ok_frames(2) [OF N c(1), of t f] p by auto
    then show ?thesis using p Create_Frames by (auto simp: enabled_def creates_def split: if_splits)
  next
    case (Unblock t)
    have "ps = []" using creating_ok_frames(1) [OF N c(1)] p Unblock by (auto split: if_splits)
    then have cr: "creates k (cur k) t" using c(1) p Unblock by (simp add: creates_def)
    note t = creating_okD [OF N cr]
    have "\<not> creates (popped k) u t" for u
    proof
      assume u: "creates (popped k) u t"
      then have "u = cur k" using t(5) [OF creates_popped] by blast
      then show False using u p \<open>ps = []\<close> by (simp add: creates_def)
    qed
    moreover have "t \<noteq> cur k" using t(3) c(2) by auto
    ultimately show ?thesis using t(1-4) p Unblock by (simp add: enabled_def)
  qed (use int p in \<open>simp_all add: enabled_def\<close>)
qed

lemma step_op_popped: "code k (cur k) \<noteq> [] \<Longrightarrow> step_op k = exec (hd (code k (cur k))) (popped k)"
  by (cases "code k (cur k)") (simp_all add: step_op_def popped_def)

lemma inv_step_op:
  assumes "inv i k" "code k (cur k) \<noteq> []" "step_op k = Inr k'"
  shows "inv i k'"
proof (cases "cur k = i")
  case False
  have "inv i (popped k)" using inv_popped [OF assms(1)] False by simp
  moreover have "set (code (popped k) (cur (popped k))) \<inter> down_loops = {}" using no_loop_after [OF assms(1)] by simp
  ultimately show ?thesis
    using inv_exec [of i "popped k"] enabled_next [OF assms(1) False assms(2)] assms(3) False
    by (simp add: step_op_popped [OF assms(2)])
next
  case True
  note step = step_op_popped [OF assms(2)]
  show ?thesis
  proof (cases "hd (code k i) \<in> idle_ops")
    case in_ops: True
    then have I: "inv i (popped k)" using inv_popped [OF assms(1)] by simp
    have nl: "set (code (popped k) (cur (popped k))) \<inter> down_loops = {}" using no_loop_after [OF assms(1)] by simp
    have e: "exec (hd (code k i)) (popped k) = Inr k'" using step True assms(3) by simp
    consider b where "hd (code k i) = Set_Level b" | "hd (code k i) = Iret" | "hd (code k i) = Sti_Hlt"
      | "hd (code k i) = Call (Sema_Up Idle_Started)"
      using in_ops by (auto simp: idle_ops_def)
    then show ?thesis
      by cases (use e inv_level [OF I nl] inv_sema_up [OF I] in \<open>auto simp: intr_set_level_Inr\<close>)
  next
    case False
    note r = idle_runs [OF assms(1) True False] 
    show ?thesis
    proof (cases "idle_thread k = 0")
      case z: True
      then show ?thesis using inv_idle [OF assms(1) True _ z] r assms(2,3) step True by simp
    next
      case nz: False
      have S: "sched i True k" using assms(1) by (simp add: inv_def)
      have "idle_thread k = i" using schedD(11) [OF S] nz by simp
      then show ?thesis using inv_idle_loop [OF assms(1) True] r nz assms(2,3) step True by simp
    qed
  qed
qed

section \<open>The timer interrupt\<close>

text \<open>What the interrupt handler leaves alone, up to the point where it yields.\<close>

definition quiet :: "kernel \<Rightarrow> kernel \<Rightarrow> bool" where
  "quiet k k' \<longleftrightarrow> cur k' = cur k \<and> code k' = code k \<and> intr_on k' = intr_on k \<and>
     in_external_intr k' = in_external_intr k \<and> all_list k' = all_list k \<and> holder k' = holder k \<and>
     conds k' = conds k \<and> trace k' = trace k \<and> wake_at k' = wake_at k \<and> idle_thread k' = idle_thread k \<and>
     initial_thread k' = initial_thread k"

lemma quiet_refl [simp]: "quiet k k"
  by (simp add: quiet_def)

lemma quiet_trans: "quiet k k' \<Longrightarrow> quiet k' k'' \<Longrightarrow> quiet k k''"
  by (simp add: quiet_def)

lemma sema_up_quiet: "sema_up s k = Inr k' \<Longrightarrow> quiet k k' \<and> ticks k' = ticks k \<and> sleepers k' = sleepers k"
  by (auto simp: sema_up_Inr quiet_def woken_def set_count_def set_waiters_def ready_thread_def split: list.split)

lemma sema_try_down_quiet: "sema_try_down s k = Inr (r, k') \<Longrightarrow> quiet k k' \<and> ticks k' = ticks k \<and> sleepers k' = sleepers k"
  by (auto simp: sema_try_down_Inr quiet_def set_count_def split: if_splits)

lemma inv_wake_loop: "inv i k \<Longrightarrow> wake_loop es k = Inr k' \<Longrightarrow> inv i k' \<and> quiet k k' \<and> ticks k' = ticks k"
proof (induction es arbitrary: k)
  case (Cons e es)
  show ?case
  proof (cases "wake_at k e \<le> ticks k")
    case True
    then obtain k1 where k1: "sema_up (Sleep_Sema e) k = Inr k1"
      "wake_loop es (k1\<lparr>sleepers := remove1 e (sleepers k1)\<rparr>) = Inr k'"
      using Cons.prems(2) by (auto simp: timer_ticks_def)
    have "inv i (k1\<lparr>sleepers := remove1 e (sleepers k1)\<rparr>)"
      by (rule inv_same [OF inv_sema_up [OF Cons.prems(1) k1(1)]]) simp_all
    from Cons.IH [OF this k1(2)] show ?thesis using sema_up_quiet [OF k1(1)] by (auto simp: quiet_def)
  qed (use Cons.prems in \<open>simp add: timer_ticks_def\<close>)
qed simp

lemma inv_try_to_wake:
  assumes "inv i k" "try_to_wake_up_threads k = Inr k'"
  shows "inv i k' \<and> quiet k k' \<and> ticks k' = ticks k"
proof -
  obtain r k1 where k1: "sema_try_down Sleeping_List_Sema k = Inr (r, k1)"
    "(if r then bindE (wake_loop (sleepers k1) k1) (sema_up Sleeping_List_Sema) else Inr k1) = Inr k'"
    using assms(2) by (auto simp: try_to_wake_up_threads_def)
  note q1 = sema_try_down_quiet [OF k1(1)] and i1 = inv_sema_try_down [OF assms(1) k1(1)]
  show ?thesis
  proof (cases r)
    case True
    then obtain k2 where k2: "wake_loop (sleepers k1) k1 = Inr k2" "sema_up Sleeping_List_Sema k2 = Inr k'"
      using k1(2) by auto
    note w = inv_wake_loop [OF i1 k2(1)]
    then show ?thesis
      using inv_sema_up [OF _ k2(2)] sema_up_quiet [OF k2(2)] q1 quiet_trans by metis
  qed (use k1(2) q1 i1 in auto)
qed

lemma thread_tick_effect:
  assumes "thread_tick k = Inr k'"
  shows "same_sched k k' \<and> quiet k k' \<and> ticks k' = ticks k \<and> thread_ticks k' = thread_ticks k + 1 \<and>
    semas k' = semas k \<and> sleepers k' = sleepers k \<and>
    yield_on_return k' = (yield_on_return k \<or> thread_ticks k + 1 \<ge> TIME_SLICE)"
  using assms
  by (auto simp: thread_tick_def intr_yield_on_return_def intr_context_def same_sched_def quiet_def Let_def split: if_splits)

lemma inv_timer_interrupt:
  assumes "inv i k" "timer_interrupt k = Inr k'"
  shows "inv i k'" "quiet k k'" "ticks k' = ticks k + 1"
proof -
  have I: "inv i (k\<lparr>ticks := ticks k + 1\<rparr>)" by (rule inv_same [OF assms(1)]) simp_all
  obtain k1 where k1: "try_to_wake_up_threads (k\<lparr>ticks := ticks k + 1\<rparr>) = Inr k1" "thread_tick k1 = Inr k'"
    using assms(2) by (auto simp: timer_interrupt_def)
  note w = inv_try_to_wake [OF I k1(1)] and t = thread_tick_effect [OF k1(2)]
  show "inv i k'" using inv_same [of i k1 k'] w t by (auto simp: quiet_def)
  show "quiet k k'" "ticks k' = ticks k + 1" using w t by (auto simp: quiet_def)
qed

lemma no_loop_enabled:
  assumes "inv i k" "intr_on k"
  shows "set (code k (cur k)) \<inter> down_loops = {}"
proof (cases "code k (cur k)")
  case (Cons p ps)
  have "p \<noteq> Down_Loop s" for s using assms Cons by (auto simp: inv_def code_ok_def)
  then show ?thesis using no_loop_after [OF assms(1)] Cons by (auto simp: down_loops_def)
qed simp

definition entered :: "kernel \<Rightarrow> kernel" where
  "entered k = (push [Iret] (k\<lparr>intr_on := False\<rparr>))\<lparr>in_external_intr := True, yield_on_return := False\<rparr>"

lemma entered_fields [simp]:
  "cur (entered k) = cur k" "all_list (entered k) = all_list k" "intr_on (entered k) = False"
  "in_external_intr (entered k) = True" "code (entered k) = (code k)(cur k := Iret # code k (cur k))"
  "semas (entered k) = semas k" "holder (entered k) = holder k" "conds (entered k) = conds k"
  "trace (entered k) = trace k" "ticks (entered k) = ticks k" "sleepers (entered k) = sleepers k"
  "wake_at (entered k) = wake_at k" "threads (entered k) = threads k" "thread_ticks (entered k) = thread_ticks k"
  "idle_thread (entered k) = idle_thread k" "ready_list (entered k) = ready_list k"
  "yield_on_return (entered k) = False"
  by (simp_all add: entered_def push_def)

lemma intr_handler_Inr: "intr_handler k = Inr k' \<longleftrightarrow> \<not> in_external_intr k \<and>
    (\<exists>k1. timer_interrupt (entered k) = Inr k1 \<and> \<not> intr_on k1 \<and> in_external_intr k1 \<and>
      (let k2 = k1\<lparr>in_external_intr := False\<rparr> in
       if yield_on_return k1 then thread_yield k2 = Inr k' else k' = k2))"
proof -
  have "(push [Iret] (k\<lparr>intr_on := False\<rparr>))\<lparr>in_external_intr := True, yield_on_return := False\<rparr> = entered k"
    by (simp add: entered_def)
  moreover have "intr_get_level (push [Iret] (k\<lparr>intr_on := False\<rparr>)) = False"
    "intr_context (push [Iret] (k\<lparr>intr_on := False\<rparr>)) = in_external_intr k"
    by (simp_all add: push_def intr_get_level_def intr_context_def)
  ultimately show ?thesis
    by (auto simp: intr_handler_def Let_def intr_get_level_def intr_context_def)
qed

lemma inv_entered:
  assumes "inv i k" "intr_on k"
  shows "inv i (entered k)"
proof -
  have "inv i (push [Iret] (k\<lparr>intr_on := False\<rparr>))"
    by (rule inv_pushed [OF assms(1) no_loop_enabled [OF assms]]) (simp_all add: pushable_def idle_ops_def image_iff down_loops_def)
  then show ?thesis by (rule inv_same) (auto simp: entered_def same_sched_def)
qed

lemma inv_intr_handler:
  assumes "inv i k" "intr_on k" "intr_handler k = Inr k'"
  shows "inv i k' \<and> \<not> in_external_intr k'"
proof -
  obtain k1 where k1: "timer_interrupt (entered k) = Inr k1" "\<not> intr_on k1"
    "let k2 = k1\<lparr>in_external_intr := False\<rparr> in if yield_on_return k1 then thread_yield k2 = Inr k' else k' = k2"
    using assms(3) by (auto simp: intr_handler_Inr)
  note t = inv_timer_interrupt [OF inv_entered [OF assms(1,2)] k1(1)]
  let ?k = "k1\<lparr>in_external_intr := False\<rparr>"
  have I: "inv i ?k" by (rule inv_same [OF t(1)]) simp_all
  have nl: "set (code ?k (cur ?k)) \<inter> down_loops = {}"
    using t(2) no_loop_enabled [OF assms(1,2)] by (auto simp: quiet_def down_loops_def)
  show ?thesis
  proof (cases "yield_on_return k1")
    case True
    then have y: "thread_yield ?k = Inr k'" using k1(3) by (simp add: Let_def)
    then have "\<not> in_external_intr k'" by (auto simp: thread_yield_Inr yielding_def push_def)
    then show ?thesis using inv_thread_yield [OF I nl y] by simp
  qed (use k1(3) I in \<open>auto simp: Let_def\<close>)
qed

text \<open>No operation changes whether an interrupt is being handled.\<close>

lemma exec_in_external:
  assumes "exec p k = Inr k'"
  shows "in_external_intr k' = in_external_intr k"
proof -
  note defs = exec_simps timer_sleep_def intr_set_level_Inr down_loop_Inr thread_unblock_Inr thread_block_Inr
    thread_yield_Inr thread_exit_Inr set_count_def blocked_thread_def waiting_def push_def set_waiters_def
    ready_thread_def yielding_def exiting_def log_def return_def Let_def sema_init_def
  have call: "exec_call c k = Inr k' \<Longrightarrow> in_external_intr k' = in_external_intr k" for c
  proof (cases c)
    case (Thread_Create t nm prio f)
    then show "exec_call c k = Inr k' \<Longrightarrow> in_external_intr k' = in_external_intr k"
      by (auto simp: thread_create_def init_thread_def push_def return_def split: if_splits)
  next
    case (Sema_Up s)
    then show "exec_call c k = Inr k' \<Longrightarrow> in_external_intr k' = in_external_intr k"
      using sema_up_quiet [of s k k'] by (simp add: quiet_def)
  next
    case (Sema_Try_Down s)
    then show "exec_call c k = Inr k' \<Longrightarrow> in_external_intr k' = in_external_intr k"
      using sema_try_down_quiet [of s k] by (auto simp: quiet_def return_def)
  next
    case (Cond_Signal n l)
    then show "exec_call c k = Inr k' \<Longrightarrow> in_external_intr k' = in_external_intr k"
      by (cases "conds k n") (auto simp: defs)
  qed (auto simp: defs thread_set_priority_def set_thread_def split: if_splits)
  show ?thesis
  proof (cases p)
    case (Try_Holder l)
    then obtain r k1 where r: "sema_try_down (Lock_Sema l) k = Inr (r, k1)"
      "k' = return (of_bool r) (if r then push [Set_Holder l] k1 else k1)"
      using assms by (auto simp: try_holder_def)
    then show ?thesis using sema_try_down_quiet [OF r(1)] by (auto simp: quiet_def return_def push_def)
  next
    case (Unlock l)
    then show ?thesis using sema_up_quiet [of _ k k'] assms by (auto simp: quiet_def)
  next
    case (Call c)
    then show ?thesis using call assms by simp
  next
    case (Down_Loop s)
    then show ?thesis using assms by (auto simp: defs split: if_splits)
  qed (use assms in \<open>auto simp: defs assign_tid_def create_frames_Inr idle_def idle_loop_def sleep_insert_def\<close>)
qed

lemma client_not_idle:
  assumes "inv i k" "code k (cur k) = []"
  shows "cur k \<noteq> i"
proof -
  have "code_ok i k" using assms(1) by (simp add: inv_def)
  from idle_code [OF this] obtain qs where
    "code k i = qs @ (if idle_thread k = 0 then [Idle, Idle_Loop] else [Idle_Loop])" by blast
  then have "code k i \<noteq> []" by simp
  then show ?thesis using assms(2) by metis
qed

lemma inv_kstep:
  assumes "inv i k" "\<not> in_external_intr k" "kstep k k'"
  shows "inv i k' \<and> \<not> in_external_intr k'"
  using assms(3)
proof (cases rule: kstep.cases)
  case run
  then have "exec (hd (code k (cur k))) (popped k) = Inr k'" by (simp add: step_op_popped)
  from exec_in_external [OF this] show ?thesis using inv_step_op [OF assms(1) run] assms(2) by simp
next
  case (call c)
  note ni = client_not_idle [OF assms(1) call(1)]
  have "enabled i k (Call c)" using call by (simp add: enabled_def)
  then have "inv i k'" using inv_exec_call [OF assms(1) _ ni _ call(3)] call(1) by simp
  moreover have "exec (Call c) k = Inr k'" using call(3) by simp
  ultimately show ?thesis using exec_in_external assms(2) by blast
next
  case tick
  then show ?thesis using inv_intr_handler [OF assms(1)] by blast
qed

section \<open>Start-up\<close>

lemma run_ops_Cons:
  "code k (cur k) = p # ps \<Longrightarrow> run_ops (Suc n) k = bindE (exec p (k\<lparr>code := (code k)(cur k := ps)\<rparr>)) (run_ops n)"
  by (simp add: step_op_def)

lemma run_ops_2:
  "code k (cur k) = p # ps \<Longrightarrow>
    run_ops 2 k = bindE (exec p (k\<lparr>code := (code k)(cur k := ps)\<rparr>)) (run_ops (Suc 0))"
  using run_ops_Cons [of k p ps "Suc 0"] by (simp only: numeral_2_eq_2)

text \<open>\<open>allocate_tid\<close> when nobody holds its lock and interrupts are off.\<close>

lemma run_allocate_tid:
  assumes "code k (cur k) = Call (Lock_Acquire Tid_Lock) # Assign_Tid # Call (Lock_Release Tid_Lock) # ps"
    "\<not> intr_on k" "\<not> in_external_intr k" "is_thread k (cur k)" "st k (cur k) = THREAD_RUNNING"
    "holder k Tid_Lock = 0" "semas k (Lock_Sema Tid_Lock) = \<lparr>count = 1, waiters = []\<rparr>" "next_tid k < 2 ^ 31 - 1"
  shows "run_ops (8 + n) k = run_ops n (k\<lparr>code := (code k)(cur k := ps), next_tid := next_tid k + 1,
    ret := (ret k)(cur k := next_tid k),
    trace := trace k @ [Acquired (cur k) Tid_Lock, Released (cur k) Tid_Lock]\<rparr>)"
proof -
  have 8: "8 + n = Suc (Suc (Suc (Suc (Suc (Suc (Suc (Suc n)))))))" by simp
  let ?c = "cur k" and ?S = "Lock_Sema Tid_Lock"
  have t: "magic (threads k ?c) = THREAD_MAGIC" "0 < ?c" using assms(4) by (simp_all add: is_thread_def)
  note ev = 8 run_ops_Cons lock_acquire_def lock_held_by_current_thread_def thread_current_def is_thread_def
      sema_down_def down_loop_def set_holder_def assign_tid_def lock_release_def sema_up_def
      intr_set_level_def kernel_defs Let_def
  have same: "(holder k)(Tid_Lock := 0) = holder k"
    "(semas k)(Lock_Sema Tid_Lock := \<lparr>count = 1, waiters = []\<rparr>) = semas k"
    using assms(6,7) by (simp_all add: fun_upd_idem)
  have "run_ops (8 + n) k = run_ops n (k\<lparr>next_tid := next_tid k + 1, ret := (ret k)(?c := next_tid k),
      holder := holder k, trace := trace k @ [Acquired ?c Tid_Lock, Released ?c Tid_Lock],
      code := (code k)(?c := ps), semas := semas k, intr_on := False\<rparr>)"
    using assms t same by (simp add: ev del: run_ops.simps(2))
  also have "k\<lparr>next_tid := next_tid k + 1, ret := (ret k)(?c := next_tid k),
      holder := holder k, trace := trace k @ [Acquired ?c Tid_Lock, Released ?c Tid_Lock],
      code := (code k)(?c := ps), semas := semas k, intr_on := False\<rparr> =
    k\<lparr>code := (code k)(?c := ps), next_tid := next_tid k + 1, ret := (ret k)(?c := next_tid k),
      trace := trace k @ [Acquired ?c Tid_Lock, Released ?c Tid_Lock]\<rparr>"
    using assms(2) by (cases k) simp
  finally show ?thesis .
qed

lemma booted_state:
  assumes "m \<noteq> 0" "i \<noteq> 0" "m \<noteq> i"
  shows "\<exists>k. booted v m i = Inr k \<and> all_list k = [m, i] \<and> cur k = m \<and> ready_list k = [i] \<and>
    idle_thread k = 0 \<and> initial_thread k = m \<and> \<not> in_external_intr k \<and> \<not> intr_on k \<and>
    st k m = THREAD_RUNNING \<and> st k i = THREAD_READY \<and>
    magic (threads k m) = THREAD_MAGIC \<and> magic (threads k i) = THREAD_MAGIC \<and>
    code k = (\<lambda>_. [])(m := [Set_Level True, Call (Sema_Down Idle_Started)], i := [Set_Level True, Idle, Idle_Loop]) \<and>
    (\<forall>s. waiters (semas k s) = []) \<and> (\<forall>l. count (semas k (Lock_Sema l)) = 1) \<and>
    count (semas k Sleeping_List_Sema) = 1 \<and> (\<forall>t. count (semas k (Sleep_Sema t)) = 0) \<and>
    count (semas k Idle_Started) = 0 \<and> thread_ticks k = 0 \<and>
    holder k = (\<lambda>_. 0) \<and> conds k = (\<lambda>_. []) \<and> sleepers k = [] \<and> ticks k = 0 \<and>
    trace k = [Acquired m Tid_Lock, Released m Tid_Lock, Acquired m Tid_Lock, Released m Tid_Lock]"
proof -
  note run = run_allocate_tid [where n = 0, simplified] run_allocate_tid [where n = 2, simplified]
    run_ops_2 run_ops_Cons [where n = 0]
  have s: "(semas (kernel0 v))(Lock_Sema Tid_Lock := \<lparr>count = 1, waiters = []\<rparr>) = semas (kernel0 v)"
    "waiters (semas (kernel0 v) s) = []" "semas (kernel0 v) (Lock_Sema l) = \<lparr>count = 1, waiters = []\<rparr>"
    "count (semas (kernel0 v) (Sleep_Sema t)) = 0" "count (semas (kernel0 v) Idle_Started) = 0" for s l t
    by (simp_all add: kernel0_def fun_eq_iff split: sema_id.split)
  have f: "all_list (kernel0 v) = []" "\<not> intr_on (kernel0 v)" "\<not> in_external_intr (kernel0 v)" "ready_list (kernel0 v) = []"
    "idle_thread (kernel0 v) = 0" "holder (kernel0 v) = (\<lambda>_. 0)" "conds (kernel0 v) = (\<lambda>_. [])" "sleepers (kernel0 v) = []"
    "ticks (kernel0 v) = 0" "next_tid (kernel0 v) = 1" "trace (kernel0 v) = []" "thread_ticks (kernel0 v) = 0" "code (kernel0 v) = (\<lambda>_. [])"
    by (simp_all add: kernel0_def)
  have i: "i \<noteq> m" using assms(3) by simp
  show ?thesis
    using assms i
    by (simp add: booted_def thread_init_def lock_init_def init_thread_def PRI_MIN_def PRI_DEFAULT_def PRI_MAX_def
        sema_init_def kernel_defs Let_def s f run is_thread_def timer_init_def thread_start_def thread_create_def
        create_frames_Inr thread_unblock_Inr ready_thread_def kernel_thread_def
        del: run_ops.simps(2)) (auto simp: fun_eq_iff)
qed

lemma inv_booted:
  assumes "m \<noteq> 0" "i \<noteq> 0" "m \<noteq> i" "booted v m i = Inr k"
  shows "inv i k \<and> \<not> in_external_intr k"
proof -
  have b: "all_list k = [m, i]" "cur k = m" "ready_list k = [i]" "idle_thread k = 0" "\<not> in_external_intr k"
    "st k m = THREAD_RUNNING" "st k i = THREAD_READY"
    "magic (threads k m) = THREAD_MAGIC" "magic (threads k i) = THREAD_MAGIC"
    "code k = (\<lambda>_. [])(m := [Set_Level True, Call (Sema_Down Idle_Started)], i := [Set_Level True, Idle, Idle_Loop])"
    "\<forall>s. waiters (semas k s) = []" "conds k = (\<lambda>_. [])"
    using booted_state [OF assms(1-3), of v] assms(4) by auto
  have "sched i True k" by (rule schedI) (use b assms(1-3) in auto)
  moreover have "code_ok i k"
  proof -
    have "\<exists>qs. code k i = qs @ [Idle, Idle_Loop] \<and> set qs \<subseteq> idle_ops"
      by (intro exI [of _ "[Set_Level True]"]) (use b assms(3) in \<open>simp add: idle_ops_def\<close>)
    then show ?thesis using b assms(3) by (simp add: code_ok_def down_loops_def image_iff)
  qed
  moreover have "waits_ok i k" using b by (simp add: waits_ok_def)
  moreover have "creating_ok i k"
  proof -
    have "\<not> creates k u t" for u t using b assms(3) by (auto simp: creates_def)
    then show ?thesis using b assms(3) by (intro creating_okI) auto
  qed
  ultimately show ?thesis using b(5) by (simp add: inv_def)
qed

theorem inv_reachable:
  assumes "m \<noteq> 0" "i \<noteq> 0" "m \<noteq> i" "reachable v m i k"
  shows "inv i k \<and> \<not> in_external_intr k"
proof -
  obtain k0 where k0: "booted v m i = Inr k0" "kstep\<^sup>*\<^sup>* k0 k" using assms(4) by (auto simp: reachable_def)
  from k0(2) show ?thesis
  proof (induction rule: rtranclp_induct)
    case base
    then show ?case using inv_booted [OF assms(1-3) k0(1)] .
  next
    case (step k k')
    then show ?case using inv_kstep by blast
  qed
qed

end
