(* ===== verification/Pintos_Locks.thy ===== *)
theory Pintos_Locks
  imports Pintos_Threads_Step
begin

text \<open>
  Mutual exclusion for the locks of \<open>Pintos_Threads\<close> and for the semaphore that guards the list of
  sleeping threads. A guard is such a semaphore; what is counted is its single unit, which is in the
  semaphore's value, with a thread on its way to or from the critical section, or with the holder.
\<close>

section \<open>Where the unit of a guard is\<close>

definition is_guard :: "sema_id \<Rightarrow> bool" where
  "is_guard s \<longleftrightarrow> (\<exists>l. s = Lock_Sema l) \<or> s = Sleeping_List_Sema"

text \<open>An operation still to be run takes the unit from the value, or gives it back or to the holder.\<close>

definition takes :: "sema_id \<Rightarrow> op \<Rightarrow> bool" where
  "takes s p \<longleftrightarrow> p = Down_Loop s \<or> p = Call (Sema_Down s)"

definition gives :: "sema_id \<Rightarrow> op \<Rightarrow> bool" where
  "gives s p \<longleftrightarrow> (case s of
     Lock_Sema l \<Rightarrow> p = Set_Holder l \<or> p = Unlock l
   | Sleeping_List_Sema \<Rightarrow> p = Call (Sema_Up s)
   | _ \<Rightarrow> False)"

definition weight :: "sema_id \<Rightarrow> op \<Rightarrow> int" where
  "weight s p = of_bool (gives s p) - of_bool (takes s p)"

definition pend :: "sema_id \<Rightarrow> op list \<Rightarrow> int" where
  "pend s ps = sum_list (map (weight s) ps)"

lemma pend_simps [simp]:
  "pend s [] = 0" "pend s (p # ps) = weight s p + pend s ps" "pend s (ps @ qs) = pend s ps + pend s qs"
  by (simp_all add: pend_def)

text \<open>What remains gives at least as often as it takes, whatever has been run of it.\<close>

fun good :: "sema_id \<Rightarrow> op list \<Rightarrow> bool" where
  "good s [] = True"
| "good s (p # ps) = (0 \<le> pend s (p # ps) \<and> good s ps)"

lemma good_pend: "good s ps \<Longrightarrow> 0 \<le> pend s ps"
  by (cases ps) auto

definition held :: "sema_id \<Rightarrow> kernel \<Rightarrow> bool" where
  "held s k \<longleftrightarrow> (case s of Lock_Sema l \<Rightarrow> holder k l \<noteq> 0 | _ \<Rightarrow> False)"

definition units :: "sema_id \<Rightarrow> kernel \<Rightarrow> int" where
  "units s k = int (unat (count (semas k s))) + (\<Sum>t \<in> set (all_list k). pend s (code k t)) + of_bool (held s k)"

text \<open>
  The history of a lock: it is acquired when nobody holds it, and released by the thread that holds
  it; the result is who holds it at the end.
\<close>

fun replay :: "lock_id \<Rightarrow> event list \<Rightarrow> ptr \<Rightarrow> ptr option" where
  "replay l [] h = Some h"
| "replay l (Acquired t l' # es) h =
    (if l' \<noteq> l then replay l es h else if h = 0 \<and> t \<noteq> 0 then replay l es t else None)"
| "replay l (Released t l' # es) h =
    (if l' \<noteq> l then replay l es h else if h = t \<and> t \<noteq> 0 then replay l es 0 else None)"
| "replay l (Slept t e now # es) h = replay l es h"

lemma replay_append: "replay l (es @ fs) h = Option.bind (replay l es h) (replay l fs)"
  by (induction l es h rule: replay.induct) auto

definition history_ok :: "sema_id \<Rightarrow> kernel \<Rightarrow> bool" where
  "history_ok s k \<longleftrightarrow> (\<forall>l. s = Lock_Sema l \<longrightarrow> replay l (trace k) 0 = Some (holder k l))"

definition guard_ok :: "sema_id \<Rightarrow> kernel \<Rightarrow> bool" where
  "guard_ok s k \<longleftrightarrow> (\<forall>t \<in> set (all_list k). good s (code k t)) \<and> units s k = 1 \<and> history_ok s k"

text \<open>While \<open>p\<close> runs, taken from what the current thread has to do.\<close>

definition guard_at :: "op \<Rightarrow> sema_id \<Rightarrow> kernel \<Rightarrow> bool" where
  "guard_at p s k \<longleftrightarrow> (\<forall>t \<in> set (all_list k). good s (code k t)) \<and> good s (p # code k (cur k)) \<and>
     units s k + weight s p = 1 \<and> history_ok s k"

lemma units_code:
  assumes "c \<in> set (all_list k)" "all_list k' = all_list k" "code k' = (code k)(c := ps)"
  shows "units s k' = units s k + pend s ps - pend s (code k c) +
    int (unat (count (semas k' s))) - int (unat (count (semas k s))) + of_bool (held s k') - of_bool (held s k)"
proof -
  have e: "(\<Sum>t \<in> set (all_list k). pend s (code k t)) =
      pend s (code k c) + (\<Sum>t \<in> set (all_list k) - {c}. pend s (code k t))"
    by (rule sum.remove) (use assms(1) in auto)
  have e': "(\<Sum>t \<in> set (all_list k'). pend s (code k' t)) =
      pend s ps + (\<Sum>t \<in> set (all_list k) - {c}. pend s (code k' t))"
    unfolding assms(2) by (subst sum.remove [of _ c]) (use assms in auto)
  have "(\<Sum>t \<in> set (all_list k) - {c}. pend s (code k' t)) = (\<Sum>t \<in> set (all_list k) - {c}. pend s (code k t))"
    by (rule sum.cong) (simp_all add: assms(3))
  then show ?thesis using e e' by (simp add: units_def)
qed

text \<open>No more than the one unit is anywhere.\<close>

lemma units_ge:
  assumes "\<forall>t \<in> set (all_list k). good s (code k t)" "c \<in> set (all_list k)"
  shows "int (unat (count (semas k s))) + pend s (code k c) + of_bool (held s k) \<le> units s k"
proof -
  have "(\<Sum>t \<in> set (all_list k). pend s (code k t)) =
      pend s (code k c) + (\<Sum>t \<in> set (all_list k) - {c}. pend s (code k t))"
    by (rule sum.remove) (use assms(2) in auto)
  moreover have "0 \<le> (\<Sum>t \<in> set (all_list k) - {c}. pend s (code k t))"
    by (rule sum_nonneg) (use assms(1) good_pend in auto)
  ultimately show ?thesis by (simp add: units_def)
qed

lemma guard_atI:
  assumes "guard_ok s k" "cur k \<in> set (all_list k)" "code k (cur k) \<noteq> []"
  shows "guard_at (hd (code k (cur k))) s (popped k)"
proof -
  obtain p ps where p: "code k (cur k) = p # ps" using assms(3) by (cases "code k (cur k)") auto
  have g: "good s (p # ps)" using assms(1,2) p unfolding guard_ok_def by metis
  have "held s (popped k) = held s k" "semas (popped k) = semas k" by (simp_all add: held_def split: sema_id.split)
  then have "units s (popped k) = units s k - weight s p"
    using units_code [OF assms(2), of "popped k" ps s] p by simp
  then show ?thesis
    using assms(1) g p by (auto simp: guard_at_def guard_ok_def history_ok_def)
qed

text \<open>An operation replaces \<open>p\<close> by \<open>qs\<close>, and changes the value and the holder accordingly.\<close>

lemma guard_exec:
  assumes "guard_at p s k" "cur k \<in> set (all_list k)" "all_list k' = all_list k"
    "code k' = (code k)(cur k := qs @ code k (cur k))" "good s (qs @ code k (cur k))"
    "int (unat (count (semas k' s))) + pend s qs + of_bool (held s k') =
      int (unat (count (semas k s))) + weight s p + of_bool (held s k)"
    "history_ok s k'"
  shows "guard_ok s k'"
proof -
  have "units s k' = 1"
    using units_code [OF assms(2,3,4), of s] assms(1,6) by (simp add: guard_at_def)
  then show ?thesis
    using assms(1,3,4,5,7) by (simp add: guard_ok_def guard_at_def)
qed

lemma guard_same:
  assumes "guard_ok s k" "all_list k' = all_list k" "code k' = code k" "count (semas k' s) = count (semas k s)"
    "holder k' = holder k" "trace k' = trace k"
  shows "guard_ok s k'"
proof -
  have "held s k' = held s k" "history_ok s k' = history_ok s k"
    using assms(5,6) by (auto simp: held_def history_ok_def split: sema_id.split)
  then show ?thesis using assms by (simp add: guard_ok_def units_def)
qed

section \<open>Every operation keeps the unit\<close>

lemmas weight_simps = weight_def gives_def takes_def

lemma not_held_other: "s = Sleeping_List_Sema \<Longrightarrow> \<not> held s k"
  by (simp add: held_def)

text \<open>Operations that leave the guard alone, before and after those that run them.\<close>

lemma guard_neutral:
  assumes "guard_at p s k" "weight s p = 0" "cur k \<in> set (all_list k)" "all_list k' = all_list k"
    "code k' = (code k)(cur k := qs @ code k (cur k))" "\<forall>q \<in> set qs. weight s q = 0"
    "count (semas k' s) = count (semas k s)" "holder k' = holder k" "history_ok s k'"
  shows "guard_ok s k'"
proof (rule guard_exec [OF assms(1,3,4,5)])
  have z: "pend s qs = 0" if "\<forall>q \<in> set qs. weight s q = 0" for qs using that by (induction qs) auto
  have "good s (qs @ rest)" if "\<forall>q \<in> set qs. weight s q = 0" "good s rest" for qs rest
    using that by (induction qs) (auto simp: z dest: good_pend)
  then show "good s (qs @ code k (cur k))" using assms(1,6) by (simp add: guard_at_def)
  show "int (unat (count (semas k' s))) + pend s qs + of_bool (held s k') =
      int (unat (count (semas k s))) + weight s p + of_bool (held s k)"
    using z [OF assms(6)] assms(2,7,8) by (simp add: held_def split: sema_id.split)
qed (rule assms(9))

lemma guard_atD:
  assumes "guard_at p s k"
  shows "good s (code k (cur k))" "0 \<le> pend s (code k (cur k))" "0 \<le> weight s p + pend s (code k (cur k))"
  using assms by (auto simp: guard_at_def intro: good_pend)

lemma history_same: "history_ok s k \<Longrightarrow> trace k' = trace k \<Longrightarrow> holder k' = holder k \<Longrightarrow> history_ok s k'"
  by (simp add: history_ok_def)

lemma guard_pushing:
  assumes "guard_at (Call c) s k" "is_guard s" "pushing c" "exec_call c k = Inr k'"
    "cur k \<in> set (all_list k)" "0 \<notin> set (all_list k)" "\<forall>c. set (conds k c) \<subseteq> range Waiter"
  shows "guard_ok s k'"
proof -
  have k': "k' = push (pushed_ops c k) (pushed_state c k)" using pushing_exec(1) [OF assms(3,4)] .
  have same: "all_list (pushed_state c k) = all_list k" "cur (pushed_state c k) = cur k"
    "code (pushed_state c k) = code k" "count (semas (pushed_state c k) s) = count (semas k s)"
    using assms(2) by (cases c; auto simp: log_def sema_init_def set_count_def set_waiters_def is_guard_def)+
  have code: "code k' = (code k)(cur k := pushed_ops c k @ code k (cur k))" "all_list k' = all_list k"
    "holder k' = holder (pushed_state c k)" "trace k' = trace (pushed_state c k)" "semas k' = semas (pushed_state c k)"
    by (simp_all add: k' push_def same)
  note r = guard_atD [OF assms(1)]
  have H: "history_ok s k" using assms(1) by (simp add: guard_at_def)
  have n: "(0::nat) \<noteq> cur k" using assms(5,6) by metis
  show ?thesis
  proof (rule guard_exec [OF assms(1,5) code(2,1)])
    show "good s (pushed_ops c k @ code k (cur k))"
    proof (cases c)
      case (Cond_Signal d l)
      have "set (conds k d) \<subseteq> range Waiter" using assms(7) by simp
      then show ?thesis using Cond_Signal r assms(2)
        by (cases "conds k d") (auto simp: weight_simps is_guard_def)
    qed (use r assms(2,3) in \<open>auto simp: weight_simps is_guard_def split: sema_id.split\<close>)
    show "history_ok s k'"
    proof (cases c)
      case (Lock_Release l)
      have "holder k l = cur k" using pushing_exec(2) [OF assms(3,4) Lock_Release] by simp
      then show ?thesis using H Lock_Release n
        by (auto simp: history_ok_def code(3,4) log_def replay_append)
    qed (use H in \<open>auto simp: history_ok_def code(3,4) sema_init_def set_count_def set_waiters_def\<close>)
    show "int (unat (count (semas k' s))) + pend s (pushed_ops c k) + of_bool (held s k') =
        int (unat (count (semas k s))) + weight s (Call c) + of_bool (held s k)"
    proof (cases c)
      case (Lock_Release l)
      have "holder k l = cur k" "cur k \<noteq> 0" using pushing_exec(2) [OF assms(3,4) Lock_Release] by simp_all
      then show ?thesis using Lock_Release same(4) assms(2)
        by (auto simp: code(3,5) log_def held_def weight_simps is_guard_def)
    next
      case (Cond_Signal d l)
      have "set (conds k d) \<subseteq> range Waiter" using assms(7) by simp
      moreover have "held s k' = held s k" using Cond_Signal by (simp add: held_def code(3) split: sema_id.split)
      ultimately show ?thesis using Cond_Signal same(4) assms(2)
        by (cases "conds k d") (auto simp: code(5) weight_simps is_guard_def)
    next
      case (Cond_Wait d l)
      have "held s k' = held s k"
        using Cond_Wait by (simp add: held_def code(3) sema_init_def set_count_def set_waiters_def split: sema_id.split)
      then show ?thesis using Cond_Wait same(4) assms(2) by (auto simp: code(5) weight_simps is_guard_def)
    qed (use assms(2,3) same(4) in \<open>auto simp: code(3,5) held_def weight_simps is_guard_def\<close>)
  qed
qed

text \<open>Where only who is running or ready changes, or other threads' lists of statements by nothing that counts.\<close>

lemma units_cong:
  assumes "\<And>t. t \<in> set (all_list k) \<inter> set (all_list k') \<Longrightarrow> pend s (code k' t) = pend s (code k t)"
    "\<And>t. t \<in> set (all_list k') - set (all_list k) \<Longrightarrow> pend s (code k' t) = 0"
    "\<And>t. t \<in> set (all_list k) - set (all_list k') \<Longrightarrow> pend s (code k t) = 0"
    "count (semas k' s) = count (semas k s)" "holder k' = holder k"
  shows "units s k' = units s k"
proof -
  have "(\<Sum>t \<in> set (all_list k'). pend s (code k' t)) = (\<Sum>t \<in> set (all_list k) \<inter> set (all_list k'). pend s (code k' t))"
    by (rule sum.mono_neutral_right) (use assms(2) in auto)
  also have "\<dots> = (\<Sum>t \<in> set (all_list k) \<inter> set (all_list k'). pend s (code k t))"
    by (rule sum.cong) (use assms(1) in auto)
  also have "\<dots> = (\<Sum>t \<in> set (all_list k). pend s (code k t))"
    by (rule sum.mono_neutral_left) (use assms(3) in auto)
  finally show ?thesis using assms(4,5) by (simp add: units_def held_def split: sema_id.split)
qed

lemma guard_yield:
  assumes "guard_at p s k" "weight s p = 0" "cur k \<in> set (all_list k)" "thread_yield k = Inr k'"
  shows "guard_ok s k'"
proof -
  have k': "k' = switched (yielding (push [Set_Level (intr_on k)] (k\<lparr>intr_on := False\<rparr>)))"
    using assms(4) by (simp add: thread_yield_Inr)
  show ?thesis
    by (rule guard_neutral [OF assms(1-3), of _ "[Set_Level (intr_on k)]"])
      (use assms(1) in \<open>auto simp: k' yielding_def push_def weight_simps guard_at_def
         intro: history_same split: sema_id.split\<close>)
qed

lemma sema_up_fields:
  assumes "sema_up s' k = Inr k'"
  shows "all_list k' = all_list k" "code k' = code k" "holder k' = holder k" "trace k' = trace k" "cur k' = cur k"
    "count (semas k' s) = (if s = s' then count (semas k s) + 1 else count (semas k s))"
  using assms
  by (auto simp: sema_up_Inr woken_def ready_thread_def set_waiters_def set_count_def split: list.split)

lemma sema_try_down_fields:
  assumes "sema_try_down s' k = Inr (r, k')"
  shows "all_list k' = all_list k" "code k' = code k" "holder k' = holder k" "trace k' = trace k" "cur k' = cur k"
    "count (semas k' s) = (if s = s' \<and> r then count (semas k s) - 1 else count (semas k s))"
    "r \<longleftrightarrow> count (semas k s') \<noteq> 0"
  using assms by (auto simp: sema_try_down_Inr set_count_def)

lemma guard_exec_call:
  assumes "guard_at (Call c) s k" "is_guard s" "inv i k" "enabled i k (Call c)" "exec_call c k = Inr k'"
  shows "guard_ok s k'"
proof (cases "pushing c")
  case True
  have S: "sched i True k" and C: "code_ok i k" using assms(3) by (simp_all add: inv_def)
  show ?thesis
    by (rule guard_pushing [OF assms(1,2) True assms(5)])
      (use sched_cur [OF S] schedD(2) [OF S] C in \<open>simp_all add: code_ok_def\<close>)
next
  case False
  have S: "sched i True k" using assms(3) by (simp add: inv_def)
  note c = sched_cur [OF S]
  have H: "history_ok s k" using assms(1) by (simp add: guard_at_def)
  show ?thesis
  proof (cases c)
    case (Sema_Try_Down s')
    then obtain r k1 where r: "sema_try_down s' k = Inr (r, k1)" "k' = return (of_bool r) k1"
      using assms(5) by (auto split: if_splits)
    have "s' \<noteq> s" using assms(2,4) Sema_Try_Down by (auto simp: enabled_def is_guard_def)
    then show ?thesis
      using guard_neutral [OF assms(1) _ c(1), of k' "[]"] sema_try_down_fields [OF r(1)] H r(2) Sema_Try_Down assms(2)
      by (auto simp: return_def weight_simps is_guard_def history_ok_def)
  next
    case (Sema_Up s')
    then have u: "sema_up s' k = Inr k'" using assms(5) by simp
    note f = sema_up_fields [OF u]
    show ?thesis
    proof (cases "s' = s")
      case True
      then have s: "s = Sleeping_List_Sema" "s' = Sleeping_List_Sema"
        using assms(2,4) Sema_Up by (auto simp: enabled_def is_guard_def)
      have "units s k = 0" "\<not> held s k" using assms(1) Sema_Up s by (simp_all add: guard_at_def weight_simps held_def)
      then have "int (unat (count (semas k s))) + pend s (code k (cur k)) \<le> 0"
        using units_ge [of k s "cur k"] assms(1) c(1) by (simp add: guard_at_def)
      then have "int (unat (count (semas k s))) \<le> 0" using guard_atD(2) [OF assms(1)] by linarith
      then have "count (semas k s) = 0" by (simp only: of_nat_le_0_iff unat_eq_0)
      then show ?thesis
        using guard_exec [OF assms(1) c(1), of k' "[]"] f guard_atD(1) [OF assms(1)] H Sema_Up s
        by (auto simp: held_def weight_simps history_ok_def)
    next
      case False
      then show ?thesis
        using guard_neutral [OF assms(1) _ c(1), of k' "[]"] f H Sema_Up assms(2)
        by (auto simp: weight_simps is_guard_def history_ok_def)
    qed
  next
    case Thread_Yield
    then show ?thesis using guard_yield [OF assms(1) _ c(1)] assms(2,5) by (auto simp: weight_simps is_guard_def)
  next
    case Thread_Exit
    then have e: "code k (cur k) = []" "k' = switched (exiting (k\<lparr>intr_on := False\<rparr>))"
      using assms(4,5) by (simp_all add: enabled_def thread_exit_Inr)
    have a: "set (all_list k') = set (all_list k) - {cur k}"
      using schedD(1) [OF S] by (simp add: e(2) exiting_def)
    have "units s k' = units s k"
      by (rule units_cong) (use a e in \<open>auto simp: exiting_def\<close>)
    then show ?thesis
      using assms(1,2) Thread_Exit e(1) H a
      by (auto simp: guard_ok_def guard_at_def weight_simps is_guard_def history_ok_def e(2) exiting_def)
  next
    case (Thread_Create t nm prio f)
    show ?thesis
    proof (cases "t = 0")
      case True
      then show ?thesis
        using guard_neutral [OF assms(1) _ c(1), of k' "[]"] H Thread_Create assms(2,5)
        by (auto simp: thread_create_def return_def weight_simps is_guard_def history_ok_def)
    next
      case False
      then have t: "t \<notin> set (all_list k)" "code k (cur k) = []" using assms(4) Thread_Create by (auto simp: enabled_def)
      then have tc: "t \<noteq> cur k" using c(1) by auto
      let ?qs = "[Call (Lock_Acquire Tid_Lock), Assign_Tid, Call (Lock_Release Tid_Lock), Create_Frames t f, Unblock t]"
      have k': "all_list k' = all_list k @ [t]" "code k' = (code k)(t := [], cur k := ?qs)" "semas k' = semas k"
        "holder k' = holder k" "trace k' = trace k"
        using assms(5) False tc t(2) Thread_Create
        by (auto simp: thread_create_def init_thread_def push_def fun_upd_twist)
      have q: "good s ?qs" "pend s ?qs = 0" "weight s (Call c) = 0"
        using assms(2) Thread_Create by (auto simp: weight_simps is_guard_def)
      have "units s k' = units s k"
        by (rule units_cong) (use t q(2) tc in \<open>auto simp: k'\<close>)
      then show ?thesis
        using assms(1) q(1,3) tc k'(4,5) H
        by (auto simp: guard_ok_def guard_at_def k'(1,2) history_ok_def simp del: good.simps(2))
    qed
  next
    case (Thread_Set_Priority p)
    then show ?thesis
      using guard_neutral [OF assms(1) _ c(1), of k' "[]"] H assms(2,5)
      by (auto simp: thread_set_priority_def set_thread_def weight_simps is_guard_def history_ok_def)
  qed (use False in simp_all)
qed

lemma guard_exec_op:
  assumes "guard_at p s k" "is_guard s" "inv i k" "enabled i k p" "exec p k = Inr k'"
  shows "guard_ok s k'"
proof -
  have S: "sched i True k" and C: "code_ok i k" and N: "creating_ok i k" using assms(3) by (simp_all add: inv_def)
  note c = sched_cur [OF S]
  have H: "history_ok s k" using assms(1) by (simp add: guard_at_def)
  have n: "0 < cur k" using c(4) by (simp add: is_thread_def)
  note r = guard_atD [OF assms(1)]
  have le: "int (unat (count (semas k s))) + pend s (code k (cur k)) + of_bool (held s k) + weight s p \<le> 1"
    using units_ge [of k s "cur k"] assms(1) c(1) by (simp add: guard_at_def)
  note neutral = guard_neutral [OF assms(1) _ c(1), of k']
  note simps = weight_simps history_ok_def is_guard_def
  show ?thesis
  proof (cases p)
    case (Call d)
    then show ?thesis using guard_exec_call assms by simp
  next
    case (Set_Level b)
    then show ?thesis using neutral [of "[]"] assms(2,5) H by (auto simp: intr_set_level_Inr simps)
  next
    case (Down_Loop s')
    show ?thesis
    proof (cases "count (semas k s') = 0")
      case True
      then have k': "k' = switched (blocked_thread (waiting s' k))"
        using assms(5) Down_Loop by (auto simp: down_loop_Inr split: if_splits)
      show ?thesis
        by (rule guard_exec [OF assms(1) c(1), of _ "[Down_Loop s']"])
          (use assms(1) Down_Loop H in \<open>auto simp: k' waiting_def blocked_thread_def push_def set_waiters_def held_def
            guard_at_def history_ok_def split: sema_id.split\<close>)
    next
      case False
      then have k': "k' = set_count s' (count (semas k s') - 1) k"
        using assms(5) Down_Loop by (auto simp: down_loop_Inr split: if_splits)
      have "int (unat (count (semas k s') - 1)) = int (unat (count (semas k s'))) - 1"
        using False by (simp add: unat_minus_one unat_gt_0 Suc_leI of_nat_diff)
      then show ?thesis
        using guard_exec [OF assms(1) c(1), of k' "[]"] r(1) Down_Loop H assms(2)
        by (auto simp: k' set_count_def held_def simps split: sema_id.splits)
    qed
  next
    case (Set_Holder l)
    then have k': "k' = log (Acquired (cur k) l) (k\<lparr>holder := (holder k)(l := cur k)\<rparr>)"
      using assms(5) by (auto simp: set_holder_def)
    show ?thesis
    proof (cases "s = Lock_Sema l")
      case True
      have w: "weight s p = 1" using Set_Holder True by (simp add: weight_simps)
      have "of_bool (held s k) \<le> (0::int)" using le r(2) unfolding w by linarith
      then have free: "holder k l = 0" using True by (cases "holder k l = 0") (simp_all add: held_def)
      show ?thesis
        by (rule guard_exec [OF assms(1) c(1), of _ "[]"])
          (use True r(1) Set_Holder free H n in \<open>auto simp: k' log_def held_def simps replay_append\<close>)
    next
      case False
      show ?thesis
        by (rule guard_exec [OF assms(1) c(1), of _ "[]"])
          (use False assms(2) r(1) Set_Holder H n in \<open>auto simp: k' log_def held_def simps replay_append\<close>)
    qed
  next
    case (Try_Holder l)
    then obtain b k1 where k1: "sema_try_down (Lock_Sema l) k = Inr (b, k1)"
      "k' = return (of_bool b) (if b then push [Set_Holder l] k1 else k1)"
      using assms(5) by (auto simp: try_holder_def)
    note f = sema_try_down_fields [OF k1(1)]
    show ?thesis
    proof (rule guard_exec [OF assms(1) c(1), of _ "if b then [Set_Holder l] else []"])
      have "int (unat (count (semas k (Lock_Sema l)) - 1)) = int (unat (count (semas k (Lock_Sema l)))) - 1" if b
        using that f(7) by (simp add: unat_minus_one unat_gt_0 Suc_leI of_nat_diff)
      then show "int (unat (count (semas k' s))) + pend s (if b then [Set_Holder l] else []) + of_bool (held s k') =
          int (unat (count (semas k s))) + weight s p + of_bool (held s k)"
        using Try_Holder f assms(2) by (auto simp: k1(2) return_def push_def held_def simps)
      show "good s ((if b then [Set_Holder l] else []) @ code k (cur k))"
        using r(1,2) Try_Holder assms(2) by (auto simp: simps)
    qed (use f H in \<open>auto simp: k1(2) return_def push_def history_ok_def\<close>)
  next
    case (Unlock l)
    then have u: "sema_up (Lock_Sema l) k = Inr k'" using assms(5) by simp
    note f = sema_up_fields [OF u]
    show ?thesis
    proof (cases "s = Lock_Sema l")
      case True
      have w: "weight s p = 1" using Unlock True by (simp add: weight_simps)
      have "0 \<le> (of_bool (held s k) :: int)" by simp
      then have "int (unat (count (semas k s))) \<le> 0" using le r(2) unfolding w by linarith
      then have z: "count (semas k s) = 0" by (simp only: of_nat_le_0_iff unat_eq_0)
      show ?thesis
        by (rule guard_exec [OF assms(1) c(1), of _ "[]"])
          (use True r(1) Unlock z H f in \<open>auto simp: held_def simps\<close>)
    next
      case False
      show ?thesis
        by (rule neutral [of "[]"]) (use False f Unlock H assms(2) in \<open>auto simp: simps\<close>)
    qed
  next
    case (Create_Frames t f)
    then have t: "creates k (cur k) t" "f = Client" using assms(4) by (auto simp: enabled_def)
    note t' = creating_okD [OF N t(1)]
    have k': "all_list k' = all_list k" "code k' = (code k)(t := [Set_Level True])" "semas k' = semas k"
      "holder k' = holder k" "trace k' = trace k" "cur k' = cur k"
      using assms(5) Create_Frames t(2) by (auto simp: create_frames_Inr kernel_thread_def)
    have u: "units s k' = units s k"
      by (rule units_cong) (use t'(4) assms(2) in \<open>auto simp: k' simps\<close>)
    have q: "weight s p = 0" "good s [Set_Level True]" using Create_Frames assms(2) by (auto simp: simps)
    have "\<forall>x \<in> set (all_list k'). good s (code k' x)"
      using assms(1) q(2) by (auto simp: k' guard_at_def simp del: good.simps(2))
    moreover have "history_ok s k'" using H by (simp add: history_ok_def k')
    ultimately show ?thesis using u q(1) assms(1) by (simp add: guard_ok_def guard_at_def)
  next
    case (Unblock t)
    then have "k' = ready_thread t k" using assms(5) by (simp add: thread_unblock_Inr)
    then show ?thesis using neutral [of "[]"] assms(2) Unblock H by (auto simp: ready_thread_def simps)
  next
    case (Sleep_Insert e)
    then show ?thesis using neutral [of "[]"] assms(2,5) H
      by (auto simp: sleep_insert_def sema_init_def set_count_def set_waiters_def Let_def simps)
  next
    case (Sleep_Return e)
    then show ?thesis using neutral [of "[]"] assms(2,5) H by (auto simp: log_def simps replay_append)
  qed (use neutral [of "[]"] assms(2,4,5) H in \<open>auto simp: assign_tid_def return_def simps enabled_def\<close>)
qed

text \<open>The idle thread's own operations, and a step of the kernel.\<close>

lemma guard_idle_op:
  assumes "guard_at p s k" "is_guard s" "inv i k" "p \<in> idle_ops" "exec p k = Inr k'"
  shows "guard_ok s k'"
proof -
  have S: "sched i True k" using assms(3) by (simp add: inv_def)
  note c = sched_cur(1) [OF S]
  have H: "history_ok s k" using assms(1) by (simp add: guard_at_def)
  have w: "weight s p = 0" using assms(2,4) by (auto simp: idle_ops_def weight_simps is_guard_def)
  show ?thesis
  proof (cases "p = Call (Sema_Up Idle_Started)")
    case True
    then have u: "sema_up Idle_Started k = Inr k'" using assms(5) by simp
    note f = sema_up_fields [OF u]
    show ?thesis
      by (rule guard_neutral [OF assms(1) w c, of _ "[]"])
        (use f H assms(2) in \<open>auto simp: history_ok_def is_guard_def\<close>)
  next
    case False
    show ?thesis
      by (rule guard_neutral [OF assms(1) w c, of _ "[]"])
        (use False assms(4,5) H in \<open>auto simp: idle_ops_def intr_set_level_Inr history_ok_def\<close>)
  qed
qed

lemma guard_step_op:
  assumes "inv i k" "guard_ok s k" "is_guard s" "code k (cur k) \<noteq> []" "step_op k = Inr k'"
  shows "guard_ok s k'"
proof -
  let ?p = "hd (code k (cur k))"
  have S: "sched i True k" using assms(1) by (simp add: inv_def)
  note c = sched_cur [OF S]
  have g: "guard_at ?p s (popped k)" by (rule guard_atI [OF assms(2) c(1) assms(4)])
  have e: "exec ?p (popped k) = Inr k'" using assms(5) step_op_popped [OF assms(4)] by simp
  show ?thesis
  proof (cases "cur k = i \<and> ?p \<notin> idle_ops")
    case False
    then have I: "inv i (popped k)" using inv_popped [OF assms(1)] by auto
    show ?thesis
    proof (cases "cur k = i")
      case True
      then show ?thesis using guard_idle_op [OF g assms(3) I _ e] False by simp
    next
      case False
      then show ?thesis using guard_exec_op [OF g assms(3) I enabled_next e] assms(1,4) by simp
    qed
  next
    case True
    have code: "code k i = (if idle_thread k = 0 then [Idle, Idle_Loop] else [Idle_Loop])" "?p = Idle \<longleftrightarrow> idle_thread k = 0"
      using idle_runs [OF assms(1)] True assms(4) by auto
    have H: "history_ok s (popped k)" using g by (simp add: guard_at_def)
    show ?thesis
    proof (cases "?p = Idle")
      case idle: True
      then have w: "weight s ?p = 0" using assms(3) by (auto simp: weight_simps is_guard_def)
      have k': "k' = push [Call (Sema_Up Idle_Started)] ((popped k)\<lparr>idle_thread := cur k\<rparr>)"
        using e idle by (auto simp: idle_def)
      show ?thesis
        by (rule guard_neutral [OF g w, of _ "[Call (Sema_Up Idle_Started)]"])
          (use c(1) H assms(3) in \<open>auto simp: k' push_def history_ok_def weight_simps is_guard_def\<close>)
    next
      case False
      then have p: "?p = Idle_Loop" using code True by (auto split: if_splits)
      then have w: "weight s ?p = 0" using assms(3) by (auto simp: weight_simps is_guard_def)
      have k': "k' = switched (blocked_thread (push [Sti_Hlt, Idle_Loop] (intr_disable (popped k))))"
        using e p by (auto simp: idle_loop_def thread_block_Inr)
      show ?thesis
        by (rule guard_neutral [OF g w, of _ "[Sti_Hlt, Idle_Loop]"])
          (use c(1) H assms(3) in \<open>auto simp: k' push_def blocked_thread_def intr_disable_def history_ok_def weight_simps is_guard_def\<close>)
    qed
  qed
qed

section \<open>The timer interrupt leaves the guards as it found them\<close>

lemma wake_loop_counts:
  assumes "is_guard s"
  shows "wake_loop es k = Inr k' \<Longrightarrow> count (semas k' s) = count (semas k s)"
proof (induction es arbitrary: k)
  case (Cons e es)
  show ?case
  proof (cases "wake_at k e \<le> ticks k")
    case True
    then obtain k1 where k1: "sema_up (Sleep_Sema e) k = Inr k1"
      "wake_loop es (k1\<lparr>sleepers := remove1 e (sleepers k1)\<rparr>) = Inr k'"
      using Cons.prems by (auto simp: timer_ticks_def)
    show ?thesis
      using Cons.IH [OF k1(2)] sema_up_fields(6) [OF k1(1), of s] assms by (auto simp: is_guard_def)
  qed (use Cons.prems in \<open>simp add: timer_ticks_def\<close>)
qed simp

lemma try_to_wake_counts:
  assumes "is_guard s" "try_to_wake_up_threads k = Inr k'"
  shows "count (semas k' s) = count (semas k s)"
proof -
  obtain r k1 where k1: "sema_try_down Sleeping_List_Sema k = Inr (r, k1)"
    "(if r then bindE (wake_loop (sleepers k1) k1) (sema_up Sleeping_List_Sema) else Inr k1) = Inr k'"
    using assms(2) by (auto simp: try_to_wake_up_threads_def)
  note f = sema_try_down_fields(6) [OF k1(1), of s]
  show ?thesis
  proof (cases r)
    case True
    then obtain k2 where k2: "wake_loop (sleepers k1) k1 = Inr k2" "sema_up Sleeping_List_Sema k2 = Inr k'"
      using k1(2) by auto
    show ?thesis
      using wake_loop_counts [OF assms(1) k2(1)] sema_up_fields(6) [OF k2(2), of s] f True
      by (cases "s = Sleeping_List_Sema") simp_all
  qed (use k1(2) f in simp)
qed

lemma timer_interrupt_counts:
  assumes "is_guard s" "timer_interrupt k = Inr k'"
  shows "count (semas k' s) = count (semas k s)"
proof -
  obtain k1 where k1: "try_to_wake_up_threads (k\<lparr>ticks := ticks k + 1\<rparr>) = Inr k1" "thread_tick k1 = Inr k'"
    using assms(2) by (auto simp: timer_interrupt_def)
  show ?thesis using try_to_wake_counts [OF assms(1) k1(1)] thread_tick_effect [OF k1(2)] by simp
qed

lemma guard_intr_handler:
  assumes "inv i k" "intr_on k" "guard_ok s k" "is_guard s" "intr_handler k = Inr k'"
  shows "guard_ok s k'"
proof -
  obtain k1 where k1: "timer_interrupt (entered k) = Inr k1"
    "let k2 = k1\<lparr>in_external_intr := False\<rparr> in if yield_on_return k1 then thread_yield k2 = Inr k' else k' = k2"
    using assms(5) by (auto simp: intr_handler_Inr)
  note q = inv_timer_interrupt [OF inv_entered [OF assms(1,2)] k1(1)]
  have S: "sched i True k" using assms(1) by (simp add: inv_def)
  note c = sched_cur [OF S]
  let ?k = "k1\<lparr>in_external_intr := False\<rparr>"
  have same: "cur ?k = cur k" "all_list ?k = all_list k" "code ?k = (code k)(cur k := Iret # code k (cur k))"
    "holder ?k = holder k" "trace ?k = trace k"
    using q(2) by (simp_all add: quiet_def)
  have cnt: "count (semas ?k s) = count (semas k s)" using timer_interrupt_counts [OF assms(4) k1(1)] by simp
  have w: "weight s Iret = 0" "weight s Sti_Hlt = 0" using assms(4) by (auto simp: weight_simps is_guard_def)
  have "guard_at Sti_Hlt s k"
    using assms(3) c(1) w good_pend [of s "code k (cur k)"] by (auto simp: guard_ok_def guard_at_def)
  then have ok: "guard_ok s ?k"
    by (rule guard_neutral [OF _ w(2) c(1), of _ "[Iret]"])
      (use same cnt w assms(3) in \<open>auto simp: guard_ok_def history_ok_def\<close>)
  show ?thesis
  proof (cases "yield_on_return k1")
    case True
    then have y: "thread_yield ?k = Inr k'" using k1(2) by (simp add: Let_def)
    have ck: "cur ?k \<in> set (all_list ?k)" using c(1) same by metis
    have "guard_at Sti_Hlt s ?k"
      using ok ck w good_pend [of s "code ?k (cur ?k)"] unfolding guard_ok_def guard_at_def by simp
    then show ?thesis by (rule guard_yield [OF _ w(2) ck y])
  next
    case False
    then show ?thesis using ok k1(2) by (simp add: Let_def)
  qed
qed

lemma guard_kstep:
  assumes "inv i k" "guard_ok s k" "is_guard s" "kstep k k'"
  shows "guard_ok s k'"
  using assms(4)
proof (cases rule: kstep.cases)
  case run
  then show ?thesis using guard_step_op [OF assms(1-3)] by simp
next
  case (call c)
  have S: "sched i True k" using assms(1) by (simp add: inv_def)
  have w: "weight s (Call c) = 0" using call(2) assms(3) by (cases c) (auto simp: weight_simps is_guard_def)
  have "guard_at (Call c) s k" using assms(2) w call(1) by (simp add: guard_ok_def guard_at_def)
  then show ?thesis
    using guard_exec_call [OF _ assms(3,1) _ call(3)] call(1,2) by (simp add: enabled_def)
next
  case tick
  then show ?thesis using guard_intr_handler [OF assms(1) _ assms(2,3)] by simp
qed

lemma guard_booted:
  assumes "m \<noteq> 0" "i \<noteq> 0" "m \<noteq> i" "booted v m i = Inr k" "is_guard s"
  shows "guard_ok s k"
proof -
  have b: "all_list k = [m, i]" "\<forall>l. count (semas k (Lock_Sema l)) = 1" "count (semas k Sleeping_List_Sema) = 1" "holder k = (\<lambda>_. 0)"
    "code k = (\<lambda>_. [])(m := [Set_Level True, Call (Sema_Down Idle_Started)], i := [Set_Level True, Idle, Idle_Loop])"
    "trace k = [Acquired m Tid_Lock, Released m Tid_Lock, Acquired m Tid_Lock, Released m Tid_Lock]"
    using booted_state [OF assms(1-3), of v] assms(4) by auto
  show ?thesis
    using b assms by (auto simp: guard_ok_def units_def held_def history_ok_def weight_simps is_guard_def split: sema_id.splits)
qed

end
