(* ===== verification/Pintos_Sleep.thy ===== *)
theory Pintos_Sleep
  imports Pintos_Locks
begin

text \<open>
  The sleeping threads of \<open>Pintos_Threads\<close>: the list that \<open>timer_sleep\<close> keeps is sorted by the time to
  wake up, its members are those that are on their way to sleep, asleep or not yet woken, and no
  thread passes its semaphore before its time. The order of the list is that of \<open>list_insert_ordered\<close>.
\<close>

interpretation by_wake: list_less "has_less_sleep_time k" for k
  by unfold_locales (auto simp: has_less_sleep_time_def)

section \<open>The phases of a call of \<open>timer_sleep\<close>\<close>

fun sleep_op :: "op \<Rightarrow> bool" where
  "sleep_op (Sleep_Insert e) = True"
| "sleep_op (Sleep_Return e) = True"
| "sleep_op (Call (Sema_Down (Sleep_Sema t))) = True"
| "sleep_op (Down_Loop (Sleep_Sema t)) = True"
| "sleep_op _ = False"

definition plain :: "op list \<Rightarrow> bool" where
  "plain ps \<longleftrightarrow> (\<forall>p \<in> set ps. \<not> sleep_op p)"

lemma plain_simps [simp]:
  "plain []" "plain (p # ps) \<longleftrightarrow> \<not> sleep_op p \<and> plain ps" "plain (ps @ qs) \<longleftrightarrow> plain ps \<and> plain qs"
  by (auto simp: plain_def)

text \<open>What remains once the statements that have nothing to do with sleeping are skipped.\<close>

definition rest :: "op list \<Rightarrow> op list" where
  "rest ps = dropWhile (\<lambda>p. \<not> sleep_op p) ps"

lemma rest_simps [simp]:
  "rest [] = []" "rest (p # ps) = (if sleep_op p then p # ps else rest ps)" "plain ps \<Longrightarrow> rest ps = []"
  "plain ps \<Longrightarrow> rest (ps @ qs) = rest qs"
  by (auto simp: rest_def plain_def)

definition before :: "ptr \<Rightarrow> int \<Rightarrow> op list \<Rightarrow> bool" where
  "before t e ps \<longleftrightarrow>
     rest ps = [Sleep_Insert e, Call (Sema_Up Sleeping_List_Sema), Call (Sema_Down (Sleep_Sema t)), Sleep_Return e]"

definition asleep :: "ptr \<Rightarrow> int \<Rightarrow> op list \<Rightarrow> bool" where
  "asleep t e ps \<longleftrightarrow> rest ps = [Call (Sema_Down (Sleep_Sema t)), Sleep_Return e] \<or>
     (\<exists>b. rest ps = [Down_Loop (Sleep_Sema t), Set_Level b, Sleep_Return e])"

definition after :: "int \<Rightarrow> op list \<Rightarrow> bool" where
  "after e ps \<longleftrightarrow> rest ps = [Sleep_Return e]"

definition phase :: "kernel \<Rightarrow> ptr \<Rightarrow> op list \<Rightarrow> bool" where
  "phase k t ps \<longleftrightarrow> rest ps = [] \<or> (\<exists>e. before t e ps) \<or> asleep t (wake_at k t) ps \<or> (\<exists>e \<le> ticks k. after e ps)"

lemma before_not_asleep: "before t e ps \<Longrightarrow> \<not> asleep t e' ps"
  by (auto simp: before_def asleep_def)

text \<open>\<open>C\<close> is what the threads have to do; the operation that runs is counted as still to be done.\<close>

definition sleep_inv :: "(ptr \<Rightarrow> op list) \<Rightarrow> kernel \<Rightarrow> bool" where
  "sleep_inv C k \<longleftrightarrow>
     (\<forall>t \<in> set (all_list k). phase k t (C t)) \<and>
     (\<forall>t. count (semas k (Sleep_Sema t)) \<noteq> 0 \<longrightarrow> wake_at k t \<le> ticks k) \<and>
     (\<forall>t \<in> set (sleepers k). t \<in> set (all_list k) \<and> asleep t (wake_at k t) (C t) \<and> count (semas k (Sleep_Sema t)) = 0) \<and>
     distinct (sleepers k) \<and> ordered (has_less_sleep_time k) (sleepers k) \<and>
     (\<forall>t e now. Slept t e now \<in> set (trace k) \<longrightarrow> e \<le> now)"

abbreviation sleep_ok :: "kernel \<Rightarrow> bool" where "sleep_ok k \<equiv> sleep_inv (code k) k"

abbreviation sleep_at :: "op \<Rightarrow> kernel \<Rightarrow> bool" where
  "sleep_at p k \<equiv> sleep_inv ((code k)(cur k := p # code k (cur k))) k"

lemma sleep_atI:
  "sleep_ok k \<Longrightarrow> code k (cur k) \<noteq> [] \<Longrightarrow> sleep_at (hd (code k (cur k))) (popped k)"
proof -
  assume "sleep_ok k" "code k (cur k) \<noteq> []"
  moreover from this(2) have "((code (popped k))(cur k := hd (code k (cur k)) # code (popped k) (cur k))) = code k"
    by (auto simp: fun_eq_iff)
  ultimately show ?thesis
    unfolding popped_fields(1) by (simp add: sleep_inv_def phase_def popped_def has_less_sleep_time_def [abs_def])
qed

text \<open>What the state of the sleepers depends on, and how it may change without any of them noticing.\<close>

definition same_sleep :: "kernel \<Rightarrow> kernel \<Rightarrow> bool" where
  "same_sleep k k' \<longleftrightarrow> wake_at k' = wake_at k \<and> ticks k' = ticks k \<and> sleepers k' = sleepers k \<and>
     (\<forall>t. count (semas k' (Sleep_Sema t)) = count (semas k (Sleep_Sema t))) \<and>
     (\<forall>t e now. Slept t e now \<in> set (trace k') \<longrightarrow> Slept t e now \<in> set (trace k))"

lemma same_sleepD:
  assumes "same_sleep k k'"
  shows "wake_at k' = wake_at k" "ticks k' = ticks k" "sleepers k' = sleepers k"
    "count (semas k' (Sleep_Sema t)) = count (semas k (Sleep_Sema t))"
    "Slept t e now \<in> set (trace k') \<Longrightarrow> Slept t e now \<in> set (trace k)"
    "has_less_sleep_time k' = has_less_sleep_time k" "phase k' = phase k"
  using assms by (auto simp: same_sleep_def has_less_sleep_time_def fun_eq_iff phase_def)

lemma sleep_same:
  assumes "sleep_inv C k" "same_sleep k k'"
    "\<And>t. t \<in> set (all_list k') \<Longrightarrow> rest (C' t) = (if t \<in> set (all_list k) then rest (C t) else [])"
    "\<And>t. t \<in> set (all_list k) - set (all_list k') \<Longrightarrow> rest (C t) = []"
  shows "sleep_inv C' k'"
proof -
  note s = same_sleepD [OF assms(2)]
  have ph: "phase k' t (C' t)" if "t \<in> set (all_list k')" for t
    using assms(1,3) that unfolding s(7) sleep_inv_def
    by (cases "t \<in> set (all_list k)") (auto simp: phase_def before_def asleep_def after_def)
  have sl: "t \<in> set (all_list k') \<and> asleep t (wake_at k t) (C' t) \<and> count (semas k (Sleep_Sema t)) = 0"
    if "t \<in> set (sleepers k)" for t
  proof -
    have t: "t \<in> set (all_list k)" "asleep t (wake_at k t) (C t)" "count (semas k (Sleep_Sema t)) = 0"
      using assms(1) that by (auto simp: sleep_inv_def)
    moreover have "rest (C t) \<noteq> []" using t(2) by (auto simp: asleep_def)
    then have "t \<in> set (all_list k')" using assms(4) [of t] t(1) by blast
    ultimately show ?thesis using assms(3) by (simp add: asleep_def)
  qed
  show ?thesis
    unfolding sleep_inv_def s(1,2,3,4,6)
    using assms(1) ph sl s(5) unfolding sleep_inv_def by blast
qed

text \<open>An operation that has nothing to do with sleeping, and pushes none that has.\<close>

lemma sleep_plain:
  assumes "sleep_at p k" "\<not> sleep_op p" "same_sleep k k'" "all_list k' = all_list k"
    "code k' = (code k)(cur k := qs @ code k (cur k))" "plain qs"
  shows "sleep_ok k'"
  by (rule sleep_same [OF assms(1,3)]) (use assms(2,4-6) in auto)

section \<open>Every operation keeps it\<close>

lemma same_sleep_count: "(\<And>t. s \<noteq> Sleep_Sema t) \<Longrightarrow> same_sleep k (set_count s v k)"
  by (auto simp: same_sleep_def set_count_def)

lemma same_sleep_up:
  assumes "sema_up s k = Inr k'" "\<And>t. s \<noteq> Sleep_Sema t"
  shows "same_sleep k k'"
  using sema_up_fields [OF assms(1)] sema_up_quiet [OF assms(1)] assms(2)
  by (auto simp: same_sleep_def quiet_def)

lemma same_sleep_try:
  assumes "sema_try_down s k = Inr (r, k')" "\<And>t. s \<noteq> Sleep_Sema t"
  shows "same_sleep k k'"
  using sema_try_down_fields [OF assms(1)] sema_try_down_quiet [OF assms(1)] assms(2)
  by (auto simp: same_sleep_def quiet_def)

lemma same_sleep_refl [simp]:
  "same_sleep k k" "same_sleep k (k\<lparr>intr_on := b\<rparr>)" "same_sleep k (k\<lparr>idle_thread := t\<rparr>)"
  by (simp_all add: same_sleep_def)

lemma sleep_yield:
  assumes "sleep_at p k" "\<not> sleep_op p" "thread_yield k = Inr k'"
  shows "sleep_ok k'"
proof -
  have k': "k' = switched (yielding (push [Set_Level (intr_on k)] (k\<lparr>intr_on := False\<rparr>)))"
    using assms(3) by (simp add: thread_yield_Inr)
  show ?thesis
    by (rule sleep_plain [OF assms(1,2), of _ "[Set_Level (intr_on k)]"])
      (auto simp: k' yielding_def push_def same_sleep_def)
qed

text \<open>The operations of \<open>timer_sleep\<close> itself.\<close>

lemma sleep_call:
  assumes "sleep_at (Call (Timer_Sleep n)) k" "code k (cur k) = []" "timer_sleep n k = Inr k'"
  shows "sleep_ok k'"
proof -
  have k': "k' = push (pushed_ops (Timer_Sleep n) k) k"
    using pushing_exec(1) [of "Timer_Sleep n" k k'] assms(3) by simp
  let ?c = "cur k" and ?q = "pushed_ops (Timer_Sleep n) k" and ?C = "(code k)(cur k := Call (Timer_Sleep n) # code k (cur k))"
  have q: "phase k ?c ?q" by (simp add: phase_def before_def)
  have code: "code k' = (code k)(?c := ?q)" using assms(2) by (simp add: k' push_def)
  have nc: "?c \<notin> set (sleepers k)" using assms(1,2) by (auto simp: sleep_inv_def asleep_def)
  have s: "same_sleep k k'" by (simp add: k' push_def same_sleep_def)
  have "phase k' t (code k' t)" if "t \<in> set (all_list k')" for t
  proof (cases "t = ?c")
    case False
    have "phase k t (?C t)" using assms(1) that unfolding sleep_inv_def by (simp add: k' push_def)
    then show ?thesis using False by (simp add: code same_sleepD(7) [OF s])
  qed (use q in \<open>simp add: code same_sleepD(7) [OF s]\<close>)
  moreover have "t \<in> set (all_list k) \<and> asleep t (wake_at k t) (code k' t) \<and> count (semas k (Sleep_Sema t)) = 0"
    if "t \<in> set (sleepers k)" for t
  proof -
    have "t \<noteq> ?c" using nc that by auto
    moreover have "t \<in> set (all_list k) \<and> asleep t (wake_at k t) (?C t) \<and> count (semas k (Sleep_Sema t)) = 0"
      using assms(1) that unfolding sleep_inv_def by blast
    ultimately show ?thesis by (simp add: code)
  qed
  moreover have "all_list k' = all_list k" "trace k' = trace k" by (simp_all add: k' push_def)
  ultimately show ?thesis
    using assms(1) unfolding sleep_inv_def same_sleepD(1-4,6) [OF s] by simp
qed

lemma sleep_insert_ok:
  assumes "sleep_at (Sleep_Insert e) k" "cur k \<in> set (all_list k)"
  shows "sleep_ok (sleep_insert e k)"
proof -
  let ?c = "cur k" and ?k = "sleep_insert e k" and ?C = "(code k)(cur k := Sleep_Insert e # code k (cur k))"
  have ph: "phase k t (?C t)" if "t \<in> set (all_list k)" for t using assms(1) that unfolding sleep_inv_def by blast
  have b: "code k ?c = [Call (Sema_Up Sleeping_List_Sema), Call (Sema_Down (Sleep_Sema ?c)), Sleep_Return e]"
    using ph [OF assms(2)] by (auto simp: phase_def before_def asleep_def after_def)
  have nc: "?c \<notin> set (sleepers k)" using assms(1) b by (auto simp: sleep_inv_def asleep_def)
  have f: "wake_at ?k = (wake_at k)(?c := e)" "ticks ?k = ticks k" "all_list ?k = all_list k" "code ?k = code k"
    "trace ?k = trace k" "cur ?k = ?c" "sleepers ?k = insort_by (has_less_sleep_time ?k) ?c (sleepers k)"
    "count (semas ?k (Sleep_Sema t)) = (if t = ?c then 0 else count (semas k (Sleep_Sema t)))" for t
    by (simp_all add: sleep_insert_def sema_init_def set_count_def set_waiters_def Let_def has_less_sleep_time_def [abs_def])
  have "ordered (has_less_sleep_time ?k) xs \<longleftrightarrow> ordered (has_less_sleep_time k) xs" if "?c \<notin> set xs" for xs
    using that by (induction xs) (auto simp: by_wake.ordered_Cons has_less_sleep_time_def f(1))
  then have o: "ordered (has_less_sleep_time ?k) (sleepers ?k)"
    unfolding f(7) using by_wake.ordered_insort nc assms(1) by (simp add: sleep_inv_def)
  have "distinct (insort_by lt x xs)" if "distinct xs" "x \<notin> set xs" for lt and x :: ptr and xs
    using that by (induction xs) auto
  then have d: "distinct (sleepers ?k)" unfolding f(7) using nc assms(1) by (simp add: sleep_inv_def)
  have "phase ?k t (code ?k t)" if "t \<in> set (all_list k)" for t
  proof (cases "t = ?c")
    case True
    then show ?thesis using b by (simp add: phase_def asleep_def f(1,4))
  next
    case False
    then show ?thesis using ph [OF that] by (simp add: phase_def f(1,2,4))
  qed
  moreover have "t \<in> set (all_list k) \<and> asleep t (wake_at ?k t) (code ?k t) \<and> count (semas ?k (Sleep_Sema t)) = 0"
    if "t \<in> set (sleepers ?k)" for t
  proof (cases "t = ?c")
    case True
    then show ?thesis using b assms(2) by (simp add: asleep_def f(1,4,8))
  next
    case False
    then have "t \<in> set (sleepers k)" using that by (simp add: f(7))
    then have "t \<in> set (all_list k) \<and> asleep t (wake_at k t) (?C t) \<and> count (semas k (Sleep_Sema t)) = 0"
      using assms(1) unfolding sleep_inv_def by blast
    then show ?thesis using False by (simp add: f(1,4,8))
  qed
  ultimately show ?thesis
    using assms(1) o d unfolding sleep_inv_def by (simp add: f(1-5,8))
qed

lemma sleep_down:
  assumes "sleep_at (Call (Sema_Down (Sleep_Sema u))) k" "cur k \<in> set (all_list k)" "sema_down (Sleep_Sema u) k = Inr k'"
  shows "sleep_ok k'"
proof -
  let ?p = "Call (Sema_Down (Sleep_Sema u))" and ?c = "cur k"
  have k': "k' = push [Down_Loop (Sleep_Sema u), Set_Level (intr_on k)] (k\<lparr>intr_on := False\<rparr>)"
    using assms(3) by (simp add: exec_simps)
  have "phase k ?c (?p # code k ?c)" using assms(1,2) unfolding sleep_inv_def by (metis fun_upd_same)
  then have r: "u = ?c" "code k ?c = [Sleep_Return (wake_at k ?c)]"
    by (auto simp: phase_def before_def asleep_def after_def)
  let ?C = "(code k)(?c := ?p # code k ?c)"
  have C: "asleep t e (code k' t) \<longleftrightarrow> asleep t e (?C t)" "t \<noteq> ?c \<Longrightarrow> phase k' t (code k' t) \<longleftrightarrow> phase k t (?C t)"
    "phase k' ?c (code k' ?c)" "has_less_sleep_time k' = has_less_sleep_time k" for t e
    using r by (auto simp: k' push_def phase_def asleep_def has_less_sleep_time_def fun_eq_iff)
  have "phase k' t (code k' t)" if "t \<in> set (all_list k')" for t
    using C(2,3) assms(1) that unfolding sleep_inv_def by (cases "t = ?c") (auto simp: k' push_def)
  then show ?thesis
    using assms(1) unfolding sleep_inv_def C(1,4) by (simp add: k' push_def)
qed

lemma sleep_down_loop:
  assumes "sleep_at (Down_Loop (Sleep_Sema u)) k" "cur k \<in> set (all_list k)" "down_loop (Sleep_Sema u) k = Inr k'"
  shows "sleep_ok k'"
proof -
  let ?p = "Down_Loop (Sleep_Sema u)" and ?c = "cur k"
  have "phase k ?c (?p # code k ?c)" using assms(1,2) unfolding sleep_inv_def by (metis fun_upd_same)
  then obtain b where r: "u = ?c" "code k ?c = [Set_Level b, Sleep_Return (wake_at k ?c)]"
    by (auto simp: phase_def before_def asleep_def after_def)
  show ?thesis
  proof (cases "count (semas k (Sleep_Sema u)) = 0")
    case True
    then have k': "k' = switched (blocked_thread (waiting (Sleep_Sema u) k))"
      using assms(3) by (auto simp: down_loop_Inr split: if_splits)
    show ?thesis
      by (rule sleep_same [OF assms(1)])
        (auto simp: k' waiting_def blocked_thread_def push_def set_waiters_def same_sleep_def)
  next
    case False
    let ?C = "(code k)(?c := ?p # code k ?c)"
    have k': "k' = set_count (Sleep_Sema u) (count (semas k (Sleep_Sema u)) - 1) k"
      using False assms(3) by (auto simp: down_loop_Inr split: if_splits)
    have f: "wake_at k' = wake_at k" "ticks k' = ticks k" "all_list k' = all_list k" "code k' = code k"
      "trace k' = trace k" "sleepers k' = sleepers k" "has_less_sleep_time k' = has_less_sleep_time k"
      "count (semas k' (Sleep_Sema t)) = (if t = ?c then count (semas k (Sleep_Sema ?c)) - 1 else count (semas k (Sleep_Sema t)))" for t
      by (simp_all add: k' set_count_def has_less_sleep_time_def fun_eq_iff r(1))
    have due: "wake_at k ?c \<le> ticks k" using assms(1) False r(1) by (simp add: sleep_inv_def)
    have nc: "?c \<notin> set (sleepers k)" using assms(1) False r(1) by (auto simp: sleep_inv_def)
    have "phase k' t (code k' t)" if "t \<in> set (all_list k)" for t
    proof (cases "t = ?c")
      case True
      then show ?thesis using r(2) due by (simp add: phase_def after_def f(1,2,4))
    next
      case False
      moreover have "phase k t (?C t)" using assms(1) that unfolding sleep_inv_def by blast
      ultimately show ?thesis by (simp add: phase_def f(1,2,4))
    qed
    moreover have "t \<in> set (all_list k) \<and> asleep t (wake_at k t) (code k t) \<and> count (semas k' (Sleep_Sema t)) = 0"
      if "t \<in> set (sleepers k)" for t
    proof -
      have "t \<noteq> ?c" using nc that by auto
      moreover have "t \<in> set (all_list k) \<and> asleep t (wake_at k t) (?C t) \<and> count (semas k (Sleep_Sema t)) = 0"
        using assms(1) that unfolding sleep_inv_def by blast
      ultimately show ?thesis by (simp add: f(8))
    qed
    ultimately show ?thesis
      using assms(1) due unfolding sleep_inv_def by (simp add: f)
  qed
qed

lemma sleep_return:
  assumes "sleep_at (Sleep_Return e) k" "cur k \<in> set (all_list k)"
  shows "sleep_ok (log (Slept (cur k) e (ticks k)) k)"
proof -
  let ?c = "cur k" and ?k = "log (Slept (cur k) e (ticks k)) k"
  let ?C = "(code k)(?c := Sleep_Return e # code k ?c)"
  have "phase k ?c (Sleep_Return e # code k ?c)" using assms unfolding sleep_inv_def by (metis fun_upd_same)
  then have r: "e \<le> ticks k" "code k ?c = []" by (auto simp: phase_def before_def asleep_def after_def)
  have nc: "?c \<notin> set (sleepers k)" using assms(1) r(2) by (auto simp: sleep_inv_def asleep_def)
  have "phase ?k t (code ?k t)" if "t \<in> set (all_list k)" for t
  proof (cases "t = ?c")
    case False
    moreover have "phase k t (?C t)" using assms(1) that unfolding sleep_inv_def by blast
    ultimately show ?thesis by (simp add: phase_def log_def)
  qed (simp add: phase_def log_def r(2))
  moreover have "t \<in> set (all_list k) \<and> asleep t (wake_at k t) (code k t) \<and> count (semas k (Sleep_Sema t)) = 0"
    if "t \<in> set (sleepers k)" for t
  proof -
    have "t \<noteq> ?c" using nc that by auto
    moreover have "t \<in> set (all_list k) \<and> asleep t (wake_at k t) (?C t) \<and> count (semas k (Sleep_Sema t)) = 0"
      using assms(1) that unfolding sleep_inv_def by blast
    ultimately show ?thesis by simp
  qed
  moreover have "has_less_sleep_time ?k = has_less_sleep_time k" by (simp add: log_def has_less_sleep_time_def fun_eq_iff)
  ultimately show ?thesis
    using assms(1) r(1) unfolding sleep_inv_def by (simp add: log_def)
qed

lemma sleep_pushing:
  assumes "sleep_at (Call c) k" "pushing c" "exec_call c k = Inr k'" "\<not> sleep_op (Call c)"
    "\<forall>d. set (conds k d) \<subseteq> range Waiter" "cur k \<in> set (all_list k)" "\<And>n. c = Timer_Sleep n \<Longrightarrow> code k (cur k) = []"
  shows "sleep_ok k'"
proof (cases "\<exists>n. c = Timer_Sleep n")
  case True
  then show ?thesis using sleep_call assms(1,3,7) by auto
next
  case False
  have k': "k' = push (pushed_ops c k) (pushed_state c k)" using pushing_exec(1) [OF assms(2,3)] .
  have s: "same_sleep k (pushed_state c k)" "all_list (pushed_state c k) = all_list k" "code (pushed_state c k) = code k"
    "cur (pushed_state c k) = cur k"
    by (cases c; simp add: same_sleep_def log_def sema_init_def set_count_def set_waiters_def)+
  have q: "plain (pushed_ops c k)"
  proof (cases c)
    case (Sema_Down t)
    then show ?thesis using assms(4) by (cases t) simp_all
  next
    case (Cond_Signal d l)
    then show ?thesis by (cases "conds k d") simp_all
  qed (use False assms(2) in simp_all)
  show ?thesis
    by (rule sleep_plain [OF assms(1,4) _ _ _ q])
      (use s in \<open>simp_all add: k' push_def same_sleep_def\<close>)
qed

lemma sleep_exec_call:
  assumes "sleep_at (Call c) k" "inv i k" "enabled i k (Call c)" "exec_call c k = Inr k'"
  shows "sleep_ok k'"
proof -
  have S: "sched i True k" and C: "code_ok i k" using assms(2) by (simp_all add: inv_def)
  note c = sched_cur [OF S]
  show ?thesis
  proof (cases "pushing c")
    case True
    show ?thesis
    proof (cases "\<exists>t. c = Sema_Down (Sleep_Sema t)")
      case True
      then show ?thesis using sleep_down assms(1,4) c(1) by auto
    next
      case False
      have "\<not> sleep_op (Call c)" if "c \<noteq> Sema_Down (Sleep_Sema t)" for t
      proof (cases c)
        case (Sema_Down s)
        then show ?thesis using False by (cases s) simp_all
      qed simp_all
      then have n: "\<not> sleep_op (Call c)" using False by blast
      have "\<And>n. c = Timer_Sleep n \<Longrightarrow> code k (cur k) = []" using assms(3) by (auto simp: enabled_def)
      then show ?thesis
        using sleep_pushing [OF assms(1) True assms(4) n] C c(1) by (simp add: code_ok_def)
    qed
  next
    case False
    note plain = sleep_plain [OF assms(1) _ _ _ _ plain_simps(1)]
    show ?thesis
    proof (cases c)
      case (Sema_Try_Down s')
      then obtain r k1 where r: "sema_try_down s' k = Inr (r, k1)" "k' = return (of_bool r) k1"
        using assms(4) by (auto split: if_splits)
      have "same_sleep k k1" by (rule same_sleep_try [OF r(1)]) (use assms(3) Sema_Try_Down in \<open>auto simp: enabled_def\<close>)
      then have "same_sleep k k'" by (simp add: r(2) return_def same_sleep_def)
      then show ?thesis by (rule plain [rotated]) (use Sema_Try_Down sema_try_down_fields [OF r(1)] r(2) in \<open>simp_all add: return_def\<close>)
    next
      case (Sema_Up s')
      then have u: "sema_up s' k = Inr k'" using assms(4) by simp
      have "same_sleep k k'" by (rule same_sleep_up [OF u]) (use assms(3) Sema_Up in \<open>auto simp: enabled_def\<close>)
      then show ?thesis by (rule plain [rotated]) (use Sema_Up sema_up_fields [OF u] in simp_all)
    next
      case Thread_Yield
      then show ?thesis using sleep_yield [OF assms(1)] assms(4) by simp
    next
      case Thread_Exit
      then have e: "code k (cur k) = []" "k' = switched (exiting (k\<lparr>intr_on := False\<rparr>))"
        using assms(3,4) by (simp_all add: enabled_def thread_exit_Inr)
      have a: "set (all_list k') = set (all_list k) - {cur k}"
        using schedD(1) [OF S] by (simp add: e(2) exiting_def)
      show ?thesis
        by (rule sleep_same [OF assms(1)]) (use a e Thread_Exit in \<open>auto simp: exiting_def same_sleep_def\<close>)
    next
      case (Thread_Create t nm prio f)
      show ?thesis
      proof (cases "t = 0")
        case True
        then have k': "k' = return TID_ERROR k" using Thread_Create assms(4) by (simp add: thread_create_def)
        show ?thesis by (rule plain) (use Thread_Create in \<open>simp_all add: k' return_def same_sleep_def\<close>)
      next
        case False
        then have t: "t \<notin> set (all_list k)" "code k (cur k) = []" using assms(3) Thread_Create by (auto simp: enabled_def)
        then have tc: "t \<noteq> cur k" using c(1) by auto
        have k': "all_list k' = all_list k @ [t]" "plain (code k' (cur k))" "code k' t = []"
          "\<And>u. u \<noteq> t \<Longrightarrow> u \<noteq> cur k \<Longrightarrow> code k' u = code k u" "same_sleep k k'"
          using assms(4) False tc t(2) Thread_Create
          by (auto simp: thread_create_def init_thread_def push_def same_sleep_def)
        show ?thesis
        proof (rule sleep_same [OF assms(1) k'(5)])
          fix u assume "u \<in> set (all_list k')"
          then show "rest (code k' u) = (if u \<in> set (all_list k)
              then rest (((code k)(cur k := Call c # code k (cur k))) u) else [])"
            using k'(1-4) t c(1) Thread_Create by (cases "u = t"; cases "u = cur k") auto
        qed (auto simp: k'(1))
      qed
    next
      case (Thread_Set_Priority p)
      then show ?thesis
        using plain [of k'] assms(4) by (auto simp: thread_set_priority_def set_thread_def same_sleep_def)
    qed (use False in simp_all)
  qed
qed

lemma sleep_exec_op:
  assumes "sleep_at p k" "inv i k" "enabled i k p" "exec p k = Inr k'"
  shows "sleep_ok k'"
proof -
  have S: "sched i True k" and N: "creating_ok i k" using assms(2) by (simp_all add: inv_def)
  note c = sched_cur [OF S]
  note plain = sleep_plain [OF assms(1) _ _ _ _ plain_simps(1)]
  show ?thesis
  proof (cases p)
    case (Call d)
    then show ?thesis using sleep_exec_call assms by simp
  next
    case (Set_Level b)
    then show ?thesis using plain [of k'] assms(4) by (auto simp: intr_set_level_Inr)
  next
    case (Down_Loop s)
    show ?thesis
    proof (cases "\<exists>t. s = Sleep_Sema t")
      case True
      then show ?thesis using sleep_down_loop assms(1,4) c(1) Down_Loop by auto
    next
      case False
      then have n: "\<not> sleep_op p" using Down_Loop by (cases s) simp_all
      show ?thesis
      proof (cases "count (semas k s) = 0")
        case True
        then have k': "k' = switched (blocked_thread (waiting s k))"
          using assms(4) Down_Loop by (auto simp: down_loop_Inr split: if_splits)
        show ?thesis
          by (rule sleep_same [OF assms(1)])
            (use Down_Loop in \<open>auto simp: k' waiting_def blocked_thread_def push_def set_waiters_def same_sleep_def\<close>)
      next
        case count: False
        then have k': "k' = set_count s (count (semas k s) - 1) k"
          using assms(4) Down_Loop by (auto simp: down_loop_Inr split: if_splits)
        have "same_sleep k k'" unfolding k' by (rule same_sleep_count) (use False in auto)
        then show ?thesis using plain [of k'] n by (simp add: k' set_count_def)
      qed
    qed
  next
    case (Set_Holder l)
    then show ?thesis using plain [of k'] assms(4) by (auto simp: set_holder_def log_def same_sleep_def)
  next
    case (Try_Holder l)
    then obtain b k1 where k1: "sema_try_down (Lock_Sema l) k = Inr (b, k1)"
      "k' = return (of_bool b) (if b then push [Set_Holder l] k1 else k1)"
      using assms(4) by (auto simp: try_holder_def)
    note f = sema_try_down_fields [OF k1(1)]
    have s: "same_sleep k k1" by (rule same_sleep_try [OF k1(1)]) simp
    show ?thesis
      by (rule sleep_plain [OF assms(1), of _ "if b then [Set_Holder l] else []"])
        (use Try_Holder f s in \<open>auto simp: k1(2) return_def push_def same_sleep_def\<close>)
  next
    case (Unlock l)
    then have u: "sema_up (Lock_Sema l) k = Inr k'" using assms(4) by simp
    have "same_sleep k k'" by (rule same_sleep_up [OF u]) simp
    then show ?thesis by (rule plain [rotated]) (use Unlock sema_up_fields [OF u] in simp_all)
  next
    case (Create_Frames t f)
    then have t: "creates k (cur k) t" "f = Client" using assms(3) by (auto simp: enabled_def)
    note t' = creating_okD [OF N t(1)]
    have k': "all_list k' = all_list k" "code k' = (code k)(t := [Set_Level True])" "same_sleep k k'"
      using assms(4) Create_Frames t(2) by (auto simp: create_frames_Inr kernel_thread_def same_sleep_def)
    have "t \<noteq> cur k" using t'(3) c(2) by auto
    then show ?thesis
      by (intro sleep_same [OF assms(1) k'(3)]) (use t'(4) Create_Frames in \<open>auto simp: k'(1,2)\<close>)
  next
    case (Unblock t)
    then have "k' = ready_thread t k" using assms(4) by (simp add: thread_unblock_Inr)
    then show ?thesis using plain [of k'] Unblock by (simp add: ready_thread_def same_sleep_def)
  next
    case (Sleep_Insert e)
    then have "k' = sleep_insert e k" using assms(4) by simp
    moreover have "sleep_ok (sleep_insert e k)" by (rule sleep_insert_ok) (use assms(1) c(1) Sleep_Insert in simp_all)
    ultimately show ?thesis by (simp only:)
  next
    case (Sleep_Return e)
    then have "k' = log (Slept (cur k) e (ticks k)) k" using assms(4) by simp
    moreover have "sleep_ok (log (Slept (cur k) e (ticks k)) k)"
      by (rule sleep_return) (use assms(1) c(1) Sleep_Return in simp_all)
    ultimately show ?thesis by (simp only:)
  next
    case Assign_Tid
    then have k': "k' = return (next_tid k) (k\<lparr>next_tid := next_tid k + 1\<rparr>)" using assms(4) by (simp add: assign_tid_def)
    show ?thesis by (rule plain) (use Assign_Tid in \<open>simp_all add: k' return_def same_sleep_def\<close>)
  next
    case Iret
    then have k': "k' = k\<lparr>intr_on := True\<rparr>" using assms(4) by simp
    show ?thesis by (rule plain) (use Iret in \<open>simp_all add: k'\<close>)
  qed (use assms(3) in \<open>simp_all add: enabled_def\<close>)
qed

section \<open>The idle thread, and steps of the kernel\<close>

lemma sleep_idle_op:
  assumes "sleep_at p k" "p \<in> idle_ops" "exec p k = Inr k'"
  shows "sleep_ok k'"
proof (cases "p = Call (Sema_Up Idle_Started)")
  case True
  then have u: "sema_up Idle_Started k = Inr k'" using assms(3) by simp
  have "same_sleep k k'" by (rule same_sleep_up [OF u]) simp
  then show ?thesis
    by (intro sleep_plain [OF assms(1) _ _ _ _ plain_simps(1)]) (use True sema_up_fields [OF u] in simp_all)
next
  case False
  then consider b where "p = Set_Level b" | "p = Iret" | "p = Sti_Hlt" using assms(2) by (auto simp: idle_ops_def)
  then have "k' = k\<lparr>intr_on := intr_on k'\<rparr> \<and> \<not> sleep_op p"
    by cases (use assms(3) in \<open>auto simp: intr_set_level_Inr\<close>)
  then obtain b where k': "k' = k\<lparr>intr_on := b\<rparr>" and n: "\<not> sleep_op p" by metis
  show ?thesis
    by (rule sleep_plain [OF assms(1) n _ _ _ plain_simps(1)]) (simp_all add: k')
qed

lemma sleep_step_op:
  assumes "inv i k" "sleep_ok k" "code k (cur k) \<noteq> []" "step_op k = Inr k'"
  shows "sleep_ok k'"
proof -
  let ?p = "hd (code k (cur k))"
  have g: "sleep_at ?p (popped k)" using sleep_atI [OF assms(2,3)] by simp
  have e: "exec ?p (popped k) = Inr k'" using assms(4) step_op_popped [OF assms(3)] by simp
  show ?thesis
  proof (cases "cur k = i \<and> ?p \<notin> idle_ops")
    case False
    then have I: "inv i (popped k)" using inv_popped [OF assms(1)] by auto
    show ?thesis
    proof (cases "cur k = i")
      case True
      then have "?p \<in> idle_ops" using False by simp
      then show ?thesis by (rule sleep_idle_op [OF g _ e])
    next
      case False
      show ?thesis by (rule sleep_exec_op [OF g I enabled_next [OF assms(1) False assms(3)] e])
    qed
  next
    case True
    then have code: "code k i = (if idle_thread k = 0 then [Idle, Idle_Loop] else [Idle_Loop])" "?p = Idle \<longleftrightarrow> idle_thread k = 0"
      using idle_runs [OF assms(1)] assms(3) by auto
    show ?thesis
    proof (cases "?p = Idle")
      case idle: True
      have k': "k' = push [Call (Sema_Up Idle_Started)] ((popped k)\<lparr>idle_thread := cur k\<rparr>)"
        using e idle by (auto simp: idle_def)
      show ?thesis
        by (rule sleep_plain [OF g, of _ "[Call (Sema_Up Idle_Started)]"])
          (use idle in \<open>simp_all add: k' push_def same_sleep_def\<close>)
    next
      case False
      then have p: "?p = Idle_Loop" using code True by (auto split: if_splits)
      have k': "k' = switched (blocked_thread (push [Sti_Hlt, Idle_Loop] (intr_disable (popped k))))"
        using e p by (auto simp: idle_loop_def thread_block_Inr)
      show ?thesis
        by (rule sleep_plain [OF g, of _ "[Sti_Hlt, Idle_Loop]"])
          (use p in \<open>simp_all add: k' push_def blocked_thread_def intr_disable_def same_sleep_def\<close>)
    qed
  qed
qed

section \<open>What a tick wakes\<close>

text \<open>
  The loop goes through the list from its start, and stops at the first thread whose time has not
  come: the list being sorted, it has then woken exactly those whose time has come.
\<close>

definition due :: "kernel \<Rightarrow> ptr \<Rightarrow> bool" where
  "due k t \<longleftrightarrow> wake_at k t \<le> ticks k"

lemma due_sema_up: "sema_up s k = Inr k' \<Longrightarrow> due k' = due k \<and> has_less_sleep_time k' = has_less_sleep_time k"
  using sema_up_quiet [of s k k'] by (auto simp: due_def quiet_def has_less_sleep_time_def fun_eq_iff)

lemma wake_loop_wakes:
  assumes "wake_loop (sleepers k) k = Inr k'" "distinct (sleepers k)" "ordered (has_less_sleep_time k) (sleepers k)"
  shows "sleepers k' = filter (\<lambda>t. \<not> due k t) (sleepers k) \<and>
    (\<forall>t. count (semas k' (Sleep_Sema t)) =
       (if t \<in> set (sleepers k) \<and> due k t then count (semas k (Sleep_Sema t)) + 1 else count (semas k (Sleep_Sema t))))"
  using assms
proof (induction "sleepers k" arbitrary: k)
  case (Cons e es)
  note es = Cons.hyps(2) [symmetric]
  show ?case
  proof (cases "due k e")
    case True
    then obtain k1 where k1: "sema_up (Sleep_Sema e) k = Inr k1"
      "wake_loop es (k1\<lparr>sleepers := remove1 e (sleepers k1)\<rparr>) = Inr k'"
      using Cons.prems(1) es by (auto simp: due_def timer_ticks_def)
    let ?k = "k1\<lparr>sleepers := remove1 e (sleepers k1)\<rparr>"
    have q: "sleepers k1 = sleepers k" using sema_up_quiet [OF k1(1)] by simp
    then have s: "es = sleepers ?k" using es by simp
    have d: "due ?k = due k" "has_less_sleep_time ?k = has_less_sleep_time k"
      using due_sema_up [OF k1(1)] by (simp_all add: due_def fun_eq_iff has_less_sleep_time_def)
    have "e \<notin> set es" "distinct es" "ordered (has_less_sleep_time k) es"
      using Cons.prems(2,3) es by (auto simp: by_wake.ordered_Cons)
    then have "sleepers k' = filter (\<lambda>t. \<not> due k t) es \<and>
        (\<forall>t. count (semas k' (Sleep_Sema t)) =
           (if t \<in> set es \<and> due k t then count (semas ?k (Sleep_Sema t)) + 1 else count (semas ?k (Sleep_Sema t))))"
      using Cons.hyps(1) [OF s] k1(2) s d by metis
    then show ?thesis
      using sema_up_fields(6) [OF k1(1)] es True \<open>e \<notin> set es\<close> by simp
  next
    case False
    then have k': "k' = k" using Cons.prems(1) es by (simp add: due_def timer_ticks_def)
    have "\<not> due k t" if "t \<in> set es" for t
    proof -
      have "\<not> has_less_sleep_time k t e" using Cons.prems(3) that unfolding es by (simp add: by_wake.ordered_Cons)
      then show ?thesis using False by (auto simp: has_less_sleep_time_def due_def)
    qed
    then have "\<forall>t \<in> set (sleepers k). \<not> due k t" using False es by (metis set_ConsD)
    then show ?thesis by (simp add: k')
  qed
qed simp

lemma wake_loop_quiet: "wake_loop es k = Inr k' \<Longrightarrow> quiet k k' \<and> ticks k' = ticks k"
proof (induction es arbitrary: k)
  case (Cons e es)
  show ?case
  proof (cases "wake_at k e \<le> ticks k")
    case True
    then obtain k1 where k1: "sema_up (Sleep_Sema e) k = Inr k1"
      "wake_loop es (k1\<lparr>sleepers := remove1 e (sleepers k1)\<rparr>) = Inr k'"
      using Cons.prems by (auto simp: timer_ticks_def)
    from Cons.IH [OF this(2)] show ?thesis using sema_up_quiet [OF k1(1)] by (auto simp: quiet_def)
  qed (use Cons.prems in \<open>simp add: timer_ticks_def\<close>)
qed simp

text \<open>A tick, from the entry of the interrupt handler to the point where it may yield.\<close>

lemma sleep_tick_state:
  assumes "sleep_inv C k" "timer_interrupt k = Inr k'" "code k' = code k"
  shows "sleep_inv C k'"
    "count (semas k Sleeping_List_Sema) \<noteq> 0 \<Longrightarrow>
      sleepers k' = filter (\<lambda>t. ticks k + 1 < wake_at k t) (sleepers k)"
    "count (semas k Sleeping_List_Sema) \<noteq> 0 \<Longrightarrow> t \<in> set (sleepers k) \<Longrightarrow>
      count (semas k' (Sleep_Sema t)) = (if wake_at k t \<le> ticks k + 1 then 1 else 0)"
    "count (semas k Sleeping_List_Sema) = 0 \<Longrightarrow> sleepers k' = sleepers k"
proof -
  let ?k = "k\<lparr>ticks := ticks k + 1\<rparr>"
  obtain k1 where k1: "try_to_wake_up_threads ?k = Inr k1" "thread_tick k1 = Inr k'"
    using assms(2) by (auto simp: timer_interrupt_def)
  obtain r k2 where k2: "sema_try_down Sleeping_List_Sema ?k = Inr (r, k2)"
    "(if r then bindE (wake_loop (sleepers k2) k2) (sema_up Sleeping_List_Sema) else Inr k2) = Inr k1"
    using k1(1) by (auto simp: try_to_wake_up_threads_def)
  note f = sema_try_down_fields [OF k2(1)] sema_try_down_quiet [OF k2(1)]
  note tt = thread_tick_effect [OF k1(2)]
  have I: "sleep_inv C ?k"
    using assms(1) unfolding sleep_inv_def
    by (auto simp: phase_def has_less_sleep_time_def [abs_def] intro: order_trans [of _ "ticks k"])
  have s2: "same_sleep ?k k2" by (rule same_sleep_try [OF k2(1)]) simp
  note d2 = same_sleepD [OF s2]
  have I2: "sleep_inv C k2" by (rule sleep_same [OF I s2]) (use f in auto)
  have same: "same_sleep k1 k'" using tt by (auto simp: same_sleep_def quiet_def)
  note d = same_sleepD [OF same]
  have due2: "due k2 t \<longleftrightarrow> wake_at k t \<le> ticks k + 1" for t using d2(1,2) by (simp add: due_def)
  show "sleepers k' = sleepers k" if "count (semas k Sleeping_List_Sema) = 0"
    using that k2(2) f(7) d(3) d2(3) by simp
  have run: "sleepers k1 = filter (\<lambda>t. \<not> due k2 t) (sleepers k) \<and>
      (\<forall>t. count (semas k1 (Sleep_Sema t)) = (if t \<in> set (sleepers k) \<and> due k2 t
         then count (semas k (Sleep_Sema t)) + 1 else count (semas k (Sleep_Sema t)))) \<and>
      wake_at k1 = wake_at k \<and> ticks k1 = ticks k + 1 \<and> trace k1 = trace k \<and> all_list k1 = all_list k"
    if r: r
  proof -
    obtain k3 where k3: "wake_loop (sleepers k2) k2 = Inr k3" "sema_up Sleeping_List_Sema k3 = Inr k1"
      using k2(2) r by auto
    have "distinct (sleepers k2)" "ordered (has_less_sleep_time k2) (sleepers k2)" using I2 by (simp_all add: sleep_inv_def)
    note w = wake_loop_wakes [OF k3(1) this]
    have u: "same_sleep k3 k1" by (rule same_sleep_up [OF k3(2)]) simp
    have "quiet k2 k3 \<and> ticks k3 = ticks k2" using wake_loop_quiet [OF k3(1)] by simp
    then show ?thesis
      using w d2 f same_sleepD(1-4) [OF u] sema_up_quiet [OF k3(2)] by (simp add: quiet_def)
  qed
  have z: "count (semas k (Sleep_Sema t)) = 0" if "t \<in> set (sleepers k)" for t
    using assms(1) that by (simp add: sleep_inv_def)
  show "sleepers k' = filter (\<lambda>t. ticks k + 1 < wake_at k t) (sleepers k)"
    if "count (semas k Sleeping_List_Sema) \<noteq> 0"
    using run f(7) that d(3) by (simp add: due2 not_le)
  show "count (semas k' (Sleep_Sema t)) = (if wake_at k t \<le> ticks k + 1 then 1 else 0)"
    if "count (semas k Sleeping_List_Sema) \<noteq> 0" "t \<in> set (sleepers k)"
    using run f(7) that d(4) z [OF that(2)] by (simp add: due2)
  have "sleep_inv C k1"
  proof (cases r)
    case True
    note r = run [OF True]
    have hl: "has_less_sleep_time k1 = has_less_sleep_time k" using r by (simp add: has_less_sleep_time_def fun_eq_iff)
    have ph: "phase k1 = phase ?k" using r by (simp add: phase_def fun_eq_iff)
    have "wake_at k t \<le> ticks k + 1" if "count (semas k1 (Sleep_Sema t)) \<noteq> 0" for t
      using that r due2 [of t] I by (auto simp: sleep_inv_def split: if_splits)
    moreover have "t \<in> set (all_list k) \<and> asleep t (wake_at k t) (C t) \<and> count (semas k1 (Sleep_Sema t)) = 0"
      if "t \<in> set (sleepers k1)" for t
      using that r I by (auto simp: sleep_inv_def)
    moreover have "ordered (has_less_sleep_time k) (filter P (sleepers k))" for P
      using assms(1) by (simp add: sleep_inv_def by_wake.ordered_iff_sorted_wrt sorted_wrt_filter)
    moreover have "\<forall>t \<in> set (all_list k). phase k1 t (C t)" "distinct (sleepers k)"
      using I unfolding ph by (simp_all add: sleep_inv_def)
    ultimately show ?thesis
      using r assms(1) unfolding sleep_inv_def hl by (auto simp: distinct_filter)
  next
    case False
    then show ?thesis using I2 k2(2) by simp
  qed
  then show "sleep_inv C k'" by (rule sleep_same [OF _ same]) (use tt in \<open>auto simp: quiet_def\<close>)
qed

lemma sleep_intr_handler:
  assumes "inv i k" "intr_on k" "sleep_ok k" "intr_handler k = Inr k'"
  shows "sleep_ok k'"
proof -
  obtain k1 where k1: "timer_interrupt (entered k) = Inr k1"
    "let k2 = k1\<lparr>in_external_intr := False\<rparr> in if yield_on_return k1 then thread_yield k2 = Inr k' else k' = k2"
    using assms(4) by (auto simp: intr_handler_Inr)
  note q = inv_timer_interrupt [OF inv_entered [OF assms(1,2)] k1(1)]
  have S: "sched i True k" using assms(1) by (simp add: inv_def)
  note c = sched_cur [OF S]
  let ?k = "k1\<lparr>in_external_intr := False\<rparr>"
  have "sleep_ok (entered k)"
    by (rule sleep_same [OF assms(3)]) (auto simp: same_sleep_def)
  then have "sleep_inv (code (entered k)) k1"
    by (rule sleep_tick_state(1) [OF _ k1(1)]) (use q(2) in \<open>simp add: quiet_def\<close>)
  then have "sleep_inv (code k1) k1" using q(2) by (simp add: quiet_def)
  then have ok: "sleep_ok ?k" by (rule sleep_same) (auto simp: same_sleep_def)
  show ?thesis
  proof (cases "yield_on_return k1")
    case True
    then have y: "thread_yield ?k = Inr k'" using k1(2) by (simp add: Let_def)
    have "sleep_at Iret ?k" by (rule sleep_same [OF ok]) auto
    then show ?thesis by (rule sleep_yield [OF _ _ y]) simp
  next
    case False
    then show ?thesis using ok k1(2) by (simp add: Let_def)
  qed
qed

lemma sleep_kstep:
  assumes "inv i k" "sleep_ok k" "kstep k k'"
  shows "sleep_ok k'"
  using assms(3)
proof (cases rule: kstep.cases)
  case run
  then show ?thesis using sleep_step_op [OF assms(1,2)] by simp
next
  case (call c)
  have n: "\<not> sleep_op (Call c)" using call(2) by (cases c) auto
  have "sleep_at (Call c) k" by (rule sleep_same [OF assms(2)]) (use n in auto)
  then show ?thesis
    using sleep_exec_call [OF _ assms(1) _ call(3)] call(1,2) by (simp add: enabled_def)
next
  case tick
  then show ?thesis using sleep_intr_handler [OF assms(1) _ assms(2)] by simp
qed

lemma sleep_booted:
  assumes "m \<noteq> 0" "i \<noteq> 0" "m \<noteq> i" "booted v m i = Inr k"
  shows "sleep_ok k"
proof -
  have b: "all_list k = [m, i]" "sleepers k = []" "\<forall>t. count (semas k (Sleep_Sema t)) = 0"
    "code k = (\<lambda>_. [])(m := [Set_Level True, Call (Sema_Down Idle_Started)], i := [Set_Level True, Idle, Idle_Loop])"
    "trace k = [Acquired m Tid_Lock, Released m Tid_Lock, Acquired m Tid_Lock, Released m Tid_Lock]"
    using booted_state [OF assms(1-3), of v] assms(4) by auto
  show ?thesis
    using b assms(3) by (simp add: sleep_inv_def phase_def)
qed

end
