(* ===== verification/Pintos_Wakeups.thy ===== *)
theory Pintos_Wakeups
  imports Pintos_Locks
begin

text \<open>
  No wake-up is lost in the semaphores of \<open>Pintos_Threads\<close>: a thread that is blocked in \<open>sema_down\<close> is
  in the semaphore's list of waiters, and while the value is positive, at least as many of the threads
  that were waiting have been woken and are about to test it again.
\<close>

section \<open>The invariant\<close>

text \<open>The semaphores of one thread, in \<open>cond_wait\<close> and \<open>timer_sleep\<close>, are waited for by that thread only.\<close>

fun owns :: "ptr \<Rightarrow> op \<Rightarrow> bool" where
  "owns t (Call (Sema_Down (Waiter u))) = (u = t)"
| "owns t (Call (Sema_Down (Sleep_Sema u))) = (u = t)"
| "owns t (Down_Loop (Waiter u)) = (u = t)"
| "owns t (Down_Loop (Sleep_Sema u)) = (u = t)"
| "owns t _ = True"

definition awake :: "(ptr \<Rightarrow> op list) \<Rightarrow> sema_id \<Rightarrow> kernel \<Rightarrow> ptr set" where
  "awake C s k = {t \<in> set (all_list k). st k t \<noteq> THREAD_BLOCKED \<and> (\<exists>ps. C t = Down_Loop s # ps)}"

lemma finite_awake [simp]: "finite (awake C s k)"
  by (rule finite_subset [of _ "set (all_list k)"]) (auto simp: awake_def)

definition wait_inv :: "(ptr \<Rightarrow> op list) \<Rightarrow> kernel \<Rightarrow> bool" where
  "wait_inv C k \<longleftrightarrow>
     (\<forall>t \<in> set (all_list k). Ball (set (C t)) (owns t)) \<and>
     (\<forall>t \<in> set (all_list k). \<forall>s ps. st k t = THREAD_BLOCKED \<and> C t = Down_Loop s # ps \<longrightarrow> t \<in> set (waiters (semas k s))) \<and>
     (\<forall>s. waiters (semas k s) \<noteq> [] \<longrightarrow> unat (count (semas k s)) \<le> card (awake C s k))"

abbreviation wait_ok :: "kernel \<Rightarrow> bool" where "wait_ok k \<equiv> wait_inv (code k) k"

abbreviation wait_at :: "op \<Rightarrow> kernel \<Rightarrow> bool" where
  "wait_at p k \<equiv> wait_inv ((code k)(cur k := p # code k (cur k))) k"

lemma wait_invD:
  assumes "wait_inv C k"
  shows "t \<in> set (all_list k) \<Longrightarrow> p \<in> set (C t) \<Longrightarrow> owns t p"
    "t \<in> set (all_list k) \<Longrightarrow> st k t = THREAD_BLOCKED \<Longrightarrow> C t = Down_Loop s # ps \<Longrightarrow> t \<in> set (waiters (semas k s))"
    "waiters (semas k s) \<noteq> [] \<Longrightarrow> unat (count (semas k s)) \<le> card (awake C s k)"
  using assms unfolding wait_inv_def by blast+

lemma wait_invI:
  assumes "\<And>t p. t \<in> set (all_list k) \<Longrightarrow> p \<in> set (C t) \<Longrightarrow> owns t p"
    "\<And>t s ps. t \<in> set (all_list k) \<Longrightarrow> st k t = THREAD_BLOCKED \<Longrightarrow> C t = Down_Loop s # ps \<Longrightarrow> t \<in> set (waiters (semas k s))"
    "\<And>s. waiters (semas k s) \<noteq> [] \<Longrightarrow> unat (count (semas k s)) \<le> card (awake C s k)"
  shows "wait_inv C k"
  using assms unfolding wait_inv_def by blast

lemma wait_atI:
  "wait_ok k \<Longrightarrow> code k (cur k) \<noteq> [] \<Longrightarrow> wait_at (hd (code k (cur k))) (popped k)"
proof -
  assume "wait_ok k" "code k (cur k) \<noteq> []"
  moreover from this(2) have "((code (popped k))(cur k := hd (code k (cur k)) # code (popped k) (cur k))) = code k"
    by (auto simp: fun_eq_iff)
  ultimately show ?thesis unfolding popped_fields(1) by (simp add: wait_inv_def awake_def)
qed

text \<open>A change that makes no thread wait, and takes no thread from those that are about to test.\<close>

lemma wait_mono:
  assumes "wait_inv C k"
    "\<And>t p. t \<in> set (all_list k') \<Longrightarrow> p \<in> set (C' t) \<Longrightarrow> owns t p"
    "\<And>t s ps. t \<in> set (all_list k') \<Longrightarrow> st k' t = THREAD_BLOCKED \<Longrightarrow> C' t = Down_Loop s # ps \<Longrightarrow>
       t \<in> set (all_list k) \<and> st k t = THREAD_BLOCKED \<and> (\<exists>qs. C t = Down_Loop s # qs) \<and> waiters (semas k' s) = waiters (semas k s)"
    "\<And>s. waiters (semas k' s) \<noteq> [] \<Longrightarrow> waiters (semas k s) \<noteq> [] \<and>
       unat (count (semas k' s)) \<le> unat (count (semas k s)) \<and> awake C s k \<subseteq> awake C' s k'"
  shows "wait_inv C' k'"
proof (rule wait_invI)
  fix t s ps assume t: "t \<in> set (all_list k')" "st k' t = THREAD_BLOCKED" "C' t = Down_Loop s # ps"
  then show "t \<in> set (waiters (semas k' s))" using assms(3) [OF t] wait_invD(2) [OF assms(1)] by metis
next
  fix s assume w: "waiters (semas k' s) \<noteq> []"
  have "card (awake C s k) \<le> card (awake C' s k')" using assms(4) [OF w] by (simp add: card_mono)
  then show "unat (count (semas k' s)) \<le> card (awake C' s k')"
    using assms(4) [OF w] wait_invD(3) [OF assms(1), of s] by linarith
qed (rule assms(2))

text \<open>An operation of the running thread that changes neither who waits nor what threads are doing.\<close>

definition same_wait :: "kernel \<Rightarrow> kernel \<Rightarrow> bool" where
  "same_wait k k' \<longleftrightarrow> all_list k' = all_list k \<and>
     (\<forall>t. st k t \<noteq> THREAD_BLOCKED \<longrightarrow> st k' t \<noteq> THREAD_BLOCKED) \<and>
     (\<forall>s. waiters (semas k' s) = waiters (semas k s) \<and>
        (waiters (semas k s) \<noteq> [] \<longrightarrow> unat (count (semas k' s)) \<le> unat (count (semas k s))))"

lemma same_waitD:
  assumes "same_wait k k'"
  shows "all_list k' = all_list k" "st k' t = THREAD_BLOCKED \<Longrightarrow> st k t = THREAD_BLOCKED"
    "waiters (semas k' s) = waiters (semas k s)"
    "waiters (semas k s) \<noteq> [] \<Longrightarrow> unat (count (semas k' s)) \<le> unat (count (semas k s))"
  using assms unfolding same_wait_def by blast+

lemma wait_local:
  assumes "wait_at p k" "\<And>s. p \<noteq> Down_Loop s" "same_wait k k'" "st k (cur k) = THREAD_RUNNING"
    "code k' = (code k)(cur k := qs @ code k (cur k))" "Ball (set qs) (owns (cur k))"
    "cur k \<in> set (all_list k)"
  shows "wait_ok k'"
proof (rule wait_mono [OF assms(1)])
  note s = same_waitD [OF assms(3)]
  let ?C = "(code k)(cur k := p # code k (cur k))"
  have run: "st k' (cur k) \<noteq> THREAD_BLOCKED" using s(2) [of "cur k"] assms(4) by auto
  fix t p' assume t: "t \<in> set (all_list k')" "p' \<in> set (code k' t)"
  then show "owns t p'"
    using wait_invD(1) [OF assms(1), of t p'] assms(5,6) s(1) by (cases "t = cur k") auto
next
  note s = same_waitD [OF assms(3)]
  have run: "st k' (cur k) \<noteq> THREAD_BLOCKED" using s(2) [of "cur k"] assms(4) by auto
  fix t s' ps assume t: "t \<in> set (all_list k')" "st k' t = THREAD_BLOCKED" "code k' t = Down_Loop s' # ps"
  then have "t \<noteq> cur k" using run by auto
  then show "t \<in> set (all_list k) \<and> st k t = THREAD_BLOCKED \<and>
      (\<exists>qs. ((code k)(cur k := p # code k (cur k))) t = Down_Loop s' # qs) \<and> waiters (semas k' s') = waiters (semas k s')"
    using t s(1,2,3) assms(5) by simp
next
  note s = same_waitD [OF assms(3)]
  fix s' assume w: "waiters (semas k' s') \<noteq> []"
  have "awake ((code k)(cur k := p # code k (cur k))) s' k \<subseteq> awake (code k') s' k'"
    using s(1,2) assms(2,5) by (auto simp: awake_def)
  then show "waiters (semas k s') \<noteq> [] \<and> unat (count (semas k' s')) \<le> unat (count (semas k s')) \<and>
      awake ((code k)(cur k := p # code k (cur k))) s' k \<subseteq> awake (code k') s' k'"
    using w s(3,4) by simp
qed

section \<open>Semaphores\<close>

lemma wait_sema_up:
  assumes "wait_inv C k" "waits_ok i k" "C = code k \<or> (\<exists>p. C = (code k)(cur k := p # code k (cur k)) \<and> st k (cur k) = THREAD_RUNNING)"
    "sema_up s k = Inr k'"
  shows "wait_inv C k'"
proof (cases "waiters (semas k s)")
  case Nil
  then have k': "k' = set_count s (count (semas k s) + 1) k" using assms(4) by (simp add: sema_up_Inr woken_def)
  show ?thesis
    by (rule wait_mono [OF assms(1)])
      (use wait_invD(1) [OF assms(1)] Nil in \<open>auto simp: k' set_count_def awake_def split: if_splits\<close>)
next
  case (Cons t ts)
  then have k': "k' = set_count s (count (semas k s) + 1) (ready_thread t (set_waiters s ts k))"
    using assms(4) by (simp add: sema_up_Inr woken_def)
  have t: "t \<in> set (waiters (semas k s))" using Cons by simp
  note w = waits_okD [OF assms(2) t]
  have Ct: "\<exists>ps. C t = Down_Loop s # ps" using assms(3) w(3,4) by auto
  have f: "all_list k' = all_list k" "st k' u = (if u = t then THREAD_READY else st k u)"
    "waiters (semas k' r) = (if r = s then ts else waiters (semas k r))"
    "count (semas k' r) = (if r = s then count (semas k s) + 1 else count (semas k r))" for u r
    by (simp_all add: k' set_count_def ready_thread_def set_waiters_def)
  show ?thesis
  proof (rule wait_invI)
    fix u p assume "u \<in> set (all_list k')" "p \<in> set (C u)"
    then show "owns u p" using wait_invD(1) [OF assms(1)] by (simp add: f(1))
  next
    fix u r ps assume u: "u \<in> set (all_list k')" "st k' u = THREAD_BLOCKED" "C u = Down_Loop r # ps"
    then have "u \<noteq> t" "u \<in> set (waiters (semas k r))"
      using wait_invD(2) [OF assms(1), of u r ps] by (auto simp: f(1,2) split: if_splits)
    then show "u \<in> set (waiters (semas k' r))" using Cons by (auto simp: f(3))
  next
    fix r assume r: "waiters (semas k' r) \<noteq> []"
    then have "unat (count (semas k r)) \<le> card (awake C r k)"
      using wait_invD(3) [OF assms(1), of r] Cons by (simp add: f(3) split: if_splits)
    moreover have "awake C r k' = (if r = s then insert t (awake C s k) else awake C r k)"
      using Ct w(1,3) by (auto simp: awake_def f(1,2) split: if_splits)
    moreover have "t \<notin> awake C s k" using w(3) by (simp add: awake_def)
    moreover have "unat (count (semas k s) + 1) \<le> unat (count (semas k s)) + 1"
      by (simp add: unat_plus_if', arith)
    ultimately show "unat (count (semas k' r)) \<le> card (awake C r k')" by (auto simp: f(4))
  qed
qed

lemma same_wait_try: "sema_try_down s k = Inr (r, k') \<Longrightarrow> same_wait k k'"
  by (auto simp: sema_try_down_Inr same_wait_def set_count_def unat_minus_one split: if_splits)

lemma wait_down_loop:
  assumes "wait_at (Down_Loop s) k" "waits_ok i k" "down_loop s k = Inr k'"
    "sched i True k" "set (code k (cur k)) \<inter> down_loops = {}"
  shows "wait_ok k'"
proof -
  note c = sched_cur [OF assms(4)]
  let ?C = "(code k)(cur k := Down_Loop s # code k (cur k))"
  have own: "owns t p" if "t \<in> set (all_list k)" "p \<in> set (?C t)" for t p
    using wait_invD(1) [OF assms(1) that] .
  show ?thesis
  proof (cases "count (semas k s) = 0")
    case True
    let ?k = "blocked_thread (waiting s k)"
    have k': "k' = switched ?k"
      using True assms(3) by (auto simp: down_loop_Inr split: if_splits)
    have code: "code k' = ?C" by (simp add: k' waiting_def blocked_thread_def push_def set_waiters_def)
    have all: "all_list k' = all_list k" "all_list ?k = all_list k" "cur ?k = cur k"
      by (simp_all add: k' waiting_def blocked_thread_def push_def set_waiters_def)
    have sem: "waiters (semas k' r) = (if r = s then waiters (semas k s) @ [cur k] else waiters (semas k r))"
      "count (semas k' r) = count (semas k r)" for r
      by (simp_all add: k' waiting_def blocked_thread_def push_def set_waiters_def)
    have "\<not> dies ?k" by (simp add: dies_def blocked_thread_def waiting_def push_def set_waiters_def)
    then have st': "st k' t = (if t = chosen ?k then THREAD_RUNNING else st ?k t)" for t
      unfolding k' by (intro switched_st(1)) simp
    have stk: "st ?k t = (if t = cur k then THREAD_BLOCKED else st k t)" for t
      by (simp add: blocked_thread_def waiting_def push_def set_waiters_def)
    show ?thesis
      unfolding code
    proof (rule wait_invI)
      fix t p assume "t \<in> set (all_list k')" "p \<in> set (?C t)"
      then show "owns t p" using own by (simp add: all)
    next
      fix t r ps assume t: "t \<in> set (all_list k')" "st k' t = THREAD_BLOCKED" "?C t = Down_Loop r # ps"
      show "t \<in> set (waiters (semas k' r))"
      proof (cases "t = cur k")
        case True
        then show ?thesis using t(3) by (simp add: sem(1))
      next
        case False
        then have "st k t = THREAD_BLOCKED" using t(2) by (simp add: st' stk split: if_splits)
        then have "t \<in> set (waiters (semas k r))" using wait_invD(2) [OF assms(1) _ _ t(3)] t(1) all by simp
        then show ?thesis by (cases "r = s") (simp_all add: sem(1))
      qed
    next
      fix r assume r: "waiters (semas k' r) \<noteq> []"
      show "unat (count (semas k' r)) \<le> card (awake ?C r k')"
      proof (cases "r = s")
        case True
        then show ?thesis using \<open>count (semas k s) = 0\<close> by (simp add: sem(2))
      next
        case False
        have "awake ?C r k \<subseteq> awake ?C r k'"
          using False by (auto simp: awake_def all st' stk)
        then have "card (awake ?C r k) \<le> card (awake ?C r k')" by (simp add: card_mono)
        then show ?thesis using wait_invD(3) [OF assms(1), of r] False r by (simp add: sem)
      qed
    qed
  next
    case False
    have k': "k' = set_count s (count (semas k s) - 1) k"
      using False assms(3) by (auto simp: down_loop_Inr split: if_splits)
    have f: "all_list k' = all_list k" "st k' t = st k t" "code k' = code k"
      "waiters (semas k' r) = waiters (semas k r)"
      "unat (count (semas k' r)) = (if r = s then unat (count (semas k s)) - 1 else unat (count (semas k r)))" for t r
      using False by (simp_all add: k' set_count_def unat_minus_one)
    have hd: "code k (cur k) \<noteq> Down_Loop r # ps" for r ps using assms(5) by (auto simp: down_loops_def)
    show ?thesis
    proof (rule wait_invI)
      fix t p assume "t \<in> set (all_list k')" "p \<in> set (code k' t)"
      then show "owns t p" using own [of t p] by (cases "t = cur k") (auto simp: f(1,3))
    next
      fix t r ps assume t: "t \<in> set (all_list k')" "st k' t = THREAD_BLOCKED" "code k' t = Down_Loop r # ps"
      then have "t \<noteq> cur k" using c(2) by (auto simp: f(2))
      then show "t \<in> set (waiters (semas k' r))"
        using wait_invD(2) [OF assms(1), of t r ps] t by (simp add: f)
    next
      fix r assume r: "waiters (semas k' r) \<noteq> []"
      have "awake (code k') r k' = awake ?C r k - (if r = s then {cur k} else {})"
        using hd c(1,2) by (auto simp: awake_def f(1,2,3))
      moreover have "cur k \<in> awake ?C s k" using c(1,2) by (simp add: awake_def)
      ultimately show "unat (count (semas k' r)) \<le> card (awake (code k') r k')"
        using wait_invD(3) [OF assms(1), of r] r by (auto simp: f(4,5))
    qed
  qed
qed

section \<open>Every operation keeps it\<close>

lemma same_wait_refl [simp]:
  "same_wait k k" "same_wait k (k\<lparr>intr_on := b\<rparr>)" "same_wait k (k\<lparr>idle_thread := t\<rparr>)"
  by (simp_all add: same_wait_def)

text \<open>A new semaphore of the running thread, which waits for none.\<close>

lemma wait_init:
  assumes "wait_at p k" "\<And>s. p \<noteq> Down_Loop s" "st k (cur k) = THREAD_RUNNING" "cur k \<in> set (all_list k)"
    "s = Waiter (cur k) \<or> s = Sleep_Sema (cur k)"
  shows "wait_at p (sema_init s 0 k)"
proof (rule wait_mono [OF assms(1)])
  let ?k = "sema_init s 0 k" and ?C = "(code k)(cur k := p # code k (cur k))"
  have f: "all_list ?k = all_list k" "st ?k t = st k t" "code ?k = code k" "cur ?k = cur k"
    "waiters (semas ?k r) = (if r = s then [] else waiters (semas k r))"
    "count (semas ?k r) = (if r = s then 0 else count (semas k r))" for t r
    by (simp_all add: sema_init_def set_count_def set_waiters_def)
  fix t q assume "t \<in> set (all_list ?k)" "q \<in> set (((code ?k)(cur ?k := p # code ?k (cur ?k))) t)"
  then show "owns t q" using wait_invD(1) [OF assms(1), of t q] by (simp only: f)
next
  let ?k = "sema_init s 0 k" and ?C = "(code k)(cur k := p # code k (cur k))"
  have f: "all_list ?k = all_list k" "st ?k t = st k t" "code ?k = code k" "cur ?k = cur k"
    "waiters (semas ?k r) = (if r = s then [] else waiters (semas k r))"
    "count (semas ?k r) = (if r = s then 0 else count (semas k r))" for t r
    by (simp_all add: sema_init_def set_count_def set_waiters_def)
  fix t r ps assume t: "t \<in> set (all_list ?k)" "st ?k t = THREAD_BLOCKED"
    "((code ?k)(cur ?k := p # code ?k (cur ?k))) t = Down_Loop r # ps"
  have "t \<noteq> cur k" using t(2) assms(3) by (auto simp: f(2))
  moreover have "owns t (Down_Loop r)" using wait_invD(1) [OF assms(1), of t "Down_Loop r"] t(1,3) by (simp add: f)
  ultimately have "r \<noteq> s" using assms(5) by auto
  then show "t \<in> set (all_list k) \<and> st k t = THREAD_BLOCKED \<and> (\<exists>qs. ?C t = Down_Loop r # qs) \<and>
      waiters (semas ?k r) = waiters (semas k r)"
    using t by (simp add: f)
next
  fix r assume "waiters (semas (sema_init s 0 k) r) \<noteq> []"
  then show "waiters (semas k r) \<noteq> [] \<and> unat (count (semas (sema_init s 0 k) r)) \<le> unat (count (semas k r)) \<and>
      awake ((code k)(cur k := p # code k (cur k))) r k \<subseteq>
      awake ((code (sema_init s 0 k))(cur (sema_init s 0 k) := p # code (sema_init s 0 k) (cur (sema_init s 0 k)))) r (sema_init s 0 k)"
    by (auto simp: sema_init_def set_count_def set_waiters_def awake_def split: if_splits)
qed

lemma wait_pushing:
  assumes "wait_at (Call c) k" "pushing c" "exec_call c k = Inr k'"
    "st k (cur k) = THREAD_RUNNING" "cur k \<in> set (all_list k)"
  shows "wait_ok k'"
proof -
  have k': "k' = push (pushed_ops c k) (pushed_state c k)" using pushing_exec(1) [OF assms(2,3)] .
  have own: "owns (cur k) (Call c)" using wait_invD(1) [OF assms(1,5)] by simp
  have q: "Ball (set (pushed_ops c k)) (owns (cur k))"
  proof (cases c)
    case (Sema_Down s)
    then show ?thesis using own by (cases s) simp_all
  next
    case (Cond_Signal d l)
    then show ?thesis by (cases "conds k d") simp_all
  qed (use assms(2) in simp_all)
  show ?thesis
  proof (cases "\<exists>d l. c = Cond_Wait d l")
    case True
    then obtain d l where c: "c = Cond_Wait d l" by blast
    have "wait_at (Call c) (sema_init (Waiter (cur k)) 0 k)"
      by (rule wait_init [OF assms(1) _ assms(4,5)]) simp_all
    then show ?thesis
      by (rule wait_local [where qs = "pushed_ops c k"])
        (use c assms(4,5) q in \<open>simp_all add: k' push_def same_wait_def sema_init_def set_count_def set_waiters_def\<close>)
  next
    case False
    then have s: "same_wait k (pushed_state c k)" "code (pushed_state c k) = code k" "cur (pushed_state c k) = cur k"
      by (cases c; simp add: same_wait_def log_def)+
    show ?thesis
      by (rule wait_local [OF assms(1) _ _ assms(4) _ q assms(5)])
        (use s in \<open>simp_all add: k' push_def same_wait_def\<close>)
  qed
qed

lemma wait_yield:
  assumes "wait_at p k" "\<And>s. p \<noteq> Down_Loop s" "sched i True k" "thread_yield k = Inr k'"
  shows "wait_ok k'"
proof -
  note c = sched_cur [OF assms(3)]
  let ?k = "yielding (push [Set_Level (intr_on k)] (k\<lparr>intr_on := False\<rparr>))"
  have k': "k' = switched ?k" using assms(4) by (simp add: thread_yield_Inr)
  have "\<not> dies ?k" by (simp add: dies_def yielding_def push_def)
  then have "st k' t = (if t = chosen ?k then THREAD_RUNNING else st ?k t)" for t
    unfolding k' by (intro switched_st(1)) simp
  then have s: "same_wait k k'"
    by (simp add: same_wait_def k' yielding_def push_def)
  show ?thesis
    by (rule wait_local [OF assms(1,2) s c(2) _ _ c(1), of "[Set_Level (intr_on k)]"])
      (simp_all add: k' yielding_def push_def)
qed

lemma wait_exec_call:
  assumes "wait_at (Call c) k" "inv i k" "enabled i k (Call c)" "exec_call c k = Inr k'"
    "set (code k (cur k)) \<inter> down_loops = {}"
  shows "wait_ok k'"
proof -
  have S: "sched i True k" and W: "waits_ok i k" using assms(2) by (simp_all add: inv_def)
  note c = sched_cur [OF S]
  note same = wait_local [OF assms(1) _ _ c(2) _ _ c(1), where qs = "[]"]
  show ?thesis
  proof (cases "pushing c")
    case True
    show ?thesis by (rule wait_pushing [OF assms(1) True assms(4) c(2,1)])
  next
    case False
    show ?thesis
    proof (cases c)
      case (Sema_Try_Down s')
      then obtain r k1 where r: "sema_try_down s' k = Inr (r, k1)" "k' = return (of_bool r) k1"
        using assms(4) by (auto split: if_splits)
      have "same_wait k k1" by (rule same_wait_try [OF r(1)])
      then have "same_wait k k'" by (simp add: r(2) return_def same_wait_def)
      then show ?thesis by (rule same [rotated]) (use sema_try_down_fields [OF r(1)] r(2) in \<open>simp_all add: return_def\<close>)
    next
      case (Sema_Up s')
      then have u: "sema_up s' k = Inr k'" using assms(4) by simp
      have "wait_inv ((code k)(cur k := Call c # code k (cur k))) k'"
        by (rule wait_sema_up [OF assms(1) W _ u]) (use c(2) in blast)
      note w = this
      have f: "all_list k' = all_list k" "code k' = code k" "cur k' = cur k" using sema_up_fields [OF u] by simp_all
      have "st k' (cur k) = THREAD_RUNNING"
        using u c(2) waits_okD(3) [OF W, of _ s']
        by (fastforce simp: sema_up_Inr woken_def ready_thread_def set_count_def set_waiters_def split: list.split)
      then show ?thesis
        by (intro wait_local [where p = "Call c" and k = k' and qs = "[]"]) (use w f c(1) in simp_all)
    next
      case Thread_Yield
      show ?thesis by (rule wait_yield [OF assms(1) _ S]) (use assms(4) Thread_Yield in simp_all)
    next
      case Thread_Exit
      then have e: "code k (cur k) = []" "k' = switched (exiting (k\<lparr>intr_on := False\<rparr>))"
        using assms(3,4) by (simp_all add: enabled_def thread_exit_Inr)
      let ?k = "exiting (k\<lparr>intr_on := False\<rparr>)"
      have a: "set (all_list k') = set (all_list k) - {cur k}"
        using schedD(1) [OF S] by (simp add: e(2) exiting_def)
      have s: "st k' t = (if t = chosen ?k then THREAD_RUNNING else st k t)" if "t \<noteq> cur k" for t
      proof -
        have "t \<noteq> cur ?k" "st ?k t = st k t" using that by (simp_all add: exiting_def)
        then show ?thesis unfolding e(2) using switched_st(1) [of ?k t] by simp
      qed
      show ?thesis
        by (rule wait_mono [OF assms(1)])
          (use wait_invD(1) [OF assms(1)] a s Thread_Exit e(1) in
            \<open>auto simp: e(2) exiting_def awake_def split: if_splits\<close>)
    next
      case (Thread_Create t nm prio f)
      show ?thesis
      proof (cases "t = 0")
        case True
        then have k': "k' = return TID_ERROR k" using Thread_Create assms(4) by (simp add: thread_create_def)
        show ?thesis by (rule same) (simp_all add: k' return_def same_wait_def)
      next
        case False
        then have t: "t \<notin> set (all_list k)" "code k (cur k) = []" using assms(3) Thread_Create by (auto simp: enabled_def)
        then have tc: "t \<noteq> cur k" using c(1) by auto
        let ?qs = "[Call (Lock_Acquire Tid_Lock), Assign_Tid, Call (Lock_Release Tid_Lock), Create_Frames t f, Unblock t]"
        have k': "all_list k' = all_list k @ [t]" "code k' = (code k)(t := [], cur k := ?qs)" "semas k' = semas k"
          "\<And>u. u \<noteq> t \<Longrightarrow> st k' u = st k u"
          using assms(4) False tc t(2) Thread_Create
          by (auto simp: thread_create_def init_thread_def push_def fun_upd_twist)
        have own: "owns u p" if "u \<in> set (all_list k)" "p \<in> set (code k u)" for u p
          using wait_invD(1) [OF assms(1) that(1), of p] that(2) by (cases "u = cur k") auto
        show ?thesis
        proof (rule wait_mono [OF assms(1)])
          fix u p assume "u \<in> set (all_list k')" "p \<in> set (code k' u)"
          then show "owns u p" using own [of u p] tc by (auto simp: k'(1,2) split: if_splits)
        next
          fix u r ps assume u: "u \<in> set (all_list k')" "st k' u = THREAD_BLOCKED" "code k' u = Down_Loop r # ps"
          then have "u \<noteq> t" "u \<noteq> cur k" using tc by (auto simp: k'(2) split: if_splits)
          then show "u \<in> set (all_list k) \<and> st k u = THREAD_BLOCKED \<and>
              (\<exists>qs. ((code k)(cur k := Call c # code k (cur k))) u = Down_Loop r # qs) \<and>
              waiters (semas k' r) = waiters (semas k r)"
            using u k' by simp
        next
          fix r assume "waiters (semas k' r) \<noteq> []"
          then show "waiters (semas k r) \<noteq> [] \<and> unat (count (semas k' r)) \<le> unat (count (semas k r)) \<and>
              awake ((code k)(cur k := Call c # code k (cur k))) r k \<subseteq> awake (code k') r k'"
            using t(1) by (auto simp: awake_def k' split: if_splits)
        qed
      qed
    next
      case (Thread_Set_Priority p)
      then show ?thesis
        using same [of k'] assms(4) by (auto simp: thread_set_priority_def set_thread_def same_wait_def)
    qed (use False in simp_all)
  qed
qed

lemma wait_exec_op:
  assumes "wait_at p k" "inv i k" "enabled i k p" "exec p k = Inr k'"
    "set (code k (cur k)) \<inter> down_loops = {}"
  shows "wait_ok k'"
proof -
  have S: "sched i True k" and W: "waits_ok i k" and N: "creating_ok i k" using assms(2) by (simp_all add: inv_def)
  note c = sched_cur [OF S]
  note same = wait_local [OF assms(1) _ _ c(2) _ _ c(1), where qs = "[]"]
  show ?thesis
  proof (cases p)
    case (Call d)
    then show ?thesis using wait_exec_call assms by simp
  next
    case (Set_Level b)
    then have k': "k' = k\<lparr>intr_on := b\<rparr>" using assms(4) by (simp add: intr_set_level_Inr)
    show ?thesis by (rule same) (simp_all add: k' Set_Level)
  next
    case Iret
    then have k': "k' = k\<lparr>intr_on := True\<rparr>" using assms(4) by simp
    show ?thesis by (rule same) (simp_all add: k' Iret)
  next
    case (Down_Loop s)
    then have "wait_at (Down_Loop s) k" "down_loop s k = Inr k'" using assms(1,4) by simp_all
    then show ?thesis using wait_down_loop W S assms(5) by blast
  next
    case (Set_Holder l)
    then have k': "k' = log (Acquired (cur k) l) (k\<lparr>holder := (holder k)(l := cur k)\<rparr>)"
      using assms(4) by (auto simp: set_holder_def)
    show ?thesis by (rule same) (simp_all add: k' Set_Holder log_def same_wait_def)
  next
    case (Try_Holder l)
    then obtain b k1 where k1: "sema_try_down (Lock_Sema l) k = Inr (b, k1)"
      "k' = return (of_bool b) (if b then push [Set_Holder l] k1 else k1)"
      using assms(4) by (auto simp: try_holder_def)
    note f = sema_try_down_fields [OF k1(1)]
    have "same_wait k k1" by (rule same_wait_try [OF k1(1)])
    then have "same_wait k k'" by (simp add: k1(2) return_def push_def same_wait_def)
    then show ?thesis
      by (intro wait_local [OF assms(1) _ _ c(2) _ _ c(1), where qs = "if b then [Set_Holder l] else []"])
        (use Try_Holder f in \<open>auto simp: k1(2) return_def push_def\<close>)
  next
    case (Unlock l)
    then have u: "sema_up (Lock_Sema l) k = Inr k'" using assms(4) by simp
    have w: "wait_inv ((code k)(cur k := p # code k (cur k))) k'"
      by (rule wait_sema_up [OF assms(1) W _ u]) (use c(2) in blast)
    have f: "all_list k' = all_list k" "code k' = code k" "cur k' = cur k" using sema_up_fields [OF u] by simp_all
    have "st k' (cur k) = THREAD_RUNNING"
      using u c(2) by (auto simp: sema_up_Inr woken_def ready_thread_def set_count_def set_waiters_def split: list.split)
    then show ?thesis
      by (intro wait_local [where p = p and k = k' and qs = "[]"]) (use w f c(1) Unlock in simp_all)
  next
    case Assign_Tid
    then have k': "k' = return (next_tid k) (k\<lparr>next_tid := next_tid k + 1\<rparr>)" using assms(4) by (simp add: assign_tid_def)
    show ?thesis by (rule same) (simp_all add: k' return_def Assign_Tid same_wait_def)
  next
    case (Create_Frames t f)
    then have t: "creates k (cur k) t" "f = Client" using assms(3) by (auto simp: enabled_def)
    note t' = creating_okD [OF N t(1)]
    have k': "all_list k' = all_list k" "code k' = (code k)(t := [Set_Level True])" "semas k' = semas k"
      "\<And>u. st k' u = st k u"
      using assms(4) Create_Frames t(2) by (auto simp: create_frames_Inr kernel_thread_def)
    have tc: "t \<noteq> cur k" using t'(3) c(2) by auto
    let ?C = "(code k)(cur k := p # code k (cur k))"
    have own: "owns u q" if "u \<in> set (all_list k)" "q \<in> set (code k u)" for u q
      using wait_invD(1) [OF assms(1) that(1), of q] that(2) by (cases "u = cur k") auto
    show ?thesis
    proof (rule wait_mono [OF assms(1)])
      fix u q assume "u \<in> set (all_list k')" "q \<in> set (code k' u)"
      then show "owns u q" using own [of u q] by (auto simp: k'(1,2) split: if_splits)
    next
      fix u r ps assume u: "u \<in> set (all_list k')" "st k' u = THREAD_BLOCKED" "code k' u = Down_Loop r # ps"
      then have "u \<noteq> cur k" "u \<noteq> t" using c(2) by (auto simp: k'(2,4))
      then show "u \<in> set (all_list k) \<and> st k u = THREAD_BLOCKED \<and> (\<exists>qs. ?C u = Down_Loop r # qs) \<and>
          waiters (semas k' r) = waiters (semas k r)"
        using u k' by simp
    next
      fix r assume "waiters (semas k' r) \<noteq> []"
      moreover have "awake ?C r k \<subseteq> awake (code k') r k'"
        using t'(3) Create_Frames by (auto simp: awake_def k')
      ultimately show "waiters (semas k r) \<noteq> [] \<and> unat (count (semas k' r)) \<le> unat (count (semas k r)) \<and>
          awake ?C r k \<subseteq> awake (code k') r k'"
        by (simp add: k'(3))
    qed
  next
    case (Unblock t)
    then have k': "k' = ready_thread t k" using assms(4) by (simp add: thread_unblock_Inr)
    show ?thesis by (rule same) (auto simp: k' ready_thread_def Unblock same_wait_def)
  next
    case (Sleep_Insert e)
    have w: "wait_at p (sema_init (Sleep_Sema (cur k)) 0 k)"
      by (rule wait_init [OF assms(1) _ c(2,1)]) (use Sleep_Insert in simp_all)
    have k': "k' = sleep_insert e k" using Sleep_Insert assms(4) by simp
    show ?thesis
      by (rule wait_local [OF w, where qs = "[]"])
        (use c in \<open>simp_all add: k' sleep_insert_def Let_def Sleep_Insert sema_init_def set_count_def set_waiters_def same_wait_def\<close>)
  next
    case (Sleep_Return e)
    then have k': "k' = log (Slept (cur k) e (ticks k)) k" using assms(4) by simp
    show ?thesis by (rule same) (simp_all add: k' Sleep_Return log_def same_wait_def)
  qed (use assms(3) in \<open>simp_all add: enabled_def\<close>)
qed

lemma wait_idle_op:
  assumes "wait_at p k" "inv i k" "p \<in> idle_ops" "exec p k = Inr k'"
  shows "wait_ok k'"
proof -
  have S: "sched i True k" and W: "waits_ok i k" using assms(2) by (simp_all add: inv_def)
  note c = sched_cur [OF S]
  have n: "\<And>s. p \<noteq> Down_Loop s" using assms(3) by (auto simp: idle_ops_def)
  show ?thesis
  proof (cases "p = Call (Sema_Up Idle_Started)")
    case True
    then have u: "sema_up Idle_Started k = Inr k'" using assms(4) by simp
    have w: "wait_inv ((code k)(cur k := p # code k (cur k))) k'"
      by (rule wait_sema_up [OF assms(1) W _ u]) (use c(2) in blast)
    have f: "all_list k' = all_list k" "code k' = code k" "cur k' = cur k" using sema_up_fields [OF u] by simp_all
    have "st k' (cur k) = THREAD_RUNNING"
      using u c(2) by (auto simp: sema_up_Inr woken_def ready_thread_def set_count_def set_waiters_def split: list.split)
    then show ?thesis
      by (intro wait_local [where p = p and k = k' and qs = "[]"]) (use w f c(1) n in simp_all)
  next
    case False
    then consider b where "p = Set_Level b" | "p = Iret" | "p = Sti_Hlt" using assms(3) by (auto simp: idle_ops_def)
    then have "k' = k\<lparr>intr_on := intr_on k'\<rparr>" by cases (use assms(4) in \<open>auto simp: intr_set_level_Inr\<close>)
    then obtain b where k': "k' = k\<lparr>intr_on := b\<rparr>" by metis
    show ?thesis
      by (rule wait_local [OF assms(1) n _ c(2) _ _ c(1), where qs = "[]"]) (simp_all add: k')
  qed
qed

lemma wait_step_op:
  assumes "inv i k" "wait_ok k" "code k (cur k) \<noteq> []" "step_op k = Inr k'"
  shows "wait_ok k'"
proof -
  let ?p = "hd (code k (cur k))"
  have S: "sched i True k" using assms(1) by (simp add: inv_def)
  note c = sched_cur [OF S]
  have g: "wait_at ?p (popped k)" using wait_atI [OF assms(2,3)] by simp
  have e: "exec ?p (popped k) = Inr k'" using assms(4) step_op_popped [OF assms(3)] by simp
  have nl: "set (code (popped k) (cur (popped k))) \<inter> down_loops = {}" using no_loop_after [OF assms(1)] by simp
  show ?thesis
  proof (cases "cur k = i \<and> ?p \<notin> idle_ops")
    case False
    then have I: "inv i (popped k)" using inv_popped [OF assms(1)] by auto
    show ?thesis
    proof (cases "cur k = i")
      case True
      then have "?p \<in> idle_ops" using False by simp
      then show ?thesis by (rule wait_idle_op [OF g I _ e])
    next
      case False
      show ?thesis by (rule wait_exec_op [OF g I enabled_next [OF assms(1) False assms(3)] e nl])
    qed
  next
    case True
    then have code: "code k i = (if idle_thread k = 0 then [Idle, Idle_Loop] else [Idle_Loop])" "?p = Idle \<longleftrightarrow> idle_thread k = 0"
      using idle_runs [OF assms(1)] assms(3) by auto
    have run: "st (popped k) (cur (popped k)) = THREAD_RUNNING" "cur (popped k) \<in> set (all_list (popped k))"
      using c by simp_all
    show ?thesis
    proof (cases "?p = Idle")
      case idle: True
      have k': "k' = push [Call (Sema_Up Idle_Started)] ((popped k)\<lparr>idle_thread := cur k\<rparr>)"
        using e idle by (auto simp: idle_def)
      show ?thesis
        by (rule wait_local [OF g _ _ run(1) _ _ run(2), where qs = "[Call (Sema_Up Idle_Started)]"])
          (use idle in \<open>simp_all add: k' push_def same_wait_def\<close>)
    next
      case False
      then have p: "?p = Idle_Loop" using code True by (auto split: if_splits)
      let ?k = "blocked_thread (push [Sti_Hlt, Idle_Loop] (intr_disable (popped k)))"
      have k': "k' = switched ?k"
        using e p by (auto simp: idle_loop_def thread_block_Inr)
      have "\<not> dies ?k" by (simp add: dies_def blocked_thread_def push_def intr_disable_def)
      then have st': "st k' t = (if t = chosen ?k then THREAD_RUNNING else st ?k t)" for t
        unfolding k' by (intro switched_st(1)) simp
      have stk: "st ?k t = (if t = cur k then THREAD_BLOCKED else st k t)" for t
        by (simp add: blocked_thread_def push_def intr_disable_def)
      have code': "code k' = (code k)(cur k := [Sti_Hlt, Idle_Loop] @ tl (code k (cur k)))" "all_list k' = all_list k"
        "semas k' = semas k"
        by (simp_all add: k' blocked_thread_def push_def intr_disable_def)
      show ?thesis
      proof (rule wait_mono [OF assms(2)])
        fix t q assume "t \<in> set (all_list k')" "q \<in> set (code k' t)"
        then show "owns t q"
          using wait_invD(1) [OF assms(2), of t q] list.set_sel(2) [OF assms(3), of q]
          by (auto simp: code' split: if_splits)
      next
        fix t r ps assume t: "t \<in> set (all_list k')" "st k' t = THREAD_BLOCKED" "code k' t = Down_Loop r # ps"
        then have "t \<noteq> cur k" by (auto simp: code')
        then show "t \<in> set (all_list k) \<and> st k t = THREAD_BLOCKED \<and> (\<exists>qs. code k t = Down_Loop r # qs) \<and>
            waiters (semas k' r) = waiters (semas k r)"
          using t by (auto simp: code' st' stk split: if_splits)
      next
        fix r assume "waiters (semas k' r) \<noteq> []"
        moreover have "code k (cur k) \<noteq> Down_Loop r # ps" for ps using p by auto
        then have "awake (code k) r k \<subseteq> awake (code k') r k'"
          by (auto simp: awake_def code' st' stk)
        ultimately show "waiters (semas k r) \<noteq> [] \<and> unat (count (semas k' r)) \<le> unat (count (semas k r)) \<and>
            awake (code k) r k \<subseteq> awake (code k') r k'"
          by (simp add: code')
      qed
    qed
  qed
qed

section \<open>The timer interrupt, and steps of the kernel\<close>

lemma wait_frame:
  assumes "wait_inv C k" "all_list k' = all_list k" "semas k' = semas k" "\<And>t. st k' t = st k t"
  shows "wait_inv C k'"
  using assms by (simp add: wait_inv_def awake_def)

lemma wait_wake_loop:
  "wait_ok k \<Longrightarrow> inv i k \<Longrightarrow> wake_loop es k = Inr k' \<Longrightarrow> wait_ok k'"
proof (induction es arbitrary: k)
  case (Cons e es)
  show ?case
  proof (cases "wake_at k e \<le> ticks k")
    case True
    then obtain k1 where k1: "sema_up (Sleep_Sema e) k = Inr k1"
      "wake_loop es (k1\<lparr>sleepers := remove1 e (sleepers k1)\<rparr>) = Inr k'"
      using Cons.prems(3) by (auto simp: timer_ticks_def)
    have W: "waits_ok i k" using Cons.prems(2) by (simp add: inv_def)
    let ?k = "k1\<lparr>sleepers := remove1 e (sleepers k1)\<rparr>"
    have I: "inv i ?k" by (rule inv_same [OF inv_sema_up [OF Cons.prems(2) k1(1)]]) simp_all
    have "wait_inv (code k) k1" by (rule wait_sema_up [OF Cons.prems(1) W _ k1(1)]) simp
    then have "wait_ok k1" using sema_up_fields(2) [OF k1(1)] by simp
    then have "wait_inv (code k1) ?k" by (rule wait_frame) simp_all
    then show ?thesis using Cons.IH [OF _ I k1(2)] by simp
  qed (use Cons.prems in \<open>simp add: timer_ticks_def\<close>)
qed simp

lemma wait_try_down:
  assumes "wait_ok k" "sema_try_down s k = Inr (r, k')"
  shows "wait_ok k'"
proof (rule wait_mono [OF assms(1)])
  note w = same_waitD [OF same_wait_try [OF assms(2)]] and f = sema_try_down_fields [OF assms(2)]
  fix t p assume "t \<in> set (all_list k')" "p \<in> set (code k' t)"
  then show "owns t p" using wait_invD(1) [OF assms(1)] by (simp add: f)
next
  note w = same_waitD [OF same_wait_try [OF assms(2)]] and f = sema_try_down_fields [OF assms(2)]
  fix t s ps assume "t \<in> set (all_list k')" "st k' t = THREAD_BLOCKED" "code k' t = Down_Loop s # ps"
  then show "t \<in> set (all_list k) \<and> st k t = THREAD_BLOCKED \<and> (\<exists>qs. code k t = Down_Loop s # qs) \<and>
      waiters (semas k' s) = waiters (semas k s)"
    using w(1,2,3) f(2) by simp
next
  note w = same_waitD [OF same_wait_try [OF assms(2)]] and f = sema_try_down_fields [OF assms(2)]
  fix s assume "waiters (semas k' s) \<noteq> []"
  then show "waiters (semas k s) \<noteq> [] \<and> unat (count (semas k' s)) \<le> unat (count (semas k s)) \<and>
      awake (code k) s k \<subseteq> awake (code k') s k'"
    using w by (auto simp: awake_def f(2))
qed

lemma wait_try_to_wake:
  assumes "wait_ok k" "inv i k" "try_to_wake_up_threads k = Inr k'"
  shows "wait_ok k'"
proof -
  obtain r k1 where k1: "sema_try_down Sleeping_List_Sema k = Inr (r, k1)"
    "(if r then bindE (wake_loop (sleepers k1) k1) (sema_up Sleeping_List_Sema) else Inr k1) = Inr k'"
    using assms(3) by (auto simp: try_to_wake_up_threads_def)
  have w1: "wait_ok k1" by (rule wait_try_down [OF assms(1) k1(1)])
  have i1: "inv i k1" by (rule inv_sema_try_down [OF assms(2) k1(1)])
  show ?thesis
  proof (cases r)
    case True
    then obtain k2 where k2: "wake_loop (sleepers k1) k1 = Inr k2" "sema_up Sleeping_List_Sema k2 = Inr k'"
      using k1(2) by auto
    have "waits_ok i k2" using inv_wake_loop [OF i1 k2(1)] by (simp add: inv_def)
    then have "wait_inv (code k2) k'" by (intro wait_sema_up [OF wait_wake_loop [OF w1 i1 k2(1)] _ _ k2(2)]) simp_all
    then show ?thesis using sema_up_fields(2) [OF k2(2)] by simp
  qed (use k1(2) w1 in simp)
qed

lemma wait_intr_handler:
  assumes "inv i k" "intr_on k" "wait_ok k" "intr_handler k = Inr k'"
  shows "wait_ok k'"
proof -
  obtain k1 where k1: "timer_interrupt (entered k) = Inr k1"
    "let k2 = k1\<lparr>in_external_intr := False\<rparr> in if yield_on_return k1 then thread_yield k2 = Inr k' else k' = k2"
    using assms(4) by (auto simp: intr_handler_Inr)
  have S: "sched i True k" using assms(1) by (simp add: inv_def)
  note c = sched_cur [OF S]
  have I: "inv i (entered k)" by (rule inv_entered [OF assms(1,2)])
  have nl: "code k (cur k) \<noteq> Down_Loop s # ps" for s ps
    using no_loop_enabled [OF assms(1,2)] by (auto simp: down_loops_def)
  have "wait_ok (entered k)"
  proof (rule wait_mono [OF assms(3)])
    fix t p assume "t \<in> set (all_list (entered k))" "p \<in> set (code (entered k) t)"
    then show "owns t p" using wait_invD(1) [OF assms(3), of t p] by (auto split: if_splits)
  next
    fix s show "waiters (semas (entered k) s) \<noteq> [] \<Longrightarrow> waiters (semas k s) \<noteq> [] \<and>
       unat (count (semas (entered k) s)) \<le> unat (count (semas k s)) \<and> awake (code k) s k \<subseteq> awake (code (entered k)) s (entered k)"
      using nl by (auto simp: awake_def)
  qed (auto split: if_splits)
  then have "wait_inv (code (entered k)) ((entered k)\<lparr>ticks := ticks k + 1\<rparr>)" by (rule wait_frame) simp_all
  then have "wait_ok ((entered k)\<lparr>ticks := ticks k + 1\<rparr>)" by simp
  moreover have "inv i ((entered k)\<lparr>ticks := ticks k + 1\<rparr>)" by (rule inv_same [OF I]) simp_all
  moreover obtain k0 where k0: "try_to_wake_up_threads ((entered k)\<lparr>ticks := ticks k + 1\<rparr>) = Inr k0" "thread_tick k0 = Inr k1"
    using k1(1) by (auto simp: timer_interrupt_def)
  ultimately have w0: "wait_ok k0" using wait_try_to_wake by blast
  note tt = thread_tick_effect [OF k0(2)]
  have "wait_inv (code k0) k1" by (rule wait_frame [OF w0]) (use tt in \<open>simp_all add: same_sched_def\<close>)
  then have w1: "wait_ok k1" using tt by (simp add: quiet_def)
  let ?k = "k1\<lparr>in_external_intr := False\<rparr>"
  have w: "wait_inv (code k1) ?k" by (rule wait_frame [OF w1]) simp_all
  show ?thesis
  proof (cases "yield_on_return k1")
    case True
    then have y: "thread_yield ?k = Inr k'" using k1(2) by (simp add: Let_def)
    have I1: "inv i k1" using inv_timer_interrupt(1) [OF I k1(1)] .
    then have S1: "sched i True k1" by (simp add: inv_def)
    note c1 = sched_cur [OF S1]
    have S1': "sched i True ?k" by (rule sched_same [OF S1]) simp_all
    have q: "quiet (entered k) k1" using inv_timer_interrupt(2) [OF I k1(1)] .
    have n1: "code ?k (cur ?k) \<noteq> Down_Loop s # ps" for s ps using q by (simp add: quiet_def)
    have "wait_at Iret ?k"
    proof (rule wait_mono [OF w])
      fix t p assume "t \<in> set (all_list ?k)" "p \<in> set (((code ?k)(cur ?k := Iret # code ?k (cur ?k))) t)"
      then show "owns t p" using wait_invD(1) [OF w, of t p] by (auto split: if_splits)
    next
      fix s show "waiters (semas ?k s) \<noteq> [] \<Longrightarrow> waiters (semas ?k s) \<noteq> [] \<and>
         unat (count (semas ?k s)) \<le> unat (count (semas ?k s)) \<and>
         awake (code k1) s ?k \<subseteq> awake ((code ?k)(cur ?k := Iret # code ?k (cur ?k))) s ?k"
        using n1 by (auto simp: awake_def)
    qed (auto split: if_splits)
    then show ?thesis by (rule wait_yield [OF _ _ S1' y]) simp
  next
    case False
    then show ?thesis using w k1(2) by (simp add: Let_def)
  qed
qed

lemma wait_kstep:
  assumes "inv i k" "wait_ok k" "kstep k k'"
  shows "wait_ok k'"
  using assms(3)
proof (cases rule: kstep.cases)
  case run
  then show ?thesis using wait_step_op [OF assms(1,2)] by simp
next
  case (call c)
  have S: "sched i True k" using assms(1) by (simp add: inv_def)
  note c = sched_cur [OF S]
  have n: "owns (cur k) (Call c)" using call(2) by (cases c) auto
  have "wait_at (Call c) k"
  proof (rule wait_mono [OF assms(2)])
    fix t p assume "t \<in> set (all_list k)" "p \<in> set (((code k)(cur k := Call c # code k (cur k))) t)"
    then show "owns t p" using wait_invD(1) [OF assms(2), of t p] n by (auto split: if_splits)
  qed (use c(2) call(1) in \<open>auto simp: awake_def split: if_splits\<close>)
  then show ?thesis
    using wait_exec_call [OF _ assms(1) _ call(3)] call(1,2) by (simp add: enabled_def)
next
  case tick
  then show ?thesis using wait_intr_handler [OF assms(1) _ assms(2)] by simp
qed

lemma wait_booted:
  assumes "m \<noteq> 0" "i \<noteq> 0" "m \<noteq> i" "booted v m i = Inr k"
  shows "wait_ok k"
proof -
  have b: "all_list k = [m, i]" "\<forall>s. waiters (semas k s) = []"
    "code k = (\<lambda>_. [])(m := [Set_Level True, Call (Sema_Down Idle_Started)], i := [Set_Level True, Idle, Idle_Loop])"
    using booted_state [OF assms(1-3), of v] assms(4) by auto
  show ?thesis using b assms(3) by (simp add: wait_inv_def)
qed

end
