(* ===== verification/Pintos_Progress.thy ===== *)
theory Pintos_Progress
  imports Pintos_Threads_Step
begin

text \<open>
  The interrupt level of the threads of \<open>Pintos_Threads\<close>: what a thread does with interrupts off ends
  by turning them on again or by giving the processor to another thread, and none of it fails. So the
  kernel is never stuck with interrupts off, and with interrupts on the next tick can always be handled.
\<close>

section \<open>The level at which operations run\<close>

text \<open>\<open>lev b ps\<close>: run from level \<open>b\<close>, every operation of \<open>ps\<close> finds the level the code expects there.\<close>

fun lev :: "bool \<Rightarrow> op list \<Rightarrow> bool" where
  "lev b [] = b"
| "lev b (Set_Level l # ps) = ((l \<or> \<not> b) \<and> lev l ps)"
| "lev b (Iret # ps) = lev True ps"
| "lev b (Sti_Hlt # ps) = lev True ps"
| "lev b (Down_Loop s # ps) = (\<not> b \<and> lev False ps)"
| "lev b (p # ps) = (b \<and> lev True ps)"

text \<open>
  The threads that do not run will continue with interrupts off, but for those under construction,
  which have their first operation before they are unblocked.
\<close>

definition level_rest :: "kernel \<Rightarrow> bool" where
  "level_rest k \<longleftrightarrow>
     (\<forall>t \<in> set (all_list k). t \<noteq> cur k \<and> (\<forall>u. \<not> creates k u t) \<longrightarrow> lev False (code k t)) \<and>
     (\<forall>u t. creates k u t \<longrightarrow> code k t = [Set_Level True] \<or> Create_Frames t Client \<in> set (code k u))"

definition level_inv :: "kernel \<Rightarrow> bool" where
  "level_inv k \<longleftrightarrow> lev (intr_on k) (code k (cur k)) \<and> level_rest k"

lemma level_restD:
  assumes "level_rest k"
  shows "t \<in> set (all_list k) \<Longrightarrow> t \<noteq> cur k \<Longrightarrow> (\<And>u. \<not> creates k u t) \<Longrightarrow> lev False (code k t)"
    "creates k u t \<Longrightarrow> code k t = [Set_Level True] \<or> Create_Frames t Client \<in> set (code k u)"
  using assms unfolding level_rest_def by blast+

lemma level_restI:
  assumes "\<And>t. t \<in> set (all_list k) \<Longrightarrow> t \<noteq> cur k \<Longrightarrow> (\<And>u. \<not> creates k u t) \<Longrightarrow> lev False (code k t)"
    "\<And>u t. creates k u t \<Longrightarrow> code k t = [Set_Level True] \<or> Create_Frames t Client \<in> set (code k u)"
  shows "level_rest k"
  using assms unfolding level_rest_def by blast

text \<open>The running thread gets \<open>qs\<close> before what remains; none of it creates a thread.\<close>

definition pushes :: "kernel \<Rightarrow> op list \<Rightarrow> kernel \<Rightarrow> bool" where
  "pushes k qs k' \<longleftrightarrow> all_list k' = all_list k \<and> cur k' = cur k \<and>
     code k' = (code k)(cur k := qs @ code k (cur k)) \<and> set qs \<inter> range Unblock = {}"

lemma creates_pushes:
  assumes "pushes k qs k'"
  shows "creates k' u t \<longleftrightarrow> creates k u t"
proof (cases "u = cur k \<and> code k u = []")
  case True
  have "last qs \<noteq> Unblock t" if "qs \<noteq> []" using assms last_in_set [OF that] by (auto simp: pushes_def)
  then show ?thesis using True assms by (auto simp: creates_def pushes_def)
qed (use assms in \<open>auto simp: creates_def pushes_def\<close>)

text \<open>What is known of a state in which an operation of the running thread is executed.\<close>

definition running :: "kernel \<Rightarrow> bool" where
  "running k \<longleftrightarrow> level_rest k \<and> cur k \<in> set (all_list k) \<and> st k (cur k) = THREAD_RUNNING \<and>
     (\<forall>u t. creates k u t \<longrightarrow> st k t = THREAD_BLOCKED)"

lemma level_pushes:
  assumes "running k" "pushes k qs k'"
  shows "level_rest k'"
proof (rule level_restI, unfold creates_pushes [OF assms(2)])
  fix u t assume c: "creates k u t"
  then have "t \<noteq> cur k" using assms(1) by (auto simp: running_def)
  then show "code k' t = [Set_Level True] \<or> Create_Frames t Client \<in> set (code k' u)"
    using assms level_restD(2) [of k u t] c by (auto simp: pushes_def running_def)
qed (use assms level_restD(1) [of k] in \<open>auto simp: pushes_def running_def\<close>)

lemma level_local:
  assumes "running k" "pushes k qs k'" "lev (intr_on k') (qs @ code k (cur k))"
  shows "level_inv k'"
  using level_pushes [OF assms(1,2)] assms(2,3) by (simp add: level_inv_def pushes_def)

text \<open>Giving up the processor, with interrupts off.\<close>

lemma level_switched:
  assumes "inv i (switched k)" "\<not> intr_on k" "level_rest k"
    "cur k \<in> set (all_list k) \<Longrightarrow> lev False (code k (cur k))"
  shows "level_inv (switched k)"
proof -
  have S: "sched i True (switched k)" and N: "creating_ok i (switched k)" using assms(1) by (simp_all add: inv_def)
  note c = sched_cur [OF S]
  have cr: "creates (switched k) = creates k" by (simp add: creates_def fun_eq_iff)
  have off: "lev False (code k t)" if "t \<in> set (all_list k)" "\<And>u. \<not> creates k u t" for t
    using level_restD(1) [OF assms(3) that(1)] that(2) assms(4) that(1) by (cases "t = cur k") auto
  have "\<not> creates k u (chosen k)" for u
    using creating_okD(3) [OF N, of u "chosen k"] c(2) cr by auto
  then have "lev False (code k (chosen k))" using off c(1) by simp
  moreover have "level_rest (switched k)"
    by (rule level_restI) (use off level_restD(2) [OF assms(3)] in \<open>auto simp: cr\<close>)
  ultimately show ?thesis using assms(2) by (simp add: level_inv_def)
qed

lemma level_give_up:
  assumes "running k" "pushes k qs k'" "lev False (qs @ code k (cur k))" "\<not> intr_on k'" "inv i (switched k')"
  shows "level_inv (switched k')"
  by (rule level_switched [OF assms(5,4) level_pushes [OF assms(1,2)]])
    (use assms(2,3) in \<open>simp add: pushes_def\<close>)

section \<open>Every operation keeps it\<close>

text \<open>The levels of what the calls push: each finds interrupts on, but for the loop of \<open>sema_down\<close>.\<close>

lemma lev_pushed:
  assumes "pushing c" "lev True ps" "intr_on k"
  shows "lev (intr_on (pushed_state c k)) (pushed_ops c k @ ps)"
    "pushes k (pushed_ops c k) (push (pushed_ops c k) (pushed_state c k))"
  using assms
  by (cases c; auto simp: pushes_def push_def log_def sema_init_def set_count_def set_waiters_def split: list.split)+

lemma level_call:
  assumes "running k" "intr_on k" "lev True (code k (cur k))" "exec_call c k = Inr k'" "inv i k'"
    "inv i k" "enabled i k (Call c)"
  shows "level_inv k'"
proof (cases "pushing c")
  case True
  have k': "k' = push (pushed_ops c k) (pushed_state c k)" using pushing_exec(1) [OF True assms(4)] .
  note p = lev_pushed [OF True assms(3,2)]
  show ?thesis
    unfolding k' by (rule level_local [OF assms(1) p(2)]) (use p(1) in \<open>simp add: push_def\<close>)
next
  case False
  show ?thesis
  proof (cases c)
    case (Sema_Try_Down s)
    then obtain r k1 where r: "sema_try_down s k = Inr (r, k1)" "k' = return (of_bool r) k1"
      using assms(4) by (auto split: if_splits)
    have "quiet k k1" using sema_try_down_quiet [OF r(1)] by simp
    then show ?thesis
      using level_local [OF assms(1), of "[]" k'] assms(2,3) r(2) by (simp add: pushes_def quiet_def return_def)
  next
    case (Sema_Up s)
    then have "quiet k k'" using sema_up_quiet [of s k k'] assms(4) by simp
    then show ?thesis using level_local [OF assms(1), of "[]" k'] assms(2,3) by (simp add: pushes_def quiet_def)
  next
    case Thread_Yield
    then have k': "k' = switched (yielding (push [Set_Level (intr_on k)] (k\<lparr>intr_on := False\<rparr>)))"
      using assms(4) by (simp add: thread_yield_Inr)
    show ?thesis
      unfolding k'
      by (rule level_give_up [OF assms(1), where qs = "[Set_Level True]"])
        (use assms(2,3,5) k' in \<open>auto simp: pushes_def yielding_def push_def\<close>)
  next
    case Thread_Exit
    then have e: "code k (cur k) = []" "k' = switched (exiting (k\<lparr>intr_on := False\<rparr>))"
      using assms(4,7) by (simp_all add: enabled_def thread_exit_Inr)
    let ?k = "exiting (k\<lparr>intr_on := False\<rparr>)"
    have S: "sched i True k" and N: "creating_ok i k" using assms(6) by (simp_all add: inv_def)
    have a: "set (all_list ?k) = set (all_list k) - {cur k}" using schedD(1) [OF S] by (simp add: exiting_def)
    have cr: "creates ?k u t \<longleftrightarrow> creates k u t" for u t
      unfolding creates_def a using e(1) by (auto simp: exiting_def)
    have R: "level_rest k" using assms(1) by (simp add: running_def)
    have "level_rest ?k"
      by (rule level_restI, unfold cr a) (use level_restD [OF R] in \<open>auto simp: exiting_def\<close>)
    moreover have "cur ?k \<notin> set (all_list ?k)" unfolding a by (simp add: exiting_def)
    ultimately show ?thesis unfolding e(2)
      by (intro level_switched [of i]) (use assms(5) e(2) in \<open>auto simp: exiting_def\<close>)
  next
    case (Thread_Create t nm prio f)
    show ?thesis
    proof (cases "t = 0")
      case True
      then have "k' = return TID_ERROR k" using Thread_Create assms(4) by (simp add: thread_create_def)
      then show ?thesis using level_local [OF assms(1), of "[]" k'] assms(2,3) by (simp add: pushes_def return_def)
    next
      case False
      then have t: "t \<notin> set (all_list k)" "code k (cur k) = []" "f = Client"
        using assms(7) Thread_Create by (auto simp: enabled_def)
      have c: "cur k \<in> set (all_list k)" using assms(1) by (simp add: running_def)
      then have tc: "t \<noteq> cur k" using t(1) by auto
      let ?qs = "[Call (Lock_Acquire Tid_Lock), Assign_Tid, Call (Lock_Release Tid_Lock), Create_Frames t f, Unblock t]"
      have k': "all_list k' = all_list k @ [t]" "code k' = (code k)(t := [], cur k := ?qs)" "intr_on k' = intr_on k"
        "cur k' = cur k"
        using assms(4) False tc t(2) Thread_Create
        by (auto simp: thread_create_def init_thread_def push_def fun_upd_twist)
      have N: "creating_ok i k" using assms(6) by (simp add: inv_def)
      have old: "x \<noteq> t \<and> x \<noteq> cur k" if "creates k u x" for u x
        using creating_okD(1) [OF N that] t(1) assms(1) that by (auto simp: running_def)
      have cr: "creates k' u x \<longleftrightarrow> u = cur k \<and> x = t \<or> creates k u x" for u x
        using c t(1,2) tc by (auto simp: creates_def k')
      have R: "level_rest k" using assms(1) by (simp add: running_def)
      have "level_rest k'"
      proof (rule level_restI, unfold cr)
        fix x assume x: "x \<in> set (all_list k')" "x \<noteq> cur k'" "\<And>u. \<not> (u = cur k \<and> x = t \<or> creates k u x)"
        then have "x \<noteq> t" "x \<in> set (all_list k)" "x \<noteq> cur k" by (auto simp: k')
        then show "lev False (code k' x)" using level_restD(1) [OF R, of x] x(3) by (simp add: k'(2))
      next
        fix u x assume u: "u = cur k \<and> x = t \<or> creates k u x"
        show "code k' x = [Set_Level True] \<or> Create_Frames x Client \<in> set (code k' u)"
        proof (cases "creates k u x")
          case True
          have "u \<noteq> t" "u \<noteq> cur k" using True t(1,2) by (auto simp: creates_def)
          then show ?thesis using level_restD(2) [OF R True] old [OF True] by (simp add: k'(2))
        qed (use u t(3) tc in \<open>auto simp: k'(2)\<close>)
      qed
      then show ?thesis using assms(2) by (simp add: level_inv_def k')
    qed
  next
    case (Thread_Set_Priority p)
    then have "k' = set_thread (cur k) (priority_update (\<lambda>_. p)) k" using assms(4) by (auto simp: thread_set_priority_def)
    then show ?thesis using level_local [OF assms(1), of "[]" k'] assms(2,3) by (simp add: pushes_def set_thread_def)
  qed (use False in simp_all)
qed

text \<open>The state from which an operation that remains is run.\<close>

lemma running_popped:
  assumes "level_inv k" "inv i k" "code k (cur k) = p # ps" "p \<notin> range Unblock" "\<And>t f. p \<noteq> Create_Frames t f"
  shows "running (popped k)"
proof -
  have S: "sched i True k" and N: "creating_ok i k" using assms(2) by (simp_all add: inv_def)
  note c = sched_cur [OF S]
  have R: "level_rest k" using assms(1) by (simp add: level_inv_def)
  have cr: "creates (popped k) u t \<longleftrightarrow> creates k u t" for u t
    using assms(3,4) by (auto simp: creates_def)
  have b: "t \<noteq> cur k" if "creates k u t" for u t using creating_okD(3) [OF N that] c(2) by auto
  have "level_rest (popped k)"
  proof (rule level_restI, unfold cr)
    fix u t assume u: "creates k u t"
    then show "code (popped k) t = [Set_Level True] \<or> Create_Frames t Client \<in> set (code (popped k) u)"
      using level_restD(2) [OF R u] b [OF u] assms(3,5) by (cases "u = cur k") auto
  qed (use level_restD(1) [OF R] in auto)
  then show ?thesis using c(1,2) creating_okD(3) [OF N] by (simp add: running_def cr)
qed

lemma level_unblock:
  assumes "level_inv k" "inv i k" "code k (cur k) = Unblock t # ps" "thread_unblock t (popped k) = Inr k'"
  shows "level_inv k'"
proof -
  have S: "sched i True k" and N: "creating_ok i k" using assms(2) by (simp_all add: inv_def)
  note c = sched_cur [OF S]
  have R: "level_rest k" and L: "intr_on k" using assms(1,3) by (simp_all add: level_inv_def)
  have k': "k' = ready_thread t (popped k)" using assms(4) by (simp add: thread_unblock_Inr)
  have ps: "ps = []" using creating_ok_frames(1) [OF N c(1)] assms(3) by (auto split: if_splits)
  then have cr: "creates k (cur k) t" using c(1) assms(3) by (simp add: creates_def)
  have ct: "code k t = [Set_Level True]" using level_restD(2) [OF R cr] assms(3) ps by auto
  have cr': "creates k' u x \<longleftrightarrow> creates k u x \<and> u \<noteq> cur k" for u x
    using assms(3) ps by (auto simp: creates_def k' ready_thread_def)
  have "level_rest k'"
  proof (rule level_restI)
    fix x assume x: "x \<in> set (all_list k')" "x \<noteq> cur k'" "\<And>u. \<not> creates k' u x"
    have "lev False (code k x)"
    proof (cases "x = t")
      case False
      have "\<not> creates k u x" for u
      proof
        assume u: "creates k u x"
        then have "u \<noteq> cur k" using False assms(3) ps by (auto simp: creates_def)
        then show False using x(3) [of u] u by (simp add: cr')
      qed
      then show ?thesis using level_restD(1) [OF R] x(1,2) by (simp add: k' ready_thread_def)
    qed (simp add: ct)
    then show "lev False (code k' x)" using x(2) by (simp add: k' ready_thread_def)
  next
    fix u x assume "creates k' u x"
    then have u: "creates k u x" "u \<noteq> cur k" using cr' by simp_all
    moreover have "x \<noteq> cur k" using creating_okD(3) [OF N u(1)] c(2) by auto
    ultimately show "code k' x = [Set_Level True] \<or> Create_Frames x Client \<in> set (code k' u)"
      using level_restD(2) [OF R u(1)] by (simp add: k' ready_thread_def)
  qed
  then show ?thesis using L ps assms(3) by (simp add: level_inv_def k' ready_thread_def)
qed

lemma level_frames:
  assumes "level_inv k" "inv i k" "code k (cur k) = Create_Frames t f # ps" "create_frames t f (popped k) = Inr k'"
  shows "level_inv k'"
proof -
  have S: "sched i True k" and N: "creating_ok i k" using assms(2) by (simp_all add: inv_def)
  note c = sched_cur [OF S]
  have R: "level_rest k" and L: "intr_on k \<and> lev True ps" using assms(1,3) by (simp_all add: level_inv_def)
  have cr: "creates k (cur k) t" "f = Client" using creating_ok_frames(2) [OF N c(1), of t f] assms(3) by auto
  have tc: "t \<noteq> cur k" using creating_okD(3) [OF N cr(1)] c(2) by auto
  have ps: "ps \<noteq> []" using cr(1) assms(3) by (auto simp: creates_def)
  have k': "all_list k' = all_list k" "code k' = (code k)(cur k := ps, t := [Set_Level True])" "cur k' = cur k"
    "intr_on k' = intr_on k"
    using assms(3,4) cr(2) by (auto simp: create_frames_Inr kernel_thread_def)
  have nt: "\<not> creates k t x" for x using creating_okD(4) [OF N cr(1)] by (auto simp: creates_def)
  have cr': "creates k' u x \<longleftrightarrow> creates k u x" for u x
    using assms(3) ps tc nt [of x] by (auto simp: creates_def k')
  have "level_rest k'"
  proof (rule level_restI, unfold cr')
    fix u x assume u: "creates k u x"
    have "x \<noteq> cur k" using creating_okD(3) [OF N u] c(2) by auto
    moreover have "u \<noteq> t" using nt u by auto
    ultimately show "code k' x = [Set_Level True] \<or> Create_Frames x Client \<in> set (code k' u)"
      using level_restD(2) [OF R u] assms(3) by (cases "u = cur k") (auto simp: k'(2))
  qed (use level_restD(1) [OF R] in \<open>auto simp: k'\<close>)
  then show ?thesis using L tc by (simp add: level_inv_def k')
qed

lemma level_op:
  assumes "level_inv k" "inv i k" "code k (cur k) = p # ps" "exec p (popped k) = Inr k'" "inv i k'"
  shows "level_inv k'"
proof -
  have S: "sched i True k" and C: "code_ok i k" using assms(2) by (simp_all add: inv_def)
  note c = sched_cur [OF S]
  have L: "lev (intr_on k) (p # ps)" using assms(1,3) by (simp add: level_inv_def)
  note run = running_popped [OF assms(1,2,3)]
  have code: "code (popped k) (cur (popped k)) = ps" using assms(3) by simp
  note local = level_local [OF run, where k' = k' and qs = "[]", unfolded code append_Nil]
  show ?thesis
  proof (cases p)
    case (Set_Level b)
    then have "k' = (popped k)\<lparr>intr_on := b\<rparr>" using assms(4) by (simp add: intr_set_level_Inr)
    then show ?thesis using local L Set_Level by (auto simp: pushes_def)
  next
    case Iret
    then have "k' = (popped k)\<lparr>intr_on := True\<rparr>" using assms(4) by simp
    then show ?thesis using local L Iret by (auto simp: pushes_def)
  next
    case Sti_Hlt
    then have "k' = (popped k)\<lparr>intr_on := True\<rparr>" using assms(4) by simp
    then show ?thesis using local L Sti_Hlt by (auto simp: pushes_def)
  next
    case (Set_Holder l)
    then have "k' = log (Acquired (cur k) l) ((popped k)\<lparr>holder := (holder k)(l := cur k)\<rparr>)"
      using assms(4) by (auto simp: set_holder_def)
    then show ?thesis using local L Set_Holder by (auto simp: pushes_def log_def)
  next
    case Assign_Tid
    then have "k' = return (next_tid (popped k)) ((popped k)\<lparr>next_tid := next_tid (popped k) + 1\<rparr>)"
      using assms(4) by (simp add: assign_tid_def)
    then show ?thesis using local L Assign_Tid by (auto simp: pushes_def return_def)
  next
    case (Sleep_Return e)
    then have "k' = log (Slept (cur k) e (ticks k)) (popped k)" using assms(4) by simp
    then show ?thesis using local L Sleep_Return by (auto simp: pushes_def log_def)
  next
    case (Sleep_Insert e)
    then have "k' = sleep_insert e (popped k)" using assms(4) by simp
    then show ?thesis using local L Sleep_Insert
      by (auto simp: pushes_def sleep_insert_def sema_init_def set_count_def set_waiters_def Let_def)
  next
    case (Unlock l)
    then have "quiet (popped k) k'" using sema_up_quiet [of _ "popped k" k'] assms(4) by simp
    then show ?thesis using local L Unlock by (auto simp: pushes_def quiet_def)
  next
    case (Try_Holder l)
    then obtain b k1 where k1: "sema_try_down (Lock_Sema l) (popped k) = Inr (b, k1)"
      "k' = return (of_bool b) (if b then push [Set_Holder l] k1 else k1)"
      using assms(4) by (auto simp: try_holder_def)
    have q: "quiet (popped k) k1" using sema_try_down_quiet [OF k1(1)] by simp
    show ?thesis
      by (rule level_local [OF run, where qs = "if b then [Set_Holder l] else []"])
        (use L Try_Holder q assms(3) in \<open>auto simp: k1(2) quiet_def return_def push_def pushes_def\<close>)
  next
    case Idle
    then have k': "k' = push [Call (Sema_Up Idle_Started)] ((popped k)\<lparr>idle_thread := cur k\<rparr>)"
      using assms(4) by (auto simp: idle_def)
    show ?thesis
      by (rule level_local [OF run, where qs = "[Call (Sema_Up Idle_Started)]"])
        (use L Idle assms(3) in \<open>auto simp: k' push_def pushes_def\<close>)
  next
    case Idle_Loop
    let ?k = "blocked_thread (push [Sti_Hlt, Idle_Loop] (intr_disable (popped k)))"
    have k': "k' = switched ?k" using assms(4) Idle_Loop by (auto simp: idle_loop_def thread_block_Inr)
    show ?thesis
      unfolding k'
      by (rule level_give_up [OF run, where qs = "[Sti_Hlt, Idle_Loop]"])
        (use L Idle_Loop assms(3,5) k' in \<open>auto simp: blocked_thread_def push_def intr_disable_def pushes_def\<close>)
  next
    case (Down_Loop s)
    show ?thesis
    proof (cases "count (semas k s) = 0")
      case True
      let ?k = "blocked_thread (waiting s (popped k))"
      have k': "k' = switched ?k" "\<not> intr_on k"
        using assms(4) True Down_Loop by (auto simp: down_loop_Inr split: if_splits)
      show ?thesis
        unfolding k'(1)
        by (rule level_give_up [OF run, where qs = "[Down_Loop s]"])
          (use L assms(3,5) Down_Loop k' in \<open>auto simp: blocked_thread_def push_def waiting_def set_waiters_def pushes_def\<close>)
    next
      case False
      then have "k' = set_count s (count (semas k s) - 1) (popped k)"
        using assms(4) Down_Loop by (auto simp: down_loop_Inr split: if_splits)
      then show ?thesis using local L Down_Loop by (auto simp: pushes_def set_count_def)
    qed
  next
    case (Unblock t)
    then show ?thesis using level_unblock [OF assms(1,2)] assms(3,4) by simp
  next
    case (Create_Frames t f)
    then show ?thesis using level_frames [OF assms(1,2)] assms(3,4) by simp
  next
    case (Call d)
    have on: "intr_on (popped k)" "lev True (code (popped k) (cur (popped k)))" using L Call code by simp_all
    have r: "running (popped k)" by (rule run) (use Call in auto)
    show ?thesis
    proof (cases "cur k = i")
      case False
      have I: "inv i (popped k)" using inv_popped [OF assms(2)] False by simp
      have e: "enabled i (popped k) (Call d)" using enabled_next [OF assms(2) False] assms(3) Call by simp
      show ?thesis using level_call [OF r on _ assms(5) I e] assms(4) Call by simp
    next
      case True
      obtain qs where q: "code k i = qs @ (if idle_thread k = 0 then [Idle, Idle_Loop] else [Idle_Loop])" "set qs \<subseteq> idle_ops"
        using idle_code [OF C] .
      have "p \<in> set qs" using q(1) assms(3) True Call by (cases qs) (auto split: if_splits)
      then have "p \<in> idle_ops" using q(2) by blast
      then have "d = Sema_Up Idle_Started" using Call by (auto simp: idle_ops_def)
      then have "quiet (popped k) k'" using sema_up_quiet [of _ "popped k" k'] assms(4) Call by simp
      then show ?thesis using local L Call by (auto simp: pushes_def quiet_def)
    qed
  qed
qed

lemma level_intr_handler:
  assumes "inv i k" "intr_on k" "level_inv k" "intr_handler k = Inr k'" "inv i k'"
  shows "level_inv k'"
proof -
  obtain k1 where k1: "timer_interrupt (entered k) = Inr k1"
    "let k2 = k1\<lparr>in_external_intr := False\<rparr> in if yield_on_return k1 then thread_yield k2 = Inr k' else k' = k2"
    using assms(4) by (auto simp: intr_handler_Inr)
  note t = inv_timer_interrupt [OF inv_entered [OF assms(1,2)] k1(1)]
  let ?k = "k1\<lparr>in_external_intr := False\<rparr>"
  have I: "inv i ?k" by (rule inv_same [OF t(1)]) simp_all
  have S: "sched i True k" and N: "creating_ok i k" using assms(1) by (simp_all add: inv_def)
  note c = sched_cur [OF S]
  have R: "level_rest k" and L: "lev True (code k (cur k))" using assms(2,3) by (simp_all add: level_inv_def)
  have p: "pushes k [Iret] ?k" using t(2) by (simp add: pushes_def quiet_def image_iff)
  have r: "running k" using R c(1,2) creating_okD(3) [OF N] by (simp add: running_def)
  have off: "\<not> intr_on ?k" using t(2) by (simp add: quiet_def)
  have L2: "level_inv ?k" by (rule level_local [OF r p]) (use L off in simp)
  show ?thesis
  proof (cases "yield_on_return k1")
    case True
    then have "thread_yield ?k = Inr k'" using k1(2) by (simp add: Let_def)
    then have k': "k' = switched (yielding (push [Set_Level (intr_on ?k)] (?k\<lparr>intr_on := False\<rparr>)))"
      by (simp add: thread_yield_Inr)
    have S2: "sched i True ?k" and N2: "creating_ok i ?k" using I by (simp_all add: inv_def)
    note c2 = sched_cur [OF S2]
    have "lev False (code ?k (cur ?k))" "level_rest ?k" using L2 off by (simp_all add: level_inv_def)
    then have r2: "running ?k" using c2(1,2) creating_okD(3) [OF N2] by (simp add: running_def)
    show ?thesis
      unfolding k'
      by (rule level_give_up [OF r2, where qs = "[Set_Level False]"])
        (use \<open>lev False (code ?k (cur ?k))\<close> off assms(5) k' in \<open>auto simp: pushes_def yielding_def push_def\<close>)
  next
    case False
    then show ?thesis using L2 k1(2) by (simp add: Let_def)
  qed
qed

lemma level_kstep:
  assumes "inv i k" "\<not> in_external_intr k" "level_inv k" "kstep k k'"
  shows "level_inv k'"
proof -
  have I: "inv i k'" using inv_kstep [OF assms(1,2,4)] by simp
  show ?thesis
    using assms(4)
  proof (cases rule: kstep.cases)
    case run
    then obtain p ps where p: "code k (cur k) = p # ps" by (cases "code k (cur k)") auto
    then have "exec p (popped k) = Inr k'" using run step_op_popped [OF run(1)] by simp
    then show ?thesis using level_op [OF assms(3,1) p _ I] by simp
  next
    case (call c)
    have S: "sched i True k" and N: "creating_ok i k" using assms(1) by (simp_all add: inv_def)
    have L: "intr_on k" and R: "level_rest k" using assms(3) call(1) by (simp_all add: level_inv_def)
    have r: "running k" using R sched_cur [OF S] creating_okD(3) [OF N] by (simp add: running_def)
    have e: "enabled i k (Call c)" using call by (simp add: enabled_def)
    have l: "lev True (code k (cur k))" using call(1) by simp
    show ?thesis by (rule level_call [OF r L l call(3) I assms(1) e])
  next
    case tick
    then show ?thesis using level_intr_handler [OF assms(1) _ assms(3) _ I] by simp
  qed
qed

lemma level_booted:
  assumes "m \<noteq> 0" "i \<noteq> 0" "m \<noteq> i" "booted v m i = Inr k"
  shows "level_inv k"
proof -
  have b: "all_list k = [m, i]" "cur k = m" "\<not> intr_on k"
    "code k = (\<lambda>_. [])(m := [Set_Level True, Call (Sema_Down Idle_Started)], i := [Set_Level True, Idle, Idle_Loop])"
    using booted_state [OF assms(1-3), of v] assms(4) by auto
  have "\<not> creates k u t" for u t using b assms(3) by (auto simp: creates_def)
  then show ?thesis using b assms(3) by (simp add: level_inv_def level_rest_def)
qed

section \<open>The handler of the timer interrupt does not fail\<close>

lemma inv_thread:
  assumes "inv i k" "t \<in> set (all_list k)"
  shows "is_thread k t"
proof -
  have S: "sched i True k" using assms(1) by (simp add: inv_def)
  have "t \<noteq> 0" using schedD(2) [OF S] assms(2) by metis
  then show ?thesis using schedD(7) [OF S assms(2)] by (simp add: is_thread_def)
qed

lemma sema_up_runs:
  assumes "inv i k" "\<not> intr_on k"
  shows "\<exists>k'. sema_up s k = Inr k'"
proof -
  have W: "waits_ok i k" using assms(1) by (simp add: inv_def)
  have "is_thread k t \<and> st k t = THREAD_BLOCKED" if "t \<in> set (take 1 (waiters (semas k s)))" for t
  proof -
    have "t \<in> set (waiters (semas k s))" using in_set_takeD [OF that] .
    then show ?thesis using waits_okD(1,3) [OF W] inv_thread [OF assms(1)] by blast
  qed
  then show ?thesis using assms(2) by (auto simp: sema_up_Inr)
qed

lemma wake_loop_runs: "inv i k \<Longrightarrow> \<not> intr_on k \<Longrightarrow> \<exists>k'. wake_loop es k = Inr k'"
proof (induction es arbitrary: k)
  case (Cons e es)
  obtain k1 where k1: "sema_up (Sleep_Sema e) k = Inr k1" using sema_up_runs [OF Cons.prems] by blast
  have "inv i (k1\<lparr>sleepers := remove1 e (sleepers k1)\<rparr>)"
    by (rule inv_same [OF inv_sema_up [OF Cons.prems(1) k1]]) simp_all
  moreover have "\<not> intr_on (k1\<lparr>sleepers := remove1 e (sleepers k1)\<rparr>)"
    using sema_up_quiet [OF k1] Cons.prems(2) by (simp add: quiet_def)
  ultimately obtain k' where "wake_loop es (k1\<lparr>sleepers := remove1 e (sleepers k1)\<rparr>) = Inr k'" using Cons.IH by blast
  then show ?case using k1 by simp
qed simp

lemma timer_interrupt_runs:
  assumes "inv i k" "\<not> intr_on k" "in_external_intr k"
  shows "\<exists>k'. timer_interrupt k = Inr k'"
proof -
  let ?k = "k\<lparr>ticks := ticks k + 1\<rparr>"
  have I: "inv i ?k" by (rule inv_same [OF assms(1)]) simp_all
  have "\<exists>k1. try_to_wake_up_threads ?k = Inr k1"
  proof -
    have "\<exists>r k2. sema_try_down Sleeping_List_Sema ?k = Inr (r, k2)"
      unfolding sema_try_down_Inr using assms(2) by simp
    then obtain r k2 where k2: "sema_try_down Sleeping_List_Sema ?k = Inr (r, k2)" by blast
    have q: "quiet ?k k2" using sema_try_down_quiet [OF k2] by simp
    have I2: "inv i k2" by (rule inv_sema_try_down [OF I k2])
    have off: "\<not> intr_on k2" using q assms(2) by (simp add: quiet_def)
    obtain k3 where k3: "wake_loop (sleepers k2) k2 = Inr k3" using wake_loop_runs [OF I2 off] by blast
    have "inv i k3" "\<not> intr_on k3" using inv_wake_loop [OF I2 k3] off by (simp_all add: quiet_def)
    then obtain k4 where "sema_up Sleeping_List_Sema k3 = Inr k4" using sema_up_runs by blast
    then show ?thesis using k2 k3 by (simp add: try_to_wake_up_threads_def)
  qed
  then obtain k1 where k1: "try_to_wake_up_threads ?k = Inr k1" by blast
  note w = inv_try_to_wake [OF I k1]
  have "sched i True k1" using w by (simp add: inv_def)
  note c = sched_cur [OF this]
  have "in_external_intr k1" using w assms(3) by (simp add: quiet_def)
  then show ?thesis
    using k1 c(2,4)
    by (simp add: timer_interrupt_def thread_tick_def thread_current_def intr_yield_on_return_def intr_context_def Let_def)
qed

lemma thread_yield_runs:
  assumes "inv i k" "\<not> in_external_intr k"
  shows "\<exists>k'. thread_yield k = Inr k'"
proof -
  have S: "sched i True k" using assms(1) by (simp add: inv_def)
  note c = sched_cur [OF S]
  have "sched i False (yielding k)"
    using sched_give_up [OF S, of THREAD_READY] by (cases "cur k = idle_thread k") (simp_all add: yielding_def)
  then have "is_thread (yielding k) (chosen (yielding k))" by (rule chosen_in(2))
  then have "is_thread k (chosen (yielding k))" by (auto simp: yielding_def is_thread_def split: if_splits)
  then show ?thesis using c(2,4) assms(2) by (simp add: thread_yield_Inr)
qed

lemma intr_handler_runs:
  assumes "inv i k" "intr_on k" "\<not> in_external_intr k"
  shows "\<exists>k'. intr_handler k = Inr k'"
proof -
  have I: "inv i (entered k)" by (rule inv_entered [OF assms(1,2)])
  obtain k1 where k1: "timer_interrupt (entered k) = Inr k1"
    using timer_interrupt_runs [OF I] by auto
  note t = inv_timer_interrupt [OF I k1]
  let ?k = "k1\<lparr>in_external_intr := False\<rparr>"
  have I1: "inv i ?k" by (rule inv_same [OF t(1)]) simp_all
  obtain k' where y: "thread_yield ?k = Inr k'" using thread_yield_runs [OF I1] by auto
  have f: "\<not> intr_on k1" "in_external_intr k1" using t(2) by (simp_all add: quiet_def)
  have e: "(let k2 = k1\<lparr>in_external_intr := False\<rparr> in if yield_on_return k1 then thread_yield k2 = Inr x else x = k2) \<longleftrightarrow>
      (if yield_on_return k1 then thread_yield ?k = Inr x else x = ?k)" for x
    by (simp add: Let_def)
  show ?thesis
  proof (cases "yield_on_return k1")
    case True
    then have "intr_handler k = Inr k'"
      unfolding intr_handler_Inr using assms(3) k1 f y by (intro conjI exI [of _ k1]) (simp_all add: Let_def)
    then show ?thesis by blast
  next
    case False
    then have "intr_handler k = Inr ?k"
      unfolding intr_handler_Inr using assms(3) k1 f by (intro conjI exI [of _ k1]) (simp_all add: Let_def)
    then show ?thesis by blast
  qed
qed

section \<open>Interrupts are never off for ever\<close>

text \<open>
  With interrupts off, an operation either turns them on, or leaves fewer operations to the same
  thread, or gives the processor to the next thread of the ready list; the idle thread turns them on.
\<close>

definition off_measure :: "ptr \<Rightarrow> kernel \<Rightarrow> nat \<times> nat" where
  "off_measure i k = (if cur k = i then 0 else length (ready_list k) + 1, length (code k (cur k)))"

lemma off_step:
  assumes "inv i k" "level_inv k" "\<not> intr_on k" "\<not> in_external_intr k"
  shows "code k (cur k) \<noteq> [] \<and> (\<exists>k'. step_op k = Inr k' \<and>
    (intr_on k' \<or> (off_measure i k', off_measure i k) \<in> less_than <*lex*> less_than))"
proof -
  have S: "sched i True k" and C: "code_ok i k" using assms(1) by (simp_all add: inv_def)
  note c = sched_cur [OF S]
  have L: "lev False (code k (cur k))" using assms(2,3) by (simp add: level_inv_def)
  then obtain p ps where p: "code k (cur k) = p # ps" by (cases "code k (cur k)") auto
  then have step: "step_op k = exec p (popped k)" using step_op_popped [of k] by simp
  have "p = Iret \<or> p = Sti_Hlt \<or> (\<exists>b. p = Set_Level b) \<or> (\<exists>s. p = Down_Loop s)"
    using L p by (cases p) auto
  then consider "p = Iret \<or> p = Sti_Hlt" | b where "p = Set_Level b" | s where "p = Down_Loop s" by blast
  then show ?thesis
  proof cases
    case 1
    then have "step_op k = Inr ((popped k)\<lparr>intr_on := True\<rparr>)" using step by auto
    then show ?thesis using p by simp
  next
    case 2
    then have "step_op k = Inr ((popped k)\<lparr>intr_on := b\<rparr>)" using step assms(4) by (simp add: intr_set_level_Inr)
    then show ?thesis using p by (auto simp: off_measure_def)
  next
    case 3
    have ni: "cur k \<noteq> i"
    proof
      assume i: "cur k = i"
      obtain qs where q: "code k i = qs @ (if idle_thread k = 0 then [Idle, Idle_Loop] else [Idle_Loop])" "set qs \<subseteq> idle_ops"
        using idle_code [OF C] .
      have "set (code k i) \<inter> down_loops = {}" using q(1) idle_ops_no_loop [OF q(2)] by (auto simp: down_loops_def)
      then show False using p i 3 by (simp add: down_loops_def)
    qed
    show ?thesis
    proof (cases "count (semas k s) = 0")
      case False
      have "down_loop s (popped k) = Inr (set_count s (count (semas k s) - 1) (popped k))"
        using False by (simp add: down_loop_Inr)
      then show ?thesis using p step 3 by (auto simp: off_measure_def set_count_def)
    next
      case True
      let ?k = "blocked_thread (waiting s (popped k))"
      have "sched i True (waiting s (popped k))"
        by (rule sched_same [OF S]) (simp_all add: waiting_def push_def set_waiters_def)
      then have S': "sched i False ?k"
        by (rule sched_blocked) (use ni in \<open>simp add: waiting_def push_def set_waiters_def\<close>)
      note ch = chosen_in [OF S']
      have e: "chosen ?k = chosen k" "is_thread ?k t = is_thread k t" "ready_list ?k = ready_list k" for t
        by (simp_all add: chosen_def is_thread_def blocked_thread_def waiting_def push_def set_waiters_def)
      have e': "chosen (popped k) = chosen k" "is_thread (popped k) t = is_thread k t" for t
        by (simp_all add: chosen_def is_thread_def)
      have "is_thread (popped k) (chosen (popped k))" using ch(2) unfolding e e' .
      moreover have "is_thread (popped k) (cur k)" using c(4) unfolding e' .
      ultimately have k': "step_op k = Inr (switched ?k)"
        using step 3 True assms(3,4) c(2) by (simp add: down_loop_Inr)
      have "(off_measure i (switched ?k), off_measure i k) \<in> less_than <*lex*> less_than"
      proof (cases "ready_list k = []")
        case empty: True
        then have "chosen ?k = i" using idle_or_ready [OF S'] e by (simp add: chosen_def)
        then show ?thesis using ni by (simp add: off_measure_def)
      next
        case False
        then show ?thesis using ni by (cases "ready_list k") (auto simp: off_measure_def e)
      qed
      moreover have "code k (cur k) \<noteq> []" using p by simp
      ultimately show ?thesis using k' by blast
    qed
  qed
qed

lemma interrupts_return:
  assumes "inv i k" "level_inv k" "\<not> in_external_intr k"
  shows "\<exists>n k'. run_ops n k = Inr k' \<and> kstep\<^sup>*\<^sup>* k k' \<and> intr_on k' \<and> inv i k' \<and> \<not> in_external_intr k'"
  using assms
proof (induction "off_measure i k" arbitrary: k rule: wf_induct_rule [OF wf_lex_prod [OF wf_less_than wf_less_than]])
  case 1
  show ?case
  proof (cases "intr_on k")
    case True
    then show ?thesis using "1.prems" by (intro exI [of _ 0] exI [of _ k]) simp
  next
    case False
    obtain k1 where k1: "code k (cur k) \<noteq> []" "step_op k = Inr k1"
      "intr_on k1 \<or> (off_measure i k1, off_measure i k) \<in> less_than <*lex*> less_than"
      using off_step [OF "1.prems"(1,2) False "1.prems"(3)] by blast
    have s: "kstep k k1" using k1(1,2) by (rule kstep.run)
    note I = inv_kstep [OF "1.prems"(1,3) s] and L = level_kstep [OF "1.prems"(1,3,2) s]
    show ?thesis
    proof (cases "intr_on k1")
      case True
      then show ?thesis using k1(2) s I by (intro exI [of _ "Suc 0"] exI [of _ k1]) auto
    next
      case False
      then obtain n k' where n: "run_ops n k1 = Inr k'" "kstep\<^sup>*\<^sup>* k1 k'" "intr_on k'" "inv i k'" "\<not> in_external_intr k'"
        using "1.hyps" [of k1] k1(3) I L by blast
      have "run_ops (Suc n) k = Inr k'" using n(1) k1(2) by simp
      moreover have "kstep\<^sup>*\<^sup>* k k'" using s n(2) by (rule converse_rtranclp_into_rtranclp)
      ultimately show ?thesis using n(3-5) by blast
    qed
  qed
qed

section \<open>Time slices\<close>

text \<open>The handler adds the threads it wakes to the end of the ready list, before the running thread.\<close>

definition readies :: "kernel \<Rightarrow> kernel \<Rightarrow> bool" where
  "readies k k' \<longleftrightarrow> (\<exists>ts. ready_list k' = ready_list k @ ts) \<and> thread_ticks k' = thread_ticks k \<and>
     yield_on_return k' = yield_on_return k"

lemma readies_trans: "readies k k' \<Longrightarrow> readies k' k'' \<Longrightarrow> readies k k''"
  by (auto simp: readies_def)

lemma sema_up_readies: "sema_up s k = Inr k' \<Longrightarrow> readies k k'"
  by (auto simp: sema_up_Inr readies_def woken_def set_count_def set_waiters_def ready_thread_def split: list.split)

lemma wake_loop_readies: "wake_loop es k = Inr k' \<Longrightarrow> readies k k'"
proof (induction es arbitrary: k)
  case (Cons e es)
  show ?case
  proof (cases "wake_at k e \<le> ticks k")
    case True
    then obtain k1 where k1: "sema_up (Sleep_Sema e) k = Inr k1"
      "wake_loop es (k1\<lparr>sleepers := remove1 e (sleepers k1)\<rparr>) = Inr k'"
      using Cons.prems by (auto simp: timer_ticks_def)
    have "readies k (k1\<lparr>sleepers := remove1 e (sleepers k1)\<rparr>)" using sema_up_readies [OF k1(1)] by (simp add: readies_def)
    then show ?thesis using Cons.IH [OF k1(2)] by (rule readies_trans)
  qed (use Cons.prems in \<open>simp add: timer_ticks_def readies_def\<close>)
qed (simp add: readies_def)

lemma try_to_wake_readies:
  assumes "try_to_wake_up_threads k = Inr k'"
  shows "readies k k'"
proof -
  obtain r k1 where k1: "sema_try_down Sleeping_List_Sema k = Inr (r, k1)"
    "(if r then bindE (wake_loop (sleepers k1) k1) (sema_up Sleeping_List_Sema) else Inr k1) = Inr k'"
    using assms by (auto simp: try_to_wake_up_threads_def)
  have r1: "readies k k1" using k1(1) by (auto simp: sema_try_down_Inr readies_def set_count_def split: if_splits)
  show ?thesis
  proof (cases r)
    case True
    then obtain k2 where k2: "wake_loop (sleepers k1) k1 = Inr k2" "sema_up Sleeping_List_Sema k2 = Inr k'"
      using k1(2) by auto
    show ?thesis
      using readies_trans [OF r1 readies_trans [OF wake_loop_readies [OF k2(1)] sema_up_readies [OF k2(2)]]] .
  qed (use k1(2) r1 in simp)
qed

lemma intr_handler_slices:
  assumes "inv i k" "intr_on k" "intr_handler k = Inr k'"
  shows "thread_ticks k + 1 < TIME_SLICE \<Longrightarrow> cur k' = cur k \<and> thread_ticks k' = thread_ticks k + 1"
    "TIME_SLICE \<le> thread_ticks k + 1 \<Longrightarrow> cur k \<noteq> idle_thread k \<Longrightarrow> ready_list k = t # ts \<Longrightarrow>
      cur k' = t \<and> thread_ticks k' = 0 \<and> (\<exists>ws. ready_list k' = ts @ ws @ [cur k]) \<and> st k' (cur k) = THREAD_READY"
proof -
  obtain k1 where k1: "timer_interrupt (entered k) = Inr k1"
    "let k2 = k1\<lparr>in_external_intr := False\<rparr> in if yield_on_return k1 then thread_yield k2 = Inr k' else k' = k2"
    using assms(3) by (auto simp: intr_handler_Inr)
  note q = inv_timer_interrupt [OF inv_entered [OF assms(1,2)] k1(1)]
  let ?e = "(entered k)\<lparr>ticks := ticks k + 1\<rparr>" and ?k = "k1\<lparr>in_external_intr := False\<rparr>"
  obtain k0 where k0: "try_to_wake_up_threads ?e = Inr k0" "thread_tick k0 = Inr k1"
    using k1(1) by (auto simp: timer_interrupt_def)
  note r = try_to_wake_readies [OF k0(1)] and t = thread_tick_effect [OF k0(2)]
  have f: "thread_ticks k1 = thread_ticks k + 1" "cur k1 = cur k" "\<exists>ws. ready_list k1 = ready_list k @ ws"
    "yield_on_return k1 \<longleftrightarrow> TIME_SLICE \<le> thread_ticks k + 1" "idle_thread k1 = idle_thread k"
    using r t q(2) by (auto simp: readies_def same_sched_def quiet_def)
  show "cur k' = cur k \<and> thread_ticks k' = thread_ticks k + 1" if "thread_ticks k + 1 < TIME_SLICE"
  proof -
    have "\<not> TIME_SLICE \<le> thread_ticks k + 1" using that by simp
    then have "k' = ?k" using k1(2) f(4) by (simp add: Let_def)
    then show ?thesis using f by simp
  qed
  show "cur k' = t \<and> thread_ticks k' = 0 \<and> (\<exists>ws. ready_list k' = ts @ ws @ [cur k]) \<and> st k' (cur k) = THREAD_READY"
    if s: "TIME_SLICE \<le> thread_ticks k + 1" "cur k \<noteq> idle_thread k" "ready_list k = t # ts"
  proof -
    let ?y = "yielding (push [Set_Level (intr_on ?k)] (?k\<lparr>intr_on := False\<rparr>))"
    have "thread_yield ?k = Inr k'" using k1(2) f(4) s(1) by (simp add: Let_def)
    then have k': "k' = switched ?y" by (simp add: thread_yield_Inr)
    obtain ws where ws: "ready_list k1 = t # ts @ ws" using f(3) s(3) by auto
    have rl: "ready_list ?y = t # ts @ ws @ [cur k]" "cur ?y = cur k"
      using ws s(2) f(2,5) by (simp_all add: yielding_def push_def)
    have ch: "chosen ?y = t" by (simp only: chosen_def rl) simp
    have "sched i True k" using assms(1) by (simp add: inv_def)
    then have "t \<noteq> cur k" using sched_cur(3) s(3) by fastforce
    moreover have "\<not> dies ?y" by (simp add: dies_def yielding_def push_def)
    ultimately have "st k' (cur k) = st ?y (cur k)" unfolding k' using switched_st(1) [of ?y "cur k"] ch by simp
    moreover have "st ?y (cur k) = THREAD_READY" using f(2) by (simp add: yielding_def push_def)
    ultimately show ?thesis using ch rl by (simp add: k') 
  qed
qed

end
