(* ===== verification/Pintos_Threads_Properties.thy ===== *)
theory Pintos_Threads_Properties
  imports Pintos_Sleep Pintos_Wakeups Pintos_Progress
begin

text \<open>
  What holds in every state that the threads of \<open>Pintos_Threads\<close> reach after the start-up, whatever the
  clients call and whenever the timer interrupts. \<open>m\<close> is the page of the initial thread, \<open>i\<close> that of the
  idle thread, \<open>v\<close> the initial values of the clients' semaphores.
\<close>

section \<open>All invariants together\<close>

definition all_inv :: "ptr \<Rightarrow> kernel \<Rightarrow> bool" where
  "all_inv i k \<longleftrightarrow> inv i k \<and> \<not> in_external_intr k \<and> level_inv k \<and> wait_ok k \<and> sleep_ok k \<and>
     (\<forall>s. is_guard s \<longrightarrow> guard_ok s k)"

lemma all_inv_kstep: "all_inv i k \<Longrightarrow> kstep k k' \<Longrightarrow> all_inv i k'"
  unfolding all_inv_def
  by (metis inv_kstep level_kstep wait_kstep sleep_kstep guard_kstep)

lemma all_inv_reachable:
  assumes "m \<noteq> 0" "i \<noteq> 0" "m \<noteq> i" "reachable v m i k"
  shows "all_inv i k"
proof -
  obtain k0 where k0: "booted v m i = Inr k0" "kstep\<^sup>*\<^sup>* k0 k" using assms(4) by (auto simp: reachable_def)
  from k0(2) show ?thesis
  proof (induction rule: rtranclp_induct)
    case base
    show ?case
      using inv_booted [OF assms(1-3) k0(1)] level_booted [OF assms(1-3) k0(1)] wait_booted [OF assms(1-3) k0(1)]
        sleep_booted [OF assms(1-3) k0(1)] guard_booted [OF assms(1-3) k0(1)]
      by (simp add: all_inv_def)
  next
    case (step k k')
    then show ?case using all_inv_kstep by blast
  qed
qed

section \<open>Runs\<close>

text \<open>
  A run as a list of actions, to show that particular states are reached: an operation of the running
  thread, a call of a client, or a tick.
\<close>

datatype action = Run | Do call | Tick

fun act :: "action \<Rightarrow> kernel \<Rightarrow> kernel option" where
  "act Run k = (if code k (cur k) = [] then None else case step_op k of Inl e \<Rightarrow> None | Inr k' \<Rightarrow> Some k')"
| "act (Do c) k = (if code k (cur k) = [] then (case exec_call c k of Inl e \<Rightarrow> None | Inr k' \<Rightarrow> Some k') else None)"
| "act Tick k = (if intr_on k then (case intr_handler k of Inl e \<Rightarrow> None | Inr k' \<Rightarrow> Some k') else None)"

fun acts :: "action list \<Rightarrow> kernel \<Rightarrow> kernel option" where
  "acts [] k = Some k"
| "acts (a # as) k = (case act a k of None \<Rightarrow> None | Some k' \<Rightarrow> acts as k')"

lemma act_kstep: "act a k = Some k' \<Longrightarrow> (\<And>c. a = Do c \<Longrightarrow> client_call k c) \<Longrightarrow> kstep k k'"
  by (cases a) (auto split: if_splits sum.splits intro: kstep.intros)

lemma acts_ksteps:
  "acts as k = Some k' \<Longrightarrow> (\<And>c k. Do c \<in> set as \<Longrightarrow> client_call k c) \<Longrightarrow> kstep\<^sup>*\<^sup>* k k'"
proof (induction as arbitrary: k)
  case (Cons a as)
  obtain k1 where k1: "act a k = Some k1" "acts as k1 = Some k'" using Cons.prems(1) by (auto split: option.splits)
  have "kstep k k1" using act_kstep [OF k1(1)] Cons.prems(2) by simp
  moreover have "kstep\<^sup>*\<^sup>* k1 k'" using Cons.IH [OF k1(2)] Cons.prems(2) by simp
  ultimately show ?case by (rule converse_rtranclp_into_rtranclp)
qed simp

lemmas run_defs = step_op_def thread_current_def is_thread_def sema_down_def down_loop_def sema_up_def
  intr_set_level_def intr_enable_def kernel_defs Let_def thread_block_def schedule_def next_thread_to_run_def
  thread_schedule_tail_def thread_unblock_def idle_def idle_loop_def timer_sleep_def sleep_insert_def sema_init_def
  has_less_sleep_time_def

lemmas handler_defs = intr_handler_def timer_interrupt_def try_to_wake_up_threads_def sema_try_down_def thread_tick_def
  intr_yield_on_return_def TIME_SLICE_def

text \<open>The initial thread waits for the idle thread to have started, and then sleeps for one tick.\<close>

definition fall_asleep :: "action list" where
  "fall_asleep = [Run, Run, Run, Run, Run, Run, Run, Run, Run, Do (Timer_Sleep 1), Run, Run, Run, Run, Run]"

definition wake_up :: "action list" where
  "wake_up = fall_asleep @ [Tick, Run, Run, Run, Run, Run]"

lemma run_booted: "\<exists>k. booted v 4096 8192 = Inr k \<and> reachable v 4096 8192 k"
  using booted_state [of 4096 8192 v] by (auto simp: reachable_def)

lemma run_reachable:
  assumes "booted v m i = Inr k" "acts as k = Some k'" "\<And>c k. Do c \<in> set as \<Longrightarrow> client_call k c"
  shows "reachable v m i k'"
  using acts_ksteps [OF assms(2,3)] assms(1) by (auto simp: reachable_def)

lemma run_fall_asleep:
  "\<exists>k. reachable v 4096 8192 k \<and> intr_on k \<and> cur k = 4096 \<and> sleepers k = [4096] \<and> wake_at k 4096 = 1 \<and> ticks k = 0 \<and>
     count (semas k Sleeping_List_Sema) = 1 \<and> thread_ticks k = 0"
proof -
  obtain k where k: "booted v 4096 8192 = Inr k" using run_booted by blast
  have "\<exists>k'. acts fall_asleep k = Some k' \<and> intr_on k' \<and> cur k' = 4096 \<and> sleepers k' = [4096] \<and>
      wake_at k' 4096 = 1 \<and> ticks k' = 0 \<and> count (semas k' Sleeping_List_Sema) = 1 \<and> thread_ticks k' = 0"
    using booted_state [of 4096 8192 v] k by (auto simp: fall_asleep_def run_defs)
  then show ?thesis using run_reachable [OF k, of fall_asleep] by (auto simp: fall_asleep_def)
qed

lemma run_wake_up: "\<exists>k. reachable v 4096 8192 k \<and> Slept 4096 1 1 \<in> set (trace k)"
proof -
  obtain k where k: "booted v 4096 8192 = Inr k" using run_booted by blast
  have "\<not> (4::word_t) \<le> 1" by (simp add: word_le_nat_alt)
  then have "\<exists>k'. acts wake_up k = Some k' \<and> Slept 4096 1 1 \<in> set (trace k')"
    using booted_state [of 4096 8192 v] k by (auto simp: wake_up_def fall_asleep_def run_defs handler_defs)
  then show ?thesis using run_reachable [OF k, of wake_up] by (auto simp: wake_up_def fall_asleep_def)
qed

section \<open>The properties\<close>

text \<open>C36: in every reachable state the scheduler's data are consistent: the current thread is the only
  one that is running, it is not in the ready list, the ready list holds exactly the other threads that
  are ready to run, each once, and no thread of the list of all threads is dying or overwritten. A thread in the list of waiters of a semaphore is blocked, waits for
  no other semaphore and is in the list once.\<close>

theorem scheduler_consistent:
  assumes "m \<noteq> 0" "i \<noteq> 0" "m \<noteq> i" "reachable v m i k"
  shows "distinct (all_list k) \<and> cur k \<in> set (all_list k) \<and>
    (\<forall>t \<in> set (all_list k). is_thread k t \<and> status (threads k t) \<noteq> THREAD_DYING \<and>
       (status (threads k t) = THREAD_RUNNING \<longleftrightarrow> t = cur k)) \<and>
    distinct (ready_list k) \<and>
    set (ready_list k) = {t \<in> set (all_list k). status (threads k t) = THREAD_READY \<and> t \<noteq> idle_thread k} \<and>
    (\<forall>s. distinct (waiters (semas k s)) \<and> (\<forall>t \<in> set (waiters (semas k s)). t \<in> set (all_list k) \<and>
       status (threads k t) = THREAD_BLOCKED \<and> (\<forall>r. t \<in> set (waiters (semas k r)) \<longrightarrow> r = s)))"
proof -
  have I: "inv i k" using all_inv_reachable [OF assms] by (simp add: all_inv_def)
  then have S: "sched i True k" and W: "waits_ok i k" by (simp_all add: inv_def)
  have "\<forall>t \<in> set (all_list k). is_thread k t \<and> status (threads k t) \<noteq> THREAD_DYING \<and>
       (status (threads k t) = THREAD_RUNNING \<longleftrightarrow> t = cur k)"
    using inv_thread [OF I] schedD(8,9) [OF S] by simp
  moreover have "set (ready_list k) = {t \<in> set (all_list k). status (threads k t) = THREAD_READY \<and> t \<noteq> idle_thread k}"
    using schedD(10) [OF S] by blast
  moreover have "\<forall>s. distinct (waiters (semas k s)) \<and> (\<forall>t \<in> set (waiters (semas k s)). t \<in> set (all_list k) \<and>
       status (threads k t) = THREAD_BLOCKED \<and> (\<forall>r. t \<in> set (waiters (semas k r)) \<longrightarrow> r = s))"
  proof (intro allI conjI ballI impI)
    fix s show "distinct (waiters (semas k s))" using W by (simp add: waits_ok_def)
    fix t assume t: "t \<in> set (waiters (semas k s))"
    show "t \<in> set (all_list k)" "status (threads k t) = THREAD_BLOCKED" using waits_okD(1,3) [OF W t] .
    fix r assume "t \<in> set (waiters (semas k r))"
    then show "r = s" by (rule waits_okD(6) [OF W t])
  qed
  ultimately show ?thesis using schedD(1,5,6) [OF S] by simp
qed

theorem scheduler_consistent_witness:
  "\<exists>k. reachable (\<lambda>_. 0) 4096 8192 k \<and> distinct (all_list k) \<and> cur k \<in> set (all_list k) \<and> distinct (ready_list k)"
proof -
  obtain k where k: "reachable (\<lambda>_. 0) 4096 8192 k" using run_booted by blast
  then show ?thesis using scheduler_consistent [OF _ _ _ k] by auto
qed

text \<open>C5: locks exclude each other. In the history of every lock, acquisitions and releases alternate,
  each release is by the thread that acquired the lock last, and \<open>holder\<close> is that thread. The value of
  the lock's semaphore is 1 at most, and it is 0 while somebody holds the lock.\<close>

theorem lock_mutual_exclusion:
  assumes "m \<noteq> 0" "i \<noteq> 0" "m \<noteq> i" "reachable v m i k"
  shows "replay l (trace k) 0 = Some (holder k l) \<and>
    unat (count (semas k (Lock_Sema l))) \<le> (if holder k l = 0 then 1 else 0)"
proof -
  have g: "guard_ok (Lock_Sema l) k" and I: "inv i k"
    using all_inv_reachable [OF assms] by (simp_all add: all_inv_def is_guard_def)
  then have h: "replay l (trace k) 0 = Some (holder k l)" by (simp add: guard_ok_def history_ok_def)
  have S: "sched i True k" using I by (simp add: inv_def)
  note c = sched_cur(1) [OF S]
  have "int (unat (count (semas k (Lock_Sema l)))) + of_bool (held (Lock_Sema l) k) \<le> 1"
    using units_ge [of k "Lock_Sema l" "cur k"] good_pend [of "Lock_Sema l" "code k (cur k)"] g c
    unfolding guard_ok_def by fastforce
  then have "unat (count (semas k (Lock_Sema l))) \<le> (if holder k l = 0 then 1 else 0)"
    by (cases "holder k l = 0") (simp_all add: held_def unat_eq_0 flip: of_nat_le_iff [where ?'a = int])
  then show ?thesis using h by simp
qed

theorem lock_mutual_exclusion_witness:
  "\<exists>k. reachable (\<lambda>_. 0) 4096 8192 k \<and> replay Tid_Lock (trace k) 0 = Some (holder k Tid_Lock)"
proof -
  obtain k where k: "reachable (\<lambda>_. 0) 4096 8192 k" using run_booted by blast
  then show ?thesis using lock_mutual_exclusion [OF _ _ _ k, of Tid_Lock] by auto
qed

text \<open>C7: no wake-up is lost. A thread blocked in the loop of \<open>sema_down\<close> is in the semaphore's list of
  waiters, and while there are waiters, the value of the semaphore is at most the number of
  threads that are awake and about to test it.\<close>

theorem no_lost_wakeup:
  assumes "m \<noteq> 0" "i \<noteq> 0" "m \<noteq> i" "reachable v m i k"
  shows "(\<forall>t \<in> set (all_list k). \<forall>ps. status (threads k t) = THREAD_BLOCKED \<and> code k t = Down_Loop s # ps \<longrightarrow>
      t \<in> set (waiters (semas k s))) \<and>
    (waiters (semas k s) \<noteq> [] \<longrightarrow> unat (count (semas k s)) \<le>
      card {t \<in> set (all_list k). status (threads k t) \<noteq> THREAD_BLOCKED \<and> (\<exists>ps. code k t = Down_Loop s # ps)})"
  using all_inv_reachable [OF assms] by (simp_all add: all_inv_def wait_inv_def awake_def)

theorem no_lost_wakeup_witness:
  "\<exists>k. reachable (\<lambda>_. 0) 4096 8192 k \<and> (\<forall>t \<in> set (all_list k). \<forall>ps.
     status (threads k t) = THREAD_BLOCKED \<and> code k t = Down_Loop Idle_Started # ps \<longrightarrow>
     t \<in> set (waiters (semas k Idle_Started)))"
proof -
  obtain k where k: "reachable (\<lambda>_. 0) 4096 8192 k" using run_booted by blast
  then show ?thesis using no_lost_wakeup [OF _ _ _ k, of Idle_Started] by auto
qed

text \<open>C37: \<open>timer_sleep\<close> never returns early: when a thread returns from a sleep that was to end at tick
  \<open>e\<close>, the tick counter \<open>now\<close> has reached \<open>e\<close>.\<close>

theorem sleep_not_early:
  assumes "m \<noteq> 0" "i \<noteq> 0" "m \<noteq> i" "reachable v m i k" "Slept t e now \<in> set (trace k)"
  shows "e \<le> now"
  using all_inv_reachable [OF assms(1-4)] assms(5) by (auto simp: all_inv_def sleep_inv_def)

theorem sleep_not_early_witness:
  "\<exists>k. reachable (\<lambda>_. 0) 4096 8192 k \<and> Slept 4096 1 1 \<in> set (trace k) \<and> (1::int) \<le> 1"
proof -
  obtain k where k: "reachable (\<lambda>_. 0) 4096 8192 k" "Slept 4096 1 1 \<in> set (trace k)" using run_wake_up by blast
  have "(1::int) \<le> 1" by (rule sleep_not_early [OF _ _ _ k]) simp_all
  then show ?thesis using k by blast
qed

text \<open>A tick wakes exactly the threads whose time has come, unless the list of sleepers is in use:
  a thread of the list whose time has come leaves it, can pass its semaphore and is not blocked on
  it any more; every other thread of the list stays in it and cannot pass its semaphore. When the list
  is in use, the handler leaves it alone.\<close>

theorem tick_wakes_due:
  assumes "m \<noteq> 0" "i \<noteq> 0" "m \<noteq> i" "reachable v m i k" "intr_on k" "intr_handler k = Inr k'"
  shows "if count (semas k Sleeping_List_Sema) = 0 then sleepers k' = sleepers k
    else sleepers k' = filter (\<lambda>t. ticks k + 1 < wake_at k t) (sleepers k) \<and>
      (\<forall>t \<in> set (sleepers k). if wake_at k t \<le> ticks k + 1
         then count (semas k' (Sleep_Sema t)) = 1 \<and>
           \<not> (status (threads k' t) = THREAD_BLOCKED \<and> (\<exists>ps. code k' t = Down_Loop (Sleep_Sema t) # ps))
         else count (semas k' (Sleep_Sema t)) = 0)"
proof -
  have A: "all_inv i k" using all_inv_reachable [OF assms(1-4)] .
  have "kstep k k'" using assms(5,6) by (rule kstep.tick)
  then have A': "all_inv i k'" using all_inv_kstep [OF A] by blast
  have I: "inv i (entered k)" using inv_entered A assms(5) by (simp add: all_inv_def)
  obtain k1 where k1: "timer_interrupt (entered k) = Inr k1"
    "let k2 = k1\<lparr>in_external_intr := False\<rparr> in if yield_on_return k1 then thread_yield k2 = Inr k' else k' = k2"
    using assms(6) by (auto simp: intr_handler_Inr)
  have q: "code k1 = code (entered k)" using inv_timer_interrupt(2) [OF I k1(1)] by (simp add: quiet_def)
  have "sleep_ok k" using A by (simp add: all_inv_def)
  then have "sleep_ok (entered k)" by (rule sleep_same) (auto simp: same_sleep_def)
  note s = sleep_tick_state [OF this k1(1) q]
  have k': "sleepers k' = sleepers k1" "semas k' = semas k1"
    using k1(2) by (auto simp: Let_def thread_yield_Inr yielding_def push_def split: if_splits)
  have awake: "\<not> (status (threads k' t) = THREAD_BLOCKED \<and> (\<exists>ps. code k' t = Down_Loop (Sleep_Sema t) # ps))"
    if c: "count (semas k' (Sleep_Sema t)) = 1" and t: "t \<in> set (all_list k')" for t
  proof
    assume b: "status (threads k' t) = THREAD_BLOCKED \<and> (\<exists>ps. code k' t = Down_Loop (Sleep_Sema t) # ps)"
    have W: "wait_ok k'" using A' by (simp add: all_inv_def)
    have "t \<in> set (waiters (semas k' (Sleep_Sema t)))" using wait_invD(2) [OF W t] b by blast
    then have "waiters (semas k' (Sleep_Sema t)) \<noteq> []" by fastforce
    then have "1 \<le> card (awake (code k') (Sleep_Sema t) k')" using wait_invD(3) [OF W] c by fastforce
    then obtain u where "u \<in> awake (code k') (Sleep_Sema t) k'" by fastforce
    then have u: "u \<in> set (all_list k')" "st k' u \<noteq> THREAD_BLOCKED" "Down_Loop (Sleep_Sema t) \<in> set (code k' u)"
      by (auto simp: awake_def)
    then have "u = t" using wait_invD(1) [OF W u(1,3)] by simp
    then show False using u(2) b by simp
  qed
  have all: "set (sleepers k) \<subseteq> set (all_list k')"
  proof -
    have "all_list k' = all_list k"
      using k1(2) inv_timer_interrupt(2) [OF I k1(1)]
      by (auto simp: Let_def thread_yield_Inr yielding_def push_def quiet_def split: if_splits)
    then show ?thesis using A by (auto simp: all_inv_def sleep_inv_def)
  qed
  show ?thesis
  proof (cases "count (semas k Sleeping_List_Sema) = 0")
    case True
    then show ?thesis using s(4) k'(1) by simp
  next
    case False
    have "if wake_at k t \<le> ticks k + 1
         then count (semas k' (Sleep_Sema t)) = 1 \<and>
           \<not> (status (threads k' t) = THREAD_BLOCKED \<and> (\<exists>ps. code k' t = Down_Loop (Sleep_Sema t) # ps))
         else count (semas k' (Sleep_Sema t)) = 0" if t: "t \<in> set (sleepers k)" for t
      using s(3) [of t] False t awake [of t] all k'(2) by auto
    then show ?thesis using s(2) False k'(1) by simp
  qed
qed

theorem tick_wakes_due_witness:
  "\<exists>k k'. reachable (\<lambda>_. 0) 4096 8192 k \<and> intr_handler k = Inr k' \<and> sleepers k = [4096] \<and> sleepers k' = [] \<and>
     count (semas k' (Sleep_Sema 4096)) = 1"
proof -
  obtain k where k: "reachable (\<lambda>_. 0) 4096 8192 k" "intr_on k" "sleepers k = [4096]" "wake_at k 4096 = 1" "ticks k = 0"
    "count (semas k Sleeping_List_Sema) = 1" using run_fall_asleep by blast
  have "inv 8192 k \<and> \<not> in_external_intr k" using all_inv_reachable [OF _ _ _ k(1)] by (simp add: all_inv_def)
  then obtain k' where k': "intr_handler k = Inr k'" using intr_handler_runs k(2) by blast
  show ?thesis using tick_wakes_due [OF _ _ _ k(1,2) k'] k k' by (intro exI [of _ k] exI [of _ k']) simp
qed

text \<open>Scheduling is round robin with time slices of four ticks: before its slice is over, a tick
  leaves the running thread running; the tick that ends the slice runs the first thread of the ready list
  and puts the thread that ran at its end, behind those that were ready and those the tick woke.\<close>

theorem time_slice_round_robin:
  assumes "m \<noteq> 0" "i \<noteq> 0" "m \<noteq> i" "reachable v m i k" "intr_on k" "intr_handler k = Inr k'"
  shows "(thread_ticks k + 1 < TIME_SLICE \<longrightarrow> cur k' = cur k \<and> thread_ticks k' = thread_ticks k + 1) \<and>
    (TIME_SLICE \<le> thread_ticks k + 1 \<and> cur k \<noteq> idle_thread k \<and> ready_list k \<noteq> [] \<longrightarrow>
      cur k' = hd (ready_list k) \<and> thread_ticks k' = 0 \<and> status (threads k' (cur k)) = THREAD_READY \<and>
      (\<exists>woken. ready_list k' = tl (ready_list k) @ woken @ [cur k]))"
proof -
  have I: "inv i k" using all_inv_reachable [OF assms(1-4)] by (simp add: all_inv_def)
  note s = intr_handler_slices [OF I assms(5,6)]
  show ?thesis using s(1) s(2) [of "hd (ready_list k)" "tl (ready_list k)"] by auto
qed

theorem time_slice_round_robin_witness:
  "\<exists>k k'. reachable (\<lambda>_. 0) 4096 8192 k \<and> intr_handler k = Inr k' \<and> cur k' = cur k \<and> thread_ticks k' = 1"
proof -
  obtain k where k: "reachable (\<lambda>_. 0) 4096 8192 k" "intr_on k" "thread_ticks k = 0" using run_fall_asleep by blast
  have "inv 8192 k \<and> \<not> in_external_intr k" using all_inv_reachable [OF _ _ _ k(1)] by (simp add: all_inv_def)
  then obtain k' where k': "intr_handler k = Inr k'" using intr_handler_runs k(2) by blast
  have "thread_ticks k + 1 < TIME_SLICE" using k(3) by (simp add: TIME_SLICE_def word_less_nat_alt)
  then have "cur k' = cur k \<and> thread_ticks k' = 1" using time_slice_round_robin [OF _ _ _ k(1,2) k'] k(3) by auto
  then show ?thesis using k(1) k' by blast
qed

text \<open>C10: interrupts are never off for ever, and no assertion fails on the way: from every reachable state
  finitely many operations lead to one with interrupts on, in which the next tick can be handled.\<close>

theorem interrupts_come_back:
  assumes "m \<noteq> 0" "i \<noteq> 0" "m \<noteq> i" "reachable v m i k"
  shows "\<exists>n k' k''. run_ops n k = Inr k' \<and> reachable v m i k' \<and> intr_on k' \<and> intr_handler k' = Inr k''"
proof -
  have A: "all_inv i k" using all_inv_reachable [OF assms] .
  then obtain n k' where n: "run_ops n k = Inr k'" "kstep\<^sup>*\<^sup>* k k'" "intr_on k'" "inv i k'" "\<not> in_external_intr k'"
    using interrupts_return [of i k] by (auto simp: all_inv_def)
  moreover have "reachable v m i k'" using assms(4) n(2) by (auto simp: reachable_def)
  moreover obtain k'' where "intr_handler k' = Inr k''" using intr_handler_runs [OF n(4,3,5)] by blast
  ultimately show ?thesis by blast
qed

theorem interrupts_come_back_witness:
  "\<exists>k n k' k''. reachable (\<lambda>_. 0) 4096 8192 k \<and> run_ops n k = Inr k' \<and> intr_on k' \<and> intr_handler k' = Inr k''"
proof -
  obtain k where k: "reachable (\<lambda>_. 0) 4096 8192 k" using run_booted by blast
  then show ?thesis using interrupts_come_back [OF _ _ _ k] by auto
qed

end
