(* ===== verification/Pintos_Printf.thy ===== *)
theory Pintos_Printf
  imports Pintos_Stdlib
begin

text \<open>
  Formatted output, \<open>src/lib/stdio.c\<close>. The format and the strings it prints are in a byte memory of
  \<open>Pintos_String\<close>; the arguments are a list that \<open>va_arg\<close> takes values from, where \<open>int\<close>, \<open>long\<close>,
  \<open>size_t\<close> and pointers have 32 bits and \<open>long long\<close> and \<open>intmax_t\<close> have 64, and taking one of another
  size, or one too many, is an error. The function that the characters go to, with its \<open>aux\<close>, is a
  parameter \<open>output\<close> that changes a state \<open>s\<close>; the memory with the format is not the one it writes to.
\<close>

section \<open>Conversions\<close>

definition MINUS :: word_t where "MINUS = 1"
definition PLUS :: word_t where "PLUS = 2"
definition SPACE :: word_t where "SPACE = 4"
definition POUND :: word_t where "POUND = 8"
definition ZERO :: word_t where "ZERO = 16"
definition GROUP :: word_t where "GROUP = 32"

datatype int_type = CHAR_type | SHORT_type | INT_type | INTMAX_type | LONG_type | LONGLONG_type | PTRDIFFT_type | SIZET_type

record printf_conversion =
  flags :: word_t
  width :: int
  precision :: int
  type_of :: int_type

record integer_base =
  base :: nat
  digits :: "byte_t list"
  x_char :: byte_t
  group :: nat

definition ascii :: "string \<Rightarrow> byte_t list" where "ascii s = map of_char s"

definition base_d :: integer_base where
  "base_d = \<lparr>base = 10, digits = ascii ''0123456789'', x_char = 0, group = 3\<rparr>"
definition base_o :: integer_base where
  "base_o = \<lparr>base = 8, digits = ascii ''01234567'', x_char = 0, group = 3\<rparr>"
definition base_x :: integer_base where
  "base_x = \<lparr>base = 16, digits = ascii ''0123456789abcdef'', x_char = 0x78, group = 4\<rparr>"
definition base_X :: integer_base where
  "base_X = \<lparr>base = 16, digits = ascii ''0123456789ABCDEF'', x_char = 0x58, group = 4\<rparr>"

definition flag :: "printf_conversion \<Rightarrow> word_t \<Rightarrow> bool" where
  "flag c f \<longleftrightarrow> flags c AND f \<noteq> 0"

datatype arg = Word_Arg word_t | Long_Arg "64 word" | Pointer_Arg nat

fun va_word :: "arg list \<Rightarrow> c_error + (word_t \<times> arg list)" where
  "va_word (Word_Arg w # as) = Inr (w, as)"
| "va_word _ = Inl Indeterminate"

fun va_long :: "arg list \<Rightarrow> c_error + (64 word \<times> arg list)" where
  "va_long (Long_Arg w # as) = Inr (w, as)"
| "va_long _ = Inl Indeterminate"

fun va_pointer :: "arg list \<Rightarrow> c_error + (nat \<times> arg list)" where
  "va_pointer (Pointer_Arg p # as) = Inr (p, as)"
| "va_pointer _ = Inl Indeterminate"

section \<open>Parsing a conversion\<close>

function flags_loop :: "mem \<Rightarrow> nat \<Rightarrow> word_t \<Rightarrow> c_error + (nat \<times> word_t)" where
  "flags_loop m format fl =
    bindE (ld m format) (\<lambda>ch.
      if ch = 0x2d then flags_loop m (format + 1) (fl OR MINUS)
      else if ch = 0x2b then flags_loop m (format + 1) (fl OR PLUS)
      else if ch = 0x20 then flags_loop m (format + 1) (fl OR SPACE)
      else if ch = 0x23 then flags_loop m (format + 1) (fl OR POUND)
      else if ch = 0x30 then flags_loop m (format + 1) (fl OR ZERO)
      else if ch = 0x27 then flags_loop m (format + 1) (fl OR GROUP)
      else Inr (format, fl))"
  by pat_completeness auto
termination by (relation "measure (\<lambda>(m, p, f). length m - p)") (auto simp: ld_eq_Inr)

function number_loop :: "mem \<Rightarrow> nat \<Rightarrow> int \<Rightarrow> c_error + (nat \<times> int)" where
  "number_loop m format n =
    bindE (ld m format) (\<lambda>ch.
      if isdigit ch then
        bindE (int32 (n * 10)) (\<lambda>t. bindE (int32 (t + uint ch)) (\<lambda>t. number_loop m (format + 1) (t - 48)))
      else Inr (format, n))"
  by pat_completeness auto
termination by (relation "measure (\<lambda>(m, p, n). length m - p)") (auto simp: ld_eq_Inr)

declare flags_loop.simps [simp del] number_loop.simps [simp del]

definition parse_flags :: "mem \<Rightarrow> nat \<Rightarrow> c_error + (nat \<times> word_t)" where
  "parse_flags m format =
    bindE (flags_loop m format 0) (\<lambda>(format, fl).
      let fl = (if fl AND MINUS \<noteq> 0 then fl AND NOT ZERO else fl);
          fl = (if fl AND PLUS \<noteq> 0 then fl AND NOT SPACE else fl)
      in Inr (format, fl))"

definition parse_width :: "mem \<Rightarrow> nat \<Rightarrow> word_t \<Rightarrow> arg list \<Rightarrow> c_error + (nat \<times> word_t \<times> int \<times> arg list)" where
  "parse_width m format fl args =
    bindE (ld m format) (\<lambda>ch.
    bindE (if ch = 0x2a then bindE (va_word args) (\<lambda>(w, args). Inr (format + 1, sint w, args))
           else bindE (number_loop m format 0) (\<lambda>(format, n). Inr (format, n, args))) (\<lambda>(format, n, args).
      if n < 0 then bindE (int32 (- n)) (\<lambda>n. Inr (format, fl OR MINUS, n, args))
      else Inr (format, fl, n, args)))"

definition parse_precision :: "mem \<Rightarrow> nat \<Rightarrow> arg list \<Rightarrow> c_error + (nat \<times> int \<times> arg list)" where
  "parse_precision m format args =
    bindE (ld m format) (\<lambda>ch.
      if ch = 0x2e then
        bindE (ld m (format + 1)) (\<lambda>ch.
        bindE (if ch = 0x2a then bindE (va_word args) (\<lambda>(w, args). Inr (format + 2, sint w, args))
               else bindE (number_loop m (format + 1) 0) (\<lambda>(format, n). Inr (format, n, args))) (\<lambda>(format, n, args).
          Inr (format, if n < 0 then - 1 else n, args)))
      else Inr (format, - 1, args))"

definition parse_type :: "mem \<Rightarrow> nat \<Rightarrow> c_error + (nat \<times> int_type)" where
  "parse_type m format =
    bindE (ld m format) (\<lambda>ch.
      if ch = 0x68 then bindE (ld m (format + 1)) (\<lambda>ch.
        Inr (if ch = 0x68 then (format + 2, CHAR_type) else (format + 1, SHORT_type)))
      else if ch = 0x6a then Inr (format + 1, INTMAX_type)
      else if ch = 0x6c then bindE (ld m (format + 1)) (\<lambda>ch.
        Inr (if ch = 0x6c then (format + 2, LONGLONG_type) else (format + 1, LONG_type)))
      else if ch = 0x74 then Inr (format + 1, PTRDIFFT_type)
      else if ch = 0x7a then Inr (format + 1, SIZET_type)
      else Inr (format, INT_type))"

definition parse_conversion :: "mem \<Rightarrow> nat \<Rightarrow> arg list \<Rightarrow> c_error + (nat \<times> printf_conversion \<times> arg list)" where
  "parse_conversion m format args =
    bindE (parse_flags m format) (\<lambda>(format, fl).
    bindE (parse_width m format fl args) (\<lambda>(format, fl, w, args).
    bindE (parse_precision m format args) (\<lambda>(format, p, args).
    let fl = (if p \<ge> 0 then fl AND NOT ZERO else fl) in
    bindE (parse_type m format) (\<lambda>(format, t).
      Inr (format, \<lparr>flags = fl, width = w, precision = p, type_of = t\<rparr>, args)))))"

section \<open>Formatting\<close>

type_synonym 's out = "byte_t \<Rightarrow> 's \<Rightarrow> c_error + 's"

fun output_dup :: "byte_t \<Rightarrow> nat \<Rightarrow> 's out \<Rightarrow> 's \<Rightarrow> c_error + 's" where
  "output_dup ch 0 output s = Inr s"
| "output_dup ch (Suc cnt) output s = bindE (output ch s) (output_dup ch cnt output)"

text \<open>The buffer of 64 characters in \<open>format_integer\<close>, as the characters written to it so far.\<close>

definition put_char :: "byte_t \<Rightarrow> byte_t list \<Rightarrow> c_error + byte_t list" where
  "put_char ch buf = (if length buf < 64 then Inr (buf @ [ch]) else Inl OutOfBounds)"

lemma put_char_Inr: "put_char ch buf = Inr buf' \<longleftrightarrow> length buf < 64 \<and> buf' = buf @ [ch]"
  by (auto simp: put_char_def)

function digit_loop :: "integer_base \<Rightarrow> bool \<Rightarrow> nat \<Rightarrow> nat \<Rightarrow> byte_t list \<Rightarrow> c_error + byte_t list" where
  "digit_loop b grouped v digit_cnt buf =
    (if v > 0 then
       bindE (if grouped \<and> digit_cnt > 0 \<and> digit_cnt mod group b = 0 then put_char 0x2c buf else Inr buf) (\<lambda>buf.
       bindE (rd (digits b) (v mod base b)) (\<lambda>ch.
       bindE (put_char ch buf) (\<lambda>buf. digit_loop b grouped (v div base b) (digit_cnt + 1) buf)))
     else Inr buf)"
  by pat_completeness auto
termination
  by (relation "measure (\<lambda>(b, g, v, n, buf). 64 - length buf)") (auto simp: put_char_Inr split: if_splits)

function precision_loop :: "int \<Rightarrow> byte_t list \<Rightarrow> c_error + byte_t list" where
  "precision_loop p buf =
    (if int (length buf) < p \<and> length buf < 63 then bindE (put_char 0x30 buf) (precision_loop p) else Inr buf)"
  by pat_completeness auto
termination by (relation "measure (\<lambda>(p, buf). 64 - length buf)") (auto simp: put_char_Inr)

declare digit_loop.simps [simp del] precision_loop.simps [simp del]

definition sign_char :: "bool \<Rightarrow> bool \<Rightarrow> printf_conversion \<Rightarrow> byte_t" where
  "sign_char is_signed negative c =
    (if \<not> is_signed then 0
     else if flag c PLUS then if negative then 0x2d else 0x2b
     else if flag c SPACE then if negative then 0x2d else 0x20
     else if negative then 0x2d else 0)"

text \<open>The characters of the buffer are output from the last to the first.\<close>

fun output_buf :: "byte_t list \<Rightarrow> 's out \<Rightarrow> 's \<Rightarrow> c_error + 's" where
  "output_buf [] output s = Inr s"
| "output_buf (ch # chs) output s = bindE (output ch s) (output_buf chs output)"

definition format_integer :: "nat \<Rightarrow> bool \<Rightarrow> bool \<Rightarrow> integer_base \<Rightarrow> printf_conversion \<Rightarrow> 's out \<Rightarrow> 's \<Rightarrow> c_error + 's" where
  "format_integer v is_signed negative b c output s =
    (let sign = sign_char is_signed negative c;
         x = (if flag c POUND \<and> v \<noteq> 0 then x_char b else 0) in
     bindE (digit_loop b (flag c GROUP) v 0 []) (\<lambda>buf.
     bindE (precision_loop (if precision c < 0 then 1 else precision c) buf) (\<lambda>buf.
     bindE (if flag c POUND \<and> base b = 8 \<and> (buf = [] \<or> List.last buf \<noteq> 0x30) then put_char 0x30 buf else Inr buf) (\<lambda>buf.
     let pad_cnt = nat (width c - int (length buf) - (if x \<noteq> 0 then 2 else 0) - (if sign \<noteq> 0 then 1 else 0)) in
     bindE (if \<not> flag c (MINUS OR ZERO) then output_dup 0x20 pad_cnt output s else Inr s) (\<lambda>s.
     bindE (if sign \<noteq> 0 then output sign s else Inr s) (\<lambda>s.
     bindE (if x \<noteq> 0 then bindE (output 0x30 s) (output x) else Inr s) (\<lambda>s.
     bindE (if flag c ZERO then output_dup 0x30 pad_cnt output s else Inr s) (\<lambda>s.
     bindE (output_buf (rev buf) output s) (\<lambda>s.
       if flag c MINUS then output_dup 0x20 pad_cnt output s else Inr s)))))))))"

fun string_loop :: "mem \<Rightarrow> nat \<Rightarrow> nat \<Rightarrow> 's out \<Rightarrow> 's \<Rightarrow> c_error + 's" where
  "string_loop m string 0 output s = Inr s"
| "string_loop m string (Suc n) output s =
    bindE (ld m string) (\<lambda>ch. bindE (output ch s) (string_loop m (string + 1) n output))"

definition format_string :: "mem \<Rightarrow> nat \<Rightarrow> nat \<Rightarrow> printf_conversion \<Rightarrow> 's out \<Rightarrow> 's \<Rightarrow> c_error + 's" where
  "format_string m string len c output s =
    (let pad = nat (width c - int len) in
     bindE (if width c > int len \<and> \<not> flag c MINUS then output_dup 0x20 pad output s else Inr s) (\<lambda>s.
     bindE (string_loop m string len output s) (\<lambda>s.
       if width c > int len \<and> flag c MINUS then output_dup 0x20 pad output s else Inr s)))"

section \<open>Arguments by type\<close>

definition SIZE_MAX_int :: int where "SIZE_MAX_int = 4294967295"

definition signed_arg :: "int_type \<Rightarrow> arg list \<Rightarrow> c_error + (int \<times> arg list)" where
  "signed_arg t args =
    (case t of
       CHAR_type \<Rightarrow> bindE (va_word args) (\<lambda>(w, args). Inr (sint (ucast w :: 8 word), args))
     | SHORT_type \<Rightarrow> bindE (va_word args) (\<lambda>(w, args). Inr (sint (ucast w :: 16 word), args))
     | INT_type \<Rightarrow> bindE (va_word args) (\<lambda>(w, args). Inr (sint w, args))
     | INTMAX_type \<Rightarrow> bindE (va_long args) (\<lambda>(w, args). Inr (sint w, args))
     | LONG_type \<Rightarrow> bindE (va_word args) (\<lambda>(w, args). Inr (sint w, args))
     | LONGLONG_type \<Rightarrow> bindE (va_long args) (\<lambda>(w, args). Inr (sint w, args))
     | PTRDIFFT_type \<Rightarrow> bindE (va_word args) (\<lambda>(w, args). Inr (sint w, args))
     | SIZET_type \<Rightarrow> bindE (va_word args) (\<lambda>(w, args).
         let v = uint w in Inr (if v > SIZE_MAX_int div 2 then v - SIZE_MAX_int - 1 else v, args)))"

definition unsigned_arg :: "int_type \<Rightarrow> arg list \<Rightarrow> c_error + (nat \<times> arg list)" where
  "unsigned_arg t args =
    (case t of
       CHAR_type \<Rightarrow> bindE (va_word args) (\<lambda>(w, args). Inr (unat (ucast w :: 8 word), args))
     | SHORT_type \<Rightarrow> bindE (va_word args) (\<lambda>(w, args). Inr (unat (ucast w :: 16 word), args))
     | INT_type \<Rightarrow> bindE (va_word args) (\<lambda>(w, args). Inr (unat w, args))
     | INTMAX_type \<Rightarrow> bindE (va_long args) (\<lambda>(w, args). Inr (unat w, args))
     | LONG_type \<Rightarrow> bindE (va_word args) (\<lambda>(w, args). Inr (unat w, args))
     | LONGLONG_type \<Rightarrow> bindE (va_long args) (\<lambda>(w, args). Inr (unat w, args))
     | PTRDIFFT_type \<Rightarrow> bindE (va_word args) (\<lambda>(w, args). Inr (unat ((scast w :: 64 word) AND 0xffffffff), args))
     | SIZET_type \<Rightarrow> bindE (va_word args) (\<lambda>(w, args). Inr (unat w, args)))"

text \<open>The absolute value of the least \<open>intmax_t\<close> does not fit, and negating it is undefined.\<close>

definition int64 :: "int \<Rightarrow> c_error + int" where
  "int64 n = bindE (guardE SignedOverflow (- (2 ^ 63) \<le> n \<and> n < 2 ^ 63)) (\<lambda>_. Inr n)"

section \<open>\<open>__vprintf\<close>\<close>

text \<open>A string literal, as a memory of its own, at address 1.\<close>

definition literal :: "byte_t list \<Rightarrow> mem" where "literal s = 0 # s @ [0]"

definition null_text :: mem where "null_text = literal (ascii ''(null)'')"

definition unsupported :: "byte_t \<Rightarrow> bool" where
  "unsupported ch \<longleftrightarrow> ch \<in> {0x66, 0x65, 0x45, 0x67, 0x47, 0x6e}"

definition convertible :: "byte_t \<Rightarrow> bool" where
  "convertible ch \<longleftrightarrow> ch \<in> {0x64, 0x69, 0x6f, 0x75, 0x78, 0x58, 0x63, 0x73, 0x70}"

definition convert :: "mem \<Rightarrow> byte_t \<Rightarrow> printf_conversion \<Rightarrow> arg list \<Rightarrow> 's out \<Rightarrow> 's \<Rightarrow> c_error + (arg list \<times> 's)" where
  "convert m ch c args output s =
    (if ch \<in> {0x64, 0x69} then
       bindE (signed_arg (type_of c) args) (\<lambda>(v, args).
       bindE (if v < 0 then int64 (- v) else Inr v) (\<lambda>a.
       bindE (format_integer (nat a) True (v < 0) base_d c output s) (\<lambda>s. Inr (args, s))))
     else if ch \<in> {0x6f, 0x75, 0x78, 0x58} then
       bindE (unsigned_arg (type_of c) args) (\<lambda>(v, args).
       bindE (format_integer v False False
           (if ch = 0x6f then base_o else if ch = 0x75 then base_d else if ch = 0x78 then base_x else base_X) c output s)
         (\<lambda>s. Inr (args, s)))
     else if ch = 0x63 then
       bindE (va_word args) (\<lambda>(w, args).
       bindE (format_string [0, ucast w] 1 1 c output s) (\<lambda>s. Inr (args, s)))
     else if ch = 0x73 then
       bindE (va_pointer args) (\<lambda>(p, args).
         let (m, p) = (if p = 0 then (null_text, 1) else (m, p)) in
         bindE (strnlen p (if precision c = - 1 then nat SIZE_MAX_int else nat (precision c)) m) (\<lambda>n.
         bindE (format_string m p n c output s) (\<lambda>s. Inr (args, s))))
     else
       bindE (va_pointer args) (\<lambda>(p, args).
       bindE (format_integer p False False base_x (c\<lparr>flags := POUND\<rparr>) output s) (\<lambda>s. Inr (args, s))))"

lemma flags_loop_bound: "flags_loop m f fl = Inr (f', fl') \<Longrightarrow> f \<le> f'"
proof (induction "length m - f" arbitrary: f fl rule: less_induct)
  case less
  obtain ch where ch: "ld m f = Inr ch" using less.prems by (subst (asm) flags_loop.simps) auto
  then have l: "length m - Suc f < length m - f" by (auto simp: ld_eq_Inr)
  show ?case using less.prems ch less.hyps [OF l]
    by (subst (asm) flags_loop.simps) (auto split: if_splits dest!: Suc_leD)
qed

lemma number_loop_bound: "number_loop m f n = Inr (f', n') \<Longrightarrow> f \<le> f'"
proof (induction "length m - f" arbitrary: f n rule: less_induct)
  case less
  obtain ch where ch: "ld m f = Inr ch" using less.prems by (subst (asm) number_loop.simps) auto
  then have l: "length m - Suc f < length m - f" by (auto simp: ld_eq_Inr)
  show ?case using less.prems ch less.hyps [OF l]
    by (subst (asm) number_loop.simps) (auto split: if_splits dest!: Suc_leD)
qed

lemma parse_conversion_bound:
  assumes "parse_conversion m f args = Inr (f', c, args')"
  shows "f \<le> f'"
proof -
  obtain f1 fl1 f2 fl2 w2 a2 f3 p3 a3 t where p: "parse_flags m f = Inr (f1, fl1)"
    "parse_width m f1 fl1 args = Inr (f2, fl2, w2, a2)" "parse_precision m f2 a2 = Inr (f3, p3, a3)"
    "parse_type m f3 = Inr (f', t)"
    using assms by (auto simp: parse_conversion_def Let_def)
  have "f \<le> f1" using p(1) by (auto simp: parse_flags_def Let_def dest: flags_loop_bound)
  also have "\<dots> \<le> f2" using p(2)
    by (auto simp: parse_width_def split: if_splits dest: number_loop_bound)
  also have "\<dots> \<le> f3" using p(3)
    by (auto simp: parse_precision_def split: if_splits dest: number_loop_bound)
  also have "\<dots> \<le> f'" using p(4) by (auto simp: parse_type_def split: if_splits)
  finally show ?thesis .
qed

text \<open>
  The messages about conversions that do not exist are themselves printed by \<open>__printf\<close>; the formats
  of these messages have only conversions that do exist, so a depth of 1 is enough. A format that ends
  inside a conversion makes the loop step over the null byte.
\<close>

function vprintf_loop :: "nat \<Rightarrow> mem \<Rightarrow> nat \<Rightarrow> arg list \<Rightarrow> 's out \<Rightarrow> 's \<Rightarrow> c_error + 's" where
  "vprintf_loop d m format args output s =
    bindE (ld m format) (\<lambda>ch.
      if ch = 0 then Inr s
      else if ch \<noteq> 0x25 then bindE (output ch s) (vprintf_loop d m (format + 1) args output)
      else bindE (ld m (format + 1)) (\<lambda>ch.
        if ch = 0x25 then bindE (output 0x25 s) (vprintf_loop d m (format + 2) args output)
        else bindE (parse_conversion m (format + 1) args) (\<lambda>(format', c, args).
          bindE (ld m format') (\<lambda>ch.
            if convertible ch then
              bindE (convert m ch c args output s) (\<lambda>(args, s). vprintf_loop d m (format' + 1) args output s)
            else bindE (case d of 0 \<Rightarrow> Inl NoFuel
                | Suc d' \<Rightarrow> vprintf_loop d' (literal (if unsupported ch then ascii ''<<no %%%c in kernel>>''
                      else ascii ''<<no %%%c conversion>>'')) 1 [Word_Arg (ucast ch)] output s) (\<lambda>s.
              vprintf_loop d m (format' + 1) args output s)))))"
  by pat_completeness auto
termination
  by (relation "measures [\<lambda>(d, m, p, a, out, s). d, \<lambda>(d, m, p, a, out, s). length m - p]")
    (auto simp: ld_eq_Inr dest!: parse_conversion_bound)

declare vprintf_loop.simps [simp del]

definition vprintf :: "mem \<Rightarrow> nat \<Rightarrow> arg list \<Rightarrow> 's out \<Rightarrow> 's \<Rightarrow> c_error + 's" where
  "vprintf m format args output s = vprintf_loop 1 m format args output s"

section \<open>Output to a buffer\<close>

record vsnprintf_aux =
  out_p :: nat
  out_length :: int
  max_length :: int
  buffer_mem :: mem

definition vsnprintf_helper :: "vsnprintf_aux out" where
  "vsnprintf_helper ch aux =
    bindE (int32 (out_length aux + 1)) (\<lambda>n.
      if out_length aux < max_length aux then
        bindE (st (buffer_mem aux) (out_p aux) ch) (\<lambda>bm.
          Inr (aux\<lparr>out_length := n, out_p := out_p aux + 1, buffer_mem := bm\<rparr>))
      else Inr (aux\<lparr>out_length := n\<rparr>))"

definition vsnprintf :: "mem \<Rightarrow> nat \<Rightarrow> nat \<Rightarrow> nat \<Rightarrow> arg list \<Rightarrow> mem \<Rightarrow> c_error + (int \<times> mem)" where
  "vsnprintf m buffer buf_size format args bm =
    (let max_len = (if buf_size > 0 then sint (of_nat (buf_size - 1) :: word_t) else 0) in
     bindE (vprintf m format args vsnprintf_helper
         \<lparr>out_p = buffer, out_length = 0, max_length = max_len, buffer_mem = bm\<rparr>) (\<lambda>aux.
     bindE (if buf_size > 0 then st (buffer_mem aux) (out_p aux) 0 else Inr (buffer_mem aux)) (\<lambda>bm.
       Inr (out_length aux, bm))))"

definition snprintf :: "mem \<Rightarrow> nat \<Rightarrow> nat \<Rightarrow> nat \<Rightarrow> arg list \<Rightarrow> mem \<Rightarrow> c_error + (int \<times> mem)" where
  "snprintf m buffer buf_size format args bm = vsnprintf m buffer buf_size format args bm"

section \<open>Output to the console\<close>

text \<open>\<open>printf\<close> with a literal format; \<open>console\<close> is what \<open>vprintf\<close> of the console library writes with.\<close>

definition printf :: "'s out \<Rightarrow> string \<Rightarrow> arg list \<Rightarrow> 's \<Rightarrow> c_error + 's" where
  "printf console fmt args s = vprintf (literal (ascii fmt)) 1 args console s"

text \<open>The text between the bars shows printable characters.\<close>

definition isprint :: "byte_t \<Rightarrow> bool" where "isprint c = (32 \<le> c \<and> c < 127)"

fun repeat_print :: "nat \<Rightarrow> 's out \<Rightarrow> string \<Rightarrow> 's \<Rightarrow> c_error + 's" where
  "repeat_print 0 console t s = Inr s"
| "repeat_print (Suc n) console t s = bindE (printf console t [] s) (repeat_print n console t)"

fun hex_bytes :: "byte_t list \<Rightarrow> nat \<Rightarrow> 's out \<Rightarrow> 's \<Rightarrow> c_error + 's" where
  "hex_bytes [] i console s = Inr s"
| "hex_bytes (b # bs) i console s =
    bindE (printf console ''%02hhx%c'' [Word_Arg (ucast b), Word_Arg (if i = 16 div 2 - 1 then 0x2d else 0x20)] s)
      (hex_bytes bs (i + 1) console)"

fun ascii_bytes :: "byte_t list \<Rightarrow> 's out \<Rightarrow> 's \<Rightarrow> c_error + 's" where
  "ascii_bytes [] console s = Inr s"
| "ascii_bytes (b # bs) console s =
    bindE (printf console ''%c'' [Word_Arg (if isprint b then ucast b else 0x2e)] s) (ascii_bytes bs console)"

text \<open>One line: the bytes at positions \<open>start\<close> to \<open>end\<close>, of sixteen.\<close>

definition hex_line :: "nat \<Rightarrow> byte_t list \<Rightarrow> nat \<Rightarrow> bool \<Rightarrow> 's out \<Rightarrow> 's \<Rightarrow> c_error + 's" where
  "hex_line ofs bs start ascii_too console s =
    (let stop = start + length bs in
     bindE (printf console ''%08jx  '' [Long_Arg (of_nat (ofs div 16 * 16))] s) (\<lambda>s.
     bindE (repeat_print start console ''   '' s) (\<lambda>s.
     bindE (hex_bytes bs start console s) (\<lambda>s.
     bindE (if ascii_too then
              bindE (repeat_print (16 - stop) console ''   '' s) (\<lambda>s.
              bindE (printf console ''|'' [] s) (\<lambda>s.
              bindE (repeat_print start console '' '' s) (\<lambda>s.
              bindE (ascii_bytes bs console s) (\<lambda>s.
              bindE (repeat_print (16 - stop) console '' '' s) (printf console ''|'' [])))))
            else Inr s) (vprintf (literal [10]) 1 [] console)))))"

function hex_dump :: "nat \<Rightarrow> byte_t list \<Rightarrow> bool \<Rightarrow> 's out \<Rightarrow> 's \<Rightarrow> c_error + 's" where
  "hex_dump ofs buf ascii_too console s =
    (if buf = [] then Inr s
     else let start = ofs mod 16; n = min (16 - start) (length buf) in
       bindE (hex_line ofs (take n buf) start ascii_too console s)
         (hex_dump ((ofs + n) mod 2 ^ 32) (drop n buf) ascii_too console))"
  by pat_completeness auto
termination by (relation "measure (\<lambda>(ofs, buf, a, c, s). length buf)") (auto simp: Let_def min_def)

declare hex_dump.simps [simp del]

fun factor_loop :: "nat \<Rightarrow> string list \<Rightarrow> nat \<times> string" where
  "factor_loop n [] = (n, [])"
| "factor_loop n [f] = (n, f)"
| "factor_loop n (f # g # fs) = (if n \<ge> 1024 then factor_loop (n div 1024) (g # fs) else (n, f))"

definition print_human_readable_size :: "64 word \<Rightarrow> 's out \<Rightarrow> 's \<Rightarrow> c_error + 's" where
  "print_human_readable_size sz console s =
    (if sz = 1 then printf console ''1 byte'' [] s
     else let (n, f) = factor_loop (unat sz) [''bytes'', ''kB'', ''MB'', ''GB'', ''TB''];
              fmt = literal (ascii ''%llu %s'')
       in vprintf (fmt @ ascii f @ [0]) 1 [Long_Arg (of_nat n), Pointer_Arg (length fmt)] console s)"

end
