(* ===== verification/Pintos_Printf_Properties.thy ===== *)
theory Pintos_Printf_Properties
  imports Pintos_Printf
begin

text \<open>
  Lemmas and properties of formatted output: the text of an output for any output function, \<open>snprintf\<close> keeps
  to its buffer, an integer conversion keeps to its buffer of 64 characters, and a printed number is
  read back by \<open>atoi\<close>.
\<close>

section \<open>The text of an output\<close>

definition text_out :: "byte_t list out" where
  "text_out ch s = Inr (s @ [ch])"

lemma text_out_Inr: "text_out ch s = Inr r \<longleftrightarrow> r = s @ [ch]"
  by (auto simp: text_out_def)

text \<open>\<open>A\<close> appends a text to a list, and \<open>B\<close> outputs the characters of the same text.\<close>

definition emits :: "'s out \<Rightarrow> (byte_t list \<Rightarrow> c_error + byte_t list) \<Rightarrow> ('s \<Rightarrow> c_error + 's) \<Rightarrow> bool" where
  "emits output A B \<longleftrightarrow>
    (\<forall>a r. A a = Inr r \<longrightarrow> (\<exists>t. r = a @ t \<and> (\<forall>s. B s = output_buf t output s)))"

lemma output_buf_fun:
  "output_buf [] output = Inr"
  "output_buf (ch # chs) output = (\<lambda>s. bindE (output ch s) (output_buf chs output))"
  by auto

lemma output_buf_append:
  "output_buf (t @ u) output s = bindE (output_buf t output s) (output_buf u output)"
proof (induction t arbitrary: s)
  case (Cons ch t)
  then show ?case by (cases "output ch s") auto
qed simp

lemma emits_Inr [intro!]: "emits output (\<lambda>s. Inr s) (\<lambda>s. Inr s)" "emits output Inr Inr"
  by (auto simp: emits_def)

lemma emits_out [intro!]: "emits output (text_out ch) (output ch)"
  by (auto simp: emits_def text_out_def output_buf_fun)

lemma emits_bind:
  assumes "emits output A B" "emits output A' B'"
  shows "emits output (\<lambda>s. bindE (A s) A') (\<lambda>s. bindE (B s) B')"
  unfolding emits_def
proof (intro allI impI)
  fix a r assume "bindE (A a) A' = Inr r"
  then obtain x where x: "A a = Inr x" "A' x = Inr r" by auto
  obtain t where t: "x = a @ t" "\<And>s. B s = output_buf t output s" using assms(1) x(1) by (auto simp: emits_def)
  obtain u where u: "r = x @ u" "\<And>s. B' s = output_buf u output s" using assms(2) x(2) by (auto simp: emits_def)
  have "B' = output_buf u output" using u(2) by auto
  then show "\<exists>t. r = a @ t \<and> (\<forall>s. bindE (B s) B' = output_buf t output s)"
    using t u(1) by (intro exI [of _ "t @ u"]) (simp add: output_buf_append)
qed

lemma emits_pure:
  assumes "\<And>x. m = Inr x \<Longrightarrow> emits output (A x) (B x)"
  shows "emits output (\<lambda>s. bindE m (\<lambda>x. A x s)) (\<lambda>s. bindE m (\<lambda>x. B x s))"
  using assms by (cases m) (auto simp: emits_def)

lemma emits_if:
  assumes "emits output A B" "emits output A' B'"
  shows "emits output (\<lambda>s. if c then A s else A' s) (\<lambda>s. if c then B s else B' s)"
  using assms by (cases c) (auto simp: emits_def)

lemma emits_dup [intro!]: "emits output (output_dup ch n text_out) (output_dup ch n output)"
proof (induction n)
  case 0 then show ?case by (simp add: emits_Inr(2) emits_def)
next
  case (Suc n)
  have "output_dup ch (Suc n) text_out = (\<lambda>s. bindE (text_out ch s) (output_dup ch n text_out))" by auto
  moreover have "output_dup ch (Suc n) output = (\<lambda>s. bindE (output ch s) (output_dup ch n output))" by auto
  ultimately show ?case using emits_bind [OF emits_out Suc.IH] by simp
qed

lemma emits_buf [intro!]: "emits output (output_buf t text_out) (output_buf t output)"
proof -
  have "output_buf t text_out a = Inr (a @ t)" for a
    by (induction t arbitrary: a) (auto simp: text_out_def)
  then show ?thesis by (auto simp: emits_def)
qed

lemma emits_string [intro!]: "emits output (string_loop m p n text_out) (string_loop m p n output)"
proof (induction n arbitrary: p)
  case 0 then show ?case by (simp add: emits_def)
next
  case (Suc n)
  have "emits output (\<lambda>s. bindE (ld m p) (\<lambda>ch. bindE (text_out ch s) (string_loop m (p + 1) n text_out)))
      (\<lambda>s. bindE (ld m p) (\<lambda>ch. bindE (output ch s) (string_loop m (p + 1) n output)))"
    by (intro emits_pure emits_bind emits_out Suc.IH)
  then show ?case by (simp add: emits_def)
qed

lemmas emits_intros = emits_Inr emits_out emits_dup emits_buf emits_string emits_bind emits_pure emits_if

lemma emits_format_string:
  "emits output (format_string m p n c text_out) (format_string m p n c output)"
  unfolding format_string_def [abs_def] Let_def by (intro emits_intros)

lemma emits_format_integer:
  "emits output (format_integer v sg neg b c text_out) (format_integer v sg neg b c output)"
  unfolding format_integer_def [abs_def] Let_def by (intro emits_intros)

text \<open>The same for a conversion, which also returns the arguments that are left.\<close>

definition emits_args :: "'s out \<Rightarrow> (byte_t list \<Rightarrow> c_error + (arg list \<times> byte_t list)) \<Rightarrow>
    ('s \<Rightarrow> c_error + (arg list \<times> 's)) \<Rightarrow> bool" where
  "emits_args output A B \<longleftrightarrow>
    (\<forall>a args r. A a = Inr (args, r) \<longrightarrow>
      (\<exists>t. r = a @ t \<and> (\<forall>s. B s = bindE (output_buf t output s) (\<lambda>s. Inr (args, s)))))"

lemma emits_args_bind:
  "emits output A B \<Longrightarrow>
   emits_args output (\<lambda>s. bindE (A s) (\<lambda>s. Inr (args, s))) (\<lambda>s. bindE (B s) (\<lambda>s. Inr (args, s)))"
  by (fastforce simp: emits_def emits_args_def)

lemma emits_args_pure:
  assumes "\<And>x. m = Inr x \<Longrightarrow> emits_args output (A x) (B x)"
  shows "emits_args output (\<lambda>s. bindE m (\<lambda>x. A x s)) (\<lambda>s. bindE m (\<lambda>x. B x s))"
  using assms by (cases m) (auto simp: emits_args_def)

lemma emits_args_if:
  assumes "c \<Longrightarrow> emits_args output A B" "\<not> c \<Longrightarrow> emits_args output A' B'"
  shows "emits_args output (\<lambda>s. if c then A s else A' s) (\<lambda>s. if c then B s else B' s)"
  using assms by (cases c) auto

lemma emits_args_pair:
  assumes "\<And>x y. p = (x, y) \<Longrightarrow> emits_args output (A x y) (B x y)"
  shows "emits_args output (\<lambda>s. case p of (x, y) \<Rightarrow> A x y s) (\<lambda>s. case p of (x, y) \<Rightarrow> B x y s)"
  using assms by (cases p) auto

lemma emits_convert: "emits_args output (convert m ch c args text_out) (convert m ch c args output)"
  unfolding convert_def [abs_def] Let_def
  by (intro emits_args_if emits_args_pure emits_args_pair emits_args_bind emits_format_integer emits_format_string)

text \<open>One step of the loop that has output text and goes on.\<close>

lemma text_step:
  assumes "\<And>s. B s = output_buf t output s" "\<exists>u. r = (a @ t) @ u \<and> (\<forall>s. B' s = output_buf u output s)"
    and "\<And>s. C s = bindE (B s) B'"
  shows "\<exists>t. r = a @ t \<and> (\<forall>s. C s = output_buf t output s)"
proof -
  obtain u where u: "r = (a @ t) @ u" "\<forall>s. B' s = output_buf u output s" using assms(2) by blast
  then have "B' = output_buf u output" by auto
  then show ?thesis
    using u(1) by (intro exI [of _ "t @ u"]) (simp add: assms(1,3) output_buf_append)
qed

lemma emits_vprintf_loop:
  "out = text_out \<Longrightarrow> vprintf_loop d m f args out a = Inr r \<Longrightarrow>
   \<exists>t. r = a @ t \<and> (\<forall>s. vprintf_loop d m f args output s = output_buf t output s)"
proof (induction d m f args out a arbitrary: r rule: vprintf_loop.induct)
  case (1 d m f args out a)
  note out = "1.prems"(1)
  note run = "1.prems"(2) [unfolded out]
  obtain ch where ch: "ld m f = Inr ch" using run by (subst (asm) vprintf_loop.simps) auto
  have put: "\<And>s. output ch s = output_buf [ch] output s" for ch by (simp add: output_buf_fun)
  show ?case
  proof (cases "ch = 0 \<or> ch \<noteq> 0x25")
    case True
    show ?thesis
    proof (cases "ch = 0")
      case True
      then show ?thesis using run ch
        by (subst (asm) vprintf_loop.simps) (auto simp: vprintf_loop.simps [of d m f] exI [of _ "[]"])
    next
      case nz: False
      then have pc: "ch \<noteq> 0x25" using True by blast
      then have "vprintf_loop d m (f + 1) args text_out (a @ [ch]) = Inr r"
        using run ch nz by (subst (asm) vprintf_loop.simps) (simp add: text_out_def)
      then have "\<exists>u. r = (a @ [ch]) @ u \<and> (\<forall>s. vprintf_loop d m (f + 1) args output s = output_buf u output s)"
        using "1.IH"(1) [OF ch nz pc _ out, of "a @ [ch]" r] out by (simp add: text_out_Inr)
      then show ?thesis
        by (rule text_step [OF put]) (subst vprintf_loop.simps, simp add: ch nz pc)
    qed
  next
    case False
    then have pc: "ch = 0x25" "ch \<noteq> 0" "\<not> ch \<noteq> 0x25" by auto
    obtain ch2 where ch2: "ld m (f + 1) = Inr ch2"
      using run ch pc by (subst (asm) vprintf_loop.simps) auto
    show ?thesis
    proof (cases "ch2 = 0x25")
      case True
      then have "vprintf_loop d m (f + 2) args text_out (a @ [0x25]) = Inr r"
        using run ch ch2 pc by (subst (asm) vprintf_loop.simps) (simp add: text_out_def)
      then have "\<exists>u. r = (a @ [0x25]) @ u \<and> (\<forall>s. vprintf_loop d m (f + 2) args output s = output_buf u output s)"
        using "1.IH"(2) [OF ch pc(2,3) ch2 True _ out, of "a @ [0x25]" r] out by (simp add: text_out_Inr)
      then show ?thesis
        by (rule text_step [OF put]) (subst vprintf_loop.simps, simp add: ch ch2 [simplified] pc True)
    next
      case n2: False
      obtain f' c args' where p: "parse_conversion m (f + 1) args = Inr (f', c, args')"
        using run ch ch2 pc n2 by (subst (asm) vprintf_loop.simps) auto
      obtain ch3 where ch3: "ld m f' = Inr ch3"
        using run ch ch2 pc n2 p by (subst (asm) vprintf_loop.simps) auto
      show ?thesis
      proof (cases "convertible ch3")
        case True
        obtain args2 b where b: "convert m ch3 c args' text_out a = Inr (args2, b)"
            "vprintf_loop d m (f' + 1) args2 text_out b = Inr r"
          using run ch ch2 pc n2 p ch3 True by (subst (asm) vprintf_loop.simps) auto
        obtain t where t: "b = a @ t"
            "\<And>s. convert m ch3 c args' output s = bindE (output_buf t output s) (\<lambda>s. Inr (args2, s))"
          using emits_convert [unfolded emits_args_def, rule_format, OF b(1)] by blast
        have "\<exists>u. r = (a @ t) @ u \<and> (\<forall>s. vprintf_loop d m (f' + 1) args2 output s = output_buf u output s)"
          using "1.IH"(3) [OF ch pc(2,3) ch2 n2 p refl refl ch3 True, of "(args2, b)" args2 b r] b t(1) out by simp
        then show ?thesis
          by (rule text_step [OF refl]) (subst vprintf_loop.simps, simp add: ch ch2 [simplified] pc n2 p [simplified] ch3 True t(2) bindE_assoc)
      next
        case nc: False
        then obtain d' b where b: "d = Suc d'"
            "vprintf_loop d' (literal (if unsupported ch3 then ascii ''<<no %%%c in kernel>>''
                else ascii ''<<no %%%c conversion>>'')) 1 [Word_Arg (ucast ch3)] text_out a = Inr b"
            "vprintf_loop d m (f' + 1) args' text_out b = Inr r"
          using run ch ch2 pc n2 p ch3
          by (subst (asm) vprintf_loop.simps) (auto split: nat.splits)
        have "\<exists>t. b = a @ t \<and> (\<forall>s. vprintf_loop d' (literal (if unsupported ch3 then ascii ''<<no %%%c in kernel>>''
                else ascii ''<<no %%%c conversion>>'')) 1 [Word_Arg (ucast ch3)] output s = output_buf t output s)"
          using "1.IH"(4) [OF ch pc(2,3) ch2 n2 p refl refl ch3 nc b(1) out, of b] b(2) out by simp
        then obtain t where t: "b = a @ t"
            "\<And>s. vprintf_loop d' (literal (if unsupported ch3 then ascii ''<<no %%%c in kernel>>''
                else ascii ''<<no %%%c conversion>>'')) 1 [Word_Arg (ucast ch3)] output s = output_buf t output s"
          by blast
        have "\<exists>u. r = (a @ t) @ u \<and> (\<forall>s. vprintf_loop d m (f' + 1) args' output s = output_buf u output s)"
          using "1.IH"(5) [OF ch pc(2,3) ch2 n2 p refl refl ch3 nc, of b r] b t(1) out by simp
        then show ?thesis
          by (rule text_step [OF t(2)]) (subst vprintf_loop.simps, simp add: ch ch2 [simplified] pc n2 p [simplified] ch3 nc b(1))
      qed
    qed
  qed
qed

lemma vprintf_text:
  assumes "vprintf m f args text_out [] = Inr t"
  shows "vprintf m f args output s = output_buf t output s"
proof -
  obtain u where "t = [] @ u" "\<forall>s. vprintf_loop 1 m f args output s = output_buf u output s"
    using emits_vprintf_loop [OF refl assms [unfolded vprintf_def], of "output"] by blast
  then show ?thesis by (simp add: vprintf_def)
qed

section \<open>The buffer of \<open>snprintf\<close>\<close>

lemma helper_step:
  assumes "- (2 ^ 31) \<le> n + 1" "n + 1 < 2 ^ 31" "0 < p" "n < mx \<Longrightarrow> p < length bm"
  shows "vsnprintf_helper ch \<lparr>out_p = p, out_length = n, max_length = mx, buffer_mem = bm\<rparr> =
    Inr (if n < mx then \<lparr>out_p = p + 1, out_length = n + 1, max_length = mx, buffer_mem = bm[p := ch]\<rparr>
         else \<lparr>out_p = p, out_length = n + 1, max_length = mx, buffer_mem = bm\<rparr>)"
  using assms by (simp add: vsnprintf_helper_def int32_def)

lemma helper_text:
  assumes "0 < p" "p + length (take k t) \<le> length bm" "0 \<le> n" "n + int (length t) < 2 ^ 31" "k = nat (mx - n)"
  shows "output_buf t vsnprintf_helper \<lparr>out_p = p, out_length = n, max_length = mx, buffer_mem = bm\<rparr> =
    Inr \<lparr>out_p = p + length (take k t), out_length = n + int (length t), max_length = mx,
         buffer_mem = put_bytes bm p (take k t)\<rparr>"
  using assms
proof (induction t arbitrary: p k n bm)
  case (Cons ch t)
  have i: "- (2 ^ 31) \<le> n + 1" "n + 1 < 2 ^ 31" using Cons.prems(3,4) by auto
  show ?case
  proof (cases "n < mx")
    case True
    then obtain k' where k: "k = Suc k'" "k' = nat (mx - (n + 1))" using Cons.prems(5) by (cases k) auto
    have b: "p < length bm" using Cons.prems(2) k by simp
    have "output_buf t vsnprintf_helper \<lparr>out_p = p + 1, out_length = n + 1, max_length = mx, buffer_mem = bm[p := ch]\<rparr> =
      Inr \<lparr>out_p = p + 1 + length (take k' t), out_length = n + 1 + int (length t), max_length = mx,
           buffer_mem = put_bytes (bm[p := ch]) (p + 1) (take k' t)\<rparr>"
      using Cons.prems k by (intro Cons.IH) auto
    then show ?thesis
      using True b Cons.prems(1) k(1) by (simp add: helper_step [OF i Cons.prems(1) b] put_bytes_Cons algebra_simps)
  next
    case False
    have "output_buf t vsnprintf_helper \<lparr>out_p = p, out_length = n + 1, max_length = mx, buffer_mem = bm\<rparr> =
      Inr \<lparr>out_p = p + length (take 0 t), out_length = n + 1 + int (length t), max_length = mx,
           buffer_mem = put_bytes bm p (take 0 t)\<rparr>"
      using Cons.prems False by (intro Cons.IH) auto
    then show ?thesis
      using False Cons.prems(5) by (simp add: helper_step [OF i Cons.prems(1)] algebra_simps)
  qed
qed simp

lemma sint_of_nat_word: "n < 2 ^ 31 \<Longrightarrow> sint (of_nat n :: word_t) = int n"
  by (simp add: signed_of_nat signed_take_bit_int_eq_self)

lemma snprintf_text:
  assumes "vprintf m f args text_out [] = Inr t" "length t < 2 ^ 31"
    and "0 < buf" "buf + sz \<le> length bm" "sz \<le> 2 ^ 31"
  shows "snprintf m buf sz f args bm =
    Inr (int (length t), if sz = 0 then bm else put_bytes bm buf (take (sz - 1) t @ [0]))"
proof -
  let ?mx = "int (sz - 1)"
  have mx: "(if sz > 0 then sint (of_nat (sz - 1) :: word_t) else 0) = ?mx"
    using assms(5) sint_of_nat_word [of "sz - 1"] by auto
  have "output_buf t vsnprintf_helper \<lparr>out_p = buf, out_length = 0, max_length = ?mx, buffer_mem = bm\<rparr> =
    Inr \<lparr>out_p = buf + length (take (sz - 1) t), out_length = 0 + int (length t), max_length = ?mx,
         buffer_mem = put_bytes bm buf (take (sz - 1) t)\<rparr>"
    using assms by (intro helper_text) auto
  then show ?thesis
    using assms(3,4) mx
    by (auto simp: snprintf_def vsnprintf_def vprintf_text [OF assms(1)] Let_def put_bytes_snoc_update)
qed

section \<open>Integers\<close>

text \<open>What a run of digits denotes in a base.\<close>

definition digit_value :: "byte_t \<Rightarrow> nat" where
  "digit_value ch = unat ch - (if ch \<le> 0x39 then 48 else if ch \<le> 0x46 then 55 else 87)"

definition numeral_value :: "nat \<Rightarrow> byte_t list \<Rightarrow> nat" where
  "numeral_value B ds = foldl (\<lambda>n ch. n * B + digit_value ch) 0 ds"

lemma numeral_value_snoc [simp]:
  "numeral_value B (ds @ [ch]) = numeral_value B ds * B + digit_value ch" "numeral_value B [] = 0"
  by (simp_all add: numeral_value_def)

lemma numeral_value_zeros: "numeral_value B (replicate n 0x30 @ ds) = numeral_value B ds"
  by (induction n) (simp_all add: numeral_value_def digit_value_def)

definition good_base :: "integer_base \<Rightarrow> bool" where
  "good_base b \<longleftrightarrow> 2 \<le> base b \<and> length (digits b) = base b \<and> 0 < group b \<and> 0x30 \<in> set (digits b) \<and>
    0x2c \<notin> set (digits b) \<and> map digit_value (digits b) = [0..<base b]"

lemma good_bases: "b \<in> {base_d, base_o, base_x, base_X} \<Longrightarrow> good_base b \<and> 8 \<le> base b"
proof -
  have "good_base base_d" "good_base base_o" "good_base base_x" "good_base base_X" by code_simp+
  then show "b \<in> {base_d, base_o, base_x, base_X} \<Longrightarrow> good_base b \<and> 8 \<le> base b"
    by (auto simp: base_d_def base_o_def base_x_def base_X_def)
qed

lemma good_digit:
  assumes "good_base b" "i < base b"
  shows "digits b ! i \<in> set (digits b)" "digit_value (digits b ! i) = i" "digits b ! i \<noteq> 0x2c"
    "rd (digits b) i = Inr (digits b ! i)"
proof -
  have l: "i < length (digits b)" using assms by (simp add: good_base_def)
  show "digits b ! i \<in> set (digits b)" using l by simp
  then show "digits b ! i \<noteq> 0x2c" using assms(1) by (auto simp: good_base_def)
  have "digit_value (digits b ! i) = map digit_value (digits b) ! i" using l by simp
  also have "\<dots> = i" using assms by (simp add: good_base_def)
  finally show "digit_value (digits b ! i) = i" .
  show "rd (digits b) i = Inr (digits b ! i)" using l by simp
qed

definition commas :: "bool \<Rightarrow> byte_t set" where "commas g = (if g then {0x2c} else {})"

lemma digit_loop_text:
  assumes "good_base b" "v < base b ^ k" "length buf + 2 * k \<le> 64"
  shows "\<exists>w. digit_loop b g v n buf = Inr (buf @ w) \<and> length w \<le> (if g then 2 * k else k) \<and>
    numeral_value (base b) (filter (\<lambda>ch. ch \<noteq> 0x2c) (rev w)) = v \<and> set w \<subseteq> set (digits b) \<union> commas g"
  using assms(2,3)
proof (induction k arbitrary: v n buf)
  case 0
  then show ?case by (intro exI [of _ "[]"]) (simp add: digit_loop.simps)
next
  case (Suc k)
  show ?case
  proof (cases "v = 0")
    case True
    then show ?thesis by (intro exI [of _ "[]"]) (simp add: digit_loop.simps)
  next
    case False
    let ?c = "if g \<and> n > 0 \<and> n mod group b = 0 then [0x2c] else []"
    let ?d = "digits b ! (v mod base b)"
    have B: "2 \<le> base b" using assms(1) by (simp add: good_base_def)
    then have m: "v mod base b < base b" by simp
    note d = good_digit [OF assms(1) m]
    have c: "(if g \<and> n > 0 \<and> n mod group b = 0 then put_char 0x2c buf else Inr buf) = Inr (buf @ ?c)"
      using Suc.prems(2) by (simp add: put_char_def)
    have p: "put_char ?d (buf @ ?c) = Inr (buf @ ?c @ [?d])"
      using Suc.prems(2) by (simp add: put_char_def)
    have "v div base b < base b ^ k" using Suc.prems(1) B by (simp add: less_mult_imp_div_less mult.commute)
    moreover have "length (buf @ ?c @ [?d]) + 2 * k \<le> 64" using Suc.prems(2) by simp
    ultimately obtain w where w: "digit_loop b g (v div base b) (n + 1) (buf @ ?c @ [?d]) = Inr ((buf @ ?c @ [?d]) @ w)"
      "length w \<le> (if g then 2 * k else k)" "set w \<subseteq> set (digits b) \<union> commas g"
      "numeral_value (base b) (filter (\<lambda>ch. ch \<noteq> 0x2c) (rev w)) = v div base b"
      using Suc.IH by blast
    have "digit_loop b g v n buf = Inr (buf @ (?c @ ?d # w))"
      using False c p d(4) w(1) by (subst digit_loop.simps) simp
    moreover have "length (?c @ ?d # w) \<le> (if g then 2 * Suc k else Suc k)" using w(2) by auto
    moreover have "numeral_value (base b) (filter (\<lambda>ch. ch \<noteq> 0x2c) (rev (?c @ ?d # w))) = v"
      using d(2,3) w(4) by simp
    moreover have "set (?c @ ?d # w) \<subseteq> set (digits b) \<union> commas g"
      using d(1) w(3) by (auto simp: commas_def)
    ultimately show ?thesis by blast
  qed
qed

lemma precision_loop_text:
  "length buf \<le> 63 \<Longrightarrow> \<exists>k. precision_loop p buf = Inr (buf @ replicate k 0x30) \<and>
     length buf + k = (if int (length buf) < min p 63 then nat (min p 63) else length buf)"
proof (induction "63 - length buf" arbitrary: buf)
  case 0
  then show ?case by (intro exI [of _ 0]) (simp add: precision_loop.simps)
next
  case (Suc n)
  show ?case
  proof (cases "int (length buf) < p")
    case False
    then show ?thesis by (intro exI [of _ 0]) (simp add: precision_loop.simps)
  next
    case True
    have l: "n = 63 - length (buf @ [0x30])" "length (buf @ [0x30]) \<le> 63" using Suc.hyps(2) by simp_all
    obtain k where k: "precision_loop p (buf @ [0x30]) = Inr ((buf @ [0x30]) @ replicate k 0x30)"
      "length (buf @ [0x30]) + k = (if int (length (buf @ [0x30])) < min p 63 then nat (min p 63) else length (buf @ [0x30]))"
      using Suc.hyps(1) [of "buf @ [0x30]", OF l] by blast
    have "precision_loop p buf = precision_loop p (buf @ [0x30])"
      using True Suc.hyps(2) by (subst precision_loop.simps) (auto simp: put_char_def)
    then show ?thesis
      using k True Suc.hyps(2) by (intro exI [of _ "Suc k"]) (auto simp: min_def split: if_splits)
  qed
qed

lemma dup_text: "output_dup ch n text_out a = Inr (a @ replicate n ch)"
  by (induction n arbitrary: a) (auto simp: text_out_def)

lemma buf_text: "output_buf t text_out a = Inr (a @ t)"
  by (induction t arbitrary: a) (auto simp: text_out_def)

text \<open>
  The text of an integer conversion around its digits \<open>body\<close>: padding, sign, \<open>0x\<close>. With both flags
  the padding is output twice.
\<close>

definition char_text :: "byte_t \<Rightarrow> byte_t list" where
  "char_text ch = (if ch = 0 then [] else [ch])"

definition integer_text :: "printf_conversion \<Rightarrow> byte_t \<Rightarrow> byte_t \<Rightarrow> byte_t list \<Rightarrow> byte_t list" where
  "integer_text c sign x body =
    (let prefix = char_text sign @ (if x = 0 then [] else [0x30, x]);
         pad = nat (width c - int (length (prefix @ body)))
     in (if \<not> flag c MINUS \<and> \<not> flag c ZERO then replicate pad 0x20 else []) @ prefix @
        (if flag c ZERO then replicate pad 0x30 else []) @ body @ (if flag c MINUS then replicate pad 0x20 else []))"

lemma length_integer_text:
  "length (integer_text c sign x body) =
    (let n = length (char_text sign) + (if x = 0 then 0 else 2) + length body in
     max (nat (width c)) n + (if flag c MINUS \<and> flag c ZERO then nat (width c - int n) else 0))"
  by (auto simp: integer_text_def Let_def max_def nat_diff_distrib' nat_le_iff)

lemma flag_MINUS_ZERO: "flag c (MINUS OR ZERO) \<longleftrightarrow> flag c MINUS \<or> flag c ZERO"
proof -
  have "flags c AND (MINUS OR ZERO) = (flags c AND MINUS) OR (flags c AND ZERO)"
    by (simp add: bit.conj_disj_distrib)
  then show ?thesis by (auto simp: flag_def or_eq_0_iff)
qed

lemma integer_layout:
  "(let pad_cnt = nat (width c - int (length buf) - (if x \<noteq> 0 then 2 else 0) - (if sign \<noteq> 0 then 1 else 0)) in
     bindE (if \<not> flag c (MINUS OR ZERO) then output_dup 0x20 pad_cnt text_out s else Inr s) (\<lambda>s.
     bindE (if sign \<noteq> 0 then text_out sign s else Inr s) (\<lambda>s.
     bindE (if x \<noteq> 0 then bindE (text_out 0x30 s) (text_out x) else Inr s) (\<lambda>s.
     bindE (if flag c ZERO then output_dup 0x30 pad_cnt text_out s else Inr s) (\<lambda>s.
     bindE (output_buf (rev buf) text_out s) (\<lambda>s.
       if flag c MINUS then output_dup 0x20 pad_cnt text_out s else Inr s)))))) =
   Inr (s @ integer_text c sign x (rev buf))"
proof -
  have pad: "nat (width c - int (length buf) - (if x \<noteq> 0 then 2 else 0) - (if sign \<noteq> 0 then 1 else 0)) =
      nat (width c - int (length ((char_text sign @ (if x = 0 then [] else [0x30, x])) @ rev buf)))"
    by (simp add: char_text_def diff_diff_add algebra_simps)
  show ?thesis
    unfolding pad integer_text_def Let_def flag_MINUS_ZERO
    by (cases "flag c MINUS"; cases "flag c ZERO"; cases "sign = 0"; cases "x = 0")
      (simp_all add: dup_text buf_text text_out_def char_text_def)
qed

lemma padded_length: "n = (if int l < P then nat P else l) \<Longrightarrow> P \<le> int n"
  by (auto split: if_splits)

lemma format_integer_text:
  assumes "good_base b" "v < base b ^ k" "2 * k \<le> 63"
  shows "\<exists>body. format_integer v sg neg b c text_out a =
      Inr (a @ integer_text c (sign_char sg neg c) (if flag c POUND \<and> v \<noteq> 0 then x_char b else 0) body) \<and>
    numeral_value (base b) (filter (\<lambda>ch. ch \<noteq> 0x2c) body) = v \<and>
    set body \<subseteq> set (digits b) \<union> commas (flag c GROUP) \<and> length body \<le> 64 \<and>
    min (if precision c < 0 then 1 else precision c) 63 \<le> int (length body) \<and>
    (\<not> flag c POUND \<and> precision c < 0 \<longrightarrow> length body \<le> max 1 (if flag c GROUP then 2 * k else k))"
proof -
  let ?p = "if precision c < 0 then 1 else precision c"
  obtain w where w: "digit_loop b (flag c GROUP) v 0 [] = Inr w" "length w \<le> (if flag c GROUP then 2 * k else k)"
    "numeral_value (base b) (filter (\<lambda>ch. ch \<noteq> 0x2c) (rev w)) = v" "set w \<subseteq> set (digits b) \<union> commas (flag c GROUP)"
    using digit_loop_text [OF assms(1,2), of "[]" "flag c GROUP" 0] assms(3) by auto
  have l: "length w \<le> 63" using w(2) assms(3) by (auto split: if_splits)
  obtain z where z: "precision_loop ?p w = Inr (w @ replicate z 0x30)"
    "length w + z = (if int (length w) < min ?p 63 then nat (min ?p 63) else length w)"
    using precision_loop_text [OF l, of ?p] by blast
  let ?o = "if flag c POUND \<and> base b = 8 \<and> (w @ replicate z 0x30 = [] \<or> List.last (w @ replicate z 0x30) \<noteq> 0x30)
      then [0x30] else []"
  let ?buf = "w @ replicate z 0x30 @ ?o"
  have lz: "length w + z \<le> 63" using z(2) l by (auto split: if_splits)
  then have o: "(if flag c POUND \<and> base b = 8 \<and> (w @ replicate z 0x30 = [] \<or> List.last (w @ replicate z 0x30) \<noteq> 0x30)
      then put_char 0x30 (w @ replicate z 0x30) else Inr (w @ replicate z 0x30)) = Inr ?buf"
    by (simp add: put_char_def)
  have "format_integer v sg neg b c text_out a =
      Inr (a @ integer_text c (sign_char sg neg c) (if flag c POUND \<and> v \<noteq> 0 then x_char b else 0) (rev ?buf))"
    unfolding format_integer_def Let_def w(1) bindE.simps z(1) o
    by (rule integer_layout [unfolded Let_def])
  moreover have "numeral_value (base b) (filter (\<lambda>ch. ch \<noteq> 0x2c) (rev ?buf)) = v"
    using w(3) numeral_value_zeros [of "base b" z] numeral_value_zeros [of "base b" "Suc z"]
    by (auto simp: replicate_append_same)
  moreover have "set (rev ?buf) \<subseteq> set (digits b) \<union> commas (flag c GROUP)"
    using w(4) assms(1) by (auto simp: good_base_def)
  moreover have "length (rev ?buf) \<le> 64" using lz by auto
  moreover have "min ?p 63 \<le> int (length w + z)"
    using z(2) padded_length by metis
  then have "min ?p 63 \<le> int (length (rev ?buf))" by simp
  moreover have "\<not> flag c POUND \<and> precision c < 0 \<longrightarrow> length (rev ?buf) \<le> max 1 (if flag c GROUP then 2 * k else k)"
  proof
    assume nf: "\<not> flag c POUND \<and> precision c < 0"
    then have "length w + z = max 1 (length w)" using z(2) by (auto simp: max_def Suc_le_eq)
    moreover have "length (rev ?buf) = length w + z" using nf by simp
    ultimately show "length (rev ?buf) \<le> max 1 (if flag c GROUP then 2 * k else k)" using w(2) by linarith
  qed
  ultimately show ?thesis by blast
qed

text \<open>The format \<open>%d\<close>, read back by \<open>atoi\<close>.\<close>

lemma parse_plain:
  assumes "ld m f = Inr ch" "ch \<in> {0x64, 0x69, 0x6f, 0x75, 0x78, 0x58}"
  shows "parse_conversion m f args = Inr (f, \<lparr>flags = 0, width = 0, precision = - 1, type_of = INT_type\<rparr>, args)"
proof -
  have "flags_loop m f 0 = Inr (f, 0)" "number_loop m f 0 = Inr (f, 0)"
    using assms by (subst flags_loop.simps number_loop.simps, auto simp: isdigit_def)+
  moreover have "ch \<notin> {0x2a, 0x2e, 0x68, 0x6a, 0x6c, 0x74, 0x7a}" using assms(2) by auto
  ultimately show ?thesis
    using assms(1)
    by (simp add: parse_conversion_def parse_flags_def parse_width_def parse_precision_def parse_type_def Let_def)
qed

lemma digits_d:
  assumes "set body \<subseteq> set (digits base_d)"
  shows "list_all isdigit body" "decimal 0 body = int (numeral_value 10 (filter (\<lambda>ch. ch \<noteq> 0x2c) body))"
proof -
  have s: "set (digits base_d) = {0x30, 0x31, 0x32, 0x33, 0x34, 0x35, 0x36, 0x37, 0x38, 0x39}"
    by (simp add: base_d_def ascii_def)
  have d: "isdigit ch \<and> ch \<noteq> 0x2c \<and> int (digit_value ch) = uint ch - 48" if "ch \<in> set body" for ch
    using that assms unfolding s by (auto simp: isdigit_def digit_value_def)
  then show "list_all isdigit body" by (simp add: list_all_iff)
  have "decimal (int n) body = int (foldl (\<lambda>n ch. n * 10 + digit_value ch) n (filter (\<lambda>ch. ch \<noteq> 0x2c) body))" for n
    using d
  proof (induction body arbitrary: n)
    case (Cons ch body)
    then show ?case using Cons.IH [of "n * 10 + digit_value ch"] by simp
  qed simp
  from this [of 0] show "decimal 0 body = int (numeral_value 10 (filter (\<lambda>ch. ch \<noteq> 0x2c) body))"
    by (simp add: numeral_value_def)
qed

lemma vprintf_d:
  assumes "cstr m f (ascii ''%d'')"
  shows "\<exists>body. vprintf m f [Word_Arg w] text_out [] = Inr ((if sint w < 0 then [0x2d] else []) @ body) \<and>
    list_all isdigit body \<and> decimal 0 body = \<bar>sint w\<bar> \<and> body \<noteq> [] \<and> length body \<le> 10"
proof -
  have l: "ld m f = Inr 0x25" "ld m (Suc f) = Inr 0x64" "ld m (Suc (Suc f)) = Inr 0"
    using assms by (auto simp: ascii_def)
  let ?c = "\<lparr>flags = 0, width = 0, precision = - 1, type_of = INT_type\<rparr>" and ?v = "nat \<bar>sint w\<bar>"
  have b: "\<bar>sint w\<bar> \<le> 2 ^ 31" using sint_ge [of w] sint_less [of w] by simp
  have v: "?v < base base_d ^ 10" using b by (simp add: base_d_def)
  obtain body where body: "format_integer ?v True (sint w < 0) base_d ?c text_out [] =
      Inr ([] @ integer_text ?c (sign_char True (sint w < 0) ?c) 0 body)"
    "numeral_value 10 (filter (\<lambda>ch. ch \<noteq> 0x2c) body) = ?v"
    "set body \<subseteq> set (digits base_d)" "1 \<le> int (length body)" "length body \<le> 10"
    using format_integer_text [OF _ v, where c = ?c and sg = True and neg = "sint w < 0" and a = "[]"] good_bases [of base_d]
    by (auto simp: flag_def commas_def base_d_def)
  have t: "integer_text ?c (sign_char True (sint w < 0) ?c) 0 body = (if sint w < 0 then [0x2d] else []) @ body"
    by (simp add: integer_text_def sign_char_def flag_def char_text_def)
  have "(if sint w < 0 then int64 (- sint w) else Inr (sint w)) = Inr \<bar>sint w\<bar>"
    using b by (auto simp: int64_def)
  then have "convert m 0x64 ?c [Word_Arg w] text_out [] = Inr ([], (if sint w < 0 then [0x2d] else []) @ body)"
    using body(1) t by (simp add: convert_def signed_arg_def)
  then have "vprintf m f [Word_Arg w] text_out [] = Inr ((if sint w < 0 then [0x2d] else []) @ body)"
    unfolding vprintf_def
    by (subst vprintf_loop.simps)
      (simp add: l parse_plain [OF l(2)] convertible_def vprintf_loop.simps [of _ m "Suc (Suc f)"])
  moreover have "body \<noteq> []" using body(4) by auto
  ultimately show ?thesis using digits_d [OF body(3)] body(2,5) by auto
qed

lemma snprintf_atoi:
  assumes "cstr m f (ascii ''%d'')" "0 < buf" "buf + 12 \<le> length bm"
  shows "\<exists>n bm'. snprintf m buf 12 f [Word_Arg w] bm = Inr (n, bm') \<and> n \<le> 11 \<and> atoi_pintos buf bm' = Inr (sint w)"
proof -
  obtain body where b: "vprintf m f [Word_Arg w] text_out [] = Inr ((if sint w < 0 then [0x2d] else []) @ body)"
    "list_all isdigit body" "decimal 0 body = \<bar>sint w\<bar>" "body \<noteq> []" "length body \<le> 10"
    using vprintf_d [OF assms(1)] by blast
  let ?s = "if sint w < 0 then [0x2d] else []"
  let ?bm = "put_bytes bm buf ((?s @ body) @ [0])"
  have n: "length (?s @ body) \<le> 11" using b(5) by simp
  have "snprintf m buf 12 f [Word_Arg w] bm = Inr (int (length (?s @ body)), ?bm)"
    using snprintf_text [OF b(1) _ assms(2,3)] n by simp
  moreover have "0 \<notin> set (?s @ body)" using b(2) by (auto simp: list_all_iff isdigit_def)
  then have "cstr ?bm buf ([] @ ?s @ body @ [])"
    using cstr_put_bytes [of buf "?s @ body" bm] assms(2,3) n by simp
  from atoi_decimal [OF this _ _ b(2,4)] have "atoi_pintos buf ?bm = Inr (sint w)"
    using b(3) sint_ge [of w] sint_less [of w] by auto
  ultimately show ?thesis using n by auto
qed

text \<open>A format that ends inside a conversion is read past its end.\<close>

lemma trailing_percent: "vprintf (literal (ascii ''100%'')) 1 [] text_out [] = Inl OutOfBounds"
  by code_simp

section \<open>Properties\<close>

text \<open>C24: \<open>snprintf\<close> puts the first \<open>buf_size - 1\<close> characters of the text and a null byte into the buffer,
  changes no other byte, and returns the length of the whole text; for a size of 0 it writes nothing.\<close>

theorem snprintf_correct:
  assumes "vprintf m f args text_out [] = Inr t" "length t < 2 ^ 31"
    and "0 < buffer" "buffer + buf_size \<le> length bm" "buf_size \<le> 2 ^ 31"
  shows "snprintf m buffer buf_size f args bm =
    Inr (int (length t), if buf_size = 0 then bm else put_bytes bm buffer (take (buf_size - 1) t @ [0]))"
  by (rule snprintf_text [OF assms])

lemma snprintf_correct_witness:
  "snprintf (literal (ascii ''abc'')) 1 3 1 [] [9, 9, 9, 9, 9] = Inr (3, [9, 97, 98, 0, 9])"
proof -
  have "vprintf (literal (ascii ''abc'')) 1 [] text_out [] = Inr [97, 98, 99]" by code_simp
  from snprintf_correct [OF this, of 1 3 "[9, 9, 9, 9, 9]"] show ?thesis by (simp add: put_bytes_def)
qed

text \<open>C25: an integer conversion in any of the four bases stays within its buffer of 64 characters for every
  value of \<open>uintmax_t\<close>, flags, width and precision. Its text is the padding, the sign, the prefix and
  a run of digits of the base that denotes the value, without the commas of the \<open>'\<close> flag, and is at
  least as long as the precision, of which no more than 63 is honoured. The text is as long as the
  width asks, and longer by the padding when the flags for zeros and left justification are both set,
  which \<open>%0*d\<close> with a negative width does.\<close>

theorem format_integer_correct:
  assumes "v < 2 ^ 64" "b \<in> {base_d, base_o, base_x, base_X}"
  shows "\<exists>body. let sign = sign_char sg neg c; x = (if flag c POUND \<and> v \<noteq> 0 then x_char b else 0);
         n = length (char_text sign) + (if x = 0 then 0 else 2) + length body in
       format_integer v sg neg b c text_out [] = Inr (integer_text c sign x body) \<and>
       numeral_value (base b) (filter (\<lambda>ch. ch \<noteq> 0x2c) body) = v \<and>
       set body \<subseteq> set (digits b) \<union> (if flag c GROUP then {0x2c} else {}) \<and> length body \<le> 64 \<and>
       min (if precision c < 0 then 1 else precision c) 63 \<le> int (length body) \<and>
       length (integer_text c sign x body) = max (nat (width c)) n +
         (if flag c MINUS \<and> flag c ZERO then nat (width c - int n) else 0)"
proof -
  have "(2 :: nat) ^ 64 \<le> 8 ^ 22" by simp
  also have "(8 :: nat) ^ 22 \<le> base b ^ 22" using good_bases [OF assms(2)] by (intro power_mono) auto
  finally have "v < base b ^ 22" using assms(1) by simp
  from format_integer_text [OF _ this, where c = c and sg = sg and neg = neg and a = "[]"] good_bases [OF assms(2)]
  obtain body where "format_integer v sg neg b c text_out [] =
      Inr ([] @ integer_text c (sign_char sg neg c) (if flag c POUND \<and> v \<noteq> 0 then x_char b else 0) body)"
    "numeral_value (base b) (filter (\<lambda>ch. ch \<noteq> 0x2c) body) = v"
    "set body \<subseteq> set (digits b) \<union> commas (flag c GROUP)" "length body \<le> 64"
    "min (if precision c < 0 then 1 else precision c) 63 \<le> int (length body)"
    by auto
  then show ?thesis
    unfolding Let_def commas_def by (intro exI [of _ body] conjI length_integer_text [unfolded Let_def]) simp_all
qed

lemma format_integer_correct_witness:
  "\<exists>body. format_integer 5 False False base_x \<lparr>flags = MINUS OR ZERO, width = 4, precision = - 1, type_of = INT_type\<rparr> text_out [] =
     Inr (integer_text \<lparr>flags = MINUS OR ZERO, width = 4, precision = - 1, type_of = INT_type\<rparr> 0 0 body) \<and>
     numeral_value 16 (filter (\<lambda>ch. ch \<noteq> 0x2c) body) = 5"
  using format_integer_correct [of 5 base_x False False
    "\<lparr>flags = MINUS OR ZERO, width = 4, precision = - 1, type_of = INT_type\<rparr>"]
  by (auto simp: sign_char_def flag_def MINUS_def ZERO_def POUND_def base_x_def)

text \<open>C26: what \<open>snprintf\<close> prints with \<open>%d\<close>, for every \<open>int\<close>, fits into 12 bytes and \<open>atoi\<close> reads the
  number back.\<close>

theorem print_then_atoi:
  assumes "cstr m f (ascii ''%d'')" "0 < buf" "buf + 12 \<le> length bm"
  shows "\<exists>n bm'. snprintf m buf 12 f [Word_Arg w] bm = Inr (n, bm') \<and> n \<le> 11 \<and> atoi_pintos buf bm' = Inr (sint w)"
  by (rule snprintf_atoi [OF assms])

lemma print_then_atoi_witness:
  "\<exists>n bm'. snprintf (literal (ascii ''%d'')) 1 12 1 [Word_Arg (- 42)] (replicate 13 0) = Inr (n, bm') \<and>
     atoi_pintos 1 bm' = Inr (- 42)"
  using print_then_atoi [of "literal (ascii ''%d'')" 1 1 "replicate 13 0" "- 42"]
  by (auto simp: literal_def ascii_def)

end
