(* ===== verification/Pintos_Printf_Format.thy ===== *)
theory Pintos_Printf_Format
  imports Pintos_Printf_Properties
begin

unbundle bit_operations_syntax

text \<open>
  What a format means. A format is a list of items: characters, \<open>%%\<close>, and directives of flags, a
  width, a precision, a length modifier and a conversion, with the value each directive prints.
  \<open>item_format\<close> writes an item the way a programmer does, \<open>item_text\<close> is the text that the C standard
  gives it, written with numerals and fields and without reference to the code, and \<open>vprintf\<close> turns
  the one into the other.
\<close>

section \<open>Formats and their texts\<close>

datatype conversion = Signed_Decimal | Unsigned_Decimal | Octal | Hex | Upper_Hex

record directive =
  flag_chars :: "byte_t list"
  field_width :: nat
  field_precision :: "nat option"
  modifier :: int_type

datatype item =
    Character byte_t
  | Percent
  | Number directive conversion int
  | One_Char directive byte_t
  | Text directive nat "byte_t list"
  | Null_Text directive
  | Address directive nat

text \<open>Numerals: the digits of a number in a base, the most significant first.\<close>

fun radix :: "nat \<Rightarrow> nat \<Rightarrow> nat list" where
  "radix B v = (if v = 0 \<or> B < 2 then [] else radix B (v div B) @ [v mod B])"

declare radix.simps [simp del]

definition digit_char :: "bool \<Rightarrow> nat \<Rightarrow> byte_t" where
  "digit_char upper n = of_nat (if n < 10 then 48 + n else if upper then 55 + n else 87 + n)"

definition numeral_text :: "nat \<Rightarrow> byte_t list" where
  "numeral_text n = map (digit_char False) (radix 10 n)"

fun conversion_base :: "conversion \<Rightarrow> nat" where
  "conversion_base Octal = 8"
| "conversion_base Hex = 16"
| "conversion_base Upper_Hex = 16"
| "conversion_base _ = 10"

text \<open>A text in a field: \<open>pre\<close> is the sign or \<open>0x\<close>, which zeros go behind and spaces before.\<close>

definition field :: "bool \<Rightarrow> bool \<Rightarrow> nat \<Rightarrow> byte_t list \<Rightarrow> byte_t list \<Rightarrow> byte_t list" where
  "field left zeros w pre body =
    (let n = w - length (pre @ body) in
     if left then pre @ body @ replicate n 0x20
     else if zeros then pre @ replicate n 0x30 @ body
     else replicate n 0x20 @ pre @ body)"

definition has_flag :: "directive \<Rightarrow> char \<Rightarrow> bool" where
  "has_flag d ch \<longleftrightarrow> of_char ch \<in> set (flag_chars d)"

definition sign_text :: "directive \<Rightarrow> int \<Rightarrow> byte_t list" where
  "sign_text d v =
    (if v < 0 then ascii ''-'' else if has_flag d CHR ''+'' then ascii ''+''
     else if has_flag d CHR '' '' then ascii '' '' else [])"

definition number_text :: "directive \<Rightarrow> conversion \<Rightarrow> int \<Rightarrow> byte_t list" where
  "number_text d cv v =
    (let ds = map (digit_char (cv = Upper_Hex)) (radix (conversion_base cv) (nat \<bar>v\<bar>));
         ds = replicate (case_option 1 id (field_precision d) - length ds) 0x30 @ ds;
         ds = (if has_flag d CHR ''#'' \<and> cv = Octal \<and> take 1 ds \<noteq> [0x30] then 0x30 # ds else ds);
         pre = (if cv = Signed_Decimal then sign_text d v
                   else if has_flag d CHR ''#'' \<and> v \<noteq> 0 \<and> cv = Hex then ascii ''0x''
                   else if has_flag d CHR ''#'' \<and> v \<noteq> 0 \<and> cv = Upper_Hex then ascii ''0X'' else [])
     in field (has_flag d CHR ''-'') (has_flag d CHR ''0'' \<and> field_precision d = None) (field_width d) pre ds)"

definition string_text :: "directive \<Rightarrow> byte_t list \<Rightarrow> byte_t list" where
  "string_text d s = field (has_flag d CHR ''-'') False (field_width d) []
    (case field_precision d of None \<Rightarrow> s | Some p \<Rightarrow> take p s)"

text \<open>\<open>%p\<close> is \<open>%#x\<close>: all other flags are dropped, \<open>-\<close> included.\<close>

fun item_text :: "item \<Rightarrow> byte_t list" where
  "item_text (Character ch) = [ch]"
| "item_text Percent = ascii ''%''"
| "item_text (Number d cv v) = number_text d cv v"
| "item_text (One_Char d ch) = field (has_flag d CHR ''-'') False (field_width d) [] [ch]"
| "item_text (Text d p s) = string_text d s"
| "item_text (Null_Text d) = string_text d (ascii ''(null)'')"
| "item_text (Address d p) = number_text (d\<lparr>flag_chars := ascii ''#''\<rparr>) Hex (int p)"

text \<open>How an item is written in a format.\<close>

fun conversion_char :: "conversion \<Rightarrow> char" where
  "conversion_char Signed_Decimal = CHR ''d''"
| "conversion_char Unsigned_Decimal = CHR ''u''"
| "conversion_char Octal = CHR ''o''"
| "conversion_char Hex = CHR ''x''"
| "conversion_char Upper_Hex = CHR ''X''"

fun modifier_text :: "int_type \<Rightarrow> byte_t list" where
  "modifier_text CHAR_type = ascii ''hh''"
| "modifier_text SHORT_type = ascii ''h''"
| "modifier_text INT_type = []"
| "modifier_text INTMAX_type = ascii ''j''"
| "modifier_text LONG_type = ascii ''l''"
| "modifier_text LONGLONG_type = ascii ''ll''"
| "modifier_text PTRDIFFT_type = ascii ''t''"
| "modifier_text SIZET_type = ascii ''z''"

definition directive_text :: "directive \<Rightarrow> char \<Rightarrow> byte_t list" where
  "directive_text d ch = of_char CHR ''%'' # flag_chars d @ numeral_text (field_width d) @
     (case field_precision d of None \<Rightarrow> [] | Some p \<Rightarrow> of_char CHR ''.'' # numeral_text p) @
     modifier_text (modifier d) @ [of_char ch]"

fun item_format :: "item \<Rightarrow> byte_t list" where
  "item_format (Character ch) = [ch]"
| "item_format Percent = ascii ''%%''"
| "item_format (Number d cv v) = directive_text d (conversion_char cv)"
| "item_format (One_Char d ch) = directive_text d CHR ''c''"
| "item_format (Text d p s) = directive_text d CHR ''s''"
| "item_format (Null_Text d) = directive_text d CHR ''s''"
| "item_format (Address d p) = directive_text d CHR ''p''"

text \<open>The argument that an item takes, and the values that fit its type.\<close>

fun type_bits :: "int_type \<Rightarrow> nat" where
  "type_bits CHAR_type = 8"
| "type_bits SHORT_type = 16"
| "type_bits INTMAX_type = 64"
| "type_bits LONGLONG_type = 64"
| "type_bits _ = 32"

definition number_arg :: "int_type \<Rightarrow> int \<Rightarrow> arg" where
  "number_arg t v = (if type_bits t = 64 then Long_Arg (word_of_int v) else Word_Arg (word_of_int v))"

fun item_args :: "item \<Rightarrow> arg list" where
  "item_args (Number d cv v) = [number_arg (modifier d) v]"
| "item_args (One_Char d ch) = [Word_Arg (ucast ch)]"
| "item_args (Text d p s) = [Pointer_Arg p]"
| "item_args (Null_Text d) = [Pointer_Arg 0]"
| "item_args (Address d p) = [Pointer_Arg p]"
| "item_args _ = []"

definition in_type :: "conversion \<Rightarrow> int_type \<Rightarrow> int \<Rightarrow> bool" where
  "in_type cv t v \<longleftrightarrow>
    (if cv = Signed_Decimal then - (2 ^ (type_bits t - 1)) \<le> v \<and> v < 2 ^ (type_bits t - 1) \<and> v \<noteq> - (2 ^ 63)
     else 0 \<le> v \<and> v < 2 ^ type_bits t)"

definition directive_ok :: "directive \<Rightarrow> bool" where
  "directive_ok d \<longleftrightarrow> set (flag_chars d) \<subseteq> set (ascii ''-+ #0'') \<and> field_width d < 10 ^ 8 \<and>
    (case field_precision d of None \<Rightarrow> True | Some p \<Rightarrow> p < 10 ^ 8)"

definition digits_fit :: "directive \<Rightarrow> bool" where
  "digits_fit d \<longleftrightarrow> (case field_precision d of None \<Rightarrow> True | Some p \<Rightarrow> p \<le> 63)"

fun item_ok :: "mem \<Rightarrow> item \<Rightarrow> bool" where
  "item_ok m (Character ch) \<longleftrightarrow> ch \<noteq> 0 \<and> ch \<noteq> of_char CHR ''%''"
| "item_ok m Percent \<longleftrightarrow> True"
| "item_ok m (Number d cv v) \<longleftrightarrow> directive_ok d \<and> digits_fit d \<and> in_type cv (modifier d) v"
| "item_ok m (One_Char d ch) \<longleftrightarrow> directive_ok d"
| "item_ok m (Text d p s) \<longleftrightarrow> directive_ok d \<and> cstr m p s \<and> length s < 2 ^ 31"
| "item_ok m (Null_Text d) \<longleftrightarrow> directive_ok d"
| "item_ok m (Address d p) \<longleftrightarrow> directive_ok d \<and> digits_fit d \<and> 0 < p \<and> p < 2 ^ 32"

section \<open>Numerals\<close>

lemma radix_0 [simp]: "radix B 0 = []" by (simp add: radix.simps)

lemma radix_step: "0 < v \<Longrightarrow> 2 \<le> B \<Longrightarrow> radix B v = radix B (v div B) @ [v mod B]"
  by (subst radix.simps) simp

lemma radix_digits: "2 \<le> B \<Longrightarrow> d \<in> set (radix B v) \<Longrightarrow> d < B"
proof (induction B v rule: radix.induct)
  case (1 B v)
  then show ?case by (cases "v = 0") (auto simp: radix_step)
qed

lemma radix_length: "2 \<le> B \<Longrightarrow> v < B ^ k \<Longrightarrow> length (radix B v) \<le> k"
proof (induction k arbitrary: v)
  case (Suc k)
  then have "v div B < B ^ k" by (simp add: less_mult_imp_div_less mult.commute)
  with Suc show ?case by (cases "v = 0") (auto simp: radix_step)
qed simp

lemma radix_hd: "2 \<le> B \<Longrightarrow> 0 < v \<Longrightarrow> radix B v \<noteq> [] \<and> 0 < hd (radix B v)"
proof (induction B v rule: radix.induct)
  case (1 B v)
  show ?case
  proof (cases "v div B = 0")
    case True
    then show ?thesis using 1 by (simp add: radix_step div_eq_0_iff)
  next
    case False
    then show ?thesis using 1 by (simp add: radix_step [of v B])
  qed
qed

lemma digit_loop_radix:
  assumes "good_base b"
  shows "length buf + length (radix (base b) v) \<le> 64 \<Longrightarrow>
    digit_loop b False v n buf = Inr (buf @ map ((!) (digits b)) (rev (radix (base b) v)))"
proof (induction v arbitrary: n buf rule: less_induct)
  case (less v)
  show ?case
  proof (cases "v = 0")
    case True
    then show ?thesis by (simp add: digit_loop.simps)
  next
    case False
    have B: "2 \<le> base b" using assms by (simp add: good_base_def)
    then have m: "v mod base b < base b" "v div base b < v" using False by simp_all
    note r = radix_step [of v "base b"]
    have p: "put_char (digits b ! (v mod base b)) buf = Inr (buf @ [digits b ! (v mod base b)])"
      using less.prems r False B by (simp add: put_char_def)
    show ?thesis
      using False B r p good_digit(4) [OF assms m(1)] less.prems
        less.IH [OF m(2), of "buf @ [digits b ! (v mod base b)]" "n + 1"]
      by (subst digit_loop.simps) simp
  qed
qed

lemma precision_loop_fill:
  assumes "length buf \<le> 63" "p \<le> 63"
  shows "precision_loop p buf = Inr (buf @ replicate (nat p - length buf) 0x30)"
proof -
  obtain k where k: "precision_loop p buf = Inr (buf @ replicate k 0x30)"
    "length buf + k = (if int (length buf) < min p 63 then nat (min p 63) else length buf)"
    using precision_loop_text [OF assms(1)] by blast
  have "k = nat p - length buf" using k(2) assms(2) by (auto simp: min_def split: if_splits)
  then show ?thesis using k(1) by simp
qed

section \<open>The digits of the tables\<close>

fun conversion_table :: "conversion \<Rightarrow> integer_base" where
  "conversion_table Octal = base_o"
| "conversion_table Hex = base_x"
| "conversion_table Upper_Hex = base_X"
| "conversion_table _ = base_d"

lemma conversion_table:
  "good_base (conversion_table cv)" "base (conversion_table cv) = conversion_base cv" "8 \<le> conversion_base cv"
  using good_bases [of "conversion_table cv"]
  by (cases cv; simp add: base_d_def base_o_def base_x_def base_X_def)+

lemma table_digits: "i < conversion_base cv \<Longrightarrow> digits (conversion_table cv) ! i = digit_char (cv = Upper_Hex) i"
proof -
  have "\<forall>i \<in> {..<16}. digits base_x ! i = digit_char False i \<and> digits base_X ! i = digit_char True i"
    "\<forall>i \<in> {..<10}. digits base_d ! i = digit_char False i" "\<forall>i \<in> {..<8}. digits base_o ! i = digit_char False i"
    by code_simp+
  then show "i < conversion_base cv \<Longrightarrow> digits (conversion_table cv) ! i = digit_char (cv = Upper_Hex) i"
    by (cases cv) auto
qed

section \<open>Reading a directive\<close>

lemma cstr_split: "cstr m p (s @ t) \<Longrightarrow> cstr m (p + length s) t"
  using cstr_drop by blast

lemma cstr_ld: "cstr m p (ch # s) \<Longrightarrow> ld m p = Inr ch" "cstr m p (ch # s) \<Longrightarrow> cstr m (Suc p) s"
  by simp_all

text \<open>Flags are bits 0 to 5 of the word.\<close>

definition flag_bit :: "byte_t \<Rightarrow> nat" where
  "flag_bit ch = (if ch = 0x2d then 0 else if ch = 0x2b then 1 else if ch = 0x20 then 2
     else if ch = 0x23 then 3 else 4)"

lemma flag_bits_iff:
  "w AND MINUS \<noteq> 0 \<longleftrightarrow> bit w 0" "w AND PLUS \<noteq> 0 \<longleftrightarrow> bit w 1" "w AND SPACE \<noteq> 0 \<longleftrightarrow> bit w 2"
  "w AND POUND \<noteq> 0 \<longleftrightarrow> bit w 3" "w AND ZERO \<noteq> 0 \<longleftrightarrow> bit w 4" "w AND GROUP \<noteq> 0 \<longleftrightarrow> bit w 5"
proof -
  have "w AND 2 ^ n \<noteq> 0 \<longleftrightarrow> bit w n" if "n < 32" for n
    using that by (simp add: and_exp_eq_0_iff_not_bit)
  from this [of 0] this [of 1] this [of 2] this [of 3] this [of 4] this [of 5]
  show "w AND MINUS \<noteq> 0 \<longleftrightarrow> bit w 0" "w AND PLUS \<noteq> 0 \<longleftrightarrow> bit w 1" "w AND SPACE \<noteq> 0 \<longleftrightarrow> bit w 2"
    "w AND POUND \<noteq> 0 \<longleftrightarrow> bit w 3" "w AND ZERO \<noteq> 0 \<longleftrightarrow> bit w 4" "w AND GROUP \<noteq> 0 \<longleftrightarrow> bit w 5"
    by (simp_all add: MINUS_def PLUS_def SPACE_def POUND_def ZERO_def GROUP_def)
qed

lemma flag_clear: "n < 32 \<Longrightarrow> bit (w AND NOT SPACE) n \<longleftrightarrow> bit w n \<and> n \<noteq> 2"
    "n < 32 \<Longrightarrow> bit (w AND NOT ZERO) n \<longleftrightarrow> bit w n \<and> n \<noteq> 4"
proof -
  have e: "SPACE = 2 ^ 2" "ZERO = 2 ^ 4" by (simp_all add: SPACE_def ZERO_def)
  show "n < 32 \<Longrightarrow> bit (w AND NOT SPACE) n \<longleftrightarrow> bit w n \<and> n \<noteq> 2"
    "n < 32 \<Longrightarrow> bit (w AND NOT ZERO) n \<longleftrightarrow> bit w n \<and> n \<noteq> 4"
    unfolding e by (auto simp: bit_and_iff bit_not_iff bit_exp_iff simp del: power_numeral)
qed

definition flag_chars_set :: "byte_t set" where
  "flag_chars_set = {0x2d, 0x2b, 0x20, 0x23, 0x30}"

lemma flag_chars_set: "set (ascii ''-+ #0'') = flag_chars_set"
  by (auto simp: ascii_def flag_chars_set_def)

lemma flags_loop_text:
  assumes "cstr m p (fs @ c # rest)" "set fs \<subseteq> flag_chars_set" "c \<notin> flag_chars_set" "c \<noteq> 0x27"
  shows "\<exists>w. flags_loop m p fl = Inr (p + length fs, w) \<and>
    (\<forall>n < 32. bit w n \<longleftrightarrow> bit fl n \<or> (\<exists>ch \<in> set fs. flag_bit ch = n))"
  using assms(1,2)
proof (induction fs arbitrary: p fl)
  case Nil
  then show ?case using assms(3,4) cstr_ld(1) [of m p c rest]
    by (subst flags_loop.simps) (auto simp: flag_chars_set_def)
next
  case (Cons ch fs)
  have l: "ld m p = Inr ch" and r: "cstr m (Suc p) (fs @ c # rest)" "set fs \<subseteq> flag_chars_set" "ch \<in> flag_chars_set"
    using Cons.prems cstr_ld [of m p ch "fs @ c # rest"] by simp_all
  let ?fl = "fl OR 2 ^ flag_bit ch"
  have "flags_loop m p fl = flags_loop m (Suc p) ?fl"
    using r(3) l
    by (subst flags_loop.simps)
      (auto simp: flag_chars_set_def flag_bit_def MINUS_def PLUS_def SPACE_def POUND_def ZERO_def)
  moreover have "flag_bit ch < 32" by (simp add: flag_bit_def)
  then have "bit ?fl n \<longleftrightarrow> bit fl n \<or> flag_bit ch = n" if "n < 32" for n
    using that by (auto simp: bit_or_iff bit_exp_iff)
  moreover obtain w where "flags_loop m (Suc p) ?fl = Inr (Suc p + length fs, w)"
    "\<forall>n < 32. bit w n \<longleftrightarrow> bit ?fl n \<or> (\<exists>ch \<in> set fs. flag_bit ch = n)"
    using Cons.IH [OF r(1,2)] by blast
  ultimately show ?case by (intro exI [of _ w]) auto
qed

lemma parse_flags_text:
  assumes "cstr m p (fs @ c # rest)" "set fs \<subseteq> flag_chars_set" "c \<notin> flag_chars_set" "c \<noteq> 0x27"
  shows "\<exists>w. parse_flags m p = Inr (p + length fs, w) \<and> (bit w 0 \<longleftrightarrow> 0x2d \<in> set fs) \<and>
    (bit w 1 \<longleftrightarrow> 0x2b \<in> set fs) \<and> (bit w 2 \<longleftrightarrow> 0x20 \<in> set fs \<and> 0x2b \<notin> set fs) \<and>
    (bit w 3 \<longleftrightarrow> 0x23 \<in> set fs) \<and> (bit w 4 \<longleftrightarrow> 0x30 \<in> set fs \<and> 0x2d \<notin> set fs) \<and> \<not> bit w 5"
proof -
  obtain w where w: "flags_loop m p 0 = Inr (p + length fs, w)"
    "\<And>n. n < 32 \<Longrightarrow> bit w n \<longleftrightarrow> (\<exists>ch \<in> set fs. flag_bit ch = n)"
    using flags_loop_text [OF assms, of 0] by auto
  have fi: "\<forall>ch \<in> flag_chars_set. (flag_bit ch = 0 \<longleftrightarrow> ch = 0x2d) \<and> (flag_bit ch = 1 \<longleftrightarrow> ch = 0x2b) \<and>
      (flag_bit ch = 2 \<longleftrightarrow> ch = 0x20) \<and> (flag_bit ch = 3 \<longleftrightarrow> ch = 0x23) \<and> (flag_bit ch = 4 \<longleftrightarrow> ch = 0x30) \<and> flag_bit ch \<noteq> 5"
    by (simp add: flag_chars_set_def flag_bit_def)
  have ex: "(\<exists>ch \<in> set fs. flag_bit ch = n) \<longleftrightarrow> x \<in> set fs" if "\<forall>ch \<in> flag_chars_set. flag_bit ch = n \<longleftrightarrow> ch = x" for n x
    using that assms(2) by (metis subsetD)
  have fb: "(\<exists>ch \<in> set fs. flag_bit ch = 0) \<longleftrightarrow> 0x2d \<in> set fs" "(\<exists>ch \<in> set fs. flag_bit ch = 1) \<longleftrightarrow> 0x2b \<in> set fs"
    "(\<exists>ch \<in> set fs. flag_bit ch = 2) \<longleftrightarrow> 0x20 \<in> set fs" "(\<exists>ch \<in> set fs. flag_bit ch = 3) \<longleftrightarrow> 0x23 \<in> set fs"
    "(\<exists>ch \<in> set fs. flag_bit ch = 4) \<longleftrightarrow> 0x30 \<in> set fs"
    by (rule ex, use fi in simp)+
  have f5: "\<not> (\<exists>ch \<in> set fs. flag_bit ch = 5)" by (simp add: flag_bit_def)
  have b: "bit w 0 \<longleftrightarrow> 0x2d \<in> set fs" "bit w 1 \<longleftrightarrow> 0x2b \<in> set fs" "bit w 2 \<longleftrightarrow> 0x20 \<in> set fs"
    "bit w 3 \<longleftrightarrow> 0x23 \<in> set fs" "bit w 4 \<longleftrightarrow> 0x30 \<in> set fs" "\<not> bit w 5"
    using f5 unfolding fb [symmetric] by (simp_all add: w(2))
  let ?w1 = "if bit w 0 then w AND NOT ZERO else w"
  let ?w2 = "if bit ?w1 1 then ?w1 AND NOT SPACE else ?w1"
  have "parse_flags m p = Inr (p + length fs, ?w2)"
    by (simp add: parse_flags_def w(1) flag_bits_iff Let_def)
  then show ?thesis
    by (intro exI [of _ ?w2]) (use b in \<open>auto simp: flag_clear\<close>)
qed

text \<open>Numbers.\<close>

lemma numeral_text_digits:
  "ch \<in> set (numeral_text n) \<Longrightarrow> isdigit ch" "numeral_text n \<noteq> [] \<Longrightarrow> hd (numeral_text n) \<noteq> 0x30"
  "numeral_text n \<noteq> [] \<Longrightarrow> isdigit (hd (numeral_text n))" "numeral_text n = [] \<longleftrightarrow> n = 0"
proof -
  have d: "d \<in> {..<10} \<Longrightarrow> isdigit (digit_char False d) \<and> (0 < d \<longrightarrow> digit_char False d \<noteq> 0x30)" for d
  proof -
    have "\<forall>d \<in> {..<10}. isdigit (digit_char False d) \<and> (0 < d \<longrightarrow> digit_char False d \<noteq> 0x30)" by code_simp
    then show "d \<in> {..<10} \<Longrightarrow> isdigit (digit_char False d) \<and> (0 < d \<longrightarrow> digit_char False d \<noteq> 0x30)" by blast
  qed
  have r: "d \<in> set (radix 10 n) \<Longrightarrow> d \<in> {..<10}" for d using radix_digits [of 10 d n] by simp
  show i: "ch \<in> set (numeral_text n) \<Longrightarrow> isdigit ch" for ch
    using r d unfolding numeral_text_def by auto
  then show "numeral_text n \<noteq> [] \<Longrightarrow> isdigit (hd (numeral_text n))" by simp
  show "numeral_text n = [] \<longleftrightarrow> n = 0"
    using radix_hd [of 10 n] by (cases "n = 0") (auto simp: numeral_text_def)
  show "hd (numeral_text n) \<noteq> 0x30" if "numeral_text n \<noteq> []"
  proof -
    have "radix 10 n \<noteq> []" "0 < n" using that by (auto simp: numeral_text_def intro!: gr0I)
    then show ?thesis using radix_hd [of 10 n] d [of "hd (radix 10 n)"] r [of "hd (radix 10 n)"]
      by (auto simp: numeral_text_def hd_map)
  qed
qed

lemma digit_char_value: "d < 10 \<Longrightarrow> uint (digit_char False d) = int d + 48"
proof -
  have "\<forall>d \<in> {..<10}. uint (digit_char False d) = int d + 48" by code_simp
  then show "d < 10 \<Longrightarrow> uint (digit_char False d) = int d + 48" by blast
qed

definition number_of_digits :: "nat \<Rightarrow> nat list \<Rightarrow> nat" where
  "number_of_digits n ds = foldl (\<lambda>n d. n * 10 + d) n ds"

lemma number_of_digits_grows: "n \<le> number_of_digits n ds"
proof (induction ds arbitrary: n)
  case (Cons d ds)
  from Cons [of "n * 10 + d"] show ?case by (simp add: number_of_digits_def)
qed (simp add: number_of_digits_def)

lemma number_of_digits_radix: "number_of_digits 0 (radix 10 n) = n"
proof (induction n rule: less_induct)
  case (less n)
  show ?case
  proof (cases "n = 0")
    case False
    then show ?thesis using less [of "n div 10"] by (simp add: radix_step number_of_digits_def)
  qed (simp add: number_of_digits_def)
qed

lemma number_loop_digits:
  assumes "cstr m p (map (digit_char False) ds @ c # rest)" "\<not> isdigit c" "set ds \<subseteq> {..<10}"
    and "number_of_digits n ds < 10 ^ 8"
  shows "number_loop m p (int n) = Inr (p + length ds, int (number_of_digits n ds))"
  using assms(1,3,4)
proof (induction ds arbitrary: p n)
  case Nil
  then show ?case using assms(2) cstr_ld(1) [of m p c rest]
    by (subst number_loop.simps) (simp add: number_of_digits_def)
next
  case (Cons d ds)
  have d: "d < 10" using Cons.prems(2) by simp
  then have dig: "isdigit (digit_char False d)" using numeral_text_digits(1) [of "digit_char False d" d] 
    by (cases "d = 0") (auto simp: numeral_text_def radix_step isdigit_def digit_char_def)
  have l: "ld m p = Inr (digit_char False d)" "cstr m (Suc p) (map (digit_char False) ds @ c # rest)"
    using Cons.prems(1) by simp_all
  have n: "number_of_digits n (d # ds) = number_of_digits (n * 10 + d) ds" by (simp add: number_of_digits_def)
  have "n * 10 + d < 10 ^ 8"
    using number_of_digits_grows [of "n * 10 + d" ds] Cons.prems(3) n by simp
  then have "number_loop m p (int n) = number_loop m (Suc p) (int (n * 10 + d))"
    using l(1) dig digit_char_value [OF d]
    by (subst number_loop.simps) (simp add: int32_def algebra_simps)
  then show ?case using Cons.IH [OF l(2), of "n * 10 + d"] Cons.prems n by simp
qed

lemma number_loop_numeral:
  assumes "cstr m p (numeral_text n @ c # rest)" "\<not> isdigit c" "n < 10 ^ 8"
  shows "number_loop m p 0 = Inr (p + length (numeral_text n), int n)"
proof -
  have "set (radix 10 n) \<subseteq> {..<10}" using radix_digits [of 10] by auto
  then show ?thesis
    using number_loop_digits [of m p "radix 10 n" c rest 0] assms number_of_digits_radix [of n]
    by (simp add: numeral_text_def)
qed

text \<open>What follows a number or a flag: a period, a length modifier or a conversion.\<close>

definition conversion_chars :: "byte_t set" where
  "conversion_chars = {0x64, 0x75, 0x6f, 0x78, 0x58, 0x63, 0x73, 0x70}"

definition modifier_chars :: "byte_t set" where
  "modifier_chars = {0x68, 0x6a, 0x6c, 0x74, 0x7a}"

lemma parse_type_text:
  assumes "cstr m p (modifier_text t @ c # rest)" "c \<in> conversion_chars"
  shows "parse_type m p = Inr (p + length (modifier_text t), t)"
  using assms by (cases t) (auto simp: parse_type_def ascii_def conversion_chars_def)

definition precision_text :: "nat option \<Rightarrow> byte_t list" where
  "precision_text pr = (case pr of None \<Rightarrow> [] | Some n \<Rightarrow> 0x2e # numeral_text n)"

definition precision_value :: "nat option \<Rightarrow> int" where
  "precision_value pr = (case pr of None \<Rightarrow> - 1 | Some n \<Rightarrow> int n)"

lemma parse_precision_text:
  assumes "cstr m p (precision_text pr @ c # rest)" "c \<in> modifier_chars \<union> conversion_chars"
    and "\<And>n. pr = Some n \<Longrightarrow> n < 10 ^ 8"
  shows "parse_precision m p args = Inr (p + length (precision_text pr), precision_value pr, args)"
proof (cases pr)
  case None
  then have "ld m p = Inr c" "c \<noteq> 0x2e"
    using assms(1,2) by (auto simp: precision_text_def modifier_chars_def conversion_chars_def)
  then show ?thesis using None by (simp add: parse_precision_def precision_text_def precision_value_def)
next
  case (Some n)
  have c: "\<not> isdigit c" "c \<noteq> 0x2a" using assms(2) by (auto simp: isdigit_def modifier_chars_def conversion_chars_def)
  have l: "ld m p = Inr 0x2e" "cstr m (Suc p) (numeral_text n @ c # rest)"
    using assms(1) Some by (simp_all add: precision_text_def)
  obtain ch where ch: "ld m (Suc p) = Inr ch" "ch \<noteq> 0x2a"
  proof (cases "numeral_text n")
    case Nil
    then show thesis using l(2) c(2) that by simp
  next
    case (Cons x xs)
    then have "isdigit x" using numeral_text_digits(3) [of n] by simp
    then have "x \<noteq> 0x2a" by (auto simp: isdigit_def)
    then show thesis using l(2) Cons that by simp
  qed
  show ?thesis
    using l ch number_loop_numeral [OF l(2) c(1)] assms(3) [OF Some] Some
    by (simp add: parse_precision_def precision_text_def precision_value_def)
qed

lemma parse_width_text:
  assumes "cstr m p (numeral_text w @ c # rest)" "c \<in> insert 0x2e (modifier_chars \<union> conversion_chars)" "w < 10 ^ 8"
  shows "parse_width m p fl args = Inr (p + length (numeral_text w), fl, int w, args)"
proof -
  have c: "\<not> isdigit c" "c \<noteq> 0x2a" using assms(2) by (auto simp: isdigit_def modifier_chars_def conversion_chars_def)
  obtain ch where ch: "ld m p = Inr ch" "ch \<noteq> 0x2a"
  proof (cases "numeral_text w")
    case Nil
    then show thesis using assms(1) c(2) that by simp
  next
    case (Cons x xs)
    then have "isdigit x" using numeral_text_digits(3) [of w] by simp
    then have "x \<noteq> 0x2a" by (auto simp: isdigit_def)
    then show thesis using assms(1) Cons that by simp
  qed
  show ?thesis using ch number_loop_numeral [OF assms(1) c(1) assms(3)] by (simp add: parse_width_def)
qed

text \<open>The parsed conversion, by what its flags say.\<close>

definition parsed :: "directive \<Rightarrow> printf_conversion \<Rightarrow> bool" where
  "parsed d c \<longleftrightarrow> width c = int (field_width d) \<and> precision c = precision_value (field_precision d) \<and>
    type_of c = modifier d \<and> flag c MINUS = has_flag d CHR ''-'' \<and> flag c PLUS = has_flag d CHR ''+'' \<and>
    flag c SPACE = (has_flag d CHR '' '' \<and> \<not> has_flag d CHR ''+'') \<and> flag c POUND = has_flag d CHR ''#'' \<and>
    flag c ZERO = (has_flag d CHR ''0'' \<and> \<not> has_flag d CHR ''-'' \<and> field_precision d = None) \<and> \<not> flag c GROUP"

lemma directive_text_split:
  "directive_text d ch = 0x25 # flag_chars d @ numeral_text (field_width d) @ precision_text (field_precision d) @
     modifier_text (modifier d) @ [of_char ch]"
  by (simp add: directive_text_def precision_text_def split: option.splits)

lemma modifier_head:
  "c \<in> conversion_chars \<Longrightarrow> \<exists>h r. modifier_text t @ c # rest = h # r \<and> h \<in> modifier_chars \<union> conversion_chars"
  by (cases t) (auto simp: ascii_def modifier_chars_def)

lemma precision_head:
  assumes "h \<in> modifier_chars \<union> conversion_chars"
  shows "\<exists>h' r'. precision_text pr @ h # r = h' # r' \<and> h' \<in> insert 0x2e (modifier_chars \<union> conversion_chars)"
  using assms by (cases pr) (auto simp: precision_text_def)

lemma width_head:
  assumes "h \<in> insert 0x2e (modifier_chars \<union> conversion_chars)"
  shows "\<exists>h' r'. numeral_text w @ h # r = h' # r' \<and> h' \<notin> flag_chars_set \<and> h' \<noteq> 0x27 \<and> h' \<noteq> 0x25"
proof (cases "numeral_text w")
  case Nil
  then show ?thesis using assms by (auto simp: flag_chars_set_def modifier_chars_def conversion_chars_def)
next
  case (Cons x xs)
  then have "isdigit x" "x \<noteq> 0x30" using numeral_text_digits(2,3) [of w] by auto
  then have "x \<notin> flag_chars_set \<and> x \<noteq> 0x27 \<and> x \<noteq> 0x25" by (auto simp: flag_chars_set_def isdigit_def)
  then show ?thesis using Cons by simp
qed

lemma parse_conversion_text:
  assumes "cstr m p (tl (directive_text d ch) @ rest)" "of_char ch \<in> conversion_chars" "directive_ok d"
  shows "\<exists>c. parse_conversion m p args = Inr (p + length (directive_text d ch) - 2, c, args) \<and> parsed d c \<and>
    ld m (p + length (directive_text d ch) - 2) = Inr (of_char ch) \<and> (\<exists>x. ld m p = Inr x \<and> x \<noteq> 0x25)"
proof -
  let ?f = "flag_chars d" and ?w = "numeral_text (field_width d)" and ?pr = "precision_text (field_precision d)"
    and ?t = "modifier_text (modifier d)" and ?ch = "of_char ch :: byte_t"
  have f: "set ?f \<subseteq> flag_chars_set" using assms(3) by (simp add: directive_ok_def flag_chars_set)
  have wp: "field_width d < 10 ^ 8" "\<And>n. field_precision d = Some n \<Longrightarrow> n < 10 ^ 8"
    using assms(3) by (auto simp: directive_ok_def)
  have m1: "cstr m p (?f @ ?w @ ?pr @ ?t @ ?ch # rest)" using assms(1) by (simp add: directive_text_split)
  have m2: "cstr m (p + length ?f) (?w @ ?pr @ ?t @ ?ch # rest)" using cstr_split [OF m1] .
  have m3: "cstr m (p + length ?f + length ?w) (?pr @ ?t @ ?ch # rest)" using cstr_split [OF m2] .
  have m4: "cstr m (p + length ?f + length ?w + length ?pr) (?t @ ?ch # rest)" using cstr_split [OF m3] .
  have m5: "cstr m (p + length ?f + length ?w + length ?pr + length ?t) (?ch # rest)" using cstr_split [OF m4] .
  obtain h3 r3 where h3: "?t @ ?ch # rest = h3 # r3" "h3 \<in> modifier_chars \<union> conversion_chars"
    using modifier_head [OF assms(2)] by blast
  obtain h2 r2 where h2: "?pr @ h3 # r3 = h2 # r2" "h2 \<in> insert 0x2e (modifier_chars \<union> conversion_chars)"
    using precision_head [OF h3(2)] by blast
  obtain h1 r1 where h1: "?w @ h2 # r2 = h1 # r1" "h1 \<notin> flag_chars_set" "h1 \<noteq> 0x27" "h1 \<noteq> 0x25"
    using width_head [OF h2(2)] by blast
  obtain fl where fl: "parse_flags m p = Inr (p + length ?f, fl)" "bit fl 0 \<longleftrightarrow> 0x2d \<in> set ?f"
    "bit fl 1 \<longleftrightarrow> 0x2b \<in> set ?f" "bit fl 2 \<longleftrightarrow> 0x20 \<in> set ?f \<and> 0x2b \<notin> set ?f" "bit fl 3 \<longleftrightarrow> 0x23 \<in> set ?f"
    "bit fl 4 \<longleftrightarrow> 0x30 \<in> set ?f \<and> 0x2d \<notin> set ?f" "\<not> bit fl 5"
    using parse_flags_text [OF m1 [unfolded h3 h2 h1] f h1(2,3)] by blast
  let ?fl = "if precision_value (field_precision d) \<ge> 0 then fl AND NOT ZERO else fl"
  let ?c = "\<lparr>flags = ?fl, width = int (field_width d), precision = precision_value (field_precision d), type_of = modifier d\<rparr>"
  have n: "p + length (directive_text d ch) - 2 = p + length ?f + length ?w + length ?pr + length ?t"
    by (simp add: directive_text_split)
  have "parse_conversion m p args = Inr (p + length (directive_text d ch) - 2, ?c, args)"
    unfolding n
    using fl(1) parse_width_text [OF m2 [unfolded h3 h2] h2(2) wp(1)] parse_precision_text [OF m3 [unfolded h3] h3(2) wp(2)]
      parse_type_text [OF m4 assms(2)]
    by (simp add: parse_conversion_def Let_def)
  moreover have "parsed d ?c"
    using fl(2-7)
    by (auto simp: parsed_def flag_def flag_bits_iff has_flag_def precision_value_def flag_clear split: option.splits)
  moreover have "ld m (p + length (directive_text d ch) - 2) = Inr ?ch" unfolding n using m5 by simp
  moreover have "\<exists>x. ld m p = Inr x \<and> x \<noteq> 0x25"
  proof (cases ?f)
    case Nil
    then show ?thesis using m1 [unfolded h3 h2 h1] h1(4) by simp
  next
    case (Cons x xs)
    then have "x \<noteq> 0x25" using f by (auto simp: flag_chars_set_def)
    then show ?thesis using m1 Cons by simp
  qed
  ultimately show ?thesis by blast
qed

section \<open>Printing a number\<close>

lemma last_rev_take: "(buf = [] \<or> List.last buf \<noteq> ch) \<longleftrightarrow> take 1 (rev buf) \<noteq> [ch]"
  by (cases buf rule: rev_cases) auto

lemma format_integer_exact:
  assumes "good_base b" "\<not> flag c GROUP" "length (radix (base b) v) \<le> 63" "precision c \<le> 63"
    and "ds = map ((!) (digits b)) (radix (base b) v)"
    and "ds1 = replicate (nat (if precision c < 0 then 1 else precision c) - length ds) 0x30 @ ds"
  shows "format_integer v sg neg b c text_out a =
    Inr (a @ integer_text c (sign_char sg neg c) (if flag c POUND \<and> v \<noteq> 0 then x_char b else 0)
      (if flag c POUND \<and> base b = 8 \<and> take 1 ds1 \<noteq> [0x30] then 0x30 # ds1 else ds1))"
proof -
  let ?p = "if precision c < 0 then 1 else precision c"
  have d: "digit_loop b (flag c GROUP) v 0 [] = Inr (rev ds)"
    using digit_loop_radix [OF assms(1), of "[]" v 0] assms(2,3,5) by (simp add: rev_map)
  have ds: "length ds \<le> 63" using assms(3,5) by simp
  then have p: "precision_loop ?p (rev ds) = Inr (rev ds1)"
    using precision_loop_fill [of "rev ds" ?p] assms(4,6) by simp
  have "length ds1 \<le> 63" using ds assms(4,6) by auto
  then have o: "(if flag c POUND \<and> base b = 8 \<and> (rev ds1 = [] \<or> List.last (rev ds1) \<noteq> 0x30)
      then put_char 0x30 (rev ds1) else Inr (rev ds1)) =
      Inr (rev (if flag c POUND \<and> base b = 8 \<and> take 1 ds1 \<noteq> [0x30] then 0x30 # ds1 else ds1))"
    unfolding last_rev_take by (simp add: put_char_def)
  show ?thesis
    unfolding format_integer_def Let_def d bindE.simps p o
    using integer_layout [unfolded Let_def, of c "rev (if flag c POUND \<and> base b = 8 \<and> take 1 ds1 \<noteq> [0x30] then 0x30 # ds1 else ds1)"]
    by (simp only: rev_rev_ident)
qed

lemma integer_text_field:
  assumes "parsed d c" "pre = char_text sign @ (if x = 0 then [] else [0x30, x])"
  shows "integer_text c sign x body =
    field (has_flag d CHR ''-'') (has_flag d CHR ''0'' \<and> field_precision d = None) (field_width d) pre body"
proof -
  have n: "nat (width c - int (length (pre @ body))) = field_width d - length (pre @ body)"
    using assms(1) by (simp add: parsed_def nat_diff_distrib')
  show ?thesis
    using assms(1) unfolding integer_text_def Let_def assms(2) [symmetric] n field_def by (auto simp: parsed_def)
qed

lemma format_number:
  assumes "parsed d c" "digits_fit d" "nat \<bar>v\<bar> < 2 ^ 64" "cv \<noteq> Signed_Decimal \<Longrightarrow> 0 \<le> v"
  shows "format_integer (nat \<bar>v\<bar>) (cv = Signed_Decimal) (v < 0) (conversion_table cv) c text_out a =
    Inr (a @ number_text d cv v)"
proof -
  let ?b = "conversion_table cv" and ?n = "nat \<bar>v\<bar>"
  note t = conversion_table [of cv]
  have "(2 :: nat) ^ 64 \<le> 8 ^ 22" by simp
  also have "(8 :: nat) ^ 22 \<le> conversion_base cv ^ 22" by (rule power_mono [OF t(3)]) simp
  finally have len: "length (radix (base ?b) ?n) \<le> 63"
    using radix_length [of "base ?b" ?n 22] t assms(3) by simp
  let ?ds = "map (digit_char (cv = Upper_Hex)) (radix (conversion_base cv) ?n)"
  let ?ds1 = "replicate (case_option 1 id (field_precision d) - length ?ds) 0x30 @ ?ds"
  have ds: "?ds = map ((!) (digits ?b)) (radix (base ?b) ?n)"
    using t(2,3) radix_digits [of "conversion_base cv"] by (auto simp: table_digits)
  have ds1: "?ds1 = replicate (nat (if precision c < 0 then 1 else precision c) - length ?ds) 0x30 @ ?ds"
    using assms(1) by (auto simp: parsed_def precision_value_def split: option.splits)
  have pr: "precision c \<le> 63" "\<not> flag c GROUP" and po: "flag c POUND = has_flag d CHR ''#''"
    using assms(1,2) by (auto simp: parsed_def digits_fit_def precision_value_def split: option.splits)
  let ?sign = "sign_char (cv = Signed_Decimal) (v < 0) c" and ?x = "if flag c POUND \<and> ?n \<noteq> 0 then x_char ?b else 0"
  let ?pre = "if cv = Signed_Decimal then sign_text d v
    else if has_flag d CHR ''#'' \<and> v \<noteq> 0 \<and> cv = Hex then ascii ''0x''
    else if has_flag d CHR ''#'' \<and> v \<noteq> 0 \<and> cv = Upper_Hex then ascii ''0X'' else []"
  have pre: "?pre = char_text ?sign @ (if ?x = 0 then [] else [0x30, ?x])"
    using assms(1) by (cases cv)
      (auto simp: sign_text_def sign_char_def char_text_def parsed_def ascii_def base_d_def base_o_def base_x_def base_X_def)
  have eight: "base ?b = 8 \<longleftrightarrow> cv = Octal" using t(2) by (cases cv) auto
  show ?thesis
    using format_integer_exact [OF t(1) pr(2) len pr(1) ds ds1, of "cv = Signed_Decimal" "v < 0" a]
      integer_text_field [OF assms(1) pre]
    unfolding po eight number_text_def Let_def by simp
qed

section \<open>Printing a string\<close>

lemma string_loop_text:
  "take n (drop p m) = s \<Longrightarrow> length s = n \<Longrightarrow> 0 < p \<Longrightarrow> string_loop m p n text_out a = Inr (a @ s)"
proof (induction n arbitrary: p s a)
  case (Suc n)
  have p: "p < length m" using Suc.prems(1,2) by (cases "p < length m") auto
  then have s: "s = m ! p # take n (drop (Suc p) m)"
    using Suc.prems(1) by (simp add: Cons_nth_drop_Suc [symmetric])
  have "ld m p = Inr (m ! p)" using p Suc.prems(3) by (simp add: ld_eq_Inr)
  then show ?case
    using Suc.IH [OF refl, of "Suc p"] Suc.prems(2) s by (simp add: text_out_def)
qed simp

lemma strnlen_loop_cstr:
  "cstr m p s \<Longrightarrow> k \<le> length s \<Longrightarrow> k \<le> n \<Longrightarrow> strnlen_loop m p n k = Inr (min (length s) n)"
proof (induction "length s - k" arbitrary: k)
  case 0
  then have "k = length s" by simp
  moreover have "ld m (p + length s) = Inr 0"
    using 0 cstr_end [of m p s] cstr_bounds [of m p s] cstr_pos [of m p s] by (simp add: ld_eq_Inr)
  ultimately show ?case using 0 by (simp add: strnlen_loop.simps)
next
  case (Suc j)
  then have k: "k < length s" by simp
  have "m ! (p + k) = s ! k" using cstr_nth [OF Suc.prems(1) k] .
  then have l: "ld m (p + k) = Inr (s ! k)" "s ! k \<noteq> 0"
    using Suc.prems(1) k cstr_bounds [of m p s] cstr_pos [of m p s] cstr_nonzero [of m p s]
    by (auto simp: ld_eq_Inr) (metis nth_mem)
  show ?case
    using l k Suc.hyps(1) [of "k + 1"] Suc.hyps(2) Suc.prems by (subst strnlen_loop.simps) (auto simp: min_def)
qed

lemma format_string_field:
  assumes "parsed d c" "take n (drop p m) = s" "length s = n" "0 < p"
  shows "format_string m p n c text_out a = Inr (a @ field (has_flag d CHR ''-'') False (field_width d) [] s)"
proof -
  have w: "width c = int (field_width d)" "flag c MINUS = has_flag d CHR ''-''"
    using assms(1) by (simp_all add: parsed_def)
  show ?thesis
    using string_loop_text [OF assms(2-4)] assms(3) unfolding format_string_def w
    by (auto simp: Let_def dup_text field_def nat_diff_distrib')
qed

lemma convert_string:
  assumes "parsed d c" "cstr m p s" "length s < 2 ^ 31" "directive_ok d"
  shows "bindE (strnlen p (if precision c = - 1 then nat SIZE_MAX_int else nat (precision c)) m)
    (\<lambda>n. bindE (format_string m p n c text_out a) (\<lambda>s. Inr (args, s))) = Inr (args, a @ string_text d s)"
proof -
  let ?mx = "if precision c = - 1 then nat SIZE_MAX_int else nat (precision c)"
  let ?s = "case field_precision d of None \<Rightarrow> s | Some p \<Rightarrow> take p s"
  have "strnlen p ?mx m = Inr (min (length s) ?mx)"
    using strnlen_loop_cstr [OF assms(2), of 0 ?mx] by (simp add: strnlen_def)
  moreover have l: "min (length s) ?mx = length ?s"
    using assms(1,3) by (auto simp: parsed_def precision_value_def SIZE_MAX_int_def min_def split: option.splits)
  moreover have "take (length ?s) (drop p m) = ?s"
  proof -
    have "take (length ?s) (drop p m) = take (length ?s) (take (length s) (drop p m))"
      using l by (simp add: min_def split: if_splits)
    then show ?thesis unfolding cstr_take [OF assms(2)] by (auto split: option.splits simp: min_def)
  qed
  ultimately show ?thesis
    using format_string_field [OF assms(1) _ refl cstr_pos [OF assms(2)], of ?s m a] by (simp add: string_text_def)
qed

section \<open>Arguments\<close>

lemma sint_arg:
  assumes "- (2 ^ (LENGTH('a) - 1)) \<le> v" "v < 2 ^ (LENGTH('a) - 1)"
  shows "sint (word_of_int v :: 'a :: len word) = v"
  using assms by (simp add: signed_of_int signed_take_bit_int_eq_self)

lemma uint_arg:
  assumes "0 \<le> v" "v < 2 ^ LENGTH('a)"
  shows "uint (word_of_int v :: 'a :: len word) = v" "unat (word_of_int v :: 'a :: len word) = nat v"
proof -
  show u: "uint (word_of_int v :: 'a :: len word) = v"
    using assms by (simp add: uint_word_of_int take_bit_int_eq_self)
  show "unat (word_of_int v :: 'a :: len word) = nat v"
    unfolding unat_eq_nat_uint u ..
qed

lemma narrow_arg:
  "(ucast (word_of_int v :: word_t) :: 8 word) = word_of_int v"
  "(ucast (word_of_int v :: word_t) :: 16 word) = word_of_int v"
  by (rule bit_word_eqI; simp add: bit_unsigned_iff bit_word_of_int_iff)+

lemma signed_arg_value:
  assumes "in_type Signed_Decimal t v"
  shows "signed_arg t (number_arg t v # args) = Inr (v, args)"
proof (cases t)
  case SIZET_type
  have b: "- (2 ^ 31) \<le> v" "v < 2 ^ 31" using assms SIZET_type by (simp_all add: in_type_def)
  have "uint (word_of_int v :: word_t) = (if v < 0 then v + 2 ^ 32 else v)"
  proof (cases "v < 0")
    case True
    have "uint (word_of_int v :: word_t) = (v + 2 ^ 32) mod 2 ^ 32"
      by (simp add: uint_word_of_int)
    also have "\<dots> = v + 2 ^ 32" using True b by (intro mod_pos_pos_trivial) auto
    finally show ?thesis using True by simp
  next
    case False
    then show ?thesis using uint_arg(1) [where 'a = 32, of v] b by simp
  qed
  then show ?thesis
    using b SIZET_type by (auto simp: signed_arg_def number_arg_def SIZE_MAX_int_def Let_def)
qed (use assms in \<open>simp_all add: signed_arg_def number_arg_def narrow_arg in_type_def sint_arg\<close>)

lemma unsigned_arg_value:
  assumes "in_type cv t v" "cv \<noteq> Signed_Decimal"
  shows "unsigned_arg t (number_arg t v # args) = Inr (nat v, args)"
proof (cases t)
  case PTRDIFFT_type
  have b: "0 \<le> v" "v < 2 ^ 32" using assms PTRDIFFT_type by (simp_all add: in_type_def)
  have m: "(0xffffffff :: 64 word) = mask 32" by (simp add: mask_eq_exp_minus_1)
  have mn: "min 31 n = n" "min n 31 = n" if "n < 32" for n :: nat using that by auto
  have "(scast (word_of_int v :: word_t) :: 64 word) AND mask 32 = word_of_int (take_bit 32 v)"
    by (rule bit_word_eqI)
      (auto simp: bit_and_iff bit_mask_iff bit_signed_iff bit_word_of_int_iff bit_take_bit_iff mn)
  then have "unat ((scast (word_of_int v :: word_t) :: 64 word) AND 0xffffffff) = nat v"
    unfolding m using uint_arg(2) [where 'a = 64, of v] b by (simp add: take_bit_int_eq_self)
  then show ?thesis using PTRDIFFT_type by (simp add: unsigned_arg_def number_arg_def)
qed (use assms in \<open>simp_all add: unsigned_arg_def number_arg_def narrow_arg in_type_def uint_arg\<close>)

lemma in_type_bound:
  assumes "in_type cv t v"
  shows "nat \<bar>v\<bar> < 2 ^ 64" "cv = Signed_Decimal \<Longrightarrow> v < 0 \<Longrightarrow> int64 (- v) = Inr (- v)"
proof -
  have "- (2 ^ 63) \<le> v \<and> v < 2 ^ 64 \<and> (cv = Signed_Decimal \<longrightarrow> v < 2 ^ 63 \<and> v \<noteq> - (2 ^ 63))"
    using assms by (cases t) (auto simp: in_type_def split: if_splits)
  then show "nat \<bar>v\<bar> < 2 ^ 64" "cv = Signed_Decimal \<Longrightarrow> v < 0 \<Longrightarrow> int64 (- v) = Inr (- v)"
    by (auto simp: int64_def nat_less_iff)
qed

section \<open>Printing an item\<close>

lemma convert_number:
  assumes "parsed d c" "digits_fit d" "in_type cv (modifier d) v"
  shows "convert m (of_char (conversion_char cv)) c (number_arg (modifier d) v # args) text_out a =
    Inr (args, a @ number_text d cv v)"
proof -
  have t: "type_of c = modifier d" using assms(1) by (simp add: parsed_def)
  note b = in_type_bound [OF assms(3)]
  have nn: "cv \<noteq> Signed_Decimal \<Longrightarrow> 0 \<le> v" using assms(3) by (simp add: in_type_def)
  have f: "format_integer (nat \<bar>v\<bar>) (cv = Signed_Decimal) (v < 0) (conversion_table cv) c text_out a =
      Inr (a @ number_text d cv v)"
    using format_number [OF assms(1,2) b(1)] nn by blast
  show ?thesis
  proof (cases "cv = Signed_Decimal")
    case True
    have "(if v < 0 then int64 (- v) else Inr v) = Inr \<bar>v\<bar>" using b(2) True by auto
    then show ?thesis
      using f signed_arg_value [of "modifier d" v args] assms(3) True t by (simp add: convert_def)
  next
    case False
    then show ?thesis
      using f nn unsigned_arg_value [OF assms(3) False, of args] t by (cases cv) (simp_all add: convert_def)
  qed
qed

lemma convert_address:
  assumes "parsed d c" "digits_fit d" "p < 2 ^ 32"
  shows "convert m 0x70 c (Pointer_Arg p # args) text_out a =
    Inr (args, a @ number_text (d\<lparr>flag_chars := ascii ''#''\<rparr>) Hex (int p))"
proof -
  have "parsed (d\<lparr>flag_chars := ascii ''#''\<rparr>) (c\<lparr>flags := POUND\<rparr>)"
    using assms(1) by (simp add: parsed_def flag_def has_flag_def ascii_def MINUS_def PLUS_def SPACE_def POUND_def
        ZERO_def GROUP_def)
  from format_number [OF this _ _, of "int p" Hex a] assms(2,3)
  show ?thesis by (simp add: convert_def digits_fit_def)
qed

lemma convert_item:
  assumes "parsed d c" "directive_ok d"
  shows "convert m 0x63 c (Word_Arg (ucast ch) # args) text_out a =
      Inr (args, a @ field (has_flag d CHR ''-'') False (field_width d) [] [ch])"
    "cstr m p s \<Longrightarrow> length s < 2 ^ 31 \<Longrightarrow> convert m 0x73 c (Pointer_Arg p # args) text_out a =
      Inr (args, a @ string_text d s)"
    "convert m 0x73 c (Pointer_Arg 0 # args) text_out a = Inr (args, a @ string_text d (ascii ''(null)''))"
proof -
  have "(ucast (ucast ch :: word_t) :: byte_t) = ch" by (rule bit_word_eqI) (simp add: bit_unsigned_iff)
  then show "convert m 0x63 c (Word_Arg (ucast ch) # args) text_out a =
      Inr (args, a @ field (has_flag d CHR ''-'') False (field_width d) [] [ch])"
    using format_string_field [OF assms(1), of 1 1 "[0, ch]" "[ch]" a] by (simp add: convert_def)
  show "convert m 0x73 c (Pointer_Arg p # args) text_out a = Inr (args, a @ string_text d s)"
    if "cstr m p s" "length s < 2 ^ 31"
    using convert_string [OF assms(1) that assms(2), of a args] cstr_pos [OF that(1)]
    by (simp add: convert_def)
  have "cstr null_text 1 (ascii ''(null)'')" by (simp add: null_text_def literal_def ascii_def)
  from convert_string [OF assms(1) this _ assms(2), of a args]
  show "convert m 0x73 c (Pointer_Arg 0 # args) text_out a = Inr (args, a @ string_text d (ascii ''(null)''))"
    by (simp add: convert_def ascii_def)
qed

lemma vprintf_directive:
  assumes "cstr m p (directive_text d ch @ rest)" "of_char ch \<in> conversion_chars" "directive_ok d"
    and "\<And>c. parsed d c \<Longrightarrow> convert m (of_char ch) c (as @ args) text_out a = Inr (args, a @ t)"
  shows "vprintf_loop n m p (as @ args) text_out a =
    vprintf_loop n m (p + length (directive_text d ch)) args text_out (a @ t)"
proof -
  have h: "directive_text d ch = 0x25 # tl (directive_text d ch)" "2 \<le> length (directive_text d ch)"
    by (simp_all add: directive_text_split)
  have l: "ld m p = Inr 0x25" "cstr m (Suc p) (tl (directive_text d ch) @ rest)"
    using assms(1) cstr_ld [of m p "0x25" "tl (directive_text d ch) @ rest"] h(1) by (metis append_Cons)+
  obtain c x where c: "parse_conversion m (Suc p) (as @ args) = Inr (Suc p + length (directive_text d ch) - 2, c, as @ args)"
    "parsed d c" "ld m (Suc p + length (directive_text d ch) - 2) = Inr (of_char ch)" "ld m (Suc p) = Inr x" "x \<noteq> 0x25"
    using parse_conversion_text [OF l(2) assms(2,3)] by blast
  have cv: "convertible (of_char ch)" using assms(2) by (auto simp: conversion_chars_def convertible_def)
  have e: "Suc (Suc p + length (directive_text d ch) - 2) = p + length (directive_text d ch)" using h(2) by simp
  show ?thesis
    using l(1) c(1,3-5) cv assms(4) [OF c(2)] e
    by (subst vprintf_loop.simps) simp
qed

lemma vprintf_item:
  assumes "cstr m p (item_format i @ rest)" "item_ok m i"
  shows "vprintf_loop n m p (item_args i @ args) text_out a =
    vprintf_loop n m (p + length (item_format i)) args text_out (a @ item_text i)"
proof (cases i)
  case (Character ch)
  then show ?thesis using assms by (subst vprintf_loop.simps) (simp add: text_out_def)
next
  case Percent
  then show ?thesis using assms by (subst vprintf_loop.simps) (simp add: text_out_def ascii_def)
next
  case (Number d cv v)
  have "of_char (conversion_char cv) \<in> conversion_chars" by (cases cv) (simp_all add: conversion_chars_def)
  with assms Number show ?thesis
    using vprintf_directive [where as = "[number_arg (modifier d) v]" and t = "number_text d cv v"] convert_number
    by simp
next
  case (One_Char d ch)
  then show ?thesis
    using assms vprintf_directive [where as = "[Word_Arg (ucast ch)]"] convert_item(1)
    by (simp add: conversion_chars_def)
next
  case (Text d q s)
  then show ?thesis
    using assms vprintf_directive [where as = "[Pointer_Arg q]" and t = "string_text d s"] convert_item(2)
    by (simp add: conversion_chars_def)
next
  case (Null_Text d)
  then show ?thesis
    using assms vprintf_directive [where as = "[Pointer_Arg 0]" and t = "string_text d (ascii ''(null)'')"] convert_item(3)
    by (simp add: conversion_chars_def)
next
  case (Address d q)
  then show ?thesis
    using assms vprintf_directive [where as = "[Pointer_Arg q]"] convert_address
    by (simp add: conversion_chars_def)
qed

lemma vprintf_items:
  assumes "cstr m p (concat (map item_format is))" "list_all (item_ok m) is"
  shows "vprintf_loop n m p (concat (map item_args is)) text_out a = Inr (a @ concat (map item_text is))"
  using assms
proof (induction "is" arbitrary: p a)
  case Nil
  then show ?case by (subst vprintf_loop.simps) (simp add: ld_eq_Inr)
next
  case (Cons i "is")
  then show ?case
    using vprintf_item [of m p i "concat (map item_format is)" n "concat (map item_args is)" a]
      cstr_split [of m p "item_format i" "concat (map item_format is)"]
    by simp
qed

section \<open>The property\<close>

text \<open>C23: \<open>__vprintf\<close> prints what its format says. For every format made of characters, \<open>%%\<close> and
  directives with any of the flags \<open>-\<close>, \<open>+\<close>, space, \<open>#\<close> and \<open>0\<close> in any order, any width, precision
  and length modifier and the conversions \<open>d\<close>, \<open>u\<close>, \<open>o\<close>, \<open>x\<close>, \<open>X\<close>, \<open>c\<close>, \<open>s\<close> and \<open>p\<close>, and for arguments that
  fit their types, it outputs exactly the text that \<open>item_text\<close> gives each item, in order, with
  any output function. Widths and precisions are below \<open>10 ^ 8\<close>, and the precision of a number is at
  most 63; the flag \<open>'\<close> and widths and precisions of \<open>*\<close> are not among these formats.\<close>

theorem vprintf_correct:
  assumes "cstr m p (concat (map item_format items))" "list_all (item_ok m) items"
  shows "vprintf m p (concat (map item_args items)) output s =
    output_buf (concat (map item_text items)) output s"
  using vprintf_items [OF assms, of 1 "[]"] by (intro vprintf_text) (simp add: vprintf_def)

text \<open>\<open>%+05d|%-6.2s|%#x%%\<close> of 42, a string and 255, and \<open>%3hhd\<close> of -7.\<close>

lemma vprintf_correct_witness:
  "vprintf (literal (ascii ''%+05d|%-6.2s|%#x%%%3hhd'') @ ascii ''abc'' @ [0]) 1
     [Word_Arg 42, Pointer_Arg 25, Word_Arg 255, Word_Arg (- 7)] text_out [] =
   Inr (ascii ''+0042|ab    |0xff% -7'')"
proof -
  let ?d = "\<lambda>fl w p t. \<lparr>flag_chars = ascii fl, field_width = w, field_precision = p, modifier = t\<rparr>"
  let ?items = "[Number (?d ''+0'' 5 None INT_type) Signed_Decimal 42, Character 0x7c,
    Text (?d ''-'' 6 (Some 2) INT_type) 25 (ascii ''abc''), Character 0x7c,
    Number (?d ''#'' 0 None INT_type) Hex 255, Percent, Number (?d [] 3 None CHAR_type) Signed_Decimal (- 7)]"
  let ?m = "literal (ascii ''%+05d|%-6.2s|%#x%%%3hhd'') @ ascii ''abc'' @ [0]"
  have "concat (map item_format ?items) = ascii ''%+05d|%-6.2s|%#x%%%3hhd''" by code_simp
  moreover have "cstr ?m 1 (ascii ''%+05d|%-6.2s|%#x%%%3hhd'')" "cstr ?m 25 (ascii ''abc'')" by code_simp+
  ultimately have "cstr ?m 1 (concat (map item_format ?items))" "list_all (item_ok ?m) ?items"
    by (simp_all add: directive_ok_def digits_fit_def in_type_def) (simp_all add: ascii_def)
  from vprintf_correct [OF this, of text_out "[]"]
  have "vprintf ?m 1 (concat (map item_args ?items)) text_out [] = Inr (concat (map item_text ?items))"
    by (simp only: buf_text append.simps)
  moreover have "concat (map item_text ?items) = ascii ''+0042|ab    |0xff% -7''" by code_simp
  ultimately show ?thesis by (simp add: number_arg_def)
qed

end
