(* ===== verification/Pintos_Inode.thy ===== *)
theory Pintos_Inode
  imports Pintos_Pages Pintos_Stdlib "HOL-Library.Signed_Division"
begin

text \<open>
  Inodes and files of Pintos: \<open>src/filesys/inode.c\<close>, \<open>file.c\<close>, \<open>free-map.c\<close> over the block layer of
  \<open>devices/block.c\<close>. The device of the file system is a list of sectors of 512 bytes, behind the
  operations of its driver. \<open>struct inode\<close> and \<open>struct file\<close> live in the heaps \<open>inode_heap\<close> and
  \<open>file_heap\<close> under their addresses; following an address that is not there is an error. \<open>open_inodes\<close>
  is the list of their addresses, by what \<open>Pintos_List\<close> shows of \<open>list.c\<close>. What \<open>malloc\<close> answers to the
  calls to come is the sequence \<open>mallocs\<close>, where 0 is a failure. An \<open>off_t\<close> that is computed with is an
  \<open>int\<close> with checks against overflow, one that is stored a word, \<open>block_sector_t\<close> a word. Buffers are lists of bytes.
\<close>

section \<open>Blocks of bytes\<close>

type_synonym addr = nat

definition get_block :: "byte_t list \<Rightarrow> int \<Rightarrow> int \<Rightarrow> c_error + byte_t list" where
  "get_block bs ofs n =
    (if 0 \<le> ofs \<and> 0 \<le> n \<and> ofs + n \<le> int (length bs) then Inr (take (nat n) (drop (nat ofs) bs)) else Inl OutOfBounds)"

definition put_block :: "byte_t list \<Rightarrow> int \<Rightarrow> byte_t list \<Rightarrow> c_error + byte_t list" where
  "put_block bs ofs new =
    (if 0 \<le> ofs \<and> ofs + int (length new) \<le> int (length bs) then Inr (put_bytes bs (nat ofs) new) else Inl OutOfBounds)"

section \<open>Block devices\<close>

datatype block_type = BLOCK_KERNEL | BLOCK_FILESYS | BLOCK_SCRATCH | BLOCK_SWAP | BLOCK_RAW | BLOCK_FOREIGN

definition BLOCK_SECTOR_SIZE :: int where "BLOCK_SECTOR_SIZE = 512"

record block =
  block_type :: block_type
  block_size :: word_t
  sectors :: "byte_t list list"
  read_cnt :: "64 word"
  write_cnt :: "64 word"

definition check_sector :: "block \<Rightarrow> word_t \<Rightarrow> c_error + unit" where
  "check_sector b sector = guardE KernelPanic (\<not> sector \<ge> block_size b)"

definition block_read :: "block \<Rightarrow> word_t \<Rightarrow> c_error + (byte_t list \<times> block)" where
  "block_read b sector =
    bindE (check_sector b sector) (\<lambda>_. bindE (rd (sectors b) (unat sector)) (\<lambda>bytes.
      Inr (bytes, b\<lparr>read_cnt := read_cnt b + 1\<rparr>)))"

definition block_write :: "block \<Rightarrow> word_t \<Rightarrow> byte_t list \<Rightarrow> c_error + block" where
  "block_write b sector bytes =
    bindE (check_sector b sector) (\<lambda>_.
    bindE (guardE AssertFailed (block_type b \<noteq> BLOCK_FOREIGN)) (\<lambda>_.
    bindE (wr (sectors b) (unat sector) bytes) (\<lambda>ss.
      Inr (b\<lparr>sectors := ss, write_cnt := write_cnt b + 1\<rparr>))))"

section \<open>State\<close>

definition INODE_MAGIC :: word_t where "INODE_MAGIC = 0x494e4f44"

record inode_disk =
  start_sector :: word_t
  disk_length :: word_t
  disk_magic :: word_t
  disk_unused :: "byte_t list"

text \<open>The 512 bytes of a \<open>struct inode_disk\<close>.\<close>

definition encode_inode :: "inode_disk \<Rightarrow> byte_t list" where
  "encode_inode d = word_bytes (start_sector d) @ word_bytes (disk_length d) @ word_bytes (disk_magic d) @ disk_unused d"

definition word_at :: "byte_t list \<Rightarrow> nat \<Rightarrow> word_t" where
  "word_at bs i = bytes_word (bs ! i) (bs ! (i + 1)) (bs ! (i + 2)) (bs ! (i + 3))"

definition decode_inode :: "byte_t list \<Rightarrow> inode_disk" where
  "decode_inode bs =
    \<lparr>start_sector = word_at bs 0, disk_length = word_at bs 4, disk_magic = word_at bs 8, disk_unused = drop 12 bs\<rparr>"

record inode =
  inode_sector :: word_t
  open_cnt :: int
  removed :: bool
  deny_write_cnt :: int
  inode_data :: inode_disk

record open_file =
  file_inode :: addr
  file_pos :: int
  file_deny :: bool

record dir =
  dir_inode :: addr
  dir_pos :: word_t

record fs =
  fs_device :: block
  open_inodes :: "addr list"
  inode_heap :: "addr \<Rightarrow> inode option"
  file_heap :: "addr \<Rightarrow> open_file option"
  dir_heap :: "addr \<Rightarrow> dir option"
  sector_map :: bitmap
  map_file :: addr
  mallocs :: "nat \<Rightarrow> addr"

definition malloc :: "fs \<Rightarrow> addr \<times> fs" where
  "malloc k = (mallocs k 0, k\<lparr>mallocs := \<lambda>n. mallocs k (Suc n)\<rparr>)"

definition follow :: "(addr \<Rightarrow> 'a option) \<Rightarrow> addr \<Rightarrow> c_error + 'a" where
  "follow h p = (if p = 0 then Inl NullDereference else case h p of None \<Rightarrow> Inl Indeterminate | Some x \<Rightarrow> Inr x)"

definition put_inode :: "addr \<Rightarrow> inode \<Rightarrow> fs \<Rightarrow> fs" where
  "put_inode p i k = k\<lparr>inode_heap := (inode_heap k)(p \<mapsto> i)\<rparr>"

definition put_file :: "addr \<Rightarrow> open_file \<Rightarrow> fs \<Rightarrow> fs" where
  "put_file p f k = k\<lparr>file_heap := (file_heap k)(p \<mapsto> f)\<rparr>"

definition fs_read :: "word_t \<Rightarrow> fs \<Rightarrow> c_error + (byte_t list \<times> fs)" where
  "fs_read sector k = bindE (block_read (fs_device k) sector) (\<lambda>(bytes, b). Inr (bytes, k\<lparr>fs_device := b\<rparr>))"

definition fs_write :: "word_t \<Rightarrow> byte_t list \<Rightarrow> fs \<Rightarrow> c_error + fs" where
  "fs_write sector bytes k = bindE (block_write (fs_device k) sector bytes) (\<lambda>b. Inr (k\<lparr>fs_device := b\<rparr>))"

section \<open>Reading and writing an inode\<close>

definition bytes_to_sectors :: "int \<Rightarrow> c_error + nat" where
  "bytes_to_sectors n = bindE (int32 (n + BLOCK_SECTOR_SIZE)) (\<lambda>m. Inr (unat (of_int ((m - 1) sdiv BLOCK_SECTOR_SIZE) :: word_t)))"

definition byte_to_sector :: "inode \<Rightarrow> int \<Rightarrow> word_t" where
  "byte_to_sector i pos =
    (if pos < sint (disk_length (inode_data i)) then start_sector (inode_data i) + of_int (pos sdiv BLOCK_SECTOR_SIZE) else - 1)"

definition inode_length :: "inode \<Rightarrow> int" where
  "inode_length i = sint (disk_length (inode_data i))"

text \<open>\<open>chunk\<close>: the sector, the offset in it, what is left of it and the size of the next piece.\<close>

definition chunk :: "inode \<Rightarrow> int \<Rightarrow> int \<Rightarrow> c_error + (word_t \<times> int \<times> int \<times> int)" where
  "chunk i sz offset =
    (let sector_idx = byte_to_sector i offset; sector_ofs = offset smod BLOCK_SECTOR_SIZE in
     bindE (int32 (inode_length i - offset)) (\<lambda>inode_left.
       let sector_left = BLOCK_SECTOR_SIZE - sector_ofs;
           min_left = (if inode_left < sector_left then inode_left else sector_left);
           chunk_size = (if sz < min_left then sz else min_left)
       in Inr (sector_idx, sector_ofs, sector_left, chunk_size)))"

text \<open>
  The bounce buffer is either full of the sector just read or cleared before it is used, so only its
  address counts; 0 while it has not been allocated.
\<close>

definition get_bounce :: "addr \<Rightarrow> fs \<Rightarrow> addr \<times> fs" where
  "get_bounce bounce k = (if bounce = 0 then malloc k else (bounce, k))"

function read_loop :: "addr \<Rightarrow> byte_t list \<Rightarrow> int \<Rightarrow> int \<Rightarrow> int \<Rightarrow> addr \<Rightarrow> fs \<Rightarrow> c_error + (int \<times> byte_t list \<times> fs)" where
  "read_loop inode buffer bytes_read sz offset bounce k =
    (if sz > 0 then
       bindE (guardE AssertFailed (inode \<noteq> 0)) (\<lambda>_.
       bindE (follow (inode_heap k) inode) (\<lambda>i.
       bindE (chunk i sz offset) (\<lambda>(sector_idx, sector_ofs, sector_left, chunk_size).
         if chunk_size \<le> 0 then Inr (bytes_read, buffer, k)
         else if sector_ofs = 0 \<and> chunk_size = BLOCK_SECTOR_SIZE then
           bindE (fs_read sector_idx k) (\<lambda>(bytes, k).
           bindE (put_block buffer bytes_read bytes) (\<lambda>buffer.
             read_loop inode buffer (bytes_read + chunk_size) (sz - chunk_size) (offset + chunk_size) bounce k))
         else (let (bounce, k) = get_bounce bounce k in
           if bounce = 0 then Inr (bytes_read, buffer, k)
           else
             bindE (fs_read sector_idx k) (\<lambda>(bytes, k).
             bindE (get_block bytes sector_ofs chunk_size) (\<lambda>piece.
             bindE (put_block buffer bytes_read piece) (\<lambda>buffer.
               read_loop inode buffer (bytes_read + chunk_size) (sz - chunk_size) (offset + chunk_size) bounce k)))))))
     else Inr (bytes_read, buffer, k))"
  by pat_completeness auto
termination by (relation "measure (\<lambda>(i, b, r, sz, ofs, bb, k). nat sz)") auto

definition inode_read_at :: "addr \<Rightarrow> byte_t list \<Rightarrow> int \<Rightarrow> int \<Rightarrow> fs \<Rightarrow> c_error + (int \<times> byte_t list \<times> fs)" where
  "inode_read_at inode buffer sz offset k = read_loop inode buffer 0 sz offset 0 k"

function write_loop :: "addr \<Rightarrow> byte_t list \<Rightarrow> int \<Rightarrow> int \<Rightarrow> int \<Rightarrow> addr \<Rightarrow> fs \<Rightarrow> c_error + (int \<times> fs)" where
  "write_loop inode buffer bytes_written sz offset bounce k =
    (if sz > 0 then
       bindE (guardE AssertFailed (inode \<noteq> 0)) (\<lambda>_.
       bindE (follow (inode_heap k) inode) (\<lambda>i.
       bindE (chunk i sz offset) (\<lambda>(sector_idx, sector_ofs, sector_left, chunk_size).
         if chunk_size \<le> 0 then Inr (bytes_written, k)
         else if sector_ofs = 0 \<and> chunk_size = BLOCK_SECTOR_SIZE then
           bindE (get_block buffer bytes_written BLOCK_SECTOR_SIZE) (\<lambda>bytes.
           bindE (fs_write sector_idx bytes k) (\<lambda>k.
             write_loop inode buffer (bytes_written + chunk_size) (sz - chunk_size) (offset + chunk_size) bounce k))
         else (let (bounce, k) = get_bounce bounce k in
           if bounce = 0 then Inr (bytes_written, k)
           else
             bindE (if sector_ofs > 0 \<or> chunk_size < sector_left then fs_read sector_idx k
                    else Inr (replicate (nat BLOCK_SECTOR_SIZE) 0, k)) (\<lambda>(bytes, k).
             bindE (get_block buffer bytes_written chunk_size) (\<lambda>piece.
             bindE (put_block bytes sector_ofs piece) (\<lambda>bytes.
             bindE (fs_write sector_idx bytes k) (\<lambda>k.
               write_loop inode buffer (bytes_written + chunk_size) (sz - chunk_size) (offset + chunk_size) bounce k))))))))
     else Inr (bytes_written, k))"
  by pat_completeness auto
termination by (relation "measure (\<lambda>(i, b, r, sz, ofs, bb, k). nat sz)") auto

declare read_loop.simps [simp del] write_loop.simps [simp del]

definition inode_write_at :: "addr \<Rightarrow> byte_t list \<Rightarrow> int \<Rightarrow> int \<Rightarrow> fs \<Rightarrow> c_error + (int \<times> fs)" where
  "inode_write_at inode buffer sz offset k =
    bindE (follow (inode_heap k) inode) (\<lambda>i.
      if deny_write_cnt i \<noteq> 0 then Inr (0, k) else write_loop inode buffer 0 sz offset 0 k)"

lemma int32_Inr: "int32 n = Inr m \<longleftrightarrow> m = n \<and> - (2 ^ 31) \<le> n \<and> n < 2 ^ 31"
  by (auto simp: int32_def)

lemma chunk_bounds: "chunk i sz ofs = Inr (s, so, sl, c) \<Longrightarrow> c \<le> sz \<and> c \<le> inode_length i - ofs"
  by (auto simp: chunk_def Let_def int32_Inr)

lemma fs_read_heap: "fs_read s k = Inr (bytes, k') \<Longrightarrow> inode_heap k' = inode_heap k"
  by (auto simp: fs_read_def)

lemma get_bounce_heap: "get_bounce bb k = (bb', k') \<Longrightarrow> inode_heap k' = inode_heap k"
  by (auto simp: get_bounce_def malloc_def split: if_splits)

lemma follow_Inr: "follow h p = Inr x \<longleftrightarrow> p \<noteq> 0 \<and> h p = Some x"
  by (auto simp: follow_def split: option.splits)

text \<open>One round of a loop over the pieces of an inode: nothing is done, or a piece and the rest.\<close>

lemma read_loop_cases:
  assumes "read_loop p buf r sz ofs bb k = Inr (n, buf', k')"
  obtains (stop) "n = r" "buf' = buf" "inode_heap k' = inode_heap k"
  | (full) i s so sl c bytes k1 buf1 where "sz > 0" "inode_heap k p = Some i" "chunk i sz ofs = Inr (s, so, sl, c)"
      "0 < c" "so = 0 \<and> c = BLOCK_SECTOR_SIZE" "fs_read s k = Inr (bytes, k1)" "put_block buf r bytes = Inr buf1"
      "read_loop p buf1 (r + c) (sz - c) (ofs + c) bb k1 = Inr (n, buf', k')"
  | (part) i s so sl c bb' k0 bytes k1 piece buf1 where "sz > 0" "inode_heap k p = Some i" "chunk i sz ofs = Inr (s, so, sl, c)"
      "0 < c" "\<not> (so = 0 \<and> c = BLOCK_SECTOR_SIZE)" "get_bounce bb k = (bb', k0)" "bb' \<noteq> 0"
      "fs_read s k0 = Inr (bytes, k1)" "get_block bytes so c = Inr piece" "put_block buf r piece = Inr buf1"
      "read_loop p buf1 (r + c) (sz - c) (ofs + c) bb' k1 = Inr (n, buf', k')"
proof (cases "sz > 0")
  case False
  then show ?thesis using assms stop by (subst (asm) read_loop.simps) simp
next
  case sz: True
  obtain i s so sl c where i: "p \<noteq> 0" "inode_heap k p = Some i" "chunk i sz ofs = Inr (s, so, sl, c)"
    using assms sz by (subst (asm) read_loop.simps) (auto simp: follow_Inr)
  obtain bb' k0 where b: "get_bounce bb k = (bb', k0)" by fastforce
  have f: "follow (inode_heap k) p = Inr i" using i by (simp add: follow_Inr)
  note run = assms [unfolded read_loop.simps [of p buf r sz ofs bb k] Let_def, simplified sz i f b, simplified, simplified i b, simplified]
  consider "c \<le> 0" | "0 < c" "so = 0 \<and> c = BLOCK_SECTOR_SIZE" | "0 < c" "\<not> (so = 0 \<and> c = BLOCK_SECTOR_SIZE)" "bb' = 0"
    | "0 < c" "\<not> (so = 0 \<and> c = BLOCK_SECTOR_SIZE)" "bb' \<noteq> 0" by fastforce
  then show ?thesis
  proof cases
    case 1 then show ?thesis using run stop by simp
  next
    case 2 then show ?thesis using run full [OF sz i(2,3)] by auto
  next
    case 3 then show ?thesis using run stop get_bounce_heap [OF b] by (auto split: if_splits)
  next
    case 4 then show ?thesis using run part [OF sz i(2,3) 4(1,2) b 4(3)] by (auto split: if_splits)
  qed
qed

text \<open>Reading stays below the length of the inode, and leaves the inodes alone.\<close>

lemma read_loop_progress:
  "read_loop p buf r sz ofs bb k = Inr (n, buf', k') \<Longrightarrow>
   inode_heap k' = inode_heap k \<and> r \<le> n \<and>
   (r < n \<longrightarrow> (\<exists>i. inode_heap k p = Some i \<and> ofs + (n - r) \<le> inode_length i))"
proof (induction "nat sz" arbitrary: buf r sz ofs bb k rule: less_induct)
  case less
  note IH = less.hyps
  from less.prems show ?case
  proof (cases rule: read_loop_cases)
    case stop then show ?thesis by simp
  next
    case (full i s so sl c bytes k1 buf1)
    show ?thesis
      using IH [OF _ full(8)] full(1,2,4) chunk_bounds [OF full(3)] fs_read_heap [OF full(6)] by (cases "r + c < n") auto
  next
    case (part i s so sl c bb' k0 bytes k1 piece buf1)
    show ?thesis
      using IH [OF _ part(11)] part(1,2,4) chunk_bounds [OF part(3)] fs_read_heap [OF part(8)] get_bounce_heap [OF part(6)]
      by (cases "r + c < n") auto
  qed
qed

lemma inode_read_at_progress:
  assumes "inode_read_at p buf sz ofs k = Inr (n, buf', k')"
  shows "inode_heap k' = inode_heap k" "0 < n \<Longrightarrow> \<exists>i. inode_heap k p = Some i \<and> ofs + n \<le> inode_length i"
  using read_loop_progress [OF assms [unfolded inode_read_at_def]] by auto

end
