(* ===== verification/Pintos_Filesys.thy ===== *)
theory Pintos_Filesys
  imports Pintos_Inode
begin

text \<open>
  The file system of Pintos above reading and writing of inodes: the rest of \<open>src/filesys/inode.c\<close>,
  \<open>file.c\<close>, the free map of \<open>free-map.c\<close> with its file in the file system itself, \<open>directory.c\<close> and
  \<open>filesys.c\<close>. A name is a string in a byte memory \<open>m\<close> of the caller; a directory entry is its 20
  bytes, which the functions of \<open>string.c\<close> see at the end of that memory.
\<close>

section \<open>Open inodes\<close>

definition inode_reopen :: "addr \<Rightarrow> fs \<Rightarrow> c_error + (addr \<times> fs)" where
  "inode_reopen inode k =
    (if inode = 0 then Inr (inode, k)
     else bindE (follow (inode_heap k) inode) (\<lambda>i. bindE (int32 (open_cnt i + 1)) (\<lambda>n.
       Inr (inode, put_inode inode (i\<lparr>open_cnt := n\<rparr>) k))))"

fun open_loop :: "addr list \<Rightarrow> word_t \<Rightarrow> fs \<Rightarrow> c_error + addr" where
  "open_loop [] sector k = Inr 0"
| "open_loop (e # es) sector k =
    bindE (follow (inode_heap k) e) (\<lambda>i. if inode_sector i = sector then Inr e else open_loop es sector k)"

definition inode_open :: "word_t \<Rightarrow> fs \<Rightarrow> c_error + (addr \<times> fs)" where
  "inode_open sector k =
    bindE (open_loop (open_inodes k) sector k) (\<lambda>inode.
      if inode \<noteq> 0 then inode_reopen inode k
      else (let (inode, k) = malloc k in
        if inode = 0 then Inr (0, k)
        else bindE (fs_read sector k) (\<lambda>(bytes, k).
          Inr (inode, put_inode inode \<lparr>inode_sector = sector, open_cnt = 1, removed = False, deny_write_cnt = 0,
              inode_data = decode_inode bytes\<rparr> (k\<lparr>open_inodes := inode # open_inodes k\<rparr>)))))"

definition inode_get_inumber :: "addr \<Rightarrow> fs \<Rightarrow> c_error + word_t" where
  "inode_get_inumber inode k = bindE (follow (inode_heap k) inode) (\<lambda>i. Inr (inode_sector i))"

definition inode_remove :: "addr \<Rightarrow> fs \<Rightarrow> c_error + fs" where
  "inode_remove inode k =
    bindE (guardE AssertFailed (inode \<noteq> 0)) (\<lambda>_.
    bindE (follow (inode_heap k) inode) (\<lambda>i. Inr (put_inode inode (i\<lparr>removed := True\<rparr>) k)))"

definition inode_deny_write :: "addr \<Rightarrow> fs \<Rightarrow> c_error + fs" where
  "inode_deny_write inode k =
    bindE (follow (inode_heap k) inode) (\<lambda>i.
    bindE (int32 (deny_write_cnt i + 1)) (\<lambda>n.
    bindE (guardE AssertFailed (n \<le> open_cnt i)) (\<lambda>_.
      Inr (put_inode inode (i\<lparr>deny_write_cnt := n\<rparr>) k))))"

definition inode_allow_write :: "addr \<Rightarrow> fs \<Rightarrow> c_error + fs" where
  "inode_allow_write inode k =
    bindE (follow (inode_heap k) inode) (\<lambda>i.
    bindE (guardE AssertFailed (deny_write_cnt i > 0)) (\<lambda>_.
    bindE (guardE AssertFailed (deny_write_cnt i \<le> open_cnt i)) (\<lambda>_.
      Inr (put_inode inode (i\<lparr>deny_write_cnt := deny_write_cnt i - 1\<rparr>) k))))"

section \<open>Reading and writing files\<close>

definition file_read_at :: "addr \<Rightarrow> byte_t list \<Rightarrow> int \<Rightarrow> int \<Rightarrow> fs \<Rightarrow> c_error + (int \<times> byte_t list \<times> fs)" where
  "file_read_at file buffer sz ofs k =
    bindE (follow (file_heap k) file) (\<lambda>f. inode_read_at (file_inode f) buffer sz ofs k)"

definition file_write_at :: "addr \<Rightarrow> byte_t list \<Rightarrow> int \<Rightarrow> int \<Rightarrow> fs \<Rightarrow> c_error + (int \<times> fs)" where
  "file_write_at file buffer sz ofs k =
    bindE (follow (file_heap k) file) (\<lambda>f. inode_write_at (file_inode f) buffer sz ofs k)"

definition file_read :: "addr \<Rightarrow> byte_t list \<Rightarrow> int \<Rightarrow> fs \<Rightarrow> c_error + (int \<times> byte_t list \<times> fs)" where
  "file_read file buffer sz k =
    bindE (follow (file_heap k) file) (\<lambda>f.
    bindE (inode_read_at (file_inode f) buffer sz (file_pos f) k) (\<lambda>(bytes_read, buffer, k).
    bindE (int32 (file_pos f + bytes_read)) (\<lambda>pos.
      Inr (bytes_read, buffer, put_file file (f\<lparr>file_pos := pos\<rparr>) k))))"

definition file_write :: "addr \<Rightarrow> byte_t list \<Rightarrow> int \<Rightarrow> fs \<Rightarrow> c_error + (int \<times> fs)" where
  "file_write file buffer sz k =
    bindE (follow (file_heap k) file) (\<lambda>f.
    bindE (inode_write_at (file_inode f) buffer sz (file_pos f) k) (\<lambda>(bytes_written, k).
    bindE (int32 (file_pos f + bytes_written)) (\<lambda>pos.
      Inr (bytes_written, put_file file (f\<lparr>file_pos := pos\<rparr>) k))))"

definition file_length :: "addr \<Rightarrow> fs \<Rightarrow> c_error + int" where
  "file_length file k =
    bindE (guardE AssertFailed (file \<noteq> 0)) (\<lambda>_.
    bindE (follow (file_heap k) file) (\<lambda>f.
    bindE (follow (inode_heap k) (file_inode f)) (\<lambda>i. Inr (inode_length i))))"

definition file_seek :: "addr \<Rightarrow> int \<Rightarrow> fs \<Rightarrow> c_error + fs" where
  "file_seek file new_pos k =
    bindE (guardE AssertFailed (file \<noteq> 0)) (\<lambda>_.
    bindE (guardE AssertFailed (new_pos \<ge> 0)) (\<lambda>_.
    bindE (follow (file_heap k) file) (\<lambda>f. Inr (put_file file (f\<lparr>file_pos := new_pos\<rparr>) k))))"

definition file_tell :: "addr \<Rightarrow> fs \<Rightarrow> c_error + int" where
  "file_tell file k =
    bindE (guardE AssertFailed (file \<noteq> 0)) (\<lambda>_. bindE (follow (file_heap k) file) (\<lambda>f. Inr (file_pos f)))"

definition file_get_inode :: "addr \<Rightarrow> fs \<Rightarrow> c_error + addr" where
  "file_get_inode file k = bindE (follow (file_heap k) file) (\<lambda>f. Inr (file_inode f))"

definition file_deny_write :: "addr \<Rightarrow> fs \<Rightarrow> c_error + fs" where
  "file_deny_write file k =
    bindE (guardE AssertFailed (file \<noteq> 0)) (\<lambda>_.
    bindE (follow (file_heap k) file) (\<lambda>f.
      if \<not> file_deny f then inode_deny_write (file_inode f) (put_file file (f\<lparr>file_deny := True\<rparr>) k) else Inr k))"

definition file_allow_write :: "addr \<Rightarrow> fs \<Rightarrow> c_error + fs" where
  "file_allow_write file k =
    bindE (guardE AssertFailed (file \<noteq> 0)) (\<lambda>_.
    bindE (follow (file_heap k) file) (\<lambda>f.
      if file_deny f then inode_allow_write (file_inode f) (put_file file (f\<lparr>file_deny := False\<rparr>) k) else Inr k))"

section \<open>The free map and its file\<close>

text \<open>\<open>bitmap_write\<close> and \<open>bitmap_read\<close> of \<open>bitmap.c\<close> on the file.\<close>

definition map_write :: "fs \<Rightarrow> c_error + (bool \<times> fs)" where
  "map_write k =
    (let sz = int (bitmap_file_size (sector_map k)) in
     bindE (file_write_at (map_file k) (bitmap_write (sector_map k)) sz 0 k) (\<lambda>(n, k). Inr (n = sz, k)))"

definition map_read :: "fs \<Rightarrow> c_error + (bool \<times> fs)" where
  "map_read k =
    (let b = sector_map k in
     if bit_cnt b > 0 then
       let sz = int (bitmap_file_size b) in
       bindE (file_read_at (map_file k) (image (bits b)) sz 0 k) (\<lambda>(n, bytes, k).
       let ws = words_of bytes; j = elem_cnt (bit_cnt b) - 1 in
       bindE (rd ws j) (\<lambda>e. Inr (n = sz, k\<lparr>sector_map := b\<lparr>bits := ws[j := e AND last_mask b]\<rparr>\<rparr>)))
     else Inr (True, k))"

text \<open>The functions of \<open>free-map.c\<close>, on the file system that holds the map's file.\<close>

definition allocate_sectors :: "nat \<Rightarrow> fs \<Rightarrow> c_error + (word_t option \<times> fs)" where
  "allocate_sectors cnt k =
    bindE (bitmap_scan_and_flip (sector_map k) 0 cnt False) (\<lambda>(sector, b).
      let k = k\<lparr>sector_map := b\<rparr> in
      if sector \<noteq> BITMAP_ERROR \<and> map_file k \<noteq> 0 then
        bindE (map_write k) (\<lambda>(success, k).
          if success then Inr (Some (of_nat sector), k)
          else bindE (bitmap_set_multiple (sector_map k) sector cnt False) (\<lambda>b. Inr (None, k\<lparr>sector_map := b\<rparr>)))
      else Inr (if sector \<noteq> BITMAP_ERROR then Some (of_nat sector) else None, k))"

definition release_sectors :: "word_t \<Rightarrow> nat \<Rightarrow> fs \<Rightarrow> c_error + fs" where
  "release_sectors sector cnt k =
    bindE (bitmap_all (sector_map k) (unat sector) cnt) (\<lambda>a.
    bindE (guardE AssertFailed a) (\<lambda>_.
    bindE (bitmap_set_multiple (sector_map k) (unat sector) cnt False) (\<lambda>b.
    bindE (map_write (k\<lparr>sector_map := b\<rparr>)) (\<lambda>(_, k). Inr k))))"

section \<open>Creating and closing inodes\<close>

fun zero_sectors :: "nat \<Rightarrow> word_t \<Rightarrow> fs \<Rightarrow> c_error + fs" where
  "zero_sectors 0 s k = Inr k"
| "zero_sectors (Suc n) s k = bindE (fs_write s (replicate (nat BLOCK_SECTOR_SIZE) 0) k) (zero_sectors n (s + 1))"

definition inode_create :: "word_t \<Rightarrow> int \<Rightarrow> fs \<Rightarrow> c_error + (bool \<times> fs)" where
  "inode_create sector len k =
    bindE (guardE AssertFailed (len \<ge> 0)) (\<lambda>_.
    let (disk_inode, k) = malloc k in
    if disk_inode = 0 then Inr (False, k)
    else
      bindE (bytes_to_sectors len) (\<lambda>sects.
      bindE (allocate_sectors sects k) (\<lambda>(start, k).
        case start of None \<Rightarrow> Inr (False, k)
        | Some s \<Rightarrow>
          bindE (fs_write sector (encode_inode
              \<lparr>start_sector = s, disk_length = of_int len, disk_magic = INODE_MAGIC, disk_unused = replicate 500 0\<rparr>) k) (\<lambda>k.
          bindE (zero_sectors sects s k) (\<lambda>k. Inr (True, k))))))"

definition inode_close :: "addr \<Rightarrow> fs \<Rightarrow> c_error + fs" where
  "inode_close inode k =
    (if inode = 0 then Inr k
     else bindE (follow (inode_heap k) inode) (\<lambda>i. bindE (int32 (open_cnt i - 1)) (\<lambda>n.
       let k = put_inode inode (i\<lparr>open_cnt := n\<rparr>) k in
       if n = 0 then
         let k = k\<lparr>open_inodes := remove1 inode (open_inodes k)\<rparr> in
         bindE (if removed i then
                  bindE (release_sectors (inode_sector i) 1 k) (\<lambda>k.
                  bindE (bytes_to_sectors (inode_length i)) (\<lambda>n.
                    release_sectors (start_sector (inode_data i)) n k))
                else Inr k) (\<lambda>k.
           Inr (k\<lparr>inode_heap := (inode_heap k)(inode := None)\<rparr>))
       else Inr k)))"

section \<open>Opening and closing files\<close>

definition file_open :: "addr \<Rightarrow> fs \<Rightarrow> c_error + (addr \<times> fs)" where
  "file_open inode k =
    (let (file, k) = malloc k in
     if inode \<noteq> 0 \<and> file \<noteq> 0 then Inr (file, put_file file \<lparr>file_inode = inode, file_pos = 0, file_deny = False\<rparr> k)
     else bindE (inode_close inode k) (\<lambda>k. Inr (0, k)))"

definition file_reopen :: "addr \<Rightarrow> fs \<Rightarrow> c_error + (addr \<times> fs)" where
  "file_reopen file k =
    bindE (follow (file_heap k) file) (\<lambda>f.
    bindE (inode_reopen (file_inode f) k) (\<lambda>(inode, k). file_open inode k))"

definition file_close :: "addr \<Rightarrow> fs \<Rightarrow> c_error + fs" where
  "file_close file k =
    (if file = 0 then Inr k
     else bindE (file_allow_write file k) (\<lambda>k.
       bindE (follow (file_heap k) file) (\<lambda>f.
       bindE (inode_close (file_inode f) k) (\<lambda>k. Inr (k\<lparr>file_heap := (file_heap k)(file := None)\<rparr>)))))"

definition map_open :: "fs \<Rightarrow> c_error + fs" where
  "map_open k =
    bindE (inode_open (of_nat FREE_MAP_SECTOR) k) (\<lambda>(inode, k).
    bindE (file_open inode k) (\<lambda>(file, k).
      if file = 0 then Inl KernelPanic
      else bindE (map_read (k\<lparr>map_file := file\<rparr>)) (\<lambda>(success, k).
        if success then Inr k else Inl KernelPanic)))"

definition map_close :: "fs \<Rightarrow> c_error + fs" where
  "map_close k = file_close (map_file k) k"

definition map_create :: "fs \<Rightarrow> c_error + fs" where
  "map_create k =
    bindE (inode_create (of_nat FREE_MAP_SECTOR) (int (bitmap_file_size (sector_map k))) k) (\<lambda>(created, k).
      if \<not> created then Inl KernelPanic
      else
        bindE (inode_open (of_nat FREE_MAP_SECTOR) k) (\<lambda>(inode, k).
        bindE (file_open inode k) (\<lambda>(file, k).
          if file = 0 then Inl KernelPanic
          else bindE (map_write (k\<lparr>map_file := file\<rparr>)) (\<lambda>(success, k).
            if success then Inr k else Inl KernelPanic))))"

end
