(* ===== verification/Pintos_Directory.thy ===== *)
theory Pintos_Directory
  imports Pintos_Filesys
begin

text \<open>
  Directories and the operations on names of Pintos: \<open>src/filesys/directory.c\<close> and \<open>filesys.c\<close>. A
  directory is a file of entries of 20 bytes: the sector of an inode, a name of at most 14 characters
  and its terminator, and whether the entry is in use. A name is a string in a byte memory \<open>m\<close> of the
  caller, and an entry that is compared with it or that it is copied to lies behind that memory. What
  the local variable \<open>e\<close> holds before an entry is read into it is the argument \<open>e\<close>.
\<close>

section \<open>Entries\<close>

definition NAME_MAX :: nat where "NAME_MAX = 14"

definition entry_size :: nat where "entry_size = 20"

definition entry_sector :: "byte_t list \<Rightarrow> word_t" where "entry_sector e = word_at e 0"
definition entry_name_at :: nat where "entry_name_at = 4"
definition entry_in_use :: "byte_t list \<Rightarrow> bool" where "entry_in_use e \<longleftrightarrow> e ! 19 \<noteq> 0"

definition set_in_use :: "bool \<Rightarrow> byte_t list \<Rightarrow> byte_t list" where
  "set_in_use b e = e[19 := (if b then 1 else 0)]"
definition set_sector :: "word_t \<Rightarrow> byte_t list \<Rightarrow> byte_t list" where
  "set_sector s e = put_bytes e 0 (word_bytes s)"

definition put_dir :: "addr \<Rightarrow> dir \<Rightarrow> fs \<Rightarrow> fs" where
  "put_dir p d k = k\<lparr>dir_heap := (dir_heap k)(p \<mapsto> d)\<rparr>"

text \<open>\<open>strcmp (name, e.name)\<close> and \<open>strlcpy (e.name, name, sizeof e.name)\<close>.\<close>

definition name_cmp :: "mem \<Rightarrow> nat \<Rightarrow> byte_t list \<Rightarrow> c_error + int" where
  "name_cmp m name e = strcmp name (length m + entry_name_at) (m @ e)"

definition copy_name :: "mem \<Rightarrow> nat \<Rightarrow> byte_t list \<Rightarrow> c_error + byte_t list" where
  "copy_name m name e =
    bindE (strlcpy (length m + entry_name_at) name (NAME_MAX + 1) (m @ e)) (\<lambda>(_, m'). Inr (drop (length m) m'))"

section \<open>Opening and closing\<close>

definition dir_create :: "word_t \<Rightarrow> nat \<Rightarrow> fs \<Rightarrow> c_error + (bool \<times> fs)" where
  "dir_create sector entry_cnt k = inode_create sector (sint (of_nat (entry_cnt * entry_size) :: word_t)) k"

definition dir_open :: "addr \<Rightarrow> fs \<Rightarrow> c_error + (addr \<times> fs)" where
  "dir_open inode k =
    (let (dir, k) = malloc k in
     if inode \<noteq> 0 \<and> dir \<noteq> 0 then Inr (dir, put_dir dir \<lparr>dir_inode = inode, dir_pos = 0\<rparr> k)
     else bindE (inode_close inode k) (\<lambda>k. Inr (0, k)))"

definition dir_open_root :: "fs \<Rightarrow> c_error + (addr \<times> fs)" where
  "dir_open_root k = bindE (inode_open (of_nat ROOT_DIR_SECTOR) k) (\<lambda>(inode, k). dir_open inode k)"

definition dir_reopen :: "addr \<Rightarrow> fs \<Rightarrow> c_error + (addr \<times> fs)" where
  "dir_reopen dir k =
    bindE (follow (dir_heap k) dir) (\<lambda>d. bindE (inode_reopen (dir_inode d) k) (\<lambda>(inode, k). dir_open inode k))"

definition dir_close :: "addr \<Rightarrow> fs \<Rightarrow> c_error + fs" where
  "dir_close dir k =
    (if dir = 0 then Inr k
     else bindE (follow (dir_heap k) dir) (\<lambda>d. bindE (inode_close (dir_inode d) k) (\<lambda>k.
       Inr (k\<lparr>dir_heap := (dir_heap k)(dir := None)\<rparr>))))"

definition dir_get_inode :: "addr \<Rightarrow> fs \<Rightarrow> c_error + addr" where
  "dir_get_inode dir k = bindE (follow (dir_heap k) dir) (\<lambda>d. Inr (dir_inode d))"

section \<open>Looking up, adding and removing\<close>

text \<open>Offsets of entries are kept in 32 bits, and read as an \<open>off_t\<close>. They grow with every entry read.\<close>

definition bytes_ahead :: "addr \<Rightarrow> word_t \<Rightarrow> fs \<Rightarrow> nat" where
  "bytes_ahead inode ofs k = (case inode_heap k inode of None \<Rightarrow> 0 | Some i \<Rightarrow> nat (inode_length i - sint ofs))"

lemma sint_plus_small:
  assumes "sint ofs + n < 2 ^ 31" "0 \<le> n"
  shows "sint (ofs + of_int n :: word_t) = sint ofs + n"
proof -
  have "sint (ofs + of_int n) = sint (of_int (sint ofs + n) :: word_t)" by simp
  also have "\<dots> = signed_take_bit 31 (sint ofs + n)" by (simp only: signed_of_int) simp
  also have "\<dots> = sint ofs + n"
    using assms sint_ge [of ofs] by (intro signed_take_bit_int_eq_self) auto
  finally show ?thesis .
qed

lemma bytes_ahead_less:
  assumes "inode_read_at inode e (int entry_size) (sint ofs) k = Inr (int entry_size, e', k')"
  shows "bytes_ahead inode (ofs + of_nat entry_size) k' < bytes_ahead inode ofs k"
proof -
  obtain i where i: "inode_heap k inode = Some i" "sint ofs + 20 \<le> inode_length i" "inode_heap k' = inode_heap k"
    using inode_read_at_progress [OF assms] by (auto simp: entry_size_def)
  have "inode_length i < 2 ^ 31" using sint_less [of "disk_length (inode_data i)"] by (simp add: inode_length_def)
  then show ?thesis using i sint_plus_small [of ofs 20] by (simp add: bytes_ahead_def entry_size_def)
qed

function lookup_loop :: "addr \<Rightarrow> mem \<Rightarrow> nat \<Rightarrow> word_t \<Rightarrow> byte_t list \<Rightarrow> fs \<Rightarrow> c_error + ((byte_t list \<times> word_t) option \<times> fs)" where
  "lookup_loop inode m name ofs e k =
    bindE (inode_read_at inode e (int entry_size) (sint ofs) k) (\<lambda>(n, e, k).
      if n = int entry_size then
        bindE (if entry_in_use e then bindE (name_cmp m name e) (\<lambda>c. Inr (c = 0)) else Inr False) (\<lambda>found.
          if found then Inr (Some (e, ofs), k)
          else lookup_loop inode m name (ofs + of_nat entry_size) e k)
      else Inr (None, k))"
  by pat_completeness auto
termination
  by (relation "measure (\<lambda>(inode, m, name, ofs, e, k). bytes_ahead inode ofs k)") (auto dest: bytes_ahead_less)

definition lookup_name :: "addr \<Rightarrow> mem \<Rightarrow> nat \<Rightarrow> byte_t list \<Rightarrow> fs \<Rightarrow> c_error + ((byte_t list \<times> word_t) option \<times> fs)" where
  "lookup_name dir m name e k =
    bindE (guardE AssertFailed (dir \<noteq> 0)) (\<lambda>_. bindE (guardE AssertFailed (name \<noteq> 0)) (\<lambda>_.
    bindE (follow (dir_heap k) dir) (\<lambda>d. lookup_loop (dir_inode d) m name 0 e k)))"

definition dir_lookup :: "addr \<Rightarrow> mem \<Rightarrow> nat \<Rightarrow> byte_t list \<Rightarrow> fs \<Rightarrow> c_error + (bool \<times> addr \<times> fs)" where
  "dir_lookup dir m name e k =
    bindE (guardE AssertFailed (dir \<noteq> 0)) (\<lambda>_. bindE (guardE AssertFailed (name \<noteq> 0)) (\<lambda>_.
    bindE (lookup_name dir m name e k) (\<lambda>(r, k).
    bindE (case r of Some (e, _) \<Rightarrow> inode_open (entry_sector e) k | None \<Rightarrow> Inr (0, k)) (\<lambda>(inode, k).
      Inr (inode \<noteq> 0, inode, k)))))"

function free_slot_loop :: "addr \<Rightarrow> word_t \<Rightarrow> byte_t list \<Rightarrow> fs \<Rightarrow> c_error + (word_t \<times> byte_t list \<times> fs)" where
  "free_slot_loop inode ofs e k =
    bindE (inode_read_at inode e (int entry_size) (sint ofs) k) (\<lambda>(n, e, k).
      if n = int entry_size then
        if \<not> entry_in_use e then Inr (ofs, e, k) else free_slot_loop inode (ofs + of_nat entry_size) e k
      else Inr (ofs, e, k))"
  by pat_completeness auto
termination
  by (relation "measure (\<lambda>(inode, ofs, e, k). bytes_ahead inode ofs k)") (auto dest: bytes_ahead_less)

definition dir_add :: "addr \<Rightarrow> mem \<Rightarrow> nat \<Rightarrow> word_t \<Rightarrow> byte_t list \<Rightarrow> fs \<Rightarrow> c_error + (bool \<times> fs)" where
  "dir_add dir m name sector e k =
    bindE (guardE AssertFailed (dir \<noteq> 0)) (\<lambda>_. bindE (guardE AssertFailed (name \<noteq> 0)) (\<lambda>_.
    bindE (ld m name) (\<lambda>c.
    bindE (if c = 0 then Inr False else bindE (strlen name m) (\<lambda>n. Inr (\<not> n > NAME_MAX))) (\<lambda>valid.
      if \<not> valid then Inr (False, k)
      else
        bindE (lookup_name dir m name e k) (\<lambda>(r, k).
          if r \<noteq> None then Inr (False, k)
          else
            bindE (follow (dir_heap k) dir) (\<lambda>d.
            bindE (free_slot_loop (dir_inode d) 0 e k) (\<lambda>(ofs, e, k).
            bindE (copy_name m name (set_in_use True e)) (\<lambda>e.
            bindE (inode_write_at (dir_inode d) (set_sector sector e) (int entry_size) (sint ofs) k) (\<lambda>(n, k).
              Inr (n = int entry_size, k)))))))))) "

definition dir_remove :: "addr \<Rightarrow> mem \<Rightarrow> nat \<Rightarrow> byte_t list \<Rightarrow> fs \<Rightarrow> c_error + (bool \<times> fs)" where
  "dir_remove dir m name e k =
    bindE (guardE AssertFailed (dir \<noteq> 0)) (\<lambda>_. bindE (guardE AssertFailed (name \<noteq> 0)) (\<lambda>_.
    bindE (lookup_name dir m name e k) (\<lambda>(r, k).
      case r of None \<Rightarrow> Inr (False, k)
      | Some (e, ofs) \<Rightarrow>
        bindE (inode_open (entry_sector e) k) (\<lambda>(inode, k).
          if inode = 0 then Inr (False, k)
          else
            bindE (follow (dir_heap k) dir) (\<lambda>d.
            bindE (inode_write_at (dir_inode d) (set_in_use False e) (int entry_size) (sint ofs) k) (\<lambda>(n, k).
            bindE (if n \<noteq> int entry_size then Inr (False, k)
                   else bindE (inode_remove inode k) (\<lambda>k. Inr (True, k))) (\<lambda>(success, k).
            bindE (inode_close inode k) (\<lambda>k. Inr (success, k)))))))))"

text \<open>\<open>dir_readdir\<close>: the name is copied to the 15 bytes \<open>out\<close> of the caller.\<close>

function readdir_loop :: "addr \<Rightarrow> word_t \<Rightarrow> byte_t list \<Rightarrow> fs \<Rightarrow> c_error + (byte_t list option \<times> word_t \<times> fs)" where
  "readdir_loop inode pos e k =
    bindE (inode_read_at inode e (int entry_size) (sint pos) k) (\<lambda>(n, e, k).
      if n = int entry_size then
        if entry_in_use e then Inr (Some e, pos + of_nat entry_size, k)
        else readdir_loop inode (pos + of_nat entry_size) e k
      else Inr (None, pos, k))"
  by pat_completeness auto
termination
  by (relation "measure (\<lambda>(inode, pos, e, k). bytes_ahead inode pos k)") (auto dest: bytes_ahead_less)

declare lookup_loop.simps [simp del] free_slot_loop.simps [simp del] readdir_loop.simps [simp del]

definition dir_readdir :: "addr \<Rightarrow> byte_t list \<Rightarrow> byte_t list \<Rightarrow> fs \<Rightarrow> c_error + (bool \<times> byte_t list \<times> fs)" where
  "dir_readdir dir out e k =
    bindE (follow (dir_heap k) dir) (\<lambda>d.
    bindE (readdir_loop (dir_inode d) (dir_pos d) e k) (\<lambda>(r, pos, k).
    let k = put_dir dir (d\<lparr>dir_pos := pos\<rparr>) k in
    case r of None \<Rightarrow> Inr (False, out, k)
    | Some e \<Rightarrow>
        bindE (strlcpy (1 + entry_size) (1 + entry_name_at) (NAME_MAX + 1) ([0] @ e @ out)) (\<lambda>(_, m').
          Inr (True, drop (1 + entry_size) m', k))))"

section \<open>Files by name\<close>

definition do_format :: "fs \<Rightarrow> c_error + fs" where
  "do_format k =
    bindE (map_create k) (\<lambda>k.
    bindE (dir_create (of_nat ROOT_DIR_SECTOR) 16 k) (\<lambda>(created, k).
      if \<not> created then Inl KernelPanic else map_close k))"

text \<open>The storage for the free map is the argument of \<open>bitmap_create\<close>.\<close>

definition filesys_init :: "bool \<Rightarrow> bool \<Rightarrow> (nat \<Rightarrow> word_t list option) \<Rightarrow> fs \<Rightarrow> c_error + fs" where
  "filesys_init format m mb k =
    bindE (free_map_init m mb (unat (block_size (fs_device k)))) (\<lambda>st.
    let k = k\<lparr>open_inodes := [], sector_map := free_map st, map_file := 0\<rparr> in
    bindE (if format then do_format k else Inr k) map_open)"

definition filesys_done :: "fs \<Rightarrow> c_error + fs" where
  "filesys_done k = map_close k"

definition filesys_create :: "mem \<Rightarrow> nat \<Rightarrow> int \<Rightarrow> byte_t list \<Rightarrow> fs \<Rightarrow> c_error + (bool \<times> fs)" where
  "filesys_create m name initial_size e k =
    bindE (dir_open_root k) (\<lambda>(dir, k).
    bindE (if dir = 0 then Inr (False, 0, k)
           else bindE (allocate_sectors 1 k) (\<lambda>(r, k).
             case r of None \<Rightarrow> Inr (False, 0, k)
             | Some isector \<Rightarrow>
               bindE (inode_create isector initial_size k) (\<lambda>(created, k).
                 if \<not> created then Inr (False, isector, k)
                 else bindE (dir_add dir m name isector e k) (\<lambda>(added, k). Inr (added, isector, k)))))
      (\<lambda>(success, isector, k).
    bindE (if \<not> success \<and> isector \<noteq> 0 then release_sectors isector 1 k else Inr k) (\<lambda>k.
    bindE (dir_close dir k) (\<lambda>k. Inr (success, k)))))"

definition filesys_open :: "mem \<Rightarrow> nat \<Rightarrow> byte_t list \<Rightarrow> fs \<Rightarrow> c_error + (addr \<times> fs)" where
  "filesys_open m name e k =
    bindE (dir_open_root k) (\<lambda>(dir, k).
    bindE (if dir \<noteq> 0 then bindE (dir_lookup dir m name e k) (\<lambda>(_, inode, k). Inr (inode, k)) else Inr (0, k))
      (\<lambda>(inode, k).
    bindE (dir_close dir k) (\<lambda>k. file_open inode k)))"

definition filesys_remove :: "mem \<Rightarrow> nat \<Rightarrow> byte_t list \<Rightarrow> fs \<Rightarrow> c_error + (bool \<times> fs)" where
  "filesys_remove m name e k =
    bindE (dir_open_root k) (\<lambda>(dir, k).
    bindE (if dir \<noteq> 0 then dir_remove dir m name e k else Inr (False, k)) (\<lambda>(success, k).
    bindE (dir_close dir k) (\<lambda>k. Inr (success, k))))"

end
