(* ===== verification/Pintos_Pagedir.thy ===== *)
theory Pintos_Pagedir
  imports Pintos_Pages
begin

unbundle bit_operations_syntax

text \<open>
  Page tables, \<open>threads/pte.h\<close>, \<open>userprog/pagedir.c\<close> and \<open>paging_init\<close> of \<open>threads/init.c\<close>, in the byte memory that the page allocator
  hands out: a page directory is a page of 1024 words, each 0 or the entry of a page table, which is a
  page of 1024 words. The control register CR3 is a part of the state; loading it also empties the
  translation cache of the processor, which is counted.
\<close>

section \<open>Words in memory\<close>

type_synonym memory_t = "word_t \<Rightarrow> byte_t"

definition load_word :: "memory_t \<Rightarrow> word_t \<Rightarrow> word_t" where
  "load_word m a = bytes_word (m a) (m (a + 1)) (m (a + 2)) (m (a + 3))"

definition store_word :: "word_t \<Rightarrow> word_t \<Rightarrow> memory_t \<Rightarrow> memory_t" where
  "store_word a w m = m(a := ucast w, a + 1 := ucast (drop_bit 8 w), a + 2 := ucast (drop_bit 16 w), a + 3 := ucast (drop_bit 24 w))"

fun memcpy_pages :: "memory_t \<Rightarrow> word_t \<Rightarrow> word_t \<Rightarrow> nat \<Rightarrow> memory_t" where
  "memcpy_pages m dst src 0 = m"
| "memcpy_pages m dst src (Suc k) = memcpy_pages (m(dst := m src)) (dst + 1) (src + 1) k"

section \<open>Page table entries\<close>

definition PTSHIFT :: nat where "PTSHIFT = PGBITS"
definition PTBITS :: nat where "PTBITS = 10"
definition PTMASK :: word_t where "PTMASK = push_bit PTSHIFT (2 ^ PTBITS - 1)"
definition PDSHIFT :: nat where "PDSHIFT = PTSHIFT + PTBITS"

definition pt_no :: "word_t \<Rightarrow> word_t" where "pt_no va = drop_bit PTSHIFT (va AND PTMASK)"
definition pd_no :: "word_t \<Rightarrow> word_t" where "pd_no va = drop_bit PDSHIFT va"

definition PTE_ADDR :: word_t where "PTE_ADDR = 0xfffff000"
definition PTE_P :: word_t where "PTE_P = 0x1"
definition PTE_W :: word_t where "PTE_W = 0x2"
definition PTE_U :: word_t where "PTE_U = 0x4"
definition PTE_A :: word_t where "PTE_A = 0x20"
definition PTE_D :: word_t where "PTE_D = 0x40"

definition pde_create :: "word_t \<Rightarrow> c_error + word_t" where
  "pde_create pt =
    bindE (guardE AssertFailed (pg_ofs pt = 0)) (\<lambda>_.
    bindE (vtop pt) (\<lambda>paddr. Inr (paddr OR PTE_U OR PTE_P OR PTE_W)))"

definition pde_get_pt :: "word_t \<Rightarrow> c_error + word_t" where
  "pde_get_pt pde = bindE (guardE AssertFailed (pde AND PTE_P \<noteq> 0)) (\<lambda>_. ptov (pde AND PTE_ADDR))"

definition pte_create_kernel :: "word_t \<Rightarrow> bool \<Rightarrow> c_error + word_t" where
  "pte_create_kernel page writable =
    bindE (guardE AssertFailed (pg_ofs page = 0)) (\<lambda>_.
    bindE (vtop page) (\<lambda>paddr. Inr (paddr OR PTE_P OR (if writable then PTE_W else 0))))"

definition pte_create_user :: "word_t \<Rightarrow> bool \<Rightarrow> c_error + word_t" where
  "pte_create_user page writable = bindE (pte_create_kernel page writable) (\<lambda>pte. Inr (pte OR PTE_U))"

definition pte_get_page :: "word_t \<Rightarrow> c_error + word_t" where
  "pte_get_page pte = ptov (pte AND PTE_ADDR)"

section \<open>The operations on page directories\<close>

text \<open>\<open>ram_pages\<close> is the variable \<open>init_ram_pages\<close>; \<open>cr3\<close> the page directory base register.\<close>

record vm =
  palloc :: palloc_state
  init_page_dir :: word_t
  ram_pages :: word_t
  cr3 :: word_t
  tlb_flushes :: nat

abbreviation vm_word :: "vm \<Rightarrow> word_t \<Rightarrow> word_t" where "vm_word v \<equiv> load_word (pmem (palloc v))"

definition put_word :: "word_t \<Rightarrow> word_t \<Rightarrow> vm \<Rightarrow> vm" where
  "put_word a w v = v\<lparr>palloc := (palloc v)\<lparr>pmem := store_word a w (pmem (palloc v))\<rparr>\<rparr>"

definition vm_get_page :: "word_t \<Rightarrow> vm \<Rightarrow> c_error + (word_t \<times> vm)" where
  "vm_get_page flags v = bindE (palloc_get_page flags (palloc v)) (\<lambda>(page, st). Inr (page, v\<lparr>palloc := st\<rparr>))"

definition vm_free_page :: "word_t \<Rightarrow> vm \<Rightarrow> c_error + vm" where
  "vm_free_page page v = bindE (palloc_free_page page (palloc v)) (\<lambda>st. Inr (v\<lparr>palloc := st\<rparr>))"

definition active_pd :: "vm \<Rightarrow> c_error + word_t" where "active_pd v = ptov (cr3 v)"

definition pagedir_activate :: "word_t \<Rightarrow> vm \<Rightarrow> c_error + vm" where
  "pagedir_activate pd v =
    bindE (vtop (if pd = 0 then init_page_dir v else pd)) (\<lambda>paddr.
      Inr (v\<lparr>cr3 := paddr, tlb_flushes := tlb_flushes v + 1\<rparr>))"

definition invalidate_pagedir :: "word_t \<Rightarrow> vm \<Rightarrow> c_error + vm" where
  "invalidate_pagedir pd v = bindE (active_pd v) (\<lambda>active. if active = pd then pagedir_activate pd v else Inr v)"

definition pagedir_create :: "vm \<Rightarrow> c_error + (word_t \<times> vm)" where
  "pagedir_create v =
    bindE (vm_get_page 0 v) (\<lambda>(pd, v).
      if pd \<noteq> 0 then
        Inr (pd, v\<lparr>palloc := (palloc v)\<lparr>pmem := memcpy_pages (pmem (palloc v)) pd (init_page_dir v) PGSIZE\<rparr>\<rparr>)
      else Inr (pd, v))"

definition lookup_page :: "word_t \<Rightarrow> word_t \<Rightarrow> bool \<Rightarrow> vm \<Rightarrow> c_error + (word_t \<times> vm)" where
  "lookup_page pd vaddr create v =
    bindE (guardE AssertFailed (pd \<noteq> 0)) (\<lambda>_.
    bindE (guardE AssertFailed (\<not> create \<or> is_user_vaddr vaddr)) (\<lambda>_.
    let pde = pd + 4 * pd_no vaddr in
    bindE (if vm_word v pde = 0 then
             if create then
               bindE (vm_get_page PAL_ZERO v) (\<lambda>(pt, v).
                 if pt = 0 then Inr (False, v)
                 else bindE (pde_create pt) (\<lambda>e. Inr (True, put_word pde e v)))
             else Inr (False, v)
           else Inr (True, v)) (\<lambda>(found, v).
      if found then bindE (pde_get_pt (vm_word v pde)) (\<lambda>pt. Inr (pt + 4 * pt_no vaddr, v))
      else Inr (0, v))))"

definition pagedir_set_page :: "word_t \<Rightarrow> word_t \<Rightarrow> word_t \<Rightarrow> bool \<Rightarrow> vm \<Rightarrow> c_error + (bool \<times> vm)" where
  "pagedir_set_page pd upage kpage writable v =
    bindE (guardE AssertFailed (pg_ofs upage = 0)) (\<lambda>_.
    bindE (guardE AssertFailed (pg_ofs kpage = 0)) (\<lambda>_.
    bindE (guardE AssertFailed (is_user_vaddr upage)) (\<lambda>_.
    bindE (vtop kpage) (\<lambda>paddr.
    bindE (guardE AssertFailed (drop_bit PTSHIFT paddr < ram_pages v)) (\<lambda>_.
    bindE (guardE AssertFailed (pd \<noteq> init_page_dir v)) (\<lambda>_.
    bindE (lookup_page pd upage True v) (\<lambda>(pte, v).
      if pte \<noteq> 0 then
        bindE (guardE AssertFailed (vm_word v pte AND PTE_P = 0)) (\<lambda>_.
        bindE (pte_create_user kpage writable) (\<lambda>e. Inr (True, put_word pte e v)))
      else Inr (False, v))))))))"

definition pagedir_get_page :: "word_t \<Rightarrow> word_t \<Rightarrow> vm \<Rightarrow> c_error + (word_t \<times> vm)" where
  "pagedir_get_page pd uaddr v =
    bindE (guardE AssertFailed (is_user_vaddr uaddr)) (\<lambda>_.
    bindE (lookup_page pd uaddr False v) (\<lambda>(pte, v).
      if pte \<noteq> 0 \<and> vm_word v pte AND PTE_P \<noteq> 0 then
        bindE (pte_get_page (vm_word v pte)) (\<lambda>page. Inr (page + pg_ofs uaddr, v))
      else Inr (0, v)))"

definition pagedir_clear_page :: "word_t \<Rightarrow> word_t \<Rightarrow> vm \<Rightarrow> c_error + vm" where
  "pagedir_clear_page pd upage v =
    bindE (guardE AssertFailed (pg_ofs upage = 0)) (\<lambda>_.
    bindE (guardE AssertFailed (is_user_vaddr upage)) (\<lambda>_.
    bindE (lookup_page pd upage False v) (\<lambda>(pte, v).
      if pte \<noteq> 0 \<and> vm_word v pte AND PTE_P \<noteq> 0 then
        invalidate_pagedir pd (put_word pte (vm_word v pte AND NOT PTE_P) v)
      else Inr v)))"

definition pagedir_is_dirty :: "word_t \<Rightarrow> word_t \<Rightarrow> vm \<Rightarrow> c_error + (bool \<times> vm)" where
  "pagedir_is_dirty pd vpage v =
    bindE (lookup_page pd vpage False v) (\<lambda>(pte, v). Inr (pte \<noteq> 0 \<and> vm_word v pte AND PTE_D \<noteq> 0, v))"

definition pagedir_set_dirty :: "word_t \<Rightarrow> word_t \<Rightarrow> bool \<Rightarrow> vm \<Rightarrow> c_error + vm" where
  "pagedir_set_dirty pd vpage dirty v =
    bindE (lookup_page pd vpage False v) (\<lambda>(pte, v).
      if pte \<noteq> 0 then
        if dirty then Inr (put_word pte (vm_word v pte OR PTE_D) v)
        else invalidate_pagedir pd (put_word pte (vm_word v pte AND NOT PTE_D) v)
      else Inr v)"

definition pagedir_is_accessed :: "word_t \<Rightarrow> word_t \<Rightarrow> vm \<Rightarrow> c_error + (bool \<times> vm)" where
  "pagedir_is_accessed pd vpage v =
    bindE (lookup_page pd vpage False v) (\<lambda>(pte, v). Inr (pte \<noteq> 0 \<and> vm_word v pte AND PTE_A \<noteq> 0, v))"

definition pagedir_set_accessed :: "word_t \<Rightarrow> word_t \<Rightarrow> bool \<Rightarrow> vm \<Rightarrow> c_error + vm" where
  "pagedir_set_accessed pd vpage accessed v =
    bindE (lookup_page pd vpage False v) (\<lambda>(pte, v).
      if pte \<noteq> 0 then
        if accessed then Inr (put_word pte (vm_word v pte OR PTE_A) v)
        else invalidate_pagedir pd (put_word pte (vm_word v pte AND NOT PTE_A) v)
      else Inr v)"

text \<open>\<open>pagedir_destroy\<close>: the loops over the entries of a table and over those of the directory, \<open>n\<close> entries to go.\<close>

fun free_frames :: "nat \<Rightarrow> word_t \<Rightarrow> vm \<Rightarrow> c_error + vm" where
  "free_frames 0 pte v = Inr v"
| "free_frames (Suc n) pte v =
    bindE (if vm_word v pte AND PTE_P \<noteq> 0 then bindE (pte_get_page (vm_word v pte)) (\<lambda>page. vm_free_page page v) else Inr v)
      (free_frames n (pte + 4))"

fun free_tables :: "nat \<Rightarrow> word_t \<Rightarrow> vm \<Rightarrow> c_error + vm" where
  "free_tables 0 pde v = Inr v"
| "free_tables (Suc n) pde v =
    bindE (if vm_word v pde AND PTE_P \<noteq> 0 then
             bindE (pde_get_pt (vm_word v pde)) (\<lambda>pt.
             bindE (free_frames (PGSIZE div 4) pt v) (vm_free_page pt))
           else Inr v)
      (free_tables n (pde + 4))"

definition pagedir_destroy :: "word_t \<Rightarrow> vm \<Rightarrow> c_error + vm" where
  "pagedir_destroy pd v =
    (if pd = 0 then Inr v
     else bindE (guardE AssertFailed (pd \<noteq> init_page_dir v)) (\<lambda>_.
       bindE (free_tables (unat (pd_no PHYS_BASE)) pd v) (vm_free_page pd)))"

section \<open>Setting up the kernel's mapping\<close>

text \<open>\<open>text_start\<close> and \<open>text_end\<close> are the linker's \<open>_start\<close> and \<open>_end_kernel_text\<close>; \<open>pt\<close> is the page table that was
  created last.\<close>

fun paging_loop :: "nat \<Rightarrow> nat \<Rightarrow> word_t \<Rightarrow> word_t \<Rightarrow> word_t \<Rightarrow> word_t \<Rightarrow> vm \<Rightarrow> c_error + vm" where
  "paging_loop 0 page text_start text_end pd pt v = Inr v"
| "paging_loop (Suc n) page text_start text_end pd pt v =
    bindE (ptov (of_nat (page * PGSIZE))) (\<lambda>vaddr.
    let pde = pd + 4 * pd_no vaddr; in_kernel_text = text_start \<le> vaddr \<and> vaddr < text_end in
    bindE (if vm_word v pde = 0 then
             bindE (vm_get_page (PAL_ASSERT OR PAL_ZERO) v) (\<lambda>(pt, v).
             bindE (pde_create pt) (\<lambda>e. Inr (pt, put_word pde e v)))
           else Inr (pt, v)) (\<lambda>(pt, v).
    bindE (guardE NullDereference (pt \<noteq> 0)) (\<lambda>_.
    bindE (pte_create_kernel vaddr (\<not> in_kernel_text)) (\<lambda>e.
      paging_loop n (page + 1) text_start text_end pd pt (put_word (pt + 4 * pt_no vaddr) e v)))))"

definition paging_init :: "word_t \<Rightarrow> word_t \<Rightarrow> vm \<Rightarrow> c_error + vm" where
  "paging_init text_start text_end v =
    bindE (vm_get_page (PAL_ASSERT OR PAL_ZERO) v) (\<lambda>(pd, v).
    bindE (paging_loop (unat (ram_pages v)) 0 text_start text_end pd 0 (v\<lparr>init_page_dir := pd\<rparr>)) (\<lambda>v.
    bindE (vtop (init_page_dir v)) (\<lambda>paddr. Inr (v\<lparr>cr3 := paddr, tlb_flushes := tlb_flushes v + 1\<rparr>))))"

section \<open>Tables in memory\<close>

text \<open>The words of a page.\<close>

definition tab :: "memory_t \<Rightarrow> word_t \<Rightarrow> nat \<Rightarrow> word_t" where
  "tab m p i = load_word m (p + of_nat (4 * i))"

lemma aligned_page:
  assumes "pg_ofs p = 0"
  obtains n where "unat p = 4096 * n" "n < 1048576"
proof
  have "unat p mod 4096 = 0" using assms by (simp add: pg_ofs_mod)
  then show u: "unat p = 4096 * (unat p div 4096)" by (metis mult_div_mod_eq add.right_neutral)
  have "unat p < 1048576 * 4096" using unsigned_less [of p, where ?'a = nat] by simp
  then show "unat p div 4096 < 1048576" by (rule less_mult_imp_div_less)
qed

lemma page_offset:
  assumes "pg_ofs p = 0" "k < 4096"
  shows "unat (p + of_nat k) = unat p + k"
proof (rule unat_add_small)
  obtain n where "unat p = 4096 * n" "n < 1048576" by (rule aligned_page [OF assms(1)])
  then show "unat p + k < 2 ^ 32" using assms(2) by simp
qed

lemma page_offset_eq:
  assumes "pg_ofs p = 0" "pg_ofs q = 0" "k < 4096" "l < 4096"
  shows "p + of_nat k = q + of_nat l \<longleftrightarrow> p = q \<and> k = l"
proof
  obtain m n where mn: "unat p = 4096 * m" "unat q = 4096 * n"
    using aligned_page [OF assms(1)] aligned_page [OF assms(2)] by metis
  assume "p + of_nat k = q + of_nat l"
  then have e: "4096 * m + k = 4096 * n + l" using page_offset assms mn by metis
  have "m = (4096 * m + k) div 4096" "n = (4096 * n + l) div 4096" using assms(3,4) by simp_all
  then have "m = n" using e by simp
  then show "p = q \<and> k = l" using e mn by (simp add: word_unat_eq_iff)
qed simp

text \<open>The bytes of a word at an offset, without sums of words.\<close>

definition byte_of :: "memory_t \<Rightarrow> word_t \<Rightarrow> nat \<Rightarrow> byte_t" where "byte_of m p k = m (p + of_nat k)"

lemma tab_bytes:
  "tab m p i = bytes_word (byte_of m p (4 * i)) (byte_of m p (4 * i + 1)) (byte_of m p (4 * i + 2)) (byte_of m p (4 * i + 3))"
  by (simp add: tab_def load_word_def byte_of_def add.assoc add.commute add.left_commute)

lemma byte_of_store:
  assumes "pg_ofs p = 0" "pg_ofs q = 0" "i < 1024" "k < 4096"
  shows "byte_of (store_word (p + of_nat (4 * i)) w m) q k =
    (if p = q \<and> k div 4 = i then word_bytes w ! (k mod 4) else byte_of m q k)"
proof -
  define A where "A = p + of_nat (4 * i)"
  define x where "x = q + of_nat k"
  have d: "x = A + of_nat a \<longleftrightarrow> p = q \<and> k = 4 * i + a" if "a < 4" for a
  proof -
    have "A + of_nat a = p + of_nat (4 * i + a)" by (simp add: A_def add.assoc)
    then show ?thesis using page_offset_eq [OF assms(2,1,4), of "4 * i + a"] that assms(3) by (auto simp: x_def)
  qed
  have s: "store_word A w m x =
    (if p = q \<and> k = 4 * i + 3 then ucast (drop_bit 24 w) else if p = q \<and> k = 4 * i + 2 then ucast (drop_bit 16 w)
     else if p = q \<and> k = 4 * i + 1 then ucast (drop_bit 8 w) else if p = q \<and> k = 4 * i then ucast w else m x)"
    using d [of 0] d [of 1] d [of 2] d [of 3] by (simp add: store_word_def fun_upd_def)
  show ?thesis
  proof (cases "p = q \<and> k div 4 = i")
    case True
    define r where "r = k mod 4"
    have k: "k = 4 * i + r" "r < 4" using True mult_div_mod_eq [of 4 k] by (auto simp: r_def)
    then have "r = 0 \<or> r = 1 \<or> r = 2 \<or> r = 3" by auto
    then have "store_word A w m x = word_bytes w ! r"
      unfolding s k(1) using True by (elim disjE) (simp_all add: word_bytes_def)
    then show ?thesis using True by (simp add: byte_of_def A_def x_def r_def)
  next
    case False
    then have "store_word A w m x = m x" unfolding s by auto
    then show ?thesis using False unfolding byte_of_def A_def x_def by (simp only: if_False)
  qed
qed

lemma tab_store:
  assumes "pg_ofs p = 0" "pg_ofs q = 0" "i < 1024" "j < 1024"
  shows "tab (store_word (p + of_nat (4 * i)) w m) q j = (if p = q \<and> i = j then w else tab m q j)"
proof -
  have b: "byte_of (store_word (p + of_nat (4 * i)) w m) q (4 * j + a) = (if p = q \<and> i = j then word_bytes w ! a else byte_of m q (4 * j + a))"
    if "a < 4" for a
    using byte_of_store [OF assms(1-3), of "4 * j + a"] that assms(4) by auto
  show ?thesis
    unfolding tab_bytes using b [of 0] b [of 1] b [of 2] b [of 3] by (simp add: word_bytes_def)
qed

lemma tab_memset:
  assumes "pg_ofs p = 0" "pg_ofs q = 0" "j < 1024"
  shows "tab (memset_pages m p 0 4096) q j = (if p = q then 0 else tab m q j)"
proof -
  have "byte_of (memset_pages m p 0 4096) q k = (if p = q then 0 else byte_of m q k)" if "k < 4096" for k
    using memset_pages_in [OF that] memset_pages_other [of 4096 "q + of_nat k" p m 0] page_offset_eq [OF assms(2,1) that]
    by (auto simp: byte_of_def)
  then show ?thesis using assms(3) by (simp add: tab_bytes bytes_word_def)
qed

end
