(* ===== verification/Pintos_Process.thy ===== *)
theory Pintos_Process
  imports Pintos_Directory Pintos_Pagedir
begin

unbundle bit_operations_syntax

text \<open>
  Loading and leaving user programs: \<open>userprog/process.c\<close>, with \<open>userprog/tss.c\<close>, on the file system and
  the page directories. Of the thread that runs, its page and its page directory are in the state. The
  bytes of a header are those of the file; what a buffer holds before it is read into is an argument.
\<close>

section \<open>State\<close>

definition SEL_KCSEG :: "16 word" where "SEL_KCSEG = 0x08"
definition SEL_KDSEG :: "16 word" where "SEL_KDSEG = 0x10"
definition SEL_UCSEG :: "16 word" where "SEL_UCSEG = 0x1B"
definition SEL_UDSEG :: "16 word" where "SEL_UDSEG = 0x23"

text \<open>The fields of the task-state segment that the kernel uses; \<open>tss\<close> is NULL before \<open>tss_init\<close>.\<close>

record tss =
  esp0 :: word_t
  ss0 :: "16 word"
  tss_bitmap :: "16 word"

record proc =
  vmem :: vm
  filesys :: fs
  cur_thread :: word_t
  pagedir :: word_t
  the_tss :: "tss option"

definition on_vm :: "(vm \<Rightarrow> c_error + ('a \<times> vm)) \<Rightarrow> proc \<Rightarrow> c_error + ('a \<times> proc)" where
  "on_vm f p = bindE (f (vmem p)) (\<lambda>(r, v). Inr (r, p\<lparr>vmem := v\<rparr>))"

definition to_vm :: "(vm \<Rightarrow> c_error + vm) \<Rightarrow> proc \<Rightarrow> c_error + proc" where
  "to_vm f p = bindE (f (vmem p)) (\<lambda>v. Inr (p\<lparr>vmem := v\<rparr>))"

definition on_fs :: "(fs \<Rightarrow> c_error + ('a \<times> fs)) \<Rightarrow> proc \<Rightarrow> c_error + ('a \<times> proc)" where
  "on_fs f p = bindE (f (filesys p)) (\<lambda>(r, k). Inr (r, p\<lparr>filesys := k\<rparr>))"

definition to_fs :: "(fs \<Rightarrow> c_error + fs) \<Rightarrow> proc \<Rightarrow> c_error + proc" where
  "to_fs f p = bindE (f (filesys p)) (\<lambda>k. Inr (p\<lparr>filesys := k\<rparr>))"

definition put_mem :: "memory_t \<Rightarrow> vm \<Rightarrow> vm" where
  "put_mem m v = v\<lparr>palloc := (palloc v)\<lparr>pmem := m\<rparr>\<rparr>"

section \<open>The task-state segment\<close>

definition tss_update :: "proc \<Rightarrow> c_error + proc" where
  "tss_update p = (case the_tss p of None \<Rightarrow> Inl AssertFailed
     | Some t \<Rightarrow> Inr (p\<lparr>the_tss := Some (t\<lparr>esp0 := cur_thread p + of_nat PGSIZE\<rparr>)\<rparr>))"

definition tss_init :: "proc \<Rightarrow> c_error + proc" where
  "tss_init p =
    bindE (on_vm (vm_get_page (PAL_ASSERT OR PAL_ZERO)) p) (\<lambda>(page, p).
      tss_update (p\<lparr>the_tss := Some \<lparr>esp0 = 0, ss0 = SEL_KDSEG, tss_bitmap = 0xdfff\<rparr>\<rparr>))"

section \<open>Leaving and switching\<close>

definition process_activate :: "proc \<Rightarrow> c_error + proc" where
  "process_activate p = bindE (to_vm (pagedir_activate (pagedir p)) p) tss_update"

definition process_exit :: "proc \<Rightarrow> c_error + proc" where
  "process_exit p =
    (let pd = pagedir p in
     if pd \<noteq> 0 then bindE (to_vm (pagedir_activate 0) (p\<lparr>pagedir := 0\<rparr>)) (to_vm (pagedir_destroy pd))
     else Inr p)"

section \<open>Pages of the program\<close>

definition install_page :: "word_t \<Rightarrow> word_t \<Rightarrow> bool \<Rightarrow> proc \<Rightarrow> c_error + (bool \<times> proc)" where
  "install_page upage kpage writable p =
    bindE (on_vm (pagedir_get_page (pagedir p) upage) p) (\<lambda>(page, p).
      if page = 0 then on_vm (pagedir_set_page (pagedir p) upage kpage writable) p else Inr (False, p))"

text \<open>The initial stack pointer, when there is one.\<close>

definition setup_stack :: "proc \<Rightarrow> c_error + (word_t option \<times> proc)" where
  "setup_stack p =
    bindE (on_vm (vm_get_page (PAL_USER OR PAL_ZERO)) p) (\<lambda>(kpage, p).
      if kpage \<noteq> 0 then
        bindE (install_page (PHYS_BASE - of_nat PGSIZE) kpage True p) (\<lambda>(success, p).
          if success then Inr (Some PHYS_BASE, p)
          else bindE (to_vm (vm_free_page kpage) p) (\<lambda>p. Inr (None, p)))
      else Inr (None, p))"

text \<open>\<open>file_read\<close> into memory.\<close>

definition load_bytes :: "memory_t \<Rightarrow> word_t \<Rightarrow> nat \<Rightarrow> byte_t list" where
  "load_bytes m a n = map (\<lambda>i. m (a + of_nat i)) [0..<n]"

fun store_bytes :: "word_t \<Rightarrow> byte_t list \<Rightarrow> memory_t \<Rightarrow> memory_t" where
  "store_bytes a [] m = m"
| "store_bytes a (b # bs) m = store_bytes (a + 1) bs (m(a := b))"

definition read_into :: "addr \<Rightarrow> word_t \<Rightarrow> nat \<Rightarrow> proc \<Rightarrow> c_error + (int \<times> proc)" where
  "read_into file a n p =
    bindE (file_read file (load_bytes (pmem (palloc (vmem p))) a n) (int n) (filesys p)) (\<lambda>(r, bs, k).
      Inr (r, p\<lparr>filesys := k, vmem := put_mem (store_bytes a bs (pmem (palloc (vmem p)))) (vmem p)\<rparr>))"

text \<open>The page of \<open>load_segment\<close> that was not mapped before, 0 when it returns false for the lack of one.\<close>

definition new_page :: "word_t \<Rightarrow> bool \<Rightarrow> proc \<Rightarrow> c_error + (word_t \<times> proc)" where
  "new_page upage writable p =
    bindE (on_vm (vm_get_page PAL_USER) p) (\<lambda>(kpage, p).
      if kpage = 0 then Inr (0, p)
      else bindE (install_page upage kpage writable p) (\<lambda>(success, p).
        if \<not> success then bindE (to_vm (vm_free_page kpage) p) (\<lambda>p. Inr (0, p))
        else Inr (kpage, p)))"

text \<open>The loop of \<open>load_segment\<close>; what it asserts first makes \<open>(read_bytes + zero_bytes) div PGSIZE\<close> the number of rounds.\<close>

fun load_pages :: "nat \<Rightarrow> addr \<Rightarrow> word_t \<Rightarrow> word_t \<Rightarrow> word_t \<Rightarrow> bool \<Rightarrow> proc \<Rightarrow> c_error + (bool \<times> proc)" where
  "load_pages 0 file upage read_bytes zero_bytes writable p =
    (if read_bytes > 0 \<or> zero_bytes > 0 then Inl NoFuel else Inr (True, p))"
| "load_pages (Suc n) file upage read_bytes zero_bytes writable p =
    (if read_bytes > 0 \<or> zero_bytes > 0 then
       let page_read_bytes = (if read_bytes < of_nat PGSIZE then read_bytes else of_nat PGSIZE);
           page_zero_bytes = of_nat PGSIZE - page_read_bytes in
       bindE (on_vm (pagedir_get_page (pagedir p) upage) p) (\<lambda>(kpage, p).
       bindE (if kpage = 0 then new_page upage writable p else Inr (kpage, p)) (\<lambda>(kpage, p).
         if kpage = 0 then Inr (False, p)
         else
           bindE (read_into file kpage (unat page_read_bytes) p) (\<lambda>(r, p).
             if r \<noteq> int (unat page_read_bytes) then bindE (to_vm (vm_free_page kpage) p) (\<lambda>p. Inr (False, p))
             else
               load_pages n file (upage + of_nat PGSIZE) (read_bytes - page_read_bytes) (zero_bytes - page_zero_bytes) writable
                 (p\<lparr>vmem := put_mem (memset_pages (pmem (palloc (vmem p))) (kpage + page_read_bytes) 0 (unat page_zero_bytes)) (vmem p)\<rparr>))))
     else Inr (True, p))"

definition load_segment :: "addr \<Rightarrow> int \<Rightarrow> word_t \<Rightarrow> word_t \<Rightarrow> word_t \<Rightarrow> bool \<Rightarrow> proc \<Rightarrow> c_error + (bool \<times> proc)" where
  "load_segment file ofs upage read_bytes zero_bytes writable p =
    bindE (guardE AssertFailed (unat (read_bytes + zero_bytes) mod PGSIZE = 0)) (\<lambda>_.
    bindE (guardE AssertFailed (pg_ofs upage = 0)) (\<lambda>_.
    bindE (guardE AssertFailed (ofs smod int PGSIZE = 0)) (\<lambda>_.
    bindE (to_fs (file_seek file ofs) p) (\<lambda>p.
      load_pages ((unat read_bytes + unat zero_bytes) div PGSIZE) file upage read_bytes zero_bytes writable p))))"

section \<open>Executables\<close>

definition half_at :: "byte_t list \<Rightarrow> nat \<Rightarrow> 16 word" where
  "half_at bs i = ucast (bs ! i) OR push_bit 8 (ucast (bs ! (i + 1)))"

text \<open>The fields of the headers that the code reads.\<close>

record Elf32_Ehdr =
  e_ident :: "byte_t list"
  e_type :: "16 word"
  e_machine :: "16 word"
  e_version :: word_t
  e_entry :: word_t
  e_phoff :: word_t
  e_phentsize :: "16 word"
  e_phnum :: "16 word"

definition decode_ehdr :: "byte_t list \<Rightarrow> Elf32_Ehdr" where
  "decode_ehdr bs = \<lparr>e_ident = take 16 bs, e_type = half_at bs 16, e_machine = half_at bs 18, e_version = word_at bs 20,
    e_entry = word_at bs 24, e_phoff = word_at bs 28, e_phentsize = half_at bs 42, e_phnum = half_at bs 44\<rparr>"

record Elf32_Phdr =
  p_type :: word_t
  p_offset :: word_t
  p_vaddr :: word_t
  p_filesz :: word_t
  p_memsz :: word_t
  p_flags :: word_t

definition decode_phdr :: "byte_t list \<Rightarrow> Elf32_Phdr" where
  "decode_phdr bs = \<lparr>p_type = word_at bs 0, p_offset = word_at bs 4, p_vaddr = word_at bs 8,
    p_filesz = word_at bs 16, p_memsz = word_at bs 20, p_flags = word_at bs 24\<rparr>"

definition ehdr_size :: nat where "ehdr_size = 52"
definition phdr_size :: nat where "phdr_size = 32"

definition PT_NULL :: word_t where "PT_NULL = 0"
definition PT_LOAD :: word_t where "PT_LOAD = 1"
definition PT_DYNAMIC :: word_t where "PT_DYNAMIC = 2"
definition PT_INTERP :: word_t where "PT_INTERP = 3"
definition PT_NOTE :: word_t where "PT_NOTE = 4"
definition PT_SHLIB :: word_t where "PT_SHLIB = 5"
definition PT_PHDR :: word_t where "PT_PHDR = 6"
definition PT_STACK :: word_t where "PT_STACK = 0x6474e551"

definition PF_W :: word_t where "PF_W = 2"

definition ROUND_UP :: "word_t \<Rightarrow> word_t \<Rightarrow> word_t" where "ROUND_UP x step = (x + step - 1) div step * step"

definition ehdr_valid :: "Elf32_Ehdr \<Rightarrow> bool" where
  "ehdr_valid h \<longleftrightarrow> take 7 (e_ident h) = [0x7f, 0x45, 0x4c, 0x46, 1, 1, 1] \<and> e_type h = 2 \<and> e_machine h = 3 \<and> e_version h = 1 \<and>
     e_phentsize h = of_nat phdr_size \<and> \<not> e_phnum h > 1024"

definition validate_segment :: "Elf32_Phdr \<Rightarrow> addr \<Rightarrow> fs \<Rightarrow> c_error + bool" where
  "validate_segment phdr file k =
    (if p_offset phdr AND PGMASK \<noteq> p_vaddr phdr AND PGMASK then Inr False
     else bindE (file_length file k) (\<lambda>len.
       if p_offset phdr > of_int len then Inr False
       else if p_memsz phdr < p_filesz phdr then Inr False
       else if p_memsz phdr = 0 then Inr False
       else if \<not> is_user_vaddr (p_vaddr phdr) then Inr False
       else if \<not> is_user_vaddr (p_vaddr phdr + p_memsz phdr) then Inr False
       else if p_vaddr phdr + p_memsz phdr < p_vaddr phdr then Inr False
       else if p_vaddr phdr < of_nat PGSIZE then Inr False
       else Inr True))"

text \<open>How many bytes of a segment are read and how many zeroed.\<close>

definition segment_bytes :: "Elf32_Phdr \<Rightarrow> word_t \<times> word_t" where
  "segment_bytes phdr =
    (let page_offset = p_vaddr phdr AND PGMASK in
     if p_filesz phdr > 0 then
       (let read_bytes = page_offset + p_filesz phdr
        in (read_bytes, ROUND_UP (page_offset + p_memsz phdr) (of_nat PGSIZE) - read_bytes))
     else (0, ROUND_UP (page_offset + p_memsz phdr) (of_nat PGSIZE)))"

definition load_phdr :: "Elf32_Phdr \<Rightarrow> addr \<Rightarrow> proc \<Rightarrow> c_error + (bool \<times> proc)" where
  "load_phdr phdr file p =
    (if p_type phdr = PT_DYNAMIC \<or> p_type phdr = PT_INTERP \<or> p_type phdr = PT_SHLIB then Inr (False, p)
     else if p_type phdr = PT_LOAD then
       bindE (validate_segment phdr file (filesys p)) (\<lambda>valid.
         if valid then
           (let writable = (p_flags phdr AND PF_W \<noteq> 0);
                file_page = p_offset phdr AND NOT PGMASK;
                mem_page = p_vaddr phdr AND NOT PGMASK;
                (read_bytes, zero_bytes) = segment_bytes phdr
            in load_segment file (sint file_page) mem_page read_bytes zero_bytes writable p)
         else Inr (False, p))
     else Inr (True, p))"

text \<open>The program headers that are left, from \<open>file_ofs\<close> on.\<close>

fun phdr_loop :: "nat \<Rightarrow> addr \<Rightarrow> word_t \<Rightarrow> byte_t list \<Rightarrow> proc \<Rightarrow> c_error + (bool \<times> proc)" where
  "phdr_loop 0 file file_ofs junk p = Inr (True, p)"
| "phdr_loop (Suc n) file file_ofs junk p =
    bindE (if sint file_ofs < 0 then Inr True else bindE (file_length file (filesys p)) (\<lambda>len. Inr (sint file_ofs > len))) (\<lambda>outside.
      if outside then Inr (False, p)
      else
        bindE (to_fs (file_seek file (sint file_ofs)) p) (\<lambda>p.
        bindE (file_read file junk (int phdr_size) (filesys p)) (\<lambda>(r, bs, k).
          let p = p\<lparr>filesys := k\<rparr> in
          if r \<noteq> int phdr_size then Inr (False, p)
          else
            bindE (load_phdr (decode_phdr bs) file p) (\<lambda>(success, p).
              if success then phdr_loop n file (file_ofs + of_nat phdr_size) junk p else Inr (False, p)))))"

text \<open>From the header on: the entry point and the initial stack pointer of a program that could be loaded.\<close>

definition load_file :: "addr \<Rightarrow> byte_t list \<Rightarrow> byte_t list \<Rightarrow> proc \<Rightarrow> c_error + ((word_t \<times> word_t) option \<times> proc)" where
  "load_file file junk_ehdr junk_phdr p =
    bindE (file_read file junk_ehdr (int ehdr_size) (filesys p)) (\<lambda>(r, bs, k).
      let p = p\<lparr>filesys := k\<rparr>; ehdr = decode_ehdr bs in
      if r \<noteq> int ehdr_size \<or> \<not> ehdr_valid ehdr then Inr (None, p)
      else
        bindE (phdr_loop (unat (e_phnum ehdr)) file (e_phoff ehdr) junk_phdr p) (\<lambda>(success, p).
          if \<not> success then Inr (None, p)
          else
            bindE (setup_stack p) (\<lambda>(esp, p).
              case esp of None \<Rightarrow> Inr (None, p) | Some esp \<Rightarrow> Inr (Some (e_entry ehdr, esp), p))))"

definition load_program :: "mem \<Rightarrow> nat \<Rightarrow> byte_t list \<Rightarrow> byte_t list \<Rightarrow> byte_t list \<Rightarrow> proc \<Rightarrow> c_error + ((word_t \<times> word_t) option \<times> proc)" where
  "load_program m file_name junk_entry junk_ehdr junk_phdr p =
    bindE (on_vm pagedir_create p) (\<lambda>(pd, p).
    let p = p\<lparr>pagedir := pd\<rparr> in
    bindE (if pd = 0 then Inr (0, None, p)
           else
             bindE (process_activate p) (\<lambda>p.
             bindE (on_fs (filesys_open m file_name junk_entry) p) (\<lambda>(file, p).
               if file = 0 then Inr (file, None, p)
               else bindE (load_file file junk_ehdr junk_phdr p) (\<lambda>(r, p). Inr (file, r, p)))))
      (\<lambda>(file, r, p).
    bindE (to_fs (file_close file) p) (\<lambda>p. Inr (r, p))))"

section \<open>Starting a program\<close>

definition FLAG_MBS :: word_t where "FLAG_MBS = 0x2"
definition FLAG_IF :: word_t where "FLAG_IF = 0x200"

text \<open>The registers that a program is started with; those that are not named are 0.\<close>

record intr_frame =
  data_segs :: "16 word"
  cs :: "16 word"
  eflags :: word_t
  eip :: word_t
  esp :: word_t

text \<open>The name is in a page of its own, which the functions of \<open>string.c\<close> see behind a byte for address 0. The
  thread exits when there is no frame to jump to.\<close>

definition start_process :: "word_t \<Rightarrow> byte_t list \<Rightarrow> byte_t list \<Rightarrow> byte_t list \<Rightarrow> proc \<Rightarrow> c_error + (intr_frame option \<times> proc)" where
  "start_process file_name junk_entry junk_ehdr junk_phdr p =
    bindE (load_program (0 # load_bytes (pmem (palloc (vmem p))) file_name PGSIZE) 1 junk_entry junk_ehdr junk_phdr p) (\<lambda>(r, p).
    bindE (to_vm (vm_free_page file_name) p) (\<lambda>p.
      Inr (case r of None \<Rightarrow> None
           | Some (entry, stack) \<Rightarrow> Some \<lparr>data_segs = SEL_UDSEG, cs = SEL_UCSEG, eflags = FLAG_IF OR FLAG_MBS, eip = entry, esp = stack\<rparr>, p)))"

end
