(* ===== verification/Pintos_Pagedir_Refinement.thy ===== *)
theory Pintos_Pagedir_Refinement
  imports Pintos_Pagedir
begin

unbundle bit_operations_syntax

text \<open>
  Page directories as address spaces: an invariant of all directories in use, which says that they
  share no tables but the kernel's, and what each operation does to the translation of addresses.
\<close>

section \<open>Entries\<close>

lemma word_eq_bits: "(x :: word_t) = y \<longleftrightarrow> (\<forall>n < 32. bit x n = bit y n)"
  using bit_word_eqI [of x y] by auto

lemma aligned_bits: "pg_ofs x = 0 \<longleftrightarrow> (\<forall>n < 12. \<not> bit x n)"
proof -
  have m: "PGMASK = mask 12" by (simp add: PGMASK_def mask_eq_exp_minus_1)
  have "pg_ofs x = 0 \<longleftrightarrow> (\<forall>n < 32. n < 12 \<longrightarrow> \<not> bit x n)" unfolding pg_ofs_def m word_eq_bits by (auto simp: bit_simps)
  moreover have "n < 32" if "n < 12" for n :: nat using that by simp
  ultimately show ?thesis by blast
qed

lemma PTE_ADDR_bits: "bit PTE_ADDR n \<longleftrightarrow> 12 \<le> n \<and> n < 32"
proof -
  have m: "PTE_ADDR = NOT (mask 12)" by (simp add: PTE_ADDR_def mask_eq_exp_minus_1)
  show ?thesis unfolding m by (auto simp: bit_simps)
qed

lemma entry_parts:
  assumes "pg_ofs x = 0" "f AND PTE_ADDR = 0"
  shows "(x OR f) AND PTE_ADDR = x" "g AND PTE_ADDR = 0 \<Longrightarrow> (x OR f) AND g = f AND g"
proof -
  have f: "\<not> bit f n" if "12 \<le> n" "n < 32" for n
    using assms(2) that by (auto simp: word_eq_bits bit_simps PTE_ADDR_bits)
  have x: "\<not> bit x n" if "n < 12" for n using assms(1) that by (simp add: aligned_bits)
  show "(x OR f) AND PTE_ADDR = x"
    unfolding word_eq_bits using x f by (auto simp: bit_simps PTE_ADDR_bits not_le [symmetric])
  assume g: "g AND PTE_ADDR = 0"
  have g: "\<not> bit g n" if "12 \<le> n" "n < 32" for n
    using g that by (auto simp: word_eq_bits bit_simps PTE_ADDR_bits)
  show "(x OR f) AND g = f AND g"
    unfolding word_eq_bits using x g by (auto simp: bit_simps not_le [symmetric])
qed

lemma flags_off_address [simp]:
  "PTE_P AND PTE_ADDR = 0" "PTE_W AND PTE_ADDR = 0" "PTE_U AND PTE_ADDR = 0" "PTE_A AND PTE_ADDR = 0" "PTE_D AND PTE_ADDR = 0"
  by (simp_all add: PTE_P_def PTE_W_def PTE_U_def PTE_A_def PTE_D_def PTE_ADDR_def)

lemma aligned_address: "pg_ofs (e AND PTE_ADDR) = 0"
  by (simp add: aligned_bits bit_simps PTE_ADDR_bits)

lemma aligned_add:
  assumes "pg_ofs p = 0" "pg_ofs q = 0"
  shows "pg_ofs (p + q) = 0"
proof -
  have "unat (p + q) mod 4096 = (unat p + unat q) mod 2 ^ 32 mod 4096" by (simp add: unat_word_ariths)
  also have "\<dots> = (unat p + unat q) mod 4096" by (rule mod_mod_cancel) simp
  also have "\<dots> = 0" using assms by (simp add: pg_ofs_mod mod_add_eq [symmetric])
  finally show ?thesis by (simp add: pg_ofs_mod)
qed

lemma aligned_kernel:
  assumes "pg_ofs p = 0"
  shows "pg_ofs (p - PHYS_BASE) = 0" "pg_ofs (p + PHYS_BASE) = 0"
proof -
  have u: "- PHYS_BASE = 0x40000000" by (simp add: PHYS_BASE_def)
  have n: "p - PHYS_BASE = p + 0x40000000" unfolding diff_conv_add_uminus [of p PHYS_BASE] u ..
  have "pg_ofs PHYS_BASE = 0" "pg_ofs 0x40000000 = 0" by (simp_all add: pg_ofs_def PHYS_BASE_def PGMASK_def)
  then show "pg_ofs (p - PHYS_BASE) = 0" "pg_ofs (p + PHYS_BASE) = 0" using aligned_add [OF assms] by (simp_all add: n)
qed

text \<open>The page that an entry has the address of.\<close>

definition entry_page :: "word_t \<Rightarrow> word_t" where "entry_page e = (e AND PTE_ADDR) + PHYS_BASE"

lemma aligned_entry_page [simp]: "pg_ofs (entry_page e) = 0"
  by (simp add: entry_page_def aligned_kernel aligned_address)

lemma ptov_address:
  assumes "PHYS_BASE \<le> entry_page e"
  shows "ptov (e AND PTE_ADDR) = Inr (entry_page e)"
proof -
  let ?x = "e AND PTE_ADDR"
  have "unat ?x + unat PHYS_BASE < 2 ^ 32"
  proof (rule ccontr)
    assume "\<not> unat ?x + unat PHYS_BASE < 2 ^ 32"
    then have "unat (?x + PHYS_BASE) = unat ?x + unat PHYS_BASE - 2 ^ 32" by (simp add: unat_plus_if_size word_size)
    moreover have "unat ?x < 2 ^ 32" using unsigned_less [of ?x, where ?'a = nat] by simp
    ultimately have "unat (entry_page e) < unat PHYS_BASE" by (simp add: entry_page_def PHYS_BASE_def)
    then show False using assms by (simp add: word_le_nat_alt)
  qed
  then have "?x < PHYS_BASE" by (simp add: word_less_nat_alt PHYS_BASE_def)
  then show ?thesis by (simp add: ptov_def entry_page_def)
qed

lemma vtop_kernel: "PHYS_BASE \<le> p \<Longrightarrow> vtop p = Inr (p - PHYS_BASE)"
  by (simp add: vtop_def is_kernel_vaddr_def)

lemma pde_create_entry:
  assumes "pg_ofs pt = 0" "PHYS_BASE \<le> pt"
  shows "\<exists>e. pde_create pt = Inr e \<and> entry_page e = pt \<and> e AND PTE_P \<noteq> 0 \<and> e \<noteq> 0"
proof -
  let ?e = "(pt - PHYS_BASE) OR (PTE_U OR PTE_P OR PTE_W)"
  have f: "(PTE_U OR PTE_P OR PTE_W) AND PTE_ADDR = 0" by (simp add: PTE_P_def PTE_W_def PTE_U_def PTE_ADDR_def)
  note e = entry_parts [OF aligned_kernel(1) [OF assms(1)] f]
  have "?e AND PTE_P = PTE_P" by (subst e(2)) (simp_all add: PTE_P_def PTE_W_def PTE_U_def PTE_ADDR_def)
  moreover have "PTE_P \<noteq> 0" by (simp add: PTE_P_def)
  moreover have "entry_page ?e = pt" by (simp add: entry_page_def e(1))
  ultimately show ?thesis
    using assms by (auto simp: pde_create_def vtop_kernel or.assoc)
qed

lemma pte_create_user_entry:
  assumes "pg_ofs p = 0" "PHYS_BASE \<le> p"
  shows "\<exists>e. pte_create_user p w = Inr e \<and> entry_page e = p \<and> e AND PTE_P \<noteq> 0 \<and> (e AND PTE_W \<noteq> 0) = w \<and> e AND PTE_U \<noteq> 0 \<and>
    e AND PTE_D = 0 \<and> e AND PTE_A = 0"
proof -
  let ?f = "PTE_P OR (if w then PTE_W else 0) OR PTE_U"
  let ?e = "(p - PHYS_BASE) OR ?f"
  have f: "?f AND PTE_ADDR = 0" by (simp add: PTE_P_def PTE_W_def PTE_U_def PTE_ADDR_def)
  note e = entry_parts [OF aligned_kernel(1) [OF assms(1)] f]
  have "?e AND PTE_P = ?f AND PTE_P" "?e AND PTE_W = ?f AND PTE_W" "?e AND PTE_U = ?f AND PTE_U" "?e AND PTE_D = ?f AND PTE_D"
    "?e AND PTE_A = ?f AND PTE_A"
    by (rule e(2), rule flags_off_address)+
  moreover have "entry_page ?e = p" by (simp add: entry_page_def e(1))
  ultimately show ?thesis
    using assms
    by (auto simp: pte_create_user_def pte_create_kernel_def vtop_kernel or.assoc PTE_P_def PTE_W_def PTE_U_def PTE_D_def PTE_A_def)
qed

text \<open>Changing a flag of an entry.\<close>

lemma set_flag:
  assumes "f AND PTE_ADDR = 0"
  shows "entry_page (e OR f) = entry_page e" "entry_page (e AND NOT f) = entry_page e"
    "f AND g = 0 \<Longrightarrow> (e OR f) AND g = e AND g" "f AND g = 0 \<Longrightarrow> (e AND NOT f) AND g = e AND g"
    "(e AND NOT f) AND f = 0" "(e OR f) AND f = f"
proof -
  show g: "f AND g = 0 \<Longrightarrow> (e OR f) AND g = e AND g" "f AND g = 0 \<Longrightarrow> (e AND NOT f) AND g = e AND g" for g
    by (auto simp: word_eq_bits bit_simps)
  show "entry_page (e OR f) = entry_page e" "entry_page (e AND NOT f) = entry_page e"
    using g assms by (simp_all add: entry_page_def)
  show "(e AND NOT f) AND f = 0" "(e OR f) AND f = f" by (auto simp: word_eq_bits bit_simps)
qed

section \<open>Addresses\<close>

lemma unat_pd_no: "unat (pd_no va) = unat va div 2 ^ 22"
  by (simp only: pd_no_def PDSHIFT_def PTSHIFT_def PGBITS_def PTBITS_def unat_drop_bit_eq) (simp add: drop_bit_eq_div)

lemma unat_pt_no: "unat (pt_no va) = unat va div 4096 mod 1024"
proof -
  have m: "PTMASK = push_bit 12 (mask 10)" by (simp add: PTMASK_def PTSHIFT_def PGBITS_def PTBITS_def mask_eq_exp_minus_1)
  have "drop_bit 12 (va AND PTMASK) = take_bit 10 (drop_bit 12 va)"
    by (rule bit_word_eqI)
      (auto simp: m bit_simps)
  then have "unat (pt_no va) = unat (take_bit 10 (drop_bit 12 va))" by (simp only: pt_no_def PTSHIFT_def PGBITS_def)
  also have "\<dots> = take_bit 10 (drop_bit 12 (unat va))" by (simp only: unsigned_take_bit_eq unat_drop_bit_eq)
  finally show ?thesis by (simp add: take_bit_eq_mod drop_bit_eq_div)
qed

lemma index_bounds: "unat (pd_no va) < 1024" "unat (pt_no va) < 1024" "is_user_vaddr va \<Longrightarrow> unat (pd_no va) < 768"
proof -
  have "unat va < 1024 * 2 ^ 22" using unsigned_less [of va, where ?'a = nat] by simp
  then show "unat (pd_no va) < 1024" unfolding unat_pd_no by (rule less_mult_imp_div_less)
  show "unat (pt_no va) < 1024" by (simp add: unat_pt_no)
  assume "is_user_vaddr va"
  then have "unat va < 768 * 2 ^ 22" by (simp add: is_user_vaddr_def word_less_nat_alt PHYS_BASE_def)
  then show "unat (pd_no va) < 768" unfolding unat_pd_no by (rule less_mult_imp_div_less)
qed

lemma same_page: "pd_no a = pd_no b \<and> pt_no a = pt_no b \<longleftrightarrow> pg_no a = pg_no b"
proof -
  have d: "unat x div 2 ^ 22 = unat x div 4096 div 1024" for x :: word_t by (simp add: div_mult2_eq [symmetric])
  have "pd_no a = pd_no b \<and> pt_no a = pt_no b \<longleftrightarrow>
      unat a div 4096 div 1024 = unat b div 4096 div 1024 \<and> unat a div 4096 mod 1024 = unat b div 4096 mod 1024"
    unfolding word_unat_eq_iff unat_pd_no unat_pt_no d ..
  also have "\<dots> \<longleftrightarrow> unat a div 4096 = unat b div 4096" by (metis div_mult_mod_eq)
  also have "\<dots> \<longleftrightarrow> pg_no a = pg_no b" by (simp add: word_unat_eq_iff unat_pg_no)
  finally show ?thesis .
qed

lemma index_address: "p + 4 * (x :: word_t) = p + of_nat (4 * unat x)"
  by simp


section \<open>Directories and their tables\<close>

abbreviation table :: "memory_t \<Rightarrow> word_t \<Rightarrow> nat \<Rightarrow> word_t" where "table m d i \<equiv> entry_page (tab m d i)"

text \<open>The entry of the page of \<open>va\<close> in the directory \<open>d\<close>, 0 when it has no table; and what it says: the page, whether it may be
  written, and whether a user program may use it.\<close>

definition the_pte :: "memory_t \<Rightarrow> word_t \<Rightarrow> word_t \<Rightarrow> word_t" where
  "the_pte m d va = (let i = unat (pd_no va) in if tab m d i = 0 then 0 else tab m (table m d i) (unat (pt_no va)))"

definition translate :: "memory_t \<Rightarrow> word_t \<Rightarrow> word_t \<Rightarrow> (word_t \<times> bool \<times> bool) option" where
  "translate m d va = (let e = the_pte m d va in
     if e AND PTE_P = 0 then None else Some (entry_page e, e AND PTE_W \<noteq> 0, e AND PTE_U \<noteq> 0))"

definition kpage_used :: "palloc_state \<Rightarrow> word_t \<Rightarrow> bool" where
  "kpage_used st p \<longleftrightarrow> (\<exists>j < bit_cnt (used_map (kernel_pool st)). bmap (used_map (kernel_pool st)) ! j \<and> p = page_at (kernel_pool st) j)"

text \<open>
  \<open>vm_inv v D\<close>: \<open>D\<close> are the page directories in use. Directories and tables are allocated pages of the
  kernel's pool; no table belongs to two entries, except that all directories share the kernel's, those
  of the entries from 768 on.
\<close>

definition vm_inv :: "vm \<Rightarrow> word_t set \<Rightarrow> bool" where
  "vm_inv v D \<longleftrightarrow> (let st = palloc v; m = pmem st; d0 = init_page_dir v in
     pools_wf st \<and> PHYS_BASE \<le> base (kernel_pool st) \<and> d0 \<in> D \<and> (\<forall>d \<in> D. kpage_used st d) \<and>
     (\<forall>d \<in> D. \<forall>i < 1024. tab m d i \<noteq> 0 \<longrightarrow> tab m d i AND PTE_P \<noteq> 0 \<and> kpage_used st (table m d i) \<and> table m d i \<notin> D) \<and>
     (\<forall>d \<in> D. \<forall>d' \<in> D. \<forall>i < 1024. \<forall>j < 1024. tab m d i \<noteq> 0 \<and> tab m d' j \<noteq> 0 \<and> table m d i = table m d' j \<longrightarrow>
       i = j \<and> (d = d' \<or> 768 \<le> i)) \<and>
     (\<forall>i < 768. tab m d0 i = 0) \<and> (\<forall>d \<in> D. \<forall>i < 1024. 768 \<le> i \<longrightarrow> tab m d i = tab m d0 i))"

lemma vm_invD:
  assumes "vm_inv v D"
  shows "pools_wf (palloc v)" "PHYS_BASE \<le> base (kernel_pool (palloc v))" "init_page_dir v \<in> D"
    "\<And>d. d \<in> D \<Longrightarrow> kpage_used (palloc v) d"
    "\<And>d i. d \<in> D \<Longrightarrow> i < 1024 \<Longrightarrow> tab (pmem (palloc v)) d i \<noteq> 0 \<Longrightarrow> tab (pmem (palloc v)) d i AND PTE_P \<noteq> 0"
    "\<And>d i. d \<in> D \<Longrightarrow> i < 1024 \<Longrightarrow> tab (pmem (palloc v)) d i \<noteq> 0 \<Longrightarrow> kpage_used (palloc v) (table (pmem (palloc v)) d i)"
    "\<And>d i. d \<in> D \<Longrightarrow> i < 1024 \<Longrightarrow> tab (pmem (palloc v)) d i \<noteq> 0 \<Longrightarrow> table (pmem (palloc v)) d i \<notin> D"
    "\<And>d d' i j. d \<in> D \<Longrightarrow> d' \<in> D \<Longrightarrow> i < 1024 \<Longrightarrow> j < 1024 \<Longrightarrow> tab (pmem (palloc v)) d i \<noteq> 0 \<Longrightarrow> tab (pmem (palloc v)) d' j \<noteq> 0 \<Longrightarrow>
       table (pmem (palloc v)) d i = table (pmem (palloc v)) d' j \<Longrightarrow> i = j \<and> (d = d' \<or> 768 \<le> i)"
    "\<And>i. i < 768 \<Longrightarrow> tab (pmem (palloc v)) (init_page_dir v) i = 0"
    "\<And>d i. d \<in> D \<Longrightarrow> i < 1024 \<Longrightarrow> 768 \<le> i \<Longrightarrow> tab (pmem (palloc v)) d i = tab (pmem (palloc v)) (init_page_dir v) i"
  using assms unfolding vm_inv_def Let_def by blast+

text \<open>Allocated pages of the kernel's pool.\<close>

lemma kpage_usedD:
  assumes "pools_wf st" "PHYS_BASE \<le> base (kernel_pool st)" "kpage_used st p"
  shows "pg_ofs p = 0" "PHYS_BASE \<le> p" "p \<noteq> 0"
proof -
  have wf: "pool_wf (kernel_pool st)" using assms(1) by (simp add: pools_wf_def)
  obtain j where j: "j < bit_cnt (used_map (kernel_pool st))" "p = page_at (kernel_pool st) j"
    using assms(3) by (auto simp: kpage_used_def)
  note p = page_at [OF wf j(1)]
  show "pg_ofs p = 0" "p \<noteq> 0" using p(2,3) by (simp_all add: j(2))
  show "PHYS_BASE \<le> p" using p(1) assms(2) by (simp add: j(2) word_le_nat_alt)
qed

lemma vm_dir:
  assumes "vm_inv v D" "d \<in> D"
  shows "pg_ofs d = 0" "PHYS_BASE \<le> d" "d \<noteq> 0"
  using kpage_usedD [OF vm_invD(1,2) [OF assms(1)] vm_invD(4) [OF assms]] by blast+

lemma vm_table:
  assumes "vm_inv v D" "d \<in> D" "i < 1024" "tab (pmem (palloc v)) d i \<noteq> 0"
  shows "PHYS_BASE \<le> table (pmem (palloc v)) d i" "table (pmem (palloc v)) d i \<noteq> 0"
    "pde_get_pt (tab (pmem (palloc v)) d i) = Inr (table (pmem (palloc v)) d i)"
proof -
  note k = kpage_usedD [OF vm_invD(1,2) [OF assms(1)] vm_invD(6) [OF assms]]
  show "PHYS_BASE \<le> table (pmem (palloc v)) d i" "table (pmem (palloc v)) d i \<noteq> 0" by (rule k)+
  show "pde_get_pt (tab (pmem (palloc v)) d i) = Inr (table (pmem (palloc v)) d i)"
    using vm_invD(5) [OF assms] ptov_address [OF k(2)] by (simp add: pde_get_pt_def)
qed

section \<open>Writing an entry\<close>

text \<open>All pages but those of the kernel's pool that are in use are as they were.\<close>

definition user_kept :: "vm \<Rightarrow> vm \<Rightarrow> bool" where
  "user_kept v v' \<longleftrightarrow> (\<forall>q j. pg_ofs q = 0 \<and> \<not> kpage_used (palloc v') q \<and> j < 1024 \<longrightarrow>
     tab (pmem (palloc v')) q j = tab (pmem (palloc v)) q j)"

lemma user_kept_refl [simp]: "user_kept v v"
  by (simp add: user_kept_def)

text \<open>A table of a directory is written: the directories stay, and only the one entry changes.\<close>

lemma vm_inv_cong:
  assumes "vm_inv v D" "palloc v' = (palloc v)\<lparr>pmem := m\<rparr>" "init_page_dir v' = init_page_dir v"
    and "\<And>d i. d \<in> D \<Longrightarrow> i < 1024 \<Longrightarrow> tab m d i = tab (pmem (palloc v)) d i"
  shows "vm_inv v' D"
proof -
  have u: "kpage_used (palloc v') p = kpage_used (palloc v) p" for p by (simp add: kpage_used_def assms(2))
  have d0: "init_page_dir v \<in> D" using vm_invD(3) [OF assms(1)] .
  note w = vm_invD [OF assms(1)]
  have t: "tab (pmem (palloc v')) d i = tab (pmem (palloc v)) d i" if "d \<in> D" "i < 1024" for d i
    using assms(2,4) that by simp
  have pools: "pools_wf (palloc v')" "PHYS_BASE \<le> base (kernel_pool (palloc v'))" using w(1,2) by (simp_all add: assms(2))
  show ?thesis
    unfolding vm_inv_def Let_def assms(3)
  proof (intro conjI ballI allI impI pools d0)
    show "kpage_used (palloc v') d" if "d \<in> D" for d using w(4) [OF that] by (simp add: u)
    show "tab (pmem (palloc v')) d i AND PTE_P \<noteq> 0" "kpage_used (palloc v') (table (pmem (palloc v')) d i)"
      "table (pmem (palloc v')) d i \<notin> D" if "d \<in> D" "i < 1024" "tab (pmem (palloc v')) d i \<noteq> 0" for d i
      using w(5-7) [OF that(1,2)] that(3) by (simp_all add: u t that(1,2))
    show "tab (pmem (palloc v')) (init_page_dir v) i = 0" if "i < 768" for i using w(9) [OF that] t d0 that by simp
    show "tab (pmem (palloc v')) d i = tab (pmem (palloc v')) (init_page_dir v) i" if "d \<in> D" "i < 1024" "768 \<le> i" for d i
      using w(10) [OF that] by (simp add: t d0 that(1,2))
    show "i = j" "d = d' \<or> 768 \<le> i"
      if "d \<in> D" "d' \<in> D" "i < 1024" "j < 1024" "tab (pmem (palloc v')) d i \<noteq> 0 \<and> tab (pmem (palloc v')) d' j \<noteq> 0 \<and>
        table (pmem (palloc v')) d i = table (pmem (palloc v')) d' j" for d d' i j
      using w(8) [OF that(1-4)] that(5) by (auto simp: t that(1-4))
  qed
qed

lemma put_entry:
  fixes w :: word_t
  assumes inv: "vm_inv v D" and d: "d \<in> D" "i < 768 \<or> D = {d} \<and> i < 1024" "tab (pmem (palloc v)) d i \<noteq> 0" and j: "j < 1024"
  defines "a \<equiv> table (pmem (palloc v)) d i + of_nat (4 * j)"
  defines "v' \<equiv> put_word a w v"
  shows "vm_inv v' D" "\<And>d' va. d' \<in> D \<Longrightarrow> the_pte (pmem (palloc v')) d' va =
    (if d' = d \<and> unat (pd_no va) = i \<and> unat (pt_no va) = j then w else the_pte (pmem (palloc v)) d' va)"
    "vm_word v a = tab (pmem (palloc v)) (table (pmem (palloc v)) d i) j"
    "tab (pmem (palloc v')) d i = tab (pmem (palloc v)) d i" "a \<noteq> 0"
    "\<And>d' k. d' \<in> D \<Longrightarrow> k < 1024 \<Longrightarrow> tab (pmem (palloc v')) d' k = tab (pmem (palloc v)) d' k" "user_kept v v'"
proof -
  let ?m = "pmem (palloc v)" and ?p = "table (pmem (palloc v)) d i"
  have i: "i < 1024" using d(2) by auto
  have m': "pmem (palloc v') = store_word a w ?m" by (simp add: v'_def put_word_def)
  have al: "pg_ofs ?p = 0" by simp
  note st = tab_store [OF al _ j, folded a_def]
  have dirs: "tab (store_word a w ?m) d' k = tab ?m d' k" if "d' \<in> D" "k < 1024" for d' k
    using st [OF vm_dir(1) [OF inv that(1)] that(2)] vm_invD(7) [OF inv d(1) i d(3)] that(1) by auto
  then show "vm_inv v' D" by (intro vm_inv_cong [OF inv, where m = "store_word a w ?m"]) (simp_all add: v'_def put_word_def)
  show "tab (pmem (palloc v')) d' k = tab ?m d' k" if "d' \<in> D" "k < 1024" for d' k unfolding m' by (rule dirs [OF that])
  show "tab (pmem (palloc v')) d i = tab ?m d i" unfolding m' by (rule dirs [OF d(1) i])
  have "kpage_used (palloc v') ?p" using vm_invD(6) [OF inv d(1) i d(3)] by (simp add: v'_def put_word_def kpage_used_def)
  then show "user_kept v v'" unfolding user_kept_def m' using st by auto
  show "vm_word v a = tab ?m ?p j" by (simp add: tab_def a_def)
  have "unat a = unat ?p + 4 * j" using page_offset [OF al, of "4 * j"] j by (simp add: a_def)
  moreover have "unat ?p \<noteq> 0" using vm_table(2) [OF inv d(1) i d(3)] by (metis unat_0 word_unat_eq_iff)
  ultimately show "a \<noteq> 0" by (metis add_is_0 unat_0)
  fix d' va
  assume d': "d' \<in> D"
  let ?i = "unat (pd_no va)" and ?j = "unat (pt_no va)"
  have t: "tab (store_word a w ?m) d' ?i = tab ?m d' ?i" by (rule dirs [OF d' index_bounds(1)])
  show "the_pte (pmem (palloc v')) d' va = (if d' = d \<and> ?i = i \<and> ?j = j then w else the_pte ?m d' va)"
  proof (cases "tab ?m d' ?i = 0")
    case True
    then show ?thesis using d(3) by (auto simp: the_pte_def Let_def m' t)
  next
    case False
    have "?p = table ?m d' ?i \<longleftrightarrow> d' = d \<and> ?i = i"
      using vm_invD(8) [OF inv d(1) d' i index_bounds(1) d(3) False] d(2) d' by auto
    moreover have "the_pte (pmem (palloc v')) d' va = tab (store_word a w ?m) (table ?m d' ?i) ?j"
      using False by (simp add: the_pte_def Let_def m' t)
    moreover have "the_pte ?m d' va = tab ?m (table ?m d' ?i) ?j" using False by (simp add: the_pte_def Let_def)
    ultimately show ?thesis using st [of "table ?m d' ?i" ?j] index_bounds(2) by auto
  qed
qed


section \<open>Looking up an entry\<close>

text \<open>A page that is taken from a pool was free and is now allocated; without one nothing changes.\<close>

lemma pool_page:
  assumes "pools_wf st" "flags AND PAL_ASSERT = 0"
  defines "p \<equiv> pool_of flags st"
  shows "(palloc_get_page flags st = Inr (0, st) \<and> False \<notin> set (bmap (used_map p))) \<or>
    (\<exists>j b. j < bit_cnt (used_map p) \<and> \<not> bmap (used_map p) ! j \<and> page_at p j \<noteq> 0 \<and>
       bitmap_wf b \<and> bit_cnt b = bit_cnt (used_map p) \<and> bmap b = (bmap (used_map p))[j := True] \<and>
       palloc_get_page flags st = Inr (page_at p j, (set_pool flags (p\<lparr>used_map := b\<rparr>) st)\<lparr>pmem :=
         if flags AND PAL_ZERO \<noteq> 0 then memset_pages (pmem st) (page_at p j) 0 4096 else pmem st\<rparr>))"
proof -
  have wf: "pool_wf p" "bitmap_wf (used_map p)" using pool_of_wf [OF assms(1), of flags] by (simp_all add: p_def pool_wf_def)
  obtain i b where s: "bitmap_scan_and_flip (used_map p) 0 1 False = Inr (i, b)" "bitmap_wf b" "bit_cnt b = bit_cnt (used_map p)"
    "if \<exists>j. free_at (bmap (used_map p)) 1 False j
     then i \<noteq> BITMAP_ERROR \<and> free_at (bmap (used_map p)) 1 False i \<and> bmap b = put_bytes (bmap (used_map p)) i [True]
     else i = BITMAP_ERROR \<and> b = used_map p"
    using bitmap.take_ok [OF wf(2), of 1] bitmap_scan_and_flip_bmap [OF wf(2), of 0 1 False] by (fastforce split: if_splits)
  have f1: "free_at m 1 False j \<longleftrightarrow> j < length m \<and> \<not> m ! j" "free_at m (Suc 0) False j \<longleftrightarrow> j < length m \<and> \<not> m ! j" for m j
    by (auto simp: free_at_def)
  show ?thesis
  proof (cases "\<exists>j. free_at (bmap (used_map p)) 1 False j")
    case False
    then have ib: "i = BITMAP_ERROR" "b = used_map p" using s(4) by auto
    have "set_pool flags (p\<lparr>used_map := used_map p\<rparr>) st = st" by (simp add: set_pool_def pool_of_def p_def)
    then have "palloc_get_page flags st = Inr (0, st)"
      using s(1) ib assms(2) by (simp add: palloc_get_page_def palloc_get_multiple_def p_def [symmetric] Let_def)
    moreover have "False \<notin> set (bmap (used_map p))" using False unfolding f1 by (auto simp: in_set_conv_nth)
    ultimately show ?thesis by simp
  next
    case True
    then have i: "i \<noteq> BITMAP_ERROR" "i < bit_cnt (used_map p)" "\<not> bmap (used_map p) ! i" "bmap b = (bmap (used_map p))[i := True]"
      using s(4) by (auto simp: f1 put_bytes_def upd_conv_take_nth_drop)
    have nz: "page_at p i \<noteq> 0" by (rule page_at(3) [OF wf(1) i(2)])
    have "palloc_get_page flags st = Inr (page_at p i, (set_pool flags (p\<lparr>used_map := b\<rparr>) st)\<lparr>pmem :=
         if flags AND PAL_ZERO \<noteq> 0 then memset_pages (pmem st) (page_at p i) 0 4096 else pmem st\<rparr>)"
      using s(1) i(1) nz
      by (auto simp: palloc_get_page_def palloc_get_multiple_def p_def [symmetric] Let_def page_at_def set_pool_def PGSIZE_def)
    then show ?thesis using i nz s(2,3) by (intro disjI2 exI [of _ i] exI [of _ b]) blast
  qed
qed

text \<open>The free pages of each pool.\<close>

definition free_cnt :: "palloc_state \<Rightarrow> nat" where
  "free_cnt st = length (filter Not (bmap (used_map (kernel_pool st))))"

definition free_user_cnt :: "palloc_state \<Rightarrow> nat" where
  "free_user_cnt st = length (filter Not (bmap (used_map (user_pool st))))"

lemma filter_mark: "j < length xs \<Longrightarrow> \<not> xs ! j \<Longrightarrow> length (filter Not xs) = Suc (length (filter Not (xs[j := True])))"
  by (induction xs arbitrary: j) (auto simp: less_Suc_eq_0_disj)

lemma none_free: "False \<notin> set (bmap (used_map (kernel_pool st))) \<Longrightarrow> free_cnt st = 0"
    "False \<notin> set (bmap (used_map (user_pool st))) \<Longrightarrow> free_user_cnt st = 0"
  by (auto simp: free_cnt_def free_user_cnt_def filter_empty_conv) (metis (full_types))+

lemma page_at_inj:
  assumes "pool_wf p" "i < bit_cnt (used_map p)" "j < bit_cnt (used_map p)" "page_at p i = page_at p j"
  shows "i = j"
  using page_at(5) [OF assms(1,2)] page_at(5) [OF assms(1,3)] assms(4) by metis

lemma page_at_used [simp]: "page_at (p\<lparr>used_map := b\<rparr>) j = page_at p j"
  by (simp add: page_at_def)

lemma kernel_page:
  assumes "pools_wf st" "flags AND PAL_USER = 0" "flags AND PAL_ASSERT = 0"
  shows "\<exists>pt st'. palloc_get_page flags st = Inr (pt, st') \<and>
    (if pt = 0 then st' = st \<and> False \<notin> set (bmap (used_map (kernel_pool st)))
     else pools_wf st' \<and> base (kernel_pool st') = base (kernel_pool st) \<and> user_pool st' = user_pool st \<and>
       (\<forall>p. kpage_used st' p \<longleftrightarrow> kpage_used st p \<or> p = pt) \<and> \<not> kpage_used st pt \<and>
       bit_cnt (used_map (kernel_pool st')) = bit_cnt (used_map (kernel_pool st)) \<and>
       (\<exists>j < bit_cnt (used_map (kernel_pool st)). pt = page_at (kernel_pool st) j \<and> \<not> bmap (used_map (kernel_pool st)) ! j \<and>
          bmap (used_map (kernel_pool st')) = (bmap (used_map (kernel_pool st)))[j := True]) \<and>
       pmem st' = (if flags AND PAL_ZERO \<noteq> 0 then memset_pages (pmem st) pt 0 4096 else pmem st))"
proof -
  let ?p = "kernel_pool st"
  have p: "pool_of flags st = ?p" using assms(2) by (simp add: pool_of_def)
  have wf: "pool_wf ?p" using assms(1) by (simp add: pools_wf_def)
  from pool_page [OF assms(1,3), unfolded p] show ?thesis
  proof (elim disjE exE conjE)
    assume "palloc_get_page flags st = Inr (0, st)" "False \<notin> set (bmap (used_map ?p))"
    then show ?thesis by simp
  next
    fix j b
    let ?m = "if flags AND PAL_ZERO \<noteq> 0 then memset_pages (pmem st) (page_at ?p j) 0 4096 else pmem st"
    let ?st' = "st\<lparr>kernel_pool := ?p\<lparr>used_map := b\<rparr>, pmem := ?m\<rparr>"
    assume j: "j < bit_cnt (used_map ?p)" "\<not> bmap (used_map ?p) ! j" "page_at ?p j \<noteq> 0"
      and b: "bitmap_wf b" "bit_cnt b = bit_cnt (used_map ?p)" "bmap b = (bmap (used_map ?p))[j := True]"
      and "palloc_get_page flags st = Inr (page_at ?p j, (set_pool flags (?p\<lparr>used_map := b\<rparr>) st)\<lparr>pmem := ?m\<rparr>)"
    then have run: "palloc_get_page flags st = Inr (page_at ?p j, ?st')" using assms(2) by (simp add: set_pool_def)
    have "kpage_used ?st' q \<longleftrightarrow> kpage_used st q \<or> q = page_at ?p j" for q
      using j(1) b by (auto simp: kpage_used_def nth_list_update)
    moreover have "\<not> kpage_used st (page_at ?p j)" using j page_at_inj [OF wf j(1)] by (auto simp: kpage_used_def)
    moreover have "pools_wf ?st'" using assms(1) b by (auto simp: pools_wf_def pool_wf_def)
    ultimately show ?thesis
      unfolding run by (intro exI [of _ "page_at ?p j"] exI [of _ ?st']) (use j b in auto)
  qed
qed


lemma kernel_page_taken:
  assumes "pools_wf st" "flags AND PAL_USER = 0" "flags AND PAL_ASSERT = 0"
  shows "\<exists>pt st'. palloc_get_page flags st = Inr (pt, st') \<and>
    (if pt = 0 then st' = st \<and> False \<notin> set (bmap (used_map (kernel_pool st)))
     else pools_wf st' \<and> base (kernel_pool st') = base (kernel_pool st) \<and> user_pool st' = user_pool st \<and>
       (\<forall>p. kpage_used st' p \<longleftrightarrow> kpage_used st p \<or> p = pt) \<and> \<not> kpage_used st pt \<and> free_cnt st = Suc (free_cnt st') \<and>
       pmem st' = (if flags AND PAL_ZERO \<noteq> 0 then memset_pages (pmem st) pt 0 4096 else pmem st))"
proof -
  have "free_cnt st = Suc (free_cnt st')" if "j < bit_cnt (used_map (kernel_pool st))" "\<not> bmap (used_map (kernel_pool st)) ! j"
    "bmap (used_map (kernel_pool st')) = (bmap (used_map (kernel_pool st)))[j := True]" for j and st' :: palloc_state
    using filter_mark [of j "bmap (used_map (kernel_pool st))"] that by (simp add: free_cnt_def)
  then show ?thesis using kernel_page [OF assms] by (metis (no_types, lifting))
qed

text \<open>\<open>lookup_page\<close> without creating.\<close>

lemma lookup_page_finds:
  assumes "vm_inv v D" "d \<in> D"
  defines "m \<equiv> pmem (palloc v)"
  shows "lookup_page d va False v = Inr (if tab m d (unat (pd_no va)) = 0 then 0
    else table m d (unat (pd_no va)) + of_nat (4 * unat (pt_no va)), v)"
proof -
  have "vm_word v (d + 4 * pd_no va) = tab m d (unat (pd_no va))" by (simp only: index_address tab_def m_def)
  then show ?thesis
    using vm_dir(3) [OF assms(1,2)] vm_table(3) [OF assms(1,2) index_bounds(1)]
    by (simp add: lookup_page_def m_def)
qed

text \<open>A new table is entered into a directory.\<close>

lemma enter_table:
  assumes inv: "vm_inv v D" and d: "d \<in> D" "d \<noteq> init_page_dir v \<and> i < 768 \<or> D = {d} \<and> 768 \<le> i" "i < 1024" "tab (pmem (palloc v)) d i = 0"
    and pt: "pools_wf st" "base (kernel_pool st) = base (kernel_pool (palloc v))" "\<And>p. kpage_used st p \<longleftrightarrow> kpage_used (palloc v) p \<or> p = pt"
      "\<not> kpage_used (palloc v) pt" "pmem st = memset_pages (pmem (palloc v)) pt 0 4096"
    and e: "entry_page e = pt" "e AND PTE_P \<noteq> 0" "e \<noteq> 0"
  defines "v' \<equiv> put_word (d + of_nat (4 * i)) e (v\<lparr>palloc := st\<rparr>)"
  shows "vm_inv v' D" "\<And>d' va. d' \<in> D \<Longrightarrow> the_pte (pmem (palloc v')) d' va = the_pte (pmem (palloc v)) d' va"
    "tab (pmem (palloc v')) d i = e" "user_kept v v'"
proof -
  let ?m = "pmem (palloc v)" and ?m' = "pmem (palloc v')"
  note w = vm_invD [OF inv]
  note i = d(3)
  have al: "pg_ofs d = 0" "pg_ofs pt = 0" using vm_dir(1) [OF inv d(1)] e(1) by auto
  have m': "?m' = store_word (d + of_nat (4 * i)) e (memset_pages ?m pt 0 4096)"
    by (simp add: v'_def put_word_def pt(5))
  have t: "tab ?m' q k = (if d = q \<and> i = k then e else if pt = q then 0 else tab ?m q k)" if "pg_ofs q = 0" "k < 1024" for q k
    unfolding m' tab_store [OF al(1) that(1) i that(2)] tab_memset [OF al(2) that] by simp
  have D: "pt \<notin> D" using pt(4) w(4) by auto
  have dt: "tab ?m' q k = (if d = q \<and> i = k then e else tab ?m q k)" if "q \<in> D" "k < 1024" for q k
    using t [OF vm_dir(1) [OF inv that(1)] that(2)] D that(1) by auto
  have old: "table ?m q k \<noteq> pt" if "q \<in> D" "k < 1024" "tab ?m q k \<noteq> 0" for q k
    using w(6) [OF that] pt(4) by auto
  have u: "kpage_used (palloc v') p \<longleftrightarrow> kpage_used (palloc v) p \<or> p = pt" for p
    using pt(3) by (simp add: v'_def put_word_def kpage_used_def)
  have f: "init_page_dir v' = init_page_dir v" "pools_wf (palloc v')" "kernel_pool (palloc v') = kernel_pool st"
    using pt(1) by (simp_all add: v'_def put_word_def)
  show "user_kept v v'" unfolding user_kept_def using t u w(4) [OF d(1)] by auto
  show "tab ?m' d i = e" using dt [OF d(1) i] by simp
  show "vm_inv v' D"
    unfolding vm_inv_def Let_def f(1)
  proof (intro conjI ballI allI impI f(2) w(3))
    show "PHYS_BASE \<le> base (kernel_pool (palloc v'))" using w(2) by (simp add: f(3) pt(2))
    show "kpage_used (palloc v') q" if "q \<in> D" for q using w(4) [OF that] by (simp add: u)
    show "tab ?m' q k AND PTE_P \<noteq> 0" "kpage_used (palloc v') (table ?m' q k)" "table ?m' q k \<notin> D"
      if "q \<in> D" "k < 1024" "tab ?m' q k \<noteq> 0" for q k
      using w(5-7) [OF that(1,2)] that(3) D e by (auto simp: dt [OF that(1,2)] u split: if_splits)
    show "tab ?m' (init_page_dir v) k = 0" if "k < 768" for k using w(3,9) that dt [OF w(3), of k] d(2) by auto
    show "tab ?m' q k = tab ?m' (init_page_dir v) k" if "q \<in> D" "k < 1024" "768 \<le> k" for q k
    proof (cases "D = {d}")
      case True
      then have "q = init_page_dir v" using that(1) w(3) by simp
      then show ?thesis by simp
    next
      case False
      then have "\<not> (d = q \<and> i = k)" "\<not> (d = init_page_dir v \<and> i = k)" using d(2) that(3) by auto
      then show ?thesis using w(10) [OF that] unfolding dt [OF that(1,2)] dt [OF w(3) that(2)] by (simp only: if_False)
    qed
    show "a = b" "q = r \<or> 768 \<le> a"
      if h: "q \<in> D" "r \<in> D" "a < 1024" "b < 1024" "tab ?m' q a \<noteq> 0 \<and> tab ?m' r b \<noteq> 0 \<and> table ?m' q a = table ?m' r b" for q r a b
    proof -
      have "a = b \<and> (q = r \<or> 768 \<le> a)"
        using h(5) w(8) [OF h(1-4)] old [OF h(1,3)] old [OF h(2,4)] e(1)
        unfolding dt [OF h(1,3)] dt [OF h(2,4)] by (auto split: if_splits)
      then show "a = b" "q = r \<or> 768 \<le> a" by auto
    qed
  qed
  fix d' va
  assume d': "d' \<in> D"
  let ?i = "unat (pd_no va)" and ?j = "unat (pt_no va)"
  note b = index_bounds(1,2) [of va]
  have al': "pg_ofs (table ?m d' ?i) = 0" by simp
  show "the_pte ?m' d' va = the_pte ?m d' va"
  proof (cases "d = d' \<and> i = ?i")
    case True
    then have "the_pte ?m' d' va = tab ?m' pt ?j" using e by (simp add: the_pte_def Let_def dt [OF d' b(1)])
    also have "\<dots> = 0" using t [OF al(2) b(2)] D d(1) by auto
    finally show ?thesis using True d(4) by (auto simp: the_pte_def Let_def)
  next
    case False
    show ?thesis
    proof (cases "tab ?m d' ?i = 0")
      case True
      then show ?thesis using False by (simp add: the_pte_def Let_def dt [OF d' b(1)] del: de_Morgan_conj)
    next
      case nz: False
      have "tab ?m' (table ?m d' ?i) ?j = tab ?m (table ?m d' ?i) ?j"
        using t [OF al' b(2)] old [OF d' b(1) nz] w(7) [OF d' b(1) nz] d(1) by auto
      then show ?thesis using False nz by (simp add: the_pte_def Let_def dt [OF d' b(1)] del: de_Morgan_conj)
    qed
  qed
qed

text \<open>\<open>lookup_page\<close> with creating: the entry of an address in a table that exists afterwards, or NULL when there was none and
  no page for one. No translation changes.\<close>

lemma lookup_page_creates:
  assumes inv: "vm_inv v D" and d: "d \<in> D" "d \<noteq> init_page_dir v" "is_user_vaddr va"
  defines "i \<equiv> unat (pd_no va)"
  shows "\<exists>pte v'. lookup_page d va True v = Inr (pte, v') \<and> vm_inv v' D \<and>
    (\<forall>d' \<in> D. \<forall>va'. the_pte (pmem (palloc v')) d' va' = the_pte (pmem (palloc v)) d' va') \<and>
    v'\<lparr>palloc := palloc v\<rparr> = v \<and> user_pool (palloc v') = user_pool (palloc v) \<and> user_kept v v' \<and>
    free_cnt (palloc v) \<le> Suc (free_cnt (palloc v')) \<and>
    (if pte = 0 then v' = v \<and> tab (pmem (palloc v)) d i = 0 \<and> False \<notin> set (bmap (used_map (kernel_pool (palloc v))))
     else tab (pmem (palloc v')) d i \<noteq> 0 \<and> pte = table (pmem (palloc v')) d i + of_nat (4 * unat (pt_no va)))"
proof -
  note w = vm_invD [OF inv]
  note b = index_bounds(1) [of va, folded i_def] index_bounds(2) [of va] index_bounds(3) [OF d(3), folded i_def]
  have wd: "load_word m (d + 4 * pd_no va) = tab m d i" for m by (simp only: index_address tab_def i_def)
  have nz: "d \<noteq> 0" by (rule vm_dir(3) [OF inv d(1)])
  show ?thesis
  proof (cases "tab (pmem (palloc v)) d i = 0")
    case False
    then have "lookup_page d va True v = Inr (table (pmem (palloc v)) d i + of_nat (4 * unat (pt_no va)), v)"
      using nz d(3) vm_table(3) [OF inv d(1) b(1)] by (simp add: lookup_page_def wd Let_def)
    moreover have "table (pmem (palloc v)) d i + of_nat (4 * unat (pt_no va)) \<noteq> 0"
      by (rule put_entry(5) [OF inv d(1) disjI1 [OF b(3)] False b(2)])
    ultimately show ?thesis using inv False by simp
  next
    case True
    obtain pt st where g: "palloc_get_page PAL_ZERO (palloc v) = Inr (pt, st)"
      and c: "if pt = 0 then st = palloc v \<and> False \<notin> set (bmap (used_map (kernel_pool (palloc v))))
       else pools_wf st \<and> base (kernel_pool st) = base (kernel_pool (palloc v)) \<and> user_pool st = user_pool (palloc v) \<and>
       (\<forall>p. kpage_used st p \<longleftrightarrow> kpage_used (palloc v) p \<or> p = pt) \<and> \<not> kpage_used (palloc v) pt \<and>
       free_cnt (palloc v) = Suc (free_cnt st) \<and> pmem st = memset_pages (pmem (palloc v)) pt 0 4096"
      using kernel_page_taken [OF w(1), of PAL_ZERO] by (auto simp: PAL_ZERO_def PAL_USER_def PAL_ASSERT_def split: if_splits)
    show ?thesis
    proof (cases "pt = 0")
      case zero: True
      then have "lookup_page d va True v = Inr (0, v)"
        using nz d(3) g c True by (simp add: lookup_page_def wd Let_def vm_get_page_def)
      then show ?thesis using inv c zero True by simp
    next
      case False
      then have st: "pools_wf st" "base (kernel_pool st) = base (kernel_pool (palloc v))"
        "\<And>p. kpage_used st p \<longleftrightarrow> kpage_used (palloc v) p \<or> p = pt" "\<not> kpage_used (palloc v) pt"
        "pmem st = memset_pages (pmem (palloc v)) pt 0 4096"
        and up: "user_pool st = user_pool (palloc v)" "free_cnt (palloc v) = Suc (free_cnt st)"
        using c by auto
      have "PHYS_BASE \<le> base (kernel_pool st)" using w(2) st(2) by simp
      then have pt: "pg_ofs pt = 0" "PHYS_BASE \<le> pt" using kpage_usedD [OF st(1)] st(3) by blast+
      obtain e where e: "pde_create pt = Inr e" "entry_page e = pt" "e AND PTE_P \<noteq> 0" "e \<noteq> 0"
        using pde_create_entry [OF pt] by blast
      have di: "d \<noteq> init_page_dir v \<and> i < 768 \<or> D = {d} \<and> 768 \<le> i" using d(2) b(3) by simp
      note et = enter_table [OF inv d(1) di b(1) True st e(2-4)]
      let ?v = "put_word (d + of_nat (4 * i)) e (v\<lparr>palloc := st\<rparr>)"
      have "pde_get_pt e = Inr pt" using vm_table(3) [OF et(1) d(1) b(1)] et(3) e(2,4) by simp
      moreover have "d + 4 * pd_no va = d + of_nat (4 * i)" by (simp only: index_address i_def)
      moreover have "load_word (pmem (palloc ?v)) (d + of_nat (4 * i)) = e" using et(3) by (simp add: tab_def)
      ultimately have "lookup_page d va True v = Inr (pt + of_nat (4 * unat (pt_no va)), ?v)"
        using nz d(3) g e(1) True False wd by (simp add: lookup_page_def Let_def vm_get_page_def tab_def)
      moreover have "pt + of_nat (4 * unat (pt_no va)) \<noteq> 0"
        using put_entry(5) [OF et(1) d(1) disjI1 [OF b(3)] _ b(2)] et(3) e(2,4) by simp
      moreover have "?v\<lparr>palloc := palloc v\<rparr> = v" "user_pool (palloc ?v) = user_pool (palloc v)"
        "free_cnt (palloc v) = Suc (free_cnt (palloc ?v))"
        using up by (simp_all add: put_word_def free_cnt_def)
      ultimately show ?thesis using et e(2,4) by (intro exI [of _ "pt + of_nat (4 * unat (pt_no va))"] exI [of _ ?v]) simp
    qed
  qed
qed

text \<open>What writing one entry does to the translation.\<close>

lemma translate_put:
  assumes "\<And>va'. the_pte m' d' va' = (if d' = d \<and> unat (pd_no va') = unat (pd_no va) \<and> unat (pt_no va') = unat (pt_no va)
      then e else the_pte m d' va')"
  shows "translate m' d' va' = (if d' = d \<and> pg_no va' = pg_no va
      then if e AND PTE_P = 0 then None else Some (entry_page e, e AND PTE_W \<noteq> 0, e AND PTE_U \<noteq> 0) else translate m d' va')"
proof -
  have "unat (pd_no va') = unat (pd_no va) \<and> unat (pt_no va') = unat (pt_no va) \<longleftrightarrow> pg_no va' = pg_no va"
    using same_page [of va' va] unfolding word_unat_eq_iff by simp
  then show ?thesis unfolding translate_def Let_def assms by auto
qed

text \<open>Mapping a page.\<close>

lemma set_page_translates:
  assumes "vm_inv v D" "d \<in> D" "d \<noteq> init_page_dir v" "pg_ofs upage = 0" "is_user_vaddr upage" "pg_ofs kpage = 0" "PHYS_BASE \<le> kpage"
    and "drop_bit 12 (kpage - PHYS_BASE) < ram_pages v" "translate (pmem (palloc v)) d upage = None"
  shows "\<exists>r v'. pagedir_set_page d upage kpage w v = Inr (r, v') \<and> vm_inv v' D \<and> v'\<lparr>palloc := palloc v\<rparr> = v \<and> user_pool (palloc v') = user_pool (palloc v) \<and>
    user_kept v v' \<and> free_cnt (palloc v) \<le> Suc (free_cnt (palloc v')) \<and>
    (if r then \<forall>d' \<in> D. \<forall>va. translate (pmem (palloc v')) d' va =
       (if d' = d \<and> pg_no va = pg_no upage then Some (kpage, w, True) else translate (pmem (palloc v)) d' va)
     else v' = v \<and> False \<notin> set (bmap (used_map (kernel_pool (palloc v)))))"
proof -
  obtain pte v1 where l: "lookup_page d upage True v = Inr (pte, v1)" "vm_inv v1 D" "v1\<lparr>palloc := palloc v\<rparr> = v" "user_pool (palloc v1) = user_pool (palloc v)" "user_kept v v1"
    "free_cnt (palloc v) \<le> Suc (free_cnt (palloc v1))"
    "\<And>d' va'. d' \<in> D \<Longrightarrow> the_pte (pmem (palloc v1)) d' va' = the_pte (pmem (palloc v)) d' va'"
    and p: "if pte = 0 then v1 = v \<and> tab (pmem (palloc v)) d (unat (pd_no upage)) = 0 \<and> False \<notin> set (bmap (used_map (kernel_pool (palloc v))))
      else tab (pmem (palloc v1)) d (unat (pd_no upage)) \<noteq> 0 \<and>
        pte = table (pmem (palloc v1)) d (unat (pd_no upage)) + of_nat (4 * unat (pt_no upage))"
    using lookup_page_creates [OF assms(1-3,5)] by blast
  have run: "pagedir_set_page d upage kpage w v = (if pte \<noteq> 0 then
      bindE (guardE AssertFailed (vm_word v1 pte AND PTE_P = 0)) (\<lambda>_.
      bindE (pte_create_user kpage w) (\<lambda>e. Inr (True, put_word pte e v1))) else Inr (False, v1))"
    using assms(3-8) l(1) by (simp add: pagedir_set_page_def vtop_kernel PTSHIFT_def PGBITS_def)
  show ?thesis
  proof (cases "pte = 0")
    case True
    then show ?thesis using run p assms(1) by (intro exI [of _ False] exI [of _ v1]) simp
  next
    case False
    then have t: "tab (pmem (palloc v1)) d (unat (pd_no upage)) \<noteq> 0"
      "pte = table (pmem (palloc v1)) d (unat (pd_no upage)) + of_nat (4 * unat (pt_no upage))" using p by auto
    obtain e where e: "pte_create_user kpage w = Inr e" "entry_page e = kpage" "e AND PTE_P \<noteq> 0" "(e AND PTE_W \<noteq> 0) = w" "e AND PTE_U \<noteq> 0"
      using pte_create_user_entry [OF assms(6,7)] by blast
    note at = l(2) assms(2) disjI1 [OF index_bounds(3) [OF assms(5)]] t(1) index_bounds(2) [of upage]
    note pe = put_entry(1,2,7) [OF at, folded t(2), where w = e] put_entry(3) [OF at, folded t(2)]
    have "the_pte (pmem (palloc v1)) d upage AND PTE_P = 0"
      using assms(9) l(7) [OF assms(2)] by (simp add: translate_def Let_def split: if_splits)
    then have "vm_word v1 pte AND PTE_P = 0" using pe(4) t(1) by (simp add: the_pte_def Let_def)
    then have r: "pagedir_set_page d upage kpage w v = Inr (True, put_word pte e v1)" using run False e(1) by simp
    have "translate (pmem (palloc (put_word pte e v1))) d' va =
       (if d' = d \<and> pg_no va = pg_no upage then Some (kpage, w, True) else translate (pmem (palloc v)) d' va)" if d': "d' \<in> D" for d' va
    proof -
      have "the_pte (pmem (palloc (put_word pte e v1))) d' va' = (if d' = d \<and> unat (pd_no va') = unat (pd_no upage) \<and>
          unat (pt_no va') = unat (pt_no upage) then e else the_pte (pmem (palloc v)) d' va')" for va'
        using pe(2) [OF d'] l(7) [OF d'] by simp
      from translate_put [OF this] show ?thesis using e by auto
    qed
    moreover have "(put_word pte e v1)\<lparr>palloc := palloc v\<rparr> = v" "user_pool (palloc (put_word pte e v1)) = user_pool (palloc v)"
      using l(3,4) by (simp_all add: put_word_def)
    moreover have "free_cnt (palloc v) \<le> Suc (free_cnt (palloc (put_word pte e v1)))" using l(6) by (simp add: put_word_def free_cnt_def)
    moreover have "user_kept v (put_word pte e v1)"
      using l(5) pe(3) by (simp add: user_kept_def put_word_def kpage_used_def)
    ultimately show ?thesis using r pe(1) by (intro exI [of _ True] exI [of _ "put_word pte e v1"]) simp
  qed
qed

end
