(* ===== verification/Pintos_Pagedir_Destroy.thy ===== *)
theory Pintos_Pagedir_Destroy
  imports Pintos_Pagedir_Refinement
begin

unbundle bit_operations_syntax

text \<open>
  Making and destroying page directories: a new one is a copy of the kernel's, and destroying one gives
  back its frames, its tables and itself, and nothing else.
\<close>

section \<open>Copying the kernel's directory\<close>

lemma memcpy_other: "(\<And>i. i < n \<Longrightarrow> a \<noteq> dst + of_nat i) \<Longrightarrow> memcpy_pages m dst src n a = m a"
proof (induction n arbitrary: m dst src)
  case (Suc n)
  have "a \<noteq> dst + 1 + of_nat i" if "i < n" for i using Suc.prems [of "Suc i"] that by (simp add: algebra_simps)
  moreover have "a \<noteq> dst" using Suc.prems [of 0] by simp
  ultimately show ?case using Suc.IH by simp
qed simp

lemma memcpy_in:
  assumes "\<And>i j. i < n \<Longrightarrow> j < n \<Longrightarrow> src + of_nat i \<noteq> dst + of_nat j" "n \<le> 4096" "k < n"
  shows "memcpy_pages m dst src n (dst + of_nat k) = m (src + of_nat k)"
  using assms
proof (induction n arbitrary: m dst src k)
  case (Suc n)
  have off: "src + 1 + of_nat i \<noteq> dst + 1 + of_nat j" if "i < n" "j < n" for i j
    using Suc.prems(1) [of "Suc i" "Suc j"] that by (simp add: algebra_simps)
  show ?case
  proof (cases k)
    case 0
    have "dst \<noteq> dst + 1 + of_nat i" if "i < n" for i
    proof
      assume "dst = dst + 1 + of_nat i"
      then have "of_nat (Suc i) = (0 :: word_t)" by (simp add: algebra_simps)
      then have "2 ^ 32 dvd Suc i" by (simp add: word_of_nat_eq_0_iff del: of_nat_Suc)
      then show False using that Suc.prems(2) dvd_imp_le [of "2 ^ 32" "Suc i"] by simp
    qed
    then have "memcpy_pages (m(dst := m src)) (dst + 1) (src + 1) n dst = (m(dst := m src)) dst" by (rule memcpy_other)
    then show ?thesis using 0 by simp
  next
    case (Suc k')
    then have k': "k' < n" using Suc.prems(3) by simp
    have "memcpy_pages (m(dst := m src)) (dst + 1) (src + 1) n (dst + 1 + of_nat k') = (m(dst := m src)) (src + 1 + of_nat k')"
      by (rule Suc.IH [OF _ _ k']) (use off Suc.prems(2) in auto)
    moreover have "src + 1 + of_nat k' \<noteq> dst" using Suc.prems(1) [of "Suc k'" 0] k' by (simp add: algebra_simps)
    ultimately show ?thesis using Suc by (simp add: algebra_simps)
  qed
qed simp

lemma tab_memcpy:
  assumes "pg_ofs dst = 0" "pg_ofs src = 0" "pg_ofs q = 0" "dst \<noteq> src" "j < 1024"
  shows "tab (memcpy_pages m dst src 4096) q j = (if q = dst then tab m src j else tab m q j)"
proof -
  have off: "src + of_nat i \<noteq> dst + of_nat k" if "i < 4096" "k < 4096" for i k
    using page_offset_eq [OF assms(2,1) that] assms(4) by simp
  have "byte_of (memcpy_pages m dst src 4096) q k = (if q = dst then byte_of m src k else byte_of m q k)" if "k < 4096" for k
    using memcpy_in [of 4096 src dst k m] off that memcpy_other [of 4096 "q + of_nat k" dst m src] page_offset_eq [OF assms(3,1) that]
    by (auto simp: byte_of_def)
  then show ?thesis using assms(5) by (simp add: tab_bytes)
qed

text \<open>A new directory beside those in use.\<close>

lemma enter_directory:
  assumes inv: "vm_inv v D"
    and pd: "pools_wf st" "base (kernel_pool st) = base (kernel_pool (palloc v))" "\<And>p. kpage_used st p \<longleftrightarrow> kpage_used (palloc v) p \<or> p = pd"
      "\<not> kpage_used (palloc v) pd" "pmem st = pmem (palloc v)"
  defines "v' \<equiv> v\<lparr>palloc := st\<lparr>pmem := memcpy_pages (pmem st) pd (init_page_dir v) 4096\<rparr>\<rparr>"
  shows "vm_inv v' (insert pd D)" "pd \<notin> D"
    "\<And>d va. d \<in> D \<Longrightarrow> the_pte (pmem (palloc v')) d va = the_pte (pmem (palloc v)) d va"
    "\<And>va. the_pte (pmem (palloc v')) pd va = the_pte (pmem (palloc v)) (init_page_dir v) va"
    "\<And>q j. pg_ofs q = 0 \<Longrightarrow> q \<noteq> pd \<Longrightarrow> j < 1024 \<Longrightarrow> tab (pmem (palloc v')) q j = tab (pmem (palloc v)) q j"
proof -
  let ?m = "pmem (palloc v)" and ?m' = "pmem (palloc v')" and ?d0 = "init_page_dir v"
  note w = vm_invD [OF inv]
  have "PHYS_BASE \<le> base (kernel_pool st)" using w(2) pd(2) by simp
  then have al: "pg_ofs pd = 0" using kpage_usedD(1) [OF pd(1)] pd(3) by blast
  have al0: "pg_ofs ?d0 = 0" by (rule vm_dir(1) [OF inv w(3)])
  show nD: "pd \<notin> D" using pd(4) w(4) by auto
  then have ne: "pd \<noteq> ?d0" using w(3) by auto
  have t: "tab ?m' q j = (if q = pd then tab ?m ?d0 j else tab ?m q j)" if "pg_ofs q = 0" "j < 1024" for q j
    using tab_memcpy [OF al al0 that(1) ne that(2)] by (simp add: v'_def pd(5))
  have dt: "tab ?m' q j = tab ?m q j" if "q \<in> D" "j < 1024" for q j
    using t [OF vm_dir(1) [OF inv that(1)] that(2)] nD that(1) by auto
  have new: "tab ?m' pd j = tab ?m ?d0 j" if "j < 1024" for j using t [OF al that] by simp
  have old: "table ?m q k \<noteq> pd" if "q \<in> D" "k < 1024" "tab ?m q k \<noteq> 0" for q k using w(6) [OF that] pd(4) by auto
  have u: "kpage_used (palloc v') p \<longleftrightarrow> kpage_used (palloc v) p \<or> p = pd" for p
    using pd(3) by (simp add: v'_def kpage_used_def)
  have f: "init_page_dir v' = ?d0" "pools_wf (palloc v')" "kernel_pool (palloc v') = kernel_pool st" using pd(1) by (simp_all add: v'_def)
  have user: "768 \<le> j" if "j < 1024" "tab ?m ?d0 j \<noteq> 0" for j using w(9) that by (meson not_le)
  define src where "src q = (if q = pd then ?d0 else q)" for q
  have src: "src q \<in> D" "tab ?m' q j = tab ?m (src q) j" if "q \<in> insert pd D" "j < 1024" for q j
    using that w(3) dt new by (auto simp: src_def)
  show "vm_inv v' (insert pd D)"
    unfolding vm_inv_def Let_def f(1)
  proof (intro conjI ballI allI impI f(2))
    show "PHYS_BASE \<le> base (kernel_pool (palloc v'))" using w(2) by (simp add: f(3) pd(2))
    show "?d0 \<in> insert pd D" using w(3) by simp
    show "kpage_used (palloc v') q" if "q \<in> insert pd D" for q using w(4) that by (auto simp: u)
    show "tab ?m' q k AND PTE_P \<noteq> 0" "kpage_used (palloc v') (table ?m' q k)" "table ?m' q k \<notin> insert pd D"
      if "q \<in> insert pd D" "k < 1024" "tab ?m' q k \<noteq> 0" for q k
      using w(5-7) [OF src(1) [OF that(1,2)] that(2)] old [OF src(1) [OF that(1,2)] that(2)] that(3) src(2) [OF that(1,2)]
      by (auto simp: u)
    show "tab ?m' ?d0 k = 0" if "k < 768" for k using w(3,9) that dt [of ?d0 k] by auto
    show "tab ?m' q k = tab ?m' ?d0 k" if "q \<in> insert pd D" "k < 1024" "768 \<le> k" for q k
      using w(10) [OF src(1) [OF that(1,2)] that(2,3)] src(2) [OF that(1,2)] dt [OF w(3) that(2)] by simp
    show "a = b" "q = r \<or> 768 \<le> a"
      if h: "q \<in> insert pd D" "r \<in> insert pd D" "a < 1024" "b < 1024"
        "tab ?m' q a \<noteq> 0 \<and> tab ?m' r b \<noteq> 0 \<and> table ?m' q a = table ?m' r b" for q r a b
    proof -
      have "a = b \<and> (src q = src r \<or> 768 \<le> a)"
        using h(5) w(8) [OF src(1) [OF h(1,3)] src(1) [OF h(2,4)] h(3,4)] unfolding src(2) [OF h(1,3)] src(2) [OF h(2,4)] by auto
      moreover have "768 \<le> a" if "src q = ?d0"
        using user [OF h(3)] h(5) that src(2) [OF h(1,3)] by simp
      ultimately show "a = b" "q = r \<or> 768 \<le> a" by (auto simp: src_def split: if_splits)
    qed
  qed
  have tabs: "tab ?m' (table ?m q (unat (pd_no va))) (unat (pt_no va)) = tab ?m (table ?m q (unat (pd_no va))) (unat (pt_no va))"
    if "q \<in> D" "tab ?m q (unat (pd_no va)) \<noteq> 0" for q va
    using t [of "table ?m q (unat (pd_no va))", OF _ index_bounds(2)] old [OF that(1) index_bounds(1) that(2)] by simp
  show "the_pte ?m' d va = the_pte ?m d va" if "d \<in> D" for d va
    using tabs [OF that] dt [OF that index_bounds(1)] by (simp add: the_pte_def Let_def)
  show "the_pte ?m' pd va = the_pte ?m ?d0 va" for va
    using tabs [OF w(3)] new [OF index_bounds(1)] by (simp add: the_pte_def Let_def)
  show "tab ?m' q j = tab ?m q j" if "pg_ofs q = 0" "q \<noteq> pd" "j < 1024" for q j using t [OF that(1,3)] that(2) by simp
qed

lemma init_no_user:
  assumes "vm_inv v D" "is_user_vaddr va"
  shows "the_pte (pmem (palloc v)) (init_page_dir v) va = 0"
  using vm_invD(9) [OF assms(1) index_bounds(3) [OF assms(2)]] by (simp add: the_pte_def)

text \<open>\<open>pagedir_create\<close>, with the pages that it takes and those that it leaves.\<close>

lemma pagedir_create_makes:
  assumes "vm_inv v D"
  shows "\<exists>pd v'. pagedir_create v = Inr (pd, v') \<and>
    (if pd = 0 then v' = v \<and> False \<notin> set (bmap (used_map (kernel_pool (palloc v))))
     else pd \<notin> D \<and> vm_inv v' (insert pd D) \<and> v'\<lparr>palloc := palloc v\<rparr> = v \<and> user_pool (palloc v') = user_pool (palloc v) \<and>
       free_cnt (palloc v) = Suc (free_cnt (palloc v')) \<and>
       (\<forall>p. kpage_used (palloc v') p \<longleftrightarrow> kpage_used (palloc v) p \<or> p = pd) \<and>
       (\<forall>q j. pg_ofs q = 0 \<and> q \<noteq> pd \<and> j < 1024 \<longrightarrow> tab (pmem (palloc v')) q j = tab (pmem (palloc v)) q j) \<and>
       (\<forall>va. translate (pmem (palloc v')) pd va =
          (if is_user_vaddr va then None else translate (pmem (palloc v)) (init_page_dir v) va)) \<and>
       (\<forall>d \<in> D. \<forall>va. translate (pmem (palloc v')) d va = translate (pmem (palloc v)) d va))"
proof -
  note w = vm_invD [OF assms]
  obtain pd st where g: "palloc_get_page 0 (palloc v) = Inr (pd, st)"
    and c: "if pd = 0 then st = palloc v \<and> False \<notin> set (bmap (used_map (kernel_pool (palloc v))))
       else pools_wf st \<and> base (kernel_pool st) = base (kernel_pool (palloc v)) \<and> user_pool st = user_pool (palloc v) \<and>
         (\<forall>p. kpage_used st p \<longleftrightarrow> kpage_used (palloc v) p \<or> p = pd) \<and> \<not> kpage_used (palloc v) pd \<and>
         free_cnt (palloc v) = Suc (free_cnt st) \<and> pmem st = pmem (palloc v)"
    using kernel_page_taken [OF w(1), of 0] by (auto split: if_splits)
  show ?thesis
  proof (cases "pd = 0")
    case True
    then show ?thesis using g c by (intro exI [of _ 0] exI [of _ v]) (simp add: pagedir_create_def vm_get_page_def)
  next
    case False
    then have st: "pools_wf st" "base (kernel_pool st) = base (kernel_pool (palloc v))"
      "\<And>p. kpage_used st p \<longleftrightarrow> kpage_used (palloc v) p \<or> p = pd" "\<not> kpage_used (palloc v) pd" "pmem st = pmem (palloc v)"
      and up: "user_pool st = user_pool (palloc v)" "free_cnt (palloc v) = Suc (free_cnt st)"
      using c by auto
    let ?v = "v\<lparr>palloc := st\<lparr>pmem := memcpy_pages (pmem st) pd (init_page_dir v) 4096\<rparr>\<rparr>"
    note e = enter_directory [OF assms st]
    have "pagedir_create v = Inr (pd, ?v)" using g False by (simp add: pagedir_create_def vm_get_page_def PGSIZE_def)
    moreover have "translate (pmem (palloc ?v)) pd va = (if is_user_vaddr va then None else translate (pmem (palloc v)) (init_page_dir v) va)" for va
      unfolding translate_def e(4) using init_no_user [OF assms] by simp
    moreover have "translate (pmem (palloc ?v)) d va = translate (pmem (palloc v)) d va" if "d \<in> D" for d va
      unfolding translate_def e(3) [OF that] ..
    moreover have "kpage_used (palloc ?v) p \<longleftrightarrow> kpage_used (palloc v) p \<or> p = pd" for p using st(3) by (simp add: kpage_used_def)
    moreover have "free_cnt (palloc ?v) = free_cnt st" by (simp add: free_cnt_def)
    ultimately show ?thesis using e(1,2,5) False up by (intro exI [of _ pd] exI [of _ ?v]) simp
  qed
qed


section \<open>Giving back pages\<close>

definition upage_used :: "palloc_state \<Rightarrow> word_t \<Rightarrow> bool" where
  "upage_used st p \<longleftrightarrow> (\<exists>j < bit_cnt (used_map (user_pool st)). bmap (used_map (user_pool st)) ! j \<and> p = page_at (user_pool st) j)"

text \<open>\<open>freed st S st'\<close>: exactly the pages of \<open>S\<close> are free in addition, and only their bytes have changed.\<close>

definition freed :: "palloc_state \<Rightarrow> word_t set \<Rightarrow> palloc_state \<Rightarrow> bool" where
  "freed st S st' \<longleftrightarrow> pools_wf st' \<and> base (kernel_pool st') = base (kernel_pool st) \<and>
     base (user_pool st') = base (user_pool st) \<and> bit_cnt (used_map (user_pool st')) = bit_cnt (used_map (user_pool st)) \<and>
     bit_cnt (used_map (kernel_pool st')) = bit_cnt (used_map (kernel_pool st)) \<and>
     (\<forall>p. kpage_used st' p \<longleftrightarrow> kpage_used st p \<and> p \<notin> S) \<and> (\<forall>p. upage_used st' p \<longleftrightarrow> upage_used st p \<and> p \<notin> S) \<and>
     (\<forall>q j. pg_ofs q = 0 \<and> q \<notin> S \<and> j < 1024 \<longrightarrow> tab (pmem st') q j = tab (pmem st) q j)"

lemma freed_refl: "pools_wf st \<Longrightarrow> freed st {} st"
  by (simp add: freed_def)

lemma freed_trans: "freed st S st1 \<Longrightarrow> freed st1 T st2 \<Longrightarrow> freed st (S \<union> T) st2"
  by (simp add: freed_def)

lemma pool_pages_apart:
  assumes "pools_wf st" "i < bit_cnt (used_map (kernel_pool st))" "j < bit_cnt (used_map (user_pool st))"
  shows "page_at (kernel_pool st) i \<noteq> page_at (user_pool st) j"
proof -
  have wf: "pool_wf (kernel_pool st)" "pool_wf (user_pool st)" using assms(1) by (simp_all add: pools_wf_def)
  show ?thesis
    using page_at(1) [OF wf(1) assms(2)] page_at(1) [OF wf(2) assms(3)] assms unfolding pools_wf_def by fastforce
qed

lemma free_page:
  assumes "pools_wf st" "kpage_used st p \<or> upage_used st p"
  shows "\<exists>st'. palloc_free_page p st = Inr st' \<and> freed st {p} st'"
proof -
  obtain fl :: word_t and i where fl: "fl = 0 \<or> fl = PAL_USER" and i: "i < bit_cnt (used_map (pool_of fl st))"
    "bmap (used_map (pool_of fl st)) ! i" "p = page_at (pool_of fl st) i"
  proof (cases "kpage_used st p")
    case True
    then show ?thesis using that [of 0] by (auto simp: kpage_used_def pool_of_def)
  next
    case False
    then show ?thesis using that [of PAL_USER] assms(2) by (auto simp: upage_used_def pool_of_def PAL_USER_def)
  qed
  let ?p = "pool_of fl st"
  have wf: "pool_wf ?p" "bitmap_wf (used_map ?p)" using pool_of_wf [OF assms(1)] by (simp_all add: pool_wf_def)
  have pf: "pool_wf (kernel_pool st)" "pool_wf (user_pool st)" using assms(1) by (simp_all add: pools_wf_def)
  have i1: "i + 1 \<le> bit_cnt (used_map ?p)" "free_at (bmap (used_map ?p)) 1 True i" using i(1,2) by (simp_all add: free_at_def)
  obtain b where b: "bitmap_set_multiple (used_map ?p) i 1 False = Inr b"
    "palloc_free_multiple p 1 st = Inr (set_pool fl (?p\<lparr>used_map := b\<rparr>)
       (st\<lparr>pmem := memset_pages (pmem st) p 0xcc (PGSIZE * 1)\<rparr>))"
    using palloc_free_taken [OF assms(1) _ i1] i(3) by auto
  have b': "bitmap_wf b" "bit_cnt b = bit_cnt (used_map ?p)" "bmap b = (bmap (used_map ?p))[i := False]"
    using bitmap_set_multiple_bmap [OF wf(2) i1(1), of False] b(1) i(1) by (auto simp: put_bytes_def upd_conv_take_nth_drop)
  let ?st = "set_pool fl (?p\<lparr>used_map := b\<rparr>) (st\<lparr>pmem := memset_pages (pmem st) p 0xcc (PGSIZE * 1)\<rparr>)"
  have al: "pg_ofs p = 0" unfolding i(3) by (rule page_at(2) [OF wf(1) i(1)])
  have inj: "j = i" if "j < bit_cnt (used_map ?p)" "page_at ?p j = page_at ?p i" for j
    using page_at(5) [OF wf(1) i(1)] page_at(5) [OF wf(1) that(1)] that(2) by metis
  have P: "PAL_USER AND PAL_USER \<noteq> 0" by (simp add: PAL_USER_def)
  have "pools_wf ?st" using set_pool_wf [of "st\<lparr>pmem := memset_pages (pmem st) p 0xcc (PGSIZE * 1)\<rparr>" b fl] assms(1) b' by simp
  moreover have "base (kernel_pool ?st) = base (kernel_pool st)" "base (user_pool ?st) = base (user_pool st)"
    "bit_cnt (used_map (user_pool ?st)) = bit_cnt (used_map (user_pool st))"
    "bit_cnt (used_map (kernel_pool ?st)) = bit_cnt (used_map (kernel_pool st))"
    using b'(2) by (simp_all add: set_pool_def pool_of_def)
  moreover have "kpage_used ?st q \<longleftrightarrow> kpage_used st q \<and> q \<notin> {p}" for q
    using fl
  proof
    assume "fl = 0"
    then show ?thesis
      using i inj b' by (auto simp: kpage_used_def set_pool_def pool_of_def nth_list_update split: if_splits) metis
  next
    assume "fl = PAL_USER"
    then show ?thesis
      using i pool_pages_apart [OF assms(1)] by (auto simp: kpage_used_def set_pool_def pool_of_def PAL_USER_def)
  qed
  moreover have "upage_used ?st q \<longleftrightarrow> upage_used st q \<and> q \<notin> {p}" for q
    using fl
  proof
    assume "fl = 0"
    then show ?thesis
      using i pool_pages_apart [OF assms(1)] by (auto simp: upage_used_def set_pool_def pool_of_def) metis
  next
    assume "fl = PAL_USER"
    then show ?thesis
      using i inj b' by (auto simp: upage_used_def set_pool_def pool_of_def PAL_USER_def nth_list_update split: if_splits) metis
  qed
  moreover have "tab (pmem ?st) q j = tab (pmem st) q j" if "pg_ofs q = 0" "q \<notin> {p}" "j < 1024" for q j
  proof -
    have "byte_of (memset_pages (pmem st) p 0xcc 4096) q k = byte_of (pmem st) q k" if "k < 4096" for k
      unfolding byte_of_def
      by (rule memset_pages_other) (use page_offset_eq [OF \<open>pg_ofs q = 0\<close> al that] \<open>q \<notin> {p}\<close> in auto)
    then show ?thesis using that(3) by (simp add: tab_bytes PGSIZE_def)
  qed
  ultimately have "freed st {p} ?st" unfolding freed_def by blast
  then show ?thesis using b(2) by (simp add: palloc_free_page_def)
qed


section \<open>The loops of \<open>pagedir_destroy\<close>\<close>

abbreviation owned_page :: "palloc_state \<Rightarrow> word_t \<Rightarrow> bool" where "owned_page st p \<equiv> kpage_used st p \<or> upage_used st p"

definition vm_freed :: "vm \<Rightarrow> word_t set \<Rightarrow> vm \<Rightarrow> bool" where
  "vm_freed v S v' \<longleftrightarrow> freed (palloc v) S (palloc v') \<and> v'\<lparr>palloc := palloc v\<rparr> = v"

lemma vm_freed_trans: "vm_freed v S v1 \<Longrightarrow> vm_freed v1 T v2 \<Longrightarrow> vm_freed v (S \<union> T) v2"
  using freed_trans by (auto simp: vm_freed_def) (metis vm.select_convs vm.surjective vm.update_convs(1))

lemma vm_free:
  assumes "pools_wf (palloc v)" "owned_page (palloc v) p"
  shows "\<exists>v'. vm_free_page p v = Inr v' \<and> vm_freed v {p} v'"
  using free_page [OF assms] by (auto simp: vm_free_page_def vm_freed_def)

lemma vm_freed_tab: "vm_freed v S v' \<Longrightarrow> pg_ofs q = 0 \<Longrightarrow> q \<notin> S \<Longrightarrow> j < 1024 \<Longrightarrow> tab (pmem (palloc v')) q j = tab (pmem (palloc v)) q j"
  by (simp add: vm_freed_def freed_def)

lemma vm_freed_owned: "vm_freed v S v' \<Longrightarrow> owned_page (palloc v') p \<longleftrightarrow> owned_page (palloc v) p \<and> p \<notin> S"
  by (auto simp: vm_freed_def freed_def)

lemma owned_pageD:
  assumes "pools_wf st" "PHYS_BASE \<le> base (kernel_pool st)" "PHYS_BASE \<le> base (user_pool st)" "owned_page st p"
  shows "pg_ofs p = 0" "PHYS_BASE \<le> p"
proof -
  have wf: "pool_wf (kernel_pool st)" "pool_wf (user_pool st)" using assms(1) by (simp_all add: pools_wf_def)
  show "pg_ofs p = 0"
    using assms(4) page_at(2) [OF wf(1)] page_at(2) [OF wf(2)] by (auto simp: kpage_used_def upage_used_def)
  show "PHYS_BASE \<le> p"
    using assms(2-4) page_at(1) [OF wf(1)] page_at(1) [OF wf(2)] by (auto simp: kpage_used_def upage_used_def word_le_nat_alt)
qed

text \<open>The frames that the entries of a table from \<open>k\<close> on point to.\<close>

definition frames :: "memory_t \<Rightarrow> word_t \<Rightarrow> nat \<Rightarrow> word_t set" where
  "frames m pt k = {entry_page (tab m pt j) |j. k \<le> j \<and> j < 1024 \<and> tab m pt j AND PTE_P \<noteq> 0}"

lemma frames_step:
  assumes "k < 1024"
  shows "frames m pt k = (if tab m pt k AND PTE_P \<noteq> 0 then {entry_page (tab m pt k)} else {}) \<union> frames m pt (Suc k)"
  using assms by (auto simp: frames_def Suc_le_eq le_less)

lemma frames_cong:
  assumes "\<And>j. k \<le> j \<Longrightarrow> j < 1024 \<Longrightarrow> tab m pt j = tab m' pt j"
  shows "frames m pt k = frames m' pt k"
  unfolding frames_def using assms by (metis (no_types, lifting))

lemma free_frames_frees:
  assumes "pools_wf (palloc v)" "n + k = 1024" "pg_ofs pt = 0"
    and "\<And>p. p \<in> frames (pmem (palloc v)) pt k \<Longrightarrow> owned_page (palloc v) p \<and> PHYS_BASE \<le> p \<and> p \<noteq> pt"
    and "\<And>i j. k \<le> i \<Longrightarrow> i < j \<Longrightarrow> j < 1024 \<Longrightarrow> tab (pmem (palloc v)) pt i AND PTE_P \<noteq> 0 \<Longrightarrow> tab (pmem (palloc v)) pt j AND PTE_P \<noteq> 0 \<Longrightarrow>
      table (pmem (palloc v)) pt i \<noteq> table (pmem (palloc v)) pt j"
  shows "\<exists>v'. free_frames n (pt + of_nat (4 * k)) v = Inr v' \<and> vm_freed v (frames (pmem (palloc v)) pt k) v'"
  using assms
proof (induction n arbitrary: k v)
  case 0
  then have "frames (pmem (palloc v)) pt k = {}" by (auto simp: frames_def)
  then show ?case using 0 freed_refl by (simp add: vm_freed_def)
next
  case (Suc n)
  let ?m = "pmem (palloc v)"
  have k: "k < 1024" using Suc.prems(2) by simp
  have wd: "vm_word v (pt + of_nat (4 * k)) = tab ?m pt k" by (simp add: tab_def)
  have nx: "pt + of_nat (4 * k) + 4 = pt + of_nat (4 * Suc k)" by (simp add: algebra_simps)
  define S where "S = (if tab ?m pt k AND PTE_P \<noteq> 0 then {entry_page (tab ?m pt k)} else {})"
  have fr: "frames ?m pt k = S \<union> frames ?m pt (Suc k)" using frames_step [OF k] by (simp add: S_def)
  obtain v1 where v1: "(if vm_word v (pt + of_nat (4 * k)) AND PTE_P \<noteq> 0
      then bindE (pte_get_page (vm_word v (pt + of_nat (4 * k)))) (\<lambda>page. vm_free_page page v) else Inr v) = Inr v1" "vm_freed v S v1"
  proof (cases "tab ?m pt k AND PTE_P = 0")
    case True
    then show ?thesis using that [of v] Suc.prems(1) freed_refl unfolding wd by (simp add: S_def vm_freed_def)
  next
    case False
    then have p: "owned_page (palloc v) (entry_page (tab ?m pt k))" "PHYS_BASE \<le> entry_page (tab ?m pt k)"
      using Suc.prems(4) fr S_def by auto
    obtain v1 where "vm_free_page (entry_page (tab ?m pt k)) v = Inr v1" "vm_freed v {entry_page (tab ?m pt k)} v1"
      using vm_free [OF Suc.prems(1) p(1)] by blast
    then show ?thesis using that [of v1] False ptov_address [OF p(2)] unfolding wd by (simp add: S_def pte_get_page_def)
  qed
  have nS: "pt \<notin> S" using Suc.prems(4) fr by auto
  have t: "tab (pmem (palloc v1)) pt j = tab ?m pt j" if "j < 1024" for j by (rule vm_freed_tab [OF v1(2) Suc.prems(3) nS that])
  then have f1: "frames (pmem (palloc v1)) pt (Suc k) = frames ?m pt (Suc k)" by (intro frames_cong) simp
  have disj: "S \<inter> frames ?m pt (Suc k) = {}"
    using Suc.prems(5) [of k] by (auto simp: S_def frames_def Suc_le_eq)
  have "\<exists>v'. free_frames n (pt + of_nat (4 * Suc k)) v1 = Inr v' \<and> vm_freed v1 (frames (pmem (palloc v1)) pt (Suc k)) v'"
  proof (rule Suc.IH)
    show "pools_wf (palloc v1)" using v1(2) by (simp add: vm_freed_def freed_def)
    show "n + Suc k = 1024" "pg_ofs pt = 0" using Suc.prems(2,3) by simp_all
    show "owned_page (palloc v1) p \<and> PHYS_BASE \<le> p \<and> p \<noteq> pt" if "p \<in> frames (pmem (palloc v1)) pt (Suc k)" for p
      using that Suc.prems(4) [of p] fr disj unfolding f1 vm_freed_owned [OF v1(2)] by auto
    show "table (pmem (palloc v1)) pt i \<noteq> table (pmem (palloc v1)) pt j"
      if "Suc k \<le> i" "i < j" "j < 1024" "tab (pmem (palloc v1)) pt i AND PTE_P \<noteq> 0" "tab (pmem (palloc v1)) pt j AND PTE_P \<noteq> 0" for i j
      using Suc.prems(5) [of i j] that by (simp add: t)
  qed
  then obtain v' where "free_frames n (pt + of_nat (4 * Suc k)) v1 = Inr v'" "vm_freed v1 (frames ?m pt (Suc k)) v'" unfolding f1 by blast
  then show ?case
    using v1 vm_freed_trans [OF v1(2)] unfolding free_frames.simps nx fr by auto
qed


text \<open>The tables of the user's entries from \<open>k\<close> on, with their frames.\<close>

definition table_space :: "memory_t \<Rightarrow> word_t \<Rightarrow> nat \<Rightarrow> word_t set" where
  "table_space m d i = (if tab m d i \<noteq> 0 then frames m (table m d i) 0 \<union> {table m d i} else {})"

definition space :: "memory_t \<Rightarrow> word_t \<Rightarrow> nat \<Rightarrow> word_t set" where
  "space m d k = (\<Union>i \<in> {k..<768}. table_space m d i)"

text \<open>They are allocated, and no page occurs twice.\<close>

definition space_ok :: "vm \<Rightarrow> word_t \<Rightarrow> nat \<Rightarrow> bool" where
  "space_ok v d k \<longleftrightarrow> (let m = pmem (palloc v) in
     (\<forall>i. k \<le> i \<and> i < 768 \<and> tab m d i \<noteq> 0 \<longrightarrow> tab m d i AND PTE_P \<noteq> 0 \<and> table m d i \<notin> frames m (table m d i) 0 \<and>
        (\<forall>a b. a < b \<and> b < 1024 \<and> tab m (table m d i) a AND PTE_P \<noteq> 0 \<and> tab m (table m d i) b AND PTE_P \<noteq> 0 \<longrightarrow>
           table m (table m d i) a \<noteq> table m (table m d i) b)) \<and>
     (\<forall>p \<in> space m d k. owned_page (palloc v) p \<and> PHYS_BASE \<le> p \<and> p \<noteq> d) \<and>
     (\<forall>i j. k \<le> i \<and> i < j \<and> j < 768 \<longrightarrow> table_space m d i \<inter> table_space m d j = {}))"

lemma space_step: "k < 768 \<Longrightarrow> space m d k = table_space m d k \<union> space m d (Suc k)"
proof -
  assume "k < 768"
  then have "{k..<768} = insert k {Suc k..<768}" by auto
  then show ?thesis by (simp add: space_def)
qed

lemma space_cong:
  assumes "\<And>i. k \<le> i \<Longrightarrow> i < 768 \<Longrightarrow> tab m' d i = tab m d i"
    and "\<And>i j. k \<le> i \<Longrightarrow> i < 768 \<Longrightarrow> tab m d i \<noteq> 0 \<Longrightarrow> j < 1024 \<Longrightarrow> tab m' (table m d i) j = tab m (table m d i) j"
  shows "k \<le> i \<Longrightarrow> i < 768 \<Longrightarrow> table_space m' d i = table_space m d i" "space m' d k = space m d k"
proof -
  show t: "table_space m' d i = table_space m d i" if "k \<le> i" "i < 768" for i
    using assms(1) [OF that] assms(2) [OF that] frames_cong [of 0 m' "table m d i" m] by (simp add: table_space_def)
  show "space m' d k = space m d k" unfolding space_def using t by simp
qed

lemma free_tables_frees:
  assumes "pools_wf (palloc v)" "n + k = 768" "pg_ofs d = 0" "space_ok v d k"
  shows "\<exists>v'. free_tables n (d + of_nat (4 * k)) v = Inr v' \<and> vm_freed v (space (pmem (palloc v)) d k) v'"
  using assms
proof (induction n arbitrary: k v)
  case 0
  then have "space (pmem (palloc v)) d k = {}" by (simp add: space_def)
  then show ?case using 0 freed_refl by (simp add: vm_freed_def)
next
  case (Suc n)
  let ?m = "pmem (palloc v)"
  have k: "k < 768" "k < 1024" using Suc.prems(2) by simp_all
  have wd: "vm_word v (d + of_nat (4 * k)) = tab ?m d k" by (simp add: tab_def)
  have nx: "d + of_nat (4 * k) + 4 = d + of_nat (4 * Suc k)" by (simp add: algebra_simps)
  note sp = space_step [OF k(1), of ?m d]
  note c = Suc.prems(4) [unfolded space_ok_def Let_def]
  have ok: "tab ?m d i AND PTE_P \<noteq> 0 \<and> table ?m d i \<notin> frames ?m (table ?m d i) 0 \<and>
        (\<forall>a b. a < b \<and> b < 1024 \<and> tab ?m (table ?m d i) a AND PTE_P \<noteq> 0 \<and> tab ?m (table ?m d i) b AND PTE_P \<noteq> 0 \<longrightarrow>
           table ?m (table ?m d i) a \<noteq> table ?m (table ?m d i) b)" if "k \<le> i" "i < 768" "tab ?m d i \<noteq> 0" for i
    by (rule mp [OF spec [OF conjunct1 [OF c], of i]]) (use that in \<open>intro conjI\<close>)
  have own: "owned_page (palloc v) p \<and> PHYS_BASE \<le> p \<and> p \<noteq> d" if "p \<in> space ?m d k" for p
    by (rule c [THEN conjunct2, THEN conjunct1, THEN bspec, OF that])
  have apart: "table_space ?m d i \<inter> table_space ?m d j = {}" if "k \<le> i" "i < j" "j < 768" for i j
    by (rule mp [OF spec [OF spec [OF conjunct2 [OF conjunct2 [OF c]], of i], of j]]) (use that in \<open>intro conjI\<close>)
  obtain v1 where v1: "(if vm_word v (d + of_nat (4 * k)) AND PTE_P \<noteq> 0
      then bindE (pde_get_pt (vm_word v (d + of_nat (4 * k)))) (\<lambda>pt. bindE (free_frames (PGSIZE div 4) pt v) (vm_free_page pt))
      else Inr v) = Inr v1" "vm_freed v (table_space ?m d k) v1"
  proof (cases "tab ?m d k = 0")
    case True
    then show ?thesis using that [of v] Suc.prems(1) freed_refl unfolding wd by (simp add: table_space_def vm_freed_def)
  next
    case False
    let ?pt = "table ?m d k"
    note o = ok [OF order_refl k(1) False]
    have in_sp: "?pt \<in> space ?m d k" "\<And>p. p \<in> frames ?m ?pt 0 \<Longrightarrow> p \<in> space ?m d k"
      using sp False by (simp_all add: table_space_def)
    have "\<exists>v'. free_frames 1024 (?pt + of_nat (4 * 0)) v = Inr v' \<and> vm_freed v (frames ?m ?pt 0) v'"
    proof (rule free_frames_frees [OF Suc.prems(1)])
      show "owned_page (palloc v) p \<and> PHYS_BASE \<le> p \<and> p \<noteq> ?pt" if "p \<in> frames ?m ?pt 0" for p
        using own [OF in_sp(2) [OF that]] that o by auto
    qed (use o in auto)
    then obtain v2 where v2: "free_frames 1024 ?pt v = Inr v2" "vm_freed v (frames ?m ?pt 0) v2" by auto
    have "owned_page (palloc v2) ?pt" using own [OF in_sp(1)] o by (simp add: vm_freed_owned [OF v2(2)])
    moreover have "pools_wf (palloc v2)" using v2(2) by (simp add: vm_freed_def freed_def)
    ultimately obtain v3 where v3: "vm_free_page ?pt v2 = Inr v3" "vm_freed v2 {?pt} v3" using vm_free by blast
    have "pde_get_pt (tab ?m d k) = Inr ?pt"
      using o ptov_address [of "tab ?m d k"] own [OF in_sp(1)] by (simp add: pde_get_pt_def)
    then show ?thesis
      using that [of v3] v2(1) v3(1) vm_freed_trans [OF v2(2) v3(2)] o False unfolding wd by (simp add: table_space_def PGSIZE_def)
  qed
  have rest: "table_space ?m d i \<inter> table_space ?m d k = {}" if "Suc k \<le> i" "i < 768" for i
    using apart [of k i] that by auto
  have dS: "d \<notin> table_space ?m d k" using own sp by auto
  have t: "tab (pmem (palloc v1)) d i = tab ?m d i" if "i < 1024" for i by (rule vm_freed_tab [OF v1(2) Suc.prems(3) dS that])
  have tt: "tab (pmem (palloc v1)) (table ?m d i) j = tab ?m (table ?m d i) j" if "Suc k \<le> i" "i < 768" "tab ?m d i \<noteq> 0" "j < 1024" for i j
    by (rule vm_freed_tab [OF v1(2) _ _ that(4)]) (use rest [OF that(1,2)] that(3) in \<open>auto simp: table_space_def\<close>)
  have s1: "table_space (pmem (palloc v1)) d i = table_space ?m d i" if "Suc k \<le> i" "i < 768" for i
    by (rule space_cong(1) [of "Suc k", OF _ _ that]) (use t tt in auto)
  have s2: "space (pmem (palloc v1)) d (Suc k) = space ?m d (Suc k)" unfolding space_def using s1 by simp
  have fr: "frames (pmem (palloc v1)) (table ?m d i) 0 = frames ?m (table ?m d i) 0" if "Suc k \<le> i" "i < 768" "tab ?m d i \<noteq> 0" for i
    by (rule frames_cong) (use tt [OF that] in simp)
  have "space_ok v1 d (Suc k)"
    unfolding space_ok_def Let_def s2
  proof (intro conjI allI impI ballI)
    fix i
    assume i: "Suc k \<le> i \<and> i < 768 \<and> tab (pmem (palloc v1)) d i \<noteq> 0"
    then have e: "tab (pmem (palloc v1)) d i = tab ?m d i" using t by simp
    then have nz: "tab ?m d i \<noteq> 0" using i by simp
    note o = ok [of i]
    show "tab (pmem (palloc v1)) d i AND PTE_P \<noteq> 0" "table (pmem (palloc v1)) d i \<notin> frames (pmem (palloc v1)) (table (pmem (palloc v1)) d i) 0"
      unfolding e using o i nz fr by auto
    fix a b
    assume "a < b \<and> b < 1024 \<and> tab (pmem (palloc v1)) (table (pmem (palloc v1)) d i) a AND PTE_P \<noteq> 0 \<and>
      tab (pmem (palloc v1)) (table (pmem (palloc v1)) d i) b AND PTE_P \<noteq> 0"
    then show "table (pmem (palloc v1)) (table (pmem (palloc v1)) d i) a \<noteq> table (pmem (palloc v1)) (table (pmem (palloc v1)) d i) b"
      unfolding e using o i nz tt [of i a] tt [of i b] by simp
  next
    fix p
    assume p: "p \<in> space ?m d (Suc k)"
    then obtain x where x: "Suc k \<le> x" "x < 768" "p \<in> table_space ?m d x" by (auto simp: space_def)
    have "p \<notin> table_space ?m d k" using rest [OF x(1,2)] x(3) by blast
    then show "owned_page (palloc v1) p" "PHYS_BASE \<le> p" "p \<noteq> d" using own [of p] p sp by (auto simp: vm_freed_owned [OF v1(2)])
  next
    fix i j
    assume "Suc k \<le> i \<and> i < j \<and> j < 768"
    then show "table_space (pmem (palloc v1)) d i \<inter> table_space (pmem (palloc v1)) d j = {}"
      using s1 [of i] s1 [of j] apart [of i j] by simp
  qed
  moreover have "pools_wf (palloc v1)" using v1(2) by (simp add: vm_freed_def freed_def)
  ultimately obtain v' where "free_tables n (d + of_nat (4 * Suc k)) v1 = Inr v'" "vm_freed v1 (space ?m d (Suc k)) v'"
    using Suc.IH [of v1 "Suc k"] Suc.prems(2,3) s2 by auto
  then show ?case
    using v1 vm_freed_trans [OF v1(2)] unfolding free_tables.simps nx sp by auto
qed


section \<open>The space of a directory\<close>

text \<open>Every pair of indices is that of an address.\<close>

lemma address_of:
  assumes "i < 768" "j < 1024"
  obtains va where "is_user_vaddr va" "unat (pd_no va) = i" "unat (pt_no va) = j"
proof -
  let ?n = "i * 2 ^ 22 + j * 4096"
  have n: "?n < 768 * 2 ^ 22" using assms by simp
  then have u: "unat (of_nat ?n :: word_t) = ?n" using unat_add_nat [of 0 ?n] by simp
  have "is_user_vaddr (of_nat ?n)" using u n by (simp add: is_user_vaddr_def word_less_nat_alt PHYS_BASE_def)
  moreover have "?n div 2 ^ 22 = i" using assms(2) by simp
  then have "unat (pd_no (of_nat ?n)) = i" unfolding unat_pd_no u .
  moreover have "?n div 4096 = i * 1024 + j" by simp
  then have "unat (pt_no (of_nat ?n)) = j" unfolding unat_pt_no u using assms(2) by simp
  ultimately show ?thesis by (rule that)
qed

text \<open>The pages that user addresses are translated to.\<close>

definition user_frames :: "memory_t \<Rightarrow> word_t \<Rightarrow> word_t set" where
  "user_frames m d = {p. \<exists>va w u. is_user_vaddr va \<and> translate m d va = Some (p, w, u)}"

lemma frames_translate:
  assumes "i < 768" "tab m d i \<noteq> 0"
  shows "p \<in> frames m (table m d i) 0 \<longleftrightarrow> (\<exists>va w u. is_user_vaddr va \<and> unat (pd_no va) = i \<and> translate m d va = Some (p, w, u))"
proof
  assume "p \<in> frames m (table m d i) 0"
  then obtain j where j: "j < 1024" "tab m (table m d i) j AND PTE_P \<noteq> 0" "p = table m (table m d i) j" by (auto simp: frames_def)
  obtain va where "is_user_vaddr va" "unat (pd_no va) = i" "unat (pt_no va) = j" by (rule address_of [OF assms(1) j(1)])
  then show "\<exists>va w u. is_user_vaddr va \<and> unat (pd_no va) = i \<and> translate m d va = Some (p, w, u)"
    using j assms(2) by (auto simp: translate_def the_pte_def Let_def intro!: exI [of _ va])
next
  assume "\<exists>va w u. is_user_vaddr va \<and> unat (pd_no va) = i \<and> translate m d va = Some (p, w, u)"
  then obtain va w u where "unat (pd_no va) = i" "translate m d va = Some (p, w, u)" by blast
  then show "p \<in> frames m (table m d i) 0"
    using assms(2) index_bounds(2) [of va] by (auto simp: translate_def the_pte_def Let_def frames_def split: if_splits)
qed

lemma space_pages: "space m d 0 = user_frames m d \<union> {table m d i |i. i < 768 \<and> tab m d i \<noteq> 0}"
proof (rule set_eqI)
  fix p
  have "p \<in> space m d 0 \<longleftrightarrow> (\<exists>i < 768. tab m d i \<noteq> 0 \<and> (p \<in> frames m (table m d i) 0 \<or> p = table m d i))"
    by (auto simp: space_def table_space_def)
  also have "\<dots> \<longleftrightarrow> (\<exists>i < 768. tab m d i \<noteq> 0 \<and> ((\<exists>va w u. is_user_vaddr va \<and> unat (pd_no va) = i \<and> translate m d va = Some (p, w, u)) \<or>
      p = table m d i))"
    using frames_translate by blast
  also have "\<dots> \<longleftrightarrow> p \<in> user_frames m d \<or> (\<exists>i < 768. tab m d i \<noteq> 0 \<and> p = table m d i)"
  proof -
    have "tab m d (unat (pd_no va)) \<noteq> 0" if "translate m d va = Some x" for va x
      using that by (auto simp: translate_def the_pte_def split: if_splits)
    then show ?thesis unfolding user_frames_def using index_bounds(3) by blast
  qed
  finally show "p \<in> space m d 0 \<longleftrightarrow> p \<in> user_frames m d \<union> {table m d i |i. i < 768 \<and> tab m d i \<noteq> 0}" by auto
qed

text \<open>
  \<open>frames_private v D d\<close>: the pages that \<open>d\<close> maps for users are allocated, are no directories or tables, and none is mapped
  twice.
\<close>

definition frames_private :: "vm \<Rightarrow> word_t set \<Rightarrow> word_t \<Rightarrow> bool" where
  "frames_private v D d \<longleftrightarrow> (let m = pmem (palloc v) in
     (\<forall>p \<in> user_frames m d. owned_page (palloc v) p \<and> p \<notin> D \<and> (\<forall>d' \<in> D. \<forall>i < 1024. tab m d' i \<noteq> 0 \<longrightarrow> table m d' i \<noteq> p)) \<and>
     (\<forall>va va' p w u w' u'. is_user_vaddr va \<and> is_user_vaddr va' \<and> translate m d va = Some (p, w, u) \<and>
        translate m d va' = Some (p, w', u') \<longrightarrow> pg_no va = pg_no va'))"

lemma private_space:
  assumes inv: "vm_inv v D" and d: "d \<in> D" and pr: "frames_private v D d" and base: "PHYS_BASE \<le> base (user_pool (palloc v))"
  shows "space_ok v d 0"
proof -
  let ?m = "pmem (palloc v)"
  note w = vm_invD [OF inv]
  have fr: "owned_page (palloc v) p \<and> p \<notin> D \<and> (\<forall>d' \<in> D. \<forall>i < 1024. tab ?m d' i \<noteq> 0 \<longrightarrow> table ?m d' i \<noteq> p)" if "p \<in> user_frames ?m d" for p
    using pr that unfolding frames_private_def Let_def by blast
  have once: "pg_no va = pg_no va'"
    if "is_user_vaddr va" "is_user_vaddr va'" "translate ?m d va = Some (p, x, u)" "translate ?m d va' = Some (p, x', u')" for va va' p x u x' u'
    using pr that unfolding frames_private_def Let_def by blast
  have sub: "frames ?m (table ?m d i) 0 \<subseteq> user_frames ?m d" if "i < 768" "tab ?m d i \<noteq> 0" for i
    using frames_translate [OF that] unfolding user_frames_def by blast
  show ?thesis
    unfolding space_ok_def Let_def
  proof (intro conjI allI impI ballI)
    fix i
    assume i: "0 \<le> i \<and> i < 768 \<and> tab ?m d i \<noteq> 0"
    then have i': "i < 1024" "i < 768" "tab ?m d i \<noteq> 0" by auto
    show "tab ?m d i AND PTE_P \<noteq> 0" by (rule w(5) [OF d i'(1,3)])
    show "table ?m d i \<notin> frames ?m (table ?m d i) 0" using fr sub [OF i'(2,3)] d i'(1,3) by blast
    fix a b
    assume ab: "a < b \<and> b < 1024 \<and> tab ?m (table ?m d i) a AND PTE_P \<noteq> 0 \<and> tab ?m (table ?m d i) b AND PTE_P \<noteq> 0"
    obtain va where va: "is_user_vaddr va" "unat (pd_no va) = i" "unat (pt_no va) = a" using address_of [OF i'(2), of a] ab by auto
    obtain vb where vb: "is_user_vaddr vb" "unat (pd_no vb) = i" "unat (pt_no vb) = b" using address_of [OF i'(2), of b] ab by auto
    have "pg_no va \<noteq> pg_no vb" using same_page [of va vb] va(3) vb(3) ab by auto
    moreover have "\<exists>x u. translate ?m d va = Some (table ?m (table ?m d i) a, x, u)" "\<exists>x u. translate ?m d vb = Some (table ?m (table ?m d i) b, x, u)"
      using ab i'(3) va vb by (simp_all add: translate_def the_pte_def Let_def)
    ultimately show "table ?m (table ?m d i) a \<noteq> table ?m (table ?m d i) b" using once [OF va(1) vb(1)] by metis
  next
    fix p
    assume p: "p \<in> space ?m d 0"
    have o: "owned_page (palloc v) p \<and> p \<notin> D"
    proof (cases "p \<in> user_frames ?m d")
      case False
      then obtain i where "i < 768" "tab ?m d i \<noteq> 0" "p = table ?m d i" using p by (auto simp: space_pages)
      then show ?thesis using w(6,7) [OF d, of i] by simp
    qed (use fr in blast)
    then show "owned_page (palloc v) p" "p \<noteq> d" using d by auto
    show "PHYS_BASE \<le> p" using owned_pageD(2) [OF w(1,2) base] o by blast
  next
    fix i j :: nat
    assume "0 \<le> i \<and> i < j \<and> j < 768"
    then have ij: "i < 768" "i < 1024" "j < 768" "j < 1024" "i \<noteq> j" by auto
    show "table_space ?m d i \<inter> table_space ?m d j = {}"
    proof (cases "tab ?m d i \<noteq> 0 \<and> tab ?m d j \<noteq> 0")
      case True
      then have nz: "tab ?m d i \<noteq> 0" "tab ?m d j \<noteq> 0" by auto
      have "p \<notin> frames ?m (table ?m d j) 0" if p: "p \<in> frames ?m (table ?m d i) 0" for p
      proof
        assume "p \<in> frames ?m (table ?m d j) 0"
        then obtain va vb x u x' u' where "is_user_vaddr va" "is_user_vaddr vb" and ix: "unat (pd_no va) = i" "unat (pd_no vb) = j"
          and "translate ?m d va = Some (p, x, u)" "translate ?m d vb = Some (p, x', u')"
          using p unfolding frames_translate [OF ij(1) nz(1)] frames_translate [OF ij(3) nz(2)] by blast
        then have "pg_no va = pg_no vb" using once by blast
        then show False using same_page [of va vb] ix ij(5) by simp
      qed
      moreover have "table ?m d i \<noteq> table ?m d j" using w(8) [OF d d ij(2,4) nz] ij(5) by blast
      moreover have "table ?m d i \<notin> frames ?m (table ?m d j) 0" using fr sub [OF ij(3) nz(2)] d ij(2) nz(1) by blast
      moreover have "table ?m d j \<notin> frames ?m (table ?m d i) 0" using fr sub [OF ij(1) nz(1)] d ij(4) nz(2) by blast
      ultimately show ?thesis using nz by (auto simp: table_space_def)
    next
      case False
      then show ?thesis by (auto simp: table_space_def)
    qed
  qed
qed


text \<open>\<open>pagedir_destroy\<close> frees the directory and its space.\<close>

lemma pagedir_destroy_frees:
  assumes inv: "vm_inv v D" and d: "d \<in> D" "d \<noteq> init_page_dir v" and pr: "frames_private v D d"
    and base: "PHYS_BASE \<le> base (user_pool (palloc v))"
  defines "m \<equiv> pmem (palloc v)"
  defines "S \<equiv> insert d (user_frames m d \<union> {table m d i |i. i < 768 \<and> tab m d i \<noteq> 0})"
  shows "\<exists>v'. pagedir_destroy d v = Inr v' \<and> vm_freed v S v' \<and> vm_inv v' (D - {d}) \<and>
    (\<forall>d' \<in> D - {d}. \<forall>va. the_pte (pmem (palloc v')) d' va = the_pte m d' va)"
proof -
  note w = vm_invD [OF inv, folded m_def]
  note ok = private_space [OF inv d(1) pr base]
  have al: "pg_ofs d = 0" "d \<noteq> 0" by (rule vm_dir [OF inv d(1)])+
  have S: "S = insert d (space m d 0)" unfolding S_def space_pages ..
  have dn: "d \<notin> space m d 0" using ok unfolding space_ok_def Let_def m_def by blast
  obtain v1 where v1: "free_tables 768 d v = Inr v1" "vm_freed v (space m d 0) v1"
    using free_tables_frees [OF w(1) _ al(1) ok, of 768] by (auto simp: m_def)
  have "kpage_used (palloc v1) d" using w(4) [OF d(1)] dn v1(2) by (simp add: vm_freed_def freed_def)
  moreover have "pools_wf (palloc v1)" using v1(2) by (simp add: vm_freed_def freed_def)
  ultimately obtain v2 where v2: "vm_free_page d v1 = Inr v2" "vm_freed v1 {d} v2" using vm_free by blast
  have "unat (pd_no PHYS_BASE) = 768" by (simp add: unat_pd_no PHYS_BASE_def)
  then have run: "pagedir_destroy d v = Inr v2" using al(2) d(2) v1(1) v2(1) by (simp add: pagedir_destroy_def)
  have fr: "vm_freed v S v2" using vm_freed_trans [OF v1(2) v2(2)] by (simp add: S)
  have priv: "p \<notin> D" "\<And>d' i. d' \<in> D \<Longrightarrow> i < 1024 \<Longrightarrow> tab m d' i \<noteq> 0 \<Longrightarrow> table m d' i \<noteq> p" if "p \<in> user_frames m d" for p
    using pr that unfolding frames_private_def Let_def m_def by blast+
  have dirs: "d' \<notin> S" if "d' \<in> D - {d}" for d'
  proof -
    have "d' \<noteq> table m d i" if "i < 768" "tab m d i \<noteq> 0" for i using w(7) [OF d(1), of i] that \<open>d' \<in> D - {d}\<close> by auto
    then show ?thesis using that priv(1) unfolding S_def by blast
  qed
  have tabs: "table m d' j \<notin> S" if t: "d' \<in> D - {d}" "j < 1024" "tab m d' j \<noteq> 0" for d' j
  proof -
    have D: "d' \<in> D" "d' \<noteq> d" using t(1) by auto
    have "table m d' j \<noteq> d" using w(7) [OF D(1) t(2,3)] d(1) by auto
    moreover have "table m d' j \<notin> user_frames m d" using priv(2) [OF _ D(1) t(2,3)] by blast
    moreover have "table m d' j \<noteq> table m d i" if i: "i < 768" "tab m d i \<noteq> 0" for i
      using w(8) [OF D(1) d(1) t(2) _ t(3) i(2)] i(1) D(2) by auto
    ultimately show ?thesis unfolding S_def by auto
  qed
  have dt: "tab (pmem (palloc v2)) d' j = tab m d' j" if "d' \<in> D - {d}" "j < 1024" for d' j
    unfolding m_def by (rule vm_freed_tab [OF fr _ dirs [OF that(1)] that(2)]) (use vm_dir(1) [OF inv] that(1) in auto)
  have u: "kpage_used (palloc v2) p \<longleftrightarrow> kpage_used (palloc v) p \<and> p \<notin> S" for p using fr by (simp add: vm_freed_def freed_def)
  have f: "pools_wf (palloc v2)" "base (kernel_pool (palloc v2)) = base (kernel_pool (palloc v))" "init_page_dir v2 = init_page_dir v"
    using fr by (auto simp: vm_freed_def freed_def) (metis vm.select_convs(2) vm.surjective vm.update_convs(1))
  have d0: "init_page_dir v \<in> D - {d}" using w(3) d(2) by simp
  have "vm_inv v2 (D - {d})"
    unfolding vm_inv_def Let_def f(2,3)
  proof (intro conjI ballI allI impI f(1) w(2) d0)
    show "kpage_used (palloc v2) q" if "q \<in> D - {d}" for q using w(4) dirs [OF that] that by (simp add: u)
    show "tab (pmem (palloc v2)) q k AND PTE_P \<noteq> 0" "kpage_used (palloc v2) (table (pmem (palloc v2)) q k)"
      "table (pmem (palloc v2)) q k \<notin> D - {d}" if "q \<in> D - {d}" "k < 1024" "tab (pmem (palloc v2)) q k \<noteq> 0" for q k
      using w(5-7) [of q k] tabs [OF that(1,2)] that(1,3) unfolding dt [OF that(1,2)] by (auto simp: u that(2))
    show "tab (pmem (palloc v2)) (init_page_dir v) k = 0" if "k < 768" for k using dt [OF d0, of k] w(9) that by simp
    show "tab (pmem (palloc v2)) q k = tab (pmem (palloc v2)) (init_page_dir v) k" if "q \<in> D - {d}" "k < 1024" "768 \<le> k" for q k
      using dt [OF that(1,2)] dt [OF d0 that(2)] w(10) [of q k] that by simp
    show "a = b" "q = r \<or> 768 \<le> a"
      if h: "q \<in> D - {d}" "r \<in> D - {d}" "a < 1024" "b < 1024"
        "tab (pmem (palloc v2)) q a \<noteq> 0 \<and> tab (pmem (palloc v2)) r b \<noteq> 0 \<and> table (pmem (palloc v2)) q a = table (pmem (palloc v2)) r b"
      for q r a b
      using h(5) w(8) [of q r a b] h(1-4) unfolding dt [OF h(1,3)] dt [OF h(2,4)] by auto
  qed
  moreover have "the_pte (pmem (palloc v2)) d' va = the_pte m d' va" if "d' \<in> D - {d}" for d' va
  proof (cases "tab m d' (unat (pd_no va)) = 0")
    case True
    then show ?thesis using dt [OF that index_bounds(1)] by (simp add: the_pte_def)
  next
    case False
    have "tab (pmem (palloc v2)) (table m d' (unat (pd_no va))) (unat (pt_no va)) = tab m (table m d' (unat (pd_no va))) (unat (pt_no va))"
      unfolding m_def by (rule vm_freed_tab [OF fr _ _ index_bounds(2)]) (use tabs [OF that index_bounds(1) False] in \<open>simp_all add: m_def\<close>)
    then show ?thesis using dt [OF that index_bounds(1)] by (simp add: the_pte_def Let_def)
  qed
  ultimately show ?thesis using run fr by blast
qed

end
