(* ===== verification/Pintos_Paging_Init.thy ===== *)
theory Pintos_Paging_Init
  imports Pintos_Pagedir_Refinement
begin

unbundle bit_operations_syntax

text \<open>
  \<open>paging_init\<close>: from the page allocator alone to a first page directory, in which the kernel's addresses
  are mapped to physical memory one to one.
\<close>

section \<open>Taking pages that must be there\<close>

lemma must_get_page:
  assumes "pools_wf st" "0 < free_cnt st"
  shows "\<exists>pt st'. palloc_get_page (PAL_ASSERT OR PAL_ZERO) st = Inr (pt, st') \<and> pt \<noteq> 0 \<and> pools_wf st' \<and>
    base (kernel_pool st') = base (kernel_pool st) \<and> (\<forall>p. kpage_used st' p \<longleftrightarrow> kpage_used st p \<or> p = pt) \<and> \<not> kpage_used st pt \<and>
    pmem st' = memset_pages (pmem st) pt 0 4096 \<and> free_cnt st = Suc (free_cnt st')"
proof -
  have "filter Not (bmap (used_map (kernel_pool st))) \<noteq> []" using assms(2) by (simp add: free_cnt_def)
  then have f: "False \<in> set (bmap (used_map (kernel_pool st)))" by (auto simp: filter_empty_conv)
  have fl: "PAL_ZERO AND PAL_USER = 0" "PAL_ZERO AND PAL_ASSERT = 0" "PAL_ZERO AND PAL_ZERO \<noteq> 0"
    by (simp_all add: PAL_ASSERT_def PAL_ZERO_def PAL_USER_def)
  obtain pt st' where g: "palloc_get_page PAL_ZERO st = Inr (pt, st')"
    and c: "if pt = 0 then st' = st \<and> False \<notin> set (bmap (used_map (kernel_pool st)))
     else pools_wf st' \<and> base (kernel_pool st') = base (kernel_pool st) \<and> user_pool st' = user_pool st \<and>
       (\<forall>p. kpage_used st' p \<longleftrightarrow> kpage_used st p \<or> p = pt) \<and> \<not> kpage_used st pt \<and>
       bit_cnt (used_map (kernel_pool st')) = bit_cnt (used_map (kernel_pool st)) \<and>
       (\<exists>j < bit_cnt (used_map (kernel_pool st)). pt = page_at (kernel_pool st) j \<and> \<not> bmap (used_map (kernel_pool st)) ! j \<and>
          bmap (used_map (kernel_pool st')) = (bmap (used_map (kernel_pool st)))[j := True]) \<and>
       pmem st' = memset_pages (pmem st) pt 0 4096"
    using kernel_page [OF assms(1) fl(1,2)] fl(3) by (simp only: if_True not_False_eq_True) blast
  have nz: "pt \<noteq> 0" using c f by (auto split: if_splits)
  have "(PAL_ASSERT OR PAL_ZERO) AND PAL_USER = 0" "PAL_ZERO AND PAL_USER = 0" "(PAL_ASSERT OR PAL_ZERO) AND PAL_ZERO \<noteq> 0"
    "PAL_ZERO AND PAL_ZERO \<noteq> 0" by (simp_all add: PAL_ASSERT_def PAL_ZERO_def PAL_USER_def)
  then have "palloc_get_page (PAL_ASSERT OR PAL_ZERO) st = Inr (pt, st')"
    using g nz by (auto simp: palloc_get_page_def palloc_get_multiple_def pool_of_def set_pool_def Let_def split: if_splits)
  moreover have "free_cnt st = Suc (free_cnt st')"
    using c nz filter_mark [of _ "bmap (used_map (kernel_pool st))"] by (auto simp: free_cnt_def)
  ultimately show ?thesis using c nz by auto
qed

section \<open>The kernel's addresses\<close>

text \<open>The \<open>n\<close>th page of physical memory, at its kernel address.\<close>

definition kva :: "nat \<Rightarrow> word_t" where "kva n = of_nat (n * PGSIZE) + PHYS_BASE"

lemma kva:
  assumes "n < 2 ^ 18"
  shows "ptov (of_nat (n * PGSIZE)) = Inr (kva n)" "unat (kva n) = 4096 * (786432 + n)" "PHYS_BASE \<le> kva n" "pg_ofs (kva n) = 0"
    "unat (pd_no (kva n)) = 768 + n div 1024" "unat (pt_no (kva n)) = n mod 1024"
proof -
  have u: "unat (of_nat (n * PGSIZE) :: word_t) = 4096 * n"
    using unat_add_nat [of 0 "n * PGSIZE"] assms by (simp add: PGSIZE_def mult.commute)
  have "of_nat (n * PGSIZE) < PHYS_BASE" using assms u by (simp add: word_less_nat_alt PHYS_BASE_def)
  then show "ptov (of_nat (n * PGSIZE)) = Inr (kva n)" by (simp add: ptov_def kva_def)
  have b: "unat PHYS_BASE = 4096 * 786432" by (simp add: PHYS_BASE_def)
  have "unat (PHYS_BASE + of_nat (n * PGSIZE)) = unat PHYS_BASE + n * PGSIZE"
    by (rule unat_add_nat) (use assms in \<open>simp add: b PGSIZE_def\<close>)
  then show k: "unat (kva n) = 4096 * (786432 + n)"
    unfolding b kva_def add.commute [of PHYS_BASE] by (simp add: PGSIZE_def)
  then show "PHYS_BASE \<le> kva n" "pg_ofs (kva n) = 0" by (simp_all add: word_le_nat_alt pg_ofs_mod PHYS_BASE_def)
  have "4096 * (786432 + n) div 2 ^ 22 = (786432 + n) div 1024" by (simp add: div_mult2_eq [of _ 4096 1024, simplified])
  moreover have "(786432 + n) div 1024 = 768 + n div 1024" by simp
  moreover have "(786432 + n) mod 1024 = n mod 1024" using mod_mult_self4 [of 1024 768 n] by simp
  ultimately show "unat (pd_no (kva n)) = 768 + n div 1024" "unat (pt_no (kva n)) = n mod 1024"
    unfolding unat_pd_no unat_pt_no k by simp_all
qed

text \<open>The number of the page that a kernel address is in.\<close>

definition kpage_of :: "word_t \<Rightarrow> nat" where "kpage_of va = unat va div 4096 - 786432"

lemma kernel_page_of:
  assumes "\<not> is_user_vaddr va"
  shows "kpage_of va < 2 ^ 18" "kva (kpage_of va) = pg_round_down va" "pg_no va = pg_no (kva (kpage_of va))"
proof -
  have "786432 * 4096 \<le> unat va" using assms by (simp add: is_user_vaddr_def not_less word_le_nat_alt PHYS_BASE_def)
  then have ge: "786432 \<le> unat va div 4096" by (simp add: less_eq_div_iff_mult_less_eq)
  have "unat va < 2 ^ 20 * 4096" using unsigned_less [of va, where ?'a = nat] by simp
  then have "unat va div 4096 < 2 ^ 20" by (rule less_mult_imp_div_less)
  then show lt: "kpage_of va < 2 ^ 18" using ge by (simp add: kpage_of_def)
  have u: "unat (kva (kpage_of va)) = 4096 * (unat va div 4096)" using kva(2) [OF lt] ge by (simp add: kpage_of_def)
  then show "pg_no va = pg_no (kva (kpage_of va))" by (simp add: word_unat_eq_iff unat_pg_no)
  have "pg_round_down va = drop_bit 12 va * 4096"
  proof -
    have m: "PGMASK = mask 12" by (simp add: PGMASK_def mask_eq_exp_minus_1)
    have "pg_round_down va = push_bit 12 (drop_bit 12 va)"
      unfolding pg_round_down_def m by (rule bit_word_eqI) (auto simp: bit_simps)
    then show ?thesis by (simp add: push_bit_eq_mult)
  qed
  moreover have "unat (drop_bit 12 va) = unat va div 4096" by (simp only: unat_drop_bit_eq) (simp add: drop_bit_eq_div)
  ultimately have "unat (pg_round_down va) = unat va div 4096 * 4096"
    using unsigned_less [of va, where ?'a = nat] by (simp add: unat_word_ariths) 
  then show "kva (kpage_of va) = pg_round_down va" using u by (simp add: word_unat_eq_iff)
qed

lemma same_kpage:
  assumes "k < 2 ^ 18"
  shows "pg_no va = pg_no (kva k) \<longleftrightarrow> \<not> is_user_vaddr va \<and> kpage_of va = k"
proof -
  have "unat PHYS_BASE = 786432 * 4096" by (simp add: PHYS_BASE_def)
  then have u: "is_user_vaddr va \<longleftrightarrow> unat va div 4096 < 786432"
    by (simp only: is_user_vaddr_def word_less_nat_alt) (simp add: div_less_iff_less_mult)
  have "unat (kva k) div 4096 = 786432 + k" by (simp add: kva(2) [OF assms])
  then have "pg_no va = pg_no (kva k) \<longleftrightarrow> unat va div 4096 = 786432 + k"
    by (simp add: word_unat_eq_iff unat_pg_no)
  then show ?thesis by (auto simp: u kpage_of_def)
qed

section \<open>The loop\<close>

lemma pte_create_kernel_entry:
  assumes "pg_ofs p = 0" "PHYS_BASE \<le> p"
  shows "\<exists>e. pte_create_kernel p w = Inr e \<and> entry_page e = p \<and> e AND PTE_P \<noteq> 0 \<and> (e AND PTE_W \<noteq> 0) = w \<and> e AND PTE_U = 0"
proof -
  let ?f = "PTE_P OR (if w then PTE_W else 0)"
  let ?e = "(p - PHYS_BASE) OR ?f"
  have f: "?f AND PTE_ADDR = 0" by (simp add: PTE_P_def PTE_W_def PTE_ADDR_def)
  note e = entry_parts [OF aligned_kernel(1) [OF assms(1)] f]
  have "?e AND PTE_P = ?f AND PTE_P" "?e AND PTE_W = ?f AND PTE_W" "?e AND PTE_U = ?f AND PTE_U"
    by (rule e(2), rule flags_off_address)+
  moreover have "entry_page ?e = p" by (simp add: entry_page_def e(1))
  ultimately show ?thesis
    using assms by (auto simp: pte_create_kernel_def vtop_kernel or.assoc PTE_P_def PTE_W_def PTE_U_def)
qed

text \<open>The directory \<open>pd\<close> maps the first \<open>k\<close> pages of memory, and has the tables for them, the last one at \<open>pt\<close>.\<close>

definition kernel_maps :: "word_t \<Rightarrow> word_t \<Rightarrow> word_t \<Rightarrow> nat \<Rightarrow> memory_t \<Rightarrow> bool" where
  "kernel_maps ts te pd k m \<longleftrightarrow> (\<forall>va. translate m pd va =
     (if \<not> is_user_vaddr va \<and> kpage_of va < k then Some (pg_round_down va, \<not> (ts \<le> pg_round_down va \<and> pg_round_down va < te), False) else None))"

definition loop_inv :: "word_t \<Rightarrow> word_t \<Rightarrow> word_t \<Rightarrow> nat \<Rightarrow> word_t \<Rightarrow> vm \<Rightarrow> bool" where
  "loop_inv ts te pd k pt v \<longleftrightarrow> (let m = pmem (palloc v) in
     vm_inv v {pd} \<and> kernel_maps ts te pd k m \<and> (\<forall>i < 1024. tab m pd i \<noteq> 0 \<longleftrightarrow> 768 \<le> i \<and> (i - 768) * 1024 < k) \<and>
     (k mod 1024 \<noteq> 0 \<longrightarrow> pt = table m pd (768 + k div 1024)))"

text \<open>The first half of a round: afterwards there is a table for page \<open>k\<close>.\<close>

lemma table_ready:
  assumes inv: "loop_inv ts te pd k pt v" and k: "k < 2 ^ 18" and f: "k mod 1024 = 0 \<Longrightarrow> 0 < free_cnt (palloc v)"
  defines "i \<equiv> 768 + k div 1024"
  shows "\<exists>pt' v'. bindE (if vm_word v (pd + 4 * pd_no (kva k)) = 0 then
             bindE (vm_get_page (PAL_ASSERT OR PAL_ZERO) v) (\<lambda>(pt, v).
             bindE (pde_create pt) (\<lambda>e. Inr (pt, put_word (pd + 4 * pd_no (kva k)) e v)))
           else Inr (pt, v)) f = f (pt', v') \<and> vm_inv v' {pd} \<and> tab (pmem (palloc v')) pd i \<noteq> 0 \<and> pt' = table (pmem (palloc v')) pd i \<and>
    (\<forall>va. the_pte (pmem (palloc v')) pd va = the_pte (pmem (palloc v)) pd va) \<and>
    (\<forall>j < 1024. tab (pmem (palloc v')) pd j \<noteq> 0 \<longleftrightarrow> 768 \<le> j \<and> (j - 768) * 1024 < Suc k) \<and>
    free_cnt (palloc v) = free_cnt (palloc v') + (if k mod 1024 = 0 then 1 else 0) \<and> v'\<lparr>palloc := palloc v\<rparr> = v"
proof -
  have P: "vm_inv v {pd}" "\<And>j. j < 1024 \<Longrightarrow> tab (pmem (palloc v)) pd j \<noteq> 0 \<longleftrightarrow> 768 \<le> j \<and> (j - 768) * 1024 < k"
    "k mod 1024 \<noteq> 0 \<Longrightarrow> pt = table (pmem (palloc v)) pd i"
    using inv by (simp_all add: loop_inv_def Let_def i_def)
  note w = vm_invD [OF P(1)]
  have i: "i < 1024" "768 \<le> i" "i - 768 = k div 1024" using k by (auto simp: i_def)
  have pd: "pd + 4 * pd_no (kva k) = pd + of_nat (4 * i)" by (simp only: index_address kva(5) [OF k] i_def)
  have wd: "vm_word v (pd + of_nat (4 * i)) = tab (pmem (palloc v)) pd i" by (simp add: tab_def)
  show ?thesis
  proof (cases "k mod 1024 = 0")
    case False
    then have "k div 1024 * 1024 < k" using div_mult_mod_eq [of k 1024] by linarith
    then have nz: "tab (pmem (palloc v)) pd i \<noteq> 0" using P(2) [OF i(1)] i(2,3) by simp
    have "x * 1024 < Suc k \<longleftrightarrow> x * 1024 < k" for x using False by (auto simp: less_Suc_eq)
    then have "\<forall>j < 1024. tab (pmem (palloc v)) pd j \<noteq> 0 \<longleftrightarrow> 768 \<le> j \<and> (j - 768) * 1024 < Suc k" using P(2) by simp
    then show ?thesis
      unfolding pd wd using nz False P(1,3) by (intro exI [of _ pt] exI [of _ v]) simp
  next
    case True
    then have kk: "k div 1024 * 1024 = k" using div_mult_mod_eq [of k 1024] by simp
    then have z: "tab (pmem (palloc v)) pd i = 0" using P(2) [OF i(1)] i(3) by simp
    obtain pt' st where g: "palloc_get_page (PAL_ASSERT OR PAL_ZERO) (palloc v) = Inr (pt', st)" "pt' \<noteq> 0"
      and st: "pools_wf st" "base (kernel_pool st) = base (kernel_pool (palloc v))"
        "\<And>p. kpage_used st p \<longleftrightarrow> kpage_used (palloc v) p \<or> p = pt'" "\<not> kpage_used (palloc v) pt'"
        "pmem st = memset_pages (pmem (palloc v)) pt' 0 4096"
      and c: "free_cnt (palloc v) = Suc (free_cnt st)"
      using must_get_page [OF w(1) f [OF True]] by blast
    have "PHYS_BASE \<le> base (kernel_pool st)" using w(2) st(2) by simp
    then have pt: "pg_ofs pt' = 0" "PHYS_BASE \<le> pt'" using kpage_usedD [OF st(1)] st(3) by blast+
    obtain e where e: "pde_create pt' = Inr e" "entry_page e = pt'" "e AND PTE_P \<noteq> 0" "e \<noteq> 0"
      using pde_create_entry [OF pt] by blast
    have di: "pd \<noteq> init_page_dir v \<and> i < 768 \<or> {pd} = {pd} \<and> 768 \<le> i" using i(2) by simp
    note et = enter_table [OF P(1) _ di i(1) z st e(2-4)]
    let ?v = "put_word (pd + of_nat (4 * i)) e (v\<lparr>palloc := st\<rparr>)"
    have al: "pg_ofs pd = 0" by (rule vm_dir(1) [OF P(1)]) simp
    have ne: "pt' \<noteq> pd" using st(4) w(4) by auto
    have m': "pmem (palloc ?v) = store_word (pd + of_nat (4 * i)) e (memset_pages (pmem (palloc v)) pt' 0 4096)"
      by (simp add: put_word_def st(5))
    have t: "tab (pmem (palloc ?v)) pd j = (if i = j then e else tab (pmem (palloc v)) pd j)" if "j < 1024" for j
      unfolding m' tab_store [OF al al i(1) that] tab_memset [OF pt(1) al that] using ne by simp
    have "x * 1024 < Suc k \<longleftrightarrow> x * 1024 < k \<or> x = k div 1024" for x
      using kk by (metis less_Suc_eq nonzero_mult_div_cancel_right zero_neq_numeral)
    then have "\<forall>j < 1024. tab (pmem (palloc ?v)) pd j \<noteq> 0 \<longleftrightarrow> 768 \<le> j \<and> (j - 768) * 1024 < Suc k"
      using t P(2) e(4) i by auto
    moreover have "free_cnt (palloc ?v) = free_cnt st" "?v\<lparr>palloc := palloc v\<rparr> = v" by (simp_all add: put_word_def free_cnt_def)
    ultimately show ?thesis
      unfolding pd wd using z g e et c True by (intro exI [of _ pt'] exI [of _ ?v]) (simp add: vm_get_page_def)
  qed
qed

text \<open>A round of the loop.\<close>

lemma paging_round:
  assumes inv: "loop_inv ts te pd k pt v" and k: "k < 2 ^ 18" and f: "k mod 1024 = 0 \<Longrightarrow> 0 < free_cnt (palloc v)"
  shows "\<exists>pt' v'. paging_loop (Suc n) k ts te pd pt v = paging_loop n (k + 1) ts te pd pt' v' \<and> loop_inv ts te pd (k + 1) pt' v' \<and>
    free_cnt (palloc v) = free_cnt (palloc v') + (if k mod 1024 = 0 then 1 else 0) \<and> v'\<lparr>palloc := palloc v\<rparr> = v"
proof -
  let ?w = "\<not> (ts \<le> kva k \<and> kva k < te)" and ?i = "768 + k div 1024"
  note kv = kva [OF k]
  obtain pt' v1 where r: "paging_loop (Suc n) k ts te pd pt v = bindE (guardE NullDereference (pt' \<noteq> 0)) (\<lambda>_.
      bindE (pte_create_kernel (kva k) ?w) (\<lambda>e. paging_loop n (k + 1) ts te pd pt' (put_word (pt' + 4 * pt_no (kva k)) e v1)))"
    and v1: "vm_inv v1 {pd}" "tab (pmem (palloc v1)) pd ?i \<noteq> 0" "pt' = table (pmem (palloc v1)) pd ?i"
      "\<And>va. the_pte (pmem (palloc v1)) pd va = the_pte (pmem (palloc v)) pd va"
      "\<And>j. j < 1024 \<Longrightarrow> tab (pmem (palloc v1)) pd j \<noteq> 0 \<longleftrightarrow> 768 \<le> j \<and> (j - 768) * 1024 < Suc k"
      "free_cnt (palloc v) = free_cnt (palloc v1) + (if k mod 1024 = 0 then 1 else 0)" "v1\<lparr>palloc := palloc v\<rparr> = v"
    using table_ready [OF inv k f, of "\<lambda>(pt, v). bindE (guardE NullDereference (pt \<noteq> 0)) (\<lambda>_.
      bindE (pte_create_kernel (kva k) ?w) (\<lambda>e. paging_loop n (k + 1) ts te pd pt (put_word (pt + 4 * pt_no (kva k)) e v)))"]
    by (simp only: paging_loop.simps kv(1) bindE.simps Let_def prod.case) blast
  have i: "?i < 1024" using k by auto
  have nz: "pt' \<noteq> 0" using vm_table(2) [OF v1(1) _ i v1(2)] v1(3) by simp
  obtain e where e: "pte_create_kernel (kva k) ?w = Inr e" "entry_page e = kva k" "e AND PTE_P \<noteq> 0" "(e AND PTE_W \<noteq> 0) = ?w" "e AND PTE_U = 0"
    using pte_create_kernel_entry [OF kv(4,3)] by blast
  have j: "k mod 1024 < 1024" by simp
  have di: "?i < 768 \<or> {pd} = {pd} \<and> ?i < 1024" using i by simp
  note pe = put_entry(1,2,4,6) [OF v1(1) _ di v1(2) j, where w = e, folded v1(3)]
  have a: "pt' + 4 * pt_no (kva k) = pt' + of_nat (4 * (k mod 1024))" by (simp only: index_address kv(6))
  let ?v = "put_word (pt' + of_nat (4 * (k mod 1024))) e v1"
  have "the_pte (pmem (palloc ?v)) pd va = (if pd = pd \<and> unat (pd_no va) = unat (pd_no (kva k)) \<and> unat (pt_no va) = unat (pt_no (kva k))
      then e else the_pte (pmem (palloc v)) pd va)" for va
    using pe(2) [of pd va] v1(4) kv(5,6) by simp
  from translate_put [OF this] have t: "translate (pmem (palloc ?v)) pd va =
      (if pg_no va = pg_no (kva k) then Some (kva k, ?w, False) else translate (pmem (palloc v)) pd va)" for va
    using e by auto
  have old: "kernel_maps ts te pd k (pmem (palloc v))" using inv by (simp add: loop_inv_def Let_def)
  have "kernel_maps ts te pd (k + 1) (pmem (palloc ?v))"
    unfolding kernel_maps_def
  proof
    fix va
    show "translate (pmem (palloc ?v)) pd va = (if \<not> is_user_vaddr va \<and> kpage_of va < k + 1
        then Some (pg_round_down va, \<not> (ts \<le> pg_round_down va \<and> pg_round_down va < te), False) else None)"
    proof (cases "pg_no va = pg_no (kva k)")
      case True
      then have u: "\<not> is_user_vaddr va" "kpage_of va = k" using same_kpage [OF k] by auto
      then have "kva k = pg_round_down va" using kernel_page_of(2) [of va] by simp
      then show ?thesis unfolding t u(2) using u(1) True by (simp only: if_True simp_thms less_add_one)
    next
      case False
      then have "is_user_vaddr va \<or> kpage_of va \<noteq> k" using same_kpage [OF k, of va] by blast
      then have "(\<not> is_user_vaddr va \<and> kpage_of va < k + 1) = (\<not> is_user_vaddr va \<and> kpage_of va < k)" by linarith
      then show ?thesis unfolding t old [unfolded kernel_maps_def, rule_format] using False by (simp only: if_False)
    qed
  qed
  moreover have "pt' = table (pmem (palloc ?v)) pd (768 + (k + 1) div 1024)" if "(k + 1) mod 1024 \<noteq> 0"
  proof -
    have "(k + 1) div 1024 = k div 1024" using that by (simp add: div_Suc)
    then show ?thesis using v1(3) pe(3) by simp
  qed
  moreover have "tab (pmem (palloc ?v)) pd j = tab (pmem (palloc v1)) pd j" if "j < 1024" for j using pe(4) that by simp
  ultimately have "loop_inv ts te pd (k + 1) pt' ?v"
    unfolding loop_inv_def Let_def using pe(1) v1(5) by simp
  moreover have "free_cnt (palloc ?v) = free_cnt (palloc v1)" "?v\<lparr>palloc := palloc v\<rparr> = v"
    using v1(7) by (simp_all add: put_word_def free_cnt_def)
  ultimately show ?thesis
    unfolding r a using nz e(1) v1(6) by (intro exI [of _ pt'] exI [of _ ?v]) simp
qed

text \<open>All rounds.\<close>

lemma paging_rounds:
  assumes "loop_inv ts te pd k pt v" "k + n \<le> 2 ^ 18" "(k + n + 1023) div 1024 - (k + 1023) div 1024 \<le> free_cnt (palloc v)"
  shows "\<exists>pt' v'. paging_loop n k ts te pd pt v = Inr v' \<and> loop_inv ts te pd (k + n) pt' v' \<and> v'\<lparr>palloc := palloc v\<rparr> = v"
  using assms
proof (induction n arbitrary: k pt v)
  case 0
  then show ?case by auto
next
  case (Suc n)
  have "(k + 1023) div 1024 < (k + Suc n + 1023) div 1024" if "k mod 1024 = 0"
  proof -
    have "k = k div 1024 * 1024" using that div_mult_mod_eq [of k 1024] by simp
    then have "(k + 1023) div 1024 = k div 1024" "k div 1024 + 1 \<le> (k + Suc n + 1023) div 1024" by linarith+
    then show ?thesis by simp
  qed
  then have f: "0 < free_cnt (palloc v)" if "k mod 1024 = 0" using Suc.prems(3) that by simp
  have k: "k < 2 ^ 18" using Suc.prems(2) by simp
  obtain pt' v' where r: "paging_loop (Suc n) k ts te pd pt v = paging_loop n (k + 1) ts te pd pt' v'" "loop_inv ts te pd (k + 1) pt' v'"
    "free_cnt (palloc v) = free_cnt (palloc v') + (if k mod 1024 = 0 then 1 else 0)" "v'\<lparr>palloc := palloc v\<rparr> = v"
    using paging_round [OF Suc.prems(1) k f] by blast
  have "(k + 1 + 1023) div 1024 = (k + 1023) div 1024 + (if k mod 1024 = 0 then 1 else 0)"
    using div_Suc [of "k + 1023" 1024] by simp
  then have "(k + 1 + n + 1023) div 1024 - (k + 1 + 1023) div 1024 \<le> free_cnt (palloc v')"
    using Suc.prems(3) r(3) by (simp split: if_splits)
  moreover have "k + 1 + n \<le> 2 ^ 18" using Suc.prems(2) by simp
  ultimately obtain pt2 v2 where v2: "paging_loop n (k + 1) ts te pd pt' v' = Inr v2" "loop_inv ts te pd (k + 1 + n) pt2 v2"
    "v2\<lparr>palloc := palloc v'\<rparr> = v'"
    using Suc.IH [OF r(2)] by blast
  have "v2\<lparr>palloc := palloc v\<rparr> = v" using v2(3) r(4) by (metis vm.surjective vm.update_convs(1))
  then show ?case using r(1) v2(1,2) by (intro exI [of _ pt2] exI [of _ v2]) simp
qed

section \<open>The first directory\<close>

text \<open>A page that has just been taken and zeroed, as the only directory.\<close>

lemma fresh_directory:
  assumes "pools_wf st" "PHYS_BASE \<le> base (kernel_pool st)" "kpage_used st pd" "pmem st = memset_pages m pd 0 4096"
  shows "loop_inv ts te pd 0 0 (v\<lparr>palloc := st, init_page_dir := pd\<rparr>)"
proof -
  have al: "pg_ofs pd = 0" by (rule kpage_usedD(1) [OF assms(1-3)])
  have t: "tab (pmem st) pd i = 0" if "i < 1024" for i using tab_memset [OF al al that] by (simp add: assms(4))
  have tr: "translate (pmem st) pd va = None" for va by (simp add: translate_def the_pte_def t index_bounds(1))
  have "vm_inv (v\<lparr>palloc := st, init_page_dir := pd\<rparr>) {pd}"
    using assms(1-3) by (auto simp: vm_inv_def Let_def t)
  then show ?thesis by (simp add: loop_inv_def kernel_maps_def Let_def t tr)
qed

lemma paging_init_maps:
  assumes "pools_wf (palloc v)" "PHYS_BASE \<le> base (kernel_pool (palloc v))" "unat (ram_pages v) \<le> 2 ^ 18"
    and "(unat (ram_pages v) + 1023) div 1024 < free_cnt (palloc v)"
  shows "\<exists>v'. paging_init ts te v = Inr v' \<and> vm_inv v' {init_page_dir v'} \<and> active_pd v' = Inr (init_page_dir v') \<and>
    tlb_flushes v' = tlb_flushes v + 1 \<and> kernel_maps ts te (init_page_dir v') (unat (ram_pages v)) (pmem (palloc v'))"
proof -
  let ?n = "unat (ram_pages v)"
  have "0 < free_cnt (palloc v)" using assms(4) by simp
  then obtain pd st where g: "palloc_get_page (PAL_ASSERT OR PAL_ZERO) (palloc v) = Inr (pd, st)" "pools_wf st"
    "base (kernel_pool st) = base (kernel_pool (palloc v))" "kpage_used st pd" "pmem st = memset_pages (pmem (palloc v)) pd 0 4096"
    "free_cnt (palloc v) = Suc (free_cnt st)"
    using must_get_page [OF assms(1)] by metis
  let ?v = "v\<lparr>palloc := st, init_page_dir := pd\<rparr>"
  have b: "PHYS_BASE \<le> base (kernel_pool st)" using assms(2) g(3) by simp
  have "loop_inv ts te pd 0 0 ?v" by (rule fresh_directory [OF g(2) b g(4,5)])
  moreover have "0 + ?n \<le> 2 ^ 18" "(0 + ?n + 1023) div 1024 - (0 + 1023) div 1024 \<le> free_cnt (palloc ?v)"
    using assms(3,4) g(6) by simp_all
  ultimately obtain pt v' where v': "paging_loop ?n 0 ts te pd 0 ?v = Inr v'" "loop_inv ts te pd (0 + ?n) pt v'" "v'\<lparr>palloc := palloc ?v\<rparr> = ?v"
    using paging_rounds by blast
  have inv: "vm_inv v' {pd}" "kernel_maps ts te pd ?n (pmem (palloc v'))" using v'(2) by (simp_all add: loop_inv_def Let_def)
  have f: "init_page_dir v' = pd" "tlb_flushes v' = tlb_flushes v"
    using arg_cong [OF v'(3), of init_page_dir] arg_cong [OF v'(3), of tlb_flushes] by simp_all
  have pd: "PHYS_BASE \<le> pd" using vm_dir(2) [OF inv(1)] by simp
  let ?w = "v'\<lparr>cr3 := pd - PHYS_BASE, tlb_flushes := tlb_flushes v' + 1\<rparr>"
  have "paging_init ts te v = Inr ?w"
    using g(1) v'(1) by (simp add: paging_init_def vm_get_page_def vtop_kernel [OF pd] f(1))
  moreover have "active_pd ?w = Inr pd"
  proof -
    have "unat (pd - PHYS_BASE) = unat pd - unat PHYS_BASE" by (rule unat_sub [OF pd])
    moreover have "unat pd < 2 ^ 32" using unsigned_less [of pd, where ?'a = nat] by simp
    moreover have "unat PHYS_BASE = 3221225472" by (simp add: PHYS_BASE_def)
    ultimately have "pd - PHYS_BASE < PHYS_BASE" by (simp add: word_less_nat_alt)
    then show ?thesis by (simp add: active_pd_def ptov_def)
  qed
  moreover have "vm_inv ?w {pd}" using inv(1) by (simp add: vm_inv_def)
  ultimately show ?thesis using inv(2) f by (intro exI [of _ ?w]) simp
qed

end
