(* ===== verification/Pintos_Pagedir_Properties.thy ===== *)
theory Pintos_Pagedir_Properties
  imports Pintos_Pagedir_Destroy Pintos_Paging_Init
begin

unbundle bit_operations_syntax

text \<open>
  The properties of page directories: what the operations do to the translation of addresses, in the
  directory they are called for and in all others.
\<close>

section \<open>A sample memory\<close>

text \<open>Eight pages in each pool; the first two of the kernel's are directories, the first one the kernel's own, and all of memory is 0.\<close>

definition sample_vm :: vm where
  "sample_vm = \<lparr>palloc = \<lparr>kernel_pool = \<lparr>used_map = \<lparr>bit_cnt = 8, bits = [3]\<rparr>, base = 0xc0100000\<rparr>,
       user_pool = \<lparr>used_map = \<lparr>bit_cnt = 8, bits = [1]\<rparr>, base = 0xc0200000\<rparr>, pmem = \<lambda>_. 0\<rparr>,
     init_page_dir = 0xc0100000, ram_pages = 1024, cr3 = 0x100000, tlb_flushes = 0\<rparr>"

lemma sample_tab: "tab (pmem (palloc sample_vm)) p i = 0" "translate (pmem (palloc sample_vm)) p va = None"
  by (simp_all add: tab_bytes byte_of_def bytes_word_def sample_vm_def translate_def the_pte_def)

lemma sample_vm_inv: "vm_inv sample_vm {0xc0100000, 0xc0101000}"
proof -
  have "kpage_used (palloc sample_vm) 0xc0100000"
    unfolding kpage_used_def by (rule exI [of _ 0]) (simp add: sample_vm_def bmap_def page_at_def)
  moreover have "kpage_used (palloc sample_vm) 0xc0101000"
    unfolding kpage_used_def by (rule exI [of _ 1]) (simp add: sample_vm_def bmap_def page_at_def PGSIZE_def)
  moreover have "pools_wf (palloc sample_vm)"
    by (simp add: sample_vm_def pools_wf_def pool_wf_def bitmap_wf_def)
  moreover have "PHYS_BASE \<le> base (kernel_pool (palloc sample_vm))" "init_page_dir sample_vm = 0xc0100000"
    by (simp_all add: sample_vm_def PHYS_BASE_def)
  ultimately show ?thesis by (simp add: vm_inv_def Let_def sample_tab)
qed

text \<open>There is a free page, so a table can be made.\<close>

lemma sample_free: "False \<in> set (bmap (used_map (kernel_pool (palloc sample_vm))))"
proof -
  have "bmap (used_map (kernel_pool (palloc sample_vm))) ! 2 = False" "2 < length (bmap (used_map (kernel_pool (palloc sample_vm))))"
    by (simp_all add: sample_vm_def bmap_def)
  then show ?thesis by (metis nth_mem)
qed

text \<open>The user page 0x8048000 and the frame 0xc0200000.\<close>

lemma sample_pages:
  "pg_ofs 0x8048000 = 0" "is_user_vaddr 0x8048000" "pg_ofs 0xc0200000 = 0" "PHYS_BASE \<le> 0xc0200000" "cr3 sample_vm < PHYS_BASE"
  "drop_bit 12 (0xc0200000 - PHYS_BASE) < ram_pages sample_vm" "init_page_dir sample_vm = 0xc0100000"
  by (simp_all add: pg_ofs_def PGMASK_def is_user_vaddr_def PHYS_BASE_def sample_vm_def)

section \<open>Mapping pages\<close>

text \<open>The sample with the page mapped.\<close>

lemma sample_mapped:
  "\<exists>v. vm_inv v {0xc0100000, 0xc0101000} \<and> cr3 v < PHYS_BASE \<and> init_page_dir v = 0xc0100000 \<and> user_pool (palloc v) = user_pool (palloc sample_vm) \<and>
    (\<forall>va. translate (pmem (palloc v)) 0xc0101000 va = (if pg_no va = pg_no 0x8048000 then Some (0xc0200000, True, True) else None))"
proof -
  obtain r v where v: "vm_inv v {0xc0100000, 0xc0101000}" "v\<lparr>palloc := palloc sample_vm\<rparr> = sample_vm"
    "user_pool (palloc v) = user_pool (palloc sample_vm)"
    "if r then \<forall>d' \<in> {0xc0100000, 0xc0101000}. \<forall>va. translate (pmem (palloc v)) d' va =
       (if d' = 0xc0101000 \<and> pg_no va = pg_no 0x8048000 then Some (0xc0200000, True, True) else translate (pmem (palloc sample_vm)) d' va)
     else v = sample_vm \<and> False \<notin> set (bmap (used_map (kernel_pool (palloc sample_vm))))"
    using set_page_translates [OF sample_vm_inv, of "0xc0101000" "0x8048000" "0xc0200000" True] sample_pages sample_tab(2) by auto
  have "cr3 v = cr3 sample_vm" "init_page_dir v = init_page_dir sample_vm" using v(2) by (cases v; simp add: sample_vm_def)+
  moreover have "r" using v(4) sample_free by (cases r) auto
  ultimately show ?thesis using v sample_pages(5,7) by (intro exI [of _ v]) (simp add: sample_tab(2))
qed

text \<open>C11: \<open>pagedir_set_page\<close> for a page that is not mapped maps it to the frame, for user programs, and
  writable as asked, and changes no other translation, of this directory or of another. It returns false only
  when the kernel's pool has no page for a table, and then nothing has changed. The invariant is kept.\<close>

theorem pagedir_set_page_maps:
  assumes "vm_inv v D" "d \<in> D" "d \<noteq> init_page_dir v" "pg_ofs upage = 0" "is_user_vaddr upage" "pg_ofs kpage = 0" "PHYS_BASE \<le> kpage"
    and "drop_bit 12 (kpage - PHYS_BASE) < ram_pages v" "translate (pmem (palloc v)) d upage = None"
  shows "\<exists>r v'. pagedir_set_page d upage kpage w v = Inr (r, v') \<and> vm_inv v' D \<and> v'\<lparr>palloc := palloc v\<rparr> = v \<and>
    (if r then \<forall>d' \<in> D. \<forall>va. translate (pmem (palloc v')) d' va =
       (if d' = d \<and> pg_no va = pg_no upage then Some (kpage, w, True) else translate (pmem (palloc v)) d' va)
     else v' = v \<and> False \<notin> set (bmap (used_map (kernel_pool (palloc v)))))"
  using set_page_translates [OF assms, of w] by blast
lemma pagedir_set_page_maps_witness:
  "\<exists>v'. pagedir_set_page 0xc0101000 0x8048000 0xc0200000 True sample_vm = Inr (True, v') \<and>
    translate (pmem (palloc v')) 0xc0101000 0x8048000 = Some (0xc0200000, True, True) \<and>
    translate (pmem (palloc v')) 0xc0100000 0x8048000 = None"
proof -
  obtain r v' where v': "pagedir_set_page 0xc0101000 0x8048000 0xc0200000 True sample_vm = Inr (r, v')"
    "if r then \<forall>d' \<in> {0xc0100000, 0xc0101000}. \<forall>va. translate (pmem (palloc v')) d' va =
       (if d' = 0xc0101000 \<and> pg_no va = pg_no 0x8048000 then Some (0xc0200000, True, True) else translate (pmem (palloc sample_vm)) d' va)
     else v' = sample_vm \<and> False \<notin> set (bmap (used_map (kernel_pool (palloc sample_vm))))"
    using pagedir_set_page_maps [OF sample_vm_inv, of "0xc0101000" "0x8048000" "0xc0200000" True] sample_pages sample_tab(2) by auto
  then have "r" using sample_free by (cases r) auto
  then show ?thesis using v' by (auto simp: sample_tab(2))
qed

text \<open>\<open>pagedir_get_page\<close> is the translation: the address in the frame for an address that is mapped, NULL for one that is
  not, and the state is as before.\<close>

theorem pagedir_get_page_translates:
  assumes "vm_inv v D" "d \<in> D" "is_user_vaddr ua"
    and "\<And>p w u. translate (pmem (palloc v)) d ua = Some (p, w, u) \<Longrightarrow> PHYS_BASE \<le> p"
  shows "pagedir_get_page d ua v = Inr (case translate (pmem (palloc v)) d ua of None \<Rightarrow> 0 | Some (p, w, u) \<Rightarrow> p + pg_ofs ua, v)"
proof -
  let ?m = "pmem (palloc v)" and ?i = "unat (pd_no ua)"
  show ?thesis
  proof (cases "tab ?m d ?i = 0")
    case True
    then have "translate ?m d ua = None" by (simp add: translate_def the_pte_def Let_def)
    then show ?thesis using assms(3) lookup_page_finds [OF assms(1,2)] True by (simp add: pagedir_get_page_def)
  next
    case False
    note pe = put_entry(3,5) [OF assms(1,2) disjI1 [OF index_bounds(3) [OF assms(3)]] False index_bounds(2) [of ua]]
    have e: "vm_word v (table ?m d ?i + of_nat (4 * unat (pt_no ua))) = the_pte ?m d ua"
      using False pe(1) by (simp add: the_pte_def Let_def)
    have run: "pagedir_get_page d ua v = (if the_pte ?m d ua AND PTE_P \<noteq> 0 then
        bindE (pte_get_page (the_pte ?m d ua)) (\<lambda>page. Inr (page + pg_ofs ua, v)) else Inr (0, v))"
      using assms(3) lookup_page_finds [OF assms(1,2)] False pe(2) e by (simp add: pagedir_get_page_def)
    show ?thesis
    proof (cases "the_pte ?m d ua AND PTE_P = 0")
      case True
      then show ?thesis using run by (simp add: translate_def Let_def)
    next
      case False
      then have t: "translate ?m d ua = Some (entry_page (the_pte ?m d ua), the_pte ?m d ua AND PTE_W \<noteq> 0, the_pte ?m d ua AND PTE_U \<noteq> 0)"
        by (simp add: translate_def Let_def)
      then show ?thesis using run False ptov_address [OF assms(4) [OF t]] by (simp add: pte_get_page_def)
    qed
  qed
qed

lemma pagedir_get_page_translates_witness:
  "\<exists>v. vm_inv v {0xc0100000, 0xc0101000} \<and> pagedir_get_page 0xc0101000 0x8048123 v = Inr (0xc0200123, v) \<and>
    pagedir_get_page 0xc0101000 0x8049000 v = Inr (0, v)"
proof -
  obtain v where v: "vm_inv v {0xc0100000, 0xc0101000}"
    "\<And>va. translate (pmem (palloc v)) 0xc0101000 va = (if pg_no va = pg_no 0x8048000 then Some (0xc0200000, True, True) else None)"
    using sample_mapped by blast
  have "is_user_vaddr 0x8048123" "is_user_vaddr 0x8049000" "pg_ofs 0x8048123 = 0x123" "pg_no 0x8048123 = pg_no 0x8048000"
    "pg_no 0x8049000 \<noteq> pg_no 0x8048000"
    by (simp_all add: is_user_vaddr_def PHYS_BASE_def pg_ofs_def PGMASK_def pg_no_def PGBITS_def)
  then show ?thesis
    using pagedir_get_page_translates [OF v(1), of "0xc0101000" "0x8048123"] pagedir_get_page_translates [OF v(1), of "0xc0101000" "0x8049000"]
      v sample_pages(4) by (intro exI [of _ v]) (auto split: if_splits)
qed

section \<open>Changing entries\<close>

lemma the_pte_page: "pg_no va = pg_no ua \<Longrightarrow> the_pte m d va = the_pte m d ua"
  using same_page [of va ua] by (simp add: the_pte_def Let_def)

text \<open>The entry of a user address, when there is a table for it, and what writing it does.\<close>

lemma entry_update:
  assumes "vm_inv v D" "d \<in> D" "is_user_vaddr va" "tab (pmem (palloc v)) d (unat (pd_no va)) \<noteq> 0"
  defines "m \<equiv> pmem (palloc v)"
  shows "\<exists>pte. lookup_page d va False v = Inr (pte, v) \<and> pte \<noteq> 0 \<and> vm_word v pte = the_pte m d va \<and>
    (\<forall>w. vm_inv (put_word pte w v) D \<and>
       (\<forall>d' \<in> D. \<forall>va'. the_pte (pmem (palloc (put_word pte w v))) d' va' = (if d' = d \<and> pg_no va' = pg_no va then w else the_pte m d' va')))"
proof -
  note at = assms(1,2) disjI1 [OF index_bounds(3) [OF assms(3)]] assms(4) index_bounds(2) [of va]
  let ?a = "table m d (unat (pd_no va)) + of_nat (4 * unat (pt_no va))"
  have s: "unat (pd_no va') = unat (pd_no va) \<and> unat (pt_no va') = unat (pt_no va) \<longleftrightarrow> pg_no va' = pg_no va" for va'
    using same_page [of va' va] unfolding word_unat_eq_iff by simp
  have "lookup_page d va False v = Inr (?a, v)" using lookup_page_finds [OF assms(1,2)] assms(4) by (simp add: m_def)
  moreover have "?a \<noteq> 0" unfolding m_def by (rule put_entry(5) [OF at])
  moreover have "vm_word v ?a = the_pte m d va" using put_entry(3) [OF at] assms(4) by (simp add: the_pte_def Let_def m_def)
  moreover have "vm_inv (put_word ?a w v) D" for w unfolding m_def by (rule put_entry(1) [OF at])
  moreover have "the_pte (pmem (palloc (put_word ?a w v))) d' va' = (if d' = d \<and> pg_no va' = pg_no va then w else the_pte m d' va')"
    if "d' \<in> D" for w d' va'
    using put_entry(2) [OF at that, where w = w] s [of va'] unfolding m_def by simp
  ultimately show ?thesis by blast
qed

lemma no_entry:
  assumes "vm_inv v D" "d \<in> D" "tab (pmem (palloc v)) d (unat (pd_no va)) = 0"
  shows "lookup_page d va False v = Inr (0, v)" "the_pte (pmem (palloc v)) d va = 0"
  using lookup_page_finds [OF assms(1,2)] assms(3) by (simp_all add: the_pte_def)

text \<open>Emptying the translation cache changes no memory.\<close>

definition flushed :: "word_t \<Rightarrow> vm \<Rightarrow> vm" where
  "flushed d v = (if cr3 v + PHYS_BASE = d then v\<lparr>tlb_flushes := tlb_flushes v + 1\<rparr> else v)"

lemma invalidate_ok:
  assumes "cr3 v < PHYS_BASE" "PHYS_BASE \<le> d"
  shows "invalidate_pagedir d v = Inr (flushed d v)"
proof -
  have "d \<noteq> 0" using assms(2) by (auto simp: PHYS_BASE_def)
  then show ?thesis
    using assms by (auto simp: invalidate_pagedir_def active_pd_def ptov_def pagedir_activate_def vtop_kernel flushed_def)
qed

lemma flushed_inv [simp]: "vm_inv (flushed d v) D = vm_inv v D" "palloc (flushed d v) = palloc v"
  "tlb_flushes (flushed d v) = (if cr3 v + PHYS_BASE = d then tlb_flushes v + 1 else tlb_flushes v)"
  by (simp_all add: flushed_def vm_inv_def)

lemma put_word_fields [simp]: "cr3 (put_word a w v) = cr3 v" "tlb_flushes (put_word a w v) = tlb_flushes v"
  by (simp_all add: put_word_def)

text \<open>C21: \<open>pagedir_clear_page\<close> removes the translation of the page and of no other, in this directory or another, and keeps
  the dirty and accessed bits of its entry. When the directory is the active one and the page was mapped,
  the translation cache is emptied.\<close>

theorem pagedir_clear_page_unmaps:
  assumes "vm_inv v D" "d \<in> D" "pg_ofs upage = 0" "is_user_vaddr upage" "cr3 v < PHYS_BASE"
  shows "\<exists>v'. pagedir_clear_page d upage v = Inr v' \<and> vm_inv v' D \<and>
    (\<forall>d' \<in> D. \<forall>va. translate (pmem (palloc v')) d' va =
      (if d' = d \<and> pg_no va = pg_no upage then None else translate (pmem (palloc v)) d' va)) \<and>
    the_pte (pmem (palloc v')) d upage = the_pte (pmem (palloc v)) d upage AND NOT PTE_P \<and>
    (cr3 v + PHYS_BASE = d \<and> translate (pmem (palloc v)) d upage \<noteq> None \<longrightarrow> tlb_flushes v' = tlb_flushes v + 1)"
proof (cases "the_pte (pmem (palloc v)) d upage AND PTE_P = 0")
  case True
  then have t: "translate (pmem (palloc v)) d upage = None" by (simp add: translate_def Let_def)
  have same: "translate (pmem (palloc v)) d va = None" if "pg_no va = pg_no upage" for va
    using t by (simp add: translate_def the_pte_page [OF that])
  have np: "the_pte (pmem (palloc v)) d upage AND NOT PTE_P = the_pte (pmem (palloc v)) d upage"
    using True by (auto simp: word_eq_bits bit_simps)
  have "pagedir_clear_page d upage v = Inr v"
  proof (cases "tab (pmem (palloc v)) d (unat (pd_no upage)) = 0")
    case True
    then show ?thesis using assms(3,4) no_entry(1) [OF assms(1,2) True] by (simp add: pagedir_clear_page_def)
  next
    case False
    then obtain pte where "lookup_page d upage False v = Inr (pte, v)" "vm_word v pte = the_pte (pmem (palloc v)) d upage"
      using entry_update [OF assms(1,2,4) False] by blast
    then show ?thesis using assms(3,4) True by (simp add: pagedir_clear_page_def)
  qed
  then show ?thesis using assms(1) t same np by (intro exI [of _ v]) simp
next
  case False
  then have tb: "tab (pmem (palloc v)) d (unat (pd_no upage)) \<noteq> 0" by (auto simp: the_pte_def)
  let ?e = "the_pte (pmem (palloc v)) d upage"
  obtain pte where p: "lookup_page d upage False v = Inr (pte, v)" "pte \<noteq> 0" "vm_word v pte = ?e" "\<And>w. vm_inv (put_word pte w v) D"
    "\<And>w d' va'. d' \<in> D \<Longrightarrow> the_pte (pmem (palloc (put_word pte w v))) d' va' =
       (if d' = d \<and> pg_no va' = pg_no upage then w else the_pte (pmem (palloc v)) d' va')"
    using entry_update [OF assms(1,2,4) tb] by blast
  let ?v = "put_word pte (?e AND NOT PTE_P) v"
  have "pagedir_clear_page d upage v = Inr (flushed d ?v)"
    using assms(3,4,5) p(1-3) False invalidate_ok [of ?v d] vm_dir(2) [OF assms(1,2)] by (simp add: pagedir_clear_page_def)
  moreover have "translate (pmem (palloc ?v)) d' va = (if d' = d \<and> pg_no va = pg_no upage then None else translate (pmem (palloc v)) d' va)"
    if "d' \<in> D" for d' va
    unfolding translate_def Let_def p(5) [OF that] using set_flag(5) [of PTE_P ?e] by simp
  ultimately show ?thesis
    using p(4) p(5) [OF assms(2)] by (intro exI [of _ "flushed d ?v"]) simp
qed

lemma pagedir_clear_page_unmaps_witness:
  "\<exists>v v'. vm_inv v {0xc0100000, 0xc0101000} \<and> translate (pmem (palloc v)) 0xc0101000 0x8048000 = Some (0xc0200000, True, True) \<and>
    pagedir_clear_page 0xc0101000 0x8048000 v = Inr v' \<and> translate (pmem (palloc v')) 0xc0101000 0x8048000 = None"
proof -
  obtain v where v: "vm_inv v {0xc0100000, 0xc0101000}" "cr3 v < PHYS_BASE"
    "translate (pmem (palloc v)) 0xc0101000 0x8048000 = Some (0xc0200000, True, True)"
    using sample_mapped by auto
  obtain v' where "pagedir_clear_page 0xc0101000 0x8048000 v = Inr v'" "translate (pmem (palloc v')) 0xc0101000 0x8048000 = None"
    using pagedir_clear_page_unmaps [OF v(1), of "0xc0101000" "0x8048000"] v(2) sample_pages(1,2) by auto
  then show ?thesis using v by blast
qed

text \<open>The bits of a page's entry, and what the functions that read them return.\<close>

abbreviation dirty :: "vm \<Rightarrow> word_t \<Rightarrow> word_t \<Rightarrow> bool" where "dirty v d va \<equiv> the_pte (pmem (palloc v)) d va AND PTE_D \<noteq> 0"
abbreviation accessed :: "vm \<Rightarrow> word_t \<Rightarrow> word_t \<Rightarrow> bool" where "accessed v d va \<equiv> the_pte (pmem (palloc v)) d va AND PTE_A \<noteq> 0"

lemma flags_read:
  assumes "vm_inv v D" "d \<in> D" "is_user_vaddr va"
  shows "pagedir_is_dirty d va v = Inr (dirty v d va, v)" "pagedir_is_accessed d va v = Inr (accessed v d va, v)"
proof -
  have "pagedir_is_dirty d va v = Inr (dirty v d va, v) \<and> pagedir_is_accessed d va v = Inr (accessed v d va, v)"
  proof (cases "tab (pmem (palloc v)) d (unat (pd_no va)) = 0")
    case True
    show ?thesis by (simp add: pagedir_is_dirty_def pagedir_is_accessed_def no_entry [OF assms(1,2) True])
  next
    case False
    then show ?thesis using entry_update [OF assms False] by (auto simp: pagedir_is_dirty_def pagedir_is_accessed_def)
  qed
  then show "pagedir_is_dirty d va v = Inr (dirty v d va, v)" "pagedir_is_accessed d va v = Inr (accessed v d va, v)" by auto
qed

text \<open>Setting or clearing one flag \<open>f\<close> of the entry.\<close>

lemma flag_written:
  assumes "vm_inv v D" "d \<in> D" "is_user_vaddr va" "cr3 v < PHYS_BASE" and f: "f AND PTE_ADDR = 0" "f \<noteq> 0"
  shows "\<exists>v'. bindE (lookup_page d va False v) (\<lambda>(pte, v).
      if pte \<noteq> 0 then
        if b then Inr (put_word pte (vm_word v pte OR f) v)
        else invalidate_pagedir d (put_word pte (vm_word v pte AND NOT f) v)
      else Inr v) = Inr v' \<and> vm_inv v' D \<and>
    (\<forall>d' \<in> D. \<forall>va'. entry_page (the_pte (pmem (palloc v')) d' va') = entry_page (the_pte (pmem (palloc v)) d' va')) \<and>
    (\<forall>g. f AND g = 0 \<longrightarrow> (\<forall>d' \<in> D. \<forall>va'. the_pte (pmem (palloc v')) d' va' AND g = the_pte (pmem (palloc v)) d' va' AND g)) \<and>
    (\<forall>d' \<in> D. \<forall>va'. (the_pte (pmem (palloc v')) d' va' AND f \<noteq> 0) =
       (if d' = d \<and> pg_no va' = pg_no va then b \<and> tab (pmem (palloc v)) d (unat (pd_no va)) \<noteq> 0
        else the_pte (pmem (palloc v)) d' va' AND f \<noteq> 0))"
proof (cases "tab (pmem (palloc v)) d (unat (pd_no va)) = 0")
  case True
  have z: "the_pte (pmem (palloc v)) d va' = 0" if "pg_no va' = pg_no va" for va'
    using no_entry(2) [OF assms(1,2) True] the_pte_page [OF that] by simp
  then have "the_pte (pmem (palloc v)) d va = 0" by simp
  with z show ?thesis
    using assms(1) True unfolding no_entry(1) [OF assms(1,2) True] by (intro exI [of _ v] conjI) simp_all
next
  case False
  let ?e = "the_pte (pmem (palloc v)) d va"
  let ?w = "if b then ?e OR f else ?e AND NOT f"
  obtain pte where p: "lookup_page d va False v = Inr (pte, v)" "pte \<noteq> 0" "vm_word v pte = ?e" "\<And>w. vm_inv (put_word pte w v) D"
    "\<And>w d' va'. d' \<in> D \<Longrightarrow> the_pte (pmem (palloc (put_word pte w v))) d' va' =
       (if d' = d \<and> pg_no va' = pg_no va then w else the_pte (pmem (palloc v)) d' va')"
    using entry_update [OF assms(1-3) False] by blast
  have same: "the_pte (pmem (palloc v)) d va' = ?e" if "pg_no va' = pg_no va" for va'
    by (rule the_pte_page [OF that])
  define v' where "v' = (if b then put_word pte ?w v else flushed d (put_word pte ?w v))"
  have run: "bindE (lookup_page d va False v) (\<lambda>(pte, v).
      if pte \<noteq> 0 then
        if b then Inr (put_word pte (vm_word v pte OR f) v)
        else invalidate_pagedir d (put_word pte (vm_word v pte AND NOT f) v)
      else Inr v) = Inr v'"
    using p(1-3) assms(4) invalidate_ok [of _ d] vm_dir(2) [OF assms(1,2)] by (simp add: v'_def)
  have inv: "vm_inv v' D" using p(4) by (simp add: v'_def)
  have e: "the_pte (pmem (palloc v')) d' va' = (if d' = d \<and> pg_no va' = pg_no va then ?w else the_pte (pmem (palloc v)) d' va')"
    if "d' \<in> D" for d' va'
    using p(5) [OF that, of ?w] by (cases b) (simp_all add: v'_def)
  note sf = set_flag [OF f(1), where e = ?e]
  define w where "w = ?w"
  have w: "entry_page w = entry_page ?e" "\<And>g. f AND g = 0 \<Longrightarrow> w AND g = ?e AND g" "(w AND f \<noteq> 0) = b"
    using sf f(2) by (simp_all add: w_def)
  note e = e [folded w_def]
  have parts: "entry_page (the_pte (pmem (palloc v')) d' va') = entry_page (the_pte (pmem (palloc v)) d' va') \<and>
    (f AND g = 0 \<longrightarrow> the_pte (pmem (palloc v')) d' va' AND g = the_pte (pmem (palloc v)) d' va' AND g) \<and>
    (the_pte (pmem (palloc v')) d' va' AND f \<noteq> 0) =
       (if d' = d \<and> pg_no va' = pg_no va then b else the_pte (pmem (palloc v)) d' va' AND f \<noteq> 0)" if d': "d' \<in> D" for d' va' g
  proof (cases "d' = d \<and> pg_no va' = pg_no va")
    case True
    have "the_pte (pmem (palloc v')) d' va' = w" using e [OF d', of va'] True by (simp only: if_True simp_thms)
    moreover have "the_pte (pmem (palloc v)) d' va' = ?e" using True same [of va'] by (elim conjE) (simp only:)
    moreover have "f AND g = 0 \<longrightarrow> w AND g = ?e AND g" using w(2) by blast
    moreover note w(1,3)
    ultimately show ?thesis using True by (simp only: if_True simp_thms)
  next
    case False
    then have "the_pte (pmem (palloc v')) d' va' = the_pte (pmem (palloc v)) d' va'" using e [OF d'] by (simp only: if_False)
    then show ?thesis using False by (simp only: if_False simp_thms)
  qed
  show ?thesis
    unfolding run using inv False parts by (intro exI [of _ v'] conjI ballI allI impI refl) (simp_all only: simp_thms)
qed

lemma translate_cong:
  assumes "entry_page (the_pte m' d va) = entry_page (the_pte m d va)" "\<And>g. g \<in> {PTE_P, PTE_W, PTE_U} \<Longrightarrow> the_pte m' d va AND g = the_pte m d va AND g"
  shows "translate m' d va = translate m d va"
  using assms by (simp add: translate_def Let_def)

text \<open>The dirty and the accessed bit of a page are set and cleared as asked, each without the
  other, and no translation and no other page's bits change. A page without an entry has neither.\<close>

theorem page_flags_independent:
  assumes "vm_inv v D" "d \<in> D" "is_user_vaddr va" "cr3 v < PHYS_BASE"
  defines "has_table \<equiv> tab (pmem (palloc v)) d (unat (pd_no va)) \<noteq> 0"
  shows "(\<exists>v'. pagedir_set_dirty d va b v = Inr v' \<and> vm_inv v' D \<and>
    (\<forall>d' \<in> D. \<forall>va'. translate (pmem (palloc v')) d' va' = translate (pmem (palloc v)) d' va' \<and>
       (is_user_vaddr va' \<longrightarrow> pagedir_is_dirty d' va' v' = Inr (if d' = d \<and> pg_no va' = pg_no va then b \<and> has_table else dirty v d' va', v') \<and>
          pagedir_is_accessed d' va' v' = Inr (accessed v d' va', v')))) \<and>
    (\<exists>v'. pagedir_set_accessed d va b v = Inr v' \<and> vm_inv v' D \<and>
    (\<forall>d' \<in> D. \<forall>va'. translate (pmem (palloc v')) d' va' = translate (pmem (palloc v)) d' va' \<and>
       (is_user_vaddr va' \<longrightarrow> pagedir_is_accessed d' va' v' = Inr (if d' = d \<and> pg_no va' = pg_no va then b \<and> has_table else accessed v d' va', v') \<and>
          pagedir_is_dirty d' va' v' = Inr (dirty v d' va', v'))))"
proof -
  have z: "PTE_D AND PTE_A = 0" "PTE_A AND PTE_D = 0" "\<And>g. g \<in> {PTE_P, PTE_W, PTE_U} \<Longrightarrow> PTE_D AND g = 0 \<and> PTE_A AND g = 0"
    "PTE_D \<noteq> 0" "PTE_A \<noteq> 0"
    by (auto simp: PTE_A_def PTE_D_def PTE_P_def PTE_W_def PTE_U_def)
  show ?thesis
  proof
    obtain v' where v': "pagedir_set_dirty d va b v = Inr v'" "vm_inv v' D"
      "\<And>d' va'. d' \<in> D \<Longrightarrow> entry_page (the_pte (pmem (palloc v')) d' va') = entry_page (the_pte (pmem (palloc v)) d' va')"
      "\<And>g d' va'. PTE_D AND g = 0 \<Longrightarrow> d' \<in> D \<Longrightarrow> the_pte (pmem (palloc v')) d' va' AND g = the_pte (pmem (palloc v)) d' va' AND g"
      "\<And>d' va'. d' \<in> D \<Longrightarrow> dirty v' d' va' = (if d' = d \<and> pg_no va' = pg_no va then b \<and> has_table else dirty v d' va')"
      using flag_written [OF assms(1-4) flags_off_address(5) z(4), of b] unfolding pagedir_set_dirty_def has_table_def by blast
    have "translate (pmem (palloc v')) d' va' = translate (pmem (palloc v)) d' va'" if "d' \<in> D" for d' va'
      by (rule translate_cong) (use v'(3,4) z(3) that in auto)
    then show "\<exists>v'. pagedir_set_dirty d va b v = Inr v' \<and> vm_inv v' D \<and>
      (\<forall>d' \<in> D. \<forall>va'. translate (pmem (palloc v')) d' va' = translate (pmem (palloc v)) d' va' \<and>
       (is_user_vaddr va' \<longrightarrow> pagedir_is_dirty d' va' v' = Inr (if d' = d \<and> pg_no va' = pg_no va then b \<and> has_table else dirty v d' va', v') \<and>
          pagedir_is_accessed d' va' v' = Inr (accessed v d' va', v')))"
      using v'(1,2) v'(4) [OF z(1)] v'(5) flags_read [OF v'(2)] by (intro exI [of _ v']) simp
  next
    obtain v' where v': "pagedir_set_accessed d va b v = Inr v'" "vm_inv v' D"
      "\<And>d' va'. d' \<in> D \<Longrightarrow> entry_page (the_pte (pmem (palloc v')) d' va') = entry_page (the_pte (pmem (palloc v)) d' va')"
      "\<And>g d' va'. PTE_A AND g = 0 \<Longrightarrow> d' \<in> D \<Longrightarrow> the_pte (pmem (palloc v')) d' va' AND g = the_pte (pmem (palloc v)) d' va' AND g"
      "\<And>d' va'. d' \<in> D \<Longrightarrow> accessed v' d' va' = (if d' = d \<and> pg_no va' = pg_no va then b \<and> has_table else accessed v d' va')"
      using flag_written [OF assms(1-4) flags_off_address(4) z(5), of b] unfolding pagedir_set_accessed_def has_table_def by blast
    have "translate (pmem (palloc v')) d' va' = translate (pmem (palloc v)) d' va'" if "d' \<in> D" for d' va'
      by (rule translate_cong) (use v'(3,4) z(3) that in auto)
    then show "\<exists>v'. pagedir_set_accessed d va b v = Inr v' \<and> vm_inv v' D \<and>
      (\<forall>d' \<in> D. \<forall>va'. translate (pmem (palloc v')) d' va' = translate (pmem (palloc v)) d' va' \<and>
       (is_user_vaddr va' \<longrightarrow> pagedir_is_accessed d' va' v' = Inr (if d' = d \<and> pg_no va' = pg_no va then b \<and> has_table else accessed v d' va', v') \<and>
          pagedir_is_dirty d' va' v' = Inr (dirty v d' va', v')))"
      using v'(1,2) v'(4) [OF z(2)] v'(5) flags_read [OF v'(2)] by (intro exI [of _ v']) simp
  qed
qed

lemma page_flags_independent_witness:
  "\<exists>v v'. vm_inv v {0xc0100000, 0xc0101000} \<and> pagedir_set_dirty 0xc0101000 0x8048000 True v = Inr v' \<and>
    pagedir_is_dirty 0xc0101000 0x8048000 v' = Inr (True, v')"
proof -
  obtain v where v: "vm_inv v {0xc0100000, 0xc0101000}" "cr3 v < PHYS_BASE"
    "translate (pmem (palloc v)) 0xc0101000 0x8048000 = Some (0xc0200000, True, True)"
    using sample_mapped by auto
  have "tab (pmem (palloc v)) 0xc0101000 (unat (pd_no 0x8048000)) \<noteq> 0" using v(3) by (auto simp: translate_def the_pte_def)
  then obtain v' where "pagedir_set_dirty 0xc0101000 0x8048000 True v = Inr v'" "pagedir_is_dirty 0xc0101000 0x8048000 v' = Inr (True, v')"
    using page_flags_independent [OF v(1), of "0xc0101000" "0x8048000" True] v(2) sample_pages(2) by auto
  then show ?thesis using v(1) by blast
qed

section \<open>Making and destroying directories\<close>


text \<open>\<open>pagedir_create\<close> gives a directory that was not in use, whose translation of kernel addresses is that of the kernel's
  directory and which maps no user address; the translations of the other directories are as before, and
  the invariant holds with the new one. It returns NULL only when no page is free, and then nothing has changed.\<close>

theorem pagedir_create_correct:
  assumes "vm_inv v D"
  shows "\<exists>pd v'. pagedir_create v = Inr (pd, v') \<and>
    (if pd = 0 then v' = v \<and> False \<notin> set (bmap (used_map (kernel_pool (palloc v))))
     else pd \<notin> D \<and> vm_inv v' (insert pd D) \<and> init_page_dir v' = init_page_dir v \<and> user_pool (palloc v') = user_pool (palloc v) \<and>
       (\<forall>p. kpage_used (palloc v') p \<longleftrightarrow> kpage_used (palloc v) p \<or> p = pd) \<and>
       (\<forall>va. translate (pmem (palloc v')) pd va =
          (if is_user_vaddr va then None else translate (pmem (palloc v)) (init_page_dir v) va)) \<and>
       (\<forall>d \<in> D. \<forall>va. translate (pmem (palloc v')) d va = translate (pmem (palloc v)) d va))"
proof -
  have "init_page_dir v' = init_page_dir v" if "v'\<lparr>palloc := palloc v\<rparr> = v" for v' using arg_cong [OF that, of init_page_dir] by simp
  then show ?thesis using pagedir_create_makes [OF assms] by (metis (no_types, lifting))
qed

lemma pagedir_create_correct_witness:
  "\<exists>pd v'. pagedir_create sample_vm = Inr (pd, v') \<and> pd \<noteq> 0 \<and> vm_inv v' {pd, 0xc0100000, 0xc0101000}"
proof -
  obtain pd v' where "pagedir_create sample_vm = Inr (pd, v')"
    "if pd = 0 then v' = sample_vm \<and> False \<notin> set (bmap (used_map (kernel_pool (palloc sample_vm)))) else vm_inv v' {pd, 0xc0100000, 0xc0101000}"
    using pagedir_create_correct [OF sample_vm_inv] by (metis (no_types, lifting))
  then show ?thesis using sample_free by (auto split: if_splits)
qed

text \<open>C12: \<open>pagedir_destroy\<close> of a directory other than the kernel's frees the directory, its tables and the pages that
  it maps for users, in whichever pool they are, and no others; the other directories translate as before, and the
  invariant holds without it.\<close>

theorem pagedir_destroy_correct:
  assumes "vm_inv v D" "d \<in> D" "d \<noteq> init_page_dir v" "frames_private v D d" "PHYS_BASE \<le> base (user_pool (palloc v))"
  defines "S \<equiv> {d} \<union> {p. \<exists>va w u. is_user_vaddr va \<and> translate (pmem (palloc v)) d va = Some (p, w, u)} \<union>
    {table (pmem (palloc v)) d i |i. i < 768 \<and> tab (pmem (palloc v)) d i \<noteq> 0}"
  shows "\<exists>v'. pagedir_destroy d v = Inr v' \<and> vm_inv v' (D - {d}) \<and>
    (\<forall>p. kpage_used (palloc v') p \<longleftrightarrow> kpage_used (palloc v) p \<and> p \<notin> S) \<and>
    (\<forall>p. upage_used (palloc v') p \<longleftrightarrow> upage_used (palloc v) p \<and> p \<notin> S) \<and>
    (\<forall>d' \<in> D - {d}. \<forall>va. translate (pmem (palloc v')) d' va = translate (pmem (palloc v)) d' va)"
proof -
  have S: "insert d (user_frames (pmem (palloc v)) d \<union> {table (pmem (palloc v)) d i |i. i < 768 \<and> tab (pmem (palloc v)) d i \<noteq> 0}) = S"
    by (auto simp: S_def user_frames_def)
  obtain v' where v': "pagedir_destroy d v = Inr v'" "vm_freed v S v'" "vm_inv v' (D - {d})"
    "\<And>d' va. d' \<in> D - {d} \<Longrightarrow> the_pte (pmem (palloc v')) d' va = the_pte (pmem (palloc v)) d' va"
    using pagedir_destroy_frees [OF assms(1-5)] unfolding S by blast
  have "translate (pmem (palloc v')) d' va = translate (pmem (palloc v)) d' va" if "d' \<in> D - {d}" for d' va
    unfolding translate_def v'(4) [OF that] ..
  then show ?thesis using v'(1-3) by (auto simp: vm_freed_def freed_def)
qed

lemma pagedir_destroy_correct_witness:
  "\<exists>v v'. vm_inv v {0xc0100000, 0xc0101000} \<and> translate (pmem (palloc v)) 0xc0101000 0x8048000 = Some (0xc0200000, True, True) \<and>
    upage_used (palloc v) 0xc0200000 \<and> pagedir_destroy 0xc0101000 v = Inr v' \<and> vm_inv v' {0xc0100000} \<and>
    \<not> kpage_used (palloc v') 0xc0101000 \<and> \<not> upage_used (palloc v') 0xc0200000"
proof -
  obtain v where v: "vm_inv v {0xc0100000, 0xc0101000}" "init_page_dir v = 0xc0100000" "user_pool (palloc v) = user_pool (palloc sample_vm)"
    "\<And>va. translate (pmem (palloc v)) 0xc0101000 va = (if pg_no va = pg_no 0x8048000 then Some (0xc0200000, True, True) else None)"
    using sample_mapped by blast
  note w = vm_invD [OF v(1)]
  have u: "upage_used (palloc v) 0xc0200000"
    unfolding upage_used_def v(3) by (rule exI [of _ 0]) (simp add: sample_vm_def bmap_def page_at_def)
  have apart: "\<not> kpage_used (palloc v) 0xc0200000"
    using pool_pages_apart [OF w(1)] u unfolding kpage_used_def upage_used_def by metis
  have f: "user_frames (pmem (palloc v)) 0xc0101000 = {0xc0200000}"
    using sample_pages(2) by (auto simp: user_frames_def v(4) split: if_splits)
  have "table (pmem (palloc v)) d i \<noteq> 0xc0200000" if "d \<in> {0xc0100000, 0xc0101000}" "i < 1024" "tab (pmem (palloc v)) d i \<noteq> 0" for d i
    using w(6) [OF that] apart by auto
  then have "frames_private v {0xc0100000, 0xc0101000} 0xc0101000"
    unfolding frames_private_def Let_def f using u by (auto simp: v(4) split: if_splits)
  moreover have "PHYS_BASE \<le> base (user_pool (palloc v))" by (simp add: v(3) sample_vm_def PHYS_BASE_def)
  ultimately obtain v' where v': "pagedir_destroy 0xc0101000 v = Inr v'" "vm_inv v' ({0xc0100000, 0xc0101000} - {0xc0101000})"
    "\<And>p. kpage_used (palloc v') p \<Longrightarrow> p \<noteq> 0xc0101000"
    "\<And>p. upage_used (palloc v') p \<Longrightarrow> p \<notin> {p. \<exists>va w u. is_user_vaddr va \<and> translate (pmem (palloc v)) 0xc0101000 va = Some (p, w, u)}"
    using pagedir_destroy_correct [OF v(1), of "0xc0101000"] v(2) by auto
  have "{0xc0100000, 0xc0101000} - {0xc0101000} = {0xc0100000 :: word_t}" by auto
  moreover have "translate (pmem (palloc v)) 0xc0101000 0x8048000 = Some (0xc0200000, True, True)" by (simp add: v(4))
  then have "\<not> upage_used (palloc v') 0xc0200000" using v'(4) [of "0xc0200000"] sample_pages(2) by blast
  ultimately show ?thesis
    using v v' u by (intro exI [of _ v] exI [of _ v']) auto
qed

section \<open>The kernel's first directory\<close>

text \<open>C20: \<open>paging_init\<close>, with at most 256 k pages of memory and enough free pages, one for the directory and one for each 1024 pages
  of memory, does not fail. Its directory is the active one, satisfies the invariant, and maps exactly the kernel's addresses
  of the memory there is, each to the page of physical memory that the kernel has at that address; the pages of the
  kernel's code are read-only, and none is open to user programs.\<close>

theorem paging_init_correct:
  assumes "pools_wf (palloc v)" "PHYS_BASE \<le> base (kernel_pool (palloc v))" "unat (ram_pages v) \<le> 2 ^ 18"
    and "(unat (ram_pages v) + 1023) div 1024 < free_cnt (palloc v)"
  shows "\<exists>v'. paging_init ts te v = Inr v' \<and> vm_inv v' {init_page_dir v'} \<and> active_pd v' = Inr (init_page_dir v') \<and>
    (\<forall>va. translate (pmem (palloc v')) (init_page_dir v') va =
      (if \<not> is_user_vaddr va \<and> kpage_of va < unat (ram_pages v)
       then Some (pg_round_down va, \<not> (ts \<le> pg_round_down va \<and> pg_round_down va < te), False) else None))"
  using paging_init_maps [OF assms, of ts te] unfolding kernel_maps_def by blast

lemma paging_init_correct_witness:
  "\<exists>v'. paging_init 0xc0020000 0xc0040000 sample_vm = Inr v' \<and>
    translate (pmem (palloc v')) (init_page_dir v') 0xc0023456 = Some (0xc0023000, False, False) \<and>
    translate (pmem (palloc v')) (init_page_dir v') 0xc0043456 = Some (0xc0043000, True, False) \<and>
    translate (pmem (palloc v')) (init_page_dir v') 0xc0400000 = None"
proof -
  have p: "pools_wf (palloc sample_vm)" "PHYS_BASE \<le> base (kernel_pool (palloc sample_vm))"
    using vm_invD(1,2) [OF sample_vm_inv] by blast+
  have n: "unat (ram_pages sample_vm) = 1024" by (simp add: sample_vm_def)
  have f: "1 < free_cnt (palloc sample_vm)"
    by (simp add: free_cnt_def sample_vm_def bmap_def upt_rec)
  have a: "\<not> is_user_vaddr 0xc0023456" "\<not> is_user_vaddr 0xc0043456" "kpage_of 0xc0023456 = 35" "kpage_of 0xc0043456 = 67"
    "kpage_of 0xc0400000 = 1024" "pg_round_down 0xc0023456 = 0xc0023000" "pg_round_down 0xc0043456 = 0xc0043000"
    by (simp_all add: is_user_vaddr_def PHYS_BASE_def kpage_of_def pg_round_down_def PGMASK_def)
  show ?thesis
    using paging_init_correct [OF p, of "0xc0020000" "0xc0040000"] f a unfolding n by auto
qed

end
