(* ===== verification/Pintos_Inode_Refinement.thy ===== *)
theory Pintos_Inode_Refinement
  imports Pintos_Filesys
begin

text \<open>
  Reading and writing of inodes against an abstract file: the device is the flat list of its bytes, the
  content of an inode a part of it, reading gives a part of the content and writing replaces one.
\<close>

section \<open>Lists of sectors\<close>

lemma put_bytes_append:
  "i + length a + length b \<le> length m \<Longrightarrow> put_bytes (put_bytes m i a) (i + length a) b = put_bytes m i (a @ b)"
  by (rule nth_equalityI) (auto simp: nth_put_bytes nth_append)

text \<open>A block that is put in two pieces.\<close>

lemma put_take_split:
  assumes "c \<le> length xs" "a + (c + n) \<le> length m"
  shows "put_bytes (put_bytes m a (take c xs)) (a + c) (take n (drop c xs)) = put_bytes m a (take (c + n) xs)"
  using put_bytes_append [of a "take c xs" "take n (drop c xs)" m] assms by (simp add: take_add)

lemma length_concat_sectors: "\<forall>s \<in> set ss. length s = n \<Longrightarrow> length (concat ss) = n * length ss"
  by (induction ss) auto

lemma concat_piece:
  assumes "\<forall>s \<in> set ss. length s = n" "j < length ss" "ofs + c \<le> n"
  shows "take c (drop ofs (ss ! j)) = take c (drop (n * j + ofs) (concat ss))"
  using assms
proof (induction ss arbitrary: j)
  case (Cons s ss)
  show ?case
  proof (cases j)
    case 0 then show ?thesis using Cons.prems by simp
  next
    case (Suc j')
    then show ?thesis using Cons by (simp add: add.assoc)
  qed
qed simp

lemma concat_sectors_update:
  assumes "\<forall>s \<in> set ss. length s = n" "j < length ss" "ofs + length bs \<le> n"
  shows "concat (ss[j := put_bytes (ss ! j) ofs bs]) = put_bytes (concat ss) (n * j + ofs) bs"
  using assms
proof (induction ss arbitrary: j)
  case (Cons s ss)
  show ?case
  proof (cases j)
    case 0 then show ?thesis using Cons.prems by (simp add: put_bytes_def)
  next
    case (Suc j')
    then show ?thesis using Cons by (simp add: put_bytes_def add.assoc)
  qed
qed simp

section \<open>The device\<close>

definition dev_ok :: "block \<Rightarrow> bool" where
  "dev_ok b \<longleftrightarrow> length (sectors b) = unat (block_size b) \<and> (\<forall>s \<in> set (sectors b). length s = 512) \<and>
    block_type b \<noteq> BLOCK_FOREIGN"

definition flat :: "fs \<Rightarrow> byte_t list" where "flat k = concat (sectors (fs_device k))"

lemma length_flat: "dev_ok (fs_device k) \<Longrightarrow> length (flat k) = 512 * length (sectors (fs_device k))"
  using length_concat_sectors [of "sectors (fs_device k)" 512] by (simp add: flat_def dev_ok_def)

text \<open>
  \<open>same k k'\<close>: only the bytes of the device, its counters and the answers of \<open>malloc\<close> that are left
  may differ.
\<close>

definition same :: "fs \<Rightarrow> fs \<Rightarrow> bool" where
  "same k k' \<longleftrightarrow> k'\<lparr>fs_device := fs_device k, mallocs := mallocs k\<rparr> = k \<and>
    block_type (fs_device k') = block_type (fs_device k) \<and> block_size (fs_device k') = block_size (fs_device k) \<and>
    (\<exists>j. mallocs k' = (\<lambda>n. mallocs k (n + j)))"

lemma fs_same_refl [simp]: "same k k"
  by (auto simp: same_def intro: exI [of _ 0])

lemma same_trans [trans]:
  assumes "same k1 k2" "same k2 k3"
  shows "same k1 k3"
proof -
  obtain i j where "mallocs k2 = (\<lambda>n. mallocs k1 (n + i))" "mallocs k3 = (\<lambda>n. mallocs k2 (n + j))"
    using assms by (auto simp: same_def)
  then have "mallocs k3 = (\<lambda>n. mallocs k1 (n + (j + i)))" by (simp add: add.assoc)
  moreover have "k3\<lparr>fs_device := fs_device k1, mallocs := mallocs k1\<rparr> = k1"
    using assms by (cases k1; cases k2; cases k3) (simp add: same_def)
  ultimately show ?thesis using assms unfolding same_def by auto
qed

lemma same_fields:
  assumes "same k k'"
  shows "open_inodes k' = open_inodes k" "inode_heap k' = inode_heap k" "file_heap k' = file_heap k"
    "dir_heap k' = dir_heap k" "sector_map k' = sector_map k" "map_file k' = map_file k"
    "block_size (fs_device k') = block_size (fs_device k)"
  using assms by (cases k; cases k'; simp add: same_def)+

definition no_fail :: "fs \<Rightarrow> bool" where "no_fail k \<longleftrightarrow> (\<forall>n. mallocs k n \<noteq> 0)"

lemma same_no_fail: "same k k' \<Longrightarrow> no_fail k \<Longrightarrow> no_fail k'"
  by (auto simp: same_def no_fail_def)

lemma dev_sector:
  assumes "dev_ok b" "unat s < length (sectors b)"
  shows "check_sector b s = Inr ()" "length (sectors b ! unat s) = 512"
  using assms by (auto simp: check_sector_def dev_ok_def not_le word_less_nat_alt)

lemma fs_read_ok:
  assumes "dev_ok (fs_device k)" "unat s < length (sectors (fs_device k))"
  shows "\<exists>k'. fs_read s k = Inr (sectors (fs_device k) ! unat s, k') \<and> same k k' \<and>
    sectors (fs_device k') = sectors (fs_device k) \<and> dev_ok (fs_device k') \<and> mallocs k' = mallocs k"
  using assms dev_sector [OF assms]
  by (auto simp: fs_read_def block_read_def same_def dev_ok_def intro: exI [of _ 0])

lemma fs_write_ok:
  assumes "dev_ok (fs_device k)" "unat s < length (sectors (fs_device k))" "length bytes = 512"
  shows "\<exists>k'. fs_write s bytes k = Inr k' \<and> same k k' \<and>
    sectors (fs_device k') = (sectors (fs_device k))[unat s := bytes] \<and> dev_ok (fs_device k') \<and> mallocs k' = mallocs k"
  using assms dev_sector [OF assms(1,2)]
  by (auto simp: fs_write_def block_write_def same_def dev_ok_def set_update_subset_insert [THEN subsetD]
      dest!: set_update_subset_insert [THEN subsetD] intro: exI [of _ 0])

section \<open>The pieces of an inode\<close>

definition inode_ok :: "fs \<Rightarrow> inode \<Rightarrow> bool" where
  "inode_ok k i \<longleftrightarrow> 0 \<le> inode_length i \<and>
    512 * unat (start_sector (inode_data i)) + nat (inode_length i) \<le> length (flat k)"

definition data_at :: "inode \<Rightarrow> nat" where "data_at i = 512 * unat (start_sector (inode_data i))"

definition content :: "fs \<Rightarrow> inode \<Rightarrow> byte_t list" where
  "content k i = take (nat (inode_length i)) (drop (data_at i) (flat k))"

lemma inode_length_range: "inode_length i < 2 ^ 31" "- (2 ^ 31) \<le> inode_length i"
  using sint_less [of "disk_length (inode_data i)"] sint_ge [of "disk_length (inode_data i)"]
  by (simp_all add: inode_length_def)

lemma sdiv_smod_nonneg: "0 \<le> a \<Longrightarrow> a sdiv 512 = a div (512 :: int)" "0 \<le> a \<Longrightarrow> a smod 512 = a mod (512 :: int)"
  by (auto simp: signed_divide_int_def signed_modulo_int_def sgn_if)

lemma chunk_inside:
  assumes "0 \<le> ofs" "ofs < 2 ^ 31" "0 \<le> inode_length i"
  shows "chunk i sz ofs = Inr (byte_to_sector i ofs, ofs mod 512, 512 - ofs mod 512,
    min sz (min (inode_length i - ofs) (512 - ofs mod 512)))"
  using assms inode_length_range [of i]
  by (auto simp: chunk_def Let_def BLOCK_SECTOR_SIZE_def sdiv_smod_nonneg int32_def min_def)

lemma byte_to_sector_inside:
  assumes "dev_ok (fs_device k)" "inode_ok k i" "0 \<le> ofs" "ofs < inode_length i"
  shows "unat (byte_to_sector i ofs) = unat (start_sector (inode_data i)) + nat ofs div 512"
    "unat (byte_to_sector i ofs) < length (sectors (fs_device k))"
proof -
  let ?s = "unat (start_sector (inode_data i))" and ?n = "length (sectors (fs_device k))"
  have "512 * ?s + nat ofs < 512 * ?n"
    using assms by (auto simp: inode_ok_def length_flat)
  then have l: "?s + nat ofs div 512 < ?n" by linarith
  have "?n < 2 ^ 32" using assms(1) unsigned_less [of "block_size (fs_device k)", where 'a = nat] by (simp add: dev_ok_def)
  then have "?s + nat ofs div 512 < 2 ^ 32" using l by simp
  moreover have "of_int (ofs div 512) = (of_nat (nat ofs div 512) :: word_t)"
    using assms(3) by (metis int_nat_eq of_int_of_nat_eq of_nat_numeral zdiv_int)
  ultimately show u: "unat (byte_to_sector i ofs) = ?s + nat ofs div 512"
    using assms(3,4) unat_add_small [of "start_sector (inode_data i)" "nat ofs div 512"]
    by (simp add: byte_to_sector_def inode_length_def BLOCK_SECTOR_SIZE_def sdiv_smod_nonneg)
  show "unat (byte_to_sector i ofs) < ?n" using l u by simp
qed

lemma sector_piece:
  assumes "dev_ok (fs_device k)" "inode_ok k i" "0 \<le> ofs" "ofs < inode_length i" "nat (ofs mod 512) + c \<le> 512"
  shows "take c (drop (nat (ofs mod 512)) (sectors (fs_device k) ! unat (byte_to_sector i ofs))) =
    take c (drop (data_at i + nat ofs) (flat k))"
proof -
  note s = byte_to_sector_inside [OF assms(1-4)]
  have "512 * unat (byte_to_sector i ofs) + nat (ofs mod 512) = data_at i + nat ofs"
    using assms(3) s(1) by (simp add: data_at_def nat_mod_distrib)
  then show ?thesis
    using concat_piece [OF _ s(2) assms(5)] assms(1) unfolding flat_def dev_ok_def by metis
qed

lemma sector_update:
  assumes "dev_ok (fs_device k)" "inode_ok k i" "0 \<le> ofs" "ofs < inode_length i" "nat (ofs mod 512) + length bs \<le> 512"
  shows "concat ((sectors (fs_device k))[unat (byte_to_sector i ofs) :=
      put_bytes (sectors (fs_device k) ! unat (byte_to_sector i ofs)) (nat (ofs mod 512)) bs]) =
    put_bytes (flat k) (data_at i + nat ofs) bs"
proof -
  note s = byte_to_sector_inside [OF assms(1-4)]
  have "512 * unat (byte_to_sector i ofs) + nat (ofs mod 512) = data_at i + nat ofs"
    using assms(3) s(1) by (simp add: data_at_def nat_mod_distrib)
  then show ?thesis
    using concat_sectors_update [OF _ s(2) assms(5)] assms(1) unfolding flat_def dev_ok_def by metis
qed

section \<open>The loops\<close>

text \<open>The length of what a read or write at \<open>ofs\<close> moves.\<close>

definition span :: "inode \<Rightarrow> int \<Rightarrow> int \<Rightarrow> nat" where
  "span i sz ofs = nat (min sz (inode_length i - ofs))"

lemma piece_split:
  assumes "0 \<le> ofs" "ofs < inode_length i" "0 < sz" "c = min sz (min (inode_length i - ofs) (512 - ofs mod 512))"
  shows "0 < c" "span i sz ofs = nat c + span i (sz - c) (ofs + c)" "nat (ofs mod 512) + nat c \<le> 512"
    "0 \<le> ofs mod 512" "nat (ofs + c) = nat ofs + nat c"
proof -
  have m: "0 \<le> ofs mod 512" "ofs mod 512 < 512" by simp_all
  then show "0 < c" using assms by (simp add: min_def)
  then show "span i sz ofs = nat c + span i (sz - c) (ofs + c)" "nat (ofs + c) = nat ofs + nat c"
    using assms by (auto simp: span_def nat_add_distrib min_def)
  have "c \<le> 512 - ofs mod 512" using assms(4) by simp
  then show "nat (ofs mod 512) + nat c \<le> 512" using m by linarith
  show "0 \<le> ofs mod 512" by (rule m)
qed

lemma no_fail_bounce:
  assumes "no_fail k"
  shows "\<exists>bb' k'. get_bounce bb k = (bb', k') \<and> bb' \<noteq> 0 \<and> same k k' \<and> fs_device k' = fs_device k \<and> no_fail k'"
proof (cases "bb = 0")
  case True
  have "same k (k\<lparr>mallocs := \<lambda>n. mallocs k (Suc n)\<rparr>)"
    by (auto simp: same_def intro: exI [of _ 1])
  then show ?thesis using assms True by (auto simp: get_bounce_def malloc_def no_fail_def)
next
  case False
  then show ?thesis using assms by (simp add: get_bounce_def)
qed

lemma put_block_at: "0 \<le> r \<Longrightarrow> nat r + length bs \<le> length buf \<Longrightarrow> put_block buf r bs = Inr (put_bytes buf (nat r) bs)"
  by (auto simp: put_block_def)

lemma get_block_at: "0 \<le> r \<Longrightarrow> 0 \<le> n \<Longrightarrow> nat r + nat n \<le> length bs \<Longrightarrow> get_block bs r n = Inr (take (nat n) (drop (nat r) bs))"
  by (auto simp: get_block_def)

lemma read_loop_reads:
  assumes "dev_ok (fs_device k)" "inode_heap k p = Some i" "p \<noteq> 0" "inode_ok k i" "no_fail k"
    and "0 \<le> ofs" "ofs < 2 ^ 31" "0 \<le> r" "nat r + span i sz ofs \<le> length buf"
  shows "\<exists>k'. read_loop p buf r sz ofs bb k =
      Inr (r + int (span i sz ofs), put_bytes buf (nat r) (take (span i sz ofs) (drop (data_at i + nat ofs) (flat k))), k') \<and>
    same k k' \<and> flat k' = flat k \<and> dev_ok (fs_device k')"
  using assms
proof (induction "nat sz" arbitrary: sz ofs r buf bb k rule: less_induct)
  case less
  have len: "0 \<le> inode_length i" using less.prems(4) by (simp add: inode_ok_def)
  let ?c = "min sz (min (inode_length i - ofs) (512 - ofs mod 512))"
  have ch: "chunk i sz ofs = Inr (byte_to_sector i ofs, ofs mod 512, 512 - ofs mod 512, ?c)"
    by (rule chunk_inside [OF less.prems(6,7) len])
  have f: "follow (inode_heap k) p = Inr i" using less.prems(2,3) by (simp add: follow_Inr)
  show ?case
  proof (cases "0 < sz \<and> ofs < inode_length i")
    case False
    then have "span i sz ofs = 0" "?c \<le> 0 \<or> \<not> 0 < sz" by (auto simp: span_def)
    then have "read_loop p buf r sz ofs bb k = Inr (r, buf, k)"
      using ch f less.prems(3) by (subst read_loop.simps) (auto simp: guardE_def)
    then show ?thesis using \<open>span i sz ofs = 0\<close> less.prems(1) by (intro exI [of _ k]) simp
  next
    case True
    then have t: "0 < sz" "ofs < inode_length i" by auto
    define c where "c = ?c"
    note ps = piece_split [OF less.prems(6) t(2,1) c_def]
    note ch' = ch [folded c_def]
    have sec: "unat (byte_to_sector i ofs) < length (sectors (fs_device k))"
      by (rule byte_to_sector_inside [OF less.prems(1,4,6) t(2)])
    let ?piece = "take (nat c) (drop (data_at i + nat ofs) (flat k))"
    have piece: "take (nat c) (drop (nat (ofs mod 512)) (sectors (fs_device k) ! unat (byte_to_sector i ofs))) = ?piece"
      by (rule sector_piece [OF less.prems(1,4,6) t(2) ps(3)])
    have l512: "length (sectors (fs_device k) ! unat (byte_to_sector i ofs)) = 512"
      by (rule dev_sector [OF less.prems(1) sec])
    have lp: "length ?piece = nat c" unfolding piece [symmetric] using ps(3) l512 by simp
    have lx: "nat c \<le> length (drop (data_at i + nat ofs) (flat k))" using lp by (metis length_take min.cobounded1)
    have buf: "put_block buf r ?piece = Inr (put_bytes buf (nat r) ?piece)"
      using less.prems(8,9) lp ps(2) by (intro put_block_at) auto
    have rest: "\<exists>k'. read_loop p (put_bytes buf (nat r) ?piece) (r + c) (sz - c) (ofs + c) bb1 k1 =
        Inr (r + int (span i sz ofs), put_bytes buf (nat r) (take (span i sz ofs) (drop (data_at i + nat ofs) (flat k))), k') \<and>
        same k k' \<and> flat k' = flat k \<and> dev_ok (fs_device k')"
      if k1: "same k k1" "sectors (fs_device k1) = sectors (fs_device k)" "dev_ok (fs_device k1)" "no_fail k1" for k1 bb1
    proof -
      have fl: "flat k1 = flat k" using k1(2) by (simp add: flat_def)
      have pre: "inode_heap k1 p = Some i" "inode_ok k1 i" "0 \<le> ofs + c" "ofs + c < 2 ^ 31" "0 \<le> r + c"
        using less.prems(2,4,6,8) ps(1) fl same_fields(2) [OF k1(1)] inode_length_range(1) [of i]
        by (simp_all add: inode_ok_def c_def)
      have r: "nat (r + c) = nat r + nat c" using less.prems(8) ps(1) by simp
      have "nat (r + c) + span i (sz - c) (ofs + c) \<le> length (put_bytes buf (nat r) ?piece)"
        using less.prems(9) ps(2) r lp by simp
      from less.hyps [OF _ k1(3) pre(1) less.prems(3) pre(2) k1(4) pre(3-5) this] t(1) ps(1)
      obtain k' where k': "read_loop p (put_bytes buf (nat r) ?piece) (r + c) (sz - c) (ofs + c) bb1 k1 =
          Inr (r + c + int (span i (sz - c) (ofs + c)), put_bytes (put_bytes buf (nat r) ?piece) (nat (r + c))
            (take (span i (sz - c) (ofs + c)) (drop (data_at i + nat (ofs + c)) (flat k1))), k')"
          "same k1 k'" "flat k' = flat k1" "dev_ok (fs_device k')"
        by auto
      have dr: "drop (nat c) (drop (data_at i + nat ofs) (flat k)) = drop (data_at i + nat (ofs + c)) (flat k)"
        unfolding ps(5) drop_drop by (simp add: ac_simps)
      have "put_bytes (put_bytes buf (nat r) ?piece) (nat (r + c))
            (take (span i (sz - c) (ofs + c)) (drop (data_at i + nat (ofs + c)) (flat k1))) =
          put_bytes buf (nat r) (take (span i sz ofs) (drop (data_at i + nat ofs) (flat k)))"
        unfolding r fl ps(2) dr [symmetric]
        by (rule put_take_split) (use lx less.prems(9) ps(2) in auto)
      moreover have "r + c + int (span i (sz - c) (ofs + c)) = r + int (span i sz ofs)" using ps(1,2) by simp
      ultimately show ?thesis using k' fl same_trans [OF k1(1) k'(2)] by auto
    qed
    show ?thesis
    proof (cases "ofs mod 512 = 0 \<and> c = 512")
      case True
      obtain k1 where k1: "fs_read (byte_to_sector i ofs) k = Inr (sectors (fs_device k) ! unat (byte_to_sector i ofs), k1)"
          "same k k1" "sectors (fs_device k1) = sectors (fs_device k)" "dev_ok (fs_device k1)" "mallocs k1 = mallocs k"
        using fs_read_ok [OF less.prems(1) sec] by blast
      have "sectors (fs_device k) ! unat (byte_to_sector i ofs) = ?piece"
        using piece True l512 by simp
      then have "read_loop p buf r sz ofs bb k = read_loop p (put_bytes buf (nat r) ?piece) (r + c) (sz - c) (ofs + c) bb k1"
        using t(1) less.prems(3) f ch' ps(1) True k1(1) buf
        by (subst read_loop.simps) (simp add: BLOCK_SECTOR_SIZE_def)
      then show ?thesis using rest [OF k1(2-4)] less.prems(5) k1(5) by (simp add: no_fail_def)
    next
      case False
      obtain bb1 k0 where b: "get_bounce bb k = (bb1, k0)" "bb1 \<noteq> 0" "same k k0" "fs_device k0 = fs_device k" "no_fail k0"
        using no_fail_bounce [OF less.prems(5)] by blast
      obtain k1 where k1: "fs_read (byte_to_sector i ofs) k0 = Inr (sectors (fs_device k) ! unat (byte_to_sector i ofs), k1)"
          "same k0 k1" "sectors (fs_device k1) = sectors (fs_device k)" "dev_ok (fs_device k1)" "mallocs k1 = mallocs k0"
        using fs_read_ok [of k0 "byte_to_sector i ofs"] less.prems(1) sec b(4) by auto
      have "get_block (sectors (fs_device k) ! unat (byte_to_sector i ofs)) (ofs mod 512) c = Inr ?piece"
        using get_block_at [of "ofs mod 512" c] ps(1,3,4) l512 piece by simp
      then have "read_loop p buf r sz ofs bb k = read_loop p (put_bytes buf (nat r) ?piece) (r + c) (sz - c) (ofs + c) bb1 k1"
        using t(1) less.prems(3) f ch' ps(1) False b(1,2) k1(1) buf
        by (subst read_loop.simps) (auto simp: BLOCK_SECTOR_SIZE_def)
      then show ?thesis
        using rest [OF same_trans [OF b(3) k1(2)] k1(3,4)] b(5) k1(5) by (simp add: no_fail_def)
    qed
  qed
qed

lemma inode_read_at_reads:
  assumes "dev_ok (fs_device k)" "inode_heap k p = Some i" "p \<noteq> 0" "inode_ok k i" "no_fail k"
    and "0 \<le> ofs" "ofs < 2 ^ 31" "span i sz ofs \<le> length buf"
  shows "\<exists>k'. inode_read_at p buf sz ofs k =
      Inr (int (span i sz ofs), put_bytes buf 0 (take (nat sz) (drop (nat ofs) (content k i))), k') \<and>
    same k k' \<and> flat k' = flat k \<and> dev_ok (fs_device k')"
proof -
  have "take (nat sz) (drop (nat ofs) (content k i)) = take (span i sz ofs) (drop (data_at i + nat ofs) (flat k))"
  proof (cases "ofs < inode_length i")
    case True
    then have "span i sz ofs = min (nat sz) (nat (inode_length i) - nat ofs)"
      using assms(6) by (auto simp: span_def min_def nat_diff_distrib')
    then show ?thesis by (simp add: content_def drop_take take_take min.commute add.commute)
  next
    case False
    then show ?thesis by (simp add: content_def drop_take span_def)
  qed
  then show ?thesis
    using read_loop_reads [OF assms(1-7), of 0 sz buf 0] assms(8) by (simp add: inode_read_at_def)
qed

lemma put_bytes_whole: "length bs = length m \<Longrightarrow> put_bytes m 0 bs = bs"
  by (simp add: put_bytes_def)

text \<open>The sector that a piece is put into: old when the piece does not fill it.\<close>

lemma old_sector:
  assumes "dev_ok (fs_device k)" "unat s < length (sectors (fs_device k))" "0 \<le> so" "0 < c" "so + c \<le> 512"
  shows "\<exists>bytes k'. (if so > 0 \<or> c < 512 - so then fs_read s k else Inr (replicate (nat BLOCK_SECTOR_SIZE) 0, k)) = Inr (bytes, k') \<and>
    same k k' \<and> sectors (fs_device k') = sectors (fs_device k) \<and> dev_ok (fs_device k') \<and> mallocs k' = mallocs k \<and>
    length bytes = 512 \<and>
    (\<forall>new. length new = nat c \<longrightarrow> put_bytes bytes (nat so) new = put_bytes (sectors (fs_device k) ! unat s) (nat so) new)"
proof (cases "so > 0 \<or> c < 512 - so")
  case True
  then show ?thesis using fs_read_ok [OF assms(1,2)] dev_sector [OF assms(1,2)] by auto
next
  case False
  then have "so = 0" "c = 512" using assms(3,5) by auto
  then show ?thesis
    using assms(1) dev_sector(2) [OF assms(1,2)] by (auto simp: BLOCK_SECTOR_SIZE_def put_bytes_whole)
qed

lemma write_loop_writes:
  assumes "dev_ok (fs_device k)" "inode_heap k p = Some i" "p \<noteq> 0" "inode_ok k i" "no_fail k"
    and "0 \<le> ofs" "ofs < 2 ^ 31" "0 \<le> r" "nat r + span i sz ofs \<le> length buf"
  shows "\<exists>k'. write_loop p buf r sz ofs bb k = Inr (r + int (span i sz ofs), k') \<and> same k k' \<and> dev_ok (fs_device k') \<and>
    flat k' = put_bytes (flat k) (data_at i + nat ofs) (take (span i sz ofs) (drop (nat r) buf))"
  using assms
proof (induction "nat sz" arbitrary: sz ofs r bb k rule: less_induct)
  case less
  have len: "0 \<le> inode_length i" using less.prems(4) by (simp add: inode_ok_def)
  let ?c = "min sz (min (inode_length i - ofs) (512 - ofs mod 512))"
  have ch: "chunk i sz ofs = Inr (byte_to_sector i ofs, ofs mod 512, 512 - ofs mod 512, ?c)"
    by (rule chunk_inside [OF less.prems(6,7) len])
  have f: "follow (inode_heap k) p = Inr i" using less.prems(2,3) by (simp add: follow_Inr)
  show ?case
  proof (cases "0 < sz \<and> ofs < inode_length i")
    case False
    then have "span i sz ofs = 0" "?c \<le> 0 \<or> \<not> 0 < sz" by (auto simp: span_def)
    then have "write_loop p buf r sz ofs bb k = Inr (r, k)"
      using ch f less.prems(3) by (subst write_loop.simps) (auto simp: guardE_def)
    then show ?thesis using \<open>span i sz ofs = 0\<close> less.prems(1) by (intro exI [of _ k]) simp
  next
    case True
    then have t: "0 < sz" "ofs < inode_length i" by auto
    define c where "c = ?c"
    note ps = piece_split [OF less.prems(6) t(2,1) c_def]
    note ch' = ch [folded c_def]
    let ?s = "byte_to_sector i ofs"
    let ?sec = "sectors (fs_device k) ! unat ?s" and ?piece = "take (nat c) (drop (nat r) buf)"
    have sec: "unat ?s < length (sectors (fs_device k))"
      by (rule byte_to_sector_inside [OF less.prems(1,4,6) t(2)])
    have l512: "length ?sec = 512" by (rule dev_sector [OF less.prems(1) sec])
    have get: "get_block buf r c = Inr ?piece" "length ?piece = nat c"
      using less.prems(8,9) ps(1,2) by (auto intro: get_block_at)
    have fit: "data_at i + nat ofs + span i sz ofs \<le> length (flat k)"
    proof -
      have "span i sz ofs \<le> nat (inode_length i - ofs)" by (simp add: span_def)
      also have "\<dots> = nat (inode_length i) - nat ofs" using less.prems(6) by (simp add: nat_diff_distrib')
      finally have "nat ofs + span i sz ofs \<le> nat (inode_length i)" using less.prems(6) t by linarith
      then show ?thesis using less.prems(4) by (simp add: inode_ok_def data_at_def)
    qed
    have rest: "\<exists>k'. write_loop p buf (r + c) (sz - c) (ofs + c) bb1 k1 = Inr (r + int (span i sz ofs), k') \<and>
        same k k' \<and> dev_ok (fs_device k') \<and>
        flat k' = put_bytes (flat k) (data_at i + nat ofs) (take (span i sz ofs) (drop (nat r) buf))"
      if k1: "same k k1" "sectors (fs_device k1) = (sectors (fs_device k))[unat ?s := put_bytes ?sec (nat (ofs mod 512)) ?piece]"
        "dev_ok (fs_device k1)" "no_fail k1" for k1 bb1
    proof -
      have fl: "flat k1 = put_bytes (flat k) (data_at i + nat ofs) ?piece"
        unfolding flat_def [of k1] k1(2)
        by (rule sector_update [OF less.prems(1,4,6) t(2)]) (use ps(3) get(2) in simp)
      have ll: "length (flat k1) = length (flat k)"
        unfolding fl by (rule length_put_bytes) (use fit get(2) ps(2) in simp)
      have pre: "inode_heap k1 p = Some i" "inode_ok k1 i" "0 \<le> ofs + c" "ofs + c < 2 ^ 31" "0 \<le> r + c"
        using less.prems(2,4,6,8) ps(1) ll same_fields(2) [OF k1(1)] inode_length_range(1) [of i]
        by (simp_all add: inode_ok_def c_def)
      have r: "nat (r + c) = nat r + nat c" using less.prems(8) ps(1) by simp
      have "nat (r + c) + span i (sz - c) (ofs + c) \<le> length buf" using less.prems(9) ps(2) r by simp
      from less.hyps [OF _ k1(3) pre(1) less.prems(3) pre(2) k1(4) pre(3-5) this] t(1) ps(1)
      obtain k' where k': "write_loop p buf (r + c) (sz - c) (ofs + c) bb1 k1 = Inr (r + c + int (span i (sz - c) (ofs + c)), k')"
          "same k1 k'" "dev_ok (fs_device k')"
          "flat k' = put_bytes (flat k1) (data_at i + nat (ofs + c)) (take (span i (sz - c) (ofs + c)) (drop (nat (r + c)) buf))"
        by auto
      have a: "data_at i + nat (ofs + c) = (data_at i + nat ofs) + nat c" using ps(5) by simp
      have d: "drop (nat (r + c)) buf = drop (nat c) (drop (nat r) buf)" unfolding r drop_drop by (simp add: ac_simps)
      have "flat k' = put_bytes (flat k) (data_at i + nat ofs) (take (span i sz ofs) (drop (nat r) buf))"
        unfolding k'(4) fl a d ps(2)
        by (rule put_take_split) (use less.prems(8,9) fit ps(2) in auto)
      moreover have "r + c + int (span i (sz - c) (ofs + c)) = r + int (span i sz ofs)" using ps(1,2) by simp
      ultimately show ?thesis using k' same_trans [OF k1(1) k'(2)] by auto
    qed
    show ?thesis
    proof (cases "ofs mod 512 = 0 \<and> c = 512")
      case True
      have g: "get_block buf r BLOCK_SECTOR_SIZE = Inr ?piece" using get(1) True by (simp add: BLOCK_SECTOR_SIZE_def)
      obtain k1 where k1: "fs_write ?s ?piece k = Inr k1" "same k k1"
          "sectors (fs_device k1) = (sectors (fs_device k))[unat ?s := ?piece]" "dev_ok (fs_device k1)" "mallocs k1 = mallocs k"
        using fs_write_ok [OF less.prems(1) sec, of ?piece] get(2) True by auto
      have "put_bytes ?sec (nat (ofs mod 512)) ?piece = ?piece" using True get(2) l512 by (simp add: put_bytes_whole)
      then have k1s: "sectors (fs_device k1) = (sectors (fs_device k))[unat ?s := put_bytes ?sec (nat (ofs mod 512)) ?piece]"
        using k1(3) by simp
      have "write_loop p buf r sz ofs bb k = write_loop p buf (r + c) (sz - c) (ofs + c) bb k1"
        using t(1) less.prems(3) f ch' ps(1) True g k1(1)
        by (subst write_loop.simps) (simp add: BLOCK_SECTOR_SIZE_def)
      then show ?thesis using rest [OF k1(2) k1s k1(4)] less.prems(5) k1(5) by (simp add: no_fail_def)
    next
      case False
      obtain bb1 k0 where b: "get_bounce bb k = (bb1, k0)" "bb1 \<noteq> 0" "same k k0" "fs_device k0 = fs_device k" "no_fail k0"
        using no_fail_bounce [OF less.prems(5)] by blast
      have so: "0 \<le> ofs mod 512" "ofs mod 512 + c \<le> 512" using ps(1,3) by linarith+
      obtain bytes k1 where k1: "(if ofs mod 512 > 0 \<or> c < 512 - ofs mod 512 then fs_read ?s k0
            else Inr (replicate (nat BLOCK_SECTOR_SIZE) 0, k0)) = Inr (bytes, k1)"
          "same k0 k1" "sectors (fs_device k1) = sectors (fs_device k)" "dev_ok (fs_device k1)" "mallocs k1 = mallocs k0"
          "length bytes = 512" "put_bytes bytes (nat (ofs mod 512)) ?piece = put_bytes ?sec (nat (ofs mod 512)) ?piece"
        using old_sector [of k0 ?s "ofs mod 512" c] less.prems(1) sec b(4) so ps(1) get(2) by auto
      have put: "put_block bytes (ofs mod 512) ?piece = Inr (put_bytes ?sec (nat (ofs mod 512)) ?piece)"
        using put_block_at [of "ofs mod 512" ?piece bytes] so(1) k1(6,7) get(2) ps(3) by simp
      have lw: "length (put_bytes ?sec (nat (ofs mod 512)) ?piece) = 512"
        using length_put_bytes [of "nat (ofs mod 512)" ?piece ?sec] ps(3) get(2) l512 by simp
      obtain k2 where k2: "fs_write ?s (put_bytes ?sec (nat (ofs mod 512)) ?piece) k1 = Inr k2" "same k1 k2"
          "sectors (fs_device k2) = (sectors (fs_device k))[unat ?s := put_bytes ?sec (nat (ofs mod 512)) ?piece]"
          "dev_ok (fs_device k2)" "mallocs k2 = mallocs k1"
        using fs_write_ok [OF k1(4) _ lw, of ?s] k1(3) sec by auto
      have "write_loop p buf r sz ofs bb k = write_loop p buf (r + c) (sz - c) (ofs + c) bb1 k2"
        using t(1) less.prems(3) f ch' ps(1) False b(1,2) k1(1) k2(1) get(1) put
        by (subst write_loop.simps) (auto simp: BLOCK_SECTOR_SIZE_def)
      then show ?thesis
        using rest [OF same_trans [OF b(3) same_trans [OF k1(2) k2(2)]] k2(3,4)] b(5) k1(5) k2(5) by (simp add: no_fail_def)
    qed
  qed
qed

section \<open>Contents\<close>

lemma part_put_bytes:
  assumes "ofs + length bs \<le> n" "d + n \<le> length m"
  shows "take n (drop d (put_bytes m (d + ofs) bs)) = put_bytes (take n (drop d m)) ofs bs"
  using assms by (intro nth_equalityI) (auto simp: nth_put_bytes)

lemma part_put_bytes_apart:
  assumes "i + length bs \<le> length m" "d + n \<le> i \<or> i + length bs \<le> d" "d + n \<le> length m"
  shows "take n (drop d (put_bytes m i bs)) = take n (drop d m)"
  using assms by (intro nth_equalityI) (auto simp: nth_put_bytes)

definition apart :: "inode \<Rightarrow> inode \<Rightarrow> bool" where
  "apart i j \<longleftrightarrow> inode_length i \<le> 0 \<or> inode_length j \<le> 0 \<or> data_at i + nat (inode_length i) \<le> data_at j \<or> data_at j + nat (inode_length j) \<le> data_at i"

lemma length_content: "inode_ok k i \<Longrightarrow> length (content k i) = nat (inode_length i)"
  by (auto simp: content_def inode_ok_def data_at_def min_def)

lemma span_le: "0 \<le> ofs \<Longrightarrow> ofs \<le> inode_length i \<Longrightarrow> nat ofs + span i sz ofs \<le> nat (inode_length i)"
proof -
  assume a: "0 \<le> ofs" "ofs \<le> inode_length i"
  have "span i sz ofs \<le> nat (inode_length i - ofs)" by (simp add: span_def)
  also have "\<dots> = nat (inode_length i) - nat ofs" using a(1) by (simp add: nat_diff_distrib')
  finally show ?thesis using a by linarith
qed

lemma inode_write_at_writes:
  assumes "dev_ok (fs_device k)" "inode_heap k p = Some i" "p \<noteq> 0" "inode_ok k i" "no_fail k" "deny_write_cnt i = 0"
    and "0 \<le> ofs" "ofs \<le> inode_length i" "span i sz ofs \<le> length buf"
  shows "\<exists>k'. inode_write_at p buf sz ofs k = Inr (int (span i sz ofs), k') \<and> same k k' \<and> dev_ok (fs_device k') \<and>
    flat k' = put_bytes (flat k) (data_at i + nat ofs) (take (span i sz ofs) buf) \<and> length (flat k') = length (flat k) \<and>
    content k' i = put_bytes (content k i) (nat ofs) (take (span i sz ofs) buf) \<and>
    (\<forall>j. inode_ok k j \<and> apart i j \<longrightarrow> content k' j = content k j)"
proof -
  have b: "ofs < 2 ^ 31" using assms(8) inode_length_range(1) [of i] by simp
  obtain k' where k': "write_loop p buf 0 sz ofs 0 k = Inr (int (span i sz ofs), k')" "same k k'" "dev_ok (fs_device k')"
    "flat k' = put_bytes (flat k) (data_at i + nat ofs) (take (span i sz ofs) buf)"
    using write_loop_writes [OF assms(1-5,7) b, of 0 sz buf 0] assms(9) by auto
  have w: "inode_write_at p buf sz ofs k = Inr (int (span i sz ofs), k')"
    using k'(1) assms(2,3,6) by (simp add: inode_write_at_def follow_def)
  have s: "nat ofs + span i sz ofs \<le> nat (inode_length i)" by (rule span_le [OF assms(7,8)])
  have l: "data_at i + nat (inode_length i) \<le> length (flat k)" using assms(4) by (simp add: inode_ok_def data_at_def)
  have c: "content k' i = put_bytes (content k i) (nat ofs) (take (span i sz ofs) buf)"
    unfolding content_def k'(4) by (rule part_put_bytes) (use s l assms(9) in auto)
  have o: "content k' j = content k j" if j: "inode_ok k j" "apart i j" for j
  proof (cases "inode_length i \<le> 0 \<or> inode_length j \<le> 0")
    case True
    then show ?thesis using s k'(4) by (auto simp: content_def)
  next
    case False
    then show ?thesis
      unfolding content_def k'(4)
      by (intro part_put_bytes_apart) (use s l j assms(9) in \<open>auto simp: apart_def inode_ok_def data_at_def\<close>)
  qed
  have "length (flat k') = length (flat k)"
    unfolding k'(4) by (rule length_put_bytes) (use s l assms(9) in auto)
  then show ?thesis using w k' c o by blast
qed

lemma same_inode_ok: "length (flat k') = length (flat k) \<Longrightarrow> inode_ok k' i = inode_ok k i"
  by (simp add: inode_ok_def)

section \<open>Files\<close>

lemma same_put_file [simp]:
  "flat (put_file p f k) = flat k" "fs_device (put_file p f k) = fs_device k"
  "inode_heap (put_file p f k) = inode_heap k" "no_fail (put_file p f k) = no_fail k"
  "file_heap (put_file p f k) = (file_heap k)(p \<mapsto> f)" "inode_ok (put_file p f k) i = inode_ok k i"
  "content (put_file p f k) i = content k i"
  by (simp_all add: put_file_def flat_def no_fail_def inode_ok_def content_def)

lemma take_drop_put_bytes: "i + length bs \<le> length m \<Longrightarrow> take (length bs) (drop i (put_bytes m i bs)) = bs"
  by (simp add: put_bytes_def)

lemma file_write_read:
  assumes "dev_ok (fs_device k)" "file_heap k p = Some f" "p \<noteq> 0" "inode_heap k (file_inode f) = Some i" "file_inode f \<noteq> 0"
    and "inode_ok k i" "no_fail k" "deny_write_cnt i = 0" "0 \<le> file_pos f" "file_pos f + int (length bs) \<le> inode_length i"
    and "length buf = length bs"
  shows "\<exists>k1 k2 k3. file_write p bs (int (length bs)) k = Inr (int (length bs), k1) \<and>
    file_seek p (file_pos f) k1 = Inr k2 \<and> file_read p buf (int (length bs)) k2 = Inr (int (length bs), bs, k3)"
proof -
  have sp: "span i (int (length bs)) (file_pos f) = length bs" using assms(10) by (simp add: span_def)
  have r: "file_pos f + int (length bs) < 2 ^ 31" "file_pos f < 2 ^ 31"
    using assms(10) inode_length_range(1) [of i] by simp_all
  obtain k1 where k1: "inode_write_at (file_inode f) bs (int (length bs)) (file_pos f) k = Inr (int (length bs), k1)"
    "same k k1" "dev_ok (fs_device k1)" "length (flat k1) = length (flat k)"
    "content k1 i = put_bytes (content k i) (nat (file_pos f)) bs"
    using inode_write_at_writes [OF assms(1,4-8,9), of "int (length bs)" bs] assms(10) sp by auto
  note s1 = same_fields [OF k1(2)]
  define k2 where "k2 = put_file p f k1"
  have w: "file_write p bs (int (length bs)) k = Inr (int (length bs), put_file p (f\<lparr>file_pos := file_pos f + int (length bs)\<rparr>) k1)"
    using assms(2,3,9) k1(1) r by (simp add: file_write_def follow_def int32_def)
  have s: "file_seek p (file_pos f) (put_file p (f\<lparr>file_pos := file_pos f + int (length bs)\<rparr>) k1) = Inr k2"
    using assms(3,9) by (simp add: file_seek_def follow_def k2_def) (simp add: put_file_def)
  have "dev_ok (fs_device k2)" "inode_heap k2 (file_inode f) = Some i" "inode_ok k2 i" "no_fail k2"
    using k1 assms(4,6,7) s1(2) same_no_fail [OF k1(2)] by (simp_all add: k2_def same_inode_ok [OF k1(4)])
  note k2 = this
  have sb: "span i (int (length bs)) (file_pos f) \<le> length buf" using sp assms(11) by simp
  obtain k3 where "inode_read_at (file_inode f) buf (int (length bs)) (file_pos f) k2 =
      Inr (int (span i (int (length bs)) (file_pos f)),
        put_bytes buf 0 (take (nat (int (length bs))) (drop (nat (file_pos f)) (content k2 i))), k3)"
    using inode_read_at_reads [OF k2(1,2) assms(5) k2(3,4) assms(9) r(2) sb] by blast
  moreover have "content k2 i = content k1 i" by (simp add: k2_def)
  ultimately have k3: "inode_read_at (file_inode f) buf (int (length bs)) (file_pos f) k2 =
      Inr (int (length bs), put_bytes buf 0 (take (length bs) (drop (nat (file_pos f)) (content k1 i))), k3)"
    by (simp only: sp nat_int)
  have "nat (file_pos f) + length bs \<le> length (content k i)"
    using assms(6,9,10) by (simp add: length_content)
  then have "put_bytes buf 0 (take (length bs) (drop (nat (file_pos f)) (content k1 i))) = bs"
    using assms(11) by (simp add: k1(5) take_drop_put_bytes put_bytes_whole)
  then have "file_read p buf (int (length bs)) k2 =
      Inr (int (length bs), bs, put_file p (f\<lparr>file_pos := file_pos f + int (length bs)\<rparr>) k3)"
    using k3 assms(3,9) r by (simp add: file_read_def follow_def int32_def) (simp add: k2_def)
  then show ?thesis using w s by blast
qed

end
