(* ===== verification/Pintos_Directory_Refinement.thy ===== *)
theory Pintos_Directory_Refinement
  imports Pintos_Directory Pintos_Inode_Refinement
begin

text \<open>
  Directories against an abstract table: a finite map from names to sectors, read off the entries that
  are in use. Looking a name up reads the map, and adding one extends it.
\<close>

section \<open>Entries\<close>

definition entry_name :: "byte_t list \<Rightarrow> byte_t list" where
  "entry_name e = takeWhile (\<lambda>ch. ch \<noteq> 0) (take 15 (drop 4 e))"

definition entry_ok :: "byte_t list \<Rightarrow> bool" where
  "entry_ok e \<longleftrightarrow> length e = 20 \<and> (entry_in_use e \<longrightarrow> 0 \<in> set (take 15 (drop 4 e)))"

definition slots :: "byte_t list \<Rightarrow> byte_t list list" where
  "slots c = map (\<lambda>j. take 20 (drop (20 * j) c)) [0..<length c div 20]"

definition dir_ok :: "byte_t list \<Rightarrow> bool" where
  "dir_ok c \<longleftrightarrow> length c mod 20 = 0 \<and> (\<forall>e \<in> set (slots c). entry_ok e) \<and>
    distinct (map entry_name (filter entry_in_use (slots c)))"

text \<open>The table of a directory with content \<open>c\<close>.\<close>

definition dir_table :: "byte_t list \<Rightarrow> byte_t list \<Rightarrow> word_t option" where
  "dir_table c = map_of (map (\<lambda>e. (entry_name e, entry_sector e)) (filter entry_in_use (slots c)))"

lemma length_slots [simp]: "length (slots c) = length c div 20"
  by (simp add: slots_def)

lemma slot_nth: "j < length c div 20 \<Longrightarrow> slots c ! j = take 20 (drop (20 * j) c)"
  by (simp add: slots_def)

lemma cstr_append: "cstr m p s \<Longrightarrow> cstr (m @ x) p s"
  by (induction s arbitrary: p) (auto simp: nth_append)

lemma cstr_takeWhile:
  "0 < p \<Longrightarrow> 0 \<in> set (drop p m) \<Longrightarrow> cstr m p (takeWhile (\<lambda>ch. ch \<noteq> 0) (drop p m))"
proof (induction "length m - p" arbitrary: p)
  case 0
  then show ?case by simp
next
  case (Suc n)
  then have p: "p < length m" by simp
  then have d: "drop p m = m ! p # drop (Suc p) m" by (simp add: Cons_nth_drop_Suc)
  show ?case
  proof (cases "m ! p = 0")
    case True then show ?thesis using Suc.prems(1) p by (simp add: d)
  next
    case False
    then have "cstr m (Suc p) (takeWhile (\<lambda>ch. ch \<noteq> 0) (drop (Suc p) m))"
      using Suc p d by (intro Suc.hyps(1)) auto
    then show ?thesis using False Suc.prems(1) p by (simp add: d)
  qed
qed

lemma entry_name_cstr:
  assumes "0 < length m" "0 \<in> set (take 15 (drop 4 e))"
  shows "cstr (m @ e) (length m + 4) (entry_name e)"
proof -
  have d: "drop (length m + 4) (m @ e) = take 15 (drop 4 e) @ drop 15 (drop 4 e)" by (simp del: drop_drop)
  have "takeWhile (\<lambda>ch. ch \<noteq> 0) (drop (length m + 4) (m @ e)) = entry_name e"
    unfolding d entry_name_def by (rule takeWhile_append1) (use assms(2) in auto)
  moreover have "0 \<in> set (drop (length m + 4) (m @ e))" unfolding d using assms(2) by auto
  ultimately show ?thesis using cstr_takeWhile [of "length m + 4" "m @ e"] assms(1) by simp
qed

lemma name_cmp_entry:
  assumes "cstr m name s" "entry_ok e" "entry_in_use e"
  shows "name_cmp m name e = Inr (cmp_bytes s (entry_name e))"
proof -
  have "0 < length m" using cstr_bounds [OF assms(1)] by auto
  then have "cstr (m @ e) (length m + 4) (entry_name e)"
    using assms(2,3) by (intro entry_name_cstr) (auto simp: entry_ok_def)
  then show ?thesis
    unfolding name_cmp_def entry_name_at_def by (rule strcmp_cstr [OF cstr_append [OF assms(1)]])
qed

section \<open>Walking over the entries\<close>

fun find_slot :: "('a \<Rightarrow> bool) \<Rightarrow> nat \<Rightarrow> 'a list \<Rightarrow> ('a \<times> nat) option" where
  "find_slot P j [] = None"
| "find_slot P j (x # xs) = (if P x then Some (x, j) else find_slot P (j + 1) xs)"

lemma find_slot_None: "find_slot P j xs = None \<longleftrightarrow> (\<forall>x \<in> set xs. \<not> P x)"
  by (induction xs arbitrary: j) auto

lemma find_slot_Some:
  "find_slot P j xs = Some (x, n) \<Longrightarrow>
   j \<le> n \<and> n - j < length xs \<and> xs ! (n - j) = x \<and> P x \<and> (\<forall>y \<in> set (take (n - j) xs). \<not> P y)"
proof (induction xs arbitrary: j)
  case (Cons y ys)
  show ?case
  proof (cases "P y")
    case True then show ?thesis using Cons.prems by auto
  next
    case False
    then have "find_slot P (j + 1) ys = Some (x, n)" using Cons.prems by simp
    from Cons.IH [OF this] have "j + 1 \<le> n" "n - (j + 1) < length ys" "ys ! (n - (j + 1)) = x" "P x"
      "\<forall>y \<in> set (take (n - (j + 1)) ys). \<not> P y" by auto
    moreover from this(1) obtain d where "n - j = Suc d" "d = n - (j + 1)" by (metis Suc_diff_Suc Suc_eq_plus1 Suc_le_lessD)
    ultimately show ?thesis using False by auto
  qed
qed simp

text \<open>An inode in memory whose data lie on a device that works, and enough memory for the buffers.\<close>

definition live_inode :: "fs \<Rightarrow> addr \<Rightarrow> inode \<Rightarrow> bool" where
  "live_inode k p i \<longleftrightarrow> dev_ok (fs_device k) \<and> inode_heap k p = Some i \<and> p \<noteq> 0 \<and> inode_ok k i \<and> no_fail k"

lemma live_inode_same:
  assumes "live_inode k p i" "same k k'" "length (flat k') = length (flat k)" "dev_ok (fs_device k')"
  shows "live_inode k' p i"
  using assms same_fields(2) [OF assms(2)] same_no_fail [OF assms(2)] same_inode_ok [OF assms(3)]
  by (simp add: live_inode_def)

lemma flat_content: "flat k' = flat k \<Longrightarrow> content k' i = content k i"
  by (simp add: content_def)

lemma slot_bounds:
  "j \<le> L div 20 \<Longrightarrow> 20 * j \<le> (L :: nat)" "j < L div 20 \<Longrightarrow> 20 * j + 20 \<le> (L :: nat)"
  "\<not> j < L div 20 \<Longrightarrow> L < 20 * j + (20 :: nat)"
  by (simp_all add: less_eq_div_iff_mult_less_eq Suc_le_eq [symmetric] div_less_iff_less_mult not_less)

lemma read_entry:
  assumes "live_inode k p i" "length e = 20" "j \<le> length (content k i) div 20"
  shows "\<exists>n e' k'. inode_read_at p e (int entry_size) (sint (of_nat (20 * j) :: word_t)) k = Inr (n, e', k') \<and>
    same k k' \<and> flat k' = flat k \<and> live_inode k' p i \<and> length e' = 20 \<and>
    (if j < length (content k i) div 20 then n = int entry_size \<and> e' = slots (content k i) ! j else n \<noteq> int entry_size)"
proof -
  let ?c = "content k i"
  have ok: "dev_ok (fs_device k)" "inode_heap k p = Some i" "p \<noteq> 0" "inode_ok k i" "no_fail k"
    using assms(1) by (auto simp: live_inode_def)
  have lc: "length ?c = nat (inode_length i)" by (rule length_content [OF ok(4)])
  have len: "0 \<le> inode_length i" using ok(4) by (simp add: inode_ok_def)
  have jl: "20 * j \<le> length ?c" by (rule slot_bounds(1) [OF assms(3)])
  then have "int (20 * j) \<le> inode_length i" using lc len by linarith
  then have "20 * j < 2 ^ 31" using inode_length_range(1) [of i] by simp
  then have s: "sint (of_nat (20 * j) :: word_t) = int (20 * j)" by (simp only: signed_of_nat) (simp add: signed_take_bit_int_eq_self)
  have b: "int (20 * j) < 2 ^ 31" "int (20 * j) \<le> inode_length i" using \<open>20 * j < 2 ^ 31\<close> jl lc len by auto
  have "span i (int entry_size) (int (20 * j)) \<le> length e" using assms(2) by (simp add: span_def entry_size_def)
  from inode_read_at_reads [OF ok _ b(1) this]
  obtain k' where k': "inode_read_at p e (int entry_size) (int (20 * j)) k =
      Inr (int (span i (int entry_size) (int (20 * j))),
        put_bytes e 0 (take (nat (int entry_size)) (drop (nat (int (20 * j))) ?c)), k')"
      "same k k'" "flat k' = flat k" "dev_ok (fs_device k')" by auto
  let ?e = "put_bytes e 0 (take 20 (drop (20 * j) ?c))"
  have le: "length ?e = 20" using assms(2) by (simp add: length_put_bytes)
  have sp: "span i (int entry_size) (int (20 * j)) = min 20 (length ?c - 20 * j)"
    using b(2) lc len by (auto simp: span_def entry_size_def min_def nat_diff_distrib')
  have "if j < length ?c div 20 then int (min 20 (length ?c - 20 * j)) = int entry_size \<and> ?e = slots ?c ! j
    else int (min 20 (length ?c - 20 * j)) \<noteq> int entry_size"
  proof (cases "j < length ?c div 20")
    case True
    then have "20 * j + 20 \<le> length ?c" by (rule slot_bounds(2))
    then show ?thesis using True assms(2) by (simp add: entry_size_def slot_nth put_bytes_whole)
  next
    case False
    then have "length ?c < 20 * j + 20" by (rule slot_bounds(3))
    then show ?thesis using False jl by (simp add: entry_size_def)
  qed
  moreover have "length (flat k') = length (flat k)" using k'(3) by simp
  then have "live_inode k' p i" by (rule live_inode_same [OF assms(1) k'(2) _ k'(4)])
  moreover have "inode_read_at p e (int entry_size) (sint (of_nat (20 * j) :: word_t)) k =
      Inr (int (min 20 (length ?c - 20 * j)), ?e, k')"
    unfolding s k'(1) sp nat_int by (simp add: entry_size_def)
  ultimately show ?thesis using k'(2,3) le by metis
qed

lemma word_20_Suc: "of_nat (20 * j) + of_nat entry_size = (of_nat (20 * Suc j) :: word_t)"
  by (simp add: entry_size_def)

definition matches :: "byte_t list \<Rightarrow> byte_t list \<Rightarrow> bool" where
  "matches s e \<longleftrightarrow> entry_in_use e \<and> s = entry_name e"

lemma lookup_loop_finds:
  assumes "live_inode k p i" "\<forall>e \<in> set (slots (content k i)). entry_ok e" "cstr m name s"
    and "length e = 20" "j \<le> length (content k i) div 20"
  shows "\<exists>k'. lookup_loop p m name (of_nat (20 * j)) e k =
      Inr (map_option (\<lambda>(e, n). (e, of_nat (20 * n))) (find_slot (matches s) j (drop j (slots (content k i)))), k') \<and>
    same k k' \<and> flat k' = flat k \<and> live_inode k' p i"
  using assms
proof (induction "length (content k i) div 20 - j" arbitrary: j e k)
  case 0
  then obtain n e' k' where r: "inode_read_at p e (int entry_size) (sint (of_nat (20 * j) :: word_t)) k = Inr (n, e', k')"
    "same k k'" "flat k' = flat k" "live_inode k' p i" "n \<noteq> int entry_size"
    using read_entry [OF 0(2,5,6)] by auto
  then show ?case using 0(1,6) by (subst lookup_loop.simps) auto
next
  case (Suc d)
  let ?c = "content k i"
  have j: "j < length ?c div 20" using Suc.hyps(2) by simp
  obtain k1 where r: "inode_read_at p e (int entry_size) (sint (of_nat (20 * j) :: word_t)) k = Inr (int entry_size, slots ?c ! j, k1)"
    "same k k1" "flat k1 = flat k" "live_inode k1 p i" "length (slots ?c ! j) = 20"
    using read_entry [OF Suc.prems(1,4,5)] j by auto
  let ?e = "slots ?c ! j"
  have e: "entry_ok ?e" using Suc.prems(2) j by simp
  have dr: "drop j (slots ?c) = ?e # drop (Suc j) (slots ?c)" using j by (simp add: Cons_nth_drop_Suc)
  have cmp: "bindE (if entry_in_use ?e then bindE (name_cmp m name ?e) (\<lambda>c. Inr (c = 0)) else Inr False) f = f (matches s ?e)"
    for f :: "bool \<Rightarrow> c_error + ((byte_t list \<times> word_t) option \<times> fs)"
    using name_cmp_entry [OF Suc.prems(3) e] by (auto simp: matches_def)
  have c1: "content k1 i = ?c" by (rule flat_content [OF r(3)])
  then have d: "d = length (content k1 i) div 20 - Suc j" using Suc.hyps(2) by (simp only: diff_Suc_eq_diff_pred)
  show ?case
  proof (cases "matches s ?e")
    case True
    have "lookup_loop p m name (of_nat (20 * j)) e k = Inr (Some (?e, of_nat (20 * j)), k1)"
      by (subst lookup_loop.simps) (simp only: r(1) bindE.simps split_conv simp_thms if_True cmp True)
    then show ?thesis using True r(2-4) by (simp add: dr)
  next
    case False
    have "lookup_loop p m name (of_nat (20 * j)) e k = lookup_loop p m name (of_nat (20 * Suc j)) ?e k1"
      by (subst lookup_loop.simps) (simp only: r(1) bindE.simps split_conv simp_thms if_True if_False cmp False word_20_Suc)
    moreover obtain k' where "lookup_loop p m name (of_nat (20 * Suc j)) ?e k1 =
        Inr (map_option (\<lambda>(e, n). (e, of_nat (20 * n))) (find_slot (matches s) (Suc j) (drop (Suc j) (slots ?c))), k')"
        "same k1 k'" "flat k' = flat k1" "live_inode k' p i"
      using Suc.hyps(1) [OF d r(4) _ Suc.prems(3) r(5)] Suc.prems(2) j unfolding c1 by (metis Suc_leI)
    ultimately show ?thesis
      using False same_trans [OF r(2)] r(3) by (auto simp: dr)
  qed
qed

lemma free_slot_loop_finds:
  assumes "live_inode k p i" "length e = 20" "j \<le> length (content k i) div 20"
  shows "\<exists>e' k'. free_slot_loop p (of_nat (20 * j)) e k =
      (case find_slot (\<lambda>e. \<not> entry_in_use e) j (drop j (slots (content k i))) of
         Some (e, n) \<Rightarrow> Inr (of_nat (20 * n), e, k')
       | None \<Rightarrow> Inr (of_nat (20 * (length (content k i) div 20)), e', k')) \<and> length e' = 20 \<and>
    same k k' \<and> flat k' = flat k \<and> live_inode k' p i"
  using assms
proof (induction "length (content k i) div 20 - j" arbitrary: j e k)
  case 0
  then obtain n e' k' where r: "inode_read_at p e (int entry_size) (sint (of_nat (20 * j) :: word_t)) k = Inr (n, e', k')"
    "same k k'" "flat k' = flat k" "live_inode k' p i" "n \<noteq> int entry_size" "length e' = 20"
    using read_entry [OF 0(2,3,4)] by auto
  moreover have "j = length (content k i) div 20" using 0 by simp
  ultimately show ?case by (subst free_slot_loop.simps) auto
next
  case (Suc d)
  let ?c = "content k i"
  have j: "j < length ?c div 20" using Suc.hyps(2) by simp
  obtain k1 where r: "inode_read_at p e (int entry_size) (sint (of_nat (20 * j) :: word_t)) k = Inr (int entry_size, slots ?c ! j, k1)"
    "same k k1" "flat k1 = flat k" "live_inode k1 p i" "length (slots ?c ! j) = 20"
    using read_entry [OF Suc.prems(1,2,3)] j by auto
  let ?e = "slots ?c ! j"
  have dr: "drop j (slots ?c) = ?e # drop (Suc j) (slots ?c)" using j by (simp add: Cons_nth_drop_Suc)
  have c1: "content k1 i = ?c" by (rule flat_content [OF r(3)])
  then have d: "d = length (content k1 i) div 20 - Suc j" using Suc.hyps(2) by (simp only: diff_Suc_eq_diff_pred)
  show ?case
  proof (cases "entry_in_use ?e")
    case False
    have "free_slot_loop p (of_nat (20 * j)) e k = Inr (of_nat (20 * j), ?e, k1)"
      by (subst free_slot_loop.simps) (simp only: r(1) bindE.simps split_conv simp_thms if_True False not_False_eq_True if_cancel)
    then show ?thesis using False r(2-5) by (auto simp: dr)
  next
    case True
    have "free_slot_loop p (of_nat (20 * j)) e k = free_slot_loop p (of_nat (20 * Suc j)) ?e k1"
      by (subst free_slot_loop.simps) (simp only: r(1) bindE.simps split_conv simp_thms if_True if_False True not_True_eq_False word_20_Suc)
    moreover obtain e' k' where "free_slot_loop p (of_nat (20 * Suc j)) ?e k1 =
      (case find_slot (\<lambda>e. \<not> entry_in_use e) (Suc j) (drop (Suc j) (slots ?c)) of
         Some (e, n) \<Rightarrow> Inr (of_nat (20 * n), e, k')
       | None \<Rightarrow> Inr (of_nat (20 * (length ?c div 20)), e', k'))" "length e' = 20"
        "same k1 k'" "flat k' = flat k1" "live_inode k' p i"
      using Suc.hyps(1) [OF d r(4,5)] j unfolding c1 by (metis Suc_leI)
    ultimately show ?thesis
      using True same_trans [OF r(2)] r(3) by (auto simp: dr split: option.splits)
  qed
qed

section \<open>The table\<close>

lemma find_slot_table:
  "map_option (entry_sector \<circ> fst) (find_slot (matches s) j xs) =
    map_of (map (\<lambda>e. (entry_name e, entry_sector e)) (filter entry_in_use xs)) s"
  by (induction xs arbitrary: j) (auto simp: matches_def)

text \<open>The entry that \<open>dir_add\<close> writes.\<close>

definition new_entry :: "byte_t list \<Rightarrow> word_t \<Rightarrow> byte_t list \<Rightarrow> byte_t list" where
  "new_entry s sector e = put_bytes (put_bytes (e[19 := 1]) 4 (s @ [0])) 0 (word_bytes sector)"

lemma copy_name_entry:
  assumes "cstr m name s" "length s \<le> 14" "length e = 20"
  shows "copy_name m name (set_in_use True e) = Inr (put_bytes (e[19 := 1]) 4 (s @ [0]))"
proof -
  let ?e = "set_in_use True e"
  have b: "name + length s < length m" "0 < name" using cstr_bounds [OF assms(1)] cstr_pos [OF assms(1)] by auto
  have "strlcpy (length m + 4) name 15 (m @ ?e) = Inr (length s, put_bytes (m @ ?e) (length m + 4) (take (15 - 1) s @ [0]))"
    by (rule strlcpy_bytes [OF cstr_append [OF assms(1)]]) (use b assms(3) in \<open>auto simp: set_in_use_def\<close>)
  moreover have "drop (length m) (put_bytes (m @ ?e) (length m + 4) (s @ [0])) = put_bytes ?e 4 (s @ [0])"
    by (simp add: put_bytes_def)
  ultimately show ?thesis
    using assms(2) by (simp add: copy_name_def entry_name_at_def NAME_MAX_def set_in_use_def)
qed

lemma new_entry:
  assumes "length e = 20" "length s \<le> 14" "0 \<notin> set s"
  shows "length (new_entry s sector e) = 20" "entry_in_use (new_entry s sector e)" "entry_name (new_entry s sector e) = s"
    "entry_sector (new_entry s sector e) = sector" "entry_ok (new_entry s sector e)"
proof -
  let ?a = "put_bytes (e[19 := 1]) 4 (s @ [0])"
  have la: "length ?a = 20" using assms(1,2) by (simp add: length_put_bytes)
  show l: "length (new_entry s sector e) = 20" using la by (simp add: new_entry_def length_put_bytes)
  show u: "entry_in_use (new_entry s sector e)"
    using assms(1,2) la by (simp add: entry_in_use_def new_entry_def nth_put_bytes)
  have d: "drop 4 (new_entry s sector e) = s @ [0] @ drop (4 + Suc (length s)) (e[19 := 1])"
    using assms(1,2) la by (simp add: new_entry_def put_bytes_def)
  have t: "take 15 (drop 4 (new_entry s sector e)) = s @ [0] @ take (14 - length s) (drop (4 + Suc (length s)) (e[19 := 1]))"
  proof -
    have "15 - length s = Suc (14 - length s)" using assms(2) by simp
    then show ?thesis unfolding d using assms(2) by simp
  qed
  have tw: "takeWhile (\<lambda>ch. ch \<noteq> 0) (s @ [0] @ x) = s" for x
    using assms(3) by (metis (mono_tags, lifting) append_Cons append_Nil2 takeWhile.simps(2) takeWhile_append2)
  show "entry_name (new_entry s sector e) = s" unfolding entry_name_def t by (rule tw)
  show "entry_ok (new_entry s sector e)" using l u by (simp add: entry_ok_def t)
  show "entry_sector (new_entry s sector e) = sector"
    by (simp add: entry_sector_def word_at_def new_entry_def put_bytes_def word_bytes_def)
qed

lemma slots_update:
  assumes "j < length c div 20" "length e = 20"
  shows "slots (put_bytes c (20 * j) e) = (slots c)[j := e]"
proof (rule nth_equalityI)
  have b: "20 * j + 20 \<le> length c" using assms(1) by (rule slot_bounds(2))
  then have l: "length (put_bytes c (20 * j) e) = length c" using assms(2) by (simp add: length_put_bytes)
  then show "length (slots (put_bytes c (20 * j) e)) = length ((slots c)[j := e])" by simp
  fix n assume "n < length (slots (put_bytes c (20 * j) e))"
  then have n: "n < length c div 20" using l by simp
  then have bn: "20 * n + 20 \<le> length c" by (rule slot_bounds(2))
  show "slots (put_bytes c (20 * j) e) ! n = (slots c)[j := e] ! n"
  proof (cases "n = j")
    case True
    then show ?thesis using n l assms b take_drop_put_bytes [of "20 * j" e c] by (simp add: slot_nth)
  next
    case False
    then have "20 * n + 20 \<le> 20 * j \<or> 20 * j + length e \<le> 20 * n" using assms(2) by linarith
    then show ?thesis
      using False n l bn b assms(2) part_put_bytes_apart [of "20 * j" e c "20 * n" 20] by (simp add: slot_nth)
  qed
qed

lemma filter_update:
  assumes "j < length xs" "\<not> P (xs ! j)" "P x"
  shows "filter P (xs[j := x]) = filter P (take j xs) @ x # filter P (drop (Suc j) xs)"
    "filter P xs = filter P (take j xs) @ filter P (drop (Suc j) xs)"
proof -
  show "filter P (xs[j := x]) = filter P (take j xs) @ x # filter P (drop (Suc j) xs)"
    using assms(1,3) by (simp add: upd_conv_take_nth_drop)
  have "xs = take j xs @ xs ! j # drop (Suc j) xs" using assms(1) by (simp add: id_take_nth_drop)
  then have "filter P xs = filter P (take j xs @ xs ! j # drop (Suc j) xs)" by simp
  then show "filter P xs = filter P (take j xs) @ filter P (drop (Suc j) xs)" using assms(2) by simp
qed

lemma map_of_insert:
  assumes "a \<notin> fst ` set (xs @ ys)"
  shows "map_of (xs @ (a, b) # ys) = (map_of (xs @ ys))(a \<mapsto> b)"
proof -
  have "map_of xs a = None" using assms by (auto simp: map_of_eq_None_iff)
  then show ?thesis by (auto simp: map_add_def fun_eq_iff split: option.splits)
qed

lemma add_to_table:
  assumes "dir_ok c" "j < length c div 20" "\<not> entry_in_use (slots c ! j)" "dir_table c s = None"
    and "length s \<le> 14" "0 \<notin> set s"
  shows "dir_ok (put_bytes c (20 * j) (new_entry s sector (slots c ! j)))"
    "dir_table (put_bytes c (20 * j) (new_entry s sector (slots c ! j))) = (dir_table c)(s \<mapsto> sector)"
proof -
  let ?e = "new_entry s sector (slots c ! j)" and ?xs = "slots c"
  have ok: "entry_ok (?xs ! j)" using assms(1,2) by (simp add: dir_ok_def)
  then have l20: "length (?xs ! j) = 20" by (simp add: entry_ok_def)
  note e = new_entry [OF l20 assms(5,6), of sector]
  have sl: "slots (put_bytes c (20 * j) ?e) = ?xs[j := ?e]" by (rule slots_update [OF assms(2) e(1)])
  have jl: "j < length ?xs" using assms(2) by simp
  note f = filter_update [where P = entry_in_use, OF jl assms(3) e(2)]
  have nin: "s \<notin> entry_name ` set (filter entry_in_use (take j ?xs) @ filter entry_in_use (drop (Suc j) ?xs))"
    using assms(4) unfolding dir_table_def map_of_eq_None_iff f(2) [symmetric] by (auto simp: image_iff)
  show "dir_table (put_bytes c (20 * j) ?e) = (dir_table c)(s \<mapsto> sector)"
    using nin unfolding dir_table_def sl f(1) f(2)
    by (simp only: map_append list.map e(3,4)) (rule map_of_insert, auto simp: image_iff)
  have "length (put_bytes c (20 * j) ?e) = length c"
    using slot_bounds(2) [OF assms(2)] e(1) by (simp add: length_put_bytes)
  moreover have "\<forall>x \<in> set (?xs[j := ?e]). entry_ok x"
    using assms(1) e(5) set_update_subset_insert [of ?xs j ?e] by (auto simp: dir_ok_def)
  moreover have "distinct (map entry_name (filter entry_in_use (?xs[j := ?e])))"
    using assms(1) nin unfolding dir_ok_def f(1) f(2) by (auto simp: e(3))
  ultimately show "dir_ok (put_bytes c (20 * j) ?e)" using assms(1) by (simp add: dir_ok_def sl)
qed

section \<open>Looking up and adding\<close>

lemma lookup_name_table:
  assumes "dir_heap k dir = Some d" "dir \<noteq> 0" "live_inode k (dir_inode d) i" "dir_ok (content k i)"
    and "cstr m name s" "length e = 20"
  shows "\<exists>r k'. lookup_name dir m name e k = Inr (r, k') \<and> same k k' \<and> flat k' = flat k \<and> live_inode k' (dir_inode d) i \<and>
    map_option (entry_sector \<circ> fst) r = dir_table (content k i) s"
proof -
  let ?r = "find_slot (matches s) 0 (slots (content k i))"
  obtain k' where k': "lookup_loop (dir_inode d) m name 0 e k = Inr (map_option (\<lambda>(e, n). (e, of_nat (20 * n))) ?r, k')"
    "same k k'" "flat k' = flat k" "live_inode k' (dir_inode d) i"
    using lookup_loop_finds [OF assms(3) _ assms(5,6), of 0] assms(4) by (auto simp: dir_ok_def)
  have "lookup_name dir m name e k = Inr (map_option (\<lambda>(e, n). (e, of_nat (20 * n))) ?r, k')"
    using k'(1) assms(1,2) cstr_pos [OF assms(5)] by (simp add: lookup_name_def follow_def)
  moreover have "map_option (entry_sector \<circ> fst) (map_option (\<lambda>(e, n). (e, of_nat (20 * n) :: word_t)) ?r) = dir_table (content k i) s"
    unfolding dir_table_def find_slot_table [of s 0, symmetric] by (cases ?r) auto
  ultimately show ?thesis using k'(2-4) by blast
qed

definition valid_name :: "byte_t list \<Rightarrow> bool" where "valid_name s \<longleftrightarrow> s \<noteq> [] \<and> length s \<le> NAME_MAX"

lemma dir_add_check:
  assumes "cstr m name s"
  shows "bindE (ld m name) (\<lambda>c. bindE (if c = 0 then Inr False else bindE (strlen name m) (\<lambda>n. Inr (\<not> n > NAME_MAX))) f) =
    f (valid_name s)"
proof (cases s)
  case Nil
  then show ?thesis using assms by (auto simp: valid_name_def)
next
  case (Cons c s')
  then show ?thesis using assms strlen_cstr [OF assms] by (auto simp: valid_name_def not_less)
qed

lemma dir_write_slot:
  assumes "live_inode k p i" "deny_write_cnt i = 0" "length (content k i) mod 20 = 0" "length e = 20"
    and "j \<le> length (content k i) div 20"
  shows "\<exists>n k'. inode_write_at p e (int entry_size) (sint (of_nat (20 * j) :: word_t)) k = Inr (n, k') \<and>
    same k k' \<and> live_inode k' p i \<and> (n = int entry_size \<longleftrightarrow> j < length (content k i) div 20) \<and>
    content k' i = (if j < length (content k i) div 20 then put_bytes (content k i) (20 * j) e else content k i) \<and>
    length (flat k') = length (flat k) \<and> (\<forall>x. inode_ok k x \<and> apart i x \<longrightarrow> content k' x = content k x)"
proof -
  let ?c = "content k i"
  have ok: "dev_ok (fs_device k)" "inode_heap k p = Some i" "p \<noteq> 0" "inode_ok k i" "no_fail k"
    using assms(1) by (auto simp: live_inode_def)
  have lc: "length ?c = nat (inode_length i)" by (rule length_content [OF ok(4)])
  have len: "0 \<le> inode_length i" using ok(4) by (simp add: inode_ok_def)
  have b: "int (20 * j) \<le> inode_length i" using slot_bounds(1) [OF assms(5)] lc len by linarith
  then have "20 * j < 2 ^ 31" using inode_length_range(1) [of i] by simp
  then have s: "sint (of_nat (20 * j) :: word_t) = int (20 * j)" by (simp only: signed_of_nat) (simp add: signed_take_bit_int_eq_self)
  let ?n = "span i (int entry_size) (int (20 * j))"
  have n: "?n = (if j < length ?c div 20 then 20 else 0)"
  proof (cases "j < length ?c div 20")
    case True
    have "int (20 * j) + 20 \<le> inode_length i" using slot_bounds(2) [OF True] lc len by linarith
    then show ?thesis using True by (simp add: span_def entry_size_def)
  next
    case False
    then have "j = length ?c div 20" using assms(5) by simp
    moreover have "20 * (length ?c div 20) = length ?c" using assms(3) by (simp add: mod_eq_0_iff_dvd)
    ultimately have "20 * j = nat (inode_length i)" using lc by simp
    then have "int (20 * j) = inode_length i" using len by linarith
    then show ?thesis using False by (simp add: span_def entry_size_def)
  qed
  have "0 \<le> int (20 * j)" "?n \<le> length e" using n assms(4) by auto
  from inode_write_at_writes [OF ok assms(2) this(1) b this(2)]
  obtain k' where k': "inode_write_at p e (int entry_size) (int (20 * j)) k = Inr (int ?n, k')"
    "same k k'" "dev_ok (fs_device k')" "length (flat k') = length (flat k)"
    "content k' i = put_bytes ?c (nat (int (20 * j))) (take ?n e)" "\<forall>x. inode_ok k x \<and> apart i x \<longrightarrow> content k' x = content k x"
    by blast
  have "live_inode k' p i" by (rule live_inode_same [OF assms(1) k'(2,4,3)])
  then show ?thesis using k' n assms(4) unfolding s nat_int by (auto simp: entry_size_def)
qed

lemma dir_add_adds:
  assumes "dir_heap k dir = Some d" "dir \<noteq> 0" "live_inode k (dir_inode d) i" "deny_write_cnt i = 0"
    and "dir_ok (content k i)" "cstr m name s" "length e = 20"
  shows "\<exists>ok k'. dir_add dir m name sector e k = Inr (ok, k') \<and> same k k' \<and> dir_ok (content k' i) \<and>
    live_inode k' (dir_inode d) i \<and> length (flat k') = length (flat k) \<and>
    (ok \<longleftrightarrow> valid_name s \<and> dir_table (content k i) s = None \<and> (\<exists>x \<in> set (slots (content k i)). \<not> entry_in_use x)) \<and>
    dir_table (content k' i) = (if ok then (dir_table (content k i))(s \<mapsto> sector) else dir_table (content k i)) \<and>
    (\<forall>j. inode_ok k j \<and> apart i j \<longrightarrow> content k' j = content k j)"
proof -
  let ?c = "content k i"
  have nz: "name \<noteq> 0" using cstr_pos [OF assms(6)] by simp
  note start = dir_add_check [OF assms(6)]
  obtain r k1 where k1: "lookup_name dir m name e k = Inr (r, k1)" "same k k1" "flat k1 = flat k"
      "live_inode k1 (dir_inode d) i" "map_option (entry_sector \<circ> fst) r = dir_table ?c s"
    using lookup_name_table [OF assms(1-3,5-7)] by blast
  have c1: "content k1 x = content k x" for x by (rule flat_content [OF k1(3)])
  show ?thesis
  proof (cases "valid_name s \<and> r = None")
    case False
    then obtain k' where "dir_add dir m name sector e k = Inr (False, k')" "k' = k \<or> k' = k1"
      using k1(1) assms(2) nz by (cases "valid_name s") (auto simp: dir_add_def start)
    moreover have "content k' x = content k x" "same k k'" "live_inode k' (dir_inode d) i" "length (flat k') = length (flat k)" for x
      using calculation(2) c1 k1(2-4) assms(3) by auto
    moreover have "\<not> (valid_name s \<and> dir_table ?c s = None)" using False k1(5) [symmetric] by auto
    ultimately show ?thesis using assms(5) by auto
  next
    case True
    then have v: "valid_name s" "r = None" "dir_table ?c s = None" using k1(5) by auto
    have s: "length s \<le> 14" "0 \<notin> set s" using v(1) cstr_nonzero [OF assms(6)] by (auto simp: valid_name_def NAME_MAX_def)
    have dh: "dir_heap k1 dir = Some d" using assms(1) same_fields(4) [OF k1(2)] by simp
    obtain e2 k2 where k2: "free_slot_loop (dir_inode d) 0 e k1 = (case find_slot (\<lambda>e. \<not> entry_in_use e) 0 (slots ?c) of
         Some (e, n) \<Rightarrow> Inr (of_nat (20 * n), e, k2) | None \<Rightarrow> Inr (of_nat (20 * (length ?c div 20)), e2, k2))"
        "length e2 = 20" "same k1 k2" "flat k2 = flat k1" "live_inode k2 (dir_inode d) i"
      using free_slot_loop_finds [OF k1(4) assms(7), of 0] unfolding c1 by auto
    have c2: "content k2 x = content k x" for x using flat_content [OF k2(4)] c1 by simp
    obtain j x where j: "free_slot_loop (dir_inode d) 0 e k1 = Inr (of_nat (20 * j), x, k2)" "length x = 20" "j \<le> length ?c div 20"
        "j < length ?c div 20 \<longrightarrow> x = slots ?c ! j \<and> \<not> entry_in_use x"
        "j < length ?c div 20 \<longleftrightarrow> (\<exists>x \<in> set (slots ?c). \<not> entry_in_use x)"
    proof (cases "find_slot (\<lambda>e. \<not> entry_in_use e) 0 (slots ?c)")
      case None
      then show ?thesis using that [of "length ?c div 20" e2] k2(1,2) None find_slot_None [THEN iffD1, OF None] by simp
    next
      case (Some xn)
      obtain x n where xn: "xn = (x, n)" by fastforce
      note f = find_slot_Some [OF Some [unfolded xn]]
      then have "x \<in> set (slots ?c)" by (metis diff_zero nth_mem)
      then have "length x = 20" using assms(5) by (auto simp: dir_ok_def entry_ok_def)
      then show ?thesis using that [of n x] k2(1) f \<open>x \<in> set (slots ?c)\<close> Some xn by auto
    qed
    let ?e = "new_entry s sector x"
    have e: "copy_name m name (set_in_use True x) = Inr (put_bytes (x[19 := 1]) 4 (s @ [0]))"
        "set_sector sector (put_bytes (x[19 := 1]) 4 (s @ [0])) = ?e"
      using copy_name_entry [OF assms(6) s(1) j(2)] by (simp_all add: set_sector_def new_entry_def)
    have le: "length ?e = 20" by (rule new_entry(1) [OF j(2) s])
    have mod: "length (content k2 i) mod 20 = 0" using assms(5) c2 by (simp add: dir_ok_def)
    obtain n k3 where k3: "inode_write_at (dir_inode d) ?e (int entry_size) (sint (of_nat (20 * j) :: word_t)) k2 = Inr (n, k3)"
        "same k2 k3" "live_inode k3 (dir_inode d) i" "length (flat k3) = length (flat k2)" "n = int entry_size \<longleftrightarrow> j < length ?c div 20"
        "content k3 i = (if j < length ?c div 20 then put_bytes ?c (20 * j) ?e else ?c)"
        "\<forall>y. inode_ok k2 y \<and> apart i y \<longrightarrow> content k3 y = content k2 y"
      using dir_write_slot [OF k2(5) assms(4) mod le, of j] j(3) unfolding c2 by blast
    have run: "dir_add dir m name sector e k = Inr (n = int entry_size, k3)"
      using assms(2) nz k1(1) v(1,2) dh j(1) e k3(1) by (simp add: dir_add_def start follow_def)
    have "length (flat k2) = length (flat k)" using k1(3) k2(4) by simp
    then have "\<forall>y. inode_ok k y \<and> apart i y \<longrightarrow> content k3 y = content k y"
      using k3(7) c2 same_inode_ok by metis
    moreover have "same k k3" using same_trans [OF same_trans [OF k1(2) k2(3)] k3(2)] .
    moreover have "dir_ok (content k3 i)" "dir_table (content k3 i) =
        (if n = int entry_size then (dir_table ?c)(s \<mapsto> sector) else dir_table ?c)"
      using add_to_table [OF assms(5) _ _ v(3) s, of j sector] j(4) k3(5,6) assms(5) by auto
    ultimately show ?thesis using run k3(3-5) k2(4) k1(3) j(5) v(1,3) by auto
  qed
qed

end
