(* ===== verification/Pintos_Process_Memory.thy ===== *)
theory Pintos_Process_Memory
  imports Pintos_Process Pintos_Pagedir_Properties Pintos_Directory_Refinement
begin

unbundle bit_operations_syntax

text \<open>
  The address space of a program while it is being built: frames come from the user pool, each is mapped
  once, and what is written to a frame is seen at the addresses that are mapped to it and nowhere else.
\<close>

section \<open>Frames\<close>

lemma user_page:
  assumes "pools_wf ps" "flags AND PAL_USER \<noteq> 0" "flags AND PAL_ASSERT = 0"
  shows "\<exists>q ps'. palloc_get_page flags ps = Inr (q, ps') \<and>
    (if q = 0 then ps' = ps \<and> False \<notin> set (bmap (used_map (user_pool ps)))
     else pools_wf ps' \<and> kernel_pool ps' = kernel_pool ps \<and> base (user_pool ps') = base (user_pool ps) \<and>
       bit_cnt (used_map (user_pool ps')) = bit_cnt (used_map (user_pool ps)) \<and>
       (\<forall>p. upage_used ps' p \<longleftrightarrow> upage_used ps p \<or> p = q) \<and> \<not> upage_used ps q \<and>
       free_user_cnt ps = Suc (free_user_cnt ps') \<and>
       pmem ps' = (if flags AND PAL_ZERO \<noteq> 0 then memset_pages (pmem ps) q 0 4096 else pmem ps))"
proof -
  let ?p = "user_pool ps"
  have p: "pool_of flags ps = ?p" using assms(2) by (simp add: pool_of_def)
  have wf: "pool_wf ?p" using assms(1) by (simp add: pools_wf_def)
  from pool_page [OF assms(1,3), unfolded p] show ?thesis
  proof (elim disjE exE conjE)
    assume "palloc_get_page flags ps = Inr (0, ps)" "False \<notin> set (bmap (used_map ?p))"
    then show ?thesis by simp
  next
    fix j b
    let ?m = "if flags AND PAL_ZERO \<noteq> 0 then memset_pages (pmem ps) (page_at ?p j) 0 4096 else pmem ps"
    let ?ps' = "ps\<lparr>user_pool := ?p\<lparr>used_map := b\<rparr>, pmem := ?m\<rparr>"
    assume j: "j < bit_cnt (used_map ?p)" "\<not> bmap (used_map ?p) ! j" "page_at ?p j \<noteq> 0"
      and b: "bitmap_wf b" "bit_cnt b = bit_cnt (used_map ?p)" "bmap b = (bmap (used_map ?p))[j := True]"
      and "palloc_get_page flags ps = Inr (page_at ?p j, (set_pool flags (?p\<lparr>used_map := b\<rparr>) ps)\<lparr>pmem := ?m\<rparr>)"
    then have run: "palloc_get_page flags ps = Inr (page_at ?p j, ?ps')" using assms(2) by (simp add: set_pool_def)
    have "upage_used ?ps' q \<longleftrightarrow> upage_used ps q \<or> q = page_at ?p j" for q
      using j(1) b by (auto simp: upage_used_def nth_list_update)
    moreover have "\<not> upage_used ps (page_at ?p j)" using j page_at_inj [OF wf j(1)] by (auto simp: upage_used_def)
    moreover have "pools_wf ?ps'" using assms(1) b by (auto simp: pools_wf_def pool_wf_def)
    moreover have "free_user_cnt ps = Suc (free_user_cnt ?ps')"
      using filter_mark [of j "bmap (used_map ?p)"] j(1,2) b(3) by (simp add: free_user_cnt_def)
    ultimately show ?thesis
      unfolding run by (intro exI [of _ "page_at ?p j"] exI [of _ ?ps']) (use j b in auto)
  qed
qed

lemma upage_not_kernel:
  assumes "pools_wf ps" "upage_used ps q"
  shows "\<not> kpage_used ps q"
  using pool_pages_apart [OF assms(1)] assms(2) unfolding kpage_used_def upage_used_def by metis

lemma upage_usedD:
  assumes "pools_wf ps" "PHYS_BASE \<le> base (user_pool ps)" "upage_used ps q"
  shows "pg_ofs q = 0" "PHYS_BASE \<le> q" "q \<noteq> 0"
proof -
  have wf: "pool_wf (user_pool ps)" using assms(1) by (simp add: pools_wf_def)
  show "pg_ofs q = 0" "q \<noteq> 0" using assms(3) page_at(2,3) [OF wf] by (auto simp: upage_used_def)
  show "PHYS_BASE \<le> q" using assms(2,3) page_at(1) [OF wf] by (auto simp: upage_used_def word_le_nat_alt)
qed

text \<open>What happens outside the kernel's pages does not change directories.\<close>

definition dirs_kept :: "vm \<Rightarrow> vm \<Rightarrow> bool" where
  "dirs_kept v v' \<longleftrightarrow> pools_wf (palloc v') \<and> base (kernel_pool (palloc v')) = base (kernel_pool (palloc v)) \<and>
     (\<forall>q. kpage_used (palloc v') q \<longleftrightarrow> kpage_used (palloc v) q) \<and>
     (\<forall>q j. pg_ofs q = 0 \<and> kpage_used (palloc v) q \<and> j < 1024 \<longrightarrow> tab (pmem (palloc v')) q j = tab (pmem (palloc v)) q j)"

lemma dirs_keptD:
  assumes "dirs_kept v v'"
  shows "pools_wf (palloc v')" "base (kernel_pool (palloc v')) = base (kernel_pool (palloc v))"
    "kpage_used (palloc v') q \<longleftrightarrow> kpage_used (palloc v) q"
    "pg_ofs q = 0 \<Longrightarrow> kpage_used (palloc v) q \<Longrightarrow> j < 1024 \<Longrightarrow> tab (pmem (palloc v')) q j = tab (pmem (palloc v)) q j"
  using assms unfolding dirs_kept_def by blast+

lemma vm_inv_other:
  assumes inv: "vm_inv v D" and k: "dirs_kept v v'" and i: "init_page_dir v' = init_page_dir v"
  shows "vm_inv v' D" "\<And>d va. d \<in> D \<Longrightarrow> the_pte (pmem (palloc v')) d va = the_pte (pmem (palloc v)) d va"
proof -
  note p = dirs_keptD(1,2) [OF k] i and u = dirs_keptD(3) [OF k] and t = dirs_keptD(4) [OF k]
  note w = vm_invD [OF inv]
  have dt: "tab (pmem (palloc v')) d i = tab (pmem (palloc v)) d i" if "d \<in> D" "i < 1024" for d i
    by (rule t [OF vm_dir(1) [OF inv that(1)] w(4) [OF that(1)] that(2)])
  show "vm_inv v' D"
    unfolding vm_inv_def Let_def p(2,3)
  proof (intro conjI ballI allI impI p(1) w(2,3))
    show "kpage_used (palloc v') d" if "d \<in> D" for d using w(4) [OF that] by (simp add: u)
    show "tab (pmem (palloc v')) d i AND PTE_P \<noteq> 0" "kpage_used (palloc v') (table (pmem (palloc v')) d i)"
      "table (pmem (palloc v')) d i \<notin> D" if "d \<in> D" "i < 1024" "tab (pmem (palloc v')) d i \<noteq> 0" for d i
      using w(5-7) [OF that(1,2)] that(3) by (simp_all add: u dt that(1,2))
    show "tab (pmem (palloc v')) (init_page_dir v) i = 0" if "i < 768" for i using w(9) [OF that] dt w(3) that by simp
    show "tab (pmem (palloc v')) d i = tab (pmem (palloc v')) (init_page_dir v) i" if "d \<in> D" "i < 1024" "768 \<le> i" for d i
      using w(10) [OF that] by (simp add: dt w(3) that(1,2))
    show "i = j" "d = d' \<or> 768 \<le> i"
      if "d \<in> D" "d' \<in> D" "i < 1024" "j < 1024" "tab (pmem (palloc v')) d i \<noteq> 0 \<and> tab (pmem (palloc v')) d' j \<noteq> 0 \<and>
        table (pmem (palloc v')) d i = table (pmem (palloc v')) d' j" for d d' i j
      using w(8) [OF that(1-4)] that(5) by (auto simp: dt that(1-4))
  qed
  show "the_pte (pmem (palloc v')) d va = the_pte (pmem (palloc v)) d va" if "d \<in> D" for d va
  proof (cases "tab (pmem (palloc v)) d (unat (pd_no va)) = 0")
    case True
    then show ?thesis using dt [OF that index_bounds(1)] by (simp add: the_pte_def)
  next
    case False
    have "tab (pmem (palloc v')) (table (pmem (palloc v)) d (unat (pd_no va))) (unat (pt_no va)) =
        tab (pmem (palloc v)) (table (pmem (palloc v)) d (unat (pd_no va))) (unat (pt_no va))"
      by (rule t [OF aligned_entry_page w(6) [OF that index_bounds(1) False] index_bounds(2)])
    then show ?thesis using dt [OF that index_bounds(1)] by (simp add: the_pte_def Let_def)
  qed
qed

section \<open>The space of a program\<close>

text \<open>\<open>own_space v D d\<close>: \<open>d\<close> is the directory of a program beside the others of \<open>D\<close>.\<close>

definition own_space :: "vm \<Rightarrow> word_t set \<Rightarrow> word_t \<Rightarrow> bool" where
  "own_space v D d \<longleftrightarrow> (let ps = palloc v; tr = translate (pmem ps) d in
     vm_inv v D \<and> d \<in> D \<and> d \<noteq> init_page_dir v \<and> PHYS_BASE \<le> base (user_pool ps) \<and>
     (\<forall>j < bit_cnt (used_map (user_pool ps)). drop_bit 12 (page_at (user_pool ps) j - PHYS_BASE) < ram_pages v) \<and>
     (\<forall>va q w u. is_user_vaddr va \<and> tr va = Some (q, w, u) \<longrightarrow> upage_used ps q) \<and>
     (\<forall>va va' q w u w' u'. is_user_vaddr va \<and> is_user_vaddr va' \<and> tr va = Some (q, w, u) \<and> tr va' = Some (q, w', u') \<longrightarrow> pg_no va = pg_no va'))"

lemma own_spaceD:
  assumes "own_space v D d"
  shows "vm_inv v D" "d \<in> D" "d \<noteq> init_page_dir v" "PHYS_BASE \<le> base (user_pool (palloc v))"
    "\<And>j. j < bit_cnt (used_map (user_pool (palloc v))) \<Longrightarrow> drop_bit 12 (page_at (user_pool (palloc v)) j - PHYS_BASE) < ram_pages v"
    "\<And>va q w u. is_user_vaddr va \<Longrightarrow> translate (pmem (palloc v)) d va = Some (q, w, u) \<Longrightarrow> upage_used (palloc v) q"
    "\<And>va va' q w u w' u'. is_user_vaddr va \<Longrightarrow> is_user_vaddr va' \<Longrightarrow> translate (pmem (palloc v)) d va = Some (q, w, u) \<Longrightarrow>
       translate (pmem (palloc v)) d va' = Some (q, w', u') \<Longrightarrow> pg_no va = pg_no va'"
  using assms unfolding own_space_def Let_def by blast+

text \<open>\<open>kept D d v v'\<close>: nothing was done to the frames in use and to the directories of the others.\<close>

definition kept :: "word_t set \<Rightarrow> word_t \<Rightarrow> vm \<Rightarrow> vm \<Rightarrow> bool" where
  "kept D d v v' \<longleftrightarrow> v'\<lparr>palloc := palloc v\<rparr> = v \<and>
     (\<forall>q. upage_used (palloc v) q \<longrightarrow> upage_used (palloc v') q \<and> (\<forall>j < 1024. tab (pmem (palloc v')) q j = tab (pmem (palloc v)) q j)) \<and>
     (\<forall>d' \<in> D - {d}. \<forall>va. translate (pmem (palloc v')) d' va = translate (pmem (palloc v)) d' va)"

lemma kept_refl [simp]: "kept D d v v"
  by (simp add: kept_def)

lemma kept_trans: "kept D d v v1 \<Longrightarrow> kept D d v1 v2 \<Longrightarrow> kept D d v v2"
  unfolding kept_def by (auto, metis vm.surjective vm.update_convs(1))

lemma kept_fields:
  assumes "kept D d v v'"
  shows "init_page_dir v' = init_page_dir v" "ram_pages v' = ram_pages v" "cr3 v' = cr3 v"
proof -
  have e: "v'\<lparr>palloc := palloc v\<rparr> = v" using assms by (simp add: kept_def)
  show "init_page_dir v' = init_page_dir v" "ram_pages v' = ram_pages v" "cr3 v' = cr3 v"
    using arg_cong [OF e, of init_page_dir] arg_cong [OF e, of ram_pages] arg_cong [OF e, of cr3] by simp_all
qed

text \<open>What a user program reads at an address and whether it may write there.\<close>

definition user_view :: "memory_t \<Rightarrow> word_t \<Rightarrow> word_t \<Rightarrow> (byte_t \<times> bool) option" where
  "user_view m d va = (case translate m d va of None \<Rightarrow> None | Some (q, w, u) \<Rightarrow> if u then Some (byte_of m q (unat (pg_ofs va)), w) else None)"

lemma byte_of_tab:
  assumes "k < 4096"
  shows "byte_of m q k = word_bytes (tab m q (k div 4)) ! (k mod 4)"
proof -
  define r where "r = k mod 4"
  have k: "k = 4 * (k div 4) + r" "r < 4" by (simp_all add: r_def)
  then have "r = 0 \<or> r = 1 \<or> r = 2 \<or> r = 3" by auto
  then show ?thesis
    unfolding r_def [symmetric] by (subst k(1)) (elim disjE; simp add: tab_bytes word_bytes_bytes_word)
qed

lemma pg_ofs_less: "unat (pg_ofs va) < 4096"
proof -
  have "PGMASK = mask 12" by (simp add: PGMASK_def mask_eq_exp_minus_1)
  then have "pg_ofs va = take_bit 12 va" by (simp only: pg_ofs_def take_bit_eq_mask)
  then have "unat (pg_ofs va) = take_bit 12 (unat va)" by (simp only: unsigned_take_bit_eq)
  then show ?thesis by (simp add: take_bit_eq_mod)
qed

lemma byte_of_eq:
  assumes "\<And>j. j < 1024 \<Longrightarrow> tab m' q j = tab m q j" "k < 4096"
  shows "byte_of m' q k = byte_of m q k"
  using assms(1) [of "k div 4"] assms(2) by (simp add: byte_of_tab)

text \<open>Changes of the user pool and of its pages that leave the frames of \<open>d\<close> in use.\<close>

definition user_frames_used :: "vm \<Rightarrow> word_t \<Rightarrow> vm \<Rightarrow> bool" where
  "user_frames_used v d v' \<longleftrightarrow> base (user_pool (palloc v')) = base (user_pool (palloc v)) \<and>
     bit_cnt (used_map (user_pool (palloc v'))) = bit_cnt (used_map (user_pool (palloc v))) \<and> v'\<lparr>palloc := palloc v\<rparr> = v \<and>
     (\<forall>va q w x. is_user_vaddr va \<and> translate (pmem (palloc v)) d va = Some (q, w, x) \<longrightarrow> upage_used (palloc v') q)"

lemma own_space_other:
  assumes own: "own_space v D d" and k: "dirs_kept v v'" and f: "user_frames_used v d v'"
  shows "own_space v' D d" "\<And>d' va. d' \<in> D \<Longrightarrow> translate (pmem (palloc v')) d' va = translate (pmem (palloc v)) d' va"
proof -
  note o = own_spaceD [OF own]
  have p: "base (user_pool (palloc v')) = base (user_pool (palloc v))" "v'\<lparr>palloc := palloc v\<rparr> = v"
    "bit_cnt (used_map (user_pool (palloc v'))) = bit_cnt (used_map (user_pool (palloc v)))"
    "\<And>va q w x. is_user_vaddr va \<Longrightarrow> translate (pmem (palloc v)) d va = Some (q, w, x) \<Longrightarrow> upage_used (palloc v') q"
    using f unfolding user_frames_used_def by blast+
  have f1: "init_page_dir v' = init_page_dir v" "ram_pages v' = ram_pages v"
    using arg_cong [OF p(2), of init_page_dir] arg_cong [OF p(2), of ram_pages] by simp_all
  note i = vm_inv_other [OF o(1) k f1(1)]
  show tr: "translate (pmem (palloc v')) d' va = translate (pmem (palloc v)) d' va" if "d' \<in> D" for d' va
    unfolding translate_def i(2) [OF that] ..
  have pa: "page_at (user_pool (palloc v')) j = page_at (user_pool (palloc v)) j" for j by (simp add: page_at_def p(1))
  show "own_space v' D d"
    unfolding own_space_def Let_def f1 tr [OF o(2)] p(1,3) pa using i(1) o p(4) by blast
qed

text \<open>Writing to a frame.\<close>

lemma own_space_write:
  assumes own: "own_space v D d" and q: "upage_used (palloc v) q"
    and t: "\<And>q' j. pg_ofs q' = 0 \<Longrightarrow> q' \<noteq> q \<Longrightarrow> j < 1024 \<Longrightarrow> tab m q' j = tab (pmem (palloc v)) q' j"
  shows "own_space (put_mem m v) D d" "\<And>d' va. d' \<in> D \<Longrightarrow> translate m d' va = translate (pmem (palloc v)) d' va"
proof -
  note o = own_spaceD [OF own]
  have pw: "pools_wf (palloc v)" by (rule vm_invD(1) [OF o(1)])
  have k: "kpage_used (palloc (put_mem m v)) p = kpage_used (palloc v) p" "upage_used (palloc (put_mem m v)) p = upage_used (palloc v) p" for p
    by (simp_all add: kpage_used_def upage_used_def put_mem_def)
  have "pools_wf (palloc (put_mem m v))" using pw by (simp add: put_mem_def pools_wf_def)
  moreover have "tab (pmem (palloc (put_mem m v))) p j = tab (pmem (palloc v)) p j" if "pg_ofs p = 0 \<and> kpage_used (palloc v) p \<and> j < 1024" for p j
    using t [of p j] upage_not_kernel [OF pw q] that by (auto simp: put_mem_def)
  ultimately have "dirs_kept v (put_mem m v)" unfolding dirs_kept_def k by (simp add: put_mem_def)
  moreover have "user_frames_used v d (put_mem m v)" unfolding user_frames_used_def k using o(6) by (auto simp: put_mem_def)
  ultimately have r: "own_space (put_mem m v) D d" "\<And>d' va. d' \<in> D \<Longrightarrow> translate (pmem (palloc (put_mem m v))) d' va = translate (pmem (palloc v)) d' va"
    using own_space_other [OF own, of "put_mem m v"] by blast+
  show "own_space (put_mem m v) D d" by (rule r(1))
  show "translate m d' va = translate (pmem (palloc v)) d' va" if "d' \<in> D" for d' va
    using r(2) [OF that] by (simp add: put_mem_def)
qed

section \<open>A new page\<close>

lemma PAL_bits: "PAL_USER AND PAL_USER \<noteq> 0" "PAL_USER AND PAL_ASSERT = 0" "PAL_USER AND PAL_ZERO = 0"
    "(PAL_USER OR PAL_ZERO) AND PAL_USER \<noteq> 0" "(PAL_USER OR PAL_ZERO) AND PAL_ASSERT = 0" "(PAL_USER OR PAL_ZERO) AND PAL_ZERO \<noteq> 0"
  by (simp_all add: PAL_USER_def PAL_ASSERT_def PAL_ZERO_def)

text \<open>Taking a frame: nothing is mapped to it.\<close>

lemma new_frame:
  assumes own: "own_space v D d" and fl: "flags AND PAL_USER \<noteq> 0" "flags AND PAL_ASSERT = 0"
  shows "\<exists>q v'. vm_get_page flags v = Inr (q, v') \<and>
    (if q = 0 then v' = v \<and> False \<notin> set (bmap (used_map (user_pool (palloc v))))
     else own_space v' D d \<and> kept D d v v' \<and> kernel_pool (palloc v') = kernel_pool (palloc v) \<and>
       \<not> upage_used (palloc v) q \<and> (\<forall>p. upage_used (palloc v') p \<longleftrightarrow> upage_used (palloc v) p \<or> p = q) \<and>
       (\<forall>va. translate (pmem (palloc v')) d va = translate (pmem (palloc v)) d va) \<and>
       free_user_cnt (palloc v) = Suc (free_user_cnt (palloc v')) \<and> free_cnt (palloc v') = free_cnt (palloc v) \<and>
       (flags AND PAL_ZERO \<noteq> 0 \<longrightarrow> (\<forall>k < 4096. byte_of (pmem (palloc v')) q k = 0)))"
proof -
  note o = own_spaceD [OF own]
  have pw: "pools_wf (palloc v)" by (rule vm_invD(1) [OF o(1)])
  obtain q ps where g: "palloc_get_page flags (palloc v) = Inr (q, ps)"
    and c: "if q = 0 then ps = palloc v \<and> False \<notin> set (bmap (used_map (user_pool (palloc v))))
     else pools_wf ps \<and> kernel_pool ps = kernel_pool (palloc v) \<and> base (user_pool ps) = base (user_pool (palloc v)) \<and>
       bit_cnt (used_map (user_pool ps)) = bit_cnt (used_map (user_pool (palloc v))) \<and>
       (\<forall>p. upage_used ps p \<longleftrightarrow> upage_used (palloc v) p \<or> p = q) \<and> \<not> upage_used (palloc v) q \<and>
       free_user_cnt (palloc v) = Suc (free_user_cnt ps) \<and>
       pmem ps = (if flags AND PAL_ZERO \<noteq> 0 then memset_pages (pmem (palloc v)) q 0 4096 else pmem (palloc v))"
    using user_page [OF pw fl] by blast
  have run: "vm_get_page flags v = Inr (q, v\<lparr>palloc := ps\<rparr>)" using g by (simp add: vm_get_page_def)
  show ?thesis
  proof (cases "q = 0")
    case True
    then show ?thesis using run c by (intro exI [of _ 0] exI [of _ v]) simp
  next
    case False
    let ?v = "v\<lparr>palloc := ps\<rparr>"
    have s: "pools_wf ps" "kernel_pool ps = kernel_pool (palloc v)" "base (user_pool ps) = base (user_pool (palloc v))"
      "bit_cnt (used_map (user_pool ps)) = bit_cnt (used_map (user_pool (palloc v)))"
      "\<And>p. upage_used ps p \<longleftrightarrow> upage_used (palloc v) p \<or> p = q" "\<not> upage_used (palloc v) q"
      "pmem ps = (if flags AND PAL_ZERO \<noteq> 0 then memset_pages (pmem (palloc v)) q 0 4096 else pmem (palloc v))"
      "free_user_cnt (palloc v) = Suc (free_user_cnt ps)"
      using c False by auto
    have fc: "free_cnt ps = free_cnt (palloc v)" by (simp add: free_cnt_def s(2))
    have uq: "upage_used ps q" using s(5) by simp
    have b: "PHYS_BASE \<le> base (user_pool ps)" using o(4) s(3) by simp
    note al = upage_usedD(1) [OF s(1) b uq]
    have nk: "\<not> kpage_used (palloc v) q" using upage_not_kernel [OF s(1) uq] by (simp add: kpage_used_def s(2))
    have t: "tab (pmem ps) p j = tab (pmem (palloc v)) p j" if "pg_ofs p = 0" "p \<noteq> q" "j < 1024" for p j
      using tab_memset [OF al that(1,3)] that(2) by (simp add: s(7))
    have "tab (pmem ps) p j = tab (pmem (palloc v)) p j" if "pg_ofs p = 0 \<and> kpage_used (palloc v) p \<and> j < 1024" for p j
      using t [of p j] nk that by blast
    then have dk: "dirs_kept v ?v" using s(1,2) by (simp add: dirs_kept_def kpage_used_def)
    have fr: "user_frames_used v d ?v" using o(6) s(3-5) by (auto simp: user_frames_used_def)
    have os: "own_space ?v D d" "\<And>d' va. d' \<in> D \<Longrightarrow> translate (pmem ps) d' va = translate (pmem (palloc v)) d' va"
      using own_space_other [OF own dk fr] by simp_all
    have "\<forall>j < 1024. tab (pmem ps) p j = tab (pmem (palloc v)) p j" if "upage_used (palloc v) p" for p
      using t [OF upage_usedD(1) [OF pw o(4) that]] s(6) that by auto
    then have kp: "kept D d v ?v" using s(5) os(2) by (simp add: kept_def)
    have z: "byte_of (pmem ps) q k = 0" if "flags AND PAL_ZERO \<noteq> 0" "k < 4096" for k
      using memset_pages_in [OF that(2)] that(1) by (simp add: s(7) byte_of_def)
    show ?thesis
      unfolding run by (intro exI [of _ q] exI [of _ ?v]) (use False os kp s z o(2) fc in auto)
  qed
qed

text \<open>Mapping it.\<close>

lemma map_frame:
  assumes own: "own_space v D d" and q: "upage_used (palloc v) q"
    and new: "\<And>va w u. is_user_vaddr va \<Longrightarrow> translate (pmem (palloc v)) d va \<noteq> Some (q, w, u)"
    and up: "pg_ofs upage = 0" "is_user_vaddr upage" "translate (pmem (palloc v)) d upage = None"
  shows "\<exists>r v'. pagedir_set_page d upage q w v = Inr (r, v') \<and>
    (if r then own_space v' D d \<and> kept D d v v' \<and> (\<forall>p. upage_used (palloc v') p = upage_used (palloc v) p) \<and>
       (\<forall>va. translate (pmem (palloc v')) d va = (if pg_no va = pg_no upage then Some (q, w, True) else translate (pmem (palloc v)) d va)) \<and>
       free_cnt (palloc v) \<le> Suc (free_cnt (palloc v')) \<and> free_user_cnt (palloc v') = free_user_cnt (palloc v)
     else v' = v \<and> False \<notin> set (bmap (used_map (kernel_pool (palloc v)))))"
proof -
  note o = own_spaceD [OF own]
  have pw: "pools_wf (palloc v)" by (rule vm_invD(1) [OF o(1)])
  note ql = upage_usedD [OF pw o(4) q]
  have ram: "drop_bit 12 (q - PHYS_BASE) < ram_pages v" using o(5) q by (auto simp: upage_used_def)
  obtain r v' where r: "pagedir_set_page d upage q w v = Inr (r, v')" "vm_inv v' D" "v'\<lparr>palloc := palloc v\<rparr> = v"
    "user_pool (palloc v') = user_pool (palloc v)" "user_kept v v'" "free_cnt (palloc v) \<le> Suc (free_cnt (palloc v'))"
    and c: "if r then \<forall>d' \<in> D. \<forall>va. translate (pmem (palloc v')) d' va =
       (if d' = d \<and> pg_no va = pg_no upage then Some (q, w, True) else translate (pmem (palloc v)) d' va)
     else v' = v \<and> False \<notin> set (bmap (used_map (kernel_pool (palloc v))))"
    using set_page_translates [OF o(1-3) up(1,2) ql(1,2) ram up(3)] by blast
  show ?thesis
  proof (cases r)
    case False
    then show ?thesis using r(1) c by (intro exI [of _ False] exI [of _ v]) simp
  next
    case True
    have tr: "translate (pmem (palloc v')) d' va =
       (if d' = d \<and> pg_no va = pg_no upage then Some (q, w, True) else translate (pmem (palloc v)) d' va)" if "d' \<in> D" for d' va
      using c True that by simp
    have u: "upage_used (palloc v') p = upage_used (palloc v) p" for p by (simp add: upage_used_def r(4))
    have f: "init_page_dir v' = init_page_dir v" "ram_pages v' = ram_pages v"
      using arg_cong [OF r(3), of init_page_dir] arg_cong [OF r(3), of ram_pages] by simp_all
    have pw': "pools_wf (palloc v')" by (rule vm_invD(1) [OF r(2)])
    have "\<forall>j < 1024. tab (pmem (palloc v')) p j = tab (pmem (palloc v)) p j" if "upage_used (palloc v) p" for p
      using r(5) upage_usedD(1) [OF pw o(4) that] upage_not_kernel [OF pw', of p] that u by (simp add: user_kept_def)
    then have kp: "kept D d v v'" using r(3) u tr by (simp add: kept_def)
    have "pg_no va = pg_no va'" if "is_user_vaddr va" "is_user_vaddr va'" "translate (pmem (palloc v')) d va = Some (p, x, y)"
      "translate (pmem (palloc v')) d va' = Some (p, x', y')" for va va' p x y x' y'
    proof -
      have old: "pg_no va = pg_no upage \<and> p = q \<or> pg_no va \<noteq> pg_no upage \<and> translate (pmem (palloc v)) d va = Some (p, x, y)"
        "pg_no va' = pg_no upage \<and> p = q \<or> pg_no va' \<noteq> pg_no upage \<and> translate (pmem (palloc v)) d va' = Some (p, x', y')"
        using that(3,4) by (auto simp: tr [OF o(2)] split: if_splits)
      show ?thesis using old new [OF that(1)] new [OF that(2)] o(7) [OF that(1,2)] by metis
    qed
    moreover have "upage_used (palloc v') p" if "is_user_vaddr va" "translate (pmem (palloc v')) d va = Some (p, x, y)" for va p x y
      using that o(6) [OF that(1)] q by (auto simp: tr [OF o(2)] u split: if_splits)
    ultimately have "own_space v' D d"
      unfolding own_space_def Let_def f r(4) using r(2) o by blast
    moreover have "free_user_cnt (palloc v') = free_user_cnt (palloc v)" by (simp add: free_user_cnt_def r(4))
    ultimately show ?thesis using r(1,6) True kp u tr [OF o(2)] by (intro exI [of _ True] exI [of _ v']) simp
  qed
qed

text \<open>Giving a frame back.\<close>

lemma free_frame:
  assumes own: "own_space v D d" and q: "upage_used (palloc v) q"
    and new: "\<And>va w u. is_user_vaddr va \<Longrightarrow> translate (pmem (palloc v)) d va \<noteq> Some (q, w, u)"
  shows "\<exists>v'. vm_free_page q v = Inr v' \<and> own_space v' D d \<and> v'\<lparr>palloc := palloc v\<rparr> = v \<and>
    (\<forall>p. upage_used (palloc v') p \<longleftrightarrow> upage_used (palloc v) p \<and> p \<noteq> q) \<and>
    (\<forall>p j. pg_ofs p = 0 \<and> p \<noteq> q \<and> j < 1024 \<longrightarrow> tab (pmem (palloc v')) p j = tab (pmem (palloc v)) p j) \<and>
    (\<forall>d' \<in> D. \<forall>va. translate (pmem (palloc v')) d' va = translate (pmem (palloc v)) d' va)"
proof -
  note o = own_spaceD [OF own]
  have pw: "pools_wf (palloc v)" by (rule vm_invD(1) [OF o(1)])
  obtain v' where v': "vm_free_page q v = Inr v'" "vm_freed v {q} v'" using vm_free [OF pw, of q] q by blast
  then have f: "pools_wf (palloc v')" "base (kernel_pool (palloc v')) = base (kernel_pool (palloc v))" "base (user_pool (palloc v')) = base (user_pool (palloc v))"
    "bit_cnt (used_map (user_pool (palloc v'))) = bit_cnt (used_map (user_pool (palloc v)))"
    "\<And>p. kpage_used (palloc v') p \<longleftrightarrow> kpage_used (palloc v) p \<and> p \<notin> {q}" "\<And>p. upage_used (palloc v') p \<longleftrightarrow> upage_used (palloc v) p \<and> p \<notin> {q}"
    "\<And>p j. pg_ofs p = 0 \<Longrightarrow> p \<notin> {q} \<Longrightarrow> j < 1024 \<Longrightarrow> tab (pmem (palloc v')) p j = tab (pmem (palloc v)) p j" "v'\<lparr>palloc := palloc v\<rparr> = v"
    unfolding vm_freed_def freed_def by blast+
  have nk: "\<not> kpage_used (palloc v) q" by (rule upage_not_kernel [OF pw q])
  have k: "kpage_used (palloc v') p \<longleftrightarrow> kpage_used (palloc v) p" for p using f(5) nk by auto
  have "tab (pmem (palloc v')) p j = tab (pmem (palloc v)) p j" if "pg_ofs p = 0 \<and> kpage_used (palloc v) p \<and> j < 1024" for p j
    using f(7) [of p j] nk that by auto
  then have dk: "dirs_kept v v'" using f(1,2) k by (simp add: dirs_kept_def)
  have fr: "user_frames_used v d v'"
    unfolding user_frames_used_def using f(3,4,8) f(6) o(6) new by auto
  show ?thesis using v'(1) own_space_other [OF own dk fr] f(6-8) by auto
qed

text \<open>Giving back a frame that was taken leaves everything as it was.\<close>

lemma given_back:
  assumes own: "own_space v D d" and kp: "kept D d v v1" and q: "\<not> upage_used (palloc v) q"
    and used: "\<And>p. upage_used (palloc v1) p \<longleftrightarrow> upage_used (palloc v) p \<or> p = q" "\<And>p. upage_used (palloc v3) p \<longleftrightarrow> upage_used (palloc v1) p \<and> p \<noteq> q"
    and f: "v3\<lparr>palloc := palloc v1\<rparr> = v1"
    and t: "\<And>p j. pg_ofs p = 0 \<Longrightarrow> p \<noteq> q \<Longrightarrow> j < 1024 \<Longrightarrow> tab (pmem (palloc v3)) p j = tab (pmem (palloc v1)) p j"
    and tr: "\<And>d' va. d' \<in> D \<Longrightarrow> translate (pmem (palloc v3)) d' va = translate (pmem (palloc v1)) d' va"
  shows "kept D d v v3"
proof -
  note o = own_spaceD [OF own]
  have "\<forall>j < 1024. tab (pmem (palloc v3)) x j = tab (pmem (palloc v)) x j" if "upage_used (palloc v) x" for x
    using t [OF upage_usedD(1) [OF vm_invD(1) [OF o(1)] o(4) that]] kp q that by (auto simp: kept_def)
  moreover have "v3\<lparr>palloc := palloc v\<rparr> = v" using f kp by (metis kept_def vm.surjective vm.update_convs(1))
  moreover have "translate (pmem (palloc v3)) d' va = translate (pmem (palloc v)) d' va" if "d' \<in> D - {d}" for d' va
    using tr kp that by (simp add: kept_def)
  ultimately show ?thesis using used q by (auto simp: kept_def)
qed

text \<open>\<open>install_page\<close> for an address where there is nothing.\<close>

lemma unmapped:
  assumes "own_space v D d" "is_user_vaddr va" "translate (pmem (palloc v)) d va = None"
  shows "pagedir_get_page d va v = Inr (0, v)"
  using pagedir_get_page_translates [OF own_spaceD(1,2) [OF assms(1)] assms(2)] assms(3) by simp

lemma mapped:
  assumes "own_space v D d" "is_user_vaddr va" "translate (pmem (palloc v)) d va = Some (q, w, u)"
  shows "pagedir_get_page d va v = Inr (q + pg_ofs va, v)"
proof -
  note o = own_spaceD [OF assms(1)]
  have "PHYS_BASE \<le> q" by (rule upage_usedD(2) [OF vm_invD(1) [OF o(1)] o(4) o(6) [OF assms(2,3)]])
  then show ?thesis using pagedir_get_page_translates [OF o(1,2) assms(2)] assms(3) by simp
qed

lemma install_new:
  assumes "own_space (vmem p) D (pagedir p)" "is_user_vaddr upage" "translate (pmem (palloc (vmem p))) (pagedir p) upage = None"
  shows "install_page upage q w p = on_vm (pagedir_set_page (pagedir p) upage q w) p"
  using unmapped [OF assms] by (simp add: install_page_def on_vm_def)

lemma new_page_ok:
  assumes own: "own_space (vmem p) D (pagedir p)"
    and up: "pg_ofs upage = 0" "is_user_vaddr upage" "translate (pmem (palloc (vmem p))) (pagedir p) upage = None"
  shows "\<exists>q v'. new_page upage w p = Inr (q, p\<lparr>vmem := v'\<rparr>) \<and> own_space v' D (pagedir p) \<and> kept D (pagedir p) (vmem p) v' \<and>
    (if q = 0 then (free_user_cnt (palloc (vmem p)) = 0 \<or> free_cnt (palloc (vmem p)) = 0) \<and>
       (\<forall>va. translate (pmem (palloc v')) (pagedir p) va = translate (pmem (palloc (vmem p))) (pagedir p) va)
     else \<not> upage_used (palloc (vmem p)) q \<and> upage_used (palloc v') q \<and>
       free_user_cnt (palloc (vmem p)) = Suc (free_user_cnt (palloc v')) \<and> free_cnt (palloc (vmem p)) \<le> Suc (free_cnt (palloc v')) \<and>
       (\<forall>va. translate (pmem (palloc v')) (pagedir p) va =
         (if pg_no va = pg_no upage then Some (q, w, True) else translate (pmem (palloc (vmem p))) (pagedir p) va)))"
proof -
  let ?v = "vmem p" and ?d = "pagedir p"
  note o = own_spaceD [OF own]
  obtain q v1 where g: "vm_get_page PAL_USER ?v = Inr (q, v1)"
    and c: "if q = 0 then v1 = ?v \<and> False \<notin> set (bmap (used_map (user_pool (palloc ?v))))
     else own_space v1 D ?d \<and> kept D ?d ?v v1 \<and> kernel_pool (palloc v1) = kernel_pool (palloc ?v) \<and>
       \<not> upage_used (palloc ?v) q \<and> (\<forall>p. upage_used (palloc v1) p \<longleftrightarrow> upage_used (palloc ?v) p \<or> p = q) \<and>
       (\<forall>va. translate (pmem (palloc v1)) ?d va = translate (pmem (palloc ?v)) ?d va) \<and>
       free_user_cnt (palloc ?v) = Suc (free_user_cnt (palloc v1)) \<and> free_cnt (palloc v1) = free_cnt (palloc ?v)"
    using new_frame [OF own PAL_bits(1,2)] by metis
  show ?thesis
  proof (cases "q = 0")
    case True
    then have "new_page upage w p = Inr (0, p\<lparr>vmem := ?v\<rparr>)" using g c by (simp add: new_page_def on_vm_def)
    then show ?thesis using True c own by (intro exI [of _ 0] exI [of _ ?v]) (simp add: none_free)
  next
    case False
    then have v1: "own_space v1 D ?d" "kept D ?d ?v v1" "kernel_pool (palloc v1) = kernel_pool (palloc ?v)" "\<not> upage_used (palloc ?v) q"
      "\<And>p. upage_used (palloc v1) p \<longleftrightarrow> upage_used (palloc ?v) p \<or> p = q"
      "\<And>va. translate (pmem (palloc v1)) ?d va = translate (pmem (palloc ?v)) ?d va"
      "free_user_cnt (palloc ?v) = Suc (free_user_cnt (palloc v1))" "free_cnt (palloc v1) = free_cnt (palloc ?v)"
      using c by auto
    have q: "upage_used (palloc v1) q" using v1(5) by simp
    have new: "translate (pmem (palloc v1)) ?d va \<noteq> Some (q, x, u)" if "is_user_vaddr va" for va x u
      using o(6) [OF that] v1(4) by (auto simp: v1(6))
    have none: "translate (pmem (palloc v1)) ?d upage = None" using up(3) by (simp add: v1(6))
    obtain r v2 where r: "pagedir_set_page ?d upage q w v1 = Inr (r, v2)"
      and c2: "if r then own_space v2 D ?d \<and> kept D ?d v1 v2 \<and> (\<forall>p. upage_used (palloc v2) p = upage_used (palloc v1) p) \<and>
       (\<forall>va. translate (pmem (palloc v2)) ?d va = (if pg_no va = pg_no upage then Some (q, w, True) else translate (pmem (palloc v1)) ?d va)) \<and>
       free_cnt (palloc v1) \<le> Suc (free_cnt (palloc v2)) \<and> free_user_cnt (palloc v2) = free_user_cnt (palloc v1)
       else v2 = v1 \<and> False \<notin> set (bmap (used_map (kernel_pool (palloc v1))))"
      using map_frame [OF v1(1) q new up(1,2) none, of w] by blast
    have inst: "install_page upage q w (p\<lparr>vmem := v1\<rparr>) = Inr (r, p\<lparr>vmem := v2\<rparr>)"
      using install_new [of "p\<lparr>vmem := v1\<rparr>" D upage q w] v1(1) up(2) none r by (simp add: on_vm_def)
    show ?thesis
    proof (cases r)
      case True
      then have "new_page upage w p = Inr (q, p\<lparr>vmem := v2\<rparr>)" using g inst False by (simp add: new_page_def on_vm_def)
      moreover have "kept D ?d ?v v2" using c2 True kept_trans [OF v1(2)] by simp
      ultimately show ?thesis using c2 True False v1(4,6-8) q by (intro exI [of _ q] exI [of _ v2]) simp
    next
      case nr: False
      then have v2: "v2 = v1" "free_cnt (palloc ?v) = 0" using c2 v1(8) none_free(1) by auto
      obtain v3 where v3: "vm_free_page q v1 = Inr v3" "own_space v3 D ?d" "v3\<lparr>palloc := palloc v1\<rparr> = v1"
        "\<And>p. upage_used (palloc v3) p \<longleftrightarrow> upage_used (palloc v1) p \<and> p \<noteq> q"
        "\<And>p j. pg_ofs p = 0 \<Longrightarrow> p \<noteq> q \<Longrightarrow> j < 1024 \<Longrightarrow> tab (pmem (palloc v3)) p j = tab (pmem (palloc v1)) p j"
        "\<And>d' va. d' \<in> D \<Longrightarrow> translate (pmem (palloc v3)) d' va = translate (pmem (palloc v1)) d' va"
        using free_frame [OF v1(1) q new] by blast
      have run: "new_page upage w p = Inr (0, p\<lparr>vmem := v3\<rparr>)"
        using g inst False nr v2(1) v3(1) by (simp add: new_page_def on_vm_def to_vm_def)
      have "kept D ?d ?v v3" by (rule given_back [OF own v1(2,4,5) v3(4,3,5,6)])
      then show ?thesis
        using run v2(2) v3(2,6) o(2) v1(6) by (intro exI [of _ 0] exI [of _ v3]) simp
    qed
  qed
qed

section \<open>Filling a page\<close>

lemma byte_store_bytes:
  assumes "pg_ofs q = 0" "pg_ofs q' = 0" "s + length bs \<le> 4096" "k < 4096"
  shows "byte_of (store_bytes (q + of_nat s) bs m) q' k =
    (if q' = q \<and> s \<le> k \<and> k < s + length bs then bs ! (k - s) else byte_of m q' k)"
  using assms(3)
proof (induction bs arbitrary: s m)
  case (Cons b bs)
  have s: "s < 4096" "Suc s + length bs \<le> 4096" using Cons.prems by simp_all
  have a: "q + of_nat s + 1 = q + of_nat (Suc s)" by (simp add: algebra_simps)
  have u: "byte_of (m(q + of_nat s := b)) q' k = (if q' = q \<and> k = s then b else byte_of m q' k)"
    using page_offset_eq [OF assms(2,1,4) s(1)] by (auto simp: byte_of_def)
  show ?case
    unfolding store_bytes.simps a Cons.IH [OF s(2)] u by (auto simp: nth_Cons' Suc_diff_Suc)
qed auto

lemma byte_memset:
  assumes "pg_ofs q = 0" "pg_ofs q' = 0" "r \<le> 4096" "k < 4096"
  shows "byte_of (memset_pages m (q + of_nat r) b (4096 - r)) q' k = (if q' = q \<and> r \<le> k then b else byte_of m q' k)"
proof (cases "q' = q \<and> r \<le> k")
  case True
  then have a: "q' + of_nat k = q + of_nat r + of_nat (k - r)" by (simp flip: of_nat_add)
  have l: "k - r < 4096 - r" using True assms(4) by linarith
  show ?thesis using True memset_pages_in [OF l, of m "q + of_nat r" b] by (simp add: byte_of_def a)
next
  case False
  have "q' + of_nat k \<noteq> q + of_nat r + of_nat i" if "i < 4096 - r" for i
    using page_offset_eq [OF assms(2,1,4), of "r + i"] that False by (auto simp: add.assoc)
  then show ?thesis using False memset_pages_other [of "4096 - r" "q' + of_nat k" "q + of_nat r" m b] by (auto simp: byte_of_def)
qed

text \<open>The file is open, has the bytes \<open>bs\<close>, and is at position \<open>pos\<close>.\<close>

definition reading :: "fs \<Rightarrow> addr \<Rightarrow> byte_t list \<Rightarrow> nat \<Rightarrow> bool" where
  "reading k file bs pos \<longleftrightarrow> (\<exists>f i. file \<noteq> 0 \<and> file_heap k file = Some f \<and> live_inode k (file_inode f) i \<and> content k i = bs \<and>
     file_pos f = int pos \<and> pos < 2 ^ 31)"

text \<open>Reading moves the position of the file, and that is all.\<close>

definition moved :: "addr \<Rightarrow> fs \<Rightarrow> fs \<Rightarrow> bool" where
  "moved file k k' \<longleftrightarrow> same (k\<lparr>file_heap := file_heap k'\<rparr>) k' \<and> flat k' = flat k \<and> (\<forall>q. q \<noteq> file \<longrightarrow> file_heap k' q = file_heap k q) \<and>
     (\<forall>f. file_heap k file = Some f \<longrightarrow> (\<exists>n. file_heap k' file = Some (f\<lparr>file_pos := n\<rparr>)))"

lemma same_files: "same k k' \<Longrightarrow> same (k\<lparr>file_heap := h\<rparr>) (k'\<lparr>file_heap := h\<rparr>)"
  by (cases k; cases k') (simp add: same_def)

lemma moved_refl [simp]: "moved file k k"
proof -
  have "k\<lparr>file_heap := file_heap k\<rparr> = k" by (cases k) simp
  moreover have "\<exists>n. f = f\<lparr>file_pos := n\<rparr>" for f :: open_file by (cases f) simp
  ultimately show ?thesis unfolding moved_def by (metis fs_same_refl)
qed

lemma moved_trans [trans]:
  assumes "moved file k1 k2" "moved file k2 k3"
  shows "moved file k1 k3"
proof -
  have "same (k1\<lparr>file_heap := file_heap k2\<rparr>\<lparr>file_heap := file_heap k3\<rparr>) (k2\<lparr>file_heap := file_heap k3\<rparr>)"
    using assms(1) same_files unfolding moved_def by blast
  then have "same (k1\<lparr>file_heap := file_heap k3\<rparr>) k3" using assms(2) same_trans by (auto simp: moved_def)
  moreover have "\<exists>n. file_heap k3 file = Some (f\<lparr>file_pos := n\<rparr>)" if f: "file_heap k1 file = Some f" for f
  proof -
    obtain n where n: "file_heap k2 file = Some (f\<lparr>file_pos := n\<rparr>)" using assms(1) f by (auto simp: moved_def)
    then obtain m where "file_heap k3 file = Some (f\<lparr>file_pos := n\<rparr>\<lparr>file_pos := m\<rparr>)" using assms(2) unfolding moved_def by blast
    then show ?thesis by (intro exI [of _ m]) simp
  qed
  ultimately show ?thesis using assms by (simp add: moved_def)
qed

lemma moved_put:
  assumes "file_heap k file = Some f" "same k k1" "flat k1 = flat k"
  shows "moved file k (put_file file (f\<lparr>file_pos := n\<rparr>) k1)"
proof -
  have h: "file_heap k1 = file_heap k" by (rule same_fields(3) [OF assms(2)])
  have "same (k\<lparr>file_heap := (file_heap k)(file \<mapsto> f\<lparr>file_pos := n\<rparr>)\<rparr>) (k1\<lparr>file_heap := (file_heap k)(file \<mapsto> f\<lparr>file_pos := n\<rparr>)\<rparr>)"
    by (rule same_files [OF assms(2)])
  then show ?thesis using assms h by (auto simp: moved_def put_file_def flat_def)
qed

lemma file_read_reads:
  assumes "reading k file bs pos" "length buf = n"
  shows "\<exists>k'. file_read file buf (int n) k = Inr (int (min n (length bs - pos)), put_bytes buf 0 (take n (drop pos bs)), k') \<and>
    reading k' file bs (pos + min n (length bs - pos)) \<and> moved file k k'"
proof -
  obtain f i where f: "file \<noteq> 0" "file_heap k file = Some f" "live_inode k (file_inode f) i" "content k i = bs" "file_pos f = int pos" "pos < 2 ^ 31"
    using assms(1) by (auto simp: reading_def)
  have l: "dev_ok (fs_device k)" "inode_heap k (file_inode f) = Some i" "file_inode f \<noteq> 0" "inode_ok k i" "no_fail k"
    using f(3) by (auto simp: live_inode_def)
  have len: "length bs = nat (inode_length i)" "0 \<le> inode_length i" using length_content [OF l(4)] f(4) l(4) by (simp_all add: inode_ok_def)
  then have sp: "span i (int n) (int pos) = min n (length bs - pos)" by (simp add: span_def min_def) linarith
  have "length bs < 2 ^ 31" using len inode_length_range(1) [of i] by simp
  then have small: "pos + min n (length bs - pos) < 2 ^ 31" using f(6) by linarith
  obtain k1 where k1: "inode_read_at (file_inode f) buf (int n) (int pos) k =
      Inr (int (min n (length bs - pos)), put_bytes buf 0 (take n (drop pos bs)), k1)" "same k k1" "flat k1 = flat k" "dev_ok (fs_device k1)"
    using inode_read_at_reads [OF l, of "int pos" "int n" buf] f(4,6) assms(2) sp by auto
  let ?k = "put_file file (f\<lparr>file_pos := int (pos + min n (length bs - pos))\<rparr>) k1"
  have "file_read file buf (int n) k = Inr (int (min n (length bs - pos)), put_bytes buf 0 (take n (drop pos bs)), ?k)"
    using f(1,2,5) k1(1) small by (simp add: file_read_def follow_Inr int32_def follow_def)
  moreover have "live_inode k1 (file_inode f) i" using live_inode_same [OF f(3) k1(2)] k1(3,4) by simp
  then have "reading ?k file bs (pos + min n (length bs - pos))"
    using f(1,4) small k1(3) by (simp add: reading_def put_file_def live_inode_def inode_ok_def content_def flat_def no_fail_def)
  moreover have "moved file k ?k" by (rule moved_put [OF f(2) k1(2,3)])
  ultimately show ?thesis by blast
qed

end
