(* ===== verification/Pintos_Process_Load.thy ===== *)
theory Pintos_Process_Load
  imports Pintos_Process_Memory
begin

unbundle bit_operations_syntax

text \<open>
  One program header: what \<open>validate_segment\<close> accepts, and what \<open>load_segment\<close> puts into the address space of the
  program.
\<close>

section \<open>One page of a segment\<close>

text \<open>Reading \<open>r\<close> bytes into a frame and clearing the rest of it.\<close>

definition filled :: "memory_t \<Rightarrow> word_t \<Rightarrow> byte_t list \<Rightarrow> nat \<Rightarrow> nat \<Rightarrow> memory_t \<Rightarrow> bool" where
  "filled m q bs pos r m' \<longleftrightarrow> (\<forall>p k. pg_ofs p = 0 \<and> k < 4096 \<longrightarrow>
     byte_of m' p k = (if p = q then if k < r then bs ! (pos + k) else 0 else byte_of m p k))"

lemma filled_tab:
  assumes "filled m q bs pos r m'" "pg_ofs p = 0" "p \<noteq> q" "j < 1024"
  shows "tab m' p j = tab m p j"
  using assms by (simp add: filled_def tab_bytes)

lemma fill_page:
  assumes rd: "reading (filesys p) file bs pos" and r: "r \<le> 4096" "pos + r \<le> length bs" and q: "pg_ofs q = 0"
  shows "\<exists>k m1 m2. read_into file q r p = Inr (int r, p\<lparr>filesys := k, vmem := put_mem m1 (vmem p)\<rparr>) \<and>
    m2 = memset_pages m1 (q + of_nat r) 0 (4096 - r) \<and> filled (pmem (palloc (vmem p))) q bs pos r m2 \<and>
    reading k file bs (pos + r) \<and> moved file (filesys p) k"
proof -
  let ?m = "pmem (palloc (vmem p))"
  let ?buf = "load_bytes ?m q r"
  have lb: "length ?buf = r" by (simp add: load_bytes_def)
  have mn: "min r (length bs - pos) = r" using r(2) by simp
  have new: "put_bytes ?buf 0 (take r (drop pos bs)) = take r (drop pos bs)"
    using r(2) lb by (simp add: put_bytes_def)
  obtain k where k: "file_read file ?buf (int r) (filesys p) = Inr (int r, take r (drop pos bs), k)" "reading k file bs (pos + r)"
    "moved file (filesys p) k"
    using file_read_reads [OF rd lb] unfolding mn new by blast
  let ?m1 = "store_bytes q (take r (drop pos bs)) ?m"
  have l: "length (take r (drop pos bs)) = r" using r(2) by simp
  have "filled ?m q bs pos r (memset_pages ?m1 (q + of_nat r) 0 (4096 - r))"
    unfolding filled_def
  proof (intro allI impI)
    fix p' :: word_t and i :: nat
    assume a: "pg_ofs p' = 0 \<and> i < 4096"
    then have b: "byte_of ?m1 p' i = (if p' = q \<and> i < r then take r (drop pos bs) ! i else byte_of ?m p' i)"
      using byte_store_bytes [OF q, of p' 0 "take r (drop pos bs)" i ?m] r(1) unfolding l by simp
    show "byte_of (memset_pages ?m1 (q + of_nat r) 0 (4096 - r)) p' i =
        (if p' = q then if i < r then bs ! (pos + i) else 0 else byte_of ?m p' i)"
      using byte_memset [OF q, of p' r i ?m1 0] a r(1) b r(2) by (auto simp: not_le)
  qed
  then show ?thesis using k by (simp add: read_into_def) blast
qed

text \<open>The page as the program sees it, and all its other pages.\<close>

lemma filled_view:
  assumes own: "own_space v D d" and own1: "own_space v1 D d" and kp: "kept D d v v1" and q: "\<not> upage_used (palloc v) q" "upage_used (palloc v1) q"
    and tr: "\<And>va. translate (pmem (palloc v1)) d va = (if pg_no va = pg_no upage then Some (q, w, True) else translate (pmem (palloc v)) d va)"
    and f: "filled (pmem (palloc v1)) q bs pos r m"
  shows "own_space (put_mem m v1) D d" "kept D d v (put_mem m v1)" "\<And>va. translate m d va = translate (pmem (palloc v1)) d va"
    "\<And>va. is_user_vaddr va \<Longrightarrow> user_view m d va = (if pg_no va = pg_no upage
       then Some (if unat (pg_ofs va) < r then bs ! (pos + unat (pg_ofs va)) else 0, w) else user_view (pmem (palloc v)) d va)"
proof -
  note o = own_spaceD [OF own] and o1 = own_spaceD [OF own1]
  have pw: "pools_wf (palloc v)" "pools_wf (palloc v1)" by (rule vm_invD(1) [OF o(1)], rule vm_invD(1) [OF o1(1)])
  have q0: "pg_ofs q = 0" by (rule upage_usedD(1) [OF pw(2) o1(4) q(2)])
  have t: "tab m p j = tab (pmem (palloc v1)) p j" if "pg_ofs p = 0" "p \<noteq> q" "j < 1024" for p j
    by (rule filled_tab [OF f that])
  have w: "own_space (put_mem m v1) D d" "\<And>d' va. d' \<in> D \<Longrightarrow> translate m d' va = translate (pmem (palloc v1)) d' va"
    using own_space_write [OF own1 q(2), of m] t by blast+
  show "own_space (put_mem m v1) D d" by (rule w(1))
  show tm: "translate m d va = translate (pmem (palloc v1)) d va" for va by (rule w(2) [OF o1(2)])
  have same: "tab m p j = tab (pmem (palloc v)) p j" if "upage_used (palloc v) p" "j < 1024" for p j
  proof -
    have "p \<noteq> q" using that(1) q(1) by auto
    then show ?thesis
      using t [OF upage_usedD(1) [OF pw(1) o(4) that(1)] _ that(2)] kp that by (simp add: kept_def)
  qed
  have uu: "upage_used (palloc (put_mem m v1)) p = upage_used (palloc v1) p" for p by (simp add: upage_used_def put_mem_def)
  have "(put_mem m v1)\<lparr>palloc := palloc v\<rparr> = v" using kp by (simp add: kept_def put_mem_def)
  then show "kept D d v (put_mem m v1)"
    using kp same w(2) unfolding kept_def uu by (simp add: put_mem_def)
  fix va
  assume va: "is_user_vaddr va"
  show "user_view m d va = (if pg_no va = pg_no upage
       then Some (if unat (pg_ofs va) < r then bs ! (pos + unat (pg_ofs va)) else 0, w) else user_view (pmem (palloc v)) d va)"
  proof (cases "pg_no va = pg_no upage")
    case True
    then show ?thesis
      using f q0 pg_ofs_less [of va] by (simp add: user_view_def tm tr filled_def)
  next
    case False
    show ?thesis
    proof (cases "translate (pmem (palloc v)) d va")
      case None
      then show ?thesis using False by (simp add: user_view_def tm tr)
    next
      case (Some x)
      obtain p x1 x2 where x: "x = (p, x1, x2)" by (cases x)
      then have "upage_used (palloc v) p" using o(6) [OF va] Some by simp
      then have "byte_of m p (unat (pg_ofs va)) = byte_of (pmem (palloc v)) p (unat (pg_ofs va))"
        by (intro byte_of_eq same pg_ofs_less)
      then show ?thesis using False Some x by (simp add: user_view_def tm tr)
    qed
  qed
qed

section \<open>The loop\<close>

text \<open>The rounds do not run out, and see the pages one after the other.\<close>

lemma page_split:
  assumes "unat rb + unat zb = 4096 * Suc n"
  defines "r \<equiv> if rb < of_nat PGSIZE then rb else (of_nat PGSIZE :: word_t)"
  shows "unat r \<le> 4096" "unat r = min (unat rb) 4096" "rb > 0 \<or> zb > 0" "unat (rb - r) = unat rb - unat r" "unat (rb - r) + unat (zb - (of_nat PGSIZE - r)) = 4096 * n"
    "unat (of_nat PGSIZE - r) = 4096 - unat r" "of_nat (unat r) = r"
proof -
  have p: "unat (of_nat PGSIZE :: word_t) = 4096" by (simp add: PGSIZE_def)
  show r: "unat r = min (unat rb) 4096" using p by (simp add: r_def word_less_nat_alt min_def)
  then show r4: "unat r \<le> 4096" by simp
  show "rb > 0 \<or> zb > 0"
  proof (rule ccontr)
    assume "\<not> (rb > 0 \<or> zb > 0)"
    then have "unat rb = 0" "unat zb = 0" by (simp_all add: word_less_nat_alt)
    then show False using assms(1) by simp
  qed
  have "r \<le> rb" using r by (simp add: word_le_nat_alt)
  then show a: "unat (rb - r) = unat rb - unat r" by (rule unat_sub)
  have "r \<le> of_nat PGSIZE" using r4 p by (simp only: word_le_nat_alt)
  then show z: "unat (of_nat PGSIZE - r) = 4096 - unat r" using unat_sub [of r "of_nat PGSIZE"] p by simp
  have "4096 - unat r \<le> unat zb" using r assms(1) by (simp add: min_def split: if_splits)
  then have "of_nat PGSIZE - r \<le> zb" using z by (simp only: word_le_nat_alt)
  then have "unat (zb - (of_nat PGSIZE - r)) = unat zb - (4096 - unat r)" using unat_sub [of "of_nat PGSIZE - r" zb] z by simp
  then show "unat (rb - r) + unat (zb - (of_nat PGSIZE - r)) = 4096 * n"
    using a r assms(1) by (simp add: min_def split: if_splits)
  show "of_nat (unat r) = r" by simp
qed

lemma page_range:
  assumes "pg_ofs upage = 0"
  shows "pg_no va = pg_no upage \<longleftrightarrow> unat upage \<le> unat va \<and> unat va < unat upage + 4096"
    "pg_no va = pg_no upage \<Longrightarrow> unat (pg_ofs va) = unat va - unat upage"
proof -
  obtain n where n: "unat upage = 4096 * n" by (rule aligned_page [OF assms])
  have "pg_no va = pg_no upage \<longleftrightarrow> unat va div 4096 = n" by (simp add: word_unat_eq_iff unat_pg_no n)
  also have "\<dots> \<longleftrightarrow> 4096 * n \<le> unat va \<and> unat va < 4096 * n + 4096"
    using div_mult_mod_eq [of "unat va" 4096] by (auto simp: div_nat_eqI)
  finally show e: "pg_no va = pg_no upage \<longleftrightarrow> unat upage \<le> unat va \<and> unat va < unat upage + 4096" by (simp add: n)
  have "PGMASK = mask 12" by (simp add: PGMASK_def mask_eq_exp_minus_1)
  then have "pg_ofs va = take_bit 12 va" by (simp only: pg_ofs_def take_bit_eq_mask)
  then have "unat (pg_ofs va) = take_bit 12 (unat va)" by (simp only: unsigned_take_bit_eq)
  then have "unat (pg_ofs va) = unat va mod 4096" by (simp add: take_bit_eq_mod)
  moreover assume "pg_no va = pg_no upage"
  then have "unat va div 4096 = n" by (simp add: word_unat_eq_iff unat_pg_no n)
  then have "unat va mod 4096 = unat va - 4096 * n" by (metis minus_mult_div_eq_mod)
  ultimately show "unat (pg_ofs va) = unat va - unat upage" by (simp add: n)
qed

text \<open>The bytes at a range of addresses, the first \<open>r\<close> of them those of the file from \<open>pos\<close> on and the others 0.\<close>

definition loaded :: "memory_t \<Rightarrow> word_t \<Rightarrow> nat \<Rightarrow> nat \<Rightarrow> byte_t list \<Rightarrow> nat \<Rightarrow> nat \<Rightarrow> bool \<Rightarrow> memory_t \<Rightarrow> bool" where
  "loaded m d a n bs pos r w m' \<longleftrightarrow> (\<forall>va. is_user_vaddr va \<longrightarrow> user_view m' d va =
     (if a \<le> unat va \<and> unat va < a + n then Some (if unat va - a < r then bs ! (pos + (unat va - a)) else 0, w) else user_view m d va))"

text \<open>The frames are what it costs, and no other page is mapped or unmapped.\<close>

definition pages_taken :: "proc \<Rightarrow> nat \<Rightarrow> nat \<Rightarrow> vm \<Rightarrow> bool" where
  "pages_taken p n a v' \<longleftrightarrow> free_user_cnt (palloc (vmem p)) = n + free_user_cnt (palloc v') \<and>
     free_cnt (palloc (vmem p)) \<le> n + free_cnt (palloc v') \<and>
     (\<forall>va. \<not> (a \<le> unat va \<and> unat va < a + 4096 * n) \<longrightarrow>
        translate (pmem (palloc v')) (pagedir p) va = translate (pmem (palloc (vmem p))) (pagedir p) va)"

text \<open>A round for a page that is not mapped yet.\<close>

lemma load_round:
  assumes own: "own_space (vmem p) D (pagedir p)" and rd: "reading (filesys p) file bs pos"
    and up: "pg_ofs upage = 0" "is_user_vaddr upage" "translate (pmem (palloc (vmem p))) (pagedir p) upage = None"
    and n: "unat rb + unat zb = 4096 * Suc n" and len: "pos + min (unat rb) 4096 \<le> length bs"
  defines "r \<equiv> if rb < of_nat PGSIZE then rb else (of_nat PGSIZE :: word_t)"
  shows "(\<exists>v'. load_pages (Suc n) file upage rb zb w p = Inr (False, p\<lparr>vmem := v'\<rparr>) \<and> own_space v' D (pagedir p) \<and>
      kept D (pagedir p) (vmem p) v' \<and> min (free_user_cnt (palloc (vmem p))) (free_cnt (palloc (vmem p))) = 0) \<or>
    (\<exists>k v'. load_pages (Suc n) file upage rb zb w p =
        load_pages n file (upage + of_nat PGSIZE) (rb - r) (zb - (of_nat PGSIZE - r)) w (p\<lparr>filesys := k, vmem := v'\<rparr>) \<and>
      own_space v' D (pagedir p) \<and> kept D (pagedir p) (vmem p) v' \<and>
      free_user_cnt (palloc (vmem p)) = Suc (free_user_cnt (palloc v')) \<and> free_cnt (palloc (vmem p)) \<le> Suc (free_cnt (palloc v')) \<and>
      reading k file bs (pos + unat r) \<and> moved file (filesys p) k \<and>
      (\<forall>va. pg_no va \<noteq> pg_no upage \<longrightarrow> translate (pmem (palloc v')) (pagedir p) va = translate (pmem (palloc (vmem p))) (pagedir p) va) \<and>
      loaded (pmem (palloc (vmem p))) (pagedir p) (unat upage) 4096 bs pos (unat r) w (pmem (palloc v')))"
proof -
  let ?d = "pagedir p"
  note ps = page_split [OF n, folded r_def]
  have gp: "on_vm (pagedir_get_page ?d upage) p = Inr (0, p)" using unmapped [OF own up(2,3)] by (simp add: on_vm_def)
  obtain q v1 where np: "new_page upage w p = Inr (q, p\<lparr>vmem := v1\<rparr>)" "own_space v1 D ?d" "kept D ?d (vmem p) v1"
    and c: "if q = 0 then (free_user_cnt (palloc (vmem p)) = 0 \<or> free_cnt (palloc (vmem p)) = 0) \<and> (\<forall>va. translate (pmem (palloc v1)) ?d va = translate (pmem (palloc (vmem p))) ?d va)
     else \<not> upage_used (palloc (vmem p)) q \<and> upage_used (palloc v1) q \<and>
       free_user_cnt (palloc (vmem p)) = Suc (free_user_cnt (palloc v1)) \<and> free_cnt (palloc (vmem p)) \<le> Suc (free_cnt (palloc v1)) \<and>
       (\<forall>va. translate (pmem (palloc v1)) ?d va = (if pg_no va = pg_no upage then Some (q, w, True) else translate (pmem (palloc (vmem p))) ?d va))"
    using new_page_ok [OF own up] by blast
  show ?thesis
  proof (cases "q = 0")
    case True
    then have "load_pages (Suc n) file upage rb zb w p = Inr (False, p\<lparr>vmem := v1\<rparr>)"
      using ps(3) gp np(1) by (simp add: Let_def)
    then show ?thesis using np(2,3) c True by auto
  next
    case False
    then have q: "\<not> upage_used (palloc (vmem p)) q" "upage_used (palloc v1) q"
      and tr: "\<And>va. translate (pmem (palloc v1)) ?d va = (if pg_no va = pg_no upage then Some (q, w, True) else translate (pmem (palloc (vmem p))) ?d va)"
      and cnt: "free_user_cnt (palloc (vmem p)) = Suc (free_user_cnt (palloc v1))" "free_cnt (palloc (vmem p)) \<le> Suc (free_cnt (palloc v1))"
      using c by auto
    have q0: "pg_ofs q = 0" using upage_usedD(1) [OF vm_invD(1) [OF own_spaceD(1) [OF np(2)]] own_spaceD(4) [OF np(2)] q(2)] .
    have ln: "pos + unat r \<le> length bs" using len ps(2) by simp
    let ?p1 = "p\<lparr>vmem := v1\<rparr>"
    have rd1: "reading (filesys ?p1) file bs pos" using rd by simp
    obtain k m1 m2 where f0: "read_into file q (unat r) ?p1 = Inr (int (unat r), ?p1\<lparr>filesys := k, vmem := put_mem m1 (vmem ?p1)\<rparr>)"
      "m2 = memset_pages m1 (q + of_nat (unat r)) 0 (4096 - unat r)" "filled (pmem (palloc (vmem ?p1))) q bs pos (unat r) m2"
      "reading k file bs (pos + unat r)" "moved file (filesys ?p1) k"
      using fill_page [OF rd1 ps(1) ln q0] by blast
    have f: "read_into file q (unat r) ?p1 = Inr (int (unat r), p\<lparr>filesys := k, vmem := put_mem m1 v1\<rparr>)"
      "m2 = memset_pages m1 (q + of_nat (unat r)) 0 (4096 - unat r)" "filled (pmem (palloc v1)) q bs pos (unat r) m2"
      "reading k file bs (pos + unat r)" "moved file (filesys p) k"
      using f0 by simp_all
    have pm: "put_mem a (put_mem b v1) = put_mem a v1" "pmem (palloc (put_mem b v1)) = b" for a b by (simp_all add: put_mem_def)
    have "load_pages (Suc n) file upage rb zb w p =
        load_pages n file (upage + of_nat PGSIZE) (rb - r) (zb - (of_nat PGSIZE - r)) w (p\<lparr>filesys := k, vmem := put_mem m2 v1\<rparr>)"
      using ps(3) gp np(1) False f(1,2) ps(6,7) pm by (simp add: Let_def r_def [symmetric] del: load_pages.simps(1))
    moreover note fv = filled_view [OF own np(2,3) q tr f(3)]
    moreover have "translate (pmem (palloc (put_mem m2 v1))) ?d va = translate (pmem (palloc (vmem p))) ?d va" if "pg_no va \<noteq> pg_no upage" for va
      using fv(3) [of va] tr [of va] that by (simp add: pm)
    moreover have "loaded (pmem (palloc (vmem p))) ?d (unat upage) 4096 bs pos (unat r) w (pmem (palloc (put_mem m2 v1)))"
      unfolding loaded_def pm
    proof (intro allI impI)
      fix va
      assume va: "is_user_vaddr va"
      show "user_view m2 ?d va = (if unat upage \<le> unat va \<and> unat va < unat upage + 4096
          then Some (if unat va - unat upage < unat r then bs ! (pos + (unat va - unat upage)) else 0, w) else user_view (pmem (palloc (vmem p))) ?d va)"
        unfolding fv(4) [OF va] page_range(1) [OF up(1), of va, symmetric]
        by (cases "pg_no va = pg_no upage") (simp_all only: if_True if_False page_range(2) [OF up(1)])
    qed
    moreover have "free_user_cnt (palloc (put_mem m2 v1)) = free_user_cnt (palloc v1)" "free_cnt (palloc (put_mem m2 v1)) = free_cnt (palloc v1)"
      by (simp_all add: put_mem_def free_user_cnt_def free_cnt_def)
    ultimately show ?thesis using f(4,5) cnt by (intro disjI2 exI [of _ k] exI [of _ "put_mem m2 v1"]) (simp del: load_pages.simps)
  qed
qed

text \<open>All rounds.\<close>

lemma load_pages_loads:
  assumes "own_space (vmem p) D (pagedir p)" "reading (filesys p) file bs pos" "pg_ofs upage = 0"
    and "unat upage + 4096 * n \<le> unat PHYS_BASE" "unat rb + unat zb = 4096 * n" "pos + unat rb \<le> length bs"
    and "\<And>va. unat upage \<le> unat va \<Longrightarrow> unat va < unat upage + 4096 * n \<Longrightarrow> translate (pmem (palloc (vmem p))) (pagedir p) va = None"
  shows "\<exists>r k v'. load_pages n file upage rb zb w p = Inr (r, p\<lparr>filesys := k, vmem := v'\<rparr>) \<and> own_space v' D (pagedir p) \<and>
    kept D (pagedir p) (vmem p) v' \<and> moved file (filesys p) k \<and>
    (\<exists>pos. reading k file bs pos) \<and> (if r then loaded (pmem (palloc (vmem p))) (pagedir p) (unat upage) (4096 * n) bs pos (unat rb) w (pmem (palloc v')) \<and>
       pages_taken p n (unat upage) v'
     else free_user_cnt (palloc (vmem p)) < n \<or> free_cnt (palloc (vmem p)) < n)"
  using assms
proof (induction n arbitrary: p pos upage rb zb)
  case 0
  then have "load_pages 0 file upage rb zb w p = Inr (True, p\<lparr>filesys := filesys p, vmem := vmem p\<rparr>)" "unat rb = 0"
    by (simp_all add: word_less_nat_alt)
  then show ?case using 0 by (intro exI [of _ True] exI [of _ "filesys p"] exI [of _ "vmem p"]) (auto simp: loaded_def pages_taken_def)
next
  case (Suc n)
  let ?d = "pagedir p" and ?r = "if rb < of_nat PGSIZE then rb else (of_nat PGSIZE :: word_t)"
  have pb: "unat PHYS_BASE < 2 ^ 32" by (simp add: PHYS_BASE_def)
  have upl: "is_user_vaddr upage" using Suc.prems(4) by (simp add: is_user_vaddr_def word_less_nat_alt)
  have none: "translate (pmem (palloc (vmem p))) ?d upage = None" using Suc.prems(7) [of upage] by simp
  have len: "pos + min (unat rb) 4096 \<le> length bs" using Suc.prems(6) by simp
  note ps = page_split [OF Suc.prems(5)]
  from load_round [OF Suc.prems(1-3) upl none Suc.prems(5) len, of w] show ?case
  proof (elim disjE exE conjE)
    fix v'
    assume "load_pages (Suc n) file upage rb zb w p = Inr (False, p\<lparr>vmem := v'\<rparr>)" "own_space v' D ?d" "kept D ?d (vmem p) v'"
      "min (free_user_cnt (palloc (vmem p))) (free_cnt (palloc (vmem p))) = 0"
    moreover have "\<exists>pos. reading (filesys p) file bs pos" using Suc.prems(2) by blast
    ultimately show ?thesis by (intro exI [of _ False] exI [of _ "filesys p"] exI [of _ v']) (auto simp del: load_pages.simps)
  next
    fix k v1
    assume run: "load_pages (Suc n) file upage rb zb w p =
        load_pages n file (upage + of_nat PGSIZE) (rb - ?r) (zb - (of_nat PGSIZE - ?r)) w (p\<lparr>filesys := k, vmem := v1\<rparr>)"
      and v1: "own_space v1 D ?d" "kept D ?d (vmem p) v1"
      and cnt: "free_user_cnt (palloc (vmem p)) = Suc (free_user_cnt (palloc v1))" "free_cnt (palloc (vmem p)) \<le> Suc (free_cnt (palloc v1))"
      and v1': "reading k file bs (pos + unat ?r)" "moved file (filesys p) k"
      and tr: "\<forall>va. pg_no va \<noteq> pg_no upage \<longrightarrow> translate (pmem (palloc v1)) ?d va = translate (pmem (palloc (vmem p))) ?d va"
      and ld: "loaded (pmem (palloc (vmem p))) ?d (unat upage) 4096 bs pos (unat ?r) w (pmem (palloc v1))"
    let ?p = "p\<lparr>filesys := k, vmem := v1\<rparr>" and ?up = "upage + of_nat PGSIZE"
    have up: "unat ?up = unat upage + 4096"
      using unat_add_nat [of upage 4096] Suc.prems(4) pb by (simp add: PGSIZE_def)
    have "pg_ofs (of_nat PGSIZE) = 0" by (simp add: pg_ofs_def PGSIZE_def PGMASK_def)
    then have al: "pg_ofs ?up = 0" by (rule aligned_add [OF Suc.prems(3)])
    have none': "translate (pmem (palloc v1)) ?d va = None" if "unat ?up \<le> unat va" "unat va < unat ?up + 4096 * n" for va
    proof -
      have "pg_no va \<noteq> pg_no upage" using page_range(1) [OF Suc.prems(3), of va] that(1) up by simp
      then show ?thesis using tr Suc.prems(7) [of va] that up by simp
    qed
    have rest: "unat (rb - ?r) = unat rb - unat ?r" "pos + unat ?r + unat (rb - ?r) \<le> length bs" "unat ?r \<le> unat rb"
      using ps(2,4) Suc.prems(6) by simp_all
    have fit: "unat ?up + 4096 * n \<le> unat PHYS_BASE" using Suc.prems(4) up by simp
    obtain r k2 v2 where v2: "load_pages n file ?up (rb - ?r) (zb - (of_nat PGSIZE - ?r)) w ?p = Inr (r, ?p\<lparr>filesys := k2, vmem := v2\<rparr>)"
      "own_space v2 D (pagedir ?p)" "kept D (pagedir ?p) (vmem ?p) v2" "moved file (filesys ?p) k2" "\<exists>pos. reading k2 file bs pos"
      and c: "if r then loaded (pmem (palloc (vmem ?p))) (pagedir ?p) (unat ?up) (4096 * n) bs (pos + unat ?r) (unat (rb - ?r)) w (pmem (palloc v2)) \<and>
          pages_taken ?p n (unat ?up) v2
        else free_user_cnt (palloc (vmem ?p)) < n \<or> free_cnt (palloc (vmem ?p)) < n"
      using Suc.IH [of ?p "pos + unat ?r" ?up "rb - ?r" "zb - (of_nat PGSIZE - ?r)"] v1(1) v1'(1) al fit ps(5) rest(2) none' by auto
    have "loaded (pmem (palloc (vmem p))) ?d (unat upage) (4096 * Suc n) bs pos (unat rb) w (pmem (palloc v2))" if r
      unfolding loaded_def
    proof (intro allI impI)
      fix va
      assume va: "is_user_vaddr va"
      have two: "user_view (pmem (palloc v2)) ?d va = (if unat upage + 4096 \<le> unat va \<and> unat va < unat upage + 4096 + 4096 * n
          then Some (if unat va - (unat upage + 4096) < unat rb - unat ?r then bs ! (pos + unat ?r + (unat va - (unat upage + 4096))) else 0, w)
          else user_view (pmem (palloc v1)) ?d va)"
        using c that va up rest(1) by (simp add: loaded_def)
      have one: "user_view (pmem (palloc v1)) ?d va = (if unat upage \<le> unat va \<and> unat va < unat upage + 4096
          then Some (if unat va - unat upage < unat ?r then bs ! (pos + (unat va - unat upage)) else 0, w) else user_view (pmem (palloc (vmem p))) ?d va)"
        using ld va by (simp add: loaded_def)
      consider "unat va < unat upage" | "unat upage \<le> unat va" "unat va < unat upage + 4096"
        | "unat upage + 4096 \<le> unat va" "unat va < unat upage + 4096 + 4096 * n" | "unat upage + 4096 + 4096 * n \<le> unat va" by linarith
      then show "user_view (pmem (palloc v2)) ?d va = (if unat upage \<le> unat va \<and> unat va < unat upage + 4096 * Suc n
          then Some (if unat va - unat upage < unat rb then bs ! (pos + (unat va - unat upage)) else 0, w) else user_view (pmem (palloc (vmem p))) ?d va)"
      proof cases
        case 2
        then have "unat va - unat upage < unat ?r \<longleftrightarrow> unat va - unat upage < unat rb" using ps(2) by auto
        then show ?thesis using 2 unfolding two one by simp
      next
        case 3
        have "unat ?r = 4096" if "4096 \<le> unat rb" using ps(2) that by simp
        moreover have "\<not> unat va - unat upage < unat rb" "unat rb - unat ?r = 0" if "unat rb < 4096" using 3 that ps(2) by simp_all
        ultimately show ?thesis using 3 unfolding two by (cases "4096 \<le> unat rb") (auto simp: algebra_simps)
      qed (unfold two one, simp_all)
    qed
    moreover have "pages_taken p (Suc n) (unat upage) v2" if r
    proof -
      have t: "pages_taken ?p n (unat ?up) v2" using c that by simp
      have "translate (pmem (palloc v2)) ?d va = translate (pmem (palloc (vmem p))) ?d va"
        if "\<not> (unat upage \<le> unat va \<and> unat va < unat upage + 4096 * Suc n)" for va
      proof -
        have "pg_no va \<noteq> pg_no upage" using page_range(1) [OF Suc.prems(3), of va] that by auto
        then have "translate (pmem (palloc v1)) ?d va = translate (pmem (palloc (vmem p))) ?d va" using tr by simp
        moreover have "\<not> (unat ?up \<le> unat va \<and> unat va < unat ?up + 4096 * n)" using that up by auto
        ultimately show ?thesis using t by (simp add: pages_taken_def)
      qed
      then show ?thesis using t cnt unfolding pages_taken_def by simp
    qed
    moreover have "kept D ?d (vmem p) v2" using kept_trans [OF v1(2)] v2(3) by simp
    moreover have "load_pages (Suc n) file upage rb zb w p = Inr (r, p\<lparr>filesys := k2, vmem := v2\<rparr>)" unfolding run v2(1) by simp
    ultimately show ?thesis
      using v2(2,5) moved_trans [OF v1'(2)] v2(4) c cnt by (intro exI [of _ r] exI [of _ k2] exI [of _ v2]) (simp only: if_bool_eq_conj, auto)
  qed
qed

section \<open>A segment\<close>

lemma reading_seek:
  assumes "reading k file bs pos" "ofs < 2 ^ 31"
  shows "\<exists>k'. file_seek file (int ofs) k = Inr k' \<and> reading k' file bs ofs \<and> moved file k k'"
proof -
  obtain f i where f: "file \<noteq> 0" "file_heap k file = Some f" "live_inode k (file_inode f) i" "content k i = bs"
    using assms(1) by (auto simp: reading_def)
  let ?k = "put_file file (f\<lparr>file_pos := int ofs\<rparr>) k"
  have "file_seek file (int ofs) k = Inr ?k" using f(1,2) by (simp add: file_seek_def follow_def)
  moreover have "reading ?k file bs ofs"
    using f assms(2) by (simp add: reading_def put_file_def live_inode_def inode_ok_def content_def flat_def no_fail_def)
  moreover have "moved file k ?k" by (rule moved_put [OF f(2) fs_same_refl refl])
  ultimately show ?thesis by blast
qed

lemma reading_length:
  assumes "reading k file bs pos"
  shows "file_length file k = Inr (int (length bs))" "length bs < 2 ^ 31"
proof -
  obtain f i where f: "file \<noteq> 0" "file_heap k file = Some f" "live_inode k (file_inode f) i" "content k i = bs"
    using assms by (auto simp: reading_def)
  have l: "inode_heap k (file_inode f) = Some i" "file_inode f \<noteq> 0" "inode_ok k i" using f(3) by (auto simp: live_inode_def)
  have n: "length bs = nat (inode_length i)" "0 \<le> inode_length i" using length_content [OF l(3)] f(4) l(3) by (simp_all add: inode_ok_def)
  then show "file_length file k = Inr (int (length bs))" using f(1,2) l by (simp add: file_length_def follow_def)
  show "length bs < 2 ^ 31" using n inode_length_range(1) [of i] by simp
qed

lemma sdiv_smod_nonneg_4096: "0 \<le> a \<Longrightarrow> a smod 4096 = a mod (4096 :: int)"
  by (auto simp: signed_modulo_int_def signed_divide_int_def sgn_if)

text \<open>\<open>load_segment\<close> is its loop when what it asserts holds.\<close>

lemma load_segment_runs:
  assumes rd: "reading (filesys p) file bs pos0" and up: "pg_ofs upage = 0"
    and sz: "unat rb + unat zb = 4096 * n" "unat upage + 4096 * n \<le> unat PHYS_BASE" and pos: "pos mod 4096 = 0" "pos < 2 ^ 31"
  shows "\<exists>k. load_segment file (int pos) upage rb zb w p = load_pages n file upage rb zb w (p\<lparr>filesys := k\<rparr>) \<and>
    reading k file bs pos \<and> moved file (filesys p) k"
proof -
  obtain k where k: "file_seek file (int pos) (filesys p) = Inr k" "reading k file bs pos" "moved file (filesys p) k"
    using reading_seek [OF rd pos(2)] by blast
  have "unat PHYS_BASE < 2 ^ 32" by (simp add: PHYS_BASE_def)
  then have "unat (rb + zb) = 4096 * n" using sz unat_plus_simple [of rb zb] by (simp add: unat_word_ariths)
  moreover have "int pos mod 4096 = 0" using pos(1) zmod_int [of pos 4096] by simp
  then have "int pos smod 4096 = 0" by (simp add: sdiv_smod_nonneg_4096)
  ultimately have "load_segment file (int pos) upage rb zb w p = load_pages n file upage rb zb w (p\<lparr>filesys := k\<rparr>)"
    using up k(1) sz(1) by (simp add: load_segment_def to_fs_def PGSIZE_def)
  then show ?thesis using k(2,3) by blast
qed

section \<open>A program header\<close>

lemma page_parts:
  "unat (x AND PGMASK) = unat x mod 4096" "unat (x AND NOT PGMASK) = unat x - unat x mod 4096" "pg_ofs (x AND NOT PGMASK) = 0"
proof -
  have m: "PGMASK = mask 12" by (simp add: PGMASK_def mask_eq_exp_minus_1)
  have "x AND PGMASK = take_bit 12 x" by (simp only: m take_bit_eq_mask)
  then have "unat (x AND PGMASK) = take_bit 12 (unat x)" by (simp only: unsigned_take_bit_eq)
  then show a: "unat (x AND PGMASK) = unat x mod 4096" by (simp add: take_bit_eq_mod)
  have "x - (x AND PGMASK) = x AND NOT (x AND PGMASK)"
    by (rule disjunctive_diff_eq_and_not) (simp add: word_eq_bits bit_simps)
  also have "\<dots> = x AND NOT PGMASK" by (auto simp: word_eq_bits bit_simps)
  finally have e: "x AND NOT PGMASK = x - (x AND PGMASK)" ..
  have "x AND PGMASK \<le> x" using a by (simp add: word_le_nat_alt)
  then show b: "unat (x AND NOT PGMASK) = unat x - unat x mod 4096" unfolding e using unat_sub a by metis
  have "(unat x - unat x mod 4096) mod 4096 = 0" by (metis minus_mod_eq_mult_div mod_mult_self1_is_0)
  then show "pg_ofs (x AND NOT PGMASK) = 0" by (simp only: pg_ofs_mod b)
qed

text \<open>What \<open>validate_segment\<close> accepts, in numbers.\<close>

definition segment_valid :: "Elf32_Phdr \<Rightarrow> nat \<Rightarrow> bool" where
  "segment_valid h len \<longleftrightarrow> unat (p_offset h) mod 4096 = unat (p_vaddr h) mod 4096 \<and> unat (p_offset h) \<le> len \<and>
     unat (p_filesz h) \<le> unat (p_memsz h) \<and> 0 < unat (p_memsz h) \<and> 4096 \<le> unat (p_vaddr h) \<and>
     unat (p_vaddr h) + unat (p_memsz h) < unat PHYS_BASE"

lemma validate_segment_valid:
  assumes "reading k file bs pos"
  shows "validate_segment h file k = Inr (segment_valid h (length bs))"
proof -
  note l = reading_length [OF assms]
  let ?o = "p_offset h" and ?a = "p_vaddr h" and ?m = "p_memsz h" and ?f = "p_filesz h"
  have "?o AND PGMASK = ?a AND PGMASK \<longleftrightarrow> unat ?o mod 4096 = unat ?a mod 4096"
    unfolding word_unat_eq_iff [of "?o AND PGMASK"] page_parts(1) ..
  moreover have "unat (of_int (int (length bs)) :: word_t) = length bs" using l(2) by (simp add: unat_of_nat take_bit_nat_eq_self)
  then have "?o > of_int (int (length bs)) \<longleftrightarrow> \<not> unat ?o \<le> length bs" by (simp only: word_less_nat_alt not_le)
  moreover have "?m < ?f \<longleftrightarrow> \<not> unat ?f \<le> unat ?m" by (simp only: word_less_nat_alt not_le)
  moreover have "?m = 0 \<longleftrightarrow> \<not> 0 < unat ?m" by (simp add: word_unat_eq_iff)
  moreover have "?a < of_nat PGSIZE \<longleftrightarrow> \<not> 4096 \<le> unat ?a" by (simp add: word_less_nat_alt PGSIZE_def not_le)
  moreover have "is_user_vaddr ?a \<and> is_user_vaddr (?a + ?m) \<and> \<not> ?a + ?m < ?a \<longleftrightarrow> unat ?a + unat ?m < unat PHYS_BASE"
  proof (cases "unat ?a + unat ?m < 2 ^ 32")
    case True
    then have "unat (?a + ?m) = unat ?a + unat ?m" by (simp add: unat_word_ariths)
    then show ?thesis by (auto simp: is_user_vaddr_def word_less_nat_alt)
  next
    case False
    moreover have "unat ?a < 2 ^ 32" "unat ?m < 2 ^ 32" using unsigned_less [of ?a, where ?'a = nat] unsigned_less [of ?m, where ?'a = nat] by simp_all
    ultimately have "unat (?a + ?m) = unat ?a + unat ?m - 2 ^ 32" by (simp add: unat_plus_if_size word_size)
    then have "?a + ?m < ?a" using \<open>unat ?m < 2 ^ 32\<close> False by (simp only: word_less_nat_alt)
    moreover have "unat PHYS_BASE < 2 ^ 32" by (simp add: PHYS_BASE_def)
    ultimately show ?thesis using False by simp
  qed
  ultimately show ?thesis
    unfolding validate_segment_def l(1) segment_valid_def by auto
qed

lemma segment_sizes:
  assumes v: "segment_valid h len" and b: "segment_bytes h = (rb, zb)"
  defines "po \<equiv> unat (p_vaddr h) mod 4096" and "n \<equiv> (unat (p_vaddr h) mod 4096 + unat (p_memsz h) + 4095) div 4096"
  shows "unat rb + unat zb = 4096 * n" "unat rb = (if unat (p_filesz h) = 0 then 0 else po + unat (p_filesz h))"
    "unat (p_vaddr h AND NOT PGMASK) + 4096 * n \<le> unat PHYS_BASE" "po + unat (p_memsz h) \<le> 4096 * n"
proof -
  let ?a = "unat (p_vaddr h)" and ?m = "unat (p_memsz h)" and ?f = "unat (p_filesz h)"
  have ph: "unat PHYS_BASE = 3221225472" by (simp add: PHYS_BASE_def)
  have sv: "?f \<le> ?m" "?a + ?m < 3221225472" using v ph by (simp_all add: segment_valid_def)
  have poa: "po \<le> ?a" "po < 4096" by (simp_all add: po_def)
  obtain c where c: "?a = 4096 * c + po" using mult_div_mod_eq [of 4096 ?a] by (metis po_def)
  have n: "4096 * n \<le> po + ?m + 4095" "po + ?m \<le> 4096 * n" by (simp_all add: n_def po_def [symmetric])
  show "po + ?m \<le> 4096 * n" by (rule n(2))
  have "4096 * (c + n) < 4096 * 786433" using n(1) c sv(2) by simp
  then have "c + n \<le> 786432" by simp
  moreover have "unat (p_vaddr h AND NOT PGMASK) = 4096 * c"
    using page_parts(2) [of "p_vaddr h", folded po_def] c by simp
  ultimately show "unat (p_vaddr h AND NOT PGMASK) + 4096 * n \<le> unat PHYS_BASE" using ph by simp
  let ?po = "p_vaddr h AND PGMASK"
  have po: "unat ?po = po" by (simp add: page_parts(1) po_def)
  have x: "unat (?po + p_memsz h) = po + ?m" "unat (?po + p_filesz h) = po + ?f"
    using po poa sv by (simp_all add: unat_word_ariths)
  have "unat (?po + p_memsz h + of_nat 4095) = po + ?m + 4095" by (subst unat_add_nat) (use x poa sv in simp_all)
  moreover have e: "?po + p_memsz h + of_nat PGSIZE - 1 = ?po + p_memsz h + of_nat 4095" by (simp add: PGSIZE_def)
  ultimately have y: "unat (?po + p_memsz h + of_nat PGSIZE - 1) = po + ?m + 4095" by (simp only: e)
  have "unat ((?po + p_memsz h + of_nat PGSIZE - 1) div of_nat PGSIZE) = n"
    unfolding unat_div y by (simp add: PGSIZE_def n_def po_def)
  then have "unat (ROUND_UP (?po + p_memsz h) (of_nat PGSIZE)) = n * 4096 mod 2 ^ 32"
    unfolding ROUND_UP_def by (simp add: unat_word_ariths PGSIZE_def)
  moreover have "n * 4096 < 2 ^ 32" using n(1) poa sv by simp
  ultimately have R: "unat (ROUND_UP (?po + p_memsz h) (of_nat PGSIZE)) = 4096 * n" by simp
  have fz: "p_filesz h > 0 \<longleftrightarrow> ?f \<noteq> 0" by (simp add: word_less_nat_alt)
  have le: "?po + p_filesz h \<le> ROUND_UP (?po + p_memsz h) (of_nat PGSIZE)"
    unfolding word_le_nat_alt R x(2) using n(2) sv(1) by simp
  then have d: "unat (ROUND_UP (?po + p_memsz h) (of_nat PGSIZE) - (?po + p_filesz h)) = 4096 * n - (po + ?f)"
    by (simp only: unat_sub [OF le] R x(2))
  show "unat rb + unat zb = 4096 * n" "unat rb = (if ?f = 0 then 0 else po + ?f)"
    using b R d x(2) n(2) sv(1) by (auto simp: segment_bytes_def Let_def fz split: if_splits)
qed

text \<open>The addresses of a segment and of the pages it is in.\<close>

definition segment_pages :: "Elf32_Phdr \<Rightarrow> nat" where
  "segment_pages h = (unat (p_vaddr h) mod 4096 + unat (p_memsz h) + 4095) div 4096"

definition in_segment_pages :: "Elf32_Phdr \<Rightarrow> word_t \<Rightarrow> bool" where
  "in_segment_pages h va \<longleftrightarrow> unat (p_vaddr h) - unat (p_vaddr h) mod 4096 \<le> unat va \<and>
     unat va < unat (p_vaddr h) - unat (p_vaddr h) mod 4096 + 4096 * segment_pages h"

text \<open>The byte of a segment at an address: up to the end of its bytes in the file those bytes, before them in the first
  page the bytes that are before them in the file, and 0 from there on.\<close>

definition segment_byte :: "byte_t list \<Rightarrow> Elf32_Phdr \<Rightarrow> word_t \<Rightarrow> byte_t" where
  "segment_byte bs h va = (if unat (p_filesz h) \<noteq> 0 \<and> unat va < unat (p_vaddr h) + unat (p_filesz h)
     then bs ! (unat (p_offset h) + unat va - unat (p_vaddr h)) else 0)"

definition segment_writable :: "Elf32_Phdr \<Rightarrow> bool" where
  "segment_writable h \<longleftrightarrow> p_flags h AND PF_W \<noteq> 0"

lemma offsets:
  fixes a b o' v x y f :: nat
  shows "y + b = o' \<Longrightarrow> x + b = a \<Longrightarrow> x \<le> v \<Longrightarrow> y + (v - x) = o' + v - a \<and> (v - x < b + f \<longleftrightarrow> v < a + f)"
  by auto

text \<open>The first page of a segment, in memory and in the file.\<close>

definition first_page :: "Elf32_Phdr \<Rightarrow> nat" where
  "first_page h = unat (p_vaddr h) - unat (p_vaddr h) mod 4096"

definition first_pos :: "Elf32_Phdr \<Rightarrow> nat" where
  "first_pos h = unat (p_offset h) - unat (p_offset h) mod 4096"

lemma first_eq:
  assumes "segment_valid h len"
  shows "first_page h + unat (p_vaddr h) mod 4096 = unat (p_vaddr h)" "first_pos h + unat (p_vaddr h) mod 4096 = unat (p_offset h)"
    "first_pos h \<le> len"
proof -
  show "first_page h + unat (p_vaddr h) mod 4096 = unat (p_vaddr h)" by (simp add: first_page_def)
  have "unat (p_offset h) mod 4096 = unat (p_vaddr h) mod 4096" using assms by (simp add: segment_valid_def)
  moreover have "first_pos h + unat (p_offset h) mod 4096 = unat (p_offset h)" by (simp add: first_pos_def)
  ultimately show "first_pos h + unat (p_vaddr h) mod 4096 = unat (p_offset h)" by simp
  then show "first_pos h \<le> len" using assms by (simp add: segment_valid_def)
qed

lemma load_phdr_pages:
  assumes rd: "reading (filesys p) file bs pos0" and h: "p_type h = PT_LOAD" "segment_valid h (length bs)"
  shows "\<exists>k up rb zb. load_phdr h file p = load_pages (segment_pages h) file up rb zb (segment_writable h) (p\<lparr>filesys := k\<rparr>) \<and>
    reading k file bs (first_pos h) \<and> moved file (filesys p) k \<and> pg_ofs up = 0 \<and> unat up = first_page h \<and>
    unat up + 4096 * segment_pages h \<le> unat PHYS_BASE \<and> unat rb + unat zb = 4096 * segment_pages h \<and>
    unat rb = (if unat (p_filesz h) = 0 then 0 else unat (p_vaddr h) mod 4096 + unat (p_filesz h))"
proof -
  let ?up = "p_vaddr h AND NOT PGMASK" and ?fp = "p_offset h AND NOT PGMASK"
  obtain rb zb where b: "segment_bytes h = (rb, zb)" by fastforce
  note sz = segment_sizes [OF h(2) b, folded segment_pages_def]
  have up: "unat ?up = first_page h" "unat ?fp = first_pos h" by (simp_all only: page_parts(2) first_page_def first_pos_def)
  have small: "first_pos h < 2 ^ 31" using first_eq(3) [OF h(2)] reading_length(2) [OF rd] by simp
  then have si: "sint ?fp = int (first_pos h)" using sint_small [of ?fp] up(2) by simp
  have al: "first_pos h mod 4096 = 0" unfolding first_pos_def by (metis minus_mod_eq_mult_div mod_mult_self1_is_0)
  obtain k where k: "load_segment file (int (first_pos h)) ?up rb zb (segment_writable h) p =
      load_pages (segment_pages h) file ?up rb zb (segment_writable h) (p\<lparr>filesys := k\<rparr>)"
    "reading k file bs (first_pos h)" "moved file (filesys p) k"
    using load_segment_runs [OF rd page_parts(3) sz(1,3) al small, where w = "segment_writable h"] by (elim exE conjE) (rule that)
  have "load_phdr h file p = load_segment file (int (first_pos h)) ?up rb zb (segment_writable h) p"
    using h validate_segment_valid [OF rd, of h] b si
    by (simp add: load_phdr_def PT_LOAD_def PT_DYNAMIC_def PT_INTERP_def PT_SHLIB_def segment_writable_def)
  then show ?thesis
    using k sz(1-3) up(1) page_parts(3) [of "p_vaddr h"] by (intro exI [of _ k] exI [of _ ?up] exI [of _ rb] exI [of _ zb]) simp
qed

lemma load_phdr_segment:
  assumes own: "own_space (vmem p) D (pagedir p)" and rd: "reading (filesys p) file bs pos0"
    and h: "p_type h = PT_LOAD" "segment_valid h (length bs)" "unat (p_offset h) + unat (p_filesz h) \<le> length bs"
    and none: "\<And>va. in_segment_pages h va \<Longrightarrow> translate (pmem (palloc (vmem p))) (pagedir p) va = None"
  shows "\<exists>r k v'. load_phdr h file p = Inr (r, p\<lparr>filesys := k, vmem := v'\<rparr>) \<and> own_space v' D (pagedir p) \<and>
    kept D (pagedir p) (vmem p) v' \<and> moved file (filesys p) k \<and>
    (\<exists>pos. reading k file bs pos) \<and>
    (if r then
       (\<forall>va. is_user_vaddr va \<longrightarrow> user_view (pmem (palloc v')) (pagedir p) va =
         (if in_segment_pages h va then Some (segment_byte bs h va, segment_writable h) else user_view (pmem (palloc (vmem p))) (pagedir p) va)) \<and>
       (\<forall>va. \<not> in_segment_pages h va \<longrightarrow> translate (pmem (palloc v')) (pagedir p) va = translate (pmem (palloc (vmem p))) (pagedir p) va) \<and>
       free_user_cnt (palloc (vmem p)) = segment_pages h + free_user_cnt (palloc v') \<and>
       free_cnt (palloc (vmem p)) \<le> segment_pages h + free_cnt (palloc v')
     else free_user_cnt (palloc (vmem p)) < segment_pages h \<or> free_cnt (palloc (vmem p)) < segment_pages h)"
proof -
  let ?n = "segment_pages h" and ?w = "segment_writable h" and ?po = "unat (p_vaddr h) mod 4096"
  note fe = first_eq [OF h(2)]
  obtain k1 up rb zb where run: "load_phdr h file p = load_pages ?n file up rb zb ?w (p\<lparr>filesys := k1\<rparr>)"
    and k1: "reading k1 file bs (first_pos h)" "moved file (filesys p) k1"
    and up: "pg_ofs up = 0" "unat up = first_page h" "unat up + 4096 * ?n \<le> unat PHYS_BASE" "unat rb + unat zb = 4096 * ?n"
      "unat rb = (if unat (p_filesz h) = 0 then 0 else ?po + unat (p_filesz h))"
    using load_phdr_pages [OF rd h(1,2)] by blast
  have in_pages: "in_segment_pages h va \<longleftrightarrow> unat up \<le> unat va \<and> unat va < unat up + 4096 * ?n" for va
    by (simp add: in_segment_pages_def up(2) first_page_def)
  have len: "first_pos h + unat rb \<le> length bs" using up(5) fe(2,3) h(3) by (simp split: if_splits)
  let ?p = "p\<lparr>filesys := k1\<rparr>"
  have "\<exists>r k v'. load_pages ?n file up rb zb ?w ?p = Inr (r, ?p\<lparr>filesys := k, vmem := v'\<rparr>) \<and> own_space v' D (pagedir ?p) \<and>
    kept D (pagedir ?p) (vmem ?p) v' \<and> moved file (filesys ?p) k \<and> (\<exists>pos. reading k file bs pos) \<and>
    (if r then loaded (pmem (palloc (vmem ?p))) (pagedir ?p) (unat up) (4096 * ?n) bs (first_pos h) (unat rb) ?w (pmem (palloc v')) \<and>
       pages_taken ?p ?n (unat up) v'
     else free_user_cnt (palloc (vmem ?p)) < ?n \<or> free_cnt (palloc (vmem ?p)) < ?n)"
    by (rule load_pages_loads [OF _ _ up(1,3,4) len]) (use own k1(1) none in_pages in simp_all)
  then obtain r k v' where r: "load_pages ?n file up rb zb ?w ?p = Inr (r, p\<lparr>filesys := k, vmem := v'\<rparr>)" "own_space v' D (pagedir p)"
    "kept D (pagedir p) (vmem p) v'" "moved file k1 k" "\<exists>pos. reading k file bs pos"
    and c: "if r then loaded (pmem (palloc (vmem p))) (pagedir p) (unat up) (4096 * ?n) bs (first_pos h) (unat rb) ?w (pmem (palloc v')) \<and>
        pages_taken p ?n (unat up) v'
      else free_user_cnt (palloc (vmem p)) < ?n \<or> free_cnt (palloc (vmem p)) < ?n"
    by (auto simp: pages_taken_def cong: if_cong)
  have "user_view (pmem (palloc v')) (pagedir p) va =
      (if in_segment_pages h va then Some (segment_byte bs h va, ?w) else user_view (pmem (palloc (vmem p))) (pagedir p) va)"
    if rr: r and va: "is_user_vaddr va" for va
  proof -
    have "first_pos h + (unat va - unat up) = unat (p_offset h) + unat va - unat (p_vaddr h) \<and>
        (unat va - unat up < ?po + unat (p_filesz h) \<longleftrightarrow> unat va < unat (p_vaddr h) + unat (p_filesz h))" if "unat up \<le> unat va"
      by (rule offsets [OF fe(2) _ that]) (use fe(1) up(2) in simp)
    then have "first_pos h + (unat va - unat up) = unat (p_offset h) + unat va - unat (p_vaddr h) \<and>
        (unat va - unat up < unat rb \<longleftrightarrow> unat (p_filesz h) \<noteq> 0 \<and> unat va < unat (p_vaddr h) + unat (p_filesz h))" if "unat up \<le> unat va"
      using that unfolding up(5) by (cases "unat (p_filesz h) = 0") simp_all
    then show ?thesis using c rr va by (simp add: loaded_def in_pages segment_byte_def)
  qed
  then show ?thesis
    unfolding run using r(1-3,5) moved_trans [OF k1(2) r(4)] c
    by (intro exI [of _ r] exI [of _ k] exI [of _ v']) (auto simp: pages_taken_def in_pages)
qed

end
