(* ===== verification/Pintos_Process_Image.thy ===== *)
theory Pintos_Process_Image
  imports Pintos_Process_Load
begin

unbundle bit_operations_syntax

text \<open>
  Whole programs: \<open>setup_stack\<close>, the loop over the program headers, and \<open>load\<close> itself. The image of an
  executable is what its segments say, and the address space is that image and the stack.
\<close>

section \<open>The stack\<close>

text \<open>A page that is mapped and was not, next to what was mapped before.\<close>

lemma frames_view:
  assumes own: "own_space v D d" and va: "is_user_vaddr va"
    and fr: "\<And>q j. upage_used (palloc v) q \<Longrightarrow> j < 1024 \<Longrightarrow> tab m q j = tab (pmem (palloc v)) q j"
    and same: "translate m d va = translate (pmem (palloc v)) d va"
  shows "user_view m d va = user_view (pmem (palloc v)) d va"
proof (cases "translate (pmem (palloc v)) d va")
  case None
  then show ?thesis using same by (simp add: user_view_def)
next
  case (Some x)
  obtain p w u where x: "x = (p, w, u)" by (cases x)
  then have "upage_used (palloc v) p" using own_spaceD(6) [OF own va] Some by simp
  then have "byte_of m p (unat (pg_ofs va)) = byte_of (pmem (palloc v)) p (unat (pg_ofs va))"
    by (intro byte_of_eq fr pg_ofs_less)
  then show ?thesis using same Some x by (simp add: user_view_def)
qed

lemma kept_view:
  assumes "own_space v D d" "kept D d v v'" "is_user_vaddr va" "translate (pmem (palloc v')) d va = translate (pmem (palloc v)) d va"
  shows "user_view (pmem (palloc v')) d va = user_view (pmem (palloc v)) d va"
  by (rule frames_view [OF assms(1,3) _ assms(4)]) (use assms(2) in \<open>simp add: kept_def\<close>)

definition stack_page :: word_t where "stack_page = PHYS_BASE - of_nat PGSIZE"

lemma stack_page: "pg_ofs stack_page = 0" "is_user_vaddr stack_page"
  by (simp_all add: stack_page_def PHYS_BASE_def PGSIZE_def pg_ofs_def PGMASK_def is_user_vaddr_def)

lemma setup_stack_ok:
  assumes own: "own_space (vmem p) D (pagedir p)" and none: "translate (pmem (palloc (vmem p))) (pagedir p) stack_page = None"
  shows "\<exists>r v'. setup_stack p = Inr (r, p\<lparr>vmem := v'\<rparr>) \<and> own_space v' D (pagedir p) \<and> kept D (pagedir p) (vmem p) v' \<and>
    (if r = None then free_user_cnt (palloc (vmem p)) = 0 \<or> free_cnt (palloc (vmem p)) = 0
     else r = Some PHYS_BASE \<and> (\<forall>va. is_user_vaddr va \<longrightarrow> user_view (pmem (palloc v')) (pagedir p) va =
       (if pg_no va = pg_no stack_page then Some (0, True) else user_view (pmem (palloc (vmem p))) (pagedir p) va)))"
proof -
  let ?v = "vmem p" and ?d = "pagedir p" and ?fl = "PAL_USER OR PAL_ZERO"
  note o = own_spaceD [OF own]
  obtain q v1 where g: "vm_get_page ?fl ?v = Inr (q, v1)"
    and c: "if q = 0 then v1 = ?v \<and> False \<notin> set (bmap (used_map (user_pool (palloc ?v))))
     else own_space v1 D ?d \<and> kept D ?d ?v v1 \<and> kernel_pool (palloc v1) = kernel_pool (palloc ?v) \<and>
       \<not> upage_used (palloc ?v) q \<and> (\<forall>p. upage_used (palloc v1) p \<longleftrightarrow> upage_used (palloc ?v) p \<or> p = q) \<and>
       (\<forall>va. translate (pmem (palloc v1)) ?d va = translate (pmem (palloc ?v)) ?d va) \<and>
       free_cnt (palloc v1) = free_cnt (palloc ?v) \<and> (\<forall>k < 4096. byte_of (pmem (palloc v1)) q k = 0)"
    using new_frame [OF own PAL_bits(4,5)] PAL_bits(6) by (metis (no_types, lifting))
  show ?thesis
  proof (cases "q = 0")
    case True
    then have "setup_stack p = Inr (None, p\<lparr>vmem := ?v\<rparr>)" using g c by (simp add: setup_stack_def on_vm_def)
    then show ?thesis using True c own by (intro exI [of _ None] exI [of _ ?v]) (simp add: none_free)
  next
    case False
    then have v1: "own_space v1 D ?d" "kept D ?d ?v v1" "kernel_pool (palloc v1) = kernel_pool (palloc ?v)" "\<not> upage_used (palloc ?v) q"
      "\<And>p. upage_used (palloc v1) p \<longleftrightarrow> upage_used (palloc ?v) p \<or> p = q"
      "\<And>va. translate (pmem (palloc v1)) ?d va = translate (pmem (palloc ?v)) ?d va"
      "free_cnt (palloc v1) = free_cnt (palloc ?v)" "\<And>k. k < 4096 \<Longrightarrow> byte_of (pmem (palloc v1)) q k = 0"
      using c by auto
    have q: "upage_used (palloc v1) q" using v1(5) by simp
    have new: "translate (pmem (palloc v1)) ?d va \<noteq> Some (q, x, u)" if "is_user_vaddr va" for va x u
      using o(6) [OF that] v1(4) by (auto simp: v1(6))
    have none1: "translate (pmem (palloc v1)) ?d stack_page = None" using none by (simp add: v1(6))
    obtain r v2 where r: "pagedir_set_page ?d stack_page q True v1 = Inr (r, v2)"
      and c2: "if r then own_space v2 D ?d \<and> kept D ?d v1 v2 \<and> (\<forall>p. upage_used (palloc v2) p = upage_used (palloc v1) p) \<and>
       (\<forall>va. translate (pmem (palloc v2)) ?d va = (if pg_no va = pg_no stack_page then Some (q, True, True) else translate (pmem (palloc v1)) ?d va)) \<and>
       free_cnt (palloc v1) \<le> Suc (free_cnt (palloc v2)) \<and> free_user_cnt (palloc v2) = free_user_cnt (palloc v1)
       else v2 = v1 \<and> False \<notin> set (bmap (used_map (kernel_pool (palloc v1))))"
      using map_frame [OF v1(1) q new stack_page none1, of True] by blast
    have inst: "install_page (PHYS_BASE - of_nat PGSIZE) q True (p\<lparr>vmem := v1\<rparr>) = Inr (r, p\<lparr>vmem := v2\<rparr>)"
      using install_new [of "p\<lparr>vmem := v1\<rparr>" D stack_page q True] v1(1) stack_page(2) none1 r by (simp add: on_vm_def stack_page_def)
    show ?thesis
    proof (cases r)
      case True
      then have run: "setup_stack p = Inr (Some PHYS_BASE, p\<lparr>vmem := v2\<rparr>)" using g inst False by (simp add: setup_stack_def on_vm_def)
      have v2: "own_space v2 D ?d" "kept D ?d v1 v2" "kept D ?d ?v v2"
        "\<And>va. translate (pmem (palloc v2)) ?d va = (if pg_no va = pg_no stack_page then Some (q, True, True) else translate (pmem (palloc v1)) ?d va)"
        using c2 True kept_trans [OF v1(2)] by simp_all
      have "user_view (pmem (palloc v2)) ?d va =
          (if pg_no va = pg_no stack_page then Some (0, True) else user_view (pmem (palloc ?v)) ?d va)" if va: "is_user_vaddr va" for va
      proof (cases "pg_no va = pg_no stack_page")
        case True
        have "byte_of (pmem (palloc v2)) q (unat (pg_ofs va)) = byte_of (pmem (palloc v1)) q (unat (pg_ofs va))"
          using v2(2) q by (intro byte_of_eq pg_ofs_less) (simp add: kept_def)
        then show ?thesis using True v1(8) [OF pg_ofs_less] by (simp add: user_view_def v2(4))
      next
        case False
        then show ?thesis using kept_view [OF own v2(3) va] by (simp add: v2(4) v1(6))
      qed
      then show ?thesis using run v2 by (intro exI [of _ "Some PHYS_BASE"] exI [of _ v2]) simp
    next
      case nr: False
      then have v2: "v2 = v1" "free_cnt (palloc ?v) = 0" using c2 v1(7) none_free(1) by auto
      obtain v3 where v3: "vm_free_page q v1 = Inr v3" "own_space v3 D ?d" "v3\<lparr>palloc := palloc v1\<rparr> = v1"
        "\<And>p. upage_used (palloc v3) p \<longleftrightarrow> upage_used (palloc v1) p \<and> p \<noteq> q"
        "\<And>p j. pg_ofs p = 0 \<Longrightarrow> p \<noteq> q \<Longrightarrow> j < 1024 \<Longrightarrow> tab (pmem (palloc v3)) p j = tab (pmem (palloc v1)) p j"
        "\<And>d' va. d' \<in> D \<Longrightarrow> translate (pmem (palloc v3)) d' va = translate (pmem (palloc v1)) d' va"
        using free_frame [OF v1(1) q new] by blast
      have "setup_stack p = Inr (None, p\<lparr>vmem := v3\<rparr>)"
        using g inst False nr v2(1) v3(1) by (simp add: setup_stack_def on_vm_def to_vm_def)
      then show ?thesis
        using v2(2) v3(2) given_back [OF own v1(2,4,5) v3(4,3,5,6)] by (intro exI [of _ None] exI [of _ v3]) simp
    qed
  qed
qed

section \<open>The program headers\<close>

fun phdrs :: "byte_t list \<Rightarrow> nat \<Rightarrow> nat \<Rightarrow> Elf32_Phdr list" where
  "phdrs bs ofs 0 = []"
| "phdrs bs ofs (Suc n) = decode_phdr (take phdr_size (drop ofs bs)) # phdrs bs (ofs + phdr_size) n"

definition loadable :: "byte_t list \<Rightarrow> Elf32_Phdr \<Rightarrow> bool" where
  "loadable bs h \<longleftrightarrow> p_type h \<notin> {PT_DYNAMIC, PT_INTERP, PT_SHLIB} \<and>
     (p_type h = PT_LOAD \<longrightarrow> segment_valid h (length bs) \<and> unat (p_offset h) + unat (p_filesz h) \<le> length bs)"

text \<open>Segments that have no page in common.\<close>

definition pages_apart :: "Elf32_Phdr \<Rightarrow> Elf32_Phdr \<Rightarrow> bool" where
  "pages_apart h h' \<longleftrightarrow> p_type h \<noteq> PT_LOAD \<or> p_type h' \<noteq> PT_LOAD \<or>
     first_page h + 4096 * segment_pages h \<le> first_page h' \<or> first_page h' + 4096 * segment_pages h' \<le> first_page h"

text \<open>What an executable says is at an address, and whether it may be written.\<close>

definition segment_at :: "Elf32_Phdr list \<Rightarrow> word_t \<Rightarrow> Elf32_Phdr option" where
  "segment_at hs va = find (\<lambda>h. p_type h = PT_LOAD \<and> in_segment_pages h va) hs"

definition program_image :: "byte_t list \<Rightarrow> Elf32_Phdr list \<Rightarrow> word_t \<Rightarrow> (byte_t \<times> bool) option" where
  "program_image bs hs va = map_option (\<lambda>h. (segment_byte bs h va, segment_writable h)) (segment_at hs va)"

definition pages_needed :: "Elf32_Phdr list \<Rightarrow> nat" where
  "pages_needed hs = sum_list (map segment_pages (filter (\<lambda>h. p_type h = PT_LOAD) hs))"

lemma segment_at_None: "segment_at hs va = None \<longleftrightarrow> (\<forall>h \<in> set hs. p_type h = PT_LOAD \<longrightarrow> \<not> in_segment_pages h va)"
  by (auto simp: segment_at_def find_None_iff)

lemma program_image_None: "program_image bs hs va = None \<longleftrightarrow> segment_at hs va = None"
  by (simp add: program_image_def)

lemma pages_apartD:
  "pages_apart h h' \<Longrightarrow> p_type h = PT_LOAD \<Longrightarrow> p_type h' = PT_LOAD \<Longrightarrow> in_segment_pages h va \<Longrightarrow> \<not> in_segment_pages h' va"
  by (auto simp: pages_apart_def in_segment_pages_def first_page_def)

text \<open>\<open>phdr_result p hs \<dots>\<close>: the segments of \<open>hs\<close> are in the address space, or there was no room for them.\<close>

definition phdr_result :: "proc \<Rightarrow> addr \<Rightarrow> byte_t list \<Rightarrow> Elf32_Phdr list \<Rightarrow> bool \<Rightarrow> fs \<Rightarrow> vm \<Rightarrow> bool" where
  "phdr_result p file bs hs r k v' \<longleftrightarrow>
     (\<exists>pos. reading k file bs pos) \<and>
     (if r then
        (\<forall>va. is_user_vaddr va \<longrightarrow> user_view (pmem (palloc v')) (pagedir p) va =
          (case program_image bs hs va of None \<Rightarrow> user_view (pmem (palloc (vmem p))) (pagedir p) va | Some x \<Rightarrow> Some x)) \<and>
        (\<forall>va. segment_at hs va = None \<longrightarrow>
          translate (pmem (palloc v')) (pagedir p) va = translate (pmem (palloc (vmem p))) (pagedir p) va) \<and>
        free_user_cnt (palloc (vmem p)) = pages_needed hs + free_user_cnt (palloc v') \<and>
        free_cnt (palloc (vmem p)) \<le> pages_needed hs + free_cnt (palloc v')
      else free_user_cnt (palloc (vmem p)) < pages_needed hs \<or> free_cnt (palloc (vmem p)) < pages_needed hs)"

lemma phdr_result_filesys [simp]: "phdr_result (p\<lparr>filesys := k1\<rparr>) file bs hs r k v' = phdr_result p file bs hs r k v'"
  by (simp add: phdr_result_def cong: option.case_cong)

lemma load_phdr_one:
  assumes own: "own_space (vmem p) D (pagedir p)" and rd: "reading (filesys p) file bs pos0" and h: "loadable bs h"
    and none: "\<And>va. segment_at [h] va \<noteq> None \<Longrightarrow> translate (pmem (palloc (vmem p))) (pagedir p) va = None"
  shows "\<exists>r k v'. load_phdr h file p = Inr (r, p\<lparr>filesys := k, vmem := v'\<rparr>) \<and> own_space v' D (pagedir p) \<and>
    kept D (pagedir p) (vmem p) v' \<and> moved file (filesys p) k \<and> phdr_result p file bs [h] r k v'"
proof (cases "p_type h = PT_LOAD")
  case False
  then have "load_phdr h file p = Inr (True, p\<lparr>filesys := filesys p, vmem := vmem p\<rparr>)" using h by (simp add: load_phdr_def loadable_def)
  then show ?thesis
    using False own rd by (intro exI [of _ True] exI [of _ "filesys p"] exI [of _ "vmem p"])
      (auto simp: phdr_result_def program_image_def segment_at_def pages_needed_def)
next
  case True
  have s: "segment_at [h] va = (if in_segment_pages h va then Some h else None)" for va using True by (simp add: segment_at_def)
  obtain r k v' where r: "load_phdr h file p = Inr (r, p\<lparr>filesys := k, vmem := v'\<rparr>)" "own_space v' D (pagedir p)"
    "kept D (pagedir p) (vmem p) v'" "moved file (filesys p) k"
    and rd': "\<exists>pos. reading k file bs pos"
    and c: "if r then
       (\<forall>va. is_user_vaddr va \<longrightarrow> user_view (pmem (palloc v')) (pagedir p) va =
         (if in_segment_pages h va then Some (segment_byte bs h va, segment_writable h) else user_view (pmem (palloc (vmem p))) (pagedir p) va)) \<and>
       (\<forall>va. \<not> in_segment_pages h va \<longrightarrow> translate (pmem (palloc v')) (pagedir p) va = translate (pmem (palloc (vmem p))) (pagedir p) va) \<and>
       free_user_cnt (palloc (vmem p)) = segment_pages h + free_user_cnt (palloc v') \<and>
       free_cnt (palloc (vmem p)) \<le> segment_pages h + free_cnt (palloc v')
     else free_user_cnt (palloc (vmem p)) < segment_pages h \<or> free_cnt (palloc (vmem p)) < segment_pages h"
    using load_phdr_segment [OF own rd True] h True none s unfolding loadable_def by (metis (no_types, lifting) option.distinct(1))
  have "phdr_result p file bs [h] r k v'"
    using c rd' True by (cases r) (simp_all add: phdr_result_def program_image_def s pages_needed_def)
  then show ?thesis using r by blast
qed

lemma phdr_result_Cons:
  assumes one: "phdr_result p file bs [h] True k v'" and rest: "phdr_result (p\<lparr>filesys := k, vmem := v'\<rparr>) file bs hs r k2 v2"
    and ap: "\<forall>h' \<in> set hs. pages_apart h h'"
  shows "phdr_result p file bs (h # hs) r k2 v2"
proof -
  have n: "pages_needed (h # hs) = pages_needed [h] + pages_needed hs" by (simp add: pages_needed_def)
  have s: "segment_at (h # hs) va = (case segment_at [h] va of None \<Rightarrow> segment_at hs va | Some h \<Rightarrow> Some h)" for va
    by (simp add: segment_at_def)
  have x: "segment_at hs va = None" if "segment_at [h] va \<noteq> None" for va
  proof -
    have "p_type h = PT_LOAD" "in_segment_pages h va" using that by (auto simp: segment_at_def split: if_splits)
    then show ?thesis using ap pages_apartD unfolding segment_at_None by blast
  qed
  show ?thesis
  proof (cases r)
    case False
    then show ?thesis using one rest unfolding phdr_result_def n by auto
  next
    case True
    have "user_view (pmem (palloc v2)) (pagedir p) va =
        (case program_image bs (h # hs) va of None \<Rightarrow> user_view (pmem (palloc (vmem p))) (pagedir p) va | Some x \<Rightarrow> Some x)" if "is_user_vaddr va" for va
      using one rest True that x [of va] unfolding phdr_result_def program_image_def s [of va]
      by (cases "segment_at [h] va") (auto simp: program_image_def split: option.splits)
    then show ?thesis
      using one rest True unfolding phdr_result_def n by (auto simp: s split: option.splits)
  qed
qed

lemma phdr_loop_loads:
  assumes "own_space (vmem p) D (pagedir p)" "reading (filesys p) file bs pos0" "length junk = phdr_size"
    and "unat ofs + phdr_size * n \<le> length bs"
    and "\<forall>h \<in> set (phdrs bs (unat ofs) n). loadable bs h" "sorted_wrt pages_apart (phdrs bs (unat ofs) n)"
    and "\<And>va. segment_at (phdrs bs (unat ofs) n) va \<noteq> None \<Longrightarrow> translate (pmem (palloc (vmem p))) (pagedir p) va = None"
  shows "\<exists>r k v'. phdr_loop n file ofs junk p = Inr (r, p\<lparr>filesys := k, vmem := v'\<rparr>) \<and> own_space v' D (pagedir p) \<and>
    kept D (pagedir p) (vmem p) v' \<and> moved file (filesys p) k \<and> phdr_result p file bs (phdrs bs (unat ofs) n) r k v'"
  using assms
proof (induction n arbitrary: p ofs pos0)
  case 0
  then show ?case
    by (intro exI [of _ True] exI [of _ "filesys p"] exI [of _ "vmem p"])
      (auto simp: phdr_result_def program_image_def segment_at_def pages_needed_def)
next
  case (Suc n)
  let ?h = "decode_phdr (take phdr_size (drop (unat ofs) bs))" and ?d = "pagedir p"
  have len: "length bs < 2 ^ 31" "file_length file k = Inr (int (length bs))" if "reading k file bs pos" for k pos
    using reading_length [OF that] by simp_all
  have small: "unat ofs + phdr_size \<le> length bs" "unat ofs < 2 ^ 31" using Suc.prems(4) len(1) [OF Suc.prems(2)] by (simp_all add: phdr_size_def)
  have si: "sint ofs = int (unat ofs)" by (rule sint_small [OF small(2)])
  have inside: "\<not> int (length bs) < int (unat ofs)" unfolding of_nat_less_iff using small(1) by linarith
  obtain k1 where k1: "file_seek file (int (unat ofs)) (filesys p) = Inr k1" "reading k1 file bs (unat ofs)" "moved file (filesys p) k1"
    using reading_seek [OF Suc.prems(2) small(2)] by blast
  have mn: "min phdr_size (length bs - unat ofs) = phdr_size" using small(1) by simp
  have pb: "put_bytes junk 0 (take phdr_size (drop (unat ofs) bs)) = take phdr_size (drop (unat ofs) bs)"
    using small(1) Suc.prems(3) by (simp add: put_bytes_def)
  obtain k2 where k2: "file_read file junk (int phdr_size) k1 = Inr (int phdr_size, take phdr_size (drop (unat ofs) bs), k2)"
    "reading k2 file bs (unat ofs + phdr_size)" "moved file k1 k2"
    using file_read_reads [OF k1(2) Suc.prems(3)] unfolding mn pb by blast
  let ?p = "p\<lparr>filesys := k2\<rparr>"
  have h: "loadable bs ?h" using Suc.prems(5) by simp
  have none: "translate (pmem (palloc (vmem ?p))) (pagedir ?p) va = None" if "segment_at [?h] va \<noteq> None" for va
  proof -
    have "segment_at (phdrs bs (unat ofs) (Suc n)) va \<noteq> None" using that by (auto simp: segment_at_def split: if_splits)
    then show ?thesis using Suc.prems(7) by simp
  qed
  have own: "own_space (vmem ?p) D (pagedir ?p)" and rd: "reading (filesys ?p) file bs (unat ofs + phdr_size)"
    using Suc.prems(1) k2(2) by simp_all
  obtain r k v' where r: "load_phdr ?h file ?p = Inr (r, ?p\<lparr>filesys := k, vmem := v'\<rparr>)" "own_space v' D ?d"
    "kept D ?d (vmem p) v'" "moved file k2 k" "phdr_result ?p file bs [?h] r k v'"
    using load_phdr_one [OF own rd h none] by auto
  have mv: "moved file (filesys p) k" by (rule moved_trans [OF moved_trans [OF k1(3) k2(3)] r(4)])
  have res: "phdr_result p file bs [?h] r k v'" using r(5) by simp
  have run: "phdr_loop (Suc n) file ofs junk p =
      (if r then phdr_loop n file (ofs + of_nat phdr_size) junk (p\<lparr>filesys := k, vmem := v'\<rparr>) else Inr (False, p\<lparr>filesys := k, vmem := v'\<rparr>))"
    using len(2) [OF Suc.prems(2)] si inside k1(1) k2(1) r(1) by (simp add: to_fs_def)
  show ?case
  proof (cases r)
    case False
    have "pages_needed [?h] \<le> pages_needed (phdrs bs (unat ofs) (Suc n))" by (simp add: pages_needed_def)
    then have "phdr_result p file bs (phdrs bs (unat ofs) (Suc n)) False k v'"
      using res False unfolding phdr_result_def by auto
    then show ?thesis unfolding run using False r(2,3) mv by (intro exI [of _ False] exI [of _ k] exI [of _ v']) simp
  next
    case True
    let ?q = "p\<lparr>filesys := k, vmem := v'\<rparr>" and ?o = "ofs + of_nat phdr_size"
    have o: "unat ?o = unat ofs + phdr_size"
      using unat_add_nat [of ofs phdr_size] small len(1) [OF Suc.prems(2)] by (simp add: phdr_size_def)
    obtain pos where pos: "reading (filesys ?q) file bs pos" using res True by (auto simp: phdr_result_def)
    have ap: "\<forall>h' \<in> set (phdrs bs (unat ?o) n). pages_apart ?h h'" "sorted_wrt pages_apart (phdrs bs (unat ?o) n)"
      "\<forall>h \<in> set (phdrs bs (unat ?o) n). loadable bs h"
      using Suc.prems(5,6) by (simp_all add: o)
    have none': "translate (pmem (palloc (vmem ?q))) (pagedir ?q) va = None" if s: "segment_at (phdrs bs (unat ?o) n) va \<noteq> None" for va
    proof -
      have "segment_at (phdrs bs (unat ofs) (Suc n)) va \<noteq> None" using s by (auto simp: segment_at_None o)
      then have "translate (pmem (palloc (vmem p))) ?d va = None" by (rule Suc.prems(7))
      moreover have "segment_at [?h] va = None" using s ap(1) pages_apartD [of ?h] unfolding segment_at_None by auto
      ultimately show ?thesis using res True by (simp add: phdr_result_def)
    qed
    have room: "unat ?o + phdr_size * n \<le> length bs" using Suc.prems(4) by (simp add: o)
    have own': "own_space (vmem ?q) D (pagedir ?q)" using r(2) by simp
    obtain r2 k2 v2 where r2: "phdr_loop n file ?o junk ?q = Inr (r2, ?q\<lparr>filesys := k2, vmem := v2\<rparr>)" "own_space v2 D ?d"
      "kept D ?d v' v2" "moved file k k2" "phdr_result ?q file bs (phdrs bs (unat ?o) n) r2 k2 v2"
      using Suc.IH [OF own' pos Suc.prems(3) room ap(3,2) none'] by auto
    have "phdr_result p file bs (phdrs bs (unat ofs) (Suc n)) r2 k2 v2"
      using phdr_result_Cons [OF _ r2(5) ap(1)] res True by (simp add: o)
    moreover have "kept D ?d (vmem p) v2" by (rule kept_trans [OF r(3) r2(3)])
    ultimately show ?thesis
      unfolding run using True r2(1,2) moved_trans [OF mv r2(4)] by (intro exI [of _ r2] exI [of _ k2] exI [of _ v2]) simp
  qed
qed

section \<open>An executable\<close>

definition ehdr_of :: "byte_t list \<Rightarrow> Elf32_Ehdr" where
  "ehdr_of bs = decode_ehdr (take ehdr_size bs)"

definition program_headers :: "byte_t list \<Rightarrow> Elf32_Phdr list" where
  "program_headers bs = phdrs bs (unat (e_phoff (ehdr_of bs))) (unat (e_phnum (ehdr_of bs)))"

definition executable :: "byte_t list \<Rightarrow> bool" where
  "executable bs \<longleftrightarrow> ehdr_size \<le> length bs \<and> ehdr_valid (ehdr_of bs) \<and>
     unat (e_phoff (ehdr_of bs)) + phdr_size * unat (e_phnum (ehdr_of bs)) \<le> length bs \<and>
     (\<forall>h \<in> set (program_headers bs). loadable bs h) \<and> sorted_wrt pages_apart (program_headers bs) \<and>
     (\<forall>h \<in> set (program_headers bs). p_type h = PT_LOAD \<longrightarrow> first_page h + 4096 * segment_pages h \<le> unat stack_page)"

text \<open>The address space that a program starts in: its image and a page of zeros for the stack.\<close>

definition program_view :: "byte_t list \<Rightarrow> word_t \<Rightarrow> (byte_t \<times> bool) option" where
  "program_view bs va = (if pg_no va = pg_no stack_page then Some (0, True) else program_image bs (program_headers bs) va)"

definition frames_needed :: "byte_t list \<Rightarrow> nat" where
  "frames_needed bs = Suc (pages_needed (program_headers bs))"

lemma segment_below_stack:
  assumes "executable bs" "segment_at (program_headers bs) va \<noteq> None"
  shows "unat va < unat stack_page" "is_user_vaddr va"
proof -
  obtain h where h: "h \<in> set (program_headers bs)" "p_type h = PT_LOAD" "in_segment_pages h va"
    using assms(2) by (auto simp: segment_at_None)
  then have "first_page h + 4096 * segment_pages h \<le> unat stack_page" using assms(1) by (simp add: executable_def)
  then show l: "unat va < unat stack_page" using h(3) by (simp add: in_segment_pages_def first_page_def)
  show "is_user_vaddr va" using l stack_page(2) by (simp add: is_user_vaddr_def word_less_nat_alt)
qed

lemma load_file_loads:
  assumes own: "own_space (vmem p) D (pagedir p)" and rd: "reading (filesys p) file bs 0"
    and junk: "length junk_ehdr = ehdr_size" "length junk_phdr = phdr_size" and ex: "executable bs"
    and none: "\<And>va. is_user_vaddr va \<Longrightarrow> translate (pmem (palloc (vmem p))) (pagedir p) va = None"
  shows "\<exists>r k v'. load_file file junk_ehdr junk_phdr p = Inr (r, p\<lparr>filesys := k, vmem := v'\<rparr>) \<and> own_space v' D (pagedir p) \<and>
    kept D (pagedir p) (vmem p) v' \<and> moved file (filesys p) k \<and> (\<exists>pos. reading k file bs pos) \<and>
    (if r = None then free_user_cnt (palloc (vmem p)) < frames_needed bs \<or> free_cnt (palloc (vmem p)) < frames_needed bs
     else r = Some (e_entry (ehdr_of bs), PHYS_BASE) \<and>
       (\<forall>va. is_user_vaddr va \<longrightarrow> user_view (pmem (palloc v')) (pagedir p) va = program_view bs va))"
proof -
  let ?h = "ehdr_of bs" and ?d = "pagedir p" and ?hs = "program_headers bs"
  note e = ex [unfolded executable_def]
  have mn: "min ehdr_size (length bs - 0) = ehdr_size" using e by simp
  have pb: "put_bytes junk_ehdr 0 (take ehdr_size (drop 0 bs)) = take ehdr_size bs" using e junk(1) by (simp add: put_bytes_def)
  obtain k1 where k1: "file_read file junk_ehdr (int ehdr_size) (filesys p) = Inr (int ehdr_size, take ehdr_size bs, k1)"
    "reading k1 file bs (0 + ehdr_size)" "moved file (filesys p) k1"
    using file_read_reads [OF rd junk(1)] unfolding mn pb by blast
  let ?p = "p\<lparr>filesys := k1\<rparr>"
  have own1: "own_space (vmem ?p) D (pagedir ?p)" and rd1: "reading (filesys ?p) file bs (0 + ehdr_size)" using own k1(2) by simp_all
  have un: "translate (pmem (palloc (vmem ?p))) (pagedir ?p) va = None"
    if "segment_at (phdrs bs (unat (e_phoff ?h)) (unat (e_phnum ?h))) va \<noteq> None" for va
    using none segment_below_stack(2) [OF ex] that by (simp add: program_headers_def)
  obtain r k2 v2 where r: "phdr_loop (unat (e_phnum ?h)) file (e_phoff ?h) junk_phdr ?p = Inr (r, p\<lparr>filesys := k2, vmem := v2\<rparr>)"
    "own_space v2 D ?d" "kept D ?d (vmem p) v2" "moved file k1 k2" "phdr_result p file bs ?hs r k2 v2"
    using phdr_loop_loads [OF own1 rd1 junk(2), of "e_phoff ?h" "unat (e_phnum ?h)"] un e by (auto simp: program_headers_def)
  have mv: "moved file (filesys p) k2" by (rule moved_trans [OF k1(3) r(4)])
  have rd2: "\<exists>pos. reading k2 file bs pos" using r(5) by (auto simp: phdr_result_def split: if_splits)
  have run: "load_file file junk_ehdr junk_phdr p = (if r then
      bindE (setup_stack (p\<lparr>filesys := k2, vmem := v2\<rparr>)) (\<lambda>(s, p).
        case s of None \<Rightarrow> Inr (None, p) | Some sp \<Rightarrow> Inr (Some (e_entry ?h, sp), p))
      else Inr (None, p\<lparr>filesys := k2, vmem := v2\<rparr>))"
    using k1(1) e r(1) unfolding ehdr_of_def by (simp add: load_file_def Let_def)
  show ?thesis
  proof (cases r)
    case False
    then have "free_user_cnt (palloc (vmem p)) < frames_needed bs \<or> free_cnt (palloc (vmem p)) < frames_needed bs"
      using r(5) by (auto simp: phdr_result_def frames_needed_def)
    then show ?thesis unfolding run using False r(2,3) mv rd2 by (intro exI [of _ None] exI [of _ k2] exI [of _ v2]) simp
  next
    case True
    let ?q = "p\<lparr>filesys := k2, vmem := v2\<rparr>"
    have st: "segment_at ?hs va = None" if "pg_no va = pg_no stack_page" for va
      using segment_below_stack(1) [OF ex, of va] page_range(1) [OF stack_page(1), of va] that by force
    have "translate (pmem (palloc (vmem ?q))) (pagedir ?q) stack_page = None"
      using r(5) True st [of stack_page] none [OF stack_page(2)] by (simp add: phdr_result_def)
    moreover have "own_space (vmem ?q) D (pagedir ?q)" using r(2) by simp
    ultimately obtain s v3 where q: "setup_stack ?q = Inr (s, ?q\<lparr>vmem := v3\<rparr>)" "own_space v3 D (pagedir ?q)" "kept D (pagedir ?q) (vmem ?q) v3"
      "if s = None then free_user_cnt (palloc (vmem ?q)) = 0 \<or> free_cnt (palloc (vmem ?q)) = 0
        else s = Some PHYS_BASE \<and> (\<forall>va. is_user_vaddr va \<longrightarrow> user_view (pmem (palloc v3)) (pagedir ?q) va =
          (if pg_no va = pg_no stack_page then Some (0, True) else user_view (pmem (palloc (vmem ?q))) (pagedir ?q) va))"
      using setup_stack_ok [of ?q D] by blast
    moreover have "vmem ?q = v2" "pagedir ?q = ?d" "?q\<lparr>vmem := v3\<rparr> = p\<lparr>filesys := k2, vmem := v3\<rparr>" by simp_all
    ultimately have s: "setup_stack ?q = Inr (s, p\<lparr>filesys := k2, vmem := v3\<rparr>)" "own_space v3 D ?d" "kept D ?d v2 v3"
      and c: "if s = None then free_user_cnt (palloc v2) = 0 \<or> free_cnt (palloc v2) = 0
        else s = Some PHYS_BASE \<and> (\<forall>va. is_user_vaddr va \<longrightarrow> user_view (pmem (palloc v3)) ?d va =
          (if pg_no va = pg_no stack_page then Some (0, True) else user_view (pmem (palloc v2)) ?d va))"
      by (simp_all only:)
    have kp: "kept D ?d (vmem p) v3" by (rule kept_trans [OF r(3) s(3)])
    show ?thesis
    proof (cases s)
      case None
      then have "free_user_cnt (palloc (vmem p)) < frames_needed bs \<or> free_cnt (palloc (vmem p)) < frames_needed bs"
        using c r(5) True by (auto simp: phdr_result_def frames_needed_def)
      then show ?thesis
        unfolding run using True None s(1,2) kp mv rd2 by (intro exI [of _ None] exI [of _ k2] exI [of _ v3]) simp
    next
      case (Some sp)
      have old: "user_view (pmem (palloc (vmem p))) ?d va = None" if "is_user_vaddr va" for va
        using none [OF that] by (simp add: user_view_def)
      have "user_view (pmem (palloc v3)) ?d va = program_view bs va" if va: "is_user_vaddr va" for va
        using c Some r(5) True va old [OF va] by (auto simp: phdr_result_def program_view_def split: option.splits)
      then show ?thesis
        unfolding run using True Some c s(1,2) kp mv rd2
        by (intro exI [of _ "Some (e_entry ?h, PHYS_BASE)"] exI [of _ k2] exI [of _ v3]) simp
    qed
  qed
qed

end
