(* ===== verification/Pintos_Map_File.thy ===== *)
theory Pintos_Map_File
  imports Pintos_Directory_Refinement
begin

text \<open>
  The free map and its file: allocating and releasing sectors keeps the file equal to the map in
  memory, changes no other inode, and the map read from the file is the map that was written.
\<close>

section \<open>Sizes\<close>

lemma bitmap_set_shape: "bitmap_set b i v = Inr b' \<Longrightarrow> length (bits b') = length (bits b) \<and> bit_cnt b' = bit_cnt b"
  by (auto simp: bitmap_set_def bitmap_mark_def bitmap_reset_def split: if_splits)

lemma set_loop_shape: "set_loop n b s i v = Inr b' \<Longrightarrow> length (bits b') = length (bits b) \<and> bit_cnt b' = bit_cnt b"
proof (induction n arbitrary: b i)
  case (Suc n)
  then show ?case by (fastforce dest: bitmap_set_shape)
qed simp

lemma set_multiple_shape:
  "bitmap_set_multiple b s n v = Inr b' \<Longrightarrow> length (bits b') = length (bits b) \<and> bit_cnt b' = bit_cnt b"
  by (auto simp: bitmap_set_multiple_def dest: set_loop_shape)

lemma scan_and_flip_shape:
  "bitmap_scan_and_flip b s n v = Inr (i, b') \<Longrightarrow> length (bits b') = length (bits b) \<and> bit_cnt b' = bit_cnt b"
  by (auto simp: bitmap_scan_and_flip_def split: if_splits dest: set_multiple_shape)

section \<open>The file of the map\<close>

definition map_shape :: "bitmap \<Rightarrow> bool" where
  "map_shape b \<longleftrightarrow> bitmap_wf b \<and> length (bits b) = elem_cnt (bit_cnt b)"

lemma length_bitmap_write: "map_shape b \<Longrightarrow> length (bitmap_write b) = bitmap_file_size b"
  by (simp add: map_shape_def bitmap_write_def bitmap_file_size_def byte_cnt_def)

text \<open>\<open>map_ready k i\<close>: the map's file is open, its inode is \<open>i\<close> and has the size of the map.\<close>

definition map_ready :: "fs \<Rightarrow> inode \<Rightarrow> bool" where
  "map_ready k i \<longleftrightarrow> (\<exists>f. map_file k \<noteq> 0 \<and> file_heap k (map_file k) = Some f \<and> live_inode k (file_inode f) i) \<and>
    deny_write_cnt i = 0 \<and> inode_length i = int (bitmap_file_size (sector_map k)) \<and> map_shape (sector_map k)"

text \<open>\<open>synced k i\<close>: the file with inode \<open>i\<close> holds a map with the bits of the one in memory.\<close>

definition synced :: "fs \<Rightarrow> inode \<Rightarrow> bool" where
  "synced k i \<longleftrightarrow> (\<exists>b. map_shape b \<and> bmap b = bmap (sector_map k) \<and> content k i = bitmap_write b)"

lemma map_ready_same:
  assumes "map_ready k i" "same k k'" "length (flat k') = length (flat k)" "dev_ok (fs_device k')"
  shows "map_ready k' i"
  using assms live_inode_same [OF _ assms(2-4)] same_fields [OF assms(2)] by (auto simp: map_ready_def)

lemma map_ready_update:
  "map_ready k i \<Longrightarrow> map_shape b \<Longrightarrow> bit_cnt b = bit_cnt (sector_map k) \<Longrightarrow> map_ready (k\<lparr>sector_map := b\<rparr>) i"
  by (auto simp: map_ready_def live_inode_def bitmap_file_size_def inode_ok_def flat_def no_fail_def)

lemma same_map_update: "same k k' \<Longrightarrow> same (k\<lparr>sector_map := b\<rparr>) (k'\<lparr>sector_map := b\<rparr>)"
  by (cases k; cases k'; simp add: same_def)

text \<open>\<open>remapped k k'\<close>: the free map may have changed too.\<close>

definition remapped :: "fs \<Rightarrow> fs \<Rightarrow> bool" where
  "remapped k k' \<longleftrightarrow> same (k\<lparr>sector_map := sector_map k'\<rparr>) k'"

lemma same_remapped: "same k k' \<Longrightarrow> remapped k k'"
proof -
  assume s: "same k k'"
  have "k\<lparr>sector_map := sector_map k\<rparr> = k" by (cases k) simp
  then have "k\<lparr>sector_map := sector_map k'\<rparr> = k" by (simp only: same_fields(5) [OF s])
  then show ?thesis using s unfolding remapped_def by (simp only:)
qed

lemma remapped_refl [simp]: "remapped k k"
  by (rule same_remapped) simp

lemma remapped_trans [trans]:
  assumes "remapped k1 k2" "remapped k2 k3"
  shows "remapped k1 k3"
proof -
  have "same (k1\<lparr>sector_map := sector_map k2\<rparr>\<lparr>sector_map := sector_map k3\<rparr>) (k2\<lparr>sector_map := sector_map k3\<rparr>)"
    using assms(1) same_map_update unfolding remapped_def by blast
  then show ?thesis using assms(2) same_trans by (auto simp: remapped_def)
qed

lemma remapped_fields:
  assumes "remapped k k'"
  shows "open_inodes k' = open_inodes k" "inode_heap k' = inode_heap k" "file_heap k' = file_heap k"
    "dir_heap k' = dir_heap k" "map_file k' = map_file k" "block_size (fs_device k') = block_size (fs_device k)"
    "\<exists>j. mallocs k' = (\<lambda>n. mallocs k (n + j))"
proof -
  note s = assms [unfolded remapped_def]
  show "open_inodes k' = open_inodes k" "inode_heap k' = inode_heap k" "file_heap k' = file_heap k"
    "dir_heap k' = dir_heap k" "map_file k' = map_file k" "block_size (fs_device k') = block_size (fs_device k)"
    using same_fields [OF s] by simp_all
  have "\<exists>j. mallocs k' = (\<lambda>n. mallocs (k\<lparr>sector_map := sector_map k'\<rparr>) (n + j))"
    using s unfolding same_def by blast
  then show "\<exists>j. mallocs k' = (\<lambda>n. mallocs k (n + j))" by simp
qed

lemma content_map_update [simp]: "content (k\<lparr>sector_map := b\<rparr>) i = content k i" "flat (k\<lparr>sector_map := b\<rparr>) = flat k"
  "inode_ok (k\<lparr>sector_map := b\<rparr>) i = inode_ok k i"
  by (simp_all add: content_def flat_def inode_ok_def)

lemma map_write_syncs:
  assumes "map_ready k i"
  shows "\<exists>k'. map_write k = Inr (True, k') \<and> same k k' \<and> map_ready k' i \<and> synced k' i \<and> length (flat k') = length (flat k) \<and>
    (\<forall>j. inode_ok k j \<and> apart i j \<longrightarrow> content k' j = content k j)"
proof -
  obtain f where f: "map_file k \<noteq> 0" "file_heap k (map_file k) = Some f" "live_inode k (file_inode f) i"
    and d: "deny_write_cnt i = 0" "inode_length i = int (bitmap_file_size (sector_map k))" "map_shape (sector_map k)"
    using assms by (auto simp: map_ready_def)
  have ok: "dev_ok (fs_device k)" "inode_heap k (file_inode f) = Some i" "file_inode f \<noteq> 0" "inode_ok k i" "no_fail k"
    using f(3) by (auto simp: live_inode_def)
  let ?b = "bitmap_write (sector_map k)" and ?n = "int (bitmap_file_size (sector_map k))"
  have lb: "length ?b = bitmap_file_size (sector_map k)" by (rule length_bitmap_write [OF d(3)])
  have sp: "span i ?n 0 = length ?b" using d(2) lb by (simp add: span_def)
  have z: "0 \<le> (0 :: int)" "0 \<le> inode_length i" "span i ?n 0 \<le> length ?b" using d(2) sp by simp_all
  obtain k' where k': "inode_write_at (file_inode f) ?b ?n 0 k = Inr (int (span i ?n 0), k')" "same k k'"
    "dev_ok (fs_device k')" "length (flat k') = length (flat k)"
    "content k' i = put_bytes (content k i) (nat 0) (take (span i ?n 0) ?b)"
    "\<forall>j. inode_ok k j \<and> apart i j \<longrightarrow> content k' j = content k j"
    using inode_write_at_writes [OF ok d(1) z] by blast
  have "content k' i = ?b"
    using k'(5) sp lb length_content [OF ok(4)] d(2) by (simp add: put_bytes_whole)
  then have "synced k' i" using same_fields(5) [OF k'(2)] d(3) by (auto simp: synced_def)
  moreover have "map_write k = Inr (True, k')"
    using k'(1) f(1,2) sp lb by (simp add: map_write_def file_write_at_def follow_def Let_def)
  ultimately show ?thesis using k'(2,4,6) map_ready_same [OF assms k'(2,4,3)] by blast
qed

text \<open>A map read from the file is the one that was written to it.\<close>

lemma map_read_back:
  assumes "map_ready k i" "content k i = bitmap_write b" "map_shape b" "bit_cnt b = bit_cnt (sector_map k)"
  shows "\<exists>k'. map_read k = Inr (True, k') \<and> bmap (sector_map k') = bmap b \<and> flat k' = flat k \<and> remapped k k' \<and>
    dev_ok (fs_device k') \<and> map_shape (sector_map k')"
proof (cases "bit_cnt (sector_map k) = 0")
  case True
  then show ?thesis using assms(1,4) by (auto simp: map_read_def bmap_def map_ready_def live_inode_def)
next
  case False
  obtain f where f: "map_file k \<noteq> 0" "file_heap k (map_file k) = Some f" "live_inode k (file_inode f) i"
    and d: "inode_length i = int (bitmap_file_size (sector_map k))" "map_shape (sector_map k)"
    using assms(1) by (auto simp: map_ready_def)
  have ok: "dev_ok (fs_device k)" "inode_heap k (file_inode f) = Some i" "file_inode f \<noteq> 0" "inode_ok k i" "no_fail k"
    using f(3) by (auto simp: live_inode_def)
  let ?m = "sector_map k" and ?n = "int (bitmap_file_size (sector_map k))"
  have lm: "length (image (bits ?m)) = bitmap_file_size ?m" using d(2) by (simp add: map_shape_def bitmap_file_size_def byte_cnt_def)
  have sp: "span i ?n 0 = bitmap_file_size ?m" using d(1) by (simp add: span_def)
  have z: "0 \<le> (0 :: int)" "(0 :: int) < 2 ^ 31" "span i ?n 0 \<le> length (image (bits ?m))" using sp lm by simp_all
  obtain k' where k': "inode_read_at (file_inode f) (image (bits ?m)) ?n 0 k =
      Inr (int (span i ?n 0), put_bytes (image (bits ?m)) 0 (take (nat ?n) (drop (nat 0) (content k i))), k')"
    "same k k'" "flat k' = flat k" "dev_ok (fs_device k')"
    using inode_read_at_reads [OF ok z] by blast
  have bb: "bitmap_wf b" "length (bits b) = elem_cnt (bit_cnt b)" "length (bits ?m) = length (bits b)"
    using assms(3,4) d(2) unfolding map_shape_def by metis+
  obtain b'' where b'': "bitmap_read ?m (bitmap_write b @ []) = Inr (True, b'')" "bmap b'' = bmap b" "bitmap_wf b''"
      "length (bits b'') = length (bits b)" "bit_cnt b'' = bit_cnt b"
    using bitmap_read_write [of b ?m "[]"] bb assms(4) by metis
  let ?buf = "put_bytes (image (bits ?m)) 0 (take (bitmap_file_size ?m) (content k i))"
  let ?j = "elem_cnt (bit_cnt ?m) - 1"
  have c: "content k i = bitmap_write b @ []" using assms(2) by simp
  obtain e where e: "rd (words_of ?buf) ?j = Inr e" "b'' = ?m\<lparr>bits := (words_of ?buf)[?j := e AND last_mask ?m]\<rparr>"
    using b''(1) False unfolding c [symmetric] by (auto simp: bitmap_read_def bitmap_file_size_def Let_def)
  have r: "inode_read_at (file_inode f) (image (bits ?m)) ?n 0 k = Inr (?n, ?buf, k')"
    using k'(1) sp by simp
  have "map_read k = Inr (True, k'\<lparr>sector_map := b''\<rparr>)"
    using r e f(1,2) False by (simp add: map_read_def file_read_at_def follow_def Let_def)
  moreover have "remapped k (k'\<lparr>sector_map := b''\<rparr>)"
    using same_map_update [OF k'(2)] by (simp add: remapped_def)
  moreover have "map_shape b''" using b''(3-5) bb(2) by (simp add: map_shape_def)
  ultimately show ?thesis using b''(2) k'(3,4) by auto
qed

section \<open>Allocating and releasing sectors\<close>

lemma bmap_shape: "bmap b' = put_bytes (bmap b) i x \<Longrightarrow> i + length x \<le> bit_cnt b \<Longrightarrow> bit_cnt b' = bit_cnt b"
  by (metis length_bmap length_put_bytes)

lemma allocate_sectors_syncs:
  assumes "map_ready k i"
  shows "\<exists>r k'. allocate_sectors cnt k = Inr (r, k') \<and> map_ready k' i \<and> remapped k k' \<and> length (flat k') = length (flat k) \<and>
    (case r of
       None \<Rightarrow> k' = k \<and> (\<nexists>s. free_at (bmap (sector_map k)) cnt False s)
     | Some s \<Rightarrow> free_at (bmap (sector_map k)) cnt False (unat s) \<and>
         bmap (sector_map k') = put_bytes (bmap (sector_map k)) (unat s) (replicate cnt True) \<and> synced k' i \<and>
         (\<forall>j. inode_ok k j \<and> apart i j \<longrightarrow> content k' j = content k j))"
proof -
  let ?m = "sector_map k"
  have wf: "bitmap_wf ?m" "length (bits ?m) = elem_cnt (bit_cnt ?m)" using assms by (auto simp: map_ready_def map_shape_def)
  obtain s b where t: "bitmap_scan_and_flip ?m 0 cnt False = Inr (s, b)" "bitmap_wf b"
    "if \<exists>j. free_at (bmap ?m) cnt False j
     then s \<noteq> BITMAP_ERROR \<and> free_at (bmap ?m) cnt False s \<and> bmap b = put_bytes (bmap ?m) s (replicate cnt True)
     else s = BITMAP_ERROR \<and> b = ?m"
    using bitmap.take_ok [OF wf(1), of cnt] by auto
  have sh: "map_shape b" "bit_cnt b = bit_cnt ?m" using scan_and_flip_shape [OF t(1)] t(2) wf(2) by (auto simp: map_shape_def)
  show ?thesis
  proof (cases "\<exists>j. free_at (bmap ?m) cnt False j")
    case False
    then have "allocate_sectors cnt k = Inr (None, k)"
      using t by (auto simp: allocate_sectors_def)
    then show ?thesis using False assms by auto
  next
    case True
    then have s: "s \<noteq> BITMAP_ERROR" "free_at (bmap ?m) cnt False s" "bmap b = put_bytes (bmap ?m) s (replicate cnt True)"
      using t(3) by auto
    have "s \<le> bit_cnt ?m" using s(2) by (simp add: free_at_def)
    then have "unat (of_nat s :: word_t) = s"
      using wf(1) by (simp add: bitmap_wf_def unat_of_nat take_bit_nat_eq_self)
    moreover note ready = map_ready_update [OF assms sh]
    obtain k' where k': "map_write (k\<lparr>sector_map := b\<rparr>) = Inr (True, k')" "same (k\<lparr>sector_map := b\<rparr>) k'" "map_ready k' i" "synced k' i"
      "length (flat k') = length (flat k)" "\<forall>j. inode_ok k j \<and> apart i j \<longrightarrow> content k' j = content k j"
      using map_write_syncs [OF ready] by auto
    have "map_file k \<noteq> 0" using assms by (auto simp: map_ready_def)
    then have "allocate_sectors cnt k = Inr (Some (of_nat s), k')"
      using t(1) s(1) k'(1) by (simp add: allocate_sectors_def Let_def)
    moreover have "sector_map k' = b" using same_fields(5) [OF k'(2)] by simp
    moreover have "remapped k k'" using k'(2) calculation(3) by (simp add: remapped_def)
    ultimately show ?thesis using k'(3-6) s(2,3) by auto
  qed
qed

lemma release_sectors_syncs:
  assumes "map_ready k i" "free_at (bmap (sector_map k)) cnt True (unat s)"
  shows "\<exists>k'. release_sectors s cnt k = Inr k' \<and> map_ready k' i \<and> remapped k k' \<and> length (flat k') = length (flat k) \<and>
    bmap (sector_map k') = put_bytes (bmap (sector_map k)) (unat s) (replicate cnt False) \<and> synced k' i \<and>
    (\<forall>j. inode_ok k j \<and> apart i j \<longrightarrow> content k' j = content k j)"
proof -
  let ?m = "sector_map k"
  have wf: "bitmap_wf ?m" "length (bits ?m) = elem_cnt (bit_cnt ?m)" using assms(1) by (auto simp: map_ready_def map_shape_def)
  have len: "unat s + cnt \<le> length (bmap ?m)" using assms(2) by (simp add: free_at_def)
  obtain b where b: "bitmap_set_multiple ?m (unat s) cnt False = Inr b" "bitmap_wf b"
    "bmap b = put_bytes (bmap ?m) (unat s) (replicate cnt False)"
    using bitmap.give_ok [OF wf(1) len] by auto
  have all: "bitmap_all ?m (unat s) cnt = Inr True" using bitmap.taken_ok [OF wf(1) len] assms(2) by simp
  have sh: "map_shape b" "bit_cnt b = bit_cnt ?m" using set_multiple_shape [OF b(1)] b(2) wf(2) by (auto simp: map_shape_def)
  obtain k' where k': "map_write (k\<lparr>sector_map := b\<rparr>) = Inr (True, k')" "same (k\<lparr>sector_map := b\<rparr>) k'" "map_ready k' i" "synced k' i"
    "length (flat k') = length (flat k)" "\<forall>j. inode_ok k j \<and> apart i j \<longrightarrow> content k' j = content k j"
    using map_write_syncs [OF map_ready_update [OF assms(1) sh]] by auto
  have "release_sectors s cnt k = Inr k'" using all b(1) k'(1) by (simp add: release_sectors_def)
  moreover have sm: "sector_map k' = b" using same_fields(5) [OF k'(2)] by simp
  moreover have "remapped k k'" using k'(2) sm by (simp add: remapped_def)
  ultimately show ?thesis using k'(3-6) b(3) by auto
qed

end
