(* ===== verification/Pintos_Inode_Create.thy ===== *)
theory Pintos_Inode_Create
  imports Pintos_Map_File
begin

text \<open>
  Creating an inode: it takes a run of free sectors, writes the inode and zeroes its data, and touches
  no file whose sectors were in use. Opening the sector then gives an inode with that content.
\<close>

section \<open>Inodes on the device\<close>

lemma word_at_word_bytes:
  "length a = n \<Longrightarrow> word_at (a @ word_bytes w @ x) n = w"
  by (auto simp: word_at_def word_bytes_def nth_append)

lemma decode_encode: "decode_inode (encode_inode d) = d"
proof -
  have "word_at (encode_inode d) 0 = start_sector d"
    using word_at_word_bytes [of "[]" 0 "start_sector d"] by (simp add: encode_inode_def)
  moreover have "word_at (encode_inode d) 4 = disk_length d"
    using word_at_word_bytes [of "word_bytes (start_sector d)" 4 "disk_length d"] by (simp add: encode_inode_def)
  moreover have "word_at (encode_inode d) 8 = disk_magic d"
    using word_at_word_bytes [of "word_bytes (start_sector d) @ word_bytes (disk_length d)" 8 "disk_magic d"]
    by (simp add: encode_inode_def)
  ultimately show ?thesis by (simp add: decode_inode_def encode_inode_def)
qed

lemma length_encode: "length (disk_unused d) = 500 \<Longrightarrow> length (encode_inode d) = 512"
  by (simp add: encode_inode_def)

lemma fs_write_flat:
  assumes "dev_ok (fs_device k)" "unat s < length (sectors (fs_device k))" "length bytes = 512"
  shows "\<exists>k'. fs_write s bytes k = Inr k' \<and> same k k' \<and> dev_ok (fs_device k') \<and>
    flat k' = put_bytes (flat k) (512 * unat s) bytes \<and> length (sectors (fs_device k')) = length (sectors (fs_device k))"
proof -
  obtain k' where k': "fs_write s bytes k = Inr k'" "same k k'"
    "sectors (fs_device k') = (sectors (fs_device k))[unat s := bytes]" "dev_ok (fs_device k')"
    using fs_write_ok [OF assms] by blast
  have l: "length (sectors (fs_device k) ! unat s) = 512" by (rule dev_sector [OF assms(1,2)])
  have "concat ((sectors (fs_device k))[unat s := put_bytes (sectors (fs_device k) ! unat s) 0 bytes]) =
      put_bytes (concat (sectors (fs_device k))) (512 * unat s + 0) bytes"
    by (rule concat_sectors_update) (use assms in \<open>auto simp: dev_ok_def\<close>)
  then have "flat k' = put_bytes (flat k) (512 * unat s) bytes"
    using k'(3) l assms(3) by (simp add: flat_def put_bytes_whole)
  then show ?thesis using k' by simp
qed

lemma put_bytes_replicate:
  "i + a + b \<le> length m \<Longrightarrow>
   put_bytes (put_bytes m i (replicate a x)) (i + a) (replicate b x) = put_bytes m i (replicate (a + b) x)"
  using put_bytes_append [of i "replicate a x" "replicate b x" m] by (simp add: replicate_add)

lemma zero_sectors_flat:
  assumes "dev_ok (fs_device k)" "unat s + n \<le> length (sectors (fs_device k))"
  shows "\<exists>k'. zero_sectors n s k = Inr k' \<and> same k k' \<and> dev_ok (fs_device k') \<and>
    flat k' = put_bytes (flat k) (512 * unat s) (replicate (512 * n) 0) \<and>
    length (sectors (fs_device k')) = length (sectors (fs_device k))"
  using assms
proof (induction n arbitrary: s k)
  case (Suc n)
  let ?L = "length (sectors (fs_device k))"
  have dl: "?L < 2 ^ 32" using Suc.prems(1) unsigned_less [of "block_size (fs_device k)", where 'a = nat] by (simp add: dev_ok_def)
  obtain k1 where k1: "fs_write s (replicate 512 0) k = Inr k1" "same k k1" "dev_ok (fs_device k1)"
    "flat k1 = put_bytes (flat k) (512 * unat s) (replicate 512 0)" "length (sectors (fs_device k1)) = ?L"
    using fs_write_flat [OF Suc.prems(1), of s "replicate 512 0"] Suc.prems(2) by auto
  show ?case
  proof (cases n)
    case 0
    then show ?thesis using k1 by (auto simp: BLOCK_SECTOR_SIZE_def)
  next
    case (Suc n')
    have u: "unat (s + 1) = unat s + 1" using Suc Suc.prems(2) dl unat_add_small [of s 1] by simp
    obtain k' where k': "zero_sectors n (s + 1) k1 = Inr k'" "same k1 k'" "dev_ok (fs_device k')"
      "flat k' = put_bytes (flat k1) (512 * unat (s + 1)) (replicate (512 * n) 0)"
      "length (sectors (fs_device k')) = length (sectors (fs_device k1))"
      using Suc.IH [OF k1(3), of "s + 1"] Suc.prems(2) k1(5) u by auto
    have "length (flat k) = 512 * ?L" by (rule length_flat [OF Suc.prems(1)])
    then have "512 * unat s + 512 + 512 * n \<le> length (flat k)" using Suc.prems(2) by simp
    from put_bytes_replicate [OF this, of 0]
    have "flat k' = put_bytes (flat k) (512 * unat s) (replicate (512 * Suc n) 0)"
      unfolding k'(4) k1(4) u by (simp add: distrib_left add.commute)
    then show ?thesis
      using k1(1,5) k' same_trans [OF k1(2) k'(2)] by (auto simp: BLOCK_SECTOR_SIZE_def)
  qed
qed simp

section \<open>Sectors in use\<close>

text \<open>\<open>occupies k i\<close>: the sectors of the data of \<open>i\<close> are marked in the free map.\<close>

definition occupies :: "fs \<Rightarrow> inode \<Rightarrow> bool" where
  "occupies k i \<longleftrightarrow> (\<forall>s. data_at i < 512 * (s + 1) \<and> 512 * s < data_at i + nat (inode_length i) \<longrightarrow>
    s < length (bmap (sector_map k)) \<and> bmap (sector_map k) ! s)"

lemma occupies_apart:
  assumes "occupies k i" "free_at (bmap (sector_map k)) n False s"
  shows "512 * s + 512 * n \<le> data_at i \<or> data_at i + nat (inode_length i) \<le> 512 * s \<or> n = 0 \<or> inode_length i \<le> 0"
proof (rule ccontr)
  assume a: "\<not> ?thesis"
  let ?d = "unat (start_sector (inode_data i))" and ?e = "data_at i + nat (inode_length i)"
  let ?t = "max s ?d"
  have n: "?d < s + n" "512 * s < ?e" "0 < nat (inode_length i)" using a by (auto simp: data_at_def)
  have t: "s \<le> ?t" "?t < s + n" using n(1) a by auto
  have "data_at i < 512 * (?t + 1)" "512 * ?t < ?e" using n by (auto simp: max_def data_at_def)
  then have "bmap (sector_map k) ! ?t" using assms(1) by (simp add: occupies_def)
  moreover have "?t - s < n" "s + (?t - s) = ?t" using t by linarith+
  then have "bmap (sector_map k) ! ?t = False" using assms(2) unfolding free_at_def by metis
  ultimately show False by simp
qed

section \<open>\<open>inode_create\<close>\<close>

text \<open>The sector \<open>s\<close> has no part of the data of \<open>i\<close>.\<close>

definition off_data :: "nat \<Rightarrow> inode \<Rightarrow> bool" where
  "off_data s i \<longleftrightarrow> 512 * s + 512 \<le> data_at i \<or> data_at i + nat (inode_length i) \<le> 512 * s"

lemma content_put_bytes_off:
  assumes "inode_ok k i" "flat k' = put_bytes (flat k) p bs" "p + length bs \<le> length (flat k)"
    and "p + length bs \<le> data_at i \<or> data_at i + nat (inode_length i) \<le> p \<or> bs = [] \<or> inode_length i \<le> 0"
  shows "content k' i = content k i"
proof (cases "bs = [] \<or> inode_length i \<le> 0")
  case True
  then show ?thesis using assms(2) by (auto simp: content_def)
next
  case False
  then show ?thesis
    unfolding content_def assms(2)
    by (intro part_put_bytes_apart) (use assms in \<open>auto simp: inode_ok_def data_at_def\<close>)
qed

definition new_inode :: "word_t \<Rightarrow> int \<Rightarrow> inode_disk" where
  "new_inode start len = \<lparr>start_sector = start, disk_length = of_int len, disk_magic = INODE_MAGIC, disk_unused = replicate 500 0\<rparr>"

lemma new_inode_at:
  assumes "inode_data j = new_inode start len" "0 \<le> len" "len + 512 < 2 ^ 31"
  shows "inode_length j = len" "data_at j = 512 * unat start"
  using assms by (simp_all add: inode_length_def new_inode_def data_at_def signed_of_int signed_take_bit_int_eq_self)

lemma new_inode_content:
  assumes "take (512 * n) (drop (512 * unat start) (flat k)) = replicate (512 * n) 0" "512 * unat start + 512 * n \<le> length (flat k)"
    and "nat len \<le> 512 * n" "0 \<le> len" "len + 512 < 2 ^ 31" "inode_data j = new_inode start len"
  shows "inode_ok k j \<and> content k j = replicate (nat len) 0"
proof -
  note l = new_inode_at [OF assms(6,4,5)]
  have "take (nat len) (drop (512 * unat start) (flat k)) = take (nat len) (replicate (512 * n) 0)"
    unfolding assms(1) [symmetric] using assms(3) by (simp add: min_absorb1)
  then have "content k j = replicate (nat len) 0" using assms(3) by (simp add: content_def l min_absorb1)
  moreover have "512 * unat (start_sector (inode_data j)) = 512 * unat start" using l(2) by (simp add: data_at_def)
  then have "inode_ok k j" using assms(2-4) l(1) by (simp add: inode_ok_def)
  ultimately show ?thesis by simp
qed

lemma bytes_to_sectors_ok:
  "0 \<le> len \<Longrightarrow> len + 512 < 2 ^ 31 \<Longrightarrow> bytes_to_sectors len = Inr (nat ((len + 511) div 512))"
proof -
  assume a: "0 \<le> len" "len + 512 < 2 ^ 31"
  then have "0 \<le> (len + 511) div 512" "(len + 511) div 512 < 2 ^ 32" by auto
  then have "unat (of_int ((len + 511) div 512) :: word_t) = nat ((len + 511) div 512)"
    by (simp add: unsigned_of_int take_bit_int_eq_self)
  then show ?thesis
    using a by (simp add: bytes_to_sectors_def int32_def BLOCK_SECTOR_SIZE_def sdiv_smod_nonneg add.commute)
qed

text \<open>The writes of \<open>inode_create\<close>: the inode in its sector, and its data.\<close>

lemma create_writes:
  assumes "dev_ok (fs_device k)" "unat sector < length (sectors (fs_device k))"
    and "unat start + n \<le> length (sectors (fs_device k))" "\<not> (unat start \<le> unat sector \<and> unat sector < unat start + n)"
    and "length bytes = 512"
  shows "\<exists>k'. bindE (fs_write sector bytes k) (zero_sectors n start) = Inr k' \<and> same k k' \<and> dev_ok (fs_device k') \<and>
    length (flat k') = length (flat k) \<and> sectors (fs_device k') ! unat sector = bytes \<and>
    take (512 * n) (drop (512 * unat start) (flat k')) = replicate (512 * n) 0 \<and>
    (\<forall>j. inode_ok k j \<and> off_data (unat sector) j \<and> (512 * unat start + 512 * n \<le> data_at j \<or>
        data_at j + nat (inode_length j) \<le> 512 * unat start \<or> n = 0 \<or> inode_length j \<le> 0) \<longrightarrow> content k' j = content k j)"
proof -
  obtain k1 where k1: "fs_write sector bytes k = Inr k1" "same k k1" "dev_ok (fs_device k1)"
    "flat k1 = put_bytes (flat k) (512 * unat sector) bytes" "length (sectors (fs_device k1)) = length (sectors (fs_device k))"
    using fs_write_flat [OF assms(1,2,5)] by blast
  obtain k' where k': "zero_sectors n start k1 = Inr k'" "same k1 k'" "dev_ok (fs_device k')"
    "flat k' = put_bytes (flat k1) (512 * unat start) (replicate (512 * n) 0)"
    "length (sectors (fs_device k')) = length (sectors (fs_device k1))"
    using zero_sectors_flat [OF k1(3), of start n] assms(3) k1(5) by auto
  have L: "length (flat k) = 512 * length (sectors (fs_device k))" by (rule length_flat [OF assms(1)])
  have b: "512 * unat sector + length bytes \<le> length (flat k)" using assms(2,5) L by simp
  have l1: "length (flat k1) = length (flat k)" unfolding k1(4) by (rule length_put_bytes [OF b])
  have b': "512 * unat start + length (replicate (512 * n) (0 :: byte_t)) \<le> length (flat k1)"
    unfolding l1 L using assms(3) by simp
  have l': "length (flat k') = length (flat k)" unfolding k'(4) l1 [symmetric] by (rule length_put_bytes [OF b'])
  have ap: "512 * unat sector + 512 \<le> 512 * unat start \<or>
      512 * unat start + length (replicate (512 * n) (0 :: byte_t)) \<le> 512 * unat sector"
    using assms(4) by auto
  have s5: "\<forall>s \<in> set (sectors (fs_device k')). length s = 512" using k'(3) by (simp add: dev_ok_def)
  have sl: "unat sector < length (sectors (fs_device k'))" using assms(2) k1(5) k'(5) by simp
  from concat_piece [OF s5 sl, of 0 512]
  have "sectors (fs_device k') ! unat sector = take 512 (drop (512 * unat sector) (flat k'))"
    using dev_sector(2) [OF k'(3) sl] by (simp add: flat_def)
  also have "\<dots> = take 512 (drop (512 * unat sector) (flat k1))"
    unfolding k'(4) by (rule part_put_bytes_apart [OF b']) (use ap assms(5) b l1 in auto)
  also have "\<dots> = bytes" unfolding k1(4) using take_drop_put_bytes [OF b] assms(5) by simp
  finally have sec: "sectors (fs_device k') ! unat sector = bytes" .
  have z: "take (512 * n) (drop (512 * unat start) (flat k')) = replicate (512 * n) 0"
    unfolding k'(4) using take_drop_put_bytes [OF b'] by simp
  have "content k' j = content k j" if j: "inode_ok k j" "off_data (unat sector) j"
    "512 * unat start + 512 * n \<le> data_at j \<or> data_at j + nat (inode_length j) \<le> 512 * unat start \<or> n = 0 \<or> inode_length j \<le> 0" for j
  proof -
    have "content k1 j = content k j"
      by (rule content_put_bytes_off [OF j(1) k1(4) b]) (use j(2) assms(5) in \<open>auto simp: off_data_def\<close>)
    moreover have "content k' j = content k1 j"
      by (rule content_put_bytes_off [OF _ k'(4) b']) (use j same_inode_ok [OF l1] in auto)
    ultimately show ?thesis by simp
  qed
  moreover have "bindE (fs_write sector bytes k) (zero_sectors n start) = Inr k'" using k1(1) k'(1) by simp
  ultimately show ?thesis using same_trans [OF k1(2) k'(2)] k'(3) l' sec z by blast
qed

lemma inode_create_creates:
  assumes "map_ready k i" "0 \<le> len" "len + 512 < 2 ^ 31"
    and "bit_cnt (sector_map k) = length (sectors (fs_device k))" "occupies k i" "off_data (unat sector) i"
    and "unat sector < bit_cnt (sector_map k)" "bmap (sector_map k) ! unat sector"
  shows "\<exists>ok k'. inode_create sector len k = Inr (ok, k') \<and> map_ready k' i \<and> remapped k k' \<and> length (flat k') = length (flat k) \<and>
    (synced k i \<longrightarrow> synced k' i) \<and>
    (ok \<longleftrightarrow> (\<exists>s. free_at (bmap (sector_map k)) (nat ((len + 511) div 512)) False s)) \<and>
    (\<not> ok \<longrightarrow> bmap (sector_map k') = bmap (sector_map k) \<and> flat k' = flat k) \<and>
    (ok \<longrightarrow> (\<exists>start. free_at (bmap (sector_map k)) (nat ((len + 511) div 512)) False (unat start) \<and>
      bmap (sector_map k') = put_bytes (bmap (sector_map k)) (unat start) (replicate (nat ((len + 511) div 512)) True) \<and>
      synced k' i \<and> decode_inode (sectors (fs_device k') ! unat sector) = new_inode start len \<and>
      (\<forall>j. inode_data j = new_inode start len \<longrightarrow> inode_ok k' j \<and> content k' j = replicate (nat len) 0) \<and>
      (\<forall>j. inode_ok k j \<and> occupies k j \<and> apart i j \<and> off_data (unat sector) j \<longrightarrow> content k' j = content k j)))"
proof -
  let ?n = "nat ((len + 511) div 512)" and ?m = "bmap (sector_map k)"
  obtain mp k0 where m: "malloc k = (mp, k0)" by fastforce
  have nf: "no_fail k" "dev_ok (fs_device k)" using assms(1) by (auto simp: map_ready_def live_inode_def)
  then have mp: "mp \<noteq> 0" "same k k0" "fs_device k0 = fs_device k"
    using m no_fail_bounce [of k 0] by (auto simp: get_bounce_def no_fail_def malloc_def)
  have fl0: "flat k0 = flat k" using mp(3) by (simp add: flat_def)
  have c0: "content k0 j = content k j" for j by (rule flat_content [OF fl0])
  have sm0: "sector_map k0 = sector_map k" by (rule same_fields(5) [OF mp(2)])
  have r0: "map_ready k0 i" by (rule map_ready_same [OF assms(1) mp(2)]) (use fl0 mp(3) nf(2) in auto)
  obtain r k1 where k1: "allocate_sectors ?n k0 = Inr (r, k1)" "map_ready k1 i" "length (flat k1) = length (flat k0)" "remapped k0 k1"
    and alloc: "case r of None \<Rightarrow> k1 = k0 \<and> (\<nexists>s. free_at ?m ?n False s)
     | Some s \<Rightarrow> free_at ?m ?n False (unat s) \<and> bmap (sector_map k1) = put_bytes ?m (unat s) (replicate ?n True) \<and>
         synced k1 i \<and> (\<forall>j. inode_ok k0 j \<and> apart i j \<longrightarrow> content k1 j = content k0 j)"
    using allocate_sectors_syncs [OF r0, of ?n] unfolding sm0 by blast
  note start = bytes_to_sectors_ok [OF assms(2,3)]
  show ?thesis
  proof (cases r)
    case None
    then have "inode_create sector len k = Inr (False, k0)"
      using assms(2) m mp(1) start k1(1) alloc by (simp add: inode_create_def)
    then show ?thesis using alloc None r0 fl0 sm0 c0 same_remapped [OF mp(2)] by (auto simp: synced_def)
  next
    case (Some s)
    let ?d = "new_inode s len"
    have a: "free_at ?m ?n False (unat s)" "bmap (sector_map k1) = put_bytes ?m (unat s) (replicate ?n True)" "synced k1 i"
      "\<forall>j. inode_ok k j \<and> apart i j \<longrightarrow> content k1 j = content k j"
      using alloc Some c0 same_inode_ok [of k0 k] fl0 by auto
    have dev1: "dev_ok (fs_device k1)" using k1(2) by (auto simp: map_ready_def live_inode_def)
    have L: "length (sectors (fs_device k1)) = length (sectors (fs_device k))"
      using length_flat [OF dev1] length_flat [OF nf(2)] k1(3) fl0 by simp
    have b: "unat s + ?n \<le> length (sectors (fs_device k1))" "\<not> (unat s \<le> unat sector \<and> unat sector < unat s + ?n)"
      using a(1) assms(4,8) L by (auto simp: free_at_def dest: spec [of _ "unat sector - unat s"])
    have l512: "length (encode_inode ?d) = 512" by (rule length_encode) (simp add: new_inode_def)
    have bs: "unat sector < length (sectors (fs_device k1))" using assms(4,7) L by simp
    from create_writes [OF dev1 bs b l512]
    obtain k' where k': "bindE (fs_write sector (encode_inode ?d) k1) (zero_sectors ?n s) = Inr k'" "same k1 k'"
      "dev_ok (fs_device k')" "length (flat k') = length (flat k1)" "sectors (fs_device k') ! unat sector = encode_inode ?d"
      "take (512 * ?n) (drop (512 * unat s) (flat k')) = replicate (512 * ?n) 0"
      and keep: "\<forall>j. inode_ok k1 j \<and> off_data (unat sector) j \<and> (512 * unat s + 512 * ?n \<le> data_at j \<or>
        data_at j + nat (inode_length j) \<le> 512 * unat s \<or> ?n = 0 \<or> inode_length j \<le> 0) \<longrightarrow> content k' j = content k1 j"
      by blast
    have run: "inode_create sector len k = Inr (True, k')"
      using assms(2) m mp(1) start k1(1) Some k'(1) by (simp add: inode_create_def new_inode_def bindE_assoc [symmetric])
    have oc: "occupies k0 j = occupies k j" "inode_ok k1 j = inode_ok k j" for j
      using sm0 same_inode_ok [of k1 k] k1(3) fl0 by (simp_all add: occupies_def)
    have ap: "512 * unat s + 512 * ?n \<le> data_at j \<or> data_at j + nat (inode_length j) \<le> 512 * unat s \<or> ?n = 0 \<or> inode_length j \<le> 0"
      if "occupies k j" for j by (rule occupies_apart [OF that a(1)])
    have iok: "inode_ok k i" using assms(1) by (auto simp: map_ready_def live_inode_def)
    have "content k' i = content k1 i" using keep iok oc(2) assms(6) ap [OF assms(5)] by blast
    then have sy: "synced k' i" using a(3) same_fields(5) [OF k'(2)] by (simp add: synced_def)
    have others: "content k' j = content k j" if "inode_ok k j" "occupies k j" "apart i j" "off_data (unat sector) j" for j
      using keep that oc(2) ap [OF that(2)] a(4) by metis
    have ln: "nat len \<le> 512 * ?n" using assms(2) by linarith
    have "length (flat k') = 512 * length (sectors (fs_device k1))"
      using k'(4) length_flat [OF dev1] by simp
    then have fit: "512 * unat s + 512 * ?n \<le> length (flat k')" using b(1) by simp
    have new: "inode_ok k' j \<and> content k' j = replicate (nat len) 0" if j: "inode_data j = ?d" for j
      by (rule new_inode_content [OF k'(6) fit ln assms(2,3) j])
    have ready: "map_ready k' i" by (rule map_ready_same [OF k1(2) k'(2,4,3)])
    have dec: "decode_inode (sectors (fs_device k') ! unat sector) = ?d" by (simp add: k'(5) decode_encode)
    have bm: "bmap (sector_map k') = put_bytes ?m (unat s) (replicate ?n True)"
      using a(2) same_fields(5) [OF k'(2)] by simp
    have fl: "length (flat k') = length (flat k)" using k'(4) k1(3) fl0 by simp
    have rm: "remapped k k'"
      using remapped_trans [OF same_remapped [OF mp(2)] remapped_trans [OF k1(4) same_remapped [OF k'(2)]]] .
    show ?thesis using run ready rm fl a(1) bm sy dec new others by blast
  qed
qed

end
