(* ===== verification/Pintos_Filesys_Refinement.thy ===== *)
theory Pintos_Filesys_Refinement
  imports Pintos_Inode_Create
begin

text \<open>
  Files by name: a well-formed file system, whose free map covers the sectors in use and whose root is a
  directory, and what creating, opening and removing a file do to the root's table, to the free map
  and to the contents of files.
\<close>

section \<open>Well-formed file systems\<close>

definition disk_inode :: "fs \<Rightarrow> word_t \<Rightarrow> inode" where
  "disk_inode k s = \<lparr>inode_sector = s, open_cnt = 1, removed = False, deny_write_cnt = 0,
     inode_data = decode_inode (sectors (fs_device k) ! unat s)\<rparr>"

abbreviation root_inode :: "fs \<Rightarrow> inode" where "root_inode k \<equiv> disk_inode k 1"

text \<open>The sector \<open>s\<close> itself, seen as a file of its 512 bytes.\<close>

definition sector_file :: "word_t \<Rightarrow> inode" where
  "sector_file s = \<lparr>inode_sector = 0, open_cnt = 1, removed = False, deny_write_cnt = 0,
     inode_data = \<lparr>start_sector = s, disk_length = 512, disk_magic = 0, disk_unused = []\<rparr>\<rparr>"

lemma sector_file_fields [simp]:
  "inode_length (sector_file s) = 512" "data_at (sector_file s) = 512 * unat s" "inode_data (sector_file s) =
     \<lparr>start_sector = s, disk_length = 512, disk_magic = 0, disk_unused = []\<rparr>"
  by (simp_all add: sector_file_def inode_length_def data_at_def)

lemma content_sector_file:
  assumes "dev_ok (fs_device k)" "unat s < length (sectors (fs_device k))"
  shows "content k (sector_file s) = sectors (fs_device k) ! unat s"
proof -
  have "\<forall>x \<in> set (sectors (fs_device k)). length x = 512" using assms(1) by (simp add: dev_ok_def)
  from concat_piece [OF this assms(2), of 0 512] dev_sector(2) [OF assms] show ?thesis
    by (simp add: content_def flat_def)
qed

text \<open>\<open>stored k im i\<close>: the data of \<open>i\<close> lie in sectors that are marked, apart from the free map's file.\<close>

definition stored :: "fs \<Rightarrow> inode \<Rightarrow> inode \<Rightarrow> bool" where
  "stored k im i \<longleftrightarrow> inode_ok k i \<and> occupies k i \<and> apart im i"

definition closed :: "word_t \<Rightarrow> fs \<Rightarrow> bool" where
  "closed s k \<longleftrightarrow> (\<forall>p \<in> set (open_inodes k). \<exists>i. p \<noteq> 0 \<and> inode_heap k p = Some i \<and> inode_sector i \<noteq> s)"

text \<open>\<open>malloc\<close> gives memory that is not in use, and never the same address twice.\<close>

definition fresh :: "fs \<Rightarrow> bool" where
  "fresh k \<longleftrightarrow> inj (mallocs k) \<and> (\<forall>n. mallocs k n \<noteq> 0 \<and> inode_heap k (mallocs k n) = None \<and>
     file_heap k (mallocs k n) = None \<and> dir_heap k (mallocs k n) = None)"

definition fs_wf :: "fs \<Rightarrow> inode \<Rightarrow> bool" where
  "fs_wf k im \<longleftrightarrow> map_ready k im \<and> bit_cnt (sector_map k) = length (sectors (fs_device k)) \<and>
     1 < length (sectors (fs_device k)) \<and> bmap (sector_map k) ! 0 \<and> occupies k im \<and>
     stored k im (root_inode k) \<and> stored k im (sector_file 1) \<and> apart (root_inode k) (sector_file 1) \<and>
     dir_ok (content k (root_inode k)) \<and> closed 1 k \<and> fresh k \<and>
     synced k im \<and> inode_data (disk_inode k 0) = inode_data im \<and> stored k im (sector_file 0) \<and>
     apart (root_inode k) (sector_file 0)"

lemma fs_wfD:
  assumes "fs_wf k im"
  shows "map_ready k im" "bit_cnt (sector_map k) = length (sectors (fs_device k))" "1 < length (sectors (fs_device k))"
    "bmap (sector_map k) ! 0" "occupies k im" "stored k im (root_inode k)" "stored k im (sector_file 1)"
    "apart (root_inode k) (sector_file 1)" "dir_ok (content k (root_inode k))" "closed 1 k" "fresh k"
    "dev_ok (fs_device k)" "no_fail k" "synced k im" "inode_data (disk_inode k 0) = inode_data im" "stored k im (sector_file 0)"
    "apart (root_inode k) (sector_file 0)"
  using assms by (auto simp: fs_wf_def map_ready_def live_inode_def)

section \<open>Opening and closing\<close>

lemma open_loop_closed: "closed s k \<Longrightarrow> set ps \<subseteq> set (open_inodes k) \<Longrightarrow> open_loop ps s k = Inr 0"
proof (induction ps)
  case (Cons p ps)
  then obtain i where "p \<noteq> 0" "inode_heap k p = Some i" "inode_sector i \<noteq> s" by (auto simp: closed_def)
  then show ?case using Cons by (simp add: follow_def)
qed simp

definition bump :: "nat \<Rightarrow> fs \<Rightarrow> fs" where
  "bump n k = k\<lparr>mallocs := \<lambda>j. mallocs k (j + n)\<rparr>"

definition counted :: "fs \<Rightarrow> fs" where
  "counted k = k\<lparr>fs_device := (fs_device k)\<lparr>read_cnt := read_cnt (fs_device k) + 1\<rparr>\<rparr>"

lemma malloc_bump: "malloc k = (mallocs k 0, bump 1 k)"
  by (simp add: malloc_def bump_def)

lemma inode_open_closed:
  assumes "closed s k" "dev_ok (fs_device k)" "unat s < length (sectors (fs_device k))" "no_fail k"
  shows "inode_open s k = Inr (mallocs k 0, put_inode (mallocs k 0) (disk_inode k s)
     (counted (bump 1 k)\<lparr>open_inodes := mallocs k 0 # open_inodes k\<rparr>))"
proof -
  have "mallocs k 0 \<noteq> 0" using assms(4) by (simp add: no_fail_def)
  moreover have "fs_read s (bump 1 k) = Inr (sectors (fs_device k) ! unat s, counted (bump 1 k))"
    using dev_sector(1) [OF assms(2,3)] assms(3) by (simp add: fs_read_def block_read_def bump_def counted_def)
  ultimately show ?thesis
    using open_loop_closed [OF assms(1)]
    by (simp add: inode_open_def malloc_bump disk_inode_def) (simp add: bump_def counted_def)
qed

lemma remappedI:
  assumes "open_inodes k' = open_inodes k" "inode_heap k' = inode_heap k" "file_heap k' = file_heap k"
    "dir_heap k' = dir_heap k" "map_file k' = map_file k" "block_size (fs_device k') = block_size (fs_device k)"
    "block_type (fs_device k') = block_type (fs_device k)" "mallocs k' = (\<lambda>n. mallocs k (n + j))"
  shows "remapped k k'"
proof -
  have "k'\<lparr>fs_device := fs_device k, mallocs := mallocs k\<rparr> = k\<lparr>sector_map := sector_map k'\<rparr>"
    using assms by (cases k; cases k') simp
  then show ?thesis using assms(6-8) unfolding remapped_def same_def by auto
qed

lemma remapped_type: "remapped k k' \<Longrightarrow> block_type (fs_device k') = block_type (fs_device k)"
  by (simp add: remapped_def same_def)


text \<open>\<open>opened k p q k'\<close>: in \<open>k'\<close> the root is open too, its inode at \<open>p\<close> and its directory at \<open>q\<close>.\<close>

definition opened :: "fs \<Rightarrow> addr \<Rightarrow> addr \<Rightarrow> fs \<Rightarrow> bool" where
  "opened k p q k' \<longleftrightarrow> p = mallocs k 0 \<and> p \<noteq> 0 \<and> q \<noteq> 0 \<and> inode_heap k p = None \<and> dir_heap k q = None \<and>
     open_inodes k' = p # open_inodes k \<and> inode_heap k' = (inode_heap k)(p \<mapsto> root_inode k) \<and>
     dir_heap k' = (dir_heap k)(q \<mapsto> \<lparr>dir_inode = p, dir_pos = 0\<rparr>) \<and> file_heap k' = file_heap k \<and>
     map_file k' = map_file k \<and> block_type (fs_device k') = block_type (fs_device k) \<and>
     block_size (fs_device k') = block_size (fs_device k) \<and> (\<exists>j > 0. mallocs k' = (\<lambda>n. mallocs k (n + j)))"

lemma dir_open_root_opens:
  assumes "fs_wf k im"
  shows "\<exists>p q k'. dir_open_root k = Inr (q, k') \<and> opened k p q k' \<and> sectors (fs_device k') = sectors (fs_device k) \<and>
    sector_map k' = sector_map k"
proof -
  note w = fs_wfD [OF assms]
  have f: "mallocs k n \<noteq> 0" "inode_heap k (mallocs k n) = None" "dir_heap k (mallocs k n) = None" for n
    using w(11) by (simp_all add: fresh_def)
  have io: "inode_open 1 k = Inr (mallocs k 0, put_inode (mallocs k 0) (root_inode k)
      (counted (bump 1 k)\<lparr>open_inodes := mallocs k 0 # open_inodes k\<rparr>))"
    by (rule inode_open_closed) (use w in auto)
  let ?k = "put_inode (mallocs k 0) (root_inode k) (counted (bump 1 k)\<lparr>open_inodes := mallocs k 0 # open_inodes k\<rparr>)"
  have m: "malloc ?k = (mallocs k 1, bump 1 ?k)"
    unfolding malloc_bump by (simp add: put_inode_def bump_def counted_def)
  have "dir_open_root k = Inr (mallocs k 1, put_dir (mallocs k 1) \<lparr>dir_inode = mallocs k 0, dir_pos = 0\<rparr> (bump 1 ?k))"
    unfolding dir_open_root_def ROOT_DIR_SECTOR_def using io m f(1) by (simp add: dir_open_def)
  moreover have "opened k (mallocs k 0) (mallocs k 1) (put_dir (mallocs k 1) \<lparr>dir_inode = mallocs k 0, dir_pos = 0\<rparr> (bump 1 ?k))"
    using f by (simp add: opened_def put_dir_def bump_def put_inode_def counted_def) (auto intro: exI [of _ 2])
  ultimately show ?thesis by (auto simp: put_dir_def bump_def put_inode_def counted_def)
qed

lemma opened_remapped:
  assumes "opened k p q k1" "remapped k1 k2"
  shows "opened k p q k2"
proof -
  obtain i j where "i > 0" "mallocs k1 = (\<lambda>n. mallocs k (n + i))" "mallocs k2 = (\<lambda>n. mallocs k1 (n + j))"
    using assms(1) remapped_fields(7) [OF assms(2)] by (auto simp: opened_def)
  then have "j + i > 0 \<and> mallocs k2 = (\<lambda>n. mallocs k (n + (j + i)))" by (simp add: add.assoc)
  then have "\<exists>j > 0. mallocs k2 = (\<lambda>n. mallocs k (n + j))" by blast
  then show ?thesis
    using assms(1) remapped_fields(1-6) [OF assms(2)] remapped_type [OF assms(2)] unfolding opened_def by metis
qed

lemma inode_close_last:
  assumes "p \<noteq> 0" "inode_heap k p = Some i" "open_cnt i = 1" "\<not> removed i"
  shows "inode_close p k = Inr (k\<lparr>open_inodes := remove1 p (open_inodes k), inode_heap := (inode_heap k)(p := None)\<rparr>)"
  using assms by (simp add: inode_close_def follow_def int32_def put_inode_def)

lemma dir_close_last:
  assumes "q \<noteq> 0" "dir_heap k q = Some d" "dir_inode d \<noteq> 0" "inode_heap k (dir_inode d) = Some i" "open_cnt i = 1" "\<not> removed i"
  shows "dir_close q k = Inr (k\<lparr>open_inodes := remove1 (dir_inode d) (open_inodes k),
    inode_heap := (inode_heap k)(dir_inode d := None), dir_heap := (dir_heap k)(q := None)\<rparr>)"
  using assms(1,2) inode_close_last [OF assms(3-6)] by (simp add: dir_close_def follow_def)

lemma dir_close_root:
  assumes "opened k p q k1"
  shows "\<exists>k2. dir_close q k1 = Inr k2 \<and> remapped k k2 \<and> fs_device k2 = fs_device k1 \<and> sector_map k2 = sector_map k1"
proof -
  let ?k2 = "k1\<lparr>open_inodes := remove1 p (open_inodes k1), inode_heap := (inode_heap k1)(p := None),
    dir_heap := (dir_heap k1)(q := None)\<rparr>"
  have "dir_close q k1 = Inr ?k2"
    using assms dir_close_last [of q k1 "\<lparr>dir_inode = p, dir_pos = 0\<rparr>" "root_inode k"] by (simp add: opened_def disk_inode_def)
  moreover obtain j where "mallocs k1 = (\<lambda>n. mallocs k (n + j))" using assms by (auto simp: opened_def)
  then have "remapped k ?k2"
    by (intro remappedI [where j = j]) (use assms in \<open>auto simp: opened_def fun_upd_idem\<close>)
  ultimately show ?thesis by auto
qed

text \<open>The map stays ready when inodes are opened and closed.\<close>

lemma map_ready_more:
  assumes "map_ready k im" "map_file k' = map_file k" "file_heap k \<subseteq>\<^sub>m file_heap k'" "inode_heap k \<subseteq>\<^sub>m inode_heap k'"
    and "no_fail k'" "dev_ok (fs_device k')" "length (flat k') = length (flat k)"
    and "map_shape (sector_map k')" "bit_cnt (sector_map k') = bit_cnt (sector_map k)"
  shows "map_ready k' im"
proof -
  have "inode_heap k' p = Some i" if "inode_heap k p = Some i" for p i
    using assms(4) that by (metis domI map_le_def)
  moreover have "file_heap k' p = Some f" if "file_heap k p = Some f" for p f
    using assms(3) that by (metis domI map_le_def)
  ultimately show ?thesis
    using assms same_inode_ok [OF assms(7)] by (auto simp: map_ready_def live_inode_def bitmap_file_size_def)
qed

section \<open>Sectors in use\<close>

lemma occupies_off: "occupies k i \<Longrightarrow> \<not> bmap (sector_map k) ! s \<Longrightarrow> off_data s i"
  unfolding occupies_def off_data_def by (metis distrib_left mult.right_neutral not_less)

lemma occupies_mono:
  assumes "occupies k i" "length (bmap (sector_map k')) = length (bmap (sector_map k))"
    "\<And>s. s < length (bmap (sector_map k)) \<Longrightarrow> bmap (sector_map k) ! s \<Longrightarrow> bmap (sector_map k') ! s"
  shows "occupies k' i"
  using assms by (auto simp: occupies_def)

lemma off_data_apart: "off_data (unat s) i \<Longrightarrow> apart i (sector_file s)"
  by (auto simp: off_data_def apart_def)

lemma put_True_mono:
  "s < length m \<Longrightarrow> m ! s \<Longrightarrow> i + n \<le> length m \<Longrightarrow> put_bytes m i (replicate n True) ! s"
  by (auto simp: nth_put_bytes)


section \<open>Creating a file\<close>

text \<open>Taking a sector for the inode and creating the inode in it.\<close>

lemma alloc_sector:
  assumes "map_ready k im" "bit_cnt (sector_map k) = length (sectors (fs_device k))"
  shows "allocate_sectors 1 k = Inr (None, k) \<and> False \<notin> set (bmap (sector_map k)) \<or>
    (\<exists>sec k'. allocate_sectors 1 k = Inr (Some sec, k') \<and> unat sec < bit_cnt (sector_map k) \<and> \<not> bmap (sector_map k) ! unat sec \<and>
      bmap (sector_map k') = (bmap (sector_map k))[unat sec := True] \<and> map_ready k' im \<and> remapped k k' \<and> synced k' im \<and>
      length (flat k') = length (flat k) \<and> (\<forall>j. inode_ok k j \<and> apart im j \<longrightarrow> content k' j = content k j))"
proof -
  obtain r k' where a: "allocate_sectors 1 k = Inr (r, k')" "map_ready k' im" "remapped k k'" "length (flat k') = length (flat k)"
    and c: "case r of None \<Rightarrow> k' = k \<and> (\<nexists>s. free_at (bmap (sector_map k)) 1 False s)
     | Some s \<Rightarrow> free_at (bmap (sector_map k)) 1 False (unat s) \<and>
         bmap (sector_map k') = put_bytes (bmap (sector_map k)) (unat s) (replicate 1 True) \<and> synced k' im \<and>
         (\<forall>j. inode_ok k j \<and> apart im j \<longrightarrow> content k' j = content k j)"
    using allocate_sectors_syncs [OF assms(1), of 1] by blast
  show ?thesis
  proof (cases r)
    case None
    have "bmap (sector_map k) ! s" if "s < length (bmap (sector_map k))" for s
      using c None that by (auto simp: free_at_def dest!: spec [of _ s])
    then show ?thesis using a c None by (auto simp: in_set_conv_nth)
  next
    case (Some sec)
    then have "unat sec < bit_cnt (sector_map k)" "\<not> bmap (sector_map k) ! unat sec" using c by (auto simp: free_at_def)
    moreover have "put_bytes (bmap (sector_map k)) (unat sec) [True] = (bmap (sector_map k))[unat sec := True]"
      using calculation(1) by (intro nth_equalityI) (auto simp: nth_put_bytes nth_list_update)
    ultimately show ?thesis using a c Some by auto
  qed
qed


text \<open>\<open>new_run k sec n start\<close>: with \<open>sec\<close> taken, a run of \<open>n\<close> sectors is free at \<open>start\<close>.\<close>

definition new_run :: "fs \<Rightarrow> word_t \<Rightarrow> nat \<Rightarrow> word_t \<Rightarrow> bool" where
  "new_run k sec n start \<longleftrightarrow> free_at ((bmap (sector_map k))[unat sec := True]) n False (unat start)"

definition sectors_of :: "int \<Rightarrow> nat" where "sectors_of len = nat ((len + 511) div 512)"

text \<open>\<open>grown k k' im\<close>: the map may have grown, and no file that was stored has changed.\<close>

definition grown :: "fs \<Rightarrow> fs \<Rightarrow> inode \<Rightarrow> bool" where
  "grown k k' im \<longleftrightarrow> map_ready k' im \<and> synced k' im \<and> remapped k k' \<and> length (flat k') = length (flat k) \<and>
     bit_cnt (sector_map k') = bit_cnt (sector_map k) \<and>
     (\<forall>s < bit_cnt (sector_map k). bmap (sector_map k) ! s \<longrightarrow> bmap (sector_map k') ! s) \<and>
     (\<forall>j. stored k im j \<longrightarrow> content k' j = content k j)"

lemma grown_stored: "grown k k' im \<Longrightarrow> stored k im j \<Longrightarrow> stored k' im j"
  using occupies_mono [of k j k'] same_inode_ok [of k' k j] by (simp add: grown_def stored_def)

lemma occupies_run:
  assumes "\<forall>t < n. bmap (sector_map k) ! (unat s + t)" "unat s + n \<le> bit_cnt (sector_map k)"
    and "data_at i = 512 * unat s" "nat (inode_length i) \<le> 512 * n"
  shows "occupies k i"
proof -
  have "t < bit_cnt (sector_map k) \<and> bmap (sector_map k) ! t" if "data_at i < 512 * (t + 1)" "512 * t < data_at i + nat (inode_length i)" for t
  proof -
    have "512 * unat s < 512 * (t + 1)" "512 * t < 512 * (unat s + n)" using that assms(3,4) by auto
    then have "unat s \<le> t" "t - unat s < n" by auto
    moreover have "unat s + (t - unat s) = t" using calculation(1) by simp
    ultimately have "bmap (sector_map k) ! t" using assms(1) by metis
    then show ?thesis using \<open>t - unat s < n\<close> \<open>unat s \<le> t\<close> assms(2) by linarith
  qed
  then show ?thesis by (simp add: occupies_def)
qed

lemma alloc_create:
  assumes ready: "map_ready k im" "bit_cnt (sector_map k) = length (sectors (fs_device k))" "occupies k im"
    and len: "0 \<le> len" "len + 512 < 2 ^ 31" and a: "allocate_sectors 1 k = Inr (Some sec, k1)" 
  shows "\<exists>created k'. inode_create sec len k1 = Inr (created, k') \<and> grown k k' im \<and>
    unat sec < bit_cnt (sector_map k) \<and> \<not> bmap (sector_map k) ! unat sec \<and>
    (created \<longleftrightarrow> (\<exists>start. new_run k sec (sectors_of len) start)) \<and>
    (if created then \<exists>start. new_run k sec (sectors_of len) start \<and>
        bmap (sector_map k') = put_bytes ((bmap (sector_map k))[unat sec := True]) (unat start) (replicate (sectors_of len) True) \<and>
        decode_inode (sectors (fs_device k') ! unat sec) = new_inode start len \<and>
        (\<forall>j. inode_data j = new_inode start len \<longrightarrow> stored k' im j \<and> content k' j = replicate (nat len) 0)
     else bmap (sector_map k') = (bmap (sector_map k))[unat sec := True])"
proof -
  let ?m = "bmap (sector_map k)" and ?n = "sectors_of len"
  have sec: "unat sec < bit_cnt (sector_map k)" "\<not> ?m ! unat sec"
    and m1: "bmap (sector_map k1) = ?m[unat sec := True]"
    and k1: "map_ready k1 im" "remapped k k1" "length (flat k1) = length (flat k)" "synced k1 im"
    and c1: "\<forall>j. inode_ok k j \<and> apart im j \<longrightarrow> content k1 j = content k j"
    using alloc_sector [OF ready(1,2)] a by auto
  have bc1: "bit_cnt (sector_map k1) = bit_cnt (sector_map k)" using m1 by (metis length_bmap length_list_update)
  have dev: "dev_ok (fs_device k)" "dev_ok (fs_device k1)" using ready(1) k1(1) by (auto simp: map_ready_def live_inode_def)
  have L: "length (sectors (fs_device k1)) = length (sectors (fs_device k))"
    using length_flat [OF dev(1)] length_flat [OF dev(2)] k1(3) by simp
  have mono: "occupies k1 j" if "occupies k j" for j
    by (rule occupies_mono [OF that]) (use m1 bc1 sec(1) in \<open>simp_all add: nth_list_update\<close>)
  have off: "off_data (unat sec) j" if "occupies k j" for j by (rule occupies_off [OF that sec(2)])
  from inode_create_creates [OF k1(1) len _ mono [OF ready(3)] off [OF ready(3)], folded sectors_of_def]
  obtain ok k' where k': "inode_create sec len k1 = Inr (ok, k')" "map_ready k' im" "remapped k1 k'" "length (flat k') = length (flat k1)"
    "synced k' im" and iff: "ok \<longleftrightarrow> (\<exists>s. free_at (bmap (sector_map k1)) ?n False s)"
    and no: "\<not> ok \<longrightarrow> bmap (sector_map k') = bmap (sector_map k1) \<and> flat k' = flat k1"
    and yes: "ok \<longrightarrow> (\<exists>start. free_at (bmap (sector_map k1)) ?n False (unat start) \<and>
      bmap (sector_map k') = put_bytes (bmap (sector_map k1)) (unat start) (replicate ?n True) \<and>
      synced k' im \<and> decode_inode (sectors (fs_device k') ! unat sec) = new_inode start len \<and>
      (\<forall>j. inode_data j = new_inode start len \<longrightarrow> inode_ok k' j \<and> content k' j = replicate (nat len) 0) \<and>
      (\<forall>j. inode_ok k1 j \<and> occupies k1 j \<and> apart im j \<and> off_data (unat sec) j \<longrightarrow> content k' j = content k1 j))"
    using bc1 ready(2) L sec(1) m1 k1(4) by auto
  have c': "content k' j = content k j" if "stored k im j" for j
  proof -
    have j: "inode_ok k j" "occupies k j" "apart im j" using that by (auto simp: stored_def)
    have "content k' j = content k1 j"
    proof (cases ok)
      case True
      then show ?thesis
        using yes j(3) mono [OF j(2)] off [OF j(2)] same_inode_ok [OF k1(3), THEN iffD2, OF j(1)] by blast
    qed (use no in \<open>auto intro: flat_content\<close>)
    then show ?thesis using c1 j(1,3) by simp
  qed
  have frame: "grown k k' im" if "bit_cnt (sector_map k') = bit_cnt (sector_map k)"
    "\<And>s. s < bit_cnt (sector_map k) \<Longrightarrow> ?m ! s \<Longrightarrow> bmap (sector_map k') ! s"
    using that k'(2,4,5) k1(3) c' remapped_trans [OF k1(2) k'(3)] by (simp add: grown_def)
  show ?thesis
  proof (cases ok)
    case False
    then have bm: "bmap (sector_map k') = ?m[unat sec := True]" using no m1 by simp
    then have "bit_cnt (sector_map k') = bit_cnt (sector_map k)" by (metis length_bmap length_list_update)
    then have "grown k k' im" by (rule frame) (use bm sec(1) in \<open>simp add: nth_list_update\<close>)
    moreover have "\<not> new_run k sec ?n start" for start using False iff m1 by (auto simp: new_run_def)
    ultimately show ?thesis using k'(1) sec False bm by auto
  next
    case True
    then obtain start where st: "new_run k sec ?n start"
        "bmap (sector_map k') = put_bytes (?m[unat sec := True]) (unat start) (replicate ?n True)"
        "decode_inode (sectors (fs_device k') ! unat sec) = new_inode start len"
        "\<forall>j. inode_data j = new_inode start len \<longrightarrow> inode_ok k' j \<and> content k' j = replicate (nat len) 0"
      using yes m1 unfolding new_run_def by auto
    have fit: "unat start + ?n \<le> bit_cnt (sector_map k)" using st(1) by (simp add: new_run_def free_at_def)
    then have bc: "bit_cnt (sector_map k') = bit_cnt (sector_map k)"
      using st(2) by (metis length_bmap length_list_update length_put_bytes length_replicate)
    have g: "grown k k' im"
      by (rule frame [OF bc]) (use st(2) sec(1) fit in \<open>auto simp: nth_put_bytes nth_list_update\<close>)
    have "stored k' im j" if j: "inode_data j = new_inode start len" for j
    proof -
      note lj = new_inode_at [OF j len]
      have "nat len \<le> 512 * ?n" using len(1) unfolding sectors_of_def by linarith
      then have "occupies k' j"
        by (intro occupies_run [where n = ?n]) (use st(2) fit bc lj in \<open>auto simp: nth_put_bytes\<close>)
      moreover have "apart im j"
        using occupies_apart [OF mono [OF ready(3)], of ?n "unat start"] st(1) m1 lj \<open>nat len \<le> 512 * ?n\<close> len(1)
        by (auto simp: apart_def new_run_def)
      ultimately show ?thesis using st(4) j by (simp add: stored_def)
    qed
    then have "\<exists>start. new_run k sec ?n start \<and>
        bmap (sector_map k') = put_bytes (?m[unat sec := True]) (unat start) (replicate ?n True) \<and>
        decode_inode (sectors (fs_device k') ! unat sec) = new_inode start len \<and>
        (\<forall>j. inode_data j = new_inode start len \<longrightarrow> stored k' im j \<and> content k' j = replicate (nat len) 0)"
      using st by blast
    then show ?thesis using k'(1) sec True g st(1) by auto
  qed
qed


text \<open>Giving back the sector of the inode.\<close>

lemma release_one:
  assumes "map_ready k im" "unat sec < bit_cnt (sector_map k)" "bmap (sector_map k) ! unat sec"
  shows "\<exists>k'. release_sectors sec 1 k = Inr k' \<and> map_ready k' im \<and> synced k' im \<and> remapped k k' \<and> length (flat k') = length (flat k) \<and>
    bmap (sector_map k') = (bmap (sector_map k))[unat sec := False] \<and> bit_cnt (sector_map k') = bit_cnt (sector_map k) \<and>
    (\<forall>j. inode_ok k j \<and> apart im j \<longrightarrow> content k' j = content k j)"
proof -
  have f: "free_at (bmap (sector_map k)) 1 True (unat sec)" using assms(2,3) by (simp add: free_at_def)
  have "put_bytes (bmap (sector_map k)) (unat sec) [False] = (bmap (sector_map k))[unat sec := False]"
    using assms(2) by (intro nth_equalityI) (auto simp: nth_put_bytes nth_list_update)
  moreover obtain k' where k': "release_sectors sec 1 k = Inr k'" "map_ready k' im" "remapped k k'" "length (flat k') = length (flat k)"
    "bmap (sector_map k') = put_bytes (bmap (sector_map k)) (unat sec) (replicate 1 False)" "synced k' im"
    "\<forall>j. inode_ok k j \<and> apart im j \<longrightarrow> content k' j = content k j"
    using release_sectors_syncs [OF assms(1) f] by blast
  moreover have "bit_cnt (sector_map k') = bit_cnt (sector_map k)"
    by (rule bmap_shape [OF k'(5)]) (use assms(2) in simp)
  ultimately show ?thesis by auto
qed

text \<open>\<open>filesys_create\<close> between opening and closing the root, and what it leads to with the root \<open>r\<close>.\<close>

definition create_in :: "addr \<Rightarrow> mem \<Rightarrow> nat \<Rightarrow> int \<Rightarrow> byte_t list \<Rightarrow> fs \<Rightarrow> c_error + (bool \<times> fs)" where
  "create_in dir m name len e k =
    bindE (bindE (allocate_sectors 1 k) (\<lambda>(r, k).
             case r of None \<Rightarrow> Inr (False, 0, k)
             | Some isector \<Rightarrow>
               bindE (inode_create isector len k) (\<lambda>(created, k).
                 if \<not> created then Inr (False, isector, k)
                 else bindE (dir_add dir m name isector e k) (\<lambda>(added, k). Inr (added, isector, k)))))
      (\<lambda>(success, isector, k).
    bindE (if \<not> success \<and> isector \<noteq> 0 then release_sectors isector 1 k else Inr k) (\<lambda>k. Inr (success, k)))"

lemma filesys_create_in:
  assumes "dir_open_root k = Inr (dir, k1)" "dir \<noteq> 0"
  shows "filesys_create m name len e k =
    bindE (create_in dir m name len e k1) (\<lambda>(success, k). bindE (dir_close dir k) (\<lambda>k. Inr (success, k)))"
  using assms
  by (simp add: filesys_create_def create_in_def bindE_assoc)
    (intro arg_cong2 [where f = bindE] refl ext; clarsimp simp: bindE_assoc)

definition steady :: "fs \<Rightarrow> fs \<Rightarrow> inode \<Rightarrow> inode \<Rightarrow> bool" where
  "steady k k' im r \<longleftrightarrow> map_ready k' im \<and> synced k' im \<and> remapped k k' \<and> length (flat k') = length (flat k) \<and>
     bit_cnt (sector_map k') = bit_cnt (sector_map k) \<and>
     (\<forall>s < bit_cnt (sector_map k). bmap (sector_map k) ! s \<longrightarrow> bmap (sector_map k') ! s) \<and> dir_ok (content k' r) \<and>
     (\<forall>j. stored k im j \<and> apart r j \<longrightarrow> content k' j = content k j)"

definition room :: "byte_t list \<Rightarrow> byte_t list \<Rightarrow> bool" where
  "room c s \<longleftrightarrow> valid_name s \<and> dir_table c s = None \<and> (\<exists>x \<in> set (slots c). \<not> entry_in_use x)"

definition create_outcome :: "fs \<Rightarrow> bool \<Rightarrow> fs \<Rightarrow> inode \<Rightarrow> inode \<Rightarrow> byte_t list \<Rightarrow> int \<Rightarrow> bool" where
  "create_outcome k added k' im r s len \<longleftrightarrow>
    (if added then \<exists>sec start. room (content k r) s \<and> sec \<noteq> 0 \<and> unat sec < bit_cnt (sector_map k) \<and>
       \<not> bmap (sector_map k) ! unat sec \<and> new_run k sec (sectors_of len) start \<and>
       dir_table (content k' r) = (dir_table (content k r))(s \<mapsto> sec) \<and>
       bmap (sector_map k') = put_bytes ((bmap (sector_map k))[unat sec := True]) (unat start) (replicate (sectors_of len) True) \<and>
       inode_data (disk_inode k' sec) = new_inode start len \<and> stored k' im (disk_inode k' sec) \<and>
       content k' (disk_inode k' sec) = replicate (nat len) 0
     else dir_table (content k' r) = dir_table (content k r) \<and>
       (bmap (sector_map k') = bmap (sector_map k) \<and> (False \<notin> set (bmap (sector_map k)) \<or>
          (\<exists>sec. unat sec < bit_cnt (sector_map k) \<and> \<not> bmap (sector_map k) ! unat sec \<and>
            (\<nexists>start. new_run k sec (sectors_of len) start))) \<or>
        \<not> room (content k r) s \<and> (\<exists>sec start. unat sec < bit_cnt (sector_map k) \<and>
       \<not> bmap (sector_map k) ! unat sec \<and> new_run k sec (sectors_of len) start \<and>
          bmap (sector_map k') = put_bytes (bmap (sector_map k)) (unat start) (replicate (sectors_of len) True))))"

lemma grown_steady: "grown k k' im \<Longrightarrow> stored k im r \<Longrightarrow> dir_ok (content k r) \<Longrightarrow> steady k k' im r"
  by (simp add: grown_def steady_def)

lemma grown_apart_root:
  assumes "stored k im r" "\<not> bmap (sector_map k) ! unat sec" "unat sec < bit_cnt (sector_map k)"
  shows "apart r (sector_file sec)"
  using assms occupies_off by (auto simp: stored_def intro!: off_data_apart)


lemma create_in_refused:
  assumes "grown k k' im" "dev_ok (fs_device k)" "stored k im r" "dir_ok (content k r)" "bmap (sector_map k) ! 0"
    and sec: "unat sec < bit_cnt (sector_map k)" "\<not> bmap (sector_map k) ! unat sec"
    and "bmap (sector_map k') = X[unat sec := True]" "length X = bit_cnt (sector_map k)" "\<not> X ! unat sec"
    and mono: "\<And>s. s < bit_cnt (sector_map k) \<Longrightarrow> bmap (sector_map k) ! s \<Longrightarrow> X ! s"
    and c: "same k' k2" "length (flat k2) = length (flat k')" "dev_ok (fs_device k2)" "dir_ok (content k2 r)"
      "dir_table (content k2 r) = dir_table (content k r)" "\<And>j. stored k im j \<and> apart r j \<Longrightarrow> content k2 j = content k j"
  shows "sec \<noteq> 0 \<and> (\<exists>k3. release_sectors sec 1 k2 = Inr k3 \<and> steady k k3 im r \<and> bmap (sector_map k3) = X \<and>
    dir_table (content k3 r) = dir_table (content k r))"
proof -
  have g: "map_ready k' im" "remapped k k'" "length (flat k') = length (flat k)" "bit_cnt (sector_map k') = bit_cnt (sector_map k)"
    using assms(1) by (auto simp: grown_def)
  have sm: "sector_map k2 = sector_map k'" by (rule same_fields(5) [OF c(1)])
  have r2: "map_ready k2 im" by (rule map_ready_same [OF g(1) c(1-3)])
  have t: "unat sec < bit_cnt (sector_map k2)" "bmap (sector_map k2) ! unat sec"
    using sm g(4) sec(1) assms(8,9) by simp_all
  obtain k3 where k3: "release_sectors sec 1 k2 = Inr k3" "map_ready k3 im" "remapped k2 k3" "length (flat k3) = length (flat k2)"
    "bmap (sector_map k3) = (bmap (sector_map k2))[unat sec := False]" "bit_cnt (sector_map k3) = bit_cnt (sector_map k2)"
    "synced k3 im" and cc: "\<forall>j. inode_ok k2 j \<and> apart im j \<longrightarrow> content k3 j = content k2 j"
    using release_one [OF r2 t] by blast
  have X: "bmap (sector_map k3) = X"
    unfolding k3(5) sm assms(8) using assms(10) by (simp add: list_update_same_conv)
      (metis list_update_id)
  have lf: "length (flat k2) = length (flat k)" using c(2) g(3) by simp
  have same_c: "content k3 j = content k2 j" if "stored k im j" for j
    using that cc same_inode_ok [OF lf, THEN iffD2] by (auto simp: stored_def)
  have "remapped k k3" using remapped_trans [OF remapped_trans [OF g(2) same_remapped [OF c(1)]] k3(3)] .
  then have "steady k k3 im r"
    using k3(2,4,6,7) lf sm g(4) X mono same_c c(4,6) assms(3) by (simp add: steady_def)
  moreover have "dir_table (content k3 r) = dir_table (content k r)" using same_c [OF assms(3)] c(5) by simp
  moreover have "sec \<noteq> 0" using assms(5) sec(2) by auto
  ultimately show ?thesis using k3(1) X by blast
qed


lemma new_run_free:
  assumes "new_run k sec n start" "unat sec < bit_cnt (sector_map k)"
  shows "free_at (bmap (sector_map k)) n False (unat start)" "unat start + n \<le> bit_cnt (sector_map k)"
    "\<not> (unat start \<le> unat sec \<and> unat sec < unat start + n)"
proof -
  have f: "unat start + n \<le> bit_cnt (sector_map k)" "\<forall>j < n. (bmap (sector_map k))[unat sec := True] ! (unat start + j) = False"
    using assms(1) by (auto simp: new_run_def free_at_def)
  show "unat start + n \<le> bit_cnt (sector_map k)" by (rule f(1))
  show g: "\<not> (unat start \<le> unat sec \<and> unat sec < unat start + n)"
    using f(2) assms(2) by (auto dest!: spec [of _ "unat sec - unat start"])
  show "free_at (bmap (sector_map k)) n False (unat start)"
    using f g assms(2) by (auto simp: free_at_def nth_list_update split: if_splits)
qed

lemma new_run_marked:
  assumes "new_run k sec n start" "unat sec < bit_cnt (sector_map k)" "\<not> bmap (sector_map k) ! unat sec"
  defines "X \<equiv> put_bytes (bmap (sector_map k)) (unat start) (replicate n True)"
  shows "put_bytes ((bmap (sector_map k))[unat sec := True]) (unat start) (replicate n True) = X[unat sec := True]"
    "length X = bit_cnt (sector_map k)" "\<not> X ! unat sec"
    "\<And>s. s < bit_cnt (sector_map k) \<Longrightarrow> bmap (sector_map k) ! s \<Longrightarrow> X ! s"
proof -
  note n = new_run_free [OF assms(1,2)]
  show l: "length X = bit_cnt (sector_map k)" using n(2) by (simp add: X_def)
  show "put_bytes ((bmap (sector_map k))[unat sec := True]) (unat start) (replicate n True) = X[unat sec := True]"
    using n(2,3) assms(2) l by (intro nth_equalityI) (auto simp: X_def nth_put_bytes nth_list_update)
  show "\<not> X ! unat sec" using n(2,3) assms(2,3) by (auto simp: X_def nth_put_bytes)
  show "X ! s" if "s < bit_cnt (sector_map k)" "bmap (sector_map k) ! s" for s
    using n(2) that by (auto simp: X_def nth_put_bytes)
qed

lemma new_run_apart:
  assumes "new_run k sec n start" "unat sec < bit_cnt (sector_map k)" "occupies k r"
    and "inode_data j = new_inode start len" "0 \<le> len" "len + 512 < 2 ^ 31" "n = sectors_of len"
  shows "apart r j"
proof -
  note lj = new_inode_at [OF assms(4-6)]
  have "nat len \<le> 512 * n" using assms(5,7) unfolding sectors_of_def by linarith
  then show ?thesis
    using occupies_apart [OF assms(3) new_run_free(1) [OF assms(1,2)]] lj by (auto simp: apart_def)
qed

lemma create_in_outcome:
  assumes ready: "map_ready k im" "bit_cnt (sector_map k) = length (sectors (fs_device k))" "occupies k im" "bmap (sector_map k) ! 0"
    and root: "stored k im r" "dir_ok (content k r)" "deny_write_cnt r = 0" and sy: "synced k im" and ir: "apart r im" "inode_ok k im"
    and dir: "dir_heap k q = Some d" "q \<noteq> 0" "inode_heap k (dir_inode d) = Some r" "dir_inode d \<noteq> 0"
    and args: "cstr m name s" "length e = 20" "0 \<le> len" "len + 512 < 2 ^ 31"
  shows "\<exists>added k'. create_in q m name len e k = Inr (added, k') \<and> steady k k' im r \<and> create_outcome k added k' im r s len"
proof -
  have dev: "dev_ok (fs_device k)" using ready(1) by (auto simp: map_ready_def live_inode_def)
  have base: "steady k k im r" using ready(1) root(2) sy by (simp add: steady_def)
  show ?thesis
  proof (cases "allocate_sectors 1 k = Inr (None, k)")
    case True
    then have "create_in q m name len e k = Inr (False, k)" by (simp add: create_in_def)
    moreover have "False \<notin> set (bmap (sector_map k))" using alloc_sector [OF ready(1,2)] True by auto
    ultimately show ?thesis using base by (auto simp: create_outcome_def)
  next
    case False
    then obtain sec k1 where a: "allocate_sectors 1 k = Inr (Some sec, k1)" using alloc_sector [OF ready(1,2)] by blast
    obtain created k' where c: "inode_create sec len k1 = Inr (created, k')" "grown k k' im"
      and sec: "unat sec < bit_cnt (sector_map k)" "\<not> bmap (sector_map k) ! unat sec"
      and iff: "created \<longleftrightarrow> (\<exists>start. new_run k sec (sectors_of len) start)"
      and made: "if created then \<exists>start. new_run k sec (sectors_of len) start \<and>
        bmap (sector_map k') = put_bytes ((bmap (sector_map k))[unat sec := True]) (unat start) (replicate (sectors_of len) True) \<and>
        decode_inode (sectors (fs_device k') ! unat sec) = new_inode start len \<and>
        (\<forall>j. inode_data j = new_inode start len \<longrightarrow> stored k' im j \<and> content k' j = replicate (nat len) 0)
       else bmap (sector_map k') = (bmap (sector_map k))[unat sec := True]"
      using alloc_create [OF ready(1-3) args(3,4) a] by blast
    have dev': "dev_ok (fs_device k')" using c(2) by (auto simp: grown_def map_ready_def live_inode_def)
    have cr: "content k' r = content k r" using c(2) root(1) by (simp add: grown_def)
    show ?thesis
    proof (cases created)
      case False
      have "sec \<noteq> 0 \<and> (\<exists>k3. release_sectors sec 1 k' = Inr k3 \<and> steady k k3 im r \<and> bmap (sector_map k3) = bmap (sector_map k) \<and>
          dir_table (content k3 r) = dir_table (content k r))"
        by (rule create_in_refused [OF c(2) dev root(1,2) ready(4) sec])
          (use False made sec dev' cr root(2) c(2) in \<open>auto simp: grown_def\<close>)
      then obtain k3 where k3: "sec \<noteq> 0" "release_sectors sec 1 k' = Inr k3" "steady k k3 im r"
          "bmap (sector_map k3) = bmap (sector_map k)" "dir_table (content k3 r) = dir_table (content k r)"
        by blast
      have "create_in q m name len e k = Inr (False, k3)" using a c(1) False k3(1,2) by (simp add: create_in_def)
      moreover have "\<exists>sec. unat sec < bit_cnt (sector_map k) \<and> \<not> bmap (sector_map k) ! unat sec \<and>
          (\<nexists>start. new_run k sec (sectors_of len) start)"
        using sec iff False by blast
      ultimately show ?thesis using k3(3-5) by (auto simp: create_outcome_def)
    next
      case True
      then obtain start where st: "new_run k sec (sectors_of len) start"
          "bmap (sector_map k') = put_bytes ((bmap (sector_map k))[unat sec := True]) (unat start) (replicate (sectors_of len) True)"
          "decode_inode (sectors (fs_device k') ! unat sec) = new_inode start len"
          "\<forall>j. inode_data j = new_inode start len \<longrightarrow> stored k' im j \<and> content k' j = replicate (nat len) 0"
        using made by auto
      have rm: "remapped k k'" using c(2) by (simp add: grown_def)
      have live: "live_inode k' (dir_inode d) r"
        using c(2) dev' dir(3,4) remapped_fields(2) [OF rm] grown_stored [OF c(2) root(1)]
        by (auto simp: live_inode_def grown_def map_ready_def stored_def)
      have dh: "dir_heap k' q = Some d" using dir(1) remapped_fields(4) [OF rm] by simp
      have dok: "dir_ok (content k' r)" using root(2) cr by simp
      obtain added k2 where k2: "dir_add q m name sec e k' = Inr (added, k2)" "same k' k2" "dir_ok (content k2 r)"
          "live_inode k2 (dir_inode d) r" "length (flat k2) = length (flat k')" "added \<longleftrightarrow> room (content k r) s"
          "dir_table (content k2 r) = (if added then (dir_table (content k r))(s \<mapsto> sec) else dir_table (content k r))"
          "\<forall>j. inode_ok k' j \<and> apart r j \<longrightarrow> content k2 j = content k' j"
        using dir_add_adds [OF dh dir(2) live root(3) dok args(1,2)] unfolding cr room_def by blast
      note mk = new_run_marked [OF st(1) sec]
      have g: "length (flat k') = length (flat k)" "map_ready k' im" "remapped k k'" "bit_cnt (sector_map k') = bit_cnt (sector_map k)"
        using c(2) by (auto simp: grown_def)
      have dev2: "dev_ok (fs_device k2)" using k2(4) by (simp add: live_inode_def)
      have sm2: "sector_map k2 = sector_map k'" by (rule same_fields(5) [OF k2(2)])
      have keep: "content k2 j = content k j" if "stored k im j \<and> apart r j" for j
        using that k2(8) c(2) same_inode_ok [OF g(1), of j] by (simp add: grown_def stored_def)
      show ?thesis
      proof (cases added)
        case False
        have "sec \<noteq> 0 \<and> (\<exists>k3. release_sectors sec 1 k2 = Inr k3 \<and> steady k k3 im r \<and>
            bmap (sector_map k3) = put_bytes (bmap (sector_map k)) (unat start) (replicate (sectors_of len) True) \<and>
            dir_table (content k3 r) = dir_table (content k r))"
          by (rule create_in_refused [OF c(2) dev root(1,2) ready(4) sec _ mk(2,3) mk(4) k2(2,5) dev2 k2(3) _ keep])
            (use st(2) mk(1) k2(7) False in simp_all)
        then obtain k3 where k3: "sec \<noteq> 0" "release_sectors sec 1 k2 = Inr k3" "steady k k3 im r"
          "bmap (sector_map k3) = put_bytes (bmap (sector_map k)) (unat start) (replicate (sectors_of len) True)"
          "dir_table (content k3 r) = dir_table (content k r)" by blast
        have "create_in q m name len e k = Inr (False, k3)"
          using a c(1) True k2(1) False k3(1,2) by (simp add: create_in_def)
        then show ?thesis using k3(3-5) st(1) sec k2(6) False by (auto simp: create_outcome_def)
      next
        case added: True
        have run: "create_in q m name len e k = Inr (True, k2)"
          using a c(1) True k2(1) added by (simp add: create_in_def)
        have "content k2 im = content k' im"
          using k2(8) ir same_inode_ok [OF g(1), of im] by simp
        then have "synced k2 im" using c(2) sm2 by (simp add: grown_def synced_def)
        then have "steady k k2 im r"
          using map_ready_same [OF g(2) k2(2,5) dev2] remapped_trans [OF g(3) same_remapped [OF k2(2)]] g(1,4) k2(3,5) sm2 keep c(2)
          by (simp add: steady_def grown_def)
        moreover have "create_outcome k True k2 im r s len"
        proof -
          have L: "length (sectors (fs_device k')) = length (sectors (fs_device k))"
            "length (sectors (fs_device k2)) = length (sectors (fs_device k))"
            using length_flat [OF dev] length_flat [OF dev'] length_flat [OF dev2] g(1) k2(5) by simp_all
          have sl: "unat sec < length (sectors (fs_device k'))" "unat sec < length (sectors (fs_device k2))"
            using sec(1) ready(2) L by simp_all
          have "inode_ok k' (sector_file sec)" using sl(1) length_flat [OF dev'] by (simp add: inode_ok_def)
          then have "content k2 (sector_file sec) = content k' (sector_file sec)"
            using k2(8) grown_apart_root [OF root(1) sec(2,1)] by blast
          then have "sectors (fs_device k2) ! unat sec = sectors (fs_device k') ! unat sec"
            using content_sector_file [OF dev' sl(1)] content_sector_file [OF dev2 sl(2)] by simp
          then have n: "inode_data (disk_inode k2 sec) = new_inode start len" using st(3) by (simp add: disk_inode_def)
          have n': "stored k' im (disk_inode k2 sec)" "content k' (disk_inode k2 sec) = replicate (nat len) 0"
            using st(4) n by auto
          have "apart r (disk_inode k2 sec)"
            using new_run_apart [OF st(1) sec(1) _ n args(3,4)] root(1) by (simp add: stored_def)
          then have "content k2 (disk_inode k2 sec) = replicate (nat len) 0"
            using n' k2(8) by (simp add: stored_def)
          moreover have "stored k2 im (disk_inode k2 sec)"
            using n'(1) sm2 same_inode_ok [OF k2(5)] by (simp add: stored_def occupies_def)
          moreover have "sec \<noteq> 0" using ready(4) sec(2) by auto
          ultimately show ?thesis
            using k2(6,7) added sec st(1,2) sm2 n by (auto simp: create_outcome_def)
        qed
        ultimately show ?thesis using run added by blast
      qed
    qed
  qed
qed


lemma remapped_closed: "remapped k k' \<Longrightarrow> closed s k \<Longrightarrow> closed s k'"
  by (simp add: closed_def remapped_fields(1,2))

lemma remapped_fresh:
  assumes "remapped k k'" "fresh k"
  shows "fresh k'"
proof -
  obtain j where "mallocs k' = (\<lambda>n. mallocs k (n + j))" using remapped_fields(7) [OF assms(1)] by blast
  then show ?thesis using assms(2) remapped_fields(2-4) [OF assms(1)] by (auto simp: fresh_def intro!: injI dest: injD)
qed

lemma fs_wf_after:
  assumes wf: "fs_wf k im" and r: "remapped k k'" "map_ready k' im" "length (flat k') = length (flat k)"
    "bit_cnt (sector_map k') = bit_cnt (sector_map k)"
    "\<forall>s < bit_cnt (sector_map k). bmap (sector_map k) ! s \<longrightarrow> bmap (sector_map k') ! s" "dir_ok (content k' (root_inode k))"
    "content k' (sector_file 1) = content k (sector_file 1)"
    "synced k' im" "content k' (sector_file 0) = content k (sector_file 0)"
  shows "fs_wf k' im" "root_inode k' = root_inode k"
proof -
  note w = fs_wfD [OF wf]
  have dev': "dev_ok (fs_device k')" using r(2) by (auto simp: map_ready_def live_inode_def)
  have L: "length (sectors (fs_device k')) = length (sectors (fs_device k))"
    using length_flat [OF w(12)] length_flat [OF dev'] r(3) by simp
  have "sectors (fs_device k') ! 1 = sectors (fs_device k) ! 1"
    using content_sector_file [OF w(12), of 1] content_sector_file [OF dev', of 1] r(7) w(3) L by simp
  then show root: "root_inode k' = root_inode k" by (simp add: disk_inode_def)
  have z: "unat (0 :: word_t) < length (sectors (fs_device k))" using w(3) by auto
  have "sectors (fs_device k') ! 0 = sectors (fs_device k) ! 0"
    using content_sector_file [OF w(12) z] content_sector_file [OF dev', of 0] r(9) z L by simp
  then have "inode_data (disk_inode k' 0) = inode_data im" using w(15) by (simp add: disk_inode_def)
  moreover have mono: "occupies k' i" if "occupies k i" for i
    by (rule occupies_mono [OF that]) (use r(4,5) in simp_all)
  have st: "stored k' im i" if "stored k im i" for i
    using that mono same_inode_ok [OF r(3)] by (simp add: stored_def)
  moreover have "closed 1 k'" "fresh k'" using remapped_closed [OF r(1) w(10)] remapped_fresh [OF r(1) w(11)] .
  moreover have "bmap (sector_map k') ! 0" using w(2-4) r(5) [THEN spec, of 0] by auto
  ultimately show "fs_wf k' im"
    using w(2,3,8,17) r(2,4,6,8) L mono [OF w(5)] st [OF w(6)] st [OF w(7)] st [OF w(16)] by (simp add: fs_wf_def root)
qed

text \<open>What depends on the sectors and the map only.\<close>

lemma same_sectors:
  assumes "sectors (fs_device k') = sectors (fs_device k)" "sector_map k' = sector_map k"
  shows "flat k' = flat k" "content k' j = content k j" "inode_ok k' j = inode_ok k j" "occupies k' j = occupies k j"
    "stored k' im j = stored k im j" "disk_inode k' s = disk_inode k s"
  using assms by (simp_all add: flat_def content_def inode_ok_def occupies_def stored_def disk_inode_def)

lemma map_ready_remapped:
  assumes "map_ready k im" "remapped k k'" "dev_ok (fs_device k')" "length (flat k') = length (flat k)"
    and "map_shape (sector_map k')" "bit_cnt (sector_map k') = bit_cnt (sector_map k)"
  shows "map_ready k' im"
proof (rule map_ready_more [OF assms(1)])
  show "file_heap k \<subseteq>\<^sub>m file_heap k'" "inode_heap k \<subseteq>\<^sub>m inode_heap k'" using remapped_fields(2,3) [OF assms(2)] by simp_all
  obtain j where "mallocs k' = (\<lambda>n. mallocs k (n + j))" using remapped_fields(7) [OF assms(2)] by blast
  then show "no_fail k'" using assms(1) by (auto simp: map_ready_def live_inode_def no_fail_def)
qed (use remapped_fields(2,3,5) [OF assms(2)] assms(3-6) in simp_all)

lemma root_opens:
  assumes "fs_wf k im"
  shows "\<exists>p q k1. dir_open_root k = Inr (q, k1) \<and> opened k p q k1 \<and> sectors (fs_device k1) = sectors (fs_device k) \<and>
    sector_map k1 = sector_map k \<and> map_ready k1 im \<and> live_inode k1 p (root_inode k) \<and> flat k1 = flat k \<and>
    (\<forall>j. content k1 j = content k j)"
proof -
  note w = fs_wfD [OF assms]
  obtain p q k1 where o: "dir_open_root k = Inr (q, k1)" "opened k p q k1" "sectors (fs_device k1) = sectors (fs_device k)"
    "sector_map k1 = sector_map k"
    using dir_open_root_opens [OF assms] by blast
  note s = same_sectors [OF o(3,4)]
  have f: "inode_heap k1 = (inode_heap k)(p \<mapsto> root_inode k)" "inode_heap k p = None" "file_heap k1 = file_heap k"
    "map_file k1 = map_file k" "block_size (fs_device k1) = block_size (fs_device k)" "p \<noteq> 0"
    "block_type (fs_device k1) = block_type (fs_device k)"
    using o(2) by (auto simp: opened_def)
  have dev1: "dev_ok (fs_device k1)" using w(12) f o(3) by (simp add: dev_ok_def)
  have nf: "no_fail k1" using o(2) w(13) by (auto simp: opened_def no_fail_def)
  have le: "inode_heap k \<subseteq>\<^sub>m inode_heap k1" "file_heap k \<subseteq>\<^sub>m file_heap k1" using f(1-3) by (auto simp: map_le_def)
  have "map_ready k1 im"
    by (rule map_ready_more [OF w(1) f(4) le(2,1) nf dev1]) (use w(1) s o(4) in \<open>simp_all add: map_ready_def\<close>)
  moreover have "live_inode k1 p (root_inode k)"
    using dev1 f(1,6) nf w(6) s by (simp add: live_inode_def stored_def)
  ultimately show ?thesis using o s by blast
qed

lemma filesys_create_outcome:
  assumes "fs_wf k im" "cstr m name s" "length e = 20" "0 \<le> len" "len + 512 < 2 ^ 31"
  shows "\<exists>added k'. filesys_create m name len e k = Inr (added, k') \<and> fs_wf k' im \<and>
    steady k k' im (root_inode k) \<and> root_inode k' = root_inode k \<and> create_outcome k added k' im (root_inode k) s len"
proof -
  note w = fs_wfD [OF assms(1)]
  let ?r = "root_inode k"
  obtain p q k1 where o: "dir_open_root k = Inr (q, k1)" "opened k p q k1" "sectors (fs_device k1) = sectors (fs_device k)"
    "sector_map k1 = sector_map k" and ready: "map_ready k1 im" and c1: "\<And>j. content k1 j = content k j" and fl: "flat k1 = flat k"
    using root_opens [OF assms(1)] by blast
  have f1: "q \<noteq> 0" "p \<noteq> 0" "dir_heap k1 q = Some \<lparr>dir_inode = p, dir_pos = 0\<rparr>" "inode_heap k1 p = Some ?r"
    using o(2) by (auto simp: opened_def)
  have st1: "stored k1 im j = stored k im j" for j using fl o(4) by (simp add: stored_def inode_ok_def occupies_def)
  have im: "apart ?r im" "inode_ok k im"
    using w(1,6) by (auto simp: stored_def apart_def map_ready_def live_inode_def)
  have dr: "deny_write_cnt ?r = 0" by (simp add: disk_inode_def)
  obtain added k2 where k2: "create_in q m name len e k1 = Inr (added, k2)" "steady k1 k2 im ?r" "create_outcome k1 added k2 im ?r s len"
    using create_in_outcome [OF ready, of ?r q "\<lparr>dir_inode = p, dir_pos = 0\<rparr>" m name s e len] w(2,4,5,6,9,14) f1(1-4) o(3,4) dr c1 st1 im
      assms(2-5) same_sectors [OF o(3,4)] by (auto simp: occupies_def synced_def)
  have s2: "remapped k1 k2" "map_ready k2 im" "length (flat k2) = length (flat k)" "bit_cnt (sector_map k2) = bit_cnt (sector_map k)"
    "\<forall>s < bit_cnt (sector_map k). bmap (sector_map k) ! s \<longrightarrow> bmap (sector_map k2) ! s" "dir_ok (content k2 ?r)" "synced k2 im"
    "\<And>j. stored k im j \<and> apart ?r j \<Longrightarrow> content k2 j = content k j"
    using k2(2) fl o(4) c1 st1 by (auto simp: steady_def)
  obtain k3 where k3: "dir_close q k2 = Inr k3" "remapped k k3" "fs_device k3 = fs_device k2" "sector_map k3 = sector_map k2"
    using dir_close_root [OF opened_remapped [OF o(2) s2(1)]] by blast
  have run: "filesys_create m name len e k = Inr (added, k3)"
    using filesys_create_in [OF o(1) f1(1)] k2(1) k3(1) by simp
  note f3 = same_sectors [of k3 k2, OF arg_cong [OF k3(3)] k3(4)]
  have ready3: "map_ready k3 im"
    by (rule map_ready_remapped [OF w(1) k3(2)]) (use s2 k3(3,4) f3 in \<open>auto simp: map_ready_def live_inode_def\<close>)
  have sy3: "synced k3 im" using s2(7) f3 k3(4) by (simp add: synced_def)
  have "fs_wf k3 im" "root_inode k3 = ?r"
    using fs_wf_after [OF assms(1) k3(2) ready3] s2(3-8) k3(4) f3 sy3 w(7,8,16,17) by simp_all
  moreover have "create_outcome k added k3 im ?r s len"
    using k2(3) same_sectors [OF o(3,4)] f3 o(4) k3(4) by (cases added) (simp_all add: create_outcome_def new_run_def)
  moreover have "steady k k3 im ?r" using ready3 k3(2,4) s2(3-8) f3 sy3 by (simp add: steady_def)
  ultimately show ?thesis using run by blast
qed

end
