(* ===== verification/Pintos_Filesys_Invariant.thy ===== *)
theory Pintos_Filesys_Invariant
  imports Pintos_Filesys_Refinement
begin

text \<open>
  The invariant of a file system: every name of the root's table leads to the inode of a file whose
  sectors are marked, and no two of these, the root and the free map's file overlap. Creating and
  removing files keep it; removing releases the sectors of the file, and opening gives its inode.
\<close>

section \<open>Files and names\<close>

abbreviation fs_table :: "fs \<Rightarrow> byte_t list \<Rightarrow> word_t option" where
  "fs_table k \<equiv> dir_table (content k (root_inode k))"

definition file_at :: "fs \<Rightarrow> inode \<Rightarrow> word_t \<Rightarrow> bool" where
  "file_at k im sec \<longleftrightarrow> sec \<noteq> 0 \<and> sec \<noteq> 1 \<and> unat sec < bit_cnt (sector_map k) \<and> bmap (sector_map k) ! unat sec \<and>
     stored k im (disk_inode k sec) \<and> inode_length (disk_inode k sec) + 512 < 2 ^ 31 \<and> apart (root_inode k) (disk_inode k sec) \<and>
     off_data (unat sec) im \<and> off_data (unat sec) (root_inode k) \<and> off_data 0 (disk_inode k sec) \<and> off_data 1 (disk_inode k sec) \<and>
     off_data (unat sec) (disk_inode k sec)"

text \<open>Two files do not overlap, in their data or in their inodes.\<close>

definition disjoint :: "fs \<Rightarrow> word_t \<Rightarrow> word_t \<Rightarrow> bool" where
  "disjoint k s s' \<longleftrightarrow> s \<noteq> s' \<and> apart (disk_inode k s) (disk_inode k s') \<and> off_data (unat s) (disk_inode k s') \<and>
     off_data (unat s') (disk_inode k s)"

definition fs_inv :: "fs \<Rightarrow> inode \<Rightarrow> bool" where
  "fs_inv k im \<longleftrightarrow> fs_wf k im \<and> (\<forall>s sec. fs_table k s = Some sec \<longrightarrow> file_at k im sec) \<and>
     (\<forall>s s' sec sec'. fs_table k s = Some sec \<and> fs_table k s' = Some sec' \<and> s \<noteq> s' \<longrightarrow> disjoint k sec sec')"

lemma apart_sym: "apart i j = apart j i"
  by (auto simp: apart_def)

lemma disjoint_sym: "disjoint k s s' = disjoint k s' s"
  by (auto simp: disjoint_def apart_sym)

text \<open>A marked sector is a file of its own.\<close>

lemma sector_stored:
  assumes "bit_cnt (sector_map k) = length (sectors (fs_device k))" "dev_ok (fs_device k)"
    and "unat sec < bit_cnt (sector_map k)" "bmap (sector_map k) ! unat sec" "off_data (unat sec) im"
  shows "stored k im (sector_file sec)"
proof -
  have "occupies k (sector_file sec)"
    unfolding occupies_def
  proof (intro allI impI)
    fix s
    assume "data_at (sector_file sec) < 512 * (s + 1) \<and> 512 * s < data_at (sector_file sec) + nat (inode_length (sector_file sec))"
    then have "512 * unat sec < 512 * (s + 1)" "512 * s < 512 * (unat sec + 1)" by simp_all
    then have "s = unat sec" by simp
    then show "s < length (bmap (sector_map k)) \<and> bmap (sector_map k) ! s" using assms(3,4) by simp
  qed
  moreover have "inode_ok k (sector_file sec)" using assms(1,3) length_flat [OF assms(2)] by (simp add: inode_ok_def)
  ultimately show ?thesis using assms(5) by (simp add: stored_def off_data_apart)
qed

lemma disk_inode_keeps:
  assumes "dev_ok (fs_device k)" "dev_ok (fs_device k')" "length (flat k') = length (flat k)"
    and "unat sec < length (sectors (fs_device k))" "content k' (sector_file sec) = content k (sector_file sec)"
  shows "disk_inode k' sec = disk_inode k sec"
proof -
  have "length (sectors (fs_device k')) = length (sectors (fs_device k))"
    using length_flat [OF assms(1)] length_flat [OF assms(2)] assms(3) by simp
  then show ?thesis
    using content_sector_file [OF assms(1,4)] content_sector_file [OF assms(2), of sec] assms(4,5) by (simp add: disk_inode_def)
qed

lemma free_run_off:
  assumes "free_at m n False (unat start)" "m ! t" "data_at j = 512 * unat start" "nat (inode_length j) \<le> 512 * n"
  shows "off_data t j"
proof -
  have "\<not> (unat start \<le> t \<and> t < unat start + n)"
    using assms(1,2) by (auto simp: free_at_def dest!: spec [of _ "t - unat start"])
  then show ?thesis using assms(3,4) by (auto simp: off_data_def not_le not_less)
qed

lemma sectors_of_enough: "0 \<le> len \<Longrightarrow> nat len \<le> 512 * sectors_of len"
  unfolding sectors_of_def by linarith

lemma new_run_off:
  assumes "new_run k sec (sectors_of len) start" "(bmap (sector_map k))[unat sec := True] ! t"
    and "inode_data j = new_inode start len" "0 \<le> len" "len + 512 < 2 ^ 31"
  shows "off_data t j"
  using free_run_off [OF assms(1) [unfolded new_run_def] assms(2)] new_inode_at [OF assms(3-5)] sectors_of_enough [OF assms(4)] by simp

section \<open>Creating\<close>

lemma steady_stored:
  assumes "steady k k' im r" "stored k im j"
  shows "stored k' im j"
  using assms occupies_mono [of k j k'] same_inode_ok [of k' k j] by (simp add: steady_def stored_def)

lemma file_at_keeps:
  assumes wf: "fs_wf k im" and st: "steady k k' im (root_inode k)" and root: "root_inode k' = root_inode k" and f: "file_at k im sec"
  shows "disk_inode k' sec = disk_inode k sec" "file_at k' im sec"
proof -
  note w = fs_wfD [OF wf]
  have f': "unat sec < bit_cnt (sector_map k)" "bmap (sector_map k) ! unat sec" "off_data (unat sec) im"
    "off_data (unat sec) (root_inode k)" using f by (auto simp: file_at_def)
  have dev': "dev_ok (fs_device k')" and s: "length (flat k') = length (flat k)" "bit_cnt (sector_map k') = bit_cnt (sector_map k)"
    "bmap (sector_map k') ! unat sec"
    using st f' by (auto simp: steady_def map_ready_def live_inode_def)
  have "content k' (sector_file sec) = content k (sector_file sec)"
    using st sector_stored [OF w(2,12) f'(1-3)] off_data_apart [OF f'(4)] by (simp add: steady_def)
  then show "disk_inode k' sec = disk_inode k sec"
    by (intro disk_inode_keeps [OF w(12) dev' s(1)]) (use f'(1) w(2) in simp_all)
  then show "file_at k' im sec"
    using f s(2,3) steady_stored [OF st] by (simp add: file_at_def root)
qed

lemma new_file_at:
  assumes wf: "fs_wf k im" and st: "steady k k' im (root_inode k)" and root: "root_inode k' = root_inode k"
    and len: "0 \<le> len" "len + 512 < 2 ^ 31" and sec: "unat sec < bit_cnt (sector_map k)" "\<not> bmap (sector_map k) ! unat sec"
    and run: "new_run k sec (sectors_of len) start"
    and map': "bmap (sector_map k') = put_bytes ((bmap (sector_map k))[unat sec := True]) (unat start) (replicate (sectors_of len) True)"
    and new: "inode_data (disk_inode k' sec) = new_inode start len" "stored k' im (disk_inode k' sec)"
  shows "file_at k' im sec"
proof -
  note w = fs_wfD [OF wf]
  have one: "bmap (sector_map k) ! 1" using w(7) by (auto simp: stored_def occupies_def dest!: spec [of _ 1])
  have "sec \<noteq> 0" "sec \<noteq> 1" using w(4) one sec(2) by auto
  moreover have "(bmap (sector_map k))[unat sec := True] ! 0" "(bmap (sector_map k))[unat sec := True] ! 1"
    "(bmap (sector_map k))[unat sec := True] ! unat sec"
    using one sec(1) w(2-4) by (auto simp: nth_list_update)
  then have "off_data 0 (disk_inode k' sec)" "off_data 1 (disk_inode k' sec)" "off_data (unat sec) (disk_inode k' sec)"
    using new_run_off [OF run _ new(1) len] by blast+
  moreover have "inode_length (disk_inode k' sec) = len"
    by (rule new_inode_at(1) [OF new(1) len])
  moreover have "apart (root_inode k) (disk_inode k' sec)"
    using new_run_apart [OF run sec(1) _ new(1) len refl] w(6) by (simp add: stored_def)
  moreover have "off_data (unat sec) im" "off_data (unat sec) (root_inode k)"
    using occupies_off sec(2) w(5,6) by (auto simp: stored_def)
  moreover have "bmap (sector_map k') ! unat sec"
    unfolding map' new_run_marked(1) [OF run sec] using new_run_marked(2) [OF run sec] sec(1) by simp
  moreover have "unat sec < bit_cnt (sector_map k')" using st sec(1) by (simp add: steady_def)
  ultimately show ?thesis using new(2) len by (simp add: file_at_def root)
qed


text \<open>Creating a file keeps the invariant, and failing to keeps it too.\<close>

lemma filesys_create_keeps:
  assumes "fs_inv k im" "cstr m name s" "length e = 20" "0 \<le> len" "len + 512 < 2 ^ 31"
  shows "\<exists>added k'. filesys_create m name len e k = Inr (added, k') \<and> fs_inv k' im \<and> steady k k' im (root_inode k) \<and>
    root_inode k' = root_inode k \<and> create_outcome k added k' im (root_inode k) s len"
proof -
  have wf: "fs_wf k im" and files: "\<And>s sec. fs_table k s = Some sec \<Longrightarrow> file_at k im sec"
    and dj: "\<And>s s' sec sec'. fs_table k s = Some sec \<Longrightarrow> fs_table k s' = Some sec' \<Longrightarrow> s \<noteq> s' \<Longrightarrow> disjoint k sec sec'"
    using assms(1) unfolding fs_inv_def by blast+
  note w = fs_wfD [OF wf]
  obtain added k' where k': "filesys_create m name len e k = Inr (added, k')" "fs_wf k' im" "steady k k' im (root_inode k)"
    "root_inode k' = root_inode k" "create_outcome k added k' im (root_inode k) s len"
    using filesys_create_outcome [OF wf assms(2-5)] by blast
  note old = file_at_keeps [OF wf k'(3,4)]
  have old_dj: "disjoint k' sec sec'" if "file_at k im sec" "file_at k im sec'" "disjoint k sec sec'" for sec sec'
    using that(3) old(1) [OF that(1)] old(1) [OF that(2)] by (simp add: disjoint_def)
  have "fs_inv k' im"
  proof (cases added)
    case False
    then have "fs_table k' = fs_table k" using k'(4,5) by (simp add: create_outcome_def)
    then show ?thesis unfolding fs_inv_def using k'(2) old(2) files old_dj dj by (metis (no_types))
  next
    case True
    then obtain sec start where sec: "unat sec < bit_cnt (sector_map k)" and n: "\<not> bmap (sector_map k) ! unat sec" "new_run k sec (sectors_of len) start"
       "fs_table k' = (fs_table k)(s \<mapsto> sec)"
       "bmap (sector_map k') = put_bytes ((bmap (sector_map k))[unat sec := True]) (unat start) (replicate (sectors_of len) True)"
       "inode_data (disk_inode k' sec) = new_inode start len" "stored k' im (disk_inode k' sec)"
      using k'(4,5) by (auto simp: create_outcome_def)
    have new: "file_at k' im sec" by (rule new_file_at [OF wf k'(3,4) assms(4,5) sec n(1,2,4-6)])
    have nd: "disjoint k' sec sec'" if f: "file_at k im sec'" for sec'
    proof -
      have f': "bmap (sector_map k) ! unat sec'" "unat sec' < bit_cnt (sector_map k)" "stored k im (disk_inode k sec')"
        using f by (auto simp: file_at_def)
      have "off_data (unat sec') (disk_inode k' sec)"
        by (rule new_run_off [OF n(2) _ n(5) assms(4,5)]) (use f' sec in \<open>simp add: nth_list_update\<close>)
      moreover have "apart (disk_inode k sec') (disk_inode k' sec)"
        using new_run_apart [OF n(2) sec _ n(5) assms(4,5) refl] f'(3) by (simp add: stored_def)
      moreover have "off_data (unat sec) (disk_inode k sec')" using occupies_off [OF _ n(1)] f'(3) by (simp add: stored_def)
      moreover have "sec \<noteq> sec'" using n(1) f'(1) by auto
      ultimately show ?thesis by (simp add: disjoint_def old(1) [OF f] apart_sym)
    qed
    show ?thesis
      unfolding fs_inv_def n(3) using k'(2) new old(2) files nd old_dj dj by (auto simp: disjoint_sym)
  qed
  then show ?thesis using k' by blast
qed

end
