(* ===== verification/Pintos_Filesys_Names.thy ===== *)
theory Pintos_Filesys_Names
  imports Pintos_Filesys_Invariant
begin

text \<open>
  Opening a file by its name, and removing it: the root is opened, the name looked up in it, and the
  inode of the file opened beside the root's.
\<close>

section \<open>Looking up an entry\<close>

lemma lookup_name_entry:
  assumes "dir_heap k dir = Some d" "dir \<noteq> 0" "live_inode k (dir_inode d) i" "dir_ok (content k i)"
    and "cstr m name s" "length e = 20"
  shows "\<exists>r k'. lookup_name dir m name e k = Inr (r, k') \<and> same k k' \<and> flat k' = flat k \<and> live_inode k' (dir_inode d) i \<and>
    (case r of None \<Rightarrow> dir_table (content k i) s = None
     | Some (x, ofs) \<Rightarrow> \<exists>j < length (content k i) div 20. ofs = of_nat (20 * j) \<and> x = slots (content k i) ! j \<and>
         matches s x \<and> dir_table (content k i) s = Some (entry_sector x))"
proof -
  let ?c = "content k i"
  let ?r = "find_slot (matches s) 0 (slots ?c)"
  obtain k' where k': "lookup_loop (dir_inode d) m name 0 e k = Inr (map_option (\<lambda>(e, n). (e, of_nat (20 * n))) ?r, k')"
    "same k k'" "flat k' = flat k" "live_inode k' (dir_inode d) i"
    using lookup_loop_finds [OF assms(3) _ assms(5,6), of 0] assms(4) by (auto simp: dir_ok_def)
  have run: "lookup_name dir m name e k = Inr (map_option (\<lambda>(e, n). (e, of_nat (20 * n))) ?r, k')"
    using k'(1) assms(1,2) cstr_pos [OF assms(5)] by (simp add: lookup_name_def follow_def)
  have t: "dir_table ?c s = map_option (entry_sector \<circ> fst) ?r"
    unfolding dir_table_def find_slot_table [of s 0, symmetric] by simp
  show ?thesis
  proof (cases ?r)
    case None
    then show ?thesis using run k'(2-4) t by auto
  next
    case (Some xn)
    obtain x n where "xn = (x, n)" by fastforce
    then show ?thesis using run k'(2-4) t Some find_slot_Some [of "matches s" 0 "slots ?c" x n] by auto
  qed
qed

section \<open>Opening a second inode\<close>

text \<open>\<open>opened_file k p q f i k'\<close>: besides the root an inode \<open>i\<close> is open at \<open>f\<close>.\<close>

definition opened_file :: "fs \<Rightarrow> addr \<Rightarrow> addr \<Rightarrow> addr \<Rightarrow> inode \<Rightarrow> fs \<Rightarrow> bool" where
  "opened_file k p q f i k' \<longleftrightarrow> opened k p q (k'\<lparr>open_inodes := p # open_inodes k, inode_heap := (inode_heap k)(p \<mapsto> root_inode k)\<rparr>) \<and>
     f \<noteq> 0 \<and> f \<noteq> p \<and> inode_heap k f = None \<and> open_inodes k' = f # p # open_inodes k \<and>
     inode_heap k' = (inode_heap k)(p \<mapsto> root_inode k, f \<mapsto> i) \<and>
     (\<exists>a b. f = mallocs k a \<and> a < b \<and> mallocs k' = (\<lambda>n. mallocs k (n + b)))"

lemma fresh_shift:
  assumes "fresh k" "mallocs k' = (\<lambda>n. mallocs k (n + j))"
  shows "mallocs k' n \<noteq> 0" "inode_heap k (mallocs k' n) = None" "file_heap k (mallocs k' n) = None"
    "dir_heap k (mallocs k' n) = None" "0 < j \<Longrightarrow> mallocs k' n \<noteq> mallocs k 0"
  using assms by (auto simp: fresh_def dest: injD)

lemma inode_open_second:
  assumes "fs_wf k im" "opened k p q k1" "dev_ok (fs_device k1)" "closed sec k" "sec \<noteq> 1"
    and "unat sec < length (sectors (fs_device k1))"
  shows "\<exists>f k2. inode_open sec k1 = Inr (f, k2) \<and> opened_file k p q f (disk_inode k1 sec) k2 \<and>
    sectors (fs_device k2) = sectors (fs_device k1) \<and> sector_map k2 = sector_map k1 \<and> dev_ok (fs_device k2)"
proof -
  note w = fs_wfD [OF assms(1)]
  obtain j where j: "j > 0" "mallocs k1 = (\<lambda>n. mallocs k (n + j))" "p = mallocs k 0"
    and o: "open_inodes k1 = p # open_inodes k" "inode_heap k1 = (inode_heap k)(p \<mapsto> root_inode k)" "inode_heap k p = None" "p \<noteq> 0"
    using assms(2) by (auto simp: opened_def)
  note f = fresh_shift [OF w(11) j(2)]
  have "closed sec k1"
    using assms(4,5) o by (auto simp: closed_def disk_inode_def)
  moreover have "no_fail k1" using f(1) by (simp add: no_fail_def)
  ultimately have io: "inode_open sec k1 = Inr (mallocs k1 0, put_inode (mallocs k1 0) (disk_inode k1 sec)
     (counted (bump 1 k1)\<lparr>open_inodes := mallocs k1 0 # open_inodes k1\<rparr>))"
    using inode_open_closed assms(3,6) by blast
  let ?k2 = "put_inode (mallocs k1 0) (disk_inode k1 sec) (counted (bump 1 k1)\<lparr>open_inodes := mallocs k1 0 # open_inodes k1\<rparr>)"
  have "opened k p q (?k2\<lparr>open_inodes := p # open_inodes k, inode_heap := (inode_heap k)(p \<mapsto> root_inode k)\<rparr>)"
    using assms(2) j(2) exI [of "\<lambda>i. i > 0 \<and> (\<lambda>n. mallocs k (n + 1 + j)) = (\<lambda>n. mallocs k (n + i))" "j + 1"] o(3,4) [unfolded j(3)]
    by (simp add: opened_def put_inode_def counted_def bump_def)
  moreover have "\<exists>a b. mallocs k1 0 = mallocs k a \<and> a < b \<and> mallocs ?k2 = (\<lambda>n. mallocs k (n + b))"
    by (rule exI [of _ j], rule exI [of _ "j + 1"]) (simp add: j(2) put_inode_def counted_def bump_def)
  ultimately have "opened_file k p q (mallocs k1 0) (disk_inode k1 sec) ?k2"
    using f(1,2) f(5) [OF j(1)] j(3) o by (simp add: opened_file_def put_inode_def counted_def bump_def)
  then show ?thesis using io assms(3) by (auto simp: put_inode_def counted_def bump_def dev_ok_def)
qed


section \<open>Opening a file\<close>

lemma disk_inode_flat:
  assumes "flat k' = flat k" "dev_ok (fs_device k)" "dev_ok (fs_device k')" "unat s < length (sectors (fs_device k))"
  shows "disk_inode k' s = disk_inode k s"
  by (rule disk_inode_keeps [OF assms(2,3) _ assms(4)]) (use assms(1) flat_content in \<open>simp_all add: content_def\<close>)

lemma dir_lookup_root:
  assumes wf: "fs_wf k im" and o: "dir_open_root k = Inr (q, k1)" "opened k p q k1" "live_inode k1 p (root_inode k)" "flat k1 = flat k"
    and args: "cstr m name s" "length e = 20" and c: "\<And>sec. fs_table k s = Some sec \<Longrightarrow> closed sec k \<and> file_at k im sec"
  shows "case fs_table k s of
     None \<Rightarrow> \<exists>k2. dir_lookup q m name e k1 = Inr (False, 0, k2) \<and> opened k p q k2 \<and> flat k2 = flat k \<and> sector_map k2 = sector_map k1 \<and>
       dev_ok (fs_device k2)
   | Some sec \<Rightarrow> \<exists>f k2. dir_lookup q m name e k1 = Inr (True, f, k2) \<and> opened_file k p q f (disk_inode k sec) k2 \<and> flat k2 = flat k \<and>
       dev_ok (fs_device k2) \<and> sector_map k2 = sector_map k1"
proof -
  note w = fs_wfD [OF wf]
  have q: "dir_heap k1 q = Some \<lparr>dir_inode = p, dir_pos = 0\<rparr>" "q \<noteq> 0" using o(2) by (auto simp: opened_def)
  have c1: "content k1 (root_inode k) = content k (root_inode k)" by (rule flat_content [OF o(4)])
  have dok: "dir_ok (content k1 (root_inode k))" using w(9) c1 by simp
  obtain r k2 where r: "lookup_name q m name e k1 = Inr (r, k2)" "same k1 k2" "flat k2 = flat k1" "live_inode k2 p (root_inode k)"
    and t: "case r of None \<Rightarrow> fs_table k s = None
     | Some (x, ofs) \<Rightarrow> \<exists>j < length (content k (root_inode k)) div 20. ofs = of_nat (20 * j) \<and> x = slots (content k (root_inode k)) ! j \<and>
         matches s x \<and> fs_table k s = Some (entry_sector x)"
    using lookup_name_entry [OF q(1,2) _ dok args] o(3) unfolding c1 by auto
  have o2: "opened k p q k2" by (rule opened_remapped [OF o(2) same_remapped [OF r(2)]])
  have fl: "flat k2 = flat k" using r(3) o(4) by simp
  have run: "dir_lookup q m name e k1 = bindE (case r of Some (e, _) \<Rightarrow> inode_open (entry_sector e) k2 | None \<Rightarrow> Inr (0, k2))
      (\<lambda>(inode, k). Inr (inode \<noteq> 0, inode, k))"
    using r(1) q(2) cstr_pos [OF args(1)] by (simp add: dir_lookup_def)
  show ?thesis
  proof (cases r)
    case None
    then show ?thesis using run t o2 fl same_fields(5) [OF r(2)] r(4) by (simp add: live_inode_def)
  next
    case (Some xo)
    obtain x ofs where xo: "xo = (x, ofs)" by fastforce
    then have sec: "fs_table k s = Some (entry_sector x)" using t Some by auto
    have f: "file_at k im (entry_sector x)" "closed (entry_sector x) k" using c [OF sec] by auto
    have dev2: "dev_ok (fs_device k2)" using r(4) by (simp add: live_inode_def)
    have s2: "length (sectors (fs_device k2)) = length (sectors (fs_device k))"
      using length_flat [OF w(12)] length_flat [OF dev2] fl by simp
    have l: "unat (entry_sector x) < length (sectors (fs_device k))" using f(1) w(2) by (simp add: file_at_def)
    obtain g k3 where g: "inode_open (entry_sector x) k2 = Inr (g, k3)" "opened_file k p q g (disk_inode k2 (entry_sector x)) k3"
      "sectors (fs_device k3) = sectors (fs_device k2)" "sector_map k3 = sector_map k2" "dev_ok (fs_device k3)"
      using inode_open_second [OF wf o2 dev2 f(2)] f(1) l s2 by (auto simp: file_at_def)
    have "disk_inode k2 (entry_sector x) = disk_inode k (entry_sector x)"
      by (rule disk_inode_flat [OF fl w(12) dev2 l])
    moreover have "g \<noteq> 0" using g(2) by (simp add: opened_file_def)
    moreover have "flat k3 = flat k" using g(3) fl by (simp add: flat_def)
    ultimately show ?thesis using run Some xo sec g same_fields(5) [OF r(2)] by simp
  qed
qed


text \<open>The invariant is about the device and the map; of the map's inode only its data count.\<close>

lemma fs_wf_cong_im:
  assumes "inode_data i = inode_data j"
  shows "stored k i x = stored k j x" "occupies k i = occupies k j" "synced k i = synced k j" "inode_ok k i = inode_ok k j"
    "off_data s i = off_data s j" "content k i = content k j" "inode_length i = inode_length j" "file_at k i sec = file_at k j sec"
  using assms
  by (simp_all add: stored_def apart_def occupies_def synced_def inode_ok_def off_data_def content_def data_at_def inode_length_def file_at_def)

lemma fs_inv_device:
  assumes inv: "fs_inv k im" and up: "map_ready k' im'" "inode_data im' = inode_data im" "dev_ok (fs_device k')" "flat k' = flat k"
    "bmap (sector_map k') = bmap (sector_map k)" "closed 1 k'" "fresh k'"
  shows "fs_inv k' im'" "fs_table k' = fs_table k"
proof -
  have wf: "fs_wf k im" using inv by (simp add: fs_inv_def)
  note w = fs_wfD [OF wf] and i = fs_wf_cong_im [OF up(2)]
  have L: "length (sectors (fs_device k')) = length (sectors (fs_device k))"
    using length_flat [OF w(12)] length_flat [OF up(3)] up(4) by simp
  have bc: "bit_cnt (sector_map k') = bit_cnt (sector_map k)" using up(5) by (metis length_bmap)
  have d: "disk_inode k' s = disk_inode k s" if "unat s < length (sectors (fs_device k))" for s
    by (rule disk_inode_flat [OF up(4) w(12) up(3) that])
  have r: "root_inode k' = root_inode k" by (rule d) (use w(3) in simp)
  have s: "content k' j = content k j" "inode_ok k' j = inode_ok k j" "stored k' a j = stored k a j" "occupies k' j = occupies k j"
    "synced k' j = synced k j" for a j
    using up(4,5) bc by (simp_all add: content_def inode_ok_def stored_def occupies_def synced_def)
  have z: "disk_inode k' 0 = disk_inode k 0" by (rule d) (use w(3) in auto)
  have "fs_wf k' im'" using w up(1,2,5-7) bc by (simp add: fs_wf_def s r L i z)
  moreover have "file_at k' im' sec \<and> disk_inode k' sec = disk_inode k sec" if "file_at k im sec" for sec
    using that d [of sec] w(2) up(5) bc by (simp add: file_at_def s r i)
  moreover show "fs_table k' = fs_table k" by (simp add: s r)
  ultimately show "fs_inv k' im'" using inv by (simp add: fs_inv_def disjoint_def) metis
qed

lemma fs_inv_unchanged:
  assumes "fs_inv k im" "remapped k k'" "flat k' = flat k" "sector_map k' = sector_map k" "dev_ok (fs_device k')"
  shows "fs_inv k' im" "fs_table k' = fs_table k"
proof -
  have w: "map_ready k im" "closed 1 k" "fresh k" using assms(1) fs_wfD by (auto simp: fs_inv_def)
  have "map_ready k' im"
    by (rule map_ready_remapped [OF w(1) assms(2,5)]) (use w(1) assms(3,4) in \<open>simp_all add: map_ready_def\<close>)
  note d = fs_inv_device [OF assms(1) this refl assms(5,3) _ remapped_closed [OF assms(2) w(2)] remapped_fresh [OF assms(2) w(3)]]
  show "fs_inv k' im" "fs_table k' = fs_table k" by (rule d, simp add: assms(4))+
qed

text \<open>Opening files changes nothing that the invariant is about.\<close>

lemma fs_inv_opens:
  assumes inv: "fs_inv k im" and up: "map_file k' = map_file k" "file_heap k \<subseteq>\<^sub>m file_heap k'" "inode_heap k \<subseteq>\<^sub>m inode_heap k'"
    "dev_ok (fs_device k')" "flat k' = flat k" "sector_map k' = sector_map k" "closed 1 k'" "fresh k'"
  shows "fs_inv k' im"
proof -
  have "map_ready k im" using inv by (simp add: fs_inv_def fs_wf_def)
  moreover have "no_fail k'" using up(8) by (simp add: fresh_def no_fail_def)
  ultimately have "map_ready k' im"
    by (intro map_ready_more [OF _ up(1-3) _ up(4)]) (use up(5,6) in \<open>simp_all add: map_ready_def\<close>)
  then show ?thesis by (rule fs_inv_device(1) [OF inv _ refl up(4,5) _ up(7,8)]) (use up(6) in simp)
qed

text \<open>\<open>filesys_open\<close>: NULL when there is no such name, and otherwise a file on the inode of its sector.\<close>

lemma filesys_open_opens:
  assumes inv: "fs_inv k im" and args: "cstr m name s" "length e = 20"
    and c: "\<And>sec. fs_table k s = Some sec \<Longrightarrow> closed sec k"
  shows "case fs_table k s of
     None \<Rightarrow> \<exists>k'. filesys_open m name e k = Inr (0, k') \<and> remapped k k' \<and> flat k' = flat k \<and> sector_map k' = sector_map k \<and>
       fs_inv k' im
   | Some sec \<Rightarrow> \<exists>p f k'. filesys_open m name e k = Inr (p, k') \<and> p \<noteq> 0 \<and> f \<noteq> 0 \<and> file_heap k p = None \<and> inode_heap k f = None \<and>
       file_heap k' = (file_heap k)(p \<mapsto> \<lparr>file_inode = f, file_pos = 0, file_deny = False\<rparr>) \<and>
       inode_heap k' = (inode_heap k)(f \<mapsto> disk_inode k sec) \<and> open_inodes k' = f # open_inodes k \<and> dir_heap k' = dir_heap k \<and>
       map_file k' = map_file k \<and> flat k' = flat k \<and> sector_map k' = sector_map k \<and> live_inode k' f (disk_inode k sec) \<and>
       fs_inv k' im"
proof -
  have wf: "fs_wf k im" and files: "\<And>sec. fs_table k s = Some sec \<Longrightarrow> file_at k im sec" using inv by (auto simp: fs_inv_def)
  note w = fs_wfD [OF wf]
  obtain p q k1 where o: "dir_open_root k = Inr (q, k1)" "opened k p q k1" "live_inode k1 p (root_inode k)" "flat k1 = flat k"
    "sector_map k1 = sector_map k"
    using root_opens [OF wf] by blast
  have q: "q \<noteq> 0" using o(2) by (simp add: opened_def)
  note look = dir_lookup_root [OF wf o(1-4) args]
  show ?thesis
  proof (cases "fs_table k s")
    case None
    then obtain k2 where k2: "dir_lookup q m name e k1 = Inr (False, 0, k2)" "opened k p q k2" "flat k2 = flat k" "sector_map k2 = sector_map k1" "dev_ok (fs_device k2)"
      using look by auto
    obtain k3 where k3: "dir_close q k2 = Inr k3" "remapped k k3" "fs_device k3 = fs_device k2" "sector_map k3 = sector_map k2"
      using dir_close_root [OF k2(2)] by blast
    have "filesys_open m name e k = Inr (0, bump 1 k3)"
      using o(1) q k2(1) k3(1) by (simp add: filesys_open_def file_open_def malloc_bump inode_close_def)
    moreover have "remapped k (bump 1 k3)"
      by (rule remapped_trans [OF k3(2)], rule remappedI [where j = 1]) (simp_all add: bump_def)
    moreover have "flat (bump 1 k3) = flat k" "sector_map (bump 1 k3) = sector_map k"
      using k2(3,4) k3(3,4) o(5) by (simp_all add: flat_def bump_def)
    moreover have "dev_ok (fs_device (bump 1 k3))" using k2(5) k3(3) by (simp add: bump_def)
    ultimately show ?thesis using None fs_inv_unchanged(1) [OF inv] by auto
  next
    case (Some sec)
    then have fa: "file_at k im sec" using files by blast
    obtain f k2 where k2: "dir_lookup q m name e k1 = Inr (True, f, k2)" "opened_file k p q f (disk_inode k sec) k2" "flat k2 = flat k"
      "sector_map k2 = sector_map k1" "dev_ok (fs_device k2)"
      using look c files Some by auto
    let ?k3 = "k2\<lparr>open_inodes := f # open_inodes k, inode_heap := (inode_heap k)(f \<mapsto> disk_inode k sec), dir_heap := dir_heap k\<rparr>"
    have f: "p \<noteq> 0" "f \<noteq> 0" "f \<noteq> p" "inode_heap k f = None" "inode_heap k p = None" "dir_heap k q = None"
      "dir_heap k2 = (dir_heap k)(q \<mapsto> \<lparr>dir_inode = p, dir_pos = 0\<rparr>)" "open_inodes k2 = f # p # open_inodes k"
      "inode_heap k2 = (inode_heap k)(p \<mapsto> root_inode k, f \<mapsto> disk_inode k sec)" "file_heap k2 = file_heap k" "map_file k2 = map_file k"
      using k2(2) by (auto simp: opened_file_def opened_def)
    have "dir_close q k2 = Inr (k2\<lparr>open_inodes := remove1 p (open_inodes k2), inode_heap := (inode_heap k2)(p := None),
        dir_heap := (dir_heap k2)(q := None)\<rparr>)"
      using dir_close_last [of q k2 "\<lparr>dir_inode = p, dir_pos = 0\<rparr>" "root_inode k"] q f by (simp add: disk_inode_def)
    moreover have "(inode_heap k2)(p := None) = (inode_heap k)(f \<mapsto> disk_inode k sec)" "(dir_heap k2)(q := None) = dir_heap k"
      using f by (auto simp: fun_eq_iff)
    ultimately have cl: "dir_close q k2 = Inr ?k3" using f(3,8) by simp
    obtain b where b: "mallocs k2 = (\<lambda>n. mallocs k (n + b))" using k2(2) by (auto simp: opened_file_def)
    note fr = fresh_shift [OF w(11) b]
    let ?k4 = "put_file (mallocs k2 0) \<lparr>file_inode = f, file_pos = 0, file_deny = False\<rparr> (bump 1 ?k3)"
    have run: "filesys_open m name e k = Inr (mallocs k2 0, ?k4)"
      using o(1) q k2(1) cl f(2) fr(1) by (simp add: filesys_open_def file_open_def malloc_bump)
    have l4: "flat ?k4 = flat k" "sector_map ?k4 = sector_map k"
      using k2(3,4) o(5) by (simp_all add: flat_def bump_def put_file_def)
    have live: "live_inode ?k4 f (disk_inode k sec)"
      using k2(5) f(2) fr(1) fa same_inode_ok [of ?k4 k] l4(1)
      by (simp add: live_inode_def file_at_def stored_def no_fail_def) (simp add: put_file_def bump_def)
    have "fs_inv ?k4 im"
    proof (rule fs_inv_opens [OF inv _ _ _ _ l4])
      show "map_file ?k4 = map_file k" "file_heap k \<subseteq>\<^sub>m file_heap ?k4" "inode_heap k \<subseteq>\<^sub>m inode_heap ?k4" "dev_ok (fs_device ?k4)"
        using f fr(3) k2(5) by (auto simp: put_file_def bump_def map_le_def)
      show "closed 1 ?k4"
        using w(10) f(2,4) fa by (auto simp: closed_def put_file_def bump_def disk_inode_def file_at_def)
      obtain a b where ab: "f = mallocs k a" "a < b" "mallocs k2 = (\<lambda>n. mallocs k (n + b))"
        using k2(2) by (auto simp: opened_file_def)
      show "fresh ?k4"
        using w(11) ab f(10) by (auto simp: fresh_def put_file_def bump_def intro!: injI dest: injD)
    qed
    then show ?thesis
      using live run l4 fr(1,3) f Some by (auto simp: put_file_def bump_def)
  qed
qed

end
