(* ===== verification/Pintos_Filesys_Write.thy ===== *)
theory Pintos_Filesys_Write
  imports Pintos_Filesys_Names
begin

text \<open>
  Writing to a file that has a name: only its content changes, and the invariant of the file system is kept.
\<close>

section \<open>The device\<close>

text \<open>A change of the device that touches nothing off the data of one file.\<close>

lemma fs_inv_written:
  assumes inv: "fs_inv k im" and t: "fs_table k s = Some sec"
    and s: "same k k'" "length (flat k') = length (flat k)" "dev_ok (fs_device k')"
    and c: "\<And>x. inode_ok k x \<Longrightarrow> apart (disk_inode k sec) x \<Longrightarrow> content k' x = content k x"
  shows "fs_inv k' im" "fs_table k' = fs_table k" "\<And>s' sec'. fs_table k s' = Some sec' \<Longrightarrow> disk_inode k' sec' = disk_inode k sec'"
    "\<And>s' sec'. fs_table k s' = Some sec' \<Longrightarrow> s' \<noteq> s \<Longrightarrow> content k' (disk_inode k sec') = content k (disk_inode k sec')"
proof -
  let ?r = "root_inode k" and ?i = "disk_inode k sec"
  have wf: "fs_wf k im" and files: "\<And>s sec. fs_table k s = Some sec \<Longrightarrow> file_at k im sec"
    and dj: "\<And>s s' sec sec'. fs_table k s = Some sec \<Longrightarrow> fs_table k s' = Some sec' \<Longrightarrow> s \<noteq> s' \<Longrightarrow> disjoint k sec sec'"
    using inv unfolding fs_inv_def by blast+
  note w = fs_wfD [OF wf] and fa = files [OF t]
  have i: "stored k im ?i" "off_data 0 ?i" "off_data 1 ?i" "apart ?r ?i" "off_data (unat sec) ?i"
    using fa by (simp_all add: file_at_def)
  have L: "length (sectors (fs_device k')) = length (sectors (fs_device k))"
    using length_flat [OF w(12)] length_flat [OF s(3)] s(2) by simp
  have map: "sector_map k' = sector_map k" by (rule same_fields(5) [OF s(1)])
  have eq: "inode_ok k' x = inode_ok k x" "occupies k' x = occupies k x" "stored k' im x = stored k im x" for x
    using same_inode_ok [OF s(2)] by (simp_all add: occupies_def stored_def map)
  have unread: "disk_inode k' x = disk_inode k x" if "unat x < length (sectors (fs_device k))" "off_data (unat x) ?i" for x
  proof (rule disk_inode_keeps [OF w(12) s(3,2) that(1)])
    have "inode_ok k (sector_file x)" using that(1) length_flat [OF w(12)] by (simp add: inode_ok_def)
    then show "content k' (sector_file x) = content k (sector_file x)"
      by (rule c) (use off_data_apart [OF that(2)] apart_sym in blast)
  qed
  have root: "root_inode k' = ?r" by (rule unread) (use w(3) i(3) in simp_all)
  have cr: "content k' ?r = content k ?r" by (rule c) (use w(6) i(4) in \<open>simp_all add: stored_def apart_sym\<close>)
  then show tab: "fs_table k' = fs_table k" by (simp add: root)
  have "content k' im = content k im"
    by (rule c) (use w(1) i(1) in \<open>auto simp: map_ready_def live_inode_def stored_def apart_sym\<close>)
  then have "synced k' im" using w(14) by (simp add: synced_def map)
  moreover have "map_ready k' im" by (rule map_ready_same [OF w(1) s(1-3)])
  moreover have "disk_inode k' 0 = disk_inode k 0" by (rule unread) (use w(3) i(2) in auto)
  ultimately have "fs_wf k' im"
    using w(2-9,15-17) L remapped_closed [OF same_remapped [OF s(1)] w(10)] remapped_fresh [OF same_remapped [OF s(1)] w(11)]
    by (simp add: fs_wf_def root eq map cr)
  moreover show d: "disk_inode k' sec' = disk_inode k sec'" if "fs_table k s' = Some sec'" for s' sec'
  proof (rule unread)
    show "unat sec' < length (sectors (fs_device k))" using files [OF that] w(2) by (simp add: file_at_def)
    show "off_data (unat sec') ?i"
    proof (cases "s' = s")
      case True
      then show ?thesis using i(5) that t by simp
    next
      case False
      then show ?thesis using dj [OF t that] by (simp add: disjoint_def)
    qed
  qed
  moreover have "file_at k' im sec'" if "fs_table k s' = Some sec'" for s' sec'
    using files [OF that] d [OF that] by (simp add: file_at_def map root eq)
  moreover have "disjoint k' a b" if "fs_table k x = Some a" "fs_table k y = Some b" "x \<noteq> y" for x y a b
    using dj [OF that] d [OF that(1)] d [OF that(2)] by (simp add: disjoint_def)
  ultimately show "fs_inv k' im" unfolding fs_inv_def tab by blast
  show "content k' (disk_inode k sec') = content k (disk_inode k sec')" if "fs_table k s' = Some sec'" "s' \<noteq> s" for s' sec'
    by (rule c) (use files [OF that(1)] dj [OF t that(1)] that(2) in \<open>auto simp: file_at_def stored_def disjoint_def\<close>)
qed

section \<open>An open file\<close>

lemma fs_inv_pos:
  assumes inv: "fs_inv k im" and f: "file_heap k p = Some f"
  shows "fs_inv (put_file p (f\<lparr>file_pos := n\<rparr>) k) im" "fs_table (put_file p (f\<lparr>file_pos := n\<rparr>) k) = fs_table k"
proof -
  let ?k = "put_file p (f\<lparr>file_pos := n\<rparr>) k"
  have w: "map_ready k im" "closed 1 k" "fresh k" "dev_ok (fs_device k)" using inv fs_wfD(1,10-12) by (auto simp: fs_inv_def)
  have fl: "flat ?k = flat k" "sector_map ?k = sector_map k" "fs_device ?k = fs_device k" by (simp_all add: put_file_def flat_def)
  have li: "live_inode ?k q i = live_inode k q i" for q i
    by (simp add: put_file_def live_inode_def inode_ok_def no_fail_def flat_def)
  have "map_ready ?k im" using w(1) f unfolding map_ready_def li fl(2) by (auto simp: put_file_def)
  moreover have "closed 1 ?k" using w(2) by (simp add: closed_def put_file_def)
  moreover have "fresh ?k" using w(3) f by (auto simp: fresh_def put_file_def)
  ultimately show "fs_inv ?k im" "fs_table ?k = fs_table k"
    using fs_inv_device [OF inv, of ?k im] w(4) fl by simp_all
qed

lemma content_data: "inode_data i = inode_data j \<Longrightarrow> content k i = content k j"
  by (simp add: content_def data_at_def inode_length_def)

lemma file_write_named:
  assumes inv: "fs_inv k im" and t: "fs_table k s = Some sec" and p: "file_heap k p = Some f" "p \<noteq> 0" "live_inode k (file_inode f) i"
    and i: "inode_data i = inode_data (disk_inode k sec)" "deny_write_cnt i = 0"
    and pos: "0 \<le> file_pos f" "file_pos f \<le> inode_length i" "span i sz (file_pos f) \<le> length buf"
  defines "n \<equiv> span i sz (file_pos f)"
  shows "\<exists>k'. file_write p buf sz k = Inr (int n, k') \<and> fs_inv k' im \<and> fs_table k' = fs_table k \<and>
    content k' (disk_inode k' sec) = put_bytes (content k (disk_inode k sec)) (nat (file_pos f)) (take n buf) \<and>
    (\<forall>s' sec'. fs_table k s' = Some sec' \<and> s' \<noteq> s \<longrightarrow> content k' (disk_inode k' sec') = content k (disk_inode k sec')) \<and>
    k'\<lparr>fs_device := fs_device k, mallocs := mallocs k, file_heap := file_heap k\<rparr> = k \<and>
    file_heap k' = (file_heap k)(p \<mapsto> f\<lparr>file_pos := file_pos f + int n\<rparr>) \<and>
    (\<exists>j. mallocs k' = (\<lambda>x. mallocs k (x + j))) \<and> dev_ok (fs_device k')"
proof -
  have l: "dev_ok (fs_device k)" "inode_heap k (file_inode f) = Some i" "file_inode f \<noteq> 0" "inode_ok k i" "no_fail k"
    using p(3) by (auto simp: live_inode_def)
  obtain k1 where k1: "inode_write_at (file_inode f) buf sz (file_pos f) k = Inr (int n, k1)" "same k k1" "dev_ok (fs_device k1)"
    "length (flat k1) = length (flat k)" "content k1 i = put_bytes (content k i) (nat (file_pos f)) (take n buf)"
    "\<And>j. inode_ok k j \<Longrightarrow> apart i j \<Longrightarrow> content k1 j = content k j"
    using inode_write_at_writes [OF l i(2) pos] by (auto simp: n_def)
  have ap: "apart (disk_inode k sec) x = apart i x" for x using i(1) by (simp add: apart_def data_at_def inode_length_def)
  note wr = fs_inv_written [OF inv t k1(2,4,3) k1(6)]
  have w1: "fs_inv k1 im" "fs_table k1 = fs_table k" "\<And>s' sec'. fs_table k s' = Some sec' \<Longrightarrow> disk_inode k1 sec' = disk_inode k sec'"
    "\<And>s' sec'. fs_table k s' = Some sec' \<Longrightarrow> s' \<noteq> s \<Longrightarrow> content k1 (disk_inode k sec') = content k (disk_inode k sec')"
    using wr ap by simp_all
  let ?f = "f\<lparr>file_pos := file_pos f + int n\<rparr>" and ?k = "put_file p (f\<lparr>file_pos := file_pos f + int n\<rparr>) k1"
  have f1: "file_heap k1 p = Some f" using same_fields(3) [OF k1(2)] p(1) by simp
  have "nat (file_pos f) + n \<le> nat (inode_length i)" unfolding n_def by (rule span_le [OF pos(1,2)])
  then have "file_pos f + int n < 2 ^ 31" using inode_length_range(1) [of i] pos(1,2) by linarith
  then have run: "file_write p buf sz k = Inr (int n, ?k)"
    using p(1,2) k1(1) pos(1) by (simp add: file_write_def follow_def int32_def)
  have dev: "fs_device ?k = fs_device k1" by (simp add: put_file_def)
  then have same: "disk_inode ?k x = disk_inode k1 x" "content ?k y = content k1 y" for x y
    by (simp_all add: disk_inode_def content_def flat_def)
  have "content ?k (disk_inode ?k sec) = put_bytes (content k (disk_inode k sec)) (nat (file_pos f)) (take n buf)"
    using k1(5) content_data [OF i(1)] w1(3) [OF t] by (simp add: same)
  moreover have "content ?k (disk_inode ?k sec') = content k (disk_inode k sec')" if "fs_table k s' = Some sec' \<and> s' \<noteq> s" for s' sec'
    unfolding same using w1(3) w1(4) that by metis
  moreover have "?k\<lparr>fs_device := fs_device k, mallocs := mallocs k, file_heap := file_heap k\<rparr> = k"
    using k1(2) by (cases k; cases k1) (simp add: same_def put_file_def)
  moreover have "file_heap ?k = (file_heap k)(p \<mapsto> ?f)" using same_fields(3) [OF k1(2)] by (simp add: put_file_def)
  moreover have "\<exists>j. mallocs ?k = (\<lambda>x. mallocs k (x + j))" using k1(2) by (simp add: same_def put_file_def)
  moreover have "dev_ok (fs_device ?k)" unfolding dev by (rule k1(3))
  moreover have "fs_inv ?k im" "fs_table ?k = fs_table k"
    using fs_inv_pos [OF w1(1) f1, of "file_pos f + int n"] w1(2) by (simp_all only:)
  ultimately show ?thesis using run by blast
qed

section \<open>Closing it\<close>

text \<open>After the file was used, closing it leaves what was open before.\<close>

lemma close_opened:
  assumes inv: "fs_inv k im" and inv2: "fs_inv k2 im" and p: "p \<noteq> 0" "file_heap k p = None" and f: "f \<noteq> 0" "inode_heap k f = None"
    and h: "file_heap k2 = (file_heap k)(p \<mapsto> \<lparr>file_inode = f, file_pos = n, file_deny = False\<rparr>)"
      "inode_heap k2 = (inode_heap k)(f \<mapsto> i)" "open_inodes k2 = f # open_inodes k" "map_file k2 = map_file k"
    and i: "open_cnt i = 1" "\<not> removed i"
    and fl: "length (flat k2) = length (flat k)" "sector_map k2 = sector_map k"
  defines "k3 \<equiv> k2\<lparr>open_inodes := open_inodes k, inode_heap := inode_heap k, file_heap := file_heap k\<rparr>"
  shows "file_close p k2 = Inr k3" "fs_inv k3 im" "fs_table k3 = fs_table k2"
proof -
  have "(inode_heap k2)(f := None) = inode_heap k" "(file_heap k2)(p := None) = file_heap k"
    using h(1,2) p(2) f(2) by (auto simp: fun_eq_iff)
  moreover have "inode_close f k2 = Inr (k2\<lparr>open_inodes := remove1 f (open_inodes k2), inode_heap := (inode_heap k2)(f := None)\<rparr>)"
    by (rule inode_close_last [OF f(1), of _ i]) (use h(2) i in simp_all)
  ultimately show "file_close p k2 = Inr k3"
    using p(1) h(1,3) by (simp add: file_close_def file_allow_write_def follow_def k3_def)
  have w: "map_ready k im" "closed 1 k" "fresh k2" "dev_ok (fs_device k2)" using inv inv2 fs_wfD(1,10-12) by (auto simp: fs_inv_def)
  have fl3: "flat k3 = flat k2" "fs_device k3 = fs_device k2" "sector_map k3 = sector_map k2" by (simp_all add: k3_def flat_def)
  have nf: "no_fail k3" using w(3) by (simp add: fresh_def no_fail_def k3_def)
  have "map_ready k3 im"
    by (rule map_ready_more [OF w(1)]) (use h(4) fl fl3 w(1,4) nf in \<open>simp_all add: k3_def map_ready_def\<close>)
  moreover have "closed 1 k3" using w(2) by (simp add: closed_def k3_def)
  moreover have "fresh k3"
  proof -
    have "inode_heap k x = None" if "inode_heap k2 x = None" for x using that h(2) by (auto split: if_splits)
    moreover have "file_heap k x = None" if "file_heap k2 x = None" for x using that h(1) by (auto split: if_splits)
    ultimately show ?thesis using w(3) by (simp add: fresh_def k3_def)
  qed
  ultimately show "fs_inv k3 im" "fs_table k3 = fs_table k2"
    using fs_inv_device [OF inv2, of k3 im] w(4) fl3 by simp_all
qed

end
