(* ===== verification/Pintos_Process_Program.thy ===== *)
theory Pintos_Process_Program
  imports Pintos_Process_Image Pintos_Filesys_Write
begin

unbundle bit_operations_syntax

text \<open>
  \<open>load\<close> with the directory it creates and the file it opens and closes: the file system is as before,
  the other programs see what they saw, and the new one has its image.
\<close>

section \<open>The file\<close>

text \<open>What is open, the map and the device are as before; only how much was read and allocated is not.\<close>

definition fs_as_before :: "fs \<Rightarrow> fs \<Rightarrow> bool" where
  "fs_as_before k k' \<longleftrightarrow> open_inodes k' = open_inodes k \<and> inode_heap k' = inode_heap k \<and> file_heap k' = file_heap k \<and>
     dir_heap k' = dir_heap k \<and> sector_map k' = sector_map k \<and> map_file k' = map_file k \<and> flat k' = flat k"

lemma fs_as_before_refl [simp]: "fs_as_before k k"
  by (simp add: fs_as_before_def)

lemma fs_inv_moved:
  assumes inv: "fs_inv k im" and m: "moved p k k'" and f: "file_heap k p = Some f" and d: "dev_ok (fs_device k')"
  shows "fs_inv k' im"
proof -
  have m1: "same (k\<lparr>file_heap := file_heap k'\<rparr>) k'" "flat k' = flat k" "\<And>q. q \<noteq> p \<Longrightarrow> file_heap k' q = file_heap k q"
    using m by (auto simp: moved_def)
  obtain n where n: "file_heap k' p = Some (f\<lparr>file_pos := n\<rparr>)" using m f by (auto simp: moved_def)
  have "file_heap k' = (file_heap k)(p \<mapsto> f\<lparr>file_pos := n\<rparr>)" using n m1(3) by (auto simp: fun_eq_iff)
  then have e: "put_file p (f\<lparr>file_pos := n\<rparr>) k = k\<lparr>file_heap := file_heap k'\<rparr>" by (simp add: put_file_def)
  show ?thesis
    by (rule fs_inv_unchanged(1) [OF fs_inv_pos(1) [OF inv f, where n = n], unfolded e, OF same_remapped [OF m1(1)] _ _ d])
      (use m1(2) same_fields(5) [OF m1(1)] in \<open>simp_all add: flat_def\<close>)
qed

text \<open>A file that was opened, and then only read, is closed.\<close>

lemma opened_then_closed:
  assumes inv: "fs_inv k im" and inv1: "fs_inv k1 im" and p: "file \<noteq> 0" "file_heap k file = None" and f: "f \<noteq> 0" "inode_heap k f = None"
    and o: "file_heap k1 = (file_heap k)(file \<mapsto> \<lparr>file_inode = f, file_pos = 0, file_deny = False\<rparr>)"
      "inode_heap k1 = (inode_heap k)(f \<mapsto> disk_inode k sec)" "open_inodes k1 = f # open_inodes k" "dir_heap k1 = dir_heap k"
      "map_file k1 = map_file k" "flat k1 = flat k" "sector_map k1 = sector_map k"
    and m: "moved file k1 k2" "dev_ok (fs_device k2)"
  shows "\<exists>k3. file_close file k2 = Inr k3 \<and> fs_as_before k k3 \<and> fs_inv k3 im"
proof -
  have f1: "file_heap k1 file = Some \<lparr>file_inode = f, file_pos = 0, file_deny = False\<rparr>" using o(1) by simp
  have inv2: "fs_inv k2 im" by (rule fs_inv_moved [OF inv1 m(1) f1 m(2)])
  have m1: "same (k1\<lparr>file_heap := file_heap k2\<rparr>) k2" "flat k2 = flat k1" "\<And>q. q \<noteq> file \<Longrightarrow> file_heap k2 q = file_heap k1 q"
    using m(1) by (auto simp: moved_def)
  obtain n where n: "file_heap k2 file = Some \<lparr>file_inode = f, file_pos = n, file_deny = False\<rparr>"
    using m(1) f1 by (fastforce simp: moved_def)
  note s = same_fields [OF m1(1), simplified]
  have "file_heap k2 = (file_heap k)(file \<mapsto> \<lparr>file_inode = f, file_pos = n, file_deny = False\<rparr>)"
    using m1(3) n o(1) by (auto simp: fun_eq_iff)
  note c = close_opened [OF inv inv2 p f this, of "disk_inode k sec"]
  have "fs_as_before k (k2\<lparr>open_inodes := open_inodes k, inode_heap := inode_heap k, file_heap := file_heap k\<rparr>)"
    using s m1(2) o(4-7) by (simp add: fs_as_before_def flat_def)
  then show ?thesis using c(1,2) s o m1(2) by (simp add: disk_inode_def)
qed

section \<open>The address space\<close>

text \<open>\<open>undisturbed D v v'\<close>: the frames in use have what they had, and the directories of \<open>D\<close> translate as they did.\<close>

definition undisturbed :: "word_t set \<Rightarrow> vm \<Rightarrow> vm \<Rightarrow> bool" where
  "undisturbed D v v' \<longleftrightarrow>
     (\<forall>q. upage_used (palloc v) q \<longrightarrow> upage_used (palloc v') q \<and> (\<forall>j < 1024. tab (pmem (palloc v')) q j = tab (pmem (palloc v)) q j)) \<and>
     (\<forall>d \<in> D. \<forall>va. translate (pmem (palloc v')) d va = translate (pmem (palloc v)) d va)"

lemma undisturbed_refl [simp]: "undisturbed D v v"
  by (simp add: undisturbed_def)

lemma undisturbed_kept: "undisturbed D v v1 \<Longrightarrow> palloc v2 = palloc v1 \<Longrightarrow> kept (insert d D) d v2 v3 \<Longrightarrow> d \<notin> D \<Longrightarrow> undisturbed D v v3"
  by (simp add: undisturbed_def kept_def)

lemma undisturbed_view:
  assumes "own_space v D d" "undisturbed D v v'" "is_user_vaddr va"
  shows "user_view (pmem (palloc v')) d va = user_view (pmem (palloc v)) d va"
  by (rule frames_view [OF assms(1,3)]) (use assms(2) own_spaceD(2) [OF assms(1)] in \<open>simp_all add: undisturbed_def\<close>)

text \<open>The user pool is where page tables can point.\<close>

definition user_pool_ok :: "vm \<Rightarrow> bool" where
  "user_pool_ok v \<longleftrightarrow> PHYS_BASE \<le> base (user_pool (palloc v)) \<and>
     (\<forall>j < bit_cnt (used_map (user_pool (palloc v))). drop_bit 12 (page_at (user_pool (palloc v)) j - PHYS_BASE) < ram_pages v)"

lemma create_space:
  assumes inv: "vm_inv v D" and ok: "user_pool_ok v"
  shows "\<exists>pd v'. pagedir_create v = Inr (pd, v') \<and>
    (if pd = 0 then v' = v \<and> free_cnt (palloc v) = 0
     else pd \<notin> D \<and> own_space v' (insert pd D) pd \<and> (\<forall>va. is_user_vaddr va \<longrightarrow> translate (pmem (palloc v')) pd va = None) \<and>
       undisturbed D v v' \<and> free_cnt (palloc v) = Suc (free_cnt (palloc v')) \<and> free_user_cnt (palloc v') = free_user_cnt (palloc v))"
proof -
  obtain pd v' where c: "pagedir_create v = Inr (pd, v')"
    and r: "if pd = 0 then v' = v \<and> False \<notin> set (bmap (used_map (kernel_pool (palloc v))))
     else pd \<notin> D \<and> vm_inv v' (insert pd D) \<and> v'\<lparr>palloc := palloc v\<rparr> = v \<and> user_pool (palloc v') = user_pool (palloc v) \<and>
       free_cnt (palloc v) = Suc (free_cnt (palloc v')) \<and>
       (\<forall>p. kpage_used (palloc v') p \<longleftrightarrow> kpage_used (palloc v) p \<or> p = pd) \<and>
       (\<forall>q j. pg_ofs q = 0 \<and> q \<noteq> pd \<and> j < 1024 \<longrightarrow> tab (pmem (palloc v')) q j = tab (pmem (palloc v)) q j) \<and>
       (\<forall>va. translate (pmem (palloc v')) pd va =
          (if is_user_vaddr va then None else translate (pmem (palloc v)) (init_page_dir v) va)) \<and>
       (\<forall>d \<in> D. \<forall>va. translate (pmem (palloc v')) d va = translate (pmem (palloc v)) d va)"
    using pagedir_create_makes [OF inv] by blast
  show ?thesis
  proof (cases "pd = 0")
    case True
    then show ?thesis using c r none_free(1) by auto
  next
    case False
    then have n: "pd \<notin> D" "vm_inv v' (insert pd D)" "v'\<lparr>palloc := palloc v\<rparr> = v" "user_pool (palloc v') = user_pool (palloc v)"
      "free_cnt (palloc v) = Suc (free_cnt (palloc v'))" "kpage_used (palloc v') pd"
      "\<And>q j. pg_ofs q = 0 \<Longrightarrow> q \<noteq> pd \<Longrightarrow> j < 1024 \<Longrightarrow> tab (pmem (palloc v')) q j = tab (pmem (palloc v)) q j"
      "\<And>va. is_user_vaddr va \<Longrightarrow> translate (pmem (palloc v')) pd va = None"
      "\<And>d va. d \<in> D \<Longrightarrow> translate (pmem (palloc v')) d va = translate (pmem (palloc v)) d va"
      using r by auto
    have f: "init_page_dir v' = init_page_dir v" "ram_pages v' = ram_pages v"
      using arg_cong [OF n(3), of init_page_dir] arg_cong [OF n(3), of ram_pages] by simp_all
    have u: "upage_used (palloc v') q \<longleftrightarrow> upage_used (palloc v) q" for q by (simp add: upage_used_def n(4))
    have pw: "pools_wf (palloc v)" "pools_wf (palloc v')" by (rule vm_invD(1) [OF inv], rule vm_invD(1) [OF n(2)])
    have b: "PHYS_BASE \<le> base (user_pool (palloc v))" using ok by (simp add: user_pool_ok_def)
    have "tab (pmem (palloc v')) q j = tab (pmem (palloc v)) q j" if "upage_used (palloc v) q" "j < 1024" for q j
      using n(7) [OF upage_usedD(1) [OF pw(1) b that(1)] _ that(2)] upage_not_kernel [OF pw(2)] n(6) that(1) u by metis
    then have "undisturbed D v v'" using n(9) u by (simp add: undisturbed_def)
    moreover have "pd \<noteq> init_page_dir v" using n(1) vm_invD(3) [OF inv] by auto
    then have "own_space v' (insert pd D) pd"
      using n(2) ok unfolding own_space_def Let_def by (auto simp: f n(4,8) user_pool_ok_def)
    moreover have "free_user_cnt (palloc v') = free_user_cnt (palloc v)" by (simp add: free_user_cnt_def n(4))
    ultimately show ?thesis using c False n by (intro exI [of _ pd] exI [of _ v']) simp
  qed
qed

text \<open>Activating a directory.\<close>

lemma own_space_fields [simp]: "own_space (v\<lparr>cr3 := c, tlb_flushes := t\<rparr>) D d = own_space v D d"
  by (simp add: own_space_def vm_inv_def)

lemma process_activate_ok:
  assumes "own_space (vmem p) D (pagedir p)" "the_tss p = Some t"
  shows "process_activate p = Inr (p\<lparr>vmem := (vmem p)\<lparr>cr3 := pagedir p - PHYS_BASE, tlb_flushes := tlb_flushes (vmem p) + 1\<rparr>,
    the_tss := Some (t\<lparr>esp0 := cur_thread p + of_nat PGSIZE\<rparr>)\<rparr>)"
proof -
  note o = own_spaceD(1,2) [OF assms(1)]
  have "PHYS_BASE \<le> pagedir p" "pagedir p \<noteq> 0"
    using kpage_usedD(2,3) [OF vm_invD(1,2) [OF o(1)] vm_invD(4) [OF o]] by simp_all
  then show ?thesis using assms(2) by (simp add: process_activate_def to_vm_def pagedir_activate_def vtop_kernel tss_update_def)
qed

section \<open>Loading a program\<close>

text \<open>What is there before: directories \<open>D\<close>, the file system with the name, and a task-state segment.\<close>

definition can_load :: "proc \<Rightarrow> word_t set \<Rightarrow> inode \<Rightarrow> byte_t list \<Rightarrow> word_t \<Rightarrow> bool" where
  "can_load p D im s sec \<longleftrightarrow> vm_inv (vmem p) D \<and> user_pool_ok (vmem p) \<and> the_tss p \<noteq> None \<and> fs_inv (filesys p) im \<and>
     fs_table (filesys p) s = Some sec \<and> closed sec (filesys p)"

text \<open>The program \<open>bs\<close> is in the space of its own and is what the processor uses.\<close>

definition started :: "proc \<Rightarrow> word_t set \<Rightarrow> byte_t list \<Rightarrow> bool" where
  "started p D bs \<longleftrightarrow> pagedir p \<notin> D \<and> own_space (vmem p) (insert (pagedir p) D) (pagedir p) \<and>
     cr3 (vmem p) + PHYS_BASE = pagedir p \<and> map_option esp0 (the_tss p) = Some (cur_thread p + of_nat PGSIZE) \<and>
     (\<forall>va. is_user_vaddr va \<longrightarrow> user_view (pmem (palloc (vmem p))) (pagedir p) va = program_view bs va)"

lemma load_program_loads_aux:
  assumes can: "can_load p D im s sec" and nm: "cstr m name s"
    and junk: "length junk_entry = 20" "length junk_ehdr = ehdr_size" "length junk_phdr = phdr_size"
    and ex: "executable bs" "content (filesys p) (disk_inode (filesys p) sec) = bs"
  shows "\<exists>r p'. load_program m name junk_entry junk_ehdr junk_phdr p = Inr (r, p') \<and> fs_as_before (filesys p) (filesys p') \<and>
    fs_inv (filesys p') im \<and> undisturbed D (vmem p) (vmem p') \<and> cur_thread p' = cur_thread p \<and>
    (pagedir p' = 0 \<or> pagedir p' \<notin> D \<and> own_space (vmem p') (insert (pagedir p') D) (pagedir p')) \<and>
    (if r = None then free_user_cnt (palloc (vmem p)) < frames_needed bs \<or> free_cnt (palloc (vmem p)) \<le> frames_needed bs
     else r = Some (e_entry (ehdr_of bs), PHYS_BASE) \<and> started p' D bs)"
proof -
  let ?k = "filesys p" and ?v = "vmem p"
  have c: "vm_inv ?v D" "user_pool_ok ?v" "fs_inv ?k im" "fs_table ?k s = Some sec" "closed sec ?k"
    using can by (simp_all add: can_load_def)
  obtain t where t: "the_tss p = Some t" using can by (auto simp: can_load_def)
  obtain pd v1 where pd: "pagedir_create ?v = Inr (pd, v1)"
    and r1: "if pd = 0 then v1 = ?v \<and> free_cnt (palloc ?v) = 0
     else pd \<notin> D \<and> own_space v1 (insert pd D) pd \<and> (\<forall>va. is_user_vaddr va \<longrightarrow> translate (pmem (palloc v1)) pd va = None) \<and>
       undisturbed D ?v v1 \<and> free_cnt (palloc ?v) = Suc (free_cnt (palloc v1)) \<and> free_user_cnt (palloc v1) = free_user_cnt (palloc ?v)"
    using create_space [OF c(1,2)] by blast
  show ?thesis
  proof (cases "pd = 0")
    case True
    then have "load_program m name junk_entry junk_ehdr junk_phdr p = Inr (None, p\<lparr>vmem := ?v, pagedir := 0, filesys := ?k\<rparr>)"
      using pd r1 by (simp add: load_program_def on_vm_def to_fs_def file_close_def)
    then show ?thesis using True r1 c(3)
      by (intro exI [of _ None] exI [of _ "p\<lparr>vmem := ?v, pagedir := 0, filesys := ?k\<rparr>"]) simp
  next
    case False
    then have n: "pd \<notin> D" "own_space v1 (insert pd D) pd" "\<And>va. is_user_vaddr va \<Longrightarrow> translate (pmem (palloc v1)) pd va = None"
      "undisturbed D ?v v1" "free_cnt (palloc ?v) = Suc (free_cnt (palloc v1))" "free_user_cnt (palloc v1) = free_user_cnt (palloc ?v)"
      using r1 by auto
    define v2 where "v2 = v1\<lparr>cr3 := pd - PHYS_BASE, tlb_flushes := tlb_flushes v1 + 1\<rparr>"
    define p2 where "p2 = p\<lparr>vmem := v2, pagedir := pd, the_tss := Some (t\<lparr>esp0 := cur_thread p + of_nat PGSIZE\<rparr>)\<rparr>"
    have act: "process_activate (p\<lparr>vmem := v1, pagedir := pd\<rparr>) = Inr p2"
      using process_activate_ok [of "p\<lparr>vmem := v1, pagedir := pd\<rparr>" "insert pd D" t] n(2) t by (simp add: p2_def v2_def)
    have v2: "own_space v2 (insert pd D) pd" "palloc v2 = palloc v1" using n(2) by (simp_all add: v2_def)
    obtain fp f k1 where o: "filesys_open m name junk_entry ?k = Inr (fp, k1)" "fp \<noteq> 0" "f \<noteq> 0" "file_heap ?k fp = None" "inode_heap ?k f = None"
      "file_heap k1 = (file_heap ?k)(fp \<mapsto> \<lparr>file_inode = f, file_pos = 0, file_deny = False\<rparr>)"
      "inode_heap k1 = (inode_heap ?k)(f \<mapsto> disk_inode ?k sec)" "open_inodes k1 = f # open_inodes ?k" "dir_heap k1 = dir_heap ?k"
      "map_file k1 = map_file ?k" "flat k1 = flat ?k" "sector_map k1 = sector_map ?k" "live_inode k1 f (disk_inode ?k sec)" "fs_inv k1 im"
      using filesys_open_opens [OF c(3) nm junk(1)] c(4,5) by fastforce
    let ?p3 = "p2\<lparr>filesys := k1\<rparr>"
    have "content k1 (disk_inode ?k sec) = bs" using ex(2) flat_content [OF o(11)] by simp
    then have rd: "reading (filesys ?p3) fp bs 0" using o(2,6,13) by (auto simp: reading_def)
    have none: "translate (pmem (palloc (vmem ?p3))) (pagedir ?p3) va = None" if "is_user_vaddr va" for va
      using v2(2) n(3) [OF that] by (simp add: p2_def)
    have own: "own_space (vmem ?p3) (insert pd D) (pagedir ?p3)" using v2(1) by (simp add: p2_def)
    obtain r k2 v3 where l: "load_file fp junk_ehdr junk_phdr ?p3 = Inr (r, p2\<lparr>filesys := k2, vmem := v3\<rparr>)" "own_space v3 (insert pd D) pd"
      "kept (insert pd D) pd v2 v3" "moved fp k1 k2" and rd2: "\<exists>pos. reading k2 fp bs pos"
      and res: "if r = None then free_user_cnt (palloc v2) < frames_needed bs \<or> free_cnt (palloc v2) < frames_needed bs
       else r = Some (e_entry (ehdr_of bs), PHYS_BASE) \<and> (\<forall>va. is_user_vaddr va \<longrightarrow> user_view (pmem (palloc v3)) pd va = program_view bs va)"
      using load_file_loads [OF own rd junk(2,3) ex(1) none] by (auto simp: p2_def cong: if_cong)
    have dev: "dev_ok (fs_device k2)" using rd2 by (auto simp: reading_def live_inode_def)
    obtain k3 where k3: "file_close fp k2 = Inr k3" "fs_as_before ?k k3" "fs_inv k3 im"
      using opened_then_closed [OF c(3) o(14,2,4,3,5-12) l(4) dev] by blast
    define p4 where "p4 = p2\<lparr>filesys := k3, vmem := v3\<rparr>"
    have run: "load_program m name junk_entry junk_ehdr junk_phdr p = Inr (r, p4)"
      using pd False act o(1,2) l(1) k3(1)
      by (simp add: load_program_def on_vm_def on_fs_def to_fs_def p2_def p4_def)
    have "undisturbed D ?v v3" by (rule undisturbed_kept [OF n(4) v2(2) l(3) n(1)])
    moreover have "started p4 D bs" if "r \<noteq> None"
      using that res n(1) l(2) kept_fields(3) [OF l(3)] by (simp add: started_def p4_def p2_def v2_def)
    ultimately show ?thesis
      using run k3(2,3) n(1,5,6) l(2) res v2(2) by (intro exI [of _ r] exI [of _ p4]) (auto simp: p4_def p2_def split: if_splits)
  qed
qed

end
