(* ===== verification/Pintos_Process_Truncated.thy ===== *)
theory Pintos_Process_Truncated
  imports Pintos_Process_Load
begin

unbundle bit_operations_syntax

text \<open>
  Executables that end before their segments do: \<open>load_segment\<close> gives back a page that it has mapped, and
  destroying the directory gives it back again.
\<close>

section \<open>Giving back a page that may be free\<close>

lemma free_page_at:
  assumes wf: "pools_wf ps" and i: "i < bit_cnt (used_map (pool_of fl ps))" "\<not> bmap (used_map (pool_of fl ps)) ! i"
  shows "palloc_free_page (page_at (pool_of fl ps) i) ps = Inl AssertFailed"
proof -
  let ?p = "pool_of fl ps"
  have pw: "pool_wf ?p" "bitmap_wf (used_map ?p)" using pool_of_wf [OF wf] by (simp_all add: pool_wf_def)
  have "bitmap_all (used_map ?p) i 1 = Inr False"
    using bitmap_all_bmap [OF pw(2), of i 1] i by (simp add: free_at_def)
  then show ?thesis
    using page_at [OF pw(1) i(1)] which_pool [OF wf i(1)] by (simp add: palloc_free_page_def palloc_free_multiple_def Let_def)
qed

text \<open>A page of the user's pool, in use or not.\<close>

definition user_page_of :: "vm \<Rightarrow> word_t \<Rightarrow> bool" where
  "user_page_of v q \<longleftrightarrow> (\<exists>j < bit_cnt (used_map (user_pool (palloc v))). q = page_at (user_pool (palloc v)) j)"

lemma vm_free_user:
  assumes wf: "pools_wf (palloc v)" and q: "user_page_of v q"
  shows "if upage_used (palloc v) q then \<exists>v'. vm_free_page q v = Inr v' \<and> vm_freed v {q} v' else vm_free_page q v = Inl AssertFailed"
proof (cases "upage_used (palloc v) q")
  case True
  then show ?thesis using vm_free [OF wf] by simp
next
  case False
  obtain j where j: "j < bit_cnt (used_map (user_pool (palloc v)))" "q = page_at (user_pool (palloc v)) j"
    using q by (auto simp: user_page_of_def)
  have p: "pool_of PAL_USER (palloc v) = user_pool (palloc v)" by (simp add: pool_of_def PAL_USER_def)
  have "\<not> bmap (used_map (user_pool (palloc v))) ! j" using False j by (auto simp: upage_used_def)
  then show ?thesis using free_page_at [OF wf, of j PAL_USER] j False unfolding p by (simp add: vm_free_page_def)
qed

lemma user_page_freed: "vm_freed v S v' \<Longrightarrow> user_page_of v' q = user_page_of v q"
  by (auto simp: vm_freed_def freed_def user_page_of_def page_at_def)

section \<open>Destroying a directory\<close>

text \<open>Either all frames of a table were in use and are given back, or the kernel panics.\<close>

lemma free_frames_or_panics:
  assumes "pools_wf (palloc v)" "n + k = 1024" "pg_ofs pt = 0"
    and "\<And>q. q \<in> frames (pmem (palloc v)) pt k \<Longrightarrow> user_page_of v q \<and> PHYS_BASE \<le> q \<and> q \<noteq> pt"
  shows "free_frames n (pt + of_nat (4 * k)) v = Inl AssertFailed \<or>
    (\<exists>v'. free_frames n (pt + of_nat (4 * k)) v = Inr v' \<and> vm_freed v (frames (pmem (palloc v)) pt k) v' \<and>
       (\<forall>q \<in> frames (pmem (palloc v)) pt k. upage_used (palloc v) q))"
  using assms
proof (induction n arbitrary: k v)
  case 0
  then have "frames (pmem (palloc v)) pt k = {}" by (auto simp: frames_def)
  then show ?case using 0 freed_refl by (simp add: vm_freed_def)
next
  case (Suc n)
  let ?m = "pmem (palloc v)" and ?q = "entry_page (tab (pmem (palloc v)) pt k)"
  have k: "k < 1024" using Suc.prems(2) by simp
  have wd: "vm_word v (pt + of_nat (4 * k)) = tab ?m pt k" by (simp add: tab_def)
  have nx: "pt + of_nat (4 * k) + 4 = pt + of_nat (4 * Suc k)" by (simp add: algebra_simps)
  have fr: "frames ?m pt k = (if tab ?m pt k AND PTE_P \<noteq> 0 then {?q} else {}) \<union> frames ?m pt (Suc k)" by (rule frames_step [OF k])
  have step: "free_frames (Suc n) (pt + of_nat (4 * k)) v = bindE (if tab ?m pt k AND PTE_P \<noteq> 0 then vm_free_page ?q v else Inr v)
      (free_frames n (pt + of_nat (4 * Suc k)))" if "tab ?m pt k AND PTE_P \<noteq> 0 \<Longrightarrow> PHYS_BASE \<le> ?q"
    using that ptov_address unfolding free_frames.simps nx wd by (simp add: pte_get_page_def)
  have rest: "free_frames n (pt + of_nat (4 * Suc k)) v1 = Inl AssertFailed \<or>
      (\<exists>v'. free_frames n (pt + of_nat (4 * Suc k)) v1 = Inr v' \<and> vm_freed v1 (frames ?m pt (Suc k)) v' \<and>
         (\<forall>q \<in> frames ?m pt (Suc k). upage_used (palloc v1) q))"
    if f: "vm_freed v S v1" "pt \<notin> S" for S v1
  proof -
    have t: "tab (pmem (palloc v1)) pt j = tab ?m pt j" if "j < 1024" for j by (rule vm_freed_tab [OF f(1) Suc.prems(3) f(2) that])
    have f1: "frames (pmem (palloc v1)) pt (Suc k) = frames ?m pt (Suc k)" by (intro frames_cong t)
    show ?thesis
      using Suc.IH [of v1 "Suc k"] f(1) Suc.prems(2-4) fr unfolding f1 by (simp add: vm_freed_def freed_def user_page_freed [OF f(1)])
  qed
  show ?case
  proof (cases "tab ?m pt k AND PTE_P = 0")
    case True
    have "vm_freed v {} v" using freed_refl [OF Suc.prems(1)] by (simp add: vm_freed_def)
    then show ?thesis using rest [of "{}" v] step True fr by simp
  next
    case False
    then have q: "user_page_of v ?q" "PHYS_BASE \<le> ?q" "?q \<noteq> pt" using Suc.prems(4) fr by auto
    show ?thesis
    proof (cases "upage_used (palloc v) ?q")
      case True
      then obtain v1 where v1: "vm_free_page ?q v = Inr v1" "vm_freed v {?q} v1" using vm_free_user [OF Suc.prems(1) q(1)] by auto
      have less: "upage_used (palloc v) x" if "upage_used (palloc v1) x" for x using v1(2) that by (simp add: vm_freed_def freed_def)
      show ?thesis
        using rest [OF v1(2)] step [OF q(2)] False v1(1) q(3) fr True less vm_freed_trans [OF v1(2)] by auto
    next
      case unused: False
      then show ?thesis using vm_free_user [OF Suc.prems(1) q(1)] step [OF q(2)] False by simp
    qed
  qed
qed

text \<open>The tables of a directory from \<open>k\<close> on are pages of the kernel, and their frames pages of the user's pool.\<close>

definition tables_ok :: "vm \<Rightarrow> word_t \<Rightarrow> nat \<Rightarrow> bool" where
  "tables_ok v d k \<longleftrightarrow> (let m = pmem (palloc v) in pools_wf (palloc v) \<and> pg_ofs d = 0 \<and> kpage_used (palloc v) d \<and>
     (\<forall>i. k \<le> i \<and> i < 768 \<and> tab m d i \<noteq> 0 \<longrightarrow> tab m d i AND PTE_P \<noteq> 0 \<and> kpage_used (palloc v) (table m d i) \<and>
        pg_ofs (table m d i) = 0 \<and> PHYS_BASE \<le> table m d i \<and> table m d i \<noteq> d \<and>
        (\<forall>q \<in> frames m (table m d i) 0. user_page_of v q \<and> PHYS_BASE \<le> q)) \<and>
     (\<forall>i j. k \<le> i \<and> i < j \<and> j < 768 \<and> tab m d i \<noteq> 0 \<and> tab m d j \<noteq> 0 \<longrightarrow> table m d i \<noteq> table m d j))"

lemma tables_okD:
  assumes "tables_ok v d k"
  defines "m \<equiv> pmem (palloc v)"
  shows "pools_wf (palloc v)" "pg_ofs d = 0" "kpage_used (palloc v) d"
    "\<And>i. k \<le> i \<Longrightarrow> i < 768 \<Longrightarrow> tab m d i \<noteq> 0 \<Longrightarrow> tab m d i AND PTE_P \<noteq> 0 \<and> kpage_used (palloc v) (table m d i) \<and>
       pg_ofs (table m d i) = 0 \<and> PHYS_BASE \<le> table m d i \<and> table m d i \<noteq> d"
    "\<And>i q. k \<le> i \<Longrightarrow> i < 768 \<Longrightarrow> tab m d i \<noteq> 0 \<Longrightarrow> q \<in> frames m (table m d i) 0 \<Longrightarrow> user_page_of v q \<and> PHYS_BASE \<le> q"
    "\<And>i j. k \<le> i \<Longrightarrow> i < j \<Longrightarrow> j < 768 \<Longrightarrow> tab m d i \<noteq> 0 \<Longrightarrow> tab m d j \<noteq> 0 \<Longrightarrow> table m d i \<noteq> table m d j"
  using assms(1) unfolding tables_ok_def Let_def m_def by blast+

lemma user_not_kernel:
  assumes "pools_wf (palloc v)" "user_page_of v q"
  shows "\<not> kpage_used (palloc v) q"
  using pool_pages_apart [OF assms(1)] assms(2) unfolding kpage_used_def user_page_of_def by metis

lemma tables_ok_step:
  assumes t: "tables_ok v d k" and f: "vm_freed v S v'"
    and S: "d \<notin> S" "\<And>j. k < j \<Longrightarrow> j < 768 \<Longrightarrow> tab (pmem (palloc v)) d j \<noteq> 0 \<Longrightarrow> table (pmem (palloc v)) d j \<notin> S"
  shows "tables_ok v' d (Suc k)" "\<And>j. j < 1024 \<Longrightarrow> tab (pmem (palloc v')) d j = tab (pmem (palloc v)) d j"
    "\<And>j. k < j \<Longrightarrow> j < 768 \<Longrightarrow> tab (pmem (palloc v)) d j \<noteq> 0 \<Longrightarrow>
       frames (pmem (palloc v')) (table (pmem (palloc v)) d j) 0 = frames (pmem (palloc v)) (table (pmem (palloc v)) d j) 0"
proof -
  note o = tables_okD [OF t]
  show dt: "tab (pmem (palloc v')) d j = tab (pmem (palloc v)) d j" if "j < 1024" for j
    by (rule vm_freed_tab [OF f o(2) S(1) that])
  show fr: "frames (pmem (palloc v')) (table (pmem (palloc v)) d j) 0 = frames (pmem (palloc v)) (table (pmem (palloc v)) d j) 0"
    if "k < j" "j < 768" "tab (pmem (palloc v)) d j \<noteq> 0" for j
    by (intro frames_cong vm_freed_tab [OF f _ S(2) [OF that]]) (use o(4) [of j] that in auto)
  have u: "kpage_used (palloc v') p \<longleftrightarrow> kpage_used (palloc v) p \<and> p \<notin> S" for p using f by (simp add: vm_freed_def freed_def)
  have pw: "pools_wf (palloc v')" using f by (simp add: vm_freed_def freed_def)
  show "tables_ok v' d (Suc k)"
    unfolding tables_ok_def Let_def
  proof (intro conjI allI impI ballI pw o(2))
    show "kpage_used (palloc v') d" using u o(3) S(1) by simp
    fix i
    assume i: "Suc k \<le> i \<and> i < 768 \<and> tab (pmem (palloc v')) d i \<noteq> 0"
    then have i': "k \<le> i" "k < i" "i < 768" "i < 1024" "tab (pmem (palloc v)) d i \<noteq> 0" using dt [of i] by auto
    note e = dt [OF i'(4)] and a = o(4) [OF i'(1,3,5)]
    show "tab (pmem (palloc v')) d i AND PTE_P \<noteq> 0" "kpage_used (palloc v') (table (pmem (palloc v')) d i)"
      "pg_ofs (table (pmem (palloc v')) d i) = 0" "PHYS_BASE \<le> table (pmem (palloc v')) d i" "table (pmem (palloc v')) d i \<noteq> d"
      using a u S(2) [OF i'(2,3,5)] by (simp_all add: e)
    show "user_page_of v' q" "PHYS_BASE \<le> q" if "q \<in> frames (pmem (palloc v')) (table (pmem (palloc v')) d i) 0" for q
      using o(5) [OF i'(1,3,5), of q] that fr [OF i'(2,3,5)] user_page_freed [OF f] by (simp_all add: e)
  next
    fix i j
    assume "Suc k \<le> i \<and> i < j \<and> j < 768 \<and> tab (pmem (palloc v')) d i \<noteq> 0 \<and> tab (pmem (palloc v')) d j \<noteq> 0"
    then show "table (pmem (palloc v')) d i \<noteq> table (pmem (palloc v')) d j"
      using o(6) [of i j] dt [of i] dt [of j] by simp
  qed
qed

definition frames_used :: "vm \<Rightarrow> word_t \<Rightarrow> nat \<Rightarrow> bool" where
  "frames_used v d k \<longleftrightarrow> (\<forall>i q. k \<le> i \<and> i < 768 \<and> tab (pmem (palloc v)) d i \<noteq> 0 \<and>
     q \<in> frames (pmem (palloc v)) (table (pmem (palloc v)) d i) 0 \<longrightarrow> upage_used (palloc v) q)"

lemma free_tables_or_panics:
  assumes "tables_ok v d k" "n + k = 768"
  shows "free_tables n (d + of_nat (4 * k)) v = Inl AssertFailed \<or>
    (\<exists>v'. free_tables n (d + of_nat (4 * k)) v = Inr v' \<and> frames_used v d k)"
  using assms
proof (induction n arbitrary: k v)
  case 0
  then show ?case by (auto simp: frames_used_def)
next
  case (Suc n)
  let ?m = "pmem (palloc v)" and ?pt = "table (pmem (palloc v)) d k"
  note o = tables_okD [OF Suc.prems(1)]
  have k: "k \<le> k" "k < 768" "n + Suc k = 768" using Suc.prems(2) by simp_all
  have wd: "vm_word v (d + of_nat (4 * k)) = tab ?m d k" by (simp add: tab_def)
  have nx: "d + of_nat (4 * k) + 4 = d + of_nat (4 * Suc k)" by (simp add: algebra_simps)
  show ?case
  proof (cases "tab ?m d k = 0")
    case True
    have f: "vm_freed v {} v" using freed_refl [OF o(1)] by (simp add: vm_freed_def)
    have run: "free_tables (Suc n) (d + of_nat (4 * k)) v = free_tables n (d + of_nat (4 * Suc k)) v"
      using True unfolding free_tables.simps nx wd by simp
    have "frames_used v d k" if "frames_used v d (Suc k)"
      unfolding frames_used_def
    proof (intro allI impI)
      fix i q
      assume i: "k \<le> i \<and> i < 768 \<and> tab ?m d i \<noteq> 0 \<and> q \<in> frames ?m (table ?m d i) 0"
      then have "Suc k \<le> i" using True by (cases "i = k") auto
      then show "upage_used (palloc v) q" using that i unfolding frames_used_def by blast
    qed
    then show ?thesis
      unfolding run using Suc.IH [OF tables_ok_step(1) [OF Suc.prems(1) f] k(3)] by auto
  next
    case False
    note a = o(4) [OF k(1,2) False]
    have uk: "\<not> kpage_used (palloc v) q" if "q \<in> frames ?m ?pt 0" for q
      using o(5) [OF k(1,2) False that] user_not_kernel [OF o(1)] by blast
    have g: "pde_get_pt (tab ?m d k) = Inr ?pt" using a ptov_address by (simp add: pde_get_pt_def)
    have ff: "free_frames 1024 ?pt v = Inl AssertFailed \<or>
        (\<exists>v1. free_frames 1024 ?pt v = Inr v1 \<and> vm_freed v (frames ?m ?pt 0) v1 \<and> (\<forall>q \<in> frames ?m ?pt 0. upage_used (palloc v) q))"
      using free_frames_or_panics [OF o(1), of 1024 0 ?pt] a o(5) [OF k(1,2) False] uk by auto
    have run: "free_tables (Suc n) (d + of_nat (4 * k)) v =
        bindE (bindE (free_frames 1024 ?pt v) (vm_free_page ?pt)) (free_tables n (d + of_nat (4 * Suc k)))"
      using a g unfolding free_tables.simps nx wd by (simp add: PGSIZE_def)
    from ff show ?thesis
    proof (elim disjE exE conjE)
      assume "free_frames 1024 ?pt v = Inl AssertFailed"
      then show ?thesis unfolding run by simp
    next
      fix v1
      assume v1: "free_frames 1024 ?pt v = Inr v1" "vm_freed v (frames ?m ?pt 0) v1" "\<forall>q \<in> frames ?m ?pt 0. upage_used (palloc v) q"
      have "kpage_used (palloc v1) ?pt" using v1(2) a uk by (auto simp: vm_freed_def freed_def)
      then obtain v2 where v2: "vm_free_page ?pt v1 = Inr v2" "vm_freed v1 {?pt} v2"
        using vm_free [of v1 ?pt] v1(2) by (auto simp: vm_freed_def freed_def)
      have f: "vm_freed v (frames ?m ?pt 0 \<union> {?pt}) v2" by (rule vm_freed_trans [OF v1(2) v2(2)])
      have S: "d \<notin> frames ?m ?pt 0 \<union> {?pt}" using a uk o(3) by auto
      have S2: "table ?m d j \<notin> frames ?m ?pt 0 \<union> {?pt}" if "k < j" "j < 768" "tab ?m d j \<noteq> 0" for j
        using o(4) [of j] o(6) [of k j] that False uk by auto
      note st = tables_ok_step [OF Suc.prems(1) f S S2]
      have less: "upage_used (palloc v) q" if "upage_used (palloc v2) q" for q using f that by (simp add: vm_freed_def freed_def)
      have "frames_used v d k" if later: "frames_used v2 d (Suc k)"
        unfolding frames_used_def
      proof (intro allI impI)
        fix i q
        assume i: "k \<le> i \<and> i < 768 \<and> tab ?m d i \<noteq> 0 \<and> q \<in> frames ?m (table ?m d i) 0"
        show "upage_used (palloc v) q"
        proof (cases "i = k")
          case True
          then show ?thesis using v1(3) i by simp
        next
          case False
          then have "Suc k \<le> i \<and> i < 768 \<and> tab (pmem (palloc v2)) d i \<noteq> 0 \<and>
              q \<in> frames (pmem (palloc v2)) (table (pmem (palloc v2)) d i) 0"
            using i st(2) [of i] st(3) [of i] by simp
          then show ?thesis using later less unfolding frames_used_def by blast
        qed
      qed
      then show ?thesis
        using Suc.IH [OF st(1) k(3)] v1(1) v2(1) unfolding run by auto
    qed
  qed
qed

text \<open>A page that is mapped but free makes \<open>pagedir_destroy\<close> panic.\<close>

lemma pagedir_destroy_panics:
  assumes inv: "vm_inv v D" and d: "d \<in> D" "d \<noteq> init_page_dir v" and base: "PHYS_BASE \<le> base (user_pool (palloc v))"
    and fr: "\<And>va q w u. is_user_vaddr va \<Longrightarrow> translate (pmem (palloc v)) d va = Some (q, w, u) \<Longrightarrow> user_page_of v q"
    and q: "is_user_vaddr va" "translate (pmem (palloc v)) d va = Some (q, w, u)" "\<not> upage_used (palloc v) q"
  shows "pagedir_destroy d v = Inl AssertFailed"
proof -
  let ?m = "pmem (palloc v)"
  note w = vm_invD [OF inv] and al = vm_dir [OF inv d(1)]
  have up: "PHYS_BASE \<le> q" if "user_page_of v q" for q
  proof -
    have "pool_wf (user_pool (palloc v))" using w(1) by (simp add: pools_wf_def)
    then show ?thesis using that base page_at(1) by (fastforce simp: user_page_of_def word_le_nat_alt)
  qed
  have t: "kpage_used (palloc v) (table ?m d i)" "pg_ofs (table ?m d i) = 0" "PHYS_BASE \<le> table ?m d i" "table ?m d i \<noteq> d"
    if "i < 768" "tab ?m d i \<noteq> 0" for i
  proof -
    have i: "i < 1024" using that(1) by simp
    show k: "kpage_used (palloc v) (table ?m d i)" by (rule w(6) [OF d(1) i that(2)])
    show "pg_ofs (table ?m d i) = 0" "PHYS_BASE \<le> table ?m d i" using kpage_usedD(1,2) [OF w(1,2) k] by simp_all
    show "table ?m d i \<noteq> d" using w(7) [OF d(1) i that(2)] d(1) by auto
  qed
  have ok: "tables_ok v d 0"
    unfolding tables_ok_def Let_def
  proof (intro conjI allI impI ballI w(1) al(1) w(4) [OF d(1)])
    fix i
    assume i: "0 \<le> i \<and> i < 768 \<and> tab ?m d i \<noteq> 0"
    then show "tab ?m d i AND PTE_P \<noteq> 0" using w(5) [OF d(1), of i] by simp
    show "kpage_used (palloc v) (table ?m d i)" "pg_ofs (table ?m d i) = 0" "PHYS_BASE \<le> table ?m d i" "table ?m d i \<noteq> d"
      using t [of i] i by simp_all
    fix x
    assume x: "x \<in> frames ?m (table ?m d i) 0"
    have "\<exists>va w u. is_user_vaddr va \<and> translate ?m d va = Some (x, w, u)"
      using x frames_translate [of i ?m d] i by blast
    then show "user_page_of v x" using fr by blast
    then show "PHYS_BASE \<le> x" by (rule up)
  next
    fix i j
    assume "0 \<le> i \<and> i < j \<and> j < 768 \<and> tab ?m d i \<noteq> 0 \<and> tab ?m d j \<noteq> 0"
    then show "table ?m d i \<noteq> table ?m d j" using w(8) [OF d(1) d(1), of i j] by auto
  qed
  let ?i = "unat (pd_no va)"
  have i: "?i < 768" by (rule index_bounds(3) [OF q(1)])
  moreover have nz: "tab ?m d ?i \<noteq> 0" using q(2) by (auto simp: translate_def the_pte_def)
  moreover have "q \<in> frames ?m (table ?m d ?i) 0" using q(1,2) unfolding frames_translate [OF i nz] by blast
  ultimately have "free_tables 768 d v = Inl AssertFailed"
    using free_tables_or_panics [OF ok, of 768] q(3) by (auto simp: frames_used_def)
  moreover have "unat (pd_no PHYS_BASE) = 768" by (simp add: unat_pd_no PHYS_BASE_def)
  ultimately show ?thesis using al(3) d(2) by (simp add: pagedir_destroy_def)
qed

section \<open>A segment that is not all in the file\<close>

text \<open>A page that the directory maps is free.\<close>

definition dangling :: "vm \<Rightarrow> word_t set \<Rightarrow> word_t \<Rightarrow> bool" where
  "dangling v D d \<longleftrightarrow> vm_inv v D \<and> d \<in> D \<and> d \<noteq> init_page_dir v \<and> PHYS_BASE \<le> base (user_pool (palloc v)) \<and>
     (\<forall>va q w u. is_user_vaddr va \<and> translate (pmem (palloc v)) d va = Some (q, w, u) \<longrightarrow> user_page_of v q) \<and>
     (\<exists>va q w u. is_user_vaddr va \<and> translate (pmem (palloc v)) d va = Some (q, w, u) \<and> \<not> upage_used (palloc v) q)"

lemma freed_dangling:
  assumes own: "own_space v D d" and f: "vm_free_page q v = Inr v'" "vm_freed v {q} v'" "upage_used (palloc v) q"
    and m: "is_user_vaddr va" "translate (pmem (palloc v)) d va = Some (q, w, u)"
  shows "dangling v' D d"
proof -
  note o = own_spaceD [OF own]
  have pw: "pools_wf (palloc v)" by (rule vm_invD(1) [OF o(1)])
  have r: "pools_wf (palloc v')" "base (kernel_pool (palloc v')) = base (kernel_pool (palloc v))"
    "base (user_pool (palloc v')) = base (user_pool (palloc v))"
    "\<And>p. kpage_used (palloc v') p \<longleftrightarrow> kpage_used (palloc v) p \<and> p \<notin> {q}" "\<And>p. upage_used (palloc v') p \<longleftrightarrow> upage_used (palloc v) p \<and> p \<notin> {q}"
    "\<And>p j. pg_ofs p = 0 \<Longrightarrow> p \<notin> {q} \<Longrightarrow> j < 1024 \<Longrightarrow> tab (pmem (palloc v')) p j = tab (pmem (palloc v)) p j" "v'\<lparr>palloc := palloc v\<rparr> = v"
    using f(2) unfolding vm_freed_def freed_def by blast+
  have nk: "\<not> kpage_used (palloc v) q" by (rule upage_not_kernel [OF pw f(3)])
  have i: "init_page_dir v' = init_page_dir v" using arg_cong [OF r(7), of init_page_dir] by simp
  have k: "kpage_used (palloc v') p \<longleftrightarrow> kpage_used (palloc v) p" for p using r(4) nk by auto
  have "tab (pmem (palloc v')) p j = tab (pmem (palloc v)) p j" if "pg_ofs p = 0 \<and> kpage_used (palloc v) p \<and> j < 1024" for p j
    using r(6) [of p j] nk that by auto
  then have dk: "dirs_kept v v'" using r(1,2) k by (simp add: dirs_kept_def)
  note w = vm_inv_other [OF o(1) dk i]
  have tr: "translate (pmem (palloc v')) d x = translate (pmem (palloc v)) d x" for x
    unfolding translate_def w(2) [OF o(2)] ..
  have "user_page_of v' p" if "is_user_vaddr x" "translate (pmem (palloc v')) d x = Some (p, y, z)" for x p y z
    using o(6) [OF that(1), of p y z] that(2) user_page_freed [OF f(2)] by (auto simp: tr upage_used_def user_page_of_def)
  then show ?thesis
    unfolding dangling_def i r(3) using w(1) o(2-4) m r(5) by (auto simp: tr)
qed

lemma short_round:
  assumes own: "own_space (vmem p) D (pagedir p)" and rd: "reading (filesys p) file bs pos"
    and up: "pg_ofs upage = 0" "is_user_vaddr upage" "translate (pmem (palloc (vmem p))) (pagedir p) upage = None"
    and n: "unat rb + unat zb = 4096 * Suc n" and len: "pos \<le> length bs" "length bs < pos + min (unat rb) 4096"
    and room: "0 < free_user_cnt (palloc (vmem p))" "0 < free_cnt (palloc (vmem p))"
  shows "\<exists>k v'. load_pages (Suc n) file upage rb zb w p = Inr (False, p\<lparr>filesys := k, vmem := v'\<rparr>) \<and> dangling v' D (pagedir p)"
proof -
  let ?d = "pagedir p"
  define r where "r = (if rb < of_nat PGSIZE then rb else (of_nat PGSIZE :: word_t))"
  note ps = page_split [OF n, folded r_def]
  have gp: "on_vm (pagedir_get_page ?d upage) p = Inr (0, p)" using unmapped [OF own up(2,3)] by (simp add: on_vm_def)
  obtain q v1 where np: "new_page upage w p = Inr (q, p\<lparr>vmem := v1\<rparr>)" "own_space v1 D ?d" "kept D ?d (vmem p) v1"
    and c: "if q = 0 then (free_user_cnt (palloc (vmem p)) = 0 \<or> free_cnt (palloc (vmem p)) = 0) \<and> (\<forall>va. translate (pmem (palloc v1)) ?d va = translate (pmem (palloc (vmem p))) ?d va)
     else \<not> upage_used (palloc (vmem p)) q \<and> upage_used (palloc v1) q \<and>
       free_user_cnt (palloc (vmem p)) = Suc (free_user_cnt (palloc v1)) \<and> free_cnt (palloc (vmem p)) \<le> Suc (free_cnt (palloc v1)) \<and>
       (\<forall>va. translate (pmem (palloc v1)) ?d va = (if pg_no va = pg_no upage then Some (q, w, True) else translate (pmem (palloc (vmem p))) ?d va))"
    using new_page_ok [OF own up] by blast
  have q: "q \<noteq> 0" "upage_used (palloc v1) q" "translate (pmem (palloc v1)) ?d upage = Some (q, w, True)"
    using c room by (auto split: if_splits)
  have pw: "pools_wf (palloc v1)" by (rule vm_invD(1) [OF own_spaceD(1) [OF np(2)]])
  have q0: "pg_ofs q = 0" by (rule upage_usedD(1) [OF pw own_spaceD(4) [OF np(2)] q(2)])
  let ?m = "pmem (palloc v1)"
  let ?buf = "load_bytes ?m q (unat r)"
  have lb: "length ?buf = unat r" by (simp add: load_bytes_def)
  obtain k where k: "file_read file ?buf (int (unat r)) (filesys p) =
      Inr (int (min (unat r) (length bs - pos)), put_bytes ?buf 0 (take (unat r) (drop pos bs)), k)"
    using file_read_reads [OF rd lb] by blast
  let ?new = "put_bytes ?buf 0 (take (unat r) (drop pos bs))"
  define m1 where "m1 = store_bytes q ?new ?m"
  define g where "g = int (min (unat r) (length bs - pos))"
  have short: "g \<noteq> int (unat r)" using len ps(2) unfolding g_def of_nat_eq_iff by linarith
  have ln: "length ?new \<le> 4096" using lb ps(1) by (simp add: put_bytes_def)
  have "byte_of m1 p' i = byte_of ?m p' i" if "pg_ofs p' = 0" "p' \<noteq> q" "i < 4096" for p' i
    using byte_store_bytes [OF q0 that(1), of 0 ?new i ?m] ln that by (simp add: m1_def)
  then have t: "tab m1 p' j = tab ?m p' j" if "pg_ofs p' = 0" "p' \<noteq> q" "j < 1024" for p' j
    using that by (simp add: tab_bytes)
  have own2: "own_space (put_mem m1 v1) D ?d" and tr2: "translate m1 ?d va = translate ?m ?d va" for va
    using own_space_write [OF np(2) q(2), of m1] t own_spaceD(2) [OF np(2)] by blast+
  have pm: "pmem (palloc (put_mem m1 v1)) = m1" "upage_used (palloc (put_mem m1 v1)) q"
    using q(2) by (simp_all add: put_mem_def upage_used_def)
  obtain v' where v': "vm_free_page q (put_mem m1 v1) = Inr v'" "vm_freed (put_mem m1 v1) {q} v'"
    using vm_free [OF vm_invD(1) [OF own_spaceD(1) [OF own2]], of q] pm(2) by blast
  have "dangling v' D ?d"
    by (rule freed_dangling [OF own2 v' pm(2) up(2), of w True]) (simp add: pm(1) tr2 q(3))
  moreover have "read_into file q (unat r) (p\<lparr>vmem := v1\<rparr>) =
      Inr (g, p\<lparr>filesys := k, vmem := put_mem m1 v1\<rparr>)"
    using k by (simp add: read_into_def m1_def g_def)
  then have "load_pages (Suc n) file upage rb zb w p = Inr (False, p\<lparr>filesys := k, vmem := v'\<rparr>)"
    using ps(3) gp np(1) q(1) short v'(1) by (simp add: Let_def r_def [symmetric] to_vm_def del: load_pages.simps(1) of_nat_eq_iff)
  ultimately show ?thesis by blast
qed

text \<open>All rounds before the end of the file go well.\<close>

lemma load_pages_short:
  assumes "own_space (vmem p) D (pagedir p)" "reading (filesys p) file bs pos" "pg_ofs upage = 0"
    and "unat upage + 4096 * n \<le> unat PHYS_BASE" "unat rb + unat zb = 4096 * n" "pos \<le> length bs" "length bs < pos + unat rb"
    and "\<And>va. unat upage \<le> unat va \<Longrightarrow> unat va < unat upage + 4096 * n \<Longrightarrow> translate (pmem (palloc (vmem p))) (pagedir p) va = None"
    and "n \<le> free_user_cnt (palloc (vmem p))" "n \<le> free_cnt (palloc (vmem p))"
  shows "\<exists>k v'. load_pages n file upage rb zb w p = Inr (False, p\<lparr>filesys := k, vmem := v'\<rparr>) \<and> dangling v' D (pagedir p)"
  using assms
proof (induction n arbitrary: p pos upage rb zb)
  case 0
  then show ?case by simp
next
  case (Suc n)
  let ?d = "pagedir p" and ?r = "if rb < of_nat PGSIZE then rb else (of_nat PGSIZE :: word_t)"
  have pb: "unat PHYS_BASE < 2 ^ 32" by (simp add: PHYS_BASE_def)
  have upl: "is_user_vaddr upage" using Suc.prems(4) by (simp add: is_user_vaddr_def word_less_nat_alt)
  have none: "translate (pmem (palloc (vmem p))) ?d upage = None" using Suc.prems(8) [of upage] by simp
  have room: "0 < free_user_cnt (palloc (vmem p))" "0 < free_cnt (palloc (vmem p))" using Suc.prems(9,10) by simp_all
  note ps = page_split [OF Suc.prems(5)]
  show ?case
  proof (cases "length bs < pos + min (unat rb) 4096")
    case True
    show ?thesis by (rule short_round [OF Suc.prems(1-3) upl none Suc.prems(5,6) True room])
  next
    case False
    then have len: "pos + min (unat rb) 4096 \<le> length bs" by simp
    obtain k v1 where run: "load_pages (Suc n) file upage rb zb w p =
        load_pages n file (upage + of_nat PGSIZE) (rb - ?r) (zb - (of_nat PGSIZE - ?r)) w (p\<lparr>filesys := k, vmem := v1\<rparr>)"
      and v1: "own_space v1 D ?d" "free_user_cnt (palloc (vmem p)) = Suc (free_user_cnt (palloc v1))"
        "free_cnt (palloc (vmem p)) \<le> Suc (free_cnt (palloc v1))" "reading k file bs (pos + unat ?r)"
      and tr: "\<And>va. pg_no va \<noteq> pg_no upage \<Longrightarrow> translate (pmem (palloc v1)) ?d va = translate (pmem (palloc (vmem p))) ?d va"
      using load_round [OF Suc.prems(1-3) upl none Suc.prems(5) len, of w] room by (elim disjE exE conjE) auto
    let ?p = "p\<lparr>filesys := k, vmem := v1\<rparr>" and ?up = "upage + of_nat PGSIZE"
    have up: "unat ?up = unat upage + 4096"
      using unat_add_nat [of upage 4096] Suc.prems(4) pb by (simp add: PGSIZE_def)
    have "pg_ofs (of_nat PGSIZE) = 0" by (simp add: pg_ofs_def PGSIZE_def PGMASK_def)
    then have al: "pg_ofs ?up = 0" by (rule aligned_add [OF Suc.prems(3)])
    have none': "translate (pmem (palloc v1)) ?d va = None" if "unat ?up \<le> unat va" "unat va < unat ?up + 4096 * n" for va
    proof -
      have "pg_no va \<noteq> pg_no upage" using page_range(1) [OF Suc.prems(3), of va] that(1) up by simp
      then show ?thesis using tr Suc.prems(8) [of va] that up by simp
    qed
    have rest: "pos + unat ?r \<le> length bs" "length bs < pos + unat ?r + unat (rb - ?r)"
      using ps(2,4) Suc.prems(7) len by simp_all
    have fit: "unat ?up + 4096 * n \<le> unat PHYS_BASE" using Suc.prems(4) up by simp
    have "\<exists>k v'. load_pages n file ?up (rb - ?r) (zb - (of_nat PGSIZE - ?r)) w ?p = Inr (False, ?p\<lparr>filesys := k, vmem := v'\<rparr>) \<and>
        dangling v' D (pagedir ?p)"
      by (rule Suc.IH [OF _ _ al fit ps(5) rest]) (use v1 none' Suc.prems(9,10) in simp_all)
    then show ?thesis unfolding run by auto
  qed
qed

lemma load_phdr_short:
  assumes own: "own_space (vmem p) D (pagedir p)" and rd: "reading (filesys p) file bs pos0"
    and h: "p_type h = PT_LOAD" "segment_valid h (length bs)" "length bs < unat (p_offset h) + unat (p_filesz h)"
    and none: "\<And>va. in_segment_pages h va \<Longrightarrow> translate (pmem (palloc (vmem p))) (pagedir p) va = None"
    and room: "segment_pages h \<le> free_user_cnt (palloc (vmem p))" "segment_pages h \<le> free_cnt (palloc (vmem p))"
  shows "\<exists>k v'. load_phdr h file p = Inr (False, p\<lparr>filesys := k, vmem := v'\<rparr>) \<and> dangling v' D (pagedir p)"
proof -
  let ?n = "segment_pages h" and ?w = "segment_writable h"
  note fe = first_eq [OF h(2)]
  obtain k1 up rb zb where run: "load_phdr h file p = load_pages ?n file up rb zb ?w (p\<lparr>filesys := k1\<rparr>)"
    and k1: "reading k1 file bs (first_pos h)"
    and up: "pg_ofs up = 0" "unat up = first_page h" "unat up + 4096 * ?n \<le> unat PHYS_BASE" "unat rb + unat zb = 4096 * ?n"
      "unat rb = (if unat (p_filesz h) = 0 then 0 else unat (p_vaddr h) mod 4096 + unat (p_filesz h))"
    using load_phdr_pages [OF rd h(1,2)] by blast
  have "unat (p_filesz h) \<noteq> 0" using h(2,3) by (auto simp: segment_valid_def)
  then have len: "length bs < first_pos h + unat rb" using up(5) fe(2) h(3) by simp
  have "in_segment_pages h va" if "unat up \<le> unat va" "unat va < unat up + 4096 * ?n" for va
    using that by (simp add: in_segment_pages_def up(2) first_page_def)
  then have "\<exists>k v'. load_pages ?n file up rb zb ?w (p\<lparr>filesys := k1\<rparr>) = Inr (False, p\<lparr>filesys := k1\<rparr>\<lparr>filesys := k, vmem := v'\<rparr>) \<and>
      dangling v' D (pagedir (p\<lparr>filesys := k1\<rparr>))"
    by (intro load_pages_short [OF _ _ up(1,3,4) fe(3) len]) (use own k1 none room in simp_all)
  then show ?thesis unfolding run by auto
qed

lemma dangling_exit:
  assumes "dangling (vmem p) D (pagedir p)"
  shows "process_exit p = Inl AssertFailed"
proof -
  let ?v = "vmem p" and ?d = "pagedir p"
  have inv: "vm_inv ?v D" "?d \<in> D" "?d \<noteq> init_page_dir ?v" "PHYS_BASE \<le> base (user_pool (palloc ?v))"
    and fr: "\<And>va q w u. is_user_vaddr va \<Longrightarrow> translate (pmem (palloc ?v)) ?d va = Some (q, w, u) \<Longrightarrow> user_page_of ?v q"
    using assms unfolding dangling_def by blast+
  obtain va q w u where q: "is_user_vaddr va" "translate (pmem (palloc ?v)) ?d va = Some (q, w, u)" "\<not> upage_used (palloc ?v) q"
    using assms unfolding dangling_def by blast
  have "PHYS_BASE \<le> init_page_dir ?v"
    by (rule kpage_usedD(2) [OF vm_invD(1,2) [OF inv(1)] vm_invD(4) [OF inv(1) vm_invD(3) [OF inv(1)]]])
  then have act: "pagedir_activate 0 ?v = Inr (?v\<lparr>cr3 := init_page_dir ?v - PHYS_BASE, tlb_flushes := tlb_flushes ?v + 1\<rparr>)"
    by (simp add: pagedir_activate_def vtop_kernel)
  let ?v1 = "?v\<lparr>cr3 := init_page_dir ?v - PHYS_BASE, tlb_flushes := tlb_flushes ?v + 1\<rparr>"
  have "vm_inv ?v1 D" using inv(1) by (simp add: vm_inv_def)
  then have "pagedir_destroy ?d ?v1 = Inl AssertFailed"
    by (rule pagedir_destroy_panics [OF _ inv(2), where va = va and q = q and w = w and u = u])
      (use inv(3,4) fr q in \<open>auto simp: user_page_of_def\<close>)
  moreover have "?d \<noteq> 0" by (rule vm_dir(3) [OF inv(1,2)])
  ultimately show ?thesis using act by (simp add: process_exit_def to_vm_def)
qed

end
