(* ===== verification/Pintos_Filesys_Remove.thy ===== *)
theory Pintos_Filesys_Remove
  imports Pintos_Filesys_Names
begin

text \<open>
  Removing a file by its name: its entry is cleared, and when its inode is closed for the last time the
  sector of the inode and the sectors of its data are marked free. Everything else stays.
\<close>

section \<open>Clearing an entry\<close>

lemma filter_clear:
  assumes "j < length xs" "P (xs ! j)" "\<not> P x"
  shows "filter P (xs[j := x]) = filter P (take j xs) @ filter P (drop (Suc j) xs)"
    "filter P xs = filter P (take j xs) @ xs ! j # filter P (drop (Suc j) xs)"
proof -
  show "filter P (xs[j := x]) = filter P (take j xs) @ filter P (drop (Suc j) xs)"
    using assms(1,3) by (simp add: upd_conv_take_nth_drop)
  have "xs = take j xs @ xs ! j # drop (Suc j) xs" using assms(1) by (simp add: id_take_nth_drop)
  then have "filter P xs = filter P (take j xs @ xs ! j # drop (Suc j) xs)" by simp
  then show "filter P xs = filter P (take j xs) @ xs ! j # filter P (drop (Suc j) xs)" using assms(2) by simp
qed

lemma map_of_remove:
  assumes "a \<notin> fst ` set (xs @ ys)"
  shows "(map_of (xs @ (a, b) # ys))(a := None) = map_of (xs @ ys)"
proof -
  have "map_of xs a = None" "map_of ys a = None" using assms by (auto simp: map_of_eq_None_iff)
  then show ?thesis by (auto simp: map_add_def fun_eq_iff split: option.splits)
qed

lemma remove_from_table:
  assumes "dir_ok c" "j < length c div 20" "matches s (slots c ! j)"
  shows "length (set_in_use False (slots c ! j)) = 20" "dir_ok (put_bytes c (20 * j) (set_in_use False (slots c ! j)))"
    "dir_table (put_bytes c (20 * j) (set_in_use False (slots c ! j))) = (dir_table c)(s := None)"
proof -
  let ?x = "slots c ! j" and ?xs = "slots c"
  let ?e = "set_in_use False ?x"
  have x: "entry_ok ?x" "entry_in_use ?x" "entry_name ?x = s" using assms by (auto simp: dir_ok_def matches_def)
  show l: "length ?e = 20" using x(1) by (simp add: entry_ok_def set_in_use_def)
  have off: "\<not> entry_in_use ?e" using x(1) by (simp add: entry_ok_def set_in_use_def entry_in_use_def)
  have sl: "slots (put_bytes c (20 * j) ?e) = ?xs[j := ?e]" by (rule slots_update [OF assms(2) l])
  have jl: "j < length ?xs" using assms(2) by simp
  note f = filter_clear [where P = entry_in_use, OF jl x(2) off]
  have d: "distinct (map entry_name (filter entry_in_use (take j ?xs) @ ?x # filter entry_in_use (drop (Suc j) ?xs)))"
    using assms(1) unfolding dir_ok_def f(2) [symmetric] by simp
  then have nin: "s \<notin> entry_name ` set (filter entry_in_use (take j ?xs) @ filter entry_in_use (drop (Suc j) ?xs))"
    using x(3) by auto
  show "dir_table (put_bytes c (20 * j) ?e) = (dir_table c)(s := None)"
    unfolding dir_table_def sl f(1) f(2)
    by (simp only: map_append list.map x(3)) (rule map_of_remove [symmetric], use nin in \<open>auto simp: image_iff\<close>)
  have "length (put_bytes c (20 * j) ?e) = length c" using slot_bounds(2) [OF assms(2)] l by simp
  moreover have "\<forall>y \<in> set (?xs[j := ?e]). entry_ok y"
    using assms(1) l off set_update_subset_insert [of ?xs j ?e] by (auto simp: dir_ok_def entry_ok_def)
  moreover have "distinct (map entry_name (filter entry_in_use (?xs[j := ?e])))"
    using d unfolding f(1) by auto
  ultimately show "dir_ok (put_bytes c (20 * j) ?e)" using assms(1) by (simp add: dir_ok_def sl)
qed

section \<open>Releasing the sectors of a file\<close>

lemma stored_free_at:
  assumes "stored k im i" "dev_ok (fs_device k)" "bit_cnt (sector_map k) = length (sectors (fs_device k))"
  shows "free_at (bmap (sector_map k)) (sectors_of (inode_length i)) True (unat (start_sector (inode_data i)))"
proof -
  let ?s = "unat (start_sector (inode_data i))" and ?n = "sectors_of (inode_length i)"
  have i: "0 \<le> inode_length i" "512 * ?s + nat (inode_length i) \<le> 512 * bit_cnt (sector_map k)"
    using assms length_flat [OF assms(2)] by (auto simp: stored_def inode_ok_def)
  have n: "int ?n = (inode_length i + 511) div 512" using i(1) by (simp add: sectors_of_def)
  have "?s + ?n \<le> bit_cnt (sector_map k)" using i n by linarith
  moreover have "bmap (sector_map k) ! (?s + j)" if "j < ?n" for j
  proof -
    have "512 * j < nat (inode_length i)" using that i(1) n by linarith
    then show ?thesis using assms(1) by (auto simp: stored_def occupies_def data_at_def dest!: spec [of _ "?s + j"])
  qed
  ultimately show ?thesis by (simp add: free_at_def)
qed

definition covered :: "bool list \<Rightarrow> inode \<Rightarrow> bool" where
  "covered m i \<longleftrightarrow> (\<forall>s. data_at i < 512 * (s + 1) \<and> 512 * s < data_at i + nat (inode_length i) \<longrightarrow> s < length m \<and> m ! s)"

lemma occupies_covered: "occupies k i = covered (bmap (sector_map k)) i"
  by (simp add: occupies_def covered_def)

lemma covered_clear_one: "covered m j \<Longrightarrow> off_data s j \<Longrightarrow> covered (m[s := False]) j"
  by (auto simp: covered_def off_data_def nth_list_update)

lemma covered_clear_run:
  assumes "covered m j" "apart i j" "0 \<le> inode_length i"
    and "unat (start_sector (inode_data i)) + sectors_of (inode_length i) \<le> length m"
  shows "covered (put_bytes m (unat (start_sector (inode_data i))) (replicate (sectors_of (inode_length i)) False)) j"
  unfolding covered_def
proof (intro allI impI)
  fix t
  let ?s = "unat (start_sector (inode_data i))" and ?n = "sectors_of (inode_length i)"
  assume t: "data_at j < 512 * (t + 1) \<and> 512 * t < data_at j + nat (inode_length j)"
  have n: "int ?n = (inode_length i + 511) div 512" using assms(3) by (simp add: sectors_of_def)
  have m: "t < length m" "m ! t" using assms(1) t by (auto simp: covered_def)
  have "\<not> (?s \<le> t \<and> t < ?s + ?n)"
  proof
    assume a: "?s \<le> t \<and> t < ?s + ?n"
    then have "0 < inode_length i" using n by (cases "inode_length i = 0") (use assms(3) in auto)
    then have "512 * ?s + nat (inode_length i) \<le> data_at j \<or> data_at j + nat (inode_length j) \<le> 512 * ?s"
      using assms(2) t by (auto simp: apart_def data_at_def)
    then show False
    proof
      assume "512 * ?s + nat (inode_length i) \<le> data_at j"
      moreover have "data_at j \<le> 512 * t" using t by (simp add: data_at_def)
      ultimately have "512 * ?s + nat (inode_length i) \<le> 512 * t" by linarith
      then show False using a n assms(3) by linarith
    qed (use a t in linarith)
  qed
  then show "t < length (put_bytes m ?s (replicate ?n False)) \<and> put_bytes m ?s (replicate ?n False) ! t"
    using assms(4) m by (auto simp: nth_put_bytes)
qed

text \<open>Closing an inode that was removed.\<close>

lemma close_removed:
  assumes f: "f \<noteq> 0" "inode_heap k f = Some i" "open_cnt i = 1" "removed i"
  defines "k1 \<equiv> (put_inode f (i\<lparr>open_cnt := 0\<rparr>) k)\<lparr>open_inodes := remove1 f (open_inodes k)\<rparr>"
  assumes ready: "map_ready k1 im" and sec: "unat (inode_sector i) < bit_cnt (sector_map k)" "bmap (sector_map k) ! unat (inode_sector i)"
    and off: "off_data (unat (inode_sector i)) i" and len: "0 \<le> inode_length i" "inode_length i + 512 < 2 ^ 31"
    and run: "free_at (bmap (sector_map k)) (sectors_of (inode_length i)) True (unat (start_sector (inode_data i)))"
  shows "\<exists>k2. inode_close f k = Inr (k2\<lparr>inode_heap := (inode_heap k2)(f := None)\<rparr>) \<and> remapped k1 k2 \<and> map_ready k2 im \<and> synced k2 im \<and>
    length (flat k2) = length (flat k) \<and> bmap (sector_map k2) = put_bytes ((bmap (sector_map k))[unat (inode_sector i) := False])
      (unat (start_sector (inode_data i))) (replicate (sectors_of (inode_length i)) False) \<and>
    bit_cnt (sector_map k2) = bit_cnt (sector_map k) \<and>
    (\<forall>j. inode_ok k j \<and> apart im j \<longrightarrow> content k2 j = content k j)"
proof -
  let ?m = "bmap (sector_map k)" and ?s = "unat (inode_sector i)" and ?st = "start_sector (inode_data i)" and ?n = "sectors_of (inode_length i)"
  have same1: "sector_map k1 = sector_map k" "flat k1 = flat k" by (simp_all add: k1_def put_inode_def flat_def)
  have c1: "content k1 j = content k j" "inode_ok k1 j = inode_ok k j" for j using same1 by (simp_all add: content_def inode_ok_def)
  obtain k2 where k2: "release_sectors (inode_sector i) 1 k1 = Inr k2" "map_ready k2 im" "remapped k1 k2" "length (flat k2) = length (flat k1)"
    "bmap (sector_map k2) = ?m[?s := False]" "bit_cnt (sector_map k2) = bit_cnt (sector_map k)"
    and c2: "\<forall>j. inode_ok k j \<and> apart im j \<longrightarrow> content k2 j = content k j"
    using release_one [OF ready, of "inode_sector i"] sec unfolding same1 c1 by auto
  have "\<not> (unat ?st \<le> ?s \<and> ?s < unat ?st + ?n)"
  proof
    assume a: "unat ?st \<le> ?s \<and> ?s < unat ?st + ?n"
    have n: "int ?n = (inode_length i + 511) div 512" using len(1) by (simp add: sectors_of_def)
    have "512 * ?s < 512 * unat ?st + nat (inode_length i)" using a n len(1) by linarith
    then show False using a off by (auto simp: off_data_def data_at_def)
  qed
  then have "free_at (?m[?s := False]) ?n True (unat ?st)"
    using run by (auto simp: free_at_def nth_list_update)
  then have r2: "free_at (bmap (sector_map k2)) ?n True (unat ?st)" by (simp only: k2(5))
  obtain k3 where k3: "release_sectors ?st ?n k2 = Inr k3" "map_ready k3 im" "remapped k2 k3" "length (flat k3) = length (flat k2)"
    "bmap (sector_map k3) = put_bytes (bmap (sector_map k2)) (unat ?st) (replicate ?n False)" "synced k3 im"
    and c3: "\<forall>j. inode_ok k2 j \<and> apart im j \<longrightarrow> content k3 j = content k2 j"
    using release_sectors_syncs [OF k2(2) r2] by blast
  have "unat ?st + ?n \<le> bit_cnt (sector_map k2)" using r2 by (simp add: free_at_def)
  then have bc: "bit_cnt (sector_map k3) = bit_cnt (sector_map k2)" by (intro bmap_shape [OF k3(5)]) simp
  have "inode_close f k = Inr (k3\<lparr>inode_heap := (inode_heap k3)(f := None)\<rparr>)"
    using f k2(1) bytes_to_sectors_ok [OF len, folded sectors_of_def] k3(1)
    by (simp add: inode_close_def follow_def int32_def k1_def put_inode_def Let_def)
  moreover have "content k3 j = content k j" if "inode_ok k j \<and> apart im j" for j
    using that c2 c3 same_inode_ok [of k2 k j] k2(4) same1(2) by simp
  ultimately show ?thesis using k3(2-6) k2(4-6) bc remapped_trans [OF k2(3) k3(3)] same1 by auto
qed


section \<open>\<open>dir_remove\<close> in the root\<close>

lemma same_type: "same k k' \<Longrightarrow> block_type (fs_device k') = block_type (fs_device k)"
  by (simp add: same_def)

text \<open>When the second inode is closed again, the root is open as before.\<close>

lemma opened_file_closed:
  assumes o: "opened_file k p q f i k3" and s: "same k3 k4"
    and r: "remapped ((put_inode f i' k4)\<lparr>open_inodes := remove1 f (open_inodes k4)\<rparr>) k5"
  shows "opened k p q (k5\<lparr>inode_heap := (inode_heap k5)(f := None)\<rparr>)"
proof (rule opened_remapped)
  let ?k3 = "k3\<lparr>open_inodes := p # open_inodes k, inode_heap := (inode_heap k)(p \<mapsto> root_inode k)\<rparr>"
  show "opened k p q ?k3" using o by (simp add: opened_file_def)
  have f: "f \<noteq> p" "inode_heap k f = None" "open_inodes k3 = f # p # open_inodes k"
    "inode_heap k3 = (inode_heap k)(p \<mapsto> root_inode k, f \<mapsto> i)"
    using o by (simp_all add: opened_file_def)
  note sf = same_fields [OF s] and rf = remapped_fields [OF r]
  obtain a b where "mallocs k4 = (\<lambda>n. mallocs k3 (n + a))" "mallocs k5 = (\<lambda>n. mallocs k4 (n + b))"
    using s rf(7) by (auto simp: same_def put_inode_def)
  then have m: "mallocs k5 = (\<lambda>n. mallocs k3 (n + (b + a)))" by (simp add: add.assoc)
  have h: "((inode_heap k)(p \<mapsto> root_inode k, f \<mapsto> i'))(f := None) = (inode_heap k)(p \<mapsto> root_inode k)"
    using f(1,2) by (auto simp: fun_eq_iff)
  show "remapped ?k3 (k5\<lparr>inode_heap := (inode_heap k5)(f := None)\<rparr>)"
    by (rule remappedI [where j = "b + a"])
      (use sf rf(1-6) f h m same_type [OF s] remapped_type [OF r] in \<open>simp_all add: put_inode_def\<close>)
qed

lemma dir_remove_entry:
  assumes wf: "fs_wf k im" and o: "opened k p q k1" "live_inode k1 p (root_inode k)" "flat k1 = flat k" "sector_map k1 = sector_map k"
    and args: "cstr m name s" "length e = 20" and t: "fs_table k s = Some sec" "closed sec k" "file_at k im sec"
  shows "\<exists>f k3 k4. opened_file k p q f (disk_inode k sec) k3 \<and> same k3 k4 \<and> flat k3 = flat k \<and> sector_map k4 = sector_map k \<and>
    dir_remove q m name e k1 = bindE (inode_close f (put_inode f (disk_inode k sec\<lparr>removed := True\<rparr>) k4)) (\<lambda>k. Inr (True, k)) \<and>
    live_inode k4 p (root_inode k) \<and> dir_ok (content k4 (root_inode k)) \<and> length (flat k4) = length (flat k) \<and>
    dir_table (content k4 (root_inode k)) = (fs_table k)(s := None) \<and>
    (\<forall>x. inode_ok k x \<and> apart (root_inode k) x \<longrightarrow> content k4 x = content k x)"
proof -
  let ?r = "root_inode k" and ?c = "content k (root_inode k)"
  note w = fs_wfD [OF wf]
  have q: "dir_heap k1 q = Some \<lparr>dir_inode = p, dir_pos = 0\<rparr>" "q \<noteq> 0" using o(1) by (auto simp: opened_def)
  have c1: "content k1 ?r = ?c" by (rule flat_content [OF o(3)])
  have dok: "dir_ok (content k1 ?r)" using w(9) c1 by simp
  obtain x j k2 where k2: "lookup_name q m name e k1 = Inr (Some (x, of_nat (20 * j)), k2)" "same k1 k2" "flat k2 = flat k1"
    "live_inode k2 p ?r" and j: "j < length ?c div 20" "x = slots ?c ! j" "matches s x" "fs_table k s = Some (entry_sector x)"
    using lookup_name_entry [OF q(1,2) _ dok args] o(2) t(1) unfolding c1 by (fastforce split: option.splits)
  have sec: "entry_sector x = sec" using t(1) j(4) by simp
  have o2: "opened k p q k2" by (rule opened_remapped [OF o(1) same_remapped [OF k2(2)]])
  have dev2: "dev_ok (fs_device k2)" using k2(4) by (simp add: live_inode_def)
  have fl2: "flat k2 = flat k" using k2(3) o(3) by simp
  have L: "length (sectors (fs_device k2)) = length (sectors (fs_device k))"
    using length_flat [OF w(12)] length_flat [OF dev2] fl2 by simp
  have l: "unat sec < length (sectors (fs_device k))" "sec \<noteq> 1" using t(3) w(2) by (auto simp: file_at_def)
  obtain f k3 where k3: "inode_open sec k2 = Inr (f, k3)" "opened_file k p q f (disk_inode k2 sec) k3"
    "sectors (fs_device k3) = sectors (fs_device k2)" "sector_map k3 = sector_map k2" "dev_ok (fs_device k3)"
    using inode_open_second [OF wf o2 dev2 t(2) l(2)] l(1) L by auto
  have d: "disk_inode k2 sec = disk_inode k sec" by (rule disk_inode_flat [OF fl2 w(12) dev2 l(1)])
  have fl3: "flat k3 = flat k" using k3(3) fl2 by (simp add: flat_def)
  have f: "f \<noteq> 0" "f \<noteq> p" "p \<noteq> 0" "inode_heap k3 = (inode_heap k)(p \<mapsto> ?r, f \<mapsto> disk_inode k sec)"
    "dir_heap k3 q = Some \<lparr>dir_inode = p, dir_pos = 0\<rparr>"
    using k3(2) d by (auto simp: opened_file_def opened_def)
  obtain b where b: "mallocs k3 = (\<lambda>n. mallocs k (n + b))" using k3(2) by (auto simp: opened_file_def)
  have live3: "live_inode k3 p ?r"
    using k3(5) f fresh_shift(1) [OF w(11) b] w(6) same_inode_ok [of k3 k] fl3
    by (simp add: live_inode_def stored_def no_fail_def)
  have c3: "content k3 ?r = ?c" by (rule flat_content [OF fl3])
  note tab = remove_from_table [OF w(9) j(1) j(3) [unfolded j(2)]]
  have j3: "j \<le> length (content k3 ?r) div 20" "length (content k3 ?r) mod 20 = 0" using j(1) w(9) c3 by (simp_all add: dir_ok_def)
  have dr: "deny_write_cnt ?r = 0" by (simp add: disk_inode_def)
  obtain n k4 where k4: "inode_write_at p (set_in_use False x) (int entry_size) (sint (of_nat (20 * j) :: word_t)) k3 = Inr (n, k4)"
    "same k3 k4" "live_inode k4 p ?r" "n = int entry_size" "content k4 ?r = put_bytes ?c (20 * j) (set_in_use False x)"
    "length (flat k4) = length (flat k3)" "\<forall>y. inode_ok k3 y \<and> apart ?r y \<longrightarrow> content k4 y = content k3 y"
    using dir_write_slot [OF live3 dr j3(2) tab(1) [folded j(2)] j3(1)] j(1) unfolding c3 by auto
  have i4: "inode_heap k4 f = Some (disk_inode k sec)" using same_fields(2) [OF k4(2)] f(4) by simp
  have rm: "inode_remove f k4 = Inr (put_inode f (disk_inode k sec\<lparr>removed := True\<rparr>) k4)"
    using f(1) i4 by (simp add: inode_remove_def follow_def)
  have "dir_remove q m name e k1 = bindE (inode_close f (put_inode f (disk_inode k sec\<lparr>removed := True\<rparr>) k4)) (\<lambda>k. Inr (True, k))"
    using q(2) cstr_pos [OF args(1)] k2(1) sec k3(1) f(1,5) k4(1,4) rm by (simp add: dir_remove_def follow_def)
  moreover have "content k4 y = content k y" if "inode_ok k y \<and> apart ?r y" for y
    using that k4(7) same_inode_ok [of k3 k y] flat_content [OF fl3] fl3 by simp
  moreover have "sector_map k4 = sector_map k"
    using same_fields(5) [OF k4(2)] k3(4) same_fields(5) [OF k2(2)] o(4) by simp
  ultimately show ?thesis
    by (intro exI [of _ f] exI [of _ k3] exI [of _ k4]) (use k3(2) d k4(2,3,5,6) fl3 tab(2,3) j(2) in simp)
qed


text \<open>The map without the sectors of the file in \<open>sec\<close>.\<close>

definition released :: "fs \<Rightarrow> word_t \<Rightarrow> bool list" where
  "released k sec = (let i = disk_inode k sec in
     put_bytes ((bmap (sector_map k))[unat sec := False]) (unat (start_sector (inode_data i)))
       (replicate (sectors_of (inode_length i)) False))"

lemma dir_remove_removes:
  assumes wf: "fs_wf k im" and o: "opened k p q k1" "live_inode k1 p (root_inode k)" "flat k1 = flat k" "sector_map k1 = sector_map k"
    and args: "cstr m name s" "length e = 20" and t: "fs_table k s = Some sec" "closed sec k" "file_at k im sec"
  shows "\<exists>k2. dir_remove q m name e k1 = Inr (True, k2) \<and> opened k p q k2 \<and> length (flat k2) = length (flat k) \<and>
    dev_ok (fs_device k2) \<and> map_shape (sector_map k2) \<and> synced k2 im \<and> bmap (sector_map k2) = released k sec \<and>
    bit_cnt (sector_map k2) = bit_cnt (sector_map k) \<and> dir_ok (content k2 (root_inode k)) \<and>
    dir_table (content k2 (root_inode k)) = (fs_table k)(s := None) \<and>
    (\<forall>x. inode_ok k x \<and> apart im x \<and> apart (root_inode k) x \<longrightarrow> content k2 x = content k x)"
proof -
  let ?r = "root_inode k" and ?i = "disk_inode k sec"
  note w = fs_wfD [OF wf]
  obtain f k3 k4 where o3: "opened_file k p q f ?i k3" "same k3 k4" "flat k3 = flat k" and sm: "sector_map k4 = sector_map k"
    and run: "dir_remove q m name e k1 = bindE (inode_close f (put_inode f (?i\<lparr>removed := True\<rparr>) k4)) (\<lambda>k. Inr (True, k))"
    and k4: "live_inode k4 p ?r" "dir_ok (content k4 ?r)" "length (flat k4) = length (flat k)"
      "dir_table (content k4 ?r) = (fs_table k)(s := None)"
      "\<forall>x. inode_ok k x \<and> apart ?r x \<longrightarrow> content k4 x = content k x"
    using dir_remove_entry [OF wf o args t] by blast
  have f: "f \<noteq> 0" "f \<noteq> p" "inode_heap k f = None" "inode_heap k3 = (inode_heap k)(p \<mapsto> ?r, f \<mapsto> ?i)" "inode_heap k p = None"
    "file_heap k3 = file_heap k" "map_file k3 = map_file k"
    using o3(1) by (auto simp: opened_file_def opened_def)
  let ?k5 = "put_inode f (?i\<lparr>removed := True\<rparr>) k4"
  let ?k6 = "(put_inode f (?i\<lparr>removed := True, open_cnt := 0\<rparr>) ?k5)\<lparr>open_inodes := remove1 f (open_inodes ?k5)\<rparr>"
  have fl: "flat ?k6 = flat k4" "flat ?k5 = flat k4" "sector_map ?k6 = sector_map k" "sector_map ?k5 = sector_map k"
    using sm by (simp_all add: put_inode_def flat_def)
  have c5: "content ?k5 j = content k4 j" "inode_ok ?k5 j = inode_ok k4 j" for j using fl(2) by (simp_all add: content_def inode_ok_def)
  have ok4: "inode_ok k4 j = inode_ok k j" for j using same_inode_ok [OF k4(3)] .
  have ready: "map_ready ?k6 im"
  proof (rule map_ready_more [OF w(1)])
    show "map_file ?k6 = map_file k" "file_heap k \<subseteq>\<^sub>m file_heap ?k6"
      using same_fields(3,6) [OF o3(2)] f(6,7) by (simp_all add: put_inode_def)
    show "inode_heap k \<subseteq>\<^sub>m inode_heap ?k6"
      using same_fields(2) [OF o3(2)] f(3-5) by (auto simp: put_inode_def map_le_def)
    show "no_fail ?k6" "dev_ok (fs_device ?k6)" using k4(1) by (simp_all add: live_inode_def put_inode_def no_fail_def)
    show "length (flat ?k6) = length (flat k)" using fl(1) k4(3) by simp
  qed (use w(1) fl(3) in \<open>simp_all add: map_ready_def\<close>)
  have fa: "unat sec < bit_cnt (sector_map k)" "bmap (sector_map k) ! unat sec" "stored k im ?i" "off_data (unat sec) ?i"
    "inode_length ?i + 512 < 2 ^ 31" using t(3) by (simp_all add: file_at_def)
  have len: "0 \<le> inode_length ?i" using fa(3) by (simp add: stored_def inode_ok_def)
  note free = stored_free_at [OF fa(3) w(12,2)]
  let ?j = "?i\<lparr>removed := True\<rparr>"
  have j: "inode_sector ?j = sec" "open_cnt ?j = 1" "removed ?j" "inode_length ?j = inode_length ?i" "inode_data ?j = inode_data ?i"
    "off_data (unat sec) ?j"
    using fa(4) by (simp_all add: disk_inode_def inode_length_def off_data_def data_at_def)
  have h5: "inode_heap ?k5 f = Some ?j" by (simp add: put_inode_def)
  obtain k7 where k7: "inode_close f ?k5 = Inr (k7\<lparr>inode_heap := (inode_heap k7)(f := None)\<rparr>)" "remapped ?k6 k7" "map_ready k7 im"
    "length (flat k7) = length (flat k4)" "bmap (sector_map k7) = released k sec" "bit_cnt (sector_map k7) = bit_cnt (sector_map k)"
    "\<forall>x. inode_ok k4 x \<and> apart im x \<longrightarrow> content k7 x = content k4 x" "synced k7 im"
    using close_removed [OF f(1) h5 j(2,3), of im] ready fa(1,2) j(1,4-6) len fa(5) free fl
    unfolding c5 released_def Let_def by auto
  let ?k8 = "k7\<lparr>inode_heap := (inode_heap k7)(f := None)\<rparr>"
  have "?k6 = (put_inode f (?i\<lparr>removed := True, open_cnt := 0\<rparr>) k4)\<lparr>open_inodes := remove1 f (open_inodes k4)\<rparr>"
    by (simp add: put_inode_def)
  then have op: "opened k p q ?k8" using opened_file_closed [OF o3(1,2)] k7(2) by simp
  have cr: "content k7 x = content k x" if "inode_ok k x \<and> apart im x \<and> apart ?r x" for x
    using that k7(7) k4(5) ok4 by simp
  have rr: "content k7 ?r = content k4 ?r" using k7(7) w(6) ok4 by (simp add: stored_def)
  have dev: "dev_ok (fs_device k7)" "map_shape (sector_map k7)" using k7(3) by (auto simp: map_ready_def live_inode_def)
  show ?thesis
    by (intro exI [of _ ?k8]) (use run k7(1,4-6,8) op k4(2-4) cr rr dev in \<open>simp add: flat_def content_def synced_def\<close>)
qed


section \<open>\<open>filesys_remove\<close>\<close>

text \<open>What does not overlap a file keeps its sectors when that file is released.\<close>

lemma released_occupies:
  assumes "occupies k j" "file_at k im sec" "dev_ok (fs_device k)" "bit_cnt (sector_map k) = length (sectors (fs_device k))"
    and "off_data (unat sec) j" "apart (disk_inode k sec) j" "bmap (sector_map k') = released k sec"
  shows "occupies k' j"
proof -
  have i: "stored k im (disk_inode k sec)" using assms(2) by (simp add: file_at_def)
  have "covered ((bmap (sector_map k))[unat sec := False]) j"
    using covered_clear_one assms(1,5) by (simp add: occupies_covered)
  then show ?thesis
    unfolding occupies_covered assms(7) released_def Let_def
    by (rule covered_clear_run [OF _ assms(6)])
      (use i stored_free_at [OF i assms(3,4)] in \<open>simp_all add: stored_def inode_ok_def free_at_def\<close>)
qed

lemma released_marked:
  assumes "bmap (sector_map k) ! t" "t < bit_cnt (sector_map k)" "t \<noteq> unat sec" "off_data t (disk_inode k sec)"
    and "free_at (bmap (sector_map k)) (sectors_of (inode_length (disk_inode k sec))) True
      (unat (start_sector (inode_data (disk_inode k sec))))" "0 \<le> inode_length (disk_inode k sec)"
  shows "released k sec ! t"
proof -
  let ?i = "disk_inode k sec"
  have n: "int (sectors_of (inode_length ?i)) = (inode_length ?i + 511) div 512" using assms(6) by (simp add: sectors_of_def)
  have "\<not> (unat (start_sector (inode_data ?i)) \<le> t \<and> t < unat (start_sector (inode_data ?i)) + sectors_of (inode_length ?i))"
  proof
    assume a: "unat (start_sector (inode_data ?i)) \<le> t \<and> t < unat (start_sector (inode_data ?i)) + sectors_of (inode_length ?i)"
    then have "512 * t < 512 * unat (start_sector (inode_data ?i)) + nat (inode_length ?i)" using n assms(6) by linarith
    then show False using a assms(4) by (auto simp: off_data_def data_at_def)
  qed
  then show ?thesis
    using assms(1-3,5) by (auto simp: released_def Let_def nth_put_bytes free_at_def nth_list_update)
qed

lemma filesys_remove_outcome:
  assumes inv: "fs_inv k im" and args: "cstr m name s" "length e = 20"
    and c: "\<And>sec. fs_table k s = Some sec \<Longrightarrow> closed sec k"
  shows "case fs_table k s of
     None \<Rightarrow> \<exists>k'. filesys_remove m name e k = Inr (False, k') \<and> remapped k k' \<and> flat k' = flat k \<and> sector_map k' = sector_map k \<and>
       dev_ok (fs_device k')
   | Some sec \<Rightarrow> \<exists>k'. filesys_remove m name e k = Inr (True, k') \<and> remapped k k' \<and> length (flat k') = length (flat k) \<and>
       dev_ok (fs_device k') \<and> map_shape (sector_map k') \<and> synced k' im \<and> bmap (sector_map k') = released k sec \<and>
       bit_cnt (sector_map k') = bit_cnt (sector_map k) \<and> dir_ok (content k' (root_inode k)) \<and>
       dir_table (content k' (root_inode k)) = (fs_table k)(s := None) \<and>
       (\<forall>x. inode_ok k x \<and> apart im x \<and> apart (root_inode k) x \<longrightarrow> content k' x = content k x)"
proof -
  have wf: "fs_wf k im" and files: "\<And>sec. fs_table k s = Some sec \<Longrightarrow> file_at k im sec" using inv by (auto simp: fs_inv_def)
  note w = fs_wfD [OF wf]
  obtain p q k1 where o: "dir_open_root k = Inr (q, k1)" "opened k p q k1" "live_inode k1 p (root_inode k)" "flat k1 = flat k"
    "sector_map k1 = sector_map k"
    using root_opens [OF wf] by blast
  have q: "q \<noteq> 0" "dir_heap k1 q = Some \<lparr>dir_inode = p, dir_pos = 0\<rparr>" using o(2) by (simp_all add: opened_def)
  show ?thesis
  proof (cases "fs_table k s")
    case None
    have c1: "content k1 (root_inode k) = content k (root_inode k)" by (rule flat_content [OF o(4)])
    have dok: "dir_ok (content k1 (root_inode k))" using w(9) c1 by simp
    obtain k2 where k2: "lookup_name q m name e k1 = Inr (None, k2)" "same k1 k2" "flat k2 = flat k1" "dev_ok (fs_device k2)"
      using lookup_name_entry [OF q(2,1) _ dok args] o(3) None unfolding c1 live_inode_def by (fastforce split: option.splits)
    then have dr: "dir_remove q m name e k1 = Inr (False, k2)"
      using q(1) cstr_pos [OF args(1)] by (simp add: dir_remove_def)
    obtain k3 where k3: "dir_close q k2 = Inr k3" "remapped k k3" "fs_device k3 = fs_device k2" "sector_map k3 = sector_map k2"
      using dir_close_root [OF opened_remapped [OF o(2) same_remapped [OF k2(2)]]] by blast
    have "filesys_remove m name e k = Inr (False, k3)" using o(1) q(1) dr k3(1) by (simp add: filesys_remove_def)
    moreover have "flat k3 = flat k" "sector_map k3 = sector_map k" "dev_ok (fs_device k3)"
      using k3(3,4) k2(3,4) o(4,5) same_fields(5) [OF k2(2)] by (simp_all add: flat_def)
    ultimately show ?thesis using k3(2) None by auto
  next
    case (Some sec)
    obtain k2 where k2: "dir_remove q m name e k1 = Inr (True, k2)" "opened k p q k2" "length (flat k2) = length (flat k)"
      "dev_ok (fs_device k2)" "map_shape (sector_map k2)" "bmap (sector_map k2) = released k sec"
      "bit_cnt (sector_map k2) = bit_cnt (sector_map k)" "dir_ok (content k2 (root_inode k))"
      "dir_table (content k2 (root_inode k)) = (fs_table k)(s := None)"
      "\<forall>x. inode_ok k x \<and> apart im x \<and> apart (root_inode k) x \<longrightarrow> content k2 x = content k x" "synced k2 im"
      using dir_remove_removes [OF wf o(2-5) args Some c [OF Some] files [OF Some]] by blast
    obtain k3 where k3: "dir_close q k2 = Inr k3" "remapped k k3" "fs_device k3 = fs_device k2" "sector_map k3 = sector_map k2"
      using dir_close_root [OF k2(2)] by blast
    have "filesys_remove m name e k = Inr (True, k3)" using o(1) q(1) k2(1) k3(1) by (simp add: filesys_remove_def)
    moreover have "flat k3 = flat k2" "content k3 x = content k2 x" for x using k3(3) by (simp_all add: flat_def content_def)
    ultimately show ?thesis using k2(3-11) k3(2-4) Some by (auto simp: synced_def)
  qed
qed


text \<open>Removing a file keeps the invariant, and the other files.\<close>

lemma fs_inv_released:
  assumes inv: "fs_inv k im" and t: "fs_table k s = Some sec"
    and k': "remapped k k'" "length (flat k') = length (flat k)" "dev_ok (fs_device k')" "map_shape (sector_map k')"
      "bmap (sector_map k') = released k sec" "bit_cnt (sector_map k') = bit_cnt (sector_map k)" "dir_ok (content k' (root_inode k))"
      "dir_table (content k' (root_inode k)) = (fs_table k)(s := None)"
      "\<And>x. inode_ok k x \<and> apart im x \<and> apart (root_inode k) x \<Longrightarrow> content k' x = content k x" "synced k' im"
  shows "fs_inv k' im" "root_inode k' = root_inode k"
    "\<And>s' sec'. s' \<noteq> s \<Longrightarrow> fs_table k s' = Some sec' \<Longrightarrow>
       disk_inode k' sec' = disk_inode k sec' \<and> content k' (disk_inode k sec') = content k (disk_inode k sec')"
proof -
  let ?r = "root_inode k" and ?i = "disk_inode k sec"
  have wf: "fs_wf k im" and files: "\<And>s sec. fs_table k s = Some sec \<Longrightarrow> file_at k im sec"
    and dj: "\<And>s s' sec sec'. fs_table k s = Some sec \<Longrightarrow> fs_table k s' = Some sec' \<Longrightarrow> s \<noteq> s' \<Longrightarrow> disjoint k sec sec'"
    using inv unfolding fs_inv_def by blast+
  note w = fs_wfD [OF wf] and fa = files [OF t]
  have i: "stored k im ?i" "sec \<noteq> 0" "sec \<noteq> 1" "off_data 0 ?i" "off_data 1 ?i" "apart ?r ?i" "off_data (unat sec) im" "off_data (unat sec) ?r"
    using fa by (simp_all add: file_at_def)
  have L: "length (sectors (fs_device k')) = length (sectors (fs_device k))"
    using length_flat [OF w(12)] length_flat [OF k'(3)] k'(2) by simp
  have unread: "disk_inode k' x = disk_inode k x" if "unat x < length (sectors (fs_device k))" "stored k im (sector_file x)" "apart ?r (sector_file x)" for x
    by (rule disk_inode_keeps [OF w(12) k'(3,2) that(1) k'(9)]) (use that(2,3) in \<open>simp add: stored_def\<close>)
  show root: "root_inode k' = ?r" by (rule unread) (use w in simp_all)
  have occ: "occupies k' x" if "occupies k x" "off_data (unat sec) x" "apart ?i x" for x
    by (rule released_occupies [OF that(1) fa w(12,2) that(2,3) k'(5)])
  have st: "stored k' im x" if "stored k im x" "off_data (unat sec) x" "apart ?i x" for x
    using that occ same_inode_ok [OF k'(2)] by (simp add: stored_def)
  have mark: "bmap (sector_map k') ! x" if "bmap (sector_map k) ! x" "x < bit_cnt (sector_map k)" "x \<noteq> unat sec" "off_data x ?i" for x
    unfolding k'(5) by (rule released_marked [OF that stored_free_at [OF i(1) w(12,2)]]) (use i(1) in \<open>simp add: stored_def inode_ok_def\<close>)
  have u: "unat sec \<noteq> 0" "unat sec \<noteq> 1" using i(2,3) by (metis unat_0 unat_1 word_unat_eq_iff)+
  have one: "off_data (unat sec) (sector_file 1)" "off_data (unat sec) (sector_file 0)" using u by (auto simp: off_data_def)
  have "map_ready k' im" by (rule map_ready_remapped [OF w(1) k'(1,3,2,4,6)])
  moreover have "bmap (sector_map k') ! 0" by (rule mark) (use w(2-4) u i(4) in auto)
  moreover have "occupies k' im" by (rule occ [OF w(5) i(7)]) (use i(1) in \<open>simp add: stored_def apart_sym\<close>)
  moreover have "stored k' im ?r" by (rule st [OF w(6) i(8)]) (use i(6) in \<open>simp add: apart_sym\<close>)
  moreover have "stored k' im (sector_file 1)" by (rule st [OF w(7) one(1)]) (use off_data_apart [of 1 ?i] i(5) in simp)
  moreover have "stored k' im (sector_file 0)" by (rule st [OF w(16) one(2)]) (use off_data_apart [of 0 ?i] i(4) in simp)
  moreover have "disk_inode k' 0 = disk_inode k 0" by (rule unread) (use w in auto)
  ultimately have wf': "fs_wf k' im"
    using w(2,3,8,15,17) k'(6,7,10) L remapped_closed [OF k'(1) w(10)] remapped_fresh [OF k'(1) w(11)] by (simp add: fs_wf_def root)
  have other: "disk_inode k' sec' = disk_inode k sec'" "file_at k' im sec'" "content k' (disk_inode k sec') = content k (disk_inode k sec')"
    if o: "s' \<noteq> s" "fs_table k s' = Some sec'" for s' sec'
  proof -
    have d: "disjoint k sec sec'" using dj [OF t o(2)] o(1) by simp
    have f: "file_at k im sec'" by (rule files [OF o(2)])
    then have f': "unat sec' < bit_cnt (sector_map k)" "bmap (sector_map k) ! unat sec'" "off_data (unat sec') im" "off_data (unat sec') ?r"
      "stored k im (disk_inode k sec')" "apart ?r (disk_inode k sec')"
      by (simp_all add: file_at_def)
    show di: "disk_inode k' sec' = disk_inode k sec'"
      by (rule unread) (use f' w(2) sector_stored [OF w(2,12) f'(1-3)] off_data_apart [OF f'(4)] in simp_all)
    have "bmap (sector_map k') ! unat sec'" by (rule mark [OF f'(2,1)]) (use d in \<open>auto simp: disjoint_def word_unat_eq_iff\<close>)
    moreover have "stored k' im (disk_inode k sec')" by (rule st [OF f'(5)]) (use d in \<open>auto simp: disjoint_def\<close>)
    ultimately show "file_at k' im sec'" using f k'(6) by (simp add: file_at_def di root)
    show "content k' (disk_inode k sec') = content k (disk_inode k sec')"
      by (rule k'(9)) (use f'(5,6) in \<open>simp add: stored_def\<close>)
  qed
  have tab: "fs_table k' = (fs_table k)(s := None)" using k'(8) by (simp add: root)
  have dj': "disjoint k' a b" if "x \<noteq> s" "y \<noteq> s" "fs_table k x = Some a" "fs_table k y = Some b" "x \<noteq> y" for x y a b
    using dj [OF that(3-5)] other(1) [OF that(1,3)] other(1) [OF that(2,4)] by (simp add: disjoint_def)
  show "fs_inv k' im"
    unfolding fs_inv_def tab using wf' other(2) dj' by (auto split: if_splits)
  show "disk_inode k' sec' = disk_inode k sec' \<and> content k' (disk_inode k sec') = content k (disk_inode k sec')"
    if "s' \<noteq> s" "fs_table k s' = Some sec'" for s' sec'
    using other [OF that] by simp
qed

end
