(* ===== verification/Pintos_Filesys_Format.thy ===== *)
theory Pintos_Filesys_Format
  imports Pintos_Filesys_Remove
begin

text \<open>
  Starting the file system: a device that was in use comes back with the same names, files and free
  map, and formatting makes an empty file system, in which the invariant holds.
\<close>

section \<open>The free map at the start\<close>

lemma bitmap_mark_ok:
  assumes "map_shape b" "i < bit_cnt b"
  shows "\<exists>b'. bitmap_mark b i = Inr b' \<and> map_shape b' \<and> bmap b' = (bmap b)[i := True] \<and> bit_cnt b' = bit_cnt b"
proof -
  have wf: "bitmap_wf b" using assms(1) by (simp add: map_shape_def)
  obtain b' where b': "bitmap_set b i True = Inr b'" "bitmap_wf b'" "bmap b' = (bmap b)[i := True]" "bit_cnt b' = bit_cnt b"
    using bitmap_set_bmap [OF wf assms(2)] by blast
  then have "map_shape b'" using bitmap_set_shape [OF b'(1)] assms(1) by (simp add: map_shape_def)
  moreover have "bitmap_mark b i = Inr b'" using b'(1) assms(2) by (simp add: bitmap_set_def)
  ultimately show ?thesis using b'(3,4) by blast
qed

lemma free_map_init_ok:
  assumes "2 \<le> n" "n + 31 < 2 ^ 32" "mb (byte_cnt n) = Some ws" "length ws = elem_cnt n"
  shows "\<exists>b. free_map_init True mb n = Inr \<lparr>free_map = b, free_map_file = None\<rparr> \<and> map_shape b \<and> bit_cnt b = n \<and>
    bmap b = (replicate n False)[0 := True, 1 := True]"
proof -
  obtain b where b: "bitmap_create True mb n = Inr (Some b)" "bitmap_wf b" "bmap b = replicate n False"
    using bitmap_create_bmap [of n mb ws] assms(2-4) by blast
  then have n: "bit_cnt b = n" by (metis length_bmap length_replicate)
  have "length (bits b) = elem_cnt n"
    using b(1) assms(3,4) by (auto simp: bitmap_create_def bitmap_set_all_def dest: set_multiple_shape)
  then have s: "map_shape b" using b(2) n by (simp add: map_shape_def)
  obtain b1 where b1: "bitmap_mark b 0 = Inr b1" "map_shape b1" "bmap b1 = (bmap b)[0 := True]" "bit_cnt b1 = bit_cnt b"
    using bitmap_mark_ok [OF s, of 0] assms(1) n by auto
  obtain b2 where b2: "bitmap_mark b1 1 = Inr b2" "map_shape b2" "bmap b2 = (bmap b1)[1 := True]" "bit_cnt b2 = bit_cnt b1"
    using bitmap_mark_ok [OF b1(2), of 1] assms(1) n b1(4) by auto
  show ?thesis
    using b(1,3) b1(1,3,4) b2 n by (simp add: free_map_init_def FREE_MAP_SECTOR_def ROOT_DIR_SECTOR_def)
qed

section \<open>Opening and closing the map's file\<close>

text \<open>\<open>mapped k f p k'\<close>: in \<open>k'\<close> the map's file is open too, at \<open>p\<close>, with the inode of sector 0 at \<open>f\<close>.\<close>

definition mapped :: "fs \<Rightarrow> addr \<Rightarrow> addr \<Rightarrow> fs \<Rightarrow> bool" where
  "mapped k f p k' \<longleftrightarrow> f \<noteq> 0 \<and> p \<noteq> 0 \<and> inode_heap k f = None \<and> file_heap k p = None \<and> map_file k' = p \<and>
     open_inodes k' = f # open_inodes k \<and> inode_heap k' = (inode_heap k)(f \<mapsto> disk_inode k 0) \<and>
     file_heap k' = (file_heap k)(p \<mapsto> \<lparr>file_inode = f, file_pos = 0, file_deny = False\<rparr>) \<and> dir_heap k' = dir_heap k \<and>
     block_type (fs_device k') = block_type (fs_device k) \<and> block_size (fs_device k') = block_size (fs_device k)"

lemma open_map_file:
  assumes k: "dev_ok (fs_device k)" "fresh k" "closed 0 k" "0 < length (sectors (fs_device k))"
    and i: "inode_ok k (disk_inode k 0)" "inode_length (disk_inode k 0) = int (bitmap_file_size (sector_map k))" "map_shape (sector_map k)"
  shows "\<exists>f p k'. bindE (inode_open 0 k) (\<lambda>(inode, k). file_open inode k) = Inr (p, k') \<and> p \<noteq> 0 \<and>
    mapped k f p (k'\<lparr>map_file := p\<rparr>) \<and> map_ready (k'\<lparr>map_file := p\<rparr>) (disk_inode k 0) \<and> fresh (k'\<lparr>map_file := p\<rparr>) \<and>
    sectors (fs_device k') = sectors (fs_device k) \<and> sector_map k' = sector_map k"
proof -
  have fr: "mallocs k n \<noteq> 0" "inode_heap k (mallocs k n) = None" "file_heap k (mallocs k n) = None" for n
    using k(2) by (simp_all add: fresh_def)
  then have nf: "no_fail k" by (simp add: no_fail_def)
  let ?f = "mallocs k 0" and ?p = "mallocs k 1" and ?i = "disk_inode k 0"
  let ?k1 = "put_inode ?f ?i (counted (bump 1 k)\<lparr>open_inodes := ?f # open_inodes k\<rparr>)"
  let ?k2 = "put_file ?p \<lparr>file_inode = ?f, file_pos = 0, file_deny = False\<rparr> (bump 1 ?k1)"
  have "inode_open 0 k = Inr (?f, ?k1)" by (rule inode_open_closed [OF k(3,1) _ nf]) (use k(4) in simp)
  moreover have "malloc ?k1 = (?p, bump 1 ?k1)" by (simp add: malloc_bump) (simp add: put_inode_def counted_def bump_def)
  ultimately have run: "bindE (inode_open 0 k) (\<lambda>(inode, k). file_open inode k) = Inr (?p, ?k2)"
    using fr(1) by (simp add: file_open_def)
  let ?k3 = "?k2\<lparr>map_file := ?p\<rparr>"
  have m: "mapped k ?f ?p ?k3"
    using fr by (simp add: mapped_def put_file_def put_inode_def counted_def bump_def)
  have d: "dev_ok (fs_device ?k3)" "flat ?k3 = flat k" "sectors (fs_device ?k3) = sectors (fs_device k)" "sector_map ?k3 = sector_map k"
    using k(1) by (simp_all add: put_file_def put_inode_def counted_def bump_def dev_ok_def flat_def)
  have "mallocs ?k3 = (\<lambda>n. mallocs k (n + 2))"
    by (simp add: put_file_def put_inode_def counted_def bump_def)
  moreover have "mallocs k (n + 2) \<noteq> ?f" "mallocs k (n + 2) \<noteq> ?p" for n using k(2) by (auto simp: fresh_def dest: injD)
  ultimately have "fresh ?k3"
    using k(2) m by (auto simp: fresh_def mapped_def intro!: injI dest: injD)
  moreover have "map_ready ?k3 ?i"
    using m d i calculation same_inode_ok [of ?k3 k] by (simp add: map_ready_def mapped_def live_inode_def no_fail_def fresh_def disk_inode_def)
  ultimately show ?thesis using run fr(1) m d by (intro exI [of _ ?f] exI [of _ ?p] exI [of _ ?k2]) simp
qed

text \<open>Mounting: \<open>free_map_open\<close> on a device that holds a map of the right size.\<close>

lemma map_open_mounts:
  assumes k: "dev_ok (fs_device k)" "fresh k" "closed 0 k" "0 < length (sectors (fs_device k))"
    and i: "inode_ok k (disk_inode k 0)" "inode_length (disk_inode k 0) = int (bitmap_file_size (sector_map k))" "map_shape (sector_map k)"
    and b: "content k (disk_inode k 0) = bitmap_write b" "map_shape b" "bit_cnt b = bit_cnt (sector_map k)"
  shows "\<exists>f p k'. map_open k = Inr k' \<and> mapped k f p k' \<and> map_ready k' (disk_inode k 0) \<and> fresh k' \<and> dev_ok (fs_device k') \<and>
    flat k' = flat k \<and> bmap (sector_map k') = bmap b \<and> bit_cnt (sector_map k') = bit_cnt b"
proof -
  obtain f p k1 where o: "bindE (inode_open 0 k) (\<lambda>(inode, k). file_open inode k) = Inr (p, k1)" "p \<noteq> 0"
    "mapped k f p (k1\<lparr>map_file := p\<rparr>)" "map_ready (k1\<lparr>map_file := p\<rparr>) (disk_inode k 0)" "fresh (k1\<lparr>map_file := p\<rparr>)"
    "sectors (fs_device k1) = sectors (fs_device k)" "sector_map k1 = sector_map k"
    using open_map_file [OF k i] by blast
  let ?k2 = "k1\<lparr>map_file := p\<rparr>"
  have fl: "flat ?k2 = flat k" using o(6) by (simp add: flat_def)
  have c: "content ?k2 (disk_inode k 0) = bitmap_write b" using b(1) fl by (simp add: content_def)
  have bc: "bit_cnt b = bit_cnt (sector_map ?k2)" using b(3) o(7) by simp
  obtain k3 where k3: "map_read ?k2 = Inr (True, k3)" "bmap (sector_map k3) = bmap b" "flat k3 = flat ?k2" "remapped ?k2 k3"
    "dev_ok (fs_device k3)" "map_shape (sector_map k3)"
    using map_read_back [OF o(4) c b(2) bc] by blast
  have bc3: "bit_cnt (sector_map k3) = bit_cnt b" using k3(2) by (metis length_bmap)
  have "map_open k = bindE (bindE (inode_open 0 k) (\<lambda>(inode, k). file_open inode k)) (\<lambda>(file, k).
      if file = 0 then Inl KernelPanic
      else bindE (map_read (k\<lparr>map_file := file\<rparr>)) (\<lambda>(success, k). if success then Inr k else Inl KernelPanic))"
    by (simp add: map_open_def FREE_MAP_SECTOR_def bindE_assoc)
      (intro arg_cong2 [where f = bindE] refl ext; clarsimp)
  then have run: "map_open k = Inr k3" using o(2) k3(1) by (simp only: o(1)) simp
  have "map_ready k3 (disk_inode k 0)"
    by (rule map_ready_remapped [OF o(4) k3(4,5) _ k3(6)]) (use k3(3) bc bc3 in simp_all)
  moreover have "mapped k f p k3"
    using o(3) remapped_fields(1-6) [OF k3(4)] remapped_type [OF k3(4)] unfolding mapped_def by metis
  ultimately show ?thesis
    by (intro exI [of _ f] exI [of _ p] exI [of _ k3]) (use run remapped_fresh [OF k3(4) o(5)] k3(2,3,5) fl bc3 in simp)
qed


section \<open>Starting on a device that was in use\<close>

text \<open>The memory of the file system after a start has nothing of the one before; the device is the same.\<close>

lemma filesys_init_mounts:
  assumes inv: "fs_inv k im" and k0: "fs_device k0 = fs_device k" "fresh (k0\<lparr>open_inodes := []\<rparr>)"
    and mem: "mb (byte_cnt (bit_cnt (sector_map k))) = Some ws" "length ws = elem_cnt (bit_cnt (sector_map k))"
  shows "\<exists>k'. filesys_init False True mb k0 = Inr k' \<and> fs_inv k' (disk_inode k 0) \<and> flat k' = flat k \<and>
    bmap (sector_map k') = bmap (sector_map k) \<and> fs_table k' = fs_table k"
proof -
  have wf: "fs_wf k im" using inv by (simp add: fs_inv_def)
  note w = fs_wfD [OF wf] and i = fs_wf_cong_im [OF w(15)]
  let ?i = "disk_inode k 0" and ?N = "bit_cnt (sector_map k)"
  have bw: "bitmap_wf (sector_map k)" using w(1) by (simp add: map_ready_def map_shape_def)
  have N: "2 \<le> ?N" "?N + 31 < 2 ^ 32" "unat (block_size (fs_device k)) = ?N"
    using w(2,3,12) bw by (simp_all add: dev_ok_def bitmap_wf_def)
  obtain b where b: "free_map_init True mb ?N = Inr \<lparr>free_map = b, free_map_file = None\<rparr>" "map_shape b" "bit_cnt b = ?N"
    using free_map_init_ok [of ?N mb ws] N(1,2) mem by blast
  let ?k = "k0\<lparr>open_inodes := [], sector_map := b, map_file := 0\<rparr>"
  have same: "sectors (fs_device ?k) = sectors (fs_device k)" "flat ?k = flat k" "dev_ok (fs_device ?k)"
    using k0(1) w(12) by (simp_all add: flat_def)
  have f: "fresh ?k" using k0(2) by (simp add: fresh_def)
  have d: "disk_inode ?k s = disk_inode k s" for s using same(1) by (simp add: disk_inode_def)
  have imok: "inode_ok k im" "inode_length im = int (bitmap_file_size (sector_map k))"
    using w(1) by (auto simp: map_ready_def live_inode_def)
  obtain bb where bb: "map_shape bb" "bmap bb = bmap (sector_map k)" "content k im = bitmap_write bb"
    using w(14) by (auto simp: synced_def)
  have bc: "bit_cnt bb = ?N" using bb(2) by (metis length_bmap)
  have cl: "closed 0 ?k" by (simp add: closed_def)
  have l0: "0 < length (sectors (fs_device ?k))" using same(1) w(3) by (metis not_less_zero zero_less_iff_neq_zero)
  have pre: "0 < length (sectors (fs_device ?k))" "inode_ok ?k (disk_inode ?k 0)"
    "inode_length (disk_inode ?k 0) = int (bitmap_file_size (sector_map ?k))" "map_shape (sector_map ?k) = map_shape b"
    "content ?k (disk_inode ?k 0) = bitmap_write bb" "bit_cnt bb = bit_cnt (sector_map ?k)"
    using l0 imok i(4,6,7) b(3) bb(3) bc flat_content [OF same(2)] same(2)
    unfolding d by (simp_all add: bitmap_file_size_def inode_ok_def)
  obtain g p k' where k': "map_open ?k = Inr k'" "mapped ?k g p k'" "map_ready k' (disk_inode ?k 0)" "fresh k'" "dev_ok (fs_device k')"
    "flat k' = flat ?k" "bmap (sector_map k') = bmap bb" "bit_cnt (sector_map k') = bit_cnt bb"
    using map_open_mounts [OF same(3) f cl pre(1-3) pre(4) [THEN iffD2, OF b(2)] pre(5) bb(1) pre(6)] by blast
  have run: "filesys_init False True mb k0 = Inr k'"
    using b(1) N(3) k0(1) k'(1) by (simp add: filesys_init_def)
  have "closed 1 k'" using k'(2) by (auto simp: mapped_def closed_def disk_inode_def)
  then have "fs_inv k' (disk_inode k 0)" "fs_table k' = fs_table k"
    using fs_inv_device [OF inv k'(3) [unfolded d] w(15) k'(5) _ _ _ k'(4)] k'(6,7) same(2) bb(2) by simp_all
  then show ?thesis using run k'(6,7) same(2) bb(2) by auto
qed


section \<open>Formatting\<close>

text \<open>The free map's own inode is created before its file is open, so the map is not written yet.\<close>

lemma inode_create_first:
  assumes k: "map_file k = 0" "dev_ok (fs_device k)" "no_fail k" "map_shape (sector_map k)"
    "bit_cnt (sector_map k) = length (sectors (fs_device k))"
    and len: "0 \<le> len" "len + 512 < 2 ^ 31" and sec: "unat sec < bit_cnt (sector_map k)" "bmap (sector_map k) ! unat sec"
    and free: "free_at (bmap (sector_map k)) (sectors_of len) False s"
  shows "\<exists>start k'. inode_create sec len k = Inr (True, k') \<and> free_at (bmap (sector_map k)) (sectors_of len) False (unat start) \<and>
    bmap (sector_map k') = put_bytes (bmap (sector_map k)) (unat start) (replicate (sectors_of len) True) \<and>
    map_shape (sector_map k') \<and> bit_cnt (sector_map k') = bit_cnt (sector_map k) \<and> remapped k k' \<and> dev_ok (fs_device k') \<and>
    length (flat k') = length (flat k) \<and> inode_data (disk_inode k' sec) = new_inode start len \<and> inode_ok k' (disk_inode k' sec)"
proof -
  let ?m = "bmap (sector_map k)" and ?n = "sectors_of len"
  have wf: "bitmap_wf (sector_map k)" using k(4) by (simp add: map_shape_def)
  have "\<exists>j. free_at ?m ?n False j" using free by blast
  then obtain t b where t: "bitmap_scan_and_flip (sector_map k) 0 ?n False = Inr (t, b)" "bitmap_wf b" "t \<noteq> BITMAP_ERROR"
    "free_at ?m ?n False t" "bmap b = put_bytes ?m t (replicate ?n True)"
    using bitmap.take_ok [OF wf, of ?n] by auto
  have sh: "map_shape b" "bit_cnt b = bit_cnt (sector_map k)"
    using scan_and_flip_shape [OF t(1)] t(2) k(4) by (auto simp: map_shape_def)
  have "t \<le> bit_cnt (sector_map k)" using t(4) by (simp add: free_at_def)
  then have u: "unat (of_nat t :: word_t) = t"
    using wf by (simp add: bitmap_wf_def unat_of_nat take_bit_nat_eq_self)
  let ?k1 = "(bump 1 k)\<lparr>sector_map := b\<rparr>" and ?d = "new_inode (of_nat t) len"
  have m: "malloc k = (mallocs k 0, bump 1 k)" "mallocs k 0 \<noteq> 0" using k(3) by (simp_all add: malloc_bump no_fail_def)
  have al: "allocate_sectors ?n (bump 1 k) = Inr (Some (of_nat t), ?k1)"
    using t(1,3) k(1) by (simp add: allocate_sectors_def bump_def Let_def)
  have e: "length (encode_inode ?d) = 512" by (rule length_encode) (simp add: new_inode_def)
  have same: "fs_device ?k1 = fs_device k" "flat ?k1 = flat k" by (simp_all add: bump_def flat_def)
  have b1: "unat sec < length (sectors (fs_device ?k1))" "unat (of_nat t :: word_t) + ?n \<le> length (sectors (fs_device ?k1))"
    "\<not> (unat (of_nat t :: word_t) \<le> unat sec \<and> unat sec < unat (of_nat t :: word_t) + ?n)"
    using sec t(4) k(5) same(1) unfolding u by (auto simp: free_at_def dest!: spec [of _ "unat sec - t"])
  have dev1: "dev_ok (fs_device ?k1)" using k(2) same(1) by simp
  obtain k' where k': "bindE (fs_write sec (encode_inode ?d) ?k1) (zero_sectors ?n (of_nat t)) = Inr k'" "same ?k1 k'" "dev_ok (fs_device k')"
    "length (flat k') = length (flat ?k1)" "sectors (fs_device k') ! unat sec = encode_inode ?d"
    "take (512 * ?n) (drop (512 * unat (of_nat t :: word_t)) (flat k')) = replicate (512 * ?n) 0"
    using create_writes [OF dev1 b1 e] by blast
  have run: "inode_create sec len k = Inr (True, k')"
    using len m al k'(1) bytes_to_sectors_ok [OF len, folded sectors_of_def]
    by (simp add: inode_create_def new_inode_def bindE_assoc [symmetric])
  have sm: "sector_map k' = b" using same_fields(5) [OF k'(2)] by simp
  have "remapped k (bump 1 k)" by (rule remappedI [where j = 1]) (simp_all add: bump_def)
  moreover have "remapped (bump 1 k) k'" using k'(2) sm by (simp add: remapped_def)
  ultimately have r: "remapped k k'" by (rule remapped_trans)
  have d: "inode_data (disk_inode k' sec) = ?d" by (simp add: disk_inode_def k'(5) decode_encode)
  have "length (flat k') = 512 * length (sectors (fs_device ?k1))" using k'(4) length_flat [OF dev1] by simp
  then have "inode_ok k' (disk_inode k' sec)"
    using new_inode_content [OF k'(6) _ sectors_of_enough [OF len(1)] len d] b1(2) by simp
  then show ?thesis
    by (intro exI [of _ "of_nat t"] exI [of _ k']) (use run t(4,5) sm sh r k'(3,4) same(2) d u in simp)
qed

text \<open>Closing the map's file again.\<close>

lemma map_close_closes:
  assumes m: "mapped k f p k1" "remapped k1 k2" and j: "fresh k1"
  shows "\<exists>k3. map_close k2 = Inr k3 \<and> fs_device k3 = fs_device k2 \<and> sector_map k3 = sector_map k2 \<and> open_inodes k3 = open_inodes k \<and>
    fresh k3"
proof -
  have f: "f \<noteq> 0" "p \<noteq> 0" "inode_heap k f = None" "file_heap k p = None" "map_file k2 = p" "open_inodes k2 = f # open_inodes k"
    "inode_heap k2 = (inode_heap k)(f \<mapsto> disk_inode k 0)"
    "file_heap k2 = (file_heap k)(p \<mapsto> \<lparr>file_inode = f, file_pos = 0, file_deny = False\<rparr>)"
    using m(1) remapped_fields(1-5) [OF m(2)] by (simp_all add: mapped_def)
  let ?k3 = "k2\<lparr>open_inodes := remove1 f (open_inodes k2), inode_heap := (inode_heap k2)(f := None)\<rparr>"
  have "inode_close f k2 = Inr ?k3"
    by (rule inode_close_last [OF f(1)]) (use f(7) in \<open>auto simp: disk_inode_def\<close>)
  then have "map_close k2 = Inr (?k3\<lparr>file_heap := (file_heap ?k3)(p := None)\<rparr>)"
    using f(2,5,8) by (simp add: map_close_def file_close_def file_allow_write_def follow_def)
  moreover have "fresh k2" by (rule remapped_fresh [OF m(2) j])
  then have "fresh (?k3\<lparr>file_heap := (file_heap ?k3)(p := None)\<rparr>)" by (auto simp: fresh_def)
  ultimately show ?thesis using f(6) by simp
qed


lemma mapped_remapped: "mapped k f p k1 \<Longrightarrow> remapped k1 k2 \<Longrightarrow> mapped k f p k2"
  using remapped_fields(1-6) [of k1 k2] remapped_type [of k1 k2] unfolding mapped_def by metis

lemma map_create_creates:
  fixes k :: fs
  defines "len \<equiv> int (bitmap_file_size (sector_map k))"
  assumes k: "map_file k = 0" "dev_ok (fs_device k)" "fresh k" "open_inodes k = []" "map_shape (sector_map k)"
    "bit_cnt (sector_map k) = length (sectors (fs_device k))" "0 < bit_cnt (sector_map k)" "bmap (sector_map k) ! 0"
    and len: "len + 512 < 2 ^ 31" and free: "free_at (bmap (sector_map k)) (sectors_of len) False s"
  shows "\<exists>f p k1 k2 im start. map_create k = Inr k2 \<and> open_inodes k1 = [] \<and> mapped k1 f p k2 \<and> fresh k2 \<and> map_ready k2 im \<and>
    synced k2 im \<and> disk_inode k2 0 = im \<and> inode_data im = new_inode start len \<and>
    free_at (bmap (sector_map k)) (sectors_of len) False (unat start) \<and>
    bmap (sector_map k2) = put_bytes (bmap (sector_map k)) (unat start) (replicate (sectors_of len) True) \<and>
    length (flat k2) = length (flat k)"
proof -
  have l0: "0 \<le> len" by (simp add: len_def)
  have z: "unat (0 :: word_t) < bit_cnt (sector_map k)" "bmap (sector_map k) ! unat (0 :: word_t)" using k(7,8) by simp_all
  have nf: "no_fail k" using k(3) by (simp add: fresh_def no_fail_def)
  obtain start k1 where c: "inode_create 0 len k = Inr (True, k1)" "free_at (bmap (sector_map k)) (sectors_of len) False (unat start)"
    "bmap (sector_map k1) = put_bytes (bmap (sector_map k)) (unat start) (replicate (sectors_of len) True)"
    "map_shape (sector_map k1)" "bit_cnt (sector_map k1) = bit_cnt (sector_map k)" "remapped k k1" "dev_ok (fs_device k1)"
    "length (flat k1) = length (flat k)" "inode_data (disk_inode k1 0) = new_inode start len" "inode_ok k1 (disk_inode k1 0)"
    using inode_create_first [OF k(1,2) nf k(5,6) l0 len z free] by blast
  let ?im = "disk_inode k1 0"
  have o1: "open_inodes k1 = []" using remapped_fields(1) [OF c(6)] k(4) by simp
  have L1: "length (sectors (fs_device k1)) = bit_cnt (sector_map k)"
    using length_flat [OF k(2)] length_flat [OF c(7)] c(8) k(6) by simp
  have il: "inode_length ?im = int (bitmap_file_size (sector_map k1))" "data_at ?im = 512 * unat start"
    using new_inode_at [OF c(9) l0 len] c(5) by (simp_all add: len_def bitmap_file_size_def)
  have f1: "fresh k1" "closed 0 k1" "0 < length (sectors (fs_device k1))"
    using remapped_fresh [OF c(6) k(3)] o1 L1 k(7) by (simp_all add: closed_def)
  obtain f p k2 where o: "bindE (inode_open 0 k1) (\<lambda>(inode, k). file_open inode k) = Inr (p, k2)" "p \<noteq> 0"
    "mapped k1 f p (k2\<lparr>map_file := p\<rparr>)" "map_ready (k2\<lparr>map_file := p\<rparr>) ?im" "fresh (k2\<lparr>map_file := p\<rparr>)"
    "sectors (fs_device k2) = sectors (fs_device k1)" "sector_map k2 = sector_map k1"
    using open_map_file [OF c(7) f1 c(10) il(1) c(4)] by blast
  let ?k2 = "k2\<lparr>map_file := p\<rparr>"
  obtain k3 where k3: "map_write ?k2 = Inr (True, k3)" "same ?k2 k3" "map_ready k3 ?im" "synced k3 ?im" "length (flat k3) = length (flat ?k2)"
    "\<forall>j. inode_ok ?k2 j \<and> apart ?im j \<longrightarrow> content k3 j = content ?k2 j"
    using map_write_syncs [OF o(4)] by blast
  have fl2: "flat ?k2 = flat k1" using o(6) by (simp add: flat_def)
  have dev: "dev_ok (fs_device ?k2)" "dev_ok (fs_device k3)" using o(4) k3(3) by (auto simp: map_ready_def live_inode_def)
  have "map_create k = bindE (inode_create 0 len k) (\<lambda>(created, k). if \<not> created then Inl KernelPanic
      else bindE (bindE (inode_open 0 k) (\<lambda>(inode, k). file_open inode k)) (\<lambda>(file, k).
        if file = 0 then Inl KernelPanic
        else bindE (map_write (k\<lparr>map_file := file\<rparr>)) (\<lambda>(success, k). if success then Inr k else Inl KernelPanic)))"
    unfolding map_create_def FREE_MAP_SECTOR_def len_def bindE_assoc
    by (intro arg_cong2 [where f = bindE] refl ext; clarsimp; intro arg_cong2 [where f = bindE] refl ext; clarsimp)
  then have run: "map_create k = Inr k3" using c(1) o(2) k3(1) by (simp only: o(1) c(1)) (simp add: o(1))
  have "off_data 0 ?im"
    by (rule free_run_off [OF c(2) k(8) il(2)])
      (use new_inode_at(1) [OF c(9) l0 len] sectors_of_enough [OF l0] in simp)
  then have "apart ?im (sector_file 0)" using off_data_apart [of 0 ?im] by simp
  moreover have "inode_ok ?k2 (sector_file 0)" using length_flat [OF c(7)] L1 k(7) fl2 by (simp add: inode_ok_def)
  ultimately have "content k3 (sector_file 0) = content ?k2 (sector_file 0)" using k3(6) by blast
  moreover have "unat (0 :: word_t) < length (sectors (fs_device ?k2))" using o(6) L1 k(7) by simp
  ultimately have "disk_inode k3 0 = disk_inode ?k2 0" using disk_inode_keeps [OF dev k3(5)] by blast
  then have d: "disk_inode k3 0 = ?im" using o(6) by (simp add: disk_inode_def)
  have "bmap (sector_map k3) = bmap (sector_map k1)" using same_fields(5) [OF k3(2)] o(7) by simp
  then show ?thesis
    by (intro exI [of _ f] exI [of _ p] exI [of _ k1] exI [of _ k3] exI [of _ ?im] exI [of _ start])
      (use run o1 mapped_remapped [OF o(3) same_remapped [OF k3(2)]] remapped_fresh [OF same_remapped [OF k3(2)] o(5)] k3(3-5) d c(2,3,8,9) fl2
        in simp)
qed


text \<open>The root directory: 16 free entries in a sector of its own.\<close>

lemma dir_create_root:
  assumes k: "map_ready k im" "synced k im" "bit_cnt (sector_map k) = length (sectors (fs_device k))" "1 < bit_cnt (sector_map k)"
    and m: "bmap (sector_map k) ! 0" "bmap (sector_map k) ! 1" "occupies k im" "off_data 0 im" "off_data 1 im" "disk_inode k 0 = im"
    and free: "free_at (bmap (sector_map k)) 1 False s"
  shows "\<exists>k' (start :: word_t). dir_create 1 16 k = Inr (True, k') \<and> map_ready k' im \<and> synced k' im \<and> remapped k k' \<and>
    length (flat k') = length (flat k) \<and> bmap (sector_map k') = (bmap (sector_map k))[unat start := True] \<and>
    unat start < bit_cnt (sector_map k) \<and> disk_inode k' 0 = im \<and> stored k' im (root_inode k') \<and>
    content k' (root_inode k') = replicate 320 0 \<and> apart (root_inode k') (sector_file 0) \<and> apart (root_inode k') (sector_file 1)"
proof -
  let ?m = "bmap (sector_map k)"
  have dev: "dev_ok (fs_device k)" using k(1) by (auto simp: map_ready_def live_inode_def)
  have n: "nat ((320 + 511) div 512) = 1" by simp
  have pre: "(0 :: int) \<le> 320" "(320 :: int) + 512 < 2 ^ 31" "off_data (unat (1 :: word_t)) im" "unat (1 :: word_t) < bit_cnt (sector_map k)"
    "?m ! unat (1 :: word_t)" using k(4) m by simp_all
  from inode_create_creates [OF k(1) pre(1,2) k(3) m(3) pre(3-5), unfolded n]
  obtain added k' where k': "inode_create 1 320 k = Inr (added, k')" "map_ready k' im" "remapped k k'" "length (flat k') = length (flat k)"
    "synced k im \<longrightarrow> synced k' im" "added \<longleftrightarrow> (\<exists>s. free_at ?m 1 False s)"
    and y: "added \<longrightarrow> (\<exists>start. free_at ?m 1 False (unat start) \<and> bmap (sector_map k') = put_bytes ?m (unat start) (replicate 1 True) \<and>
      synced k' im \<and> decode_inode (sectors (fs_device k') ! unat (1 :: word_t)) = new_inode start 320 \<and>
      (\<forall>j. inode_data j = new_inode start 320 \<longrightarrow> inode_ok k' j \<and> content k' j = replicate (nat 320) 0) \<and>
      (\<forall>j. inode_ok k j \<and> occupies k j \<and> apart im j \<and> off_data (unat (1 :: word_t)) j \<longrightarrow> content k' j = content k j))"
    by blast
  have a: "added" using k'(6) free by blast
  obtain start where st: "free_at ?m 1 False (unat start)" "bmap (sector_map k') = put_bytes ?m (unat start) (replicate 1 True)"
      "decode_inode (sectors (fs_device k') ! 1) = new_inode start 320"
      "\<forall>j. inode_data j = new_inode start 320 \<longrightarrow> inode_ok k' j \<and> content k' j = replicate 320 0"
      "\<forall>j. inode_ok k j \<and> occupies k j \<and> apart im j \<and> off_data 1 j \<longrightarrow> content k' j = content k j"
    using y a by auto
  have root: "inode_data (root_inode k') = new_inode start 320" using st(3) by (simp add: disk_inode_def)
  note l = new_inode_at [OF root pre(1,2)]
  have sl: "unat start < bit_cnt (sector_map k)" using st(1) by (simp add: free_at_def)
  have bm: "bmap (sector_map k') = ?m[unat start := True]"
    unfolding st(2) using sl by (intro nth_equalityI) (auto simp: nth_put_bytes nth_list_update)
  then have bc: "bit_cnt (sector_map k') = bit_cnt (sector_map k)" by (metis length_bmap length_list_update)
  have "occupies k' (root_inode k')"
    by (rule occupies_run [where n = 1 and s = start]) (use bm bc sl l in simp_all)
  moreover have "apart im (root_inode k')"
    using occupies_apart [OF m(3) st(1)] l by (auto simp: apart_def)
  ultimately have stored: "stored k' im (root_inode k')" using st(4) root by (simp add: stored_def)
  have run_off: "off_data t (root_inode k')" if "?m ! t" for t by (rule free_run_off [OF st(1) that l(2)]) (use l in simp)
  have z: "unat (0 :: word_t) < bit_cnt (sector_map k)" "?m ! unat (0 :: word_t)" "off_data (unat (0 :: word_t)) im" using k(4) m by simp_all
  have dev': "dev_ok (fs_device k')" using k'(2) by (auto simp: map_ready_def live_inode_def)
  have "off_data 1 (sector_file 0)" by (simp add: off_data_def)
  then have "content k' (sector_file 0) = content k (sector_file 0)"
    using st(5) sector_stored [OF k(3) dev z] by (simp add: stored_def)
  moreover have "unat (0 :: word_t) < length (sectors (fs_device k))" using z(1) k(3) by simp
  ultimately have "disk_inode k' 0 = im" using disk_inode_keeps [OF dev dev' k'(4), of 0] m(6) by simp
  moreover have "apart (root_inode k') (sector_file 0)" "apart (root_inode k') (sector_file 1)"
    using off_data_apart [of 0 "root_inode k'"] off_data_apart [of 1 "root_inode k'"] run_off [OF m(1)] run_off [OF m(2)] by simp_all
  moreover have "dir_create 1 16 k = Inr (True, k')"
    using k'(1) a by (simp add: dir_create_def entry_size_def)
  moreover have "content k' (root_inode k') = replicate 320 0" using st(4) root by blast
  ultimately show ?thesis using k'(2-5) k(2) bm sl stored by blast
qed


lemma empty_slots: "slots (replicate 320 0) = replicate 16 (replicate 20 0)"
  by (rule nth_equalityI) (simp_all add: slots_def)

lemma empty_directory: "dir_ok (replicate 320 0)" "dir_table (replicate 320 0) = Map.empty"
proof -
  have f: "filter entry_in_use (slots (replicate 320 0)) = []"
    by (simp add: empty_slots entry_in_use_def)
  then show "dir_table (replicate 320 0) = Map.empty" by (simp add: dir_table_def)
  have "entry_ok (replicate 20 0)" by (simp add: entry_ok_def entry_in_use_def)
  then show "dir_ok (replicate 320 0)" using f by (simp add: dir_ok_def) (simp add: empty_slots)
qed

text \<open>There is room for the directory wherever the map went.\<close>

lemma free_after_run:
  assumes "free_at m n False start" "start + n \<le> length m" "n + 3 \<le> length m" "m = (replicate (length m) False)[0 := True, 1 := True]"
  shows "\<exists>s. free_at (put_bytes m start (replicate n True)) 1 False s"
proof -
  have m: "m ! i = (i < 2)" if "i < length m" for i
  proof -
    have "m \<noteq> []" using assms(3) by auto
    then show ?thesis using that assms(3) by (subst assms(4)) (auto simp: nth_list_update split: if_splits)
  qed
  let ?s = "if start \<le> 2 then start + n else 2"
  have a: "2 \<le> start \<or> n = 0"
  proof (rule ccontr)
    assume x: "\<not> ?thesis"
    then have "m ! start = False" using assms(1) by (auto simp: free_at_def dest: spec [of _ 0])
    then show False using m [of start] x assms(2) by simp
  qed
  show ?thesis
  proof (cases "n = 0")
    case True
    then have "free_at (put_bytes m start (replicate n True)) 1 False 2" using m [of 2] assms(3) by (simp add: free_at_def)
    then show ?thesis ..
  next
    case False
    then have "2 \<le> start" using a by simp
    then have "free_at (put_bytes m start (replicate n True)) 1 False ?s"
      using m [of ?s] assms(2,3) False by (auto simp: free_at_def nth_put_bytes)
    then show ?thesis ..
  qed
qed


text \<open>Formatting leaves an empty file system, in which the invariant holds.\<close>

lemma filesys_init_formats:
  fixes k0 :: fs
  defines "n \<equiv> unat (block_size (fs_device k0))"
  assumes k0: "dev_ok (fs_device k0)" "fresh (k0\<lparr>open_inodes := []\<rparr>)"
    and n: "n + 31 < 2 ^ 32" "sectors_of (int (byte_cnt n)) + 3 \<le> n"
    and mem: "mb (byte_cnt n) = Some ws" "length ws = elem_cnt n"
  shows "\<exists>k' im. filesys_init True True mb k0 = Inr k' \<and> fs_inv k' im \<and> fs_table k' = Map.empty \<and>
    content k' (root_inode k') = replicate 320 0 \<and> (\<forall>s. s \<noteq> 0 \<longrightarrow> closed s k') \<and>
    (\<exists>start r. bmap (sector_map k') = (put_bytes ((replicate n False)[0 := True, 1 := True]) start
      (replicate (sectors_of (int (byte_cnt n))) True))[r := True] \<and> start + sectors_of (int (byte_cnt n)) \<le> n)"
proof -
  obtain b where b: "free_map_init True mb n = Inr \<lparr>free_map = b, free_map_file = None\<rparr>" "map_shape b" "bit_cnt b = n"
    "bmap b = (replicate n False)[0 := True, 1 := True]"
    using free_map_init_ok [of n mb ws] n mem by auto
  let ?k = "k0\<lparr>open_inodes := [], sector_map := b, map_file := 0\<rparr>" and ?len = "int (byte_cnt n)"
  have len: "0 \<le> ?len" "?len + 512 < 2 ^ 31" using elem_cnt_eq [OF n(1)] n(1) by (simp_all add: byte_cnt_def)
  have bits: "bmap b ! 0" "bmap b ! 1" using n(2) b(4) by (auto simp: nth_list_update)
  have free: "free_at (bmap b) (sectors_of ?len) False 2"
    using n(2) b(3,4) by (auto simp: free_at_def nth_list_update)
  have dev: "dev_ok (fs_device ?k)" "length (sectors (fs_device k0)) = n" using k0(1) by (simp_all add: dev_ok_def n_def)
  have fk: "fresh ?k" using k0(2) by (simp add: fresh_def)
  obtain f p k1 k2 im start where c: "map_create ?k = Inr k2" "open_inodes k1 = []" "mapped k1 f p k2" "fresh k2" "map_ready k2 im"
    "synced k2 im" "disk_inode k2 0 = im" "inode_data im = new_inode start ?len" "free_at (bmap b) (sectors_of ?len) False (unat start)"
    "bmap (sector_map k2) = put_bytes (bmap b) (unat start) (replicate (sectors_of ?len) True)" "length (flat k2) = length (flat ?k)"
    using map_create_creates [of ?k 2] dev fk b(2,3) bits n(2) len(2) free by (auto simp: bitmap_file_size_def)
  note il = new_inode_at [OF c(8) len]
  have fit: "unat start + sectors_of ?len \<le> n" using c(9) b(3) by (simp add: free_at_def)
  then have bc: "bit_cnt (sector_map k2) = n" using c(10) b(3) by (metis length_bmap length_put_bytes length_replicate)
  have dev2: "dev_ok (fs_device k2)" using c(5) by (auto simp: map_ready_def live_inode_def)
  have L2: "length (sectors (fs_device k2)) = n" using length_flat [OF dev(1)] length_flat [OF dev2] c(11) dev(2) by simp
  have two: "1 < n" using n(2) by simp
  have bits2: "bmap (sector_map k2) ! 0" "bmap (sector_map k2) ! 1"
    unfolding c(10) using bits fit b(3) two by (auto simp: nth_put_bytes)
  have enough: "nat (inode_length im) \<le> 512 * sectors_of ?len" using il(1) sectors_of_enough [OF len(1)] by simp
  have occ: "occupies k2 im"
    by (rule occupies_run [where n = "sectors_of ?len" and s = start]) (use c(10) fit bc b(3) il(2) enough in \<open>auto simp: nth_put_bytes\<close>)
  have off: "off_data 0 im" "off_data 1 im"
    using free_run_off [OF c(9) bits(1) il(2) enough] free_run_off [OF c(9) bits(2) il(2) enough] by simp_all
  obtain t where t: "free_at (bmap (sector_map k2)) 1 False t"
    using free_after_run [OF c(9)] fit n(2) b(3,4) unfolding c(10) by auto
  obtain k3 and r :: word_t where k3: "dir_create 1 16 k2 = Inr (True, k3)" "map_ready k3 im" "synced k3 im" "remapped k2 k3"
    "length (flat k3) = length (flat k2)" "bmap (sector_map k3) = (bmap (sector_map k2))[unat r := True]" "unat r < bit_cnt (sector_map k2)"
    "disk_inode k3 0 = im" "stored k3 im (root_inode k3)" "content k3 (root_inode k3) = replicate 320 0"
    "apart (root_inode k3) (sector_file 0)" "apart (root_inode k3) (sector_file 1)"
    using dir_create_root [OF c(5,6) _ _ bits2 occ off c(7) t] bc L2 two by auto
  obtain k4 where k4: "map_close k3 = Inr k4" "fs_device k4 = fs_device k3" "sector_map k4 = sector_map k3" "open_inodes k4 = []" "fresh k4"
    using map_close_closes [OF c(3) k3(4) c(4)] c(2) by auto
  note s4 = same_sectors [OF arg_cong [OF k4(2)] k4(3)]
  have dev3: "dev_ok (fs_device k3)" using k3(2) by (auto simp: map_ready_def live_inode_def)
  have bc3: "bit_cnt (sector_map k3) = n" using k3(6) bc by (metis length_bmap length_list_update)
  have L3: "length (sectors (fs_device k3)) = n" using length_flat [OF dev3] length_flat [OF dev2] k3(5) L2 by simp
  obtain bb where bb: "map_shape bb" "bmap bb = bmap (sector_map k3)" "content k3 im = bitmap_write bb"
    using k3(3) by (auto simp: synced_def)
  have bcb: "bit_cnt bb = n" using bb(2) bc3 by (metis length_bmap)
  have d4: "disk_inode k4 0 = im" using k3(8) s4 by simp
  have pre: "dev_ok (fs_device k4)" "closed 0 k4" "0 < length (sectors (fs_device k4))" "inode_ok k4 (disk_inode k4 0)"
    "inode_length (disk_inode k4 0) = int (bitmap_file_size (sector_map k4))" "map_shape (sector_map k4)"
    "content k4 (disk_inode k4 0) = bitmap_write bb" "bit_cnt bb = bit_cnt (sector_map k4)"
    using dev3 k4(2-4) L3 two k3(2) d4 bb(3) bcb bc3 s4 by (auto simp: closed_def map_ready_def live_inode_def)
  obtain g q k5 where k5: "map_open k4 = Inr k5" "mapped k4 g q k5" "map_ready k5 im" "fresh k5" "dev_ok (fs_device k5)"
    "flat k5 = flat k4" "bmap (sector_map k5) = bmap bb" "bit_cnt (sector_map k5) = bit_cnt bb"
    using map_open_mounts [OF pre(1) k4(5) pre(2-7) bb(1) pre(8)] unfolding d4 by blast
  have run: "filesys_init True True mb k0 = Inr k5"
    using b(1) c(1) k3(1) k4(1) k5(1) by (simp add: filesys_init_def do_format_def n_def ROOT_DIR_SECTOR_def)
  have fs: "fs_wf k5 im" "root_inode k5 = root_inode k3" "content k5 (root_inode k3) = replicate 320 0"
  proof -
    have fl: "flat k5 = flat k3" using k5(6) s4 by simp
    have d: "disk_inode k5 x = disk_inode k3 x" if "unat x < n" for x
      by (rule disk_inode_flat [OF fl dev3 k5(5)]) (use that L3 in simp)
    show root: "root_inode k5 = root_inode k3" by (rule d) (use two in simp)
    have zero: "disk_inode k5 0 = im" using d [of 0] two k3(8) by simp
    have bm: "bmap (sector_map k5) = bmap (sector_map k3)" "bit_cnt (sector_map k5) = n" using k5(7,8) bb(2) bcb by simp_all
    have cc: "content k5 j = content k3 j" "inode_ok k5 j = inode_ok k3 j" "stored k5 im j = stored k3 im j" "occupies k5 j = occupies k3 j"
      "synced k5 im = synced k3 im" for j
      using fl bm bc3 by (simp_all add: content_def inode_ok_def stored_def occupies_def synced_def)
    show c5: "content k5 (root_inode k3) = replicate 320 0" using cc(1) k3(10) by simp
    have m3: "bmap (sector_map k3) ! 0" "bmap (sector_map k3) ! 1" "occupies k3 im"
      using k3(6,7) bits2 bc two occupies_mono [OF occ, of k3] bc3 by (auto simp: nth_list_update)
    have sf: "stored k3 im (sector_file 0)" "stored k3 im (sector_file 1)"
      using sector_stored [of k3 0 im] sector_stored [of k3 1 im] bc3 L3 dev3 two m3 off by simp_all
    have L5: "length (sectors (fs_device k5)) = n" using length_flat [OF dev3] length_flat [OF k5(5)] fl L3 by simp
    have "closed 1 k5" using k5(2) k4(4) d4 by (auto simp: mapped_def closed_def disk_inode_def)
    then show "fs_wf k5 im"
      using k5(3,4) L5 bm two m3 k3(3,9,11,12) sf empty_directory(1) c5 by (simp add: fs_wf_def root zero cc)
  qed
  then have "fs_table k5 = Map.empty" using empty_directory(2) by simp
  moreover from this have "fs_inv k5 im" using fs(1) by (simp add: fs_inv_def)
  moreover have "closed s k5" if "s \<noteq> 0" for s
    using k5(2) k4(4) that by (simp add: mapped_def closed_def disk_inode_def)
  moreover have "bmap (sector_map k5) = (put_bytes ((replicate n False)[0 := True, 1 := True]) (unat start)
      (replicate (sectors_of ?len) True))[unat r := True]"
    using k5(7) bb(2) k3(6) c(10) b(4) by simp
  moreover have "content k5 (root_inode k5) = replicate 320 0" using fs(2,3) by simp
  ultimately show ?thesis using run fit by blast
qed

end
