(* ===== verification/Pintos_Filesys_Properties.thy ===== *)
theory Pintos_Filesys_Properties
  imports Pintos_Filesys_Format Pintos_Filesys_Write
begin

text \<open>
  The properties of the file system: reading and writing against the content of a file, and files by
  name against the table of the root, from formatting to the next start.
\<close>

section \<open>A sample device\<close>

definition sample_disk :: fs where
  "sample_disk = \<lparr>fs_device = \<lparr>block_type = BLOCK_FILESYS, block_size = 16, sectors = replicate 16 (replicate 512 0),
       read_cnt = 0, write_cnt = 0\<rparr>,
     open_inodes = [], inode_heap = Map.empty, file_heap = Map.empty, dir_heap = Map.empty, sector_map = \<lparr>bit_cnt = 0, bits = []\<rparr>,
     map_file = 0, mallocs = Suc\<rparr>"

definition sample_entry :: "byte_t list" where "sample_entry = replicate 20 0"

text \<open>The name \<open>a\<close> in a memory of the caller.\<close>

definition sample_name :: mem where "sample_name = [0, 97, 0]"

lemma sample_args: "cstr sample_name 1 [97]" "length sample_entry = 20" "valid_name [97]"
  by (simp_all add: sample_name_def sample_entry_def valid_name_def NAME_MAX_def)

abbreviation sample_map :: "nat \<Rightarrow> word_t list option" where "sample_map \<equiv> \<lambda>_. Some [0]"

lemma sample_disk_ok:
  "dev_ok (fs_device sample_disk)" "fresh (sample_disk\<lparr>open_inodes := []\<rparr>)" "unat (block_size (fs_device sample_disk)) = 16"
  by (simp_all add: sample_disk_def dev_ok_def fresh_def)

text \<open>Of the 16 sectors some are free outside any \<open>c\<close> of them.\<close>

definition free_outside :: "nat \<Rightarrow> fs \<Rightarrow> bool" where
  "free_outside c k \<longleftrightarrow> (\<forall>A. finite A \<and> card A \<le> c \<longrightarrow> (\<exists>t < 16. \<not> bmap (sector_map k) ! t \<and> t \<notin> A))"

lemma sample_formatted:
  "\<exists>k im. filesys_init True True sample_map sample_disk = Inr k \<and> fs_inv k im \<and> fs_table k = Map.empty \<and>
    content k (root_inode k) = replicate 320 0 \<and> (\<forall>s. s \<noteq> 0 \<longrightarrow> closed s k) \<and> free_outside 3 k \<and> bit_cnt (sector_map k) = 16"
proof -
  have s: "byte_cnt 16 = 4" "elem_cnt 16 = 1" "sectors_of 4 = 1"
    by (simp_all add: byte_cnt_def elem_cnt_def DIV_ROUND_UP_def ELEM_BITS_def add32_def sectors_of_def)
  obtain k im start r where k: "filesys_init True True sample_map sample_disk = Inr k" "fs_inv k im" "fs_table k = Map.empty"
    "content k (root_inode k) = replicate 320 0" "\<forall>s. s \<noteq> 0 \<longrightarrow> closed s k" "start < 16"
    "bmap (sector_map k) = (put_bytes ((replicate 16 False)[0 := True, 1 := True]) start [True])[r := True]"
    using filesys_init_formats [of sample_disk sample_map "[0]"] sample_disk_ok s by (auto simp: Suc_le_eq)
  have l: "length (bmap (sector_map k)) = 16" unfolding k(7) using k(6) by simp
  have "\<exists>t < 16. \<not> bmap (sector_map k) ! t \<and> t \<notin> A" if "finite A" "card A \<le> 3" for A
  proof -
    have "card (insert start (insert r A)) \<le> 5" using that by (simp add: card_insert_if)
    then have "\<not> {2..<16} \<subseteq> insert start (insert r A)" using card_mono [of "insert start (insert r A)" "{2..<16}"] that by auto
    then obtain t where t: "2 \<le> t" "t < 16" "t \<noteq> start" "t \<noteq> r" "t \<notin> A" by force
    have "((replicate 16 False)[0 := True, 1 := True]) ! t = False" using t(1,2) by simp
    then have "put_bytes ((replicate 16 False)[0 := True, 1 := True]) start [True] ! t = False"
      using t(2,3) k(6) by (simp add: nth_put_bytes)
    then have "\<not> bmap (sector_map k) ! t" unfolding k(7) using t(4) by simp
    then show ?thesis using t(2,5) by blast
  qed
  then have "free_outside 3 k" by (simp add: free_outside_def)
  then show ?thesis using k(1-5) l by auto
qed


section \<open>Creating\<close>

text \<open>C2: \<open>filesys_create\<close> does not fail otherwise than by its result, and keeps the invariant: names lead to
  files, files, root and free map do not overlap, their sectors are marked, and the map on the device is
  the one in memory. When it succeeds the name is new, a free sector holds the inode of a new file of the
  size asked for, full of zeros, in a run of free sectors, and exactly these are now marked. When it does
  not, no sector or no run was free and nothing changed, or the name was refused and the sectors of the
  data stay marked. The other files keep their sectors and their bytes. The invariant, here and below,
  includes that \<open>malloc\<close> does not fail and does not give an address twice (\<open>fresh\<close>).\<close>

theorem filesys_create_correct:
  assumes "fs_inv k im" "cstr m name s" "length e = 20" "0 \<le> len" "len + 512 < 2 ^ 31"
  shows "\<exists>added k'. filesys_create m name len e k = Inr (added, k') \<and> fs_inv k' im \<and>
    create_outcome k added k' im (root_inode k) s len \<and> root_inode k' = root_inode k \<and>
    (\<forall>s' sec. fs_table k s' = Some sec \<longrightarrow> disk_inode k' sec = disk_inode k sec \<and>
       content k' (disk_inode k sec) = content k (disk_inode k sec))"
proof -
  obtain added k' where k': "filesys_create m name len e k = Inr (added, k')" "fs_inv k' im" "steady k k' im (root_inode k)"
    "root_inode k' = root_inode k" "create_outcome k added k' im (root_inode k) s len"
    using filesys_create_keeps [OF assms] by blast
  have wf: "fs_wf k im" using assms(1) by (simp add: fs_inv_def)
  have "disk_inode k' sec = disk_inode k sec \<and> content k' (disk_inode k sec) = content k (disk_inode k sec)"
    if t: "fs_table k s' = Some sec" for s' sec
  proof -
    have f: "file_at k im sec" using assms(1) t by (simp add: fs_inv_def)
    then show ?thesis using file_at_keeps(1) [OF wf k'(3,4) f] k'(3) by (simp add: file_at_def steady_def)
  qed
  then show ?thesis using k' by blast
qed

text \<open>With two sectors free, a file of one byte finds room for itself.\<close>

lemma sample_run:
  assumes "free_outside c k" "1 \<le> c" "bit_cnt (sector_map k) = 16"
  shows "\<exists>start. new_run k sec 1 start" "False \<in> set (bmap (sector_map k))"
proof -
  have "finite {unat sec} \<and> card {unat sec} \<le> c" using assms(2) by simp
  then obtain t where t: "t < 16" "\<not> bmap (sector_map k) ! t" "t \<noteq> unat sec"
    using assms(1) unfolding free_outside_def by blast
  then show "False \<in> set (bmap (sector_map k))" using assms(3) by (metis (full_types) in_set_conv_nth length_bmap)
  have "unat (of_nat t :: word_t) = t" using t(1) by (simp add: unat_of_nat take_bit_nat_eq_self)
  then have "new_run k sec 1 (of_nat t)" using t assms(3) by (simp add: new_run_def free_at_def)
  then show "\<exists>start. new_run k sec 1 start" by blast
qed

lemma sample_succeeds:
  assumes k: "fs_wf k im" "fs_table k = Map.empty" "content k (root_inode k) = replicate 320 0"
    "free_outside 3 k" "bit_cnt (sector_map k) = 16"
    and c: "create_outcome k added k' im (root_inode k) [97] len" and one: "sectors_of len = 1"
  shows "added"
proof (rule ccontr)
  have "replicate 20 0 \<in> set (slots (replicate 320 0))" by (simp add: empty_slots)
  then have "room (content k (root_inode k)) [97]"
    using k(2,3) sample_args(3) by (auto simp: room_def entry_in_use_def intro!: bexI [of _ "replicate 20 0"])
  moreover note sample_run [OF k(4) _ k(5)]
  moreover assume "\<not> added"
  ultimately show False using c one by (auto simp: create_outcome_def)
qed

lemma filesys_create_correct_witness:
  "\<exists>k im k' sec. filesys_init True True sample_map sample_disk = Inr k \<and>
    filesys_create sample_name 1 1 sample_entry k = Inr (True, k') \<and> fs_inv k' im \<and> fs_table k' [97] = Some sec \<and>
    content k' (disk_inode k' sec) = [0]"
proof -
  obtain k im where k: "filesys_init True True sample_map sample_disk = Inr k" "fs_inv k im" "fs_table k = Map.empty"
    "content k (root_inode k) = replicate 320 0" "free_outside 3 k" "bit_cnt (sector_map k) = 16"
    using sample_formatted by blast
  obtain added k' where k': "filesys_create sample_name 1 1 sample_entry k = Inr (added, k')" "fs_inv k' im"
    "create_outcome k added k' im (root_inode k) [97] 1" "root_inode k' = root_inode k"
    using filesys_create_correct [OF k(2) sample_args(1,2), of 1] by auto
  have "fs_wf k im" using k(2) by (simp add: fs_inv_def)
  then have a: "added" by (rule sample_succeeds [OF _ k(3-6) k'(3)]) (simp add: sectors_of_def)
  then obtain sec where "fs_table k' [97] = Some sec" "content k' (disk_inode k' sec) = replicate (nat 1) 0"
    using k'(3,4) by (auto simp: create_outcome_def)
  then show ?thesis using k(1) k'(1,2) a by auto
qed


text \<open>A device with the file \<open>a\<close>, of one sector or less.\<close>

lemma sample_created_of:
  assumes one: "sectors_of len = 1" and len: "0 \<le> len" "len + 512 < 2 ^ 31"
  shows "\<exists>k0 k im sec. filesys_init True True sample_map sample_disk = Inr k0 \<and> filesys_create sample_name 1 len sample_entry k0 = Inr (True, k) \<and>
    fs_inv k im \<and> fs_table k [97] = Some sec \<and> (\<forall>s. s \<noteq> 0 \<longrightarrow> closed s k) \<and> content k (disk_inode k sec) = replicate (nat len) 0 \<and>
    free_outside 1 k \<and> bit_cnt (sector_map k) = 16"
proof -
  obtain k im where k: "filesys_init True True sample_map sample_disk = Inr k" "fs_inv k im" "fs_table k = Map.empty"
    "content k (root_inode k) = replicate 320 0" "free_outside 3 k" "bit_cnt (sector_map k) = 16" "\<forall>s. s \<noteq> 0 \<longrightarrow> closed s k"
    using sample_formatted by blast
  obtain added k' where k': "filesys_create sample_name 1 len sample_entry k = Inr (added, k')" "fs_inv k' im"
    "create_outcome k added k' im (root_inode k) [97] len" "root_inode k' = root_inode k" "steady k k' im (root_inode k)"
    using filesys_create_keeps [OF k(2) sample_args(1,2) len] by auto
  have "fs_wf k im" using k(2) by (simp add: fs_inv_def)
  then have a: "added" by (rule sample_succeeds [OF _ k(3-6) k'(3) one])
  obtain sec start where c: "fs_table k' [97] = Some sec" "content k' (disk_inode k' sec) = replicate (nat len) 0"
    "new_run k sec 1 start" "unat sec < 16" "bmap (sector_map k') = put_bytes ((bmap (sector_map k))[unat sec := True]) (unat start) [True]"
    using k'(3,4) a k(6) one by (auto simp: create_outcome_def)
  have "unat start < 16" using c(3) k(6) by (simp add: new_run_def free_at_def)
  have "\<exists>t < 16. \<not> bmap (sector_map k') ! t \<and> t \<notin> A" if A: "finite A" "card A \<le> 1" for A
  proof -
    have "finite (insert (unat sec) (insert (unat start) A)) \<and> card (insert (unat sec) (insert (unat start) A)) \<le> 3"
      using A by (simp add: card_insert_if)
    then obtain t where t: "t < 16" "\<not> bmap (sector_map k) ! t" "t \<notin> insert (unat sec) (insert (unat start) A)"
      using k(5) unfolding free_outside_def by blast
    then have "\<not> bmap (sector_map k') ! t" using \<open>unat start < 16\<close> k(6) by (simp add: c(5) nth_put_bytes)
    then show ?thesis using t by blast
  qed
  then have "free_outside 1 k'" by (simp add: free_outside_def)
  moreover have "\<forall>s. s \<noteq> 0 \<longrightarrow> closed s k'" using remapped_closed k(7) k'(5) by (auto simp: steady_def)
  moreover have "bit_cnt (sector_map k') = 16" using k'(5) k(6) by (simp add: steady_def)
  ultimately show ?thesis using k(1) k'(1,2) a c(1,2) by (intro exI [of _ k] exI [of _ k'] exI [of _ im] exI [of _ sec]) simp
qed

lemma sample_created:
  "\<exists>k0 k im sec. filesys_init True True sample_map sample_disk = Inr k0 \<and> filesys_create sample_name 1 1 sample_entry k0 = Inr (True, k) \<and>
    fs_inv k im \<and> fs_table k [97] = Some sec \<and> (\<forall>s. s \<noteq> 0 \<longrightarrow> closed s k) \<and> content k (disk_inode k sec) = [0] \<and>
    free_outside 1 k \<and> bit_cnt (sector_map k) = 16"
  using sample_created_of [of 1] by (simp add: sectors_of_def)

lemma sample_created_from:
  "\<exists>k0 im k. fs_inv k0 im \<and> (\<forall>s. s \<noteq> 0 \<longrightarrow> closed s k0) \<and> filesys_create sample_name 1 1 sample_entry k0 = Inr (True, k)"
  using sample_formatted sample_created by (metis sum.inject(2))

text \<open>C29: a failing \<open>filesys_create\<close> leaks. When the name exists already and there is room for another file,
  the call returns false, the table is as before, and the run of sectors that was taken for the data of
  the new file stays marked, in memory and on the device, with no file that has it: only the sector of
  the inode is given back.\<close>

theorem failed_create_leaks:
  assumes "fs_inv k im" "cstr m name s" "length e = 20" "0 < len" "len + 512 < 2 ^ 31"
    and "fs_table k s = Some sec" "False \<in> set (bmap (sector_map k))"
    and "\<And>sec. unat sec < bit_cnt (sector_map k) \<Longrightarrow> \<not> bmap (sector_map k) ! unat sec \<Longrightarrow>
      \<exists>start. new_run k sec (sectors_of len) start"
  shows "\<exists>k' start. filesys_create m name len e k = Inr (False, k') \<and> fs_inv k' im \<and> fs_table k' = fs_table k \<and>
    0 < sectors_of len \<and> free_at (bmap (sector_map k)) (sectors_of len) False start \<and>
    bmap (sector_map k') = put_bytes (bmap (sector_map k)) start (replicate (sectors_of len) True)"
proof -
  obtain added k' where k': "filesys_create m name len e k = Inr (added, k')" "fs_inv k' im"
    "create_outcome k added k' im (root_inode k) s len" "root_inode k' = root_inode k"
    using filesys_create_keeps [OF assms(1-3) _ assms(5)] assms(4) by auto
  have no: "\<not> room (content k (root_inode k)) s" using assms(6) by (simp add: room_def)
  then have a: "\<not> added" using k'(3) by (auto simp: create_outcome_def)
  then obtain x start where x: "fs_table k' = fs_table k" "unat x < bit_cnt (sector_map k)" "new_run k x (sectors_of len) start"
    "bmap (sector_map k') = put_bytes (bmap (sector_map k)) (unat start) (replicate (sectors_of len) True)"
    using k'(3,4) assms(7,8) by (auto simp: create_outcome_def)
  have "0 < sectors_of len" using assms(4) by (simp add: sectors_of_def)
  then show ?thesis using k'(1,2) a x new_run_free(1) [OF x(3,2)] by (intro exI [of _ k'] exI [of _ "unat start"]) simp
qed

lemma failed_create_leaks_witness:
  "\<exists>k im k' start. fs_inv k im \<and> filesys_create sample_name 1 1 sample_entry k = Inr (False, k') \<and>
    \<not> bmap (sector_map k) ! start \<and> bmap (sector_map k') = put_bytes (bmap (sector_map k)) start [True]"
proof -
  obtain k im sec where k: "fs_inv k im" "fs_table k [97] = Some sec" "free_outside 1 k" "bit_cnt (sector_map k) = 16"
    using sample_created by blast
  have one: "sectors_of 1 = 1" by (simp add: sectors_of_def)
  obtain k' start where "filesys_create sample_name 1 1 sample_entry k = Inr (False, k')"
    "free_at (bmap (sector_map k)) (sectors_of 1) False start"
    "bmap (sector_map k') = put_bytes (bmap (sector_map k)) start (replicate (sectors_of 1) True)"
    using failed_create_leaks [where len = 1, OF k(1) sample_args(1,2) _ _ k(2)] sample_run [OF k(3) _ k(4)] one by auto
  then show ?thesis using k(1) one by (intro exI [of _ k] exI [of _ im] exI [of _ k'] exI [of _ start]) (simp add: free_at_def)
qed

section \<open>Removing and opening\<close>

text \<open>The run that a new file took is free again when the file is released.\<close>

lemma released_run:
  assumes run: "new_run k sec (sectors_of len) start" and sec: "unat sec < bit_cnt (sector_map k)" "\<not> bmap (sector_map k) ! unat sec"
    and k1: "bmap (sector_map k1) = put_bytes ((bmap (sector_map k))[unat sec := True]) (unat start) (replicate (sectors_of len) True)"
      "inode_data (disk_inode k1 sec) = new_inode start len"
    and len: "0 \<le> len" "len + 512 < 2 ^ 31"
  shows "released k1 sec = bmap (sector_map k)"
proof -
  note l = new_inode_at [OF k1(2) len] and fr = new_run_free [OF run sec(1)]
  have at: "unat (start_sector (inode_data (disk_inode k1 sec))) = unat start" using l(2) by (simp add: data_at_def)
  have free: "\<not> bmap (sector_map k) ! i" if "unat start \<le> i" "i < unat start + sectors_of len" for i
    using fr(1) that by (auto simp: free_at_def dest!: spec [of _ "i - unat start"])
  show ?thesis
    unfolding released_def Let_def at l(1) k1(1) new_run_marked(1) [OF run sec]
    by (rule nth_equalityI) (use fr(2,3) free sec in \<open>auto simp: nth_put_bytes nth_list_update\<close>)
qed

text \<open>C16: \<open>filesys_remove\<close> of a file that is not open takes its name out of the table, marks the sector of
  its inode and the sectors of its data free, and no others, and keeps the invariant, the names, the
  sectors and the bytes of the other files. A name that is not there is refused, and nothing changes.\<close>

theorem filesys_remove_correct:
  assumes "fs_inv k im" "cstr m name s" "length e = 20" "\<And>sec. fs_table k s = Some sec \<Longrightarrow> closed sec k"
  shows "case fs_table k s of
      None \<Rightarrow> \<exists>k'. filesys_remove m name e k = Inr (False, k') \<and> fs_inv k' im \<and> flat k' = flat k \<and> sector_map k' = sector_map k
    | Some sec \<Rightarrow> \<exists>k'. filesys_remove m name e k = Inr (True, k') \<and> fs_inv k' im \<and> fs_table k' = (fs_table k)(s := None) \<and>
        bmap (sector_map k') = released k sec \<and>
        (\<forall>s' sec'. s' \<noteq> s \<and> fs_table k s' = Some sec' \<longrightarrow> disk_inode k' sec' = disk_inode k sec' \<and>
           content k' (disk_inode k sec') = content k (disk_inode k sec'))"
proof (cases "fs_table k s")
  case None
  obtain k' where k': "filesys_remove m name e k = Inr (False, k')" "remapped k k'" "flat k' = flat k" "sector_map k' = sector_map k"
    "dev_ok (fs_device k')"
    using filesys_remove_outcome [OF assms] None by auto
  have "fs_inv k' im" by (rule fs_inv_unchanged [OF assms(1) k'(2-5)])
  then show ?thesis using None k' by auto
next
  case (Some sec)
  obtain k' where k': "filesys_remove m name e k = Inr (True, k')" "remapped k k'" "length (flat k') = length (flat k)"
    "dev_ok (fs_device k')" "map_shape (sector_map k')" "synced k' im" "bmap (sector_map k') = released k sec"
    "bit_cnt (sector_map k') = bit_cnt (sector_map k)" "dir_ok (content k' (root_inode k))"
    "dir_table (content k' (root_inode k)) = (fs_table k)(s := None)"
    "\<And>x. inode_ok k x \<and> apart im x \<and> apart (root_inode k) x \<Longrightarrow> content k' x = content k x"
    using filesys_remove_outcome [OF assms] Some by auto
  note keeps = fs_inv_released [OF assms(1) Some k'(2-5,7-11,6)]
  show ?thesis using Some k'(1,7,10) keeps(1,2) keeps(3) by auto
qed

lemma filesys_remove_correct_witness:
  "\<exists>k im k'. fs_inv k im \<and> fs_table k [97] \<noteq> None \<and> filesys_remove sample_name 1 sample_entry k = Inr (True, k') \<and>
    fs_inv k' im \<and> fs_table k' [97] = None"
proof -
  obtain k im sec where k: "fs_inv k im" "fs_table k [97] = Some sec" "\<forall>s. s \<noteq> 0 \<longrightarrow> closed s k"
    using sample_created by blast
  have "sec \<noteq> 0" using k(1,2) by (simp add: fs_inv_def file_at_def)
  then show ?thesis using filesys_remove_correct [OF k(1) sample_args(1,2)] k by fastforce
qed


text \<open>C27: \<open>filesys_open\<close> gives NULL for a name that the table does not have. For a name that it has and whose
  inode is not open it gives a new file at position 0, with writing allowed, on a new open inode: the one
  on the device in the sector of the table, so that its bytes are the bytes of that file. The invariant
  holds after it, and the device and the free map are as before.\<close>

theorem filesys_open_correct:
  assumes "fs_inv k im" "cstr m name s" "length e = 20" "\<And>sec. fs_table k s = Some sec \<Longrightarrow> closed sec k"
  shows "case fs_table k s of
      None \<Rightarrow> \<exists>k'. filesys_open m name e k = Inr (0, k') \<and> fs_inv k' im \<and> flat k' = flat k \<and> sector_map k' = sector_map k
    | Some sec \<Rightarrow> \<exists>p f k'. filesys_open m name e k = Inr (p, k') \<and> p \<noteq> 0 \<and> file_heap k p = None \<and> inode_heap k f = None \<and>
        file_heap k' = (file_heap k)(p \<mapsto> \<lparr>file_inode = f, file_pos = 0, file_deny = False\<rparr>) \<and>
        live_inode k' f (disk_inode k sec) \<and> open_inodes k' = f # open_inodes k \<and>
        content k' (disk_inode k sec) = content k (disk_inode k sec) \<and>
        fs_inv k' im \<and> flat k' = flat k \<and> sector_map k' = sector_map k"
proof (cases "fs_table k s")
  case None
  then show ?thesis using filesys_open_opens [OF assms] by auto
next
  case (Some sec)
  then obtain p f k' where k': "filesys_open m name e k = Inr (p, k')" "p \<noteq> 0" "file_heap k p = None" "inode_heap k f = None"
    "file_heap k' = (file_heap k)(p \<mapsto> \<lparr>file_inode = f, file_pos = 0, file_deny = False\<rparr>)" "open_inodes k' = f # open_inodes k"
    "flat k' = flat k" "sector_map k' = sector_map k" "live_inode k' f (disk_inode k sec)" "fs_inv k' im"
    using filesys_open_opens [OF assms] by auto
  show ?thesis
    unfolding Some option.case
    by (intro exI [of _ p] exI [of _ f] exI [of _ k'] conjI k' flat_content)
qed

lemma filesys_open_correct_witness:
  "\<exists>k im sec p f k'. fs_inv k im \<and> fs_table k [97] = Some sec \<and> filesys_open sample_name 1 sample_entry k = Inr (p, k') \<and>
    file_heap k' p = Some \<lparr>file_inode = f, file_pos = 0, file_deny = False\<rparr> \<and> live_inode k' f (disk_inode k sec) \<and> content k' (disk_inode k sec) = [0]"
proof -
  obtain k im sec where k: "fs_inv k im" "fs_table k [97] = Some sec" "\<forall>s. s \<noteq> 0 \<longrightarrow> closed s k" "content k (disk_inode k sec) = [0]"
    using sample_created by blast
  have "sec \<noteq> 0" using k(1,2) by (simp add: fs_inv_def file_at_def)
  then obtain p f k' where "filesys_open sample_name 1 sample_entry k = Inr (p, k')" "live_inode k' f (disk_inode k sec)"
    "file_heap k' = (file_heap k)(p \<mapsto> \<lparr>file_inode = f, file_pos = 0, file_deny = False\<rparr>)"
    "content k' (disk_inode k sec) = content k (disk_inode k sec)"
    using filesys_open_correct [OF k(1) sample_args(1,2)] k(2,3) by auto
  then show ?thesis
    using k(1,2,4) by (intro exI [of _ k] exI [of _ im] exI [of _ sec] exI [of _ p] exI [of _ f] exI [of _ k']) simp
qed

text \<open>C18: a file that \<open>filesys_create\<close> made and \<open>filesys_remove\<close> removed leaves no trace: the free map and
  the table of the root are as they were before both, and so are the other files.\<close>

theorem create_then_remove:
  assumes "fs_inv k im" "cstr m name s" "length e = 20" "0 \<le> len" "len + 512 < 2 ^ 31" "\<And>x. x \<noteq> 0 \<Longrightarrow> closed x k"
    and "filesys_create m name len e k = Inr (True, k1)"
  shows "\<exists>k2. filesys_remove m name e k1 = Inr (True, k2) \<and> fs_inv k2 im \<and> bmap (sector_map k2) = bmap (sector_map k) \<and>
    fs_table k2 = fs_table k \<and>
    (\<forall>s' sec. fs_table k s' = Some sec \<longrightarrow> disk_inode k2 sec = disk_inode k sec \<and>
       content k2 (disk_inode k sec) = content k (disk_inode k sec))"
proof -
  have wf: "fs_wf k im" and f: "\<And>s sec. fs_table k s = Some sec \<Longrightarrow> file_at k im sec" using assms(1) by (auto simp: fs_inv_def)
  have st: "fs_inv k1 im" "steady k k1 im (root_inode k)" "root_inode k1 = root_inode k" "create_outcome k True k1 im (root_inode k) s len"
    using filesys_create_keeps [OF assms(1-5)] assms(7) by auto
  obtain sec start where c: "room (content k (root_inode k)) s" "sec \<noteq> 0" "unat sec < bit_cnt (sector_map k)"
    "\<not> bmap (sector_map k) ! unat sec" "new_run k sec (sectors_of len) start" "fs_table k1 = (fs_table k)(s \<mapsto> sec)"
    "bmap (sector_map k1) = put_bytes ((bmap (sector_map k))[unat sec := True]) (unat start) (replicate (sectors_of len) True)"
    "inode_data (disk_inode k1 sec) = new_inode start len"
    using st(3,4) by (auto simp: create_outcome_def)
  have t1: "fs_table k1 s = Some sec" by (simp add: c(6))
  have cl: "closed sec k1" using st(2) remapped_closed assms(6) [OF c(2)] by (auto simp: steady_def)
  obtain k2 where k2: "filesys_remove m name e k1 = Inr (True, k2)" "remapped k1 k2" "length (flat k2) = length (flat k1)"
    "dev_ok (fs_device k2)" "map_shape (sector_map k2)" "synced k2 im" "bmap (sector_map k2) = released k1 sec"
    "bit_cnt (sector_map k2) = bit_cnt (sector_map k1)" "dir_ok (content k2 (root_inode k1))"
    "dir_table (content k2 (root_inode k1)) = (fs_table k1)(s := None)"
    "\<And>x. inode_ok k1 x \<and> apart im x \<and> apart (root_inode k1) x \<Longrightarrow> content k2 x = content k1 x"
    using filesys_remove_outcome [OF st(1) assms(2,3)] t1 cl by auto
  note rl = fs_inv_released [OF st(1) t1 k2(2-5,7-11,6)]
  have none: "fs_table k s = None" using c(1) by (simp add: room_def)
  have "fs_table k2 = fs_table k" using k2(10) none by (auto simp: rl(2) c(6))
  moreover have "bmap (sector_map k2) = bmap (sector_map k)"
    unfolding k2(7) by (rule released_run [OF c(5,3,4,7,8) assms(4,5)])
  moreover have "disk_inode k2 x = disk_inode k x \<and> content k2 (disk_inode k x) = content k (disk_inode k x)"
    if x: "fs_table k s' = Some x" for s' x
  proof -
    have "s' \<noteq> s" using x none by auto
    then have "fs_table k1 s' = Some x" using x c(6) by simp
    then have "disk_inode k2 x = disk_inode k1 x \<and> content k2 (disk_inode k1 x) = content k1 (disk_inode k1 x)"
      using rl(3) \<open>s' \<noteq> s\<close> by blast
    moreover have "disk_inode k1 x = disk_inode k x \<and> content k1 (disk_inode k x) = content k (disk_inode k x)"
      using file_at_keeps(1) [OF wf st(2,3) f [OF x]] st(2) f [OF x] by (simp add: file_at_def steady_def)
    ultimately show ?thesis by simp
  qed
  ultimately show ?thesis using k2(1) rl(1) by blast
qed

lemma create_then_remove_witness:
  "\<exists>k im k1 k2. fs_inv k im \<and> filesys_create sample_name 1 1 sample_entry k = Inr (True, k1) \<and>
    filesys_remove sample_name 1 sample_entry k1 = Inr (True, k2) \<and> bmap (sector_map k2) = bmap (sector_map k)"
proof -
  obtain k im k1 where k: "fs_inv k im" "\<forall>s. s \<noteq> 0 \<longrightarrow> closed s k" "filesys_create sample_name 1 1 sample_entry k = Inr (True, k1)"
    using sample_created_from by blast
  then show ?thesis using create_then_remove [where len = 1, OF k(1) sample_args(1,2) _ _ _ k(3)] by auto
qed

section \<open>Starting again\<close>

text \<open>C6: what is on the device survives a restart. A file system whose memory holds nothing of the one
  before, started without formatting on the device of one in which the invariant holds, reads the free
  map back, has the invariant again, and the same table of names and the same bytes in every file.\<close>

theorem filesys_survives_restart:
  assumes "fs_inv k im" "fs_device k0 = fs_device k" "fresh (k0\<lparr>open_inodes := []\<rparr>)"
    and "mb (byte_cnt (bit_cnt (sector_map k))) = Some ws" "length ws = elem_cnt (bit_cnt (sector_map k))"
  shows "\<exists>k'. filesys_init False True mb k0 = Inr k' \<and> fs_inv k' (disk_inode k 0) \<and> bmap (sector_map k') = bmap (sector_map k) \<and>
    fs_table k' = fs_table k \<and>
    (\<forall>s sec. fs_table k s = Some sec \<longrightarrow> disk_inode k' sec = disk_inode k sec \<and> content k' (disk_inode k sec) = content k (disk_inode k sec))"
proof -
  obtain k' where k': "filesys_init False True mb k0 = Inr k'" "fs_inv k' (disk_inode k 0)" "flat k' = flat k"
    "bmap (sector_map k') = bmap (sector_map k)" "fs_table k' = fs_table k"
    using filesys_init_mounts [OF assms(1-3), of mb ws] assms(4,5) by blast
  have dev: "dev_ok (fs_device k)" "dev_ok (fs_device k')" "bit_cnt (sector_map k) = length (sectors (fs_device k))"
    using k'(2) assms(1) fs_wfD by (auto simp: fs_inv_def)
  have "disk_inode k' sec = disk_inode k sec" if t: "fs_table k s = Some sec" for s sec
  proof -
    have "file_at k im sec" using t assms(1) by (simp add: fs_inv_def)
    then show ?thesis by (intro disk_inode_flat [OF k'(3) dev(1,2)]) (simp add: file_at_def flip: dev(3))
  qed
  then show ?thesis using k' flat_content [OF k'(3)] by blast
qed

lemma filesys_survives_restart_witness:
  "\<exists>k im sec k'. fs_inv k im \<and> fs_table k [97] = Some sec \<and>
    filesys_init False True sample_map (sample_disk\<lparr>fs_device := fs_device k\<rparr>) = Inr k' \<and> fs_inv k' (disk_inode k 0) \<and>
    fs_table k' [97] = Some sec \<and> content k' (disk_inode k sec) = [0]"
proof -
  obtain k im sec where k: "fs_inv k im" "fs_table k [97] = Some sec" "content k (disk_inode k sec) = [0]" "bit_cnt (sector_map k) = 16"
    using sample_created by blast
  have "\<exists>k'. filesys_init False True sample_map (sample_disk\<lparr>fs_device := fs_device k\<rparr>) = Inr k' \<and> fs_inv k' (disk_inode k 0) \<and>
    fs_table k' [97] = Some sec \<and> content k' (disk_inode k sec) = [0]"
    using filesys_survives_restart [OF k(1), of "sample_disk\<lparr>fs_device := fs_device k\<rparr>" sample_map "[0]"] k sample_disk_ok(2)
    by (fastforce simp: elem_cnt_def DIV_ROUND_UP_def ELEM_BITS_def add32_def fresh_def sample_disk_def)
  then show ?thesis using k(1,2) by blast
qed


text \<open>C28: formatting a device with room for the free map, the root and its inode gives a file system in which
  the invariant holds, the root has no names and its 320 bytes are zeros, no file but the free map's is open, and
  exactly these sectors are marked: 0, 1, a run for the file of the free map and one for the root.\<close>

theorem filesys_format_correct:
  fixes k0 :: fs
  defines "n \<equiv> unat (block_size (fs_device k0))"
  assumes "dev_ok (fs_device k0)" "fresh (k0\<lparr>open_inodes := []\<rparr>)" "n + 31 < 2 ^ 32" "sectors_of (int (byte_cnt n)) + 3 \<le> n"
    and "mb (byte_cnt n) = Some ws" "length ws = elem_cnt n"
  shows "\<exists>k' im. filesys_init True True mb k0 = Inr k' \<and> fs_inv k' im \<and> fs_table k' = Map.empty \<and>
    content k' (root_inode k') = replicate 320 0 \<and> (\<forall>s. s \<noteq> 0 \<longrightarrow> closed s k') \<and>
    (\<exists>start r. bmap (sector_map k') = (put_bytes ((replicate n False)[0 := True, 1 := True]) start
      (replicate (sectors_of (int (byte_cnt n))) True))[r := True] \<and> start + sectors_of (int (byte_cnt n)) \<le> n)"
  using assms(2-) unfolding n_def by (rule filesys_init_formats)

lemma filesys_format_correct_witness:
  "\<exists>k im. filesys_init True True sample_map sample_disk = Inr k \<and> fs_inv k im \<and> fs_table k = Map.empty"
  using filesys_format_correct [of sample_disk sample_map "[0]"] sample_disk_ok
  by (fastforce simp: byte_cnt_def elem_cnt_def DIV_ROUND_UP_def ELEM_BITS_def add32_def sectors_of_def)

section \<open>Reading and writing\<close>

text \<open>C8: reading and writing of an inode refine those of a list of bytes, whatever sectors and parts of
  sectors they go through. Reading \<open>sz\<close> bytes at \<open>ofs\<close> puts the bytes of the content that are there
  into the buffer, tells how many, and changes no byte of the device. Writing at an offset inside the
  file replaces the bytes of the content there, no further than its end, tells how many, and changes no
  byte of any inode that does not overlap this one.\<close>

theorem inode_io_refines_content:
  assumes "live_inode k p i" "0 \<le> ofs" "ofs \<le> inode_length i" "span i sz ofs \<le> length buf"
  shows "(\<exists>k'. inode_read_at p buf sz ofs k =
      Inr (int (span i sz ofs), put_bytes buf 0 (take (nat sz) (drop (nat ofs) (content k i))), k') \<and>
      live_inode k' p i \<and> flat k' = flat k) \<and>
    (deny_write_cnt i = 0 \<longrightarrow> (\<exists>k'. inode_write_at p buf sz ofs k = Inr (int (span i sz ofs), k') \<and> live_inode k' p i \<and>
      content k' i = put_bytes (content k i) (nat ofs) (take (span i sz ofs) buf) \<and> length (flat k') = length (flat k) \<and>
      (\<forall>j. inode_ok k j \<and> apart i j \<longrightarrow> content k' j = content k j)))"
proof (rule conjI; (rule impI)?)
  have l: "dev_ok (fs_device k)" "inode_heap k p = Some i" "p \<noteq> 0" "inode_ok k i" "no_fail k"
    using assms(1) by (auto simp: live_inode_def)
  have "ofs < 2 ^ 31" using assms(3) inode_length_range(1) [of i] by simp
  then obtain k' where "inode_read_at p buf sz ofs k =
      Inr (int (span i sz ofs), put_bytes buf 0 (take (nat sz) (drop (nat ofs) (content k i))), k')" "same k k'" "flat k' = flat k"
      "dev_ok (fs_device k')"
    using inode_read_at_reads [OF l assms(2) _ assms(4)] by blast
  then show "\<exists>k'. inode_read_at p buf sz ofs k =
      Inr (int (span i sz ofs), put_bytes buf 0 (take (nat sz) (drop (nat ofs) (content k i))), k') \<and>
      live_inode k' p i \<and> flat k' = flat k"
    using live_inode_same [OF assms(1)] by auto
  show "\<exists>k'. inode_write_at p buf sz ofs k = Inr (int (span i sz ofs), k') \<and> live_inode k' p i \<and>
      content k' i = put_bytes (content k i) (nat ofs) (take (span i sz ofs) buf) \<and> length (flat k') = length (flat k) \<and>
      (\<forall>j. inode_ok k j \<and> apart i j \<longrightarrow> content k' j = content k j)" if "deny_write_cnt i = 0"
    using inode_write_at_writes [OF l that assms(2-4)] live_inode_same [OF assms(1)] by blast
qed

text \<open>What \<open>file_write\<close> puts into an open file, \<open>file_seek\<close> back and \<open>file_read\<close> give.\<close>

theorem file_write_then_read:
  assumes "file_heap k p = Some f" "p \<noteq> 0" "live_inode k (file_inode f) i" "deny_write_cnt i = 0"
    and "0 \<le> file_pos f" "file_pos f + int (length bs) \<le> inode_length i" "length buf = length bs"
  shows "\<exists>k1 k2 k3. file_write p bs (int (length bs)) k = Inr (int (length bs), k1) \<and>
    file_seek p (file_pos f) k1 = Inr k2 \<and> file_read p buf (int (length bs)) k2 = Inr (int (length bs), bs, k3)"
  using assms by (intro file_write_read) (auto simp: live_inode_def)

text \<open>The file of the sample, open.\<close>

lemma sample_open:
  "\<exists>k p f i. file_heap k p = Some \<lparr>file_inode = f, file_pos = 0, file_deny = False\<rparr> \<and> p \<noteq> 0 \<and> live_inode k f i \<and>
    deny_write_cnt i = 0 \<and> open_cnt i = 1 \<and> inode_length i = 1 \<and> content k i = [0]"
proof -
  obtain k im sec where k: "fs_inv k im" "fs_table k [97] = Some sec" "\<forall>s. s \<noteq> 0 \<longrightarrow> closed s k" "content k (disk_inode k sec) = [0]"
    using sample_created by blast
  have sec: "sec \<noteq> 0" "inode_ok k (disk_inode k sec)" using k(1,2) by (simp_all add: fs_inv_def file_at_def stored_def)
  then obtain p f k' where k': "file_heap k' = (file_heap k)(p \<mapsto> \<lparr>file_inode = f, file_pos = 0, file_deny = False\<rparr>)" "p \<noteq> 0"
    "live_inode k' f (disk_inode k sec)" "flat k' = flat k"
    using filesys_open_opens [OF k(1) sample_args(1,2)] k(2,3) by auto
  have "0 \<le> inode_length (disk_inode k sec)" "nat (inode_length (disk_inode k sec)) = 1"
    using sec(2) length_content [OF sec(2)] k(4) by (simp_all add: inode_ok_def)
  then have "inode_length (disk_inode k sec) = 1" by simp
  moreover have "deny_write_cnt (disk_inode k sec) = 0" "open_cnt (disk_inode k sec) = 1" by (simp_all add: disk_inode_def)
  ultimately show ?thesis
    using k' k(4) flat_content [OF k'(4)]
    by (intro exI [of _ k'] exI [of _ p] exI [of _ f] exI [of _ "disk_inode k sec"]) simp
qed

lemma inode_io_refines_content_witness:
  "\<exists>k p i k' k''. live_inode k p i \<and> inode_write_at p [7] 1 0 k = Inr (1, k') \<and> content k' i = [7] \<and>
    inode_read_at p [9] 1 0 k = Inr (1, [0], k'')"
proof -
  obtain k f i where k: "live_inode k f i" "deny_write_cnt i = 0" "inode_length i = 1" "content k i = [0]"
    using sample_open by blast
  have s: "span i 1 0 = 1" using k(3) by (simp add: span_def)
  show ?thesis
    using inode_io_refines_content [OF k(1), of 0 1 "[7]"] inode_io_refines_content [OF k(1), of 0 1 "[9]"] k s
    by (simp add: put_bytes_def) blast
qed

text \<open>The file of the sample with a size of its own, opened.\<close>

lemma sample_opened:
  assumes "1 \<le> len" "len \<le> 512"
  shows "\<exists>k im sec p f k1. fs_inv k im \<and> fs_table k [97] = Some sec \<and> (\<forall>s. s \<noteq> 0 \<longrightarrow> closed s k) \<and>
    content k (disk_inode k sec) = replicate (nat len) 0 \<and> p \<noteq> 0 \<and> f \<noteq> 0 \<and> file_heap k p = None \<and> inode_heap k f = None \<and>
    file_heap k1 = (file_heap k)(p \<mapsto> \<lparr>file_inode = f, file_pos = 0, file_deny = False\<rparr>) \<and>
    inode_heap k1 = (inode_heap k)(f \<mapsto> disk_inode k sec) \<and> open_inodes k1 = f # open_inodes k \<and> map_file k1 = map_file k \<and>
    flat k1 = flat k \<and> sector_map k1 = sector_map k \<and> live_inode k1 f (disk_inode k sec) \<and> fs_inv k1 im \<and>
    disk_inode k1 sec = disk_inode k sec \<and> fs_table k1 [97] = Some sec \<and> inode_length (disk_inode k sec) = len"
proof -
  have "(len + 511) div 512 = 1" using int_div_pos_eq [of "len + 511" 512 1 "len - 1"] assms by simp
  then have len: "sectors_of len = 1" "0 \<le> len" "len + 512 < 2 ^ 31" using assms by (simp_all add: sectors_of_def)
  obtain k im sec where k: "fs_inv k im" "fs_table k [97] = Some sec" "\<forall>s. s \<noteq> 0 \<longrightarrow> closed s k" "content k (disk_inode k sec) = replicate (nat len) 0"
    using sample_created_of [OF len] by blast
  have sec: "sec \<noteq> 0" "inode_ok k (disk_inode k sec)" using k(1,2) by (simp_all add: fs_inv_def file_at_def stored_def)
  obtain p f k1 where o: "p \<noteq> 0" "f \<noteq> 0" "file_heap k p = None" "inode_heap k f = None"
    "file_heap k1 = (file_heap k)(p \<mapsto> \<lparr>file_inode = f, file_pos = 0, file_deny = False\<rparr>)"
    "inode_heap k1 = (inode_heap k)(f \<mapsto> disk_inode k sec)" "open_inodes k1 = f # open_inodes k" "map_file k1 = map_file k"
    "flat k1 = flat k" "sector_map k1 = sector_map k" "live_inode k1 f (disk_inode k sec)" "fs_inv k1 im"
    using filesys_open_opens [OF k(1) sample_args(1,2)] k(2,3) sec(1) by auto
  have wf: "fs_wf k im" "fs_wf k1 im" using k(1) o(12) by (simp_all add: fs_inv_def)
  have bound: "unat sec < length (sectors (fs_device k))" "1 < length (sectors (fs_device k))"
    using k(1,2) fs_wfD(2,3) [OF wf(1)] by (auto simp: fs_inv_def file_at_def)
  have d: "disk_inode k1 sec = disk_inode k sec" "root_inode k1 = root_inode k"
    by (rule disk_inode_flat [OF o(9) fs_wfD(12) [OF wf(1)] fs_wfD(12) [OF wf(2)]], use bound in simp)+
  have t1: "fs_table k1 [97] = Some sec" using k(2) d(2) flat_content [OF o(9)] by simp
  have L: "inode_length (disk_inode k sec) = len"
  proof -
    have "nat (inode_length (disk_inode k sec)) = nat len" using length_content [OF sec(2)] k(4) by simp
    moreover have "0 \<le> inode_length (disk_inode k sec)" using sec(2) by (simp add: inode_ok_def)
    ultimately show ?thesis using len(2) by simp
  qed
  show ?thesis
    using k o d(1) t1 L by (intro exI [of _ k] exI [of _ im] exI [of _ sec] exI [of _ p] exI [of _ f] exI [of _ k1]) simp
qed

text \<open>The file with bytes of its own: it is created, opened, written and closed.\<close>

lemma sample_written:
  assumes "0 < length bs" "length bs \<le> 512"
  shows "\<exists>k im sec. fs_inv k im \<and> fs_table k [97] = Some sec \<and> (\<forall>s. s \<noteq> 0 \<longrightarrow> closed s k) \<and> content k (disk_inode k sec) = bs"
proof -
  define len where "len = int (length bs)"
  have len: "1 \<le> len" "len \<le> 512" using assms by (simp_all add: len_def Suc_le_eq)
  obtain k im sec p f k1 where k: "fs_inv k im" "fs_table k [97] = Some sec" "\<forall>s. s \<noteq> 0 \<longrightarrow> closed s k" "content k (disk_inode k sec) = replicate (nat len) 0"
    and o: "p \<noteq> 0" "f \<noteq> 0" "file_heap k p = None" "inode_heap k f = None"
    "file_heap k1 = (file_heap k)(p \<mapsto> \<lparr>file_inode = f, file_pos = 0, file_deny = False\<rparr>)"
    "inode_heap k1 = (inode_heap k)(f \<mapsto> disk_inode k sec)" "open_inodes k1 = f # open_inodes k" "map_file k1 = map_file k"
    "flat k1 = flat k" "sector_map k1 = sector_map k" "live_inode k1 f (disk_inode k sec)" "fs_inv k1 im"
    and d: "disk_inode k1 sec = disk_inode k sec" and t1: "fs_table k1 [97] = Some sec" and L: "inode_length (disk_inode k sec) = len"
    using sample_opened [OF len] by blast
  have wf: "fs_wf k im" "fs_wf k1 im" using k(1) o(12) by (simp_all add: fs_inv_def)
  let ?f = "\<lparr>file_inode = f, file_pos = 0, file_deny = False\<rparr>"
  have f1: "file_heap k1 p = Some ?f" using o(5) by simp
  have i: "inode_data (disk_inode k sec) = inode_data (disk_inode k1 sec)" "deny_write_cnt (disk_inode k sec) = 0"
    "0 \<le> file_pos ?f" "file_pos ?f \<le> inode_length (disk_inode k sec)" "span (disk_inode k sec) len (file_pos ?f) = length bs"
    using L len(1) d by (simp_all add: disk_inode_def span_def len_def)
  have live: "live_inode k1 (file_inode ?f) (disk_inode k sec)" using o(11) by simp
  obtain k2 where k2: "file_write p bs len k1 = Inr (int (length bs), k2)" "fs_inv k2 im" "fs_table k2 = fs_table k1"
    "content k2 (disk_inode k2 sec) = put_bytes (content k1 (disk_inode k1 sec)) 0 bs"
    "k2\<lparr>fs_device := fs_device k1, mallocs := mallocs k1, file_heap := file_heap k1\<rparr> = k1"
    "file_heap k2 = (file_heap k1)(p \<mapsto> ?f\<lparr>file_pos := len\<rparr>)"
    using file_write_named [OF o(12) t1 f1 o(1) live i(1-4), of len bs] i(5) by (auto simp: len_def)
  have h: "inode_heap k2 = inode_heap k1" "open_inodes k2 = open_inodes k1" "map_file k2 = map_file k1" "sector_map k2 = sector_map k1"
    using arg_cong [OF k2(5), of inode_heap] arg_cong [OF k2(5), of open_inodes] arg_cong [OF k2(5), of map_file]
      arg_cong [OF k2(5), of sector_map] by simp_all
  let ?k3 = "k2\<lparr>open_inodes := open_inodes k, inode_heap := inode_heap k, file_heap := file_heap k\<rparr>"
  have wf2: "fs_wf k2 im" using k2(2) by (simp add: fs_inv_def)
  have "length (flat k2) = length (flat k)"
    using length_flat [OF fs_wfD(12) [OF wf2]] length_flat [OF fs_wfD(12) [OF wf(1)]] fs_wfD(2) [OF wf2] fs_wfD(2) [OF wf(1)] h(4) o(10) by simp
  then have c: "fs_inv ?k3 im" "fs_table ?k3 = fs_table k2"
    using close_opened [OF k(1) k2(2) o(1,3,2,4), of len "disk_inode k sec"] k2(6) h o(5-8,10) by (simp_all add: disk_inode_def)
  have "content k1 (disk_inode k1 sec) = replicate (length bs) 0" using k(4) d flat_content [OF o(9)] by (simp add: len_def)
  then have "content ?k3 (disk_inode ?k3 sec) = bs"
    using k2(4) by (simp add: content_def disk_inode_def flat_def put_bytes_def)
  moreover have "\<forall>s. s \<noteq> 0 \<longrightarrow> closed s ?k3" using k(3) by (simp add: closed_def)
  ultimately show ?thesis using c k2(3) t1 by (intro exI [of _ ?k3] exI [of _ im] exI [of _ sec]) simp
qed

text \<open>C9: \<open>file_write\<close> to a file that has a name replaces the bytes of that file from the position on, no further than its
  end, tells how many, and moves the position behind them. The invariant of the file system is kept: no
  name, no inode and no byte of any other file is changed.\<close>

theorem file_write_changes_one_file:
  assumes "fs_inv k im" "fs_table k s = Some sec" "file_heap k p = Some f" "p \<noteq> 0" "live_inode k (file_inode f) i"
    and "inode_data i = inode_data (disk_inode k sec)" "deny_write_cnt i = 0"
    and "0 \<le> file_pos f" "file_pos f \<le> inode_length i" "span i sz (file_pos f) \<le> length buf"
  shows "\<exists>k'. file_write p buf sz k = Inr (int (span i sz (file_pos f)), k') \<and> fs_inv k' im \<and> fs_table k' = fs_table k \<and>
    file_heap k' p = Some (f\<lparr>file_pos := file_pos f + int (span i sz (file_pos f))\<rparr>) \<and>
    content k' (disk_inode k' sec) =
      put_bytes (content k (disk_inode k sec)) (nat (file_pos f)) (take (span i sz (file_pos f)) buf) \<and>
    (\<forall>s' sec'. fs_table k s' = Some sec' \<and> s' \<noteq> s \<longrightarrow> content k' (disk_inode k' sec') = content k (disk_inode k sec'))"
  using file_write_named [OF assms] by (metis fun_upd_same)

lemma file_write_changes_one_file_witness:
  "\<exists>k im sec p k'. fs_inv k im \<and> fs_table k [97] = Some sec \<and> content k (disk_inode k sec) = [0, 0, 0] \<and>
    file_write p [7, 8, 9, 10] 4 k = Inr (3, k') \<and> fs_inv k' im \<and> content k' (disk_inode k' sec) = [7, 8, 9]"
proof -
  obtain k0 im sec p f k where k: "content k0 (disk_inode k0 sec) = replicate (nat 3) 0" "p \<noteq> 0"
    "file_heap k = (file_heap k0)(p \<mapsto> \<lparr>file_inode = f, file_pos = 0, file_deny = False\<rparr>)" "flat k = flat k0"
    "live_inode k f (disk_inode k0 sec)" "fs_inv k im" "disk_inode k sec = disk_inode k0 sec" "fs_table k [97] = Some sec"
    "inode_length (disk_inode k0 sec) = 3"
    using sample_opened [of 3] by auto
  have c: "content k (disk_inode k sec) = [0, 0, 0]" using k(1,7) flat_content [OF k(4)] by (simp add: numeral_3_eq_3)
  have "file_heap k p = Some \<lparr>file_inode = f, file_pos = 0, file_deny = False\<rparr>" using k(3) by simp
  moreover have "deny_write_cnt (disk_inode k sec) = 0" "span (disk_inode k sec) 4 0 = 3" using k(7,9) by (simp_all add: disk_inode_def span_def)
  ultimately obtain k' where "file_write p [7, 8, 9, 10] 4 k = Inr (3, k')" "fs_inv k' im" "content k' (disk_inode k' sec) = [7, 8, 9]"
    using file_write_changes_one_file [OF k(6,8) _ k(2), of _ "disk_inode k sec" 4 "[7, 8, 9, 10]"] k(5-9) c
    by (auto simp: put_bytes_def)
  then show ?thesis using k(6,8) c by blast
qed

lemma file_write_then_read_witness:
  "\<exists>k p k1 k2 k3. file_write p [7] 1 k = Inr (1, k1) \<and> file_seek p 0 k1 = Inr k2 \<and> file_read p [9] 1 k2 = Inr (1, [7], k3)"
proof -
  obtain k p f i where k: "file_heap k p = Some \<lparr>file_inode = f, file_pos = 0, file_deny = False\<rparr>" "p \<noteq> 0" "live_inode k f i"
    "deny_write_cnt i = 0" "inode_length i = 1"
    using sample_open by blast
  have "\<exists>k1 k2 k3. file_write p [7] 1 k = Inr (1, k1) \<and> file_seek p 0 k1 = Inr k2 \<and> file_read p [9] 1 k2 = Inr (1, [7], k3)"
    using file_write_then_read [OF k(1,2), of i "[7]" "[9]"] k(3-5) by simp
  then show ?thesis by blast
qed

text \<open>C30: a file that denied writing is not written, by itself or by any other open file on its inode: such
  a \<open>file_write\<close> returns 0 and the device is as before. Allowing it again undoes the denial exactly.\<close>

theorem deny_write_protects:
  assumes "file_heap k p = Some f" "p \<noteq> 0" "\<not> file_deny f" "inode_heap k (file_inode f) = Some i" "file_inode f \<noteq> 0"
    and "0 \<le> deny_write_cnt i" "deny_write_cnt i < open_cnt i" "open_cnt i < 2 ^ 31"
  shows "\<exists>k'. file_deny_write p k = Inr k' \<and> file_allow_write p k' = Inr k \<and>
    (\<forall>q g buf sz. file_heap k' q = Some g \<and> q \<noteq> 0 \<and> file_inode g = file_inode f \<and> 0 \<le> file_pos g \<and> file_pos g < 2 ^ 31 \<longrightarrow>
       file_write q buf sz k' = Inr (0, k'))"
proof -
  let ?f = "f\<lparr>file_deny := True\<rparr>" and ?i = "i\<lparr>deny_write_cnt := deny_write_cnt i + 1\<rparr>"
  let ?k = "put_inode (file_inode f) ?i (put_file p ?f k)"
  have d: "file_deny_write p k = Inr ?k"
    using assms by (simp add: file_deny_write_def inode_deny_write_def follow_def int32_def put_file_def put_inode_def)
  have "f\<lparr>file_deny := False\<rparr> = f" using assms(3) by (cases f) simp
  then have "file_allow_write p ?k = Inr k"
    using assms(1-8)
    by (simp add: file_allow_write_def inode_allow_write_def follow_def put_inode_def put_file_def fun_upd_idem)
  moreover have "file_write q buf sz ?k = Inr (0, ?k)"
    if "file_heap ?k q = Some g \<and> q \<noteq> 0 \<and> file_inode g = file_inode f \<and> 0 \<le> file_pos g \<and> file_pos g < 2 ^ 31" for q g buf sz
  proof -
    have "inode_write_at (file_inode f) buf sz (file_pos g) ?k = Inr (0, ?k)"
      using assms(5,6) by (simp add: inode_write_at_def follow_def put_inode_def)
    moreover have "put_file q g ?k = ?k" using that by (simp add: put_file_def put_inode_def fun_upd_idem)
    ultimately show ?thesis using that by (simp add: file_write_def follow_def int32_def)
  qed
  ultimately show ?thesis using d by blast
qed

lemma deny_write_protects_witness:
  "\<exists>k p k'. file_deny_write p k = Inr k' \<and> file_allow_write p k' = Inr k"
proof -
  obtain k p f i where k: "file_heap k p = Some \<lparr>file_inode = f, file_pos = 0, file_deny = False\<rparr>" "p \<noteq> 0" "live_inode k f i"
    "deny_write_cnt i = 0" "open_cnt i = 1"
    using sample_open by blast
  have "\<exists>k'. file_deny_write p k = Inr k' \<and> file_allow_write p k' = Inr k"
    using deny_write_protects [OF k(1,2), of i] k(3-5) by (auto simp: live_inode_def)
  then show ?thesis by blast
qed

end
