(* ===== verification/Pintos_Process_Properties.thy ===== *)
theory Pintos_Process_Properties
  imports Pintos_Process_Program Pintos_Process_Truncated Pintos_Filesys_Properties Pintos_Pagedir_Properties
begin

unbundle bit_operations_syntax

text \<open>
  The properties of loading user programs.
\<close>

section \<open>A sample executable\<close>

text \<open>One segment, of the 84 bytes of the file and zeros up to 5000 bytes, at 0x8048000.\<close>

definition sample_elf :: "byte_t list" where
  "sample_elf =
     [0x7f, 0x45, 0x4c, 0x46, 1, 1, 1, 0, 0, 0, 0, 0, 0, 0, 0, 0, 2, 0, 3, 0, 1, 0, 0, 0, 0x54, 0x80, 4, 8, 52, 0, 0, 0, 0, 0, 0, 0,
      0, 0, 0, 0, 52, 0, 32, 0, 1, 0, 0, 0, 0, 0, 0, 0,
      1, 0, 0, 0, 0, 0, 0, 0, 0, 0x80, 4, 8, 0, 0, 0, 0, 84, 0, 0, 0, 0x88, 0x13, 0, 0, 5, 0, 0, 0, 0, 0x10, 0, 0]"

definition sample_phdr :: Elf32_Phdr where
  "sample_phdr = \<lparr>p_type = 1, p_offset = 0, p_vaddr = 0x8048000, p_filesz = 84, p_memsz = 5000, p_flags = 5\<rparr>"

lemma sample_ehdr:
  "length sample_elf = 84" "ehdr_valid (ehdr_of sample_elf)" "e_entry (ehdr_of sample_elf) = 0x8048054"
  "e_phoff (ehdr_of sample_elf) = 52" "e_phnum (ehdr_of sample_elf) = 1"
  by (simp_all add: sample_elf_def ehdr_of_def decode_ehdr_def ehdr_size_def ehdr_valid_def half_at_def word_at_def bytes_word_def phdr_size_def)

lemma sample_phdrs: "program_headers sample_elf = [sample_phdr]"
proof -
  have "take phdr_size (drop 52 sample_elf) = drop 52 sample_elf" by (simp add: phdr_size_def sample_ehdr(1))
  moreover have "decode_phdr (drop 52 sample_elf) = sample_phdr"
    by (simp add: sample_elf_def decode_phdr_def sample_phdr_def word_at_def bytes_word_def)
  moreover have "unat (1 :: 16 word) = Suc 0" "unat (52 :: word_t) = 52" by simp_all
  ultimately show ?thesis
    unfolding program_headers_def sample_ehdr by simp
qed

lemma sample_pages_needed: "segment_pages sample_phdr = 2" "frames_needed sample_elf = 3"
  by (simp_all add: segment_pages_def frames_needed_def pages_needed_def sample_phdrs) (simp_all add: sample_phdr_def PT_LOAD_def)

lemma sample_executable: "executable sample_elf"
proof -
  have "loadable sample_elf sample_phdr"
    by (simp add: loadable_def segment_valid_def sample_phdr_def sample_ehdr(1) PHYS_BASE_def PT_LOAD_def PT_DYNAMIC_def PT_INTERP_def PT_SHLIB_def)
  moreover have "first_page sample_phdr + 4096 * segment_pages sample_phdr \<le> unat stack_page"
    unfolding sample_pages_needed by (simp add: first_page_def sample_phdr_def stack_page_def PHYS_BASE_def PGSIZE_def)
  ultimately show ?thesis
    by (simp add: executable_def sample_ehdr sample_phdrs ehdr_size_def phdr_size_def)
qed

lemma sample_view:
  "program_view sample_elf 0x8048001 = Some (0x45, False)" "program_view sample_elf 0x8049000 = Some (0, False)"
  "program_view sample_elf 0x804a000 = None" "program_view sample_elf 0xbffffffc = Some (0, True)"
  by (simp_all add: program_view_def program_image_def segment_at_def sample_phdrs in_segment_pages_def sample_pages_needed segment_byte_def
      segment_writable_def stack_page_def pg_no_def PGBITS_def PHYS_BASE_def PGSIZE_def PF_W_def PT_LOAD_def)
    (simp_all add: sample_phdr_def sample_elf_def)

definition sample_proc :: "fs \<Rightarrow> proc" where
  "sample_proc k = \<lparr>vmem = sample_vm, filesys = k, cur_thread = 0xc0102000, pagedir = 0,
     the_tss = Some \<lparr>esp0 = 0, ss0 = SEL_KDSEG, tss_bitmap = 0xdfff\<rparr>\<rparr>"

lemma sample_counts: "free_user_cnt (palloc sample_vm) = 7" "free_cnt (palloc sample_vm) = 6"
  by (simp_all add: free_user_cnt_def free_cnt_def sample_vm_def bmap_def upt_rec)

lemma sample_user_pool: "user_pool_ok sample_vm"
  unfolding user_pool_ok_def
proof (intro conjI allI impI)
  show "PHYS_BASE \<le> base (user_pool (palloc sample_vm))" by (simp add: sample_vm_def PHYS_BASE_def)
  fix j
  assume "j < bit_cnt (used_map (user_pool (palloc sample_vm)))"
  then have "j \<in> {0, 1, 2, 3, 4, 5, 6, 7}" by (auto simp: sample_vm_def)
  then show "drop_bit 12 (page_at (user_pool (palloc sample_vm)) j - PHYS_BASE) < ram_pages sample_vm"
    by (auto simp: sample_vm_def page_at_def PHYS_BASE_def PGSIZE_def)
qed

section \<open>Loading\<close>

text \<open>C3: \<open>load\<close> builds the address space that the executable describes. When it succeeds, the program has a directory of its own,
  which is the active one, sees the bytes of the file in its segments, zeros behind them up to their size
  in memory and in its stack page, writable where the header says so, and nothing else; the result is
  the entry point and the top of the stack. It fails only when there are fewer free pages than the image
  and its tables can need. In both cases the file is closed again and the file system as before, all
  other programs see what they saw, and the directory can be destroyed. Executables with two segments in
  the same page are excluded, and \<open>malloc\<close> is taken not to fail, as in the invariant of the file system.\<close>

theorem load_program_loads:
  assumes "can_load p D im s sec" "cstr m name s" "length junk_entry = 20" "length junk_ehdr = ehdr_size" "length junk_phdr = phdr_size"
    and "executable bs" "content (filesys p) (disk_inode (filesys p) sec) = bs"
  shows "\<exists>r p'. load_program m name junk_entry junk_ehdr junk_phdr p = Inr (r, p') \<and> fs_as_before (filesys p) (filesys p') \<and>
    fs_inv (filesys p') im \<and>
    (\<forall>d va. own_space (vmem p) D d \<and> is_user_vaddr va \<longrightarrow>
       user_view (pmem (palloc (vmem p'))) d va = user_view (pmem (palloc (vmem p))) d va) \<and>
    (pagedir p' = 0 \<or> pagedir p' \<notin> D \<and> own_space (vmem p') (insert (pagedir p') D) (pagedir p')) \<and>
    (if r = None then free_user_cnt (palloc (vmem p)) < frames_needed bs \<or> free_cnt (palloc (vmem p)) \<le> frames_needed bs
     else r = Some (e_entry (ehdr_of bs), PHYS_BASE) \<and> cr3 (vmem p') + PHYS_BASE = pagedir p' \<and> pagedir p' \<noteq> 0 \<and>
       (\<forall>va. is_user_vaddr va \<longrightarrow> user_view (pmem (palloc (vmem p'))) (pagedir p') va = program_view bs va))"
proof -
  obtain r p' where r: "load_program m name junk_entry junk_ehdr junk_phdr p = Inr (r, p')" "fs_as_before (filesys p) (filesys p')"
    "fs_inv (filesys p') im" "undisturbed D (vmem p) (vmem p')"
    "pagedir p' = 0 \<or> pagedir p' \<notin> D \<and> own_space (vmem p') (insert (pagedir p') D) (pagedir p')"
    "if r = None then free_user_cnt (palloc (vmem p)) < frames_needed bs \<or> free_cnt (palloc (vmem p)) \<le> frames_needed bs
     else r = Some (e_entry (ehdr_of bs), PHYS_BASE) \<and> started p' D bs"
    using load_program_loads_aux [OF assms] by blast
  have "pagedir p' \<noteq> 0" if "started p' D bs"
  proof -
    have o: "own_space (vmem p') (insert (pagedir p') D) (pagedir p')" using that by (simp add: started_def)
    show ?thesis by (rule vm_dir(3) [OF own_spaceD(1,2) [OF o]])
  qed
  then have "if r = None then free_user_cnt (palloc (vmem p)) < frames_needed bs \<or> free_cnt (palloc (vmem p)) \<le> frames_needed bs
     else r = Some (e_entry (ehdr_of bs), PHYS_BASE) \<and> cr3 (vmem p') + PHYS_BASE = pagedir p' \<and> pagedir p' \<noteq> 0 \<and>
       (\<forall>va. is_user_vaddr va \<longrightarrow> user_view (pmem (palloc (vmem p'))) (pagedir p') va = program_view bs va)"
    using r(6) by (simp add: started_def split: if_splits)
  moreover have "user_view (pmem (palloc (vmem p'))) d va = user_view (pmem (palloc (vmem p))) d va"
    if "own_space (vmem p) D d \<and> is_user_vaddr va" for d va
    using undisturbed_view [OF _ r(4)] that by blast
  ultimately show ?thesis using r(1-3,5) by blast
qed

lemma load_program_loads_witness:
  "\<exists>p p'. load_program sample_name 1 sample_entry (replicate 52 0) (replicate 32 0) p = Inr (Some (0x8048054, PHYS_BASE), p') \<and>
    user_view (pmem (palloc (vmem p'))) (pagedir p') 0x8048001 = Some (0x45, False) \<and>
    user_view (pmem (palloc (vmem p'))) (pagedir p') 0x8049000 = Some (0, False) \<and>
    user_view (pmem (palloc (vmem p'))) (pagedir p') 0xbffffffc = Some (0, True)"
proof -
  obtain k im sec where k: "fs_inv k im" "fs_table k [97] = Some sec" "\<forall>s. s \<noteq> 0 \<longrightarrow> closed s k" "content k (disk_inode k sec) = sample_elf"
    using sample_written [of sample_elf] by (auto simp: sample_ehdr(1))
  have "sec \<noteq> 0" using k(1,2) by (simp add: fs_inv_def file_at_def)
  then have can: "can_load (sample_proc k) {0xc0100000, 0xc0101000} im [97] sec"
    using k(1-3) sample_vm_inv sample_user_pool by (simp add: can_load_def sample_proc_def)
  have f: "filesys (sample_proc k) = k" "vmem (sample_proc k) = sample_vm" by (simp_all add: sample_proc_def)
  obtain r p' where r: "load_program sample_name 1 sample_entry (replicate 52 0) (replicate 32 0) (sample_proc k) = Inr (r, p')"
    "if r = None then free_user_cnt (palloc sample_vm) < frames_needed sample_elf \<or> free_cnt (palloc sample_vm) \<le> frames_needed sample_elf
     else r = Some (e_entry (ehdr_of sample_elf), PHYS_BASE) \<and>
       (\<forall>va. is_user_vaddr va \<longrightarrow> user_view (pmem (palloc (vmem p'))) (pagedir p') va = program_view sample_elf va)"
    using load_program_loads [OF can sample_args(1,2) _ _ sample_executable, of "replicate 52 0" "replicate 32 0", unfolded f] k(4)
    by (auto simp: ehdr_size_def phdr_size_def split: if_splits)
  then have "r = Some (0x8048054, PHYS_BASE)" "\<And>va. is_user_vaddr va \<Longrightarrow> user_view (pmem (palloc (vmem p'))) (pagedir p') va = program_view sample_elf va"
    by (simp_all add: sample_counts sample_pages_needed(2) sample_ehdr(3) split: if_splits)
  moreover have "is_user_vaddr 0x8048001" "is_user_vaddr 0x8049000" "is_user_vaddr 0xbffffffc"
    by (simp_all add: is_user_vaddr_def PHYS_BASE_def)
  ultimately show ?thesis using r(1) sample_view(1,2,4) by metis
qed

section \<open>Checking a segment\<close>

text \<open>C14: \<open>validate_segment\<close> accepts exactly the segments that start inside the file at the same offset in a page as in memory, are not
  empty, are no smaller in memory than in the file, and lie between the first page and the kernel, without
  wrapping around; in particular every address of every page that \<open>load_segment\<close> then maps is a user address,
  and none is in page 0.\<close>

theorem validate_segment_correct:
  assumes "reading k file bs pos"
  shows "validate_segment h file k = Inr (segment_valid h (length bs)) \<and>
    (segment_valid h (length bs) \<longrightarrow> (\<forall>va. in_segment_pages h va \<longrightarrow> is_user_vaddr va \<and> 4096 \<le> unat va))"
proof (intro conjI impI allI)
  show "validate_segment h file k = Inr (segment_valid h (length bs))" by (rule validate_segment_valid [OF assms])
  fix va
  assume v: "segment_valid h (length bs)" and i: "in_segment_pages h va"
  obtain rb zb where b: "segment_bytes h = (rb, zb)" by fastforce
  note sz = segment_sizes [OF v b, folded segment_pages_def]
  have f: "first_page h = 4096 * (unat (p_vaddr h) div 4096)" unfolding first_page_def by (rule minus_mod_eq_mult_div)
  have "unat (p_vaddr h AND NOT PGMASK) = first_page h" by (simp only: page_parts(2) first_page_def)
  then show "is_user_vaddr va" using i sz(3) by (simp add: in_segment_pages_def first_page_def is_user_vaddr_def word_less_nat_alt)
  have "0 < unat (p_vaddr h) div 4096" using v by (simp add: segment_valid_def div_greater_zero_iff)
  then have "4096 \<le> first_page h" unfolding f by simp
  then show "4096 \<le> unat va" using i by (simp add: in_segment_pages_def first_page_def)
qed

text \<open>The sample as an open file.\<close>

lemma sample_reading:
  assumes "0 < length bs" "length bs \<le> 512"
  shows "\<exists>k p. reading k p bs 0"
proof -
  obtain k im sec where k: "fs_inv k im" "fs_table k [97] = Some sec" "\<forall>s. s \<noteq> 0 \<longrightarrow> closed s k" "content k (disk_inode k sec) = bs"
    using sample_written [OF assms] by blast
  have "sec \<noteq> 0" using k(1,2) by (simp add: fs_inv_def file_at_def)
  then obtain p f k' where "p \<noteq> 0" "file_heap k' = (file_heap k)(p \<mapsto> \<lparr>file_inode = f, file_pos = 0, file_deny = False\<rparr>)"
    "live_inode k' f (disk_inode k sec)" "flat k' = flat k"
    using filesys_open_opens [OF k(1) sample_args(1,2)] k(2,3) by auto
  then have "reading k' p bs 0" using k(4) flat_content [of k' k] by (auto simp: reading_def)
  then show ?thesis by blast
qed

lemma validate_segment_correct_witness:
  "\<exists>k p. validate_segment sample_phdr p k = Inr True \<and> validate_segment (sample_phdr\<lparr>p_vaddr := 0xbffff000\<rparr>) p k = Inr False"
proof -
  obtain k p where r: "reading k p sample_elf 0" using sample_reading [of sample_elf] by (auto simp: sample_ehdr(1))
  have "segment_valid sample_phdr 84" "\<not> segment_valid (sample_phdr\<lparr>p_vaddr := 0xbffff000\<rparr>) 84"
    by (simp_all add: segment_valid_def sample_phdr_def PHYS_BASE_def)
  then show ?thesis using validate_segment_correct [OF r] by (intro exI [of _ k] exI [of _ p]) (simp add: sample_ehdr(1))
qed

section \<open>A file that is too short\<close>

text \<open>C13: an executable with a segment that starts inside the file but does not end there panics the kernel. The check of the
  header accepts it, and when there are pages enough for it \<open>load_segment\<close> maps a page, finds too little to
  read, gives the page back although it stays mapped, and fails; when the process exits, its directory is
  destroyed and the page is given back a second time, which an assertion finds.\<close>

theorem truncated_segment_panics:
  assumes "own_space (vmem p) D (pagedir p)" "reading (filesys p) file bs pos0"
    and "p_type h = PT_LOAD" "segment_valid h (length bs)" "length bs < unat (p_offset h) + unat (p_filesz h)"
    and "\<And>va. in_segment_pages h va \<Longrightarrow> translate (pmem (palloc (vmem p))) (pagedir p) va = None"
    and "segment_pages h \<le> free_user_cnt (palloc (vmem p))" "segment_pages h \<le> free_cnt (palloc (vmem p))"
  shows "\<exists>p'. load_phdr h file p = Inr (False, p') \<and>
    (\<exists>va q w u. is_user_vaddr va \<and> translate (pmem (palloc (vmem p'))) (pagedir p') va = Some (q, w, u) \<and> \<not> upage_used (palloc (vmem p')) q) \<and>
    process_exit p' = Inl AssertFailed"
proof -
  obtain k v' where r: "load_phdr h file p = Inr (False, p\<lparr>filesys := k, vmem := v'\<rparr>)" "dangling v' D (pagedir p)"
    using load_phdr_short [OF assms] by blast
  have "dangling (vmem (p\<lparr>filesys := k, vmem := v'\<rparr>)) D (pagedir (p\<lparr>filesys := k, vmem := v'\<rparr>))" using r(2) by simp
  from dangling_exit [OF this] show ?thesis
    using r by (intro exI [of _ "p\<lparr>filesys := k, vmem := v'\<rparr>"]) (auto simp: dangling_def)
qed

text \<open>The sample with a header that says one byte more than there is.\<close>

lemma truncated_segment_panics_witness:
  "\<exists>p fp p'. load_phdr (sample_phdr\<lparr>p_filesz := 85\<rparr>) fp p = Inr (False, p') \<and> process_exit p' = Inl AssertFailed"
proof -
  obtain k fp where rd: "reading k fp sample_elf 0" using sample_reading [of sample_elf] by (auto simp: sample_ehdr(1))
  let ?h = "sample_phdr\<lparr>p_filesz := 85\<rparr>" and ?p = "(sample_proc k)\<lparr>pagedir := 0xc0101000\<rparr>"
  have h: "p_type ?h = PT_LOAD" "segment_valid ?h (length sample_elf)" "length sample_elf < unat (p_offset ?h) + unat (p_filesz ?h)"
    by (simp_all add: sample_phdr_def PT_LOAD_def segment_valid_def PHYS_BASE_def sample_ehdr(1))
  have n: "segment_pages ?h = 2" using sample_pages_needed(1) by (simp add: segment_pages_def)
  have "own_space sample_vm {0xc0100000, 0xc0101000} 0xc0101000"
    using sample_vm_inv sample_user_pool sample_pages(7) by (simp add: own_space_def Let_def sample_tab user_pool_ok_def)
  then have "own_space (vmem ?p) {0xc0100000, 0xc0101000} (pagedir ?p)" by (simp add: sample_proc_def)
  moreover have "reading (filesys ?p) fp sample_elf 0" using rd by (simp add: sample_proc_def)
  ultimately show ?thesis
    using truncated_segment_panics [of ?p _ fp sample_elf 0 ?h] h n sample_tab(2) sample_counts
    by (simp add: sample_proc_def) blast
qed

end
