(* ===== verification/Spec2Isabelle.thy ===== *)
theory Spec2Isabelle
  imports Arm_Properties Asm_Properties Pintos_List_Properties Pintos_Kernel_Properties
    Pintos_Stdlib Pintos_Random Pintos_Hash Pintos_Threads_Properties
    Pintos_Printf_Format Pintos_Process_Properties
begin

text \<open>
  A verification library for the C programs of this repository that have logic of their own.

  \<^bold>\<open>The programs.\<close> Two projects are modelled.

  \<^item> \<open>Year1/ARM_Assembler_Emulator_Project/arm11_48/src\<close>: an emulator for a subset of the ARM11
    instruction set with a GPIO module (\<open>emulate.c\<close>, \<open>emulator/\<close>) and a two-pass assembler for the
    same subset (\<open>assemble.c\<close>, \<open>assembler/\<close>). They meet in the binary file: what the assembler
    writes, the emulator loads, and the theorems of \<open>Asm_Properties\<close> run the emitted bytes through
    the emulator's own decoder and executor.
  \<^item> \<open>Year2/Pintos_Project/pintos_task0_sk4520/src\<close>: the Pintos teaching kernel. Modelled are parts of
    its library (\<open>lib/kernel/list.c\<close>, \<open>lib/kernel/hash.c\<close>, \<open>lib/kernel/bitmap.c\<close>, \<open>lib/string.c\<close>,
    \<open>lib/stdlib.c\<close>, \<open>lib/stdio.c\<close>, \<open>lib/random.c\<close>, \<open>lib/arithmetic.c\<close>), its threads and their
    synchronisation (\<open>threads/thread.c\<close>, \<open>threads/synch.c\<close>, the interrupt level and the timer interrupt of
    \<open>threads/interrupt.c\<close> and \<open>devices/timer.c\<close>), the page allocator (\<open>threads/palloc.c\<close>,
    \<open>threads/vaddr.h\<close>), page tables (\<open>threads/pte.h\<close>, \<open>userprog/pagedir.c\<close>, \<open>paging_init\<close> of \<open>threads/init.c\<close>), user programs (\<open>userprog/process.c\<close>) and the file system (\<open>filesys/free-map.c\<close>, \<open>filesys/inode.c\<close>, \<open>filesys/file.c\<close>,
    \<open>filesys/directory.c\<close>, \<open>filesys/filesys.c\<close>) on the sectors of a device (\<open>block_read\<close> and
    \<open>block_write\<close> of \<open>devices/block.c\<close>). The page allocator and the free map are clients of the bitmap, through the locale
    \<open>range_allocator\<close>, which \<open>Pintos_Bitmap\<close> interprets on the bitmap's operations. In the file system the free
    map allocates the sectors of the file it is kept in itself, the inodes read and write bytes through
    sectors, files and directories are clients of the inodes, and \<open>filesys.c\<close> composes all of them.

  \<^bold>\<open>The theories.\<close>

  \<^item> \<open>Prelude\<close>: fixed-width types, the error type \<open>c_error\<close> and \<open>bindE\<close>, checked array access,
    little endian words, lemmas and collections that the components share.
  \<^item> \<open>Arm_Common\<close> (\<open>common.c\<close>, \<open>cond.c\<close>), \<open>Arm_Data\<close> (\<open>data_processing.c\<close>, \<open>multiply.c\<close>, \<open>branch.c\<close>),
    \<open>Arm_Memory\<close> (\<open>gpio.c\<close>, \<open>single_data_transfer.c\<close>), \<open>Arm_Emulate\<close> (\<open>emulate.c\<close>): the emulator. The
    registers are the list \<open>registers\<close> of 17 words (16 is the CPSR), memory and GPIO memory are lists
    of bytes, and what the program prints is a list of \<open>message\<close> values. The state of the main loop is
    the record \<open>emulator\<close>: the machine, the decoded instruction, and the fetch pointer as an index into
    memory. The main loop may run for ever, so \<open>run_emulator\<close> has fuel; \<open>run_emulator_stable\<close> shows that
    any sufficient fuel gives the same result. \<open>Arm_Properties\<close>: its properties.
  \<^item> \<open>Asm_Defs\<close> (\<open>assembler_defs.c\<close> and the parts of the C library the assembler relies on),
    \<open>Asm_Encode\<close> (encoders and symbol table), \<open>Asm_Main\<close> (\<open>assembler/single_data_transfer\<close>,
    \<open>assemble.c\<close>), \<open>Asm_Operand2\<close> (the second operand of data processing, from its source text through its
    encoding to the emulator's value), \<open>Asm_Properties\<close>.
  \<^item> \<open>Pintos_List\<close>, \<open>Pintos_Sort\<close> (\<open>list.c\<close>): the doubly linked list over a heap of links \<open>nxt\<close>,
    \<open>prv\<close>, each operation on pointers as the code has it; \<open>dll h L xs\<close> says that the heap \<open>h\<close> holds the
    elements \<open>xs\<close> between the head and the tail of \<open>L\<close>. Loops over pointers have fuel, and every
    theorem says that fuel above the number of elements is enough. The merge sort refines a functional
    one; the orders are parameters, through the locales \<open>list_less\<close> and \<open>element_order\<close>.
    \<open>Pintos_List_Properties\<close>: their properties.
  \<^item> \<open>Pintos_Bitmap\<close> (\<open>bitmap.c\<close>): words of 32 bits, abstracted by \<open>bmap\<close> to a list of booleans.
    \<open>Pintos_Pages\<close> (\<open>palloc.c\<close>, \<open>vaddr.h\<close>, \<open>free-map.c\<close>): the two allocators. \<open>Pintos_Arith\<close>
    (\<open>arithmetic.c\<close>): 64-bit division. \<open>Pintos_Kernel_Properties\<close>: the properties of these parts.
  \<^item> \<open>Pintos_Hash\<close> (\<open>hash.c\<close>): the hash table, an array of the lists of \<open>Pintos_List\<close> in one heap.
    \<open>hash_rep h t S\<close> says that the table \<open>t\<close> in the heap \<open>h\<close> holds the set \<open>S\<close>; the operations refine
    those of the set. What a client's hash and comparison function must satisfy is the locale
    \<open>hash_contract\<close>, interpreted on \<open>hash_int\<close>. \<open>malloc\<close> is a parameter and may fail.
  \<^item> \<open>Pintos_String\<close> (\<open>string.c\<close>) and \<open>Pintos_Stdlib\<close> (\<open>stdlib.c\<close>): strings and blocks in a byte memory,
    a list of bytes in which address 0 is NULL and an access out of range is an error; number parsing,
    heap sort and binary search, whose comparison function is a parameter through the locale
    \<open>comparison\<close>, interpreted on \<open>memcmp\<close>. Loops over strings end at the end of the memory at the latest,
    so they are total without fuel. \<open>Pintos_Random\<close> (\<open>random.c\<close>): the RC4 generator.
  \<^item> \<open>Pintos_Printf\<close> (\<open>stdio.c\<close>): formats are strings in a byte memory, arguments a list with the size of
    each, and the output function changes a state that it is a parameter over; \<open>snprintf\<close> is the output
    to a second memory. \<open>Pintos_Printf_Properties\<close> shows first that the text does not depend on the
    output function (\<open>emits\<close>), so that the other properties are about the text that \<open>text_out\<close> collects.
    \<open>Pintos_Printf_Format\<close>: formats as lists of items, the text the C standard gives each (\<open>item_text\<close>), and
    that \<open>vprintf\<close> prints this text.
  \<^item> \<open>Pintos_Threads\<close> (\<open>thread.c\<close>, \<open>synch.c\<close>, \<open>interrupt.c\<close>, \<open>timer.c\<close>): the record \<open>kernel\<close> has the ready list,
    the list of all threads, semaphores, locks, conditions, sleeping threads, the interrupt level and the
    ticks. What a thread has left to do is a list of operations \<open>op\<close>, cut where the code can be preempted
    or gives the processor away; a step of \<open>kstep\<close> runs one of the current thread, starts a new call of
    it, or takes a timer interrupt when interrupts are on. \<open>reachable\<close> states are those that start-up and any interleaving lead
    to. \<open>Pintos_Threads_Inv\<close> and \<open>Pintos_Threads_Step\<close> state the invariant of the state and show that every
    step keeps it. \<open>Pintos_Locks\<close>: holders of locks over the history of a run. \<open>Pintos_Sleep\<close>: the sorted list
    of sleeping threads. \<open>Pintos_Wakeups\<close>: every wake-up is accounted for. \<open>Pintos_Progress\<close>: interrupts come
    back on. \<open>Pintos_Threads_Properties\<close>: the properties.
  \<^item> \<open>Pintos_Inode\<close> (\<open>block.c\<close>, reading and writing of \<open>inode.c\<close>), \<open>Pintos_Filesys\<close> (the rest of \<open>inode.c\<close>,
    \<open>file.c\<close>, \<open>free-map.c\<close>) and \<open>Pintos_Directory\<close> (\<open>directory.c\<close>, \<open>filesys.c\<close>): the model. The record \<open>fs\<close> has
    the device as a list of sectors, the list of open inodes, the heaps of open inodes, files and
    directories, the free map and its file, and the answers that \<open>malloc\<close> has left to give (0 when it
    fails). Inodes and directory entries are the bytes the code writes to the device.
  \<^item> \<open>Pintos_Inode_Refinement\<close>: the device is the flat list of its bytes (\<open>flat\<close>), the \<open>content\<close> of an inode a
    part of it, and the loops over sectors read and replace parts of the content.
    \<open>Pintos_Directory_Refinement\<close>: the content of a directory is the table \<open>dir_table\<close> from names to
    sectors, and lookup and add are lookup and update of it. \<open>Pintos_Map_File\<close>: the bits of the free map
    and those in its file (\<open>synced\<close>). \<open>Pintos_Inode_Create\<close>: a new inode in a free sector, and its zeroed data.
  \<^item> \<open>Pintos_Filesys_Refinement\<close>, \<open>_Invariant\<close>, \<open>_Names\<close>, \<open>_Remove\<close>, \<open>_Format\<close>: creating, opening and removing by
    name, formatting and starting, against the invariant \<open>fs_inv\<close>: every name leads to a file whose sectors are marked, no two
    files overlap each other, the root or the free map, and the map on the device is the one in memory. These assume
    that \<open>malloc\<close> gives fresh addresses (\<open>fresh\<close>). \<open>Pintos_Filesys_Write\<close>: writing to a
    file that has a name, and closing it. \<open>Pintos_Filesys_Properties\<close>: the properties, on a sample device that is formatted, filled,
    emptied and started again.
  \<^item> \<open>Pintos_Pagedir\<close> (\<open>pagedir.c\<close>, \<open>pte.h\<close>, \<open>paging_init\<close>): page directories and tables as words in the byte memory
    of the page allocator, which gives and takes their pages; CR3 is a part of the record \<open>vm\<close>.
    \<open>Pintos_Pagedir_Refinement\<close>: a directory is a function \<open>translate\<close> from addresses to pages with their rights;
    the invariant \<open>vm_inv\<close> of all directories in use says that they share no tables but the kernel's.
    \<open>Pintos_Pagedir_Destroy\<close>: what is freed with a directory. \<open>Pintos_Paging_Init\<close>: the first directory.
    \<open>Pintos_Pagedir_Properties\<close>: the properties.
  \<^item> \<open>Pintos_Process\<close> (\<open>process.c\<close>, \<open>tss.c\<close>): loading, starting and leaving user programs, on the record \<open>proc\<close> that has the file
    system, the memory with its page tables, and the page directory of the running thread. \<open>Pintos_Process_Memory\<close>: the invariant
    \<open>own_space\<close> of the program's address space, and what taking, mapping, filling and giving back a frame does to it.
    \<open>Pintos_Process_Load\<close>: the loop of \<open>load_segment\<close> and one program header. \<open>Pintos_Process_Image\<close>: \<open>setup_stack\<close>, all program
    headers and the ELF header, against \<open>program_view\<close>, the bytes and rights that the file says each address has.
    \<open>Pintos_Process_Program\<close>: \<open>load\<close> with its directory and its file. \<open>Pintos_Process_Truncated\<close>: what happens when the file ends too early.
    \<open>Pintos_Process_Properties\<close>: the properties, on a sample executable in a sample file system.

  \<^bold>\<open>Conventions.\<close> A C function that can fail returns \<open>c_error + 'a\<close>: an assertion, a panic or an
  undefined access is an \<open>Inl\<close> and ends the computation. Machine integers are words of their width;
  \<open>size_t\<close> values that the code bounds are \<open>nat\<close> with the wrap-around written out (\<open>add32\<close>). What the
  code reads uninitialised is an argument of the model (\<open>junk\<close>, \<open>seed\<close>, the record \<open>c_env\<close> of the
  assembler: what follows unterminated buffers, the stale \<open>next\<close> of the symbol table's head, and how
  many bytes of a block that is too small can be used). The \<open>size_t\<close> indices of \<open>stdlib.c\<close> and the ticks
  of the timer are unbounded, and the negation of the least \<open>int64_t\<close> in \<open>arithmetic.c\<close> wraps around.
  The answers of \<open>malloc\<close> are an argument, and its failures are branches of the model; the theorems about
  the file system and about programs suppose in their invariant that it succeeds with new addresses.
  The threads are those of a kernel without USERPROG.

  \<^bold>\<open>Not modelled.\<close> The text that the emulator and the assembler print (only which message is printed),
  freeing of memory as such (a freed structure leaves its heap in the file system, and \<open>malloc.c\<close> is the
  choice of addresses), the pool locks (each allocator operation is one step; the file system code has
  no locks of its own and is run by one thread), and, of Pintos, descriptor
  tables and the interrupt controller, calibration of the timer and busy waiting, the device drivers and
  the registration, names and roles of block devices, the console, exceptions and system calls, and \<open>filesys/fsutil.c\<close>; the vendored
  JSON library, the test programs and the benchmarks.
\<close>

end
